(* ===== verification/Flyos_Prelude.thy ===== *)
theory Flyos_Prelude
  imports Main "HOL-Library.Word"
begin

text \<open>
  Shared vocabulary of the flyos development: the C integer types as machine words, the
  flat byte memory that physical (identity mapped) addresses index, little-endian
  encoding and decoding of words, page alignment, and the address lists that the
  \<open>for (a = s; a < e; a += 4096)\<close> loops of the kernel visit.  Theorems that
  components share are collected in the \<open>named_theorems\<close> below.
\<close>

unbundle bit_operations_syntax

named_theorems word_nat \<open>rules that move word arithmetic to natural numbers\<close>
named_theorems mem_simps \<open>reads after writes in byte memory\<close>
named_theorems paging \<open>page alignment and page ranges\<close>

section \<open>C integer types\<close>

type_synonym u8 = "8 word"
type_synonym u16 = "16 word"
type_synonym u32 = "32 word"
type_synonym u64 = "64 word"

text \<open>The C conversion of a 64-bit register value to \<open>int\<close>: truncate to 32 bits and read signed.\<close>

definition c_int :: "u64 \<Rightarrow> int" where
  "c_int w = sint (ucast w :: u32)"

section \<open>Words and natural numbers\<close>

lemma c_int_of_nat: "n < 2 ^ 31 \<Longrightarrow> c_int (of_nat n) = int n"
  by (simp add: c_int_def unsigned_of_nat take_bit_nat_eq_self signed_of_nat signed_take_bit_int_eq_self)

lemma word_less_unat [word_nat]: "a < b \<longleftrightarrow> unat a < unat (b :: 'a::len word)"
  by (rule word_less_nat_alt)

lemma word_le_unat [word_nat]: "a \<le> b \<longleftrightarrow> unat a \<le> unat (b :: 'a::len word)"
  by (rule word_le_nat_alt)

lemma unat_plus_small [word_nat]:
  "unat a + unat b < 2 ^ LENGTH('a) \<Longrightarrow> unat (a + b) = unat a + unat (b :: 'a::len word)"
  by (rule unat_add_lem [THEN iffD1])

lemma unat_mult_small [word_nat]:
  "unat a * unat b < 2 ^ LENGTH('a) \<Longrightarrow> unat (a * b) = unat a * unat (b :: 'a::len word)"
  by (rule unat_mult_lem [THEN iffD1])

lemma unat_minus_le [word_nat]:
  "b \<le> a \<Longrightarrow> unat (a - b) = unat a - unat (b :: 'a::len word)"
  by (rule unat_sub)

lemma unat_lt_64 [simp]: "unat (a :: u64) < 18446744073709551616"
  using unsigned_less [of a] by simp

lemma unat_of_nat_64: "n < 18446744073709551616 \<Longrightarrow> unat (of_nat n :: u64) = n"
  by (simp add: unat_of_nat take_bit_eq_mod)

lemma unat_succ [word_nat]: "i < n \<Longrightarrow> unat (i + 1) = Suc (unat (i :: 'a::len word))"
proof -
  assume "i < n"
  then have "unat i < unat n" by (simp add: word_less_nat_alt)
  also have "unat n < 2 ^ LENGTH('a)" by (rule unsigned_less)
  finally have "unat i + unat (1 :: 'a word) < 2 ^ LENGTH('a)"
    using \<open>unat i < unat n\<close> by (simp only: unat_1) (metis Suc_eq_plus1 less_trans_Suc unsigned_less)
  then show ?thesis by (simp add: unat_plus_small)
qed

lemma unat_eq_0 [simp]: "unat (a :: 'a::len word) = 0 \<longleftrightarrow> a = 0"
  by (rule unat_eq_zero)

lemma unat_eqI: "unat a = unat b \<Longrightarrow> a = (b :: 'a::len word)"
  by (simp add: word_unat_eq_iff)

lemma word_ne_0_pos: "(a :: 'a::len word) \<noteq> 0 \<Longrightarrow> 0 < unat a"
  by (simp add: unat_gt_0)

section \<open>Little-endian byte sequences\<close>

primrec le_word :: "u8 list \<Rightarrow> 'a::len word" where
  "le_word [] = 0"
| "le_word (b # bs) = ucast b OR push_bit 8 (le_word bs)"

primrec le_bytes :: "nat \<Rightarrow> 'a::len word \<Rightarrow> u8 list" where
  "le_bytes 0 w = []"
| "le_bytes (Suc n) w = ucast w # le_bytes n (drop_bit 8 w)"

lemma length_le_bytes [simp]: "length (le_bytes n w) = n"
  by (induction n arbitrary: w) simp_all

lemma le_word_bytes: "le_word (le_bytes n w) = take_bit (8 * n) (w :: 'a::len word)"
proof (induction n arbitrary: w)
  case (Suc n)
  show ?case
    by (rule bit_word_eqI) (auto simp: Suc.IH bit_simps)
qed simp

lemma le_word_bytes_all:
  "LENGTH('a) \<le> 8 * n \<Longrightarrow> le_word (le_bytes n w) = (w :: 'a::len word)"
  by (simp add: le_word_bytes take_bit_word_eq_self)

lemma nth_le_bytes: "i < n \<Longrightarrow> le_bytes n w ! i = ucast (drop_bit (8 * i) (w :: 'a::len word))"
proof (induction n arbitrary: i w)
  case (Suc n)
  then show ?case
    by (cases i) (auto simp: drop_bit_drop_bit add.commute)
qed simp

section \<open>Byte memory\<close>

text \<open>
  Memory is a total map from addresses to bytes, as the hardware's is.  Multi-byte loads
  and stores are little-endian, as on x86-64.
\<close>

type_synonym mem = "u64 \<Rightarrow> u8"

definition rd_bytes :: "mem \<Rightarrow> u64 \<Rightarrow> nat \<Rightarrow> u8 list" where
  "rd_bytes m a n = map (\<lambda>i. m (a + of_nat i)) [0..<n]"

fun wr_bytes :: "mem \<Rightarrow> u64 \<Rightarrow> u8 list \<Rightarrow> mem" where
  "wr_bytes m a [] = m"
| "wr_bytes m a (b # bs) = wr_bytes (m(a := b)) (a + 1) bs"

definition rd16 :: "mem \<Rightarrow> u64 \<Rightarrow> u16" where
  "rd16 m a = le_word (rd_bytes m a 2)"

definition rd32 :: "mem \<Rightarrow> u64 \<Rightarrow> u32" where
  "rd32 m a = le_word (rd_bytes m a 4)"

definition rd64 :: "mem \<Rightarrow> u64 \<Rightarrow> u64" where
  "rd64 m a = le_word (rd_bytes m a 8)"

definition wr64 :: "mem \<Rightarrow> u64 \<Rightarrow> u64 \<Rightarrow> mem" where
  "wr64 m a v = wr_bytes m a (le_bytes 8 v)"

lemma length_rd_bytes [simp]: "length (rd_bytes m a n) = n"
  by (simp add: rd_bytes_def)

lemma nth_rd_bytes [simp]: "i < n \<Longrightarrow> rd_bytes m a n ! i = m (a + of_nat i)"
  by (simp add: rd_bytes_def)

lemma wr_bytes_apply:
  assumes "length bs < 2 ^ 64"
  shows "wr_bytes m a bs x = (if unat (x - a) < length bs then bs ! unat (x - a) else m x)"
  using assms
proof (induction bs arbitrary: m a)
  case (Cons b bs)
  have step: "unat (x - a) = Suc (unat (x - (a + 1)))" if "x \<noteq> a"
  proof -
    from that have "x - a \<noteq> 0" by simp
    then have "unat (x - a - 1) = unat (x - a) - 1"
      by (simp add: unat_minus_one)
    moreover from \<open>x - a \<noteq> 0\<close> have "0 < unat (x - a)"
      by (rule word_ne_0_pos)
    moreover have "x - a - 1 = x - (a + 1)" by simp
    ultimately show ?thesis by simp
  qed
  have wrap: "unat (a - (a + 1)) = 2 ^ 64 - 1"
  proof -
    have "a - (a + 1) = - 1" by simp
    then show ?thesis
      by (simp only: unsigned_minus_1_eq_mask) (simp add: mask_eq_exp_minus_1)
  qed
  show ?case
  proof (cases "x = a")
    case True
    have "\<not> unat (a - (a + 1)) < length bs"
      using Cons.prems by (simp only: wrap) simp
    with True Cons show ?thesis by (simp del: diff_add_eq_diff_diff_swap)
  next
    case False
    with Cons step show ?thesis by simp
  qed
qed simp

lemma rd_wr_bytes_same [mem_simps]:
  assumes "length bs < 2 ^ 64"
  shows "rd_bytes (wr_bytes m a bs) a (length bs) = bs"
proof (rule nth_equalityI)
  fix i
  assume "i < length (rd_bytes (wr_bytes m a bs) a (length bs))"
  with assms show "rd_bytes (wr_bytes m a bs) a (length bs) ! i = bs ! i"
    by (simp add: wr_bytes_apply unat_of_nat_64)
qed simp

lemma rd64_wr64_same [mem_simps]: "rd64 (wr64 m a v) a = v"
  using rd_wr_bytes_same [of "le_bytes 8 v" m a]
  by (simp add: rd64_def wr64_def le_word_bytes_all)

lemma unat_diff_dvd:
  assumes "d dvd unat (a :: u64)" and "d dvd unat b" and "d dvd 18446744073709551616"
  shows "d dvd unat (a - b)"
proof -
  have "unat (a - b) = (if unat b \<le> unat a then unat a - unat b
      else unat a + 18446744073709551616 - unat b)"
    by (simp add: unat_sub_if')
  with assms show ?thesis
    by (auto intro: dvd_diff_nat)
qed

lemma rd64_wr64_other [mem_simps]:
  assumes al: "8 dvd unat a" "8 dvd unat b" and ne: "a \<noteq> b"
  shows "rd64 (wr64 m a v) b = rd64 m b"
proof -
  have d: "8 dvd unat (b - a)" using al by (auto intro: unat_diff_dvd)
  have nz: "0 < unat (b - a)" using ne by (auto intro: word_ne_0_pos)
  have far: "8 \<le> unat (b + of_nat i - a)" if "i < 8" for i
  proof -
    from d nz obtain k where k: "unat (b - a) = 8 * k" "0 < k" by (auto elim: dvdE)
    have "8 * k < 18446744073709551616" using k(1) unat_lt_64 [of "b - a"] by simp
    then have "8 * k + i < 18446744073709551616" using that by presburger
    then have "unat ((b - a) + of_nat i) = 8 * k + i"
      using that k by (simp add: unat_plus_small unat_of_nat_64)
    then show ?thesis using k by (simp add: algebra_simps)
  qed
  have "rd_bytes (wr64 m a v) b 8 = rd_bytes m b 8"
  proof (rule nth_equalityI)
    fix i assume "i < length (rd_bytes (wr64 m a v) b 8)"
    then have "i < 8" by simp
    with far [OF this] show "rd_bytes (wr64 m a v) b 8 ! i = rd_bytes m b 8 ! i"
      by (simp add: wr64_def wr_bytes_apply)
  qed simp
  then show ?thesis by (simp add: rd64_def)
qed

section \<open>Pages\<close>

definition PAGE_SIZE :: u64 where
  "PAGE_SIZE = 4096"

definition align_down :: "u64 \<Rightarrow> u64" where
  "align_down a = a AND NOT (PAGE_SIZE - 1)"

definition align_up :: "u64 \<Rightarrow> u64" where
  "align_up a = (a + PAGE_SIZE - 1) AND NOT (PAGE_SIZE - 1)"

definition page_aligned :: "u64 \<Rightarrow> bool" where
  "page_aligned a \<longleftrightarrow> 4096 dvd unat a"

lemma unat_and_not_mask:
  "unat ((a :: 'a::len word) AND NOT (mask n)) = unat a div 2 ^ n * 2 ^ n"
proof -
  have "a AND NOT (mask n) = push_bit n (drop_bit n a)"
    by (rule bit_word_eqI) (auto simp: bit_simps)
  also have "\<dots> = a - take_bit n a"
    using bits_ident [of n a] by (simp add: algebra_simps)
  finally have eq: "a AND NOT (mask n) = a - take_bit n a" .
  have tb: "unat (take_bit n a) = unat a mod 2 ^ n"
    by (simp only: unsigned_take_bit_eq) (simp only: take_bit_eq_mod)
  then have "take_bit n a \<le> a"
    by (simp add: word_le_nat_alt)
  then show ?thesis
    unfolding eq by (simp add: unat_sub tb minus_mod_eq_div_mult)
qed

lemma unat_align_down [paging]: "unat (align_down a) = unat a div 4096 * 4096"
  using unat_and_not_mask [of a 12] by (simp add: align_down_def PAGE_SIZE_def mask_eq_exp_minus_1)

lemma align_down_aligned [paging, simp]: "page_aligned (align_down a)"
  by (simp add: page_aligned_def unat_align_down)

lemma align_up_aligned [paging, simp]: "page_aligned (align_up a)"
  by (simp add: align_up_def page_aligned_def flip: align_down_def add: unat_align_down)

lemma unat_align_up [paging]:
  assumes "unat a + 4095 < 18446744073709551616"
  shows "unat (align_up a) = (unat a + 4095) div 4096 * 4096"
proof -
  have "unat (a + 4095) = unat a + 4095" using assms by (simp add: unat_plus_small)
  then have "unat (align_down (a + 4095)) = (unat a + 4095) div 4096 * 4096"
    by (simp add: unat_align_down)
  moreover have "align_up a = align_down (a + 4095)"
    by (simp add: align_up_def align_down_def PAGE_SIZE_def algebra_simps)
  ultimately show ?thesis by simp
qed

text \<open>
  The addresses visited by \<open>for (a = s; a < e; a += PAGE_SIZE)\<close> when both bounds are
  page aligned; \<open>page_range_loop\<close> is the loop's own recursion.
\<close>

definition page_range :: "u64 \<Rightarrow> u64 \<Rightarrow> u64 list" where
  "page_range s e = map (\<lambda>k. s + of_nat k * PAGE_SIZE) [0..<(unat e - unat s) div 4096]"

lemma page_range_empty [simp]: "e \<le> s \<Longrightarrow> page_range s e = []"
  by (simp add: page_range_def word_le_nat_alt)

lemma dvd_less_step: "(d::nat) dvd a \<Longrightarrow> d dvd b \<Longrightarrow> a < b \<Longrightarrow> a + d \<le> b"
  by (elim dvdE) (metis Suc_leI add.commute mult_Suc_right mult_le_mono2 mult_less_cancel1)

lemma page_aligned_next:
  assumes "page_aligned s" and "page_aligned e" and "s < e"
  shows "unat (s + PAGE_SIZE) = unat s + 4096" and "unat s + 4096 \<le> unat e"
proof -
  show le: "unat s + 4096 \<le> unat e"
    using assms unfolding page_aligned_def word_less_nat_alt by (rule dvd_less_step)
  then have "unat s + 4096 < 18446744073709551616"
    using unat_lt_64 [of e] by linarith
  then show "unat (s + PAGE_SIZE) = unat s + 4096"
    by (simp add: PAGE_SIZE_def unat_plus_small)
qed

lemma page_range_loop [paging]:
  assumes "page_aligned s" and "page_aligned e"
  shows "page_range s e = (if s < e then s # page_range (s + PAGE_SIZE) e else [])"
proof (cases "s < e")
  case True
  note nxt = page_aligned_next [OF assms True]
  from assms obtain x y where xy: "unat s = 4096 * x" "unat e = 4096 * y"
    by (auto simp: page_aligned_def elim!: dvdE)
  have cnt: "(unat e - unat s) div 4096 = Suc ((unat e - unat (s + PAGE_SIZE)) div 4096)"
    using nxt xy by simp
  have "map (\<lambda>k. s + of_nat k * PAGE_SIZE) [0..<Suc n] =
      s # map (\<lambda>k. s + PAGE_SIZE + of_nat k * PAGE_SIZE) [0..<n]" for n
    by (simp add: upt_conv_Cons map_Suc_upt [symmetric] algebra_simps del: upt_Suc)
  with True show ?thesis by (simp only: page_range_def cnt if_True)
qed simp

lemma set_page_range [paging]:
  assumes "page_aligned s" and "page_aligned e"
  shows "set (page_range s e) = {a. page_aligned a \<and> s \<le> a \<and> a < e}"
  using assms
proof (induction "unat e - unat s" arbitrary: s rule: less_induct)
  case less
  show ?case
  proof (cases "s < e")
    case True
    note nxt = page_aligned_next [OF less.prems True]
    have al: "page_aligned (s + PAGE_SIZE)"
      using less.prems nxt by (simp add: page_aligned_def)
    have "set (page_range (s + PAGE_SIZE) e) = {a. page_aligned a \<and> s + PAGE_SIZE \<le> a \<and> a < e}"
      by (rule less.hyps) (use nxt al less.prems in auto)
    moreover have "s + PAGE_SIZE \<le> a" if "page_aligned a" "s < a" for a
      using less.prems(1) nxt(1) that dvd_less_step [of 4096 "unat s" "unat a"]
      by (simp add: page_aligned_def word_less_nat_alt word_le_nat_alt)
    moreover have "s < s + PAGE_SIZE" by (simp add: word_less_nat_alt nxt)
    ultimately show ?thesis
      using True less.prems(1)
      by (subst page_range_loop [OF less.prems]) (auto dest: order.trans order_le_neq_trans)
  next
    case False
    then show ?thesis by auto
  qed
qed

end
