(* ===== verification/Pmm.thy ===== *)
theory Pmm
  imports Flyos_Prelude
begin

text \<open>
  The physical page allocator, \<open>kernel/mm/pmm.c\<close>.  The record \<open>pmm\<close> holds the file's
  static variables; \<open>bitmap\<close> is the byte array, indexed as the C code indexes it.
  \<open>pmm_init\<close> reads the multiboot2 information structure from byte memory; it is an
  \<open>option\<close> because its tag loops need not end (\<open>None\<close>: no return, either an endless
  tag loop or the divide fault of a zero \<open>entry_size\<close>, whose handler halts).
\<close>

section \<open>State and bitmap\<close>

definition MAX_MEMORY :: u64 where
  "MAX_MEMORY = 4 * 1024 * 1024 * 1024"

definition MAX_PAGES :: u64 where
  "MAX_PAGES = MAX_MEMORY div PAGE_SIZE"

definition BITMAP_SIZE :: u64 where
  "BITMAP_SIZE = MAX_PAGES div 8"

record pmm =
  bitmap :: "u64 \<Rightarrow> u8"
  total_pages :: u64
  used_pages :: u64
  search_hint :: u64

definition bitmap_set :: "(u64 \<Rightarrow> u8) \<Rightarrow> u64 \<Rightarrow> u64 \<Rightarrow> u8" where
  "bitmap_set bm page =
     bm(drop_bit 3 page := bm (drop_bit 3 page) OR push_bit (unat (page AND 7)) 1)"

definition bitmap_clear :: "(u64 \<Rightarrow> u8) \<Rightarrow> u64 \<Rightarrow> u64 \<Rightarrow> u8" where
  "bitmap_clear bm page =
     bm(drop_bit 3 page := bm (drop_bit 3 page) AND NOT (push_bit (unat (page AND 7)) 1))"

definition bitmap_test :: "(u64 \<Rightarrow> u8) \<Rightarrow> u64 \<Rightarrow> bool" where
  "bitmap_test bm page \<longleftrightarrow> bm (drop_bit 3 page) AND push_bit (unat (page AND 7)) 1 \<noteq> 0"

section \<open>Allocation and release\<close>

text \<open>The search loop \<open>for (i = from; i < to; i++) if (!bitmap_test(i)) ...\<close>.\<close>

function find_free :: "(u64 \<Rightarrow> u8) \<Rightarrow> u64 \<Rightarrow> u64 \<Rightarrow> u64 option" where
  "find_free bm i n =
     (if i < n then (if \<not> bitmap_test bm i then Some i else find_free bm (i + 1) n) else None)"
  by pat_completeness auto
termination
proof (relation "measure (\<lambda>(bm, i, n). unat n - unat i)")
  fix bm :: "u64 \<Rightarrow> u8" and i n :: u64
  assume "i < n"
  moreover from this have "unat (i + 1) = Suc (unat i)" by (rule unat_succ)
  ultimately show "((bm, i + 1, n), bm, i, n) \<in> measure (\<lambda>(bm, i, n). unat n - unat i)"
    by (simp add: word_less_nat_alt)
qed simp

declare find_free.simps [simp del]

definition take_page :: "pmm \<Rightarrow> u64 \<Rightarrow> u64 \<times> pmm" where
  "take_page st i = (i * PAGE_SIZE,
     st\<lparr>bitmap := bitmap_set (bitmap st) i, used_pages := used_pages st + 1, search_hint := i + 1\<rparr>)"

definition pmm_alloc_page :: "pmm \<Rightarrow> u64 \<times> pmm" where
  "pmm_alloc_page st =
     (case find_free (bitmap st) (search_hint st) (total_pages st) of
        Some i \<Rightarrow> take_page st i
      | None \<Rightarrow>
          (case find_free (bitmap st) 0 (search_hint st) of
             Some i \<Rightarrow> take_page st i
           | None \<Rightarrow> (0, st)))"

definition pmm_free_page :: "u64 \<Rightarrow> pmm \<Rightarrow> pmm" where
  "pmm_free_page phys st =
     (let page = phys div PAGE_SIZE in
      if page < total_pages st \<and> bitmap_test (bitmap st) page then
        st\<lparr>bitmap := bitmap_clear (bitmap st) page, used_pages := used_pages st - 1,
           search_hint := (if page < search_hint st then page else search_hint st)\<rparr>
      else st)"

definition pmm_total_pages :: "pmm \<Rightarrow> u64" where
  "pmm_total_pages st = total_pages st"

definition pmm_used_pages :: "pmm \<Rightarrow> u64" where
  "pmm_used_pages st = used_pages st"

definition pmm_free_pages :: "pmm \<Rightarrow> u64" where
  "pmm_free_pages st = total_pages st - used_pages st"

section \<open>Initialisation\<close>

definition mark_page :: "u64 \<Rightarrow> pmm \<Rightarrow> pmm" where
  "mark_page a st =
     (let p = a div PAGE_SIZE in
      if p < total_pages st \<and> \<not> bitmap_test (bitmap st) p
      then st\<lparr>bitmap := bitmap_set (bitmap st) p, used_pages := used_pages st + 1\<rparr>
      else st)"

definition mark_used :: "u64 \<Rightarrow> u64 \<Rightarrow> pmm \<Rightarrow> pmm" where
  "mark_used start e st = fold mark_page (page_range (align_up start) (align_down e)) st"

definition unmark_page :: "u64 \<Rightarrow> pmm \<Rightarrow> pmm" where
  "unmark_page a st =
     (let pg = a div PAGE_SIZE in
      if pg < total_pages st \<and> bitmap_test (bitmap st) pg
      then st\<lparr>bitmap := bitmap_clear (bitmap st) pg, used_pages := used_pages st - 1\<rparr>
      else st)"

text \<open>
  The loop \<open>for (a = s; a + PAGE_SIZE <= e2; a += PAGE_SIZE)\<close>, whose bound has been
  clipped to \<open>MAX_MEMORY\<close> by the caller; the clip is repeated in the guard, because without
  it the wrapping addition need not reach the bound.
\<close>

function unmark_loop :: "u64 \<Rightarrow> u64 \<Rightarrow> pmm \<Rightarrow> pmm" where
  "unmark_loop a e2 st =
     (if a + PAGE_SIZE \<le> e2 \<and> e2 \<le> MAX_MEMORY then unmark_loop (a + PAGE_SIZE) e2 (unmark_page a st)
      else st)"
  by pat_completeness auto
termination
proof (relation "measure (\<lambda>(a, e2, st). unat (e2 - a))")
  fix a e2 :: u64 and st :: pmm
  assume g: "a + PAGE_SIZE \<le> e2 \<and> e2 \<le> MAX_MEMORY"
  have big: "4096 \<le> e2 - a"
  proof (rule ccontr)
    assume "\<not> 4096 \<le> e2 - a"
    then have d: "unat (e2 - a) < 4096" by (simp add: word_le_nat_alt)
    have e: "unat e2 \<le> 4294967296" using g by (simp add: MAX_MEMORY_def word_le_nat_alt)
    have c: "unat (4096 - (e2 - a)) = 4096 - unat (e2 - a)"
      using d by (subst unat_sub) (auto simp: word_le_nat_alt)
    have "unat (e2 + (4096 - (e2 - a))) = unat e2 + unat (4096 - (e2 - a))"
      by (rule unat_plus_small) (use c e in simp)
    moreover have "e2 + (4096 - (e2 - a)) = a + PAGE_SIZE" by (simp add: PAGE_SIZE_def)
    ultimately have "unat (a + PAGE_SIZE) = unat e2 + (4096 - unat (e2 - a))"
      using c by simp
    with g d show False by (simp add: word_le_nat_alt) linarith
  qed
  have "unat (e2 - (a + PAGE_SIZE)) = unat (e2 - a) - 4096"
    using unat_sub [OF big] by (simp add: PAGE_SIZE_def diff_diff_eq)
  then have "unat (e2 - (a + PAGE_SIZE)) < unat (e2 - a)"
    using big by (simp add: word_le_nat_alt)
  then show "((a + PAGE_SIZE, e2, unmark_page a st), a, e2, st) \<in> measure (\<lambda>(a, e2, st). unat (e2 - a))"
    by simp
qed simp

declare unmark_loop.simps [simp del]

text \<open>Multiboot2 tags and memory map entries, read from memory at the offsets of the C structs.\<close>

definition mb_type :: "mem \<Rightarrow> u64 \<Rightarrow> u32" where
  "mb_type m p = rd32 m p"

definition mb_size :: "mem \<Rightarrow> u64 \<Rightarrow> u32" where
  "mb_size m p = rd32 m (p + 4)"

definition mb_next :: "mem \<Rightarrow> u64 \<Rightarrow> u64" where
  "mb_next m p = p + ucast ((mb_size m p + 7) AND NOT 7)"

definition mmap_entry_size :: "mem \<Rightarrow> u64 \<Rightarrow> u32" where
  "mmap_entry_size m p = rd32 m (p + 8)"

definition mmap_count :: "mem \<Rightarrow> u64 \<Rightarrow> nat" where
  "mmap_count m p = unat ((mb_size m p - 16) div mmap_entry_size m p)"

definition mmap_entries :: "mem \<Rightarrow> u64 \<Rightarrow> u64 list" where
  "mmap_entries m p = map (\<lambda>i. p + 16 + of_nat i * ucast (mmap_entry_size m p)) [0..<mmap_count m p]"

definition ent_addr :: "mem \<Rightarrow> u64 \<Rightarrow> u64" where
  "ent_addr m e = rd64 m e"

definition ent_len :: "mem \<Rightarrow> u64 \<Rightarrow> u64" where
  "ent_len m e = rd64 m (e + 8)"

definition ent_type :: "mem \<Rightarrow> u64 \<Rightarrow> u32" where
  "ent_type m e = rd32 m (e + 16)"

definition max_of_entry :: "mem \<Rightarrow> u64 \<Rightarrow> u64 \<Rightarrow> u64" where
  "max_of_entry m e max_addr =
     (if ent_type m e = 1 \<and> max_addr < ent_addr m e + ent_len m e
      then ent_addr m e + ent_len m e else max_addr)"

definition unmark_entry :: "mem \<Rightarrow> u64 \<Rightarrow> pmm \<Rightarrow> pmm" where
  "unmark_entry m e st =
     (if ent_type m e = 1 then
        let s = align_up (ent_addr m e);
            r_end = ent_addr m e + ent_len m e;
            r_end = (if MAX_MEMORY < r_end then MAX_MEMORY else r_end)
        in unmark_loop s (align_down r_end) st
      else st)"

text \<open>
  Both passes of \<open>pmm_init\<close> walk the tags in the same way and apply a step to every
  memory map entry.
\<close>

partial_function (option) walk_tags ::
  "mem \<Rightarrow> (u64 \<Rightarrow> 's \<Rightarrow> 's) \<Rightarrow> u64 \<Rightarrow> u64 \<Rightarrow> 's \<Rightarrow> 's option" where
  "walk_tags m f p e s =
     (if p < e \<and> mb_type m p \<noteq> 0 then
        (if mb_type m p = 6 then
           (if mmap_entry_size m p = 0 then None
            else walk_tags m f (mb_next m p) e (fold f (mmap_entries m p) s))
         else walk_tags m f (mb_next m p) e s)
      else Some s)"

definition pmm_all_used :: "u64 \<Rightarrow> pmm" where
  "pmm_all_used n =
     \<lparr>bitmap = fold (\<lambda>i bm. bitmap_set bm (of_nat i)) [0..<unat n] (\<lambda>_. 0),
      total_pages = n, used_pages = n, search_hint = 0\<rparr>"

definition pmm_init :: "mem \<Rightarrow> u64 \<Rightarrow> u64 \<Rightarrow> u32 \<Rightarrow> pmm option" where
  "pmm_init m kernel_start kernel_end mb_info_phys =
     (let mb = ucast mb_info_phys :: u64; size = rd32 m mb; e = mb + ucast size in
      case walk_tags m (max_of_entry m) (mb + 8) e 0 of
        None \<Rightarrow> None
      | Some max_addr \<Rightarrow>
          (let max_addr = (if MAX_MEMORY < max_addr then MAX_MEMORY else max_addr) in
           case walk_tags m (unmark_entry m) (mb + 8) e (pmm_all_used (max_addr div PAGE_SIZE)) of
             None \<Rightarrow> None
           | Some st \<Rightarrow>
               Some (mark_used mb (mb + ucast size)
                      (mark_used kernel_start kernel_end
                        (mark_used 0 0x800000 st)))))"

section \<open>Bitmap lemmas\<close>

lemma unat_and_7: "unat ((p :: u64) AND 7) = unat p mod 8"
proof -
  have "p AND 7 = take_bit 3 p" by (simp add: take_bit_eq_mask mask_numeral)
  then show ?thesis by (simp add: take_bit_eq_mod unat_mod)
qed

lemma bitmap_test_bit: "bitmap_test bm p \<longleftrightarrow> bit (bm (drop_bit 3 p)) (unat p mod 8)"
  unfolding bitmap_test_def unat_and_7 by (metis and_exp_eq_0_iff_not_bit push_bit_of_1)

lemma page_split: "drop_bit 3 p = drop_bit 3 q \<and> unat p mod 8 = unat q mod 8 \<longleftrightarrow> p = (q :: u64)"
proof
  assume a: "drop_bit 3 p = drop_bit 3 q \<and> unat p mod 8 = unat q mod 8"
  then have "unat (drop_bit 3 p) = unat (drop_bit 3 q)" by simp
  then have "unat p div 8 = unat q div 8"
    by (simp add: drop_bit_eq_div unat_div)
  with a have "unat p = unat q" by (metis div_mult_mod_eq)
  then show "p = q" by (rule unat_eqI)
qed simp

lemma bitmap_test_set [simp]: "bitmap_test (bitmap_set bm p) q \<longleftrightarrow> q = p \<or> bitmap_test bm q"
proof (cases "drop_bit 3 q = drop_bit 3 p")
  case True
  then have "q = p \<longleftrightarrow> unat p mod 8 = unat q mod 8" using page_split [of q p] by auto
  moreover have "unat q mod 8 < 8" by simp
  ultimately show ?thesis
    using True by (auto simp: bitmap_test_bit bitmap_set_def unat_and_7 bit_simps)
next
  case False
  then show ?thesis by (auto simp: bitmap_test_bit bitmap_set_def)
qed

lemma bitmap_test_clear [simp]: "bitmap_test (bitmap_clear bm p) q \<longleftrightarrow> q \<noteq> p \<and> bitmap_test bm q"
proof (cases "drop_bit 3 q = drop_bit 3 p")
  case True
  then have "q = p \<longleftrightarrow> unat p mod 8 = unat q mod 8" using page_split [of q p] by auto
  moreover have "unat q mod 8 < 8" by simp
  ultimately show ?thesis
    using True by (auto simp: bitmap_test_bit bitmap_clear_def unat_and_7 bit_simps)
next
  case False
  then show ?thesis by (auto simp: bitmap_test_bit bitmap_clear_def)
qed

lemma find_free_Some:
  "find_free bm i n = Some j \<Longrightarrow>
   i \<le> j \<and> j < n \<and> \<not> bitmap_test bm j \<and> (\<forall>k. i \<le> k \<longrightarrow> k < j \<longrightarrow> bitmap_test bm k)"
proof (induction bm i n rule: find_free.induct)
  case (1 bm i n)
  show ?case
  proof (cases "i < n \<and> bitmap_test bm i")
    case True
    then have nxt: "unat (i + 1) = Suc (unat i)" by (auto intro: unat_succ)
    from True 1 have ih: "i + 1 \<le> j \<and> j < n \<and> \<not> bitmap_test bm j \<and>
        (\<forall>k. i + 1 \<le> k \<longrightarrow> k < j \<longrightarrow> bitmap_test bm k)"
      by (auto simp: find_free.simps [of bm i n])
    have "bitmap_test bm k" if "i \<le> k" "k < j" for k
    proof (cases "k = i")
      case False
      with that nxt have "i + 1 \<le> k" by (simp add: word_le_nat_alt word_unat_eq_iff)
      with ih that show ?thesis by blast
    qed (use True in simp)
    moreover have "i \<le> j" using ih nxt by (simp add: word_le_nat_alt)
    ultimately show ?thesis using ih by blast
  next
    case False
    with "1.prems" show ?thesis
      by (auto simp: find_free.simps [of bm i n] split: if_splits)
  qed
qed

lemma find_free_None:
  "find_free bm i n = None \<Longrightarrow> i \<le> k \<Longrightarrow> k < n \<Longrightarrow> bitmap_test bm k"
proof (induction bm i n rule: find_free.induct)
  case (1 bm i n)
  have i: "i < n" "bitmap_test bm i" "find_free bm (i + 1) n = None"
    using 1 by (auto simp: find_free.simps [of bm i n] split: if_splits)
  have nxt: "unat (i + 1) = Suc (unat i)" using i(1) by (rule unat_succ)
  show ?case
  proof (cases "k = i")
    case False
    with 1 nxt have "i + 1 \<le> k" by (simp add: word_le_nat_alt word_unat_eq_iff)
    with 1 i show ?thesis by simp
  qed (use i in simp)
qed

section \<open>The invariant\<close>

text \<open>
  \<open>pmm_used\<close> is the set of page numbers in use; \<open>used_pages\<close> counts it, every index
  stays inside the bitmap, and page 0 is never available once there is any page (its
  address 0 means failure).
\<close>

definition pmm_used :: "pmm \<Rightarrow> u64 set" where
  "pmm_used st = {p. p < total_pages st \<and> bitmap_test (bitmap st) p}"

definition pmm_count_ok :: "pmm \<Rightarrow> bool" where
  "pmm_count_ok st \<longleftrightarrow> total_pages st \<le> MAX_PAGES \<and> search_hint st \<le> total_pages st \<and>
     unat (used_pages st) = card (pmm_used st)"

definition pmm_inv :: "pmm \<Rightarrow> bool" where
  "pmm_inv st \<longleftrightarrow> pmm_count_ok st \<and> (0 < total_pages st \<longrightarrow> bitmap_test (bitmap st) 0)"

lemma pmm_used_finite [simp]: "finite (pmm_used st)"
  by (rule finite_subset [of _ UNIV]) auto

lemma card_less_word: "card {p :: u64. p < n} = unat n"
proof -
  have "{p. p < n} = of_nat ` {0..<unat n}"
  proof (intro equalityI subsetI)
    fix p assume "p \<in> {p. p < n}"
    then have "unat p \<in> {0..<unat n}" by (simp add: word_less_nat_alt)
    moreover have "p = of_nat (unat p)" by simp
    ultimately show "p \<in> of_nat ` {0..<unat n}" by blast
  next
    fix p :: u64 assume "p \<in> of_nat ` {0..<unat n}"
    then obtain k where "p = of_nat k" "k < unat n" by auto
    moreover from this have "k < 18446744073709551616"
      using unat_lt_64 [of n] by linarith
    ultimately show "p \<in> {p. p < n}" by (simp add: word_less_nat_alt unat_of_nat_64)
  qed
  moreover have "inj_on (of_nat :: nat \<Rightarrow> u64) {0..<unat n}"
  proof (rule inj_onI)
    fix x y assume "x \<in> {0..<unat n}" "y \<in> {0..<unat n}" and eq: "of_nat x = (of_nat y :: u64)"
    then have "x < 18446744073709551616" "y < 18446744073709551616"
      using less_trans [OF _ unat_lt_64 [of n]] by simp_all
    with arg_cong [OF eq, of unat] show "x = y" by (simp add: unat_of_nat_64)
  qed
  ultimately show ?thesis by (simp add: card_image)
qed

lemma card_pmm_used_le: "card (pmm_used st) \<le> unat (total_pages st)"
proof -
  have "card (pmm_used st) \<le> card {p. p < total_pages st}"
    by (rule card_mono) (auto simp: pmm_used_def intro: finite_subset [of _ UNIV])
  then show ?thesis by (simp add: card_less_word)
qed

lemma MAX_PAGES_eq [simp]: "MAX_PAGES = 1048576"
  by (simp add: MAX_PAGES_def MAX_MEMORY_def PAGE_SIZE_def)

lemma unat_page_addr:
  "p < total_pages st \<Longrightarrow> total_pages st \<le> MAX_PAGES \<Longrightarrow> unat (p * PAGE_SIZE) = unat p * 4096"
  by (simp add: PAGE_SIZE_def word_less_nat_alt word_le_nat_alt unat_mult_small)

lemma page_addr_div:
  assumes "p < total_pages st" and "total_pages st \<le> MAX_PAGES"
  shows "p * PAGE_SIZE div PAGE_SIZE = p"
proof -
  have "unat (p * PAGE_SIZE div PAGE_SIZE) = unat p"
    using unat_page_addr [OF assms] by (simp add: unat_div PAGE_SIZE_def)
  then show ?thesis by (rule unat_eqI)
qed

text \<open>Every bitmap access of the allocator is inside the array.\<close>

lemma bitmap_index_bound:
  assumes "pmm_count_ok st" and "p < total_pages st"
  shows "drop_bit 3 p < BITMAP_SIZE"
proof -
  have "unat p < 1048576"
    using assms by (simp add: pmm_count_ok_def word_less_nat_alt word_le_nat_alt)
  then have "unat p div 8 < 131072" by (simp add: div_less_iff_less_mult)
  then show ?thesis
    by (simp add: BITMAP_SIZE_def drop_bit_eq_div word_less_nat_alt unat_div)
qed

section \<open>Single operations\<close>

definition page_addr :: "u64 \<Rightarrow> u64" where
  "page_addr p = p * PAGE_SIZE"

lemma page_addr_inj:
  "total_pages st \<le> MAX_PAGES \<Longrightarrow> inj_on page_addr {p. p < total_pages st}"
  by (rule inj_on_inverseI [where g = "\<lambda>a. a div PAGE_SIZE"]) (simp add: page_addr_def page_addr_div)

lemma take_page_ok:
  assumes ok: "pmm_count_ok st" and p: "p < total_pages st" "\<not> bitmap_test (bitmap st) p"
  shows "fst (take_page st p) = page_addr p"
    and "pmm_used (snd (take_page st p)) = insert p (pmm_used st)"
    and "total_pages (snd (take_page st p)) = total_pages st"
    and "pmm_count_ok (snd (take_page st p))"
proof -
  show "fst (take_page st p) = page_addr p" "total_pages (snd (take_page st p)) = total_pages st"
    by (simp_all add: take_page_def page_addr_def)
  show used: "pmm_used (snd (take_page st p)) = insert p (pmm_used st)"
    using p by (auto simp: pmm_used_def take_page_def)
  have new: "p \<notin> pmm_used st" using p by (simp add: pmm_used_def)
  have lt: "card (pmm_used st) < unat (total_pages st)"
  proof -
    have "insert p (pmm_used st) \<subseteq> {q. q < total_pages st}"
      using p by (auto simp: pmm_used_def)
    then have "card (insert p (pmm_used st)) \<le> card {q. q < total_pages st}"
      by (intro card_mono) (auto intro: finite_subset [of _ UNIV])
    with new show ?thesis by (simp add: card_less_word)
  qed
  have "unat (used_pages st + 1) = Suc (card (pmm_used st))"
    using ok lt unat_succ [of "used_pages st" "total_pages st"]
    by (simp add: pmm_count_ok_def word_less_nat_alt)
  moreover have "p + 1 \<le> total_pages st"
    using p unat_succ [of p] by (simp add: word_less_nat_alt word_le_nat_alt)
  ultimately show "pmm_count_ok (snd (take_page st p))"
    using ok used new by (simp add: pmm_count_ok_def take_page_def)
qed

lemma pmm_alloc_cases:
  assumes ok: "pmm_count_ok st"
  obtains (page) p where "p < total_pages st" "\<not> bitmap_test (bitmap st) p"
      "pmm_alloc_page st = take_page st p"
  | (full) "\<forall>p < total_pages st. bitmap_test (bitmap st) p" "pmm_alloc_page st = (0, st)"
proof (cases "find_free (bitmap st) (search_hint st) (total_pages st)")
  case (Some i)
  then show thesis
    using find_free_Some [OF Some] by (intro page [of i]) (auto simp: pmm_alloc_page_def)
next
  case hi: None
  show thesis
  proof (cases "find_free (bitmap st) 0 (search_hint st)")
    case (Some i)
    with hi ok find_free_Some [OF Some] show thesis
      by (intro page [of i]) (auto simp: pmm_alloc_page_def pmm_count_ok_def dest: order.strict_trans2)
  next
    case None
    have "bitmap_test (bitmap st) p" if "p < total_pages st" for p
      using find_free_None [OF hi, of p] find_free_None [OF None, of p] that
      by (cases "search_hint st \<le> p") auto
    with hi None show thesis by (intro full) (auto simp: pmm_alloc_page_def)
  qed
qed

lemma pmm_free_used:
  assumes ok: "pmm_count_ok st" and p: "p \<in> pmm_used st"
  shows "pmm_used (pmm_free_page (page_addr p) st) = pmm_used st - {p}"
    and "pmm_count_ok (pmm_free_page (page_addr p) st)"
    and "total_pages (pmm_free_page (page_addr p) st) = total_pages st"
proof -
  have div: "page_addr p div PAGE_SIZE = p"
    using ok p page_addr_div [of p st] by (simp add: page_addr_def pmm_count_ok_def pmm_used_def)
  have st': "pmm_free_page (page_addr p) st =
      st\<lparr>bitmap := bitmap_clear (bitmap st) p, used_pages := used_pages st - 1,
         search_hint := (if p < search_hint st then p else search_hint st)\<rparr>"
    using p by (simp add: pmm_free_page_def div pmm_used_def)
  show used: "pmm_used (pmm_free_page (page_addr p) st) = pmm_used st - {p}"
    by (auto simp: st' pmm_used_def)
  show "total_pages (pmm_free_page (page_addr p) st) = total_pages st"
    by (simp add: st')
  have "0 < card (pmm_used st)" using p by (auto simp: card_gt_0_iff)
  then have "used_pages st \<noteq> 0" using ok by (auto simp: pmm_count_ok_def)
  then have "unat (used_pages st - 1) = unat (used_pages st) - 1"
    by (simp add: unat_minus_one)
  then have "unat (used_pages st - 1) = card (pmm_used st - {p})"
    using ok p by (simp add: pmm_count_ok_def card_Diff_singleton)
  moreover have "(if p < search_hint st then p else search_hint st) \<le> total_pages st"
    using ok p by (auto simp: pmm_count_ok_def pmm_used_def intro: less_imp_le)
  ultimately show "pmm_count_ok (pmm_free_page (page_addr p) st)"
    using ok used unfolding pmm_count_ok_def st' by simp
qed

section \<open>The page allocator interface\<close>

text \<open>
  Clients (the heap, the page tables, the ELF loader, the network rings) rely on four laws:
  a non-zero result is a managed page that nobody holds, it is held afterwards, a zero
  result means that every page is held, and every page is aligned.
\<close>

fun alloc_pages :: "('s \<Rightarrow> u64 \<times> 's) \<Rightarrow> nat \<Rightarrow> 's \<Rightarrow> u64 list \<times> 's" where
  "alloc_pages alloc 0 s = ([], s)"
| "alloc_pages alloc (Suc n) s =
     (case alloc s of (a, s') \<Rightarrow>
        if a = 0 then ([], s')
        else (case alloc_pages alloc n s' of (as, s'') \<Rightarrow> (a # as, s'')))"

locale page_allocator =
  fixes alloc :: "'s \<Rightarrow> u64 \<times> 's"
    and invar :: "'s \<Rightarrow> bool"
    and pages :: "'s \<Rightarrow> u64 set"
    and taken :: "'s \<Rightarrow> u64 set"
  assumes alloc_page: "invar s \<Longrightarrow> alloc s = (a, s') \<Longrightarrow> a \<noteq> 0 \<Longrightarrow>
      a \<in> pages s \<and> a \<notin> taken s \<and> taken s' = insert a (taken s) \<and> pages s' = pages s \<and> invar s'"
    and alloc_full: "invar s \<Longrightarrow> alloc s = (0, s') \<Longrightarrow> s' = s \<and> pages s \<subseteq> taken s"
    and pages_finite: "finite (pages s)"
    and pages_aligned: "invar s \<Longrightarrow> a \<in> pages s \<Longrightarrow> page_aligned a"
begin

lemma alloc_pages_spec:
  "invar s \<Longrightarrow> alloc_pages alloc n s = (as, s') \<Longrightarrow>
   distinct as \<and> 0 \<notin> set as \<and> set as \<subseteq> pages s - taken s \<and> taken s' = taken s \<union> set as \<and>
   pages s' = pages s \<and> invar s'"
proof (induction n arbitrary: s as)
  case (Suc n)
  obtain a s1 where al: "alloc s = (a, s1)" by fastforce
  show ?case
  proof (cases "a = 0")
    case True
    with Suc.prems al alloc_full [of s s1] show ?thesis by simp
  next
    case False
    note pg = alloc_page [OF Suc.prems(1) al False]
    obtain as' where as': "alloc_pages alloc n s1 = (as', s')" "as = a # as'"
      using Suc.prems(2) al False by (auto split: prod.splits)
    from Suc.IH [OF _ as'(1)] pg False as'(2) show ?thesis by auto
  qed
qed simp

lemma alloc_pages_length:
  "invar s \<Longrightarrow> length (fst (alloc_pages alloc n s)) = min n (card (pages s - taken s))"
proof (induction n arbitrary: s)
  case (Suc n)
  obtain a s1 where al: "alloc s = (a, s1)" by fastforce
  show ?case
  proof (cases "a = 0")
    case True
    with Suc.prems al alloc_full [of s s1] have none: "pages s - taken s = {}" by auto
    show ?thesis using True al by (simp add: none)
  next
    case False
    note pg = alloc_page [OF Suc.prems al False]
    have rest: "pages s1 - taken s1 = (pages s - taken s) - {a}" using pg by auto
    have "Suc (card (pages s - taken s - {a})) = card (pages s - taken s)"
      by (rule card_Suc_Diff1) (use pg pages_finite [of s] in auto)
    with rest have c: "card (pages s - taken s) = Suc (card (pages s1 - taken s1))" by simp
    have "length (fst (alloc_pages alloc (Suc n) s)) = Suc (length (fst (alloc_pages alloc n s1)))"
      using al False by (simp split: prod.splits)
    then show ?thesis using Suc.IH [of s1] pg by (simp only: c)
  qed
qed simp

end

definition pmm_pages :: "pmm \<Rightarrow> u64 set" where
  "pmm_pages st = page_addr ` {p. p < total_pages st}"

definition pmm_taken :: "pmm \<Rightarrow> u64 set" where
  "pmm_taken st = page_addr ` pmm_used st"

lemma pmm_taken_iff:
  "pmm_inv st \<Longrightarrow> p < total_pages st \<Longrightarrow> page_addr p \<in> pmm_taken st \<longleftrightarrow> bitmap_test (bitmap st) p"
  using page_addr_inj [of st]
  by (auto simp: pmm_taken_def pmm_used_def pmm_inv_def pmm_count_ok_def inj_on_def)

lemma page_addr_0 [simp]: "page_addr 0 = 0"
  by (simp add: page_addr_def)

lemma pmm_alloc_step:
  assumes inv: "pmm_inv st" and al: "pmm_alloc_page st = (a, st')" and "a \<noteq> 0"
  shows "\<exists>p. p < total_pages st \<and> a = page_addr p \<and> \<not> bitmap_test (bitmap st) p \<and>
      pmm_used st' = insert p (pmm_used st) \<and> total_pages st' = total_pages st \<and> pmm_inv st'"
proof -
  from inv have ok: "pmm_count_ok st" by (simp add: pmm_inv_def)
  from ok show ?thesis
  proof (cases rule: pmm_alloc_cases)
    case (page p)
    note tp = take_page_ok [OF ok page(1,2)]
    have "pmm_inv st'"
      using inv tp al page(3) by (auto simp: pmm_inv_def take_page_def)
    with tp al page show ?thesis by (intro exI [of _ p]) simp
  next
    case full
    with al \<open>a \<noteq> 0\<close> show ?thesis by simp
  qed
qed

lemma pmm_alloc_zero:
  assumes inv: "pmm_inv st" and al: "pmm_alloc_page st = (0, st')"
  shows "st' = st \<and> pmm_used st = {p. p < total_pages st}"
proof -
  from inv have ok: "pmm_count_ok st" by (simp add: pmm_inv_def)
  from ok show ?thesis
  proof (cases rule: pmm_alloc_cases)
    case (page p)
    have "page_addr p = 0" using take_page_ok(1) [OF ok page(1,2)] al page(3) by simp
    then have "p * PAGE_SIZE div PAGE_SIZE = 0" by (simp add: page_addr_def)
    with page(1) ok page_addr_div [of p st] have "p = 0" by (simp add: pmm_count_ok_def)
    with page inv show ?thesis by (auto simp: pmm_inv_def)
  next
    case full
    with al show ?thesis by (auto simp: pmm_used_def)
  qed
qed

interpretation pa: page_allocator pmm_alloc_page pmm_inv pmm_pages pmm_taken
proof unfold_locales
  fix st a st'
  assume inv: "pmm_inv st" and al: "pmm_alloc_page st = (a, st')" and "a \<noteq> 0"
  then obtain p where p: "p < total_pages st" "a = page_addr p" "\<not> bitmap_test (bitmap st) p"
      "pmm_used st' = insert p (pmm_used st)" "total_pages st' = total_pages st" "pmm_inv st'"
    using pmm_alloc_step by blast
  with inv pmm_taken_iff [OF inv p(1)] show "a \<in> pmm_pages st \<and> a \<notin> pmm_taken st \<and>
      pmm_taken st' = insert a (pmm_taken st) \<and> pmm_pages st' = pmm_pages st \<and> pmm_inv st'"
    by (auto simp: pmm_pages_def pmm_taken_def)
next
  fix st st'
  assume "pmm_inv st" and "pmm_alloc_page st = (0, st')"
  then show "st' = st \<and> pmm_pages st \<subseteq> pmm_taken st"
    using pmm_alloc_zero by (auto simp: pmm_pages_def pmm_taken_def)
next
  fix st
  show "finite (pmm_pages st)" by (rule finite_subset [of _ UNIV]) auto
next
  fix st a
  assume "pmm_inv st" and "a \<in> pmm_pages st"
  then show "page_aligned a"
    by (auto simp: pmm_pages_def page_addr_def pmm_inv_def pmm_count_ok_def page_aligned_def unat_page_addr)
qed

section \<open>Initialisation lemmas\<close>

lemma walk_tags_keeps:
  assumes step: "\<And>x s. P s \<Longrightarrow> P (f x s)"
    and ret: "walk_tags m f p e s = Some s'" and start: "P s"
  shows "P s'"
proof -
  have fold_P: "P s \<Longrightarrow> P (fold f xs s)" for xs s
    by (induction xs arbitrary: s) (auto intro: step)
  have "f = f \<longrightarrow> P s \<longrightarrow> P s'"
  proof (rule walk_tags.raw_induct [where P = "\<lambda>m g p e s r. g = f \<longrightarrow> P s \<longrightarrow> P r", OF _ ret],
      goal_cases)
    case (1 w m g p e s r)
    then show ?case by (auto simp: fold_P split: if_splits)
  qed
  with start show ?thesis by blast
qed

inductive tags_end :: "mem \<Rightarrow> u64 \<Rightarrow> u64 \<Rightarrow> bool" for m e where
  stop: "\<not> (p < e \<and> mb_type m p \<noteq> 0) \<Longrightarrow> tags_end m e p"
| tag: "p < e \<Longrightarrow> mb_type m p \<noteq> 0 \<Longrightarrow> (mb_type m p = 6 \<Longrightarrow> mmap_entry_size m p \<noteq> 0) \<Longrightarrow>
     tags_end m e (mb_next m p) \<Longrightarrow> tags_end m e p"

lemma walk_tags_returns: "tags_end m e p \<Longrightarrow> \<exists>s'. walk_tags m f p e s = Some s'"
proof (induction arbitrary: s rule: tags_end.induct)
  case (stop p)
  then show ?case by (subst walk_tags.simps) auto
next
  case (tag p)
  then show ?case by (subst walk_tags.simps) auto
qed

lemma walk_tags_only:
  assumes "walk_tags m f p e s = Some s'"
  shows "tags_end m e p"
proof (rule walk_tags.raw_induct [where P = "\<lambda>m f p e s r. tags_end m e p", OF _ assms], goal_cases)
  case (1 w m f p e s r)
  then show ?case
    by (cases "p < e \<and> mb_type m p \<noteq> 0")
      (auto split: if_splits intro: tags_end.intros)
qed

lemma bitmap_test_fold_set:
  "bitmap_test (fold (\<lambda>i bm. bitmap_set bm (of_nat i)) is bm) q \<longleftrightarrow>
   (\<exists>i \<in> set is. q = of_nat i) \<or> bitmap_test bm q"
  by (induction "is" arbitrary: bm) auto

lemma bitmap_test_zero [simp]: "\<not> bitmap_test (\<lambda>_. 0) q"
  by (simp add: bitmap_test_def)

lemma pmm_all_used_ok:
  assumes "n \<le> MAX_PAGES"
  shows "pmm_count_ok (pmm_all_used n)" and "total_pages (pmm_all_used n) = n" and "pmm_used (pmm_all_used n) = {p. p < n}"
proof -
  have "bitmap_test (bitmap (pmm_all_used n)) q" if "q < n" for q
  proof -
    have "\<exists>i \<in> set [0..<unat n]. q = of_nat i"
      using that by (intro bexI [of _ "unat q"]) (simp_all add: word_less_nat_alt)
    then show ?thesis unfolding pmm_all_used_def by (simp add: bitmap_test_fold_set)
  qed
  then show used: "pmm_used (pmm_all_used n) = {p. p < n}"
    by (auto simp: pmm_used_def pmm_all_used_def)
  then show "pmm_count_ok (pmm_all_used n)"
    using assms by (simp add: pmm_count_ok_def card_less_word) (simp add: pmm_all_used_def)
qed (simp add: pmm_all_used_def)

text \<open>What every step of the initialisation keeps: the count, the number of pages, the hint.\<close>

definition pmm_step :: "(pmm \<Rightarrow> pmm) \<Rightarrow> bool" where
  "pmm_step f \<longleftrightarrow> (\<forall>st. pmm_count_ok st \<longrightarrow> pmm_count_ok (f st) \<and>
     total_pages (f st) = total_pages st \<and> search_hint (f st) = search_hint st)"

lemma pmm_step_fold: "(\<And>x. pmm_step (f x)) \<Longrightarrow> pmm_step (fold f xs)"
  by (induction xs) (simp_all add: pmm_step_def)

lemma pmm_step_unmark: "pmm_step (unmark_page a)"
proof (unfold pmm_step_def, intro allI impI)
  fix st assume ok: "pmm_count_ok st"
  let ?p = "a div PAGE_SIZE"
  show "pmm_count_ok (unmark_page a st) \<and> total_pages (unmark_page a st) = total_pages st \<and>
      search_hint (unmark_page a st) = search_hint st"
  proof (cases "?p \<in> pmm_used st")
    case True
    then have st': "unmark_page a st =
        st\<lparr>bitmap := bitmap_clear (bitmap st) ?p, used_pages := used_pages st - 1\<rparr>"
      by (simp add: unmark_page_def pmm_used_def)
    have used: "pmm_used (unmark_page a st) = pmm_used st - {?p}"
      unfolding st' by (auto simp: pmm_used_def)
    have "0 < card (pmm_used st)" using True by (auto simp: card_gt_0_iff)
    then have "used_pages st \<noteq> 0" using ok by (auto simp: pmm_count_ok_def)
    then have "unat (used_pages st - 1) = card (pmm_used st - {?p})"
      using ok True by (simp add: unat_minus_one pmm_count_ok_def card_Diff_singleton)
    with ok used show ?thesis unfolding pmm_count_ok_def by (simp add: st')
  next
    case False
    then have "unmark_page a st = st" by (auto simp: unmark_page_def pmm_used_def Let_def)
    with ok show ?thesis by simp
  qed
qed

lemma pmm_step_unmark_loop: "pmm_step (unmark_loop a e2)"
proof (unfold pmm_step_def, intro allI impI)
  fix st assume "pmm_count_ok st"
  then show "pmm_count_ok (unmark_loop a e2 st) \<and> total_pages (unmark_loop a e2 st) = total_pages st \<and>
      search_hint (unmark_loop a e2 st) = search_hint st"
  proof (induction a e2 st rule: unmark_loop.induct)
    case (1 a e2 st)
    then show ?case
      using pmm_step_unmark [of a] by (simp add: unmark_loop.simps [of a e2 st] pmm_step_def)
  qed
qed

lemma mark_page_used:
  assumes ok: "pmm_count_ok st"
  shows "pmm_count_ok (mark_page a st)" and "total_pages (mark_page a st) = total_pages st"
    and "search_hint (mark_page a st) = search_hint st"
    and "pmm_used (mark_page a st) = pmm_used st \<union> {p. p = a div PAGE_SIZE \<and> p < total_pages st}"
proof -
  let ?p = "a div PAGE_SIZE"
  show used: "pmm_used (mark_page a st) = pmm_used st \<union> {p. p = ?p \<and> p < total_pages st}"
    by (auto simp: pmm_used_def mark_page_def Let_def)
  show "total_pages (mark_page a st) = total_pages st" "search_hint (mark_page a st) = search_hint st"
    by (simp_all add: mark_page_def Let_def)
  show "pmm_count_ok (mark_page a st)"
  proof (cases "?p < total_pages st \<and> \<not> bitmap_test (bitmap st) ?p")
    case True
    with take_page_ok(4) [OF ok, of ?p] ok show ?thesis
      by (simp add: mark_page_def take_page_def pmm_count_ok_def pmm_used_def)
  next
    case False
    then have "mark_page a st = st" by (auto simp: mark_page_def Let_def)
    with ok show ?thesis by simp
  qed
qed

lemma fold_mark_page:
  "pmm_count_ok st \<Longrightarrow> pmm_count_ok (fold mark_page as st) \<and>
   total_pages (fold mark_page as st) = total_pages st \<and>
   search_hint (fold mark_page as st) = search_hint st \<and>
   pmm_used (fold mark_page as st) =
     pmm_used st \<union> {p. p < total_pages st \<and> (\<exists>a \<in> set as. p = a div PAGE_SIZE)}"
proof (induction as arbitrary: st)
  case (Cons a as)
  note mp = mark_page_used [OF Cons.prems, of a]
  show ?case using Cons.IH [OF mp(1)] by (auto simp: mp)
qed auto

text \<open>The pages that lie completely inside \<open>[start, e)\<close>.\<close>

definition whole_pages :: "u64 \<Rightarrow> u64 \<Rightarrow> u64 set" where
  "whole_pages start e =
     {a div PAGE_SIZE | a. page_aligned a \<and> align_up start \<le> a \<and> a < align_down e}"

lemma mark_used_spec:
  "pmm_count_ok st \<Longrightarrow> pmm_count_ok (mark_used s e st) \<and>
   total_pages (mark_used s e st) = total_pages st \<and>
   search_hint (mark_used s e st) = search_hint st \<and>
   pmm_used (mark_used s e st) = pmm_used st \<union> ({p. p < total_pages st} \<inter> whole_pages s e)"
  using fold_mark_page [of st "page_range (align_up s) (align_down e)"]
  by (auto simp: mark_used_def set_page_range whole_pages_def)

lemma whole_pages_low: "p < 2048 \<Longrightarrow> p \<in> whole_pages 0 0x800000"
proof -
  assume "p < 2048"
  then have u: "unat p < 2048" by (simp add: word_less_nat_alt)
  then have a: "unat (p * PAGE_SIZE) = unat p * 4096"
    by (simp add: PAGE_SIZE_def unat_mult_small)
  then have "p = p * PAGE_SIZE div PAGE_SIZE"
    by (intro unat_eqI) (simp add: unat_div PAGE_SIZE_def)
  moreover have "p * PAGE_SIZE < align_down 0x800000"
    using u a by (simp add: word_less_nat_alt unat_align_down)
  moreover have "align_up 0 \<le> p * PAGE_SIZE"
    by (simp add: word_le_nat_alt unat_align_up)
  ultimately show ?thesis
    using a by (auto simp: whole_pages_def page_aligned_def)
qed

text \<open>Pages and regions in natural numbers: a page that lies completely inside \<open>[lo, hi)\<close>.\<close>

definition page_inside :: "u64 \<Rightarrow> nat \<Rightarrow> nat \<Rightarrow> bool" where
  "page_inside p lo hi \<longleftrightarrow> lo \<le> unat p * 4096 \<and> unat p * 4096 + 4096 \<le> hi"

lemma page_bounds:
  "(lo + 4095) div 4096 \<le> q \<longleftrightarrow> lo \<le> q * (4096 :: nat)"
  "q < hi div 4096 \<longleftrightarrow> q * 4096 + 4096 \<le> (hi :: nat)"
proof -
  have "(lo + 4095) div 4096 < Suc q \<longleftrightarrow> lo + 4095 < Suc q * 4096" by (rule div_less_iff_less_mult) simp
  then show "(lo + 4095) div 4096 \<le> q \<longleftrightarrow> lo \<le> q * (4096 :: nat)" unfolding less_Suc_eq_le by auto
  have "Suc q \<le> hi div 4096 \<longleftrightarrow> Suc q * 4096 \<le> hi" by (rule less_eq_div_iff_mult_less_eq) simp
  then show "q < hi div 4096 \<longleftrightarrow> q * 4096 + 4096 \<le> (hi :: nat)" by (simp add: Suc_le_eq add.commute)
qed

lemma whole_pages_inside:
  assumes "unat s + 4095 < 2 ^ 64" and "unat p < 1048576"
  shows "p \<in> whole_pages s e \<longleftrightarrow> page_inside p (unat s) (unat e)"
proof -
  have u: "unat (p * PAGE_SIZE) = unat p * 4096" using assms(2) by (simp add: PAGE_SIZE_def unat_mult_small)
  have "p \<in> whole_pages s e \<longleftrightarrow> align_up s \<le> p * PAGE_SIZE \<and> p * PAGE_SIZE < align_down e"
  proof
    assume "p \<in> whole_pages s e"
    then obtain a where a: "p = a div PAGE_SIZE" "page_aligned a" "align_up s \<le> a" "a < align_down e"
      by (auto simp: whole_pages_def)
    have "unat a = unat p * 4096" using a(1,2) by (simp add: unat_div PAGE_SIZE_def page_aligned_def)
    then have "a = p * PAGE_SIZE" using u by (intro unat_eqI) simp
    then show "align_up s \<le> p * PAGE_SIZE \<and> p * PAGE_SIZE < align_down e" using a by simp
  next
    assume r: "align_up s \<le> p * PAGE_SIZE \<and> p * PAGE_SIZE < align_down e"
    have "p = p * PAGE_SIZE div PAGE_SIZE" using u by (intro unat_eqI) (simp add: unat_div PAGE_SIZE_def)
    moreover have "page_aligned (p * PAGE_SIZE)" using u by (simp add: page_aligned_def)
    ultimately show "p \<in> whole_pages s e" using r unfolding whole_pages_def by blast
  qed
  then show ?thesis using assms(1) u
    by (simp add: word_le_nat_alt word_less_nat_alt unat_align_up unat_align_down page_inside_def) (simp only: page_bounds)
qed

text \<open>What the second pass over the memory map makes free.\<close>

lemma unmark_page_used:
  "pmm_used (unmark_page a st) = pmm_used st - {a div PAGE_SIZE}" "total_pages (unmark_page a st) = total_pages st"
  by (auto simp: pmm_used_def unmark_page_def Let_def)

lemma unmark_loop_used:
  assumes "page_aligned a" "unat a + 8192 \<le> 2 ^ 64" "e2 \<le> MAX_MEMORY" "total_pages st \<le> MAX_PAGES"
  shows "total_pages (unmark_loop a e2 st) = total_pages st \<and>
    pmm_used (unmark_loop a e2 st) = pmm_used st - {p. page_inside p (unat a) (unat e2)}"
  using assms
proof (induction a e2 st rule: unmark_loop.induct)
  case (1 a e2 st)
  have u: "unat (a + PAGE_SIZE) = unat a + 4096" using "1.prems"(2) by (simp add: PAGE_SIZE_def unat_plus_small)
  have small: "unat p < 1048576" if "p \<in> pmm_used st" for p
    using that "1.prems"(4) by (auto simp: pmm_used_def word_less_nat_alt word_le_nat_alt)
  show ?case
  proof (cases "a + PAGE_SIZE \<le> e2")
    case False
    then have "unat e2 < unat a + 4096" using u by (simp add: word_le_nat_alt)
    then have "{p. page_inside p (unat a) (unat e2)} = {}" by (auto simp: page_inside_def)
    then show ?thesis using False by (simp add: unmark_loop.simps [of a e2 st])
  next
    case True
    then have le: "unat a + 4096 \<le> unat e2" using u by (simp add: word_le_nat_alt)
    have e2: "unat e2 \<le> 4294967296" using "1.prems"(3) by (simp add: MAX_MEMORY_def word_le_nat_alt)
    have al: "page_aligned (a + PAGE_SIZE)" using "1.prems"(1) u by (simp add: page_aligned_def)
    have "unat (a + PAGE_SIZE) + 8192 \<le> 2 ^ 64" using u le e2 by simp
    from "1.IH" [OF _ al this "1.prems"(3)] True "1.prems"(3,4)
    have IH: "total_pages (unmark_loop (a + PAGE_SIZE) e2 (unmark_page a st)) = total_pages st \<and>
        pmm_used (unmark_loop (a + PAGE_SIZE) e2 (unmark_page a st)) =
          pmm_used st - {a div PAGE_SIZE} - {p. page_inside p (unat a + 4096) (unat e2)}"
      by (simp add: unmark_page_used u)
    obtain q where q: "unat a = 4096 * q" using "1.prems"(1) by (auto simp: page_aligned_def elim!: dvdE)
    have qd: "unat (a div PAGE_SIZE) = q" using q by (simp add: unat_div PAGE_SIZE_def)
    have "p = a div PAGE_SIZE \<or> page_inside p (unat a + 4096) (unat e2) \<longleftrightarrow> page_inside p (unat a) (unat e2)" for p
    proof -
      have "p = a div PAGE_SIZE \<longleftrightarrow> unat p = q" using qd by (metis unat_eqI)
      then show ?thesis using le q by (auto simp: page_inside_def)
    qed
    then have "pmm_used st - {a div PAGE_SIZE} - {p. page_inside p (unat a + 4096) (unat e2)} =
        pmm_used st - {p. page_inside p (unat a) (unat e2)}" by auto
    then show ?thesis using IH True "1.prems"(3) by (simp add: unmark_loop.simps [of a e2 st])
  qed
qed

text \<open>An available region of the map, in natural numbers.\<close>

definition available :: "mem \<Rightarrow> u64 \<Rightarrow> bool" where
  "available m x \<longleftrightarrow> ent_type m x = 1"

definition region_end :: "mem \<Rightarrow> u64 \<Rightarrow> nat" where
  "region_end m x = unat (ent_addr m x) + unat (ent_len m x)"

lemma unmark_entry_used:
  assumes "available m x \<longrightarrow> region_end m x \<le> 2 ^ 52" "total_pages st \<le> MAX_PAGES"
  shows "total_pages (unmark_entry m x st) = total_pages st \<and>
    pmm_used (unmark_entry m x st) =
      pmm_used st - {p. available m x \<and> page_inside p (unat (ent_addr m x)) (region_end m x)}"
proof (cases "available m x")
  case True
  let ?r = "ent_addr m x + ent_len m x"
  let ?c = "if MAX_MEMORY < ?r then MAX_MEMORY else ?r"
  have b: "unat (ent_addr m x) \<le> 2 ^ 52" "region_end m x \<le> 2 ^ 52" using assms(1) True by (auto simp: region_end_def)
  have r: "unat ?r = region_end m x" unfolding region_end_def by (rule unat_plus_small) (use b(2) in \<open>simp add: region_end_def\<close>)
  have s: "unat (align_up (ent_addr m x)) = (unat (ent_addr m x) + 4095) div 4096 * 4096"
    using b(1) by (intro unat_align_up) simp
  have "(unat (ent_addr m x) + 4095) div 4096 * 4096 \<le> unat (ent_addr m x) + 4095" by simp
  then have s2: "unat (align_up (ent_addr m x)) + 8192 \<le> 2 ^ 64" unfolding s using b(1) by simp
  have c: "unat ?c = min 4294967296 (region_end m x)" using r by (auto simp: MAX_MEMORY_def word_less_nat_alt)
  have "unat (align_down ?c) \<le> unat ?c" unfolding unat_align_down by simp
  also have "\<dots> \<le> unat MAX_MEMORY" unfolding c by (simp add: MAX_MEMORY_def)
  finally have e2: "align_down ?c \<le> MAX_MEMORY" by (simp only: word_le_nat_alt)
  have "page_inside p (unat (align_up (ent_addr m x))) (unat (align_down ?c)) \<longleftrightarrow>
      page_inside p (unat (ent_addr m x)) (region_end m x)" if "p \<in> pmm_used st" for p
  proof -
    have p: "unat p * 4096 + 4096 \<le> 4294967296"
      using that assms(2) by (auto simp: pmm_used_def word_less_nat_alt word_le_nat_alt)
    have d: "unat p * 4096 + 4096 \<le> k div 4096 * 4096 \<longleftrightarrow> unat p * 4096 + 4096 \<le> k" for k
    proof -
      have "unat p * 4096 + 4096 \<le> k div 4096 * 4096 \<longleftrightarrow> Suc (unat p) * 4096 \<le> k div 4096 * 4096"
        by (simp add: add.commute)
      also have "\<dots> \<longleftrightarrow> unat p < k div 4096" by (simp only: mult_le_cancel2 Suc_le_eq) simp
      finally show ?thesis by (simp only: page_bounds)
    qed
    have l: "(k + 4095) div 4096 * 4096 \<le> unat p * 4096 \<longleftrightarrow> k \<le> unat p * 4096" for k
      by (simp only: mult_le_cancel2 page_bounds) simp
    show ?thesis unfolding page_inside_def s unat_align_down c d l using p by simp
  qed
  then have "pmm_used st - {p. page_inside p (unat (align_up (ent_addr m x))) (unat (align_down ?c))} =
      pmm_used st - {p. page_inside p (unat (ent_addr m x)) (region_end m x)}" by auto
  then show ?thesis using unmark_loop_used [OF align_up_aligned s2 e2 assms(2)] True
    by (simp add: unmark_entry_def available_def Let_def)
next
  case False
  then show ?thesis by (simp add: unmark_entry_def available_def)
qed

text \<open>The entries of the memory map tags that the walk from \<open>p\<close> on meets.\<close>

inductive map_entry :: "mem \<Rightarrow> u64 \<Rightarrow> u64 \<Rightarrow> u64 \<Rightarrow> bool" for m e x where
  here: "p < e \<Longrightarrow> mb_type m p = 6 \<Longrightarrow> x \<in> set (mmap_entries m p) \<Longrightarrow> map_entry m e x p"
| later: "p < e \<Longrightarrow> mb_type m p \<noteq> 0 \<Longrightarrow> map_entry m e x (mb_next m p) \<Longrightarrow> map_entry m e x p"

lemma walk_tags_fold:
  assumes "walk_tags m f p e s = Some s'"
  shows "\<exists>es. s' = fold f es s \<and> set es = {x. map_entry m e x p}"
  using walk_tags_only [OF assms] assms
proof (induction p arbitrary: s rule: tags_end.induct)
  case (stop p)
  then have "\<not> map_entry m e x p" for x by (auto elim: map_entry.cases)
  moreover have "s' = s" using stop by (subst (asm) walk_tags.simps) (auto split: if_splits)
  ultimately show ?case by (intro exI [of _ "[]"]) simp
next
  case (tag p)
  let ?l = "if mb_type m p = 6 then mmap_entries m p else []"
  have "walk_tags m f (mb_next m p) e (fold f ?l s) = Some s'"
    using tag.prems tag.hyps by (subst (asm) walk_tags.simps) (auto split: if_splits)
  then obtain es where es: "s' = fold f es (fold f ?l s)" "set es = {x. map_entry m e x (mb_next m p)}"
    using tag.IH by blast
  have "map_entry m e x p \<longleftrightarrow> x \<in> set ?l \<or> map_entry m e x (mb_next m p)" for x
    using tag.hyps(1,2) by (auto elim: map_entry.cases intro: map_entry.intros)
  then show ?case using es by (intro exI [of _ "?l @ es"]) auto
qed

lemma Max_insert_max: "finite R \<Longrightarrow> Max (insert (max a b) R) = Max (insert (a :: nat) (insert b R))"
  by (cases "R = {}") (simp_all add: max.assoc)

lemma fold_max_entry:
  assumes "\<forall>x \<in> set es. available m x \<longrightarrow> region_end m x \<le> 2 ^ 52"
  shows "unat (fold (max_of_entry m) es a) = Max (insert (unat a) (region_end m ` {x \<in> set es. available m x}))"
  using assms
proof (induction es arbitrary: a)
  case (Cons x es)
  show ?case
  proof (cases "available m x")
    case False
    then have "{y. (y = x \<or> y \<in> set es) \<and> available m y} = {y \<in> set es. available m y}" by auto
    then show ?thesis using Cons False by (simp add: max_of_entry_def available_def)
  next
    case True
    have u: "unat (ent_addr m x + ent_len m x) = region_end m x"
      unfolding region_end_def by (rule unat_plus_small) (use Cons.prems True in \<open>auto simp: region_end_def\<close>)
    have m: "unat (max_of_entry m x a) = max (unat a) (region_end m x)"
      using True u by (auto simp: max_of_entry_def available_def word_less_nat_alt)
    have s: "{y. (y = x \<or> y \<in> set es) \<and> available m y} = insert x {y \<in> set es. available m y}" using True by auto
    let ?R = "region_end m ` {y \<in> set es. available m y}"
    have "Max (insert (max (unat a) (region_end m x)) ?R) = Max (insert (unat a) (insert (region_end m x) ?R))"
      by (rule Max_insert_max) simp
    then show ?thesis using Cons.IH [of "max_of_entry m x a"] Cons.prems by (simp add: m s)
  qed
qed simp

lemma fold_unmark_entry:
  assumes "\<forall>x \<in> set es. available m x \<longrightarrow> region_end m x \<le> 2 ^ 52" "total_pages st \<le> MAX_PAGES"
  shows "total_pages (fold (unmark_entry m) es st) = total_pages st \<and>
    pmm_used (fold (unmark_entry m) es st) =
      pmm_used st - {p. \<exists>x \<in> set es. available m x \<and> page_inside p (unat (ent_addr m x)) (region_end m x)}"
  using assms
proof (induction es arbitrary: st)
  case (Cons x es)
  note u = unmark_entry_used [of m x st]
  have "total_pages (unmark_entry m x st) = total_pages st"
    "pmm_used (unmark_entry m x st) = pmm_used st - {p. available m x \<and> page_inside p (unat (ent_addr m x)) (region_end m x)}"
    using u Cons.prems by auto
  then show ?case using Cons.IH [of "unmark_entry m x st"] Cons.prems by auto
qed simp

lemma pmm_init_spec:
  assumes init: "pmm_init m ks ke mb = Some st"
    and map: "\<forall>x. map_entry m (ucast mb + ucast (rd32 m (ucast mb))) x (ucast mb + 8) \<and> available m x \<longrightarrow> region_end m x \<le> 2 ^ 52"
  obtains st0 where "pmm_count_ok st0" "search_hint st0 = 0"
    "st = mark_used (ucast mb) (ucast mb + ucast (rd32 m (ucast mb))) (mark_used ks ke (mark_used 0 0x800000 st0))"
    "unat (total_pages st0) =
       min 4294967296 (Max (insert 0 (region_end m ` {x. map_entry m (ucast mb + ucast (rd32 m (ucast mb))) x (ucast mb + 8) \<and> available m x}))) div 4096"
    "pmm_used st0 = {p. p < total_pages st0} - {p. \<exists>x. map_entry m (ucast mb + ucast (rd32 m (ucast mb))) x (ucast mb + 8) \<and>
       available m x \<and> page_inside p (unat (ent_addr m x)) (region_end m x)}"
proof -
  let ?e = "ucast mb + ucast (rd32 m (ucast mb)) :: u64"
  let ?E = "\<lambda>x. map_entry m ?e x (ucast mb + 8)"
  from init obtain mx st0 where
      wm: "walk_tags m (max_of_entry m) (ucast mb + 8) ?e 0 = Some mx"
    and w: "walk_tags m (unmark_entry m) (ucast mb + 8) ?e
            (pmm_all_used ((if MAX_MEMORY < mx then MAX_MEMORY else mx) div PAGE_SIZE)) = Some st0"
    and st: "st = mark_used (ucast mb) ?e (mark_used ks ke (mark_used 0 0x800000 st0))"
    by (auto simp: pmm_init_def Let_def split: option.splits)
  let ?n = "(if MAX_MEMORY < mx then MAX_MEMORY else mx) div PAGE_SIZE"
  have un: "unat ?n = min 4294967296 (unat mx) div 4096"
    by (auto simp: unat_div PAGE_SIZE_def MAX_MEMORY_def word_less_nat_alt min_def)
  then have "unat ?n \<le> 1048576" by (simp add: div_le_mono [of _ 4294967296, THEN order.trans])
  then have n: "?n \<le> MAX_PAGES" by (simp add: word_le_nat_alt)
  note start = pmm_all_used_ok [OF n]
  obtain es where es: "mx = fold (max_of_entry m) es 0" "set es = {x. ?E x}" using walk_tags_fold [OF wm] by blast
  obtain es' where es': "st0 = fold (unmark_entry m) es' (pmm_all_used ?n)" "set es' = {x. ?E x}" using walk_tags_fold [OF w] by blast
  have mx: "unat mx = Max (insert 0 (region_end m ` {x. ?E x \<and> available m x}))"
    using fold_max_entry [of es m 0] map es by simp
  have f: "total_pages st0 = ?n" "pmm_used st0 = pmm_used (pmm_all_used ?n) -
      {p. \<exists>x. ?E x \<and> available m x \<and> page_inside p (unat (ent_addr m x)) (region_end m x)}"
    using fold_unmark_entry [of es' m "pmm_all_used ?n"] map es' start(2) n by auto
  have all: "pmm_used (pmm_all_used ?n) = {p. p < total_pages st0}"
    using start(3) f(1) by simp
  have step: "pmm_count_ok s \<and> search_hint s = 0 \<Longrightarrow>
      pmm_count_ok (unmark_entry m x s) \<and> search_hint (unmark_entry m x s) = 0" for x s
    using pmm_step_unmark_loop by (simp add: unmark_entry_def Let_def pmm_step_def)
  have hint: "search_hint (pmm_all_used x) = 0" for x by (simp add: pmm_all_used_def)
  have ok: "pmm_count_ok st0 \<and> search_hint st0 = 0"
    by (rule walk_tags_keeps [where P = "\<lambda>s. pmm_count_ok s \<and> search_hint s = 0", OF _ w])
      (erule step, rule conjI [OF start(1) hint])
  show thesis by (rule that [OF _ _ st]) (use ok f un mx all in simp_all)
qed

lemma card_free_pages:
  assumes "pmm_inv st"
  shows "card (pmm_pages st - pmm_taken st) = unat (pmm_free_pages st)"
proof -
  let ?all = "{p. p < total_pages st}"
  have inj: "inj_on page_addr ?all"
    using assms by (intro page_addr_inj) (simp add: pmm_inv_def pmm_count_ok_def)
  have sub: "pmm_used st \<subseteq> ?all" by (auto simp: pmm_used_def)
  have "pmm_pages st - pmm_taken st = page_addr ` (?all - pmm_used st)"
    unfolding pmm_pages_def pmm_taken_def using inj sub by (subst inj_on_image_set_diff) auto
  then have "card (pmm_pages st - pmm_taken st) = card (?all - pmm_used st)"
    using inj by (simp add: card_image inj_on_subset)
  also have "\<dots> = unat (total_pages st) - card (pmm_used st)"
    using sub by (simp add: card_Diff_subset card_less_word)
  also have "\<dots> = unat (pmm_free_pages st)"
    using assms card_pmm_used_le [of st]
    by (simp add: pmm_free_pages_def pmm_inv_def pmm_count_ok_def unat_sub word_le_nat_alt)
  finally show ?thesis .
qed

section \<open>Properties\<close>

text \<open>
  C21. \<open>pmm_alloc_page\<close> hands out a page exactly when one is free.  In a state that
  satisfies the allocator invariant the call keeps the invariant; if every page is in use
  it returns 0 and changes nothing; otherwise it returns the address of a page that was
  free and is not page 0, marks exactly that page and counts it.
\<close>

theorem pmm_alloc_correct:
  assumes "pmm_inv st" and "pmm_alloc_page st = (a, st')"
  shows "pmm_inv st' \<and>
    (if pmm_used st = {p. p < total_pages st} then a = 0 \<and> st' = st
     else \<exists>p. 0 < p \<and> p < total_pages st \<and> \<not> bitmap_test (bitmap st) p \<and> a = page_addr p \<and>
            pmm_used st' = insert p (pmm_used st) \<and> unat (used_pages st') = Suc (unat (used_pages st)))"
proof (cases "a = 0")
  case True
  with pmm_alloc_zero [of st st'] assms show ?thesis by simp
next
  case False
  then obtain p where p: "p < total_pages st" "a = page_addr p" "\<not> bitmap_test (bitmap st) p"
      "pmm_used st' = insert p (pmm_used st)" "total_pages st' = total_pages st" "pmm_inv st'"
    using pmm_alloc_step [OF assms] by blast
  have new: "p \<notin> pmm_used st" using p by (simp add: pmm_used_def)
  then have "pmm_used st \<noteq> {p. p < total_pages st}" using p(1) by blast
  moreover have "unat (used_pages st') = Suc (unat (used_pages st))"
    using assms(1) p(4,6) new by (simp add: pmm_inv_def pmm_count_ok_def)
  moreover have "p \<noteq> 0" using False p(2) by auto
  then have "0 < p" by (simp add: word_neq_0_conv)
  ultimately show ?thesis using p \<open>0 < p\<close> by auto
qed

definition demo_pmm :: pmm where
  "demo_pmm = \<lparr>bitmap = (\<lambda>_. 0)(0 := 1), total_pages = 4, used_pages = 1, search_hint = 1\<rparr>"

lemma demo_pmm_used: "pmm_used demo_pmm = {0}"
proof -
  have "p = 0" if "p < 4" and "bitmap_test (bitmap demo_pmm) p" for p
  proof -
    from that(2) have "unat p mod 8 = 0"
      by (auto simp: bitmap_test_bit demo_pmm_def bit_1_iff split: if_splits)
    moreover have "unat p < 4" using that(1) by (simp add: word_less_nat_alt)
    ultimately show "p = 0" by simp
  qed
  then show ?thesis
    by (auto simp: pmm_used_def bitmap_test_bit demo_pmm_def)
qed

lemma demo_pmm_inv: "pmm_inv demo_pmm"
proof -
  have "bitmap_test (bitmap demo_pmm) 0" using demo_pmm_used by (auto simp: pmm_used_def)
  then show ?thesis
    using demo_pmm_used by (simp add: pmm_inv_def pmm_count_ok_def) (simp add: demo_pmm_def)
qed

theorem pmm_alloc_correct_witness:
  "pmm_inv demo_pmm \<and> pmm_inv (snd (pmm_alloc_page demo_pmm))"
  using pmm_alloc_correct [OF demo_pmm_inv, of "fst (pmm_alloc_page demo_pmm)" "snd (pmm_alloc_page demo_pmm)"]
    demo_pmm_inv by simp

text \<open>
  A run of \<open>n\<close> calls of \<open>pmm_alloc_page\<close>, as \<open>heap_init\<close> and \<open>e1000_init\<close> make
  it, never hands out a page twice, never a page that was in use, and never address 0, and
  it gets exactly as many pages as were asked for and are free.
\<close>

theorem pmm_alloc_many:
  assumes "pmm_inv st" and "alloc_pages pmm_alloc_page n st = (as, st')"
  shows "distinct as \<and> 0 \<notin> set as \<and> set as \<subseteq> pmm_pages st - pmm_taken st \<and>
    pmm_taken st' = pmm_taken st \<union> set as \<and> pmm_inv st' \<and>
    length as = min n (unat (pmm_free_pages st))"
  using pa.alloc_pages_spec [OF assms] pa.alloc_pages_length [OF assms(1), of n] assms(2)
    card_free_pages [OF assms(1)]
  by simp

theorem pmm_alloc_many_witness:
  "length (fst (alloc_pages pmm_alloc_page 2 demo_pmm)) = 2"
  using pmm_alloc_many [OF demo_pmm_inv, of 2 "fst (alloc_pages pmm_alloc_page 2 demo_pmm)"
      "snd (alloc_pages pmm_alloc_page 2 demo_pmm)"]
  by (simp add: pmm_free_pages_def) (simp add: demo_pmm_def)

text \<open>
  \<open>pmm_free_page\<close> undoes an allocation: releasing a page in use (other than page 0)
  keeps the invariant, removes exactly that page, adds one to the number of free pages and
  makes the next allocation succeed; releasing any other address changes nothing, so a
  double free is harmless.
\<close>

theorem pmm_free_correct:
  assumes inv: "pmm_inv st"
  shows "(p \<in> pmm_used st \<and> p \<noteq> 0 \<longrightarrow>
      pmm_inv (pmm_free_page (page_addr p) st) \<and>
      pmm_used (pmm_free_page (page_addr p) st) = pmm_used st - {p} \<and>
      unat (pmm_free_pages (pmm_free_page (page_addr p) st)) = Suc (unat (pmm_free_pages st)) \<and>
      fst (pmm_alloc_page (pmm_free_page (page_addr p) st)) \<noteq> 0) \<and>
    (a div PAGE_SIZE \<notin> pmm_used st \<longrightarrow> pmm_free_page a st = st)"
proof
  show "a div PAGE_SIZE \<notin> pmm_used st \<longrightarrow> pmm_free_page a st = st"
    by (auto simp: pmm_free_page_def pmm_used_def Let_def)
  from inv have ok: "pmm_count_ok st" by (simp add: pmm_inv_def)
  show "p \<in> pmm_used st \<and> p \<noteq> 0 \<longrightarrow>
      pmm_inv (pmm_free_page (page_addr p) st) \<and>
      pmm_used (pmm_free_page (page_addr p) st) = pmm_used st - {p} \<and>
      unat (pmm_free_pages (pmm_free_page (page_addr p) st)) = Suc (unat (pmm_free_pages st)) \<and>
      fst (pmm_alloc_page (pmm_free_page (page_addr p) st)) \<noteq> 0"
  proof (intro impI, elim conjE)
    assume p: "p \<in> pmm_used st" "p \<noteq> 0"
    let ?st = "pmm_free_page (page_addr p) st"
    note fr = pmm_free_used [OF ok p(1)]
    have "0 < total_pages st \<Longrightarrow> 0 \<in> pmm_used st" using inv by (simp add: pmm_inv_def pmm_used_def)
    then have "0 < total_pages st \<Longrightarrow> 0 \<in> pmm_used ?st" using fr(1) p(2) by auto
    then have inv': "pmm_inv ?st"
      using fr by (auto simp: pmm_inv_def pmm_used_def)
    have "p \<in> {q. q < total_pages ?st} - pmm_used ?st"
      using p fr by (auto simp: pmm_used_def)
    then have "fst (pmm_alloc_page ?st) \<noteq> 0"
      using pmm_alloc_zero [OF inv'] by (metis Diff_iff prod.collapse)
    moreover have "unat (pmm_free_pages ?st) = Suc (unat (pmm_free_pages st))"
    proof -
      have "card (pmm_used st) = Suc (card (pmm_used st - {p}))"
        using p(1) card_Suc_Diff1 [of "pmm_used st" p] by simp
      then show ?thesis
        using ok fr card_pmm_used_le [of st]
        by (simp add: pmm_free_pages_def pmm_count_ok_def unat_sub word_le_nat_alt)
    qed
    ultimately show "pmm_inv ?st \<and> pmm_used ?st = pmm_used st - {p} \<and>
        unat (pmm_free_pages ?st) = Suc (unat (pmm_free_pages st)) \<and> fst (pmm_alloc_page ?st) \<noteq> 0"
      using inv' fr(1) by blast
  qed
qed

theorem pmm_free_correct_witness:
  "pmm_free_page (page_addr 3) demo_pmm = demo_pmm \<and>
   pmm_used (pmm_free_page (page_addr 1) (snd (pmm_alloc_page demo_pmm))) = {0}"
proof -
  have al: "pmm_alloc_page demo_pmm = take_page demo_pmm 1"
    by (simp add: pmm_alloc_page_def demo_pmm_def find_free.simps [of _ 1] bitmap_test_def)
  have used: "pmm_used (snd (pmm_alloc_page demo_pmm)) = {0, 1}"
    unfolding al using take_page_ok(2) [of demo_pmm 1] demo_pmm_inv demo_pmm_used
    by (auto simp: pmm_inv_def demo_pmm_def bitmap_test_def)
  have inv: "pmm_inv (snd (pmm_alloc_page demo_pmm))"
    using pmm_alloc_step [OF demo_pmm_inv, of "fst (take_page demo_pmm 1)" "snd (take_page demo_pmm 1)"]
    by (auto simp: al take_page_def PAGE_SIZE_def)
  have "pmm_free_page (page_addr 3) demo_pmm = demo_pmm"
    using pmm_free_correct [OF demo_pmm_inv, of 0 "page_addr 3"] demo_pmm_used
    by (simp add: page_addr_def PAGE_SIZE_def)
  moreover have "pmm_used (pmm_free_page (page_addr 1) (snd (pmm_alloc_page demo_pmm))) = {0}"
    using pmm_free_correct [OF inv, of 1 0] used by auto
  ultimately show ?thesis by blast
qed

text \<open>
  \<open>pmm_init\<close> returns exactly when the chain of multiboot tags ends: following the
  tag sizes reaches the end of the structure or an end tag, and no memory map tag has a
  zero entry size.
\<close>

theorem pmm_init_returns_iff:
  "(\<exists>st. pmm_init m kernel_start kernel_end mb = Some st) \<longleftrightarrow>
   tags_end m (ucast mb + ucast (rd32 m (ucast mb))) (ucast mb + 8)"
proof
  assume "\<exists>st. pmm_init m kernel_start kernel_end mb = Some st"
  then show "tags_end m (ucast mb + ucast (rd32 m (ucast mb))) (ucast mb + 8)"
    by (auto simp: pmm_init_def Let_def split: option.splits dest: walk_tags_only)
next
  assume te: "tags_end m (ucast mb + ucast (rd32 m (ucast mb))) (ucast mb + 8)"
  obtain mx where mx: "walk_tags m (max_of_entry m) (ucast mb + 8)
      (ucast mb + ucast (rd32 m (ucast mb))) 0 = Some mx"
    by (rule exE [OF walk_tags_returns [OF te]])
  obtain st where st: "walk_tags m (unmark_entry m) (ucast mb + 8) (ucast mb + ucast (rd32 m (ucast mb)))
      (pmm_all_used ((if MAX_MEMORY < mx then MAX_MEMORY else mx) div PAGE_SIZE)) = Some st"
    by (rule exE [OF walk_tags_returns [OF te]])
  show "\<exists>st. pmm_init m kernel_start kernel_end mb = Some st"
    unfolding pmm_init_def Let_def mx option.case st by blast
qed

text \<open>
  C20. \<open>pmm_init\<close>, on a memory map whose available regions end below the 52-bit limit of physical
  addresses.  The allocator invariant holds afterwards and the search starts at page 0.  The number of pages is given by the end of the
  highest available region, at most 4 GB.  A page below it is free exactly when it lies completely
  inside an available region (an entry of type 1 of a memory map tag) and not completely inside
  the first 8 MB, the kernel image or the multiboot information.
\<close>

theorem pmm_init_establishes:
  assumes "pmm_init m kernel_start kernel_end mb = Some st" and "unat kernel_start + 4095 < 2 ^ 64"
    and "\<forall>x. map_entry m (ucast mb + ucast (rd32 m (ucast mb))) x (ucast mb + 8) \<and> available m x \<longrightarrow> region_end m x \<le> 2 ^ 52"
  shows "pmm_inv st \<and> search_hint st = 0 \<and>
    unat (total_pages st) = min 4294967296 (Max (insert 0 (region_end m `
      {x. map_entry m (ucast mb + ucast (rd32 m (ucast mb))) x (ucast mb + 8) \<and> available m x}))) div 4096 \<and>
    (\<forall>p < total_pages st. p \<notin> pmm_used st \<longleftrightarrow>
      (\<exists>x. map_entry m (ucast mb + ucast (rd32 m (ucast mb))) x (ucast mb + 8) \<and> available m x \<and>
         page_inside p (unat (ent_addr m x)) (region_end m x)) \<and>
      \<not> page_inside p 0 0x800000 \<and> \<not> page_inside p (unat kernel_start) (unat kernel_end) \<and>
      \<not> page_inside p (unat mb) (unat mb + unat (rd32 m (ucast mb))))"
proof -
  let ?e = "ucast mb + ucast (rd32 m (ucast mb)) :: u64"
  from assms(1,3) obtain st0 where st0: "pmm_count_ok st0" "search_hint st0 = 0"
    "st = mark_used (ucast mb) ?e (mark_used kernel_start kernel_end (mark_used 0 0x800000 st0))"
    "unat (total_pages st0) = min 4294967296 (Max (insert 0 (region_end m `
      {x. map_entry m ?e x (ucast mb + 8) \<and> available m x}))) div 4096"
    "pmm_used st0 = {p. p < total_pages st0} - {p. \<exists>x. map_entry m ?e x (ucast mb + 8) \<and>
       available m x \<and> page_inside p (unat (ent_addr m x)) (region_end m x)}"
    by (rule pmm_init_spec)
  let ?s1 = "mark_used 0 0x800000 st0"
  let ?s2 = "mark_used kernel_start kernel_end ?s1"
  note m1 = mark_used_spec [OF st0(1), of 0 "0x800000"]
  note m2 = mark_used_spec [of ?s1 kernel_start kernel_end]
  note m3 = mark_used_spec [of ?s2 "ucast mb" ?e]
  have ok: "pmm_count_ok st" "search_hint st = 0" "total_pages st = total_pages st0"
    using m1 m2 m3 st0(1-3) by simp_all
  have used: "pmm_used st = pmm_used st0 \<union> {p. p < total_pages st} \<inter>
      (whole_pages 0 0x800000 \<union> whole_pages kernel_start kernel_end \<union> whole_pages (ucast mb) ?e)"
    using m1 m2 m3 st0(1-3) ok(3) by auto
  have lim: "unat mb < 2 ^ 32" "unat (rd32 m (ucast mb)) < 2 ^ 32" using unsigned_less [of mb] unsigned_less [of "rd32 m (ucast mb)"] by simp_all
  have mb: "unat (ucast mb :: u64) = unat mb" "unat (ucast (rd32 m (ucast mb)) :: u64) = unat (rd32 m (ucast mb))"
    using lim by (simp_all add: unsigned_ucast_eq take_bit_nat_eq_self)
  have e: "unat ?e = unat mb + unat (rd32 m (ucast mb))" using unat_plus_small [of "ucast mb" "ucast (rd32 m (ucast mb)) :: u64"] mb lim by simp
  have "p \<notin> pmm_used st \<longleftrightarrow>
      (\<exists>x. map_entry m ?e x (ucast mb + 8) \<and> available m x \<and> page_inside p (unat (ent_addr m x)) (region_end m x)) \<and>
      \<not> page_inside p 0 0x800000 \<and> \<not> page_inside p (unat kernel_start) (unat kernel_end) \<and>
      \<not> page_inside p (unat mb) (unat mb + unat (rd32 m (ucast mb)))" if p: "p < total_pages st" for p
  proof -
    have "unat p < 1048576" using p ok(1) by (simp add: pmm_count_ok_def word_less_nat_alt word_le_nat_alt)
    note wp = whole_pages_inside [OF _ this]
    have w: "p \<in> whole_pages 0 0x800000 \<longleftrightarrow> page_inside p 0 0x800000"
      "p \<in> whole_pages kernel_start kernel_end \<longleftrightarrow> page_inside p (unat kernel_start) (unat kernel_end)"
      "p \<in> whole_pages (ucast mb) ?e \<longleftrightarrow> page_inside p (unat mb) (unat mb + unat (rd32 m (ucast mb)))"
      using wp [of 0 "0x800000"] wp [of kernel_start kernel_end] wp [of "ucast mb" ?e] assms(2) mb(1) lim(1) e by simp_all
    have p0: "p < total_pages st0" using p ok(3) by simp
    show ?thesis unfolding used st0(5) ok(3) Un_iff Int_iff Diff_iff mem_Collect_eq w by (simp only: p0) blast
  qed
  note free = this
  have "0 \<in> pmm_used st" if "0 < total_pages st" using free [OF that] by (auto simp: page_inside_def)
  with ok have "pmm_inv st" by (auto simp: pmm_inv_def pmm_used_def)
  with ok st0(4) free show ?thesis by simp
qed

text \<open>A multiboot structure at 4096 with one memory map tag, one available region of 64 MB and one reserved above it.\<close>

definition demo_map :: "u64 list" where
  "demo_map = [88, 6 + 64 * 2 ^ 32, 24, 0, 0x4000000, 1, 0x4000000, 0x1000000, 2, 0, 0]"

definition demo_mb :: mem where
  "demo_mb a = (if 4096 \<le> a \<and> a < 4096 + 88
     then ucast (drop_bit (unat ((a - 4096) AND 7) * 8) (demo_map ! unat ((a - 4096) div 8))) else 0)"

theorem pmm_init_establishes_witness:
  "\<exists>st. pmm_init demo_mb 0x100000 0x900000 4096 = Some st \<and> pmm_inv st \<and> total_pages st = 16384 \<and>
    4000 \<notin> pmm_used st \<and> 2100 \<in> pmm_used st"
proof -
  have mem: "rd32 demo_mb 4096 = 88" "mb_type demo_mb 4104 = 6" "mb_size demo_mb 4104 = 64" "mmap_entry_size demo_mb 4104 = 24"
    "mb_type demo_mb 4168 = 0" "ent_type demo_mb 4120 = 1" "ent_type demo_mb 4144 = 2"
    "ent_addr demo_mb 4120 = 0" "ent_len demo_mb 4120 = 0x4000000"
    by (simp_all add: mb_type_def mb_size_def mmap_entry_size_def ent_type_def ent_addr_def ent_len_def rd32_def rd64_def
        rd_bytes_def upt_rec demo_mb_def demo_map_def)
  have nxt: "mb_next demo_mb 4104 = 4168" "mmap_entries demo_mb 4104 = [4120, 4144]"
    by (simp_all add: mb_next_def mmap_entries_def mmap_count_def mem upt_rec)
  have no: "\<not> map_entry demo_mb 4184 x 4168" for x
    by (subst map_entry.simps) (simp add: mem)
  have en: "map_entry demo_mb 4184 x 4104 \<longleftrightarrow> x = 4120 \<or> x = 4144" for x
    by (subst map_entry.simps) (auto simp: mem nxt no)
  have re: "region_end demo_mb 4120 = 67108864" by (simp add: region_end_def mem)
  have av: "map_entry demo_mb 4184 x 4104 \<and> available demo_mb x \<longleftrightarrow> x = 4120" for x
    by (auto simp: en available_def mem)
  have ex: "(\<exists>x. map_entry demo_mb 4184 x 4104 \<and> available demo_mb x \<and>
      page_inside p (unat (ent_addr demo_mb x)) (region_end demo_mb x)) \<longleftrightarrow> page_inside p 0 67108864" for p
    using av re by (metis mem(8) unat_0)
  have "tags_end demo_mb 4184 4104"
    by (rule tags_end.tag) (auto simp: mem nxt intro!: tags_end.stop)
  then obtain st where st: "pmm_init demo_mb 0x100000 0x900000 4096 = Some st"
    using pmm_init_returns_iff [of demo_mb "0x100000" "0x900000" 4096] by (auto simp: mem)
  have s: "pmm_inv st" "unat (total_pages st) = 16384" and
    f: "\<forall>p < total_pages st. p \<notin> pmm_used st \<longleftrightarrow> page_inside p 0 67108864 \<and> \<not> page_inside p 0 0x800000 \<and>
      \<not> page_inside p 0x100000 0x900000 \<and> \<not> page_inside p 4096 4184"
    using pmm_init_establishes [OF st] by (simp_all add: mem av re ex)
  have t: "total_pages st = 16384" using s(2) by (intro unat_eqI) simp
  then have "4000 \<notin> pmm_used st" "2100 \<in> pmm_used st"
    using f [rule_format, of 4000] f [rule_format, of 2100] by (simp_all add: page_inside_def)
  then show ?thesis using st s(1) t by blast
qed

text \<open>
  \<open>mark_used\<close> rounds the start of a region up and its end down, so a region that
  contains no complete page reserves nothing: the page that holds it stays available for
  allocation.  A multiboot structure or a kernel tail smaller than a page is not protected.
\<close>

theorem mark_used_partial:
  assumes "unat start + 4095 < 2 ^ 64" and "unat e div 4096 \<le> (unat start + 4095) div 4096"
  shows "mark_used start e st = st"
proof -
  have "align_down e \<le> align_up start"
    using assms by (simp add: word_le_nat_alt unat_align_down unat_align_up)
  then show ?thesis by (simp add: mark_used_def)
qed

theorem mark_used_partial_witness: "mark_used 0x900100 0x900600 demo_pmm = demo_pmm"
  by (rule mark_used_partial) simp_all

end
