(* ===== verification/Kheap.thy ===== *)
theory Kheap
  imports Flyos_Prelude "HOL-Library.Monad_Syntax"
begin

text \<open>
  The kernel heap, \<open>kernel/mm/heap.c\<close>: a first-fit allocator over a doubly linked list
  of block headers.  \<open>hdr\<close> is the store of headers (the C structs, addressed by the
  address of the struct), \<open>hmem\<close> the payload bytes, \<open>heap_head\<close> the static variable
  \<open>head\<close>.  List walks are \<open>option\<close> valued: \<open>None\<close> is a walk that never ends, which
  the invariant excludes.
\<close>

section \<open>Headers and constants\<close>

definition HEAP_START :: u64 where
  "HEAP_START = 0xFFFF800000000000"

definition HEAP_SIZE :: u64 where
  "HEAP_SIZE = 512 * PAGE_SIZE"

definition HEADER_SIZE :: u64 where
  "HEADER_SIZE = 32"

record block =
  b_size :: u64
  b_is_free :: u64
  b_next :: u64
  b_prev :: u64

record kheap =
  hdr :: "u64 \<Rightarrow> block"
  hmem :: mem
  heap_head :: u64

definition ALIGN16 :: "u64 \<Rightarrow> u64" where
  "ALIGN16 x = (x + 16 - 1) AND NOT (16 - 1)"

text \<open>The block list that \<open>heap_init\<close> installs once the pages are mapped.\<close>

definition heap_setup :: "kheap \<Rightarrow> kheap" where
  "heap_setup h = h\<lparr>heap_head := HEAP_START,
     hdr := (hdr h)(HEAP_START := \<lparr>b_size = HEAP_SIZE, b_is_free = 1, b_next = 0, b_prev = 0\<rparr>)\<rparr>"

section \<open>Operations\<close>

partial_function (option) merge_loop :: "(u64 \<Rightarrow> block) \<Rightarrow> u64 \<Rightarrow> (u64 \<Rightarrow> block) option" where
  "merge_loop H b =
     (if b \<noteq> 0 \<and> b_next (H b) \<noteq> 0 then
        (let n = b_next (H b) in
         if b_is_free (H b) \<noteq> 0 \<and> b_is_free (H n) \<noteq> 0 \<and> b + b_size (H b) = n then
           (let H1 = H(b := (H b)\<lparr>b_size := b_size (H b) + b_size (H n)\<rparr>);
                H2 = H1(b := (H1 b)\<lparr>b_next := b_next (H1 n)\<rparr>);
                n2 = b_next (H2 b);
                H3 = (if n2 \<noteq> 0 then H2(n2 := (H2 n2)\<lparr>b_prev := b\<rparr>) else H2)
            in merge_loop H3 b)
         else merge_loop H n)
      else Some H)"

definition merge_all :: "kheap \<Rightarrow> kheap option" where
  "merge_all h = map_option (\<lambda>H. h\<lparr>hdr := H\<rparr>) (merge_loop (hdr h) (heap_head h))"

definition heap_need :: "u64 \<Rightarrow> u64" where
  "heap_need sz =
     (let need = ALIGN16 (sz + HEADER_SIZE) in
      if need < HEADER_SIZE + 16 then HEADER_SIZE + 16 else need)"

text \<open>The search of \<open>kmalloc\<close>: the first free block that is large enough, or 0.\<close>

partial_function (option) first_fit :: "(u64 \<Rightarrow> block) \<Rightarrow> u64 \<Rightarrow> u64 \<Rightarrow> u64 option" where
  "first_fit H need b =
     (if b = 0 then Some 0
      else if b_is_free (H b) \<noteq> 0 \<and> need \<le> b_size (H b) then Some b
      else first_fit H need (b_next (H b)))"

definition split_block :: "(u64 \<Rightarrow> block) \<Rightarrow> u64 \<Rightarrow> u64 \<Rightarrow> u64 \<Rightarrow> block" where
  "split_block H need b =
     (let nb = b + need;
          H1 = H(nb := \<lparr>b_size = b_size (H b) - need, b_is_free = 1, b_next = b_next (H b), b_prev = b\<rparr>);
          n = b_next (H1 b);
          H2 = (if n \<noteq> 0 then H1(n := (H1 n)\<lparr>b_prev := nb\<rparr>) else H1)
      in H2(b := (H2 b)\<lparr>b_next := nb, b_size := need\<rparr>))"

definition take_block :: "(u64 \<Rightarrow> block) \<Rightarrow> u64 \<Rightarrow> u64 \<Rightarrow> u64 \<Rightarrow> block" where
  "take_block H need b =
     (let H' = (if need + HEADER_SIZE + 64 \<le> b_size (H b) then split_block H need b else H)
      in H'(b := (H' b)\<lparr>b_is_free := 0\<rparr>))"

definition kmalloc :: "u64 \<Rightarrow> kheap \<Rightarrow> (u64 \<times> kheap) option" where
  "kmalloc sz h =
     (if sz = 0 then Some (0, h)
      else do {
        b \<leftarrow> first_fit (hdr h) (heap_need sz) (heap_head h);
        Some (if b = 0 then (0, h)
              else (b + HEADER_SIZE, h\<lparr>hdr := take_block (hdr h) (heap_need sz) b\<rparr>))
      })"

definition kfree :: "u64 \<Rightarrow> kheap \<Rightarrow> kheap option" where
  "kfree ptr h =
     (if ptr = 0 then Some h
      else if ptr < HEAP_START + HEADER_SIZE \<or> HEAP_START + HEAP_SIZE \<le> ptr then Some h
      else
        (let b = ptr - HEADER_SIZE in
         if b_is_free (hdr h b) \<noteq> 0 then Some h
         else merge_all (h\<lparr>hdr := (hdr h)(b := (hdr h b)\<lparr>b_is_free := 1\<rparr>)\<rparr>)))"

definition kzalloc :: "u64 \<Rightarrow> kheap \<Rightarrow> (u64 \<times> kheap) option" where
  "kzalloc sz h = do {
     (p, h') \<leftarrow> kmalloc sz h;
     Some (p, if p \<noteq> 0 then h'\<lparr>hmem := wr_bytes (hmem h') p (replicate (unat sz) 0)\<rparr> else h')
   }"

text \<open>\<open>heap_stats\<close>: total bytes, free bytes, blocks, free blocks.\<close>

partial_function (option) stats_loop ::
  "(u64 \<Rightarrow> block) \<Rightarrow> u64 \<Rightarrow> u64 \<times> u64 \<times> nat \<times> nat \<Rightarrow> (u64 \<times> u64 \<times> nat \<times> nat) option" where
  "stats_loop H b acc =
     (if b = 0 then Some acc
      else
        (case acc of (t, f, nb, nf) \<Rightarrow>
           stats_loop H (b_next (H b))
             (t + b_size (H b),
              (if b_is_free (H b) \<noteq> 0 then f + b_size (H b) else f),
              nb + 1,
              (if b_is_free (H b) \<noteq> 0 then nf + 1 else nf))))"

definition heap_stats :: "kheap \<Rightarrow> (u64 \<times> u64 \<times> nat \<times> nat) option" where
  "heap_stats h = stats_loop (hdr h) (heap_head h) (0, 0, 0, 0)"

section \<open>The block list in the store\<close>

text \<open>
  \<open>seg H prev xs nxt E\<close>: the blocks \<open>xs\<close> are linked in this order, they tile the
  address range up to \<open>E\<close> without gaps, \<open>prev\<close> precedes and \<open>nxt\<close> follows them.
\<close>

definition size_ok :: "u64 \<Rightarrow> bool" where
  "size_ok n \<longleftrightarrow> 16 dvd unat n \<and> 48 \<le> unat n"

fun seg :: "(u64 \<Rightarrow> block) \<Rightarrow> u64 \<Rightarrow> u64 list \<Rightarrow> u64 \<Rightarrow> nat \<Rightarrow> bool" where
  "seg H prev [] nxt E \<longleftrightarrow> True"
| "seg H prev (a # xs) nxt E \<longleftrightarrow>
     b_prev (H a) = prev \<and> b_next (H a) = (if xs = [] then nxt else hd xs) \<and>
     unat a + unat (b_size (H a)) = (if xs = [] then E else unat (hd xs)) \<and>
     size_ok (b_size (H a)) \<and> seg H a xs nxt E"

definition coalesced :: "(u64 \<Rightarrow> block) \<Rightarrow> u64 list \<Rightarrow> bool" where
  "coalesced H xs \<longleftrightarrow> successively (\<lambda>a b. b_is_free (H a) = 0 \<or> b_is_free (H b) = 0) xs"

definition HEAP_END :: nat where
  "HEAP_END = 0xFFFF800000200000"

definition heap_rep :: "kheap \<Rightarrow> u64 list \<Rightarrow> bool" where
  "heap_rep h xs \<longleftrightarrow> xs \<noteq> [] \<and> hd xs = HEAP_START \<and> heap_head h = HEAP_START \<and>
     seg (hdr h) 0 xs 0 HEAP_END \<and> coalesced (hdr h) xs"

text \<open>The allocated blocks with their sizes.\<close>

definition allocs :: "(u64 \<Rightarrow> block) \<Rightarrow> u64 list \<Rightarrow> (u64 \<times> u64) set" where
  "allocs H xs = {(a, b_size (H a)) | a. a \<in> set xs \<and> b_is_free (H a) = 0}"

lemma seg_append:
  "seg H prev (xs @ ys) nxt E \<longleftrightarrow>
   seg H prev xs (if ys = [] then nxt else hd ys) (if ys = [] then E else unat (hd ys)) \<and>
   seg H (if xs = [] then prev else last xs) ys nxt E"
  by (induction xs arbitrary: prev) (auto simp: hd_append)

lemma seg_cong: "(\<And>a. a \<in> set xs \<Longrightarrow> H a = H' a) \<Longrightarrow> seg H prev xs nxt E = seg H' prev xs nxt E"
  by (induction xs arbitrary: prev) auto

lemma seg_less_end: "seg H prev xs nxt E \<Longrightarrow> a \<in> set xs \<Longrightarrow> unat a + unat (b_size (H a)) \<le> E"
proof (induction xs arbitrary: prev a)
  case (Cons x xs)
  show ?case
  proof (cases "xs = []")
    case False
    with Cons.prems(1) have x: "unat x + unat (b_size (H x)) = unat (hd xs)" and s: "seg H x xs nxt E"
      by auto
    from Cons.IH [OF s, of "hd xs"] False x Cons.IH [OF s, of a] Cons.prems(2)
    show ?thesis by auto
  qed (use Cons.prems in auto)
qed simp

lemma seg_sorted: "seg H prev xs nxt E \<Longrightarrow> sorted_wrt (\<lambda>a b. unat a + unat (b_size (H a)) \<le> unat b) xs"
proof (induction xs arbitrary: prev)
  case (Cons x xs)
  have s: "seg H x xs nxt E" using Cons.prems by simp
  note srt = Cons.IH [OF s]
  have "unat x + unat (b_size (H x)) \<le> unat b" if "b \<in> set xs" for b
  proof -
    from that obtain y ys where xs: "xs = y # ys" by (cases xs) auto
    have "unat y \<le> unat b" using that srt xs by auto
    with Cons.prems xs show ?thesis by simp
  qed
  with srt show ?case by simp
qed simp

lemma seg_size: "seg H prev xs nxt E \<Longrightarrow> a \<in> set xs \<Longrightarrow> size_ok (b_size (H a))"
  by (induction xs arbitrary: prev) auto

lemma sorted_wrt_strict:
  "sorted_wrt (\<lambda>a b. unat a + unat (b_size (H a)) \<le> unat b) xs \<Longrightarrow> (\<forall>a\<in>set xs. 0 < unat (b_size (H a))) \<Longrightarrow>
   sorted_wrt (<) (map unat xs)"
  by (induction xs) (auto simp: add_le_imp_le_left)

lemma seg_distinct: "seg H prev xs nxt E \<Longrightarrow> distinct xs"
proof -
  assume s: "seg H prev xs nxt E"
  have "0 < unat (b_size (H a))" if "a \<in> set xs" for a
    using seg_size [OF s that] unfolding size_ok_def by linarith
  then have "\<forall>a\<in>set xs. 0 < unat (b_size (H a))" by blast
  then have "sorted_wrt (<) (map unat xs)" using seg_sorted [OF s] by (rule sorted_wrt_strict [rotated])
  then have "distinct (map unat xs)" by (simp add: strict_sorted_iff)
  then show ?thesis by (simp add: distinct_map)
qed

text \<open>Two different blocks never overlap.\<close>

lemma seg_disjoint:
  assumes "seg H prev xs nxt E" and "a \<in> set xs" and "b \<in> set xs" and "a \<noteq> b"
  shows "unat a + unat (b_size (H a)) \<le> unat b \<or> unat b + unat (b_size (H b)) \<le> unat a"
  using seg_sorted [OF assms(1)] assms(2-4) by (induction xs) auto

lemma seg_hd_le: "seg H prev xs nxt E \<Longrightarrow> a \<in> set xs \<Longrightarrow> unat (hd xs) \<le> unat a"
  using seg_sorted [of H prev xs nxt E] by (cases xs) auto

lemma heap_rep_addr:
  assumes "heap_rep h xs" and "a \<in> set xs"
  shows "0xFFFF800000000000 \<le> unat a" and "unat a + unat (b_size (hdr h a)) \<le> HEAP_END"
    and "a \<noteq> 0" and "size_ok (b_size (hdr h a))"
proof -
  have s: "seg (hdr h) 0 xs 0 HEAP_END" and hd: "hd xs = HEAP_START"
    using assms(1) by (simp_all add: heap_rep_def)
  show lo: "0xFFFF800000000000 \<le> unat a" using seg_hd_le [OF s assms(2)] hd by (simp add: HEAP_START_def)
  show "unat a + unat (b_size (hdr h a)) \<le> HEAP_END" by (rule seg_less_end [OF s assms(2)])
  show "a \<noteq> 0" using lo by auto
  show "size_ok (b_size (hdr h a))" by (rule seg_size [OF s assms(2)])
qed

lemma coalesced_Cons:
  "coalesced H (a # b # xs) \<longleftrightarrow> (b_is_free (H a) = 0 \<or> b_is_free (H b) = 0) \<and> coalesced H (b # xs)"
  by (simp add: coalesced_def)

lemma coalesced_simps [simp]: "coalesced H []" "coalesced H [a]"
  by (simp_all add: coalesced_def)

lemma coalesced_append:
  "coalesced H (xs @ ys) \<longleftrightarrow> coalesced H xs \<and> coalesced H ys \<and>
   (xs = [] \<or> ys = [] \<or> b_is_free (H (last xs)) = 0 \<or> b_is_free (H (hd ys)) = 0)"
  by (simp add: coalesced_def successively_append_iff)

lemma coalesced_cong:
  "(\<And>a. a \<in> set xs \<Longrightarrow> b_is_free (H a) = b_is_free (H' a)) \<Longrightarrow> coalesced H xs = coalesced H' xs"
  unfolding coalesced_def by (rule successively_cong) auto

lemma coalesced_take:
  assumes "coalesced H (pre @ a # post)" and "\<And>x. x \<in> set (pre @ post) \<Longrightarrow> b_is_free (H' x) = b_is_free (H x)"
    and "b_is_free (H' a) = 0"
  shows "coalesced H' (pre @ a # post)"
proof -
  have "coalesced H' pre = coalesced H pre" "coalesced H' post = coalesced H post"
    using assms(2) by (auto intro!: coalesced_cong)
  then show ?thesis using assms by (cases post) (auto simp: coalesced_append coalesced_Cons)
qed

lemma coalesced_split:
  assumes "coalesced H (pre @ a # post)" and "\<And>x. x \<in> set (pre @ post) \<Longrightarrow> b_is_free (H' x) = b_is_free (H x)"
    and "b_is_free (H' a) = 0" and "b_is_free (H a) \<noteq> 0"
  shows "coalesced H' (pre @ a # nb # post)"
proof -
  have "coalesced H' pre = coalesced H pre" "coalesced H' post = coalesced H post"
    using assms(2) by (auto intro!: coalesced_cong)
  then show ?thesis using assms by (cases post) (auto simp: coalesced_append coalesced_Cons)
qed

section \<open>Searching and splitting\<close>

text \<open>The search walks the list and stops at the first block that fits.\<close>

definition fits :: "(u64 \<Rightarrow> block) \<Rightarrow> u64 \<Rightarrow> u64 \<Rightarrow> bool" where
  "fits H need a \<longleftrightarrow> b_is_free (H a) \<noteq> 0 \<and> need \<le> b_size (H a)"

lemma first_fit_find:
  assumes "seg H prev xs 0 E" and "0 \<notin> set xs"
  shows "first_fit H need (if xs = [] then 0 else hd xs) =
    Some (case find (fits H need) xs of None \<Rightarrow> 0 | Some a \<Rightarrow> a)"
  using assms
proof (induction xs arbitrary: prev)
  case Nil
  then show ?case by (simp add: first_fit.simps)
next
  case (Cons a xs)
  have "first_fit H need (b_next (H a)) = Some (case find (fits H need) xs of None \<Rightarrow> 0 | Some a \<Rightarrow> a)"
    using Cons.IH [of a] Cons.prems by (auto split: if_splits)
  then show ?case using Cons.prems by (simp add: first_fit.simps [of H need a] fits_def [of H need a])
qed

lemma seg_middle:
  assumes "seg H prev (pre @ a # post) 0 E"
  shows "b_next (H a) = (if post = [] then 0 else hd post)"
    and "unat a + unat (b_size (H a)) = (if post = [] then E else unat (hd post))"
    and "b_prev (H a) = (if pre = [] then prev else last pre)"
  using assms by (auto simp: seg_append)

lemma split_seg:
  assumes s: "seg H prev (pre @ a # post) 0 E" and nz: "0 \<notin> set post" and E: "E < 2 ^ 64"
    and need: "size_ok need" "unat need + 96 \<le> unat (b_size (H a))"
    and H': "H' = split_block H need a"
  shows "seg H' prev (pre @ a # (a + need) # post) 0 E"
    and "b_size (H' a) = need" and "b_is_free (H' (a + need)) = 1"
    and "\<And>x. x \<noteq> a + need \<Longrightarrow> b_is_free (H' x) = b_is_free (H x)"
    and "\<And>x. x \<noteq> a \<Longrightarrow> x \<noteq> a + need \<Longrightarrow> b_size (H' x) = b_size (H x)"
    and "a + need \<notin> set (pre @ a # post)"
proof -
  let ?nb = "a + need"
  note mid = seg_middle [OF s]
  have fin: "unat a + unat (b_size (H a)) \<le> E" by (rule seg_less_end [OF s]) simp
  then have nb: "unat ?nb = unat a + unat need"
    using need E by (intro unat_plus_small) simp
  have dist: "distinct (pre @ a # post)" by (rule seg_distinct [OF s])
  show new: "?nb \<notin> set (pre @ a # post)"
  proof
    assume "?nb \<in> set (pre @ a # post)"
    moreover have "?nb \<noteq> a" using nb need by (auto simp: size_ok_def)
    ultimately have "unat a + unat (b_size (H a)) \<le> unat ?nb \<or> unat ?nb + unat (b_size (H ?nb)) \<le> unat a"
      using seg_disjoint [OF s, of a ?nb] by auto
    with nb need show False by (auto simp: size_ok_def)
  qed
  have nba: "?nb \<noteq> a" using new by auto
  define n where "n = b_next (H a)"
  have n: "n = (if post = [] then 0 else hd post)" using mid n_def by simp
  have npost: "n \<in> set post" if "n \<noteq> 0" using that n by (auto split: if_splits)
  then have na: "n \<noteq> a" "n \<noteq> ?nb" if "n \<noteq> 0"
    using that dist new by auto
  have sub: "unat (b_size (H a) - need) = unat (b_size (H a)) - unat need"
    using need by (intro unat_sub) (simp add: word_le_nat_alt)
  have Ha: "H' a = (H a)\<lparr>b_next := ?nb, b_size := need\<rparr>"
    unfolding H' split_block_def Let_def using nba na n_def by auto
  have Hnb: "H' ?nb = \<lparr>b_size = b_size (H a) - need, b_is_free = 1, b_next = n, b_prev = a\<rparr>"
    unfolding H' split_block_def Let_def using nba na n_def by auto
  have Hn: "H' n = (H n)\<lparr>b_prev := ?nb\<rparr>" if "n \<noteq> 0"
    unfolding H' split_block_def Let_def using nba na n_def that by auto
  have Ho: "H' x = H x" if "x \<noteq> a" "x \<noteq> ?nb" "x \<noteq> n \<or> n = 0" for x
    unfolding H' split_block_def Let_def using nba na n_def that by auto
  show "b_size (H' a) = need" "b_is_free (H' ?nb) = 1" using Ha Hnb by simp_all
  show "b_is_free (H' x) = b_is_free (H x)" if "x \<noteq> ?nb" for x
    using that Ha Hn Ho by (cases "x = a"; cases "x = n \<and> n \<noteq> 0") auto
  show "b_size (H' x) = b_size (H x)" if "x \<noteq> a" "x \<noteq> ?nb" for x
    using that Hn Ho by (cases "x = n \<and> n \<noteq> 0") auto
  have pre: "seg H' prev pre a (unat a)"
    using s dist new n nz by (subst seg_cong [where H' = H]) (auto simp: seg_append split: if_splits intro!: Ho)
  have post: "seg H' ?nb post 0 E"
  proof (cases post)
    case (Cons p ps)
    then have "n = p" "p \<noteq> 0" using n nz by auto
    have "seg H' p ps 0 E = seg H p ps 0 E"
      using dist new \<open>n = p\<close> Cons by (intro seg_cong Ho) auto
    then show ?thesis using s Cons \<open>n = p\<close> \<open>p \<noteq> 0\<close> Hn by (auto simp: seg_append)
  qed simp
  have "size_ok (b_size (H a))" using seg_size [OF s, of a] by simp
  then have "size_ok (b_size (H a) - need)"
    using need sub by (auto simp: size_ok_def)
  then show "seg H' prev (pre @ a # ?nb # post) 0 E"
    using pre post need mid Ha Hnb nb sub n by (auto simp: seg_append)
qed

section \<open>kmalloc\<close>

lemma unat_ALIGN16: "unat x + 15 < 2 ^ 64 \<Longrightarrow> unat (ALIGN16 x) = (unat x + 15) div 16 * 16"
proof -
  assume "unat x + 15 < 2 ^ 64"
  then have "unat (x + 15) = unat x + 15" by (simp add: unat_plus_small)
  then show ?thesis
    using unat_and_not_mask [of "x + 15" 4]
    by (simp add: ALIGN16_def mask_eq_exp_minus_1 algebra_simps)
qed

lemma ALIGN16_dvd: "16 dvd unat (ALIGN16 x)"
  using unat_and_not_mask [of "x + 15" 4]
  by (simp add: ALIGN16_def mask_eq_exp_minus_1 algebra_simps)

lemma heap_need_size_ok: "size_ok (heap_need sz)"
  using ALIGN16_dvd [of "sz + HEADER_SIZE"]
  by (auto simp: heap_need_def size_ok_def HEADER_SIZE_def Let_def word_less_nat_alt)

lemma heap_need_covers:
  assumes "unat sz + 47 < 2 ^ 64"
  shows "unat sz + 32 \<le> unat (heap_need sz)"
proof -
  have "unat (sz + 32) = unat sz + 32" using assms by (simp add: unat_plus_small)
  then have "unat (ALIGN16 (sz + HEADER_SIZE)) = (unat sz + 47) div 16 * 16"
    using assms by (simp add: unat_ALIGN16 HEADER_SIZE_def)
  then show ?thesis by (auto simp: heap_need_def Let_def HEADER_SIZE_def word_less_nat_alt)
qed

lemma seg_take:
  assumes "seg H prev xs nxt E"
  shows "seg (H(a := (H a)\<lparr>b_is_free := f\<rparr>)) prev xs nxt E"
  using assms by (induction xs arbitrary: prev) auto

lemma split_block_rest: "b + need \<noteq> b \<Longrightarrow> b_size (split_block H need b (b + need)) = b_size (H b) - need"
  by (simp add: split_block_def Let_def)

text \<open>Every block but \<open>b\<close> is still in the list, with its size and its flag.\<close>

definition others_kept :: "kheap \<Rightarrow> u64 list \<Rightarrow> u64 \<Rightarrow> kheap \<Rightarrow> u64 list \<Rightarrow> bool" where
  "others_kept h xs b h' xs' \<longleftrightarrow> (\<forall>x \<in> set xs. x \<noteq> b \<longrightarrow> x \<in> set xs' \<and>
     b_is_free (hdr h' x) = b_is_free (hdr h x) \<and> b_size (hdr h' x) = b_size (hdr h x))"

lemma take_block_ok:
  assumes rep: "heap_rep h xs" and xs: "xs = pre @ b # post"
    and free: "b_is_free (hdr h b) \<noteq> 0" and need: "size_ok need" "need \<le> b_size (hdr h b)"
    and h': "h' = h\<lparr>hdr := take_block (hdr h) need b\<rparr>"
  shows "\<exists>xs' n. heap_rep h' xs' \<and> b \<in> set xs' \<and> need \<le> n \<and> n \<le> b_size (hdr h b) \<and>
    allocs (hdr h') xs' = insert (b, n) (allocs (hdr h) xs) \<and> others_kept h xs b h' xs' \<and>
    (unat need + 96 \<le> unat (b_size (hdr h b)) \<longrightarrow>
      b + need \<in> set xs' \<and> b_is_free (hdr h' (b + need)) \<noteq> 0 \<and> b_size (hdr h' (b + need)) = b_size (hdr h b) - need)"
proof -
  let ?H = "hdr h"
  from rep xs have s: "seg ?H 0 (pre @ b # post) 0 HEAP_END" and co: "coalesced ?H (pre @ b # post)"
    and hd: "hd (pre @ b # post) = HEAP_START" and head: "heap_head h = HEAP_START"
    by (auto simp: heap_rep_def)
  have nz: "0 \<notin> set xs" using heap_rep_addr(3) [OF rep] by blast
  have dist: "distinct (pre @ b # post)" by (rule seg_distinct [OF s])
  have sum: "unat need + 96 \<le> unat (b_size (?H b)) \<longleftrightarrow> need + HEADER_SIZE + 64 \<le> b_size (?H b)"
  proof -
    have "unat (b_size (?H b)) \<le> 2097152"
      using heap_rep_addr(1,2) [OF rep, of b] xs by (simp add: HEAP_END_def)
    then have "unat (need + 96) = unat need + 96"
      using need(2) by (intro unat_plus_small [of need 96, simplified]) (simp add: word_le_nat_alt)
    then show ?thesis by (simp add: HEADER_SIZE_def word_le_nat_alt add.assoc)
  qed
  show ?thesis
  proof (cases "unat need + 96 \<le> unat (b_size (?H b))")
    case True
    let ?S = "split_block ?H need b"
    have hdr': "hdr h' = ?S(b := (?S b)\<lparr>b_is_free := 0\<rparr>)"
      using True sum by (simp add: h' take_block_def Let_def)
    note sp = split_seg [OF s _ _ need(1) True refl]
    have sp1: "seg ?S 0 (pre @ b # (b + need) # post) 0 HEAP_END" "b_size (?S b) = need"
      "b_is_free (?S (b + need)) = 1" "b + need \<notin> set (pre @ b # post)"
      "\<And>x. x \<noteq> b + need \<Longrightarrow> b_is_free (?S x) = b_is_free (?H x)"
      "\<And>x. x \<noteq> b \<Longrightarrow> x \<noteq> b + need \<Longrightarrow> b_size (?S x) = b_size (?H x)"
      using sp nz xs by (simp_all add: HEAP_END_def)
    have same: "b_is_free (hdr h' x) = b_is_free (?H x) \<and> b_size (hdr h' x) = b_size (?H x)"
      if "x \<in> set (pre @ post)" for x
    proof -
      have "x \<noteq> b" "x \<noteq> b + need" using that sp1(4) dist by auto
      then show ?thesis using sp1(5,6) hdr' by simp
    qed
    have nbb: "b + need \<noteq> b" using sp1(4) by auto
    have at: "b_is_free (hdr h' b) = 0" "b_size (hdr h' b) = need" "b_is_free (hdr h' (b + need)) = 1"
      using sp1(2,3) hdr' nbb by simp_all
    have "coalesced (hdr h') (pre @ b # (b + need) # post)"
      using same at(1) free by (intro coalesced_split [OF co]) auto
    moreover have "seg (hdr h') 0 (pre @ b # (b + need) # post) 0 HEAP_END"
      unfolding hdr' by (rule seg_take [OF sp1(1)])
    ultimately have "heap_rep h' (pre @ b # (b + need) # post)"
      using hd head by (cases pre) (auto simp: heap_rep_def h')
    moreover have "allocs (hdr h') (pre @ b # (b + need) # post) = insert (b, need) (allocs ?H xs)"
      using same at free xs by (force simp: allocs_def)
    moreover have "b_size (hdr h' (b + need)) = b_size (?H b) - need"
      using hdr' nbb split_block_rest [OF nbb, of ?H] by simp
    moreover have "others_kept h xs b h' (pre @ b # (b + need) # post)"
      unfolding others_kept_def xs using same by auto
    ultimately show ?thesis using need(2) at(3)
      by (intro exI [of _ "pre @ b # (b + need) # post"] exI [of _ need] conjI impI) simp_all
  next
    case False
    have hdr': "hdr h' = ?H(b := (?H b)\<lparr>b_is_free := 0\<rparr>)"
      using False sum by (simp add: h' take_block_def Let_def)
    have "coalesced (hdr h') xs"
      unfolding xs using dist hdr' by (intro coalesced_take [OF co]) auto
    moreover have "seg (hdr h') 0 xs 0 HEAP_END" unfolding hdr' xs by (rule seg_take [OF s])
    moreover have "heap_head h' = HEAP_START" using head by (simp add: h')
    ultimately have "heap_rep h' xs" using hd xs by (simp add: heap_rep_def)
    moreover have "allocs (hdr h') xs = insert (b, b_size (?H b)) (allocs ?H xs)"
      using xs dist hdr' by (auto simp: allocs_def)
    moreover have "others_kept h xs b h' xs" using hdr' by (simp add: others_kept_def)
    ultimately show ?thesis using need(2) xs False
      by (intro exI [of _ xs] exI [of _ "b_size (?H b)"] conjI) simp_all
  qed
qed

lemma heap_rep_nz: "heap_rep h xs \<Longrightarrow> 0 \<notin> set xs"
  using heap_rep_addr(3) by blast

lemma kmalloc_search:
  assumes "heap_rep h xs"
  shows "first_fit (hdr h) need (heap_head h) =
    Some (case find (fits (hdr h) need) xs of None \<Rightarrow> 0 | Some a \<Rightarrow> a)"
  using first_fit_find [of "hdr h" 0 xs HEAP_END need] heap_rep_nz [OF assms] assms
  by (simp add: heap_rep_def)

lemma kmalloc_spec:
  assumes rep: "heap_rep h xs" and sz: "sz \<noteq> 0"
  shows "\<exists>p h'. kmalloc sz h = Some (p, h') \<and> hmem h' = hmem h \<and>
    (if \<exists>a \<in> set xs. fits (hdr h) (heap_need sz) a then
       \<exists>xs' b n. heap_rep h' xs' \<and> p = b + HEADER_SIZE \<and> b \<in> set xs \<and> b_is_free (hdr h b) \<noteq> 0 \<and>
         b \<in> set xs' \<and> heap_need sz \<le> n \<and> n \<le> b_size (hdr h b) \<and>
         allocs (hdr h') xs' = insert (b, n) (allocs (hdr h) xs)
     else p = 0 \<and> h' = h)"
proof (cases "find (fits (hdr h) (heap_need sz)) xs")
  case None
  then have "\<not> (\<exists>a \<in> set xs. fits (hdr h) (heap_need sz) a)" by (auto simp: find_None_iff)
  then show ?thesis using None sz kmalloc_search [OF rep] by (simp add: kmalloc_def)
next
  case (Some b)
  then have b: "b \<in> set xs" "fits (hdr h) (heap_need sz) b" by (auto simp: find_Some_iff)
  then obtain pre post where xs: "xs = pre @ b # post" by (meson split_list)
  let ?h = "h\<lparr>hdr := take_block (hdr h) (heap_need sz) b\<rparr>"
  have "b \<noteq> 0" using heap_rep_nz [OF rep] b(1) by auto
  then have "kmalloc sz h = Some (b + HEADER_SIZE, ?h)"
    using Some sz kmalloc_search [OF rep] by (simp add: kmalloc_def)
  moreover have "\<exists>xs' n. heap_rep ?h xs' \<and> b \<in> set xs' \<and> heap_need sz \<le> n \<and> n \<le> b_size (hdr h b) \<and>
      allocs (hdr ?h) xs' = insert (b, n) (allocs (hdr h) xs)"
    using take_block_ok [OF rep xs _ heap_need_size_ok [of sz] _ refl] b(2) unfolding fits_def by blast
  ultimately show ?thesis using b by (auto simp: fits_def)
qed

section \<open>kfree and merging\<close>

lemma merge_step_seg:
  assumes s: "seg H prev (a # n # rest) 0 E" and nz: "0 \<notin> set rest" and E: "E < 2 ^ 64"
    and H1: "H1 = H(a := (H a)\<lparr>b_size := b_size (H a) + b_size (H n), b_next := b_next (H n)\<rparr>)"
    and H2: "H2 = (if b_next (H n) \<noteq> 0 then H1(b_next (H n) := (H1 (b_next (H n)))\<lparr>b_prev := a\<rparr>) else H1)"
  shows "seg H2 prev (a # rest) 0 E"
    and "\<And>x. b_is_free (H2 x) = b_is_free (H x)"
    and "\<And>x. x \<noteq> a \<Longrightarrow> b_size (H2 x) = b_size (H x)"
    and "\<And>x. x \<noteq> a \<Longrightarrow> x \<notin> set rest \<Longrightarrow> H2 x = H x"
proof -
  have dist: "distinct (a # n # rest)" by (rule seg_distinct [OF s])
  have nn: "b_next (H n) = (if rest = [] then 0 else hd rest)" using s by simp
  then have nn_in: "b_next (H n) \<noteq> 0 \<Longrightarrow> b_next (H n) \<in> set rest" by (auto split: if_splits)
  show "b_is_free (H2 x) = b_is_free (H x)" for x by (simp add: H2 H1)
  show "b_size (H2 x) = b_size (H x)" if "x \<noteq> a" for x using that by (simp add: H2 H1)
  show "H2 x = H x" if "x \<noteq> a" "x \<notin> set rest" for x using that nn_in by (auto simp: H2 H1)
  have fin: "unat n + unat (b_size (H n)) \<le> E" by (rule seg_less_end [OF s]) simp
  have sum: "unat (b_size (H a) + b_size (H n)) = unat (b_size (H a)) + unat (b_size (H n))"
    using s fin E by (intro unat_plus_small) simp
  have sz: "size_ok (b_size (H a) + b_size (H n))"
    using s sum by (auto simp: size_ok_def)
  have Ha: "H2 a = (H a)\<lparr>b_size := b_size (H a) + b_size (H n), b_next := b_next (H n)\<rparr>"
    using nn_in dist by (auto simp: H2 H1)
  have "seg H2 a rest 0 E"
  proof (cases rest)
    case (Cons r rs)
    then have "b_next (H n) = r" "r \<noteq> 0" using nn nz by auto
    moreover have "seg H2 r rs 0 E = seg H r rs 0 E"
      using dist Cons calculation by (intro seg_cong) (auto simp: H2 H1)
    ultimately show ?thesis using s Cons dist by (auto simp: H2 H1)
  qed simp
  then show "seg H2 prev (a # rest) 0 E"
    using s Ha sum sz nn by auto
qed

lemma allocs_Cons:
  "allocs H (a # xs) = (if b_is_free (H a) = 0 then insert (a, b_size (H a)) (allocs H xs) else allocs H xs)"
  by (auto simp: allocs_def)

lemma merge_loop_ok:
  assumes "seg H prev (a # xs) 0 E" and "0 \<notin> set (a # xs)" and "E < 2 ^ 64"
  shows "\<exists>H' ys. merge_loop H a = Some H' \<and> seg H' prev (a # ys) 0 E \<and> coalesced H' (a # ys) \<and>
    allocs H' (a # ys) = allocs H (a # xs) \<and> (\<forall>x. b_is_free (H' x) = b_is_free (H x)) \<and>
    (\<forall>x. x \<notin> set (a # xs) \<longrightarrow> H' x = H x)"
  using assms
proof (induction "length xs" arbitrary: H prev a xs rule: less_induct)
  case less
  show ?case
  proof (cases xs)
    case Nil
    then have "merge_loop H a = Some H"
      using less.prems by (simp add: merge_loop.simps)
    with Nil less.prems show ?thesis by (intro exI [of _ H] exI [of _ "[]"]) auto
  next
    case (Cons n rest)
    have s: "seg H prev (a # n # rest) 0 E" and E: "E < 2 ^ 64" using less.prems Cons by simp_all
    have nz: "a \<noteq> 0" "n \<noteq> 0" "0 \<notin> set rest" using less.prems(2) Cons by auto
    have nxt: "b_next (H a) = n" using s by simp
    have dist: "distinct (a # n # rest)" by (rule seg_distinct [OF s])
    have "unat a + unat (b_size (H a)) = unat n" using s by simp
    moreover from this have "unat (a + b_size (H a)) = unat a + unat (b_size (H a))"
      by (intro unat_plus_small) (metis unsigned_less)
    ultimately have adj: "a + b_size (H a) = n" by (intro unat_eqI) simp
    show ?thesis
    proof (cases "b_is_free (H a) \<noteq> 0 \<and> b_is_free (H n) \<noteq> 0")
      case True
      define H1 where "H1 = H(a := (H a)\<lparr>b_size := b_size (H a) + b_size (H n), b_next := b_next (H n)\<rparr>)"
      define H2 where "H2 = (if b_next (H n) \<noteq> 0 then H1(b_next (H n) := (H1 (b_next (H n)))\<lparr>b_prev := a\<rparr>) else H1)"
      note st = merge_step_seg [OF s nz(3) E H1_def H2_def]
      have step: "merge_loop H a = merge_loop H2 a"
        using nz nxt adj True dist by (subst merge_loop.simps) (auto simp: Let_def H1_def H2_def)
      have "\<exists>H' ys. merge_loop H2 a = Some H' \<and> seg H' prev (a # ys) 0 E \<and> coalesced H' (a # ys) \<and>
        allocs H' (a # ys) = allocs H2 (a # rest) \<and> (\<forall>x. b_is_free (H' x) = b_is_free (H2 x)) \<and>
        (\<forall>x. x \<notin> set (a # rest) \<longrightarrow> H' x = H2 x)"
        using Cons nz st(1) E by (intro less.hyps) auto
      then obtain H' ys where *: "merge_loop H2 a = Some H'" "seg H' prev (a # ys) 0 E" "coalesced H' (a # ys)"
        "allocs H' (a # ys) = allocs H2 (a # rest)" "\<forall>x. b_is_free (H' x) = b_is_free (H2 x)"
        "\<forall>x. x \<notin> set (a # rest) \<longrightarrow> H' x = H2 x" by blast
      have "b_size (H2 x) = b_size (H x)" if "x \<in> set rest" for x using that dist st(3) [of x] by auto
      then have "allocs H2 (a # rest) = allocs H (a # xs)"
        using st(2) True Cons by (auto simp: allocs_def)
      moreover have "H' x = H x" if "x \<notin> set (a # xs)" for x
        using * st(4) [of x] that Cons by auto
      ultimately show ?thesis using * step st(2)
        by (intro exI [of _ H'] exI [of _ ys]) simp
    next
      case False
      have step: "merge_loop H a = merge_loop H n"
        using nz nxt adj False by (subst merge_loop.simps) (auto simp: Let_def)
      have sn: "seg H a (n # rest) 0 E" using s by simp
      have "\<exists>H' ys. merge_loop H n = Some H' \<and> seg H' a (n # ys) 0 E \<and> coalesced H' (n # ys) \<and>
        allocs H' (n # ys) = allocs H (n # rest) \<and> (\<forall>x. b_is_free (H' x) = b_is_free (H x)) \<and>
        (\<forall>x. x \<notin> set (n # rest) \<longrightarrow> H' x = H x)"
        using Cons nz sn E by (intro less.hyps) auto
      then obtain H' ys where *: "merge_loop H n = Some H'" "seg H' a (n # ys) 0 E" "coalesced H' (n # ys)"
        "allocs H' (n # ys) = allocs H (n # rest)" "\<forall>x. b_is_free (H' x) = b_is_free (H x)"
        "\<forall>x. x \<notin> set (n # rest) \<longrightarrow> H' x = H x" by blast
      have Ha: "H' a = H a" using * dist by auto
      have "seg H' prev (a # n # ys) 0 E" using * Ha s by simp
      moreover have "coalesced H' (a # n # ys)" using * False by (auto simp: coalesced_Cons)
      moreover have "allocs H' (a # n # ys) = allocs H (a # xs)"
        using *(4) Ha Cons allocs_Cons [of H' a "n # ys"] allocs_Cons [of H a "n # rest"] by simp
      ultimately show ?thesis using * step Cons
        by (intro exI [of _ H'] exI [of _ "n # ys"]) simp
    qed
  qed
qed

text \<open>Where a payload pointer of a block of the list lies.\<close>

lemma payload_addr:
  assumes "heap_rep h xs" and "a \<in> set xs"
  shows "unat (a + HEADER_SIZE) = unat a + 32" and "a + HEADER_SIZE \<noteq> 0"
    and "HEAP_START + HEADER_SIZE \<le> a + HEADER_SIZE" and "a + HEADER_SIZE < HEAP_START + HEAP_SIZE"
proof -
  note ad = heap_rep_addr [OF assms]
  have le: "unat a + 48 \<le> HEAP_END" using ad(2,4) by (simp add: size_ok_def)
  then show u: "unat (a + HEADER_SIZE) = unat a + 32"
    using unat_plus_small [of a 32] by (simp add: HEADER_SIZE_def HEAP_END_def)
  then show "a + HEADER_SIZE \<noteq> 0" by (metis add_eq_0_iff_both_eq_0 unat_0 zero_neq_numeral)
  show "HEAP_START + HEADER_SIZE \<le> a + HEADER_SIZE"
    using ad(1) u by (simp add: word_le_nat_alt HEAP_START_def HEADER_SIZE_def)
  show "a + HEADER_SIZE < HEAP_START + HEAP_SIZE"
    using le u by (simp add: word_less_nat_alt HEAP_START_def HEAP_SIZE_def PAGE_SIZE_def HEAP_END_def)
qed

lemma allocs_release:
  assumes "distinct xs" and "a \<in> set xs" and "f \<noteq> 0"
  shows "allocs (H(a := (H a)\<lparr>b_is_free := f\<rparr>)) xs = allocs H xs - {(a, b_size (H a))}"
  using assms by (auto simp: allocs_def)

lemma kfree_spec:
  assumes rep: "heap_rep h xs" and a: "a \<in> set xs" and used: "b_is_free (hdr h a) = 0"
  shows "\<exists>h' ys. kfree (a + HEADER_SIZE) h = Some h' \<and> heap_rep h' ys \<and> hmem h' = hmem h \<and>
    allocs (hdr h') ys = allocs (hdr h) xs - {(a, b_size (hdr h a))}"
proof -
  let ?H = "(hdr h)(a := (hdr h a)\<lparr>b_is_free := 1\<rparr>)"
  note pa = payload_addr [OF rep a]
  from rep have s: "seg (hdr h) 0 xs 0 HEAP_END" and hd: "xs \<noteq> []" "hd xs = HEAP_START"
    and head: "heap_head h = HEAP_START" by (auto simp: heap_rep_def)
  then obtain ys where xs: "xs = HEAP_START # ys" by (cases xs) auto
  have "seg ?H 0 (HEAP_START # ys) 0 HEAP_END" using seg_take [OF s, of a 1] xs by simp
  moreover have "0 \<notin> set (HEAP_START # ys)" using heap_rep_nz [OF rep] xs by simp
  moreover have "HEAP_END < 2 ^ 64" by (simp add: HEAP_END_def)
  ultimately have "\<exists>H' zs. merge_loop ?H HEAP_START = Some H' \<and> seg H' 0 (HEAP_START # zs) 0 HEAP_END \<and>
      coalesced H' (HEAP_START # zs) \<and> allocs H' (HEAP_START # zs) = allocs ?H (HEAP_START # ys) \<and>
      (\<forall>x. b_is_free (H' x) = b_is_free (?H x)) \<and> (\<forall>x. x \<notin> set (HEAP_START # ys) \<longrightarrow> H' x = ?H x)"
    by (rule merge_loop_ok)
  then obtain H' zs where m: "merge_loop ?H HEAP_START = Some H'" "seg H' 0 (HEAP_START # zs) 0 HEAP_END"
    "coalesced H' (HEAP_START # zs)" "allocs H' (HEAP_START # zs) = allocs ?H xs"
    using xs by blast
  have "\<not> (a + HEADER_SIZE < HEAP_START + HEADER_SIZE \<or> HEAP_START + HEAP_SIZE \<le> a + HEADER_SIZE)"
    using pa(3,4) by (meson leD)
  then have "kfree (a + HEADER_SIZE) h = merge_all (h\<lparr>hdr := ?H\<rparr>)"
    unfolding kfree_def Let_def add_diff_cancel_right' using pa(2) used by (simp only: if_False simp_thms)
  then have "kfree (a + HEADER_SIZE) h = Some (h\<lparr>hdr := H'\<rparr>)"
    using m(1) head by (simp add: merge_all_def)
  moreover have "heap_rep (h\<lparr>hdr := H'\<rparr>) (HEAP_START # zs)" using m head by (simp add: heap_rep_def)
  moreover have "allocs ?H xs = allocs (hdr h) xs - {(a, b_size (hdr h a))}"
    by (rule allocs_release [OF seg_distinct [OF s] a]) simp
  ultimately show ?thesis using m(4)
    by (intro exI [of _ "h\<lparr>hdr := H'\<rparr>"] exI [of _ "HEAP_START # zs"]) simp
qed

section \<open>The allocator contract\<close>

text \<open>The block list is a function of the heap.\<close>

lemma seg_unique:
  assumes "seg H p xs 0 E" and "seg H q ys 0 E" and "0 \<notin> set xs" and "0 \<notin> set ys"
    and "(if xs = [] then 0 else hd xs) = (if ys = [] then 0 else hd ys)"
  shows "xs = ys"
  using assms
proof (induction xs arbitrary: p q ys)
  case Nil
  then show ?case by (cases ys) auto
next
  case (Cons a xs)
  then obtain zs where ys: "ys = a # zs" by (cases ys) auto
  have "xs = zs"
    using Cons.prems ys by (intro Cons.IH [of a a zs]) auto
  with ys show ?case by simp
qed

lemma heap_rep_unique: "heap_rep h xs \<Longrightarrow> heap_rep h ys \<Longrightarrow> xs = ys"
  using seg_unique [of "hdr h" 0 xs HEAP_END 0 ys] heap_rep_nz [of h xs] heap_rep_nz [of h ys]
  by (simp add: heap_rep_def)

definition heap_ok :: "kheap \<Rightarrow> bool" where
  "heap_ok h \<longleftrightarrow> (\<exists>xs. heap_rep h xs)"

text \<open>The live allocations: payload pointer and payload length in bytes.\<close>

definition heap_live :: "kheap \<Rightarrow> (u64 \<times> nat) set" where
  "heap_live h = {(a + HEADER_SIZE, unat n - 32) | a n xs. heap_rep h xs \<and> (a, n) \<in> allocs (hdr h) xs}"

definition payload :: "u64 \<times> u64 \<Rightarrow> u64 \<times> nat" where
  "payload an = (fst an + HEADER_SIZE, unat (snd an) - 32)"

lemma heap_live_rep: "heap_rep h xs \<Longrightarrow> heap_live h = payload ` allocs (hdr h) xs"
proof -
  assume "heap_rep h xs"
  then have "heap_rep h ys \<longleftrightarrow> ys = xs" for ys using heap_rep_unique [of h] by blast
  then show ?thesis by (simp add: heap_live_def payload_def image_def Bex_def split_paired_Ex) blast
qed

lemma payload_inj: "inj_on payload (allocs H xs)"
  by (auto simp: inj_on_def payload_def allocs_def)

text \<open>What \<open>kmalloc\<close> and \<open>kfree\<close> promise to the rest of the kernel.\<close>

definition ranges_apart :: "u64 \<times> nat \<Rightarrow> u64 \<times> nat \<Rightarrow> bool" where
  "ranges_apart a b \<longleftrightarrow> unat (fst a) + snd a \<le> unat (fst b) \<or> unat (fst b) + snd b \<le> unat (fst a)"

locale allocator =
  fixes alloc :: "u64 \<Rightarrow> 'h \<Rightarrow> (u64 \<times> 'h) option"
    and release :: "u64 \<Rightarrow> 'h \<Rightarrow> 'h option"
    and ok :: "'h \<Rightarrow> bool"
    and live :: "'h \<Rightarrow> (u64 \<times> nat) set"
  assumes alloc_returns: "ok h \<Longrightarrow> \<exists>p h'. alloc n h = Some (p, h') \<and> ok h'"
    and alloc_null: "ok h \<Longrightarrow> alloc n h = Some (0, h') \<Longrightarrow> h' = h"
    and alloc_fresh: "ok h \<Longrightarrow> alloc n h = Some (p, h') \<Longrightarrow> p \<noteq> 0 \<Longrightarrow>
      \<exists>m. (unat n + 47 < 2 ^ 64 \<longrightarrow> unat n \<le> m) \<and> p \<notin> fst ` live h \<and> live h' = insert (p, m) (live h)"
    and release_live: "ok h \<Longrightarrow> (p, m) \<in> live h \<Longrightarrow>
      \<exists>h'. release p h = Some h' \<and> ok h' \<and> live h' = live h - {(p, m)}"
    and live_apart: "ok h \<Longrightarrow> a \<in> live h \<Longrightarrow> b \<in> live h \<Longrightarrow> a \<noteq> b \<Longrightarrow> ranges_apart a b"
begin

text \<open>Allocating and releasing again leaves the live allocations as they were.\<close>

lemma alloc_release:
  assumes "ok h" and "alloc n h = Some (p, h')" and "p \<noteq> 0"
  shows "\<exists>h''. release p h' = Some h'' \<and> ok h'' \<and> live h'' = live h"
proof -
  obtain m where m: "p \<notin> fst ` live h" "live h' = insert (p, m) (live h)"
    using alloc_fresh [OF assms] by blast
  have "ok h'" using alloc_returns [OF assms(1), of n] assms(2) by auto
  then obtain h'' where "release p h' = Some h''" "ok h''" "live h'' = live h' - {(p, m)}"
    using release_live [of h' p m] m(2) by blast
  moreover have "(p, m) \<notin> live h" using m(1) by (metis fst_conv image_eqI)
  ultimately show ?thesis using m(2) by auto
qed

text \<open>A new allocation shares no byte with an old one.\<close>

lemma alloc_apart:
  assumes "ok h" and "alloc n h = Some (p, h')" and "p \<noteq> 0" and "unat n + 47 < 2 ^ 64" and "b \<in> live h"
  shows "ranges_apart (p, unat n) b"
proof -
  obtain m where m: "unat n \<le> m" "p \<notin> fst ` live h" "live h' = insert (p, m) (live h)"
    using alloc_fresh [OF assms(1-3)] assms(4) by blast
  have "ok h'" using alloc_returns [OF assms(1), of n] assms(2) by auto
  moreover have "b \<noteq> (p, m)" using m(2) assms(5) by force
  ultimately have "ranges_apart (p, m) b" using live_apart [of h' "(p, m)" b] m(3) assms(5) by auto
  then show ?thesis using m(1) by (auto simp: ranges_apart_def)
qed

end

lemma live_range:
  assumes "heap_rep h xs" and "(p, m) \<in> heap_live h"
  shows "\<exists>a \<in> set xs. p = a + HEADER_SIZE \<and> b_is_free (hdr h a) = 0 \<and> m = unat (b_size (hdr h a)) - 32 \<and>
    unat p = unat a + 32 \<and> unat p + m = unat a + unat (b_size (hdr h a)) \<and> p \<noteq> 0"
proof -
  obtain a where a: "a \<in> set xs" "b_is_free (hdr h a) = 0" "p = a + HEADER_SIZE" "m = unat (b_size (hdr h a)) - 32"
    using assms(2) unfolding heap_live_rep [OF assms(1)] by (auto simp: payload_def allocs_def)
  have "48 \<le> unat (b_size (hdr h a))" using heap_rep_addr(4) [OF assms(1) a(1)] by (simp add: size_ok_def)
  then show ?thesis using a payload_addr(1,2) [OF assms(1) a(1)] by (intro bexI [of _ a]) auto
qed

lemma kmalloc_live:
  assumes "heap_ok h"
  shows "\<exists>p h'. kmalloc sz h = Some (p, h') \<and> heap_ok h' \<and> hmem h' = hmem h \<and> (p = 0 \<longrightarrow> h' = h) \<and>
    (p \<noteq> 0 \<longrightarrow> (\<exists>m. (unat sz + 47 < 2 ^ 64 \<longrightarrow> unat sz \<le> m) \<and> p \<notin> fst ` heap_live h \<and>
       heap_live h' = insert (p, m) (heap_live h)))"
proof (cases "sz = 0")
  case True
  then show ?thesis using assms by (simp add: kmalloc_def)
next
  case False
  from assms obtain xs where rep: "heap_rep h xs" by (auto simp: heap_ok_def)
  obtain p h' where k: "kmalloc sz h = Some (p, h')" "hmem h' = hmem h" and
    c: "if \<exists>a \<in> set xs. fits (hdr h) (heap_need sz) a then
       \<exists>xs' b n. heap_rep h' xs' \<and> p = b + HEADER_SIZE \<and> b \<in> set xs \<and> b_is_free (hdr h b) \<noteq> 0 \<and>
         b \<in> set xs' \<and> heap_need sz \<le> n \<and> n \<le> b_size (hdr h b) \<and>
         allocs (hdr h') xs' = insert (b, n) (allocs (hdr h) xs)
     else p = 0 \<and> h' = h"
    using kmalloc_spec [OF rep False] by blast
  show ?thesis
  proof (cases "\<exists>a \<in> set xs. fits (hdr h) (heap_need sz) a")
    case True
    with c obtain xs' b n where a: "heap_rep h' xs'" "p = b + HEADER_SIZE" "b \<in> set xs" "b_is_free (hdr h b) \<noteq> 0"
      "heap_need sz \<le> n" "allocs (hdr h') xs' = insert (b, n) (allocs (hdr h) xs)" by auto
    have p0: "p \<noteq> 0" using payload_addr(2) [OF rep a(3)] a(2) by simp
    have live: "heap_live h' = insert (p, unat n - 32) (heap_live h)"
      using heap_live_rep [OF a(1)] heap_live_rep [OF rep] a(2,6) by (simp add: payload_def)
    have sz: "unat sz \<le> unat n - 32" if "unat sz + 47 < 2 ^ 64"
      using heap_need_covers [OF that] a(5) by (simp add: word_le_nat_alt)
    have new: "p \<notin> fst ` heap_live h"
    proof
      assume "p \<in> fst ` heap_live h"
      then obtain m where "(p, m) \<in> heap_live h" by auto
      from live_range [OF rep this] a(2,4) show False by auto
    qed
    show ?thesis using k p0 live sz new a(1) by (auto simp: heap_ok_def)
  next
    case False
    then show ?thesis using c k assms by simp
  qed
qed

lemma kfree_live:
  assumes "heap_ok h" and "(p, m) \<in> heap_live h"
  shows "\<exists>h'. kfree p h = Some h' \<and> heap_ok h' \<and> hmem h' = hmem h \<and> heap_live h' = heap_live h - {(p, m)}"
proof -
  from assms obtain xs where rep: "heap_rep h xs" by (auto simp: heap_ok_def)
  obtain a where a: "a \<in> set xs" "p = a + HEADER_SIZE" "b_is_free (hdr h a) = 0"
    "m = unat (b_size (hdr h a)) - 32" using live_range [OF rep assms(2)] by auto
  obtain h' ys where f: "kfree (a + HEADER_SIZE) h = Some h'" "heap_rep h' ys" "hmem h' = hmem h"
    "allocs (hdr h') ys = allocs (hdr h) xs - {(a, b_size (hdr h a))}"
    using kfree_spec [OF rep a(1,3)] by blast
  have "(a, b_size (hdr h a)) \<in> allocs (hdr h) xs" using a by (auto simp: allocs_def)
  then have "payload ` (allocs (hdr h) xs - {(a, b_size (hdr h a))}) = payload ` allocs (hdr h) xs - {(p, m)}"
    using a(2,4) inj_on_image_set_diff [OF payload_inj, of "allocs (hdr h) xs" "{(a, b_size (hdr h a))}" "hdr h" xs]
    by (simp add: payload_def Diff_subset)
  then have "heap_live h' = heap_live h - {(p, m)}"
    using heap_live_rep [OF f(2)] heap_live_rep [OF rep] f(4) by simp
  then show ?thesis using f a(2) by (auto simp: heap_ok_def)
qed

lemma heap_live_apart:
  assumes "heap_ok h" and "x \<in> heap_live h" and "y \<in> heap_live h" and "x \<noteq> y"
  shows "ranges_apart x y"
proof -
  from assms obtain xs where rep: "heap_rep h xs" by (auto simp: heap_ok_def)
  then have s: "seg (hdr h) 0 xs 0 HEAP_END" by (simp add: heap_rep_def)
  obtain p m q n where xy: "x = (p, m)" "y = (q, n)" by (cases x; cases y)
  from live_range [OF rep] assms(2) xy obtain a where a: "a \<in> set xs" "p = a + HEADER_SIZE"
    "m = unat (b_size (hdr h a)) - 32"
    "unat p = unat a + 32" "unat p + m = unat a + unat (b_size (hdr h a))" by blast
  from live_range [OF rep] assms(3) xy obtain b where b: "b \<in> set xs" "q = b + HEADER_SIZE"
    "n = unat (b_size (hdr h b)) - 32"
    "unat q = unat b + 32" "unat q + n = unat b + unat (b_size (hdr h b))" by blast
  have "a \<noteq> b" using a b xy assms(4) by auto
  from seg_disjoint [OF s a(1) b(1) this] a b xy show ?thesis by (auto simp: ranges_apart_def)
qed

interpretation kh: allocator kmalloc kfree heap_ok heap_live
proof
  fix h h' :: kheap and n p :: u64 and m :: nat and a b :: "u64 \<times> nat"
  show "heap_ok h \<Longrightarrow> \<exists>p h'. kmalloc n h = Some (p, h') \<and> heap_ok h'" using kmalloc_live by blast
  show "heap_ok h \<Longrightarrow> kmalloc n h = Some (0, h') \<Longrightarrow> h' = h" using kmalloc_live [of h n] by auto
  show "heap_ok h \<Longrightarrow> kmalloc n h = Some (p, h') \<Longrightarrow> p \<noteq> 0 \<Longrightarrow>
      \<exists>m. (unat n + 47 < 2 ^ 64 \<longrightarrow> unat n \<le> m) \<and> p \<notin> fst ` heap_live h \<and> heap_live h' = insert (p, m) (heap_live h)"
    using kmalloc_live [of h n] by auto
  show "heap_ok h \<Longrightarrow> (p, m) \<in> heap_live h \<Longrightarrow>
      \<exists>h'. kfree p h = Some h' \<and> heap_ok h' \<and> heap_live h' = heap_live h - {(p, m)}"
    using kfree_live by blast
  show "heap_ok h \<Longrightarrow> a \<in> heap_live h \<Longrightarrow> b \<in> heap_live h \<Longrightarrow> a \<noteq> b \<Longrightarrow> ranges_apart a b"
    by (rule heap_live_apart)
qed

section \<open>Statistics, zeroing and the drained heap\<close>

lemma stats_loop_ok:
  assumes "seg H prev xs 0 E" and "0 \<notin> set xs"
  shows "stats_loop H (if xs = [] then 0 else hd xs) (t, f, nb, nf) =
    Some (t + sum_list (map (\<lambda>a. b_size (H a)) xs),
          f + sum_list (map (\<lambda>a. b_size (H a)) (filter (\<lambda>a. b_is_free (H a) \<noteq> 0) xs)),
          nb + length xs, nf + length (filter (\<lambda>a. b_is_free (H a) \<noteq> 0) xs))"
  using assms
proof (induction xs arbitrary: prev t f nb nf)
  case Nil
  then show ?case by (simp add: stats_loop.simps)
next
  case (Cons a xs)
  have s: "seg H a xs 0 E" and z: "0 \<notin> set xs" and nxt: "b_next (H a) = (if xs = [] then 0 else hd xs)"
    and a0: "a \<noteq> 0" using Cons.prems by auto
  show ?case
    using a0 unfolding stats_loop.simps [of H "if a # xs = [] then 0 else hd (a # xs)"]
    by (simp add: nxt Cons.IH [OF s z] algebra_simps)
qed

lemma seg_total:
  assumes "seg H prev xs 0 E" and "xs \<noteq> []"
  shows "unat (hd xs) + sum_list (map (\<lambda>a. unat (b_size (H a))) xs) = E"
  using assms by (induction xs arbitrary: prev) (auto simp flip: add.assoc split: if_splits)

lemma unat_sum_list:
  "sum_list (map (\<lambda>a. unat (f a)) xs) < 2 ^ 64 \<Longrightarrow>
   unat (sum_list (map f xs) :: u64) = sum_list (map (\<lambda>a. unat (f a)) xs)"
proof (induction xs)
  case (Cons a xs)
  then have "unat (sum_list (map f xs)) = sum_list (map (\<lambda>a. unat (f a)) xs)" by simp
  with Cons.prems show ?case by (simp add: unat_plus_small)
qed simp

lemma sum_list_filter_le: "sum_list (map f (filter P xs)) \<le> (sum_list (map f xs) :: nat)"
  by (induction xs) auto

lemma sum_filter_split:
  "sum_list (map f xs) = sum_list (map f (filter P xs)) + (sum_list (map f (filter (\<lambda>x. \<not> P x) xs)) :: nat)"
  by (induction xs) auto

lemma sum_allocs:
  assumes "distinct xs"
  shows "(\<Sum>(a, n)\<in>allocs H xs. unat n) = sum_list (map (\<lambda>a. unat (b_size (H a))) (filter (\<lambda>a. \<not> b_is_free (H a) \<noteq> 0) xs))"
proof -
  let ?ys = "filter (\<lambda>a. \<not> b_is_free (H a) \<noteq> 0) xs"
  have "allocs H xs = (\<lambda>a. (a, b_size (H a))) ` set ?ys" by (auto simp: allocs_def)
  moreover have "inj_on (\<lambda>a. (a, b_size (H a))) (set ?ys)" by (auto simp: inj_on_def)
  ultimately have "(\<Sum>(a, n)\<in>allocs H xs. unat n) = (\<Sum>a\<in>set ?ys. unat (b_size (H a)))"
    by (simp add: sum.reindex)
  also have "\<dots> = sum_list (map (\<lambda>a. unat (b_size (H a))) ?ys)"
    using assms by (simp add: sum_list_distinct_conv_sum_set)
  finally show ?thesis .
qed

lemma heap_rep_total:
  assumes "heap_rep h xs"
  shows "sum_list (map (\<lambda>a. unat (b_size (hdr h a))) xs) = unat HEAP_SIZE"
  using seg_total [of "hdr h" 0 xs HEAP_END] assms
  by (simp add: heap_rep_def HEAP_START_def HEAP_END_def HEAP_SIZE_def PAGE_SIZE_def)

text \<open>With nothing allocated the whole heap is one free block: merging undoes all splits.\<close>

lemma heap_drained:
  assumes rep: "heap_rep h xs" and "heap_live h = {}"
  shows "xs = [HEAP_START]" and "hdr h HEAP_START = \<lparr>b_size = HEAP_SIZE, b_is_free = b_is_free (hdr h HEAP_START), b_next = 0, b_prev = 0\<rparr>"
    and "b_is_free (hdr h HEAP_START) \<noteq> 0"
proof -
  have "allocs (hdr h) xs = {}" using assms heap_live_rep [OF rep] by simp
  then have free: "b_is_free (hdr h a) \<noteq> 0" if "a \<in> set xs" for a using that by (auto simp: allocs_def)
  have xs0: "xs \<noteq> []" "hd xs = HEAP_START" "coalesced (hdr h) xs" using rep by (auto simp: heap_rep_def)
  show xs: "xs = [HEAP_START]"
  proof (cases xs)
    case (Cons a ys)
    with xs0 free show ?thesis by (cases ys) (auto simp: coalesced_Cons)
  qed (use xs0 in simp)
  have u: "unat (b_size (hdr h HEAP_START)) = unat HEAP_SIZE" using heap_rep_total [OF rep] xs by simp
  then have "b_size (hdr h HEAP_START) = HEAP_SIZE" by (rule unat_eqI)
  moreover have "b_next (hdr h HEAP_START) = 0" "b_prev (hdr h HEAP_START) = 0"
    using rep xs by (auto simp: heap_rep_def)
  ultimately show "hdr h HEAP_START = \<lparr>b_size = HEAP_SIZE, b_is_free = b_is_free (hdr h HEAP_START), b_next = 0, b_prev = 0\<rparr>"
    by simp
  show "b_is_free (hdr h HEAP_START) \<noteq> 0" using free xs by simp
qed

lemma heap_setup_rep: "heap_rep (heap_setup h) [HEAP_START]"
  by (simp add: heap_rep_def heap_setup_def HEAP_START_def HEAP_END_def HEAP_SIZE_def PAGE_SIZE_def size_ok_def)

lemma heap_setup_live: "heap_live (heap_setup h) = {}"
  unfolding heap_live_rep [OF heap_setup_rep] by (simp add: allocs_def heap_setup_def)

lemma heap_need_wrap:
  assumes "2 ^ 64 - 47 \<le> unat sz"
  shows "heap_need sz = 48"
proof -
  define k where "k = 18446744073709551616 - unat sz"
  have "18446744073709551569 \<le> unat sz" using assms by simp
  then have k: "0 < k" "k \<le> 47" "unat sz = 18446744073709551616 - k"
    using unat_lt_64 [of sz] unfolding k_def by linarith+
  then have "sz = of_nat (18446744073709551616 - k)" by (metis unat_eqI unat_of_nat_64 unat_lt_64)
  moreover have "k \<in> {1..47}" using k by auto
  then have "k \<in> set [1..<48]" by auto
  ultimately show ?thesis
    by (auto simp: upt_rec heap_need_def ALIGN16_def HEADER_SIZE_def Let_def)
qed

section \<open>Properties\<close>

definition blank_heap :: kheap where
  "blank_heap = \<lparr>hdr = (\<lambda>_. \<lparr>b_size = 0, b_is_free = 0, b_next = 0, b_prev = 0\<rparr>), hmem = (\<lambda>_. 7), heap_head = 0\<rparr>"

definition demo_heap :: kheap where
  "demo_heap = heap_setup blank_heap"

text \<open>The heap after one allocation of 100 bytes.\<close>

definition demo_heap1 :: kheap where
  "demo_heap1 = demo_heap\<lparr>hdr := take_block (hdr demo_heap) (heap_need 100) HEAP_START\<rparr>"

lemma demo_heap_ok: "heap_ok demo_heap"
  using heap_setup_rep [of blank_heap] by (auto simp: heap_ok_def demo_heap_def)

lemma heap_need_100: "heap_need 100 = 144"
  by (simp add: heap_need_def ALIGN16_def HEADER_SIZE_def Let_def)

lemma demo_heap_kmalloc: "kmalloc 100 demo_heap = Some (0xFFFF800000000020, demo_heap1)"
  using kmalloc_search [OF heap_setup_rep [of blank_heap], of "heap_need 100"]
  by (simp add: kmalloc_def demo_heap1_def demo_heap_def fits_def heap_need_100 heap_setup_def HEADER_SIZE_def
      HEAP_START_def HEAP_SIZE_def PAGE_SIZE_def)

lemma demo_heap1_rep: "heap_rep demo_heap1 [HEAP_START, HEAP_START + 144]"
  unfolding heap_need_100 demo_heap1_def
  by (simp add: heap_rep_def demo_heap_def heap_setup_def take_block_def split_block_def
      HEADER_SIZE_def HEAP_START_def HEAP_SIZE_def PAGE_SIZE_def HEAP_END_def size_ok_def coalesced_def)

lemma demo_heap1_live: "heap_live demo_heap1 = {(0xFFFF800000000020, 112)}"
  unfolding heap_live_rep [OF demo_heap1_rep] allocs_Cons unfolding demo_heap1_def heap_need_100
  by (simp add: allocs_def payload_def demo_heap_def heap_setup_def take_block_def split_block_def
      HEADER_SIZE_def HEAP_START_def HEAP_SIZE_def PAGE_SIZE_def)

text \<open>The bytes a request takes from a free block: the request and its header, rounded up to 16.\<close>

definition request_bytes :: "u64 \<Rightarrow> nat" where
  "request_bytes sz = (if unat sz + 47 < 2 ^ 64 then (unat sz + 47) div 16 * 16 else 48)"

lemma heap_need_bytes:
  assumes "sz \<noteq> 0"
  shows "unat (heap_need sz) = request_bytes sz"
proof (cases "unat sz + 47 < 2 ^ 64")
  case True
  have "1 \<le> unat sz" using assms by (cases "unat sz") auto
  then have "48 div 16 * 16 \<le> (unat sz + 47) div 16 * 16" by (intro mult_le_mono1 div_le_mono) simp
  moreover have "unat (sz + 32) = unat sz + 32" using True by (simp add: unat_plus_small)
  then have "unat (ALIGN16 (sz + HEADER_SIZE)) = (unat sz + 47) div 16 * 16"
    using True by (simp add: unat_ALIGN16 HEADER_SIZE_def)
  ultimately show ?thesis using True
    by (auto simp: request_bytes_def heap_need_def Let_def HEADER_SIZE_def word_less_nat_alt)
next
  case False
  then show ?thesis using heap_need_wrap [of sz] by (simp add: request_bytes_def)
qed

lemma seg_aligned: "seg H prev xs nxt E \<Longrightarrow> xs \<noteq> [] \<longrightarrow> 16 dvd unat (hd xs) \<Longrightarrow> a \<in> set xs \<Longrightarrow> 16 dvd unat a"
proof (induction xs arbitrary: prev)
  case (Cons x xs)
  show ?case
  proof (cases "a = x")
    case False
    then have x: "xs \<noteq> []" "a \<in> set xs" using Cons.prems(3) by auto
    have "unat x + unat (b_size (H x)) = unat (hd xs)" "16 dvd unat (b_size (H x))"
      using Cons.prems(1) x(1) by (auto simp: size_ok_def)
    then have "16 dvd unat (hd xs)" using Cons.prems(2) by (metis dvd_add list.distinct(1) list.sel(1))
    then show ?thesis using Cons.IH [of x] Cons.prems(1) x(2) by simp
  qed (use Cons.prems(2) in simp)
qed simp

text \<open>Where a live allocation lies: aligned, inside the heap, and clear of every block header.\<close>

lemma live_place:
  assumes rep: "heap_rep h xs" and l: "(p, m) \<in> heap_live h"
  shows "16 dvd unat p" "unat HEAP_START + 32 \<le> unat p" "unat p + m \<le> HEAP_END"
    "c \<in> set xs \<Longrightarrow> n \<le> m \<Longrightarrow> ranges_apart (p, n) (c, 32)"
proof -
  obtain a where a: "a \<in> set xs" "unat p = unat a + 32" "unat p + m = unat a + unat (b_size (hdr h a))"
    using live_range [OF assms] by blast
  have s: "seg (hdr h) 0 xs 0 HEAP_END" "hd xs = HEAP_START" using rep by (simp_all add: heap_rep_def)
  have "16 dvd unat a" by (rule seg_aligned [OF s(1) _ a(1)]) (simp add: s(2) HEAP_START_def)
  then show "16 dvd unat p" using a(2) by simp
  show "unat HEAP_START + 32 \<le> unat p" using heap_rep_addr(1) [OF rep a(1)] a(2) by (simp add: HEAP_START_def)
  show "unat p + m \<le> HEAP_END" using heap_rep_addr(2) [OF rep a(1)] a(3) by simp
  assume c: "c \<in> set xs" "n \<le> m"
  have "48 \<le> unat (b_size (hdr h c))" using heap_rep_addr(4) [OF rep c(1)] by (simp add: size_ok_def)
  then show "ranges_apart (p, n) (c, 32)"
    using seg_disjoint [OF s(1) a(1) c(1)] a(2,3) c(2) by (cases "a = c") (auto simp: ranges_apart_def)
qed

text \<open>C2. \<open>kmalloc\<close> on a well formed heap with the block list \<open>xs\<close>.  It always returns, changes no byte of the
  heap's memory besides block headers and leaves the heap well formed.  It returns null, and then changes nothing, exactly when the
  request is zero or no free block holds the request with a 32-byte header, rounded up to 16.
  A pointer is 16-byte aligned and new, and becomes the only new live allocation.  For a request that does not overflow
  \<open>size + 47\<close>, the allocation has at least the requested length, the requested bytes lie inside the heap, and
  they overlap neither a live allocation nor the header of any block of the list after the call.\<close>

theorem kmalloc_correct:
  assumes "heap_rep h xs"
  shows "\<exists>p h' xs'. kmalloc sz h = Some (p, h') \<and> heap_rep h' xs' \<and> hmem h' = hmem h \<and>
    (p = 0 \<longleftrightarrow> sz = 0 \<or> (\<forall>a \<in> set xs. b_is_free (hdr h a) \<noteq> 0 \<longrightarrow> unat (b_size (hdr h a)) < request_bytes sz)) \<and>
    (p = 0 \<longrightarrow> h' = h) \<and>
    (p \<noteq> 0 \<longrightarrow> 16 dvd unat p \<and> p \<notin> fst ` heap_live h \<and>
      (\<exists>m. heap_live h' = insert (p, m) (heap_live h) \<and>
        (unat sz + 47 < 2 ^ 64 \<longrightarrow> unat sz \<le> m \<and> unat HEAP_START + 32 \<le> unat p \<and> unat p + unat sz \<le> HEAP_END \<and>
          (\<forall>b \<in> heap_live h. ranges_apart (p, unat sz) b) \<and> (\<forall>c \<in> set xs'. ranges_apart (p, unat sz) (c, 32)))))"
proof -
  have ok: "heap_ok h" using assms by (auto simp: heap_ok_def)
  obtain p h' where k: "kmalloc sz h = Some (p, h')" "heap_ok h'" "hmem h' = hmem h" "p = 0 \<longrightarrow> h' = h"
    "p \<noteq> 0 \<longrightarrow> (\<exists>m. (unat sz + 47 < 2 ^ 64 \<longrightarrow> unat sz \<le> m) \<and> p \<notin> fst ` heap_live h \<and>
       heap_live h' = insert (p, m) (heap_live h))"
    using kmalloc_live [OF ok] by blast
  obtain xs' where xs': "heap_rep h' xs'" using k(2) by (auto simp: heap_ok_def)
  have null: "p = 0 \<longleftrightarrow> sz = 0 \<or> (\<forall>a \<in> set xs. b_is_free (hdr h a) \<noteq> 0 \<longrightarrow> unat (b_size (hdr h a)) < request_bytes sz)"
  proof (cases "sz = 0")
    case True
    then show ?thesis using k(1) by (simp add: kmalloc_def)
  next
    case False
    have nz: "b + HEADER_SIZE \<noteq> 0" if "b \<in> set xs" for b using payload_addr(2) [OF assms that] .
    have "p \<noteq> 0 \<longleftrightarrow> (\<exists>a \<in> set xs. fits (hdr h) (heap_need sz) a)"
      using kmalloc_spec [OF assms False] k(1) nz by (auto split: if_splits)
    then show ?thesis using False heap_need_bytes [OF False]
      by (auto simp: fits_def word_le_nat_alt not_le not_less)
  qed
  have new: "16 dvd unat p \<and> p \<notin> fst ` heap_live h \<and>
      (\<exists>m. heap_live h' = insert (p, m) (heap_live h) \<and>
        (unat sz + 47 < 2 ^ 64 \<longrightarrow> unat sz \<le> m \<and> unat HEAP_START + 32 \<le> unat p \<and> unat p + unat sz \<le> HEAP_END \<and>
          (\<forall>b \<in> heap_live h. ranges_apart (p, unat sz) b) \<and> (\<forall>c \<in> set xs'. ranges_apart (p, unat sz) (c, 32))))"
    if p: "p \<noteq> 0"
  proof -
    obtain m where m: "unat sz + 47 < 2 ^ 64 \<longrightarrow> unat sz \<le> m" "p \<notin> fst ` heap_live h" "heap_live h' = insert (p, m) (heap_live h)"
      using k(5) p by blast
    have l: "(p, m) \<in> heap_live h'" using m(3) by simp
    note pl = live_place [OF xs' l]
    have "ranges_apart (p, unat sz) b" if "unat sz + 47 < 2 ^ 64" "b \<in> heap_live h" for b
      using kh.alloc_apart [OF ok k(1) p that] .
    then show ?thesis using m pl by (intro conjI exI [of _ m]) auto
  qed
  show ?thesis using k(1,3,4) xs' null new by blast
qed

theorem kmalloc_correct_witness:
  "\<exists>p h' m. kmalloc 100 demo_heap1 = Some (p, h') \<and> p \<noteq> 0 \<and> 16 dvd unat p \<and> 100 \<le> m \<and>
    heap_live h' = {(p, m), (0xFFFF800000000020, 112)} \<and> ranges_apart (p, 100) (0xFFFF800000000020, 112)"
proof -
  have "request_bytes 100 = 144" by (simp add: request_bytes_def)
  moreover have "b_is_free (hdr demo_heap1 (HEAP_START + 144)) \<noteq> 0 \<and> \<not> unat (b_size (hdr demo_heap1 (HEAP_START + 144))) < 144"
    unfolding heap_need_100 demo_heap1_def
    by (simp add: demo_heap_def heap_setup_def take_block_def split_block_def HEADER_SIZE_def HEAP_START_def HEAP_SIZE_def PAGE_SIZE_def)
  ultimately show ?thesis using kmalloc_correct [OF demo_heap1_rep, of 100]
    unfolding demo_heap1_live by fastforce
qed

text \<open>Completeness of \<open>kmalloc\<close>: it returns null exactly when the request is zero or no
  free block of the list has room for the aligned request and its header.\<close>

theorem kmalloc_null_iff:
  assumes "heap_rep h xs"
  shows "(\<exists>h'. kmalloc sz h = Some (0, h')) \<longleftrightarrow>
    sz = 0 \<or> (\<forall>a \<in> set xs. b_is_free (hdr h a) = 0 \<or> b_size (hdr h a) < heap_need sz)"
proof (cases "sz = 0")
  case False
  have "(b + HEADER_SIZE \<noteq> 0)" if "b \<in> set xs" for b using payload_addr(2) [OF assms that] .
  then show ?thesis using kmalloc_spec [OF assms False] False
    by (auto simp: fits_def not_le split: if_splits)
qed (simp add: kmalloc_def)

theorem kmalloc_null_iff_witness:
  "\<exists>h'. kmalloc 0x200000 demo_heap = Some (0, h')"
proof -
  have rep: "heap_rep demo_heap [HEAP_START]" unfolding demo_heap_def by (rule heap_setup_rep)
  have "b_size (hdr demo_heap HEAP_START) < heap_need 0x200000"
    by (simp add: demo_heap_def heap_setup_def heap_need_def ALIGN16_def HEADER_SIZE_def HEAP_SIZE_def
        PAGE_SIZE_def Let_def)
  then show ?thesis using kmalloc_null_iff [OF rep, of "0x200000"] by simp
qed

text \<open>C3. \<open>kfree\<close> of a live allocation returns, keeps the heap well formed (merging included),
  touches no payload byte and removes exactly that allocation.\<close>

theorem kfree_correct:
  assumes "heap_ok h" and "(p, m) \<in> heap_live h"
  shows "\<exists>h'. kfree p h = Some h' \<and> heap_ok h' \<and> hmem h' = hmem h \<and> heap_live h' = heap_live h - {(p, m)}"
  by (rule kfree_live [OF assms])

theorem kfree_correct_witness:
  "\<exists>h'. kfree 0xFFFF800000000020 demo_heap1 = Some h' \<and> heap_ok h' \<and> heap_live h' = {}"
  using kfree_correct [of demo_heap1 "0xFFFF800000000020" 112] demo_heap1_rep demo_heap1_live
  by (auto simp: heap_ok_def)

text \<open>No fragmentation survives the last \<open>kfree\<close>: on a well formed heap with no live
  allocation every request up to the heap size less one header succeeds, at the start of the heap.\<close>

theorem drained_heap_serves_all:
  assumes "heap_ok h" and "heap_live h = {}" and "sz \<noteq> 0" and "unat sz + 32 \<le> unat HEAP_SIZE"
  shows "\<exists>h'. kmalloc sz h = Some (HEAP_START + HEADER_SIZE, h')"
proof -
  obtain xs where rep: "heap_rep h xs" using assms(1) by (auto simp: heap_ok_def)
  note d = heap_drained [OF rep assms(2)]
  have size: "unat HEAP_SIZE = 2097152" by (simp add: HEAP_SIZE_def PAGE_SIZE_def)
  have u: "unat (sz + 32) = unat sz + 32" using assms(4) size by (simp add: unat_plus_small)
  have "unat (ALIGN16 (sz + HEADER_SIZE)) = (unat sz + 47) div 16 * 16"
    using assms(4) size u by (simp add: unat_ALIGN16 HEADER_SIZE_def)
  moreover have "(unat sz + 47) div 16 * 16 \<le> 2097152" using assms(4) size by simp
  ultimately have "heap_need sz \<le> HEAP_SIZE"
    using size by (auto simp: heap_need_def Let_def HEADER_SIZE_def word_le_nat_alt)
  then have "fits (hdr h) (heap_need sz) HEAP_START"
    using d(3) by (simp add: fits_def arg_cong [OF d(2), of b_size])
  then have "first_fit (hdr h) (heap_need sz) (heap_head h) = Some HEAP_START"
    using kmalloc_search [OF rep, of "heap_need sz"] d(1) by simp
  then show ?thesis using assms(3) by (simp add: kmalloc_def HEAP_START_def)
qed

theorem drained_heap_serves_all_witness:
  "\<exists>h'. kmalloc 2097120 demo_heap = Some (HEAP_START + HEADER_SIZE, h')"
  using drained_heap_serves_all [of demo_heap 2097120] demo_heap_ok heap_setup_live [of blank_heap]
  by (simp add: demo_heap_def HEAP_SIZE_def PAGE_SIZE_def)

text \<open>The guards of \<open>kfree\<close>: a null pointer, a pointer outside the heap and a pointer to a
  block that is already free change nothing.\<close>

theorem kfree_rejects:
  assumes "ptr = 0 \<or> ptr < HEAP_START + HEADER_SIZE \<or> HEAP_START + HEAP_SIZE \<le> ptr \<or>
    b_is_free (hdr h (ptr - HEADER_SIZE)) \<noteq> 0"
  shows "kfree ptr h = Some h"
  using assms by (auto simp: kfree_def Let_def)

theorem kfree_rejects_witness:
  "kfree (HEAP_START + HEADER_SIZE) demo_heap = Some demo_heap"
  using kfree_rejects [of "HEAP_START + HEADER_SIZE" demo_heap]
  by (simp add: demo_heap_def heap_setup_def)

text \<open>\<open>kzalloc\<close> returns; when it yields a pointer, every requested byte of the payload is
  zero and every other byte of memory is as before.\<close>

theorem kzalloc_zeroes:
  assumes "heap_ok h" and "unat sz + 47 < 2 ^ 64"
  shows "\<exists>p h'. kzalloc sz h = Some (p, h') \<and> heap_ok h' \<and>
    (p = 0 \<longrightarrow> h' = h) \<and>
    (p \<noteq> 0 \<longrightarrow> (\<exists>m. unat sz \<le> m \<and> heap_live h' = insert (p, m) (heap_live h)) \<and>
      (\<forall>a. hmem h' a = (if unat (a - p) < unat sz then 0 else hmem h a)))"
proof -
  obtain p h' where k: "kmalloc sz h = Some (p, h')" "heap_ok h'" "hmem h' = hmem h" "p = 0 \<longrightarrow> h' = h"
    "p \<noteq> 0 \<longrightarrow> (\<exists>m. unat sz \<le> m \<and> heap_live h' = insert (p, m) (heap_live h))"
    using kmalloc_live [OF assms(1), of sz] assms(2) by blast
  have ok: "heap_ok (h'\<lparr>hmem := m\<rparr>)" and lv: "heap_live (h'\<lparr>hmem := m\<rparr>) = heap_live h'" for m
    using k(2) by (auto simp: heap_ok_def heap_live_def heap_rep_def)
  show ?thesis
  proof (cases "p = 0")
    case True
    then show ?thesis using k by (simp add: kzalloc_def)
  next
    case False
    then show ?thesis using k ok lv unat_lt_64 [of sz]
      by (simp add: kzalloc_def wr_bytes_apply)
  qed
qed

theorem kzalloc_zeroes_witness:
  "\<exists>h'. kzalloc 100 demo_heap = Some (0xFFFF800000000020, h') \<and> hmem h' 0xFFFF800000000083 = 0 \<and>
    hmem h' 0xFFFF800000000084 = 7"
proof -
  obtain p h' where *: "kzalloc 100 demo_heap = Some (p, h')"
    "p \<noteq> 0 \<longrightarrow> (\<forall>a. hmem h' a = (if unat (a - p) < unat (100 :: u64) then 0 else hmem demo_heap a))"
    using kzalloc_zeroes [OF demo_heap_ok, of 100] by auto
  moreover have "p = 0xFFFF800000000020" using * demo_heap_kmalloc by (simp add: kzalloc_def)
  ultimately show ?thesis by (simp add: demo_heap_def heap_setup_def blank_heap_def)
qed

text \<open>\<open>heap_stats\<close> accounts for every byte: the total is the heap size, the free bytes and
  the sizes of the allocated blocks (headers included) add up to it, and the block counts are
  those of the list.\<close>

theorem heap_stats_accounts:
  assumes "heap_rep h xs"
  shows "\<exists>f nf. heap_stats h = Some (HEAP_SIZE, f, length xs, nf) \<and>
    unat f + (\<Sum>(a, n)\<in>allocs (hdr h) xs. unat n) = unat HEAP_SIZE \<and>
    nf + card (allocs (hdr h) xs) = length xs"
proof -
  let ?sz = "\<lambda>a. b_size (hdr h a)" and ?free = "\<lambda>a. b_is_free (hdr h a) \<noteq> 0"
  from assms have s: "seg (hdr h) 0 xs 0 HEAP_END" and xs: "xs \<noteq> []" "hd xs = heap_head h" and d: "distinct xs"
    using seg_distinct by (auto simp: heap_rep_def)
  note tot = heap_rep_total [OF assms]
  have lt: "sum_list (map (\<lambda>a. unat (?sz a)) xs) < 2 ^ 64"
    using tot by (simp add: HEAP_SIZE_def PAGE_SIZE_def)
  have "unat (sum_list (map ?sz xs)) = unat HEAP_SIZE" using unat_sum_list [OF lt] tot by simp
  then have t: "sum_list (map ?sz xs) = HEAP_SIZE" by (rule unat_eqI)
  have "sum_list (map (\<lambda>a. unat (?sz a)) (filter ?free xs)) < 2 ^ 64"
    using lt sum_list_filter_le [of "\<lambda>a. unat (?sz a)" ?free xs] by linarith
  note f = unat_sum_list [OF this]
  have "card (allocs (hdr h) xs) = length (filter (\<lambda>a. \<not> ?free a) xs)"
  proof -
    have "allocs (hdr h) xs = (\<lambda>a. (a, ?sz a)) ` set (filter (\<lambda>a. \<not> ?free a) xs)" by (auto simp: allocs_def)
    then show ?thesis using d by (simp add: card_image inj_on_def distinct_card del: set_filter)
  qed
  moreover have "length (filter ?free xs) + length (filter (\<lambda>a. \<not> ?free a) xs) = length xs"
    by (rule sum_length_filter_compl)
  ultimately show ?thesis
    using stats_loop_ok [OF s heap_rep_nz [OF assms], of 0 0 0 0] xs t f tot sum_allocs [OF d, of "hdr h"]
      sum_filter_split [of "\<lambda>a. unat (?sz a)" xs ?free]
    by (simp add: heap_stats_def)
qed

theorem heap_stats_accounts_witness:
  "\<exists>f nf. heap_stats demo_heap1 = Some (HEAP_SIZE, f, 2, nf)"
  using heap_stats_accounts [OF demo_heap1_rep] by auto

text \<open>C28. A request so large that \<open>size + 47\<close> wraps around 64 bits is served as if 16 bytes
  had been asked for: \<open>kmalloc\<close> has no overflow check.\<close>

theorem kmalloc_overflow:
  assumes "2 ^ 64 - 47 \<le> unat sz"
  shows "kmalloc sz h = kmalloc 16 h"
proof -
  have "heap_need 16 = 48" by (simp add: heap_need_def ALIGN16_def HEADER_SIZE_def Let_def)
  then have e: "heap_need sz = heap_need 16" using heap_need_wrap [OF assms] by simp
  have "sz \<noteq> 0" using assms by auto
  then show ?thesis unfolding kmalloc_def e by simp
qed

theorem kmalloc_overflow_witness:
  "kmalloc 0xFFFFFFFFFFFFFFFF demo_heap = kmalloc 16 demo_heap"
  using kmalloc_overflow [of "0xFFFFFFFFFFFFFFFF" demo_heap] by simp

end
