(* ===== verification/Vmm.thy ===== *)
theory Vmm
  imports Pmm
begin

text \<open>
  The virtual memory manager, \<open>kernel/mm/vmm.c\<close>: four-level x86-64 page tables that live in
  physical memory.  The kernel reaches the tables through the identity mapping of low
  memory, so a table pointer is a physical address.  The state holds physical memory
  (\<open>vmem\<close>), the register \<open>cr3\<close>, the frame allocator and the log of TLB operations
  (latest first).
\<close>

section \<open>State and page table entries\<close>

definition VMM_PRESENT :: u64 where "VMM_PRESENT = 1"
definition VMM_WRITABLE :: u64 where "VMM_WRITABLE = 2"
definition VMM_USER :: u64 where "VMM_USER = 4"
definition VMM_HUGE :: u64 where "VMM_HUGE = 128"
definition ADDR_MASK :: u64 where "ADDR_MASK = 0x000FFFFFFFFFF000"

datatype tlb_op = Invlpg u64 | Flush_all

record vmm =
  vmem :: mem
  cr3 :: u64
  frames :: pmm
  tlb :: "tlb_op list"

definition pt_get :: "mem \<Rightarrow> u64 \<Rightarrow> u64 \<Rightarrow> u64" where
  "pt_get m table i = rd64 m (table + 8 * i)"

definition pt_set :: "u64 \<Rightarrow> u64 \<Rightarrow> u64 \<Rightarrow> mem \<Rightarrow> mem" where
  "pt_set table i e m = wr64 m (table + 8 * i) e"

definition pml4_idx :: "u64 \<Rightarrow> u64" where "pml4_idx virt = drop_bit 39 virt AND 0x1FF"
definition pdpt_idx :: "u64 \<Rightarrow> u64" where "pdpt_idx virt = drop_bit 30 virt AND 0x1FF"
definition pd_idx :: "u64 \<Rightarrow> u64" where "pd_idx virt = drop_bit 21 virt AND 0x1FF"
definition pt_idx :: "u64 \<Rightarrow> u64" where "pt_idx virt = drop_bit 12 virt AND 0x1FF"

text \<open>The loop \<open>for (int i = 0; i < 512; i++)\<close> over the slots of a table.\<close>

definition slots :: "u64 list" where
  "slots = map of_nat [0..<512]"

section \<open>Operations\<close>

definition zero_page :: "u64 \<Rightarrow> mem \<Rightarrow> mem" where
  "zero_page phys m = wr_bytes m phys (replicate 4096 0)"

definition invlpg :: "u64 \<Rightarrow> vmm \<Rightarrow> vmm" where
  "invlpg virt st = st\<lparr>tlb := Invlpg virt # tlb st\<rparr>"

definition flush_tlb_all :: "vmm \<Rightarrow> vmm" where
  "flush_tlb_all st = st\<lparr>tlb := Flush_all # tlb st\<rparr>"

definition next_table :: "u64 \<Rightarrow> u64 \<Rightarrow> vmm \<Rightarrow> u64 \<times> vmm" where
  "next_table parent idx st =
     (if pt_get (vmem st) parent idx AND VMM_PRESENT = 0 then
        (let (np, fr) = pmm_alloc_page (frames st) in
         if np = 0 then (0, st\<lparr>frames := fr\<rparr>)
         else
           (let m = zero_page np (vmem st);
                m' = pt_set parent idx (np OR VMM_PRESENT OR VMM_WRITABLE OR VMM_USER) m
            in (pt_get m' parent idx AND ADDR_MASK, st\<lparr>frames := fr, vmem := m'\<rparr>)))
      else
        (let m' = pt_set parent idx (pt_get (vmem st) parent idx OR VMM_USER) (vmem st)
         in (pt_get m' parent idx AND ADDR_MASK, st\<lparr>vmem := m'\<rparr>)))"

text \<open>The result \<open>False\<close> is the C return value \<open>-1\<close>.\<close>

definition split_huge_pd :: "u64 \<Rightarrow> u64 \<Rightarrow> vmm \<Rightarrow> bool \<times> vmm" where
  "split_huge_pd pd i st =
     (let e = pt_get (vmem st) pd i in
      if e AND VMM_HUGE = 0 then (True, st)
      else
        (let huge_phys = e AND NOT 0x1FFFFF;
             flags = e AND 0xFFF;
             (pt, fr) = pmm_alloc_page (frames st) in
         if pt = 0 then (False, st\<lparr>frames := fr\<rparr>)
         else
           (let m = zero_page pt (vmem st);
                m1 = fold (\<lambda>k. pt_set pt k ((huge_phys + k * 4096) OR flags OR VMM_PRESENT OR VMM_USER)) slots m;
                m2 = pt_set pd i (pt OR VMM_PRESENT OR VMM_WRITABLE OR VMM_USER) m1
            in (True, flush_tlb_all (st\<lparr>frames := fr, vmem := m2\<rparr>)))))"

definition vmm_current_pml4 :: "vmm \<Rightarrow> u64" where
  "vmm_current_pml4 st = cr3 st AND ADDR_MASK"

definition vmm_map :: "u64 \<Rightarrow> u64 \<Rightarrow> u64 \<Rightarrow> vmm \<Rightarrow> vmm" where
  "vmm_map virt phys flags st =
     (let pml4 = cr3 st AND ADDR_MASK;
          (pdpt, st) = next_table pml4 (pml4_idx virt) st in
      if pdpt = 0 then st
      else
        (let (pd, st) = next_table pdpt (pdpt_idx virt) st in
         if pd = 0 then st
         else
           (let (ok, st) = split_huge_pd pd (pd_idx virt) st in
            if \<not> ok then st
            else if pt_get (vmem st) pd (pd_idx virt) AND VMM_HUGE \<noteq> 0 then st
            else
              (let (pt, st) = next_table pd (pd_idx virt) st in
               if pt = 0 then st
               else
                 invlpg virt (st\<lparr>vmem := pt_set pt (pt_idx virt)
                   ((phys AND NOT 0xFFF) OR (flags AND 0xFFF) OR VMM_PRESENT) (vmem st)\<rparr>)))))"

definition vmm_unmap :: "u64 \<Rightarrow> vmm \<Rightarrow> vmm" where
  "vmm_unmap virt st =
     (let m = vmem st;
          pml4 = cr3 st AND ADDR_MASK;
          e4 = pt_get m pml4 (pml4_idx virt) in
      if e4 AND VMM_PRESENT = 0 then st
      else
        (let pdpt = e4 AND ADDR_MASK; e3 = pt_get m pdpt (pdpt_idx virt) in
         if e3 AND VMM_PRESENT = 0 then st
         else
           (let pd = e3 AND ADDR_MASK; e2 = pt_get m pd (pd_idx virt) in
            if e2 AND VMM_PRESENT = 0 then st
            else if e2 AND VMM_HUGE \<noteq> 0 then st
            else
              (let pt = e2 AND ADDR_MASK in
               invlpg virt (st\<lparr>vmem := pt_set pt (pt_idx virt) 0 m\<rparr>)))))"

text \<open>\<open>vmm_get_phys\<close> as a walk from the table \<open>pml4\<close>; the code starts it at \<open>cr3\<close>.\<close>

definition walk_from :: "mem \<Rightarrow> u64 \<Rightarrow> u64 \<Rightarrow> u64" where
  "walk_from m pml4 virt =
     (let e4 = pt_get m pml4 (pml4_idx virt) in
      if e4 AND VMM_PRESENT = 0 then 0
      else
        (let pdpt = e4 AND ADDR_MASK; e3 = pt_get m pdpt (pdpt_idx virt) in
         if e3 AND VMM_PRESENT = 0 then 0
         else
           (let pd = e3 AND ADDR_MASK; e2 = pt_get m pd (pd_idx virt) in
            if e2 AND VMM_PRESENT = 0 then 0
            else if e2 AND VMM_HUGE \<noteq> 0 then (e2 AND NOT 0x1FFFFF) + (virt AND 0x1FFFFF)
            else
              (let pt = e2 AND ADDR_MASK; e1 = pt_get m pt (pt_idx virt) in
               if e1 AND VMM_PRESENT = 0 then 0
               else (e1 AND ADDR_MASK) + (virt AND 0xFFF)))))"

definition vmm_get_phys :: "u64 \<Rightarrow> vmm \<Rightarrow> u64" where
  "vmm_get_phys virt st = walk_from (vmem st) (cr3 st AND ADDR_MASK) virt"

definition vmm_clone_pml4 :: "vmm \<Rightarrow> u64 \<times> vmm" where
  "vmm_clone_pml4 st =
     (let old = cr3 st AND ADDR_MASK;
          (new, fr) = pmm_alloc_page (frames st) in
      if new = 0 then (0, st\<lparr>frames := fr\<rparr>)
      else (new, st\<lparr>frames := fr, vmem := fold (\<lambda>i m. pt_set new i (pt_get m old i) m) slots (vmem st)\<rparr>))"

definition copy_page :: "u64 \<Rightarrow> vmm \<Rightarrow> u64 \<times> vmm" where
  "copy_page src st =
     (let (dst, fr) = pmm_alloc_page (frames st) in
      if dst = 0 then (0, st\<lparr>frames := fr\<rparr>)
      else (dst, st\<lparr>frames := fr,
              vmem := fold (\<lambda>i m. m(dst + of_nat i := m (src + of_nat i))) [0..<4096] (vmem st)\<rparr>))"

text \<open>The framebuffer description, \<open>fb_info_t\<close>.\<close>

record fb_info =
  fb_addr :: u64
  fb_width :: u32
  fb_height :: u32
  fb_pitch :: u32
  fb_bpp :: u8
  fb_r_pos :: u8
  fb_r_size :: u8
  fb_g_pos :: u8
  fb_g_size :: u8
  fb_b_pos :: u8
  fb_b_size :: u8

definition in_fb :: "fb_info \<Rightarrow> u64 \<Rightarrow> bool" where
  "in_fb fbi frame \<longleftrightarrow> fb_addr fbi \<noteq> 0 \<and> fb_addr fbi \<le> frame \<and>
     frame < fb_addr fbi + ucast (fb_pitch fbi) * ucast (fb_height fbi)"

text \<open>A loop whose body may leave the function: the rest runs only while the flag is set.\<close>

fun for_ok :: "('i \<Rightarrow> 's \<Rightarrow> bool \<times> 's) \<Rightarrow> 'i list \<Rightarrow> 's \<Rightarrow> bool \<times> 's" where
  "for_ok f [] s = (True, s)"
| "for_ok f (i # is) s = (let (ok, s') = f i s in if ok then for_ok f is s' else (False, s'))"

text \<open>
  The nested loops of \<open>vmm_clone_pml4_deep\<close>, innermost first.  Each level copies one slot
  of the source table to the destination table; \<open>False\<close> is the early \<open>return 0\<close>.
\<close>

definition set_slot :: "u64 \<Rightarrow> u64 \<Rightarrow> u64 \<Rightarrow> vmm \<Rightarrow> vmm" where
  "set_slot table i e st = st\<lparr>vmem := pt_set table i e (vmem st)\<rparr>"

definition clone_pte :: "fb_info \<Rightarrow> u64 \<Rightarrow> u64 \<Rightarrow> u64 \<Rightarrow> vmm \<Rightarrow> bool \<times> vmm" where
  "clone_pte fbi src dst l st =
     (let e = pt_get (vmem st) src l in
      if e AND VMM_PRESENT = 0 then (True, set_slot dst l 0 st)
      else if in_fb fbi (e AND ADDR_MASK) then (True, set_slot dst l e st)
      else
        (let (fr, st) = copy_page (e AND ADDR_MASK) st in
         if fr = 0 then (False, st)
         else (True, set_slot dst l (fr OR (pt_get (vmem st) src l AND 0xFFF)) st)))"

definition clone_table ::
  "(u64 \<Rightarrow> u64 \<Rightarrow> u64 \<Rightarrow> vmm \<Rightarrow> bool \<times> vmm) \<Rightarrow> u64 \<Rightarrow> u64 \<Rightarrow> u64 \<Rightarrow> vmm \<Rightarrow> bool \<times> vmm" where
  "clone_table body src dst i st =
     (let e = pt_get (vmem st) src i;
          (np, fr) = pmm_alloc_page (frames st) in
      if np = 0 then (False, st\<lparr>frames := fr\<rparr>)
      else
        (let m = zero_page np (vmem st);
             st' = set_slot dst i (np OR (pt_get m src i AND 0xFFF)) (st\<lparr>frames := fr, vmem := m\<rparr>)
         in for_ok (body (e AND ADDR_MASK) np) slots st'))"

definition clone_pde :: "fb_info \<Rightarrow> u64 \<Rightarrow> u64 \<Rightarrow> u64 \<Rightarrow> vmm \<Rightarrow> bool \<times> vmm" where
  "clone_pde fbi src dst k st =
     (let e = pt_get (vmem st) src k in
      if e AND VMM_PRESENT = 0 then (True, set_slot dst k 0 st)
      else if e AND VMM_HUGE \<noteq> 0 then (True, set_slot dst k e st)
      else clone_table (clone_pte fbi) src dst k st)"

definition clone_pdpte :: "fb_info \<Rightarrow> u64 \<Rightarrow> u64 \<Rightarrow> u64 \<Rightarrow> vmm \<Rightarrow> bool \<times> vmm" where
  "clone_pdpte fbi src dst j st =
     (if pt_get (vmem st) src j AND VMM_PRESENT = 0 then (True, set_slot dst j 0 st)
      else clone_table (clone_pde fbi) src dst j st)"

definition clone_pml4e :: "fb_info \<Rightarrow> u64 \<Rightarrow> u64 \<Rightarrow> u64 \<Rightarrow> vmm \<Rightarrow> bool \<times> vmm" where
  "clone_pml4e fbi src dst i st =
     (if 256 \<le> i then (True, set_slot dst i (pt_get (vmem st) src i) st)
      else if pt_get (vmem st) src i AND VMM_PRESENT = 0 then (True, set_slot dst i 0 st)
      else clone_table (clone_pdpte fbi) src dst i st)"

definition vmm_clone_pml4_deep :: "fb_info \<Rightarrow> u64 \<Rightarrow> vmm \<Rightarrow> u64 \<times> vmm" where
  "vmm_clone_pml4_deep fbi src st =
     (let (dst, fr) = pmm_alloc_page (frames st) in
      if dst = 0 then (0, st\<lparr>frames := fr\<rparr>)
      else
        (let st1 = st\<lparr>frames := fr, vmem := zero_page dst (vmem st)\<rparr>;
             (ok, st2) = for_ok (clone_pml4e fbi src dst) slots st1
         in (if ok then dst else 0, st2)))"

section \<open>Slots of page tables\<close>

lemma aligned_room: "page_aligned t \<Longrightarrow> unat t + 4096 \<le> 18446744073709551616"
proof -
  assume "page_aligned t"
  then have "4096 dvd unat t" by (simp add: page_aligned_def)
  moreover have "(4096::nat) dvd 18446744073709551616" by simp
  ultimately show ?thesis using unat_lt_64 by (rule dvd_less_step)
qed

lemma unat_slot:
  assumes "page_aligned t" and "i < 512"
  shows "unat (t + 8 * i) = unat t + 8 * unat i"
proof -
  have i: "unat i < 512" using assms(2) by (simp add: word_less_nat_alt)
  then have "unat (8 * i) = 8 * unat i" by (simp add: unat_mult_small)
  then show ?thesis using aligned_room [OF assms(1)] i by (simp add: unat_plus_small)
qed

lemma page_split_unique:
  assumes "4096 dvd (a :: nat)" and "4096 dvd b" and "x < 4096" and "y < 4096" and "a + x = b + y"
  shows "a = b \<and> x = y"
proof -
  from assms obtain k l where kl: "a = 4096 * k" "b = 4096 * l" by (auto elim!: dvdE)
  have "(4096 * k + x) div 4096 = (4096 * l + y) div 4096" using assms kl by simp
  then have "k = l" using assms(3,4) by simp
  then show ?thesis using kl assms(5) by simp
qed

lemma slot_inj:
  assumes "page_aligned t" and "page_aligned t'" and "i < 512" and "i' < 512"
  shows "t + 8 * i = t' + 8 * i' \<longleftrightarrow> t = t' \<and> i = i'"
proof
  assume "t + 8 * i = t' + 8 * i'"
  then have "unat t + 8 * unat i = unat t' + 8 * unat i'"
    using unat_slot [OF assms(1,3)] unat_slot [OF assms(2,4)] by simp
  moreover have "8 * unat i < 4096" "8 * unat i' < 4096" using assms(3,4) by (simp_all add: word_less_nat_alt)
  ultimately have "unat t = unat t' \<and> 8 * unat i = 8 * unat i'"
    using assms(1,2) unfolding page_aligned_def by (intro page_split_unique)
  then show "t = t' \<and> i = i'" by (auto intro: unat_eqI)
qed simp

lemma slot_dvd: "page_aligned t \<Longrightarrow> i < 512 \<Longrightarrow> 8 dvd unat (t + 8 * i)"
proof -
  assume a: "page_aligned t" "i < 512"
  have "(8::nat) dvd 4096" by simp
  then have "8 dvd unat t" using a(1) unfolding page_aligned_def by (rule dvd_trans)
  then show ?thesis using unat_slot [OF a] by simp
qed

lemma pt_get_set [mem_simps]:
  assumes "page_aligned t" and "page_aligned t'" and "i < 512" and "i' < 512"
  shows "pt_get (pt_set t i e m) t' i' = (if t' = t \<and> i' = i then e else pt_get m t' i')"
proof (cases "t' = t \<and> i' = i")
  case True
  then show ?thesis by (simp add: pt_get_def pt_set_def rd64_wr64_same)
next
  case False
  then have "t + 8 * i \<noteq> t' + 8 * i'" using slot_inj [OF assms] by auto
  with rd64_wr64_other [OF slot_dvd [OF assms(1,3)] slot_dvd [OF assms(2,4)]] False
  show ?thesis by (auto simp: pt_get_def pt_set_def)
qed

lemma page_offset_out:
  assumes "page_aligned p" and "page_aligned t" and "t \<noteq> p" and "j < 4096"
  shows "4096 \<le> unat (t + of_nat j - p)"
proof -
  have "4096 dvd unat (t - p)" using assms by (auto simp: page_aligned_def intro: unat_diff_dvd)
  moreover have "unat (t - p) \<noteq> 0" using assms(3) by (metis right_minus_eq unat_eq_0)
  ultimately have ge: "4096 \<le> unat (t - p)" by (metis dvd_imp_le gr0I)
  have "page_aligned (t - p)" using \<open>4096 dvd unat (t - p)\<close> by (simp add: page_aligned_def)
  then have "unat (t - p) + j < 18446744073709551616" using aligned_room [of "t - p"] assms(4) by linarith
  then have "unat (t - p + of_nat j) = unat (t - p) + j"
    using assms(4) by (simp add: unat_plus_small unat_of_nat_64)
  moreover have eq: "t + of_nat j - p = t - p + of_nat j" by simp
  ultimately show ?thesis using ge unfolding eq by linarith
qed

lemma zero_page_apply: "zero_page p m a = (if unat (a - p) < 4096 then 0 else m a)"
  by (simp add: zero_page_def wr_bytes_apply)

lemma le_word_zero: "le_word (map (\<lambda>i. 0) xs) = 0"
  by (induction xs) simp_all

lemma pt_get_zero [mem_simps]:
  assumes "page_aligned p" and "page_aligned t" and "i < 512"
  shows "pt_get (zero_page p m) t i = (if t = p then 0 else pt_get m t i)"
proof -
  have off: "8 * unat i + j < 4096" if "j < 8" for j using that assms(3) by (simp add: word_less_nat_alt)
  have i: "8 * i = of_nat (8 * unat i)" by simp
  have adr: "t + 8 * i + of_nat j = t + of_nat (8 * unat i + j)" for j
    by (simp add: algebra_simps)
  have "zero_page p m (t + 8 * i + of_nat j) = (if t = p then 0 else m (t + 8 * i + of_nat j))" if "j < 8" for j
  proof (cases "t = p")
    case True
    have "p + of_nat (8 * unat i + j) - p = of_nat (8 * unat i + j)" by simp
    then have "unat (p + of_nat (8 * unat i + j) - p) = 8 * unat i + j"
      using off [OF that] by (simp only: unat_of_nat_64)
    then show ?thesis using True off [OF that] unfolding adr by (simp add: zero_page_apply)
  next
    case False
    then show ?thesis using page_offset_out [OF assms(1,2) False off [OF that]] unfolding adr
      by (simp add: zero_page_apply)
  qed
  then have "map (\<lambda>j. zero_page p m (t + 8 * i + of_nat j)) [0..<8] =
      map (\<lambda>j. if t = p then 0 else m (t + 8 * i + of_nat j)) [0..<8]" by (intro map_cong) auto
  then show ?thesis
    unfolding pt_get_def rd64_def rd_bytes_def by (simp only:) (simp add: le_word_zero del: upt_Suc)
qed

lemma idx_less [simp]: "pml4_idx v < 512" "pdpt_idx v < 512" "pd_idx v < 512" "pt_idx v < 512"
proof -
  have "(x AND 0x1FF :: u64) < 512" for x
    using word_and_le2 [of x "0x1FF"] and_mask_less' [of 9 x] by (simp add: mask_eq_exp_minus_1)
  then show "pml4_idx v < 512" "pdpt_idx v < 512" "pd_idx v < 512" "pt_idx v < 512"
    by (simp_all add: pml4_idx_def pdpt_idx_def pd_idx_def pt_idx_def)
qed

section \<open>Entries\<close>

lemma ADDR_MASK_bits: "ADDR_MASK = mask 52 AND NOT (mask 12)"
  by (simp add: ADDR_MASK_def mask_eq_exp_minus_1)

lemma addr_aligned [simp]: "page_aligned (e AND ADDR_MASK)"
proof -
  have "align_down (e AND ADDR_MASK) = e AND ADDR_MASK"
    by (simp add: align_down_def PAGE_SIZE_def ADDR_MASK_def and.assoc)
  then show ?thesis using align_down_aligned [of "e AND ADDR_MASK"] by simp
qed

lemma aligned_low_bits: "page_aligned a \<Longrightarrow> i < 12 \<Longrightarrow> \<not> bit a i"
proof -
  assume "page_aligned a" and i: "i < 12"
  then have "unat (align_down a) = unat a" by (simp add: unat_align_down page_aligned_def)
  then have "a = align_down a" by (intro unat_eqI) simp
  then have "a = a AND NOT (mask 12)" by (simp add: align_down_def PAGE_SIZE_def mask_eq_exp_minus_1)
  then have "bit a i = bit (a AND NOT (mask 12)) i" by simp
  then show ?thesis using i by (simp add: bit_simps)
qed

lemma small_high_bits: "unat (a :: u64) < 4503599627370496 \<Longrightarrow> 52 \<le> i \<Longrightarrow> \<not> bit a i"
proof -
  assume "unat a < 4503599627370496" and i: "52 \<le> i"
  then have "a = take_bit 52 a" by (intro unat_eqI, simp only: unsigned_take_bit_eq) (simp add: take_bit_eq_mod)
  then have "bit a i = bit (take_bit 52 a) i" by simp
  then show ?thesis using i by (simp add: bit_take_bit_iff)
qed

lemma bit_one_at: "bit (2 ^ n :: u64) i \<longleftrightarrow> i = n \<and> n < 64"
  by (auto simp: bit_exp_iff)

lemma and_bit_zero: "(e :: u64) AND 2 ^ n = 0 \<longleftrightarrow> \<not> (bit e n \<and> n < 64)"
  using bit_eq_iff [of "e AND 2 ^ n" 0] by (auto simp: bit_and_iff bit_one_at)

lemma present_bit: "e AND VMM_PRESENT = 0 \<longleftrightarrow> \<not> bit e 0"
  using and_bit_zero [of e 0] by (simp add: VMM_PRESENT_def)

lemma huge_bit: "e AND VMM_HUGE = 0 \<longleftrightarrow> \<not> bit e 7"
  using and_bit_zero [of e 7] by (simp add: VMM_HUGE_def)

lemma flag_bits:
  "bit VMM_PRESENT i \<longleftrightarrow> i = 0" "bit VMM_WRITABLE i \<longleftrightarrow> i = 1" "bit VMM_USER i \<longleftrightarrow> i = 2" "bit VMM_HUGE i \<longleftrightarrow> i = 7"
  using bit_one_at [of 0 i] bit_one_at [of 1 i] bit_one_at [of 2 i] bit_one_at [of 7 i]
  by (simp_all add: VMM_PRESENT_def VMM_WRITABLE_def VMM_USER_def VMM_HUGE_def)

lemma addr_bit: "bit (e AND ADDR_MASK) i \<longleftrightarrow> bit e i \<and> 12 \<le> i \<and> i < 52"
  by (auto simp: ADDR_MASK_bits bit_simps not_less dest: bit_imp_le_length)

lemma bits_of_frame:
  assumes "page_aligned f" and "unat f < 4503599627370496" and "bit f i"
  shows "12 \<le> i" and "i < 52"
  using assms aligned_low_bits [OF assms(1)] small_high_bits [OF assms(2)] by (meson not_le)+

lemma frame_entry:
  assumes "page_aligned f" and "unat f < 4503599627370496"
  shows "(f OR VMM_PRESENT OR VMM_WRITABLE OR VMM_USER) AND ADDR_MASK = f"
    and "(f OR VMM_PRESENT OR VMM_WRITABLE OR VMM_USER) AND VMM_PRESENT \<noteq> 0"
    and "(f OR VMM_PRESENT OR VMM_WRITABLE OR VMM_USER) AND VMM_HUGE = 0"
proof -
  note fb = bits_of_frame [OF assms]
  show "(f OR VMM_PRESENT OR VMM_WRITABLE OR VMM_USER) AND ADDR_MASK = f"
    by (rule bit_word_eqI) (auto simp: addr_bit bit_or_iff flag_bits dest: fb)
  show "(f OR VMM_PRESENT OR VMM_WRITABLE OR VMM_USER) AND VMM_PRESENT \<noteq> 0"
    by (simp add: present_bit bit_or_iff flag_bits)
  show "(f OR VMM_PRESENT OR VMM_WRITABLE OR VMM_USER) AND VMM_HUGE = 0"
    by (auto simp: huge_bit bit_or_iff flag_bits dest: fb)
qed

section \<open>The tree of tables\<close>

text \<open>
  \<open>tab m r v n\<close> is the table that the walk for address \<open>v\<close> reaches at depth \<open>n\<close>
  (0 is the PML4 at \<open>r\<close>, 3 the page table).
\<close>

definition lvl_idx :: "nat \<Rightarrow> u64 \<Rightarrow> u64" where
  "lvl_idx n v = (if n = 0 then pml4_idx v else if n = 1 then pdpt_idx v else if n = 2 then pd_idx v else pt_idx v)"

definition next_of :: "nat \<Rightarrow> u64 \<Rightarrow> u64 option" where
  "next_of n e = (if bit e 0 \<and> \<not> (n = 2 \<and> bit e 7) then Some (e AND ADDR_MASK) else None)"

primrec tab :: "mem \<Rightarrow> u64 \<Rightarrow> u64 \<Rightarrow> nat \<Rightarrow> u64 option" where
  "tab m r v 0 = Some r"
| "tab m r v (Suc n) = (case tab m r v n of None \<Rightarrow> None | Some t \<Rightarrow> next_of n (pt_get m t (lvl_idx n v)))"

definition same_path :: "nat \<Rightarrow> u64 \<Rightarrow> u64 \<Rightarrow> bool" where
  "same_path n v w \<longleftrightarrow> (\<forall>j<n. lvl_idx j v = lvl_idx j w)"

definition pd_ok :: "u64 \<Rightarrow> bool" where
  "pd_ok e \<longleftrightarrow> (bit e 7 \<longrightarrow> bit e 0 \<and> drop_bit 52 e = 0)"

text \<open>
  The tables form a tree: a table is reached on one path only, none of them is the null
  page, and a large-page entry is present and has no bits above the physical address.
\<close>

definition pt_wf :: "mem \<Rightarrow> u64 \<Rightarrow> bool" where
  "pt_wf m r \<longleftrightarrow> page_aligned r \<and>
     (\<forall>v w n k t. n \<le> 3 \<and> k \<le> 3 \<and> tab m r v n = Some t \<and> tab m r w k = Some t \<longrightarrow> n = k \<and> same_path n v w) \<and>
     (\<forall>v n. n < 3 \<longrightarrow> tab m r v (Suc n) \<noteq> Some 0) \<and>
     (\<forall>v t. tab m r v 2 = Some t \<longrightarrow> pd_ok (pt_get m t (pd_idx v)))"

lemma lvl_idx_less [simp]: "lvl_idx n v < 512"
  by (simp add: lvl_idx_def)

lemma lvl_idx_simps [simp]:
  "lvl_idx 0 v = pml4_idx v" "lvl_idx 1 v = pdpt_idx v" "lvl_idx (Suc 0) v = pdpt_idx v"
  "lvl_idx 2 v = pd_idx v" "lvl_idx 3 v = pt_idx v"
  by (simp_all add: lvl_idx_def)

lemma same_path_simps [simp]: "same_path 0 v w" "same_path n v v"
  "same_path (Suc n) v w \<longleftrightarrow> same_path n v w \<and> lvl_idx n v = lvl_idx n w"
  by (auto simp: same_path_def less_Suc_eq)

lemma same_path_le: "same_path n v w \<Longrightarrow> k \<le> n \<Longrightarrow> same_path k v w"
  by (auto simp: same_path_def)

lemma tab_aligned: "page_aligned r \<Longrightarrow> tab m r v n = Some t \<Longrightarrow> page_aligned t"
  by (cases n) (auto simp: next_of_def split: option.splits if_splits)

lemma tab_same_path: "same_path n v w \<Longrightarrow> tab m r v n = tab m r w n"
  by (induction n) (auto split: option.splits)

lemma pt_wf_path:
  "pt_wf m r \<Longrightarrow> tab m r v n = Some t \<Longrightarrow> tab m r w k = Some t \<Longrightarrow> n \<le> 3 \<Longrightarrow> k \<le> 3 \<Longrightarrow>
   n = k \<and> same_path n v w"
  unfolding pt_wf_def by blast

lemma tab_None_mono: "tab m r v n = None \<Longrightarrow> n \<le> k \<Longrightarrow> tab m r v k = None"
  by (induction k) (auto simp: le_Suc_eq)

text \<open>The effect on the walks of storing one entry \<open>e'\<close> in the table at depth \<open>n\<close>.\<close>

definition stored :: "mem \<Rightarrow> mem \<Rightarrow> u64 \<Rightarrow> u64 \<Rightarrow> u64 \<Rightarrow> u64 \<Rightarrow> bool" where
  "stored m m' r t i e' \<longleftrightarrow>
     (\<forall>w k t' j. k \<le> 3 \<and> tab m r w k = Some t' \<and> j < 512 \<longrightarrow>
        pt_get m' t' j = (if t' = t \<and> j = i then e' else pt_get m t' j))"

lemma storedD:
  "stored m m' r t i e' \<Longrightarrow> tab m r w k = Some t' \<Longrightarrow> k \<le> 3 \<Longrightarrow> j < 512 \<Longrightarrow>
   pt_get m' t' j = (if t' = t \<and> j = i then e' else pt_get m t' j)"
  unfolding stored_def by blast

lemma stored_path:
  assumes wf: "pt_wf m r" and n: "n \<le> 3" and t: "tab m r v n = Some t"
    and st: "stored m m' r t (lvl_idx n v) e'" and k: "k \<le> 3" and w: "tab m r w k = Some t'"
  shows "pt_get m' t' (lvl_idx k w) =
    (if k = n \<and> same_path (Suc n) v w then e' else pt_get m t' (lvl_idx k w))"
proof (cases "t' = t")
  case True
  with pt_wf_path [OF wf t, of w k] w n k have "k = n" "same_path n v w" by auto
  then show ?thesis using True storedD [OF st w k, of "lvl_idx k w"] by auto
next
  case False
  then have "\<not> (k = n \<and> same_path n v w)" using tab_same_path [of n v w m r] t w by auto
  then show ?thesis using False storedD [OF st w k, of "lvl_idx k w"] by auto
qed

lemma tab_unchanged:
  assumes wf: "pt_wf m r" and n: "n \<le> 3" and t: "tab m r v n = Some t"
    and st: "stored m m' r t (lvl_idx n v) e'"
    and k: "k \<le> 3" "k \<le> n \<or> \<not> same_path (Suc n) v w \<or> next_of n e' = next_of n (pt_get m t (lvl_idx n v))"
  shows "tab m' r w k = tab m r w k"
  using k
proof (induction k)
  case (Suc k)
  then have IH: "tab m' r w k = tab m r w k" by auto
  show ?case
  proof (cases "tab m r w k")
    case (Some t')
    have k3: "k \<le> 3" using Suc.prems by simp
    note sp = stored_path [OF wf n t st k3 Some]
    have "t' = t" if "k = n" "same_path n v w" using that t Some tab_same_path by auto
    then show ?thesis using IH Some sp Suc.prems(2) by auto
  qed (use IH in simp)
qed simp

lemma tab_new:
  assumes wf: "pt_wf m r" and n: "n < 3" and t: "tab m r v n = Some t"
    and st: "stored m m' r t (lvl_idx n v) e'" and w: "same_path (Suc n) v w"
  shows "tab m' r w (Suc n) = next_of n e'"
proof -
  have tw: "tab m r w n = Some t" using t w tab_same_path [of n v w m r] by simp
  have "tab m' r w n = tab m r w n" using n by (intro tab_unchanged [OF wf _ t st]) auto
  then show ?thesis using stored_path [OF wf _ t st _ tw] n w tw by simp
qed

text \<open>Translation in terms of the tables.\<close>

definition leaf_addr :: "u64 \<Rightarrow> u64 \<Rightarrow> u64" where
  "leaf_addr e v = (if bit e 0 then (e AND ADDR_MASK) + (v AND 0xFFF) else 0)"

definition huge_addr :: "u64 \<Rightarrow> u64 \<Rightarrow> u64" where
  "huge_addr e v = (if bit e 0 then (e AND NOT 0x1FFFFF) + (v AND 0x1FFFFF) else 0)"

lemma walk_tab:
  "walk_from m r v =
    (case tab m r v 3 of
       Some t \<Rightarrow> leaf_addr (pt_get m t (pt_idx v)) v
     | None \<Rightarrow> (case tab m r v 2 of None \<Rightarrow> 0 | Some t \<Rightarrow> huge_addr (pt_get m t (pd_idx v)) v))"
proof -
  have t3: "tab m r v 3 = (case tab m r v 2 of None \<Rightarrow> None | Some t \<Rightarrow> next_of 2 (pt_get m t (pd_idx v)))"
    using tab.simps(2) [of m r v 2, unfolded lvl_idx_simps] by (simp del: tab.simps)
  have t2: "tab m r v 2 = (case next_of 0 (pt_get m r (pml4_idx v)) of None \<Rightarrow> None
      | Some t \<Rightarrow> next_of 1 (pt_get m t (pdpt_idx v)))"
    by (simp add: numeral_2_eq_2 cong: option.case_cong)
  show ?thesis
    unfolding walk_from_def Let_def t3 t2 present_bit huge_bit next_of_def leaf_addr_def huge_addr_def
    by simp
qed

lemma walk_cong:
  assumes "tab m' r w 3 = tab m r w 3" and "tab m' r w 2 = tab m r w 2"
    and "\<And>t. tab m r w 3 = Some t \<Longrightarrow> pt_get m' t (pt_idx w) = pt_get m t (pt_idx w)"
    and "\<And>t. tab m r w 2 = Some t \<Longrightarrow> tab m r w 3 = None \<Longrightarrow> pt_get m' t (pd_idx w) = pt_get m t (pd_idx w)"
  shows "walk_from m' r w = walk_from m r w"
  unfolding walk_tab using assms by (auto split: option.splits)

lemma pt_wf_same:
  assumes "pt_wf m r" and "\<And>w k. k \<le> 3 \<Longrightarrow> tab m' r w k = tab m r w k"
    and "\<And>w t. tab m r w 2 = Some t \<Longrightarrow> pd_ok (pt_get m' t (pd_idx w))"
  shows "pt_wf m' r"
proof -
  have "n = k \<and> same_path n v w" if "n \<le> 3" "k \<le> 3" "tab m' r v n = Some t" "tab m' r w k = Some t" for n k v w t
    using that assms(2) pt_wf_path [OF assms(1), of v n t w k] by auto
  moreover have "tab m' r v (Suc n) \<noteq> Some 0" if "n < 3" for v n
    using that assms(1) assms(2) [of "Suc n" v] by (simp add: pt_wf_def del: tab.simps)
  moreover have "pd_ok (pt_get m' t (pd_idx v))" if "tab m' r v 2 = Some t" for v t
    using that assms(2) [of 2 v] assms(3) by simp
  moreover have "page_aligned r" using assms(1) by (simp add: pt_wf_def)
  ultimately show ?thesis unfolding pt_wf_def by blast
qed

section \<open>Storing flags, leaves and new tables\<close>

lemma tab_fresh:
  assumes wf: "pt_wf m r" and n: "n < 3" and t: "tab m r v n = Some t"
    and st: "stored m m' r t (lvl_idx n v) e'" and e': "next_of n e' = Some np"
    and old: "next_of n (pt_get m t (lvl_idx n v)) = None"
    and z: "\<And>i. n < 2 \<Longrightarrow> i < 512 \<Longrightarrow> pt_get m' np i = 0" and k: "k \<le> 3"
  shows "tab m' r w k =
    (if k \<le> n \<or> \<not> same_path (Suc n) v w then tab m r w k else if k = Suc n then Some np else None)"
proof (cases "k \<le> n \<or> \<not> same_path (Suc n) v w")
  case True
  then show ?thesis using n k by (auto intro: tab_unchanged [OF wf _ t st])
next
  case False
  then have path: "same_path (Suc n) v w" and kn: "Suc n \<le> k" by auto
  have new: "tab m' r w (Suc n) = Some np" using tab_new [OF wf n t st path] e' by simp
  have "tab m' r w k = None" if "k \<noteq> Suc n"
  proof -
    have "Suc (Suc n) \<le> k" using that kn by simp
    moreover have "tab m' r w (Suc (Suc n)) = None"
      using new z [of "lvl_idx (Suc n) w"] that kn k by (simp add: next_of_def)
    ultimately show ?thesis by (rule tab_None_mono [rotated])
  qed
  then show ?thesis using False new by (simp del: same_path_simps tab.simps)
qed

lemma fresh_wf:
  assumes wf: "pt_wf m r" and n: "n < 3" and t: "tab m r v n = Some t"
    and st: "stored m m' r t (lvl_idx n v) e'" and e': "next_of n e' = Some np"
    and old: "next_of n (pt_get m t (lvl_idx n v)) = None"
    and z: "\<And>i. n < 2 \<Longrightarrow> i < 512 \<Longrightarrow> pt_get m' np i = 0"
    and fr: "\<And>w k. k \<le> 3 \<Longrightarrow> tab m r w k \<noteq> Some np" and np: "np \<noteq> 0" and nh: "\<not> bit e' 7"
  shows "pt_wf m' r"
proof -
  have tf: "tab m' r w k =
    (if k \<le> n \<or> \<not> same_path (Suc n) v w then tab m r w k else if k = Suc n then Some np else None)"
    if "k \<le> 3" for k w using that z by (intro tab_fresh [OF wf n t st e' old]) auto
  have src: "tab m r w k = Some x \<or> x = np \<and> k = Suc n \<and> same_path (Suc n) v w"
    if "k \<le> 3" "tab m' r w k = Some x" for w k x
    using tf [OF that(1), of w] that(2) by (auto simp del: same_path_simps tab.simps split: if_splits)
  have "page_aligned r" using wf by (simp add: pt_wf_def)
  moreover have "a = b \<and> same_path a x y" if "a \<le> 3" "b \<le> 3" "tab m' r x a = Some s" "tab m' r y b = Some s" for a b x y s
  proof (cases "s = np")
    case True
    then have "a = Suc n \<and> same_path (Suc n) v x" "b = Suc n \<and> same_path (Suc n) v y"
      using src [OF that(1,3)] src [OF that(2,4)] fr that by blast+
    then show ?thesis by (auto simp: same_path_def)
  next
    case False
    then show ?thesis using src [OF that(1,3)] src [OF that(2,4)] pt_wf_path [OF wf] that by blast
  qed
  moreover have "tab m' r x (Suc a) \<noteq> Some 0" if "a < 3" for x a
    using src [of "Suc a" x 0] that np wf by (auto simp: pt_wf_def simp del: tab.simps)
  moreover have "pd_ok (pt_get m' x (pd_idx w))" if w: "tab m' r w 2 = Some x" for w x
  proof (cases "tab m r w 2 = Some x")
    case True
    have "pd_ok (pt_get m x (pd_idx w))" using True wf by (simp add: pt_wf_def)
    then show ?thesis using stored_path [OF wf _ t st _ True] n nh by (auto simp: pd_ok_def)
  next
    case False
    then have "x = np" "2 = Suc n" using src [OF _ w] by auto
    then show ?thesis using z [of "pd_idx w"] by (simp add: pd_ok_def)
  qed
  ultimately show ?thesis unfolding pt_wf_def by blast
qed

lemma fresh_walk_other:
  assumes wf: "pt_wf m r" and n: "n < 3" and t: "tab m r v n = Some t"
    and st: "stored m m' r t (lvl_idx n v) e'" and path: "\<not> same_path (Suc n) v w"
  shows "walk_from m' r w = walk_from m r w"
proof (rule walk_cong)
  show "tab m' r w 3 = tab m r w 3" "tab m' r w 2 = tab m r w 2"
    using n path by (auto intro!: tab_unchanged [OF wf _ t st] simp del: same_path_simps)
  show "pt_get m' s (pt_idx w) = pt_get m s (pt_idx w)" if "tab m r w 3 = Some s" for s
    using stored_path [OF wf _ t st _ that] n path by (auto simp del: same_path_simps)
  show "pt_get m' s (pd_idx w) = pt_get m s (pd_idx w)" if "tab m r w 2 = Some s" for s
    using stored_path [OF wf _ t st _ that] n path by (auto simp del: same_path_simps)
qed

text \<open>A new empty table changes no translation.\<close>

lemma fresh_zero_walk:
  assumes wf: "pt_wf m r" and n: "n < 3" and t: "tab m r v n = Some t"
    and st: "stored m m' r t (lvl_idx n v) e'" and e': "next_of n e' = Some np"
    and old: "\<not> bit (pt_get m t (lvl_idx n v)) 0"
    and z: "\<And>i. i < 512 \<Longrightarrow> pt_get m' np i = 0"
  shows "walk_from m' r w = walk_from m r w"
proof (cases "same_path (Suc n) v w")
  case True
  have none: "next_of n (pt_get m t (lvl_idx n v)) = None" using old by (simp add: next_of_def)
  have tf: "tab m' r w k = (if k \<le> n then tab m r w k else if k = Suc n then Some np else None)"
    if "k \<le> 3" for k using that z True tab_fresh [OF wf n t st e' none, of k w]
    by (simp del: same_path_simps tab.simps)
  have tw: "tab m r w n = Some t" using t True tab_same_path [of n v w m r] by simp
  have iw: "lvl_idx n w = lvl_idx n v" using True by simp
  have gone: "tab m r w k = None" if "Suc n \<le> k" for k
    using tw iw none by (intro tab_None_mono [OF _ that]) simp
  have "n = 2" if "tab m r w 2 \<noteq> None"
    using gone [of 2] that n by linarith
  then have h: "huge_addr (pt_get m s (pd_idx w)) w = 0" if "tab m r w 2 = Some s" for s
    using that tw iw old by (auto simp: huge_addr_def)
  have before: "walk_from m r w = 0"
    unfolding walk_tab using gone [of 3] n h by (cases "tab m r w 2") auto
  have "n = 1 \<and> s = np" if "tab m' r w 2 = Some s" "tab m' r w 3 = None" for s
    using tf [of 2] tf [of 3] that n gone [of 2] by (auto split: if_splits)
  then have h': "huge_addr (pt_get m' s (pd_idx w)) w = 0" if "tab m' r w 2 = Some s" "tab m' r w 3 = None" for s
    using that z by (auto simp: huge_addr_def)
  have "s = np" if "tab m' r w 3 = Some s" for s
    using tf [of 3] that n by (auto split: if_splits)
  then have l': "leaf_addr (pt_get m' s (pt_idx w)) w = 0" if "tab m' r w 3 = Some s" for s
    using that z by (auto simp: leaf_addr_def)
  have "walk_from m' r w = 0"
    unfolding walk_tab using h' l' by (cases "tab m' r w 3"; cases "tab m' r w 2") auto
  then show ?thesis using before by simp
qed (rule fresh_walk_other [OF wf n t st])

section \<open>Fresh frames\<close>

definition free_frames :: "pmm \<Rightarrow> u64 set" where
  "free_frames fr = pmm_pages fr - pmm_taken fr"

definition vmm_wf :: "vmm \<Rightarrow> bool" where
  "vmm_wf st \<longleftrightarrow> pmm_inv (frames st) \<and> pt_wf (vmem st) (vmm_current_pml4 st) \<and>
     (\<forall>v n t. n \<le> 3 \<and> tab (vmem st) (vmm_current_pml4 st) v n = Some t \<longrightarrow> t \<notin> free_frames (frames st))"

lemma free_frames_finite [simp]: "finite (free_frames fr)"
  unfolding free_frames_def using pa.pages_finite by blast

lemma pmm_pages_small: "pmm_inv fr \<Longrightarrow> a \<in> pmm_pages fr \<Longrightarrow> unat a < 4503599627370496"
  using unat_page_addr [of _ fr]
  by (auto simp: pmm_pages_def page_addr_def pmm_inv_def pmm_count_ok_def word_less_nat_alt word_le_nat_alt)

lemma alloc_frame:
  assumes "pmm_inv fr" and "pmm_alloc_page fr = (np, fr')" and "np \<noteq> 0"
  shows "page_aligned np" and "unat np < 4503599627370496" and "np \<in> free_frames fr"
    and "free_frames fr' = free_frames fr - {np}" and "pmm_inv fr'"
  using pa.alloc_page [OF assms] pa.pages_aligned [OF assms(1)] pmm_pages_small [OF assms(1)]
  by (auto simp: free_frames_def)

lemma alloc_frame_card:
  assumes "pmm_inv fr" and "pmm_alloc_page fr = (np, fr')" and "np \<noteq> 0"
  shows "card (free_frames fr) = Suc (card (free_frames fr'))"
  using alloc_frame(3,4) [OF assms] by (metis card_Suc_Diff1 free_frames_finite)

lemma alloc_none:
  assumes "pmm_inv fr" and "pmm_alloc_page fr = (0, fr')"
  shows "fr' = fr" and "free_frames fr = {}"
  using pa.alloc_full [OF assms] by (auto simp: free_frames_def)

lemma stored_set:
  assumes "page_aligned r" and "page_aligned t" and "i < 512"
    and "\<And>t' j. page_aligned t' \<Longrightarrow> t' \<noteq> np \<Longrightarrow> j < 512 \<Longrightarrow> pt_get m1 t' j = pt_get m t' j"
    and "\<And>w k. k \<le> 3 \<Longrightarrow> tab m r w k \<noteq> Some np"
  shows "stored m (pt_set t i e m1) r t i e"
  unfolding stored_def
proof (intro allI impI)
  fix w k t' and j :: u64
  assume a: "k \<le> 3 \<and> tab m r w k = Some t' \<and> j < 512"
  then have "page_aligned t'" "t' \<noteq> np" using tab_aligned [OF assms(1)] assms(5) by blast+
  then show "pt_get (pt_set t i e m1) t' j = (if t' = t \<and> j = i then e else pt_get m t' j)"
    using a pt_get_set [OF assms(2) _ assms(3)] assms(4) by simp
qed

lemma stored_plain:
  assumes "page_aligned r" and "page_aligned t" and "i < 512"
  shows "stored m (pt_set t i e m) r t i e"
  unfolding stored_def
proof (intro allI impI)
  fix w k t' and j :: u64
  assume a: "k \<le> 3 \<and> tab m r w k = Some t' \<and> j < 512"
  then have "page_aligned t'" using tab_aligned [OF assms(1)] by blast
  then show "pt_get (pt_set t i e m) t' j = (if t' = t \<and> j = i then e else pt_get m t' j)"
    using a pt_get_set [OF assms(2) _ assms(3)] by simp
qed

lemma set_slots: "set slots = {i. i < 512}"
proof -
  have "i \<in> of_nat ` {0..<512}" if "i < 512" for i :: u64
    using that by (intro image_eqI [of _ _ "unat i"]) (simp_all add: word_less_nat_alt)
  moreover have "(of_nat n :: u64) < 512" if "n < 512" for n
    using that by (simp add: word_less_nat_alt unat_of_nat_64)
  ultimately show ?thesis by (auto simp: slots_def)
qed

lemma fold_pt_set:
  assumes "page_aligned p" and "page_aligned t" and "j < 512" and "\<forall>x\<in>set xs. x < 512"
  shows "pt_get (fold (\<lambda>k. pt_set p k (f k)) xs m) t j =
    (if t = p \<and> j \<in> set xs then f j else pt_get m t j)"
  using assms(4)
proof (induction xs arbitrary: m)
  case (Cons x xs)
  then show ?case using pt_get_set [OF assms(1,2) _ assms(3)] by auto
qed simp

lemma fill_table:
  assumes "page_aligned p" and "page_aligned t" and "j < 512"
  shows "pt_get (fold (\<lambda>k. pt_set p k (f k)) slots m) t j = (if t = p then f j else pt_get m t j)"
  using fold_pt_set [OF assms, of slots f m] assms(3) by (simp add: set_slots)

section \<open>next_table\<close>

lemma user_bits: "bit (e OR VMM_USER) 0 = bit e 0" "bit (e OR VMM_USER) 7 = bit e 7"
  "(e OR VMM_USER) AND ADDR_MASK = e AND ADDR_MASK"
proof -
  show "(e OR VMM_USER) AND ADDR_MASK = e AND ADDR_MASK"
    by (rule bit_word_eqI) (auto simp: addr_bit bit_or_iff flag_bits)
qed (auto simp: bit_or_iff flag_bits)

lemma next_of_user [simp]: "next_of n (e OR VMM_USER) = next_of n e"
  by (simp add: next_of_def user_bits)

lemma next_table_present:
  assumes wf: "vmm_wf st" and t: "tab (vmem st) (vmm_current_pml4 st) v n = Some t" and n: "n < 3"
    and nh: "n = 2 \<Longrightarrow> \<not> bit (pt_get (vmem st) t (lvl_idx n v)) 7"
    and pr: "bit (pt_get (vmem st) t (lvl_idx n v)) 0"
    and call: "next_table t (lvl_idx n v) st = (p, st')"
  shows "vmm_wf st' \<and> frames st' = frames st \<and> vmm_current_pml4 st' = vmm_current_pml4 st \<and>
    (\<forall>w. vmm_get_phys w st' = vmm_get_phys w st) \<and> p \<noteq> 0 \<and>
    (\<forall>k\<le>3. \<forall>w. tab (vmem st') (vmm_current_pml4 st) w k = tab (vmem st) (vmm_current_pml4 st) w k) \<and>
    tab (vmem st) (vmm_current_pml4 st) v (Suc n) = Some p"
proof -
  let ?r = "vmm_current_pml4 st" and ?m = "vmem st" and ?i = "lvl_idx n v"
  let ?e = "pt_get ?m t ?i"
  let ?m' = "pt_set t ?i (?e OR VMM_USER) ?m"
  have pwf: "pt_wf ?m ?r" using wf by (simp add: vmm_wf_def)
  have r: "page_aligned ?r" by (simp add: vmm_current_pml4_def)
  have ta: "page_aligned t" by (rule tab_aligned [OF r t])
  have sto: "stored ?m ?m' ?r t ?i (?e OR VMM_USER)" by (rule stored_plain [OF r ta]) simp
  have tabs: "tab ?m' ?r w k = tab ?m ?r w k" if "k \<le> 3" for w k
    using that n by (intro tab_unchanged [OF pwf _ t sto]) auto
  have st': "st' = st\<lparr>vmem := ?m'\<rparr>" and p: "p = ?e AND ADDR_MASK"
    using call pr pt_get_set [OF ta ta, of ?i ?i] by (auto simp: next_table_def Let_def present_bit user_bits)
  have nxt: "tab ?m ?r v (Suc n) = Some p" using t pr nh p by (auto simp: next_of_def)
  have pd: "pd_ok (pt_get ?m' s (pd_idx w))" if "tab ?m ?r w 2 = Some s" for w s
  proof -
    have "pd_ok (pt_get ?m s (pd_idx w))" using that pwf by (simp add: pt_wf_def)
    then show ?thesis using stored_path [OF pwf _ t sto _ that] n nh user_bits by (auto simp: pd_ok_def)
  qed
  have wf': "pt_wf ?m' ?r" by (rule pt_wf_same [OF pwf tabs pd]) auto
  have "walk_from ?m' ?r w = walk_from ?m ?r w" for w
  proof (rule walk_cong)
    show "tab ?m' ?r w 3 = tab ?m ?r w 3" "tab ?m' ?r w 2 = tab ?m ?r w 2" using tabs by auto
    show "pt_get ?m' s (pt_idx w) = pt_get ?m s (pt_idx w)" if "tab ?m ?r w 3 = Some s" for s
      using stored_path [OF pwf _ t sto _ that] n by auto
    show "pt_get ?m' s (pd_idx w) = pt_get ?m s (pd_idx w)"
      if s: "tab ?m ?r w 2 = Some s" "tab ?m ?r w 3 = None" for s
    proof (cases "n = 2 \<and> same_path (Suc n) v w")
      case True
      then have "tab ?m ?r v (Suc n) = tab ?m ?r w 3"
        using tab_same_path [of "Suc n" v w] by (auto simp del: tab.simps same_path_simps)
      then show ?thesis using s nxt by simp
    qed (use stored_path [OF pwf _ t sto _ s(1)] n in auto)
  qed
  then show ?thesis
    using wf wf' tabs nxt st' pwf n
    by (auto simp: vmm_wf_def vmm_current_pml4_def vmm_get_phys_def pt_wf_def simp del: tab.simps)
qed

text \<open>The well-formedness of a state whose tables are the old ones and one new frame.\<close>

lemma vmm_wf_fresh:
  assumes wf: "vmm_wf st" and t: "tab (vmem st) (vmm_current_pml4 st) v n = Some t" and n: "n < 3"
    and al: "pmm_alloc_page (frames st) = (np, fr')" and np: "np \<noteq> 0"
    and old: "next_of n (pt_get (vmem st) t (lvl_idx n v)) = None"
    and st': "st' = st\<lparr>frames := fr', vmem := m', tlb := l\<rparr>"
    and sto: "stored (vmem st) m' (vmm_current_pml4 st) t (lvl_idx n v)
       (np OR VMM_PRESENT OR VMM_WRITABLE OR VMM_USER)"
    and z: "\<And>i. n < 2 \<Longrightarrow> i < 512 \<Longrightarrow> pt_get m' np i = 0"
  shows "vmm_wf st'" and "tab m' (vmm_current_pml4 st) v (Suc n) = Some np"
    and "\<And>k. k \<le> n \<Longrightarrow> tab m' (vmm_current_pml4 st) v k = tab (vmem st) (vmm_current_pml4 st) v k"
proof -
  let ?r = "vmm_current_pml4 st" and ?m = "vmem st" and ?e = "np OR VMM_PRESENT OR VMM_WRITABLE OR VMM_USER"
  have inv: "pmm_inv (frames st)" and pwf: "pt_wf ?m ?r"
    and used: "\<And>w k s. k \<le> 3 \<Longrightarrow> tab ?m ?r w k = Some s \<Longrightarrow> s \<notin> free_frames (frames st)"
    using wf by (auto simp: vmm_wf_def)
  note fr = alloc_frame [OF inv al np]
  note en = frame_entry [OF fr(1,2)]
  have nx: "next_of n ?e = Some np" using en by (simp add: next_of_def present_bit huge_bit)
  have new: "\<And>w k. k \<le> 3 \<Longrightarrow> tab ?m ?r w k \<noteq> Some np" using used fr(3) by blast
  have nh: "\<not> bit ?e 7" using en(3) unfolding huge_bit .
  have tf: "tab m' ?r w k = (if k \<le> n \<or> \<not> same_path (Suc n) v w then tab ?m ?r w k
      else if k = Suc n then Some np else None)" if "k \<le> 3" for w k
    using that z by (intro tab_fresh [OF pwf n t sto nx old]) auto
  have "pt_wf m' ?r" using z new np by (intro fresh_wf [OF pwf n t sto nx old _ _ np nh]) auto
  moreover have "s \<notin> free_frames fr'" if "k \<le> 3" "tab m' ?r w k = Some s" for k w s
    using tf [OF that(1), of w] that used [OF that(1), of w] fr(4) by (auto split: if_splits)
  ultimately show "vmm_wf st'" using fr(5) by (auto simp: vmm_wf_def st' vmm_current_pml4_def)
  show "tab m' ?r v (Suc n) = Some np" using tf [of "Suc n" v] n by (simp del: tab.simps)
  show "tab m' ?r v k = tab ?m ?r v k" if "k \<le> n" for k using tf [of k v] n that by simp
qed

lemma next_table_absent:
  assumes wf: "vmm_wf st" and t: "tab (vmem st) (vmm_current_pml4 st) v n = Some t" and n: "n < 3"
    and pr: "\<not> bit (pt_get (vmem st) t (lvl_idx n v)) 0"
    and call: "next_table t (lvl_idx n v) st = (p, st')"
  shows "vmm_wf st' \<and> vmm_current_pml4 st' = vmm_current_pml4 st \<and>
    (\<forall>w. vmm_get_phys w st' = vmm_get_phys w st) \<and>
    (if p = 0 then st' = st \<and> free_frames (frames st) = {}
     else card (free_frames (frames st)) = Suc (card (free_frames (frames st'))) \<and>
       (\<forall>k\<le>n. tab (vmem st') (vmm_current_pml4 st) v k = tab (vmem st) (vmm_current_pml4 st) v k) \<and>
       tab (vmem st') (vmm_current_pml4 st) v (Suc n) = Some p)"
proof -
  let ?r = "vmm_current_pml4 st" and ?m = "vmem st" and ?i = "lvl_idx n v"
  have inv: "pmm_inv (frames st)" and pwf: "pt_wf ?m ?r"
    and used: "\<And>w k s. k \<le> 3 \<Longrightarrow> tab ?m ?r w k = Some s \<Longrightarrow> s \<notin> free_frames (frames st)"
    using wf by (auto simp: vmm_wf_def)
  have r: "page_aligned ?r" by (simp add: vmm_current_pml4_def)
  have ta: "page_aligned t" by (rule tab_aligned [OF r t])
  obtain np fr' where al: "pmm_alloc_page (frames st) = (np, fr')" by fastforce
  show ?thesis
  proof (cases "np = 0")
    case True
    with alloc_none [OF inv] al have "fr' = frames st" "free_frames (frames st) = {}" by auto
    then show ?thesis using True al call pr wf by (auto simp: next_table_def present_bit)
  next
    case False
    note fr = alloc_frame [OF inv al False]
    let ?e = "np OR VMM_PRESENT OR VMM_WRITABLE OR VMM_USER"
    let ?m' = "pt_set t ?i ?e (zero_page np ?m)"
    have new: "\<And>w k. k \<le> 3 \<Longrightarrow> tab ?m ?r w k \<noteq> Some np" using used fr(3) by blast
    then have tnp: "t \<noteq> np" using t n by (metis less_imp_le)
    have st': "st' = st\<lparr>frames := fr', vmem := ?m'\<rparr>" and p: "p = np"
      using call pr al False pt_get_set [OF ta ta, of ?i ?i] frame_entry(1) [OF fr(1,2)]
      by (auto simp: next_table_def Let_def present_bit)
    have sto: "stored ?m ?m' ?r t ?i ?e"
      using new pt_get_zero [OF fr(1)] by (intro stored_set [OF r ta, where np = np]) auto
    have z: "pt_get ?m' np i = 0" if "i < 512" for i
      using pt_get_set [OF ta fr(1) _ that] pt_get_zero [OF fr(1,1) that] tnp by simp
    have old: "next_of n (pt_get ?m t ?i) = None" using pr by (simp add: next_of_def)
    have nx: "next_of n ?e = Some np"
      using frame_entry [OF fr(1,2)] by (simp add: next_of_def present_bit huge_bit)
    have st2: "st' = st\<lparr>frames := fr', vmem := ?m', tlb := tlb st\<rparr>" using st' by simp
    note vf = vmm_wf_fresh [OF wf t n al False old st2 sto z]
    have "walk_from ?m' ?r w = walk_from ?m ?r w" for w
      by (rule fresh_zero_walk [OF pwf n t sto nx pr z])
    then show ?thesis
      using vf p False alloc_frame_card [OF inv al False] st'
      by (simp add: vmm_get_phys_def vmm_current_pml4_def del: tab.simps)
  qed
qed

text \<open>Both cases: the translation of every address is kept and the table is there.\<close>

lemma next_table_ok:
  assumes wf: "vmm_wf st" and t: "tab (vmem st) (vmm_current_pml4 st) v n = Some t" and n: "n < 3"
    and nh: "n = 2 \<Longrightarrow> \<not> bit (pt_get (vmem st) t (lvl_idx n v)) 7"
    and call: "next_table t (lvl_idx n v) st = (p, st')"
  shows "vmm_wf st'" and "vmm_current_pml4 st' = vmm_current_pml4 st"
    and "vmm_get_phys w st' = vmm_get_phys w st"
    and "p = 0 \<Longrightarrow> free_frames (frames st) = {}"
    and "p \<noteq> 0 \<Longrightarrow> tab (vmem st') (vmm_current_pml4 st) v (Suc n) = Some p"
    and "p \<noteq> 0 \<Longrightarrow> k \<le> n \<Longrightarrow> tab (vmem st') (vmm_current_pml4 st) v k = tab (vmem st) (vmm_current_pml4 st) v k"
    and "card (free_frames (frames st)) \<le> Suc (card (free_frames (frames st')))"
proof -
  have le: "k \<le> n \<Longrightarrow> k \<le> 3" "Suc n \<le> 3" for k using n by auto
  note pres = next_table_present [OF wf t n nh _ call] and abs = next_table_absent [OF wf t n _ call]
  show "vmm_wf st'" "vmm_current_pml4 st' = vmm_current_pml4 st" "vmm_get_phys w st' = vmm_get_phys w st"
    using pres abs by blast+
  show "p = 0 \<Longrightarrow> free_frames (frames st) = {}" using pres abs by (metis (full_types))
  show "p \<noteq> 0 \<Longrightarrow> tab (vmem st') (vmm_current_pml4 st) v (Suc n) = Some p"
    using pres abs le by (metis (full_types))
  show "p \<noteq> 0 \<Longrightarrow> k \<le> n \<Longrightarrow> tab (vmem st') (vmm_current_pml4 st) v k = tab (vmem st) (vmm_current_pml4 st) v k"
    using pres abs le by (metis (full_types))
  show "card (free_frames (frames st)) \<le> Suc (card (free_frames (frames st')))"
  proof (cases "bit (pt_get (vmem st) t (lvl_idx n v)) 0")
    case True
    then show ?thesis using pres by simp
  next
    case False
    then show ?thesis using abs by (auto split: if_splits)
  qed
qed

section \<open>Splitting a large page\<close>

lemma or_disjoint: "(\<And>i. \<not> bit (a :: u64) i \<or> \<not> bit b i) \<Longrightarrow> a + b = a OR b"
  by (rule disjunctive_add)

lemma pt_idx_bit: "bit (push_bit 12 (pt_idx w)) i \<longleftrightarrow> bit w i \<and> 12 \<le> i \<and> i < 21"
proof -
  have "pt_idx w = drop_bit 12 w AND mask 9" by (simp add: pt_idx_def mask_eq_exp_minus_1)
  then show ?thesis by (auto simp: bit_simps dest: bit_imp_le_length)
qed

lemma low_mask_bits:
  "bit ((w :: u64) AND 0xFFF) i \<longleftrightarrow> bit w i \<and> i < 12"
  "bit ((w :: u64) AND 0x1FFFFF) i \<longleftrightarrow> bit w i \<and> i < 21"
  "bit ((w :: u64) AND NOT 0x1FFFFF) i \<longleftrightarrow> bit w i \<and> 21 \<le> i"
  "bit ((w :: u64) AND NOT 0xFFF) i \<longleftrightarrow> bit w i \<and> 12 \<le> i"
proof -
  have m: "(0xFFF :: u64) = mask 12" "(0x1FFFFF :: u64) = mask 21" by (simp_all add: mask_eq_exp_minus_1)
  show "bit (w AND 0xFFF) i \<longleftrightarrow> bit w i \<and> i < 12" "bit (w AND 0x1FFFFF) i \<longleftrightarrow> bit w i \<and> i < 21"
    "bit (w AND NOT 0x1FFFFF) i \<longleftrightarrow> bit w i \<and> 21 \<le> i" "bit (w AND NOT 0xFFF) i \<longleftrightarrow> bit w i \<and> 12 \<le> i"
    unfolding m by (auto simp: bit_simps dest: bit_imp_le_length)
qed

lemma top_bits: "drop_bit 52 (e :: u64) = 0 \<Longrightarrow> bit e i \<Longrightarrow> i < 52"
proof (rule ccontr)
  assume "drop_bit 52 e = 0" and "bit e i" and "\<not> i < 52"
  have "bit (drop_bit 52 e) (i - 52) = bit e (52 + (i - 52))" by (simp only: bit_drop_bit_eq o_apply)
  then have "bit (drop_bit 52 e) (i - 52)" using \<open>bit e i\<close> \<open>\<not> i < 52\<close> by simp
  with \<open>drop_bit 52 e = 0\<close> show False by simp
qed

definition split_entry :: "u64 \<Rightarrow> u64 \<Rightarrow> u64" where
  "split_entry e k = ((e AND NOT 0x1FFFFF) + k * 4096) OR (e AND 0xFFF) OR VMM_PRESENT OR VMM_USER"

lemma split_entry_addr:
  assumes "drop_bit 52 e = 0" and "bit e 0"
  shows "leaf_addr (split_entry e (pt_idx w)) w = huge_addr e w"
proof -
  let ?h = "e AND NOT 0x1FFFFF" and ?k = "push_bit 12 (pt_idx w)"
  have k: "pt_idx w * 4096 = ?k" by (simp add: push_bit_eq_mult)
  have sum: "?h + ?k = ?h OR ?k"
    by (rule or_disjoint) (simp only: low_mask_bits pt_idx_bit, linarith)
  have addr: "split_entry e (pt_idx w) AND ADDR_MASK = ?h OR ?k"
    unfolding split_entry_def k sum
    by (rule bit_word_eqI)
      (auto simp only: addr_bit bit_or_iff flag_bits low_mask_bits pt_idx_bit dest: top_bits [OF assms(1)])
  have "(?h OR ?k) + (w AND 0xFFF) = (?h OR ?k) OR (w AND 0xFFF)"
    by (rule or_disjoint) (simp only: low_mask_bits pt_idx_bit bit_or_iff, linarith)
  moreover have "?h + (w AND 0x1FFFFF) = ?h OR (w AND 0x1FFFFF)"
    by (rule or_disjoint) (simp only: low_mask_bits, linarith)
  moreover have "(?h OR ?k) OR (w AND 0xFFF) = ?h OR (w AND 0x1FFFFF)"
    by (rule bit_word_eqI) (simp only: low_mask_bits pt_idx_bit bit_or_iff, linarith)
  moreover have "bit (split_entry e (pt_idx w)) 0"
    unfolding split_entry_def by (simp only: bit_or_iff flag_bits, simp)
  ultimately show ?thesis using assms(2) addr unfolding leaf_addr_def huge_addr_def by simp
qed

lemma split_huge_ok:
  assumes wf: "vmm_wf st" and t: "tab (vmem st) (vmm_current_pml4 st) v 2 = Some pd"
    and call: "split_huge_pd pd (pd_idx v) st = (ok, st')"
  shows "vmm_wf st'" and "vmm_current_pml4 st' = vmm_current_pml4 st"
    and "vmm_get_phys w st' = vmm_get_phys w st"
    and "\<not> ok \<Longrightarrow> free_frames (frames st) = {}"
    and "ok \<Longrightarrow> tab (vmem st') (vmm_current_pml4 st) v 2 = Some pd \<and> \<not> bit (pt_get (vmem st') pd (pd_idx v)) 7"
    and "bit (pt_get (vmem st) pd (pd_idx v)) 7 \<Longrightarrow>
      card (free_frames (frames st)) \<le> Suc (card (free_frames (frames st'))) \<and>
      (ok \<longrightarrow> bit (pt_get (vmem st') pd (pd_idx v)) 0)"
    and "\<not> bit (pt_get (vmem st) pd (pd_idx v)) 7 \<Longrightarrow> st' = st"
proof -
  let ?r = "vmm_current_pml4 st" and ?m = "vmem st" and ?i = "pd_idx v"
  let ?e = "pt_get ?m pd ?i"
  have inv: "pmm_inv (frames st)" and pwf: "pt_wf ?m ?r"
    and used: "\<And>w k s. k \<le> 3 \<Longrightarrow> tab ?m ?r w k = Some s \<Longrightarrow> s \<notin> free_frames (frames st)"
    using wf by (auto simp: vmm_wf_def)
  have r: "page_aligned ?r" by (simp add: vmm_current_pml4_def)
  have ta: "page_aligned pd" by (rule tab_aligned [OF r t])
  have eok: "pd_ok ?e" using pwf t by (simp add: pt_wf_def)
  have "vmm_wf st' \<and> vmm_current_pml4 st' = ?r \<and> (\<forall>w. vmm_get_phys w st' = vmm_get_phys w st) \<and>
     (\<not> ok \<longrightarrow> free_frames (frames st) = {}) \<and>
     (ok \<longrightarrow> tab (vmem st') ?r v 2 = Some pd \<and> \<not> bit (pt_get (vmem st') pd ?i) 7) \<and>
     (bit ?e 7 \<longrightarrow> card (free_frames (frames st)) \<le> Suc (card (free_frames (frames st'))) \<and>
       (ok \<longrightarrow> bit (pt_get (vmem st') pd ?i) 0)) \<and>
     (\<not> bit ?e 7 \<longrightarrow> st' = st)"
  proof (cases "bit ?e 7")
    case False
    then have "ok" "st' = st" using call by (auto simp: split_huge_pd_def huge_bit)
    then show ?thesis using wf t False by simp
  next
    case True
    then have e0: "bit ?e 0" and e52: "drop_bit 52 ?e = 0" using eok by (auto simp: pd_ok_def)
    obtain np fr' where al: "pmm_alloc_page (frames st) = (np, fr')" by fastforce
    show ?thesis
    proof (cases "np = 0")
      case n0: True
      with alloc_none [OF inv] al have "fr' = frames st" "free_frames (frames st) = {}" by auto
      then show ?thesis using n0 True al call wf by (auto simp: split_huge_pd_def huge_bit)
    next
      case n0: False
      note fr = alloc_frame [OF inv al n0]
      let ?e' = "np OR VMM_PRESENT OR VMM_WRITABLE OR VMM_USER"
      let ?m1 = "fold (\<lambda>k. pt_set np k (split_entry ?e k)) slots (zero_page np ?m)"
      let ?m' = "pt_set pd ?i ?e' ?m1"
      have new: "\<And>w k. k \<le> 3 \<Longrightarrow> tab ?m ?r w k \<noteq> Some np" using used fr(3) by blast
      have tnp: "pd \<noteq> np" using new [of 2 v] t by auto
      have ok: "ok" and st': "st' = st\<lparr>frames := fr', vmem := ?m', tlb := Flush_all # tlb st\<rparr>"
        using call True al n0 by (auto simp: split_huge_pd_def huge_bit flush_tlb_all_def split_entry_def Let_def)
      have m1: "pt_get ?m1 s j = (if s = np then split_entry ?e j else pt_get ?m s j)"
        if "page_aligned s" "j < 512" for s j
        using fill_table [OF fr(1) that] pt_get_zero [OF fr(1) that] by simp
      have sto: "stored ?m ?m' ?r pd (lvl_idx 2 v) ?e'"
        unfolding lvl_idx_simps using new m1 by (intro stored_set [OF r ta, where np = np]) auto
      have t2: "tab ?m ?r v 2 = Some pd" using t .
      have old: "next_of 2 (pt_get ?m pd (lvl_idx 2 v)) = None" using True by (simp add: next_of_def)
      note vf = vmm_wf_fresh [OF wf t2 _ al n0 old st' sto]
      have leaf: "pt_get ?m' np j = split_entry ?e j" if "j < 512" for j
        using pt_get_set [OF ta fr(1) _ that] m1 [OF fr(1) that] tnp by simp
      have "walk_from ?m' ?r w = walk_from ?m ?r w" for w
      proof (cases "same_path (Suc 2) v w")
        case path: True
        have "tab ?m' ?r w 3 = Some np"
          using vf(2) tab_same_path [OF path, of ?m' ?r] by simp
        moreover have "tab ?m ?r w 2 = Some pd"
          using t2 tab_same_path [of 2 v w] same_path_le [OF path, of 2] by simp
        moreover have "pd_idx w = ?i" using path same_path_simps(3) [of 2 v w] by simp
        moreover have "tab ?m ?r w 3 = None"
          using tab.simps(2) [of ?m ?r w 2] calculation old by simp
        ultimately show ?thesis
          using leaf [of "pt_idx w"] split_entry_addr [OF e52 e0] by (simp add: walk_tab)
      qed (rule fresh_walk_other [OF pwf _ t2 sto], simp_all)
      then have gp: "\<forall>w. vmm_get_phys w st' = vmm_get_phys w st"
        by (simp add: vmm_get_phys_def st' vmm_current_pml4_def)
      have own: "pt_get ?m' pd ?i = ?e'" using pt_get_set [OF ta ta, of ?i ?i] by simp
      show ?thesis
        using vf gp ok own frame_entry [OF fr(1,2)] alloc_frame_card [OF inv al n0] t2 True
        by (simp add: st' vmm_current_pml4_def present_bit huge_bit)
    qed
  qed
  then show "vmm_wf st'" "vmm_current_pml4 st' = ?r" "vmm_get_phys w st' = vmm_get_phys w st"
    "\<not> ok \<Longrightarrow> free_frames (frames st) = {}"
    "ok \<Longrightarrow> tab (vmem st') ?r v 2 = Some pd \<and> \<not> bit (pt_get (vmem st') pd ?i) 7"
    "bit ?e 7 \<Longrightarrow> card (free_frames (frames st)) \<le> Suc (card (free_frames (frames st'))) \<and>
      (ok \<longrightarrow> bit (pt_get (vmem st') pd ?i) 0)"
    "\<not> bit ?e 7 \<Longrightarrow> st' = st"
    by blast+
qed

section \<open>Mapping and unmapping\<close>

text \<open>Two addresses lie in the same page of the 48-bit address space.\<close>

definition same_page :: "u64 \<Rightarrow> u64 \<Rightarrow> bool" where
  "same_page v w \<longleftrightarrow> take_bit 36 (drop_bit 12 v) = take_bit 36 (drop_bit 12 w)"

lemma idx_bits:
  "bit (pml4_idx v) i \<longleftrightarrow> i < 9 \<and> bit v (i + 39)" "bit (pdpt_idx v) i \<longleftrightarrow> i < 9 \<and> bit v (i + 30)"
  "bit (pd_idx v) i \<longleftrightarrow> i < 9 \<and> bit v (i + 21)" "bit (pt_idx v) i \<longleftrightarrow> i < 9 \<and> bit v (i + 12)"
proof -
  have m: "(0x1FF :: u64) = mask 9" by (simp add: mask_eq_exp_minus_1)
  show "bit (pml4_idx v) i \<longleftrightarrow> i < 9 \<and> bit v (i + 39)" "bit (pdpt_idx v) i \<longleftrightarrow> i < 9 \<and> bit v (i + 30)"
    "bit (pd_idx v) i \<longleftrightarrow> i < 9 \<and> bit v (i + 21)" "bit (pt_idx v) i \<longleftrightarrow> i < 9 \<and> bit v (i + 12)"
    unfolding pml4_idx_def pdpt_idx_def pd_idx_def pt_idx_def m
    by (auto simp: bit_simps add.commute dest: bit_imp_le_length)
qed

lemma same_page_iff: "same_page v w \<longleftrightarrow> same_path 4 v w"
proof -
  have e: "bit (take_bit 36 (drop_bit 12 x)) i \<longleftrightarrow> i < 36 \<and> bit x (i + 12)" for x :: u64 and i
    by (auto simp: bit_simps add.commute dest: bit_imp_le_length)
  have path: "same_path 4 v w \<longleftrightarrow> pml4_idx v = pml4_idx w \<and> pdpt_idx v = pdpt_idx w \<and> pd_idx v = pd_idx w \<and> pt_idx v = pt_idx w"
  proof -
    have "j < 4 \<longleftrightarrow> j = 0 \<or> j = 1 \<or> j = 2 \<or> j = 3" for j :: nat by auto
    then show ?thesis by (auto simp: same_path_def)
  qed
  have "same_path 4 v w" if "same_page v w"
  proof -
    have b: "bit v (i + 12) = bit w (i + 12)" if "i < 36" for i
      using \<open>same_page v w\<close> that e [of v i] e [of w i] by (simp add: same_page_def)
    have "bit (pml4_idx v) i = bit (pml4_idx w) i" "bit (pdpt_idx v) i = bit (pdpt_idx w) i"
      "bit (pd_idx v) i = bit (pd_idx w) i" "bit (pt_idx v) i = bit (pt_idx w) i" for i
      unfolding idx_bits using b [of "i + 27"] b [of "i + 18"] b [of "i + 9"] b [of i]
      by (auto simp: add.assoc)
    then show ?thesis unfolding path by (blast intro: bit_word_eqI)
  qed
  moreover have "same_page v w" if "same_path 4 v w"
    unfolding same_page_def
  proof (rule bit_word_eqI)
    fix i :: nat
    have q: "bit (pml4_idx v) j = bit (pml4_idx w) j" "bit (pdpt_idx v) j = bit (pdpt_idx w) j"
      "bit (pd_idx v) j = bit (pd_idx w) j" "bit (pt_idx v) j = bit (pt_idx w) j" for j
      using that path by auto
    have b: "bit v (j + 39) = bit w (j + 39)" "bit v (j + 30) = bit w (j + 30)"
      "bit v (j + 21) = bit w (j + 21)" "bit v (j + 12) = bit w (j + 12)" if "j < 9" for j
      using q [of j] that unfolding idx_bits by blast+
    have "bit v (i + 12) = bit w (i + 12)" if "i < 36"
    proof -
      have "i < 9 \<or> i - 9 < 9 \<and> i + 12 = i - 9 + 21 \<or> i - 18 < 9 \<and> i + 12 = i - 18 + 30 \<or>
        i - 27 < 9 \<and> i + 12 = i - 27 + 39" using that by arith
      then show ?thesis using b(4) [of i] b(3) [of "i - 9"] b(2) [of "i - 18"] b(1) [of "i - 27"]
        by (elim disjE conjE) (simp_all only:)
    qed
    then show "bit (take_bit 36 (drop_bit 12 v)) i = bit (take_bit 36 (drop_bit 12 w)) i"
      unfolding e by blast
  qed
  ultimately show ?thesis by blast
qed

text \<open>Storing one leaf entry: exactly the addresses of that page change.\<close>

lemma leaf_store:
  assumes wf: "vmm_wf st" and t: "tab (vmem st) (vmm_current_pml4 st) v 3 = Some pt"
    and st': "vmem st' = pt_set pt (pt_idx v) e (vmem st)" "frames st' = frames st" "cr3 st' = cr3 st"
  shows "vmm_wf st'"
    and "vmm_get_phys w st' = (if same_page v w then leaf_addr e w else vmm_get_phys w st)"
proof -
  let ?r = "vmm_current_pml4 st" and ?m = "vmem st" and ?m' = "vmem st'"
  have pwf: "pt_wf ?m ?r" using wf by (simp add: vmm_wf_def)
  have r: "page_aligned ?r" by (simp add: vmm_current_pml4_def)
  have root: "vmm_current_pml4 st' = ?r" using st'(3) by (simp add: vmm_current_pml4_def)
  have sto: "stored ?m ?m' ?r pt (lvl_idx 3 v) e"
    unfolding st'(1) lvl_idx_simps by (rule stored_plain [OF r tab_aligned [OF r t]]) simp
  have tabs: "tab ?m' ?r w k = tab ?m ?r w k" if "k \<le> 3" for w k
    using that by (intro tab_unchanged [OF pwf _ t sto]) auto
  have pd: "pt_get ?m' s (pd_idx w) = pt_get ?m s (pd_idx w)" if "tab ?m ?r w 2 = Some s" for w s
    using stored_path [OF pwf _ t sto _ that] by simp
  have "pt_wf ?m' ?r"
    using pd pwf by (intro pt_wf_same [OF pwf tabs]) (auto simp: pt_wf_def)
  then show "vmm_wf st'" using wf tabs st'(2) root by (auto simp: vmm_wf_def)
  have path: "same_page v w \<longleftrightarrow> same_path (Suc 3) v w" by (simp add: same_page_iff del: same_path_simps)
  have leaf: "pt_get ?m' s (pt_idx w) = (if same_page v w then e else pt_get ?m s (pt_idx w))"
    if "tab ?m ?r w 3 = Some s" for s
    using stored_path [OF pwf _ t sto _ that] path by (simp del: same_path_simps)
  have "tab ?m ?r w 3 = Some pt" if "same_page v w"
  proof -
    have "same_path 3 v w" using same_path_le [of "Suc 3" v w 3] that path by simp
    then show ?thesis using t tab_same_path [of 3 v w ?m ?r] by simp
  qed
  then show "vmm_get_phys w st' = (if same_page v w then leaf_addr e w else vmm_get_phys w st)"
    using tabs [of 3 w] tabs [of 2 w] leaf pd
    by (auto simp: vmm_get_phys_def root [unfolded vmm_current_pml4_def] walk_tab vmm_current_pml4_def
        split: option.splits)
qed

lemma tab_1: "tab m r v (Suc 0) = tab m r v 1" by simp

text \<open>The entry that \<open>vmm_map\<close> stores.\<close>

lemma map_entry:
  "leaf_addr ((phys AND NOT 0xFFF) OR (flags AND 0xFFF) OR VMM_PRESENT) w = (phys AND ADDR_MASK) + (w AND 0xFFF)"
proof -
  let ?e = "(phys AND NOT 0xFFF) OR (flags AND 0xFFF) OR VMM_PRESENT"
  have "?e AND ADDR_MASK = phys AND ADDR_MASK"
    by (rule bit_word_eqI) (simp only: addr_bit bit_or_iff flag_bits low_mask_bits, linarith)
  moreover have "bit ?e 0" by (simp add: bit_or_iff flag_bits)
  ultimately show ?thesis by (simp add: leaf_addr_def)
qed

lemma vmm_map_ok:
  assumes wf: "vmm_wf st" and call: "st' = vmm_map virt phys flags st"
  shows "vmm_wf st' \<and> vmm_current_pml4 st' = vmm_current_pml4 st \<and>
    card (free_frames (frames st)) \<le> 3 + card (free_frames (frames st')) \<and>
    ((\<exists>l. tlb st' = Invlpg virt # l) \<and> (\<forall>w. vmm_get_phys w st' =
        (if same_page virt w then (phys AND ADDR_MASK) + (w AND 0xFFF) else vmm_get_phys w st)) \<or>
     (\<forall>w. vmm_get_phys w st' = vmm_get_phys w st) \<and> card (free_frames (frames st)) < 3)"
proof -
  let ?r = "vmm_current_pml4 st"
  have two: "Suc (Suc 0) = 2" "Suc 2 = 3" by simp_all
  obtain pdpt st1 where c1: "next_table ?r (lvl_idx 0 virt) st = (pdpt, st1)" by fastforce
  have n1: "next_table (cr3 st AND ADDR_MASK) (pml4_idx virt) st = (pdpt, st1)"
    using c1 by (simp add: vmm_current_pml4_def)
  have t0: "tab (vmem st) ?r virt 0 = Some ?r" by simp
  note s1 = next_table_ok [OF wf t0 _ _ c1]
  show ?thesis
  proof (cases "pdpt = 0")
    case True
    then have "st' = st1" using call n1 by (simp add: vmm_map_def)
    then show ?thesis using s1(1,2,3,4,7) True by auto
  next
    case p1: False
    obtain pd st2 where c2: "next_table pdpt (lvl_idx 1 virt) st1 = (pd, st2)" by fastforce
    have n2: "next_table pdpt (pdpt_idx virt) st1 = (pd, st2)" using c2 by simp
    have t1: "tab (vmem st1) (vmm_current_pml4 st1) virt 1 = Some pdpt" using s1(2,5) p1 by (simp del: tab.simps)
    have wf1: "vmm_wf st1" using s1(1) by simp
    note s2 = next_table_ok [OF wf1 t1 _ _ c2]
    show ?thesis
    proof (cases "pd = 0")
      case True
      then have "st' = st2" using call n1 n2 p1 by (simp add: vmm_map_def)
      then show ?thesis using s1(2,3,7) s2(1,2,3,4,7) True by auto
    next
      case p2: False
      obtain ok st3 where c3: "split_huge_pd pd (pd_idx virt) st2 = (ok, st3)" by fastforce
      have t2: "tab (vmem st2) (vmm_current_pml4 st2) virt 2 = Some pd"
        using s2(2,5) p2 by (simp add: numeral_2_eq_2 del: tab.simps)
      have wf2: "vmm_wf st2" using s2(1) by simp
      note s3 = split_huge_ok [OF wf2 t2 c3]
      have f2: "card (free_frames (frames st)) \<le> Suc (Suc (card (free_frames (frames st2))))"
        using s1(7) s2(7) by simp
      show ?thesis
      proof (cases ok)
        case False
        then have "st' = st3" using call n1 n2 c3 p1 p2 by (simp add: vmm_map_def)
        moreover have "card (free_frames (frames st2)) \<le> Suc (card (free_frames (frames st3)))"
          using s3(6,7) by fastforce
        ultimately show ?thesis using s1(2,3) s2(1,2,3) s3(1,2,3,4) False f2 by auto
      next
        case True
        obtain pt st4 where c4: "next_table pd (lvl_idx 2 virt) st3 = (pt, st4)" by fastforce
        have n4: "next_table pd (pd_idx virt) st3 = (pt, st4)" using c4 by simp
        have t3: "tab (vmem st3) (vmm_current_pml4 st3) virt 2 = Some pd" and
          nh: "\<not> bit (pt_get (vmem st3) pd (pd_idx virt)) 7" using s3(2,5) True by auto
        note s4 = next_table_ok [OF s3(1) t3 _ _ c4]
        let ?e = "(phys AND NOT 0xFFF) OR (flags AND 0xFFF) OR VMM_PRESENT"
        have st': "st' = (if pt = 0 then st4
            else invlpg virt (st4\<lparr>vmem := pt_set pt (pt_idx virt) ?e (vmem st4)\<rparr>))"
          using call n1 n2 c3 n4 p1 p2 True nh by (simp add: vmm_map_def huge_bit)
        have same: "vmm_get_phys w st4 = vmm_get_phys w st" for w
          using s1(3) s2(3) s3(3) s4(3) nh by simp
        have root: "vmm_current_pml4 st4 = ?r" using s1(2) s2(2) s3(2) s4(2) nh by simp
        have f4: "card (free_frames (frames st2)) \<le> Suc (card (free_frames (frames st4)))"
        proof (cases "bit (pt_get (vmem st2) pd (pd_idx virt)) 7")
          case h: True
          then have "bit (pt_get (vmem st3) pd (lvl_idx 2 virt)) 0" using s3(6) True by simp
          then have "frames st4 = frames st3" using next_table_present [OF s3(1) t3 _ _ _ c4] nh by simp
          then show ?thesis using s3(6) h by simp
        next
          case False
          then show ?thesis using s3(7) s4(7) nh by simp
        qed
        show ?thesis
        proof (cases "pt = 0")
          case z: True
          have "\<not> bit (pt_get (vmem st2) pd (pd_idx virt)) 7"
          proof
            assume h: "bit (pt_get (vmem st2) pd (pd_idx virt)) 7"
            then have "bit (pt_get (vmem st3) pd (lvl_idx 2 virt)) 0" using s3(6) True by simp
            then show False using next_table_present [OF s3(1) t3 _ _ _ c4] nh z by simp
          qed
          then have "card (free_frames (frames st2)) = 0" using s3(7) s4(4) nh z by simp
          then show ?thesis using st' z s4(1) nh same f2 root f4 by auto
        next
          case p4: False
          have t4: "tab (vmem st4) (vmm_current_pml4 st4) virt 3 = Some pt"
            using s4(2,5) p4 nh by (simp del: tab.simps add: two)
          have fields: "vmem st' = pt_set pt (pt_idx virt) ?e (vmem st4)" "frames st' = frames st4" "cr3 st' = cr3 st4"
            using st' p4 by (simp_all add: invlpg_def)
          have wf4: "vmm_wf st4" using s4(1) nh by simp
          note ls = leaf_store [OF wf4 t4 fields]
          have "vmm_current_pml4 st' = ?r" "tlb st' = Invlpg virt # tlb st4"
            using st' p4 root by (simp_all add: invlpg_def vmm_current_pml4_def)
          then show ?thesis using ls same map_entry fields(2) f2 f4 by auto
        qed
      qed
    qed
  qed
qed

text \<open>An address that a large page maps.\<close>

definition huge_mapped :: "u64 \<Rightarrow> vmm \<Rightarrow> bool" where
  "huge_mapped v st \<longleftrightarrow> (case tab (vmem st) (vmm_current_pml4 st) v 2 of None \<Rightarrow> False
     | Some pd \<Rightarrow> bit (pt_get (vmem st) pd (pd_idx v)) 0 \<and> bit (pt_get (vmem st) pd (pd_idx v)) 7)"

lemma tab_levels:
  "tab m r v 1 = next_of 0 (pt_get m r (pml4_idx v))"
  "tab m r v 2 = (case tab m r v 1 of None \<Rightarrow> None | Some t \<Rightarrow> next_of 1 (pt_get m t (pdpt_idx v)))"
  "tab m r v 3 = (case tab m r v 2 of None \<Rightarrow> None | Some t \<Rightarrow> next_of 2 (pt_get m t (pd_idx v)))"
  using tab.simps(2) [of m r v 0, unfolded lvl_idx_simps] tab.simps(2) [of m r v 1, unfolded lvl_idx_simps]
    tab.simps(2) [of m r v 2, unfolded lvl_idx_simps]
  by (simp_all add: numeral_2_eq_2 numeral_3_eq_3 del: tab.simps(2))

lemma vmm_unmap_tab:
  "vmm_unmap virt st = (case tab (vmem st) (vmm_current_pml4 st) virt 3 of None \<Rightarrow> st
     | Some pt \<Rightarrow> invlpg virt (st\<lparr>vmem := pt_set pt (pt_idx virt) 0 (vmem st)\<rparr>))"
  unfolding vmm_unmap_def Let_def tab_levels present_bit huge_bit next_of_def vmm_current_pml4_def by simp

lemma vmm_unmap_ok:
  assumes wf: "vmm_wf st" and call: "st' = vmm_unmap virt st"
  shows "vmm_wf st' \<and> (vmm_get_phys w st' = (if same_page virt w \<and> \<not> huge_mapped virt st then 0 else vmm_get_phys w st))"
proof (cases "tab (vmem st) (vmm_current_pml4 st) virt 3")
  case None
  then have st': "st' = st" using call by (simp add: vmm_unmap_tab)
  have "vmm_get_phys w st = 0" if "same_page virt w" "\<not> huge_mapped virt st"
  proof -
    have p: "same_path 3 virt w" "same_path 2 virt w" and i: "pd_idx virt = pd_idx w"
      using that(1) same_path_le [of 4 virt w] same_path_simps(3) [of 2 virt w] by (auto simp: same_page_iff)
    then have t: "tab (vmem st) (vmm_current_pml4 st) w 3 = None"
      "tab (vmem st) (vmm_current_pml4 st) w 2 = tab (vmem st) (vmm_current_pml4 st) virt 2"
      using None tab_same_path by metis+
    show ?thesis
      using t i that(2) tab_levels(3) [of "vmem st" "vmm_current_pml4 st" virt] None
      by (auto simp: vmm_get_phys_def walk_tab huge_mapped_def huge_addr_def next_of_def
          simp flip: vmm_current_pml4_def split: option.splits if_splits)
  qed
  then show ?thesis using st' wf by simp
next
  case (Some pt)
  have nh: "\<not> huge_mapped virt st"
    using Some tab_levels(3) [of "vmem st" "vmm_current_pml4 st" virt]
    by (auto simp: huge_mapped_def next_of_def split: option.splits if_splits)
  have "vmem st' = pt_set pt (pt_idx virt) 0 (vmem st)" "frames st' = frames st" "cr3 st' = cr3 st"
    using call Some by (simp_all add: vmm_unmap_tab invlpg_def)
  from leaf_store [OF wf Some this] nh show ?thesis by (simp add: leaf_addr_def)
qed

section \<open>The shallow clone\<close>

lemma clone_slots:
  assumes "page_aligned new" and "page_aligned old" and "new \<noteq> old" and "page_aligned t" and "j < 512"
  shows "\<forall>x\<in>set xs. x < 512 \<Longrightarrow>
    pt_get (fold (\<lambda>i m. pt_set new i (pt_get m old i) m) xs m) t j =
    (if t = new \<and> j \<in> set xs then pt_get m old j else pt_get m t j)"
proof (induction xs arbitrary: m)
  case (Cons x xs)
  have "pt_get (pt_set new x (pt_get m old x) m) old j = pt_get m old j"
    using pt_get_set [OF assms(1,2) _ assms(5)] Cons.prems assms(3) by auto
  moreover have "pt_get (pt_set new x (pt_get m old x) m) t j =
      (if t = new \<and> j = x then pt_get m old x else pt_get m t j)"
    using pt_get_set [OF assms(1,4) _ assms(5)] Cons.prems by auto
  ultimately show ?case using Cons.IH [of "pt_set new x (pt_get m old x) m"] Cons.prems by auto
qed simp

lemma tab_mem_cong:
  assumes "\<And>w k t j. k \<le> 3 \<Longrightarrow> tab m r w k = Some t \<Longrightarrow> j < 512 \<Longrightarrow> pt_get m' t j = pt_get m t j"
  shows "k \<le> 3 \<Longrightarrow> tab m' r w k = tab m r w k"
proof (induction k)
  case (Suc k)
  then show ?case using assms [of k w] by (auto split: option.splits)
qed simp

lemma tab_root_cong:
  assumes "\<And>j. j < 512 \<Longrightarrow> pt_get m r' j = pt_get m r j"
  shows "tab m r' w (Suc k) = tab m r w (Suc k)"
  using assms by (induction k) (auto split: option.splits)

lemma clone_ok:
  assumes wf: "vmm_wf st" and call: "vmm_clone_pml4 st = (new, st')" and new: "new \<noteq> 0"
  shows "vmm_wf st' \<and> vmm_get_phys w st' = vmm_get_phys w st \<and> walk_from (vmem st') new w = vmm_get_phys w st \<and>
    new \<in> free_frames (frames st) \<and> new \<notin> free_frames (frames st')"
proof -
  let ?r = "vmm_current_pml4 st" and ?m = "vmem st" and ?m' = "vmem st'"
  have inv: "pmm_inv (frames st)" and pwf: "pt_wf ?m ?r"
    and used: "\<And>w k s. k \<le> 3 \<Longrightarrow> tab ?m ?r w k = Some s \<Longrightarrow> s \<notin> free_frames (frames st)"
    using wf by (auto simp: vmm_wf_def)
  have r: "page_aligned ?r" by (simp add: vmm_current_pml4_def)
  obtain fr' where al: "pmm_alloc_page (frames st) = (new, fr')"
    and st': "st' = st\<lparr>frames := fr', vmem := fold (\<lambda>i m. pt_set new i (pt_get m ?r i) m) slots ?m\<rparr>"
    using call new by (auto simp: vmm_clone_pml4_def Let_def vmm_current_pml4_def split: prod.splits if_splits)
  note fr = alloc_frame [OF inv al new]
  have nr: "new \<noteq> ?r" using used [of 0 0 ?r] fr(3) by auto
  have get: "pt_get ?m' t j = (if t = new then pt_get ?m ?r j else pt_get ?m t j)"
    if "page_aligned t" "j < 512" for t j
    using clone_slots [OF fr(1) r nr that, of slots ?m] that(2) by (simp add: st' set_slots)
  have keep: "pt_get ?m' t j = pt_get ?m t j" if "k \<le> 3" "tab ?m ?r w k = Some t" "j < 512" for w k t j
    using get [OF tab_aligned [OF r that(2)] that(3)] used [OF that(1,2)] fr(3) by auto
  have tabs: "tab ?m' ?r w k = tab ?m ?r w k" if "k \<le> 3" for w k
    by (rule tab_mem_cong [OF _ that]) (blast intro: keep)
  have "pt_wf ?m' ?r"
    using pwf keep [of 2] by (intro pt_wf_same [OF pwf tabs]) (auto simp: pt_wf_def)
  then have wf': "vmm_wf st'"
    using used tabs fr(4,5) by (auto simp: vmm_wf_def st' vmm_current_pml4_def)
  have same: "walk_from ?m' ?r w = walk_from ?m ?r w"
    using tabs keep [of 3 w] keep [of 2 w] by (intro walk_cong) auto
  have "pt_get ?m' new j = pt_get ?m' ?r j" if "j < 512" for j
    using get [OF fr(1) that] get [OF r that] nr by simp
  note rc = tab_root_cong [OF this, of w]
  have "walk_from ?m' new w = walk_from ?m' ?r w"
  proof -
    have "tab ?m' new w 3 = tab ?m' ?r w 3" using rc [of 2] by (simp del: tab.simps)
    moreover have "tab ?m' new w 2 = tab ?m' ?r w 2" using rc [of 1] by (simp add: numeral_2_eq_2 del: tab.simps)
    ultimately show ?thesis unfolding walk_tab by (simp only:)
  qed
  then show ?thesis
    using wf' same fr(3,4) by (simp add: vmm_get_phys_def vmm_current_pml4_def st')
qed

section \<open>Properties\<close>

definition demo_vmm :: vmm where
  "demo_vmm = \<lparr>vmem = (\<lambda>_. 0), cr3 = 0x100000, frames = demo_pmm, tlb = []\<rparr>"

lemma demo_ent: "pt_get (\<lambda>_. 0) t i = 0"
  by (simp add: pt_get_def rd64_def rd_bytes_def le_word_zero del: upt_Suc)

lemma demo_tab: "tab (\<lambda>_. 0) r v (Suc n) = None"
  by (induction n) (simp_all add: demo_ent next_of_def)

lemma demo_tab_Some: "tab (\<lambda>_. 0) r v n = Some t \<longleftrightarrow> n = 0 \<and> t = r"
  by (cases n) (auto simp: demo_tab simp del: tab.simps(2))

lemma demo_free: "card (free_frames demo_pmm) = 3"
  using card_free_pages [OF demo_pmm_inv] by (simp add: free_frames_def pmm_free_pages_def demo_pmm_def)

lemma demo_pages: "a \<in> free_frames demo_pmm \<Longrightarrow> unat a < 16384"
proof -
  assume "a \<in> free_frames demo_pmm"
  then obtain p :: u64 where p: "p < 4" "a = p * 4096"
    by (auto simp: free_frames_def pmm_pages_def page_addr_def PAGE_SIZE_def demo_pmm_def)
  then have "unat (p * 4096) = unat p * 4096" by (simp add: word_less_nat_alt unat_mult_small)
  then show ?thesis using p by (simp add: word_less_nat_alt)
qed

lemma demo_vmm_wf: "vmm_wf demo_vmm"
proof -
  have r: "vmm_current_pml4 demo_vmm = 0x100000" by (simp add: vmm_current_pml4_def demo_vmm_def ADDR_MASK_def)
  have "0x100000 \<notin> free_frames demo_pmm" using demo_pages [of "0x100000"] by auto
  then show ?thesis
    unfolding vmm_wf_def pt_wf_def r using demo_pmm_inv
    by (simp add: demo_vmm_def demo_tab_Some demo_tab page_aligned_def del: tab.simps(2))
qed

text \<open>The same with the first two megabytes mapped by a large page.\<close>

definition demo_huge :: vmm where
  "demo_huge = demo_vmm\<lparr>vmem := pt_set 0x102000 0 0x83 (pt_set 0x101000 0 0x102007
     (pt_set 0x100000 0 0x101007 (\<lambda>_. 0)))\<rparr>"

lemma demo_huge_get:
  assumes "page_aligned t" and "j < 512"
  shows "pt_get (vmem demo_huge) t j = (if t = 0x102000 \<and> j = 0 then 0x83
    else if t = 0x101000 \<and> j = 0 then 0x102007 else if t = 0x100000 \<and> j = 0 then 0x101007 else 0)"
proof -
  have al: "page_aligned 0x102000" "page_aligned 0x101000" "page_aligned 0x100000" by (simp_all add: page_aligned_def)
  have z: "(0 :: u64) < 512" by simp
  have "vmem demo_huge = pt_set 0x102000 0 0x83 (pt_set 0x101000 0 0x102007 (pt_set 0x100000 0 0x101007 (\<lambda>_. 0)))"
    by (simp add: demo_huge_def)
  then show ?thesis
    by (simp only: pt_get_set [OF al(1) assms(1) z assms(2)]
        pt_get_set [OF al(2) assms(1) z assms(2)] pt_get_set [OF al(3) assms(1) z assms(2)] demo_ent)
qed

lemma demo_huge_tab:
  "tab (vmem demo_huge) 0x100000 v 1 = (if pml4_idx v = 0 then Some 0x101000 else None)"
  "tab (vmem demo_huge) 0x100000 v 2 = (if pml4_idx v = 0 \<and> pdpt_idx v = 0 then Some 0x102000 else None)"
  "tab (vmem demo_huge) 0x100000 v 3 = None"
  by (simp_all add: tab_levels demo_huge_get page_aligned_def next_of_def ADDR_MASK_def bit_numeral_rec(1))

lemma demo_huge_tabs:
  "n \<le> 3 \<Longrightarrow> tab (vmem demo_huge) 0x100000 v n = Some t \<longleftrightarrow>
    n = 0 \<and> t = 0x100000 \<or> n = 1 \<and> pml4_idx v = 0 \<and> t = 0x101000 \<or>
    n = 2 \<and> pml4_idx v = 0 \<and> pdpt_idx v = 0 \<and> t = 0x102000"
proof -
  assume "n \<le> 3"
  then consider "n = 0" | "n = 1" | "n = 2" | "n = 3" by linarith
  then show ?thesis by cases (auto simp: demo_huge_tab simp del: tab.simps(2) One_nat_def)
qed

lemma same_path_2: "same_path 2 v w \<longleftrightarrow> pml4_idx v = pml4_idx w \<and> pdpt_idx v = pdpt_idx w"
  by (simp add: numeral_2_eq_2)

lemma demo_huge_wf: "vmm_wf demo_huge"
proof -
  have r: "vmm_current_pml4 demo_huge = 0x100000"
    by (simp add: vmm_current_pml4_def demo_huge_def demo_vmm_def ADDR_MASK_def)
  have f: "frames demo_huge = demo_pmm" by (simp add: demo_huge_def demo_vmm_def)
  have "t \<notin> free_frames demo_pmm" if "n \<le> 3" "tab (vmem demo_huge) 0x100000 v n = Some t" for v n t
    using demo_huge_tabs [OF that(1)] that(2) demo_pages [of t] by auto
  moreover have "tab (vmem demo_huge) 0x100000 v (Suc n) \<noteq> Some 0" if "n < 3" for v n
    using demo_huge_tabs [of "Suc n"] that by (auto simp del: tab.simps)
  moreover have "n = k \<and> same_path n v w" if "n \<le> 3" "k \<le> 3" "tab (vmem demo_huge) 0x100000 v n = Some t"
    "tab (vmem demo_huge) 0x100000 w k = Some t" for v w n k t
    using that demo_huge_tabs by (auto simp: same_path_2 simp del: tab.simps)
  moreover have "pd_ok (pt_get (vmem demo_huge) t (pd_idx v))" if "tab (vmem demo_huge) 0x100000 v 2 = Some t" for v t
    using that by (auto simp: demo_huge_tab demo_huge_get page_aligned_def pd_ok_def drop_bit_eq_div split: if_splits)
  ultimately show ?thesis
    unfolding vmm_wf_def pt_wf_def r f using demo_pmm_inv by (auto simp: page_aligned_def)
qed

text \<open>C1. \<open>vmm_map\<close> on well-formed page tables, with large pages split and missing tables
  created on the way: the tables stay a tree, and either exactly the addresses of the mapped
  4 KB page now translate to the requested frame while every other address translates as
  before and the TLB entry is dropped last, or (only with fewer than three free frames)
  no translation changes at all.\<close>

theorem vmm_map_correct:
  assumes "vmm_wf st" and "st' = vmm_map virt phys flags st"
  shows "vmm_wf st' \<and>
    ((\<exists>l. tlb st' = Invlpg virt # l) \<and> (\<forall>w. vmm_get_phys w st' =
        (if same_page virt w then (phys AND ADDR_MASK) + (w AND 0xFFF) else vmm_get_phys w st)) \<or>
     (\<forall>w. vmm_get_phys w st' = vmm_get_phys w st) \<and> card (free_frames (frames st)) < 3)"
  using vmm_map_ok [OF assms] by blast

theorem vmm_map_correct_witness:
  "vmm_get_phys 0x400123 (vmm_map 0x400000 0x7000 VMM_USER demo_vmm) = 0x7123"
  using vmm_map_correct [OF demo_vmm_wf refl, of "0x400000" "0x7000" VMM_USER] demo_free
  by (auto simp: same_page_def ADDR_MASK_def demo_vmm_def take_bit_eq_mod drop_bit_eq_div)

text \<open>\<open>vmm_unmap\<close> unmaps the 4 KB page of its argument and nothing else: every address of
  that page translates to 0 afterwards and all others as before; an address inside a large
  page is left alone, as the code's guard has it.\<close>

theorem vmm_unmap_correct:
  assumes "vmm_wf st"
  shows "vmm_wf (vmm_unmap virt st) \<and> vmm_get_phys w (vmm_unmap virt st) =
    (if same_page virt w \<and> \<not> huge_mapped virt st then 0 else vmm_get_phys w st)"
  using vmm_unmap_ok [OF assms refl] .

theorem vmm_unmap_correct_witness:
  "vmm_get_phys 0x400123 (vmm_unmap 0x400000 (vmm_map 0x400000 0x7000 VMM_USER demo_vmm)) = 0 \<or>
   huge_mapped 0x400000 (vmm_map 0x400000 0x7000 VMM_USER demo_vmm)"
  using vmm_unmap_correct [of "vmm_map 0x400000 0x7000 VMM_USER demo_vmm" "0x400000" "0x400123"]
    vmm_map_ok [OF demo_vmm_wf refl, of "0x400000" "0x7000" VMM_USER]
  by (auto simp: same_page_def take_bit_eq_mod drop_bit_eq_div)

text \<open>\<open>split_huge_pd\<close> changes no translation: the 512 small pages it writes map each
  address where the large page mapped it, and afterwards the entry is not a large page; it
  fails only without a free frame.\<close>

theorem split_huge_pd_keeps:
  assumes "vmm_wf st" and "tab (vmem st) (vmm_current_pml4 st) v 2 = Some pd"
    and "split_huge_pd pd (pd_idx v) st = (ok, st')"
  shows "vmm_wf st' \<and> (\<forall>w. vmm_get_phys w st' = vmm_get_phys w st) \<and>
    (if ok then pt_get (vmem st') pd (pd_idx v) AND VMM_HUGE = 0 else free_frames (frames st) = {})"
  using split_huge_ok [OF assms] by (simp add: huge_bit)

theorem split_huge_pd_keeps_witness:
  "vmm_get_phys 0x1234 (snd (split_huge_pd 0x102000 0 demo_huge)) = 0x1234"
proof -
  have r: "vmm_current_pml4 demo_huge = 0x100000"
    by (simp add: vmm_current_pml4_def demo_huge_def demo_vmm_def ADDR_MASK_def)
  have t: "tab (vmem demo_huge) (vmm_current_pml4 demo_huge) 0x1234 2 = Some 0x102000"
    by (simp add: r demo_huge_tab pml4_idx_def pdpt_idx_def drop_bit_eq_div)
  have i: "pd_idx 0x1234 = 0" by (simp add: pd_idx_def drop_bit_eq_div)
  have "vmm_get_phys 0x1234 demo_huge = 0x1234"
    by (simp add: vmm_get_phys_def walk_tab demo_huge_tab r [unfolded vmm_current_pml4_def] i demo_huge_get
        page_aligned_def huge_addr_def pml4_idx_def pdpt_idx_def drop_bit_eq_div)
  then show ?thesis
    using split_huge_pd_keeps [OF demo_huge_wf t, of "fst (split_huge_pd 0x102000 0 demo_huge)"
        "snd (split_huge_pd 0x102000 0 demo_huge)"] i by simp
qed

text \<open>The shallow clone: when \<open>vmm_clone_pml4\<close> succeeds, walking from the new PML4
  translates every address as the current address space does, which itself is unchanged; the
  new table is a frame that was free and is free no more.\<close>

theorem vmm_clone_pml4_correct:
  assumes "vmm_wf st" and "vmm_clone_pml4 st = (new, st')" and "new \<noteq> 0"
  shows "vmm_wf st' \<and> vmm_get_phys w st' = vmm_get_phys w st \<and> walk_from (vmem st') new w = vmm_get_phys w st \<and>
    new \<in> free_frames (frames st) \<and> new \<notin> free_frames (frames st')"
  by (rule clone_ok [OF assms])

theorem vmm_clone_pml4_correct_witness:
  "\<exists>new st'. vmm_clone_pml4 demo_huge = (new, st') \<and> new \<noteq> 0 \<and>
    walk_from (vmem st') new 0x1234 = vmm_get_phys 0x1234 demo_huge"
proof -
  obtain new st' where c: "vmm_clone_pml4 demo_huge = (new, st')" by fastforce
  have "free_frames demo_pmm \<noteq> {}" using demo_free by auto
  then have "new \<noteq> 0" using c alloc_none(2) [OF demo_pmm_inv]
    by (auto simp: vmm_clone_pml4_def demo_huge_def demo_vmm_def Let_def split: prod.splits if_splits)
  with c vmm_clone_pml4_correct [OF demo_huge_wf c] show ?thesis by blast
qed

end
