(* ===== verification/Fifo_Spec.thy ===== *)
theory Fifo_Spec
  imports Main
begin

text \<open>
  The contract of a first-in first-out queue.  The kernel has two implementations: the wait
  queues of tasks, linked through the control blocks, and the ring buffer of the keyboard.
  \<open>rep s q\<close> relates the concrete state to the list of queued elements, oldest first.
\<close>

primrec get_n :: "('s \<Rightarrow> 'a option \<times> 's) \<Rightarrow> nat \<Rightarrow> 's \<Rightarrow> 'a list \<times> 's" where
  "get_n g 0 s = ([], s)"
| "get_n g (Suc n) s =
     (case g s of
        (None, s') \<Rightarrow> ([], s')
      | (Some x, s') \<Rightarrow> (case get_n g n s' of (xs, s'') \<Rightarrow> (x # xs, s'')))"

locale fifo =
  fixes rep :: "'s \<Rightarrow> 'a list \<Rightarrow> bool"
    and can_put :: "'a \<Rightarrow> 's \<Rightarrow> 'a list \<Rightarrow> bool"
    and put :: "'a \<Rightarrow> 's \<Rightarrow> 's"
    and get :: "'s \<Rightarrow> 'a option \<times> 's"
  assumes put_rep: "rep s q \<Longrightarrow> can_put x s q \<Longrightarrow> rep (put x s) (q @ [x])"
    and get_empty: "rep s [] \<Longrightarrow> get s = (None, s)"
    and get_rep: "rep s (x # q) \<Longrightarrow> \<exists>s'. get s = (Some x, s') \<and> rep s' q"
begin

lemma get_n_rep: "rep s q \<Longrightarrow> \<exists>s'. get_n get n s = (take n q, s') \<and> rep s' (drop n q)"
proof (induction n arbitrary: s q)
  case (Suc n)
  show ?case
  proof (cases q)
    case Nil
    then show ?thesis using Suc.prems get_empty [of s] by simp
  next
    case (Cons x q')
    then obtain s1 where g: "get s = (Some x, s1)" "rep s1 q'" using get_rep [of s x q'] Suc.prems by blast
    from Suc.IH [OF g(2)] g(1) Cons show ?thesis by auto
  qed
qed simp

text \<open>A queued element comes out after exactly the elements that were there before it.\<close>

lemma put_then_get:
  assumes "rep s q" and "can_put x s q"
  shows "\<exists>s'. get_n get (Suc (length q)) (put x s) = (q @ [x], s') \<and> rep s' []"
  using get_n_rep [OF put_rep [OF assms], of "Suc (length q)"] by simp

end

end
