(* ===== verification/Task.thy ===== *)
theory Task
  imports Kheap Vmm Fifo_Spec
begin

text \<open>
  The scheduler, \<open>kernel/task/task.c\<close>: task control blocks linked in a ring, round-robin
  selection, wait queues linked through the control blocks, the table of sleepers and
  \<open>fork\<close>.  Control blocks are held in a store \<open>tcb\<close> indexed by their address.  The
  assembly routine \<open>task_switch\<close> is modelled by its effect on the stack pointers:
  \<open>cpu_rsp\<close> is the stack pointer once the callee-saved registers are pushed.  Walks of the
  ring are \<open>option\<close> valued, \<open>None\<close> being a walk that never ends.
\<close>

section \<open>State\<close>

definition TASK_STACK_SIZE :: u64 where "TASK_STACK_SIZE = 8 * 1024"
definition TIMESLICE :: u32 where "TIMESLICE = 5"
definition MAX_SLEEPERS :: nat where "MAX_SLEEPERS = 32"

text \<open>\<open>sizeof(task_t)\<close> on x86-64.\<close>

definition TASK_SIZE :: u64 where "TASK_SIZE = 120"

datatype task_state = TASK_READY | TASK_RUNNING | TASK_BLOCKED | TASK_DEAD

instantiation task_state :: linorder
begin

fun state_code :: "task_state \<Rightarrow> nat" where
  "state_code TASK_READY = 0"
| "state_code TASK_RUNNING = 1"
| "state_code TASK_BLOCKED = 2"
| "state_code TASK_DEAD = 3"

definition less_eq_task_state :: "task_state \<Rightarrow> task_state \<Rightarrow> bool" where
  "less_eq_task_state a b \<longleftrightarrow> state_code a \<le> state_code b"

definition less_task_state :: "task_state \<Rightarrow> task_state \<Rightarrow> bool" where
  "less_task_state a b \<longleftrightarrow> state_code a < state_code b"

instance
proof
  fix x y z :: task_state
  show "(x < y) = (x \<le> y \<and> \<not> y \<le> x)" by (auto simp: less_eq_task_state_def less_task_state_def)
  show "x \<le> x" by (simp add: less_eq_task_state_def)
  show "x \<le> y \<Longrightarrow> y \<le> z \<Longrightarrow> x \<le> z" by (simp add: less_eq_task_state_def)
  show "x \<le> y \<Longrightarrow> y \<le> x \<Longrightarrow> x = y" by (cases x; cases y) (simp_all add: less_eq_task_state_def)
  show "x \<le> y \<or> y \<le> x" by (auto simp: less_eq_task_state_def)
qed

end

record task =
  t_rsp :: u64
  t_stack_base :: u64
  t_stack_size :: u64
  t_kernel_stack_top :: u64
  t_saved_user_rsp :: u64
  t_pml4_phys :: u64
  t_id :: u32
  t_state :: task_state
  t_name :: string
  t_next :: u64
  t_wq_next :: u64
  t_parent :: u64
  t_stdin_node :: u64
  t_stdout_node :: u64
  t_stdin_pos :: u64
  t_stdout_pos :: u64

record wait_queue =
  wq_head :: u64
  wq_tail :: u64

record sleeper =
  sl_task :: u64
  sl_wake_at :: u64
  sl_used :: bool

record sched =
  tcb :: "u64 \<Rightarrow> task"
  current :: u64
  next_id :: u32
  tick_in_slice :: u32
  sleepers :: "sleeper list"
  global_tick :: u64
  child_alive :: int
  foreground :: u64
  child_exit_wq :: wait_queue
  kernel_rsp :: u64
  saved_user_rsp :: u64
  syscall_user_rcx :: u64
  tss_rsp0 :: u64
  cpu_rsp :: u64
  s_heap :: kheap
  s_vmm :: vmm

definition upd_task :: "u64 \<Rightarrow> (task \<Rightarrow> task) \<Rightarrow> sched \<Rightarrow> sched" where
  "upd_task p f st = st\<lparr>tcb := (tcb st)(p := f (tcb st p))\<rparr>"

section \<open>Creation\<close>

definition wait_queue_init :: wait_queue where
  "wait_queue_init = \<lparr>wq_head = 0, wq_tail = 0\<rparr>"

definition task_init :: "sched \<Rightarrow> sched option" where
  "task_init st = do {
     (p, h) \<leftarrow> kmalloc TASK_SIZE (s_heap st);
     Some (upd_task p (\<lambda>t. t\<lparr>t_stdin_node := 0, t_stdout_node := 0, t_stdin_pos := 0, t_stdout_pos := 0,
         t_rsp := 0, t_stack_base := 0, t_stack_size := 0, t_kernel_stack_top := 0, t_saved_user_rsp := 0,
         t_pml4_phys := 0, t_id := 0, t_state := TASK_RUNNING, t_name := ''kmain'', t_next := p,
         t_wq_next := 0, t_parent := 0\<rparr>)
       (st\<lparr>sleepers := map (\<lambda>s. s\<lparr>sl_used := False\<rparr>) (sleepers st), global_tick := 0, current := p,
          child_exit_wq := wait_queue_init, s_heap := h\<rparr>))
   }"

text \<open>\<open>*--sp = v\<close> for each value in turn, on a stack in heap memory.\<close>

fun push_all :: "u64 list \<Rightarrow> u64 \<Rightarrow> mem \<Rightarrow> u64 \<times> mem" where
  "push_all [] sp m = (sp, m)"
| "push_all (v # vs) sp m = push_all vs (sp - 8) (wr64 m (sp - 8) v)"

text \<open>\<open>t->next = current->next; current->next = t;\<close>\<close>

definition link_task :: "u64 \<Rightarrow> sched \<Rightarrow> sched" where
  "link_task t st = upd_task (current st) (\<lambda>b. b\<lparr>t_next := t\<rparr>)
     (upd_task t (\<lambda>b. b\<lparr>t_next := t_next (tcb st (current st))\<rparr>) st)"

definition task_create :: "string \<Rightarrow> u64 \<Rightarrow> sched \<Rightarrow> (u64 \<times> sched) option" where
  "task_create name entry st = do {
     (t, h) \<leftarrow> kmalloc TASK_SIZE (s_heap st);
     (base, h) \<leftarrow> kmalloc TASK_STACK_SIZE h;
     let stack_top = (base + TASK_STACK_SIZE) AND NOT 0xF;
         (sp, m) = push_all [0, entry, 0x202, 0, 0, 0, 0, 0, 0] stack_top (hmem h);
         st1 = upd_task t (\<lambda>b. b\<lparr>t_stack_base := base, t_stack_size := TASK_STACK_SIZE, t_id := next_id st,
             t_state := TASK_READY, t_name := name, t_wq_next := 0, t_parent := 0, t_saved_user_rsp := 0,
             t_pml4_phys := 0, t_rsp := sp, t_kernel_stack_top := base + TASK_STACK_SIZE\<rparr>)
           (st\<lparr>s_heap := h\<lparr>hmem := m\<rparr>, next_id := next_id st + 1\<rparr>)
     in Some (t, link_task t st1)
   }"

section \<open>Scheduling\<close>

text \<open>The \<open>do ... while\<close> loop of \<open>schedule\<close>.\<close>

partial_function (option) find_ready :: "(u64 \<Rightarrow> task) \<Rightarrow> u64 \<Rightarrow> u64 \<Rightarrow> u64 option" where
  "find_ready T cur n =
     (let n' = t_next (T n) in
      if t_state (T n') = TASK_READY then Some n'
      else if n' \<noteq> cur then find_ready T cur n'
      else Some n')"

definition task_switch :: "u64 \<Rightarrow> u64 \<Rightarrow> sched \<Rightarrow> sched" where
  "task_switch prev new_rsp st = (upd_task prev (\<lambda>t. t\<lparr>t_rsp := cpu_rsp st\<rparr>) st)\<lparr>cpu_rsp := new_rsp\<rparr>"

text \<open>The statements of \<open>schedule\<close> after the loop, in order.\<close>

definition demote :: "u64 \<Rightarrow> sched \<Rightarrow> sched" where
  "demote prev st = (if t_state (tcb st prev) = TASK_RUNNING
     then upd_task prev (\<lambda>t. t\<lparr>t_state := TASK_READY\<rparr>) st else st)"

definition load_kernel_stack :: "u64 \<Rightarrow> sched \<Rightarrow> sched" where
  "load_kernel_stack nxt st = (if t_kernel_stack_top (tcb st nxt) \<noteq> 0
     then st\<lparr>tss_rsp0 := t_kernel_stack_top (tcb st nxt), kernel_rsp := t_kernel_stack_top (tcb st nxt)\<rparr>
     else st)"

definition load_cr3 :: "u64 \<Rightarrow> sched \<Rightarrow> sched" where
  "load_cr3 nxt st = (if t_pml4_phys (tcb st nxt) \<noteq> 0
     then st\<lparr>s_vmm := (s_vmm st)\<lparr>cr3 := t_pml4_phys (tcb st nxt)\<rparr>\<rparr> else st)"

definition switch_to :: "u64 \<Rightarrow> sched \<Rightarrow> sched" where
  "switch_to nxt st =
     (let prev = current st;
          st = demote prev st;
          st = (upd_task nxt (\<lambda>t. t\<lparr>t_state := TASK_RUNNING\<rparr>) st)\<lparr>current := nxt\<rparr>;
          st = load_kernel_stack nxt st;
          st = upd_task prev (\<lambda>t. t\<lparr>t_saved_user_rsp := saved_user_rsp st\<rparr>) st;
          st = st\<lparr>saved_user_rsp := t_saved_user_rsp (tcb st nxt)\<rparr>;
          st = load_cr3 nxt st
      in task_switch prev (t_rsp (tcb st nxt)) st)"

definition schedule :: "sched \<Rightarrow> sched option" where
  "schedule st =
     (if current st = 0 then Some st
      else do {
        n \<leftarrow> find_ready (tcb st) (current st) (current st);
        Some (if n = current st then st else switch_to n st)
      })"

definition wake_sleeper :: "nat \<Rightarrow> sched \<Rightarrow> sched" where
  "wake_sleeper i st =
     (let s = sleepers st ! i in
      if sl_used s \<and> sl_wake_at s \<le> global_tick st then
        (let st = (if t_state (tcb st (sl_task s)) = TASK_BLOCKED
                   then upd_task (sl_task s) (\<lambda>t. t\<lparr>t_state := TASK_READY\<rparr>) st else st)
         in st\<lparr>sleepers := (sleepers st)[i := s\<lparr>sl_used := False\<rparr>]\<rparr>)
      else st)"

definition scheduler_tick :: "sched \<Rightarrow> sched option" where
  "scheduler_tick st =
     (let st = st\<lparr>global_tick := global_tick st + 1\<rparr>;
          st = fold wake_sleeper [0..<MAX_SLEEPERS] st;
          st = st\<lparr>tick_in_slice := tick_in_slice st + 1\<rparr>
      in if TIMESLICE \<le> tick_in_slice st then schedule (st\<lparr>tick_in_slice := 0\<rparr>) else Some st)"

section \<open>Wait queues\<close>

text \<open>The queue part of \<open>task_block\<close>, before it calls \<open>schedule\<close>.\<close>

definition wq_enqueue :: "wait_queue \<Rightarrow> sched \<Rightarrow> wait_queue \<times> sched" where
  "wq_enqueue wq st =
     (let cur = current st;
          st = upd_task cur (\<lambda>t. t\<lparr>t_state := TASK_BLOCKED, t_wq_next := 0\<rparr>) st
      in if wq_tail wq \<noteq> 0
         then (wq\<lparr>wq_tail := cur\<rparr>, upd_task (wq_tail wq) (\<lambda>t. t\<lparr>t_wq_next := cur\<rparr>) st)
         else (wq\<lparr>wq_head := cur, wq_tail := cur\<rparr>, st))"

definition task_block :: "wait_queue \<Rightarrow> sched \<Rightarrow> (wait_queue \<times> sched) option" where
  "task_block wq st =
     (if current st = 0 then Some (wq, st)
      else
        (let (wq', st') = wq_enqueue wq st
         in map_option (Pair wq') (schedule st')))"

definition wait_queue_wake_one :: "wait_queue \<Rightarrow> sched \<Rightarrow> wait_queue \<times> sched" where
  "wait_queue_wake_one wq st =
     (if wq_head wq = 0 then (wq, st)
      else
        (let t = wq_head wq;
             wq1 = wq\<lparr>wq_head := t_wq_next (tcb st t)\<rparr>;
             wq2 = (if wq_head wq1 = 0 then wq1\<lparr>wq_tail := 0\<rparr> else wq1);
             st1 = upd_task t (\<lambda>b. b\<lparr>t_wq_next := 0\<rparr>) st;
             st2 = (if t_state (tcb st1 t) = TASK_BLOCKED
                    then upd_task t (\<lambda>b. b\<lparr>t_state := TASK_READY\<rparr>) st1 else st1)
         in (wq2, st2)))"

partial_function (option) wait_queue_wake_all :: "wait_queue \<Rightarrow> sched \<Rightarrow> (wait_queue \<times> sched) option" where
  "wait_queue_wake_all wq st =
     (if wq_head wq = 0 then Some (wq, st)
      else (case wait_queue_wake_one wq st of (wq', st') \<Rightarrow> wait_queue_wake_all wq' st'))"

definition task_wait_child :: "sched \<Rightarrow> sched option" where
  "task_wait_child st =
     (if current st = 0 then Some st
      else
        (let (wq', st') = wq_enqueue (child_exit_wq st) st
         in schedule (st'\<lparr>child_exit_wq := wq'\<rparr>)))"

definition task_signal_child_exit :: "sched \<Rightarrow> sched option" where
  "task_signal_child_exit st =
     map_option (\<lambda>(wq, st'). st'\<lparr>child_exit_wq := wq\<rparr>) (wait_queue_wake_all (child_exit_wq st) st)"

section \<open>Sleeping\<close>

definition free_slot :: "sleeper list \<Rightarrow> nat option" where
  "free_slot ss = find (\<lambda>i. \<not> sl_used (ss ! i)) [0..<MAX_SLEEPERS]"

definition task_sleep :: "u64 \<Rightarrow> sched \<Rightarrow> sched option" where
  "task_sleep ms st =
     (let ticks = (ms + 9) div 10;
          ticks = (if ticks = 0 then 1 else ticks) in
      case free_slot (sleepers st) of
        None \<Rightarrow> Some st
      | Some i \<Rightarrow>
          schedule (upd_task (current st) (\<lambda>t. t\<lparr>t_state := TASK_BLOCKED\<rparr>)
            (st\<lparr>sleepers := (sleepers st)[i :=
               \<lparr>sl_task = current st, sl_wake_at = global_tick st + ticks, sl_used = True\<rparr>]\<rparr>)))"

section \<open>Fork, kill and information\<close>

text \<open>\<open>entry\<close> is the address of the assembly label \<open>fork_child_entry\<close>; the result is the C return value.\<close>

definition task_fork :: "fb_info \<Rightarrow> u64 \<Rightarrow> sched \<Rightarrow> (int \<times> sched) option" where
  "task_fork fbi entry st = do {
     (c, h) \<leftarrow> kmalloc TASK_SIZE (s_heap st);
     if c = 0 then Some (-1, st\<lparr>s_heap := h\<rparr>)
     else
       (let (pml4, v) = vmm_clone_pml4_deep fbi (vmm_current_pml4 (s_vmm st)) (s_vmm st) in
        if pml4 = 0 then map_option (\<lambda>h'. (-1, st\<lparr>s_heap := h', s_vmm := v\<rparr>)) (kfree c h)
        else do {
          (base, h) \<leftarrow> kmalloc TASK_STACK_SIZE h;
          let parent = tcb st (current st);
              top = (base + TASK_STACK_SIZE) AND NOT 0xF;
              (sp, m) = push_all [entry, 0x202, 0, 0, 0, 0, saved_user_rsp st, syscall_user_rcx st] top (hmem h);
              st1 = upd_task c (\<lambda>b. b\<lparr>t_stdin_node := t_stdin_node parent, t_stdout_node := t_stdout_node parent,
                  t_stdin_pos := t_stdin_pos parent, t_stdout_pos := t_stdout_pos parent, t_stack_base := base,
                  t_stack_size := TASK_STACK_SIZE, t_kernel_stack_top := base + TASK_STACK_SIZE,
                  t_pml4_phys := pml4, t_saved_user_rsp := saved_user_rsp st, t_id := next_id st,
                  t_state := TASK_READY, t_name := ''child'', t_next := 0, t_wq_next := 0,
                  t_parent := current st, t_rsp := sp\<rparr>)
                (st\<lparr>s_heap := h\<lparr>hmem := m\<rparr>, s_vmm := v, next_id := next_id st + 1\<rparr>);
              st2 = link_task c st1
          in Some (sint (t_id (tcb st2 c)), st2)
        })
   }"

definition task_current_id :: "sched \<Rightarrow> int" where
  "task_current_id st = (if current st \<noteq> 0 then sint (t_id (tcb st (current st))) else -1)"

definition task_set_foreground :: "u64 \<Rightarrow> sched \<Rightarrow> sched" where
  "task_set_foreground t st = st\<lparr>foreground := t\<rparr>"

definition task_child_inc :: "sched \<Rightarrow> sched" where
  "task_child_inc st = st\<lparr>child_alive := child_alive st + 1\<rparr>"

definition task_child_dec :: "sched \<Rightarrow> sched" where
  "task_child_dec st = (if 0 < child_alive st then st\<lparr>child_alive := child_alive st - 1\<rparr> else st)"

partial_function (option) kill_others :: "u64 \<Rightarrow> u64 \<Rightarrow> sched \<Rightarrow> sched option" where
  "kill_others cur t st =
     (if t \<noteq> 0 \<and> t \<noteq> cur then
        (let st' = (if t_id (tcb st t) \<noteq> 0 then upd_task t (\<lambda>b. b\<lparr>t_state := TASK_DEAD\<rparr>) st else st)
         in kill_others cur (t_next (tcb st' t)) st')
      else Some st)"

definition task_kill_all_children :: "sched \<Rightarrow> sched option" where
  "task_kill_all_children st =
     (if current st = 0 then Some st else kill_others (current st) (t_next (tcb st (current st))) st)"

partial_function (option) find_by_id :: "(u64 \<Rightarrow> task) \<Rightarrow> u32 \<Rightarrow> u64 \<Rightarrow> u64 \<Rightarrow> u64 option" where
  "find_by_id T i cur t =
     (if t_id (T t) = i then Some t
      else (let t' = t_next (T t) in if t' \<noteq> 0 \<and> t' \<noteq> cur then find_by_id T i cur t' else Some 0))"

definition task_kill_by_id :: "int \<Rightarrow> sched \<Rightarrow> (int \<times> sched) option" where
  "task_kill_by_id i st =
     (if current st = 0 \<or> i = 0 then Some (-1, st)
      else do {
        t \<leftarrow> find_by_id (tcb st) (word_of_int i) (current st) (current st);
        Some (if t = 0 then (-1, st) else (0, upd_task t (\<lambda>b. b\<lparr>t_state := TASK_DEAD\<rparr>) st))
      })"

text \<open>The digit loop and the line of one task in \<open>task_list_info\<close>.\<close>

fun rev_digits :: "nat \<Rightarrow> string" where
  "rev_digits n = (if n = 0 then [] else char_of (48 + n mod 10) # rev_digits (n div 10))"

definition state_name :: "task_state \<Rightarrow> string" where
  "state_name s = [''READY'', ''RUNNING'', ''BLOCKED'', ''DEAD''] ! state_code s"

definition id_text :: "u32 \<Rightarrow> string" where
  "id_text i = (if sint i = 0 then ''0'' else rev (rev_digits (nat (sint i))))"

definition task_line :: "task \<Rightarrow> string" where
  "task_line t =
     (let l1 = ''['' @ id_text (t_id t) @ ''] '';
          l2 = l1 @ take (40 - length l1) (t_name t) @ '' '';
          l3 = l2 @ take (60 - length l2) (state_name (t_state t))
      in l3 @ [CHR 0x0A])"

partial_function (option) list_info_loop :: "(u64 \<Rightarrow> task) \<Rightarrow> u64 \<Rightarrow> int \<Rightarrow> u64 \<Rightarrow> string \<Rightarrow> string option" where
  "list_info_loop T cur mx t buf =
     (let line = task_line (T t) in
      if mx < int (length buf + length line) then Some buf
      else
        (let buf' = buf @ line; t' = t_next (T t) in
         if t' \<noteq> 0 \<and> t' \<noteq> cur then list_info_loop T cur mx t' buf' else Some buf'))"

text \<open>The text written to the buffer; its length is the C return value.\<close>

definition task_list_info :: "int \<Rightarrow> sched \<Rightarrow> string option" where
  "task_list_info mx st =
     (if current st = 0 then Some [] else list_info_loop (tcb st) (current st) mx (current st) [])"

section \<open>The ring of tasks\<close>

text \<open>\<open>path T a xs b\<close>: following \<open>next\<close> from \<open>a\<close> visits \<open>xs\<close> and then reaches \<open>b\<close>.\<close>

fun path :: "(u64 \<Rightarrow> task) \<Rightarrow> u64 \<Rightarrow> u64 list \<Rightarrow> u64 \<Rightarrow> bool" where
  "path T a [] b \<longleftrightarrow> t_next (T a) = b"
| "path T a (x # xs) b \<longleftrightarrow> t_next (T a) = x \<and> path T x xs b"

text \<open>The ring seen from the current task: the other tasks in the order they are visited.\<close>

definition ring :: "sched \<Rightarrow> u64 list \<Rightarrow> bool" where
  "ring st xs \<longleftrightarrow> path (tcb st) (current st) xs (current st) \<and> distinct (current st # xs) \<and> 0 \<notin> set (current st # xs)"

definition ready :: "sched \<Rightarrow> u64 \<Rightarrow> bool" where
  "ready st t \<longleftrightarrow> t_state (tcb st t) = TASK_READY"

lemma path_append: "path T a (xs @ x # ys) b \<longleftrightarrow> path T a xs x \<and> path T x ys b"
  by (induction xs arbitrary: a) auto

lemma path_cong: "(\<And>x. x \<in> set (a # xs) \<Longrightarrow> t_next (T x) = t_next (T' x)) \<Longrightarrow> path T a xs b = path T' a xs b"
  by (induction xs arbitrary: a) auto

lemma find_split:
  "find P xs = Some x \<Longrightarrow> \<exists>pre post. xs = pre @ x # post \<and> (\<forall>y\<in>set pre. \<not> P y) \<and> P x"
proof (induction xs)
  case (Cons a xs)
  show ?case
  proof (cases "P a")
    case True
    then show ?thesis using Cons.prems by (intro exI [of _ "[]"] exI [of _ xs]) auto
  next
    case False
    then obtain pre post where "xs = pre @ x # post \<and> (\<forall>y\<in>set pre. \<not> P y) \<and> P x" using Cons by auto
    then show ?thesis using False by (intro exI [of _ "a # pre"] exI [of _ post]) auto
  qed
qed simp

lemma find_ready_path:
  assumes "path T a xs c" and "c \<notin> set xs"
  shows "find_ready T c a = Some (case find (\<lambda>x. t_state (T x) = TASK_READY) xs of None \<Rightarrow> c | Some x \<Rightarrow> x)"
  using assms
proof (induction xs arbitrary: a)
  case Nil
  then show ?case by (simp add: find_ready.simps)
next
  case (Cons x xs)
  have "find_ready T c x = Some (case find (\<lambda>x. t_state (T x) = TASK_READY) xs of None \<Rightarrow> c | Some x \<Rightarrow> x)"
    using Cons by simp
  then show ?case using Cons.prems by (auto simp: find_ready.simps [of T c a])
qed

lemma schedule_ring:
  assumes "ring st xs"
  shows "schedule st = Some (case find (ready st) xs of None \<Rightarrow> st | Some x \<Rightarrow> switch_to x st)"
proof -
  have p: "path (tcb st) (current st) xs (current st)" and c: "current st \<notin> set xs" "current st \<noteq> 0"
    using assms by (auto simp: ring_def)
  have "find_ready (tcb st) (current st) (current st) =
      Some (case find (ready st) xs of None \<Rightarrow> current st | Some x \<Rightarrow> x)"
    using find_ready_path [OF p c(1)] by (simp add: ready_def [abs_def])
  moreover have "x \<noteq> current st" if "find (ready st) xs = Some x" for x
    using find_split [OF that] c by auto
  ultimately show ?thesis using c by (auto simp: schedule_def split: option.splits)
qed

text \<open>What a context switch to another task changes.\<close>

lemma demote_simps [simp]:
  "tcb (demote p st) = (tcb st)(p := (tcb st p)\<lparr>t_state := (if t_state (tcb st p) = TASK_RUNNING then TASK_READY else t_state (tcb st p))\<rparr>)"
  "saved_user_rsp (demote p st) = saved_user_rsp st" "cpu_rsp (demote p st) = cpu_rsp st" "s_vmm (demote p st) = s_vmm st"
  "sleepers (demote p st) = sleepers st" "global_tick (demote p st) = global_tick st" "s_heap (demote p st) = s_heap st"
  "child_exit_wq (demote p st) = child_exit_wq st"
  by (simp_all add: demote_def upd_task_def)

lemma load_simps [simp]:
  "tcb (load_kernel_stack n st) = tcb st" "current (load_kernel_stack n st) = current st"
  "saved_user_rsp (load_kernel_stack n st) = saved_user_rsp st" "cpu_rsp (load_kernel_stack n st) = cpu_rsp st"
  "s_vmm (load_kernel_stack n st) = s_vmm st" "sleepers (load_kernel_stack n st) = sleepers st"
  "global_tick (load_kernel_stack n st) = global_tick st" "s_heap (load_kernel_stack n st) = s_heap st"
  "child_exit_wq (load_kernel_stack n st) = child_exit_wq st"
  "tcb (load_cr3 n st) = tcb st" "current (load_cr3 n st) = current st"
  "saved_user_rsp (load_cr3 n st) = saved_user_rsp st" "cpu_rsp (load_cr3 n st) = cpu_rsp st"
  "sleepers (load_cr3 n st) = sleepers st" "global_tick (load_cr3 n st) = global_tick st"
  "s_heap (load_cr3 n st) = s_heap st" "child_exit_wq (load_cr3 n st) = child_exit_wq st"
  "cr3 (s_vmm (load_cr3 n st)) = (if t_pml4_phys (tcb st n) \<noteq> 0 then t_pml4_phys (tcb st n) else cr3 (s_vmm st))"
  by (simp_all add: load_kernel_stack_def load_cr3_def)

lemmas switch_defs = switch_to_def upd_task_def task_switch_def Let_def

lemma switch_to_other:
  assumes "x \<noteq> current st" and "st' = switch_to x st"
  shows "current st' = x"
    and "tcb st' x = (tcb st x)\<lparr>t_state := TASK_RUNNING\<rparr>"
    and "tcb st' (current st) = (tcb st (current st))\<lparr>
        t_state := (if t_state (tcb st (current st)) = TASK_RUNNING then TASK_READY else t_state (tcb st (current st))),
        t_saved_user_rsp := saved_user_rsp st, t_rsp := cpu_rsp st\<rparr>"
    and "y \<noteq> x \<Longrightarrow> y \<noteq> current st \<Longrightarrow> tcb st' y = tcb st y"
    and "saved_user_rsp st' = t_saved_user_rsp (tcb st x)" and "cpu_rsp st' = t_rsp (tcb st x)"
    and "cr3 (s_vmm st') = (if t_pml4_phys (tcb st x) \<noteq> 0 then t_pml4_phys (tcb st x) else cr3 (s_vmm st))"
    and "sleepers st' = sleepers st" and "global_tick st' = global_tick st" and "s_heap st' = s_heap st"
    and "child_exit_wq st' = child_exit_wq st"
  using assms(1) by (simp_all add: assms(2) switch_defs)

text \<open>The whole state after a switch.\<close>

lemma switch_to_state:
  assumes "x \<noteq> current st"
  shows "switch_to x st = st\<lparr>
    tcb := (tcb st)(x := (tcb st x)\<lparr>t_state := TASK_RUNNING\<rparr>,
      current st := (tcb st (current st))\<lparr>
        t_state := (if t_state (tcb st (current st)) = TASK_RUNNING then TASK_READY else t_state (tcb st (current st))),
        t_saved_user_rsp := saved_user_rsp st, t_rsp := cpu_rsp st\<rparr>),
    current := x,
    tss_rsp0 := (if t_kernel_stack_top (tcb st x) \<noteq> 0 then t_kernel_stack_top (tcb st x) else tss_rsp0 st),
    kernel_rsp := (if t_kernel_stack_top (tcb st x) \<noteq> 0 then t_kernel_stack_top (tcb st x) else kernel_rsp st),
    saved_user_rsp := t_saved_user_rsp (tcb st x), cpu_rsp := t_rsp (tcb st x),
    s_vmm := (if t_pml4_phys (tcb st x) \<noteq> 0 then (s_vmm st)\<lparr>cr3 := t_pml4_phys (tcb st x)\<rparr> else s_vmm st)\<rparr>"
  using assms by (cases "t_kernel_stack_top (tcb st x) \<noteq> 0"; cases "t_pml4_phys (tcb st x) \<noteq> 0")
    (simp_all add: switch_defs demote_def load_kernel_stack_def load_cr3_def fun_upd_twist)

lemma switch_to_next: "t_next (tcb (switch_to x st) y) = t_next (tcb st y)"
  by (simp add: switch_defs)

lemma switch_to_wq_next: "t_wq_next (tcb (switch_to x st) y) = t_wq_next (tcb st y)"
  by (simp add: switch_defs)

lemma ring_switch:
  assumes "ring st (pre @ x # post)"
  shows "ring (switch_to x st) (post @ current st # pre)"
proof -
  have x: "x \<noteq> current st" using assms by (auto simp: ring_def)
  have "path (tcb (switch_to x st)) a ys b = path (tcb st) a ys b" for a ys b
    by (rule path_cong) (simp add: switch_to_next)
  then show ?thesis
    using assms by (auto simp: ring_def path_append switch_to_other(1) [OF x refl])
qed

text \<open>\<open>schedule\<close> as a rotation of the ring to the first ready task.\<close>

lemma schedule_cases:
  assumes "ring st xs"
  obtains (idle) "find (ready st) xs = None" and "schedule st = Some st"
    | (run) pre x post where "xs = pre @ x # post" and "\<forall>y\<in>set pre. \<not> ready st y" and "ready st x"
        and "schedule st = Some (switch_to x st)" and "ring (switch_to x st) (post @ current st # pre)"
proof (cases "find (ready st) xs")
  case None
  then show ?thesis using schedule_ring [OF assms] idle by simp
next
  case (Some x)
  then obtain pre post where xs: "xs = pre @ x # post" and p: "\<forall>y\<in>set pre. \<not> ready st y" "ready st x"
    using find_split by metis
  then show ?thesis using run [OF xs p] schedule_ring [OF assms] Some ring_switch [of st pre x post] assms by simp
qed

section \<open>Fairness and context switches\<close>

primrec schedule_n :: "nat \<Rightarrow> sched \<Rightarrow> sched option" where
  "schedule_n 0 st = Some st"
| "schedule_n (Suc n) st = Option.bind (schedule st) (schedule_n n)"

lemma ready_switch:
  "y \<noteq> x \<Longrightarrow> y \<noteq> current st \<Longrightarrow> x \<noteq> current st \<Longrightarrow> ready (switch_to x st) y = ready st y"
  using switch_to_other(4) [of x st "switch_to x st" y] by (simp add: ready_def)

text \<open>A ready task is reached after at most as many calls as it has predecessors in the ring.\<close>

lemma schedule_reaches:
  "ring st (pre @ x # post) \<Longrightarrow> ready st x \<Longrightarrow>
   \<exists>n st'. 0 < n \<and> n \<le> Suc (length pre) \<and> schedule_n n st = Some st' \<and> current st' = x"
proof (induction "length pre" arbitrary: st pre post rule: less_induct)
  case less
  from less.prems(1) show ?case
  proof (cases rule: schedule_cases)
    case idle
    then show ?thesis using less.prems(2) by (auto simp: find_None_iff)
  next
    case (run pre' y post')
    have "y \<in> set (pre @ x # post)" using run(1) by simp
    then have ne: "y \<noteq> current st" "x \<noteq> current st" using less.prems(1) by (auto simp: ring_def)
    show ?thesis
    proof (cases "y = x")
      case True
      have "schedule_n 1 st = Some (switch_to y st)" using run(4) by simp
      then show ?thesis using True switch_to_other(1) [OF ne(1) refl] by (intro exI [of _ 1]) auto
    next
      case False
      have d: "distinct (pre @ x # post)" using less.prems(1) by (auto simp: ring_def)
      have "y \<in> set pre"
      proof (rule ccontr)
        assume "y \<notin> set pre"
        then have "x \<in> set pre'"
          using run(1) False by (auto simp: append_eq_append_conv2 Cons_eq_append_conv append_eq_Cons_conv)
        then show False using run(2) less.prems(2) by auto
      qed
      then obtain mid where mid: "pre = pre' @ y # mid"
        using run(1) d by (auto simp: append_eq_append_conv2 Cons_eq_append_conv append_eq_Cons_conv)
      then have "post' = mid @ x # post" using run(1) by simp
      then have "ring (switch_to y st) (mid @ x # (post @ current st # pre'))" using run(5) by simp
      moreover have "ready (switch_to y st) x" using ready_switch [of x y st] False ne less.prems(2) by simp
      moreover have "length mid < length pre" using mid by simp
      ultimately obtain n st' where n: "0 < n" "n \<le> Suc (length mid)" "schedule_n n (switch_to y st) = Some st'" "current st' = x"
        using less.hyps by blast
      have "schedule_n (Suc n) st = Some st'" using run(4) n(3) by simp
      then show ?thesis using n mid by (intro exI [of _ "Suc n"] exI [of _ st']) auto
    qed
  qed
qed

lemma switch_to_frame:
  "c \<noteq> x \<Longrightarrow> c \<noteq> current st \<Longrightarrow> tcb (switch_to x st) c = tcb st c"
  by (simp add: switch_defs)

lemma switch_to_current [simp]: "current (switch_to x st) = x"
  by (simp add: switch_defs)

lemma fold_switch_frame:
  "c \<notin> set ys \<Longrightarrow> c \<noteq> current st \<Longrightarrow>
   tcb (fold switch_to ys st) c = tcb st c \<and> current (fold switch_to ys st) \<noteq> c"
proof (induction ys arbitrary: st)
  case (Cons y ys)
  then show ?case using Cons.IH [of "switch_to y st"] switch_to_frame [of c y st] by auto
qed simp

section \<open>Wait queues as lists\<close>

fun wq_path :: "(u64 \<Rightarrow> task) \<Rightarrow> u64 list \<Rightarrow> bool" where
  "wq_path T [] \<longleftrightarrow> True"
| "wq_path T (x # xs) \<longleftrightarrow> x \<noteq> 0 \<and> t_wq_next (T x) = (if xs = [] then 0 else hd xs) \<and> wq_path T xs"

definition wq_rep :: "wait_queue \<times> sched \<Rightarrow> u64 list \<Rightarrow> bool" where
  "wq_rep s q \<longleftrightarrow> wq_path (tcb (snd s)) q \<and> distinct q \<and>
     wq_head (fst s) = (if q = [] then 0 else hd q) \<and> wq_tail (fst s) = (if q = [] then 0 else last q)"

lemma wq_path_cong: "(\<And>x. x \<in> set xs \<Longrightarrow> t_wq_next (T x) = t_wq_next (T' x)) \<Longrightarrow> wq_path T xs = wq_path T' xs"
  by (induction xs) auto

lemma wq_path_nz: "wq_path T xs \<Longrightarrow> 0 \<notin> set xs"
  by (induction xs) auto

lemma wq_path_snoc:
  "wq_path T (xs @ [x]) \<longleftrightarrow> x \<noteq> 0 \<and> t_wq_next (T x) = 0 \<and>
    (xs = [] \<or> wq_path (T(last xs := (T (last xs))\<lparr>t_wq_next := 0\<rparr>)) xs \<and> t_wq_next (T (last xs)) = x)"
  if "distinct (xs @ [x])" for xs
  using that
proof (induction xs)
  case (Cons a xs)
  then show ?case by (cases xs) (auto simp: hd_append)
qed auto

definition wq_get :: "wait_queue \<times> sched \<Rightarrow> u64 option \<times> (wait_queue \<times> sched)" where
  "wq_get s = (if wq_head (fst s) = 0 then None else Some (wq_head (fst s)),
     wait_queue_wake_one (fst s) (snd s))"

definition wq_put :: "u64 \<Rightarrow> wait_queue \<times> sched \<Rightarrow> wait_queue \<times> sched" where
  "wq_put x s = wq_enqueue (fst s) (snd s)"

definition wq_can_put :: "u64 \<Rightarrow> wait_queue \<times> sched \<Rightarrow> u64 list \<Rightarrow> bool" where
  "wq_can_put x s q \<longleftrightarrow> x = current (snd s) \<and> x \<noteq> 0 \<and> x \<notin> set q"

lemma wq_rep_nz: "wq_rep s q \<Longrightarrow> 0 \<notin> set q"
  using wq_path_nz by (auto simp: wq_rep_def)

lemma wq_put_rep:
  assumes rep: "wq_rep s q" and can: "wq_can_put x s q"
  shows "wq_rep (wq_put x s) (q @ [x])"
proof -
  obtain wq st where s: "s = (wq, st)" by (cases s)
  have x: "x = current st" "x \<noteq> 0" "x \<notin> set q" using can s by (auto simp: wq_can_put_def)
  have p: "wq_path (tcb st) q" "distinct q" "wq_head wq = (if q = [] then 0 else hd q)"
    "wq_tail wq = (if q = [] then 0 else last q)" using rep s by (auto simp: wq_rep_def)
  show ?thesis
  proof (cases "q = []")
    case True
    then show ?thesis using p x s by (simp add: wq_rep_def wq_put_def wq_enqueue_def upd_task_def Let_def)
  next
    case False
    then have "last q \<in> set q" by simp
    then have l: "last q \<noteq> 0" "last q \<in> set q" "last q \<noteq> x" using wq_path_nz [OF p(1)] x by metis+
    let ?T = "(tcb st)(x := (tcb st x)\<lparr>t_state := TASK_BLOCKED, t_wq_next := 0\<rparr>)"
    let ?T' = "?T(last q := (?T (last q))\<lparr>t_wq_next := x\<rparr>)"
    have put: "wq_put x s = (wq\<lparr>wq_tail := x\<rparr>, st\<lparr>tcb := ?T'\<rparr>)"
      using False p(4) l x s by (simp add: wq_put_def wq_enqueue_def upd_task_def Let_def)
    have "t_wq_next (tcb st (last q)) = 0"
      using p(1) False by (induction q) (auto split: if_splits)
    then have "wq_path (?T'(last q := (?T' (last q))\<lparr>t_wq_next := 0\<rparr>)) q = wq_path (tcb st) q"
      using x l by (intro wq_path_cong) auto
    then have "wq_path ?T' (q @ [x])" using p x l False wq_path_snoc [of q x ?T'] by auto
    then show ?thesis using put p x False by (auto simp: wq_rep_def)
  qed
qed

lemma wq_get_rep:
  assumes rep: "wq_rep (wq, st) (x # q)"
  shows "\<exists>wq' st'. wq_get (wq, st) = (Some x, (wq', st')) \<and> wq_rep (wq', st') q \<and>
    tcb st' x = (tcb st x)\<lparr>t_wq_next := 0,
      t_state := (if t_state (tcb st x) = TASK_BLOCKED then TASK_READY else t_state (tcb st x))\<rparr> \<and>
    (\<forall>y. y \<noteq> x \<longrightarrow> tcb st' y = tcb st y) \<and> current st' = current st"
proof -
  have x: "wq_head wq = x" "x \<noteq> 0" "t_wq_next (tcb st x) = (if q = [] then 0 else hd q)" "x \<notin> set q"
    "wq_path (tcb st) q" "distinct q" "wq_tail wq = last (x # q)" using rep by (auto simp: wq_rep_def)
  obtain wq' st' where w: "wait_queue_wake_one wq st = (wq', st')" by fastforce
  have q0: "hd q \<noteq> 0" if "q \<noteq> []" using wq_path_nz [OF x(5)] that by (metis hd_in_set)
  have T: "tcb st' x = (tcb st x)\<lparr>t_wq_next := 0,
      t_state := (if t_state (tcb st x) = TASK_BLOCKED then TASK_READY else t_state (tcb st x))\<rparr>"
    "y \<noteq> x \<Longrightarrow> tcb st' y = tcb st y" "current st' = current st" for y
    using w x(1,2) by (auto simp: wait_queue_wake_one_def upd_task_def Let_def split: if_splits)
  have wq': "wq_head wq' = (if q = [] then 0 else hd q)" "wq_tail wq' = (if q = [] then 0 else last q)"
    using w x q0 by (auto simp: wait_queue_wake_one_def Let_def split: if_splits)
  have "wq_path (tcb st') q = wq_path (tcb st) q" using x(4) T(2) by (intro wq_path_cong) metis
  then have "wq_rep (wq', st') q" using x wq' by (simp add: wq_rep_def)
  then show ?thesis using T w x by (intro exI [of _ wq'] exI [of _ st']) (auto simp: wq_get_def)
qed

interpretation wait: fifo wq_rep wq_can_put wq_put wq_get
proof
  fix s :: "wait_queue \<times> sched" and q :: "u64 list" and x :: u64
  show "wq_rep s q \<Longrightarrow> wq_can_put x s q \<Longrightarrow> wq_rep (wq_put x s) (q @ [x])" by (rule wq_put_rep)
  show "wq_rep s [] \<Longrightarrow> wq_get s = (None, s)"
    by (cases s) (simp add: wq_rep_def wq_get_def wait_queue_wake_one_def)
  show "wq_rep s (x # q) \<Longrightarrow> \<exists>s'. wq_get s = (Some x, s') \<and> wq_rep s' q"
    using wq_get_rep [of "fst s" "snd s" x q] by auto
qed

lemma wake_one_get: "wait_queue_wake_one wq st = snd (wq_get (wq, st))"
  by (simp add: wq_get_def)

lemma wake_all_ok:
  "wq_rep (wq, st) q \<Longrightarrow> \<exists>wq' st'. wait_queue_wake_all wq st = Some (wq', st') \<and> wq_rep (wq', st') [] \<and>
    (\<forall>y. t_state (tcb st' y) = (if y \<in> set q \<and> t_state (tcb st y) = TASK_BLOCKED then TASK_READY else t_state (tcb st y))) \<and>
    (\<forall>y. t_next (tcb st' y) = t_next (tcb st y)) \<and> current st' = current st"
proof (induction q arbitrary: wq st)
  case Nil
  then have "wait_queue_wake_all wq st = Some (wq, st)"
    by (simp add: wq_rep_def wait_queue_wake_all.simps)
  then show ?case using Nil by (intro exI [of _ wq] exI [of _ st]) simp
next
  case (Cons x q)
  obtain wq1 st1 where g: "wq_get (wq, st) = (Some x, (wq1, st1))" "wq_rep (wq1, st1) q"
    "tcb st1 x = (tcb st x)\<lparr>t_wq_next := 0,
      t_state := (if t_state (tcb st x) = TASK_BLOCKED then TASK_READY else t_state (tcb st x))\<rparr>"
    "\<forall>y. y \<noteq> x \<longrightarrow> tcb st1 y = tcb st y" "current st1 = current st"
    using wq_get_rep [OF Cons.prems] by blast
  have "wq_head wq \<noteq> 0" "wait_queue_wake_one wq st = (wq1, st1)"
    using Cons.prems g(1) by (auto simp: wq_rep_def wake_one_get)
  then have step: "wait_queue_wake_all wq st = wait_queue_wake_all wq1 st1"
    by (subst wait_queue_wake_all.simps) simp
  obtain wq' st' where r: "wait_queue_wake_all wq1 st1 = Some (wq', st')" "wq_rep (wq', st') []"
    "\<forall>y. t_state (tcb st' y) = (if y \<in> set q \<and> t_state (tcb st1 y) = TASK_BLOCKED then TASK_READY else t_state (tcb st1 y))"
    "\<forall>y. t_next (tcb st' y) = t_next (tcb st1 y)" "current st' = current st1"
    using Cons.IH [OF g(2)] by blast
  have x: "x \<notin> set q" using Cons.prems by (simp add: wq_rep_def)
  have "t_state (tcb st' y) = (if y \<in> set (x # q) \<and> t_state (tcb st y) = TASK_BLOCKED then TASK_READY else t_state (tcb st y))" for y
    using r(3) g(3,4) x by (cases "y = x") auto
  moreover have "t_next (tcb st' y) = t_next (tcb st y)" for y
    using r(4) g(3,4) by (cases "y = x") auto
  ultimately show ?case using step r(1,2,5) g(5) by auto
qed

section \<open>Sleepers\<close>

definition due :: "sched \<Rightarrow> nat \<Rightarrow> bool" where
  "due st i \<longleftrightarrow> sl_used (sleepers st ! i) \<and> sl_wake_at (sleepers st ! i) \<le> global_tick st"

text \<open>One pass over the slots wakes the blocked tasks of all due slots and frees those slots.\<close>

lemma wake_pass:
  "length (sleepers st) = MAX_SLEEPERS \<Longrightarrow> n \<le> MAX_SLEEPERS \<Longrightarrow> st' = fold wake_sleeper [0..<n] st \<Longrightarrow>
   global_tick st' = global_tick st \<and> current st' = current st \<and> tick_in_slice st' = tick_in_slice st \<and>
   length (sleepers st') = MAX_SLEEPERS \<and>
   (\<forall>i<MAX_SLEEPERS. sleepers st' ! i = (if i < n \<and> due st i then (sleepers st ! i)\<lparr>sl_used := False\<rparr> else sleepers st ! i)) \<and>
   (\<forall>y. tcb st' y = (if t_state (tcb st y) = TASK_BLOCKED \<and> (\<exists>i<n. due st i \<and> sl_task (sleepers st ! i) = y)
                     then (tcb st y)\<lparr>t_state := TASK_READY\<rparr> else tcb st y))"
proof (induction n arbitrary: st')
  case (Suc n)
  define s where "s = fold wake_sleeper [0..<n] st"
  have IH: "global_tick s = global_tick st" "current s = current st" "tick_in_slice s = tick_in_slice st"
    "length (sleepers s) = MAX_SLEEPERS"
    "\<And>i. i < MAX_SLEEPERS \<Longrightarrow> sleepers s ! i = (if i < n \<and> due st i then (sleepers st ! i)\<lparr>sl_used := False\<rparr> else sleepers st ! i)"
    "\<And>y. tcb s y = (if t_state (tcb st y) = TASK_BLOCKED \<and> (\<exists>i<n. due st i \<and> sl_task (sleepers st ! i) = y)
                     then (tcb st y)\<lparr>t_state := TASK_READY\<rparr> else tcb st y)"
    using Suc.IH [OF Suc.prems(1) _ s_def] Suc.prems(2) by auto
  have n: "n < MAX_SLEEPERS" using Suc.prems(2) by simp
  have slot: "sleepers s ! n = sleepers st ! n" using IH(5) [OF n] by simp
  have st': "st' = wake_sleeper n s" using Suc.prems(3) by (simp add: s_def)
  have due: "due s n = due st n" using slot IH(1) by (simp add: due_def)
  show ?case
  proof (cases "due st n")
    case False
    then have "st' = s" using st' due by (auto simp: wake_sleeper_def due_def Let_def)
    then show ?thesis using IH False by (auto simp: less_Suc_eq)
  next
    case True
    let ?t = "sl_task (sleepers st ! n)"
    have f: "sleepers st' = (sleepers s)[n := (sleepers st ! n)\<lparr>sl_used := False\<rparr>]"
      "tcb st' y = (if y = ?t \<and> t_state (tcb s y) = TASK_BLOCKED then (tcb s y)\<lparr>t_state := TASK_READY\<rparr> else tcb s y)"
      "global_tick st' = global_tick s" "current st' = current s" "tick_in_slice st' = tick_in_slice s" for y
    proof -
      have c: "sl_used (sleepers s ! n) \<and> sl_wake_at (sleepers s ! n) \<le> global_tick s"
        using due True by (simp add: due_def)
      have e: "st' = (if t_state (tcb s ?t) = TASK_BLOCKED then upd_task ?t (\<lambda>t. t\<lparr>t_state := TASK_READY\<rparr>) s else s)
          \<lparr>sleepers := (sleepers s)[n := (sleepers st ! n)\<lparr>sl_used := False\<rparr>]\<rparr>"
        using c unfolding st' wake_sleeper_def Let_def slot by (simp add: upd_task_def)
      show "sleepers st' = (sleepers s)[n := (sleepers st ! n)\<lparr>sl_used := False\<rparr>]"
        "tcb st' y = (if y = ?t \<and> t_state (tcb s y) = TASK_BLOCKED then (tcb s y)\<lparr>t_state := TASK_READY\<rparr> else tcb s y)"
        "global_tick st' = global_tick s" "current st' = current s" "tick_in_slice st' = tick_in_slice s" for y
        unfolding e by (auto simp: upd_task_def)
    qed
    have a: "sleepers st' ! i = (if i < Suc n \<and> due st i then (sleepers st ! i)\<lparr>sl_used := False\<rparr> else sleepers st ! i)"
      if "i < MAX_SLEEPERS" for i
      using f(1) IH(4,5) that n True by (cases "i = n") auto
    have b: "tcb st' y = (if t_state (tcb st y) = TASK_BLOCKED \<and> (\<exists>i<Suc n. due st i \<and> sl_task (sleepers st ! i) = y)
                     then (tcb st y)\<lparr>t_state := TASK_READY\<rparr> else tcb st y)" for y
    proof -
      have ex: "(\<exists>i<Suc n. due st i \<and> sl_task (sleepers st ! i) = y) \<longleftrightarrow>
          (\<exists>i<n. due st i \<and> sl_task (sleepers st ! i) = y) \<or> y = ?t" using True by (auto simp: less_Suc_eq)
      show ?thesis unfolding ex f(2) [of y] IH(6) [of y] by (cases "y = ?t") simp_all
    qed
    show ?thesis using a b f IH by simp
  qed
qed (auto)

section \<open>Initial stack frames\<close>

text \<open>
  The pops of \<open>task_switch\<close> (\<open>kernel/task/switch.S\<close>): \<open>r15, r14, r13, r12, rbx, rbp\<close>, the
  flags and the return address.
\<close>

definition restore_context :: "mem \<Rightarrow> u64 \<Rightarrow> u64 list" where
  "restore_context m sp = map (\<lambda>i. rd64 m (sp + 8 * i)) [0, 1, 2, 3, 4, 5, 6, 7]"

lemma slot_below_neq: "0 < k \<Longrightarrow> k < 1000 \<Longrightarrow> (a :: u64) \<noteq> a - 8 * of_nat k"
proof
  assume k: "0 < k" "k < 1000" and "a = a - 8 * of_nat k"
  then have "8 * of_nat k = (0 :: u64)" by (metis diff_0_right diff_left_imp_eq)
  moreover have "unat (8 * of_nat k :: u64) = 8 * k"
    using k by (simp add: unat_mult_small unat_of_nat_64)
  ultimately show False using k by simp
qed

lemma push_all_ok:
  assumes "8 dvd unat sp" and "length vs < 1000" and "push_all vs sp m = (sp', m')"
  shows "sp' = sp - 8 * of_nat (length vs)"
    and "k < length vs \<Longrightarrow> rd64 m' (sp - 8 * of_nat (Suc k)) = vs ! k"
    and "8 dvd unat a \<Longrightarrow> (\<forall>k<length vs. a \<noteq> sp - 8 * of_nat (Suc k)) \<Longrightarrow> rd64 m' a = rd64 m a"
proof -
  have "sp' = sp - 8 * of_nat (length vs) \<and> (\<forall>k<length vs. rd64 m' (sp - 8 * of_nat (Suc k)) = vs ! k) \<and>
    (\<forall>a. 8 dvd unat a \<longrightarrow> (\<forall>k<length vs. a \<noteq> sp - 8 * of_nat (Suc k)) \<longrightarrow> rd64 m' a = rd64 m a)"
    using assms
  proof (induction vs arbitrary: sp m)
    case (Cons v vs)
    have d: "8 dvd unat (sp - 8)" using Cons.prems(1) by (intro unat_diff_dvd) simp_all
    have eq: "sp - 8 - 8 * of_nat k = sp - 8 * of_nat (Suc k)" for k by (simp add: algebra_simps)
    from Cons.IH [OF d, of "wr64 m (sp - 8) v"] Cons.prems
    have IH: "sp' = sp - 8 - 8 * of_nat (length vs)"
      "\<And>k. k < length vs \<Longrightarrow> rd64 m' (sp - 8 - 8 * of_nat (Suc k)) = vs ! k"
      "\<And>a. 8 dvd unat a \<Longrightarrow> (\<forall>k<length vs. a \<noteq> sp - 8 - 8 * of_nat (Suc k)) \<Longrightarrow> rd64 m' a = rd64 (wr64 m (sp - 8) v) a"
      by auto
    have own: "rd64 m' (sp - 8) = v"
      using IH(3) [OF d] slot_below_neq [of _ "sp - 8"] Cons.prems(2) by (simp add: rd64_wr64_same del: of_nat_Suc)
    have "rd64 m' (sp - 8 * of_nat (Suc k)) = (v # vs) ! k" if "k < length (v # vs)" for k
      using that own IH(2) unfolding eq by (cases k) auto
    moreover have "rd64 m' a = rd64 m a"
      if "8 dvd unat a" "\<forall>k<length (v # vs). a \<noteq> sp - 8 * of_nat (Suc k)" for a
    proof -
      have "a \<noteq> sp - 8" using that(2) by force
      moreover have "\<forall>k<length vs. a \<noteq> sp - 8 - 8 * of_nat (Suc k)" using that(2) unfolding eq by auto
      ultimately show ?thesis using IH(3) [OF that(1)] rd64_wr64_other [OF d that(1)] by auto
    qed
    ultimately show ?case using IH(1) eq [of "length vs"] by simp
  qed simp
  then show "sp' = sp - 8 * of_nat (length vs)"
    "k < length vs \<Longrightarrow> rd64 m' (sp - 8 * of_nat (Suc k)) = vs ! k"
    "8 dvd unat a \<Longrightarrow> (\<forall>k<length vs. a \<noteq> sp - 8 * of_nat (Suc k)) \<Longrightarrow> rd64 m' a = rd64 m a"
    by blast+
qed

lemma aligned_top: "8 dvd unat ((x :: u64) AND NOT 0xF)"
proof -
  have "unat (x AND NOT 0xF) = unat x div 16 * 16"
    using unat_and_not_mask [of x 4] by (simp add: mask_eq_exp_minus_1)
  then show ?thesis by simp
qed

text \<open>The last eight values pushed are what \<open>task_switch\<close> pops, in reverse order.\<close>

lemma push_frame:
  assumes "8 dvd unat sp" and "push_all vs sp m = (sp', m')" and "length vs < 1000"
    and "vs = pre @ [v0, v1, v2, v3, v4, v5, v6, v7]"
  shows "restore_context m' sp' = [v7, v6, v5, v4, v3, v2, v1, v0]"
proof -
  note pu = push_all_ok [OF assms(1,3,2)]
  have e: "sp' + 8 * of_nat j = sp - 8 * of_nat (Suc (length vs - 1 - j))" if "j < 8" for j
  proof -
    have "of_nat (Suc (length vs - 1 - j)) = (of_nat (length vs) :: u64) - of_nat j"
      using that assms(4) by (simp add: of_nat_diff)
    then show ?thesis unfolding pu(1) by (simp only: right_diff_distrib) simp
  qed
  have r: "rd64 m' (sp' + 8 * of_nat j) = vs ! (length vs - 1 - j)" if "j < 8" for j
    using e [OF that] pu(2) [of "length vs - 1 - j"] that assms(4) by (simp del: of_nat_Suc)
  show ?thesis
    using r [of 0] r [of 1] r [of 2] r [of 3] r [of 4] r [of 5] r [of 6] r [of 7] assms(4)
    by (simp add: restore_context_def nth_append)
qed

text \<open>Linking a new task behind the current one.\<close>

lemma ring_link:
  assumes ring: "ring st xs" and t: "t \<noteq> 0" "t \<notin> set (current st # xs)"
    and next': "\<And>y. t_next (tcb st' y) = (if y = current st then t else if y = t then t_next (tcb st (current st)) else t_next (tcb st y))"
    and cur: "current st' = current st"
  shows "ring st' (t # xs)"
proof -
  let ?c = "current st"
  have p: "path (tcb st) ?c xs ?c" and d: "distinct (?c # xs)" using ring by (auto simp: ring_def)
  have "path (tcb st') t xs ?c"
  proof (cases xs)
    case Nil
    then show ?thesis using p next' [of t] t by auto
  next
    case (Cons x ys)
    have "path (tcb st') x ys ?c = path (tcb st) x ys ?c"
      using next' t d Cons by (intro path_cong) auto
    then show ?thesis using p next' [of t] t Cons by auto
  qed
  then show ?thesis using ring t next' [of ?c] cur by (auto simp: ring_def)
qed

lemma heap_hmem: "heap_ok h \<Longrightarrow> heap_ok (h\<lparr>hmem := m\<rparr>) \<and> heap_live (h\<lparr>hmem := m\<rparr>) = heap_live h"
  by (auto simp: heap_ok_def heap_live_def heap_rep_def)

section \<open>Properties\<close>

definition demo_task :: task where
  "demo_task = \<lparr>t_rsp = 0, t_stack_base = 0, t_stack_size = 0, t_kernel_stack_top = 0, t_saved_user_rsp = 0,
     t_pml4_phys = 0, t_id = 0, t_state = TASK_READY, t_name = ''demo'', t_next = 0, t_wq_next = 0, t_parent = 0,
     t_stdin_node = 0, t_stdout_node = 0, t_stdin_pos = 0, t_stdout_pos = 0\<rparr>"

text \<open>A ring of the tasks 16 (running), 32 (blocked) and 48 (ready); task 32 waits.\<close>

definition demo_sched :: sched where
  "demo_sched = \<lparr>tcb = (\<lambda>_. demo_task)(16 := demo_task\<lparr>t_state := TASK_RUNNING, t_next := 32\<rparr>,
       32 := demo_task\<lparr>t_id := 1, t_state := TASK_BLOCKED, t_next := 48\<rparr>,
       48 := demo_task\<lparr>t_id := 2, t_next := 16, t_rsp := 0x5000, t_saved_user_rsp := 0x6000\<rparr>),
     current = 16, next_id = 3, tick_in_slice = 0,
     sleepers = replicate 32 \<lparr>sl_task = 0, sl_wake_at = 0, sl_used = False\<rparr>, global_tick = 7, child_alive = 0,
     foreground = 0, child_exit_wq = wait_queue_init, kernel_rsp = 0, saved_user_rsp = 0x7000,
     syscall_user_rcx = 0, tss_rsp0 = 0, cpu_rsp = 0x8000, s_heap = demo_heap, s_vmm = demo_vmm\<rparr>"

definition demo_wq :: wait_queue where
  "demo_wq = \<lparr>wq_head = 32, wq_tail = 32\<rparr>"

lemma demo_ring: "ring demo_sched [32, 48]"
  by (simp add: ring_def demo_sched_def)

lemma demo_wq_rep: "wq_rep (demo_wq, demo_sched) [32]"
  by (simp add: wq_rep_def demo_wq_def demo_sched_def demo_task_def)

text \<open>C4. \<open>schedule\<close> on a closed ring always returns.  Without a ready task among the others it
  changes nothing; otherwise the whole state after it is given: exactly the first ready task after
  the current one becomes the running task, the previous one turns ready if it was running (and
  stays blocked or dead otherwise) with its two stack pointers saved, the stack pointers, the
  kernel stack of the TSS and of the system call entry and the address space of the new task are
  loaded (the last two only when it has them), nothing else changes, and the ring, seen from the
  new task, is the old one rotated.\<close>

theorem schedule_correct:
  assumes "ring st xs"
  shows "\<exists>st'. schedule st = Some st' \<and>
    ((\<forall>x\<in>set xs. \<not> ready st x) \<and> st' = st \<or>
     (\<exists>pre x post. xs = pre @ x # post \<and> (\<forall>y\<in>set pre. \<not> ready st y) \<and> ready st x \<and>
       ring st' (post @ current st # pre) \<and>
       st' = st\<lparr>
         tcb := (tcb st)(x := (tcb st x)\<lparr>t_state := TASK_RUNNING\<rparr>,
           current st := (tcb st (current st))\<lparr>
             t_state := (if t_state (tcb st (current st)) = TASK_RUNNING then TASK_READY else t_state (tcb st (current st))),
             t_saved_user_rsp := saved_user_rsp st, t_rsp := cpu_rsp st\<rparr>),
         current := x,
         tss_rsp0 := (if t_kernel_stack_top (tcb st x) \<noteq> 0 then t_kernel_stack_top (tcb st x) else tss_rsp0 st),
         kernel_rsp := (if t_kernel_stack_top (tcb st x) \<noteq> 0 then t_kernel_stack_top (tcb st x) else kernel_rsp st),
         saved_user_rsp := t_saved_user_rsp (tcb st x), cpu_rsp := t_rsp (tcb st x),
         s_vmm := (if t_pml4_phys (tcb st x) \<noteq> 0 then (s_vmm st)\<lparr>cr3 := t_pml4_phys (tcb st x)\<rparr> else s_vmm st)\<rparr>))"
  using assms
proof (cases rule: schedule_cases)
  case idle
  then show ?thesis by (auto simp: find_None_iff)
next
  case (run pre x post)
  then have x: "x \<noteq> current st" using assms by (auto simp: ring_def)
  show ?thesis using run switch_to_state [OF x]
    by (intro exI [of _ "switch_to x st"] conjI disjI2 exI [of _ pre] exI [of _ x] exI [of _ post]) simp_all
qed

definition demo_sched2 :: sched where
  "demo_sched2 = upd_task 48 (\<lambda>t. t\<lparr>t_kernel_stack_top := 0x9000, t_pml4_phys := 0x3000\<rparr>) demo_sched"

theorem schedule_correct_witness:
  "\<exists>st'. schedule demo_sched2 = Some st' \<and> current st' = 48 \<and> t_state (tcb st' 16) = TASK_READY \<and>
    t_rsp (tcb st' 16) = 0x8000 \<and> t_saved_user_rsp (tcb st' 16) = 0x7000 \<and> cpu_rsp st' = 0x5000 \<and>
    saved_user_rsp st' = 0x6000 \<and> tss_rsp0 st' = 0x9000 \<and> kernel_rsp st' = 0x9000 \<and> cr3 (s_vmm st') = 0x3000"
proof -
  have ring: "ring demo_sched2 [32, 48]" by (simp add: ring_def demo_sched2_def demo_sched_def upd_task_def)
  have r: "ready demo_sched2 48" "\<not> ready demo_sched2 32"
    by (simp_all add: ready_def demo_sched2_def demo_sched_def demo_task_def upd_task_def)
  have "x = 48" if "[32, 48] = pre @ x # post" "ready demo_sched2 x" for pre x post
    using that r by (auto simp: Cons_eq_append_conv)
  then show ?thesis using schedule_correct [OF ring] r
    by (elim exE conjE disjE) (simp_all add: demo_sched2_def demo_sched_def upd_task_def demo_task_def)
qed

text \<open>C10. Round-robin fairness: a task that is ready in the ring is running after at most as many
  calls of \<open>schedule\<close> as it has steps from the current task, however many other tasks are ready.\<close>

theorem schedule_fair:
  assumes "ring st (pre @ x # post)" and "ready st x"
  shows "\<exists>n st'. 0 < n \<and> n \<le> Suc (length pre) \<and> schedule_n n st = Some st' \<and> current st' = x"
  by (rule schedule_reaches [OF assms])

theorem schedule_fair_witness:
  "\<exists>n st'. n \<le> 2 \<and> schedule_n n demo_sched = Some st' \<and> current st' = 48"
proof -
  have "ring demo_sched ([32] @ 48 # [])" using demo_ring by simp
  moreover have "ready demo_sched 48" by (simp add: ready_def demo_sched_def demo_task_def)
  ultimately show ?thesis using schedule_fair [of demo_sched "[32]" 48 "[]"] by (auto simp: numeral_2_eq_2)
qed

text \<open>A task that is switched out and, after any switches among other tasks, switched in again
  runs with the kernel stack pointer and the user stack pointer it had when it was switched out.\<close>

theorem context_round_trip:
  assumes "x \<noteq> current st" and "current st \<notin> set ys"
    and "st' = switch_to (current st) (fold switch_to ys (switch_to x st))"
  shows "current st' = current st \<and> cpu_rsp st' = cpu_rsp st \<and> saved_user_rsp st' = saved_user_rsp st"
proof -
  let ?c = "current st" and ?st1 = "switch_to x st"
  let ?st2 = "fold switch_to ys ?st1"
  note sw = switch_to_other [OF assms(1) refl]
  have f: "tcb ?st2 ?c = tcb ?st1 ?c" "current ?st2 \<noteq> ?c"
    using fold_switch_frame [of ?c ys ?st1] assms(1,2) by auto
  note ret = switch_to_other [OF f(2) [symmetric] assms(3)]
  show ?thesis using ret(1,5,6) f(1) sw(3) by simp
qed

theorem context_round_trip_witness:
  "cpu_rsp (switch_to 16 (fold switch_to [32] (switch_to 48 demo_sched))) = 0x8000"
  using context_round_trip [of 48 demo_sched "[32]", OF _ _ refl] by (simp add: demo_sched_def)

text \<open>Wait queues are first-in first-out: a task that blocks on a queue with the waiters \<open>q\<close> is
  the last one that \<open>wait_queue_wake_one\<close> takes out; the calls before it take out \<open>q\<close> in
  order, and then the queue is empty.\<close>

theorem wait_queue_fifo:
  assumes "wq_rep (wq, st) q" and "current st \<noteq> 0" and "current st \<notin> set q"
  shows "\<exists>s'. get_n wq_get (Suc (length q)) (wq_enqueue wq st) = (q @ [current st], s') \<and> wq_rep s' []"
proof -
  have "wq_can_put (current st) (wq, st) q" using assms by (simp add: wq_can_put_def)
  from wait.put_then_get [OF assms(1) this] show ?thesis by (simp add: wq_put_def)
qed

theorem wait_queue_fifo_witness:
  "\<exists>s'. get_n wq_get (Suc (Suc 0)) (wq_enqueue demo_wq demo_sched) = ([32, 16], s')"
proof -
  have c: "current demo_sched = 16" by (simp add: demo_sched_def)
  have "\<exists>s'. get_n wq_get (Suc (length [32 :: u64])) (wq_enqueue demo_wq demo_sched) = ([32] @ [current demo_sched], s') \<and>
      wq_rep s' []"
    by (rule wait_queue_fifo [OF demo_wq_rep]) (simp_all add: c)
  then show ?thesis unfolding c by (auto simp del: get_n.simps)
qed

text \<open>\<open>wait_queue_wake_all\<close> terminates with an empty queue, makes every blocked waiter ready and
  changes the state of no other task.\<close>

theorem wake_all_correct:
  assumes "wq_rep (wq, st) q"
  shows "\<exists>wq' st'. wait_queue_wake_all wq st = Some (wq', st') \<and> wq_rep (wq', st') [] \<and>
    (\<forall>y. t_state (tcb st' y) = (if y \<in> set q \<and> t_state (tcb st y) = TASK_BLOCKED then TASK_READY else t_state (tcb st y)))"
  using wake_all_ok [OF assms] by blast

theorem wake_all_correct_witness:
  "\<exists>wq' st'. wait_queue_wake_all demo_wq demo_sched = Some (wq', st') \<and> t_state (tcb st' 32) = TASK_READY"
  using wake_all_correct [OF demo_wq_rep] by (auto simp: demo_sched_def)

text \<open>A wake-up is lost on a killed waiter: when the first waiter is dead (\<open>task_kill_by_id\<close>
  leaves it in its queue), \<open>wait_queue_wake_one\<close> removes it and makes no task ready.\<close>

theorem dead_waiter_takes_wakeup:
  assumes "wq_rep (wq, st) (x # q)" and "t_state (tcb st x) = TASK_DEAD"
  shows "\<forall>y. t_state (tcb (snd (wait_queue_wake_one wq st)) y) = t_state (tcb st y)"
proof
  fix y
  obtain wq' st' where "wq_get (wq, st) = (Some x, (wq', st'))"
    "tcb st' x = (tcb st x)\<lparr>t_wq_next := 0,
      t_state := (if t_state (tcb st x) = TASK_BLOCKED then TASK_READY else t_state (tcb st x))\<rparr>"
    "\<forall>y. y \<noteq> x \<longrightarrow> tcb st' y = tcb st y" using wq_get_rep [OF assms(1)] by blast
  then show "t_state (tcb (snd (wait_queue_wake_one wq st)) y) = t_state (tcb st y)"
    using assms(2) by (cases "y = x") (auto simp: wake_one_get)
qed

theorem dead_waiter_takes_wakeup_witness:
  "t_state (tcb (snd (wait_queue_wake_one demo_wq (upd_task 32 (\<lambda>t. t\<lparr>t_state := TASK_DEAD\<rparr>) demo_sched))) 48) = TASK_READY"
proof -
  have "wq_rep (demo_wq, upd_task 32 (\<lambda>t. t\<lparr>t_state := TASK_DEAD\<rparr>) demo_sched) [32]"
    by (simp add: wq_rep_def demo_wq_def demo_sched_def demo_task_def upd_task_def)
  from dead_waiter_takes_wakeup [OF this] show ?thesis
    by (simp add: upd_task_def demo_sched_def demo_task_def)
qed

text \<open>Blocking needs another ready task: when no other task of the ring is ready, \<open>task_block\<close>
  queues the current task and returns to it at once, with the task marked blocked but still current.\<close>

theorem task_block_idle_returns:
  assumes "ring st xs" and "\<forall>x\<in>set xs. \<not> ready st x" and "wq_tail wq = 0"
  shows "\<exists>wq' st'. task_block wq st = Some (wq', st') \<and> current st' = current st \<and>
    t_state (tcb st' (current st)) = TASK_BLOCKED"
proof -
  let ?st = "upd_task (current st) (\<lambda>t. t\<lparr>t_state := TASK_BLOCKED, t_wq_next := 0\<rparr>) st"
  have c: "current st \<noteq> 0" using assms(1) by (simp add: ring_def)
  have enq: "snd (wq_enqueue wq st) = ?st" using assms(3) by (simp add: wq_enqueue_def Let_def)
  have "path (tcb ?st) a ys b = path (tcb st) a ys b" for a ys b
    by (rule path_cong) (simp add: upd_task_def)
  then have "ring ?st xs" using assms(1) by (simp add: ring_def upd_task_def)
  moreover have "find (ready ?st) xs = None"
    using assms(1,2) by (auto simp: find_None_iff ready_def upd_task_def ring_def)
  ultimately have "schedule ?st = Some ?st" using schedule_ring by simp
  then have "task_block wq st = Some (fst (wq_enqueue wq st), ?st)"
    using enq c by (cases "wq_enqueue wq st") (simp add: task_block_def)
  then show ?thesis by (simp add: upd_task_def)
qed

theorem task_block_idle_returns_witness:
  "\<exists>wq' st'. task_block wait_queue_init (upd_task 48 (\<lambda>t. t\<lparr>t_state := TASK_DEAD\<rparr>) demo_sched) = Some (wq', st') \<and>
    current st' = 16 \<and> t_state (tcb st' 16) = TASK_BLOCKED"
proof -
  let ?st = "upd_task 48 (\<lambda>t. t\<lparr>t_state := TASK_DEAD\<rparr>) demo_sched"
  have "ring ?st [32, 48]" by (simp add: ring_def demo_sched_def upd_task_def)
  moreover have "\<forall>x\<in>set [32, 48]. \<not> ready ?st x" by (simp add: ready_def demo_sched_def upd_task_def)
  moreover have "current ?st = 16" by (simp add: demo_sched_def upd_task_def)
  ultimately show ?thesis using task_block_idle_returns [of ?st "[32, 48]" wait_queue_init]
    by (simp add: wait_queue_init_def)
qed

text \<open>The timer: one call of \<open>scheduler_tick\<close> in the middle of a time slice advances the clock,
  makes ready exactly the blocked tasks that own a slot due at the new time, frees exactly the
  due slots and does not change the current task.\<close>

theorem scheduler_tick_wakes:
  assumes "length (sleepers st) = MAX_SLEEPERS" and "tick_in_slice st < 4"
  shows "\<exists>st'. scheduler_tick st = Some st' \<and> current st' = current st \<and>
    global_tick st' = global_tick st + 1 \<and> tick_in_slice st' = tick_in_slice st + 1 \<and>
    (\<forall>y. t_state (tcb st' y) = (if t_state (tcb st y) = TASK_BLOCKED \<and>
        (\<exists>i<MAX_SLEEPERS. sl_used (sleepers st ! i) \<and> sl_wake_at (sleepers st ! i) \<le> global_tick st + 1 \<and>
           sl_task (sleepers st ! i) = y) then TASK_READY else t_state (tcb st y))) \<and>
    (\<forall>i<MAX_SLEEPERS. sl_used (sleepers st' ! i) =
        (sl_used (sleepers st ! i) \<and> \<not> sl_wake_at (sleepers st ! i) \<le> global_tick st + 1))"
proof -
  let ?s = "st\<lparr>global_tick := global_tick st + 1\<rparr>"
  let ?w = "fold wake_sleeper [0..<MAX_SLEEPERS] ?s"
  have p: "global_tick ?w = global_tick st + 1" "current ?w = current st" "tick_in_slice ?w = tick_in_slice st"
    "\<And>i. i < MAX_SLEEPERS \<Longrightarrow> sleepers ?w ! i = (if due ?s i then (sleepers st ! i)\<lparr>sl_used := False\<rparr> else sleepers st ! i)"
    "\<And>y. tcb ?w y = (if t_state (tcb st y) = TASK_BLOCKED \<and> (\<exists>i<MAX_SLEEPERS. due ?s i \<and> sl_task (sleepers st ! i) = y)
                     then (tcb st y)\<lparr>t_state := TASK_READY\<rparr> else tcb st y)"
    using wake_pass [of ?s MAX_SLEEPERS ?w] assms(1) by simp_all
  have "unat (tick_in_slice st) < 4" using assms(2) by (simp add: word_less_nat_alt)
  then have "unat (tick_in_slice st + 1) < 5" by (simp add: unat_plus_small)
  then have t: "\<not> TIMESLICE \<le> tick_in_slice st + 1" by (simp add: word_le_nat_alt TIMESLICE_def)
  have "scheduler_tick st = Some (?w\<lparr>tick_in_slice := tick_in_slice st + 1\<rparr>)"
    using t p(3) by (simp add: scheduler_tick_def Let_def)
  then show ?thesis using p
    by (intro exI [of _ "?w\<lparr>tick_in_slice := tick_in_slice st + 1\<rparr>"]) (auto simp: due_def)
qed

text \<open>One sleeping task, due at tick 8.\<close>

definition demo_sleep :: sched where
  "demo_sleep = demo_sched\<lparr>sleepers := (sleepers demo_sched)[3 := \<lparr>sl_task = 32, sl_wake_at = 8, sl_used = True\<rparr>]\<rparr>"

theorem scheduler_tick_wakes_witness:
  "\<exists>st'. scheduler_tick demo_sleep = Some st' \<and> t_state (tcb st' 32) = TASK_READY \<and> \<not> sl_used (sleepers st' ! 3)"
proof -
  have f: "sleepers demo_sleep ! 3 = \<lparr>sl_task = 32, sl_wake_at = 8, sl_used = True\<rparr>"
    "global_tick demo_sleep + 1 = 8" "t_state (tcb demo_sleep 32) = TASK_BLOCKED"
    by (simp_all add: demo_sleep_def demo_sched_def)
  have "length (sleepers demo_sleep) = MAX_SLEEPERS" "tick_in_slice demo_sleep < 4"
    by (simp_all add: demo_sleep_def demo_sched_def MAX_SLEEPERS_def)
  from scheduler_tick_wakes [OF this] obtain st' where st': "scheduler_tick demo_sleep = Some st'"
    "\<forall>y. t_state (tcb st' y) = (if t_state (tcb demo_sleep y) = TASK_BLOCKED \<and>
        (\<exists>i<MAX_SLEEPERS. sl_used (sleepers demo_sleep ! i) \<and> sl_wake_at (sleepers demo_sleep ! i) \<le> global_tick demo_sleep + 1 \<and>
           sl_task (sleepers demo_sleep ! i) = y) then TASK_READY else t_state (tcb demo_sleep y))"
    "\<forall>i<MAX_SLEEPERS. sl_used (sleepers st' ! i) =
        (sl_used (sleepers demo_sleep ! i) \<and> \<not> sl_wake_at (sleepers demo_sleep ! i) \<le> global_tick demo_sleep + 1)"
    by blast
  have "3 < MAX_SLEEPERS" by (simp add: MAX_SLEEPERS_def)
  then show ?thesis using st' f by (intro exI [of _ st']) (auto intro!: exI [of _ 3])
qed

end
