(* ===== verification/Heap_Room.thy ===== *)
theory Heap_Room
  imports Kheap
begin

text \<open>
  When an allocation cannot fail.  \<open>room h N\<close> says that some free block has \<open>N\<close> bytes;
  an allocation costs at most its aligned size and the threshold below which a block is
  not split.  Clients that make a series of allocations budget for it with the locale
  \<open>roomy_allocator\<close>.
\<close>

definition room :: "kheap \<Rightarrow> nat \<Rightarrow> bool" where
  "room h N \<longleftrightarrow> (\<exists>xs a. heap_rep h xs \<and> a \<in> set xs \<and> b_is_free (hdr h a) \<noteq> 0 \<and> N \<le> unat (b_size (hdr h a)))"

definition alloc_cost :: "u64 \<Rightarrow> nat" where
  "alloc_cost sz = unat (heap_need sz) + 96"

lemma room_mono: "room h N \<Longrightarrow> M \<le> N \<Longrightarrow> room h M"
  unfolding room_def by (meson order.trans)

lemma room_hmem [simp]: "room (h\<lparr>hmem := m\<rparr>) N = room h N"
  by (simp add: room_def heap_rep_def)

lemma heap_ok_hmem [simp]: "heap_ok (h\<lparr>hmem := m\<rparr>) = heap_ok h"
  by (simp add: heap_ok_def heap_rep_def)

lemma heap_live_hmem [simp]: "heap_live (h\<lparr>hmem := m\<rparr>) = heap_live h"
  by (simp add: heap_live_def heap_rep_def)

section \<open>Bytes of live allocations\<close>

definition bytes_kept :: "mem \<Rightarrow> mem \<Rightarrow> u64 \<Rightarrow> nat \<Rightarrow> bool" where
  "bytes_kept m m' p n \<longleftrightarrow> (\<forall>i<n. m' (p + of_nat i) = m (p + of_nat i))"

lemma bytes_kept_rd: "bytes_kept m m' p n \<Longrightarrow> k \<le> n \<Longrightarrow> rd_bytes m' p k = rd_bytes m p k"
  by (simp add: bytes_kept_def rd_bytes_def)

lemma bytes_kept_refl [simp]: "bytes_kept m m p n"
  by (simp add: bytes_kept_def)

lemma bytes_kept_trans: "bytes_kept m m1 p n \<Longrightarrow> bytes_kept m1 m2 p n \<Longrightarrow> bytes_kept m m2 p n"
  by (simp add: bytes_kept_def)

lemma live_bound:
  assumes "heap_ok h" and "(p, m) \<in> heap_live h"
  shows "unat p + m < 2 ^ 64" and "p \<noteq> 0" and "m \<le> 2097152"
proof -
  obtain xs where rep: "heap_rep h xs" using assms(1) by (auto simp: heap_ok_def)
  obtain a where a: "a \<in> set xs" "m = unat (b_size (hdr h a)) - 32" "unat p + m = unat a + unat (b_size (hdr h a))" "p \<noteq> 0"
    using live_range [OF rep assms(2)] by blast
  show "unat p + m < 2 ^ 64" "p \<noteq> 0" "m \<le> 2097152"
    using a heap_rep_addr(1,2) [OF rep a(1)] by (simp_all add: HEAP_END_def)
qed

lemma wr_bytes_apart:
  assumes ap: "ranges_apart (p, n) (q, m)" and q: "unat q + m < 2 ^ 64" and p: "unat p + n < 2 ^ 64"
    and bs: "unat k + length bs \<le> n"
  shows "bytes_kept mm (wr_bytes mm (p + k) bs) q m"
  unfolding bytes_kept_def
proof (intro allI impI)
  fix i assume i: "i < m"
  have qi: "unat (q + of_nat i) = unat q + i" using i q by (simp add: unat_plus_small unat_of_nat_64)
  have pk: "unat (p + k) = unat p + unat k" using p bs by (intro unat_plus_small) simp
  have "\<not> unat (q + of_nat i - (p + k)) < length bs"
    using ap i q p bs qi pk unfolding ranges_apart_def by (simp only: unat_sub_if' fst_conv snd_conv) auto
  moreover have "length bs < 2 ^ 64" using bs p by simp
  ultimately show "wr_bytes mm (p + k) bs (q + of_nat i) = mm (q + of_nat i)" by (simp only: wr_bytes_apply if_False)
qed

section \<open>Budgets\<close>

lemma kmalloc_room:
  assumes r: "room h (alloc_cost sz + N)" and sz: "sz \<noteq> 0" and k: "kmalloc sz h = Some (p, h')"
  shows "p \<noteq> 0 \<and> room h' N"
proof -
  let ?need = "heap_need sz"
  obtain xs a where rep: "heap_rep h xs" and a: "a \<in> set xs" "b_is_free (hdr h a) \<noteq> 0"
    "alloc_cost sz + N \<le> unat (b_size (hdr h a))" using r by (auto simp: room_def)
  have fa: "fits (hdr h) ?need a" using a by (simp add: fits_def alloc_cost_def word_le_nat_alt)
  then obtain b where f: "find (fits (hdr h) ?need) xs = Some b"
    using a(1) by (metis find_None_iff2 not_None_eq)
  then have b: "b \<in> set xs" "fits (hdr h) ?need b" by (auto simp: find_Some_iff)
  then obtain pre post where xs: "xs = pre @ b # post" by (meson split_list)
  have b0: "b \<noteq> 0" using heap_rep_nz [OF rep] b(1) by auto
  then have h': "h' = h\<lparr>hdr := take_block (hdr h) ?need b\<rparr>" and p: "p = b + HEADER_SIZE"
    using k f sz kmalloc_search [OF rep, of ?need] by (auto simp: kmalloc_def)
  have "p \<noteq> 0" using payload_addr(2) [OF rep b(1)] p by simp
  obtain xs' where n: "heap_rep h' xs'" "others_kept h xs b h' xs'"
    "unat ?need + 96 \<le> unat (b_size (hdr h b)) \<longrightarrow> b + ?need \<in> set xs' \<and>
       b_is_free (hdr h' (b + ?need)) \<noteq> 0 \<and> b_size (hdr h' (b + ?need)) = b_size (hdr h b) - ?need"
    using take_block_ok [OF rep xs _ heap_need_size_ok [of sz] _ h'] b(2) unfolding fits_def by blast
  show ?thesis
  proof (cases "a = b")
    case True
    then have big: "unat ?need + 96 + N \<le> unat (b_size (hdr h b))" using a(3) by (simp add: alloc_cost_def)
    then have "unat (b_size (hdr h b) - ?need) = unat (b_size (hdr h b)) - unat ?need"
      by (intro unat_minus_le) (simp add: word_le_nat_alt)
    then have "N \<le> unat (b_size (hdr h' (b + ?need)))" using big n(3) by simp
    then show ?thesis using big n(1,3) \<open>p \<noteq> 0\<close> unfolding room_def
      by (intro conjI exI [of _ xs'] exI [of _ "b + ?need"]) simp_all
  next
    case False
    then have "a \<in> set xs'" "b_is_free (hdr h' a) \<noteq> 0" "b_size (hdr h' a) = b_size (hdr h a)"
      using n(2) a(1,2) by (auto simp: others_kept_def)
    then show ?thesis using a(3) n(1) \<open>p \<noteq> 0\<close> unfolding room_def
      by (intro conjI exI [of _ xs'] exI [of _ a]) simp_all
  qed
qed

locale roomy_allocator = allocator alloc release ok live
  for alloc :: "u64 \<Rightarrow> 'h \<Rightarrow> (u64 \<times> 'h) option" and release ok live +
  fixes has_room :: "'h \<Rightarrow> nat \<Rightarrow> bool"
    and cost :: "u64 \<Rightarrow> nat"
  assumes alloc_room: "has_room h (cost n + N) \<Longrightarrow> n \<noteq> 0 \<Longrightarrow> alloc n h = Some (p, h') \<Longrightarrow> p \<noteq> 0 \<and> has_room h' N"
begin

text \<open>An allocation within the budget succeeds, and leaves the rest of the budget.\<close>

lemma alloc_within:
  assumes "ok h" and "has_room h (cost n + N)" and "n \<noteq> 0" and "unat n + 47 < 2 ^ 64"
  shows "\<exists>p h' m. alloc n h = Some (p, h') \<and> p \<noteq> 0 \<and> ok h' \<and> has_room h' N \<and> unat n \<le> m \<and>
    p \<notin> fst ` live h \<and> live h' = insert (p, m) (live h) \<and> (\<forall>b \<in> live h. ranges_apart (p, unat n) b)"
proof -
  obtain p h' where a: "alloc n h = Some (p, h')" "ok h'" using alloc_returns [OF assms(1)] by blast
  have p: "p \<noteq> 0" "has_room h' N" using alloc_room [OF assms(2,3) a(1)] by simp_all
  obtain m where "unat n \<le> m" "p \<notin> fst ` live h" "live h' = insert (p, m) (live h)"
    using alloc_fresh [OF assms(1) a(1) p(1)] assms(4) by blast
  then show ?thesis using a p alloc_apart [OF assms(1) a(1) p(1) assms(4)]
    by (intro exI [of _ p] exI [of _ h'] exI [of _ m]) simp
qed

end

interpretation khr: roomy_allocator kmalloc kfree heap_ok heap_live room alloc_cost
  by unfold_locales (rule kmalloc_room)


text \<open>\<open>kzalloc\<close> in full, for its clients.\<close>

lemma kzalloc_spec:
  assumes ok: "heap_ok h" and sz: "unat sz + 47 < 2 ^ 64"
  shows "\<exists>p h'. kzalloc sz h = Some (p, h') \<and> heap_ok h' \<and> (p = 0 \<longrightarrow> h' = h) \<and>
    (p \<noteq> 0 \<longrightarrow> (\<exists>m. unat sz \<le> m \<and> p \<notin> fst ` heap_live h \<and> heap_live h' = insert (p, m) (heap_live h) \<and>
       (\<forall>(q, n) \<in> heap_live h. bytes_kept (hmem h) (hmem h') q n))) \<and>
    (\<forall>N. sz \<noteq> 0 \<longrightarrow> room h (alloc_cost sz + N) \<longrightarrow> p \<noteq> 0 \<and> room h' N)"
proof -
  obtain p h1 where k: "kmalloc sz h = Some (p, h1)" "heap_ok h1" "hmem h1 = hmem h" "p = 0 \<longrightarrow> h1 = h"
    "p \<noteq> 0 \<longrightarrow> (\<exists>m. unat sz \<le> m \<and> p \<notin> fst ` heap_live h \<and> heap_live h1 = insert (p, m) (heap_live h))"
    using kmalloc_live [OF ok, of sz] sz by blast
  let ?h = "if p \<noteq> 0 then h1\<lparr>hmem := wr_bytes (hmem h1) p (replicate (unat sz) 0)\<rparr> else h1"
  have z: "kzalloc sz h = Some (p, ?h)" using k(1) by (simp add: kzalloc_def)
  have r: "p \<noteq> 0 \<and> room ?h N" if "sz \<noteq> 0" "room h (alloc_cost sz + N)" for N
    using kmalloc_room [OF that(2,1) k(1)] by simp
  show ?thesis
  proof (cases "p = 0")
    case True
    then show ?thesis using z k r by auto
  next
    case False
    then obtain m where m: "unat sz \<le> m" "p \<notin> fst ` heap_live h" "heap_live h1 = insert (p, m) (heap_live h)"
      using k(5) by blast
    have "unat p + unat sz < 2 ^ 64" using live_bound(1) [OF k(2), of p m] m(1,3) by simp
    then have "bytes_kept (hmem h) (hmem ?h) q n" if "(q, n) \<in> heap_live h" for q n
      using wr_bytes_apart [OF kh.alloc_apart [OF ok k(1) False sz that] live_bound(1) [OF ok that],
          of 0 "replicate (unat sz) 0" "hmem h"] False k(3) by simp
    then have "\<forall>(q, n) \<in> heap_live h. bytes_kept (hmem h) (hmem ?h) q n" by auto
    then have "\<exists>m. unat sz \<le> m \<and> p \<notin> fst ` heap_live h \<and> heap_live ?h = insert (p, m) (heap_live h) \<and>
       (\<forall>(q, n) \<in> heap_live h. bytes_kept (hmem h) (hmem ?h) q n)"
      using m False by (intro exI [of _ m]) simp
    moreover have "heap_ok ?h" using k(2) False by simp
    ultimately show ?thesis using z r False by (intro exI [of _ p] exI [of _ ?h]) simp
  qed
qed

text \<open>The demonstration heap has room for everything up to its size.\<close>

lemma demo_room: "room demo_heap 2097152"
proof -
  have "heap_rep demo_heap [HEAP_START]" unfolding demo_heap_def by (rule heap_setup_rep)
  then show ?thesis unfolding room_def
    by (intro exI [of _ "[HEAP_START]"] exI [of _ HEAP_START])
      (simp add: demo_heap_def heap_setup_def HEAP_SIZE_def PAGE_SIZE_def)
qed

end
