(* ===== verification/Task_Life.thy ===== *)
theory Task_Life
  imports Task Heap_Room
begin

text \<open>
  Properties of the life of a task: creation and \<open>fork\<close> with the initial stack frames
  that the first \<open>task_switch\<close> restores, sleeping, killing, and the text of \<open>ps\<close>.  The
  operations are those of the theory of the scheduler.
\<close>

section \<open>Creation\<close>

text \<open>Every task of the ring is a live heap allocation.\<close>

definition tasks_live :: "sched \<Rightarrow> u64 list \<Rightarrow> bool" where
  "tasks_live st xs \<longleftrightarrow> ring st xs \<and> heap_ok (s_heap st) \<and> set (current st # xs) \<subseteq> fst ` heap_live (s_heap st)"

lemma kmalloc_ex:
  assumes "heap_ok h"
  shows "\<exists>p h'. kmalloc n h = Some (p, h') \<and> heap_ok h' \<and> (p = 0 \<longrightarrow> h' = h) \<and>
    (p \<noteq> 0 \<longrightarrow> p \<notin> fst ` heap_live h \<and> fst ` heap_live h' = insert p (fst ` heap_live h))"
proof -
  obtain p h' where k: "kmalloc n h = Some (p, h')" "heap_ok h'" "p = 0 \<longrightarrow> h' = h"
    "p \<noteq> 0 \<longrightarrow> (\<exists>m. p \<notin> fst ` heap_live h \<and> heap_live h' = insert (p, m) (heap_live h))"
    using kmalloc_live [OF assms, of n] by blast
  show ?thesis
  proof (cases "p = 0")
    case True
    then show ?thesis using k by simp
  next
    case False
    then obtain m where "p \<notin> fst ` heap_live h" "heap_live h' = insert (p, m) (heap_live h)" using k(4) by blast
    then show ?thesis using k(1,2) False by simp
  qed
qed

lemma tasks_live_nz: "tasks_live st xs \<Longrightarrow> 0 \<notin> set (current st # xs)"
  by (simp add: tasks_live_def ring_def)

lemma upd_task_simps [simp]:
  "tcb (upd_task p f st) y = (if y = p then f (tcb st p) else tcb st y)"
  "current (upd_task p f st) = current st" "s_heap (upd_task p f st) = s_heap st"
  by (simp_all add: upd_task_def)

lemma link_task_tcb:
  "tcb (link_task t st) y = (if y = current st then (tcb (upd_task t (\<lambda>b. b\<lparr>t_next := t_next (tcb st (current st))\<rparr>) st) y)\<lparr>t_next := t\<rparr>
     else if y = t then (tcb st t)\<lparr>t_next := t_next (tcb st (current st))\<rparr> else tcb st y)"
  by (simp add: link_task_def)

lemma link_task_next:
  "t \<noteq> current st \<Longrightarrow> t_next (tcb (link_task t st) y) =
    (if y = current st then t else if y = t then t_next (tcb st (current st)) else t_next (tcb st y))"
  by (simp add: link_task_tcb)

lemma link_task_keeps:
  assumes "\<And>b x. g (b\<lparr>t_next := x\<rparr>) = g b"
  shows "g (tcb (link_task t st) y) = g (tcb st y)"
  by (simp add: link_task_tcb assms)

lemma link_task_simps [simp]:
  "current (link_task t st) = current st" "s_heap (link_task t st) = s_heap st"
  "t_state (tcb (link_task t st) y) = t_state (tcb st y)" "t_rsp (tcb (link_task t st) y) = t_rsp (tcb st y)"
  "t_id (tcb (link_task t st) y) = t_id (tcb st y)" "t_parent (tcb (link_task t st) y) = t_parent (tcb st y)"
  "t_pml4_phys (tcb (link_task t st) y) = t_pml4_phys (tcb st y)"
  "t_stdin_node (tcb (link_task t st) y) = t_stdin_node (tcb st y)"
  "t_stdout_node (tcb (link_task t st) y) = t_stdout_node (tcb st y)"
  "t_stdin_pos (tcb (link_task t st) y) = t_stdin_pos (tcb st y)"
  "t_stdout_pos (tcb (link_task t st) y) = t_stdout_pos (tcb st y)"
  by (simp_all add: link_task_keeps) (simp_all add: link_task_def)

lemma task_create_eq:
  assumes "kmalloc TASK_SIZE (s_heap st) = Some (t, h1)" and "kmalloc TASK_STACK_SIZE h1 = Some (base, h2)"
    and "push_all [0, entry, 0x202, 0, 0, 0, 0, 0, 0] ((base + TASK_STACK_SIZE) AND NOT 0xF) (hmem h2) = (sp, m)"
  shows "task_create name entry st = Some (t, link_task t (upd_task t (\<lambda>b. b\<lparr>t_stack_base := base,
             t_stack_size := TASK_STACK_SIZE, t_id := next_id st,
             t_state := TASK_READY, t_name := name, t_wq_next := 0, t_parent := 0, t_saved_user_rsp := 0,
             t_pml4_phys := 0, t_rsp := sp, t_kernel_stack_top := base + TASK_STACK_SIZE\<rparr>)
           (st\<lparr>s_heap := h2\<lparr>hmem := m\<rparr>, next_id := next_id st + 1\<rparr>)))"
  using assms by (simp add: task_create_def del: push_all.simps)

lemma ring_new:
  assumes ring: "ring st xs" and t: "t \<noteq> 0" "t \<notin> set (current st # xs)"
    and f: "\<And>b. t_next (f b) = t_next b" and s: "tcb s = tcb st" "current s = current st"
  shows "ring (link_task t (upd_task t f s)) (t # xs)"
proof (rule ring_link [OF ring t])
  show "t_next (tcb (link_task t (upd_task t f s)) y) =
    (if y = current st then t else if y = t then t_next (tcb st (current st)) else t_next (tcb st y))" for y
    using t(2) s f link_task_next [of t "upd_task t f s" y] by auto
  show "current (link_task t (upd_task t f s)) = current st" using s by simp
qed

lemma frame_of_create:
  assumes "push_all [0, entry, 0x202, 0, 0, 0, 0, 0, 0] (x AND NOT 0xF) m = (sp, m')"
  shows "restore_context m' sp = [0, 0, 0, 0, 0, 0, 0x202, entry]"
  by (rule push_frame [OF aligned_top assms, where pre = "[0]"]) simp_all

lemma frame_of_fork:
  assumes "push_all [entry, 0x202, 0, 0, 0, 0, usp, rip] (x AND NOT 0xF) m = (sp, m')"
  shows "restore_context m' sp = [rip, usp, 0, 0, 0, 0, 0x202, entry]"
  by (rule push_frame [OF aligned_top assms, where pre = "[]"]) simp_all

text \<open>\<open>task_create\<close> on a ring of live tasks always returns.  If the control block can be
  allocated, the new task is ready, has the next identifier, stands in the ring directly behind
  the current task, and its first \<open>task_switch\<close> restores zeroed registers and flags \<open>0x202\<close>
  and returns to the entry point.\<close>

theorem task_create_correct:
  assumes "tasks_live st xs"
  shows "\<exists>t st'. task_create name entry st = Some (t, st') \<and>
    (t \<noteq> 0 \<longrightarrow> tasks_live st' (t # xs) \<and> t_state (tcb st' t) = TASK_READY \<and> t_id (tcb st' t) = next_id st \<and>
      restore_context (hmem (s_heap st')) (t_rsp (tcb st' t)) = [0, 0, 0, 0, 0, 0, 0x202, entry])"
proof -
  have ring: "ring st xs" and ok: "heap_ok (s_heap st)"
    and live: "set (current st # xs) \<subseteq> fst ` heap_live (s_heap st)"
    using assms by (auto simp: tasks_live_def)
  obtain t h1 where k1: "kmalloc TASK_SIZE (s_heap st) = Some (t, h1)" "heap_ok h1"
    "t \<noteq> 0 \<longrightarrow> t \<notin> fst ` heap_live (s_heap st) \<and> fst ` heap_live h1 = insert t (fst ` heap_live (s_heap st))"
    using kmalloc_ex [OF ok, of TASK_SIZE] by blast
  obtain base h2 where k2: "kmalloc TASK_STACK_SIZE h1 = Some (base, h2)" "heap_ok h2"
    "base = 0 \<longrightarrow> h2 = h1" "base \<noteq> 0 \<longrightarrow> fst ` heap_live h2 = insert base (fst ` heap_live h1)"
    using kmalloc_ex [OF k1(2), of TASK_STACK_SIZE] by blast
  then have grow: "fst ` heap_live h1 \<subseteq> fst ` heap_live h2" by (cases "base = 0") auto
  obtain sp m where pu: "push_all [0, entry, 0x202, 0, 0, 0, 0, 0, 0] ((base + TASK_STACK_SIZE) AND NOT 0xF) (hmem h2) = (sp, m)"
    by fastforce
  note eq = task_create_eq [OF k1(1) k2(1) pu, of name]
  note fr = frame_of_create [OF pu]
  have hm: "heap_ok (h2\<lparr>hmem := m\<rparr>)" "heap_live (h2\<lparr>hmem := m\<rparr>) = heap_live h2"
    using heap_hmem [OF k2(2), of m] by auto
  show ?thesis
  proof (cases "t = 0")
    case False
    have new: "t \<notin> set (current st # xs)" using k1(3) False live by auto
    note rn = ring_new [OF ring False new]
    have sub: "insert t (set (current st # xs)) \<subseteq> fst ` heap_live h2" using k1(3) False grow live by auto
    obtain f s where st': "task_create name entry st = Some (t, link_task t (upd_task t f s))"
      and f: "\<And>b. t_next (f b) = t_next b" "\<And>b. t_state (f b) = TASK_READY" "\<And>b. t_id (f b) = next_id st" "\<And>b. t_rsp (f b) = sp"
      and s: "tcb s = tcb st" "current s = current st" "s_heap s = h2\<lparr>hmem := m\<rparr>"
      using eq by force
    have "ring (link_task t (upd_task t f s)) (t # xs)" by (rule rn [OF f(1) s(1,2)])
    then show ?thesis
      using st' f s fr hm sub
      by (intro exI [of _ t] exI [of _ "link_task t (upd_task t f s)"]) (simp add: tasks_live_def)
  qed (use eq in simp)
qed

lemma task_init_live:
  assumes "heap_ok (s_heap st)"
  shows "\<exists>st'. task_init st = Some st' \<and> (current st' \<noteq> 0 \<longrightarrow> tasks_live st' [])"
proof -
  obtain p h where k: "kmalloc TASK_SIZE (s_heap st) = Some (p, h)" "heap_ok h"
    "p \<noteq> 0 \<longrightarrow> p \<notin> fst ` heap_live (s_heap st) \<and> fst ` heap_live h = insert p (fst ` heap_live (s_heap st))"
    using kmalloc_ex [OF assms, of TASK_SIZE] by blast
  then show ?thesis by (auto simp: task_init_def tasks_live_def ring_def upd_task_def)
qed

lemma demo_started: "\<exists>st0. task_init demo_sched = Some st0 \<and> tasks_live st0 []"
proof -
  have h: "s_heap demo_sched = demo_heap" by (simp add: demo_sched_def)
  obtain st0 where i: "task_init demo_sched = Some st0" "current st0 \<noteq> 0 \<longrightarrow> tasks_live st0 []"
    using task_init_live [of demo_sched] demo_heap_ok h by auto
  have "heap_live demo_heap = {}" using heap_setup_live [of blank_heap] by (simp add: demo_heap_def)
  then have "fits (hdr demo_heap) (heap_need TASK_SIZE) HEAP_START"
    by (simp add: fits_def demo_heap_def heap_setup_def heap_need_def TASK_SIZE_def ALIGN16_def HEADER_SIZE_def
        HEAP_SIZE_def PAGE_SIZE_def)
  then have "first_fit (hdr demo_heap) (heap_need TASK_SIZE) (heap_head demo_heap) = Some HEAP_START"
    using kmalloc_search [OF heap_setup_rep, of blank_heap "heap_need TASK_SIZE"] by (simp add: demo_heap_def)
  then have "current st0 = HEAP_START + HEADER_SIZE"
    using i(1) h by (auto simp: task_init_def kmalloc_def TASK_SIZE_def HEAP_START_def upd_task_def)
  then show ?thesis using i by (auto simp: HEAP_START_def HEADER_SIZE_def)
qed

theorem task_create_correct_witness:
  "\<exists>st0 t st'. task_init demo_sched = Some st0 \<and> task_create ''user'' 0x1000 st0 = Some (t, st') \<and>
    (t \<noteq> 0 \<longrightarrow> restore_context (hmem (s_heap st')) (t_rsp (tcb st' t)) = [0, 0, 0, 0, 0, 0, 0x202, 0x1000])"
proof -
  obtain st0 where i: "task_init demo_sched = Some st0" "tasks_live st0 []" using demo_started by blast
  from task_create_correct [OF i(2), of "''user''" "0x1000"] i(1) show ?thesis by blast
qed

section \<open>Fork\<close>

lemma task_fork_eq:
  assumes "kmalloc TASK_SIZE (s_heap st) = Some (c, h1)" and "c \<noteq> 0"
    and "vmm_clone_pml4_deep fbi (vmm_current_pml4 (s_vmm st)) (s_vmm st) = (pml4, v)" and "pml4 \<noteq> 0"
    and "kmalloc TASK_STACK_SIZE h1 = Some (base, h2)"
    and "push_all [entry, 0x202, 0, 0, 0, 0, saved_user_rsp st, syscall_user_rcx st]
          ((base + TASK_STACK_SIZE) AND NOT 0xF) (hmem h2) = (sp, m)"
  shows "task_fork fbi entry st =
    (let st2 = link_task c (upd_task c (\<lambda>b. b\<lparr>t_stdin_node := t_stdin_node (tcb st (current st)),
                  t_stdout_node := t_stdout_node (tcb st (current st)),
                  t_stdin_pos := t_stdin_pos (tcb st (current st)), t_stdout_pos := t_stdout_pos (tcb st (current st)),
                  t_stack_base := base, t_stack_size := TASK_STACK_SIZE, t_kernel_stack_top := base + TASK_STACK_SIZE,
                  t_pml4_phys := pml4, t_saved_user_rsp := saved_user_rsp st, t_id := next_id st,
                  t_state := TASK_READY, t_name := ''child'', t_next := 0, t_wq_next := 0,
                  t_parent := current st, t_rsp := sp\<rparr>)
                (st\<lparr>s_heap := h2\<lparr>hmem := m\<rparr>, s_vmm := v, next_id := next_id st + 1\<rparr>))
     in Some (sint (t_id (tcb st2 c)), st2))"
  using assms by (simp add: task_fork_def Let_def del: push_all.simps link_task_simps upd_task_simps)

text \<open>C19. \<open>task_fork\<close> always returns, and its result is settled by its two allocations.  Without memory
  for the control block it yields -1 and changes nothing.  When the address space cannot be cloned it
  yields -1, gives the control block back and changes no task, but the memory management keeps
  what the clone had taken up to its failure.  Otherwise it yields the identifier of a new ready child, which
  stands behind its parent in the ring, inherits the standard streams, runs in the cloned address
  space, and whose first \<open>task_switch\<close> restores the user return address in \<open>r15\<close> and the user stack
  pointer in \<open>r14\<close> (where \<open>fork_child_entry\<close> expects them) and enters \<open>fork_child_entry\<close>; no other
  control block changes but for the parent's link.\<close>

theorem task_fork_correct:
  assumes "tasks_live st xs"
  shows "\<exists>c h r st'. kmalloc TASK_SIZE (s_heap st) = Some (c, h) \<and> task_fork fbi entry st = Some (r, st') \<and>
    (case vmm_clone_pml4_deep fbi (vmm_current_pml4 (s_vmm st)) (s_vmm st) of (pml4, v) \<Rightarrow>
      if c = 0 then r = -1 \<and> st' = st
      else if pml4 = 0 then r = -1 \<and> tcb st' = tcb st \<and> current st' = current st \<and> heap_ok (s_heap st') \<and>
        heap_live (s_heap st') = heap_live (s_heap st) \<and> s_vmm st' = v
      else c \<notin> set (current st # xs) \<and> r = sint (next_id st) \<and> next_id st' = next_id st + 1 \<and>
        tasks_live st' (c # xs) \<and> current st' = current st \<and> s_vmm st' = v \<and>
        t_id (tcb st' c) = next_id st \<and> t_state (tcb st' c) = TASK_READY \<and> t_parent (tcb st' c) = current st \<and>
        t_pml4_phys (tcb st' c) = pml4 \<and>
        t_stdin_node (tcb st' c) = t_stdin_node (tcb st (current st)) \<and>
        t_stdout_node (tcb st' c) = t_stdout_node (tcb st (current st)) \<and>
        t_stdin_pos (tcb st' c) = t_stdin_pos (tcb st (current st)) \<and>
        t_stdout_pos (tcb st' c) = t_stdout_pos (tcb st (current st)) \<and>
        restore_context (hmem (s_heap st')) (t_rsp (tcb st' c)) =
          [syscall_user_rcx st, saved_user_rsp st, 0, 0, 0, 0, 0x202, entry] \<and>
        (\<forall>y. y \<noteq> c \<longrightarrow> tcb st' y = (if y = current st then (tcb st y)\<lparr>t_next := c\<rparr> else tcb st y)))"
proof -
  have ring: "ring st xs" and ok: "heap_ok (s_heap st)"
    and live: "set (current st # xs) \<subseteq> fst ` heap_live (s_heap st)"
    using assms by (auto simp: tasks_live_def)
  obtain c h1 where k0: "kmalloc TASK_SIZE (s_heap st) = Some (c, h1)" "heap_ok h1" "c = 0 \<longrightarrow> h1 = s_heap st"
    "c \<noteq> 0 \<longrightarrow> (\<exists>m. c \<notin> fst ` heap_live (s_heap st) \<and> heap_live h1 = insert (c, m) (heap_live (s_heap st)))"
    using kmalloc_live [OF ok, of TASK_SIZE] by blast
  obtain pml4 v where cl: "vmm_clone_pml4_deep fbi (vmm_current_pml4 (s_vmm st)) (s_vmm st) = (pml4, v)" by fastforce
  show ?thesis
  proof (cases "c = 0")
    case True
    then show ?thesis using k0 by (simp add: task_fork_def cl)
  next
    case c0: False
    then obtain m0 where k1: "c \<notin> fst ` heap_live (s_heap st)" "heap_live h1 = insert (c, m0) (heap_live (s_heap st))"
      using k0(4) by blast
    show ?thesis
    proof (cases "pml4 = 0")
      case True
      obtain h2 where h2: "kfree c h1 = Some h2" "heap_ok h2" "heap_live h2 = heap_live h1 - {(c, m0)}"
        using kfree_live [OF k0(2), of c m0] k1(2) by blast
      moreover have "(c, m0) \<notin> heap_live (s_heap st)" using k1(1) by force
      ultimately have "heap_live h2 = heap_live (s_heap st)" using k1(2) by simp
      moreover have "task_fork fbi entry st = Some (- 1, st\<lparr>s_heap := h2, s_vmm := v\<rparr>)"
        using True c0 cl k0(1) h2(1) by (simp add: task_fork_def)
      ultimately show ?thesis using True c0 cl k0(1) h2(2) by simp
    next
      case p0: False
      obtain base h2 where k2: "kmalloc TASK_STACK_SIZE h1 = Some (base, h2)" "heap_ok h2"
        "base = 0 \<longrightarrow> h2 = h1" "base \<noteq> 0 \<longrightarrow> fst ` heap_live h2 = insert base (fst ` heap_live h1)"
        using kmalloc_ex [OF k0(2), of TASK_STACK_SIZE] by blast
      then have "fst ` heap_live h1 \<subseteq> fst ` heap_live h2" by (cases "base = 0") auto
      then have sub: "insert c (set (current st # xs)) \<subseteq> fst ` heap_live h2" using k1(2) live by auto
      have new: "c \<notin> set (current st # xs)" using k1(1) live by auto
      obtain sp m where pu: "push_all [entry, 0x202, 0, 0, 0, 0, saved_user_rsp st, syscall_user_rcx st]
          ((base + TASK_STACK_SIZE) AND NOT 0xF) (hmem h2) = (sp, m)" by fastforce
      note fr = frame_of_fork [OF pu]
      obtain f s where st': "task_fork fbi entry st = Some (sint (t_id (tcb (link_task c (upd_task c f s)) c)),
            link_task c (upd_task c f s))"
        and f: "\<And>b. t_next (f b) = 0" "\<And>b. t_state (f b) = TASK_READY" "\<And>b. t_id (f b) = next_id st"
          "\<And>b. t_rsp (f b) = sp" "\<And>b. t_parent (f b) = current st" "\<And>b. t_pml4_phys (f b) = pml4"
          "\<And>b. t_stdin_node (f b) = t_stdin_node (tcb st (current st))"
          "\<And>b. t_stdout_node (f b) = t_stdout_node (tcb st (current st))"
          "\<And>b. t_stdin_pos (f b) = t_stdin_pos (tcb st (current st))"
          "\<And>b. t_stdout_pos (f b) = t_stdout_pos (tcb st (current st))"
        and s: "tcb s = tcb st" "current s = current st" "s_heap s = h2\<lparr>hmem := m\<rparr>" "s_vmm s = v" "next_id s = next_id st + 1"
        using task_fork_eq [OF k0(1) c0 cl p0 k2(1) pu] unfolding Let_def by (rule that) simp_all
      let ?st = "link_task c (upd_task c f s)"
      have "ring ?st (c # xs)"
        using new s by (intro ring_link [OF ring c0 new]) (auto simp: link_task_next)
      moreover have "heap_ok (h2\<lparr>hmem := m\<rparr>)" "heap_live (h2\<lparr>hmem := m\<rparr>) = heap_live h2"
        using heap_hmem [OF k2(2), of m] by auto
      moreover have "s_vmm ?st = v" "next_id ?st = next_id st + 1" using s by (simp_all add: link_task_def upd_task_def)
      moreover have "\<forall>y. y \<noteq> c \<longrightarrow> tcb ?st y = (if y = current st then (tcb st y)\<lparr>t_next := c\<rparr> else tcb st y)"
        using s new by (auto simp: link_task_tcb)
      ultimately show ?thesis
        using st' f s(1-3) fr sub c0 p0 new k0(1) cl
        by (intro exI [of _ c] exI [of _ h1] exI [of _ "sint (next_id st)"] exI [of _ ?st]) (simp add: tasks_live_def)
    qed
  qed
qed

text \<open>A fork that succeeds: the demonstration scheduler, started on an address space without user pages.\<close>

lemma for_ok_id: "(\<And>i s. vmem s = (\<lambda>_. 0) \<Longrightarrow> f i s = (True, s)) \<Longrightarrow> vmem s = (\<lambda>_. 0) \<Longrightarrow> for_ok f is s = (True, s)"
  by (induction "is") simp_all

lemma demo_clone:
  "\<exists>pml4 v. vmm_clone_pml4_deep fbi (vmm_current_pml4 demo_vmm) demo_vmm = (pml4, v) \<and> pml4 \<noteq> 0"
proof -
  obtain dst fr where a: "pmm_alloc_page demo_pmm = (dst, fr)" by fastforce
  have d: "dst \<noteq> 0"
  proof
    assume "dst = 0"
    then have "free_frames demo_pmm = {}" using alloc_none [OF demo_pmm_inv] a by blast
    then show False using demo_free by simp
  qed
  have wr: "wr_bytes (\<lambda>_. 0) t (replicate n 0) = (\<lambda>_. 0)" for t n
    by (induction n arbitrary: t) (simp_all add: fun_upd_def)
  have "le_bytes 8 (0 :: u64) = replicate 8 0" by (rule nth_equalityI) (simp_all add: nth_le_bytes)
  then have set0: "pt_set t i 0 (\<lambda>_. 0) = (\<lambda>_. 0)" for t i using wr [of _ 8] by (simp only: pt_set_def wr64_def)
  have z: "zero_page t (\<lambda>_. 0) = (\<lambda>_. 0)" for t by (simp only: zero_page_def wr)
  have slot: "set_slot t i 0 s = s" if "vmem s = (\<lambda>_. 0)" for t i s using that set0 by (simp add: set_slot_def)
  let ?s = "demo_vmm\<lparr>frames := fr, vmem := \<lambda>_. 0\<rparr>"
  have "for_ok (clone_pml4e fbi src dst) slots ?s = (True, ?s)" for src
    by (rule for_ok_id) (simp_all add: clone_pml4e_def demo_ent slot)
  then show ?thesis using a d z by (simp add: vmm_clone_pml4_deep_def demo_vmm_def)
qed

theorem task_fork_correct_witness:
  "\<forall>fbi. \<exists>st0 c st'. task_init demo_sched = Some st0 \<and> task_fork fbi 0x9000 st0 = Some (3, st') \<and>
    t_state (tcb st' c) = TASK_READY \<and> t_parent (tcb st' c) = current st0 \<and>
    restore_context (hmem (s_heap st')) (t_rsp (tcb st' c)) = [0, 0x7000, 0, 0, 0, 0, 0x202, 0x9000]"
proof
  fix fbi
  obtain st0 where i: "task_init demo_sched = Some st0" "tasks_live st0 []" using demo_started by blast
  obtain p h where k: "kmalloc TASK_SIZE demo_heap = Some (p, h)" using kmalloc_ex [OF demo_heap_ok] by blast
  have f: "s_heap st0 = h" "next_id st0 = 3" "s_vmm st0 = demo_vmm" "saved_user_rsp st0 = 0x7000" "syscall_user_rcx st0 = 0"
    using i(1) k by (auto simp: task_init_def demo_sched_def upd_task_def)
  have "room demo_heap (alloc_cost TASK_SIZE + (alloc_cost TASK_SIZE + 0))"
    by (rule room_mono [OF demo_room]) (simp add: alloc_cost_def TASK_SIZE_def heap_need_def ALIGN16_def HEADER_SIZE_def)
  then have room: "room h (alloc_cost TASK_SIZE + 0)" using kmalloc_room [OF _ _ k] by (simp add: TASK_SIZE_def)
  obtain pml4 v where cl: "vmm_clone_pml4_deep fbi (vmm_current_pml4 (s_vmm st0)) (s_vmm st0) = (pml4, v)" "pml4 \<noteq> 0"
    using demo_clone f(3) by metis
  from task_fork_correct [OF i(2), of fbi "0x9000"]
  obtain c h' r st' where r: "kmalloc TASK_SIZE h = Some (c, h')" "task_fork fbi 0x9000 st0 = Some (r, st')" and
    e: "c \<noteq> 0 \<longrightarrow> r = 3 \<and> t_state (tcb st' c) = TASK_READY \<and> t_parent (tcb st' c) = current st0 \<and>
      restore_context (hmem (s_heap st')) (t_rsp (tcb st' c)) = [0, 0x7000, 0, 0, 0, 0, 0x202, 0x9000]"
    using cl f by auto
  have "c \<noteq> 0" using kmalloc_room [OF room _ r(1)] by (simp add: TASK_SIZE_def)
  then show "\<exists>st0 c st'. task_init demo_sched = Some st0 \<and> task_fork fbi 0x9000 st0 = Some (3, st') \<and>
    t_state (tcb st' c) = TASK_READY \<and> t_parent (tcb st' c) = current st0 \<and>
    restore_context (hmem (s_heap st')) (t_rsp (tcb st' c)) = [0, 0x7000, 0, 0, 0, 0, 0x202, 0x9000]" using i(1) r(2) e by auto
qed

text \<open>\<open>task_create\<close> does not set the standard streams: the fields \<open>stdin_node\<close> and
  \<open>stdout_node\<close> of a new task are whatever the heap memory held before.\<close>

theorem task_create_keeps_streams:
  assumes "task_create name entry st = Some (t, st')"
  shows "t_stdin_node (tcb st' t) = t_stdin_node (tcb st t) \<and> t_stdout_node (tcb st' t) = t_stdout_node (tcb st t)"
proof -
  obtain t' h1 where k1: "kmalloc TASK_SIZE (s_heap st) = Some (t', h1)"
    using assms by (cases "kmalloc TASK_SIZE (s_heap st)") (auto simp: task_create_def)
  obtain base h2 where k2: "kmalloc TASK_STACK_SIZE h1 = Some (base, h2)"
    using assms k1 by (cases "kmalloc TASK_STACK_SIZE h1") (auto simp: task_create_def)
  obtain sp m where pu: "push_all [0, entry, 0x202, 0, 0, 0, 0, 0, 0] ((base + TASK_STACK_SIZE) AND NOT 0xF) (hmem h2) = (sp, m)"
    by fastforce
  from task_create_eq [OF k1 k2 pu, of name] assms show ?thesis by auto
qed

theorem task_create_keeps_streams_witness:
  "\<exists>t st'. task_create ''user'' 0x1000 (demo_sched\<lparr>tcb := \<lambda>_. demo_task\<lparr>t_stdout_node := 0xBAD\<rparr>\<rparr>) = Some (t, st') \<and>
    t_stdout_node (tcb st' t) = 0xBAD"
proof -
  let ?st = "demo_sched\<lparr>tcb := \<lambda>_. demo_task\<lparr>t_stdout_node := 0xBAD\<rparr>\<rparr>"
  have "heap_ok (s_heap ?st)" using demo_heap_ok by (simp add: demo_sched_def)
  then obtain t h1 where k1: "kmalloc TASK_SIZE (s_heap ?st) = Some (t, h1)" "heap_ok h1"
    using kmalloc_ex by blast
  obtain base h2 where k2: "kmalloc TASK_STACK_SIZE h1 = Some (base, h2)" using kmalloc_ex [OF k1(2)] by blast
  obtain sp m where pu: "push_all [0, 0x1000, 0x202, 0, 0, 0, 0, 0, 0] ((base + TASK_STACK_SIZE) AND NOT 0xF) (hmem h2) = (sp, m)"
    by fastforce
  from task_create_eq [OF k1(1) k2 pu, of "''user''"]
  obtain st' where c: "task_create ''user'' 0x1000 ?st = Some (t, st')" by blast
  from task_create_keeps_streams [OF c] c show ?thesis by (auto simp del: task_create_eq)
qed

section \<open>Sleeping, killing and listing\<close>

lemma free_slot_Some: "free_slot ss = Some i \<Longrightarrow> i < MAX_SLEEPERS \<and> \<not> sl_used (ss ! i)"
  by (auto simp: free_slot_def find_Some_iff)

text \<open>\<open>task_sleep\<close> with a free slot and a ring of tasks returns; it registers the current task to
  be woken \<open>max 1 \<lceil>ms / 10\<rceil>\<close> ticks later and leaves it blocked; when all 32 slots are in use the
  call returns at once and the task does not sleep.\<close>

theorem task_sleep_correct:
  assumes "ring st xs" and "length (sleepers st) = MAX_SLEEPERS" and "unat ms + 9 < 2 ^ 64"
  shows "\<exists>st'. task_sleep ms st = Some st' \<and>
    (case free_slot (sleepers st) of
       None \<Rightarrow> (\<forall>i<MAX_SLEEPERS. sl_used (sleepers st ! i)) \<and> st' = st
     | Some i \<Rightarrow> \<not> sl_used (sleepers st ! i) \<and> t_state (tcb st' (current st)) = TASK_BLOCKED \<and>
         sl_used (sleepers st' ! i) \<and> sl_task (sleepers st' ! i) = current st \<and>
         sl_wake_at (sleepers st' ! i) = global_tick st + of_nat (max 1 ((unat ms + 9) div 10)))"
proof (cases "free_slot (sleepers st)")
  case None
  then have "\<forall>i<MAX_SLEEPERS. sl_used (sleepers st ! i)" by (auto simp: free_slot_def find_None_iff)
  then show ?thesis using None by (simp add: task_sleep_def)
next
  case (Some i)
  have i: "i < MAX_SLEEPERS" "\<not> sl_used (sleepers st ! i)" using free_slot_Some [OF Some] by auto
  define ticks where "ticks = (if (ms + 9) div 10 = 0 then 1 else (ms + 9) div 10)"
  have "unat (ms + 9) = unat ms + 9" using assms(3) by (simp add: unat_plus_small)
  then have d: "unat ((ms + 9) div 10) = (unat ms + 9) div 10" by (simp add: unat_div)
  have "unat ticks = max 1 ((unat ms + 9) div 10)"
  proof (cases "(ms + 9) div 10 = 0")
    case True
    then show ?thesis using d by (simp add: ticks_def)
  next
    case False
    then have "unat ((ms + 9) div 10) \<noteq> 0" by (metis unat_eq_0)
    then show ?thesis using d False by (simp add: ticks_def max_def)
  qed
  then have tk: "ticks = of_nat (max 1 ((unat ms + 9) div 10))"
    by (metis of_nat_unat ucast_id)
  let ?s = "\<lparr>sl_task = current st, sl_wake_at = global_tick st + ticks, sl_used = True\<rparr>"
  let ?st = "upd_task (current st) (\<lambda>t. t\<lparr>t_state := TASK_BLOCKED\<rparr>) (st\<lparr>sleepers := (sleepers st)[i := ?s]\<rparr>)"
  have call: "task_sleep ms st = schedule ?st" using Some by (simp add: task_sleep_def ticks_def Let_def)
  have sl: "sleepers ?st = (sleepers st)[i := ?s]" "current ?st = current st"
    "t_state (tcb ?st (current st)) = TASK_BLOCKED" by (simp_all add: upd_task_def)
  have "path (tcb ?st) a ys b = path (tcb st) a ys b" for a ys b by (rule path_cong) (simp add: upd_task_def)
  then have "ring ?st xs" using assms(1) by (simp add: ring_def)
  then have "\<exists>st'. schedule ?st = Some st' \<and> t_state (tcb st' (current st)) = TASK_BLOCKED \<and> sleepers st' = sleepers ?st"
  proof (cases rule: schedule_cases)
    case idle
    then show ?thesis using sl by auto
  next
    case (run pre x post)
    have "x \<noteq> current st" using run(1) assms(1) by (auto simp: ring_def)
    then have x: "x \<noteq> current ?st" using sl by simp
    from run(4) switch_to_other(3,8) [OF x refl] sl(2,3) show ?thesis by auto
  qed
  then show ?thesis using call sl(1) i assms(2) Some tk by auto
qed

theorem task_sleep_correct_witness:
  "\<exists>st'. task_sleep 25 demo_sched = Some st' \<and> t_state (tcb st' 16) = TASK_BLOCKED \<and> sl_wake_at (sleepers st' ! 0) = 10"
proof -
  have s: "free_slot (sleepers demo_sched) = Some 0" "current demo_sched = 16" "global_tick demo_sched = 7"
    by (simp_all add: demo_sched_def free_slot_def MAX_SLEEPERS_def upt_rec)
  have "length (sleepers demo_sched) = MAX_SLEEPERS" by (simp add: demo_sched_def MAX_SLEEPERS_def)
  from task_sleep_correct [OF demo_ring this, of 25] s show ?thesis by auto
qed

text \<open>Which task \<open>task_kill_by_id\<close> finds.\<close>

lemma find_by_id_path:
  assumes "path T a xs c" and "c \<notin> set xs" and "0 \<notin> set (a # xs)"
  shows "find_by_id T i c a = Some (case find (\<lambda>x. t_id (T x) = i) (a # xs) of None \<Rightarrow> 0 | Some x \<Rightarrow> x)"
  using assms
proof (induction xs arbitrary: a)
  case Nil
  then show ?case by (simp add: find_by_id.simps)
next
  case (Cons x xs)
  have "find_by_id T i c x = Some (case find (\<lambda>x. t_id (T x) = i) (x # xs) of None \<Rightarrow> 0 | Some x \<Rightarrow> x)"
    using Cons by simp
  then show ?case using Cons.prems by (auto simp: find_by_id.simps [of T i c a])
qed

text \<open>\<open>task_kill_by_id\<close> on a ring returns: -1 without any change for the id 0 and for an id no
  task has, otherwise 0 with the first task of that id (from the current one) marked dead and
  every other task, and the ring itself, unchanged.\<close>

theorem task_kill_correct:
  assumes "ring st xs"
  shows "task_kill_by_id i st = Some (
    if i = 0 then (-1, st)
    else case find (\<lambda>x. t_id (tcb st x) = word_of_int i) (current st # xs) of
           None \<Rightarrow> (-1, st)
         | Some x \<Rightarrow> (0, st\<lparr>tcb := (tcb st)(x := (tcb st x)\<lparr>t_state := TASK_DEAD\<rparr>)\<rparr>))"
proof -
  have p: "path (tcb st) (current st) xs (current st)" "current st \<notin> set xs" "0 \<notin> set (current st # xs)"
    using assms by (auto simp: ring_def)
  let ?P = "\<lambda>x. t_id (tcb st x) = word_of_int i"
  have "x \<noteq> 0" if f: "find ?P (current st # xs) = Some x" for x
  proof -
    obtain pre post where "current st # xs = pre @ x # post" using find_split [OF f] by blast
    then have "x \<in> set (current st # xs)" by (metis in_set_conv_decomp)
    then show ?thesis using p(3) by auto
  qed
  then show ?thesis
    using find_by_id_path [OF p, of "word_of_int i"] p(3)
    by (auto simp: task_kill_by_id_def upd_task_def split: option.splits simp del: find.simps)
qed

theorem task_kill_correct_witness:
  "\<exists>st'. task_kill_by_id 2 demo_sched = Some (0, st') \<and> t_state (tcb st' 48) = TASK_DEAD"
  using task_kill_correct [OF demo_ring, of 2] by (simp add: demo_sched_def demo_task_def)

lemma rev_digits_length: "n < 10 ^ k \<Longrightarrow> length (rev_digits n) \<le> k"
proof (induction k arbitrary: n)
  case (Suc k)
  then have "n div 10 < 10 ^ k" by (simp add: less_mult_imp_div_less)
  from Suc.IH [OF this] show ?case by (subst rev_digits.simps) simp
qed simp

lemma state_name_length: "length (state_name s) \<le> 7"
  by (cases s) (simp_all add: state_name_def)

lemma task_line_length:
  assumes "sint (t_id t) < 100000000"
  shows "length (task_line t) \<le> 61"
proof -
  have "length (rev_digits (nat (sint (t_id t)))) \<le> 8"
    using assms by (intro rev_digits_length) simp
  then have "length (id_text (t_id t)) \<le> 8" by (simp add: id_text_def)
  then show ?thesis using state_name_length [of "t_state t"] by (auto simp: task_line_def Let_def min_def)
qed

lemma list_info_bound:
  assumes "path T a xs c" and "c \<notin> set xs" and "0 \<notin> set xs" and "int (length buf) \<le> mx"
  shows "\<exists>r. list_info_loop T c mx a buf = Some r \<and> int (length r) \<le> mx \<and> (\<exists>s. r = buf @ s) \<and>
    (int (length buf) + (\<Sum>x\<leftarrow>a # xs. int (length (task_line (T x)))) \<le> mx \<longrightarrow> r = buf @ concat (map (\<lambda>x. task_line (T x)) (a # xs)))"
  using assms
proof (induction xs arbitrary: a buf)
  case Nil
  then show ?case by (auto simp: list_info_loop.simps Let_def)
next
  case (Cons x xs)
  show ?case
  proof (cases "mx < int (length buf + length (task_line (T a)))")
    case True
    have "0 \<le> (\<Sum>x\<leftarrow>xs. int (length (task_line (T x))))" by (induction xs) auto
    then show ?thesis using True Cons.prems by (auto simp: list_info_loop.simps [of T c mx a] Let_def)
  next
    case False
    let ?buf = "buf @ task_line (T a)"
    have "\<exists>r. list_info_loop T c mx x ?buf = Some r \<and> int (length r) \<le> mx \<and> (\<exists>s. r = ?buf @ s) \<and>
      (int (length ?buf) + (\<Sum>y\<leftarrow>x # xs. int (length (task_line (T y)))) \<le> mx \<longrightarrow>
        r = ?buf @ concat (map (\<lambda>y. task_line (T y)) (x # xs)))"
      using Cons.prems False by (intro Cons.IH) auto
    moreover have "list_info_loop T c mx a buf = list_info_loop T c mx x ?buf"
      using Cons.prems False by (subst list_info_loop.simps) (auto simp: Let_def)
    ultimately show ?thesis by (auto simp: add.assoc)
  qed
qed

text \<open>\<open>task_list_info\<close> on a ring returns and never writes more than \<open>max\<close> bytes; with enough
  room it writes the line of every task once, in ring order from the current task.  A line fits
  the 64-byte buffer it is built in as long as the identifier has at most eight digits.\<close>

theorem task_list_info_bounds:
  assumes "ring st xs" and "0 \<le> mx"
  shows "\<exists>r. task_list_info mx st = Some r \<and> int (length r) \<le> mx \<and>
    ((\<Sum>x\<leftarrow>current st # xs. int (length (task_line (tcb st x)))) \<le> mx \<longrightarrow>
      r = concat (map (\<lambda>x. task_line (tcb st x)) (current st # xs))) \<and>
    (\<forall>t. sint (t_id t) < 100000000 \<longrightarrow> length (task_line t) \<le> 61)"
proof -
  have p: "path (tcb st) (current st) xs (current st)" "current st \<notin> set xs" "0 \<notin> set xs" "current st \<noteq> 0"
    using assms by (auto simp: ring_def)
  have "int (length ([] :: string)) \<le> mx" using assms(2) by simp
  from list_info_bound [OF p(1-3) this] p(4) task_line_length show ?thesis
    by (auto simp: task_list_info_def)
qed

theorem task_list_info_bounds_witness:
  "\<exists>r. task_list_info 20 demo_sched = Some r \<and> int (length r) \<le> 20"
  using task_list_info_bounds [OF demo_ring, of 20] by auto

end
