(* ===== verification/Sem.thy ===== *)
theory Sem
  imports Task_Life
begin

text \<open>
  Counting semaphores, \<open>kernel/task/sem.c\<close>: a static table of sixteen semaphores, each with
  a count and a wait queue of the scheduler.  A negative count is the number of waiters.
  The count is a C \<open>int\<close>: an integer of 32 bits whose increment and decrement wrap around.
\<close>

section \<open>Model\<close>

text \<open>A result of \<open>int\<close> arithmetic, wrapped around to 32 bits.\<close>

definition wrap32 :: "int \<Rightarrow> int" where
  "wrap32 n = signed_take_bit 31 n"

lemma wrap32_id: "- (2 ^ 31) \<le> n \<Longrightarrow> n < 2 ^ 31 \<Longrightarrow> wrap32 n = n"
  by (simp add: wrap32_def signed_take_bit_int_eq_self)

lemma wrap32_simps [simp]: "wrap32 0 = 0" "wrap32 1 = 1" "wrap32 (- 1) = - 1" "wrap32 2147483648 = - 2147483648"
  "wrap32 (- 2147483649) = 2147483647"
  by (simp_all add: wrap32_def)

definition SEM_MAX :: int where "SEM_MAX = 16"

record ksem =
  sm_count :: int
  sm_used :: bool
  sm_wq :: wait_queue

definition sem_init_all :: "ksem list \<Rightarrow> ksem list" where
  "sem_init_all ss = map (\<lambda>s. s\<lparr>sm_count := 0, sm_used := False, sm_wq := wait_queue_init\<rparr>) ss"

definition sem_init :: "int \<Rightarrow> int \<Rightarrow> ksem list \<Rightarrow> ksem list" where
  "sem_init sid count ss =
     (if sid < 0 \<or> SEM_MAX \<le> sid then ss
      else ss[nat sid := \<lparr>sm_count = count, sm_used = True, sm_wq = wait_queue_init\<rparr>])"

definition sem_wait :: "int \<Rightarrow> ksem list \<times> sched \<Rightarrow> (ksem list \<times> sched) option" where
  "sem_wait sid s =
     (case s of (ss, st) \<Rightarrow>
        if sid < 0 \<or> SEM_MAX \<le> sid \<or> \<not> sm_used (ss ! nat sid) then Some (ss, st)
        else
          (let c = wrap32 (sm_count (ss ! nat sid) - 1);
               sm = (ss ! nat sid)\<lparr>sm_count := c\<rparr> in
           if c < 0
           then map_option (\<lambda>(wq, st'). (ss[nat sid := sm\<lparr>sm_wq := wq\<rparr>], st')) (task_block (sm_wq sm) st)
           else Some (ss[nat sid := sm], st)))"

definition sem_post :: "int \<Rightarrow> ksem list \<times> sched \<Rightarrow> ksem list \<times> sched" where
  "sem_post sid s =
     (case s of (ss, st) \<Rightarrow>
        if sid < 0 \<or> SEM_MAX \<le> sid \<or> \<not> sm_used (ss ! nat sid) then (ss, st)
        else
          (let c = wrap32 (sm_count (ss ! nat sid) + 1);
               sm = (ss ! nat sid)\<lparr>sm_count := c\<rparr> in
           if c \<le> 0
           then (case wait_queue_wake_one (sm_wq sm) st of
                   (wq, st') \<Rightarrow> (ss[nat sid := sm\<lparr>sm_wq := wq\<rparr>], st'))
           else (ss[nat sid := sm], st)))"

definition sem_value :: "int \<Rightarrow> ksem list \<Rightarrow> int" where
  "sem_value sid ss =
     (if sid < 0 \<or> SEM_MAX \<le> sid \<or> \<not> sm_used (ss ! nat sid) then -1 else sm_count (ss ! nat sid))"

section \<open>The invariant\<close>

text \<open>
  \<open>qs i\<close> is the list of waiters of semaphore \<open>i\<close>: its length is the negative part of the
  count, the count is a value of type \<open>int\<close>, all waiters are blocked, no task waits twice and the current task does not wait.
\<close>

definition sem_inv :: "ksem list \<times> sched \<Rightarrow> (nat \<Rightarrow> u64 list) \<Rightarrow> bool" where
  "sem_inv s qs \<longleftrightarrow> length (fst s) = 16 \<and>
     (\<forall>i<16. if sm_used (fst s ! i)
             then wq_rep (sm_wq (fst s ! i), snd s) (qs i) \<and> int (length (qs i)) = max 0 (- sm_count (fst s ! i)) \<and>
               - (2 ^ 31) \<le> sm_count (fst s ! i) \<and> sm_count (fst s ! i) < 2 ^ 31
             else qs i = []) \<and>
     (\<forall>i<16. \<forall>x\<in>set (qs i). t_state (tcb (snd s) x) = TASK_BLOCKED \<and> x \<noteq> current (snd s)) \<and>
     (\<forall>i<16. \<forall>j<16. i \<noteq> j \<longrightarrow> set (qs i) \<inter> set (qs j) = {})"

lemma wq_rep_cong:
  "(\<And>x. x \<in> set q \<Longrightarrow> t_wq_next (tcb st' x) = t_wq_next (tcb st x)) \<Longrightarrow> wq_rep (wq, st') q = wq_rep (wq, st) q"
  using wq_path_cong [of q "tcb st'" "tcb st"] by (simp add: wq_rep_def)

text \<open>What the queue part of \<open>task_block\<close> changes in the control blocks.\<close>

lemma wq_enqueue_frame:
  assumes "wq_rep (wq, st) q" and "wq_enqueue wq st = (wq', st')" and "current st \<notin> set q"
  shows "current st' = current st" and "t_next (tcb st' y) = t_next (tcb st y)"
    and "t_state (tcb st' y) = (if y = current st then TASK_BLOCKED else t_state (tcb st y))"
    and "y \<notin> set q \<Longrightarrow> y \<noteq> current st \<Longrightarrow> tcb st' y = tcb st y"
proof -
  have t: "wq_tail wq \<noteq> 0 \<longrightarrow> wq_tail wq \<in> set q" using assms(1) by (auto simp: wq_rep_def)
  show "current st' = current st" using assms(2) by (auto simp: wq_enqueue_def Let_def split: if_splits)
  show "t_next (tcb st' y) = t_next (tcb st y)"
    using assms(2) by (auto simp: wq_enqueue_def Let_def split: if_splits)
  show "t_state (tcb st' y) = (if y = current st then TASK_BLOCKED else t_state (tcb st y))"
    using assms(2,3) t by (auto simp: wq_enqueue_def Let_def split: if_splits)
  show "y \<notin> set q \<Longrightarrow> y \<noteq> current st \<Longrightarrow> tcb st' y = tcb st y"
    using assms(2) t by (auto simp: wq_enqueue_def Let_def split: if_splits)
qed

text \<open>Blocking on a queue hands over to the first other ready task.\<close>

lemma task_block_switch:
  assumes ring: "ring st xs" and rdy: "find (ready st) xs = Some x" and rep: "wq_rep (wq, st) q"
    and cur: "current st \<notin> set q"
  shows "\<exists>wq' st'. task_block wq st = Some (wq', st') \<and> wq_rep (wq', st') (q @ [current st]) \<and>
    current st' = x \<and>
    t_state (tcb st' (current st)) = TASK_BLOCKED \<and>
    (\<forall>y. y \<noteq> x \<and> y \<noteq> current st \<longrightarrow> t_state (tcb st' y) = t_state (tcb st y)) \<and>
    (\<forall>y. y \<notin> set q \<and> y \<noteq> current st \<longrightarrow> t_wq_next (tcb st' y) = t_wq_next (tcb st y)) \<and>
    (\<exists>ys. ring st' ys)"
proof -
  have c0: "current st \<noteq> 0" "current st \<notin> set xs" using ring by (auto simp: ring_def)
  obtain wq' st1 where e: "wq_enqueue wq st = (wq', st1)" by fastforce
  note fr = wq_enqueue_frame [OF rep e cur]
  have rep1: "wq_rep (wq', st1) (q @ [current st])"
    using wq_put_rep [OF rep, of "current st"] c0 cur e by (simp add: wq_can_put_def wq_put_def)
  have ring1: "ring st1 xs"
    using ring path_cong [of "current st" xs "tcb st1" "tcb st" "current st"] fr(1,2) by (simp add: ring_def)
  have r1: "find (ready st1) xs = Some x"
  proof -
    have "find (ready st1) xs = find (ready st) xs" by (rule find_cong) (use fr(3) c0(2) in \<open>auto simp: ready_def\<close>)
    then show ?thesis using rdy by simp
  qed
  from ring1 show ?thesis
  proof (cases rule: schedule_cases)
    case idle
    then show ?thesis using r1 by simp
  next
    case (run pre z post)
    have "find (ready st1) (pre @ z # post) = Some z"
      using run(2,3) by (induction pre) auto
    then have z: "z = x" using r1 run(1) by simp
    note run = run [unfolded z]
    have x: "x \<in> set xs" "x \<noteq> current st1" using run(1) fr(1) c0 by auto
    note sw = switch_to_other [OF x(2) refl]
    have "wq_rep (wq', switch_to x st1) (q @ [current st])"
      using rep1 wq_rep_cong [of "q @ [current st]" "switch_to x st1" st1] switch_to_wq_next by simp
    moreover have "task_block wq st = Some (wq', switch_to x st1)"
      using e c0 run(4) by (simp add: task_block_def)
    moreover have "t_state (tcb (switch_to x st1) (current st)) = TASK_BLOCKED"
      using sw(3) fr(1,3) by simp
    moreover have "t_state (tcb (switch_to x st1) y) = t_state (tcb st y)" if "y \<noteq> x" "y \<noteq> current st" for y
      using sw(4) [of y] that fr(1,3) by simp
    moreover have "t_wq_next (tcb (switch_to x st1) y) = t_wq_next (tcb st y)" if "y \<notin> set q" "y \<noteq> current st" for y
      using switch_to_wq_next [of x st1 y] fr(4) [of y] that by simp
    ultimately show ?thesis using run(5) sw(1)
      by (intro exI [of _ wq'] exI [of _ "switch_to x st1"]) auto
  qed
qed

text \<open>Without another ready task the blocked caller stays current.\<close>

lemma task_block_stays:
  assumes ring: "ring st xs" and idle: "\<forall>x\<in>set xs. \<not> ready st x" and rep: "wq_rep (wq, st) q"
    and cur: "current st \<notin> set q"
  shows "\<exists>wq' st'. task_block wq st = Some (wq', st') \<and> wq_rep (wq', st') (q @ [current st]) \<and>
    current st' = current st \<and> ring st' xs \<and> t_state (tcb st' (current st)) = TASK_BLOCKED \<and>
    (\<forall>y. y \<noteq> current st \<longrightarrow> t_state (tcb st' y) = t_state (tcb st y))"
proof -
  have c0: "current st \<noteq> 0" "current st \<notin> set xs" using ring by (auto simp: ring_def)
  obtain wq' st1 where e: "wq_enqueue wq st = (wq', st1)" by fastforce
  note fr = wq_enqueue_frame [OF rep e cur]
  have rep1: "wq_rep (wq', st1) (q @ [current st])"
    using wq_put_rep [OF rep, of "current st"] c0 cur e by (simp add: wq_can_put_def wq_put_def)
  have ring1: "ring st1 xs"
    using ring path_cong [of "current st" xs "tcb st1" "tcb st" "current st"] fr(1,2) by (simp add: ring_def)
  have "find (ready st1) xs = None" using idle fr(3) c0(2) by (auto simp: find_None_iff ready_def)
  then have "schedule st1 = Some st1" using schedule_ring [OF ring1] by simp
  then have "task_block wq st = Some (wq', st1)" using e c0(1) by (simp add: task_block_def)
  then show ?thesis using rep1 ring1 fr(1,3) by auto
qed

lemma sem_invD:
  assumes "sem_inv (ss, st) qs"
  shows "length ss = 16"
    and "i < 16 \<Longrightarrow> sm_used (ss ! i) \<Longrightarrow> wq_rep (sm_wq (ss ! i), st) (qs i)"
    and "i < 16 \<Longrightarrow> sm_used (ss ! i) \<Longrightarrow> int (length (qs i)) = max 0 (- sm_count (ss ! i))"
    and "i < 16 \<Longrightarrow> \<not> sm_used (ss ! i) \<Longrightarrow> qs i = []"
    and "i < 16 \<Longrightarrow> x \<in> set (qs i) \<Longrightarrow> t_state (tcb st x) = TASK_BLOCKED"
    and "i < 16 \<Longrightarrow> x \<in> set (qs i) \<Longrightarrow> x \<noteq> current st"
    and "i < 16 \<Longrightarrow> j < 16 \<Longrightarrow> i \<noteq> j \<Longrightarrow> set (qs i) \<inter> set (qs j) = {}"
    and "i < 16 \<Longrightarrow> sm_used (ss ! i) \<Longrightarrow> - (2 ^ 31) \<le> sm_count (ss ! i) \<and> sm_count (ss ! i) < 2 ^ 31"
  using assms by (auto simp: sem_inv_def)

text \<open>The invariant after semaphore \<open>n\<close> and its queue have changed.\<close>

lemma sem_inv_update:
  assumes inv: "sem_inv (ss, st) qs" and n: "n < 16"
    and rep: "wq_rep (sm_wq sm, st') q" and used: "sm_used sm" and len: "int (length q) = max 0 (- sm_count sm)"
    and range: "- (2 ^ 31) \<le> sm_count sm" "sm_count sm < 2 ^ 31"
    and others: "\<And>i x. i < 16 \<Longrightarrow> i \<noteq> n \<Longrightarrow> x \<in> set (qs i) \<Longrightarrow>
        t_wq_next (tcb st' x) = t_wq_next (tcb st x) \<and> t_state (tcb st' x) = TASK_BLOCKED \<and> x \<noteq> current st' \<and> x \<notin> set q"
    and own: "\<And>x. x \<in> set q \<Longrightarrow> t_state (tcb st' x) = TASK_BLOCKED \<and> x \<noteq> current st'"
  shows "sem_inv (ss[n := sm], st') (qs(n := q))"
proof -
  note D = sem_invD [OF inv]
  have "if sm_used (ss[n := sm] ! i)
      then wq_rep (sm_wq (ss[n := sm] ! i), st') ((qs(n := q)) i) \<and> int (length ((qs(n := q)) i)) = max 0 (- sm_count (ss[n := sm] ! i)) \<and>
        - (2 ^ 31) \<le> sm_count (ss[n := sm] ! i) \<and> sm_count (ss[n := sm] ! i) < 2 ^ 31
      else (qs(n := q)) i = []" if i: "i < 16" for i
  proof (cases "i = n")
    case True
    then show ?thesis using D(1) rep used len range n by simp
  next
    case False
    have "wq_rep (sm_wq (ss ! i), st') (qs i) = wq_rep (sm_wq (ss ! i), st) (qs i)"
      using others [OF i False] by (intro wq_rep_cong) blast
    then show ?thesis using D(2,3,4,8) [OF i] False by (cases "sm_used (ss ! i)") simp_all
  qed
  moreover have "t_state (tcb st' x) = TASK_BLOCKED \<and> x \<noteq> current st'" if "i < 16" "x \<in> set ((qs(n := q)) i)" for i x
    using that others own by (cases "i = n") auto
  moreover have "set ((qs(n := q)) i) \<inter> set ((qs(n := q)) j) = {}" if "i < 16" "j < 16" "i \<noteq> j" for i j
    using that others D(7) by (cases "i = n"; cases "j = n") fastforce+
  ultimately show ?thesis using D(1) unfolding sem_inv_def fst_conv snd_conv length_list_update by blast
qed

section \<open>Properties\<close>

text \<open>C8. \<open>sem_wait\<close> on a semaphore in use, for every count and every state of the ring.  It returns
  and touches no other semaphore.  The least \<open>int\<close> wraps to the greatest and nothing else happens.
  Every other count is decremented; with a positive one nothing else happens.  Otherwise the caller
  is appended to the queue of the semaphore and marked blocked, and the first other ready task runs,
  with the invariant kept: the number of waiters is the negative part of the count.  When no other task is ready the
  caller is queued and marked blocked all the same, but it stays the current task and runs on.\<close>

theorem sem_wait_correct:
  assumes inv: "sem_inv (ss, st) qs" and id: "0 \<le> sid" "sid < 16" and used: "sm_used (ss ! nat sid)"
    and ring: "ring st xs"
  shows "\<exists>ss' st'. sem_wait sid (ss, st) = Some (ss', st') \<and> (\<forall>i. i \<noteq> nat sid \<longrightarrow> ss' ! i = ss ! i) \<and>
    (if sm_count (ss ! nat sid) = - (2 ^ 31) then sm_count (ss' ! nat sid) = 2 ^ 31 - 1 \<and> st' = st
     else sm_count (ss' ! nat sid) = sm_count (ss ! nat sid) - 1 \<and>
      (if 0 < sm_count (ss ! nat sid) then st' = st \<and> sem_inv (ss', st') qs
       else t_state (tcb st' (current st)) = TASK_BLOCKED \<and>
        (case find (ready st) xs of
           Some x \<Rightarrow> current st' = x \<and> (\<exists>ys. ring st' ys) \<and> sem_inv (ss', st') (qs(nat sid := qs (nat sid) @ [current st]))
         | None \<Rightarrow> current st' = current st \<and> ring st' xs \<and> wq_rep (sm_wq (ss' ! nat sid), st') (qs (nat sid) @ [current st]) \<and>
             (\<forall>y. y \<noteq> current st \<longrightarrow> t_state (tcb st' y) = t_state (tcb st y)))))"
proof -
  let ?n = "nat sid" and ?s = "ss ! nat sid"
  note D = sem_invD [OF inv]
  have n: "?n < 16" using id by simp
  note c = D(8) [OF n used]
  have cur: "current st \<notin> set (qs ?n)" using D(6) [OF n] by auto
  let ?sm = "?s\<lparr>sm_count := sm_count ?s - 1\<rparr>"
  consider "sm_count ?s = - (2 ^ 31)" | "0 < sm_count ?s" | "- (2 ^ 31) < sm_count ?s" "sm_count ?s \<le> 0"
    using c by linarith
  then show ?thesis
  proof cases
    case 1
    then show ?thesis using used id D(1) by (simp add: sem_wait_def SEM_MAX_def Let_def)
  next
    case 2
    have w: "wrap32 (sm_count ?s - 1) = sm_count ?s - 1" using 2 c by (intro wrap32_id) auto
    have "sem_inv (ss[?n := ?sm], st) (qs(?n := qs ?n))"
    proof (rule sem_inv_update [OF inv n])
      show "t_wq_next (tcb st x) = t_wq_next (tcb st x) \<and> t_state (tcb st x) = TASK_BLOCKED \<and> x \<noteq> current st \<and> x \<notin> set (qs ?n)"
        if "i < 16" "i \<noteq> ?n" "x \<in> set (qs i)" for i x
        using D(5,6) [OF that(1,3)] D(7) [OF that(1) n that(2)] that(3) by auto
    qed (use D(2,3) [OF n used] D(5,6) [OF n] 2 c used in auto)
    then show ?thesis using 2 used id D(1) w by (simp add: sem_wait_def SEM_MAX_def)
  next
    case 3
    have w: "wrap32 (sm_count ?s - 1) = sm_count ?s - 1" using 3 by (intro wrap32_id) auto
    have s: "sem_wait sid (ss, st) =
        map_option (\<lambda>(wq, st'). (ss[?n := ?sm\<lparr>sm_wq := wq\<rparr>], st')) (task_block (sm_wq ?s) st)"
      using 3 used id w by (simp add: sem_wait_def SEM_MAX_def)
    show ?thesis
    proof (cases "find (ready st) xs")
      case None
      then obtain wq' st' where b: "task_block (sm_wq ?s) st = Some (wq', st')" "wq_rep (wq', st') (qs ?n @ [current st])"
        "current st' = current st" "ring st' xs" "t_state (tcb st' (current st)) = TASK_BLOCKED"
        "\<forall>y. y \<noteq> current st \<longrightarrow> t_state (tcb st' y) = t_state (tcb st y)"
        using task_block_stays [OF ring _ D(2) [OF n used] cur] by (auto simp: find_None_iff)
      show ?thesis using None 3 s b n D(1) by simp
    next
      case (Some z)
      then obtain wq' st' where b: "task_block (sm_wq ?s) st = Some (wq', st')" "wq_rep (wq', st') (qs ?n @ [current st])"
        "current st' = z" "t_state (tcb st' (current st)) = TASK_BLOCKED"
        "\<forall>y. y \<noteq> z \<and> y \<noteq> current st \<longrightarrow> t_state (tcb st' y) = t_state (tcb st y)"
        "\<forall>y. y \<notin> set (qs ?n) \<and> y \<noteq> current st \<longrightarrow> t_wq_next (tcb st' y) = t_wq_next (tcb st y)" "\<exists>ys. ring st' ys"
        using task_block_switch [OF ring Some D(2) [OF n used] cur] by blast
      have z: "z \<in> set xs" "ready st z" using Some by (auto simp: find_Some_iff)
      have zq: "z \<notin> set (qs i)" if "i < 16" for i using D(5) [OF that, of z] z(2) by (auto simp: ready_def)
      have zc: "z \<noteq> current st" using ring z(1) by (auto simp: ring_def)
      have "sem_inv (ss[?n := ?sm\<lparr>sm_wq := wq'\<rparr>], st') (qs(?n := qs ?n @ [current st]))"
      proof (rule sem_inv_update [OF inv n])
        show "int (length (qs ?n @ [current st])) = max 0 (- sm_count (?sm\<lparr>sm_wq := wq'\<rparr>))"
          using D(3) [OF n used] 3 by simp
        show "t_wq_next (tcb st' y) = t_wq_next (tcb st y) \<and> t_state (tcb st' y) = TASK_BLOCKED \<and> y \<noteq> current st' \<and>
            y \<notin> set (qs ?n @ [current st])" if i: "i < 16" "i \<noteq> ?n" "y \<in> set (qs i)" for i y
        proof -
          have "y \<notin> set (qs ?n)" "y \<noteq> current st" "y \<noteq> z"
            using D(7) [OF i(1) n i(2)] D(6) [OF i(1,3)] zq [OF i(1)] i(3) by auto
          then show ?thesis using b(3,5,6) D(5) [OF i(1,3)] by simp
        qed
        show "t_state (tcb st' y) = TASK_BLOCKED \<and> y \<noteq> current st'" if "y \<in> set (qs ?n @ [current st])" for y
        proof (cases "y = current st")
          case True
          then show ?thesis using b(3,4) zc by simp
        next
          case False
          then have y: "y \<in> set (qs ?n)" "y \<noteq> z" using that zq [OF n] by auto
          then show ?thesis using b(3,5) D(5) [OF n y(1)] False by simp
        qed
      qed (use b(2) used 3 in auto)
      then show ?thesis using Some 3 s b n D(1) by auto
    qed
  qed
qed

definition demo_sems :: "ksem list" where
  "demo_sems = \<lparr>sm_count = - 1, sm_used = True, sm_wq = demo_wq\<rparr> #
     replicate 15 \<lparr>sm_count = 0, sm_used = False, sm_wq = wait_queue_init\<rparr>"

lemma demo_sems_nth: "i < 16 \<Longrightarrow> demo_sems ! i =
  (if i = 0 then \<lparr>sm_count = - 1, sm_used = True, sm_wq = demo_wq\<rparr> else \<lparr>sm_count = 0, sm_used = False, sm_wq = wait_queue_init\<rparr>)"
  by (cases i) (simp_all add: demo_sems_def)

lemma demo_sem_inv: "sem_inv (demo_sems, demo_sched) ((\<lambda>_. [])(0 := [32]))"
  using demo_wq_rep
  by (auto simp: sem_inv_def demo_sems_nth demo_sched_def demo_sems_def [THEN arg_cong, of length])

theorem sem_wait_correct_witness:
  "\<exists>ss' st'. sem_wait 0 (demo_sems, demo_sched) = Some (ss', st') \<and> sm_count (ss' ! 0) = - 2 \<and> current st' = 48 \<and>
    sem_inv (ss', st') ((\<lambda>_. [])(0 := [32, 16]))"
proof -
  have r: "find (ready demo_sched) [32, 48] = Some 48" by (simp add: ready_def demo_sched_def demo_task_def)
  have c: "current demo_sched = 16" by (simp add: demo_sched_def)
  have u: "sm_used (demo_sems ! nat 0)" "sm_count (demo_sems ! nat 0) = - 1" by (simp_all add: demo_sems_nth)
  from sem_wait_correct [OF demo_sem_inv _ _ u(1) demo_ring] u(2) c r show ?thesis by auto
qed

text \<open>C9. \<open>sem_post\<close> increments the count; when tasks wait, exactly the oldest waiter leaves the queue
  and becomes ready; the invariant is kept and no other task changes state.  The greatest \<open>int\<close> wraps to the
  least, without a task being woken.\<close>

theorem sem_post_correct:
  assumes inv: "sem_inv (ss, st) qs" and id: "0 \<le> sid" "sid < 16" and used: "sm_used (ss ! nat sid)"
  shows "\<exists>ss' st'. sem_post sid (ss, st) = (ss', st') \<and>
    (if sm_count (ss ! nat sid) = 2 ^ 31 - 1 then sm_count (ss' ! nat sid) = - (2 ^ 31) \<and> st' = st
     else sm_count (ss' ! nat sid) = sm_count (ss ! nat sid) + 1 \<and>
    sem_inv (ss', st') (qs(nat sid := tl (qs (nat sid)))) \<and>
    (\<forall>y. t_state (tcb st' y) =
      (if qs (nat sid) \<noteq> [] \<and> y = hd (qs (nat sid)) then TASK_READY else t_state (tcb st y))))"
proof (cases "sm_count (ss ! nat sid) = 2 ^ 31 - 1")
  case True
  have n: "nat sid < 16" using id by simp
  note D = sem_invD [OF inv]
  have "qs (nat sid) = []" using D(3) [OF n used] True by simp
  then have "wq_head (sm_wq (ss ! nat sid)) = 0" using D(2) [OF n used] by (simp add: wq_rep_def)
  then show ?thesis using True id used D(1) by (simp add: sem_post_def SEM_MAX_def Let_def wait_queue_wake_one_def)
next
  case no_overflow: False
  let ?n = "nat sid" and ?s = "ss ! nat sid"
  note D = sem_invD [OF inv]
  have n: "?n < 16" using id by simp
  have w: "wrap32 (sm_count ?s + 1) = sm_count ?s + 1" "sm_count ?s + 1 < 2 ^ 31" "- (2 ^ 31) \<le> sm_count ?s + 1"
    using no_overflow D(8) [OF n used] by (auto intro!: wrap32_id)
  let ?sm = "?s\<lparr>sm_count := sm_count ?s + 1\<rparr>"
  have len: "int (length (qs ?n)) = max 0 (- sm_count ?s)" by (rule D(3) [OF n used])
  show ?thesis
  proof (cases "qs ?n")
    case Nil
    then have c: "0 \<le> sm_count ?s" using len by simp
    have "sem_inv (ss[?n := ?sm], st) (qs(?n := []))"
    proof (rule sem_inv_update [OF inv n])
      show "t_wq_next (tcb st x) = t_wq_next (tcb st x) \<and> t_state (tcb st x) = TASK_BLOCKED \<and> x \<noteq> current st \<and> x \<notin> set []"
        if "i < 16" "i \<noteq> ?n" "x \<in> set (qs i)" for i x
        using D(5,6) [OF that(1,3)] by auto
    qed (use D(2) [OF n used] Nil used c w in auto)
    then show ?thesis using Nil c used id D(1) n w no_overflow by (simp add: sem_post_def SEM_MAX_def)
  next
    case (Cons x q)
    then have c: "sm_count ?s < 0" "int (length q) = - sm_count ?s - 1" using len by auto
    have rep: "wq_rep (sm_wq ?s, st) (x # q)" using D(2) [OF n used] Cons by simp
    then have xq: "x \<notin> set q" by (simp add: wq_rep_def)
    obtain wq' st' where wk: "wait_queue_wake_one (sm_wq ?s) st = (wq', st')" "wq_rep (wq', st') q"
      "tcb st' x = (tcb st x)\<lparr>t_wq_next := 0,
        t_state := (if t_state (tcb st x) = TASK_BLOCKED then TASK_READY else t_state (tcb st x))\<rparr>"
      "\<forall>y. y \<noteq> x \<longrightarrow> tcb st' y = tcb st y" "current st' = current st"
      using wq_get_rep [OF rep] by (auto simp: wq_get_def)
    have xb: "t_state (tcb st x) = TASK_BLOCKED" using D(5) [OF n, of x] Cons by simp
    have "sem_inv (ss[?n := ?sm\<lparr>sm_wq := wq'\<rparr>], st') (qs(?n := q))"
    proof (rule sem_inv_update [OF inv n])
      show "t_wq_next (tcb st' y) = t_wq_next (tcb st y) \<and> t_state (tcb st' y) = TASK_BLOCKED \<and> y \<noteq> current st' \<and> y \<notin> set q"
        if i: "i < 16" "i \<noteq> ?n" "y \<in> set (qs i)" for i y
      proof -
        have "y \<noteq> x" "y \<notin> set q" using D(7) [OF i(1) n i(2)] i(3) Cons by auto
        then show ?thesis using wk(4,5) D(5,6) [OF i(1,3)] by simp
      qed
      show "t_state (tcb st' y) = TASK_BLOCKED \<and> y \<noteq> current st'" if "y \<in> set q" for y
      proof -
        have "y \<noteq> x" using that xq by auto
        then show ?thesis using wk(4,5) D(5,6) [OF n, of y] that Cons by simp
      qed
    qed (use wk(2) used c w in auto)
    moreover have "sem_post sid (ss, st) = (ss[?n := ?sm\<lparr>sm_wq := wq'\<rparr>], st')"
      using c used id wk(1) w by (simp add: sem_post_def SEM_MAX_def)
    moreover have "t_state (tcb st' y) = (if y = x then TASK_READY else t_state (tcb st y))" for y
      using wk(3,4) xb by (cases "y = x") auto
    ultimately show ?thesis using Cons D(1) n no_overflow by auto
  qed
qed

theorem sem_post_correct_witness:
  "\<exists>ss' st'. sem_post 0 (demo_sems, demo_sched) = (ss', st') \<and> sm_count (ss' ! 0) = 0 \<and>
    t_state (tcb st' 32) = TASK_READY"
proof -
  have u: "sm_used (demo_sems ! nat 0)" "sm_count (demo_sems ! nat 0) = - 1" by (simp_all add: demo_sems_nth)
  from sem_post_correct [OF demo_sem_inv _ _ u(1)] u(2) show ?thesis by auto
qed

end
