(* ===== verification/Keyboard.thy ===== *)
theory Keyboard
  imports Flyos_Prelude Fifo_Spec
begin

text \<open>
  The keyboard driver, \<open>kernel/drivers/keyboard.c\<close>: translation of scan codes to
  characters and the ring buffer between the interrupt handler and the readers.  The two port
  reads of the handler are its arguments.
\<close>

section \<open>Model\<close>

definition KBD_BUF_SIZE :: nat where "KBD_BUF_SIZE = 256"

definition ascii :: "string \<Rightarrow> u8 list" where
  "ascii s = map of_char s"

definition keymap :: "u8 list" where
  "keymap = [0, 27] @ ascii ''1234567890-='' @ [8] @
     [9] @ ascii ''qwertyuiop[]'' @ [10] @
     [0] @ ascii ''asdfghjkl;'' @ [39, 96] @
     [0, 92] @ ascii ''zxcvbnm,./'' @
     [0] @ ascii ''*'' @ [0] @ ascii '' '' @ replicate 70 0"

record kbd =
  shift_pressed :: bool
  kbd_buf :: "u8 list"
  kbd_head :: nat
  kbd_tail :: nat

definition kbd_push :: "u8 \<Rightarrow> kbd \<Rightarrow> kbd" where
  "kbd_push c st =
     (let nxt = (kbd_head st + 1) mod KBD_BUF_SIZE in
      if nxt = kbd_tail st then st
      else st\<lparr>kbd_buf := (kbd_buf st)[kbd_head st := c], kbd_head := nxt\<rparr>)"

definition keyboard_getchar_nonblock :: "kbd \<Rightarrow> int \<times> kbd" where
  "keyboard_getchar_nonblock st =
     (if kbd_head st = kbd_tail st then (-1, st)
      else (sint (kbd_buf st ! kbd_tail st), st\<lparr>kbd_tail := (kbd_tail st + 1) mod KBD_BUF_SIZE\<rparr>))"

text \<open>The \<open>switch\<close> on shifted characters.\<close>

definition shift_table :: "(u8 \<times> u8) list" where
  "shift_table = zip (ascii ''1234567890-=[]'' @ [92] @ ascii '';'' @ [39] @ ascii '',./'' @ [96])
                     (ascii ''!@#$%^&*()_+{}|:'' @ [34] @ ascii ''<>?~'')"

definition shift_char :: "u8 \<Rightarrow> u8" where
  "shift_char c =
     (if 97 \<le> c \<and> c \<le> 122 then c - 97 + 65
      else (case map_of shift_table c of None \<Rightarrow> c | Some d \<Rightarrow> d))"

definition keyboard_handler :: "u8 \<Rightarrow> u8 \<Rightarrow> kbd \<Rightarrow> kbd" where
  "keyboard_handler status scancode st =
     (if status AND 0x20 \<noteq> 0 then st
      else if scancode AND 0x80 \<noteq> 0 then
        (let released = scancode AND 0x7F in
         if released = 0x2A \<or> released = 0x36 then st\<lparr>shift_pressed := False\<rparr> else st)
      else if scancode = 0x2A \<or> scancode = 0x36 then st\<lparr>shift_pressed := True\<rparr>
      else if scancode < 128 then
        (let c = keymap ! unat scancode in
         if c \<noteq> 0 then kbd_push (if shift_pressed st then shift_char c else c) st else st)
      else st)"

section \<open>The ring buffer as a queue\<close>

definition kbd_rep :: "kbd \<Rightarrow> u8 list \<Rightarrow> bool" where
  "kbd_rep st q \<longleftrightarrow> length (kbd_buf st) = 256 \<and> kbd_head st < 256 \<and> kbd_tail st < 256 \<and> length q < 256 \<and>
     kbd_head st = (kbd_tail st + length q) mod 256 \<and>
     (\<forall>i<length q. kbd_buf st ! ((kbd_tail st + i) mod 256) = q ! i)"

text \<open>How the readers take a character: -1 is no character, anything else is cut to a \<open>char\<close>.\<close>

definition kbd_get :: "kbd \<Rightarrow> u8 option \<times> kbd" where
  "kbd_get st =
     (case keyboard_getchar_nonblock st of
        (c, st') \<Rightarrow> (if c = -1 then None else Some (word_of_int c), st'))"

definition is_key :: "u8 \<Rightarrow> bool" where
  "is_key c \<longleftrightarrow> 0 < c \<and> c < 128"

definition kbd_can_put :: "u8 \<Rightarrow> kbd \<Rightarrow> u8 list \<Rightarrow> bool" where
  "kbd_can_put c st q \<longleftrightarrow> length q < 255 \<and> is_key c"

text \<open>The buffer holds key characters only, so that the value \<open>-1\<close> always means an empty buffer.\<close>

definition kbd_inv :: "kbd \<Rightarrow> u8 list \<Rightarrow> bool" where
  "kbd_inv st q \<longleftrightarrow> kbd_rep st q \<and> (\<forall>c\<in>set q. is_key c)"

lemma mod_ring_inj: "a < 256 \<Longrightarrow> i < 256 \<Longrightarrow> j < 256 \<Longrightarrow> (a + i) mod 256 = (a + j) mod (256 :: nat) \<Longrightarrow> i = j"
  by (simp add: mod_if [of "a + i"] mod_if [of "a + j"] split: if_splits)

lemma kbd_rep_empty: "kbd_rep st q \<Longrightarrow> kbd_head st = kbd_tail st \<longleftrightarrow> q = []"
  using mod_ring_inj [of "kbd_tail st" "length q" 0] by (auto simp: kbd_rep_def)

lemma kbd_push_put:
  assumes rep: "kbd_rep st q" and room: "length q < 255"
  shows "kbd_rep (kbd_push c st) (q @ [c])"
proof -
  let ?t = "kbd_tail st" and ?h = "kbd_head st"
  have r: "length (kbd_buf st) = 256" "?t < 256" "?h = (?t + length q) mod 256" "?h < 256"
    "\<And>i. i < length q \<Longrightarrow> kbd_buf st ! ((?t + i) mod 256) = q ! i" using rep by (auto simp: kbd_rep_def)
  have nxt: "(?h + 1) mod 256 = (?t + Suc (length q)) mod 256" using r(3) by (simp add: mod_simps)
  have ne: "(?h + 1) mod 256 \<noteq> ?t"
    using mod_ring_inj [of ?t "Suc (length q)" 0] r(2) room nxt by auto
  then have p: "kbd_push c st = st\<lparr>kbd_buf := (kbd_buf st)[?h := c], kbd_head := (?h + 1) mod 256\<rparr>"
    by (simp add: kbd_push_def KBD_BUF_SIZE_def)
  have "(kbd_buf st)[?h := c] ! ((?t + i) mod 256) = (q @ [c]) ! i" if "i < length (q @ [c])" for i
  proof (cases "i = length q")
    case True
    then show ?thesis using r by simp
  next
    case False
    then have i: "i < length q" using that by simp
    then have "(?t + i) mod 256 \<noteq> ?h" using mod_ring_inj [of ?t i "length q"] r(2,3) room by auto
    then show ?thesis using i r by (simp add: nth_append)
  qed
  then show ?thesis using p r nxt room by (simp add: kbd_rep_def)
qed

lemma take_bit_7: "c < 128 \<Longrightarrow> take_bit 7 c = (c :: u8)"
proof -
  assume "c < 128"
  then have "unat c < 2 ^ 7" by (simp add: word_less_nat_alt)
  then have "unat (take_bit 7 c) = unat c"
    by (simp only: unsigned_take_bit_eq) (simp add: take_bit_eq_mod)
  then show ?thesis by (rule unat_eqI)
qed

lemma sint_key: "is_key c \<Longrightarrow> sint c = int (unat c)"
proof -
  assume "is_key c"
  then have "take_bit 7 c = c" by (simp add: is_key_def take_bit_7)
  then have "\<not> bit c 7" and "take_bit 7 (uint c) = uint c"
    by (metis bit_take_bit_iff less_irrefl) (metis \<open>take_bit 7 c = c\<close> unsigned_take_bit_eq)
  then show ?thesis by (simp add: sint_uint signed_take_bit_eq_if_positive bit_uint_iff)
qed

lemma getchar_rep:
  assumes rep: "kbd_rep st (x # q)"
  shows "keyboard_getchar_nonblock st = (sint x, st\<lparr>kbd_tail := (kbd_tail st + 1) mod 256\<rparr>)"
    and "kbd_rep (st\<lparr>kbd_tail := (kbd_tail st + 1) mod 256\<rparr>) q"
proof -
  let ?t = "kbd_tail st"
  have r: "length (kbd_buf st) = 256" "?t < 256" "kbd_head st = (?t + Suc (length q)) mod 256" "length q < 255"
    "\<And>i. i < Suc (length q) \<Longrightarrow> kbd_buf st ! ((?t + i) mod 256) = (x # q) ! i" using rep by (auto simp: kbd_rep_def)
  have "kbd_head st \<noteq> ?t" using kbd_rep_empty [OF rep] by simp
  moreover have "kbd_buf st ! ?t = x" using r(5) [of 0] r(2) by simp
  ultimately show "keyboard_getchar_nonblock st = (sint x, st\<lparr>kbd_tail := (?t + 1) mod 256\<rparr>)"
    by (simp add: keyboard_getchar_nonblock_def KBD_BUF_SIZE_def)
  have "kbd_buf st ! (((?t + 1) mod 256 + i) mod 256) = q ! i" if "i < length q" for i
    using r(5) [of "Suc i"] that by (simp add: mod_simps)
  then show "kbd_rep (st\<lparr>kbd_tail := (?t + 1) mod 256\<rparr>) q"
    using r by (simp add: kbd_rep_def mod_simps)
qed

interpretation keys: fifo kbd_inv kbd_can_put kbd_push kbd_get
proof
  fix st :: kbd and q :: "u8 list" and c :: u8
  show "kbd_inv st q \<Longrightarrow> kbd_can_put c st q \<Longrightarrow> kbd_inv (kbd_push c st) (q @ [c])"
    by (simp add: kbd_can_put_def kbd_inv_def kbd_push_put)
  show "kbd_inv st [] \<Longrightarrow> kbd_get st = (None, st)"
    using kbd_rep_empty [of st "[]"] by (simp add: kbd_get_def kbd_inv_def keyboard_getchar_nonblock_def)
  assume inv: "kbd_inv st (c # q)"
  then have k: "is_key c" and rep: "kbd_rep st (c # q)" by (simp_all add: kbd_inv_def)
  have "0 \<le> sint c" unfolding sint_key [OF k] by (rule of_nat_0_le_iff)
  then have "sint c \<noteq> - 1" by linarith
  then show "\<exists>st'. kbd_get st = (Some c, st') \<and> kbd_inv st' q"
    using getchar_rep [OF rep] inv by (simp add: kbd_get_def kbd_inv_def)
qed

lemma kbd_push_full:
  assumes "kbd_rep st q" and "length q = 255"
  shows "kbd_push c st = st"
proof -
  have "(kbd_head st + 1) mod 256 = kbd_tail st" using assms by (simp add: kbd_rep_def mod_simps)
  then show ?thesis by (simp add: kbd_push_def KBD_BUF_SIZE_def)
qed

text \<open>Every character that the translation yields is a non-zero ASCII code.\<close>

lemma keymap_length: "length keymap = 128"
  by (simp add: keymap_def ascii_def)

lemma keymap_keys: "\<forall>c\<in>set keymap. c = 0 \<or> is_key c \<and> is_key (shift_char c)"
  by (simp add: keymap_def ascii_def is_key_def shift_char_def shift_table_def of_char_def)


lemma keymap_nth_key:
  assumes "(scancode :: u8) < 128" and "keymap ! unat scancode \<noteq> 0"
  shows "is_key (keymap ! unat scancode)" and "is_key (shift_char (keymap ! unat scancode))"
proof -
  have "unat scancode < length keymap" using assms(1) by (simp add: keymap_length word_less_nat_alt)
  then have "keymap ! unat scancode \<in> set keymap" by (rule nth_mem)
  then show "is_key (keymap ! unat scancode)" "is_key (shift_char (keymap ! unat scancode))"
    using keymap_keys assms(2) by auto
qed

text \<open>The character that a pressed key stands for.\<close>

definition typed :: "bool \<Rightarrow> u8 \<Rightarrow> u8" where
  "typed shift scancode = (let c = keymap ! unat scancode in if shift then shift_char c else c)"

definition makes_char :: "u8 \<Rightarrow> u8 \<Rightarrow> bool" where
  "makes_char status scancode \<longleftrightarrow> status AND 0x20 = 0 \<and> scancode < 128 \<and> scancode \<noteq> 0x2A \<and> scancode \<noteq> 0x36 \<and>
     keymap ! unat scancode \<noteq> 0"

lemma low_bit7_clear: "scancode < 128 \<Longrightarrow> scancode AND 0x80 = (0 :: u8)"
proof -
  assume "scancode < 128"
  then have "take_bit 7 scancode = scancode" by (rule take_bit_7)
  moreover have "take_bit 7 scancode AND 0x80 = 0"
    by (rule bit_word_eqI) (auto simp: bit_simps numeral_eq_Suc less_Suc_eq)
  ultimately show ?thesis by simp
qed

lemma handler_push:
  "makes_char status scancode \<Longrightarrow>
     keyboard_handler status scancode st = kbd_push (typed (shift_pressed st) scancode) st"
  by (simp add: keyboard_handler_def makes_char_def typed_def Let_def low_bit7_clear)

lemma handler_other:
  "\<not> makes_char status scancode \<Longrightarrow>
     \<exists>b. keyboard_handler status scancode st = st\<lparr>shift_pressed := b\<rparr>"
  by (auto simp: keyboard_handler_def makes_char_def Let_def intro: exI [of _ "shift_pressed st"])

lemma typed_key: "makes_char status scancode \<Longrightarrow> is_key (typed b scancode)"
  by (simp add: typed_def makes_char_def Let_def keymap_nth_key)

lemma kbd_rep_shift [simp]: "kbd_rep (st\<lparr>shift_pressed := b\<rparr>) q = kbd_rep st q"
  by (simp add: kbd_rep_def)

lemma handler_inv:
  assumes inv: "kbd_inv st q"
  shows "kbd_inv (keyboard_handler status scancode st)
     (if makes_char status scancode \<and> length q < 255 then q @ [typed (shift_pressed st) scancode] else q)"
proof (cases "makes_char status scancode")
  case True
  show ?thesis
  proof (cases "length q < 255")
    case True
    then show ?thesis
      using \<open>makes_char status scancode\<close> inv
      by (auto simp: kbd_inv_def handler_push kbd_push_put typed_key)
  next
    case False
    then have "length q = 255" using inv by (simp add: kbd_inv_def kbd_rep_def)
    then have "kbd_push (typed (shift_pressed st) scancode) st = st"
      using inv by (intro kbd_push_full [of st q]) (simp_all add: kbd_inv_def)
    then show ?thesis using inv True \<open>length q = 255\<close> by (simp add: handler_push)
  qed
next
  case False
  then show ?thesis using inv handler_other [of status scancode st] by (auto simp: kbd_inv_def)
qed

section \<open>Properties\<close>

definition demo_kbd :: kbd where
  "demo_kbd = \<lparr>shift_pressed = True, kbd_buf = (replicate 256 0)[254 := 104, 255 := 105], kbd_head = 0, kbd_tail = 254\<rparr>"

definition demo_full :: kbd where
  "demo_full = \<lparr>shift_pressed = False, kbd_buf = replicate 256 104, kbd_head = 255, kbd_tail = 0\<rparr>"

lemma all_less_two: "(\<forall>i < Suc (Suc 0). P i) \<longleftrightarrow> P 0 \<and> P (Suc 0)"
  by (auto simp: less_Suc_eq)

lemma demo_kbd_inv: "kbd_inv demo_kbd [104, 105]"
proof -
  have "is_key 104" "is_key 105" by (simp_all add: is_key_def)
  moreover have "kbd_rep demo_kbd [104, 105]"
    by (simp add: kbd_rep_def demo_kbd_def all_less_two nth_list_update)
  ultimately show ?thesis by (simp add: kbd_inv_def)
qed

lemma demo_kbd_shift: "shift_pressed demo_kbd"
  by (simp add: demo_kbd_def)

lemma demo_full_inv: "kbd_inv demo_full (replicate 255 104)"
proof -
  have "kbd_buf demo_full ! (i mod 256) = replicate 255 104 ! i" if "i < 255" for i
    using that by (simp add: demo_full_def)
  then show ?thesis by (simp add: kbd_inv_def kbd_rep_def is_key_def) (simp add: demo_full_def)
qed

text \<open>C27. What is typed is read in the order in which it was typed: after the interrupt for a key
  that stands for a character, reading until nothing is left yields the characters that were
  waiting and then, if fewer than 255 were waiting, the new one with the shift state at the
  time of the press; with 255 waiting the new character is dropped and the others are untouched.\<close>

theorem keyboard_delivers_in_order:
  assumes "kbd_inv st q" and "makes_char status scancode"
  shows "\<exists>st'. get_n kbd_get 256 (keyboard_handler status scancode st)
      = (if length q < 255 then q @ [typed (shift_pressed st) scancode] else q, st') \<and>
    kbd_inv st' [] \<and> keyboard_getchar_nonblock st' = (- 1, st')"
proof -
  let ?q = "if length q < 255 then q @ [typed (shift_pressed st) scancode] else q"
  have "length q < 256" using assms(1) by (simp add: kbd_inv_def kbd_rep_def)
  then have l: "take 256 ?q = ?q" "drop 256 ?q = []" by auto
  obtain st' where g: "get_n kbd_get 256 (keyboard_handler status scancode st) = (?q, st')" "kbd_inv st' []"
    using keys.get_n_rep [OF handler_inv [OF assms(1), of status scancode], of 256] assms(2) l by auto
  have "kbd_head st' = kbd_tail st'" using kbd_rep_empty [of st' "[]"] g(2) by (simp add: kbd_inv_def)
  then show ?thesis using g by (simp add: keyboard_getchar_nonblock_def)
qed

theorem keyboard_delivers_in_order_witness:
  "(\<exists>st'. get_n kbd_get 256 (keyboard_handler 0x1C 0x1E demo_kbd) = ([104, 105, 65], st') \<and> kbd_inv st' []) \<and>
   (\<exists>st'. get_n kbd_get 256 (keyboard_handler 0x1C 0x1E demo_full) = (replicate 255 104, st') \<and> kbd_inv st' [])"
proof
  have m: "makes_char 0x1C 0x1E" by (simp add: makes_char_def keymap_def ascii_def of_char_def)
  have "typed True 0x1E = 65"
    by (simp add: typed_def Let_def keymap_def ascii_def of_char_def shift_char_def)
  then show "\<exists>st'. get_n kbd_get 256 (keyboard_handler 0x1C 0x1E demo_kbd) = ([104, 105, 65], st') \<and> kbd_inv st' []"
    using keyboard_delivers_in_order [OF demo_kbd_inv m] demo_kbd_shift by auto
  show "\<exists>st'. get_n kbd_get 256 (keyboard_handler 0x1C 0x1E demo_full) = (replicate 255 104, st') \<and> kbd_inv st' []"
    using keyboard_delivers_in_order [OF demo_full_inv m] by auto
qed

text \<open>The interrupt handler keeps the buffer well formed and full of non-zero ASCII characters
  whatever the two ports return, drops a character only when 255 are waiting, and
  \<open>keyboard_getchar_nonblock\<close> returns the oldest character as a positive number, or -1 exactly
  when nothing is waiting.\<close>

theorem keyboard_getchar_correct:
  assumes "kbd_inv st q"
  shows "kbd_inv (keyboard_handler status scancode st)
       (if makes_char status scancode \<and> length q < 255 then q @ [typed (shift_pressed st) scancode] else q) \<and>
     fst (keyboard_getchar_nonblock st) = (case q of [] \<Rightarrow> - 1 | c # _ \<Rightarrow> int (unat c)) \<and>
     kbd_inv (snd (keyboard_getchar_nonblock st)) (tl q) \<and>
     (fst (keyboard_getchar_nonblock st) = - 1 \<longleftrightarrow> q = [])"
proof (cases q)
  case Nil
  then show ?thesis using assms handler_inv [OF assms] kbd_rep_empty [of st q]
    by (simp add: kbd_inv_def keyboard_getchar_nonblock_def)
next
  case (Cons c r)
  then have rep: "kbd_rep st (c # r)" and k: "is_key c" and ks: "\<forall>c\<in>set r. is_key c"
    using assms by (auto simp: kbd_inv_def)
  have "uint c \<noteq> - 1" using uint_nonnegative [of c] by linarith
  then show ?thesis using handler_inv [OF assms] getchar_rep [OF rep] ks Cons k
    by (simp add: kbd_inv_def sint_key)
qed

theorem keyboard_getchar_correct_witness:
  "fst (keyboard_getchar_nonblock demo_kbd) = 104 \<and> kbd_inv (snd (keyboard_getchar_nonblock demo_kbd)) [105]"
  using keyboard_getchar_correct [OF demo_kbd_inv] by simp

end
