(* ===== verification/Block_Disk.thy ===== *)
theory Block_Disk
  imports Flyos_Prelude
begin

text \<open>
  The interface between the file systems and the disk driver: the two operations that
  \<open>ata.h\<close> exports, and the contract of a disk that works.  \<open>sec d l\<close> is the contents of
  sector \<open>l\<close>; the first \<open>cap\<close> sectors exist.
\<close>

record 'd disk_ops =
  dk_read :: "u32 \<Rightarrow> u8 \<Rightarrow> 'd \<Rightarrow> u8 list option \<times> 'd"
  dk_write :: "u32 \<Rightarrow> u8 \<Rightarrow> u8 list \<Rightarrow> 'd \<Rightarrow> bool \<times> 'd"

definition lbas :: "u32 \<Rightarrow> nat \<Rightarrow> u32 list" where
  "lbas l n = map (\<lambda>i. l + of_nat i) [0..<n]"

text \<open>The sectors after writing \<open>n\<close> blocks of \<open>b\<close> from \<open>l\<close> on.\<close>

fun put_sectors :: "u32 \<Rightarrow> nat \<Rightarrow> u8 list \<Rightarrow> (u32 \<Rightarrow> u8 list) \<Rightarrow> u32 \<Rightarrow> u8 list" where
  "put_sectors l 0 b S = S"
| "put_sectors l (Suc n) b S = put_sectors (l + 1) n (drop 512 b) (S(l := take 512 b))"

lemma lbas_Cons: "lbas l (Suc n) = l # lbas (l + 1) n"
  by (simp add: lbas_def map_upt_Suc del: upt_Suc)

lemma lbas_distinct: "n \<le> 2 ^ 32 \<Longrightarrow> distinct (lbas l n)"
proof -
  assume n: "n \<le> 2 ^ 32"
  have "i = j" if "i < n" "j < n" "(l + of_nat i :: u32) = l + of_nat j" for i j
  proof -
    have "unat (of_nat i :: u32) = unat (of_nat j :: u32)" using that(3) by simp
    then show ?thesis using that(1,2) n by (simp add: unat_of_nat take_bit_nat_eq_self)
  qed
  then show ?thesis by (auto simp: lbas_def distinct_map inj_on_def)
qed

lemma put_sectors_other: "l \<notin> set (lbas k n) \<Longrightarrow> put_sectors k n b S l = S l"
  by (induction n arbitrary: k b S) (simp_all add: lbas_Cons)

lemma put_sectors_read:
  "n \<le> 2 ^ 32 \<Longrightarrow> length b = 512 * n \<Longrightarrow> concat (map (put_sectors l n b S) (lbas l n)) = b"
proof (induction n arbitrary: l b S)
  case 0
  then show ?case by (simp add: lbas_def)
next
  case (Suc n)
  have "l \<notin> set (lbas (l + 1) n)" using lbas_distinct [OF Suc.prems(1), of l] by (simp add: lbas_Cons)
  then have "put_sectors (l + 1) n (drop 512 b) (S(l := take 512 b)) l = take 512 b" by (simp add: put_sectors_other)
  moreover have "concat (map (put_sectors (l + 1) n (drop 512 b) (S(l := take 512 b))) (lbas (l + 1) n)) = drop 512 b"
    using Suc by simp
  ultimately show ?case by (simp add: lbas_Cons)
qed

locale disk =
  fixes D :: "'d disk_ops"
    and sec :: "'d \<Rightarrow> u32 \<Rightarrow> u8 list"
    and good :: "'d \<Rightarrow> bool"
    and cap :: nat
  assumes cap_small: "cap < 2 ^ 32"
    and sec_len: "good d \<Longrightarrow> length (sec d l) = 512"
    and read_ok: "good d \<Longrightarrow> 0 < n \<Longrightarrow> unat l + unat n \<le> cap \<Longrightarrow>
      \<exists>d'. dk_read D l n d = (Some (concat (map (sec d) (lbas l (unat n)))), d') \<and> good d' \<and> sec d' = sec d"
    and write_ok: "good d \<Longrightarrow> 0 < n \<Longrightarrow> unat l + unat n \<le> cap \<Longrightarrow> length b = 512 * unat n \<Longrightarrow>
      \<exists>d'. dk_write D l n b d = (True, d') \<and> good d' \<and> sec d' = put_sectors l (unat n) b (sec d)"
begin

lemma read1:
  assumes "good d" and "unat l < cap"
  shows "\<exists>d'. dk_read D l 1 d = (Some (sec d l), d') \<and> good d' \<and> sec d' = sec d"
  using read_ok [OF assms(1), of 1 l] assms(2) by (simp add: lbas_def)

lemma write_then_read:
  assumes "good d" and "0 < n" and "unat l + unat n \<le> cap" and "length b = 512 * unat n"
  shows "\<exists>d' d''. dk_write D l n b d = (True, d') \<and> dk_read D l n d' = (Some b, d'') \<and> good d''"
proof -
  obtain d' where w: "dk_write D l n b d = (True, d')" "good d'" "sec d' = put_sectors l (unat n) b (sec d)"
    using write_ok [OF assms] by blast
  have "unat n \<le> 2 ^ 32" using assms(3) cap_small by simp
  then have "concat (map (sec d') (lbas l (unat n))) = b" using w(3) assms(4) by (simp add: put_sectors_read)
  then show ?thesis using read_ok [OF w(2) assms(2,3)] w(1) by auto
qed

lemma write1:
  assumes "good d" and "unat l < cap" and "length b = 512"
  shows "\<exists>d'. dk_write D l 1 b d = (True, d') \<and> good d' \<and> sec d' = (sec d)(l := b)"
  using write_ok [OF assms(1), of 1 l b] assms(2,3) by simp

end

end
