(* ===== verification/Ata.thy ===== *)
theory Ata
  imports Block_Disk
begin

text \<open>
  The ATA driver in PIO mode, \<open>kernel/drivers/ata.c\<close>.  The ports are the argument \<open>P\<close> of
  every function: \<open>'v\<close> is the state of the hardware behind them.  The static variables
  \<open>disk_sectors\<close> and \<open>disk_model\<close> are the record \<open>ata\<close>.  The second half of the theory has
  a drive that follows the PIO protocol, with its busy phases, data requests, errors and write
  cache, and shows that driver and drive together are a disk in the sense of the interface,
  as long as the drive keeps the time the driver gives it.
\<close>

section \<open>Driver\<close>

record 'v ports =
  p_inb :: "u16 \<Rightarrow> 'v \<Rightarrow> u8 \<times> 'v"
  p_outb :: "u16 \<Rightarrow> u8 \<Rightarrow> 'v \<Rightarrow> 'v"
  p_inw :: "u16 \<Rightarrow> 'v \<Rightarrow> u16 \<times> 'v"
  p_outw :: "u16 \<Rightarrow> u16 \<Rightarrow> 'v \<Rightarrow> 'v"

definition ATA_DATA :: u16 where "ATA_DATA = 0x1F0"
definition ATA_SECCOUNT :: u16 where "ATA_SECCOUNT = 0x1F2"
definition ATA_LBA_LO :: u16 where "ATA_LBA_LO = 0x1F3"
definition ATA_LBA_MID :: u16 where "ATA_LBA_MID = 0x1F4"
definition ATA_LBA_HI :: u16 where "ATA_LBA_HI = 0x1F5"
definition ATA_DRIVE :: u16 where "ATA_DRIVE = 0x1F6"
definition ATA_STATUS :: u16 where "ATA_STATUS = 0x1F7"
definition ATA_COMMAND :: u16 where "ATA_COMMAND = 0x1F7"
definition ATA_CTRL :: u16 where "ATA_CTRL = 0x3F6"

lemmas ata_ports = ATA_DATA_def ATA_SECCOUNT_def ATA_LBA_LO_def ATA_LBA_MID_def ATA_LBA_HI_def ATA_DRIVE_def
  ATA_STATUS_def ATA_COMMAND_def ATA_CTRL_def

record ata =
  disk_sectors :: u32
  disk_model :: "u8 list"

definition io_wait :: "'v ports \<Rightarrow> 'v \<Rightarrow> 'v" where
  "io_wait P = (\<lambda>v. snd (p_inb P ATA_CTRL v)) ^^ 4"

fun poll_not_busy :: "'v ports \<Rightarrow> nat \<Rightarrow> 'v \<Rightarrow> bool \<times> 'v" where
  "poll_not_busy P 0 v = (False, v)"
| "poll_not_busy P (Suc n) v =
     (case p_inb P ATA_STATUS v of (s, v) \<Rightarrow> if s AND 0x80 = 0 then (True, v) else poll_not_busy P n v)"

definition wait_not_busy :: "'v ports \<Rightarrow> 'v \<Rightarrow> bool \<times> 'v" where
  "wait_not_busy P = poll_not_busy P 1000000"

fun poll_drq :: "'v ports \<Rightarrow> nat \<Rightarrow> 'v \<Rightarrow> bool \<times> 'v" where
  "poll_drq P 0 v = (False, v)"
| "poll_drq P (Suc n) v =
     (case p_inb P ATA_STATUS v of
        (s, v) \<Rightarrow>
          if s AND 0x01 \<noteq> 0 then (False, v)
          else if s AND 0x20 \<noteq> 0 then (False, v)
          else if s AND 0x80 = 0 \<and> s AND 0x08 \<noteq> 0 then (True, v)
          else poll_drq P n v)"

definition wait_drq :: "'v ports \<Rightarrow> 'v \<Rightarrow> bool \<times> 'v" where
  "wait_drq P = poll_drq P 1000000"

fun in_words :: "'v ports \<Rightarrow> nat \<Rightarrow> 'v \<Rightarrow> u16 list \<times> 'v" where
  "in_words P 0 v = ([], v)"
| "in_words P (Suc n) v =
     (case p_inw P ATA_DATA v of (w, v) \<Rightarrow> (case in_words P n v of (ws, v) \<Rightarrow> (w # ws, v)))"

fun out_words :: "'v ports \<Rightarrow> u16 list \<Rightarrow> 'v \<Rightarrow> 'v" where
  "out_words P [] v = v"
| "out_words P (w # ws) v = out_words P ws (p_outw P ATA_DATA w v)"

definition strip_spaces :: "u8 list \<Rightarrow> u8 list" where
  "strip_spaces s = rev (dropWhile (\<lambda>c. c = 0x20) (rev s))"

definition ata_init :: "'v ports \<Rightarrow> ata \<Rightarrow> 'v \<Rightarrow> int \<times> ata \<times> 'v" where
  "ata_init P a v =
     (let v = io_wait P (p_outb P ATA_DRIVE 0xA0 v);
          v = p_outb P ATA_CTRL 0x02 v;
          v = p_outb P ATA_SECCOUNT 0 v;
          v = p_outb P ATA_LBA_LO 0 v;
          v = p_outb P ATA_LBA_MID 0 v;
          v = p_outb P ATA_LBA_HI 0 v;
          v = io_wait P (p_outb P ATA_COMMAND 0xEC v);
          (status, v) = p_inb P ATA_STATUS v in
      if status = 0 then (-1, a, v)
      else
        (let (ok, v) = wait_not_busy P v in
         if \<not> ok then (-1, a, v)
         else
           (let (mid, v) = p_inb P ATA_LBA_MID v in
            if mid \<noteq> 0 then (-1, a, v)
            else
              (let (hi, v) = p_inb P ATA_LBA_HI v in
               if hi \<noteq> 0 then (-1, a, v)
               else
                 (let (ok, v) = wait_drq P v in
                  if \<not> ok then (-1, a, v)
                  else
                    (let (ident, v) = in_words P 256 v;
                         model = concat (map (\<lambda>i. [ucast (drop_bit 8 (ident ! (27 + i))), ucast (ident ! (27 + i))]) [0..<20])
                     in (0, a\<lparr>disk_model := strip_spaces model,
                              disk_sectors := ucast (ident ! 60) OR push_bit 16 (ucast (ident ! 61))\<rparr>, v)))))))"

text \<open>The register writes that start a command.\<close>

definition ata_command :: "'v ports \<Rightarrow> u8 \<Rightarrow> u32 \<Rightarrow> u8 \<Rightarrow> 'v \<Rightarrow> 'v" where
  "ata_command P cmd lba count v =
     (let v = p_outb P ATA_DRIVE (0xE0 OR ucast (drop_bit 24 lba AND 0x0F)) v;
          v = p_outb P ATA_SECCOUNT count v;
          v = p_outb P ATA_LBA_LO (ucast (lba AND 0xFF)) v;
          v = p_outb P ATA_LBA_MID (ucast (drop_bit 8 lba AND 0xFF)) v;
          v = p_outb P ATA_LBA_HI (ucast (drop_bit 16 lba AND 0xFF)) v
      in p_outb P ATA_COMMAND cmd v)"

definition word_bytes :: "u16 list \<Rightarrow> u8 list" where
  "word_bytes ws = concat (map (le_bytes 2) ws)"

fun bytes_words :: "u8 list \<Rightarrow> u16 list" where
  "bytes_words (a # b # bs) = le_word [a, b] # bytes_words bs"
| "bytes_words bs = []"

fun read_blocks :: "'v ports \<Rightarrow> nat \<Rightarrow> u8 list \<Rightarrow> 'v \<Rightarrow> u8 list option \<times> 'v" where
  "read_blocks P 0 out v = (Some out, v)"
| "read_blocks P (Suc n) out v =
     (case wait_drq P v of
        (ok, v) \<Rightarrow>
          if \<not> ok then (None, v)
          else (case in_words P 256 v of (ws, v) \<Rightarrow> read_blocks P n (out @ word_bytes ws) v))"

definition ata_read_sectors :: "'v ports \<Rightarrow> ata \<Rightarrow> u32 \<Rightarrow> u8 \<Rightarrow> 'v \<Rightarrow> u8 list option \<times> 'v" where
  "ata_read_sectors P a lba count v =
     (if disk_sectors a = 0 then (None, v)
      else
        (case wait_not_busy P v of
           (ok, v) \<Rightarrow>
             if \<not> ok then (None, v)
             else read_blocks P (unat count) [] (ata_command P 0x20 lba count v)))"

fun write_blocks :: "'v ports \<Rightarrow> nat \<Rightarrow> u8 list \<Rightarrow> 'v \<Rightarrow> bool \<times> 'v" where
  "write_blocks P 0 buf v = (True, v)"
| "write_blocks P (Suc n) buf v =
     (case wait_drq P v of
        (ok, v) \<Rightarrow>
          if \<not> ok then (False, v)
          else write_blocks P n (drop 512 buf) (io_wait P (out_words P (bytes_words (take 512 buf)) v)))"

definition ata_write_sectors :: "'v ports \<Rightarrow> ata \<Rightarrow> u32 \<Rightarrow> u8 \<Rightarrow> u8 list \<Rightarrow> 'v \<Rightarrow> bool \<times> 'v" where
  "ata_write_sectors P a lba count buf v =
     (if disk_sectors a = 0 then (False, v)
      else
        (case wait_not_busy P v of
           (ok, v) \<Rightarrow>
             if \<not> ok then (False, v)
             else
               (case write_blocks P (unat count) buf (ata_command P 0x30 lba count v) of
                  (ok, v) \<Rightarrow>
                    if \<not> ok then (False, v)
                    else wait_not_busy P (p_outb P ATA_COMMAND 0xE7 v))))"

definition ata_ops :: "'v ports \<Rightarrow> ata \<Rightarrow> 'v disk_ops" where
  "ata_ops P a = \<lparr>dk_read = ata_read_sectors P a, dk_write = ata_write_sectors P a\<rparr>"


section \<open>A drive that follows the protocol\<close>

text \<open>
  The drive of the ATA standard, as far as the driver sees it.  BSY is set with a command and
  after every block and stays for a number of status reads: \<open>dr_delay\<close> of them for a command and between
  blocks, \<open>dr_tail\<close> after the last block of a write, while the drive moves it into its cache.  Reading
  the status or the alternate status is what lets the time pass.  While BSY is set the drive ignores
  the registers, the commands and the data port; while a block is due it has DRQ and ignores
  commands.  A written block goes into the write cache \<open>dr_cache\<close>; only FLUSH moves the cache onto the
  medium \<open>dr_sectors\<close>, and it is done when BSY clears.  A range beyond \<open>dr_size\<close> is refused with ERR. A
  count register of 0 means 256 sectors.  IDENTIFY sends the 256 words \<open>dr_ident\<close>.
\<close>

datatype drive_mode = Idle | Sending u32 nat "u8 list" | Receiving u32 nat "u8 list" | Flushing

record drive =
  dr_sectors :: "u32 \<Rightarrow> u8 list"
  dr_cache :: "u32 \<rightharpoonup> u8 list"
  dr_ident :: "u16 list"
  dr_size :: nat
  dr_delay :: nat
  dr_tail :: nat
  dr_busy :: nat
  dr_err :: bool
  dr_count :: u8
  dr_lo :: u8
  dr_mid :: u8
  dr_hi :: u8
  dr_dev :: u8
  dr_mode :: drive_mode

definition drive_lba :: "drive \<Rightarrow> u32" where
  "drive_lba v = ucast (dr_lo v) OR push_bit 8 (ucast (dr_mid v)) OR push_bit 16 (ucast (dr_hi v)) OR
     push_bit 24 (ucast (dr_dev v AND 0x0F))"

definition drive_n :: "drive \<Rightarrow> nat" where
  "drive_n v = (if dr_count v = 0 then 256 else unat (dr_count v))"

text \<open>What a read returns: the cached sector, if there is one.\<close>

definition drive_view :: "drive \<Rightarrow> u32 \<Rightarrow> u8 list" where
  "drive_view v l = (case dr_cache v l of Some s \<Rightarrow> s | None \<Rightarrow> dr_sectors v l)"

text \<open>BSY for \<open>k\<close> more status reads; with none left a FLUSH in progress is done.\<close>

definition set_busy :: "nat \<Rightarrow> drive \<Rightarrow> drive" where
  "set_busy k v =
     (if k = 0 \<and> dr_mode v = Flushing
      then v\<lparr>dr_sectors := drive_view v, dr_cache := (\<lambda>_. None), dr_mode := Idle, dr_busy := 0\<rparr>
      else v\<lparr>dr_busy := k\<rparr>)"

definition drive_status :: "drive \<Rightarrow> u8" where
  "drive_status v =
     (if 0 < dr_busy v then 0x80
      else
        (case dr_mode v of
           Sending l n bs \<Rightarrow> 0x48
         | Receiving l n bs \<Rightarrow> 0x48
         | _ \<Rightarrow> if dr_err v then 0x41 else 0x40))"

definition drive_inb :: "u16 \<Rightarrow> drive \<Rightarrow> u8 \<times> drive" where
  "drive_inb p v =
     (if p = ATA_STATUS \<or> p = ATA_CTRL then (drive_status v, set_busy (dr_busy v - 1) v)
      else if p = ATA_LBA_MID then (dr_mid v, v)
      else if p = ATA_LBA_HI then (dr_hi v, v)
      else (0, v))"

definition drive_command :: "u8 \<Rightarrow> drive \<Rightarrow> drive" where
  "drive_command x v =
     (let l = drive_lba v; n = drive_n v; w = v\<lparr>dr_err := False\<rparr> in
      if x = 0x20 \<or> x = 0x30 then
        (if dr_size v < unat l + n then v\<lparr>dr_err := True\<rparr>
         else set_busy (dr_delay v) (w\<lparr>dr_mode := (if x = 0x20 then Sending l n (drive_view v l) else Receiving l n [])\<rparr>))
      else if x = 0xE7 then set_busy (dr_delay v) (w\<lparr>dr_mode := Flushing\<rparr>)
      else if x = 0xEC then set_busy (dr_delay v) (w\<lparr>dr_mode := Sending 0 1 (word_bytes (dr_ident v))\<rparr>)
      else v\<lparr>dr_err := True\<rparr>)"

definition drive_outb :: "u16 \<Rightarrow> u8 \<Rightarrow> drive \<Rightarrow> drive" where
  "drive_outb p x v =
     (if 0 < dr_busy v \<or> dr_mode v \<noteq> Idle then v
      else if p = ATA_SECCOUNT then v\<lparr>dr_count := x\<rparr>
      else if p = ATA_LBA_LO then v\<lparr>dr_lo := x\<rparr>
      else if p = ATA_LBA_MID then v\<lparr>dr_mid := x\<rparr>
      else if p = ATA_LBA_HI then v\<lparr>dr_hi := x\<rparr>
      else if p = ATA_DRIVE then v\<lparr>dr_dev := x\<rparr>
      else if p = ATA_COMMAND then drive_command x v
      else v)"

definition drive_inw :: "u16 \<Rightarrow> drive \<Rightarrow> u16 \<times> drive" where
  "drive_inw p v =
     (case dr_mode v of
        Sending l n (a # b # bs) \<Rightarrow>
          (if 0 < dr_busy v then (0, v)
           else
             (le_word [a, b],
              if bs \<noteq> [] then v\<lparr>dr_mode := Sending l n bs\<rparr>
              else if n \<le> 1 then v\<lparr>dr_mode := Idle\<rparr>
              else v\<lparr>dr_mode := Sending (l + 1) (n - 1) (drive_view v (l + 1)), dr_busy := dr_delay v\<rparr>))
      | _ \<Rightarrow> (0, v))"

definition drive_outw :: "u16 \<Rightarrow> u16 \<Rightarrow> drive \<Rightarrow> drive" where
  "drive_outw p w v =
     (case dr_mode v of
        Receiving l n acc \<Rightarrow>
          (let acc = acc @ le_bytes 2 w; c = (dr_cache v)(l \<mapsto> acc) in
           if 0 < dr_busy v then v
           else if length acc < 512 then v\<lparr>dr_mode := Receiving l n acc\<rparr>
           else if n \<le> 1 then v\<lparr>dr_cache := c, dr_mode := Idle, dr_busy := dr_tail v\<rparr>
           else v\<lparr>dr_cache := c, dr_mode := Receiving (l + 1) (n - 1) [], dr_busy := dr_delay v\<rparr>)
      | _ \<Rightarrow> v)"

definition drive_ports :: "drive ports" where
  "drive_ports = \<lparr>p_inb = drive_inb, p_outb = drive_outb, p_inw = drive_inw, p_outw = drive_outw\<rparr>"

text \<open>
  A drive between two commands of the driver: it may still be busy, nothing waits in the write cache,
  the delays are below the driver's limit of a million polls, and the last block of a write is in
  the cache by the time of the four status reads of \<open>io_wait\<close>.
\<close>

definition drive_fit :: "drive \<Rightarrow> bool" where
  "drive_fit v \<longleftrightarrow> dr_mode v = Idle \<and> dr_busy v < 1000000 \<and> dr_delay v < 1000000 \<and> dr_tail v < 1000000 \<and>
     dr_size v = 2 ^ 28 \<and> (\<forall>l. length (drive_view v l) = 512)"

definition drive_ok :: "drive \<Rightarrow> bool" where
  "drive_ok v \<longleftrightarrow> drive_fit v \<and> dr_cache v = (\<lambda>_. None) \<and> dr_tail v \<le> 4"

lemma drive_ports_simps [simp]:
  "p_inb drive_ports = drive_inb" "p_outb drive_ports = drive_outb" "p_inw drive_ports = drive_inw" "p_outw drive_ports = drive_outw"
  by (simp_all add: drive_ports_def)

lemma drive_view_cong [simp]:
  "drive_view (v\<lparr>dr_mode := m\<rparr>) = drive_view v" "drive_view (v\<lparr>dr_busy := k\<rparr>) = drive_view v"
  "drive_view (v\<lparr>dr_err := e\<rparr>) = drive_view v"
  by (simp_all add: drive_view_def fun_eq_iff split: option.split)

section \<open>Driver and drive\<close>

lemma set_busy_plain [simp]: "dr_mode v \<noteq> Flushing \<Longrightarrow> set_busy k v = v\<lparr>dr_busy := k\<rparr>"
  by (simp add: set_busy_def)

lemma set_busy_twice: "0 < k \<Longrightarrow> set_busy j (set_busy k v) = set_busy j v"
  by (simp add: set_busy_def drive_view_def)

text \<open>Waiting for BSY to clear ends, and leaves the drive with its work done.\<close>

lemma poll_not_busy_drive:
  "dr_busy v < k \<Longrightarrow> dr_mode v = Flushing \<longrightarrow> 0 < dr_busy v \<Longrightarrow> poll_not_busy drive_ports k v = (True, set_busy 0 v)"
proof (induction k arbitrary: v)
  case (Suc k)
  show ?case
  proof (cases "dr_busy v = 0")
    case True
    then have "drive_status v AND 0x80 = 0" by (simp add: drive_status_def split: drive_mode.splits)
    then show ?thesis using True by (simp add: drive_inb_def)
  next
    case False
    then have s: "drive_status v = 0x80" by (simp add: drive_status_def)
    show ?thesis
    proof (cases "dr_busy v = 1")
      case True
      have "dr_busy (set_busy 0 v) = 0" "dr_mode (set_busy 0 v) \<noteq> Flushing" by (simp_all add: set_busy_def)
      moreover from this have "set_busy 0 (set_busy 0 v) = set_busy 0 v" by simp
      ultimately show ?thesis using True s Suc.IH [of "set_busy 0 v"] Suc.prems by (simp add: drive_inb_def)
    next
      case b: False
      let ?w = "set_busy (dr_busy v - 1) v"
      have "dr_busy ?w = dr_busy v - 1" "dr_mode ?w = dr_mode v" using False b by (auto simp: set_busy_def)
      then have "poll_not_busy drive_ports k ?w = (True, set_busy 0 ?w)" using Suc.prems False b by (intro Suc.IH) auto
      moreover have "set_busy 0 ?w = set_busy 0 v" using False b by (intro set_busy_twice) simp
      ultimately show ?thesis using s by (simp add: drive_inb_def)
    qed
  qed
qed simp

lemma wait_not_busy_drive:
  "dr_busy v < 1000000 \<Longrightarrow> dr_mode v = Flushing \<longrightarrow> 0 < dr_busy v \<Longrightarrow> wait_not_busy drive_ports v = (True, set_busy 0 v)"
  unfolding wait_not_busy_def by (rule poll_not_busy_drive)

definition transfers :: "drive \<Rightarrow> bool" where
  "transfers v \<longleftrightarrow> (case dr_mode v of Sending l n bs \<Rightarrow> True | Receiving l n bs \<Rightarrow> True | _ \<Rightarrow> False)"

lemma poll_drq_drive: "dr_busy v < k \<Longrightarrow> transfers v \<Longrightarrow> poll_drq drive_ports k v = (True, v\<lparr>dr_busy := 0\<rparr>)"
proof (induction k arbitrary: v)
  case (Suc k)
  have m: "dr_mode v \<noteq> Flushing" using Suc.prems(2) by (auto simp: transfers_def)
  show ?case
  proof (cases "dr_busy v = 0")
    case True
    then have "drive_status v = 0x48" using Suc.prems(2) by (simp add: drive_status_def transfers_def split: drive_mode.splits)
    then show ?thesis using True m by (simp add: drive_inb_def)
  next
    case False
    have "poll_drq drive_ports k (v\<lparr>dr_busy := dr_busy v - 1\<rparr>) = (True, v\<lparr>dr_busy := dr_busy v - 1\<rparr>\<lparr>dr_busy := 0\<rparr>)"
      using Suc.prems False by (intro Suc.IH) (auto simp: transfers_def)
    then show ?thesis using False m by (simp add: drive_inb_def drive_status_def)
  qed
qed simp

lemma wait_drq_drive: "dr_busy v < 1000000 \<Longrightarrow> transfers v \<Longrightarrow> wait_drq drive_ports v = (True, v\<lparr>dr_busy := 0\<rparr>)"
  unfolding wait_drq_def by (rule poll_drq_drive)

lemma io_wait_drive: "dr_mode v \<noteq> Flushing \<Longrightarrow> io_wait drive_ports v = v\<lparr>dr_busy := dr_busy v - 4\<rparr>"
  by (simp add: io_wait_def drive_inb_def numeral_eq_Suc ata_ports)

lemma byte_of: "(ucast (ucast (x AND 0xFF) :: u8) :: u32) = take_bit 8 x"
proof -
  have m: "(0xFF :: u32) = mask 8" by (simp add: mask_eq_exp_minus_1)
  show ?thesis unfolding m take_bit_eq_mask [symmetric] by (rule bit_word_eqI) (simp add: bit_simps)
qed

lemma nibble_of: "(ucast ((0xE0 OR ucast (x AND 0x0F) :: u8) AND 0x0F) :: u32) = take_bit 4 x"
proof -
  have m: "(0x0F :: u32) = mask 4" "(0x0F :: u8) = mask 4" by (simp_all add: mask_eq_exp_minus_1)
  have z: "take_bit 4 (0xE0 :: u8) = 0" by (simp add: take_bit_eq_mod)
  show ?thesis unfolding m take_bit_eq_mask [symmetric] take_bit_or z
    by (rule bit_word_eqI) (auto simp: bit_simps)
qed

lemma take_bit_join: "take_bit m (x :: u32) OR push_bit m (take_bit k (drop_bit m x)) = take_bit (m + k) x"
  by (rule bit_word_eqI) (auto simp: bit_simps)

lemma lba_split:
  assumes "unat lba < 2 ^ 28"
  shows "(ucast (ucast (lba AND 0xFF) :: u8) OR push_bit 8 (ucast (ucast (drop_bit 8 lba AND 0xFF) :: u8)) OR
     push_bit 16 (ucast (ucast (drop_bit 16 lba AND 0xFF) :: u8)) OR
     push_bit 24 (ucast ((0xE0 OR ucast (drop_bit 24 lba AND 0x0F) :: u8) AND 0x0F))) = (lba :: u32)"
proof -
  have "unat (take_bit 28 lba) = unat lba" using assms by (simp only: unsigned_take_bit_eq) (simp add: take_bit_eq_mod)
  then have t: "take_bit 28 lba = lba" by (rule unat_eqI)
  have "take_bit 8 lba OR push_bit 8 (take_bit 8 (drop_bit 8 lba)) OR push_bit 16 (take_bit 8 (drop_bit 16 lba)) OR
      push_bit 24 (take_bit 4 (drop_bit 24 lba)) = take_bit 28 lba"
    using take_bit_join [of 8 lba 8] take_bit_join [of 16 lba 8] take_bit_join [of 24 lba 4] by (simp flip: or.assoc)
  then show ?thesis unfolding byte_of nibble_of t .
qed

lemma word_bytes_Cons: "word_bytes (w # ws) = le_bytes 2 w @ word_bytes ws"
  by (simp add: word_bytes_def)

lemma word_bytes_words: "even (length bs) \<Longrightarrow> word_bytes (bytes_words bs) = bs"
proof (induction bs rule: bytes_words.induct)
  case (1 a b bs)
  have nb: "\<not> bit a (8 + n)" for n using bit_imp_le_length [of a "8 + n"] by auto
  have "le_bytes 2 (le_word [a, b] :: u16) = [a, b]"
    by (simp add: numeral_2_eq_2) (auto intro!: bit_word_eqI simp: bit_simps nb)
  then show ?case using 1 by (simp add: word_bytes_Cons)
qed (simp_all add: word_bytes_def)

lemma length_bytes_words: "length (bytes_words bs) = length bs div 2"
  by (induction bs rule: bytes_words.induct) simp_all

text \<open>The state of the disk, apart from the registers and the transfer in progress.\<close>

definition same_disk :: "drive \<Rightarrow> drive \<Rightarrow> bool" where
  "same_disk w v \<longleftrightarrow> dr_sectors w = dr_sectors v \<and> dr_cache w = dr_cache v \<and> dr_size w = dr_size v \<and>
     dr_delay w = dr_delay v \<and> dr_tail w = dr_tail v"

lemma same_disk_view: "same_disk w v \<Longrightarrow> drive_view w = drive_view v"
  by (simp add: same_disk_def drive_view_def fun_eq_iff split: option.split)

text \<open>The registers of an idle drive get the address, and the command starts with them.\<close>

lemma command_drive:
  assumes "dr_mode v = Idle" and "dr_busy v = 0" and "unat lba < 2 ^ 28" and "n \<noteq> 0"
  shows "\<exists>w. same_disk w v \<and> dr_mode w = Idle \<and> dr_busy w = 0 \<and>
    ata_command drive_ports cmd lba n v = drive_command cmd w \<and> drive_lba w = lba \<and> drive_n w = unat n"
proof -
  let ?v = "v\<lparr>dr_dev := 0xE0 OR ucast (drop_bit 24 lba AND 0x0F), dr_count := n, dr_lo := ucast (lba AND 0xFF),
     dr_mid := ucast (drop_bit 8 lba AND 0xFF), dr_hi := ucast (drop_bit 16 lba AND 0xFF)\<rparr>"
  have "ata_command drive_ports cmd lba n v = drive_command cmd ?v"
    using assms(1,2) by (simp add: ata_command_def Let_def drive_outb_def ata_ports)
  moreover have "drive_lba ?v = lba" using lba_split [OF assms(3)] by (simp add: drive_lba_def)
  ultimately show ?thesis using assms(1,2,4) by (intro exI [of _ ?v]) (simp add: drive_n_def same_disk_def)
qed

text \<open>One sector from the drive.\<close>

definition after_block :: "drive \<Rightarrow> u32 \<Rightarrow> nat \<Rightarrow> drive" where
  "after_block v l n =
     (if n \<le> 1 then v\<lparr>dr_mode := Idle\<rparr>
      else v\<lparr>dr_mode := Sending (l + 1) (n - 1) (drive_view v (l + 1)), dr_busy := dr_delay v\<rparr>)"

lemma in_words_drive:
  assumes "dr_mode v = Sending l n bs" and "dr_busy v = 0" and "length bs = 2 * k" and "0 < k"
  shows "in_words drive_ports k v = (bytes_words bs, after_block v l n)"
  using assms
proof (induction k arbitrary: v bs)
  case (Suc k)
  then obtain a b cs where bs: "bs = a # b # cs" by (cases bs; cases "tl bs") auto
  show ?case
  proof (cases "k = 0")
    case True
    then have "cs = []" using Suc.prems(3) bs by simp
    then show ?thesis using True Suc.prems(1,2) bs by (simp add: drive_inw_def after_block_def)
  next
    case False
    let ?v = "v\<lparr>dr_mode := Sending l n cs\<rparr>"
    have "cs \<noteq> []" using False Suc.prems(3) bs by auto
    moreover have "in_words drive_ports k ?v = (bytes_words cs, after_block ?v l n)"
      using Suc.prems(2,3) bs False by (intro Suc.IH) simp_all
    ultimately show ?thesis using Suc.prems(1,2) bs by (simp add: drive_inw_def after_block_def)
  qed
qed simp

lemma read_blocks_drive:
  assumes "0 < n" and "dr_mode v = Sending l n (drive_view v l)" and "dr_busy v < 1000000" and "dr_delay v < 1000000"
    and "\<forall>l. length (drive_view v l) = 512"
  shows "read_blocks drive_ports n out v =
    (Some (out @ concat (map (drive_view v) (lbas l n))), v\<lparr>dr_mode := Idle, dr_busy := 0\<rparr>)"
  using assms
proof (induction n arbitrary: l out v)
  case (Suc n)
  let ?v = "v\<lparr>dr_busy := 0\<rparr>"
  have d: "wait_drq drive_ports v = (True, ?v)" using Suc.prems(2,3) by (intro wait_drq_drive) (simp_all add: transfers_def)
  have w: "in_words drive_ports 256 ?v = (bytes_words (drive_view v l), after_block ?v l (Suc n))"
    using Suc.prems by (intro in_words_drive) simp_all
  have b: "word_bytes (bytes_words (drive_view v l)) = drive_view v l"
    using Suc.prems(5) by (intro word_bytes_words) simp
  show ?case
  proof (cases "n = 0")
    case True
    then show ?thesis using d w b by (simp add: after_block_def lbas_def)
  next
    case False
    let ?w = "after_block ?v l (Suc n)"
    have "read_blocks drive_ports n (out @ drive_view v l) ?w =
        (Some ((out @ drive_view v l) @ concat (map (drive_view ?w) (lbas (l + 1) n))), ?w\<lparr>dr_mode := Idle, dr_busy := 0\<rparr>)"
      using False Suc.prems(4,5) by (intro Suc.IH) (simp_all add: after_block_def)
    then show ?thesis using d w b False by (simp add: lbas_Cons after_block_def)
  qed
qed simp

text \<open>One sector to the drive.\<close>

lemma drive_view_cached: "drive_view (v\<lparr>dr_cache := (dr_cache v)(l \<mapsto> s)\<rparr>) = (drive_view v)(l := s)"
  by (simp add: drive_view_def fun_eq_iff split: option.split)

lemma out_words_drive:
  assumes "dr_mode v = Receiving l n acc" and "dr_busy v = 0" and "length acc + length bs = 512" and "even (length bs)" and "bs \<noteq> []"
  shows "out_words drive_ports (bytes_words bs) v =
    (if n \<le> 1 then v\<lparr>dr_cache := (dr_cache v)(l \<mapsto> acc @ bs), dr_mode := Idle, dr_busy := dr_tail v\<rparr>
     else v\<lparr>dr_cache := (dr_cache v)(l \<mapsto> acc @ bs), dr_mode := Receiving (l + 1) (n - 1) [], dr_busy := dr_delay v\<rparr>)"
  using assms
proof (induction bs arbitrary: v acc rule: bytes_words.induct)
  case (1 a b bs)
  have le: "le_bytes 2 (le_word [a, b] :: u16) = [a, b]"
    using word_bytes_words [of "[a, b]"] by (simp add: word_bytes_def)
  show ?case
  proof (cases "bs = []")
    case True
    then show ?thesis using 1(2-4) le by (simp add: drive_outw_def Let_def fun_upd_def del: le_word.simps)
  next
    case False
    let ?v = "v\<lparr>dr_mode := Receiving l n (acc @ [a, b])\<rparr>"
    have "length acc + 2 < 512" using 1(4,5) False by (cases bs) auto
    moreover have "out_words drive_ports (bytes_words bs) ?v =
       (if n \<le> 1 then ?v\<lparr>dr_cache := (dr_cache ?v)(l \<mapsto> (acc @ [a, b]) @ bs), dr_mode := Idle, dr_busy := dr_tail ?v\<rparr>
        else ?v\<lparr>dr_cache := (dr_cache ?v)(l \<mapsto> (acc @ [a, b]) @ bs), dr_mode := Receiving (l + 1) (n - 1) [], dr_busy := dr_delay ?v\<rparr>)"
      using 1(3-5) False by (intro 1(1)) simp_all
    ultimately show ?thesis using 1(2,3) le by (simp add: drive_outw_def Let_def fun_upd_def del: le_word.simps)
  qed
qed simp_all

text \<open>All blocks of a write: they are in the write cache, and the medium is as before.\<close>

lemma write_blocks_drive:
  assumes "0 < n" and "dr_mode v = Receiving l n []" and "dr_busy v < 1000000" and "dr_delay v < 1000000" and "length buf = 512 * n"
  shows "\<exists>C. write_blocks drive_ports n buf v = (True, v\<lparr>dr_cache := C, dr_mode := Idle, dr_busy := dr_tail v - 4\<rparr>) \<and>
    drive_view (v\<lparr>dr_cache := C\<rparr>) = put_sectors l n buf (drive_view v)"
  using assms
proof (induction n arbitrary: l buf v)
  case (Suc n)
  let ?v = "v\<lparr>dr_busy := 0\<rparr>" and ?c = "(dr_cache v)(l \<mapsto> take 512 buf)"
  let ?w = "if n = 0 then v\<lparr>dr_cache := ?c, dr_mode := Idle, dr_busy := dr_tail v\<rparr>
    else v\<lparr>dr_cache := ?c, dr_mode := Receiving (l + 1) n [], dr_busy := dr_delay v\<rparr>"
  have d: "wait_drq drive_ports v = (True, ?v)" using Suc.prems(2,3) by (intro wait_drq_drive) (simp_all add: transfers_def)
  have w: "out_words drive_ports (bytes_words (take 512 buf)) ?v = ?w"
  proof -
    have l: "length ([] :: u8 list) + length (take 512 buf) = 512" "even (length (take 512 buf))" "take 512 buf \<noteq> []"
      using Suc.prems(5) by auto
    have "dr_mode ?v = Receiving l (Suc n) []" "dr_busy ?v = 0" using Suc.prems(2) by simp_all
    from out_words_drive [OF this l] show ?thesis by (simp del: take_eq_Nil length_take)
  qed
  have view: "drive_view (v\<lparr>dr_cache := ?c\<rparr>) = (drive_view v)(l := take 512 buf)" by (rule drive_view_cached)
  show ?case
  proof (cases "n = 0")
    case True
    then have "write_blocks drive_ports (Suc n) buf v = (True, v\<lparr>dr_cache := ?c, dr_mode := Idle, dr_busy := dr_tail v - 4\<rparr>)"
      using d w by (simp add: io_wait_drive)
    moreover have "put_sectors l (Suc n) buf (drive_view v) = (drive_view v)(l := take 512 buf)" using True by (simp only: put_sectors.simps)
    ultimately show ?thesis using view by metis
  next
    case False
    let ?u = "v\<lparr>dr_cache := ?c, dr_mode := Receiving (l + 1) n [], dr_busy := dr_delay v - 4\<rparr>"
    have "\<exists>C. write_blocks drive_ports n (drop 512 buf) ?u = (True, ?u\<lparr>dr_cache := C, dr_mode := Idle, dr_busy := dr_tail ?u - 4\<rparr>) \<and>
        drive_view (?u\<lparr>dr_cache := C\<rparr>) = put_sectors (l + 1) n (drop 512 buf) (drive_view ?u)"
      using False Suc.prems(4,5) by (intro Suc.IH) simp_all
    then obtain C where C: "write_blocks drive_ports n (drop 512 buf) ?u = (True, ?u\<lparr>dr_cache := C, dr_mode := Idle, dr_busy := dr_tail ?u - 4\<rparr>)"
      "drive_view (?u\<lparr>dr_cache := C\<rparr>) = put_sectors (l + 1) n (drop 512 buf) (drive_view ?u)" by blast
    have u: "drive_view ?u = (drive_view v)(l := take 512 buf)" unfolding view [symmetric] by simp
    have c: "drive_view (?u\<lparr>dr_cache := C\<rparr>) = drive_view (v\<lparr>dr_cache := C\<rparr>)"
      by (simp add: drive_view_def fun_eq_iff split: option.split)
    have "write_blocks drive_ports (Suc n) buf v = (True, v\<lparr>dr_cache := C, dr_mode := Idle, dr_busy := dr_tail v - 4\<rparr>)"
      using d w False C(1) by (simp add: io_wait_drive)
    then show ?thesis using C(2) unfolding u c by (intro exI [of _ C]) simp
  qed
qed simp

lemma put_sectors_len:
  "(\<forall>l. length (S l) = 512) \<Longrightarrow> length b = 512 * n \<Longrightarrow> length (put_sectors l n b S k) = 512"
  by (induction n arbitrary: l b S) simp_all

text \<open>The driver's two operations on an idle drive, the state of whose cache is open.\<close>

lemma drive_read_fit:
  assumes "disk_sectors a \<noteq> 0" and "drive_fit v" and "0 < n" and "unat l + unat n \<le> 2 ^ 28"
  shows "\<exists>v'. ata_read_sectors drive_ports a l n v = (Some (concat (map (drive_view v) (lbas l (unat n)))), v') \<and>
    same_disk v' v \<and> drive_fit v'"
proof -
  have n: "n \<noteq> 0" "0 < unat n" using assms(3) by (auto simp: word_less_nat_alt)
  have l: "unat l < 2 ^ 28" using assms(4) n(2) by simp
  note v = assms(2) [unfolded drive_fit_def]
  let ?v = "v\<lparr>dr_busy := 0\<rparr>"
  have b: "wait_not_busy drive_ports v = (True, ?v)" using v wait_not_busy_drive [of v] by simp
  obtain w where w: "same_disk w ?v" "dr_mode w = Idle" "dr_busy w = 0"
    "ata_command drive_ports 0x20 l n ?v = drive_command 0x20 w" "drive_lba w = l" "drive_n w = unat n"
    using command_drive [of ?v l n "0x20"] v l n(1) by auto
  have vw: "drive_view w = drive_view v" using same_disk_view [OF w(1)] by simp
  let ?w = "w\<lparr>dr_err := False, dr_mode := Sending l (unat n) (drive_view w l), dr_busy := dr_delay w\<rparr>"
  have c: "drive_command 0x20 w = ?w" using w v assms(4) by (simp add: drive_command_def same_disk_def)
  have "read_blocks drive_ports (unat n) [] ?w =
      (Some ([] @ concat (map (drive_view ?w) (lbas l (unat n)))), ?w\<lparr>dr_mode := Idle, dr_busy := 0\<rparr>)"
    using n(2) v vw w(1) by (intro read_blocks_drive) (simp_all add: same_disk_def)
  then have r: "ata_read_sectors drive_ports a l n v =
      (Some (concat (map (drive_view v) (lbas l (unat n)))), ?w\<lparr>dr_mode := Idle, dr_busy := 0\<rparr>)"
    using b w(4) c vw assms(1) by (simp add: ata_read_sectors_def)
  have "same_disk (?w\<lparr>dr_mode := Idle, dr_busy := 0\<rparr>) v" using w(1) by (simp add: same_disk_def)
  moreover have "drive_fit (?w\<lparr>dr_mode := Idle, dr_busy := 0\<rparr>)"
    using v w(1) vw by (simp add: drive_fit_def same_disk_def)
  ultimately show ?thesis using r by blast
qed

lemma drive_write_fit:
  assumes "disk_sectors a \<noteq> 0" and "drive_fit v" and "0 < n" and "unat l + unat n \<le> 2 ^ 28" and "length b = 512 * unat n"
  shows "\<exists>v'. ata_write_sectors drive_ports a l n b v = (True, v') \<and> drive_fit v' \<and> dr_tail v' = dr_tail v \<and>
    drive_view v' = put_sectors l (unat n) b (drive_view v) \<and>
    (if dr_tail v \<le> 4 then dr_sectors v' = drive_view v' \<and> dr_cache v' = (\<lambda>_. None) else dr_sectors v' = dr_sectors v)"
proof -
  have n: "n \<noteq> 0" "0 < unat n" using assms(3) by (auto simp: word_less_nat_alt)
  have l: "unat l < 2 ^ 28" using assms(4) n(2) by simp
  note v = assms(2) [unfolded drive_fit_def]
  let ?v = "v\<lparr>dr_busy := 0\<rparr>"
  have b: "wait_not_busy drive_ports v = (True, ?v)" using v wait_not_busy_drive [of v] by simp
  obtain w where w: "same_disk w ?v" "dr_mode w = Idle" "dr_busy w = 0"
    "ata_command drive_ports 0x30 l n ?v = drive_command 0x30 w" "drive_lba w = l" "drive_n w = unat n"
    using command_drive [of ?v l n "0x30"] v l n(1) by auto
  have vw: "drive_view w = drive_view v" using same_disk_view [OF w(1)] by simp
  let ?w = "w\<lparr>dr_err := False, dr_mode := Receiving l (unat n) [], dr_busy := dr_delay w\<rparr>"
  have c: "drive_command 0x30 w = ?w" using w v assms(4) by (simp add: drive_command_def same_disk_def)
  obtain C where C: "write_blocks drive_ports (unat n) b ?w = (True, ?w\<lparr>dr_cache := C, dr_mode := Idle, dr_busy := dr_tail ?w - 4\<rparr>)"
    "drive_view (?w\<lparr>dr_cache := C\<rparr>) = put_sectors l (unat n) b (drive_view ?w)"
    using write_blocks_drive [of "unat n" ?w l b] n(2) v w(1) assms(5) by (auto simp: same_disk_def)
  define u where "u = ?w\<lparr>dr_cache := C, dr_mode := Idle, dr_busy := dr_tail ?w - 4\<rparr>"
  have view: "drive_view u = put_sectors l (unat n) b (drive_view v)"
  proof -
    have "drive_view u = drive_view (?w\<lparr>dr_cache := C\<rparr>)"
      by (simp add: u_def drive_view_def fun_eq_iff split: option.split)
    then show ?thesis using C(2) vw by simp
  qed
  have len: "\<forall>k. length (drive_view u k) = 512" using v unfolding view by (intro allI put_sectors_len assms(5)) simp
  have u: "dr_mode u = Idle" "dr_busy u = dr_tail v - 4" "dr_tail u = dr_tail v" "dr_delay u = dr_delay v"
    "dr_size u = dr_size v" "dr_sectors u = dr_sectors v" using w(1) by (simp_all add: u_def same_disk_def)
  have wr: "ata_write_sectors drive_ports a l n b v = wait_not_busy drive_ports (drive_outb ATA_COMMAND 0xE7 u)"
    using b w(4) c C(1) assms(1) by (simp add: ata_write_sectors_def u_def)
  show ?thesis
  proof (cases "dr_tail v \<le> 4")
    case True
    let ?f = "u\<lparr>dr_err := False, dr_mode := Flushing\<rparr>"
    let ?r = "?f\<lparr>dr_sectors := drive_view u, dr_cache := (\<lambda>_. None), dr_mode := Idle, dr_busy := 0\<rparr>"
    have fl: "drive_outb ATA_COMMAND 0xE7 u = set_busy (dr_delay u) ?f"
      using u True by (simp add: drive_outb_def drive_command_def ata_ports)
    have fin: "set_busy 0 ?f = ?r" by (simp add: set_busy_def)
    have "wait_not_busy drive_ports (set_busy (dr_delay u) ?f) = (True, ?r)"
    proof (cases "dr_delay u = 0")
      case True
      then show ?thesis using fin wait_not_busy_drive [of ?r] by simp
    next
      case False
      then have s: "set_busy (dr_delay u) ?f = ?f\<lparr>dr_busy := dr_delay u\<rparr>" by (simp add: set_busy_def)
      have "set_busy 0 (?f\<lparr>dr_busy := dr_delay u\<rparr>) = ?r" unfolding s [symmetric] using fin False by (simp add: set_busy_twice)
      then show ?thesis using wait_not_busy_drive [of "?f\<lparr>dr_busy := dr_delay u\<rparr>"] s u(4) v False by simp
    qed
    then have "ata_write_sectors drive_ports a l n b v = (True, ?r)" using wr fl by simp
    moreover have vr: "drive_view ?r = drive_view u" by (rule ext) (simp add: drive_view_def)
    moreover have "drive_fit ?r" using len vr u v by (simp add: drive_fit_def)
    ultimately show ?thesis using True view u(3) by (intro exI [of _ ?r]) simp
  next
    case False
    then have "drive_outb ATA_COMMAND 0xE7 u = u" using u by (simp add: drive_outb_def)
    moreover have "dr_busy u < 1000000" using u(2) v by linarith
    then have "wait_not_busy drive_ports u = (True, u\<lparr>dr_busy := 0\<rparr>)" using wait_not_busy_drive [of u] u(1) by simp
    ultimately have "ata_write_sectors drive_ports a l n b v = (True, u\<lparr>dr_busy := 0\<rparr>)"
      using wr by simp
    moreover have "drive_fit (u\<lparr>dr_busy := 0\<rparr>)" using len u v by (simp add: drive_fit_def)
    ultimately show ?thesis using False view u by (intro exI [of _ "u\<lparr>dr_busy := 0\<rparr>"]) simp
  qed
qed

lemma drive_ok_view: "drive_ok v \<Longrightarrow> drive_view v = dr_sectors v"
  by (simp add: drive_ok_def drive_view_def fun_eq_iff)

lemma drive_ok_same: "same_disk w v \<Longrightarrow> drive_fit w \<Longrightarrow> drive_ok v \<Longrightarrow> drive_ok w \<and> dr_sectors w = dr_sectors v"
  by (simp add: same_disk_def drive_ok_def)

text \<open>The driver on such a drive is a working disk of \<open>2 ^ 28\<close> sectors, and what counts is the medium.\<close>

lemma ata_disk:
  assumes a: "disk_sectors a \<noteq> 0"
  shows "disk (ata_ops drive_ports a) dr_sectors drive_ok (2 ^ 28)"
proof
  show "(2 :: nat) ^ 28 < 2 ^ 32" by simp
  fix v l n b
  assume v: "drive_ok v"
  then have f: "drive_fit v" "\<forall>l. length (dr_sectors v l) = 512" "dr_tail v \<le> 4"
    using drive_ok_view [OF v] by (simp_all add: drive_ok_def drive_fit_def)
  then show "length (dr_sectors v l) = 512" by simp
  assume n: "(0 :: u8) < n" and l: "unat (l :: u32) + unat n \<le> 2 ^ 28"
  show "\<exists>v'. dk_read (ata_ops drive_ports a) l n v = (Some (concat (map (dr_sectors v) (lbas l (unat n)))), v') \<and>
      drive_ok v' \<and> dr_sectors v' = dr_sectors v"
    using drive_read_fit [OF a f(1) n l] drive_ok_same [OF _ _ v] unfolding drive_ok_view [OF v] ata_ops_def by auto
  assume b: "length (b :: u8 list) = 512 * unat n"
  show "\<exists>v'. dk_write (ata_ops drive_ports a) l n b v = (True, v') \<and> drive_ok v' \<and>
      dr_sectors v' = put_sectors l (unat n) b (dr_sectors v)"
    using drive_write_fit [OF a f(1) n l b] f(3) unfolding drive_ok_view [OF v] ata_ops_def by (auto simp: drive_ok_def)
qed

definition demo_ata :: ata where
  "demo_ata = \<lparr>disk_sectors = 0x10000000, disk_model = [81]\<rparr>"

interpretation ata: disk "ata_ops drive_ports demo_ata" dr_sectors drive_ok "2 ^ 28"
  by (rule ata_disk) (simp add: demo_ata_def)

text \<open>A range that leaves the drive is refused with ERR, and the driver reports the failure.\<close>

lemma ata_refuses:
  assumes "drive_fit v" and "0 < n" and "unat l < 2 ^ 28" and "2 ^ 28 < unat l + unat n"
  shows "fst (ata_read_sectors drive_ports a l n v) = None \<and> fst (ata_write_sectors drive_ports a l n b v) = False"
proof -
  have n: "n \<noteq> 0" using assms(2) by auto
  then obtain k where k: "unat n = Suc k" by (metis not0_implies_Suc unat_eq_0)
  note v = assms(1) [unfolded drive_fit_def]
  let ?v = "v\<lparr>dr_busy := 0\<rparr>"
  have b: "wait_not_busy drive_ports v = (True, ?v)" using v wait_not_busy_drive [of v] by simp
  have "\<exists>w. dr_busy w = 0 \<and> dr_mode w = Idle \<and> dr_err w \<and> ata_command drive_ports x l n ?v = w" if x: "x = 0x20 \<or> x = 0x30" for x
  proof -
    obtain w where w: "same_disk w ?v" "dr_mode w = Idle" "dr_busy w = 0"
      "ata_command drive_ports x l n ?v = drive_command x w" "drive_lba w = l" "drive_n w = unat n"
      using command_drive [of ?v l n x] v assms(3) n by auto
    then have "drive_command x w = w\<lparr>dr_err := True\<rparr>" using x v assms(4) by (simp add: drive_command_def same_disk_def)
    then show ?thesis using w by simp
  qed
  moreover have "fst (wait_drq drive_ports w) = False" if "dr_busy w = 0" "dr_mode w = Idle" "dr_err w" for w
  proof -
    have "fst (poll_drq drive_ports (Suc j) w) = False" for j using that by (simp add: drive_inb_def drive_status_def)
    from this [of 999999] show ?thesis by (simp add: wait_drq_def)
  qed
  ultimately have "fst (wait_drq drive_ports (ata_command drive_ports x l n ?v)) = False" if "x = 0x20 \<or> x = 0x30" for x
    using that by metis
  then obtain r1 r2 where "wait_drq drive_ports (ata_command drive_ports 0x20 l n ?v) = (False, r1)"
    "wait_drq drive_ports (ata_command drive_ports 0x30 l n ?v) = (False, r2)" by (metis prod.collapse)
  then show ?thesis using b k by (simp add: ata_read_sectors_def ata_write_sectors_def)
qed

text \<open>\<open>ata_init\<close> finds an idle drive and learns its size and model from the words it identifies itself with.\<close>

lemma bytes_words_word_bytes: "bytes_words (word_bytes ws) = ws"
proof (induction ws)
  case (Cons w ws)
  have l: "length (le_bytes 2 w) = 2" by simp
  then obtain x y where xy: "le_bytes 2 w = [x, y]" by (auto simp: numeral_2_eq_2 length_Suc_conv)
  moreover have "le_word [x, y] = w" using xy le_word_bytes_all [where n = 2 and w = w] by simp
  ultimately show ?case using Cons by (simp add: word_bytes_Cons del: le_word.simps)
qed (simp add: word_bytes_def)

lemma length_word_bytes: "length (word_bytes ws) = 2 * length ws"
  by (induction ws) (simp_all add: word_bytes_def)

lemma ata_init_drive:
  assumes "dr_mode v = Idle" and "dr_busy v = 0" and "dr_delay v < 1000000" and "length (dr_ident v) = 256"
  shows "\<exists>v'. ata_init drive_ports a v =
      (0, a\<lparr>disk_model := strip_spaces (concat (map (\<lambda>i. [ucast (drop_bit 8 (dr_ident v ! (27 + i))), ucast (dr_ident v ! (27 + i))]) [0..<20])),
           disk_sectors := ucast (dr_ident v ! 60) OR push_bit 16 (ucast (dr_ident v ! 61))\<rparr>, v') \<and>
    same_disk v' v \<and> dr_mode v' = Idle \<and> dr_busy v' = 0"
proof -
  let ?v = "v\<lparr>dr_dev := 0xA0, dr_count := 0, dr_lo := 0, dr_mid := 0, dr_hi := 0, dr_err := False\<rparr>"
  let ?c = "?v\<lparr>dr_mode := Sending 0 1 (word_bytes (dr_ident v)), dr_busy := dr_delay v\<rparr>"
  have c: "drive_outb ATA_COMMAND 0xEC (v\<lparr>dr_dev := 0xA0, dr_count := 0, dr_lo := 0, dr_mid := 0, dr_hi := 0\<rparr>) = ?c"
    using assms(1,2) by (simp add: drive_outb_def drive_command_def ata_ports)
  have reg: "drive_outb ATA_COMMAND 0xEC (drive_outb ATA_LBA_HI 0 (drive_outb ATA_LBA_MID 0 (drive_outb ATA_LBA_LO 0
      (drive_outb ATA_SECCOUNT 0 (drive_outb ATA_CTRL 0x02 (io_wait drive_ports (drive_outb ATA_DRIVE 0xA0 v))))))) = ?c"
  proof -
    have "io_wait drive_ports (drive_outb ATA_DRIVE 0xA0 v) = v\<lparr>dr_dev := 0xA0\<rparr>"
      using assms(1,2) by (cases v) (simp add: io_wait_drive drive_outb_def ata_ports)
    then show ?thesis unfolding c [symmetric] using assms(1,2) by (simp add: drive_outb_def ata_ports)
  qed
  let ?b = "?c\<lparr>dr_busy := dr_delay v - 4 - 1\<rparr>" and ?r = "?c\<lparr>dr_busy := 0\<rparr>"
  have w: "io_wait drive_ports ?c = ?c\<lparr>dr_busy := dr_delay v - 4\<rparr>" by (simp add: io_wait_drive)
  have s: "\<exists>st. drive_inb ATA_STATUS (?c\<lparr>dr_busy := dr_delay v - 4\<rparr>) = (st, ?b) \<and> st \<noteq> 0"
    by (simp add: drive_inb_def drive_status_def)
  have nb: "wait_not_busy drive_ports ?b = (True, ?r)" using wait_not_busy_drive [of ?b] assms(3) by simp
  have hl: "drive_inb ATA_LBA_MID ?r = (0, ?r)" "drive_inb ATA_LBA_HI ?r = (0, ?r)"
    by (simp_all add: drive_inb_def ata_ports)
  have dq: "wait_drq drive_ports ?r = (True, ?r)" using wait_drq_drive [of ?r] by (simp add: transfers_def)
  have iw: "in_words drive_ports 256 ?r = (dr_ident v, ?r\<lparr>dr_mode := Idle\<rparr>)"
    using in_words_drive [of ?r 0 1 "word_bytes (dr_ident v)" 256] assms(4)
    by (simp add: bytes_words_word_bytes after_block_def length_word_bytes)
  obtain st where st: "drive_inb ATA_STATUS (?c\<lparr>dr_busy := dr_delay v - 4\<rparr>) = (st, ?b)" "st \<noteq> 0" using s by blast
  have sd: "same_disk (?r\<lparr>dr_mode := Idle\<rparr>) v" by (simp add: same_disk_def)
  show ?thesis
    unfolding ata_init_def drive_ports_simps reg w Let_def st(1) nb hl dq iw case_prod_conv
    using st(2) sd by (intro exI [of _ "?r\<lparr>dr_mode := Idle\<rparr>"]) simp
qed

section \<open>Properties\<close>


text \<open>
  The driver sends FLUSH without waiting for BSY to clear.  A drive that needs more than the four
  status reads for its last block ignores the command: the write is reported as done and can be
  read back, but the medium still has the old sectors.
\<close>

theorem ata_flush_lost:
  assumes "disk_sectors a \<noteq> 0" and "drive_fit v" and "4 < dr_tail v" and "0 < n" and "unat l + unat n \<le> 2 ^ 28"
    and "length b = 512 * unat n"
  shows "\<exists>v'. ata_write_sectors drive_ports a l n b v = (True, v') \<and> dr_sectors v' = dr_sectors v \<and>
    drive_view v' = put_sectors l (unat n) b (drive_view v)"
  using drive_write_fit [OF assms(1,2,4-6)] assms(3) by auto

definition demo_drive :: drive where
  "demo_drive = \<lparr>dr_sectors = (\<lambda>_. replicate 512 0), dr_cache = (\<lambda>_. None), dr_ident = [], dr_size = 2 ^ 28, dr_delay = 40,
     dr_tail = 3, dr_busy = 7, dr_err = False, dr_count = 0, dr_lo = 0, dr_mid = 0, dr_hi = 0, dr_dev = 0, dr_mode = Idle\<rparr>"

lemma demo_drive_ok: "drive_ok demo_drive"
  by (simp add: drive_ok_def drive_fit_def demo_drive_def drive_view_def)


theorem ata_flush_lost_witness:
  "\<exists>v'. ata_write_sectors drive_ports demo_ata 5 1 (replicate 512 7) (demo_drive\<lparr>dr_tail := 5\<rparr>) = (True, v') \<and>
    dr_sectors v' = dr_sectors demo_drive"
  using ata_flush_lost [of demo_ata "demo_drive\<lparr>dr_tail := 5\<rparr>" 1 5 "replicate 512 7"]
  by (auto simp: demo_ata_def drive_fit_def demo_drive_def drive_view_def)

end
