(* ===== verification/Fat16.thy ===== *)
theory Fat16
  imports Kheap Block_Disk
begin

text \<open>
  The FAT16 driver, \<open>kernel/fs/fat16.c\<close>.  Sectors are read and written through the two
  operations of \<open>ata.h\<close>, which are the argument \<open>D\<close> of every function here; \<open>'d\<close> is the
  state of the disk.  The static variables set by \<open>fat16_init\<close> are the record \<open>fat16\<close>.
  Directory entries are their 32 bytes, with the fields of the packed struct as selectors.
  The kernel heap is threaded through the functions that allocate; \<open>None\<close> is a loop that
  does not end.  \<open>bytes_per_sector\<close> is a divisor in the code: a boot sector with 0 there
  traps, and the statements below exclude it.
\<close>

section \<open>Disk and volume\<close>

record fat16 =
  part_lba :: u32
  bytes_per_sector :: u16
  sectors_per_cluster :: u8
  reserved_sectors :: u16
  num_fats :: u8
  root_entries :: u16
  fat_size :: u16
  fat_start_lba :: u32
  root_start_lba :: u32
  data_start_lba :: u32

definition read_sector :: "'d disk_ops \<Rightarrow> fat16 \<Rightarrow> u32 \<Rightarrow> 'd \<Rightarrow> u8 list option \<times> 'd" where
  "read_sector D v lba = dk_read D (part_lba v + lba) 1"

definition write_sector :: "'d disk_ops \<Rightarrow> fat16 \<Rightarrow> u32 \<Rightarrow> u8 list \<Rightarrow> 'd \<Rightarrow> bool \<times> 'd" where
  "write_sector D v lba buf = dk_write D (part_lba v + lba) 1 buf"

text \<open>Little-endian fields of a byte buffer.\<close>

definition get16 :: "u8 list \<Rightarrow> nat \<Rightarrow> u16" where
  "get16 b i = le_word (take 2 (drop i b))"

definition get32 :: "u8 list \<Rightarrow> nat \<Rightarrow> u32" where
  "get32 b i = le_word (take 4 (drop i b))"

definition put16 :: "u8 list \<Rightarrow> nat \<Rightarrow> u16 \<Rightarrow> u8 list" where
  "put16 b i w = b[i := ucast w, i + 1 := ucast (drop_bit 8 w)]"

definition root_sectors :: "fat16 \<Rightarrow> u32" where
  "root_sectors v = of_nat ((unat (root_entries v) * 32 + unat (bytes_per_sector v) - 1) div unat (bytes_per_sector v))"

definition fat16_init :: "'d disk_ops \<Rightarrow> u32 \<Rightarrow> fat16 \<Rightarrow> 'd \<Rightarrow> fat16 \<times> 'd" where
  "fat16_init D partition_lba v d =
     (let v = v\<lparr>part_lba := partition_lba\<rparr> in
      case read_sector D v 0 d of
        (None, d) \<Rightarrow> (v, d)
      | (Some s, d) \<Rightarrow>
          (let v = v\<lparr>bytes_per_sector := get16 s 11, sectors_per_cluster := s ! 13, reserved_sectors := get16 s 14,
                 num_fats := s ! 16, root_entries := get16 s 17, fat_size := get16 s 22\<rparr>;
               v = v\<lparr>fat_start_lba := ucast (reserved_sectors v)\<rparr>;
               v = v\<lparr>root_start_lba := of_nat (unat (reserved_sectors v) + unat (num_fats v) * unat (fat_size v))\<rparr>;
               v = v\<lparr>data_start_lba := root_start_lba v + root_sectors v\<rparr>
           in (v, d)))"

section \<open>Directory entries\<close>

definition ent :: "u8 list \<Rightarrow> nat \<Rightarrow> u8 list" where
  "ent s k = take 32 (drop (32 * k) s)"

definition d_name :: "u8 list \<Rightarrow> u8 list" where "d_name d = take 8 d"
definition d_ext :: "u8 list \<Rightarrow> u8 list" where "d_ext d = take 3 (drop 8 d)"
definition d_attr :: "u8 list \<Rightarrow> u8" where "d_attr d = d ! 11"
definition d_cluster_lo :: "u8 list \<Rightarrow> u16" where "d_cluster_lo d = get16 d 26"
definition d_size :: "u8 list \<Rightarrow> u32" where "d_size d = get32 d 28"

definition dirent_name :: "u8 list \<Rightarrow> u8 list" where
  "dirent_name d = takeWhile (\<lambda>c. c \<noteq> 0x20) (d_name d) @
     (if d_ext d ! 0 \<noteq> 0x20 then [46] @ takeWhile (\<lambda>c. c \<noteq> 0x20) (d_ext d) else [])"

definition dirent_raw :: "u8 list \<Rightarrow> u8 list" where
  "dirent_raw d = d_name d @ d_ext d"

text \<open>\<open>if (c >= 'a' && c <= 'z') c -= 32;\<close> on the signed \<open>char\<close>.\<close>

definition upper :: "u8 \<Rightarrow> u8" where
  "upper c = (if 97 \<le> c \<and> c \<le> 122 then c - 32 else c)"

text \<open>The two loops of \<open>parse_83\<close>; the name is a byte list without its NUL.\<close>

fun copy_base :: "u8 list \<Rightarrow> nat \<Rightarrow> u8 list \<Rightarrow> u8 list \<times> u8 list" where
  "copy_base [] i out = ([], out)"
| "copy_base (c # s) i out =
     (if c \<noteq> 46 \<and> i < 8 then copy_base s (i + 1) (out[i := upper c]) else (c # s, out))"

fun copy_ext :: "u8 list \<Rightarrow> nat \<Rightarrow> u8 list \<Rightarrow> u8 list" where
  "copy_ext [] j out = out"
| "copy_ext (c # s) j out = (if j < 11 then copy_ext s (j + 1) (out[j := upper c]) else out)"

definition parse_83 :: "u8 list \<Rightarrow> u8 list" where
  "parse_83 name =
     (case copy_base name 0 (replicate 11 0x20) of
        (rest, out) \<Rightarrow> (case rest of c # s \<Rightarrow> if c = 46 then copy_ext s 8 out else out | [] \<Rightarrow> out))"

section \<open>Listing\<close>

text \<open>
  The loop over the 16 entries of one sector.  The result is the text so far and whether the
  end mark was met; a \<open>break\<close> leaves this sector only.
\<close>

fun list_entries :: "u8 list \<Rightarrow> int \<Rightarrow> nat list \<Rightarrow> u8 list \<Rightarrow> u8 list \<times> bool" where
  "list_entries s mx [] out = (out, False)"
| "list_entries s mx (k # ks) out =
     (let d = ent s k in
      if d ! 0 = 0 then (out, True)
      else if d ! 0 = 0xE5 then list_entries s mx ks out
      else if d_attr d = 0x0F then list_entries s mx ks out
      else
        (let name = takeWhile (\<lambda>c. c \<noteq> 0) (dirent_name d) in
         if int (length out + length name + 2) > mx then (out, False)
         else list_entries s mx ks (out @ name @ (if d_attr d AND 0x10 \<noteq> 0 then [47] else []) @ [10])))"

fun list_sectors :: "'d disk_ops \<Rightarrow> fat16 \<Rightarrow> int \<Rightarrow> nat list \<Rightarrow> u8 list \<Rightarrow> 'd \<Rightarrow> u8 list \<times> 'd" where
  "list_sectors D v mx [] out d = (out, d)"
| "list_sectors D v mx (i # is) out d =
     (case read_sector D v (root_start_lba v + of_nat i) d of
        (None, d) \<Rightarrow> (out, d)
      | (Some s, d) \<Rightarrow>
          (case list_entries s mx [0..<16] out of
             (out, True) \<Rightarrow> (out, d)
           | (out, False) \<Rightarrow> list_sectors D v mx is out d))"

definition fat16_list_root :: "'d disk_ops \<Rightarrow> fat16 \<Rightarrow> int \<Rightarrow> kheap \<times> 'd \<Rightarrow> (int \<times> u8 list \<times> kheap \<times> 'd) option" where
  "fat16_list_root D v mx st = do {
     (sector, h) \<leftarrow> kmalloc 512 (fst st);
     if sector = 0 then Some (-1, [], h, snd st)
     else do {
       let (out, d) = list_sectors D v mx [0..<unat (root_sectors v)] [] (snd st);
       h' \<leftarrow> kfree sector h;
       Some (int (length out), out, h', d)
     }
   }"

section \<open>Lookup\<close>

fun find_entry :: "u8 list \<Rightarrow> u8 list \<Rightarrow> nat list \<Rightarrow> u8 list option \<times> bool" where
  "find_entry s want [] = (None, False)"
| "find_entry s want (k # ks) =
     (let d = ent s k in
      if d ! 0 = 0 then (None, True)
      else if d ! 0 = 0xE5 then find_entry s want ks
      else if d_attr d = 0x0F then find_entry s want ks
      else if dirent_raw d = want then (Some d, True)
      else find_entry s want ks)"

fun find_sectors :: "'d disk_ops \<Rightarrow> fat16 \<Rightarrow> u8 list \<Rightarrow> nat list \<Rightarrow> 'd \<Rightarrow> u8 list option \<times> 'd" where
  "find_sectors D v want [] d = (None, d)"
| "find_sectors D v want (i # is) d =
     (case read_sector D v (root_start_lba v + of_nat i) d of
        (None, d) \<Rightarrow> (None, d)
      | (Some s, d) \<Rightarrow>
          (case find_entry s want [0..<16] of
             (r, True) \<Rightarrow> (r, d)
           | (r, False) \<Rightarrow> find_sectors D v want is d))"

text \<open>The result is the address of the copied entry, 0 for none, with its contents.\<close>

definition find_root_entry :: "'d disk_ops \<Rightarrow> fat16 \<Rightarrow> u8 list \<Rightarrow> kheap \<times> 'd \<Rightarrow> (u64 \<times> u8 list \<times> kheap \<times> 'd) option" where
  "find_root_entry D v name st = do {
     (sector, h) \<leftarrow> kmalloc 512 (fst st);
     if sector = 0 then Some (0, [], h, snd st)
     else
       (case find_sectors D v (parse_83 name) [0..<unat (root_sectors v)] (snd st) of
          (None, d) \<Rightarrow> map_option (\<lambda>h'. (0, [], h', d)) (kfree sector h)
        | (Some e, d) \<Rightarrow> do {
            (ret, h) \<leftarrow> kmalloc 32 h;
            h' \<leftarrow> kfree sector h;
            Some (ret, e, h', d)
          })
   }"

definition fat16_file_size :: "'d disk_ops \<Rightarrow> fat16 \<Rightarrow> u8 list \<Rightarrow> kheap \<times> 'd \<Rightarrow> (u64 \<times> kheap \<times> 'd) option" where
  "fat16_file_size D v name st = do {
     (p, e, h, d) \<leftarrow> find_root_entry D v name st;
     if p = 0 then Some (0, h, d)
     else do {
       h' \<leftarrow> kfree p h;
       Some (ucast (d_size e), h', d)
     }
   }"

section \<open>The allocation table\<close>

definition fat_sector :: "fat16 \<Rightarrow> u16 \<Rightarrow> u32" where
  "fat_sector v c = fat_start_lba v + of_nat (unat c * 2 div 512)"

definition fat_offset :: "u16 \<Rightarrow> nat" where
  "fat_offset c = unat c * 2 mod 512"

definition fat_get :: "'d disk_ops \<Rightarrow> fat16 \<Rightarrow> u16 \<Rightarrow> 'd \<Rightarrow> u16 \<times> 'd" where
  "fat_get D v c d =
     (case read_sector D v (fat_sector v c) d of
        (None, d) \<Rightarrow> (0xFFFF, d)
      | (Some s, d) \<Rightarrow> (get16 s (fat_offset c), d))"

definition fat_next :: "'d disk_ops \<Rightarrow> fat16 \<Rightarrow> u16 \<Rightarrow> 'd \<Rightarrow> u16 \<times> 'd" where
  "fat_next D v c d =
     (case read_sector D v (fat_sector v c) d of
        (None, d) \<Rightarrow> (0xFFFF, d)
      | (Some s, d) \<Rightarrow> (get16 s (fat_offset c), d))"

fun fat_set_copies :: "'d disk_ops \<Rightarrow> fat16 \<Rightarrow> u16 \<Rightarrow> u16 \<Rightarrow> nat list \<Rightarrow> 'd \<Rightarrow> bool \<times> 'd" where
  "fat_set_copies D v c val [] d = (True, d)"
| "fat_set_copies D v c val (f # fs) d =
     (let l = fat_sector v c + of_nat (f * unat (fat_size v)) in
      case read_sector D v l d of
        (None, d) \<Rightarrow> (False, d)
      | (Some s, d) \<Rightarrow>
          (case write_sector D v l (put16 s (fat_offset c) val) d of
             (False, d) \<Rightarrow> (False, d)
           | (True, d) \<Rightarrow> fat_set_copies D v c val fs d))"

definition fat_set :: "'d disk_ops \<Rightarrow> fat16 \<Rightarrow> u16 \<Rightarrow> u16 \<Rightarrow> 'd \<Rightarrow> bool \<times> 'd" where
  "fat_set D v c val d = fat_set_copies D v c val [0..<unat (num_fats v)] d"

text \<open>The scan of one table sector: the index of the first free entry, or \<open>Inl ()\<close> for the end of the range.\<close>

fun scan_fat :: "u8 list \<Rightarrow> nat \<Rightarrow> nat list \<Rightarrow> (unit + nat) option" where
  "scan_fat s base [] = None"
| "scan_fat s base (i # is) =
     (let idx = base + i in
      if idx < 2 then scan_fat s base is
      else if 0xFFF0 \<le> idx then Some (Inl ())
      else if get16 s (2 * i) = 0 then Some (Inr idx)
      else scan_fat s base is)"

fun alloc_loop :: "'d disk_ops \<Rightarrow> fat16 \<Rightarrow> nat list \<Rightarrow> 'd \<Rightarrow> u16 \<times> 'd" where
  "alloc_loop D v [] d = (0, d)"
| "alloc_loop D v (k # ks) d =
     (case read_sector D v (fat_start_lba v + of_nat k) d of
        (None, d) \<Rightarrow> (0, d)
      | (Some s, d) \<Rightarrow>
          (case scan_fat s (k * 256) [0..<256] of
             None \<Rightarrow> alloc_loop D v ks d
           | Some (Inl _) \<Rightarrow> (0, d)
           | Some (Inr idx) \<Rightarrow>
               (case fat_set D v (of_nat idx) 0xFFFF d of
                  (False, d) \<Rightarrow> (0, d)
                | (True, d) \<Rightarrow> (of_nat idx, d))))"

definition alloc_cluster :: "'d disk_ops \<Rightarrow> fat16 \<Rightarrow> 'd \<Rightarrow> u16 \<times> 'd" where
  "alloc_cluster D v d = alloc_loop D v [0..<unat (fat_size v)] d"

partial_function (option) free_chain :: "'d disk_ops \<Rightarrow> fat16 \<Rightarrow> u16 \<Rightarrow> 'd \<Rightarrow> 'd option" where
  "free_chain D v c d =
     (if 2 \<le> c \<and> c < 0xFFF8 then
        (case fat_get D v c d of (nxt, d) \<Rightarrow> free_chain D v nxt (snd (fat_set D v c 0 d)))
      else Some d)"


section \<open>Reading\<close>

definition cluster_lba :: "fat16 \<Rightarrow> u16 \<Rightarrow> u32" where
  "cluster_lba v c = data_start_lba v + of_nat ((unat c - 2) * unat (sectors_per_cluster v))"

text \<open>The sectors of one cluster; \<open>False\<close> for a read error.\<close>

fun read_cluster :: "'d disk_ops \<Rightarrow> fat16 \<Rightarrow> u32 \<Rightarrow> nat \<Rightarrow> nat list \<Rightarrow> u8 list \<Rightarrow> 'd \<Rightarrow> bool \<times> u8 list \<times> 'd" where
  "read_cluster D v lba sz [] out d = (True, out, d)"
| "read_cluster D v lba sz (s # ss) out d =
     (if length out < sz then
        (case read_sector D v (lba + of_nat s) d of
           (None, d) \<Rightarrow> (False, out, d)
         | (Some b, d) \<Rightarrow> read_cluster D v lba sz ss (out @ take (sz - length out) b) d)
      else (True, out, d))"

partial_function (option) read_chain ::
  "'d disk_ops \<Rightarrow> fat16 \<Rightarrow> u16 \<Rightarrow> nat \<Rightarrow> u8 list \<Rightarrow> 'd \<Rightarrow> (bool \<times> u8 list \<times> 'd) option" where
  "read_chain D v c sz out d =
     (if 2 \<le> c \<and> c < 0xFFF8 \<and> length out < sz then
        (case read_cluster D v (cluster_lba v c) sz [0..<unat (sectors_per_cluster v)] out d of
           (ok, out, d) \<Rightarrow>
             if \<not> ok then Some (False, out, d)
             else (case fat_next D v c d of (nxt, d) \<Rightarrow> read_chain D v nxt sz out d))
      else Some (True, out, d))"

text \<open>The return value, the bytes stored at \<open>out\<close>, the heap and the disk.\<close>

definition fat16_read_file ::
  "'d disk_ops \<Rightarrow> fat16 \<Rightarrow> u8 list \<Rightarrow> int \<Rightarrow> kheap \<times> 'd \<Rightarrow> (int \<times> u8 list \<times> kheap \<times> 'd) option" where
  "fat16_read_file D v name mx st = do {
     (p, e, h, d) \<leftarrow> find_root_entry D v name st;
     if p = 0 then Some (-1, [], h, d)
     else do {
       h \<leftarrow> kfree p h;
       let sz = d_size e;
       let c = d_cluster_lo e;
       let sz = (if word_of_int mx < sz then word_of_int mx else sz);
       if sz = 0 \<or> c < 2 then Some (0, [], h, d)
       else do {
         (ok, out, d) \<leftarrow> read_chain D v c (unat sz) [] d;
         Some (if ok then (sint (of_nat (length out) :: u32), out, h, d) else (-1, out, h, d))
       }
     }
   }"

section \<open>Writing and deleting\<close>

definition new_dirent :: "u8 list \<Rightarrow> u16 \<Rightarrow> u32 \<Rightarrow> u8 list" where
  "new_dirent want c sz = want @ [0x20] @ replicate 14 0 @ le_bytes 2 c @ le_bytes 4 sz"

definition put_ent :: "u8 list \<Rightarrow> nat \<Rightarrow> u8 list \<Rightarrow> u8 list" where
  "put_ent s k d = take (32 * k) s @ d @ drop (32 * k + 32) s"

definition free_entry :: "u8 list \<Rightarrow> nat option" where
  "free_entry s = find (\<lambda>k. ent s k ! 0 = 0 \<or> ent s k ! 0 = 0xE5) [0..<16]"

fun write_root_loop :: "'d disk_ops \<Rightarrow> fat16 \<Rightarrow> u8 list \<Rightarrow> u16 \<Rightarrow> u32 \<Rightarrow> nat list \<Rightarrow> 'd \<Rightarrow> bool \<times> 'd" where
  "write_root_loop D v want c sz [] d = (False, d)"
| "write_root_loop D v want c sz (i # is) d =
     (case read_sector D v (root_start_lba v + of_nat i) d of
        (None, d) \<Rightarrow> (False, d)
      | (Some s, d) \<Rightarrow>
          (case free_entry s of
             Some k \<Rightarrow> write_sector D v (root_start_lba v + of_nat i) (put_ent s k (new_dirent want c sz)) d
           | None \<Rightarrow> write_root_loop D v want c sz is d))"

definition write_root_dirent :: "'d disk_ops \<Rightarrow> fat16 \<Rightarrow> u8 list \<Rightarrow> u16 \<Rightarrow> u32 \<Rightarrow> 'd \<Rightarrow> bool \<times> 'd" where
  "write_root_dirent D v want c sz d = write_root_loop D v want c sz [0..<unat (root_sectors v)] d"

text \<open>The scan of \<open>fat16_delete_file\<close>: \<open>Inl ()\<close> is the end mark, \<open>Inr k\<close> the matching entry.\<close>

fun match_entry :: "u8 list \<Rightarrow> u8 list \<Rightarrow> nat list \<Rightarrow> (unit + nat) option" where
  "match_entry s want [] = None"
| "match_entry s want (k # ks) =
     (let d = ent s k in
      if d ! 0 = 0 then Some (Inl ())
      else if dirent_raw d = want then Some (Inr k)
      else match_entry s want ks)"

fun delete_loop :: "'d disk_ops \<Rightarrow> fat16 \<Rightarrow> u8 list \<Rightarrow> nat list \<Rightarrow> 'd \<Rightarrow> (bool \<times> 'd) option" where
  "delete_loop D v want [] d = Some (False, d)"
| "delete_loop D v want (i # is) d =
     (case read_sector D v (root_start_lba v + of_nat i) d of
        (None, d) \<Rightarrow> Some (False, d)
      | (Some s, d) \<Rightarrow>
          (case match_entry s want [0..<16] of
             None \<Rightarrow> delete_loop D v want is d
           | Some (Inl _) \<Rightarrow> Some (False, d)
           | Some (Inr k) \<Rightarrow> do {
               d \<leftarrow> free_chain D v (d_cluster_lo (ent s k)) d;
               Some (write_sector D v (root_start_lba v + of_nat i) (put_ent s k ((ent s k)[0 := 0xE5])) d)
             }))"

definition fat16_delete_file :: "'d disk_ops \<Rightarrow> fat16 \<Rightarrow> u8 list \<Rightarrow> 'd \<Rightarrow> (int \<times> 'd) option" where
  "fat16_delete_file D v name d =
     map_option (\<lambda>(ok, d). (if ok then 0 else -1, d))
       (delete_loop D v (parse_83 name) [0..<unat (root_sectors v)] d)"

text \<open>The chain of \<open>n\<close> clusters; the first cluster, or 0 with \<open>False\<close> when none could be allocated.\<close>

fun alloc_chain :: "'d disk_ops \<Rightarrow> fat16 \<Rightarrow> nat \<Rightarrow> u16 \<Rightarrow> u16 \<Rightarrow> 'd \<Rightarrow> (bool \<times> u16 \<times> u16 \<times> 'd) option" where
  "alloc_chain D v 0 first prev d = Some (True, first, prev, d)"
| "alloc_chain D v (Suc n) first prev d =
     (case alloc_cluster D v d of
        (c, d) \<Rightarrow>
          if c = 0 then
            (if first \<noteq> 0 then map_option (\<lambda>d. (False, first, prev, d)) (free_chain D v first d)
             else Some (False, first, prev, d))
          else if prev \<noteq> 0 then alloc_chain D v n first c (snd (fat_set D v prev c d))
          else alloc_chain D v n c c d)"

fun write_cluster :: "'d disk_ops \<Rightarrow> fat16 \<Rightarrow> u32 \<Rightarrow> nat list \<Rightarrow> u8 list \<Rightarrow> 'd \<Rightarrow> bool \<times> u8 list \<times> 'd" where
  "write_cluster D v lba [] src d = (True, src, d)"
| "write_cluster D v lba (s # ss) src d =
     (if src \<noteq> [] then
        (let buf = take 512 src @ replicate (512 - length src) 0 in
         case write_sector D v (lba + of_nat s) buf d of
           (False, d) \<Rightarrow> (False, src, d)
         | (True, d) \<Rightarrow> write_cluster D v lba ss (drop 512 src) d)
      else (True, src, d))"

partial_function (option) write_chain ::
  "'d disk_ops \<Rightarrow> fat16 \<Rightarrow> u16 \<Rightarrow> u8 list \<Rightarrow> 'd \<Rightarrow> (bool \<times> 'd) option" where
  "write_chain D v c src d =
     (if 2 \<le> c \<and> c < 0xFFF8 \<and> src \<noteq> [] then
        (case write_cluster D v (cluster_lba v c) [0..<unat (sectors_per_cluster v)] src d of
           (ok, src, d) \<Rightarrow>
             if \<not> ok then Some (False, d)
             else (case fat_get D v c d of (nxt, d) \<Rightarrow> write_chain D v nxt src d))
      else Some (True, d))"

text \<open>
  \<open>fat16_write_file(name, data, size)\<close>: \<open>data\<close> is the caller's buffer, of which the first
  \<open>size\<close> bytes are written.
\<close>

definition num_clusters :: "fat16 \<Rightarrow> nat \<Rightarrow> nat" where
  "num_clusters v sz =
     (let cluster_size = of_nat (unat (sectors_per_cluster v) * unat (bytes_per_sector v)) :: u32
      in unat ((of_nat sz + cluster_size - 1) div cluster_size))"

definition fat16_write_file :: "'d disk_ops \<Rightarrow> fat16 \<Rightarrow> u8 list \<Rightarrow> u8 list \<Rightarrow> int \<Rightarrow> 'd \<Rightarrow> (int \<times> 'd) option" where
  "fat16_write_file D v name data nbytes d = (if nbytes < 0 \<or> nbytes > 0x7FFFFFFF then Some (- 1, d) else do {
     let src = take (nat nbytes) data;
     (_, d) \<leftarrow> fat16_delete_file D v name d;
     (ok, first, prev, d) \<leftarrow> alloc_chain D v (num_clusters v (length src)) 0 0 d;
     if \<not> ok then Some (-1, d)
     else do {
       let d = (if prev \<noteq> 0 then snd (fat_set D v prev 0xFFFF d) else d);
       (ok, d) \<leftarrow> write_chain D v first src d;
       if \<not> ok then Some (-1, d)
       else
         (case write_root_dirent D v (parse_83 name) first (of_nat (length src)) d of
            (ok, d) \<Rightarrow> Some (if ok then 0 else -1, d))
     }
   })"

end
