(* ===== verification/Ramfs.thy ===== *)
theory Ramfs
  imports Kheap
begin

text \<open>
  The file system in memory, \<open>kernel/fs/ramfs.c\<close>: a tree of nodes linked by parent, first
  child and next sibling.  Nodes are held in a store \<open>rnodes\<close> indexed by their address; the
  contents of files are bytes of the kernel heap.  C strings are byte lists without the final
  NUL.  Walks along pointers are \<open>option\<close> valued: \<open>None\<close> is a walk that never ends.  The
  blob of the serialiser is a byte list that the operations return updated; positions in it are
  natural numbers.
\<close>

section \<open>Nodes\<close>

definition RAMFS_NAME_MAX :: nat where "RAMFS_NAME_MAX = 64"

text \<open>\<open>sizeof(ramfs_node_t)\<close> on x86-64.\<close>

definition NODE_SIZE :: u64 where "NODE_SIZE = 120"

datatype node_type = NODE_FILE | NODE_DIR

primrec type_code :: "node_type \<Rightarrow> u8" where
  "type_code NODE_FILE = 0"
| "type_code NODE_DIR = 1"

record rnode =
  n_name :: "u8 list"
  n_type :: node_type
  n_data :: u64
  n_size :: u64
  n_capacity :: u64
  n_parent :: u64
  n_children :: u64
  n_next :: u64

record ramfs =
  rnodes :: "u64 \<Rightarrow> rnode"
  r_root :: u64
  r_cwd :: u64
  r_heap :: kheap

definition upd_node :: "u64 \<Rightarrow> (rnode \<Rightarrow> rnode) \<Rightarrow> ramfs \<Rightarrow> ramfs" where
  "upd_node p f fs = fs\<lparr>rnodes := (rnodes fs)(p := f (rnodes fs p))\<rparr>"

section \<open>Strings\<close>

text \<open>\<open>*s\<close> and \<open>s + 1\<close> of a string that ends in NUL.\<close>

definition c_hd :: "u8 list \<Rightarrow> u8" where
  "c_hd s = (case s of [] \<Rightarrow> 0 | c # _ \<Rightarrow> c)"

fun str_eq :: "u8 list \<Rightarrow> u8 list \<Rightarrow> bool" where
  "str_eq [] b \<longleftrightarrow> c_hd b = 0"
| "str_eq (c # a) b \<longleftrightarrow> (if c \<noteq> 0 \<and> c = c_hd b then str_eq a (tl b) else c = c_hd b)"

fun str_copy :: "u8 list \<Rightarrow> nat \<Rightarrow> u8 list" where
  "str_copy [] n = []"
| "str_copy (c # s) n = (if 1 < n \<and> c \<noteq> 0 then c # str_copy s (n - 1) else [])"

section \<open>Operations\<close>

definition node_alloc :: "node_type \<Rightarrow> u8 list \<Rightarrow> u64 \<Rightarrow> ramfs \<Rightarrow> (u64 \<times> ramfs) option" where
  "node_alloc ty name parent fs = do {
     (n, h) \<leftarrow> kzalloc NODE_SIZE (r_heap fs);
     let fs' = fs\<lparr>r_heap := h\<rparr>;
     Some (if n = 0 then (0, fs')
       else (n, upd_node n (\<lambda>_. \<lparr>n_name = str_copy name RAMFS_NAME_MAX, n_type = ty, n_data = 0, n_size = 0,
               n_capacity = 0, n_parent = parent, n_children = 0, n_next = 0\<rparr>) fs'))
   }"

definition ramfs_init :: "ramfs \<Rightarrow> ramfs option" where
  "ramfs_init fs = do {
     (n, fs') \<leftarrow> node_alloc NODE_DIR [47] 0 fs;
     Some (fs'\<lparr>r_root := n, r_cwd := n\<rparr>)
   }"

definition ramfs_set_cwd :: "u64 \<Rightarrow> ramfs \<Rightarrow> ramfs" where
  "ramfs_set_cwd n fs = (if n \<noteq> 0 \<and> n_type (rnodes fs n) = NODE_DIR then fs\<lparr>r_cwd := n\<rparr> else fs)"

partial_function (option) find_sibling :: "(u64 \<Rightarrow> rnode) \<Rightarrow> u8 list \<Rightarrow> u64 \<Rightarrow> u64 option" where
  "find_sibling R name c =
     (if c = 0 then Some 0
      else if str_eq (n_name (R c)) name then Some c
      else find_sibling R name (n_next (R c)))"

definition ramfs_find_child :: "(u64 \<Rightarrow> rnode) \<Rightarrow> u64 \<Rightarrow> u8 list \<Rightarrow> u64 option" where
  "ramfs_find_child R dir name =
     (if dir = 0 \<or> n_type (R dir) \<noteq> NODE_DIR then Some 0
      else find_sibling R name (n_children (R dir)))"

text \<open>One round of the scan in \<open>ramfs_lookup\<close>: the next component and what follows its slashes.\<close>

definition next_comp :: "u8 list \<Rightarrow> u8 list \<times> u8 list" where
  "next_comp p =
     (let name = take (RAMFS_NAME_MAX - 1) (takeWhile (\<lambda>c. c \<noteq> 47) p)
      in (name, dropWhile (\<lambda>c. c = 47) (drop (length name) p)))"

lemma next_comp_shorter: "p \<noteq> [] \<Longrightarrow> length (snd (next_comp p)) < length p"
proof (cases p)
  case (Cons c q)
  then show ?thesis
    using length_dropWhile_le [of "\<lambda>c. c = 47" q]
      length_dropWhile_le [of "\<lambda>c. c = 47" "drop (length (take (RAMFS_NAME_MAX - 1) (takeWhile (\<lambda>c. c \<noteq> 47) p))) p"]
    by (cases "c = 47") (auto simp: next_comp_def Let_def RAMFS_NAME_MAX_def)
qed simp

lemma next_comp_rest: "(name, rest) = next_comp p \<Longrightarrow> p \<noteq> [] \<Longrightarrow> length rest < length p"
  using next_comp_shorter [of p] by (metis snd_conv)

function lookup_loop :: "(u64 \<Rightarrow> rnode) \<Rightarrow> u8 list \<Rightarrow> u64 \<Rightarrow> u64 option" where
  "lookup_loop R p cur =
     (if p = [] then Some cur
      else
        (let (name, rest) = next_comp p in
         if name = [] then lookup_loop R rest cur
         else if name = [46] then lookup_loop R rest cur
         else if name = [46, 46] then
           lookup_loop R rest (if n_parent (R cur) \<noteq> 0 then n_parent (R cur) else cur)
         else if n_type (R cur) \<noteq> NODE_DIR then Some 0
         else do {
           child \<leftarrow> ramfs_find_child R cur name;
           if child = 0 then Some 0 else lookup_loop R rest child
         }))"
  by pat_completeness auto
termination
  by (relation "measure (\<lambda>(R, p, cur). length p)") (auto intro: next_comp_rest)

declare lookup_loop.simps [simp del]

definition ramfs_lookup :: "u8 list \<Rightarrow> ramfs \<Rightarrow> u64 option" where
  "ramfs_lookup path fs =
     (case path of
        [] \<Rightarrow> Some 0
      | c # p \<Rightarrow> if c = 47 then lookup_loop (rnodes fs) p (r_root fs)
                else lookup_loop (rnodes fs) path (r_cwd fs))"

text \<open>\<open>n->next = dir->children; dir->children = n;\<close>\<close>

definition link_child :: "u64 \<Rightarrow> u64 \<Rightarrow> ramfs \<Rightarrow> ramfs" where
  "link_child dir n fs = upd_node dir (\<lambda>d. d\<lparr>n_children := n\<rparr>)
     (upd_node n (\<lambda>d. d\<lparr>n_next := n_children (rnodes fs dir)\<rparr>) fs)"

definition create_node :: "node_type \<Rightarrow> u64 \<Rightarrow> u8 list \<Rightarrow> ramfs \<Rightarrow> (u64 \<times> ramfs) option" where
  "create_node ty dir name fs =
     (if dir = 0 \<or> n_type (rnodes fs dir) \<noteq> NODE_DIR then Some (0, fs)
      else do {
        c \<leftarrow> ramfs_find_child (rnodes fs) dir name;
        if c \<noteq> 0 then Some (0, fs)
        else do {
          (n, fs') \<leftarrow> node_alloc ty name dir fs;
          Some (if n = 0 then (0, fs') else (n, link_child dir n fs'))
        }
      })"

definition ramfs_create_file :: "u64 \<Rightarrow> u8 list \<Rightarrow> ramfs \<Rightarrow> (u64 \<times> ramfs) option" where
  "ramfs_create_file = create_node NODE_FILE"

definition ramfs_mkdir :: "u64 \<Rightarrow> u8 list \<Rightarrow> ramfs \<Rightarrow> (u64 \<times> ramfs) option" where
  "ramfs_mkdir = create_node NODE_DIR"

text \<open>The pointer to a pointer \<open>pp\<close> of \<open>ramfs_unlink_node\<close>.\<close>

datatype slot = ChildrenOf u64 | NextOf u64

primrec rd_slot :: "(u64 \<Rightarrow> rnode) \<Rightarrow> slot \<Rightarrow> u64" where
  "rd_slot R (ChildrenOf d) = n_children (R d)"
| "rd_slot R (NextOf n) = n_next (R n)"

primrec wr_slot :: "slot \<Rightarrow> u64 \<Rightarrow> ramfs \<Rightarrow> ramfs" where
  "wr_slot (ChildrenOf d) v fs = upd_node d (\<lambda>n. n\<lparr>n_children := v\<rparr>) fs"
| "wr_slot (NextOf m) v fs = upd_node m (\<lambda>n. n\<lparr>n_next := v\<rparr>) fs"

partial_function (option) find_slot :: "(u64 \<Rightarrow> rnode) \<Rightarrow> u64 \<Rightarrow> slot \<Rightarrow> slot option" where
  "find_slot R node pp =
     (if rd_slot R pp \<noteq> 0 \<and> rd_slot R pp \<noteq> node then find_slot R node (NextOf (rd_slot R pp))
      else Some pp)"

definition ramfs_unlink_node :: "u64 \<Rightarrow> ramfs \<Rightarrow> (int \<times> ramfs) option" where
  "ramfs_unlink_node node fs =
     (if node = 0 \<or> n_parent (rnodes fs node) = 0 then Some (-1, fs)
      else if n_type (rnodes fs node) = NODE_DIR \<and> n_children (rnodes fs node) \<noteq> 0 then Some (-1, fs)
      else do {
        pp \<leftarrow> find_slot (rnodes fs) node (ChildrenOf (n_parent (rnodes fs node)));
        if rd_slot (rnodes fs) pp = 0 then Some (-1, fs)
        else do {
          let fs1 = wr_slot pp (n_next (rnodes fs node)) fs;
          h \<leftarrow> (if n_data (rnodes fs1 node) \<noteq> 0 then kfree (n_data (rnodes fs1 node)) (r_heap fs1) else Some (r_heap fs1));
          h' \<leftarrow> kfree node h;
          Some (0, fs1\<lparr>r_heap := h'\<rparr>)
        }
      })"

text \<open>\<open>while (new_cap < need) new_cap *= 2;\<close>\<close>

partial_function (option) grow_cap :: "u64 \<Rightarrow> u64 \<Rightarrow> u64 option" where
  "grow_cap need c = (if c < need then grow_cap need (c * 2) else Some c)"

text \<open>\<open>for (i = 0; i < n; i++) d[i] = s[i];\<close> in memory.\<close>

definition copy_bytes :: "u64 \<Rightarrow> u64 \<Rightarrow> nat \<Rightarrow> mem \<Rightarrow> mem" where
  "copy_bytes d s n = fold (\<lambda>i m. m(d + of_nat i := m (s + of_nat i))) [0..<n]"

text \<open>The growing part of \<open>ramfs_write\<close>; the flag says whether the buffer could be allocated.\<close>

definition grow_file :: "u64 \<Rightarrow> u64 \<Rightarrow> ramfs \<Rightarrow> (bool \<times> ramfs) option" where
  "grow_file f need fs =
     (let nd = rnodes fs f in
      if n_capacity nd < need then do {
        new_cap \<leftarrow> grow_cap need (if n_capacity nd \<noteq> 0 then n_capacity nd else 64);
        (p, h) \<leftarrow> kmalloc new_cap (r_heap fs);
        if p = 0 then Some (False, fs\<lparr>r_heap := h\<rparr>)
        else do {
          h' \<leftarrow> (if n_data nd \<noteq> 0
                 then kfree (n_data nd) (h\<lparr>hmem := copy_bytes p (n_data nd) (unat (n_size nd)) (hmem h)\<rparr>)
                 else Some h);
          Some (True, upd_node f (\<lambda>n. n\<lparr>n_data := p, n_capacity := new_cap\<rparr>) (fs\<lparr>r_heap := h'\<rparr>))
        }
      } else Some (True, fs))"

text \<open>\<open>ramfs_write(f, buf, n, off)\<close>, where \<open>src\<close> is the \<open>n\<close> bytes at \<open>buf\<close>.\<close>

definition ramfs_write :: "u64 \<Rightarrow> u8 list \<Rightarrow> u64 \<Rightarrow> ramfs \<Rightarrow> (int \<times> ramfs) option" where
  "ramfs_write f src off fs =
     (if f = 0 \<or> n_type (rnodes fs f) \<noteq> NODE_FILE then Some (-1, fs)
      else
        (let n = of_nat (length src) :: u64;
             need = off + n in
         do {
           (grown, fs) \<leftarrow> grow_file f need fs;
           if \<not> grown then Some (-1, fs)
           else
             (let h = r_heap fs;
                  fs = fs\<lparr>r_heap := h\<lparr>hmem := wr_bytes (hmem h) (n_data (rnodes fs f) + off) src\<rparr>\<rparr>;
                  fs = (if n_size (rnodes fs f) < need then upd_node f (\<lambda>d. d\<lparr>n_size := need\<rparr>) fs else fs)
              in Some (c_int n, fs))
         }))"

text \<open>\<open>ramfs_read(f, buf, n, off)\<close>: the return value and the bytes stored at \<open>buf\<close>.\<close>

definition ramfs_read :: "u64 \<Rightarrow> u64 \<Rightarrow> u64 \<Rightarrow> ramfs \<Rightarrow> int \<times> u8 list" where
  "ramfs_read f n off fs =
     (let nd = rnodes fs f in
      if f = 0 \<or> n_type nd \<noteq> NODE_FILE then (-1, [])
      else if n_size nd \<le> off then (0, [])
      else
        (let avail = n_size nd - off;
             n = (if avail < n then avail else n)
         in (c_int n, rd_bytes (hmem (r_heap fs)) (n_data nd + off) (unat n))))"

partial_function (option) ramfs_get_path :: "ramfs \<Rightarrow> u64 \<Rightarrow> nat \<Rightarrow> u8 list option" where
  "ramfs_get_path fs n mx =
     (if n = 0 \<or> n = r_root fs then Some (str_copy [47] mx)
      else do {
        parent_path \<leftarrow> ramfs_get_path fs (n_parent (rnodes fs n)) 256;
        let out = take (mx - 1) parent_path;
        let out = (if length out < mx - 1 \<and> last parent_path \<noteq> 47 then out @ [47] else out);
        Some (out @ take (mx - 1 - length out) (n_name (rnodes fs n)))
      })"

section \<open>Serialisation\<close>

text \<open>\<open>out[pos++] = b\<close> for each byte in turn.\<close>

fun put_bytes :: "u8 list \<Rightarrow> nat \<Rightarrow> u8 list \<Rightarrow> u8 list \<times> nat" where
  "put_bytes out pos [] = (out, pos)"
| "put_bytes out pos (b # bs) = put_bytes (out[pos := b]) (pos + 1) bs"

text \<open>
  The loop over the children of a node, with the body of \<open>ser_node\<close> in place of its call.
  The result is the buffer and the new position, 0 for a buffer that is too small.
\<close>

partial_function (option) ser_children ::
  "ramfs \<Rightarrow> nat \<Rightarrow> u64 \<Rightarrow> u8 list \<Rightarrow> nat \<Rightarrow> (u8 list \<times> nat) option" where
  "ser_children fs mx c out pos =
     (if c = 0 then Some (out, pos)
      else
        (let nd = rnodes fs c;
             nlen = min (length (n_name nd)) 255 in
         do {
           (out, pos) \<leftarrow>
             (if pos + 2 + nlen + 4 > mx then Some (out, 0)
              else
                (let (out, pos) = put_bytes out pos ([type_code (n_type nd), of_nat nlen] @ take nlen (n_name nd)) in
                 if n_type nd = NODE_FILE then
                   (let (out, pos) = put_bytes out pos (le_bytes 4 (n_size nd)) in
                    if pos + unat (n_size nd) > mx then Some (out, 0)
                    else Some (put_bytes out pos (rd_bytes (hmem (r_heap fs)) (n_data nd) (unat (n_size nd)))))
                 else do {
                   (out, pos) \<leftarrow> ser_children fs mx (n_children nd) out pos;
                   if pos = 0 then Some (out, 0)
                   else if pos + 2 > mx then Some (out, 0)
                   else Some (put_bytes out pos [0xFF, 0])
                 }));
           if pos = 0 then Some (out, 0) else ser_children fs mx (n_next nd) out pos
         }))"

definition ser_node :: "ramfs \<Rightarrow> nat \<Rightarrow> u64 \<Rightarrow> u8 list \<Rightarrow> nat \<Rightarrow> (u8 list \<times> nat) option" where
  "ser_node fs mx n out pos =
     (let nd = rnodes fs n;
          nlen = min (length (n_name nd)) 255 in
      if pos + 2 + nlen + 4 > mx then Some (out, 0)
      else
        (let (out, pos) = put_bytes out pos ([type_code (n_type nd), of_nat nlen] @ take nlen (n_name nd)) in
         if n_type nd = NODE_FILE then
           (let (out, pos) = put_bytes out pos (le_bytes 4 (n_size nd)) in
            if pos + unat (n_size nd) > mx then Some (out, 0)
            else Some (put_bytes out pos (rd_bytes (hmem (r_heap fs)) (n_data nd) (unat (n_size nd)))))
         else do {
           (out, pos) \<leftarrow> ser_children fs mx (n_children nd) out pos;
           if pos = 0 then Some (out, 0)
           else if pos + 2 > mx then Some (out, 0)
           else Some (put_bytes out pos [0xFF, 0])
         }))"

lemma ser_children_step:
  "ser_children fs mx c out pos =
     (if c = 0 then Some (out, pos)
      else do {
        (out, pos) \<leftarrow> ser_node fs mx c out pos;
        if pos = 0 then Some (out, 0) else ser_children fs mx (n_next (rnodes fs c)) out pos
      })"
  by (subst ser_children.simps) (simp add: ser_node_def Let_def)

definition MAGIC :: "u8 list" where
  "MAGIC = [70, 76, 89, 79, 83, 70, 83, 50]"

definition ramfs_serialize :: "ramfs \<Rightarrow> nat \<Rightarrow> u8 list \<Rightarrow> (u8 list \<times> nat) option" where
  "ramfs_serialize fs mx out =
     (if mx < 16 then Some (out, 0)
      else
        (let (out, pos) = put_bytes out 0 MAGIC in
         do {
           (out, pos) \<leftarrow> ser_children fs mx (n_children (rnodes fs (r_root fs))) out (pos + 4);
           if pos = 0 then Some (out, 0)
           else Some (fst (put_bytes out 8 (le_bytes 4 (of_nat pos :: u64))), pos)
         }))"


text \<open>\<open>deser_node\<close> and its \<open>while (1)\<close> loop; a result 0 is the error return.\<close>

function deser_node :: "u64 \<Rightarrow> u8 list \<Rightarrow> nat \<Rightarrow> nat \<Rightarrow> ramfs \<Rightarrow> (nat \<times> ramfs) option"
  and deser_loop :: "u64 \<Rightarrow> u8 list \<Rightarrow> nat \<Rightarrow> nat \<Rightarrow> ramfs \<Rightarrow> (nat \<times> ramfs) option" where
  "deser_node parent inp pos len fs =
     (if pos + 2 > len then Some (0, fs)
      else
        (let ty = inp ! pos;
             nlen = unat (inp ! (pos + 1));
             pos2 = pos + 2 in
         if ty = 0xFF then Some (pos2, fs)
         else if pos2 + nlen > len then Some (0, fs)
         else
           (let name = str_copy (take nlen (drop pos2 inp)) RAMFS_NAME_MAX;
                pos3 = pos2 + nlen in
            if ty = type_code NODE_FILE then
              (if pos3 + 4 > len then Some (0, fs)
               else
                 (let sz = unat (le_word (take 4 (drop pos3 inp)) :: u32);
                      pos4 = pos3 + 4 in
                  if pos4 + sz > len then Some (0, fs)
                  else do {
                    (f, fs) \<leftarrow> ramfs_create_file parent name fs;
                    if f = 0 then Some (0, fs)
                    else do {
                      (_, fs) \<leftarrow> ramfs_write f (take sz (drop pos4 inp)) 0 fs;
                      Some (pos4 + sz, fs)
                    }
                  }))
            else if ty = type_code NODE_DIR then do {
              (d, fs) \<leftarrow> ramfs_mkdir parent name fs;
              if d = 0 then Some (0, fs) else deser_loop d inp pos3 len fs
            }
            else Some (0, fs))))"
| "deser_loop d inp pos len fs =
     (if pos + 2 > len then Some (0, fs)
      else if inp ! pos = 0xFF \<and> inp ! (pos + 1) = 0 then Some (pos + 2, fs)
      else do {
        (nxt, fs) \<leftarrow> deser_node d inp pos len fs;
        if nxt = 0 \<or> nxt \<le> pos then Some (0, fs) else deser_loop d inp nxt len fs
      })"
  by pat_completeness auto
termination
  by (relation "measure (\<lambda>x. case x of Inl (parent, inp, pos, len, fs) \<Rightarrow> 2 * (len - pos)
        | Inr (d, inp, pos, len, fs) \<Rightarrow> 2 * (len - pos) + 1)") auto

declare deser_node.simps [simp del] deser_loop.simps [simp del]

text \<open>The loop of \<open>ramfs_deserialize\<close>; the flag is false for the error return.\<close>

function deser_root :: "u8 list \<Rightarrow> nat \<Rightarrow> nat \<Rightarrow> ramfs \<Rightarrow> (bool \<times> ramfs) option" where
  "deser_root inp pos tot fs =
     (if pos + 2 \<le> tot then
        (if inp ! pos = 0xFF \<and> inp ! (pos + 1) = 0 then Some (True, fs)
         else do {
           (nxt, fs') \<leftarrow> deser_node (r_root fs) inp pos tot fs;
           if nxt = 0 \<or> nxt \<le> pos then Some (False, fs') else deser_root inp nxt tot fs'
         })
      else Some (True, fs))"
  by pat_completeness auto
termination
  by (relation "measure (\<lambda>(inp, pos, tot, fs). tot - pos)") auto

declare deser_root.simps [simp del]

definition ramfs_deserialize :: "u8 list \<Rightarrow> nat \<Rightarrow> ramfs \<Rightarrow> (int \<times> ramfs) option" where
  "ramfs_deserialize inp len fs =
     (if len < 16 then Some (-1, fs)
      else if take 8 inp \<noteq> MAGIC then Some (-1, fs)
      else
        (let tot = unat (le_word (take 4 (drop 8 inp)) :: u32);
             tot = (if tot > len then len else tot)
         in map_option (\<lambda>(ok, fs'). (if ok then 0 else -1, fs')) (deser_root inp 12 tot fs)))"

end
