(* ===== verification/Ramfs_Tree.thy ===== *)
theory Ramfs_Tree
  imports Ramfs Heap_Room
begin

text \<open>
  What the linked nodes of \<open>ramfs.c\<close> represent.  An \<open>ftree\<close> is the abstract file system:
  names and contents.  An \<open>rtree\<close> is such a tree with the address of every node and buffer;
  \<open>tree_at\<close> relates it to the node store and the heap, \<open>erase\<close> forgets the addresses.
  The operations are shown to act on the represented tree; the serialiser writes the
  encoding of the tree and the deserialiser rebuilds it.
\<close>

section \<open>Strings\<close>

definition name_ok :: "u8 list \<Rightarrow> bool" where
  "name_ok nm \<longleftrightarrow> 0 \<notin> set nm \<and> length nm < 64"

lemma str_eq_iff: "0 \<notin> set a \<Longrightarrow> 0 \<notin> set b \<Longrightarrow> str_eq a b \<longleftrightarrow> a = b"
proof (induction a arbitrary: b)
  case Nil
  then show ?case by (cases b) (auto simp: c_hd_def)
next
  case (Cons c a)
  then show ?case by (cases b) (auto simp: c_hd_def)
qed

lemma str_copy_id: "0 \<notin> set s \<Longrightarrow> length s < n \<Longrightarrow> str_copy s n = s"
  by (induction s arbitrary: n) auto

lemma str_copy_ok: "name_ok (str_copy s RAMFS_NAME_MAX)"
proof -
  have "0 < n \<Longrightarrow> length (str_copy s n) < n \<and> 0 \<notin> set (str_copy s n)" for n
  proof (induction s arbitrary: n)
    case (Cons c s)
    show ?case using Cons.IH [of "n - 1"] Cons.prems by auto
  qed simp
  then show ?thesis by (simp add: name_ok_def RAMFS_NAME_MAX_def)
qed

lemma str_copy_name: "name_ok nm \<Longrightarrow> str_copy nm RAMFS_NAME_MAX = nm"
  by (simp add: name_ok_def str_copy_id RAMFS_NAME_MAX_def)

section \<open>Trees\<close>

datatype ftree = File (fname: "u8 list") (fbytes: "u8 list") | Dir (fname: "u8 list") (fkids: "ftree list")

datatype rtree =
    RFile (raddr: u64) (rname: "u8 list") (rdata: u64) (rcap: u64) (rbytes: "u8 list")
  | RDir (raddr: u64) (rname: "u8 list") (rkids: "rtree list")

fun erase :: "rtree \<Rightarrow> ftree" where
  "erase (RFile a nm d c bs) = File nm bs"
| "erase (RDir a nm ts) = Dir nm (map erase ts)"

definition first :: "rtree list \<Rightarrow> u64" where
  "first ts = (case ts of [] \<Rightarrow> 0 | t # _ \<Rightarrow> raddr t)"

lemma first_simps [simp]: "first [] = 0" "first (t # ts) = raddr t"
  by (simp_all add: first_def)

fun tree_at :: "(u64 \<Rightarrow> rnode) \<Rightarrow> mem \<Rightarrow> u64 \<Rightarrow> u64 \<Rightarrow> rtree \<Rightarrow> bool"
  and forest_at :: "(u64 \<Rightarrow> rnode) \<Rightarrow> mem \<Rightarrow> u64 \<Rightarrow> rtree list \<Rightarrow> bool" where
  "tree_at R m par nxt (RFile a nm d c bs) \<longleftrightarrow>
     a \<noteq> 0 \<and> name_ok nm \<and> R a = \<lparr>n_name = nm, n_type = NODE_FILE, n_data = d, n_size = of_nat (length bs), n_capacity = c,
        n_parent = par, n_children = 0, n_next = nxt\<rparr> \<and>
     length bs \<le> unat c \<and> (d = 0 \<longleftrightarrow> c = 0) \<and> rd_bytes m d (length bs) = bs"
| "tree_at R m par nxt (RDir a nm ts) \<longleftrightarrow>
     a \<noteq> 0 \<and> name_ok nm \<and> R a = \<lparr>n_name = nm, n_type = NODE_DIR, n_data = 0, n_size = 0, n_capacity = 0,
        n_parent = par, n_children = first ts, n_next = nxt\<rparr> \<and>
     distinct (map rname ts) \<and> forest_at R m a ts"
| "forest_at R m par [] \<longleftrightarrow> True"
| "forest_at R m par (t # ts) \<longleftrightarrow> tree_at R m par (first ts) t \<and> forest_at R m par ts"

text \<open>The heap blocks of a tree: the nodes, and the buffers with their capacities.\<close>

fun blocks :: "rtree \<Rightarrow> (u64 \<times> nat) list" where
  "blocks (RFile a nm d c bs) = (a, 120) # (if d = 0 then [] else [(d, unat c)])"
| "blocks (RDir a nm ts) = (a, 120) # concat (map blocks ts)"

definition ptrs :: "rtree \<Rightarrow> u64 set" where
  "ptrs t = fst ` set (blocks t)"

lemma ptrs_simps [simp]:
  "ptrs (RFile a nm d c bs) = insert a (if d = 0 then {} else {d})"
  "ptrs (RDir a nm ts) = insert a (\<Union>t \<in> set ts. ptrs t)"
  by (auto simp: ptrs_def)

lemma raddr_ptrs [simp]: "raddr t \<in> ptrs t"
  by (cases t) simp_all

text \<open>Every block of the list is a live allocation of at least its size.\<close>

definition all_live :: "kheap \<Rightarrow> (u64 \<times> nat) list \<Rightarrow> bool" where
  "all_live h bl \<longleftrightarrow> (\<forall>(p, n) \<in> set bl. \<exists>m. n \<le> m \<and> (p, m) \<in> heap_live h)"

lemma all_live_simps [simp]:
  "all_live h []" "all_live h (b # bl) \<longleftrightarrow> (\<exists>m. snd b \<le> m \<and> (fst b, m) \<in> heap_live h) \<and> all_live h bl"
  "all_live h (bl @ bl') \<longleftrightarrow> all_live h bl \<and> all_live h bl'"
  by (auto simp: all_live_def split_beta)

definition live_ptr :: "kheap \<Rightarrow> u64 \<Rightarrow> bool" where
  "live_ptr h p \<longleftrightarrow> (\<exists>m. (p, m) \<in> heap_live h)"

lemma all_live_ptr: "all_live h bl \<Longrightarrow> p \<in> fst ` set bl \<Longrightarrow> live_ptr h p"
  by (auto simp: all_live_def live_ptr_def split_beta)

lemma all_liveD: "all_live h bl \<Longrightarrow> (q, n) \<in> set bl \<Longrightarrow> \<exists>m. n \<le> m \<and> (q, m) \<in> heap_live h"
  by (auto simp: all_live_def)

text \<open>
  Framing: a tree is still there when its nodes have not changed and the bytes of its
  buffers have not changed.
\<close>

lemma tree_at_frame:
  "tree_at R m par nxt t \<Longrightarrow> (\<And>p. p \<in> ptrs t \<Longrightarrow> R' p = R p) \<Longrightarrow>
     (\<And>p n. (p, n) \<in> set (blocks t) \<Longrightarrow> bytes_kept m m' p n) \<Longrightarrow> tree_at R' m' par nxt t"
  "forest_at R m par ts \<Longrightarrow> (\<And>t p. t \<in> set ts \<Longrightarrow> p \<in> ptrs t \<Longrightarrow> R' p = R p) \<Longrightarrow>
     (\<And>t p n. t \<in> set ts \<Longrightarrow> (p, n) \<in> set (blocks t) \<Longrightarrow> bytes_kept m m' p n) \<Longrightarrow> forest_at R' m' par ts"
proof (induction R m par nxt t and R m par ts rule: tree_at_forest_at.induct)
  case (1 R m par nxt a nm d c bs)
  have "rd_bytes m' d (length bs) = rd_bytes m d (length bs)"
  proof (cases "d = 0")
    case False
    then show ?thesis using 1 by (intro bytes_kept_rd [of m m' d "unat c"]) auto
  next
    case True
    then have "bs = []" using 1(1) by auto
    then show ?thesis by (simp add: rd_bytes_def)
  qed
  then show ?case using 1 by simp
next
  case (2 R m par nxt a nm ts)
  have "forest_at R' m' a ts"
  proof (rule 2(1))
    show "forest_at R m a ts" using 2(2) by simp
    show "R' p = R p" if "t \<in> set ts" "p \<in> ptrs t" for t p using 2(3) [of p] that by auto
    show "bytes_kept m m' p n" if "t \<in> set ts" "(p, n) \<in> set (blocks t)" for t p n using 2(4) [of p n] that by auto
  qed
  then show ?case using 2(2) 2(3) [of a] by simp
next
  case (4 R m par t ts)
  have "tree_at R' m' par (first ts) t"
  proof (rule 4(1))
    show "tree_at R m par (first ts) t" using 4(3) by simp
    show "R' p = R p" if "p \<in> ptrs t" for p using 4(4) [of t p] that by simp
    show "bytes_kept m m' p n" if "(p, n) \<in> set (blocks t)" for p n using 4(5) [of t p n] that by simp
  qed
  moreover have "forest_at R' m' par ts"
  proof (rule 4(2))
    show "forest_at R m par ts" using 4(3) by simp
    show "R' p = R p" if "u \<in> set ts" "p \<in> ptrs u" for u p using 4(4) [of u p] that by simp
    show "bytes_kept m m' p n" if "u \<in> set ts" "(p, n) \<in> set (blocks u)" for u p n using 4(5) [of u p n] that by simp
  qed
  ultimately show ?case by simp
qed simp_all


section \<open>Looking up a child\<close>

lemma forest_names: "forest_at R m par ts \<Longrightarrow> t \<in> set ts \<Longrightarrow> name_ok (rname t) \<and> n_name (R (raddr t)) = rname t \<and> raddr t \<noteq> 0"
proof (induction ts)
  case (Cons x ts)
  then show ?case by (cases t) auto
qed simp

lemma tree_at_next: "tree_at R m par nxt t \<Longrightarrow> n_next (R (raddr t)) = nxt \<and> n_parent (R (raddr t)) = par"
  by (cases t) auto

lemma find_sibling_forest:
  "forest_at R m par ts \<Longrightarrow> 0 \<notin> set nm \<Longrightarrow>
     find_sibling R nm (first ts) = Some (case find (\<lambda>t. rname t = nm) ts of None \<Rightarrow> 0 | Some t \<Rightarrow> raddr t)"
proof (induction ts)
  case Nil
  then show ?case by (simp add: find_sibling.simps)
next
  case (Cons t ts)
  have n: "name_ok (rname t)" "n_name (R (raddr t)) = rname t" "raddr t \<noteq> 0"
    using forest_names [OF Cons.prems(1), of t] by auto
  have "str_eq (rname t) nm \<longleftrightarrow> rname t = nm" using n(1) Cons.prems(2) by (simp add: str_eq_iff name_ok_def)
  then show ?case using n Cons tree_at_next [of R m par "first ts" t]
    by (simp add: find_sibling.simps [of R nm "raddr t"])
qed

text \<open>A directory node with its children, wherever it stands in the tree.\<close>

definition dir_at :: "ramfs \<Rightarrow> u64 \<Rightarrow> rtree list \<Rightarrow> bool" where
  "dir_at fs d ts \<longleftrightarrow> d \<noteq> 0 \<and> n_type (rnodes fs d) = NODE_DIR \<and> n_children (rnodes fs d) = first ts \<and>
     forest_at (rnodes fs) (hmem (r_heap fs)) d ts \<and> distinct (map rname ts) \<and>
     heap_ok (r_heap fs) \<and> all_live (r_heap fs) ((d, 120) # concat (map blocks ts)) \<and>
     distinct (map fst ((d, 120) # concat (map blocks ts)))"

lemma find_child_dir:
  assumes "dir_at fs d ts" and "0 \<notin> set nm"
  shows "ramfs_find_child (rnodes fs) d nm = Some (case find (\<lambda>t. rname t = nm) ts of None \<Rightarrow> 0 | Some t \<Rightarrow> raddr t)"
  using assms find_sibling_forest [of "rnodes fs" "hmem (r_heap fs)" d ts nm]
  by (simp add: dir_at_def ramfs_find_child_def)

text \<open>What an operation on a directory keeps: every other live node, and every live byte.\<close>

definition keeps :: "u64 set \<Rightarrow> ramfs \<Rightarrow> ramfs \<Rightarrow> bool" where
  "keeps D fs fs' \<longleftrightarrow> heap_live (r_heap fs) \<subseteq> heap_live (r_heap fs') \<and>
     r_root fs' = r_root fs \<and> r_cwd fs' = r_cwd fs \<and>
     (\<forall>p. live_ptr (r_heap fs) p \<longrightarrow> p \<notin> D \<longrightarrow> rnodes fs' p = rnodes fs p) \<and>
     (\<forall>(p, n) \<in> heap_live (r_heap fs). bytes_kept (hmem (r_heap fs)) (hmem (r_heap fs')) p n)"

lemma keeps_refl: "keeps D fs fs"
  by (auto simp: keeps_def bytes_kept_def)

lemma keeps_live_ptr: "keeps D fs fs' \<Longrightarrow> live_ptr (r_heap fs) p \<Longrightarrow> live_ptr (r_heap fs') p"
  by (auto simp: keeps_def live_ptr_def)

lemma keeps_node: "keeps D fs fs' \<Longrightarrow> live_ptr (r_heap fs) p \<Longrightarrow> p \<notin> D \<Longrightarrow> rnodes fs' p = rnodes fs p"
  by (simp add: keeps_def)

lemma keeps_trans:
  assumes k: "keeps D fs fs1" "keeps E fs1 fs2" and e: "\<And>p. p \<in> E \<Longrightarrow> live_ptr (r_heap fs) p \<Longrightarrow> p \<in> D"
  shows "keeps D fs fs2"
  unfolding keeps_def
proof (intro conjI ballI allI impI)
  show "heap_live (r_heap fs) \<subseteq> heap_live (r_heap fs2)" "r_root fs2 = r_root fs" "r_cwd fs2 = r_cwd fs"
    using k by (auto simp: keeps_def)
  show "rnodes fs2 p = rnodes fs p" if "live_ptr (r_heap fs) p" "p \<notin> D" for p
    using keeps_node [OF k(1) that] keeps_node [OF k(2) keeps_live_ptr [OF k(1) that(1)]] e [OF _ that(1)] that(2)
    by metis
  show "case b of (p, n) \<Rightarrow> bytes_kept (hmem (r_heap fs)) (hmem (r_heap fs2)) p n"
    if "b \<in> heap_live (r_heap fs)" for b
  proof -
    have "b \<in> heap_live (r_heap fs1)" using that k(1) by (auto simp: keeps_def)
    then show ?thesis using that k by (auto simp: keeps_def intro: bytes_kept_trans)
  qed
qed

lemma keeps_all_live: "keeps D fs fs' \<Longrightarrow> all_live (r_heap fs) bl \<Longrightarrow> all_live (r_heap fs') bl"
  by (fastforce simp: keeps_def all_live_def)

lemma keeps_bytes: "keeps D fs fs' \<Longrightarrow> all_live (r_heap fs) bl \<Longrightarrow> (p, n) \<in> set bl \<Longrightarrow>
    bytes_kept (hmem (r_heap fs)) (hmem (r_heap fs')) p n"
  by (fastforce simp: keeps_def all_live_def bytes_kept_def)

lemma keeps_forest:
  assumes k: "keeps D fs fs'" and l: "all_live (r_heap fs) (concat (map blocks ts))"
    and f: "forest_at (rnodes fs) (hmem (r_heap fs)) par ts" and d: "\<And>t. t \<in> set ts \<Longrightarrow> D \<inter> ptrs t = {}"
  shows "forest_at (rnodes fs') (hmem (r_heap fs')) par ts"
proof (rule tree_at_frame(2) [OF f])
  show "bytes_kept (hmem (r_heap fs)) (hmem (r_heap fs')) p n" if "t \<in> set ts" "(p, n) \<in> set (blocks t)" for t p n
    using keeps_bytes [OF k l, of p n] that by auto
  show "rnodes fs' p = rnodes fs p" if "t \<in> set ts" "p \<in> ptrs t" for t p
  proof -
    have "p \<in> fst ` set (concat (map blocks ts))" using that by (auto simp: ptrs_def)
    then have "live_ptr (r_heap fs) p" by (rule all_live_ptr [OF l])
    moreover have "p \<notin> D" using d [OF that(1)] that(2) by blast
    ultimately show ?thesis by (rule keeps_node [OF k])
  qed
qed


section \<open>Creating nodes\<close>

definition new_node :: "node_type \<Rightarrow> u8 list \<Rightarrow> u64 \<Rightarrow> u64 \<Rightarrow> rnode" where
  "new_node ty nm par nxt = \<lparr>n_name = nm, n_type = ty, n_data = 0, n_size = 0, n_capacity = 0,
     n_parent = par, n_children = 0, n_next = nxt\<rparr>"

lemma upd_node_simps [simp]:
  "rnodes (upd_node p f fs) = (rnodes fs)(p := f (rnodes fs p))" "r_heap (upd_node p f fs) = r_heap fs"
  "r_root (upd_node p f fs) = r_root fs" "r_cwd (upd_node p f fs) = r_cwd fs"
  by (simp_all add: upd_node_def)

lemma node_alloc_spec:
  assumes ok: "heap_ok (r_heap fs)" and nm: "name_ok nm"
  shows "\<exists>n fs'. node_alloc ty nm par fs = Some (n, fs') \<and> heap_ok (r_heap fs') \<and> (n = 0 \<longrightarrow> fs' = fs) \<and>
    (n \<noteq> 0 \<longrightarrow> \<not> live_ptr (r_heap fs) n \<and> (\<exists>m. 120 \<le> m \<and> heap_live (r_heap fs') = insert (n, m) (heap_live (r_heap fs))) \<and>
       keeps {} fs fs' \<and> rnodes fs' = (rnodes fs)(n := new_node ty nm par 0)) \<and>
    (\<forall>N. room (r_heap fs) (alloc_cost NODE_SIZE + N) \<longrightarrow> n \<noteq> 0 \<and> room (r_heap fs') N)"
proof -
  obtain n h where k: "kzalloc NODE_SIZE (r_heap fs) = Some (n, h)" "heap_ok h" "n = 0 \<longrightarrow> h = r_heap fs"
    and kn: "n \<noteq> 0 \<longrightarrow> (\<exists>m. unat NODE_SIZE \<le> m \<and> n \<notin> fst ` heap_live (r_heap fs) \<and>
       heap_live h = insert (n, m) (heap_live (r_heap fs)) \<and>
       (\<forall>(q, k) \<in> heap_live (r_heap fs). bytes_kept (hmem (r_heap fs)) (hmem h) q k))"
    and kr: "\<forall>N. NODE_SIZE \<noteq> 0 \<longrightarrow> room (r_heap fs) (alloc_cost NODE_SIZE + N) \<longrightarrow> n \<noteq> 0 \<and> room h N"
    using kzalloc_spec [OF ok, of NODE_SIZE] by (auto simp: NODE_SIZE_def)
  have nz: "NODE_SIZE \<noteq> 0" by (simp add: NODE_SIZE_def)
  show ?thesis
  proof (cases "n = 0")
    case True
    then have "node_alloc ty nm par fs = Some (0, fs)" using k by (simp add: node_alloc_def Let_def)
    then show ?thesis using True k kr nz ok by auto
  next
    case False
    then obtain m where m: "120 \<le> m" "n \<notin> fst ` heap_live (r_heap fs)" "heap_live h = insert (n, m) (heap_live (r_heap fs))"
       "\<forall>(q, k) \<in> heap_live (r_heap fs). bytes_kept (hmem (r_heap fs)) (hmem h) q k"
      using kn by (auto simp: NODE_SIZE_def)
    let ?fs = "upd_node n (\<lambda>_. new_node ty nm par 0) (fs\<lparr>r_heap := h\<rparr>)"
    have a: "node_alloc ty nm par fs = Some (n, ?fs)"
      using k False by (simp add: node_alloc_def Let_def str_copy_name [OF nm] new_node_def)
    have new: "\<not> live_ptr (r_heap fs) n" using m(2) by (force simp: live_ptr_def)
    have "keeps {} fs ?fs" unfolding keeps_def using m(3,4) new by auto
    then show ?thesis using a new k(2) kr nz m(1,3) False
      by (intro exI [of _ n] exI [of _ ?fs]) auto
  qed
qed

lemma link_child_simps [simp]:
  "r_heap (link_child d n fs) = r_heap fs" "r_root (link_child d n fs) = r_root fs" "r_cwd (link_child d n fs) = r_cwd fs"
  by (simp_all add: link_child_def)

lemma link_child_node:
  "n \<noteq> d \<Longrightarrow> rnodes (link_child d n fs) = (rnodes fs)(n := (rnodes fs n)\<lparr>n_next := n_children (rnodes fs d)\<rparr>,
     d := (rnodes fs d)\<lparr>n_children := n\<rparr>)"
  by (simp add: link_child_def)

fun empty_node :: "node_type \<Rightarrow> u64 \<Rightarrow> u8 list \<Rightarrow> rtree" where
  "empty_node NODE_FILE n nm = RFile n nm 0 0 []"
| "empty_node NODE_DIR n nm = RDir n nm []"

lemma empty_node_simps [simp]: "raddr (empty_node ty n nm) = n" "rname (empty_node ty n nm) = nm"
  "blocks (empty_node ty n nm) = [(n, 120)]" "ptrs (empty_node ty n nm) = {n}"
  by (cases ty; simp)+

lemma empty_node_at:
  "n \<noteq> 0 \<Longrightarrow> name_ok nm \<Longrightarrow> R n = new_node ty nm par nxt \<Longrightarrow> tree_at R m par nxt (empty_node ty n nm)"
  by (cases ty) (simp_all add: new_node_def rd_bytes_def)

lemma dir_at_ptrs:
  assumes "dir_at fs d ts"
  shows "live_ptr (r_heap fs) d" and "t \<in> set ts \<Longrightarrow> p \<in> ptrs t \<Longrightarrow> live_ptr (r_heap fs) p"
    and "t \<in> set ts \<Longrightarrow> d \<notin> ptrs t"
proof -
  have l: "all_live (r_heap fs) ((d, 120) # concat (map blocks ts))" using assms by (simp add: dir_at_def)
  show "live_ptr (r_heap fs) d" by (rule all_live_ptr [OF l]) simp
  show "live_ptr (r_heap fs) p" if "t \<in> set ts" "p \<in> ptrs t"
    using that by (intro all_live_ptr [OF l]) (auto simp: ptrs_def)
  show "d \<notin> ptrs t" if "t \<in> set ts" using that assms by (auto simp: dir_at_def ptrs_def)
qed

text \<open>Creating a node in a directory puts it in front of the children.\<close>

lemma create_node_spec:
  assumes dir: "dir_at fs d ts" and nm: "name_ok nm" "nm \<notin> rname ` set ts"
  shows "\<exists>n fs'. create_node ty d nm fs = Some (n, fs') \<and> (n = 0 \<longrightarrow> fs' = fs) \<and>
    (n \<noteq> 0 \<longrightarrow> dir_at fs' d (empty_node ty n nm # ts) \<and> keeps {d} fs fs' \<and> \<not> live_ptr (r_heap fs) n \<and>
       rnodes fs' d = (rnodes fs d)\<lparr>n_children := n\<rparr>) \<and>
    (\<forall>N. room (r_heap fs) (alloc_cost NODE_SIZE + N) \<longrightarrow> n \<noteq> 0 \<and> room (r_heap fs') N)"
proof -
  have d: "d \<noteq> 0" "n_type (rnodes fs d) = NODE_DIR" "heap_ok (r_heap fs)" "n_children (rnodes fs d) = first ts"
    and l: "all_live (r_heap fs) (concat (map blocks ts))"
    and f: "forest_at (rnodes fs) (hmem (r_heap fs)) d ts" using dir by (auto simp: dir_at_def)
  have none: "find (\<lambda>t. rname t = nm) ts = None" using nm(2) by (auto simp: find_None_iff)
  have fc: "ramfs_find_child (rnodes fs) d nm = Some 0"
    using find_child_dir [OF dir, of nm] nm(1) none by (simp add: name_ok_def)
  obtain n fs1 where a: "node_alloc ty nm d fs = Some (n, fs1)" "heap_ok (r_heap fs1)" "n = 0 \<longrightarrow> fs1 = fs"
    and an: "n \<noteq> 0 \<longrightarrow> \<not> live_ptr (r_heap fs) n \<and> (\<exists>m. 120 \<le> m \<and> heap_live (r_heap fs1) = insert (n, m) (heap_live (r_heap fs))) \<and>
       keeps {} fs fs1 \<and> rnodes fs1 = (rnodes fs)(n := new_node ty nm d 0)"
    and ar: "\<forall>N. room (r_heap fs) (alloc_cost NODE_SIZE + N) \<longrightarrow> n \<noteq> 0 \<and> room (r_heap fs1) N"
    using node_alloc_spec [OF d(3) nm(1), of ty d] by blast
  show ?thesis
  proof (cases "n = 0")
    case True
    then have "create_node ty d nm fs = Some (0, fs)" using d fc a by (simp add: create_node_def)
    then show ?thesis using True a ar by auto
  next
    case False
    let ?fs = "link_child d n fs1" and ?t = "empty_node ty n nm"
    obtain m where m: "120 \<le> m" "heap_live (r_heap fs1) = insert (n, m) (heap_live (r_heap fs))"
      and new: "\<not> live_ptr (r_heap fs) n" and k: "keeps {} fs fs1" and R: "rnodes fs1 = (rnodes fs)(n := new_node ty nm d 0)"
      using an False by blast
    have c: "create_node ty d nm fs = Some (n, ?fs)" using d fc a False by (simp add: create_node_def)
    have nd: "n \<noteq> d" using new dir_at_ptrs(1) [OF dir] by auto
    have R': "rnodes ?fs = (rnodes fs)(n := new_node ty nm d (first ts), d := (rnodes fs d)\<lparr>n_children := n\<rparr>)"
      using nd d(4) by (simp add: link_child_node R new_node_def)
    have k': "keeps {d} fs ?fs"
      using k new R' unfolding keeps_def by auto
    have nts: "n \<notin> ptrs t" if "t \<in> set ts" for t using dir_at_ptrs(2) [OF dir that] new by blast
    have "forest_at (rnodes ?fs) (hmem (r_heap ?fs)) d ts"
      by (rule keeps_forest [OF k' l f]) (use dir_at_ptrs(3) [OF dir] in simp)
    moreover have "tree_at (rnodes ?fs) (hmem (r_heap ?fs)) d (first ts) ?t"
      using False nm(1) nd R' by (intro empty_node_at) simp_all
    moreover have "all_live (r_heap ?fs) ((d, 120) # concat (map blocks ts))"
      using dir by (intro keeps_all_live [OF k']) (simp add: dir_at_def)
    moreover have "distinct (map fst ((d, 120) # concat (map blocks (?t # ts))))"
      using dir nts nd by (auto simp: dir_at_def ptrs_def)
    ultimately have "dir_at ?fs d (?t # ts)"
      using d nm(2) dir m nd a(2) R' unfolding dir_at_def by auto
    then show ?thesis using c False k' new R' ar by (intro exI [of _ n] exI [of _ ?fs]) simp
  qed
qed

lemma create_node_exists:
  assumes "dir_at fs d ts" and "t \<in> set ts"
  shows "create_node ty d (rname t) fs = Some (0, fs)"
proof -
  have f: "forest_at (rnodes fs) (hmem (r_heap fs)) d ts" and d: "d \<noteq> 0" "n_type (rnodes fs d) = NODE_DIR"
    using assms(1) by (auto simp: dir_at_def)
  have z: "0 \<notin> set (rname t)" using forest_names [OF f assms(2)] by (simp add: name_ok_def)
  obtain u where u: "find (\<lambda>x. rname x = rname t) ts = Some u"
    using assms(2) by (metis (mono_tags) find_None_iff2 not_None_eq)
  then have "u \<in> set ts" by (auto simp: find_Some_iff)
  then have "raddr u \<noteq> 0" using forest_names [OF f] by blast
  then show ?thesis using find_child_dir [OF assms(1) z] u d by (simp add: create_node_def)
qed


section \<open>Writing files\<close>

lemma grow_cap_returns:
  assumes "c \<noteq> 0" and "unat need \<le> 2 ^ 63"
  shows "\<exists>c'. grow_cap need c = Some c' \<and> need \<le> c' \<and> c \<le> c' \<and> (c' = c \<or> unat c' < 2 * unat need)"
  using assms
proof (induction "unat need - unat c" arbitrary: c rule: less_induct)
  case less
  show ?case
  proof (cases "c < need")
    case True
    have c2: "unat (c * 2) = unat c * 2"
      using True less.prems by (simp add: unat_mult_small word_less_nat_alt)
    have "0 < unat c" using less.prems(1) by (rule word_ne_0_pos)
    then have "\<exists>c'. grow_cap need (c * 2) = Some c' \<and> need \<le> c' \<and> c * 2 \<le> c' \<and> (c' = c * 2 \<or> unat c' < 2 * unat need)"
    proof (intro less.hyps)
      show "unat need - unat (c * 2) < unat need - unat c" using c2 True \<open>0 < unat c\<close> by (simp add: word_less_nat_alt)
      show "c * 2 \<noteq> 0" using c2 \<open>0 < unat c\<close> by (auto simp flip: unat_eq_0)
    qed (rule less.prems(2))
    then show ?thesis using True c2 \<open>0 < unat c\<close>
      by (auto simp: grow_cap.simps [of need c] word_le_nat_alt word_less_nat_alt)
  next
    case False
    then show ?thesis by (auto simp: grow_cap.simps [of need c])
  qed
qed

lemma copy_bytes_apply:
  assumes "\<And>i. i < n \<Longrightarrow> \<not> unat (s + of_nat i - d) < n" and "n < 2 ^ 64"
  shows "copy_bytes d s n m x = (if unat (x - d) < n then m (s + (x - d)) else m x)"
proof -
  have "k \<le> n \<Longrightarrow> copy_bytes d s k m x = (if unat (x - d) < k then m (s + (x - d)) else m x)" for k x
  proof (induction k arbitrary: x)
    case 0
    then show ?case by (simp add: copy_bytes_def)
  next
    case (Suc k)
    have step: "copy_bytes d s (Suc k) m = (copy_bytes d s k m)(d + of_nat k := copy_bytes d s k m (s + of_nat k))"
      by (simp add: copy_bytes_def)
    have "\<not> unat (s + of_nat k - d) < k" using assms(1) [of k] Suc.prems by simp
    then have "copy_bytes d s k m (s + of_nat k) = m (s + of_nat k)" using Suc by simp
    moreover have "x = d + of_nat k \<longleftrightarrow> unat (x - d) = k"
    proof
      show "unat (x - d) = k" if "x = d + of_nat k" using that Suc.prems assms(2) by (simp add: unat_of_nat_64)
      show "x = d + of_nat k" if "unat (x - d) = k"
      proof -
        have "x - d = of_nat k" using that Suc.prems assms(2) by (intro unat_eqI) (simp add: unat_of_nat_64)
        then show ?thesis by (simp add: algebra_simps)
      qed
    qed
    ultimately show ?case using Suc by (auto simp: step)
  qed
  from this [OF order_refl] show ?thesis .
qed

definition keeps_except :: "u64 set \<Rightarrow> ramfs \<Rightarrow> ramfs \<Rightarrow> bool" where
  "keeps_except P fs fs' \<longleftrightarrow> r_root fs' = r_root fs \<and> r_cwd fs' = r_cwd fs \<and>
     (\<forall>q m. (q, m) \<in> heap_live (r_heap fs) \<longrightarrow> q \<notin> P \<longrightarrow> (q, m) \<in> heap_live (r_heap fs') \<and>
        rnodes fs' q = rnodes fs q \<and> bytes_kept (hmem (r_heap fs)) (hmem (r_heap fs')) q m)"

lemma heap_need_upper: "unat sz + 47 < 2 ^ 64 \<Longrightarrow> unat (heap_need sz) \<le> unat sz + 48"
proof -
  assume a: "unat sz + 47 < 2 ^ 64"
  then have "unat (sz + 32) = unat sz + 32" by (simp add: unat_plus_small)
  then have "unat (ALIGN16 (sz + HEADER_SIZE)) = (unat sz + 47) div 16 * 16"
    using a by (simp add: unat_ALIGN16 HEADER_SIZE_def)
  then show ?thesis by (auto simp: heap_need_def Let_def HEADER_SIZE_def word_less_nat_alt)
qed

definition grow_cost :: "nat \<Rightarrow> nat" where
  "grow_cost need = (if need = 0 then 0 else 2 * need + 64 + 48 + 96)"


text \<open>A file node with its buffer.\<close>

definition file_at :: "ramfs \<Rightarrow> u64 \<Rightarrow> u64 \<Rightarrow> u64 \<Rightarrow> u8 list \<Rightarrow> bool" where
  "file_at fs f d c bs \<longleftrightarrow> f \<noteq> 0 \<and> f \<noteq> d \<and> (\<exists>m. 120 \<le> m \<and> (f, m) \<in> heap_live (r_heap fs)) \<and> heap_ok (r_heap fs) \<and> n_type (rnodes fs f) = NODE_FILE \<and>
     n_data (rnodes fs f) = d \<and> n_size (rnodes fs f) = of_nat (length bs) \<and> n_capacity (rnodes fs f) = c \<and>
     length bs \<le> unat c \<and> (d = 0 \<longleftrightarrow> c = 0) \<and> rd_bytes (hmem (r_heap fs)) d (length bs) = bs \<and>
     (d \<noteq> 0 \<longrightarrow> (\<exists>m. unat c \<le> m \<and> (d, m) \<in> heap_live (r_heap fs)))"

lemma copy_to_fresh:
  assumes "ranges_apart (p, n) (d, k)" and "unat p + n < 2 ^ 64" and "unat d + k < 2 ^ 64" and "l \<le> n" "l \<le> k"
  shows "copy_bytes p d l m = wr_bytes m p (rd_bytes m d l)"
proof
  fix x
  have l: "l < 2 ^ 64" using assms(2,4) by simp
  have "\<not> unat (d + of_nat i - p) < l" if "i < l" for i
  proof -
    have "unat (d + of_nat i) = unat d + i" using that assms(3,5) by (simp add: unat_plus_small unat_of_nat_64)
    then show ?thesis using that assms unfolding ranges_apart_def
      by (simp only: unat_sub_if' fst_conv snd_conv) auto
  qed
  then have "copy_bytes p d l m x = (if unat (x - p) < l then m (d + (x - p)) else m x)"
    using l by (rule copy_bytes_apply)
  also have "\<dots> = wr_bytes m p (rd_bytes m d l) x"
    using l by (simp add: wr_bytes_apply)
  finally show "copy_bytes p d l m x = wr_bytes m p (rd_bytes m d l) x" .
qed

text \<open>The buffer that replaces a full one holds the same bytes.\<close>

lemma replace_buffer:
  assumes f: "file_at fs f d c bs" and cap: "c < cap" "unat cap + 47 < 2 ^ 64"
    and k: "kmalloc cap (r_heap fs) = Some (p, h)" "p \<noteq> 0"
  shows "\<exists>h' m. (if d \<noteq> 0 then kfree d (h\<lparr>hmem := copy_bytes p d (length bs) (hmem h)\<rparr>) else Some h) = Some h' \<and>
     heap_ok h' \<and> unat cap \<le> m \<and> (p, m) \<in> heap_live h' \<and> \<not> live_ptr (r_heap fs) p \<and>
     rd_bytes (hmem h') p (length bs) = bs \<and>
     (\<forall>q n. (q, n) \<in> heap_live (r_heap fs) \<longrightarrow> q \<noteq> d \<longrightarrow>
        (q, n) \<in> heap_live h' \<and> bytes_kept (hmem (r_heap fs)) (hmem h') q n)"
proof -
  let ?h = "r_heap fs"
  have ok: "heap_ok ?h" and len: "length bs \<le> unat c" and d0: "d = 0 \<longleftrightarrow> c = 0"
    and rd: "rd_bytes (hmem ?h) d (length bs) = bs" using f by (auto simp: file_at_def)
  obtain m where m: "unat cap \<le> m" "p \<notin> fst ` heap_live ?h" "heap_live h = insert (p, m) (heap_live ?h)"
    and hok: "heap_ok h" and hm: "hmem h = hmem ?h"
    using kmalloc_live [OF ok, of cap] k cap(2) by auto
  have new: "\<not> live_ptr ?h p" using m(2) by (force simp: live_ptr_def)
  have ap: "ranges_apart (p, unat cap) b" if "b \<in> heap_live ?h" for b
    by (rule kh.alloc_apart [OF ok k cap(2) that])
  have pb: "unat p + unat cap < 2 ^ 64" using live_bound(1) [OF hok, of p m] m(1,3) by simp
  have lc: "length bs \<le> unat cap" using len cap(1) by (simp add: word_less_nat_alt)
  show ?thesis
  proof (cases "d = 0")
    case True
    then have "bs = []" using d0 len by auto
    then show ?thesis using True m hok hm new by (intro exI [of _ h] exI [of _ m]) (auto simp: rd_bytes_def)
  next
    case False
    then obtain k where kd: "unat c \<le> k" "(d, k) \<in> heap_live ?h" using f by (auto simp: file_at_def)
    note db = live_bound(1) [OF ok kd(2)]
    have cp: "copy_bytes p d (length bs) (hmem h) = wr_bytes (hmem ?h) p bs"
      using copy_to_fresh [OF ap [OF kd(2)] pb db lc, of "hmem ?h"] len kd(1) rd hm by simp
    let ?h1 = "h\<lparr>hmem := wr_bytes (hmem ?h) p bs\<rparr>"
    obtain h' where h': "kfree d ?h1 = Some h'" "heap_ok h'" "hmem h' = hmem ?h1" "heap_live h' = heap_live ?h1 - {(d, k)}"
      using kfree_live [of ?h1 d k] hok m(3) kd(2) by auto
    have "p \<noteq> d" using new kd(2) by (auto simp: live_ptr_def)
    then have "(p, m) \<in> heap_live h'" using h'(4) m(3) by simp
    moreover have "rd_bytes (hmem h') p (length bs) = bs"
      using h'(3) lc pb by (simp add: rd_wr_bytes_same)
    moreover have "(q, n) \<in> heap_live h' \<and> bytes_kept (hmem ?h) (hmem h') q n"
      if "(q, n) \<in> heap_live ?h" "q \<noteq> d" for q n
      using h'(3,4) m(3) that wr_bytes_apart [OF ap [OF that(1)] live_bound(1) [OF ok that(1)] pb, of 0 bs] lc by simp
    ultimately show ?thesis using False h' cp m(1) new by (intro exI [of _ h'] exI [of _ m]) simp
  qed
qed


lemma grow_file_spec:
  assumes f: "file_at fs f d c bs" and need: "unat need \<le> 2 ^ 62"
  shows "\<exists>ok fs'. grow_file f need fs = Some (ok, fs') \<and> (\<not> ok \<longrightarrow> fs' = fs) \<and>
    (ok \<longrightarrow> (\<exists>p c'. file_at fs' f p c' bs \<and> need \<le> c' \<and> keeps_except {f, d} fs fs' \<and> (p = d \<or> \<not> live_ptr (r_heap fs) p) \<and>
       rnodes fs' = (rnodes fs)(f := (rnodes fs f)\<lparr>n_data := p, n_capacity := c'\<rparr>))) \<and>
    (\<forall>N. c = 0 \<longrightarrow> room (r_heap fs) (grow_cost (unat need) + N) \<longrightarrow> ok \<and> room (r_heap fs') N)"
proof (cases "c < need")
  case False
  then have "grow_file f need fs = Some (True, fs)" using f by (simp add: grow_file_def file_at_def Let_def)
  moreover have "keeps_except {f, d} fs fs" by (simp add: keeps_except_def)
  moreover have "room (r_heap fs) N" if "c = 0" "room (r_heap fs) (grow_cost (unat need) + N)" for N
    using that(2) by (rule room_mono) simp
  moreover have "rnodes fs = (rnodes fs)(f := (rnodes fs f)\<lparr>n_data := d, n_capacity := c\<rparr>)"
    using f by (simp add: file_at_def fun_upd_idem)
  ultimately show ?thesis using f False by (metis not_le_imp_less)
next
  case True
  let ?c0 = "if c \<noteq> 0 then c else 64"
  have ok: "heap_ok (r_heap fs)" and fc: "n_capacity (rnodes fs f) = c" "n_data (rnodes fs f) = d"
    "n_size (rnodes fs f) = of_nat (length bs)" "length bs \<le> unat c" using f by (auto simp: file_at_def)
  have c0: "?c0 \<noteq> 0" by simp
  obtain cap where cap: "grow_cap need ?c0 = Some cap" "need \<le> cap" "cap = ?c0 \<or> unat cap < 2 * unat need"
    using grow_cap_returns [of ?c0 need] need c0 by auto
  have cc: "c < cap" using True cap(2) by simp
  have ub: "unat cap \<le> 2 * unat need + 64"
    using cap(3) True by (auto simp: word_less_nat_alt split: if_splits)
  then have small: "unat cap + 47 < 2 ^ 64" using need by simp
  have "length bs < 18446744073709551616" using fc(4) unat_lt_64 [of c] by linarith
  then have sz: "unat (n_size (rnodes fs f)) = length bs" using fc(3) by (simp add: unat_of_nat_64)
  obtain p h where k: "kmalloc cap (r_heap fs) = Some (p, h)" "p = 0 \<longrightarrow> h = r_heap fs"
    using kmalloc_live [OF ok, of cap] by blast
  have rm: "p \<noteq> 0 \<and> room h N" if "room (r_heap fs) (grow_cost (unat need) + N)" for N
  proof (rule kmalloc_room [OF _ _ k(1)])
    have "need \<noteq> 0" using True by auto
    then have "alloc_cost cap \<le> grow_cost (unat need)"
      using heap_need_upper [OF small] ub by (simp add: alloc_cost_def grow_cost_def)
    then show "room (r_heap fs) (alloc_cost cap + N)" by (intro room_mono [OF that]) simp
    show "cap \<noteq> 0" using cc by auto
  qed
  show ?thesis
  proof (cases "p = 0")
    case p0: True
    then have "grow_file f need fs = Some (False, fs)"
      using True k cap(1) unfolding grow_file_def Let_def fc(1,2) by (simp split del: if_split)
    then show ?thesis using rm p0 by blast
  next
    case False
    obtain h' m where h': "(if d \<noteq> 0 then kfree d (h\<lparr>hmem := copy_bytes p d (length bs) (hmem h)\<rparr>) else Some h) = Some h'"
      "heap_ok h'" "unat cap \<le> m" "(p, m) \<in> heap_live h'" "\<not> live_ptr (r_heap fs) p" "rd_bytes (hmem h') p (length bs) = bs"
      and keep: "\<And>q n. (q, n) \<in> heap_live (r_heap fs) \<Longrightarrow> q \<noteq> d \<Longrightarrow>
        (q, n) \<in> heap_live h' \<and> bytes_kept (hmem (r_heap fs)) (hmem h') q n"
      using replace_buffer [OF f cc small k(1) False] by blast
    let ?fs = "upd_node f (\<lambda>n. n\<lparr>n_data := p, n_capacity := cap\<rparr>) (fs\<lparr>r_heap := h'\<rparr>)"
    have g: "grow_file f need fs = Some (True, ?fs)"
      using True k(1) cap(1) False h'(1) unfolding grow_file_def Let_def fc(1,2) sz by (simp split del: if_split)
    obtain n where n: "(f, n) \<in> heap_live (r_heap fs)" "f \<noteq> d" "120 \<le> n" using f by (auto simp: file_at_def)
    have "\<exists>m. 120 \<le> m \<and> (f, m) \<in> heap_live h'" using keep [OF n(1,2)] n(3) by blast
    moreover have "f \<noteq> p" using h'(5) n(1) by (auto simp: live_ptr_def)
    ultimately have "file_at ?fs f p cap bs"
      using f False h' cc fc(4) by (auto simp: file_at_def word_less_nat_alt)
    moreover have "keeps_except {f, d} fs ?fs" using keep by (simp add: keeps_except_def)
    moreover have "room (r_heap ?fs) N" if "c = 0" "room (r_heap fs) (grow_cost (unat need) + N)" for N
    proof -
      have "d = 0" using that(1) f by (simp add: file_at_def)
      then show ?thesis using h'(1) rm [OF that(2)] by simp
    qed
    ultimately show ?thesis using g cap(2) h'(5)
      by (intro exI [of _ True] exI [of _ ?fs] conjI impI allI exI [of _ p] exI [of _ cap]) simp_all
  qed
qed

text \<open>The contents of a file after a write: the new bytes in place, the old ones elsewhere.\<close>

definition written :: "u8 list \<Rightarrow> nat \<Rightarrow> u8 list \<Rightarrow> u8 list \<Rightarrow> bool" where
  "written bs off src bs' \<longleftrightarrow> length bs' = max (length bs) (off + length src) \<and>
     (\<forall>i < length src. bs' ! (off + i) = src ! i) \<and>
     (\<forall>i < length bs. i < off \<or> off + length src \<le> i \<longrightarrow> bs' ! i = bs ! i)"

lemma written_wr:
  assumes rd: "rd_bytes m p (length bs) = bs" and n: "off + length src < 2 ^ 64" and bs: "length bs < 2 ^ 64"
  shows "written bs off src (rd_bytes (wr_bytes m (p + of_nat off) src) p (max (length bs) (off + length src)))"
  unfolding written_def
proof (intro conjI allI impI)
  let ?m = "wr_bytes m (p + of_nat off) src" and ?l = "max (length bs) (off + length src)"
  have at: "?m (p + of_nat j) = (if off \<le> j \<and> j < off + length src then src ! (j - off) else m (p + of_nat j))"
    if "j < 2 ^ 64" for j
  proof -
    have e: "p + of_nat j - (p + of_nat off) = (of_nat j - of_nat off :: u64)" by simp
    have "unat (of_nat j - of_nat off :: u64) = (if off \<le> j then j - off else j + 2 ^ 64 - off)"
      using that n by (simp add: unat_sub_if' unat_of_nat_64)
    then have "unat (p + of_nat j - (p + of_nat off)) = (if off \<le> j then j - off else j + 2 ^ 64 - off)"
      unfolding e .
    moreover have "length src < 2 ^ 64" using n by simp
    ultimately show ?thesis using n by (subst wr_bytes_apply) auto
  qed
  show "length (rd_bytes ?m p ?l) = ?l" by simp
  show "rd_bytes ?m p ?l ! (off + i) = src ! i" if "i < length src" for i
    using at [of "off + i"] that n by simp
  show "rd_bytes ?m p ?l ! i = bs ! i" if "i < length bs" "i < off \<or> off + length src \<le> i" for i
  proof -
    have "rd_bytes ?m p ?l ! i = m (p + of_nat i)" using at [of i] that bs by auto
    also have "\<dots> = rd_bytes m p (length bs) ! i" using that(1) by simp
    finally show ?thesis using rd by simp
  qed
qed


lemma keeps_except_trans:
  assumes "keeps_except P fs fs1" and "keeps_except Q fs1 fs2" and "\<And>q. q \<in> Q \<Longrightarrow> live_ptr (r_heap fs) q \<Longrightarrow> q \<in> P"
  shows "keeps_except P fs fs2"
proof -
  have "(q, m) \<in> heap_live (r_heap fs2) \<and> rnodes fs2 q = rnodes fs q \<and>
      bytes_kept (hmem (r_heap fs)) (hmem (r_heap fs2)) q m"
    if "(q, m) \<in> heap_live (r_heap fs)" "q \<notin> P" for q m
  proof -
    have "q \<notin> Q" using assms(3) [of q] that by (auto simp: live_ptr_def)
    have 1: "(q, m) \<in> heap_live (r_heap fs1)" "rnodes fs1 q = rnodes fs q" "bytes_kept (hmem (r_heap fs)) (hmem (r_heap fs1)) q m"
      using assms(1) that by (simp_all add: keeps_except_def)
    have "(q, m) \<in> heap_live (r_heap fs2)" "rnodes fs2 q = rnodes fs1 q" "bytes_kept (hmem (r_heap fs1)) (hmem (r_heap fs2)) q m"
      using assms(2) 1(1) \<open>q \<notin> Q\<close> by (simp_all add: keeps_except_def)
    then show ?thesis using 1(2,3) by (auto intro: bytes_kept_trans)
  qed
  then show ?thesis using assms(1,2) by (simp add: keeps_except_def)
qed

lemma file_at_write:
  assumes f: "file_at fs f d c bs" and n: "off + length src \<le> unat c" and u: "unat o64 = off"
    and fs': "fs' = upd_node f (\<lambda>n. n\<lparr>n_size := of_nat (max (length bs) (off + length src))\<rparr>)
       (fs\<lparr>r_heap := (r_heap fs)\<lparr>hmem := wr_bytes (hmem (r_heap fs)) (d + o64) src\<rparr>\<rparr>)"
  shows "(\<exists>bs'. file_at fs' f d c bs' \<and> written bs off src bs') \<and> keeps_except {f, d} fs fs'"
proof (intro conjI)
  let ?l = "max (length bs) (off + length src)"
  let ?bs = "rd_bytes (wr_bytes (hmem (r_heap fs)) (d + of_nat off) src) d ?l"
  have o: "o64 = of_nat off" using u by (intro unat_eqI) (simp add: unat_of_nat_64 flip: u)
  have c: "unat c < 2 ^ 64" by simp
  have fa: "length bs \<le> unat c" "rd_bytes (hmem (r_heap fs)) d (length bs) = bs" "heap_ok (r_heap fs)"
    using f by (auto simp: file_at_def)
  have "written bs off src ?bs" using fa n c by (intro written_wr) linarith+
  moreover have "file_at fs' f d c ?bs" using f n fa(1) by (auto simp: fs' file_at_def o live_ptr_def)
  ultimately show "\<exists>bs'. file_at fs' f d c bs' \<and> written bs off src bs'" by blast
  have "bytes_kept (hmem (r_heap fs)) (wr_bytes (hmem (r_heap fs)) (d + o64) src) q m"
    if q: "(q, m) \<in> heap_live (r_heap fs)" "q \<noteq> d" for q m
  proof (cases "d = 0")
    case True
    then have "src = []" using n f by (auto simp: file_at_def)
    then show ?thesis by simp
  next
    case False
    then obtain k where k: "unat c \<le> k" "(d, k) \<in> heap_live (r_heap fs)" using f by (auto simp: file_at_def)
    have "ranges_apart (d, k) (q, m)" using heap_live_apart [OF fa(3) k(2) q(1)] q(2) by simp
    then show ?thesis
      using n k u by (intro wr_bytes_apart [OF _ live_bound(1) [OF fa(3) q(1)] live_bound(1) [OF fa(3) k(2)]]) simp_all
  qed
  then show "keeps_except {f, d} fs fs'" by (auto simp: keeps_except_def fs')
qed

text \<open>\<open>ramfs_write\<close> in full.\<close>

definition write_done :: "ramfs \<Rightarrow> u64 \<Rightarrow> u64 \<Rightarrow> u8 list \<Rightarrow> nat \<Rightarrow> u8 list \<Rightarrow> ramfs \<Rightarrow> bool" where
  "write_done fs f d bs off src fs' \<longleftrightarrow> keeps_except {f, d} fs fs' \<and>
     (\<exists>p c' bs'. file_at fs' f p c' bs' \<and> written bs off src bs' \<and> (p = d \<or> \<not> live_ptr (r_heap fs) p) \<and>
        rnodes fs' = (rnodes fs)(f := (rnodes fs f)\<lparr>n_data := p, n_capacity := c', n_size := of_nat (length bs')\<rparr>))"

lemma upd_node_if: "(if b then upd_node f g fs else fs) = upd_node f (\<lambda>n. if b then g n else n) fs"
  by (simp add: upd_node_def)

lemma upd_node_cong: "g (rnodes fs f) = g' (rnodes fs f) \<Longrightarrow> upd_node f g fs = upd_node f g' fs"
  by (simp add: upd_node_def)

lemma size_after:
  assumes "n_size nd = of_nat l" and "l < 2 ^ 64" and "unat need = k"
  shows "(if n_size nd < need then nd\<lparr>n_size := need\<rparr> else nd) = nd\<lparr>n_size := of_nat (max l k)\<rparr>"
proof -
  have "need = of_nat k" using assms(3) by (intro unat_eqI) (simp add: unat_of_nat_64 flip: assms(3))
  then show ?thesis using assms(1,2) unat_lt_64 [of need] unfolding assms(3)
    by (auto simp: word_less_nat_alt unat_of_nat_64 max_def)
qed

lemma ramfs_write_spec:
  assumes f: "file_at fs f d c bs" and n: "unat off + length src \<le> 2 ^ 62"
  shows "\<exists>r fs'. ramfs_write f src off fs = Some (r, fs') \<and>
    (r = - 1 \<and> fs' = fs \<or> r = c_int (of_nat (length src)) \<and> write_done fs f d bs (unat off) src fs') \<and>
    (\<forall>N. c = 0 \<longrightarrow> room (r_heap fs) (grow_cost (unat off + length src) + N) \<longrightarrow>
       write_done fs f d bs (unat off) src fs' \<and> room (r_heap fs') N)"
proof -
  let ?need = "off + of_nat (length src)"
  have need: "unat ?need = unat off + length src" using n by (simp add: unat_plus_small unat_of_nat_64)
  have f0: "f \<noteq> 0" "n_type (rnodes fs f) = NODE_FILE" using f by (auto simp: file_at_def)
  obtain ok fs1 where g: "grow_file f ?need fs = Some (ok, fs1)" "\<not> ok \<longrightarrow> fs1 = fs"
    and gk: "ok \<longrightarrow> (\<exists>p c'. file_at fs1 f p c' bs \<and> ?need \<le> c' \<and> keeps_except {f, d} fs fs1 \<and> (p = d \<or> \<not> live_ptr (r_heap fs) p) \<and>
       rnodes fs1 = (rnodes fs)(f := (rnodes fs f)\<lparr>n_data := p, n_capacity := c'\<rparr>))"
    and gr: "\<forall>N. c = 0 \<longrightarrow> room (r_heap fs) (grow_cost (unat ?need) + N) \<longrightarrow> ok \<and> room (r_heap fs1) N"
    using grow_file_spec [OF f, of ?need] n need by auto
  show ?thesis
  proof (cases ok)
    case False
    then have "ramfs_write f src off fs = Some (-1, fs)" using g f0 by (simp add: ramfs_write_def Let_def)
    then show ?thesis using gr False need by (intro exI [of _ "- 1"] exI [of _ fs]) auto
  next
    case True
    obtain p c' where p: "file_at fs1 f p c' bs" "?need \<le> c'" and k1: "keeps_except {f, d} fs fs1"
      and pd: "p = d \<or> \<not> live_ptr (r_heap fs) p"
      and R1: "rnodes fs1 = (rnodes fs)(f := (rnodes fs f)\<lparr>n_data := p, n_capacity := c'\<rparr>)"
      using gk True by blast
    let ?fs = "upd_node f (\<lambda>n. n\<lparr>n_size := of_nat (max (length bs) (unat off + length src))\<rparr>)
       (fs1\<lparr>r_heap := (r_heap fs1)\<lparr>hmem := wr_bytes (hmem (r_heap fs1)) (p + off) src\<rparr>\<rparr>)"
    have fc: "unat off + length src \<le> unat c'" using p(2) need by (simp add: word_le_nat_alt)
    obtain bs' where b: "file_at ?fs f p c' bs'" "written bs (unat off) src bs'" and k2: "keeps_except {f, p} fs1 ?fs"
      using file_at_write [OF p(1) fc refl refl] by blast
    have "length bs \<le> unat c'" using p(1) by (simp add: file_at_def)
    then have l: "length bs < 2 ^ 64" by (rule le_less_trans) simp
    have e: "(if n_size (rnodes fs1 f) < ?need then upd_node f (\<lambda>d. d\<lparr>n_size := ?need\<rparr>) F else F) =
       upd_node f (\<lambda>n. n\<lparr>n_size := of_nat (max (length bs) (unat off + length src))\<rparr>) F" if "rnodes F = rnodes fs1" for F
      unfolding upd_node_if
      by (rule upd_node_cong) (unfold that, rule size_after [OF _ l need], use p(1) in \<open>simp add: file_at_def\<close>)
    have dp: "n_data (rnodes fs1 f) = p" using p(1) by (simp add: file_at_def)
    have w: "ramfs_write f src off fs = Some (c_int (of_nat (length src)), ?fs)"
      using g True f0 dp by (simp add: ramfs_write_def Let_def e split del: if_split)
    have "keeps_except {f, d} fs ?fs" using pd by (intro keeps_except_trans [OF k1 k2]) auto
    moreover have "rnodes ?fs = (rnodes fs)(f := (rnodes fs f)\<lparr>n_data := p, n_capacity := c', n_size := of_nat (length bs')\<rparr>)"
      using b(2) by (simp add: R1 written_def)
    ultimately have "write_done fs f d bs (unat off) src ?fs"
      unfolding write_done_def using b pd by (intro conjI exI [of _ p] exI [of _ c'] exI [of _ bs']) simp_all
    then show ?thesis using w gr need by (intro exI [of _ "c_int (of_nat (length src))"] exI [of _ ?fs]) auto
  qed
qed


section \<open>Reading files\<close>

lemma rd_bytes_part:
  assumes "k + l \<le> n"
  shows "rd_bytes m (d + of_nat k) l = take l (drop k (rd_bytes m d n))"
  using assms by (intro nth_equalityI) (simp_all add: algebra_simps)

lemma ramfs_read_spec:
  assumes f: "file_at fs f d c bs"
  shows "ramfs_read f n off fs =
    (let got = take (unat n) (drop (unat off) bs) in (c_int (of_nat (length got)), got))"
proof -
  have fa: "f \<noteq> 0" "n_type (rnodes fs f) = NODE_FILE" "n_size (rnodes fs f) = of_nat (length bs)" "n_data (rnodes fs f) = d"
    "length bs \<le> unat c" "rd_bytes (hmem (r_heap fs)) d (length bs) = bs"
    using f by (auto simp: file_at_def)
  have l: "length bs < 18446744073709551616" using fa(5) by (rule le_less_trans) simp
  have sz: "unat (of_nat (length bs) :: u64) = length bs" using l by (rule unat_of_nat_64)
  have of_nat: "off = of_nat (unat off)" by (intro unat_eqI) (simp add: unat_of_nat_64)
  show ?thesis
  proof (cases "length bs \<le> unat off")
    case True
    then show ?thesis using fa sz by (simp add: ramfs_read_def Let_def word_le_nat_alt c_int_def)
  next
    case False
    have av: "unat (of_nat (length bs) - off) = length bs - unat off"
      using False sz by (simp add: unat_minus_le word_le_nat_alt)
    define k where "k = (if of_nat (length bs) - off < n then of_nat (length bs) - off else n)"
    have k: "unat k = min (length bs - unat off) (unat n)" using av by (auto simp: k_def word_less_nat_alt)
    have "rd_bytes (hmem (r_heap fs)) (d + off) (unat k) = take (unat k) (drop (unat off) bs)"
      using rd_bytes_part [of "unat off" "unat k" "length bs" "hmem (r_heap fs)" d] k False fa(6) of_nat by simp
    also have "\<dots> = take (unat n) (drop (unat off) bs)"
      unfolding k by (cases "unat n \<le> length bs - unat off") (simp_all add: min_def)
    finally have "ramfs_read f n off fs = (c_int k, take (unat n) (drop (unat off) bs))"
      using fa sz False by (simp add: ramfs_read_def Let_def word_le_nat_alt k_def)
    moreover have "k = of_nat (length (take (unat n) (drop (unat off) bs)))"
      using k l by (intro unat_eqI) (simp add: unat_of_nat_64 min.commute)
    ultimately show ?thesis by simp
  qed
qed

lemma written_read: "written bs off src bs' \<Longrightarrow> take (length src) (drop off bs') = src"
  by (intro nth_equalityI) (auto simp: written_def)

section \<open>Files in directories\<close>

lemma forest_replace:
  assumes "forest_at R m par (pre @ t # post)" and "raddr t' = raddr t" and "tree_at R' m' par (first post) t'"
    and "\<And>u p. u \<in> set (pre @ post) \<Longrightarrow> p \<in> ptrs u \<Longrightarrow> R' p = R p"
    and "\<And>u p n. u \<in> set (pre @ post) \<Longrightarrow> (p, n) \<in> set (blocks u) \<Longrightarrow> bytes_kept m m' p n"
  shows "forest_at R' m' par (pre @ t' # post)"
  using assms
proof (induction pre)
  case Nil
  have "forest_at R' m' par post"
  proof (rule tree_at_frame(2))
    show "forest_at R m par post" using Nil.prems(1) by simp
  qed (use Nil.prems(4,5) in auto)
  then show ?case using Nil.prems(3) by simp
next
  case (Cons u pre)
  have "tree_at R' m' par (first (pre @ t # post)) u"
  proof (rule tree_at_frame(1))
    show "tree_at R m par (first (pre @ t # post)) u" using Cons.prems(1) by simp
    show "R' p = R p" if "p \<in> ptrs u" for p using Cons.prems(4) [of u p] that by simp
    show "bytes_kept m m' p n" if "(p, n) \<in> set (blocks u)" for p n using Cons.prems(5) [of u p n] that by simp
  qed
  moreover have "first (pre @ t # post) = first (pre @ t' # post)" using Cons.prems(2) by (cases pre) simp_all
  moreover have "forest_at R' m' par (pre @ t' # post)"
  proof (rule Cons.IH)
    show "forest_at R m par (pre @ t # post)" using Cons.prems(1) by simp
    show "R' p = R p" if "x \<in> set (pre @ post)" "p \<in> ptrs x" for x p using Cons.prems(4) [of x p] that by simp
    show "bytes_kept m m' p n" if "x \<in> set (pre @ post)" "(p, n) \<in> set (blocks x)" for x p n
      using Cons.prems(5) [of x p n] that by simp
  qed (rule Cons.prems(2,3))+
  ultimately show ?case by simp
qed

lemma forest_tree: "forest_at R m par (pre @ t # post) \<Longrightarrow> tree_at R m par (first post) t"
  by (induction pre) auto

lemma distinct_middle: "distinct (A @ M @ B) \<longleftrightarrow> distinct (A @ B) \<and> distinct M \<and> set M \<inter> set (A @ B) = {}"
  by auto

lemma distinct_blocks_middle:
  "distinct (map fst (b # concat (map blocks (pre @ t # post)))) \<longleftrightarrow>
     distinct (map fst (b # concat (map blocks (pre @ post)))) \<and> distinct (map fst (blocks t)) \<and>
     set (map fst (blocks t)) \<inter> set (map fst (b # concat (map blocks (pre @ post)))) = {}"
  using distinct_middle [of "map fst (b # concat (map blocks pre))" "map fst (blocks t)" "map fst (concat (map blocks post))"]
  by (simp only: map_append concat_append list.map concat.simps append_Cons append_assoc)

lemma dir_file_at:
  assumes "dir_at fs d (pre @ RFile f nm p c bs # post)"
  shows "file_at fs f p c bs"
proof -
  have t: "tree_at (rnodes fs) (hmem (r_heap fs)) d (first post) (RFile f nm p c bs)"
    using assms by (intro forest_tree [of _ _ _ pre]) (simp add: dir_at_def)
  have l: "\<exists>m. 120 \<le> m \<and> (f, m) \<in> heap_live (r_heap fs)" using assms by (auto simp: dir_at_def)
  have "f \<noteq> p"
  proof (cases "p = 0")
    case False
    then show ?thesis using assms by (auto simp: dir_at_def)
  qed (use t in simp)
  moreover have "p \<noteq> 0 \<longrightarrow> (\<exists>m. unat c \<le> m \<and> (p, m) \<in> heap_live (r_heap fs))"
    using assms by (auto simp: dir_at_def)
  ultimately show ?thesis using t l assms by (simp add: file_at_def dir_at_def)
qed


text \<open>After a write the directory holds the same files, the written one with its new contents.\<close>

lemma dir_write:
  assumes dir: "dir_at fs d (pre @ RFile f nm p c bs # post)" and w: "write_done fs f p bs off src fs'"
  shows "\<exists>p' c' bs'. written bs off src bs' \<and> dir_at fs' d (pre @ RFile f nm p' c' bs' # post) \<and>
    rnodes fs' d = rnodes fs d \<and> (p' = p \<or> \<not> live_ptr (r_heap fs) p')"
proof -
  let ?t = "RFile f nm p c bs"
  obtain p' c' bs' where k: "keeps_except {f, p} fs fs'" and fa: "file_at fs' f p' c' bs'" and wr: "written bs off src bs'"
    and new: "p' = p \<or> \<not> live_ptr (r_heap fs) p'"
    and R: "rnodes fs' = (rnodes fs)(f := (rnodes fs f)\<lparr>n_data := p', n_capacity := c', n_size := of_nat (length bs')\<rparr>)"
    using w by (auto simp: write_done_def)
  let ?t' = "RFile f nm p' c' bs'"
  have F: "forest_at (rnodes fs) (hmem (r_heap fs)) d (pre @ ?t # post)" using dir by (simp add: dir_at_def)
  have t: "tree_at (rnodes fs) (hmem (r_heap fs)) d (first post) ?t" by (rule forest_tree [OF F])
  have dist: "distinct (map fst ((d, 120) # concat (map blocks (pre @ ?t # post))))"
    and live: "all_live (r_heap fs) ((d, 120) # concat (map blocks (pre @ ?t # post)))"
    using dir by (simp_all add: dir_at_def del: map_append all_live_simps)
  let ?rest = "(d, 120) # concat (map blocks (pre @ post))"
  have rest: "distinct (map fst ?rest)" "fst ` set (blocks ?t) \<inter> fst ` set ?rest = {}" "distinct (map fst (blocks ?t))"
    using dist unfolding distinct_blocks_middle set_map by blast+
  have sub: "fst ` set (blocks u) \<subseteq> fst ` set ?rest" if "u \<in> set (pre @ post)" for u using that by auto
  have fr: "f \<notin> fst ` set ?rest" "p \<noteq> 0 \<longrightarrow> p \<notin> fst ` set ?rest" using rest(2) by (auto split: if_splits)
  then have df: "d \<noteq> f" by auto
  have Rk: "rnodes fs' q = rnodes fs q" if "q \<noteq> f" for q using that by (simp add: R)
  have lv: "\<exists>m. n \<le> m \<and> (q, m) \<in> heap_live (r_heap fs')" "bytes_kept (hmem (r_heap fs)) (hmem (r_heap fs')) q n"
    if qn: "(q, n) \<in> set ?rest" for q n
  proof -
    have "all_live (r_heap fs) ?rest" using live by simp
    then obtain m where m: "n \<le> m" "(q, m) \<in> heap_live (r_heap fs)" using all_liveD qn by blast
    have "q \<noteq> 0" using live_bound(2) [OF _ m(2)] dir by (simp add: dir_at_def)
    moreover have "q \<in> fst ` set ?rest" using qn by (metis fst_conv image_eqI)
    ultimately have "q \<notin> {f, p}" using fr by blast
    then have "(q, m) \<in> heap_live (r_heap fs')" "bytes_kept (hmem (r_heap fs)) (hmem (r_heap fs')) q m"
      using k m(2) by (simp_all add: keeps_except_def)
    then show "\<exists>m. n \<le> m \<and> (q, m) \<in> heap_live (r_heap fs')" "bytes_kept (hmem (r_heap fs)) (hmem (r_heap fs')) q n"
      using m(1) by (auto simp: bytes_kept_def)
  qed
  have F': "forest_at (rnodes fs') (hmem (r_heap fs')) d (pre @ ?t' # post)"
  proof (rule forest_replace [OF F])
    show "tree_at (rnodes fs') (hmem (r_heap fs')) d (first post) ?t'"
      using t fa by (simp add: R file_at_def)
    show "rnodes fs' q = rnodes fs q" if "u \<in> set (pre @ post)" "q \<in> ptrs u" for u q
      using sub [OF that(1)] that(2) fr(1) by (intro Rk) (auto simp: ptrs_def)
    show "bytes_kept (hmem (r_heap fs)) (hmem (r_heap fs')) q n" if "u \<in> set (pre @ post)" "(q, n) \<in> set (blocks u)" for u q n
      by (rule lv(2)) (use that in auto)
  qed simp
  have "all_live (r_heap fs') ?rest" unfolding all_live_def using lv(1) by blast
  moreover have "all_live (r_heap fs') (blocks ?t')" using fa by (auto simp: file_at_def)
  ultimately have L': "all_live (r_heap fs') ((d, 120) # concat (map blocks (pre @ ?t' # post)))" by simp
  have p': "p' \<notin> fst ` set ?rest" if "p' \<noteq> 0"
  proof (cases "p' = p")
    case False
    then have "\<not> live_ptr (r_heap fs) p'" using new by simp
    moreover have "all_live (r_heap fs) ?rest" using live by auto
    ultimately show ?thesis using all_live_ptr by blast
  qed (use fr that in blast)
  have "f \<noteq> p'" using fa by (simp add: file_at_def)
  then have "distinct (map fst (blocks ?t'))" "fst ` set (blocks ?t') \<inter> fst ` set ?rest = {}"
    using p' fr(1) by (auto split: if_splits)
  then have D': "distinct (map fst ((d, 120) # concat (map blocks (pre @ ?t' # post))))"
    using rest(1) unfolding distinct_blocks_middle set_map by blast
  have "dir_at fs' d (pre @ ?t' # post)"
    unfolding dir_at_def using dir fa Rk [OF df] F' L' D'
    by (cases pre) (simp_all add: dir_at_def file_at_def del: all_live_simps forest_at.simps tree_at.simps blocks.simps)
  then show ?thesis using wr Rk [OF df] new by blast
qed

end
