(* ===== verification/Ramfs_Blob.thy ===== *)
theory Ramfs_Blob
  imports Ramfs_Tree
begin

text \<open>
  The serialised form of the file system.  \<open>encode\<close> is the format as a function on abstract
  trees; the serialiser writes it, and the deserialiser, given enough heap, rebuilds the tree
  with the children of every directory in the opposite order (\<open>mirror\<close>), because it inserts
  each node in front of its siblings.
\<close>

section \<open>The format\<close>

fun encode :: "ftree \<Rightarrow> u8 list" where
  "encode (File nm bs) = [0, of_nat (length nm)] @ nm @ le_bytes 4 (of_nat (length bs) :: u64) @ bs"
| "encode (Dir nm ts) = [1, of_nat (length nm)] @ nm @ concat (map encode ts) @ [0xFF, 0]"

abbreviation encodes :: "ftree list \<Rightarrow> u8 list" where
  "encodes ts \<equiv> concat (map encode ts)"

fun mirror :: "ftree \<Rightarrow> ftree" where
  "mirror (File nm bs) = File nm bs"
| "mirror (Dir nm ts) = Dir nm (rev (map mirror ts))"

lemma mirror_mirror: "mirror (mirror t) = t"
  by (induction t) (simp_all add: rev_map map_idI)

fun ftree_ok :: "ftree \<Rightarrow> bool" where
  "ftree_ok (File nm bs) \<longleftrightarrow> name_ok nm \<and> length bs < 2 ^ 32"
| "ftree_ok (Dir nm ts) \<longleftrightarrow> name_ok nm \<and> distinct (map fname ts) \<and> (\<forall>t \<in> set ts. ftree_ok t)"

lemma fname_mirror [simp]: "fname (mirror t) = fname t"
  by (cases t) simp_all

lemma fname_erase [simp]: "fname (erase t) = rname t"
  by (cases t) simp_all

section \<open>Serialising\<close>

definition put_at :: "u8 list \<Rightarrow> nat \<Rightarrow> u8 list \<Rightarrow> u8 list" where
  "put_at out pos bs = take pos out @ bs @ drop (pos + length bs) out"

lemma length_put_at [simp]: "pos + length bs \<le> length out \<Longrightarrow> length (put_at out pos bs) = length out"
  by (simp add: put_at_def)

lemma put_at_Nil [simp]: "put_at out pos [] = out"
  by (simp add: put_at_def)

lemma put_at_put_at:
  "pos + length a + length b \<le> length out \<Longrightarrow> put_at (put_at out pos a) (pos + length a) b = put_at out pos (a @ b)"
  by (simp add: put_at_def ac_simps)

lemma put_bytes_put_at:
  "pos + length bs \<le> length out \<Longrightarrow> put_bytes out pos bs = (put_at out pos bs, pos + length bs)"
proof (induction bs arbitrary: out pos)
  case (Cons b bs)
  have "out[pos := b] = put_at out pos [b]" using Cons.prems by (simp add: put_at_def upd_conv_take_nth_drop)
  then show ?case using Cons put_at_put_at [of pos "[b]" bs out] by simp
qed simp

lemma encode_len: "4 \<le> length (encode t)"
  by (cases t) auto

lemma tree_at_raddr: "tree_at R m par nxt t \<Longrightarrow> raddr t \<noteq> 0"
  by (cases t) simp_all

lemma ser_forest:
  "tree_at R m par nxt t \<Longrightarrow> R = rnodes fs \<Longrightarrow> m = hmem (r_heap fs) \<Longrightarrow>
     (\<And>pos out. 0 < pos \<Longrightarrow> pos + length (encode (erase t)) + 2 \<le> mx \<Longrightarrow> mx \<le> length out \<Longrightarrow>
       ser_node fs mx (raddr t) out pos = Some (put_at out pos (encode (erase t)), pos + length (encode (erase t))))"
  "forest_at R m par ts \<Longrightarrow> R = rnodes fs \<Longrightarrow> m = hmem (r_heap fs) \<Longrightarrow>
     (\<And>pos out. 0 < pos \<Longrightarrow> pos + length (encodes (map erase ts)) + 2 \<le> mx \<Longrightarrow> mx \<le> length out \<Longrightarrow>
       ser_children fs mx (first ts) out pos =
         Some (put_at out pos (encodes (map erase ts)), pos + length (encodes (map erase ts))))"
proof (induction R m par nxt t and R m par ts rule: tree_at_forest_at.induct)
  case (1 R m par nxt a nm d c bs)
  let ?h = "[0, of_nat (length nm)] @ nm" and ?s = "le_bytes 4 (of_nat (length bs) :: u64)"
  have nd: "rnodes fs a = \<lparr>n_name = nm, n_type = NODE_FILE, n_data = d, n_size = of_nat (length bs), n_capacity = c,
        n_parent = par, n_children = 0, n_next = nxt\<rparr>" "length nm < 64" "rd_bytes (hmem (r_heap fs)) d (length bs) = bs"
    "length bs \<le> unat c" using 1(1-3) by (auto simp: name_ok_def)
  have "length bs < 18446744073709551616" using nd(4) by (rule le_less_trans) simp
  then have sz: "unat (of_nat (length bs) :: u64) = length bs" by (rule unat_of_nat_64)
  have p1: "put_bytes out pos ?h = (put_at out pos ?h, pos + length ?h)"
    by (rule put_bytes_put_at) (use 1(5,6) in simp)
  have p2: "put_bytes (put_at out pos ?h) (pos + length ?h) ?s = (put_at out pos (?h @ ?s), pos + length (?h @ ?s))"
    using put_bytes_put_at [of "pos + length ?h" ?s "put_at out pos ?h"] put_at_put_at [of pos ?h ?s out] 1(5,6) by simp
  have p3: "put_bytes (put_at out pos (?h @ ?s)) (pos + length (?h @ ?s)) bs =
      (put_at out pos (?h @ ?s @ bs), pos + length (?h @ ?s @ bs))"
    using put_bytes_put_at [of "pos + length (?h @ ?s)" bs "put_at out pos (?h @ ?s)"] put_at_put_at [of pos "?h @ ?s" bs out] 1(5,6) by simp
  show ?case
    using nd(1-3) sz p1 p2 p3 1(5) by (simp add: ser_node_def Let_def)
next
  case (2 R m par nxt a nm ts)
  let ?h = "[1, of_nat (length nm)] @ nm" and ?k = "encodes (map erase ts)"
  have nd: "rnodes fs a = \<lparr>n_name = nm, n_type = NODE_DIR, n_data = 0, n_size = 0, n_capacity = 0,
        n_parent = par, n_children = first ts, n_next = nxt\<rparr>" "length nm < 64" "forest_at R m a ts"
    using 2(2-4) by (auto simp: name_ok_def)
  have len: "pos + length ?h + length ?k + 4 \<le> mx" using 2(6) by (simp add: o_def)
  have p1: "put_bytes out pos ?h = (put_at out pos ?h, pos + length ?h)"
    by (rule put_bytes_put_at) (use len 2(7) in simp)
  have p2: "ser_children fs mx (first ts) (put_at out pos ?h) (pos + length ?h) =
      Some (put_at (put_at out pos ?h) (pos + length ?h) ?k, pos + length ?h + length ?k)"
    using len 2(5,7) by (intro 2(1) [OF nd(3) 2(3,4)]) simp_all
  have s2: "put_at (put_at out pos ?h) (pos + length ?h) ?k = put_at out pos (?h @ ?k)"
    using len 2(7) by (intro put_at_put_at) simp
  have p3: "put_bytes (put_at out pos (?h @ ?k)) (pos + length (?h @ ?k)) [0xFF, 0] =
      (put_at out pos (?h @ ?k @ [0xFF, 0]), pos + length (?h @ ?k @ [0xFF, 0]))"
    using put_bytes_put_at [of "pos + length (?h @ ?k)" "[0xFF, 0]" "put_at out pos (?h @ ?k)"]
      put_at_put_at [of pos "?h @ ?k" "[0xFF, 0]" out] len 2(7) by simp
  show ?case
    using nd(1,2) p1 p2 s2 p3 len 2(5) by (simp add: ser_node_def Let_def o_def add.assoc)
next
  case (3 R m par)
  then show ?case by (simp add: ser_children.simps)
next
  case (4 R m par t ts)
  let ?e = "encode (erase t)" and ?k = "encodes (map erase ts)"
  have t: "tree_at R m par (first ts) t" and ts: "forest_at R m par ts" using 4(3) by simp_all
  have nx: "n_next (rnodes fs (raddr t)) = first ts" "raddr t \<noteq> 0"
    using tree_at_next [OF t] tree_at_raddr [OF t] 4(4) by simp_all
  have len: "pos + length ?e + length ?k + 2 \<le> mx" using 4(7) by (simp add: o_def)
  have p1: "ser_node fs mx (raddr t) out pos = Some (put_at out pos ?e, pos + length ?e)"
    using len 4(6,8) by (intro 4(1) [OF t 4(4,5)]) simp_all
  have p2: "ser_children fs mx (first ts) (put_at out pos ?e) (pos + length ?e) =
      Some (put_at (put_at out pos ?e) (pos + length ?e) ?k, pos + length ?e + length ?k)"
    using len 4(6,8) by (intro 4(2) [OF ts 4(4,5)]) simp_all
  have "put_at (put_at out pos ?e) (pos + length ?e) ?k = put_at out pos (?e @ ?k)"
    using len 4(8) by (intro put_at_put_at) simp
  then show ?case using p1 p2 nx 4(6) by (simp add: ser_children_step [of _ _ "raddr t"] o_def add.assoc)
qed


lemma serialize_blob:
  assumes dir: "dir_at fs (r_root fs) ts" and len: "12 + length (encodes (map erase ts)) + 2 \<le> mx" "mx \<le> length out"
    and mx: "16 \<le> mx"
  shows "ramfs_serialize fs mx out =
    Some (MAGIC @ le_bytes 4 (of_nat (12 + length (encodes (map erase ts))) :: u64) @ encodes (map erase ts) @
            drop (12 + length (encodes (map erase ts))) out, 12 + length (encodes (map erase ts)))"
proof -
  let ?k = "encodes (map erase ts)"
  have m8: "length MAGIC = 8" by (simp add: MAGIC_def)
  have p1: "put_bytes out 0 MAGIC = (put_at out 0 MAGIC, 8)"
    using put_bytes_put_at [of 0 MAGIC out] m8 len mx by simp
  have p2: "ser_children fs mx (first ts) (put_at out 0 MAGIC) 12 = Some (put_at (put_at out 0 MAGIC) 12 ?k, 12 + length ?k)"
    using dir len m8 mx by (intro ser_forest(2) [OF _ refl refl, of fs "r_root fs"]) (simp_all add: dir_at_def)
  have p3: "put_bytes (put_at (put_at out 0 MAGIC) 12 ?k) 8 (le_bytes 4 w) =
      (put_at (put_at (put_at out 0 MAGIC) 12 ?k) 8 (le_bytes 4 w), 12)" for w :: u64
    using put_bytes_put_at [of 8 "le_bytes 4 w" "put_at (put_at out 0 MAGIC) 12 ?k"] m8 len mx by simp
  have "put_at (put_at (put_at out 0 MAGIC) 12 ?k) 8 b = MAGIC @ b @ ?k @ drop (12 + length ?k) out" if "length b = 4" for b
    using that m8 len mx by (simp add: put_at_def)
  then show ?thesis using p1 p2 p3 dir mx by (simp add: ramfs_serialize_def dir_at_def Let_def)
qed

section \<open>Deserialising\<close>

text \<open>The heap that loading a tree takes.\<close>

fun load_cost :: "ftree \<Rightarrow> nat" where
  "load_cost (File nm bs) = alloc_cost NODE_SIZE + grow_cost (length bs)"
| "load_cost (Dir nm ts) = alloc_cost NODE_SIZE + sum_list (map load_cost ts)"

text \<open>
  A tree has been added in front of the children of directory \<open>d\<close>: nothing else that was
  live has changed, and the tree uses fresh blocks only.
\<close>

definition added :: "u64 \<Rightarrow> rtree list \<Rightarrow> rtree list \<Rightarrow> ramfs \<Rightarrow> ramfs \<Rightarrow> bool" where
  "added d new ts fs fs' \<longleftrightarrow> dir_at fs' d (new @ ts) \<and> keeps {d} fs fs' \<and>
     rnodes fs' d = (rnodes fs d)\<lparr>n_children := first (new @ ts)\<rparr> \<and>
     (\<forall>t \<in> set new. \<forall>p \<in> ptrs t. \<not> live_ptr (r_heap fs) p)"

lemma keeps_of_except:
  assumes "keeps_except {f, p} fs fs'" and "\<not> live_ptr (r_heap fs0) f" and "p = 0" and "keeps D fs0 fs" and ok: "heap_ok (r_heap fs)"
  shows "keeps D fs0 fs'"
proof -
  have step: "(q, m) \<in> heap_live (r_heap fs') \<and> rnodes fs' q = rnodes fs q \<and> bytes_kept (hmem (r_heap fs)) (hmem (r_heap fs')) q m"
    if q: "(q, m) \<in> heap_live (r_heap fs0)" for q m
  proof -
    have q1: "(q, m) \<in> heap_live (r_heap fs)" using q assms(4) by (auto simp: keeps_def)
    then have "q \<noteq> 0" by (rule live_bound(2) [OF ok])
    moreover have "q \<noteq> f" using q assms(2) by (auto simp: live_ptr_def)
    ultimately have "q \<notin> {f, p}" using assms(3) by simp
    then show ?thesis using assms(1) q1 by (simp add: keeps_except_def)
  qed
  show ?thesis unfolding keeps_def
  proof (intro conjI allI impI ballI)
    show "heap_live (r_heap fs0) \<subseteq> heap_live (r_heap fs')" using step by auto
    show "r_root fs' = r_root fs0" "r_cwd fs' = r_cwd fs0" using assms(1,4) by (simp_all add: keeps_def keeps_except_def)
    show "rnodes fs' p = rnodes fs0 p" if "live_ptr (r_heap fs0) p" "p \<notin> D" for p
      using keeps_node [OF assms(4) that] that(1) step unfolding live_ptr_def by auto
    show "case b of (p, n) \<Rightarrow> bytes_kept (hmem (r_heap fs0)) (hmem (r_heap fs')) p n" if "b \<in> heap_live (r_heap fs0)" for b
      using that step assms(4) unfolding keeps_def by (cases b) (auto intro: bytes_kept_trans)
  qed
qed

lemma load_file:
  assumes dir: "dir_at fs d ts" and nm: "name_ok nm" "nm \<notin> rname ` set ts" and bs: "length bs < 2 ^ 32"
    and r: "room (r_heap fs) (load_cost (File nm bs) + N)"
  shows "\<exists>f fs1 r1 fs2 t. ramfs_create_file d nm fs = Some (f, fs1) \<and> f \<noteq> 0 \<and> ramfs_write f bs 0 fs1 = Some (r1, fs2) \<and>
    added d [t] ts fs fs2 \<and> erase t = File nm bs \<and> room (r_heap fs2) N"
proof -
  obtain f fs1 where c: "ramfs_create_file d nm fs = Some (f, fs1)" and cf: "f \<noteq> 0" and r1: "room (r_heap fs1) (grow_cost (length bs) + N)"
    and d1: "dir_at fs1 d (empty_node NODE_FILE f nm # ts)" and k1: "keeps {d} fs fs1" and new: "\<not> live_ptr (r_heap fs) f"
    and R1: "rnodes fs1 d = (rnodes fs d)\<lparr>n_children := f\<rparr>"
    using create_node_spec [OF dir nm, of NODE_FILE] r unfolding ramfs_create_file_def by (auto simp: add.assoc)
  have d1': "dir_at fs1 d ([] @ RFile f nm 0 0 [] # ts)" using d1 by simp
  have fa: "file_at fs1 f 0 0 []" by (rule dir_file_at [OF d1'])
  obtain r2 fs2 where w: "ramfs_write f bs 0 fs1 = Some (r2, fs2)" "write_done fs1 f 0 [] 0 bs fs2" and r2: "room (r_heap fs2) N"
    using ramfs_write_spec [OF fa, of 0 bs] bs r1 by auto
  obtain p' c' bs' where b: "written [] 0 bs bs'" "dir_at fs2 d ([] @ RFile f nm p' c' bs' # ts)"
    "rnodes fs2 d = rnodes fs1 d" "p' = 0 \<or> \<not> live_ptr (r_heap fs1) p'"
    using dir_write [OF d1' w(2)] by blast
  have "bs' = bs" using written_read [OF b(1)] b(1) by (simp add: written_def)
  have k: "keeps {d} fs fs2"
    using w(2) fa by (intro keeps_of_except [OF _ new refl k1]) (simp_all add: write_done_def file_at_def)
  have fresh: "\<not> live_ptr (r_heap fs) p" if "p \<in> ptrs (RFile f nm p' c' bs')" for p
    using that new b(4) keeps_live_ptr [OF k1] by (auto split: if_splits)
  let ?t = "RFile f nm p' c' bs'"
  have "added d [?t] ts fs fs2" unfolding added_def using b(2,3) k fresh R1 by simp
  moreover have "erase ?t = File nm bs" using \<open>bs' = bs\<close> by simp
  ultimately show ?thesis using c cf w(1) r2 by blast
qed


lemma new_dir_at:
  assumes "dir_at fs d (RDir n nm [] # ts)"
  shows "dir_at fs n []"
  using assms by (auto simp: dir_at_def)

lemma load_dir:
  assumes dir: "dir_at fs d ts" and k1: "keeps {d} fs fs1" and new: "\<not> live_ptr (r_heap fs) n"
    and d1: "dir_at fs1 d (RDir n nm [] # ts)" and R1: "rnodes fs1 d = (rnodes fs d)\<lparr>n_children := n\<rparr>"
    and a: "added n kids [] fs1 fs2"
  shows "added d [RDir n nm kids] ts fs fs2"
proof -
  let ?t = "RDir n nm kids"
  have k2: "keeps {n} fs1 fs2" and dn: "dir_at fs2 n kids" and Rn: "rnodes fs2 n = (rnodes fs1 n)\<lparr>n_children := first kids\<rparr>"
    and fresh: "\<And>t p. t \<in> set kids \<Longrightarrow> p \<in> ptrs t \<Longrightarrow> \<not> live_ptr (r_heap fs1) p"
    using a by (auto simp: added_def)
  have nd: "d \<noteq> n" and nts: "\<And>t. t \<in> set ts \<Longrightarrow> n \<notin> ptrs t" using d1 by (auto simp: dir_at_def ptrs_def)
  have ld: "live_ptr (r_heap fs1) d" by (rule dir_at_ptrs(1) [OF d1])
  have Rd: "rnodes fs2 d = rnodes fs1 d" using keeps_node [OF k2 ld] nd by simp
  have rest1: "all_live (r_heap fs1) ((d, 120) # concat (map blocks ts))" "distinct (map fst ((d, 120) # concat (map blocks ts)))"
    "forest_at (rnodes fs1) (hmem (r_heap fs1)) d ts" "rnodes fs1 n = new_node NODE_DIR nm d (first ts)" "name_ok nm"
    "distinct (map rname ts)" "nm \<notin> rname ` set ts"
    using d1 by (auto simp: dir_at_def new_node_def)
  have F: "forest_at (rnodes fs2) (hmem (r_heap fs2)) d ts"
    using rest1(1) nts by (intro keeps_forest [OF k2 _ rest1(3)]) auto
  have T: "tree_at (rnodes fs2) (hmem (r_heap fs2)) d (first ts) ?t"
    using dn Rn rest1(4,5) by (auto simp: dir_at_def new_node_def)
  have L: "all_live (r_heap fs2) ((d, 120) # concat (map blocks (?t # ts)))"
    using keeps_all_live [OF k2 rest1(1)] dn by (auto simp: dir_at_def)
  have out: "p \<notin> fst ` set ((d, 120) # concat (map blocks ts))" if "t \<in> set kids" "p \<in> ptrs t" for t p
    using fresh [OF that] all_live_ptr [OF rest1(1)] by blast
  have nrest: "n \<notin> fst ` set ((d, 120) # concat (map blocks ts))" using nd nts by (auto simp: ptrs_def)
  have "ptrs ?t \<inter> fst ` set ((d, 120) # concat (map blocks ts)) = {}"
    using out nrest unfolding ptrs_simps by blast
  then have "fst ` set (blocks ?t) \<inter> fst ` set ((d, 120) # concat (map blocks ts)) = {}"
    by (simp only: ptrs_def)
  moreover have "distinct (map fst (blocks ?t))" using dn by (auto simp: dir_at_def)
  ultimately have D: "distinct (map fst ((d, 120) # concat (map blocks (?t # ts))))"
    using rest1(2) distinct_blocks_middle [of "(d, 120)" "[]" ?t ts] by (simp only: append_Nil set_map)
  have "dir_at fs2 d ([?t] @ ts)"
    unfolding dir_at_def using dir R1 Rd F T L D dn rest1(6,7)
    by (simp add: dir_at_def del: all_live_simps tree_at.simps blocks.simps)
  moreover have "keeps {d} fs fs2" using new by (intro keeps_trans [OF k1 k2]) auto
  moreover have "\<not> live_ptr (r_heap fs) p" if "p \<in> ptrs ?t" for p
    using that new fresh keeps_live_ptr [OF k1] by auto
  ultimately show ?thesis unfolding added_def using R1 Rd by simp
qed

lemma added_Nil: "dir_at fs d ts \<Longrightarrow> added d [] ts fs fs"
  by (simp add: added_def keeps_refl dir_at_def)

lemma added_trans:
  assumes "added d new ts fs fs1" and "added d new2 (new @ ts) fs1 fs2"
  shows "added d (new2 @ new) ts fs fs2"
proof -
  have k: "keeps {d} fs fs1" "keeps {d} fs1 fs2" using assms by (simp_all add: added_def)
  have "keeps {d} fs fs2" by (rule keeps_trans [OF k]) simp
  moreover have "\<not> live_ptr (r_heap fs) p" if "t \<in> set (new2 @ new)" "p \<in> ptrs t" for t p
    using that assms keeps_live_ptr [OF k(1)] by (auto simp: added_def)
  ultimately show ?thesis using assms by (simp add: added_def)
qed

lemma le_word_size: "n < 2 ^ 32 \<Longrightarrow> unat (le_word (le_bytes 4 (of_nat n :: u64)) :: u32) = n"
proof -
  assume n: "n < 2 ^ 32"
  have "le_bytes 4 w = le_bytes 4 (ucast w :: u32)" for w :: u64
  proof (rule nth_equalityI)
    fix i assume "i < length (le_bytes 4 w)"
    then have i: "i < 4" by simp
    have "(ucast (drop_bit (8 * i) w) :: u8) = ucast (drop_bit (8 * i) (ucast w :: u32))"
      using i by (intro bit_word_eqI) (simp add: bit_simps)
    then show "le_bytes 4 w ! i = le_bytes 4 (ucast w :: u32) ! i" using i by (simp add: nth_le_bytes)
  qed simp
  then have "(le_word (le_bytes 4 (of_nat n :: u64)) :: u32) = ucast (of_nat n :: u64)"
    by (simp add: le_word_bytes_all)
  also have "unat \<dots> = n" using n by (simp add: unsigned_ucast_eq unat_of_nat_64 take_bit_eq_mod)
  finally show ?thesis .
qed


text \<open>Bytes at a position of the blob.\<close>

lemma drop_at:
  assumes "drop pos inp = a @ rest"
  shows "i < length a \<Longrightarrow> inp ! (pos + i) = a ! i" and "drop (pos + length a) inp = rest"
proof -
  show "drop (pos + length a) inp = rest" using assms by (metis add.commute append_eq_conv_conj drop_drop)
  assume "i < length a"
  then have "pos < length inp" using assms by (cases "pos < length inp") auto
  then show "inp ! (pos + i) = a ! i" using assms \<open>i < length a\<close> nth_drop [of pos inp i]
    by (simp add: nth_append)
qed

definition loads :: "ftree \<Rightarrow> bool" where
  "loads x \<longleftrightarrow> (\<forall>d ts inp pos len fs rest N. dir_at fs d ts \<longrightarrow> fname x \<notin> rname ` set ts \<longrightarrow> drop pos inp = encode x @ rest \<longrightarrow>
     pos + length (encode x) \<le> len \<longrightarrow> room (r_heap fs) (load_cost x + N) \<longrightarrow>
     (\<exists>t fs'. deser_node d inp pos len fs = Some (pos + length (encode x), fs') \<and> added d [t] ts fs fs' \<and>
        erase t = mirror x \<and> room (r_heap fs') N))"

lemma loadsD:
  assumes "loads x" and "dir_at fs d ts" and "fname x \<notin> rname ` set ts" and "drop pos inp = encode x @ rest"
    and "pos + length (encode x) \<le> len" and "room (r_heap fs) (load_cost x + N)"
  shows "\<exists>t fs'. deser_node d inp pos len fs = Some (pos + length (encode x), fs') \<and> added d [t] ts fs fs' \<and>
        erase t = mirror x \<and> room (r_heap fs') N"
  using assms unfolding loads_def by blast

lemma encode_head:
  "\<exists>r. encode x = (if is_File x then 0 else 1) # of_nat (length (fname x)) # r"
  by (cases x) auto

lemma load_file_node:
  assumes ok: "ftree_ok (File nm bs)"
  shows "loads (File nm bs)"
  unfolding loads_def
proof (intro allI impI)
  fix d ts inp pos len fs rest N
  assume dir: "dir_at fs d ts" and nm: "fname (File nm bs) \<notin> rname ` set ts" and inp: "drop pos inp = encode (File nm bs) @ rest"
    and len: "pos + length (encode (File nm bs)) \<le> len" and r: "room (r_heap fs) (load_cost (File nm bs) + N)"
  have nmok: "name_ok nm" and bs: "length bs < 2 ^ 32" using ok by simp_all
  have u: "unat (of_nat (length nm) :: u8) = length nm" using nmok by (simp add: name_ok_def unat_of_nat take_bit_eq_mod)
  let ?s = "le_bytes 4 (of_nat (length bs) :: u64)"
  have i0: "drop pos inp = [0, of_nat (length nm)] @ nm @ ?s @ bs @ rest" using inp by simp
  have h: "inp ! pos = 0" "inp ! (pos + 1) = of_nat (length nm)"
    using drop_at(1) [OF i0, of 0] drop_at(1) [OF i0, of 1] by simp_all
  have d2: "drop (pos + 2) inp = nm @ ?s @ bs @ rest" using drop_at(2) [OF i0] by simp
  have d3: "drop (pos + 2 + length nm) inp = ?s @ bs @ rest" by (rule drop_at(2) [OF d2])
  have d4: "drop (pos + 2 + length nm + 4) inp = bs @ rest" using drop_at(2) [OF d3] by simp
  have sz: "unat (le_word ?s :: u32) = length bs" by (rule le_word_size [OF bs])
  obtain f fs1 r1 fs2 t where L: "ramfs_create_file d nm fs = Some (f, fs1)" "f \<noteq> 0" "ramfs_write f bs 0 fs1 = Some (r1, fs2)"
    "added d [t] ts fs fs2" "erase t = File nm bs" "room (r_heap fs2) N"
    using load_file [OF dir nmok _ bs r] nm by auto
  have "deser_node d inp pos len fs = Some (pos + 2 + length nm + 4 + length bs, fs2)"
    using len h u d2 d3 d4 sz L(1-3) nmok
    by (simp add: deser_node.simps [of d inp pos] Let_def str_copy_name)
  then show "\<exists>t fs'. deser_node d inp pos len fs = Some (pos + length (encode (File nm bs)), fs') \<and> added d [t] ts fs fs' \<and>
        erase t = mirror (File nm bs) \<and> room (r_heap fs') N"
    using L(4-6) by (intro exI [of _ t] exI [of _ fs2]) simp
qed


text \<open>The loop over the nodes of a directory, or of the root.\<close>

lemma added_names:
  assumes "added d [t] ts fs fs'" and "erase t = mirror x"
  shows "rname ` set (t # ts) = insert (fname x) (rname ` set ts)" and "dir_at fs' d (t # ts)"
proof -
  have "rname t = fname x" using assms(2) by (metis fname_erase fname_mirror)
  then show "rname ` set (t # ts) = insert (fname x) (rname ` set ts)" by simp
  show "dir_at fs' d (t # ts)" using assms(1) by (simp add: added_def)
qed

lemma load_kids:
  assumes "\<forall>x \<in> set xs. loads x" and "dir_at fs d ts" and "distinct (map fname xs)" and "fname ` set xs \<inter> rname ` set ts = {}"
    and "drop pos inp = encodes xs @ [0xFF, 0] @ rest" and "pos + length (encodes xs) + 2 \<le> len"
    and "room (r_heap fs) (sum_list (map load_cost xs) + N)"
  shows "\<exists>new fs'. deser_loop d inp pos len fs = Some (pos + length (encodes xs) + 2, fs') \<and> added d new ts fs fs' \<and>
    map erase new = rev (map mirror xs) \<and> room (r_heap fs') N"
  using assms
proof (induction xs arbitrary: ts pos fs)
  case Nil
  have i: "drop pos inp = [0xFF, 0] @ rest" using Nil.prems(5) by simp
  have "inp ! pos = 0xFF" "inp ! (pos + 1) = 0" using drop_at(1) [OF i, of 0] drop_at(1) [OF i, of 1] by simp_all
  then have "deser_loop d inp pos len fs = Some (pos + 2, fs)" using Nil.prems(6) by (simp add: deser_loop.simps [of d inp pos])
  then show ?case using added_Nil [OF Nil.prems(2)] Nil.prems(7) by (intro exI [of _ "[]"] exI [of _ fs]) simp
next
  case (Cons x xs)
  have i: "drop pos inp = encode x @ encodes xs @ [0xFF, 0] @ rest" using Cons.prems(5) by simp
  obtain t fs1 where t: "deser_node d inp pos len fs = Some (pos + length (encode x), fs1)" "added d [t] ts fs fs1" "erase t = mirror x"
    "room (r_heap fs1) (sum_list (map load_cost xs) + N)"
    using loadsD [OF _ Cons.prems(2) _ i, of len "sum_list (map load_cost xs) + N"] Cons.prems by (auto simp: add.assoc)
  note nm = added_names [OF t(2,3)]
  have "\<exists>new fs'. deser_loop d inp (pos + length (encode x)) len fs1 = Some (pos + length (encode x) + length (encodes xs) + 2, fs') \<and>
      added d new (t # ts) fs1 fs' \<and> map erase new = rev (map mirror xs) \<and> room (r_heap fs') N"
  proof (rule Cons.IH [OF _ nm(2)])
    show "drop (pos + length (encode x)) inp = encodes xs @ [0xFF, 0] @ rest" by (rule drop_at(2) [OF i])
  qed (use Cons.prems nm(1) t(4) in auto)
  then obtain new fs2 where n: "deser_loop d inp (pos + length (encode x)) len fs1 = Some (pos + length (encode x) + length (encodes xs) + 2, fs2)"
    "added d new (t # ts) fs1 fs2" "map erase new = rev (map mirror xs)" "room (r_heap fs2) N" by blast
  obtain r where e: "encode x = (if is_File x then 0 else 1) # of_nat (length (fname x)) # r" using encode_head by blast
  have h: "inp ! pos \<noteq> 0xFF" "encode x \<noteq> []" using drop_at(1) [OF i, of 0] by (simp_all add: e)
  have "deser_loop d inp pos len fs = Some (pos + length (encodes (x # xs)) + 2, fs2)"
    using h t(1) n(1) Cons.prems(6) encode_len [of x] by (simp add: deser_loop.simps [of d inp pos] add.assoc)
  moreover have "added d (new @ [t]) ts fs fs2" using n(2) by (intro added_trans [OF t(2)]) simp
  ultimately show ?case using n(3,4) t(3) by (intro exI [of _ "new @ [t]"] exI [of _ fs2]) simp
qed

lemma load_dir_node:
  assumes IH: "\<forall>x \<in> set xs. loads x" and ok: "ftree_ok (Dir nm xs)"
  shows "loads (Dir nm xs)"
  unfolding loads_def
proof (intro allI impI)
  fix d ts inp pos len fs rest N
  assume dir: "dir_at fs d ts" and nm: "fname (Dir nm xs) \<notin> rname ` set ts" and inp: "drop pos inp = encode (Dir nm xs) @ rest"
    and len: "pos + length (encode (Dir nm xs)) \<le> len" and r: "room (r_heap fs) (load_cost (Dir nm xs) + N)"
  have nmok: "name_ok nm" "distinct (map fname xs)" using ok by simp_all
  have u: "unat (of_nat (length nm) :: u8) = length nm" using nmok by (simp add: name_ok_def unat_of_nat take_bit_eq_mod)
  have i0: "drop pos inp = [1, of_nat (length nm)] @ nm @ encodes xs @ [0xFF, 0] @ rest" using inp by simp
  have h: "inp ! pos = 1" "inp ! (pos + 1) = of_nat (length nm)"
    using drop_at(1) [OF i0, of 0] drop_at(1) [OF i0, of 1] by simp_all
  have d2: "drop (pos + 2) inp = nm @ encodes xs @ [0xFF, 0] @ rest" using drop_at(2) [OF i0] by simp
  have d3: "drop (pos + 2 + length nm) inp = encodes xs @ [0xFF, 0] @ rest" by (rule drop_at(2) [OF d2])
  obtain n fs1 where c: "ramfs_mkdir d nm fs = Some (n, fs1)" and n0: "n \<noteq> 0" and r1: "room (r_heap fs1) (sum_list (map load_cost xs) + N)"
    and d1: "dir_at fs1 d (empty_node NODE_DIR n nm # ts)" and k1: "keeps {d} fs fs1" and new: "\<not> live_ptr (r_heap fs) n"
    and R1: "rnodes fs1 d = (rnodes fs d)\<lparr>n_children := n\<rparr>"
    using create_node_spec [OF dir nmok(1), of NODE_DIR] r nm unfolding ramfs_mkdir_def by (auto simp: add.assoc)
  have d1': "dir_at fs1 d (RDir n nm [] # ts)" using d1 by simp
  obtain kids fs2 where K: "deser_loop n inp (pos + 2 + length nm) len fs1 = Some (pos + 2 + length nm + length (encodes xs) + 2, fs2)"
    "added n kids [] fs1 fs2" "map erase kids = rev (map mirror xs)" "room (r_heap fs2) N"
    using load_kids [OF IH new_dir_at [OF d1'] nmok(2) _ d3 _ r1, of len] len by auto
  have "deser_node d inp pos len fs = Some (pos + 2 + length nm + length (encodes xs) + 2, fs2)"
    using len h u d2 K(1) c n0 nmok
    by (simp add: deser_node.simps [of d inp pos] Let_def str_copy_name)
  moreover have "added d [RDir n nm kids] ts fs fs2" by (rule load_dir [OF dir k1 new d1' R1 K(2)])
  ultimately show "\<exists>t fs'. deser_node d inp pos len fs = Some (pos + length (encode (Dir nm xs)), fs') \<and> added d [t] ts fs fs' \<and>
        erase t = mirror (Dir nm xs) \<and> room (r_heap fs') N"
    using K(3,4) by (intro exI [of _ "RDir n nm kids"] exI [of _ fs2]) simp
qed

lemma loads_ok: "ftree_ok x \<Longrightarrow> loads x"
proof (induction x)
  case (File nm bs)
  then show ?case by (rule load_file_node)
next
  case (Dir nm xs)
  then show ?case by (intro load_dir_node) auto
qed


lemma load_root:
  assumes "\<forall>x \<in> set xs. loads x" and "dir_at fs (r_root fs) ts" and "distinct (map fname xs)" and "fname ` set xs \<inter> rname ` set ts = {}"
    and "drop pos inp = encodes xs @ rest" and "pos + length (encodes xs) = len"
    and "room (r_heap fs) (sum_list (map load_cost xs) + N)"
  shows "\<exists>new fs'. deser_root inp pos len fs = Some (True, fs') \<and> added (r_root fs) new ts fs fs' \<and>
    map erase new = rev (map mirror xs) \<and> room (r_heap fs') N"
  using assms
proof (induction xs arbitrary: ts pos fs)
  case Nil
  then have "deser_root inp pos len fs = Some (True, fs)" by (subst deser_root.simps) simp
  then show ?case using added_Nil [OF Nil.prems(2)] Nil.prems(7) by (intro exI [of _ "[]"] exI [of _ fs]) simp
next
  case (Cons x xs)
  let ?d = "r_root fs"
  have i: "drop pos inp = encode x @ encodes xs @ rest" using Cons.prems(5) by simp
  obtain t fs1 where t: "deser_node ?d inp pos len fs = Some (pos + length (encode x), fs1)" "added ?d [t] ts fs fs1" "erase t = mirror x"
    "room (r_heap fs1) (sum_list (map load_cost xs) + N)"
    using loadsD [OF _ Cons.prems(2) _ i, of len "sum_list (map load_cost xs) + N"] Cons.prems by (auto simp: add.assoc)
  note nm = added_names [OF t(2,3)]
  have root: "r_root fs1 = ?d" using t(2) by (simp add: added_def keeps_def)
  have "\<exists>new fs'. deser_root inp (pos + length (encode x)) len fs1 = Some (True, fs') \<and>
      added (r_root fs1) new (t # ts) fs1 fs' \<and> map erase new = rev (map mirror xs) \<and> room (r_heap fs') N"
  proof (rule Cons.IH)
    show "dir_at fs1 (r_root fs1) (t # ts)" using nm(2) root by simp
    show "drop (pos + length (encode x)) inp = encodes xs @ rest" by (rule drop_at(2) [OF i])
  qed (use Cons.prems nm(1) t(4) in auto)
  then obtain new fs2 where n: "deser_root inp (pos + length (encode x)) len fs1 = Some (True, fs2)"
    "added ?d new (t # ts) fs1 fs2" "map erase new = rev (map mirror xs)" "room (r_heap fs2) N" using root by auto
  obtain r where e: "encode x = (if is_File x then 0 else 1) # of_nat (length (fname x)) # r" using encode_head by blast
  have h: "inp ! pos \<noteq> 0xFF" "encode x \<noteq> []" using drop_at(1) [OF i, of 0] by (simp_all add: e)
  have "deser_root inp pos len fs = Some (True, fs2)"
    using h t(1) n(1) Cons.prems(6) encode_len [of x] by (simp add: deser_root.simps [of inp pos] add.assoc)
  moreover have "added ?d (new @ [t]) ts fs fs2" using n(2) by (intro added_trans [OF t(2)]) simp
  ultimately show ?case using n(3,4) t(3) by (intro exI [of _ "new @ [t]"] exI [of _ fs2]) simp
qed

lemma deserialize_blob:
  assumes dir: "dir_at fs (r_root fs) []" and ok: "\<forall>x \<in> set xs. ftree_ok x" "distinct (map fname xs)"
    and L: "L = 12 + length (encodes xs)" "L < 2 ^ 32" "L \<le> len" "16 \<le> len"
    and r: "room (r_heap fs) (sum_list (map load_cost xs) + N)"
  shows "\<exists>new fs'. ramfs_deserialize (MAGIC @ le_bytes 4 (of_nat L :: u64) @ encodes xs @ rest) len fs = Some (0, fs') \<and>
    added (r_root fs) new [] fs fs' \<and> map erase new = rev (map mirror xs) \<and> room (r_heap fs') N"
proof -
  let ?inp = "MAGIC @ le_bytes 4 (of_nat L :: u64) @ encodes xs @ rest"
  have m8: "length MAGIC = 8" by (simp add: MAGIC_def)
  have sz: "unat (le_word (le_bytes 4 (of_nat L :: u64)) :: u32) = L" by (rule le_word_size [OF L(2)])
  have "\<exists>new fs'. deser_root ?inp 12 L fs = Some (True, fs') \<and> added (r_root fs) new [] fs fs' \<and>
    map erase new = rev (map mirror xs) \<and> room (r_heap fs') N"
    using ok L(1) r m8 dir loads_ok by (intro load_root) auto
  then show ?thesis using L(3,4) m8 sz by (auto simp: ramfs_deserialize_def Let_def)
qed

lemma tree_ftree_ok:
  "tree_at R m par nxt t \<Longrightarrow> all_live h (blocks t) \<Longrightarrow> heap_ok h \<Longrightarrow> ftree_ok (erase t)"
  "forest_at R m par ts \<Longrightarrow> all_live h (concat (map blocks ts)) \<Longrightarrow> heap_ok h \<Longrightarrow> \<forall>t \<in> set ts. ftree_ok (erase t)"
proof (induction R m par nxt t and R m par ts rule: tree_at_forest_at.induct)
  case (1 R m par nxt a nm d c bs)
  have "length bs < 2 ^ 32"
  proof (cases "d = 0")
    case True
    then show ?thesis using 1(1) by auto
  next
    case False
    then obtain k where "unat c \<le> k" "(d, k) \<in> heap_live h" using 1(2) by auto
    then show ?thesis using live_bound(3) [OF 1(3)] 1(1) by fastforce
  qed
  then show ?case using 1(1) by simp
next
  case (2 R m par nxt a nm ts)
  then show ?case by (auto simp: o_def)
qed auto


lemma dir_forest_ok:
  assumes "dir_at fs d ts"
  shows "\<forall>x \<in> set (map erase ts). ftree_ok x" and "distinct (map fname (map erase ts))"
proof -
  have "\<forall>t \<in> set ts. ftree_ok (erase t)"
    by (rule tree_ftree_ok(2) [of "rnodes fs" "hmem (r_heap fs)" d ts "r_heap fs"]) (use assms in \<open>simp_all add: dir_at_def\<close>)
  then show "\<forall>x \<in> set (map erase ts). ftree_ok x" by simp
  show "distinct (map fname (map erase ts))" using assms by (simp add: dir_at_def o_def)
qed

section \<open>A file system to run the operations on\<close>

lemma ramfs_init_dir:
  assumes "heap_ok (r_heap fs)" and "room (r_heap fs) (alloc_cost NODE_SIZE + N)"
  shows "\<exists>fs'. ramfs_init fs = Some fs' \<and> dir_at fs' (r_root fs') [] \<and> r_cwd fs' = r_root fs' \<and> room (r_heap fs') N"
proof -
  have nm: "name_ok [47]" by (simp add: name_ok_def)
  obtain n fs1 where a: "node_alloc NODE_DIR [47] 0 fs = Some (n, fs1)" "heap_ok (r_heap fs1)"
    and n: "n \<noteq> 0 \<longrightarrow> (\<exists>m. 120 \<le> m \<and> heap_live (r_heap fs1) = insert (n, m) (heap_live (r_heap fs))) \<and>
       rnodes fs1 = (rnodes fs)(n := new_node NODE_DIR [47] 0 0)"
    and r: "n \<noteq> 0" "room (r_heap fs1) N"
    using node_alloc_spec [OF assms(1) nm, of NODE_DIR 0] assms(2) by auto
  let ?fs = "fs1\<lparr>r_root := n, r_cwd := n\<rparr>"
  have "ramfs_init fs = Some ?fs" using a(1) by (simp add: ramfs_init_def)
  moreover have "dir_at ?fs n []" using n r(1) a(2) by (auto simp: dir_at_def new_node_def)
  ultimately show ?thesis using r(2) by auto
qed

definition demo_base :: ramfs where
  "demo_base = \<lparr>rnodes = (\<lambda>_. new_node NODE_FILE [] 0 0), r_root = 0, r_cwd = 0, r_heap = demo_heap\<rparr>"

definition demo_empty :: ramfs where
  "demo_empty = the (ramfs_init demo_base)"

text \<open>The file system with one file \<open>a\<close> that holds three bytes.\<close>

definition demo_file :: "u64 \<times> ramfs" where
  "demo_file = the (ramfs_create_file (r_root demo_empty) [97] demo_empty)"

definition demo_fs :: ramfs where
  "demo_fs = snd (the (ramfs_write (fst demo_file) [1, 2, 3] 0 (snd demo_file)))"

lemma node_cost: "alloc_cost NODE_SIZE = 256"
  by (simp add: alloc_cost_def NODE_SIZE_def heap_need_def ALIGN16_def HEADER_SIZE_def Let_def)

lemma demo_empty_dir: "dir_at demo_empty (r_root demo_empty) []" "room (r_heap demo_empty) 2000000"
  "r_cwd demo_empty = r_root demo_empty"
proof -
  have "room (r_heap demo_base) (alloc_cost NODE_SIZE + 2000000)"
    by (rule room_mono [of _ 2097152]) (simp_all add: demo_base_def demo_room node_cost)
  then obtain fs where "ramfs_init demo_base = Some fs" "dir_at fs (r_root fs) []" "r_cwd fs = r_root fs" "room (r_heap fs) 2000000"
    using ramfs_init_dir [of demo_base 2000000] demo_heap_ok by (auto simp: demo_base_def)
  then show "dir_at demo_empty (r_root demo_empty) []" "room (r_heap demo_empty) 2000000" "r_cwd demo_empty = r_root demo_empty"
    by (simp_all add: demo_empty_def)
qed

lemma demo_fs_dir: "\<exists>t. dir_at demo_fs (r_root demo_fs) [t] \<and> erase t = File [97] [1, 2, 3]"
proof -
  have "room (r_heap demo_empty) (load_cost (File [97] [1, 2, 3]) + 0)"
    by (rule room_mono [OF demo_empty_dir(2)]) (simp add: node_cost grow_cost_def)
  then obtain f fs1 r1 fs2 t where L: "ramfs_create_file (r_root demo_empty) [97] demo_empty = Some (f, fs1)"
    "ramfs_write f [1, 2, 3] 0 fs1 = Some (r1, fs2)" "added (r_root demo_empty) [t] [] demo_empty fs2" "erase t = File [97] [1, 2, 3]"
    using load_file [OF demo_empty_dir(1), of "[97]" "[1, 2, 3]" 0] by (auto simp: name_ok_def)
  have "demo_fs = fs2" by (simp add: demo_fs_def demo_file_def L(1,2))
  moreover have "dir_at fs2 (r_root fs2) [t]" using L(3) by (simp add: added_def keeps_def)
  ultimately show ?thesis using L(4) by blast
qed

section \<open>Properties\<close>

text \<open>The save format loses nothing: serialising a file system and deserialising the blob into
  an empty one with enough heap returns success and rebuilds every name, every directory and
  every byte, with the children of each directory in the opposite order.  The length is passed on
  as \<open>persist_load\<close> does, at least 16.\<close>

theorem ramfs_save_load:
  assumes "dir_at fs (r_root fs) ts" and "14 + length (encodes (map erase ts)) \<le> mx" and "mx \<le> length out" and "16 \<le> mx" and "mx < 2 ^ 32"
    and "dir_at fs2 (r_root fs2) []" and "room (r_heap fs2) (sum_list (map load_cost (map erase ts)))"
  shows "\<exists>blob len new fs3. ramfs_serialize fs mx out = Some (blob, len) \<and> length blob = length out \<and>
    ramfs_deserialize blob (max 16 len) fs2 = Some (0, fs3) \<and> dir_at fs3 (r_root fs3) new \<and>
    map erase new = rev (map mirror (map erase ts))"
proof -
  let ?xs = "map erase ts"
  let ?L = "12 + length (encodes ?xs)"
  let ?blob = "MAGIC @ le_bytes 4 (of_nat ?L :: u64) @ encodes ?xs @ drop ?L out"
  have s: "ramfs_serialize fs mx out = Some (?blob, ?L)"
    using assms by (intro serialize_blob) simp_all
  have m8: "length MAGIC = 8" by (simp add: MAGIC_def)
  obtain new fs3 where "ramfs_deserialize ?blob (max 16 ?L) fs2 = Some (0, fs3)" "added (r_root fs2) new [] fs2 fs3"
    "map erase new = rev (map mirror ?xs)"
    using deserialize_blob [OF assms(6) dir_forest_ok [OF assms(1)] refl, of "max 16 ?L" 0 "drop ?L out"] assms by auto
  moreover from this(2) have "dir_at fs3 (r_root fs3) new" by (simp add: added_def keeps_def)
  ultimately show ?thesis using s m8 assms(2,3)
    by (intro exI [of _ ?blob] exI [of _ ?L] exI [of _ new] exI [of _ fs3]) simp
qed

theorem ramfs_save_load_witness:
  "\<exists>blob len new fs3. ramfs_serialize demo_fs 64 (replicate 64 0) = Some (blob, len) \<and>
    ramfs_deserialize blob (max 16 len) demo_empty = Some (0, fs3) \<and> dir_at fs3 (r_root fs3) new \<and>
    map erase new = [File [97] [1, 2, 3]]"
proof -
  obtain t where t: "dir_at demo_fs (r_root demo_fs) [t]" "erase t = File [97] [1, 2, 3]" using demo_fs_dir by blast
  have "room (r_heap demo_empty) (load_cost (File [97] [1, 2, 3]))"
    by (rule room_mono [OF demo_empty_dir(2)]) (simp add: node_cost grow_cost_def)
  then obtain blob len new fs3 where "ramfs_serialize demo_fs 64 (replicate 64 0) = Some (blob, len)"
    "ramfs_deserialize blob (max 16 len) demo_empty = Some (0, fs3)" "dir_at fs3 (r_root fs3) new"
    "map erase new = [File [97] [1, 2, 3]]"
    using ramfs_save_load [OF t(1), of 64 "replicate 64 0" demo_empty] demo_empty_dir(1) t(2) by auto
  then show ?thesis by (intro exI [of _ blob] exI [of _ len] exI [of _ new] exI [of _ fs3] conjI)
qed

end
