(* ===== verification/Ramfs_Ops.thy ===== *)
theory Ramfs_Ops
  imports Ramfs_Blob
begin

text \<open>
  Properties of the operations of \<open>ramfs.c\<close> on the represented tree: creation and lookup,
  writing and reading, paths, unlinking, and the inputs on which \<open>ramfs_write\<close> does not
  return.
\<close>

section \<open>Paths\<close>

text \<open>Names that stand for themselves in a path.\<close>

definition plain :: "u8 list \<Rightarrow> bool" where
  "plain nm \<longleftrightarrow> name_ok nm \<and> nm \<noteq> [] \<and> 47 \<notin> set nm \<and> nm \<noteq> [46] \<and> nm \<noteq> [46, 46]"

fun path_of :: "u8 list list \<Rightarrow> u8 list" where
  "path_of [] = []"
| "path_of [n] = n"
| "path_of (n # ns) = n @ [47] @ path_of ns"

lemma path_of_Cons: "ns \<noteq> [] \<Longrightarrow> path_of (n # ns) = n @ [47] @ path_of ns"
  by (cases ns) simp_all

lemma path_of_snoc: "ns \<noteq> [] \<Longrightarrow> path_of (ns @ [n]) = path_of ns @ [47] @ n"
proof (induction ns)
  case (Cons m ns)
  then show ?case by (cases ns) simp_all
qed simp

lemma path_of_start: "ns \<noteq> [] \<Longrightarrow> \<forall>n \<in> set ns. plain n \<Longrightarrow> path_of ns \<noteq> [] \<and> hd (path_of ns) \<noteq> 47"
proof (cases ns)
  case (Cons n ms)
  assume "\<forall>n \<in> set ns. plain n"
  then have n: "n \<noteq> []" "47 \<notin> set n" using Cons by (auto simp: plain_def)
  then have "hd n \<noteq> 47" by (metis hd_in_set)
  moreover have "\<exists>r. path_of (n # ms) = n @ r" by (cases ms) simp_all
  ultimately show ?thesis using Cons n(1) by auto
qed simp

lemma takeWhile_plain: "plain n \<Longrightarrow> takeWhile (\<lambda>c. c \<noteq> 47) (n @ 47 # r) = n" "plain n \<Longrightarrow> takeWhile (\<lambda>c. c \<noteq> 47) n = n"
proof -
  assume "plain n"
  then have "\<forall>x \<in> set n. x \<noteq> 47" by (auto simp: plain_def)
  then show "takeWhile (\<lambda>c. c \<noteq> 47) (n @ 47 # r) = n" by (subst takeWhile_append2) auto
qed (auto simp: plain_def takeWhile_eq_all_conv)

lemma dropWhile_start: "p = [] \<or> hd p \<noteq> 47 \<Longrightarrow> dropWhile (\<lambda>c. c = 47) p = p"
  by (cases p) auto

lemma next_comp_plain:
  assumes "plain n" and "ns \<noteq> []" and "\<forall>m \<in> set ns. plain m"
  shows "next_comp (n @ [47] @ path_of ns) = (n, path_of ns)"
proof -
  have "length n \<le> 63" using assms(1) by (simp add: plain_def name_ok_def)
  moreover have "dropWhile (\<lambda>c. c = 47) (path_of ns) = path_of ns"
    using path_of_start [OF assms(2,3)] by (intro dropWhile_start) simp
  ultimately show ?thesis using takeWhile_plain(1) [OF assms(1)]
    by (simp add: next_comp_def RAMFS_NAME_MAX_def Let_def)
qed

lemma next_comp_last: "plain n \<Longrightarrow> next_comp n = (n, [])"
proof -
  assume n: "plain n"
  then have "length n \<le> 63" by (simp add: plain_def name_ok_def)
  then show ?thesis by (simp add: next_comp_def RAMFS_NAME_MAX_def Let_def takeWhile_plain(2) [OF n] del: takeWhile_eq_all_conv)
qed

text \<open>Walking a list of names from a directory, one \<open>ramfs_find_child\<close> at a time.\<close>

fun look :: "(u64 \<Rightarrow> rnode) \<Rightarrow> u8 list list \<Rightarrow> u64 \<Rightarrow> u64 option" where
  "look R [] d = Some d"
| "look R (n # ns) d =
     (if n_type (R d) \<noteq> NODE_DIR then Some 0
      else do { c \<leftarrow> ramfs_find_child R d n; if c = 0 then Some 0 else look R ns c })"

lemma lookup_path_of: "\<forall>n \<in> set ns. plain n \<Longrightarrow> lookup_loop R (path_of ns) d = look R ns d"
proof (induction ns arbitrary: d)
  case Nil
  then show ?case by (simp add: lookup_loop.simps)
next
  case (Cons n ns)
  have n: "plain n" "n \<noteq> []" "n \<noteq> [46]" "n \<noteq> [46, 46]" using Cons.prems by (auto simp: plain_def)
  have IH: "lookup_loop R (path_of ns) c = look R ns c" for c using Cons by simp
  show ?case
  proof (cases "ns = []")
    case True
    then show ?thesis using n IH next_comp_last [OF n(1)]
      by (cases "ramfs_find_child R d n") (simp_all add: lookup_loop.simps [of R n d])
  next
    case False
    have "next_comp (path_of (n # ns)) = (n, path_of ns)" "path_of (n # ns) \<noteq> []"
      using next_comp_plain [OF n(1) False] Cons.prems n(2) by (simp_all add: path_of_Cons [OF False])
    then show ?thesis using n IH
      by (cases "ramfs_find_child R d n") (simp_all add: lookup_loop.simps [of R "path_of (n # ns)" d])
  qed
qed

lemma look_append: "look R ns d = Some e \<Longrightarrow> e \<noteq> 0 \<Longrightarrow> look R (ns @ ms) d = look R ms e"
proof (induction ns arbitrary: d)
  case (Cons n ns)
  then show ?case by (auto split: if_splits simp: bind_eq_Some_conv)
qed simp

text \<open>\<open>reached fs ns n\<close>: node \<open>n\<close> is at the end of the names \<open>ns\<close>, starting at the root.\<close>

inductive reached :: "ramfs \<Rightarrow> u8 list list \<Rightarrow> u64 \<Rightarrow> bool" for fs where
  root: "r_root fs \<noteq> 0 \<Longrightarrow> reached fs [] (r_root fs)"
| step: "reached fs ns d \<Longrightarrow> dir_at fs d ts \<Longrightarrow> t \<in> set ts \<Longrightarrow> raddr t \<noteq> r_root fs \<Longrightarrow> reached fs (ns @ [rname t]) (raddr t)"

inductive_cases reached_snocE: "reached fs (ns @ [n]) x"

lemma child_found:
  assumes "dir_at fs d ts" and "t \<in> set ts"
  shows "ramfs_find_child (rnodes fs) d (rname t) = Some (raddr t)" and "raddr t \<noteq> 0"
    and "n_parent (rnodes fs (raddr t)) = d" and "n_name (rnodes fs (raddr t)) = rname t" and "name_ok (rname t)"
proof -
  have f: "forest_at (rnodes fs) (hmem (r_heap fs)) d ts" and dist: "distinct (map rname ts)" using assms(1) by (auto simp: dir_at_def)
  note n = forest_names [OF f assms(2)]
  then show "raddr t \<noteq> 0" "n_name (rnodes fs (raddr t)) = rname t" "name_ok (rname t)" by simp_all
  obtain u where u: "find (\<lambda>x. rname x = rname t) ts = Some u" using assms(2) by (metis (mono_tags) find_None_iff2 not_None_eq)
  then have "u \<in> set ts" "rname u = rname t" by (auto simp: find_Some_iff)
  then have "u = t" using dist assms(2) by (metis (no_types, lifting) distinct_map inj_onD)
  then show "ramfs_find_child (rnodes fs) d (rname t) = Some (raddr t)"
    using find_child_dir [OF assms(1), of "rname t"] n u by (simp add: name_ok_def)
  obtain pre post where "ts = pre @ t # post" using assms(2) by (meson split_list)
  then have "tree_at (rnodes fs) (hmem (r_heap fs)) d (first post) t" using forest_tree f by blast
  then show "n_parent (rnodes fs (raddr t)) = d" by (rule tree_at_next [THEN conjunct2])
qed

lemma reached_look: "reached fs ns n \<Longrightarrow> look (rnodes fs) ns (r_root fs) = Some n \<and> n \<noteq> 0"
proof (induction rule: reached.induct)
  case (step ns d ts t)
  note c = child_found [OF step(2,3)]
  have "n_type (rnodes fs d) = NODE_DIR" using step(2) by (simp add: dir_at_def)
  then show ?case using c step.IH by (simp add: look_append)
qed simp

lemma reached_path:
  "reached fs ns n \<Longrightarrow> length (path_of ns) < 255 \<Longrightarrow> \<forall>m \<in> set ns. plain m \<Longrightarrow>
     ramfs_get_path fs n 256 = Some ([47] @ path_of ns)"
proof (induction rule: reached.induct)
  case root
  then show ?case by (simp add: ramfs_get_path.simps)
next
  case (step ns d ts t)
  note c = child_found [OF step(2,3)]
  have len: "length (path_of ns) < 255 \<and> length (path_of ns) + 1 + length (rname t) \<le> 255 \<and>
      (ns \<noteq> [] \<longrightarrow> length (path_of ns) + 1 + length (rname t) < 255)"
    using step.prems(1) by (cases "ns = []") (simp_all add: path_of_snoc)
  have IH: "ramfs_get_path fs d 256 = Some ([47] @ path_of ns)" using step.IH len step.prems(2) by simp
  have l: "last (47 # path_of ns) = 47 \<longleftrightarrow> ns = []"
  proof (cases "ns = []")
    case False
    then obtain ms m where ms: "ns = ms @ [m]" by (metis rev_exhaust)
    then have m: "m \<noteq> []" "47 \<notin> set m" using step.prems(2) by (auto simp: plain_def)
    have "last (path_of ns) = last m" "path_of ns \<noteq> []" using ms m(1) by (cases "ms = []"; simp add: path_of_snoc)+
    moreover have "last m \<noteq> 47" using m by (metis last_in_set)
    ultimately show ?thesis using False by simp
  qed simp
  have "ramfs_get_path fs (raddr t) 256 =
      Some ((if ns = [] then [47] else [47] @ path_of ns @ [47]) @ rname t)"
    using c(2-4) step(4) IH l len
    by (subst ramfs_get_path.simps) (auto simp: Let_def)
  then show ?case by (cases "ns = []") (simp_all add: path_of_snoc)
qed


section \<open>Unlinking\<close>

lemma blocks_disjoint:
  assumes "distinct (map fst (concat (map blocks (xs @ t # ys))))" and "v \<in> set (xs @ ys)"
  shows "ptrs v \<inter> ptrs t = {}" and "distinct (map fst (blocks t))" and "distinct (map fst (concat (map blocks (xs @ ys))))"
proof -
  have d: "distinct (map fst (concat (map blocks (xs @ ys)))) \<and> distinct (map fst (blocks t)) \<and>
      set (map fst (blocks t)) \<inter> set (map fst (concat (map blocks (xs @ ys)))) = {}"
    using assms(1) distinct_middle [of "map fst (concat (map blocks xs))" "map fst (blocks t)" "map fst (concat (map blocks ys))"]
    by (simp only: map_append concat_append list.map concat.simps append_assoc)
  then show "distinct (map fst (blocks t))" "distinct (map fst (concat (map blocks (xs @ ys))))" by simp_all
  have "ptrs v \<subseteq> set (map fst (concat (map blocks (xs @ ys))))" using assms(2) by (auto simp: ptrs_def)
  then show "ptrs v \<inter> ptrs t = {}" using d unfolding ptrs_def set_map by blast
qed

lemma tree_at_relink:
  assumes "tree_at R m par nxt u" and "R' (raddr u) = (R (raddr u))\<lparr>n_next := x\<rparr>"
    and "\<And>p. p \<in> ptrs u \<Longrightarrow> p \<noteq> raddr u \<Longrightarrow> R' p = R p" and "distinct (map fst (blocks u))"
    and "\<And>p n. (p, n) \<in> set (blocks u) \<Longrightarrow> bytes_kept m m' p n"
  shows "tree_at R' m' par x u"
proof (cases u)
  case (RFile a nm d c bs)
  have "tree_at R m' par nxt u" by (rule tree_at_frame(1) [OF assms(1) refl assms(5)])
  then show ?thesis using assms(2) RFile by simp
next
  case (RDir a nm ts)
  have out: "a \<notin> ptrs t" if "t \<in> set ts" for t using assms(4) that RDir by (auto simp: ptrs_def)
  have f: "forest_at R m a ts" using assms(1) RDir by simp
  have "forest_at R' m' a ts"
  proof (rule tree_at_frame(2) [OF f])
    show "R' p = R p" if "t \<in> set ts" "p \<in> ptrs t" for t p using assms(3) [of p] out [OF that(1)] that RDir by auto
    show "bytes_kept m m' p n" if "t \<in> set ts" "(p, n) \<in> set (blocks t)" for t p n using assms(5) [of p n] that RDir by auto
  qed
  then show ?thesis using assms(1,2) RDir by simp
qed

definition slot_of :: "u64 \<Rightarrow> rtree list \<Rightarrow> slot" where
  "slot_of d pre = (if pre = [] then ChildrenOf d else NextOf (raddr (last pre)))"

lemma find_slot_forest:
  "forest_at R m par (pre @ t # post) \<Longrightarrow> rd_slot R pp = first (pre @ t # post) \<Longrightarrow>
     raddr t \<notin> raddr ` set pre \<Longrightarrow> find_slot R (raddr t) pp = Some (if pre = [] then pp else NextOf (raddr (last pre)))"
proof (induction pre arbitrary: pp)
  case Nil
  then show ?case by (simp add: find_slot.simps)
next
  case (Cons u pre)
  have u: "raddr u \<noteq> 0" "n_next (R (raddr u)) = first (pre @ t # post)"
    using Cons.prems(1) tree_at_raddr tree_at_next by (auto 0 3)
  then have "find_slot R (raddr t) (NextOf (raddr u)) = Some (if pre = [] then NextOf (raddr u) else NextOf (raddr (last pre)))"
    using Cons by simp
  moreover have "raddr u \<noteq> raddr t" using Cons.prems(3) by auto
  ultimately show ?case using Cons.prems(2) u by (simp add: find_slot.simps [of R "raddr t" pp])
qed

lemma forest_unlink:
  assumes "forest_at R m par (pre @ t # post)" and "distinct (map fst (concat (map blocks (pre @ t # post))))"
    and "\<And>u p. u \<in> set (pre @ post) \<Longrightarrow> p \<in> ptrs u \<Longrightarrow> R' p =
      (if pre \<noteq> [] \<and> p = raddr (last pre) then (R p)\<lparr>n_next := first post\<rparr> else R p)"
    and "\<And>u p n. u \<in> set (pre @ post) \<Longrightarrow> (p, n) \<in> set (blocks u) \<Longrightarrow> bytes_kept m m' p n"
  shows "forest_at R' m' par (pre @ post)"
  using assms
proof (induction pre)
  case Nil
  then show ?case by (auto intro: tree_at_frame(2))
next
  case (Cons u pre)
  have du: "distinct (map fst (blocks u))" "\<And>v p. v \<in> set (pre @ post) \<Longrightarrow> p \<in> ptrs v \<Longrightarrow> p \<notin> ptrs u"
    using blocks_disjoint(1,2) [of "[]" u "pre @ t # post"] Cons.prems(2) by auto
  have tu: "tree_at R m par (first (pre @ t # post)) u" using Cons.prems(1) by simp
  have bu: "bytes_kept m m' p n" if "(p, n) \<in> set (blocks u)" for p n using Cons.prems(4) [of u p n] that by simp
  have Ru: "R' p = (if p = raddr (last (u # pre)) then (R p)\<lparr>n_next := first post\<rparr> else R p)" if "p \<in> ptrs u" for p
    using Cons.prems(3) [of u p] that by simp
  have IH: "forest_at R' m' par (pre @ post)"
  proof (rule Cons.IH)
    show "R' p = (if pre \<noteq> [] \<and> p = raddr (last pre) then (R p)\<lparr>n_next := first post\<rparr> else R p)"
      if "v \<in> set (pre @ post)" "p \<in> ptrs v" for v p
    proof -
      have "p \<noteq> raddr u" using du(2) [OF that] by auto
      then show ?thesis using Cons.prems(3) [of v p] that by auto
    qed
    show "bytes_kept m m' p n" if "v \<in> set (pre @ post)" "(p, n) \<in> set (blocks v)" for v p n
      using Cons.prems(4) [of v p n] that by simp
  qed (use Cons.prems in auto)
  have "tree_at R' m' par (first (pre @ post)) u"
  proof (cases "pre = []")
    case True
    show ?thesis
      by (rule tree_at_relink [OF tu _ _ du(1) bu]) (use Ru True in auto)
  next
    case False
    then have "raddr (last pre) \<notin> ptrs u" using du(2) [of "last pre"] by simp
    then have "tree_at R' m' par (first (pre @ t # post)) u"
      using Ru False by (intro tree_at_frame(1) [OF tu _ bu]) auto
    then show ?thesis using False by (cases pre) simp_all
  qed
  then show ?case using IH by simp
qed


lemma wr_slot_simps [simp]:
  "r_heap (wr_slot s v fs) = r_heap fs" "r_root (wr_slot s v fs) = r_root fs" "r_cwd (wr_slot s v fs) = r_cwd fs"
  by (cases s; simp)+

text \<open>Releasing the buffer and the node of a tree without children.\<close>

definition leaf :: "rtree \<Rightarrow> bool" where
  "leaf t \<longleftrightarrow> (case t of RFile _ _ _ _ _ \<Rightarrow> True | RDir _ _ ks \<Rightarrow> ks = [])"

definition leaf_data :: "rtree \<Rightarrow> u64" where
  "leaf_data t = (case t of RFile _ _ p _ _ \<Rightarrow> p | RDir _ _ _ \<Rightarrow> 0)"

lemma release_leaf:
  assumes ok: "heap_ok h" and l: "all_live h (blocks t)" "leaf t" and d: "distinct (map fst (blocks t))"
  shows "\<exists>h1 h'. (if leaf_data t \<noteq> 0 then kfree (leaf_data t) h else Some h) = Some h1 \<and> kfree (raddr t) h1 = Some h' \<and>
    heap_ok h' \<and> hmem h' = hmem h \<and> (\<forall>q m. (q, m) \<in> heap_live h \<longrightarrow> q \<notin> ptrs t \<longrightarrow> (q, m) \<in> heap_live h')"
proof -
  let ?p = "leaf_data t" and ?a = "raddr t"
  have pt: "?p \<noteq> 0 \<longrightarrow> ?p \<in> ptrs t \<and> ?p \<noteq> ?a" using d by (cases t) (auto simp: leaf_data_def)
  obtain h1 where h1: "(if ?p \<noteq> 0 then kfree ?p h else Some h) = Some h1" "heap_ok h1" "hmem h1 = hmem h"
    "\<forall>q m. (q, m) \<in> heap_live h \<longrightarrow> q \<noteq> ?p \<or> ?p = 0 \<longrightarrow> (q, m) \<in> heap_live h1"
  proof (cases "?p = 0")
    case False
    then obtain k where "(?p, k) \<in> heap_live h" using l(1) by (cases t) (auto simp: leaf_data_def)
    then obtain h1 where "kfree ?p h = Some h1" "heap_ok h1" "hmem h1 = hmem h" "heap_live h1 = heap_live h - {(?p, k)}"
      using kfree_live [OF ok] by blast
    then show ?thesis using False by (intro that [of h1]) auto
  qed (use ok that in auto)
  obtain k where "(?a, k) \<in> heap_live h" using l(1) by (cases t) auto
  then have "(?a, k) \<in> heap_live h1" using h1(4) pt by metis
  then obtain h' where "kfree ?a h1 = Some h'" "heap_ok h'" "hmem h' = hmem h1" "heap_live h' = heap_live h1 - {(?a, k)}"
    using kfree_live [OF h1(2)] by blast
  moreover have "(q, m) \<in> heap_live h1 - {(?a, k)}" if "(q, m) \<in> heap_live h" "q \<notin> ptrs t" for q m
  proof -
    have "q \<noteq> ?p \<or> ?p = 0" "q \<noteq> ?a" using that(2) pt by auto
    then show ?thesis using h1(4) that(1) by blast
  qed
  ultimately show ?thesis using h1(1,3) by (intro exI [of _ h1] exI [of _ h']) simp
qed

lemma leaf_node:
  assumes "tree_at R m par nxt t" and "leaf t"
  shows "n_data (R (raddr t)) = leaf_data t" "n_parent (R (raddr t)) = par" "n_next (R (raddr t)) = nxt"
    "\<not> (n_type (R (raddr t)) = NODE_DIR \<and> n_children (R (raddr t)) \<noteq> 0)"
  using assms by (cases t; simp add: leaf_def leaf_data_def)+

lemma slot_reads:
  assumes "forest_at R m d (pre @ t # post)" and "n_children (R d) = first (pre @ t # post)"
  shows "rd_slot R (slot_of d pre) = raddr t"
proof (cases "pre = []")
  case False
  then obtain ps u where pre: "pre = ps @ [u]" by (metis rev_exhaust)
  then have "forest_at R m d (ps @ u # t # post)" using assms(1) by simp
  then have "tree_at R m d (raddr t) u" using forest_tree by fastforce
  then show ?thesis using pre tree_at_next [of R m d "raddr t" u] by (simp add: slot_of_def)
qed (use assms(2) in \<open>simp add: slot_of_def\<close>)

lemma unlink_spec:
  assumes dir: "dir_at fs d (pre @ t # post)" and leaf: "leaf t"
  shows "\<exists>fs'. ramfs_unlink_node (raddr t) fs = Some (0, fs') \<and> dir_at fs' d (pre @ post)"
proof -
  let ?ts = "pre @ t # post" and ?s = "slot_of d pre" and ?R = "rnodes fs" and ?h = "r_heap fs"
  have F: "forest_at ?R (hmem ?h) d ?ts" and d0: "d \<noteq> 0" and nt: "n_type (?R d) = NODE_DIR" and ch: "n_children (?R d) = first ?ts" and ok: "heap_ok ?h"
    and live: "all_live ?h ((d, 120) # concat (map blocks ?ts))"
    and dist: "distinct (map fst ((d, 120) # concat (map blocks ?ts)))"
    using dir by (simp_all add: dir_at_def del: all_live_simps map_append)
  have T: "tree_at ?R (hmem ?h) d (first post) t" by (rule forest_tree [OF F])
  note ln = leaf_node [OF T leaf] and a0 = tree_at_raddr [OF T]
  have dist': "distinct (map fst (concat (map blocks ?ts)))" using dist by simp
  note dj = blocks_disjoint [OF dist']
  have dd: "d \<notin> ptrs u" if "u \<in> set ?ts" for u using dir_at_ptrs(3) [OF dir that] .
  have "raddr t \<notin> raddr ` set pre"
  proof
    assume "raddr t \<in> raddr ` set pre"
    then obtain u where "u \<in> set pre" "raddr u = raddr t" by auto
    then show False using dj(1) [of u] raddr_ptrs [of u] raddr_ptrs [of t] by auto
  qed
  then have fs: "find_slot ?R (raddr t) (ChildrenOf d) = Some ?s"
    using find_slot_forest [OF F, of "ChildrenOf d"] ch by (simp add: slot_of_def)
  have rs: "rd_slot ?R ?s = raddr t" by (rule slot_reads [OF F ch])
  let ?fs1 = "wr_slot ?s (first post) fs"
  have R1: "rnodes ?fs1 p = (if pre = [] \<and> p = d then (?R d)\<lparr>n_children := first post\<rparr>
      else if pre \<noteq> [] \<and> p = raddr (last pre) then (?R p)\<lparr>n_next := first post\<rparr> else ?R p)" for p by (simp add: slot_of_def)
  have lp: "raddr (last pre) \<noteq> raddr t \<and> raddr (last pre) \<noteq> d" if "pre \<noteq> []"
  proof -
    have "last pre \<in> set (pre @ post)" "last pre \<in> set ?ts" using that by simp_all
    then show ?thesis using dj(1) [of "last pre"] dd [of "last pre"] raddr_ptrs [of "last pre"] raddr_ptrs [of t]
      by (metis disjoint_iff)
  qed
  have Rt: "rnodes ?fs1 (raddr t) = ?R (raddr t)" unfolding R1 using lp dd [of t] raddr_ptrs [of t] by (metis in_set_conv_decomp)
  have bl: "all_live ?h (blocks t)" "distinct (map fst (blocks t))" using live dist by simp_all
  obtain h1 h' where h: "(if leaf_data t \<noteq> 0 then kfree (leaf_data t) ?h else Some ?h) = Some h1" "kfree (raddr t) h1 = Some h'"
    "heap_ok h'" "hmem h' = hmem ?h" "\<forall>q m. (q, m) \<in> heap_live ?h \<longrightarrow> q \<notin> ptrs t \<longrightarrow> (q, m) \<in> heap_live h'"
    using release_leaf [OF ok bl(1) leaf bl(2)] by blast
  let ?fs = "?fs1\<lparr>r_heap := h'\<rparr>"
  have g: "\<not> (raddr t = 0 \<or> n_parent (?R (raddr t)) = 0)" using a0 d0 ln(2) by simp
  have ul: "ramfs_unlink_node (raddr t) fs = Some (0, ?fs)"
    using a0 d0 h(2) unfolding ramfs_unlink_node_def if_not_P [OF g] if_not_P [OF ln(4)] ln(2,3) fs
      Option.bind.bind_lunit rs Let_def wr_slot_simps Rt ln(1) h(1) by simp
  have F': "forest_at (rnodes ?fs) (hmem h') d (pre @ post)"
  proof (rule forest_unlink [OF F dist'])
    show "rnodes ?fs p = (if pre \<noteq> [] \<and> p = raddr (last pre) then (?R p)\<lparr>n_next := first post\<rparr> else ?R p)"
      if "u \<in> set (pre @ post)" "p \<in> ptrs u" for u p
    proof -
      have "p \<noteq> d" using dd [of u] that by auto
      then show ?thesis by (simp add: R1)
    qed
  qed (simp add: h(4))
  have L': "all_live h' ((d, 120) # concat (map blocks (pre @ post)))"
    unfolding all_live_def
  proof safe
    fix q n assume q: "(q, n) \<in> set ((d, 120) # concat (map blocks (pre @ post)))"
    consider "q = d" | u where "u \<in> set (pre @ post)" "q \<in> ptrs u" using q unfolding ptrs_def by force
    then have "q \<notin> ptrs t" using dj(1) dd [of t] by cases auto
    moreover obtain m where "n \<le> m" "(q, m) \<in> heap_live ?h" using q live all_liveD [of ?h "(d, 120) # concat (map blocks ?ts)" q n] by auto
    ultimately show "\<exists>m\<ge>n. (q, m) \<in> heap_live h'" using h(5) by blast
  qed
  have d1: "rnodes ?fs1 d = (if pre = [] then (?R d)\<lparr>n_children := first post\<rparr> else ?R d)"
    unfolding R1 using lp by (cases "pre = []") auto
  have f1: "first (pre @ t # post) = first (pre @ post)" if "pre \<noteq> []" using that by (cases pre) simp_all
  have rest: "distinct (map fst ((d, 120) # concat (map blocks (pre @ post))))" "distinct (map rname (pre @ post))"
    using dist dir unfolding distinct_blocks_middle by (simp, simp add: dir_at_def)
  have "n_children (rnodes ?fs d) = first (pre @ post)" "n_type (rnodes ?fs d) = NODE_DIR"
    using ch nt d1 f1 by (cases "pre = []"; simp)+
  then have "dir_at ?fs d (pre @ post)"
    using F' L' d0 h(3) dist rest unfolding dir_at_def by (simp del: all_live_simps)
  then show ?thesis using ul by blast
qed


section \<open>Writes that do not return\<close>

lemma grow_cap_pos:
  assumes "grow_cap n c = Some y"
  shows "n \<noteq> 0 \<longrightarrow> c \<noteq> 0"
proof (rule grow_cap.raw_induct [where P = "\<lambda>n c y. n \<noteq> 0 \<longrightarrow> c \<noteq> 0", OF _ assms])
  fix f :: "u64 \<Rightarrow> u64 \<Rightarrow> u64 option" and n c y
  assume IH: "\<And>n c y. f n c = Some y \<Longrightarrow> n \<noteq> 0 \<longrightarrow> c \<noteq> 0"
    and body: "(if c < n then f n (c * 2) else Some c) = Some y"
  show "n \<noteq> 0 \<longrightarrow> c \<noteq> 0"
  proof (intro impI notI)
    assume "n \<noteq> 0" "c = 0"
    then have "f n 0 = Some y" using body by (simp add: word_gt_0)
    then show False using IH \<open>n \<noteq> 0\<close> by blast
  qed
qed

lemma grow_cap_zero: "need \<noteq> 0 \<Longrightarrow> grow_cap need 0 = None"
  using grow_cap_pos [of need 0] by (cases "grow_cap need 0") auto

lemma grow_cap_hangs:
  assumes "k \<le> 63" and "2 ^ 63 < unat need"
  shows "grow_cap need (2 ^ k) = None"
  using assms
proof (induction "63 - k" arbitrary: k)
  case 0
  then have "k = 63" by simp
  have u: "unat (2 ^ 63 :: u64) = 2 ^ 63" by simp
  then have "(2 ^ k :: u64) < need" using 0 \<open>k = 63\<close> by (simp add: word_less_nat_alt)
  moreover have "(2 ^ k * 2 :: u64) = 0" using \<open>k = 63\<close> by simp
  moreover have "need \<noteq> 0" using 0(3) by auto
  ultimately show ?case using grow_cap_zero [of need] by (simp add: grow_cap.simps [of need "2 ^ k"])
next
  case (Suc j)
  have k: "(2 :: nat) ^ k < 2 ^ 63" using Suc by (intro power_strict_increasing) simp_all
  have "unat (of_nat (2 ^ k) :: u64) = 2 ^ k" using k by (intro unat_of_nat_64) simp
  then have "unat (2 ^ k :: u64) = 2 ^ k" by simp
  moreover note k
  ultimately have "(2 ^ k :: u64) < need" using Suc.prems(2) by (simp add: word_less_nat_alt)
  moreover have "grow_cap need (2 ^ (k + 1)) = None" using Suc by (intro Suc.hyps) simp_all
  ultimately show ?case by (simp add: grow_cap.simps [of need "2 ^ k"] mult.commute)
qed

section \<open>Properties\<close>

text \<open>Creating a node: in any directory \<open>ramfs_create_file\<close> and \<open>ramfs_mkdir\<close> return; a name
  that is taken is refused without any change; with a free name and heap for one node, the new
  node is found by its name, is empty, stands first in the directory, and every other name still
  leads to the node it led to.\<close>

theorem ramfs_create_correct:
  assumes "dir_at fs d ts" and "name_ok nm"
  shows "if nm \<in> rname ` set ts then ramfs_create_file d nm fs = Some (0, fs) \<and> ramfs_mkdir d nm fs = Some (0, fs)
    else \<forall>ty. \<exists>n fs'. create_node ty d nm fs = Some (n, fs') \<and>
      (n = 0 \<longrightarrow> fs' = fs \<and> \<not> room (r_heap fs) (alloc_cost NODE_SIZE)) \<and>
      (n \<noteq> 0 \<longrightarrow> dir_at fs' d (empty_node ty n nm # ts) \<and> ramfs_find_child (rnodes fs') d nm = Some n \<and>
        (\<forall>t \<in> set ts. ramfs_find_child (rnodes fs') d (rname t) = Some (raddr t)))"
proof (cases "nm \<in> rname ` set ts")
  case True
  then obtain t where "t \<in> set ts" "nm = rname t" by auto
  then show ?thesis using create_node_exists [OF assms(1)] True
    by (simp add: ramfs_create_file_def ramfs_mkdir_def)
next
  case False
  have "\<exists>n fs'. create_node ty d nm fs = Some (n, fs') \<and>
      (n = 0 \<longrightarrow> fs' = fs \<and> \<not> room (r_heap fs) (alloc_cost NODE_SIZE)) \<and>
      (n \<noteq> 0 \<longrightarrow> dir_at fs' d (empty_node ty n nm # ts) \<and> ramfs_find_child (rnodes fs') d nm = Some n \<and>
        (\<forall>t \<in> set ts. ramfs_find_child (rnodes fs') d (rname t) = Some (raddr t)))" for ty
  proof -
    obtain n fs' where c: "create_node ty d nm fs = Some (n, fs')" "n = 0 \<longrightarrow> fs' = fs"
      "n \<noteq> 0 \<longrightarrow> dir_at fs' d (empty_node ty n nm # ts)"
      "room (r_heap fs) (alloc_cost NODE_SIZE + 0) \<longrightarrow> n \<noteq> 0"
      using create_node_spec [OF assms False, of ty] by blast
    have "ramfs_find_child (rnodes fs') d (rname t) = Some (raddr t)"
      if "n \<noteq> 0" "t \<in> set (empty_node ty n nm # ts)" for t
      using child_found(1) [of fs' d "empty_node ty n nm # ts" t] c(3) that by simp
    from this [of "empty_node ty n nm"] this show ?thesis using c by (intro exI [of _ n] exI [of _ fs']) auto
  qed
  then show ?thesis using False by simp
qed

theorem ramfs_create_correct_witness:
  "ramfs_create_file (r_root demo_fs) [97] demo_fs = Some (0, demo_fs)"
proof -
  obtain t where t: "dir_at demo_fs (r_root demo_fs) [t]" "erase t = File [97] [1, 2, 3]" using demo_fs_dir by blast
  have n: "rname t = [97]" using t(2) by (cases t) simp_all
  show ?thesis using ramfs_create_correct [OF t(1), of "[97]"] n by (simp add: name_ok_def split: if_splits)
qed

text \<open>\<open>ramfs_write\<close> refuses exactly when the buffer has to grow and \<open>kmalloc\<close> has no block for it.\<close>

definition no_room_to_grow :: "u64 \<Rightarrow> u64 \<Rightarrow> ramfs \<Rightarrow> bool" where
  "no_room_to_grow f need fs \<longleftrightarrow>
     (let c = n_capacity (rnodes fs f) in
      c < need \<and>
      (case grow_cap need (if c \<noteq> 0 then c else 64) of
         None \<Rightarrow> False
       | Some cap \<Rightarrow> (case kmalloc cap (r_heap fs) of None \<Rightarrow> False | Some (p, h) \<Rightarrow> p = 0)))"

lemma grow_file_flag: "grow_file f need fs = Some (ok, fs') \<Longrightarrow> ok \<longleftrightarrow> \<not> no_room_to_grow f need fs"
  unfolding grow_file_def no_room_to_grow_def Let_def
  by (auto split: if_splits option.splits prod.splits simp: bind_eq_Some_conv)

lemma ramfs_write_refusal:
  assumes "file_at fs f d c bs" and "length src < 2 ^ 31" and "ramfs_write f src off fs = Some (r, fs')"
  shows "r = - 1 \<longleftrightarrow> no_room_to_grow f (off + of_nat (length src)) fs"
proof -
  have f0: "\<not> (f = 0 \<or> n_type (rnodes fs f) \<noteq> NODE_FILE)" using assms(1) by (auto simp: file_at_def)
  obtain ok g where g: "grow_file f (off + of_nat (length src)) fs = Some (ok, g)"
    using assms(3) f0 by (auto simp: ramfs_write_def Let_def bind_eq_Some_conv)
  then have "r = (if ok then c_int (of_nat (length src)) else - 1)"
    using assms(3) f0 by (auto simp: ramfs_write_def Let_def split: if_splits)
  moreover have "c_int (of_nat (length src)) \<noteq> - 1" using assms(2) by (simp add: c_int_of_nat)
  ultimately show ?thesis using grow_file_flag [OF g] by auto
qed

text \<open>Within the capacity there is nothing to refuse.\<close>

lemma fits_no_refusal: "file_at fs f d c bs \<Longrightarrow> need \<le> c \<Longrightarrow> \<not> no_room_to_grow f need fs"
  by (auto simp: no_room_to_grow_def file_at_def Let_def dest: leD)

text \<open>C6. Writing and reading back: \<open>ramfs_write\<close> on a file of a directory returns either -1 with
  nothing changed or the number of bytes; then reading the same range gives the bytes written,
  the bytes of the file outside the range are the old ones, and the directory holds the same
  other files with the same contents.\<close>

theorem ramfs_write_read:
  assumes "dir_at fs d (pre @ RFile f nm p c bs # post)" and "unat off + length src < 2 ^ 31"
  shows "\<exists>r fs'. ramfs_write f src off fs = Some (r, fs') \<and>
    (r = - 1 \<and> fs' = fs \<or>
     r = int (length src) \<and> (\<exists>p' c' bs'. dir_at fs' d (pre @ RFile f nm p' c' bs' # post) \<and> written bs (unat off) src bs' \<and>
       ramfs_read f (of_nat (length src)) off fs' = (int (length src), src)))"
proof -
  have fa: "file_at fs f p c bs" by (rule dir_file_at [OF assms(1)])
  note ci = c_int_of_nat
  obtain r fs' where w: "ramfs_write f src off fs = Some (r, fs')"
    "r = - 1 \<and> fs' = fs \<or> r = c_int (of_nat (length src)) \<and> write_done fs f p bs (unat off) src fs'"
    using ramfs_write_spec [OF fa, of off src] assms(2) by auto
  show ?thesis
  proof (cases "r = - 1 \<and> fs' = fs")
    case True
    then show ?thesis using w(1) by blast
  next
    case False
    then have d: "r = int (length src)" "write_done fs f p bs (unat off) src fs'" using w(2) ci assms(2) by auto
    obtain p' c' bs' where b: "written bs (unat off) src bs'" "dir_at fs' d (pre @ RFile f nm p' c' bs' # post)"
      using dir_write [OF assms(1) d(2)] by blast
    have u: "unat (of_nat (length src) :: u64) = length src" using assms(2) by (intro unat_of_nat_64) simp
    have "ramfs_read f (of_nat (length src)) off fs' = (int (length src), src)"
      using ramfs_read_spec [OF dir_file_at [OF b(2)], of "of_nat (length src)" off] written_read [OF b(1)] u ci assms(2)
      by (simp add: Let_def)
    then show ?thesis using w(1) d(1) b by (intro exI [of _ r] exI [of _ fs']) auto
  qed
qed

theorem ramfs_write_read_witness:
  "\<exists>f r fs'. ramfs_write f [9, 8] 1 demo_fs = Some (r, fs') \<and>
    (r = - 1 \<and> fs' = demo_fs \<or> r = 2 \<and> ramfs_read f 2 1 fs' = (2, [9, 8]))"
proof -
  obtain t where t: "dir_at demo_fs (r_root demo_fs) [t]" "erase t = File [97] [1, 2, 3]" using demo_fs_dir by blast
  then obtain f p c where e: "t = RFile f [97] p c [1, 2, 3]" by (cases t) auto
  then have "dir_at demo_fs (r_root demo_fs) ([] @ RFile f [97] p c [1, 2, 3] # [])" using t(1) by simp
  from ramfs_write_read [OF this, of 1 "[9, 8]"] show ?thesis by auto
qed

text \<open>The path that \<open>ramfs_get_path\<close> builds for a node leads back to it: for a node below the
  root whose names stand for themselves and whose path fits in the 256-byte buffers,
  \<open>ramfs_lookup\<close> of the path returns the node.\<close>

theorem ramfs_path_round_trip:
  assumes "reached fs ns n" and "\<forall>m \<in> set ns. plain m" and "length (path_of ns) < 255"
  shows "\<exists>p. ramfs_get_path fs n 256 = Some p \<and> p = [47] @ path_of ns \<and> ramfs_lookup p fs = Some n"
  using reached_path [OF assms(1,3,2)] reached_look [OF assms(1)] lookup_path_of [OF assms(2)]
  by (simp add: ramfs_lookup_def)

theorem ramfs_path_round_trip_witness:
  "\<exists>n. ramfs_get_path demo_fs n 256 = Some [47, 97] \<and> ramfs_lookup [47, 97] demo_fs = Some n \<and> n \<noteq> r_root demo_fs"
proof -
  obtain t where t: "dir_at demo_fs (r_root demo_fs) [t]" "erase t = File [97] [1, 2, 3]" using demo_fs_dir by blast
  have n: "rname t = [97]" using t(2) by (cases t) simp_all
  have ne: "raddr t \<noteq> r_root demo_fs" "r_root demo_fs \<noteq> 0"
    using dir_at_ptrs(3) [OF t(1), of t] raddr_ptrs [of t] by (metis list.set_intros(1)) (use t(1) in \<open>simp add: dir_at_def\<close>)
  have "reached demo_fs ([] @ [[97]]) (raddr t)" using reached.step [OF reached.root t(1), of t] ne n by simp
  from ramfs_path_round_trip [OF this] show ?thesis using ne by (auto simp: plain_def name_ok_def)
qed

text \<open>Removing a file or an empty directory: \<open>ramfs_unlink_node\<close> returns 0, releases the node
  and its buffer, and leaves in the directory exactly the other nodes, wherever the removed one
  stood in the list.\<close>

theorem ramfs_unlink_correct:
  assumes "dir_at fs d (pre @ t # post)" and "leaf t"
  shows "\<exists>fs'. ramfs_unlink_node (raddr t) fs = Some (0, fs') \<and> dir_at fs' d (pre @ post) \<and>
    ramfs_find_child (rnodes fs') d (rname t) = Some 0"
proof -
  obtain fs' where u: "ramfs_unlink_node (raddr t) fs = Some (0, fs')" "dir_at fs' d (pre @ post)"
    using unlink_spec [OF assms] by blast
  have "rname t \<notin> rname ` set (pre @ post)" "0 \<notin> set (rname t)"
    using assms(1) child_found(5) [OF assms(1), of t] by (auto simp: dir_at_def name_ok_def)
  then have "\<forall>x \<in> set (pre @ post). rname x \<noteq> rname t" by (metis image_eqI)
  then have "find (\<lambda>x. rname x = rname t) (pre @ post) = None" by (auto simp: find_None_iff)
  then show ?thesis using u find_child_dir [OF u(2) \<open>0 \<notin> set (rname t)\<close>] by simp
qed

theorem ramfs_unlink_correct_witness:
  "\<exists>n fs'. ramfs_unlink_node n demo_fs = Some (0, fs') \<and> dir_at fs' (r_root demo_fs) []"
proof -
  obtain t where t: "dir_at demo_fs (r_root demo_fs) ([] @ t # [])" "erase t = File [97] [1, 2, 3]" using demo_fs_dir by auto
  have "leaf t" using t(2) by (cases t) (simp_all add: leaf_def)
  from ramfs_unlink_correct [OF t(1) this] show ?thesis by auto
qed

text \<open>C29. \<open>ramfs_write\<close> has no limit on the size: when offset plus length exceed \<open>2 ^ 63\<close>, the
  doubling of the capacity of an empty file wraps to zero and the loop never ends.\<close>

theorem ramfs_write_hangs:
  assumes "file_at fs f 0 0 []" and "2 ^ 63 < unat (off + of_nat (length src))"
  shows "ramfs_write f src off fs = None"
proof -
  have "grow_cap (off + of_nat (length src)) (2 ^ 6) = None" by (rule grow_cap_hangs) (use assms(2) in simp_all)
  moreover have "0 < off + of_nat (length src)" using assms(2) by (auto simp: word_gt_0)
  ultimately show ?thesis using assms(1) by (simp add: ramfs_write_def grow_file_def file_at_def Let_def)
qed

theorem ramfs_write_hangs_witness:
  "ramfs_write (fst demo_file) [1] 0x8000000000000000 (snd demo_file) = None"
proof -
  have "room (r_heap demo_empty) (load_cost (File [97] [1, 2, 3]) + 0)"
    by (rule room_mono [OF demo_empty_dir(2)]) (simp add: node_cost grow_cost_def)
  then have "room (r_heap demo_empty) (alloc_cost NODE_SIZE + grow_cost 3)" by (simp add: numeral_3_eq_3)
  then obtain n fs' where c: "create_node NODE_FILE (r_root demo_empty) [97] demo_empty = Some (n, fs')"
    "dir_at fs' (r_root demo_empty) (empty_node NODE_FILE n [97] # [])"
    using create_node_spec [OF demo_empty_dir(1), of "[97]" NODE_FILE] by (auto simp: name_ok_def)
  have "file_at fs' n 0 0 []" using c(2) by (intro dir_file_at [of _ _ "[]"]) simp
  moreover have big: "2 ^ 63 < unat (0x8000000000000000 + of_nat (length [1 :: u8]) :: u64)" by simp
  moreover have "demo_file = (n, fs')" using c(1) by (simp add: demo_file_def ramfs_create_file_def)
  ultimately show ?thesis using ramfs_write_hangs [of fs' n "0x8000000000000000" "[1]"]
    by (metis fst_conv snd_conv big)
qed

text \<open>Names of 64 characters and more: creation stores the first 63 characters, but lookup reads
  the name as two components, so that the file is not found under the name it was created with.\<close>

lemma ramfs_long_name_lost:
  assumes "dir_at fs (r_root fs) [RFile f (str_copy nm RAMFS_NAME_MAX) p c bs]" and "63 < length nm" "length nm < 126"
    and "0 \<notin> set nm" "47 \<notin> set nm" and "drop 63 nm \<noteq> [46]" "drop 63 nm \<noteq> [46, 46]"
  shows "ramfs_lookup (47 # nm) fs = Some 0"
proof -
  let ?a = "take 63 nm" and ?b = "drop 63 nm"
  have cut: "str_copy s (Suc n) = take n s" if "0 \<notin> set s" for s n
    using that by (induction s arbitrary: n) (auto simp: take_Cons split: nat.splits)
  have dir: "dir_at fs (r_root fs) [RFile f ?a p c bs]"
    using assms(1) cut [OF assms(4), of 63] by (simp add: RAMFS_NAME_MAX_def)
  have tw: "takeWhile (\<lambda>c. c \<noteq> 47) nm = nm" "takeWhile (\<lambda>c. c \<noteq> 47) ?b = ?b"
    using assms(5) by (auto simp: takeWhile_eq_all_conv dest: in_set_dropD)
  have "hd ?b \<in> set nm" using assms(2) hd_in_set [of ?b] in_set_dropD by fastforce
  then have "dropWhile (\<lambda>c. c = 47) ?b = ?b" using assms(5) by (intro dropWhile_start) auto
  then have n1: "next_comp nm = (?a, ?b)"
    unfolding next_comp_def tw(1) using assms(2) by (simp add: RAMFS_NAME_MAX_def Let_def)
  have n2: "next_comp ?b = (?b, [])" unfolding next_comp_def tw(2) using assms(3) by (simp add: RAMFS_NAME_MAX_def Let_def)
  have "ramfs_find_child (rnodes fs) (r_root fs) ?a = Some f" "f \<noteq> 0"
    using child_found(1,2) [OF dir, of "RFile f ?a p c bs"] by simp_all
  moreover have "n_type (rnodes fs f) = NODE_FILE" "n_type (rnodes fs (r_root fs)) = NODE_DIR"
    using dir by (simp_all add: dir_at_def)
  moreover have "?a \<noteq> []" "?a \<noteq> [46]" "?a \<noteq> [46, 46]" using assms(2) by (auto dest: arg_cong [where f = length])
  ultimately have "lookup_loop (rnodes fs) nm (r_root fs) = Some 0"
    using assms(2,6,7) n1 n2
    by (simp add: lookup_loop.simps [of _ nm] lookup_loop.simps [of _ ?b])
  then show ?thesis by (simp add: ramfs_lookup_def)
qed

end
