(* ===== verification/File_Table.thy ===== *)
theory File_Table
  imports Ramfs_Ops
begin

text \<open>
  Open files, \<open>kernel/fs/file.c\<close>: the table of descriptors over the file system of
  \<open>ramfs.c\<close>.  The state is the table together with the file system.  A path is a byte list
  without its NUL; the bytes a call stores in the caller's buffer are part of its result.
  \<open>None\<close> is a walk along the nodes that never ends.
\<close>

section \<open>The descriptor table\<close>

definition MAX_FD :: nat where "MAX_FD = 64"

record file_t =
  f_used :: bool
  f_node :: u64
  f_pos :: u64
  f_is_dir :: bool

record files =
  fd_table :: "file_t list"
  fl_fs :: ramfs

definition no_file :: file_t where
  "no_file = \<lparr>f_used = False, f_node = 0, f_pos = 0, f_is_dir = False\<rparr>"

definition file_init :: "files \<Rightarrow> files" where
  "file_init st = st\<lparr>fd_table := replicate MAX_FD no_file\<rparr>"

text \<open>The guard \<open>fd < 3 || fd >= MAX_FD || !fd_table[fd].used\<close>.\<close>

definition bad_fd :: "int \<Rightarrow> files \<Rightarrow> bool" where
  "bad_fd fd st \<longleftrightarrow> fd < 3 \<or> int MAX_FD \<le> fd \<or> \<not> f_used (fd_table st ! nat fd)"

text \<open>The loop that takes the first unused entry.\<close>

definition take_fd :: "u64 \<Rightarrow> bool \<Rightarrow> files \<Rightarrow> int \<times> files" where
  "take_fd n dir st =
     (case find (\<lambda>i. \<not> f_used (fd_table st ! i)) [3..<MAX_FD] of
        None \<Rightarrow> (- 1, st)
      | Some i \<Rightarrow> (int i, st\<lparr>fd_table := (fd_table st)[i := \<lparr>f_used = True, f_node = n, f_pos = 0, f_is_dir = dir\<rparr>]\<rparr>))"

text \<open>\<open>for (i = 0; name[i]; i++) if (name[i] == '/') last_slash = i;\<close>\<close>

fun slash_loop :: "u8 list \<Rightarrow> int \<Rightarrow> int \<Rightarrow> int" where
  "slash_loop [] i last_slash = last_slash"
| "slash_loop (c # s) i last_slash = slash_loop s (i + 1) (if c = 47 then i else last_slash)"

text \<open>The part of \<open>file_open\<close> for a path that is not there; 0 is the failure.\<close>

definition open_create :: "u8 list \<Rightarrow> ramfs \<Rightarrow> (u64 \<times> ramfs) option" where
  "open_create name fs =
     (let last_slash = slash_loop name 0 (- 1) in
      if 0 \<le> last_slash then do {
        let plen = (if 127 < last_slash then 127 else last_slash);
        parent \<leftarrow> (if plen = 0 then Some (r_root fs) else ramfs_lookup (take (nat plen) name) fs);
        if parent = 0 \<or> n_type (rnodes fs parent) \<noteq> NODE_DIR then Some (0, fs)
        else ramfs_create_file parent (drop (nat last_slash + 1) name) fs
      }
      else ramfs_create_file (r_cwd fs) name fs)"

definition file_open :: "u8 list \<Rightarrow> files \<Rightarrow> (int \<times> files) option" where
  "file_open name st = do {
     n \<leftarrow> ramfs_lookup name (fl_fs st);
     (n, fs) \<leftarrow> (if n = 0 then open_create name (fl_fs st) else Some (n, fl_fs st));
     let st = st\<lparr>fl_fs := fs\<rparr>;
     if n = 0 then Some (- 1, st)
     else if n_type (rnodes fs n) \<noteq> NODE_FILE then Some (- 1, st)
     else Some (take_fd n False st)
   }"

definition file_close :: "int \<Rightarrow> files \<Rightarrow> int \<times> files" where
  "file_close fd st =
     (if bad_fd fd st then (- 1, st) else (0, st\<lparr>fd_table := (fd_table st)[nat fd := no_file]\<rparr>))"

text \<open>\<open>if (r > 0) fd_table[fd].pos += (uint64_t)r;\<close>\<close>

definition advance :: "int \<Rightarrow> int \<Rightarrow> files \<Rightarrow> files" where
  "advance fd r st =
     (if 0 < r then st\<lparr>fd_table := (fd_table st)[nat fd := (fd_table st ! nat fd)\<lparr>f_pos := f_pos (fd_table st ! nat fd) + word_of_int r\<rparr>]\<rparr>
      else st)"

definition file_read :: "int \<Rightarrow> u64 \<Rightarrow> files \<Rightarrow> int \<times> u8 list \<times> files" where
  "file_read fd n st =
     (if bad_fd fd st then (- 1, [], st)
      else if f_is_dir (fd_table st ! nat fd) then (- 1, [], st)
      else
        (let (r, got) = ramfs_read (f_node (fd_table st ! nat fd)) n (f_pos (fd_table st ! nat fd)) (fl_fs st)
         in (r, got, advance fd r st)))"

definition file_write :: "int \<Rightarrow> u8 list \<Rightarrow> files \<Rightarrow> (int \<times> files) option" where
  "file_write fd src st =
     (if bad_fd fd st then Some (- 1, st)
      else if f_is_dir (fd_table st ! nat fd) then Some (- 1, st)
      else do {
        (r, fs) \<leftarrow> ramfs_write (f_node (fd_table st ! nat fd)) src (f_pos (fd_table st ! nat fd)) (fl_fs st);
        Some (r, advance fd r (st\<lparr>fl_fs := fs\<rparr>))
      })"

definition dir_open :: "u8 list \<Rightarrow> files \<Rightarrow> (int \<times> files) option" where
  "dir_open name st = do {
     n \<leftarrow> ramfs_lookup name (fl_fs st);
     if n = 0 \<or> n_type (rnodes (fl_fs st) n) \<noteq> NODE_DIR then Some (- 1, st)
     else Some (take_fd n True st)
   }"

text \<open>The walk of \<open>dir_read\<close> to the child number \<open>target\<close>; 0 when there is none.\<close>

partial_function (option) nth_child :: "(u64 \<Rightarrow> rnode) \<Rightarrow> u64 \<Rightarrow> u64 \<Rightarrow> u64 \<Rightarrow> u64 option" where
  "nth_child R target c idx =
     (if c = 0 then Some 0
      else if idx = target then Some c
      else nth_child R target (n_next (R c)) (idx + 1))"

text \<open>The result, the name and the type stored for the caller, and the new state.\<close>

definition dir_read :: "int \<Rightarrow> nat \<Rightarrow> files \<Rightarrow> (int \<times> (u8 list \<times> node_type) option \<times> files) option" where
  "dir_read fd mx st =
     (if bad_fd fd st then Some (- 1, None, st)
      else if \<not> f_is_dir (fd_table st ! nat fd) then Some (- 1, None, st)
      else do {
        let R = rnodes (fl_fs st);
        c \<leftarrow> nth_child R (f_pos (fd_table st ! nat fd)) (n_children (R (f_node (fd_table st ! nat fd)))) 0;
        Some (if c = 0 then (0, None, st) else (1, Some (str_copy (n_name (R c)) mx, n_type (R c)), advance fd 1 st))
      })"

definition file_open_node :: "u8 list \<Rightarrow> files \<Rightarrow> (u64 \<times> files) option" where
  "file_open_node name st = do {
     (fd, st) \<leftarrow> file_open name st;
     Some (if fd < 0 then (0, st) else (f_node (fd_table st ! nat fd), snd (file_close fd st)))
   }"

definition fs_mkdir_path :: "u8 list \<Rightarrow> ramfs \<Rightarrow> (int \<times> ramfs) option" where
  "fs_mkdir_path path fs =
     (if path = [] then Some (- 1, fs)
      else do {
        let last_slash = slash_loop path 0 (- 1);
        (parent, name) \<leftarrow>
          (if last_slash < 0 then Some (r_cwd fs, path)
           else if last_slash = 0 then Some (r_root fs, tl path)
           else do {
             let plen = (if 127 < last_slash then 127 else last_slash);
             parent \<leftarrow> ramfs_lookup (take (nat plen) path) fs;
             Some (if parent = 0 \<or> n_type (rnodes fs parent) \<noteq> NODE_DIR then 0 else parent, drop (nat last_slash + 1) path)
           });
        if parent = 0 \<and> 0 < last_slash then Some (- 1, fs)
        else do {
          (n, fs) \<leftarrow> ramfs_mkdir parent name fs;
          Some (if n \<noteq> 0 then 0 else - 1, fs)
        }
      })"

section \<open>Descriptors\<close>

text \<open>\<open>opened st fd f pos dir\<close>: descriptor \<open>fd\<close> refers to node \<open>f\<close> at position \<open>pos\<close>.\<close>

definition opened :: "files \<Rightarrow> int \<Rightarrow> u64 \<Rightarrow> nat \<Rightarrow> bool \<Rightarrow> bool" where
  "opened st fd f pos dir \<longleftrightarrow> length (fd_table st) = MAX_FD \<and> 3 \<le> fd \<and> fd < int MAX_FD \<and>
     fd_table st ! nat fd = \<lparr>f_used = True, f_node = f, f_pos = of_nat pos, f_is_dir = dir\<rparr>"

lemma opened_good: "opened st fd f pos dir \<Longrightarrow> \<not> bad_fd fd st"
  by (auto simp: opened_def bad_fd_def)

lemma opened_fields:
  "opened st fd f pos dir \<Longrightarrow> f_node (fd_table st ! nat fd) = f \<and> f_pos (fd_table st ! nat fd) = of_nat pos \<and>
     f_is_dir (fd_table st ! nat fd) = dir"
  by (simp add: opened_def)

lemma advance_opened:
  assumes "opened st fd f pos dir"
  shows "opened (advance fd (int r) st) fd f (pos + r) dir"
    and "fd' \<noteq> fd \<Longrightarrow> opened st fd' f' pos' dir' \<Longrightarrow> opened (advance fd (int r) st) fd' f' pos' dir'"
    and "fl_fs (advance fd r' st) = fl_fs st"
  using assms by (auto simp: opened_def advance_def nth_list_update)

lemma opened_fs [simp]: "opened (st\<lparr>fl_fs := fs\<rparr>) fd f pos dir \<longleftrightarrow> opened st fd f pos dir"
  by (simp add: opened_def)

lemma take_fd_spec:
  assumes "length (fd_table st) = MAX_FD"
  shows "case take_fd n dir st of (r, st') \<Rightarrow> fl_fs st' = fl_fs st \<and>
    (if r = - 1 then st' = st \<and> (\<forall>i. 3 \<le> i \<and> i < MAX_FD \<longrightarrow> f_used (fd_table st ! i))
     else opened st' r n 0 dir \<and> \<not> f_used (fd_table st ! nat r) \<and>
       (\<forall>i. 3 \<le> i \<and> i < nat r \<longrightarrow> f_used (fd_table st ! i)) \<and>
       (\<forall>i. i \<noteq> nat r \<longrightarrow> fd_table st' ! i = fd_table st ! i))"
proof (cases "find (\<lambda>i. \<not> f_used (fd_table st ! i)) [3..<MAX_FD]")
  case None
  then have "f_used (fd_table st ! i)" if "3 \<le> i" "i < MAX_FD" for i using that by (auto simp: find_None_iff)
  then show ?thesis using None by (simp add: take_fd_def)
next
  case (Some i)
  then obtain k where k: "k < MAX_FD - 3" "\<not> f_used (fd_table st ! i)" "i = 3 + k"
    "\<forall>j < k. f_used (fd_table st ! (3 + j))"
    by (auto simp: find_Some_iff)
  have "f_used (fd_table st ! j)" if "3 \<le> j" "j < i" for j
    using k(4) [rule_format, of "j - 3"] that k(3) by simp
  moreover have "3 \<le> i" "i < MAX_FD" using k(1,3) by simp_all
  ultimately show ?thesis using Some k(2) assms by (simp add: take_fd_def opened_def)
qed

section \<open>Paths\<close>

lemma slash_loop_end: "47 \<notin> set s \<Longrightarrow> slash_loop s i l = l"
  by (induction s arbitrary: i) auto

lemma slash_loop_last: "47 \<notin> set s \<Longrightarrow> slash_loop (a @ 47 # s) i l = i + int (length a)"
  by (induction a arbitrary: i l) (simp_all add: slash_loop_end)

lemma abs_path_split:
  "47 # path_of (ns @ [nm]) = (if ns = [] then [] else 47 # path_of ns) @ 47 # nm"
  by (simp add: path_of_snoc)

lemma lookup_reached: "reached fs ns d \<Longrightarrow> \<forall>m \<in> set ns. plain m \<Longrightarrow> ramfs_lookup (47 # path_of ns) fs = Some d"
  using reached_look [of fs ns d] lookup_path_of [of ns "rnodes fs" "r_root fs"] by (simp add: ramfs_lookup_def)

lemma lookup_in_dir:
  assumes "reached fs ns d" and "\<forall>m \<in> set (ns @ [nm]). plain m" and "dir_at fs d ts"
  shows "ramfs_lookup (47 # path_of (ns @ [nm])) fs = Some (case find (\<lambda>t. rname t = nm) ts of None \<Rightarrow> 0 | Some t \<Rightarrow> raddr t)"
proof -
  have d: "look (rnodes fs) ns (r_root fs) = Some d" "d \<noteq> 0" using reached_look [OF assms(1)] by auto
  have "0 \<notin> set nm" using assms(2) by (auto simp: plain_def name_ok_def)
  then have c: "ramfs_find_child (rnodes fs) d nm = Some (case find (\<lambda>t. rname t = nm) ts of None \<Rightarrow> 0 | Some t \<Rightarrow> raddr t)"
    by (rule find_child_dir [OF assms(3)])
  have "n_type (rnodes fs d) = NODE_DIR" using assms(3) by (simp add: dir_at_def)
  then have "look (rnodes fs) (ns @ [nm]) (r_root fs) = ramfs_find_child (rnodes fs) d nm"
    unfolding look_append [OF d] using c by (simp split: option.splits)
  then show ?thesis using lookup_path_of [OF assms(2), of "rnodes fs" "r_root fs"] c by (simp add: ramfs_lookup_def)
qed

lemma open_create_in_dir:
  assumes "reached fs ns d" and "\<forall>m \<in> set (ns @ [nm]). plain m" and "dir_at fs d ts" and "length (path_of ns) < 127"
  shows "open_create (47 # path_of (ns @ [nm])) fs = ramfs_create_file d nm fs"
proof -
  have nm: "47 \<notin> set nm" using assms(2) by (auto simp: plain_def)
  let ?a = "if ns = [] then [] else 47 # path_of ns"
  have s: "slash_loop (?a @ 47 # nm) 0 (- 1) = int (length ?a)" using slash_loop_last [OF nm, of ?a 0] by simp
  have d: "d \<noteq> 0" "n_type (rnodes fs d) = NODE_DIR" using assms(3) by (auto simp: dir_at_def)
  have "ramfs_lookup (47 # path_of ns) fs = Some d" using assms(1,2) by (intro lookup_reached) auto
  moreover have "ns = [] \<Longrightarrow> r_root fs = d" using reached_look [OF assms(1)] by simp
  ultimately show ?thesis using assms(4) d s unfolding abs_path_split
    by (cases "ns = []") (simp_all add: open_create_def Let_def nat_add_distrib)
qed

section \<open>Reading and writing through a descriptor\<close>

text \<open>A program that writes the chunks \<open>srcs\<close> in turn, and one that reads chunks of the sizes \<open>ns\<close>.\<close>

fun write_all :: "int \<Rightarrow> u8 list list \<Rightarrow> files \<Rightarrow> (int list \<times> files) option" where
  "write_all fd [] st = Some ([], st)"
| "write_all fd (s # ss) st = do {
     (r, st) \<leftarrow> file_write fd s st;
     (rs, st) \<leftarrow> write_all fd ss st;
     Some (r # rs, st)
   }"

fun read_all :: "int \<Rightarrow> u64 list \<Rightarrow> files \<Rightarrow> u8 list \<times> files" where
  "read_all fd [] st = ([], st)"
| "read_all fd (n # ns) st =
     (let (r, got, st) = file_read fd n st; (rest, st) = read_all fd ns st in (got @ rest, st))"

text \<open>The bytes of the chunks whose write was not refused.\<close>

definition accepted :: "int list \<Rightarrow> u8 list list \<Rightarrow> u8 list" where
  "accepted rs srcs = concat (map snd (filter (\<lambda>(r, s). r \<noteq> - 1) (zip rs srcs)))"

lemma accepted_simps [simp]:
  "accepted [] [] = []" "accepted (r # rs) (s # ss) = (if r = - 1 then [] else s) @ accepted rs ss"
  by (simp_all add: accepted_def)

lemma written_none: "off \<le> length bs \<Longrightarrow> written bs off [] bs"
  by (simp add: written_def)

lemma written_trans:
  assumes "written bs off s1 b1" and "written b1 (off + length s1) s2 b2"
  shows "written bs off (s1 @ s2) b2"
  unfolding written_def
proof (intro conjI allI impI)
  show "length b2 = max (length bs) (off + length (s1 @ s2))" using assms by (auto simp: written_def)
  show "b2 ! (off + i) = (s1 @ s2) ! i" if "i < length (s1 @ s2)" for i
  proof (cases "i < length s1")
    case True
    then have "b2 ! (off + i) = b1 ! (off + i)" "b1 ! (off + i) = s1 ! i" using assms by (auto simp: written_def)
    then show ?thesis using True by (simp add: nth_append)
  next
    case False
    have "\<forall>k < length s2. b2 ! (off + length s1 + k) = s2 ! k" using assms(2) by (simp add: written_def)
    from this [rule_format, of "i - length s1"] show ?thesis using False that by (simp add: nth_append)
  qed
  show "b2 ! i = bs ! i" if "i < length bs" "i < off \<or> off + length (s1 @ s2) \<le> i" for i
    using that assms by (auto simp: written_def)
qed

lemma written_refl_pos: "written bs off src bs' \<Longrightarrow> off + length src \<le> length bs'"
  by (simp add: written_def)

lemma file_write_step:
  assumes o: "opened st fd f pos False" and d: "dir_at (fl_fs st) d (pre @ RFile f nm p c bs # post)"
    and n: "pos + length src < 2 ^ 31" and pos: "pos \<le> length bs"
  shows "\<exists>r st' p' c' bs'. file_write fd src st = Some (r, st') \<and> (r = - 1 \<or> r = int (length src)) \<and>
    opened st' fd f (pos + length (if r = - 1 then [] else src)) False \<and>
    dir_at (fl_fs st') d (pre @ RFile f nm p' c' bs' # post) \<and> written bs pos (if r = - 1 then [] else src) bs' \<and>
    (\<forall>fd' f' pos' dir'. fd' \<noteq> fd \<longrightarrow> opened st fd' f' pos' dir' \<longrightarrow> opened st' fd' f' pos' dir')"
proof -
  have up: "unat (of_nat pos :: u64) = pos" using n by (intro unat_of_nat_64) simp
  obtain r fs' where w: "ramfs_write f src (of_nat pos) (fl_fs st) = Some (r, fs')"
    "r = - 1 \<and> fs' = fl_fs st \<or> r = int (length src) \<and> write_done (fl_fs st) f p bs pos src fs'"
    using ramfs_write_spec [OF dir_file_at [OF d], of "of_nat pos" src] n up by (auto simp: c_int_of_nat)
  have e: "file_write fd src st = Some (r, advance fd r (st\<lparr>fl_fs := fs'\<rparr>))"
    using w(1) opened_good [OF o] opened_fields [OF o] by (simp add: file_write_def)
  show ?thesis
  proof (cases "r = - 1 \<and> fs' = fl_fs st")
    case True
    then have "file_write fd src st = Some (- 1, st)" using e by (simp add: advance_def)
    then show ?thesis using o d written_none [OF pos]
      by (intro exI [of _ "- 1"] exI [of _ st] exI [of _ p] exI [of _ c] exI [of _ bs]) simp
  next
    case False
    then have r: "r = int (length src)" and wd: "write_done (fl_fs st) f p bs pos src fs'" using w(2) by auto
    obtain p' c' bs' where b: "written bs pos src bs'" "dir_at fs' d (pre @ RFile f nm p' c' bs' # post)"
      using dir_write [OF d wd] by blast
    have o': "opened (st\<lparr>fl_fs := fs'\<rparr>) fd f pos False" using o by simp
    have "opened (advance fd r (st\<lparr>fl_fs := fs'\<rparr>)) fd f (pos + length src) False" unfolding r by (rule advance_opened(1) [OF o'])
    moreover have "opened (advance fd r (st\<lparr>fl_fs := fs'\<rparr>)) fd' f' pos' dir'" if "fd' \<noteq> fd" "opened st fd' f' pos' dir'" for fd' f' pos' dir'
      unfolding r using that by (intro advance_opened(2) [OF o']) simp_all
    moreover have "fl_fs (advance fd r (st\<lparr>fl_fs := fs'\<rparr>)) = fs'" using advance_opened(3) [OF o'] by simp
    ultimately show ?thesis using e r b
      by (intro exI [of _ r] exI [of _ "advance fd r (st\<lparr>fl_fs := fs'\<rparr>)"] exI [of _ p'] exI [of _ c'] exI [of _ bs']) simp
  qed
qed

lemma write_all_spec:
  "opened st fd f pos False \<Longrightarrow> dir_at (fl_fs st) d (pre @ RFile f nm p c bs # post) \<Longrightarrow>
   pos + length (concat srcs) < 2 ^ 31 \<Longrightarrow> pos \<le> length bs \<Longrightarrow>
   \<exists>rs st' p' c' bs'. write_all fd srcs st = Some (rs, st') \<and> length rs = length srcs \<and>
    opened st' fd f (pos + length (accepted rs srcs)) False \<and>
    dir_at (fl_fs st') d (pre @ RFile f nm p' c' bs' # post) \<and> written bs pos (accepted rs srcs) bs' \<and>
    (\<forall>fd' f' pos' dir'. fd' \<noteq> fd \<longrightarrow> opened st fd' f' pos' dir' \<longrightarrow> opened st' fd' f' pos' dir')"
proof (induction srcs arbitrary: st pos p c bs)
  case Nil
  then show ?case
    by (intro exI [of _ "[]"] exI [of _ st] exI [of _ p] exI [of _ c] exI [of _ bs]) (simp add: written_none)
next
  case (Cons s ss)
  have n: "pos + length s < 2 ^ 31" using Cons.prems(3) by simp
  obtain r st1 p1 c1 b1 where 1: "file_write fd s st = Some (r, st1)"
    "opened st1 fd f (pos + length (if r = - 1 then [] else s)) False"
    "dir_at (fl_fs st1) d (pre @ RFile f nm p1 c1 b1 # post)" "written bs pos (if r = - 1 then [] else s) b1"
    "\<And>fd' f' pos' dir'. fd' \<noteq> fd \<Longrightarrow> opened st fd' f' pos' dir' \<Longrightarrow> opened st1 fd' f' pos' dir'"
    using file_write_step [OF Cons.prems(1,2) n Cons.prems(4)] by blast
  have l: "pos + length (if r = - 1 then [] else s) + length (concat ss) < 2 ^ 31" using Cons.prems(3) by simp
  obtain rs st2 p2 c2 b2 where 2: "write_all fd ss st1 = Some (rs, st2)" "length rs = length ss"
    "opened st2 fd f (pos + length (if r = - 1 then [] else s) + length (accepted rs ss)) False"
    "dir_at (fl_fs st2) d (pre @ RFile f nm p2 c2 b2 # post)"
    "written b1 (pos + length (if r = - 1 then [] else s)) (accepted rs ss) b2"
    "\<And>fd' f' pos' dir'. fd' \<noteq> fd \<Longrightarrow> opened st1 fd' f' pos' dir' \<Longrightarrow> opened st2 fd' f' pos' dir'"
    using Cons.IH [OF 1(2,3) l written_refl_pos [OF 1(4)]] by blast
  have "written bs pos (accepted (r # rs) (s # ss)) b2" using written_trans [OF 1(4) 2(5)] by simp
  moreover have "write_all fd (s # ss) st = Some (r # rs, st2)" using 1(1) 2(1) by simp
  moreover have "opened st2 fd f (pos + length (accepted (r # rs) (s # ss))) False" using 2(3) by (simp add: add.assoc)
  ultimately show ?case using 2(2,4) 1(5) 2(6)
    by (intro exI [of _ "r # rs"] exI [of _ st2] exI [of _ p2] exI [of _ c2] exI [of _ b2]) simp
qed

lemma file_read_step:
  assumes o: "opened st fd f pos False" and fa: "file_at (fl_fs st) f p c bs" and n: "length bs < 2 ^ 31" "pos \<le> length bs"
  shows "\<exists>st'. file_read fd k st = (int (length (take (unat k) (drop pos bs))), take (unat k) (drop pos bs), st') \<and>
    opened st' fd f (pos + length (take (unat k) (drop pos bs))) False \<and> fl_fs st' = fl_fs st"
proof -
  let ?got = "take (unat k) (drop pos bs)"
  have up: "unat (of_nat pos :: u64) = pos" using n by (intro unat_of_nat_64) simp
  have "ramfs_read f k (of_nat pos) (fl_fs st) = (int (length ?got), ?got)"
    using ramfs_read_spec [OF fa, of k "of_nat pos"] up n c_int_of_nat [of "length ?got"] by (simp add: Let_def)
  then have "file_read fd k st = (int (length ?got), ?got, advance fd (int (length ?got)) st)"
    using opened_good [OF o] opened_fields [OF o] by (simp add: file_read_def)
  then show ?thesis using advance_opened(1,3) [OF o] by blast
qed

lemma read_all_spec:
  "opened st fd f pos False \<Longrightarrow> file_at (fl_fs st) f p c bs \<Longrightarrow> length bs < 2 ^ 31 \<Longrightarrow> pos \<le> length bs \<Longrightarrow>
   \<exists>st'. read_all fd ns st = (take (sum_list (map unat ns)) (drop pos bs), st') \<and> fl_fs st' = fl_fs st"
proof (induction ns arbitrary: st pos)
  case (Cons n ns)
  let ?got = "take (unat n) (drop pos bs)"
  obtain st1 where 1: "file_read fd n st = (int (length ?got), ?got, st1)" "opened st1 fd f (pos + length ?got) False"
    "fl_fs st1 = fl_fs st"
    using file_read_step [OF Cons.prems] by blast
  have le: "pos + length ?got \<le> length bs" using Cons.prems(4) by simp
  have fa: "file_at (fl_fs st1) f p c bs" using Cons.prems(2) 1(3) by simp
  obtain st2 where 2: "read_all fd ns st1 = (take (sum_list (map unat ns)) (drop (pos + length ?got) bs), st2)" "fl_fs st2 = fl_fs st1"
    using Cons.IH [OF 1(2) fa Cons.prems(3) le] by blast
  have "?got @ take k (drop (pos + length ?got) bs) = take (unat n + k) (drop pos bs)" for k
  proof (cases "unat n \<le> length bs - pos")
    case True
    then have "drop (pos + length ?got) bs = drop (unat n) (drop pos bs)" by (simp add: min_def add.commute)
    then show ?thesis by (simp only: take_add)
  qed simp
  then show ?case using 1 2 by simp
qed simp

section \<open>Listing a directory\<close>

text \<open>A program that calls \<open>dir_read\<close> \<open>n\<close> times: what it is given, \<open>None\<close> for the end.\<close>

fun list_dir :: "int \<Rightarrow> nat \<Rightarrow> nat \<Rightarrow> files \<Rightarrow> ((u8 list \<times> node_type) option list \<times> files) option" where
  "list_dir fd mx 0 st = Some ([], st)"
| "list_dir fd mx (Suc n) st = do {
     (r, e, st) \<leftarrow> dir_read fd mx st;
     (es, st) \<leftarrow> list_dir fd mx n st;
     Some (e # es, st)
   }"

fun rtype :: "rtree \<Rightarrow> node_type" where
  "rtype (RFile a nm d c bs) = NODE_FILE"
| "rtype (RDir a nm ts) = NODE_DIR"

lemma nth_child_forest:
  "forest_at R m par ts \<Longrightarrow> k + length ts < 2 ^ 64 \<Longrightarrow> k \<le> j \<Longrightarrow> j < 2 ^ 64 \<Longrightarrow>
     nth_child R (of_nat j) (first ts) (of_nat k) = Some (if j - k < length ts then raddr (ts ! (j - k)) else 0)"
proof (induction ts arbitrary: k)
  case Nil
  then show ?case by (simp add: nth_child.simps)
next
  case (Cons t ts)
  have nz: "raddr t \<noteq> 0" using forest_names [OF Cons.prems(1), of t] by simp
  have nx: "n_next (R (raddr t)) = first ts" using Cons.prems(1) tree_at_next [of R m par "first ts" t] by simp
  show ?case
  proof (cases "k = j")
    case True
    then show ?thesis using nz by (simp add: nth_child.simps)
  next
    case False
    have "unat (of_nat k :: u64) \<noteq> unat (of_nat j :: u64)" using False Cons.prems by (simp add: unat_of_nat_64)
    then have ne: "(of_nat k :: u64) \<noteq> of_nat j" by metis
    have "nth_child R (of_nat j) (first ts) (of_nat (Suc k)) = Some (if j - Suc k < length ts then raddr (ts ! (j - Suc k)) else 0)"
      using Cons.prems False by (intro Cons.IH) auto
    moreover have "(t # ts) ! (j - k) = ts ! (j - Suc k)" using False Cons.prems(3) by (simp add: nth_Cons')
    ultimately show ?thesis using nz ne nx False Cons.prems(3)
      by (subst nth_child.simps) (auto simp: add.commute)
  qed
qed

lemma child_type: "forest_at R m par ts \<Longrightarrow> t \<in> set ts \<Longrightarrow> n_type (R (raddr t)) = rtype t"
proof (induction ts)
  case (Cons x ts)
  then show ?case by (cases t) auto
qed simp

lemma dir_read_step:
  assumes o: "opened st fd d k True" and dir: "dir_at (fl_fs st) d ts" and n: "length ts < 2 ^ 64" "k < 2 ^ 64"
  shows "if k < length ts
    then \<exists>st'. dir_read fd mx st = Some (1, Some (str_copy (rname (ts ! k)) mx, rtype (ts ! k)), st') \<and>
      opened st' fd d (Suc k) True \<and> fl_fs st' = fl_fs st
    else dir_read fd mx st = Some (0, None, st)"
proof -
  let ?R = "rnodes (fl_fs st)"
  have F: "forest_at ?R (hmem (r_heap (fl_fs st))) d ts" and c: "n_children (?R d) = first ts" using dir by (auto simp: dir_at_def)
  have w: "nth_child ?R (of_nat k) (first ts) 0 = Some (if k < length ts then raddr (ts ! k) else 0)"
    using nth_child_forest [OF F, of 0 k] n by simp
  show ?thesis
  proof (cases "k < length ts")
    case True
    note t = forest_names [OF F nth_mem [OF True]] child_type [OF F nth_mem [OF True]]
    have "dir_read fd mx st = Some (1, Some (str_copy (rname (ts ! k)) mx, rtype (ts ! k)), advance fd (int 1) st)"
      using w t True c opened_good [OF o] opened_fields [OF o] by (simp add: dir_read_def)
    then show ?thesis using True advance_opened(1) [OF o, of 1] advance_opened(3) [OF o, of "int 1"] by simp
  next
    case False
    then show ?thesis using w c opened_good [OF o] opened_fields [OF o] by (simp add: dir_read_def)
  qed
qed

lemma list_dir_spec:
  assumes n: "length ts < 2 ^ 63"
  shows "opened st fd d k True \<Longrightarrow> dir_at (fl_fs st) d ts \<Longrightarrow> k + j = length ts \<Longrightarrow>
    \<exists>st'. list_dir fd mx (Suc j) st =
      Some (map (\<lambda>t. Some (str_copy (rname t) mx, rtype t)) (drop k ts) @ [None], st') \<and> fl_fs st' = fl_fs st"
proof (induction j arbitrary: st k)
  case 0
  then show ?case using dir_read_step [of st fd d k ts mx] n by simp
next
  case (Suc j)
  have k: "k < length ts" using Suc.prems(3) by simp
  obtain st1 where 1: "dir_read fd mx st = Some (1, Some (str_copy (rname (ts ! k)) mx, rtype (ts ! k)), st1)"
    "opened st1 fd d (Suc k) True" "fl_fs st1 = fl_fs st"
    using dir_read_step [OF Suc.prems(1,2), of mx] n k by auto
  obtain st2 where 2: "list_dir fd mx (Suc j) st1 =
      Some (map (\<lambda>t. Some (str_copy (rname t) mx, rtype t)) (drop (Suc k) ts) @ [None], st2)" "fl_fs st2 = fl_fs st1"
    using Suc.IH [OF 1(2)] 1(3) Suc.prems by auto
  have "list_dir fd mx (Suc (Suc j)) st = Some (Some (str_copy (rname (ts ! k)) mx, rtype (ts ! k)) #
      map (\<lambda>t. Some (str_copy (rname t) mx, rtype t)) (drop (Suc k) ts) @ [None], st2)"
    by (subst list_dir.simps(2)) (simp only: 1(1) 2(1) bind.bind_lunit split_conv prod.case)
  then show ?case using 1(3) 2(2) by (simp add: Cons_nth_drop_Suc [OF k, symmetric])
qed

section \<open>Properties\<close>

text \<open>
  What becomes of the table when node \<open>n\<close> is opened: the lowest free descriptor from 3 on is
  taken and every other one keeps its entry; the answer is -1 only when all are in use.
\<close>

definition gets_fd :: "files \<Rightarrow> u64 \<Rightarrow> bool \<Rightarrow> int \<Rightarrow> files \<Rightarrow> bool" where
  "gets_fd st n dir fd st' \<longleftrightarrow>
     (if fd = - 1 then fd_table st' = fd_table st \<and> (\<forall>i. 3 \<le> i \<and> i < MAX_FD \<longrightarrow> f_used (fd_table st ! i))
      else opened st' fd n 0 dir \<and> \<not> f_used (fd_table st ! nat fd) \<and>
        (\<forall>i. 3 \<le> i \<and> i < nat fd \<longrightarrow> f_used (fd_table st ! i)) \<and>
        (\<forall>i. i \<noteq> nat fd \<longrightarrow> fd_table st' ! i = fd_table st ! i))"

lemma take_fd_gets:
  assumes "length (fd_table st) = MAX_FD"
  shows "\<exists>fd st'. take_fd n dir st = (fd, st') \<and> fl_fs st' = fl_fs st \<and> gets_fd st n dir fd st'"
  using take_fd_spec [OF assms, of n dir]
  by (cases "take_fd n dir st") (auto simp: gets_fd_def split: if_splits)

text \<open>C22. Opening an absolute path whose parent directory exists: a file that is there is opened
  without any change to the file system; a directory is refused; a name that is not there is
  created empty in that directory and then opened.  The call fails with nothing changed when the
  heap has no room for a node.  When every descriptor is in use the answer is -1, and in
  the last case the new file has been created all the same.\<close>

theorem file_open_correct:
  assumes "reached (fl_fs st) ns d" and "dir_at (fl_fs st) d ts" and "\<forall>m \<in> set (ns @ [nm]). plain m"
    and "length (path_of ns) < 127" and "length (fd_table st) = MAX_FD"
  shows "\<exists>fd st'. file_open (47 # path_of (ns @ [nm])) st = Some (fd, st') \<and>
    (case find (\<lambda>t. rname t = nm) ts of
       Some t \<Rightarrow> fl_fs st' = fl_fs st \<and>
         (if rtype t = NODE_DIR then fd = - 1 \<and> st' = st else gets_fd st (raddr t) False fd st')
     | None \<Rightarrow>
         fd = - 1 \<and> st' = st \<and> \<not> room (r_heap (fl_fs st)) (alloc_cost NODE_SIZE) \<or>
         (\<exists>n. n \<noteq> 0 \<and> dir_at (fl_fs st') d (RFile n nm 0 0 [] # ts) \<and> gets_fd st n False fd st'))"
proof (cases "find (\<lambda>t. rname t = nm) ts")
  case (Some t)
  then have t: "t \<in> set ts" by (auto simp: find_Some_iff)
  have F: "forest_at (rnodes (fl_fs st)) (hmem (r_heap (fl_fs st))) d ts" using assms(2) by (simp add: dir_at_def)
  have l: "ramfs_lookup (47 # path_of (ns @ [nm])) (fl_fs st) = Some (raddr t)"
    using lookup_in_dir [OF assms(1,3,2)] Some by simp
  obtain fd st' where g: "take_fd (raddr t) False st = (fd, st')" "fl_fs st' = fl_fs st" "gets_fd st (raddr t) False fd st'"
    using take_fd_gets [OF assms(5), of "raddr t" False] by blast
  note c = forest_names [OF F t] child_type [OF F t]
  have "file_open (47 # path_of (ns @ [nm])) st = Some (if rtype t = NODE_DIR then (- 1, st) else (fd, st'))"
    using l c g(1) by (cases "rtype t") (simp_all add: file_open_def)
  then show ?thesis using g(2,3) Some by (cases "rtype t") simp_all
next
  case None
  have nm: "name_ok nm" "nm \<notin> rname ` set ts" using assms(3) None by (auto simp: plain_def find_None_iff)
  have l: "ramfs_lookup (47 # path_of (ns @ [nm])) (fl_fs st) = Some 0"
    using lookup_in_dir [OF assms(1,3,2)] None by simp
  obtain n fs' where c: "ramfs_create_file d nm (fl_fs st) = Some (n, fs')" "n = 0 \<longrightarrow> fs' = fl_fs st"
    "n \<noteq> 0 \<longrightarrow> dir_at fs' d (empty_node NODE_FILE n nm # ts)" "room (r_heap (fl_fs st)) (alloc_cost NODE_SIZE + 0) \<longrightarrow> n \<noteq> 0"
    using create_node_spec [OF assms(2) nm, of NODE_FILE] unfolding ramfs_create_file_def by blast
  note o = open_create_in_dir [OF assms(1,3,2,4)]
  show ?thesis
  proof (cases "n = 0")
    case True
    then have "file_open (47 # path_of (ns @ [nm])) st = Some (- 1, st)" using l o c(1,2) by (simp add: file_open_def)
    then show ?thesis using None True c(4) by auto
  next
    case False
    then have dir: "dir_at fs' d (RFile n nm 0 0 [] # ts)" using c(3) by simp
    then have ty: "n_type (rnodes fs' n) = NODE_FILE" by (simp add: dir_at_def)
    obtain fd st' where g: "take_fd n False (st\<lparr>fl_fs := fs'\<rparr>) = (fd, st')" "fl_fs st' = fs'" "gets_fd (st\<lparr>fl_fs := fs'\<rparr>) n False fd st'"
      using take_fd_gets [of "st\<lparr>fl_fs := fs'\<rparr>" n False] assms(5) by auto
    have "file_open (47 # path_of (ns @ [nm])) st = Some (fd, st')" using l o c(1) False ty g(1) by (simp add: file_open_def)
    moreover have "fd_table (st\<lparr>fl_fs := fs'\<rparr>) = fd_table st" by simp
    then have "gets_fd st n False fd st'" using g(3) unfolding gets_fd_def by (simp only:)
    ultimately show ?thesis using None dir g(2) False by auto
  qed
qed

definition demo_files :: files where
  "demo_files = file_init \<lparr>fd_table = [], fl_fs = demo_fs\<rparr>"

lemma demo_files_table: "length (fd_table demo_files) = MAX_FD" "fl_fs demo_files = demo_fs"
  by (simp_all add: demo_files_def file_init_def)

theorem file_open_correct_witness:
  "\<exists>fd st'. file_open [47, 97] demo_files = Some (fd, st') \<and> fl_fs st' = demo_fs \<and> (\<exists>n. gets_fd demo_files n False fd st')"
proof -
  obtain t where t: "dir_at demo_fs (r_root demo_fs) [t]" "erase t = File [97] [1, 2, 3]" using demo_fs_dir by blast
  then have n: "rname t = [97]" "rtype t = NODE_FILE" by (cases t; simp)+
  have "reached (fl_fs demo_files) [] (r_root demo_fs)"
    using reached.root [of demo_fs] t(1) by (simp add: demo_files_table dir_at_def)
  from file_open_correct [OF this, of "[t]" "[97]"] show ?thesis
    using t(1) n demo_files_table by (auto simp: plain_def name_ok_def)
qed

text \<open>C7. A file is a stream through its descriptors: whatever chunks are written through one
  descriptor, each write is accepted whole or refused with nothing changed, the accepted bytes
  stand in the file consecutively from the descriptor's position on, the rest of the file and of its
  directory is unchanged, and another descriptor at the old position then reads exactly the bytes
  of the file from there, however its reads are cut.\<close>

theorem file_stream:
  assumes "opened st fd f pos False" and "opened st fd2 f pos False" and "fd2 \<noteq> fd"
    and "dir_at (fl_fs st) d (pre @ RFile f nm p c bs # post)"
    and "max (length bs) (pos + length (concat srcs)) < 2 ^ 31" and "pos \<le> length bs"
  shows "\<exists>rs st' p' c' bs' st''. write_all fd srcs st = Some (rs, st') \<and> length rs = length srcs \<and>
    dir_at (fl_fs st') d (pre @ RFile f nm p' c' bs' # post) \<and> written bs pos (accepted rs srcs) bs' \<and>
    read_all fd2 ns st' = (take (sum_list (map unat ns)) (drop pos bs'), st'') \<and>
    take (length (accepted rs srcs)) (drop pos bs') = accepted rs srcs"
proof -
  have n: "pos + length (concat srcs) < 2 ^ 31" using assms(5) by simp
  obtain rs st' p' c' bs' where w: "write_all fd srcs st = Some (rs, st')" "length rs = length srcs"
    "dir_at (fl_fs st') d (pre @ RFile f nm p' c' bs' # post)" "written bs pos (accepted rs srcs) bs'"
    "\<forall>fd' f' pos' dir'. fd' \<noteq> fd \<longrightarrow> opened st fd' f' pos' dir' \<longrightarrow> opened st' fd' f' pos' dir'"
    using write_all_spec [OF assms(1,4) n assms(6)] by blast
  have o2: "opened st' fd2 f pos False" using w(5) assms(2,3) by blast
  have "length (accepted rs srcs) \<le> length (concat srcs)" using w(2)
    by (induction rs srcs rule: list_induct2) auto
  then have l: "length bs' < 2 ^ 31" "pos \<le> length bs'" using w(4) assms(5) by (auto simp: written_def)
  obtain st'' where "read_all fd2 ns st' = (take (sum_list (map unat ns)) (drop pos bs'), st'')"
    using read_all_spec [OF o2 dir_file_at [OF w(3)] l] by blast
  then show ?thesis using w(1-4) written_read [OF w(4)] by blast
qed

definition demo_open :: "u64 \<Rightarrow> files" where
  "demo_open f = demo_files\<lparr>fd_table := (fd_table demo_files)[3 := \<lparr>f_used = True, f_node = f, f_pos = 0, f_is_dir = False\<rparr>,
     4 := \<lparr>f_used = True, f_node = f, f_pos = 0, f_is_dir = False\<rparr>]\<rparr>"

theorem file_stream_witness:
  "\<exists>f rs st' bs' st''. write_all 3 [[7], [8, 9]] (demo_open f) = Some (rs, st') \<and>
    written [1, 2, 3] 0 (accepted rs [[7], [8, 9]]) bs' \<and> read_all 4 [1, 5] st' = (take 6 bs', st'')"
proof -
  obtain t where t: "dir_at demo_fs (r_root demo_fs) [t]" "erase t = File [97] [1, 2, 3]" using demo_fs_dir by blast
  then obtain f p c where e: "t = RFile f [97] p c [1, 2, 3]" by (cases t) auto
  have o: "opened (demo_open f) 3 f 0 False" "opened (demo_open f) 4 f 0 False"
    using demo_files_table by (simp_all add: opened_def demo_open_def MAX_FD_def)
  have "dir_at (fl_fs (demo_open f)) (r_root demo_fs) ([] @ RFile f [97] p c [1, 2, 3] # [])"
    using t(1) e by (simp add: demo_open_def demo_files_table)
  from file_stream [OF o(1) o(2) _ this, of "[[7], [8, 9]]" "[1, 5]"] show ?thesis
    by (simp del: write_all.simps read_all.simps) blast
qed

text \<open>\<open>dir_read\<close> lists a directory: called once more than there are entries, through a fresh
  descriptor, it gives the name (cut to the caller's buffer) and type of every entry in order
  and then reports the end, changing nothing in the file system.\<close>

theorem dir_read_lists:
  assumes "opened st fd d 0 True" and "dir_at (fl_fs st) d ts" and "length ts < 2 ^ 63"
  shows "\<exists>st'. list_dir fd mx (Suc (length ts)) st =
    Some (map (\<lambda>t. Some (str_copy (rname t) mx, rtype t)) ts @ [None], st') \<and> fl_fs st' = fl_fs st"
  using list_dir_spec [OF assms(3,1,2), of "length ts" mx] by simp

definition demo_dir :: files where
  "demo_dir = demo_files\<lparr>fd_table := (fd_table demo_files)
     [3 := \<lparr>f_used = True, f_node = r_root demo_fs, f_pos = 0, f_is_dir = True\<rparr>]\<rparr>"

theorem dir_read_lists_witness:
  "\<exists>st'. list_dir 3 64 (Suc (Suc 0)) demo_dir = Some ([Some ([97], NODE_FILE), None], st')"
proof -
  obtain t where t: "dir_at demo_fs (r_root demo_fs) [t]" "erase t = File [97] [1, 2, 3]" using demo_fs_dir by blast
  then have n: "rname t = [97]" "rtype t = NODE_FILE" by (cases t; simp)+
  have "opened demo_dir 3 (r_root demo_fs) 0 True" "dir_at (fl_fs demo_dir) (r_root demo_fs) [t]"
    using demo_files_table t(1) by (simp_all add: opened_def demo_dir_def MAX_FD_def)
  moreover have "str_copy [97] 64 = [97]" by simp
  ultimately show ?thesis using dir_read_lists [of demo_dir 3 "r_root demo_fs" "[t]" 64] n
    by (auto simp del: list_dir.simps str_copy.simps)
qed

end
