(* ===== verification/Persist.thy ===== *)
theory Persist
  imports Ramfs_Ops Ata
begin

text \<open>
  Saving the file system to disk and loading it, \<open>kernel/fs/persist.c\<close>.  The state is the file
  system (with its heap) and the disk \<open>'d\<close>; the two operations of \<open>ata.h\<close> are the argument \<open>D\<close>.
  The blob is a byte list while it is built or read; it is stored in the heap block it
  belongs to before the block is released or the file system is rebuilt.  A sector read that fails
  stores no bytes here; the code releases the blob in that case.
\<close>

section \<open>Model\<close>

definition PERSIST_START_LBA :: u32 where "PERSIST_START_LBA = 32768"
definition PERSIST_MAX_SECTORS :: nat where "PERSIST_MAX_SECTORS = 1024"
definition BLOB_MAX :: nat where "BLOB_MAX = PERSIST_MAX_SECTORS * 512"

text \<open>The two loops that move at most 128 sectors at a time.\<close>

function read_chunks :: "'d disk_ops \<Rightarrow> u32 \<Rightarrow> nat \<Rightarrow> u8 list \<Rightarrow> nat \<Rightarrow> 'd \<Rightarrow> bool \<times> u8 list \<times> 'd" where
  "read_chunks D lba remain blob p d =
     (if 0 < remain then
        (let chunk = (if 128 < remain then 128 else remain) in
         case dk_read D lba (of_nat chunk) d of
           (None, d) \<Rightarrow> (False, blob, d)
         | (Some b, d) \<Rightarrow> read_chunks D (lba + of_nat chunk) (remain - chunk) (fst (put_bytes blob p b)) (p + chunk * 512) d)
      else (True, blob, d))"
  by pat_completeness auto
termination
  by (relation "measure (\<lambda>(D, lba, remain, blob, p, d). remain)") auto

function write_chunks :: "'d disk_ops \<Rightarrow> u32 \<Rightarrow> nat \<Rightarrow> u8 list \<Rightarrow> nat \<Rightarrow> 'd \<Rightarrow> bool \<times> 'd" where
  "write_chunks D lba remain blob p d =
     (if 0 < remain then
        (let chunk = (if 128 < remain then 128 else remain) in
         case dk_write D lba (of_nat chunk) (take (chunk * 512) (drop p blob)) d of
           (False, d) \<Rightarrow> (False, d)
         | (True, d) \<Rightarrow> write_chunks D (lba + of_nat chunk) (remain - chunk) blob (p + chunk * 512) d)
      else (True, d))"
  by pat_completeness auto
termination
  by (relation "measure (\<lambda>(D, lba, remain, blob, p, d). remain)") auto

declare read_chunks.simps [simp del] write_chunks.simps [simp del]

text \<open>The bytes of the blob in its heap block, and \<open>kfree(blob)\<close>.\<close>

definition set_blob :: "u64 \<Rightarrow> u8 list \<Rightarrow> ramfs \<Rightarrow> ramfs" where
  "set_blob p blob fs = fs\<lparr>r_heap := (r_heap fs)\<lparr>hmem := wr_bytes (hmem (r_heap fs)) p blob\<rparr>\<rparr>"

definition free_blob :: "u64 \<Rightarrow> ramfs \<Rightarrow> ramfs option" where
  "free_blob p fs = map_option (\<lambda>h. fs\<lparr>r_heap := h\<rparr>) (kfree p (r_heap fs))"

text \<open>\<open>total_size\<close> and \<open>sectors\<close> of \<open>persist_load\<close>.\<close>

definition load_size :: "u8 list \<Rightarrow> nat" where
  "load_size blob =
     (let total_size = unat (le_word (take 4 (drop 8 blob)) :: u32);
          total_size = (if BLOB_MAX < total_size then BLOB_MAX else total_size)
      in if total_size < 16 then 16 else total_size)"

definition load_sectors :: "nat \<Rightarrow> nat" where
  "load_sectors total_size =
     (let sectors = (total_size + 512 - 1) div 512 in if sectors < 1 then 1 else sectors)"

definition persist_load :: "'d disk_ops \<Rightarrow> ramfs \<Rightarrow> 'd \<Rightarrow> (int \<times> ramfs \<times> 'd) option" where
  "persist_load D fs d = do {
     (p, h) \<leftarrow> kmalloc (of_nat BLOB_MAX) (r_heap fs);
     let fs = fs\<lparr>r_heap := h\<rparr>;
     if p = 0 then Some (- 1, fs, d)
     else
       (let blob = rd_bytes (hmem h) p BLOB_MAX in
        case dk_read D PERSIST_START_LBA 1 d of
          (None, d) \<Rightarrow> map_option (\<lambda>fs. (- 1, fs, d)) (free_blob p fs)
        | (Some b, d) \<Rightarrow>
            (let blob = fst (put_bytes blob 0 b) in
             if take 8 blob \<noteq> MAGIC then map_option (\<lambda>fs. (0, fs, d)) (free_blob p (set_blob p blob fs))
             else
               (let total_size = load_size blob in
                case read_chunks D PERSIST_START_LBA (load_sectors total_size) blob 0 d of
                  (ok, blob, d) \<Rightarrow>
                    if \<not> ok then map_option (\<lambda>fs. (- 1, fs, d)) (free_blob p (set_blob p blob fs))
                    else do {
                      (r, fs) \<leftarrow> ramfs_deserialize blob total_size (set_blob p blob fs);
                      map_option (\<lambda>fs. (r, fs, d)) (free_blob p fs)
                    })))
   }"

definition persist_save :: "'d disk_ops \<Rightarrow> ramfs \<Rightarrow> 'd \<Rightarrow> (int \<times> ramfs \<times> 'd) option" where
  "persist_save D fs d = do {
     (p, h) \<leftarrow> kmalloc (of_nat BLOB_MAX) (r_heap fs);
     let fs = fs\<lparr>r_heap := h\<rparr>;
     if p = 0 then Some (- 1, fs, d)
     else do {
       (blob, len) \<leftarrow> ramfs_serialize fs BLOB_MAX (rd_bytes (hmem h) p BLOB_MAX);
       let fs = set_blob p blob fs;
       if len = 0 then map_option (\<lambda>fs. (- 1, fs, d)) (free_blob p fs)
       else
         (let sectors = (len + 512 - 1) div 512;
              sectors = (if PERSIST_MAX_SECTORS < sectors then PERSIST_MAX_SECTORS else sectors) in
          case write_chunks D PERSIST_START_LBA sectors blob 0 d of
            (ok, d) \<Rightarrow> map_option (\<lambda>fs. (if ok then 0 else - 1, fs, d)) (free_blob p fs))
     }
   }"

section \<open>Chunked transfers\<close>

lemma lbas_add: "lbas l (a + b) = lbas l a @ lbas (l + of_nat a) b"
proof (induction a arbitrary: l)
  case (Suc a)
  then show ?case by (simp add: lbas_Cons add.assoc)
qed (simp add: lbas_def)

lemma put_sectors_add:
  "put_sectors l (a + b) x S = put_sectors (l + of_nat a) b (drop (512 * a) x) (put_sectors l a x S)"
proof (induction a arbitrary: l x S)
  case (Suc a)
  then show ?case by (simp add: add.assoc add.commute [of 512] fun_upd_def)
qed simp

lemma put_sectors_take: "512 * n \<le> k \<Longrightarrow> put_sectors l n (take k x) S = put_sectors l n x S"
proof (induction n arbitrary: l k x S)
  case (Suc n)
  have "put_sectors (l + 1) n (take (k - 512) (drop 512 x)) (S(l := take 512 x)) = put_sectors (l + 1) n (drop 512 x) (S(l := take 512 x))"
    using Suc.prems by (intro Suc.IH) simp
  then show ?case using Suc.prems by (simp add: drop_take min_def)
qed simp

context disk
begin

lemma chunk_lba:
  assumes "unat lba + n \<le> cap" and "c \<le> n"
  shows "unat (lba + of_nat c :: u32) = unat lba + c"
proof -
  have "unat (of_nat c :: u32) = c" using assms cap_small by (simp add: unat_of_nat take_bit_nat_eq_self)
  then show ?thesis using assms cap_small unat_plus_small [of lba "of_nat c"] by simp
qed

lemma write_chunks_ok:
  "good d \<Longrightarrow> unat lba + n \<le> cap \<Longrightarrow> p + 512 * n \<le> length blob \<Longrightarrow>
     \<exists>d'. write_chunks D lba n blob p d = (True, d') \<and> good d' \<and> sec d' = put_sectors lba n (drop p blob) (sec d)"
proof (induction n arbitrary: lba p d rule: less_induct)
  case (less n)
  show ?case
  proof (cases "n = 0")
    case True
    then show ?thesis using less.prems by (simp add: write_chunks.simps)
  next
    case False
    define c where "c = (if 128 < n then 128 else n)"
    have c: "0 < c" "c \<le> n" "c \<le> 128" using False by (auto simp: c_def)
    have u: "unat (of_nat c :: u8) = c" "(0 :: u8) < of_nat c"
      using c by (simp_all add: unat_of_nat take_bit_nat_eq_self word_less_nat_alt)
    obtain d1 where w: "dk_write D lba (of_nat c) (take (c * 512) (drop p blob)) d = (True, d1)" "good d1"
      "sec d1 = put_sectors lba c (take (c * 512) (drop p blob)) (sec d)"
      using write_ok [OF less.prems(1) u(2), of lba "take (c * 512) (drop p blob)"] less.prems c u(1) by auto
    note nl = chunk_lba [OF less.prems(2) c(2)]
    have fit: "p + c * 512 + 512 * (n - c) \<le> length blob" using less.prems(3) c(2) by (simp add: diff_mult_distrib2)
    obtain d2 where r: "write_chunks D (lba + of_nat c) (n - c) blob (p + c * 512) d1 = (True, d2)" "good d2"
      "sec d2 = put_sectors (lba + of_nat c) (n - c) (drop (p + c * 512) blob) (sec d1)"
      using less.IH [of "n - c" d1 "lba + of_nat c" "p + c * 512"] w(2) nl fit less.prems(1,2) c by auto
    have "write_chunks D lba n blob p d = (True, d2)"
      using w(1) r(1) False by (subst write_chunks.simps) (simp add: c_def [symmetric] Let_def)
    moreover have "sec d2 = put_sectors lba n (drop p blob) (sec d)"
      using r(3) w(3) c put_sectors_add [of lba c "n - c" "drop p blob" "sec d"] put_sectors_take [of c "c * 512" lba "drop p blob" "sec d"]
      by (simp add: ac_simps)
    ultimately show ?thesis using r(2) by simp
  qed
qed

lemma read_chunks_ok:
  "good d \<Longrightarrow> unat lba + n \<le> cap \<Longrightarrow> p + 512 * n \<le> length blob \<Longrightarrow>
     \<exists>d'. read_chunks D lba n blob p d = (True, put_at blob p (concat (map (sec d) (lbas lba n))), d') \<and> good d' \<and> sec d' = sec d"
proof (induction n arbitrary: lba p blob d rule: less_induct)
  case (less n)
  show ?case
  proof (cases "n = 0")
    case True
    then show ?thesis using less.prems by (simp add: read_chunks.simps lbas_def)
  next
    case False
    define c where "c = (if 128 < n then 128 else n)"
    have c: "0 < c" "c \<le> n" "c \<le> 128" using False by (auto simp: c_def)
    have u: "unat (of_nat c :: u8) = c" "(0 :: u8) < of_nat c"
      using c by (simp_all add: unat_of_nat take_bit_nat_eq_self word_less_nat_alt)
    let ?b = "concat (map (sec d) (lbas lba c))" and ?b2 = "concat (map (sec d) (lbas (lba + of_nat c) (n - c)))"
    have len: "length (concat (map (sec d) (lbas l k))) = 512 * k" for l k
    proof (induction k arbitrary: l)
      case (Suc k)
      then show ?case using sec_len [OF less.prems(1)] by (simp add: lbas_Cons)
    qed (simp add: lbas_def)
    obtain d1 where w: "dk_read D lba (of_nat c) d = (Some ?b, d1)" "good d1" "sec d1 = sec d"
      using read_ok [OF less.prems(1) u(2), of lba] less.prems c u(1) by auto
    note nl = chunk_lba [OF less.prems(2) c(2)]
    have fit: "p + c * 512 + 512 * (n - c) \<le> length blob" using less.prems(3) c(2) by (simp add: diff_mult_distrib2)
    have pb: "put_bytes blob p ?b = (put_at blob p ?b, p + 512 * c)"
      using put_bytes_put_at [of p ?b blob] len less.prems(3) c(2) by simp
    obtain d2 where r: "read_chunks D (lba + of_nat c) (n - c) (put_at blob p ?b) (p + c * 512) d1 =
        (True, put_at (put_at blob p ?b) (p + c * 512) ?b2, d2)" "good d2" "sec d2 = sec d1"
      using less.IH [of "n - c" d1 "lba + of_nat c" "p + c * 512" "put_at blob p ?b"] w(2,3) nl fit less.prems c len by auto
    have "read_chunks D lba n blob p d = (True, put_at (put_at blob p ?b) (p + c * 512) ?b2, d2)"
      using w(1) r(1) pb False by (subst read_chunks.simps) (simp add: c_def [symmetric] Let_def)
    also have "put_at (put_at blob p ?b) (p + c * 512) ?b2 = put_at blob p (?b @ ?b2)"
      using put_at_put_at [of p ?b ?b2 blob] len less.prems(3) c(2) by (simp add: mult.commute)
    also have "?b @ ?b2 = concat (map (sec d) (lbas lba n))"
      using lbas_add [of lba c "n - c"] c(2) by simp
    finally show ?thesis using r(2,3) w(3) by simp
  qed
qed

end

section \<open>The file system around the blob\<close>

lemma dir_at_same:
  assumes dir: "dir_at fs d ts" and R: "rnodes fs' = rnodes fs" and ok: "heap_ok (r_heap fs')"
    and k: "\<And>q n. (q, n) \<in> heap_live (r_heap fs) \<Longrightarrow> q \<notin> X \<Longrightarrow>
      (q, n) \<in> heap_live (r_heap fs') \<and> bytes_kept (hmem (r_heap fs)) (hmem (r_heap fs')) q n"
    and X: "\<And>q. q \<in> X \<Longrightarrow> q \<noteq> d \<and> (\<forall>t \<in> set ts. q \<notin> ptrs t)"
  shows "dir_at fs' d ts"
proof -
  let ?bl = "(d, 120) # concat (map blocks ts)"
  have live: "all_live (r_heap fs) ?bl" using dir by (simp add: dir_at_def del: all_live_simps)
  have out: "q \<notin> X" if "(q, n) \<in> set ?bl" for q n using X [of q] that by (force simp: ptrs_def)
  have step: "\<exists>m. n \<le> m \<and> (q, m) \<in> heap_live (r_heap fs') \<and> bytes_kept (hmem (r_heap fs)) (hmem (r_heap fs')) q n"
    if q: "(q, n) \<in> set ?bl" for q n
  proof -
    obtain m where m: "n \<le> m" "(q, m) \<in> heap_live (r_heap fs)" using all_liveD [OF live q] by blast
    then have "(q, m) \<in> heap_live (r_heap fs')" "bytes_kept (hmem (r_heap fs)) (hmem (r_heap fs')) q m"
      using k out [OF q] by blast+
    then show ?thesis using m(1) by (auto simp: bytes_kept_def)
  qed
  have "all_live (r_heap fs') ?bl" unfolding all_live_def using step by blast
  moreover have "forest_at (rnodes fs') (hmem (r_heap fs')) d ts"
  proof (rule tree_at_frame(2))
    show "forest_at (rnodes fs) (hmem (r_heap fs)) d ts" using dir by (simp add: dir_at_def)
    show "bytes_kept (hmem (r_heap fs)) (hmem (r_heap fs')) p n" if "t \<in> set ts" "(p, n) \<in> set (blocks t)" for t p n
      using step [of p n] that by auto
  qed (simp add: R)
  ultimately show ?thesis using dir ok by (simp add: dir_at_def R del: all_live_simps)
qed

text \<open>The blob block allocated and filled: the same directory, and the block is apart from it.\<close>

lemma blob_alloc:
  assumes dir: "dir_at fs (r_root fs) ts" and r: "room (r_heap fs) (alloc_cost (of_nat BLOB_MAX) + N)"
  shows "\<exists>p h m. kmalloc (of_nat BLOB_MAX) (r_heap fs) = Some (p, h) \<and> p \<noteq> 0 \<and> hmem h = hmem (r_heap fs) \<and>
    \<not> live_ptr (r_heap fs) p \<and>
    (\<forall>blob. length blob = BLOB_MAX \<longrightarrow> dir_at (set_blob p blob (fs\<lparr>r_heap := h\<rparr>)) (r_root fs) ts) \<and>
    dir_at (fs\<lparr>r_heap := h\<rparr>) (r_root fs) ts \<and> room h N \<and> (p, m) \<in> heap_live h"
proof -
  have B: "unat (of_nat BLOB_MAX :: u64) = 524288" "(of_nat BLOB_MAX :: u64) \<noteq> 0" "BLOB_MAX = 524288"
    by (simp_all add: BLOB_MAX_def PERSIST_MAX_SECTORS_def)
  have ok: "heap_ok (r_heap fs)" using dir by (simp add: dir_at_def)
  obtain p h m where a: "kmalloc (of_nat BLOB_MAX) (r_heap fs) = Some (p, h)" "p \<noteq> 0" "heap_ok h" "room h N"
    "524288 \<le> m" "p \<notin> fst ` heap_live (r_heap fs)" "heap_live h = insert (p, m) (heap_live (r_heap fs))"
    "\<forall>b \<in> heap_live (r_heap fs). ranges_apart (p, 524288) b"
    using khr.alloc_within [OF ok r B(2)] B(1) by auto
  have hm: "hmem h = hmem (r_heap fs)" using kmalloc_live [OF ok, of "of_nat BLOB_MAX"] a(1) by auto
  have pm: "unat p + 524288 < 2 ^ 64" using live_bound(1) [OF a(3), of p m] a(5,7) by simp
  have "dir_at (fs\<lparr>r_heap := h\<rparr>) (r_root fs) ts"
    using a(3,7) hm by (intro dir_at_same [OF dir, of _ "{}"]) auto
  moreover have "dir_at (set_blob p blob (fs\<lparr>r_heap := h\<rparr>)) (r_root fs) ts" if "length blob = BLOB_MAX" for blob
  proof (rule dir_at_same [OF dir, of _ "{}"])
    show "(q, n) \<in> heap_live (r_heap (set_blob p blob (fs\<lparr>r_heap := h\<rparr>))) \<and>
        bytes_kept (hmem (r_heap fs)) (hmem (r_heap (set_blob p blob (fs\<lparr>r_heap := h\<rparr>)))) q n"
      if q: "(q, n) \<in> heap_live (r_heap fs)" for q n
      using wr_bytes_apart [OF a(8) [rule_format, OF q] live_bound(1) [OF ok q] pm, of 0 blob "hmem (r_heap fs)"]
        \<open>length blob = BLOB_MAX\<close> B(3) q a(7) hm by (simp add: set_blob_def)
  qed (simp_all add: set_blob_def a(3))
  moreover have "\<not> live_ptr (r_heap fs) p" using a(6) by (force simp: live_ptr_def)
  ultimately show ?thesis using a hm by blast
qed

lemma blob_free:
  assumes dir: "dir_at fs d ts" and live: "(p, m) \<in> heap_live (r_heap fs)"
    and X: "p \<noteq> d" "\<forall>t \<in> set ts. p \<notin> ptrs t"
  shows "\<exists>fs'. free_blob p fs = Some fs' \<and> dir_at fs' d ts \<and> r_root fs' = r_root fs"
proof -
  have ok: "heap_ok (r_heap fs)" using dir by (simp add: dir_at_def)
  obtain h where h: "kfree p (r_heap fs) = Some h" "heap_ok h" "hmem h = hmem (r_heap fs)"
    "heap_live h = heap_live (r_heap fs) - {(p, m)}"
    using kfree_live [OF ok live] by blast
  have "dir_at (fs\<lparr>r_heap := h\<rparr>) d ts"
    using h X by (intro dir_at_same [OF dir, of _ "{p}"]) auto
  then show ?thesis using h(1) by (simp add: free_blob_def)
qed

section \<open>Saving and loading\<close>

text \<open>The sectors that a blob of \<open>L\<close> bytes takes, and what the disk holds after a save of \<open>xs\<close>.\<close>

definition blob_len :: "ftree list \<Rightarrow> nat" where
  "blob_len xs = 12 + length (encodes xs)"

definition blob_sectors :: "ftree list \<Rightarrow> nat" where
  "blob_sectors xs = (blob_len xs + 511) div 512"

definition saved :: "(u32 \<Rightarrow> u8 list) \<Rightarrow> ftree list \<Rightarrow> bool" where
  "saved S xs \<longleftrightarrow> (\<exists>tail. concat (map S (lbas PERSIST_START_LBA (blob_sectors xs))) =
     MAGIC @ le_bytes 4 (of_nat (blob_len xs) :: u64) @ encodes xs @ tail)"

lemma blob_sectors_bound: "blob_len xs \<le> BLOB_MAX \<Longrightarrow>
    0 < blob_sectors xs \<and> blob_sectors xs \<le> 1024 \<and> blob_len xs \<le> 512 * blob_sectors xs"
proof -
  assume "blob_len xs \<le> BLOB_MAX"
  then have "12 \<le> blob_len xs" "blob_len xs \<le> 524288" by (simp_all add: blob_len_def BLOB_MAX_def PERSIST_MAX_SECTORS_def)
  moreover have "blob_len xs + 511 = 512 * blob_sectors xs + (blob_len xs + 511) mod 512" by (simp add: blob_sectors_def)
  moreover have "(blob_len xs + 511) mod 512 < 512" by simp
  ultimately show ?thesis by linarith
qed

lemma magic_len: "length MAGIC = 8"
  by (simp add: MAGIC_def)

context disk
begin

lemma persist_save_ok:
  assumes "good d" and "33792 \<le> cap" and dir: "dir_at fs (r_root fs) ts" and len: "blob_len (map erase ts) + 2 \<le> BLOB_MAX"
    and r: "room (r_heap fs) (alloc_cost (of_nat BLOB_MAX))"
  shows "\<exists>fs' d'. persist_save D fs d = Some (0, fs', d') \<and> r_root fs' = r_root fs \<and> dir_at fs' (r_root fs') ts \<and>
    good d' \<and> saved (sec d') (map erase ts) \<and> (\<forall>l. l < 32768 \<or> 33792 \<le> l \<longrightarrow> sec d' l = sec d l)"
proof -
  let ?xs = "map erase ts" and ?B = BLOB_MAX
  have B: "?B = 524288" by (simp add: BLOB_MAX_def PERSIST_MAX_SECTORS_def)
  obtain p h m where a: "kmalloc (of_nat ?B) (r_heap fs) = Some (p, h)" "p \<noteq> 0"
    and new: "\<not> live_ptr (r_heap fs) p" and lp: "(p, m) \<in> heap_live h"
    and d1: "\<forall>blob. length blob = ?B \<longrightarrow> dir_at (set_blob p blob (fs\<lparr>r_heap := h\<rparr>)) (r_root fs) ts"
    and d2: "dir_at (fs\<lparr>r_heap := h\<rparr>) (r_root fs) ts"
    using blob_alloc [OF dir, of 0] r by auto
  let ?out = "rd_bytes (hmem h) p ?B"
  let ?blob = "MAGIC @ le_bytes 4 (of_nat (blob_len ?xs) :: u64) @ encodes ?xs @ drop (blob_len ?xs) ?out"
  have s: "ramfs_serialize (fs\<lparr>r_heap := h\<rparr>) ?B ?out = Some (?blob, blob_len ?xs)"
    using serialize_blob [of "fs\<lparr>r_heap := h\<rparr>" ts ?B ?out] d2 len B by (simp add: blob_len_def)
  have bl: "length ?blob = ?B" using len magic_len by (simp add: blob_len_def)
  let ?S = "blob_sectors ?xs"
  have S: "0 < ?S" "?S \<le> 1024" "blob_len ?xs \<le> 512 * ?S" using blob_sectors_bound [of ?xs] len by auto
  have U: "unat PERSIST_START_LBA = 32768" by (simp add: PERSIST_START_LBA_def)
  obtain d' where w: "write_chunks D PERSIST_START_LBA ?S ?blob 0 d = (True, d')" "good d'"
    "sec d' = put_sectors PERSIST_START_LBA ?S ?blob (sec d)"
    using write_chunks_ok [OF assms(1), of PERSIST_START_LBA ?S 0 ?blob] U S(2) assms(2) bl B by auto
  let ?fs = "set_blob p ?blob (fs\<lparr>r_heap := h\<rparr>)"
  have "p \<noteq> r_root fs" "\<forall>t \<in> set ts. p \<notin> ptrs t" using new dir_at_ptrs(1,2) [OF dir] by blast+
  then obtain fs' where f: "free_blob p ?fs = Some fs'" "dir_at fs' (r_root fs) ts" "r_root fs' = r_root ?fs"
    using blob_free [OF d1 [rule_format, OF bl], of p m] lp by (auto simp: set_blob_def)
  have "(blob_len ?xs + 512 - 1) div 512 = ?S" "blob_len ?xs \<noteq> 0" by (simp_all add: blob_sectors_def blob_len_def)
  then have "persist_save D fs d = Some (0, fs', d')"
    using a s w(1) f(1) S(2) by (simp add: persist_save_def Let_def PERSIST_MAX_SECTORS_def)
  moreover have "saved (sec d') ?xs" unfolding saved_def w(3)
  proof
    have "take (512 * ?S) ?blob = MAGIC @ le_bytes 4 (of_nat (blob_len ?xs) :: u64) @ encodes ?xs @
        take (512 * ?S - blob_len ?xs) (drop (blob_len ?xs) ?out)"
      using S(3) magic_len by (simp add: blob_len_def)
    moreover have "put_sectors PERSIST_START_LBA ?S ?blob (sec d) = put_sectors PERSIST_START_LBA ?S (take (512 * ?S) ?blob) (sec d)"
      by (rule put_sectors_take [symmetric]) simp
    moreover have "length (take (512 * ?S) ?blob) = 512 * ?S" using bl S(2) B by simp
    ultimately show "concat (map (put_sectors PERSIST_START_LBA ?S ?blob (sec d)) (lbas PERSIST_START_LBA ?S)) =
        MAGIC @ le_bytes 4 (of_nat (blob_len ?xs) :: u64) @ encodes ?xs @ take (512 * ?S - blob_len ?xs) (drop (blob_len ?xs) ?out)"
      using put_sectors_read [of ?S "take (512 * ?S) ?blob" PERSIST_START_LBA "sec d"] S(2) by simp
  qed
  moreover have "sec d' l = sec d l" if "l < 32768 \<or> 33792 \<le> l" for l
  proof -
    have "unat (PERSIST_START_LBA + of_nat i) = 32768 + i" if "i < ?S" for i
      using that S(2) chunk_lba [of PERSIST_START_LBA 1024 i] assms(2) U by simp
    then have "l \<notin> set (lbas PERSIST_START_LBA ?S)" using that S(2) by (auto simp: lbas_def word_less_nat_alt word_le_nat_alt)
    then show ?thesis unfolding w(3) by (rule put_sectors_other)
  qed
  ultimately show ?thesis using f(2,3) w(2) by (auto simp: set_blob_def)
qed

lemma persist_load_ok:
  assumes "good d" and "33792 \<le> cap" and dir: "dir_at fs (r_root fs) []" and len: "blob_len xs + 2 \<le> BLOB_MAX"
    and ok: "\<forall>x \<in> set xs. ftree_ok x" "distinct (map fname xs)" and sv: "saved (sec d) xs"
    and r: "room (r_heap fs) (alloc_cost (of_nat BLOB_MAX) + sum_list (map load_cost xs))"
  shows "\<exists>fs' d' new. persist_load D fs d = Some (0, fs', d') \<and> dir_at fs' (r_root fs') new \<and>
    map erase new = rev (map mirror xs) \<and> good d' \<and> sec d' = sec d"
proof -
  let ?B = BLOB_MAX and ?S = "blob_sectors xs" and ?L = "blob_len xs"
  have B: "?B = 524288" by (simp add: BLOB_MAX_def PERSIST_MAX_SECTORS_def)
  have S: "0 < ?S" "?S \<le> 1024" "?L \<le> 512 * ?S" using blob_sectors_bound [of xs] len by auto
  have U: "unat PERSIST_START_LBA = 32768" by (simp add: PERSIST_START_LBA_def)
  let ?hd = "MAGIC @ le_bytes 4 (of_nat ?L :: u64)"
  obtain tail where tl: "concat (map (sec d) (lbas PERSIST_START_LBA ?S)) = ?hd @ encodes xs @ tail"
    using sv by (auto simp: saved_def)
  obtain p h m where a: "kmalloc (of_nat ?B) (r_heap fs) = Some (p, h)" "p \<noteq> 0" "room h (sum_list (map load_cost xs))"
    and new: "\<not> live_ptr (r_heap fs) p" and lp: "(p, m) \<in> heap_live h"
    and d1: "\<forall>blob. length blob = ?B \<longrightarrow> dir_at (set_blob p blob (fs\<lparr>r_heap := h\<rparr>)) (r_root fs) []"
    using blob_alloc [OF dir r] by blast
  let ?b0 = "rd_bytes (hmem h) p ?B" and ?s0 = "sec d PERSIST_START_LBA"
  obtain d0 where r0: "dk_read D PERSIST_START_LBA 1 d = (Some ?s0, d0)" "good d0" "sec d0 = sec d"
    using read1 [OF assms(1), of PERSIST_START_LBA] U assms(2) by auto
  obtain k where k: "?S = Suc k" using S(1) by (cases ?S) auto
  have s0: "length ?s0 = 512" by (rule sec_len [OF assms(1)])
  have "take 12 ?s0 = ?hd" using arg_cong [OF tl, of "take 12"] s0 k magic_len by (simp add: lbas_Cons)
  then obtain r0' where s0': "?s0 = ?hd @ r0'" by (metis append_take_drop_id)
  let ?b1 = "put_at ?b0 0 ?s0"
  have p1: "put_bytes ?b0 0 ?s0 = (?b1, 512)" using put_bytes_put_at [of 0 ?s0 ?b0] s0 B by simp
  have "?b1 = ?s0 @ drop 512 ?b0" using s0 by (simp add: put_at_def)
  then have b1: "?b1 = ?hd @ r0' @ drop 512 ?b0" unfolding s0' by simp
  have b1l: "length ?b1 = ?B" using s0 B by simp
  have mg: "take 8 ?b1 = MAGIC" "take 4 (drop 8 ?b1) = le_bytes 4 (of_nat ?L :: u64)" unfolding b1 using magic_len by simp_all
  have sz: "unat (le_word (le_bytes 4 (of_nat ?L :: u64)) :: u32) = ?L" using len B by (intro le_word_size) simp
  define T where "T = (if ?L < 16 then 16 else ?L)"
  have "(T + 512 - 1) div 512 = ?S" by (auto simp: T_def blob_sectors_def blob_len_def)
  then have T: "load_size ?b1 = T" "load_sectors T = ?S"
    using mg(2) sz len S(1) by (simp_all add: load_size_def load_sectors_def T_def Let_def)
  let ?b3 = "put_at ?b1 0 (?hd @ encodes xs @ tail)"
  have fit: "0 + 512 * ?S \<le> length ?b1" using b1l S(2) B by simp
  have cl: "length (?hd @ encodes xs @ tail) = 512 * ?S"
    unfolding tl [symmetric] using sec_len [OF assms(1)] by (simp add: length_concat comp_def lbas_def sum_list_triv)
  obtain d3 where r3: "read_chunks D PERSIST_START_LBA ?S ?b1 0 d0 = (True, ?b3, d3)" "good d3" "sec d3 = sec d"
    using read_chunks_ok [OF r0(2), of PERSIST_START_LBA ?S 0 ?b1] U S(2) assms(2) fit tl r0(3) by auto
  have b3: "?b3 = MAGIC @ le_bytes 4 (of_nat ?L :: u64) @ encodes xs @ (tail @ drop (512 * ?S) ?b1)"
    using cl by (simp add: put_at_def)
  have l3: "length ?b3 = ?B" using cl fit b1l by simp
  let ?fs = "set_blob p ?b3 (fs\<lparr>r_heap := h\<rparr>)"
  have fs3: "dir_at ?fs (r_root ?fs) []" "room (r_heap ?fs) (sum_list (map load_cost xs) + 0)" "r_root ?fs = r_root fs"
    using d1 [rule_format, OF l3] a(3) by (simp_all add: set_blob_def)
  have Ls: "?L < 2 ^ 32" "?L \<le> T" "16 \<le> T" using len B by (simp_all add: T_def)
  obtain new' fs4 where ds: "ramfs_deserialize ?b3 T ?fs = Some (0, fs4)" "added (r_root fs) new' [] ?fs fs4"
    "map erase new' = rev (map mirror xs)"
    using deserialize_blob [OF fs3(1) ok blob_len_def Ls fs3(2), of "tail @ drop (512 * ?S) ?b1"] fs3(3)
    unfolding b3 by auto
  have lp': "live_ptr (r_heap ?fs) p" "(p, m) \<in> heap_live (r_heap fs4)"
    using lp ds(2) by (auto simp: set_blob_def live_ptr_def added_def keeps_def)
  have "p \<noteq> r_root fs" using new dir_at_ptrs(1) [OF dir] by blast
  moreover have "\<forall>t \<in> set new'. p \<notin> ptrs t" using ds(2) lp'(1) by (auto simp: added_def)
  moreover have "dir_at fs4 (r_root fs) new'" "r_root fs4 = r_root fs"
    using ds(2) fs3(3) by (auto simp: added_def keeps_def)
  ultimately obtain fs' where f: "free_blob p fs4 = Some fs'" "dir_at fs' (r_root fs) new'" "r_root fs' = r_root fs"
    using blob_free [of fs4 "r_root fs" new' p m] lp'(2) by auto
  have "persist_load D fs d = Some (0, fs', d3)"
    unfolding persist_load_def using a(1,2) r0(1) r3(1) ds(1) f(1) T mg(1)
    by (simp add: p1 Let_def)
  then show ?thesis using f ds(3) r3(2,3) by auto
qed

end

section \<open>Properties\<close>

text \<open>C5. Shutdown and reboot: on a disk that works and reaches past the reserved area, with heap
  for the half-megabyte blob, \<open>persist_save\<close> of a file system whose encoding fits succeeds, leaves the
  file system as it was and writes only the reserved sectors; \<open>persist_load\<close> from that disk into a
  fresh file system then succeeds and rebuilds every name, directory and byte, the entries of each
  directory in the opposite order.\<close>

theorem persist_round_trip:
  assumes "disk D sec good cap" and "good d" and "33792 \<le> cap"
    and "dir_at fs (r_root fs) ts" and "blob_len (map erase ts) + 2 \<le> BLOB_MAX"
    and "room (r_heap fs) (alloc_cost (of_nat BLOB_MAX))"
    and "dir_at fs2 (r_root fs2) []" and "room (r_heap fs2) (alloc_cost (of_nat BLOB_MAX) + sum_list (map load_cost (map erase ts)))"
  shows "\<exists>fs' d' fs3 d'' new. persist_save D fs d = Some (0, fs', d') \<and> dir_at fs' (r_root fs') ts \<and>
    (\<forall>l. l < 32768 \<or> 33792 \<le> l \<longrightarrow> sec d' l = sec d l) \<and>
    persist_load D fs2 d' = Some (0, fs3, d'') \<and> dir_at fs3 (r_root fs3) new \<and>
    map erase new = rev (map mirror (map erase ts)) \<and> sec d'' = sec d'"
proof -
  obtain fs' d' where s: "persist_save D fs d = Some (0, fs', d')" "dir_at fs' (r_root fs') ts" "good d'"
    "saved (sec d') (map erase ts)" "\<forall>l. l < 32768 \<or> 33792 \<le> l \<longrightarrow> sec d' l = sec d l"
    using disk.persist_save_ok [OF assms(1-6)] by blast
  obtain fs3 d'' new where "persist_load D fs2 d' = Some (0, fs3, d'')" "dir_at fs3 (r_root fs3) new"
    "map erase new = rev (map mirror (map erase ts))" "sec d'' = sec d'"
    using disk.persist_load_ok [OF assms(1) s(3) assms(3,7,5) dir_forest_ok [OF assms(4)] s(4) assms(8)] by blast
  then show ?thesis using s(1,2,5) by blast
qed

lemma blob_cost: "alloc_cost (of_nat BLOB_MAX) = 524416"
  by (simp add: alloc_cost_def heap_need_def ALIGN16_def HEADER_SIZE_def Let_def BLOB_MAX_def PERSIST_MAX_SECTORS_def)

lemma demo_fs_room: "room (r_heap demo_fs) 1000000"
proof -
  have "room (r_heap demo_empty) (load_cost (File [97] [1, 2, 3]) + 1000000)"
    by (rule room_mono [OF demo_empty_dir(2)]) (simp add: node_cost grow_cost_def)
  then obtain f fs1 r1 fs2 where "ramfs_create_file (r_root demo_empty) [97] demo_empty = Some (f, fs1)"
    "ramfs_write f [1, 2, 3] 0 fs1 = Some (r1, fs2)" "room (r_heap fs2) 1000000"
    using load_file [OF demo_empty_dir(1), of "[97]" "[1, 2, 3]" 1000000] by (auto simp: name_ok_def)
  then show ?thesis by (simp add: demo_fs_def demo_file_def)
qed

theorem persist_round_trip_witness:
  "\<exists>fs' d' fs3 d'' new. persist_save (ata_ops drive_ports demo_ata) demo_fs demo_drive = Some (0, fs', d') \<and>
    persist_load (ata_ops drive_ports demo_ata) demo_empty d' = Some (0, fs3, d'') \<and> dir_at fs3 (r_root fs3) new \<and>
    map erase new = [File [97] [1, 2, 3]]"
proof -
  obtain t where t: "dir_at demo_fs (r_root demo_fs) [t]" "erase t = File [97] [1, 2, 3]" using demo_fs_dir by blast
  have r: "room (r_heap demo_fs) (alloc_cost (of_nat BLOB_MAX))"
    by (rule room_mono [OF demo_fs_room]) (simp add: blob_cost)
  have r2: "room (r_heap demo_empty) (alloc_cost (of_nat BLOB_MAX) + sum_list (map load_cost (map erase [t])))"
    by (rule room_mono [OF demo_empty_dir(2)]) (simp add: blob_cost t(2) node_cost grow_cost_def)
  have l: "blob_len (map erase [t]) + 2 \<le> BLOB_MAX" by (simp add: t(2) blob_len_def BLOB_MAX_def PERSIST_MAX_SECTORS_def)
  have dk: "disk (ata_ops drive_ports demo_ata) dr_sectors drive_ok (2 ^ 28)" by (rule ata_disk) (simp add: demo_ata_def)
  have "rev (map mirror (map erase [t])) = [File [97] [1, 2, 3]]" using t(2) by simp
  moreover have "33792 \<le> (2 :: nat) ^ 28" by simp
  ultimately show ?thesis using persist_round_trip [OF dk demo_drive_ok _ t(1) l r demo_empty_dir(1) r2] by metis
qed

end
