(* ===== verification/Inet.thy ===== *)
theory Inet
  imports Flyos_Prelude
begin

text \<open>
  The packets of \<open>kernel/drivers/e1000.c\<close> and \<open>arp.c\<close>: Internet checksums, the frames that the
  driver builds byte by byte, and the parsers of replies.  A frame is the list of its bytes, in
  the order in which the code fills the packet buffer.  A received message is the memory from its
  first byte on (a function of the offset) together with its length, since the parsers may
  read behind the end of the message.
\<close>

section \<open>Big-endian fields\<close>

definition be16 :: "u16 \<Rightarrow> u8 list" where
  "be16 v = [ucast (drop_bit 8 v), ucast v]"

definition be32 :: "u32 \<Rightarrow> u8 list" where
  "be32 v = [ucast (drop_bit 24 v), ucast (drop_bit 16 v), ucast (drop_bit 8 v), ucast v]"

definition get_be16 :: "(nat \<Rightarrow> u8) \<Rightarrow> nat \<Rightarrow> u16" where
  "get_be16 p i = push_bit 8 (ucast (p i)) OR ucast (p (i + 1))"

definition get_be32 :: "(nat \<Rightarrow> u8) \<Rightarrow> nat \<Rightarrow> u32" where
  "get_be32 p i = push_bit 24 (ucast (p i)) OR push_bit 16 (ucast (p (i + 1))) OR
     push_bit 8 (ucast (p (i + 2))) OR ucast (p (i + 3))"

section \<open>Checksums\<close>

text \<open>The summing loop of \<open>ip_checksum\<close> with its odd byte, and the folding of the carries.\<close>

fun ip_sum :: "u8 list \<Rightarrow> u32 \<Rightarrow> u32" where
  "ip_sum (a # b # p) sm = ip_sum p (sm + (push_bit 8 (ucast a) OR ucast b))"
| "ip_sum [a] sm = sm + push_bit 8 (ucast a)"
| "ip_sum [] sm = sm"

text \<open>The same with the 16-bit units read in the byte order of the machine, as \<open>icmp_checksum\<close> does.\<close>

fun icmp_sum :: "u8 list \<Rightarrow> u32 \<Rightarrow> u32" where
  "icmp_sum (a # b # p) sm = icmp_sum p (sm + (ucast a OR push_bit 8 (ucast b)))"
| "icmp_sum [a] sm = sm + ucast a"
| "icmp_sum [] sm = sm"

lemma unat_high: "unat (drop_bit n (w :: 'a::len word)) = unat w div 2 ^ n"
  using unsigned_less [of w] by (simp only: unsigned_drop_bit_eq) (simp add: drop_bit_eq_div take_bit_nat_eq_self)

lemma fold_step: "drop_bit 16 (s :: u32) \<noteq> 0 \<Longrightarrow> unat ((s AND 0xFFFF) + drop_bit 16 s) = unat s mod 65536 + unat s div 65536"
proof -
  have "s AND 0xFFFF = take_bit 16 s" using take_bit_eq_mask [of 16 s] by (simp add: mask_eq_exp_minus_1)
  then have m: "unat (s AND 0xFFFF) = unat s mod 65536" by (simp only: unsigned_take_bit_eq) (simp add: take_bit_eq_mod)
  have d: "unat (drop_bit 16 s) = unat s div 65536" by (simp add: unat_high)
  have "unat s < 4294967296" using unsigned_less [of s] by simp
  then have "unat s mod 65536 + unat s div 65536 < 4294967296" by linarith
  then show ?thesis using m d by (simp add: unat_plus_small)
qed

lemma fold_div: "drop_bit 16 (s :: u32) \<noteq> 0 \<longleftrightarrow> 65536 \<le> unat s"
proof -
  have "unat (drop_bit 16 s) = unat s div 65536" by (simp add: unat_high)
  then show ?thesis by (metis div_eq_0_iff not_less unat_eq_0 zero_neq_numeral)
qed

function fold_carry :: "u32 \<Rightarrow> u32" where
  "fold_carry sm = (if drop_bit 16 sm \<noteq> 0 then fold_carry ((sm AND 0xFFFF) + drop_bit 16 sm) else sm)"
  by pat_completeness auto
termination
proof (relation "measure unat")
  fix sm :: u32
  assume a: "drop_bit 16 sm \<noteq> 0"
  then have "65536 \<le> unat sm" by (simp only: fold_div)
  then have "0 < unat sm div 65536" by (simp add: div_greater_zero_iff)
  moreover have "unat sm = unat sm mod 65536 + 65536 * (unat sm div 65536)" by simp
  ultimately have "unat sm mod 65536 + unat sm div 65536 < unat sm" by linarith
  then show "((sm AND 0xFFFF) + drop_bit 16 sm, sm) \<in> measure unat" using fold_step [OF a] by simp
qed simp

declare fold_carry.simps [simp del]

definition ip_checksum :: "u8 list \<Rightarrow> u16" where
  "ip_checksum p = NOT (ucast (fold_carry (ip_sum p 0)))"

definition icmp_checksum :: "u8 list \<Rightarrow> u16" where
  "icmp_checksum p = NOT (ucast (fold_carry (icmp_sum p 0)))"

definition tcp_checksum :: "u32 \<Rightarrow> u32 \<Rightarrow> u8 list \<Rightarrow> u16" where
  "tcp_checksum src_ip dst_ip tcp =
     (let sm = (drop_bit 16 src_ip AND 0xFFFF) + (src_ip AND 0xFFFF) + (drop_bit 16 dst_ip AND 0xFFFF) +
            (dst_ip AND 0xFFFF) + 0x0006 + ucast (of_nat (length tcp) :: u16)
      in NOT (ucast (fold_carry (ip_sum tcp sm))))"

section \<open>Frames\<close>

text \<open>\<open>p[off] = b\<close> for the bytes in turn, as the code overwrites the checksum fields.\<close>

definition set_bytes :: "nat \<Rightarrow> u8 list \<Rightarrow> u8 list \<Rightarrow> u8 list" where
  "set_bytes off bs p = take off p @ bs @ drop (off + length bs) p"

definition eth_header :: "u8 list \<Rightarrow> u8 list \<Rightarrow> u16 \<Rightarrow> u8 list" where
  "eth_header dst src ty = dst @ src @ be16 ty"

definition ip_header :: "u16 \<Rightarrow> u16 \<Rightarrow> u8 \<Rightarrow> u32 \<Rightarrow> u8 list" where
  "ip_header ip_total ident proto dst_ip =
     (let h = [0x45, 0x00] @ be16 ip_total @ be16 ident @ [0x00, 0x00, 64, proto, 0, 0, 10, 0, 2, 15] @ be32 dst_ip
      in set_bytes 10 (be16 (ip_checksum h)) h)"

definition arp_packet :: "u8 list \<Rightarrow> u32 \<Rightarrow> u32 \<Rightarrow> u8 list" where
  "arp_packet our_mac our_ip target_ip =
     eth_header (replicate 6 0xFF) our_mac 0x0806 @ be16 0x0001 @ be16 0x0800 @ [6, 4] @ be16 0x0001 @
     our_mac @ be32 our_ip @ replicate 6 0 @ be32 target_ip"

definition ping_packet :: "u8 list \<Rightarrow> u8 list \<Rightarrow> u32 \<Rightarrow> u8 list" where
  "ping_packet gw mac dst_ip =
     (let icmp = [0x08, 0x00, 0, 0, 0x00, 0x01, 0x00, 0x01] @ map of_nat [42..<98]
      in eth_header gw mac 0x0800 @ ip_header 84 0x0001 0x01 dst_ip @ set_bytes 2 (be16 (ip_checksum icmp)) icmp)"

text \<open>\<open>None\<close> is the early return for a payload that does not fit.\<close>

definition udp_packet :: "u8 list \<Rightarrow> u8 list \<Rightarrow> u32 \<Rightarrow> u16 \<Rightarrow> u16 \<Rightarrow> u8 list \<Rightarrow> u8 list option" where
  "udp_packet gw mac dst_ip src_port dst_port payload =
     (if 14 + 20 + 8 + length payload > 1500 then None
      else Some (eth_header gw mac 0x0800 @ ip_header (of_nat (20 + 8 + length payload)) 0x0002 0x11 dst_ip @
        be16 src_port @ be16 dst_port @ be16 (of_nat (8 + length payload)) @ [0x00, 0x00] @ payload))"

definition tcp_syn_segment :: "u32 \<Rightarrow> u16 \<Rightarrow> u8 list" where
  "tcp_syn_segment dst_ip dst_port =
     (let tcp = be16 40000 @ be16 dst_port @ be32 0x12345678 @ [0, 0, 0, 0, 0x50, 0x02, 0x10, 0x00, 0, 0, 0, 0]
      in set_bytes 16 (be16 (tcp_checksum 0x0A00020F dst_ip tcp)) tcp)"

definition tcp_syn_packet :: "u8 list \<Rightarrow> u8 list \<Rightarrow> u32 \<Rightarrow> u16 \<Rightarrow> u8 list" where
  "tcp_syn_packet gw mac dst_ip dst_port =
     eth_header gw mac 0x0800 @ ip_header 40 0x0003 0x06 dst_ip @ tcp_syn_segment dst_ip dst_port"

section \<open>DNS\<close>

text \<open>
  What a routine that builds a DNS name or message leaves: the bytes, the return of -1 for a label of
  more than 63 characters, or a store behind the end of its buffer, after which the code has
  no defined behaviour.
\<close>

datatype dns_out = Dns_bytes "u8 list" | Dns_bad | Dns_overrun

fun dns_prefix :: "u8 list \<Rightarrow> dns_out \<Rightarrow> dns_out" where
  "dns_prefix bs (Dns_bytes enc) = Dns_bytes (bs @ enc)"
| "dns_prefix bs Dns_bad = Dns_bad"
| "dns_prefix bs Dns_overrun = Dns_overrun"

text \<open>
  \<open>dns_encode_name\<close>, with the room there is behind \<open>out\<close>: each label with its length in front, and a
  final 0. The code knows no limit; the first store that misses the buffer ends the model's run.
\<close>

function dns_encode_name :: "nat \<Rightarrow> u8 list \<Rightarrow> dns_out" where
  "dns_encode_name room name =
     (if name = [] then (if room = 0 then Dns_overrun else Dns_bytes [0])
      else
        (let label = takeWhile (\<lambda>c. c \<noteq> 46) name; rest = dropWhile (\<lambda>c. c \<noteq> 46) name in
         if length label > 63 then Dns_bad
         else if room < 1 + length label then Dns_overrun
         else dns_prefix ([of_nat (length label)] @ label)
           (dns_encode_name (room - (1 + length label)) (case rest of [] \<Rightarrow> [] | c # r \<Rightarrow> r))))"
  by pat_completeness auto
termination
proof (relation "measure (\<lambda>(room, name). length name)")
  fix name :: "u8 list" and label rest and room :: nat
  assume "name \<noteq> []" and r: "rest = dropWhile (\<lambda>c. c \<noteq> 46) name"
  have le: "length rest \<le> length name" unfolding r by (rule length_dropWhile_le)
  have "length (case rest of [] \<Rightarrow> [] | c # r \<Rightarrow> r) < length name"
    using \<open>name \<noteq> []\<close> le by (cases rest) (simp_all del: length_greater_0_conv add: length_greater_0_conv [symmetric])
  then show "((room - (1 + length label), case rest of [] \<Rightarrow> [] | c # r \<Rightarrow> r), room, name) \<in> measure (\<lambda>(room, name). length name)"
    by simp
qed simp

declare dns_encode_name.simps [simp del]

text \<open>The message of \<open>e1000_dns_query\<close> in its buffer \<open>uint8_t dns[256]\<close>.\<close>

definition DNS_BUF :: nat where "DNS_BUF = 256"

definition dns_query_message :: "u8 list \<Rightarrow> dns_out" where
  "dns_query_message hostname =
     (case dns_encode_name (DNS_BUF - 12) hostname of
        Dns_bytes enc \<Rightarrow>
          (if 12 + length enc + 4 > DNS_BUF then Dns_overrun
           else Dns_bytes ([0xAB, 0xCD, 0x01, 0x00, 0x00, 0x01, 0, 0, 0, 0, 0, 0] @ enc @ [0x00, 0x01, 0x00, 0x01]))
      | Dns_bad \<Rightarrow> Dns_bad
      | Dns_overrun \<Rightarrow> Dns_overrun)"

text \<open>The loop over the labels of a question.\<close>

function skip_question :: "(nat \<Rightarrow> u8) \<Rightarrow> nat \<Rightarrow> nat \<Rightarrow> nat" where
  "skip_question dns len pos =
     (if pos < len \<and> dns pos \<noteq> 0 then
        (if dns pos AND 0xC0 = 0xC0 then pos + 2 else skip_question dns len (pos + 1 + unat (dns pos)))
      else pos)"
  by pat_completeness auto
termination by (relation "measure (\<lambda>(dns, len, pos). len - pos)") auto

function skip_labels :: "(nat \<Rightarrow> u8) \<Rightarrow> nat \<Rightarrow> nat \<Rightarrow> nat" where
  "skip_labels dns len pos =
     (if pos < len \<and> dns pos \<noteq> 0 then skip_labels dns len (pos + 1 + unat (dns pos)) else pos)"
  by pat_completeness auto
termination by (relation "measure (\<lambda>(dns, len, pos). len - pos)") auto

declare skip_question.simps [simp del] skip_labels.simps [simp del]

fun skip_questions :: "(nat \<Rightarrow> u8) \<Rightarrow> nat \<Rightarrow> nat \<Rightarrow> nat \<Rightarrow> nat" where
  "skip_questions dns len 0 pos = pos"
| "skip_questions dns len (Suc q) pos =
     (let pos = skip_question dns len pos;
          pos = (if pos < len \<and> dns pos = 0 then pos + 1 else pos)
      in skip_questions dns len q (pos + 4))"

text \<open>The name in front of an answer, which may be a pointer.\<close>

definition skip_name :: "(nat \<Rightarrow> u8) \<Rightarrow> nat \<Rightarrow> nat \<Rightarrow> nat" where
  "skip_name dns len pos =
     (if dns pos AND 0xC0 = 0xC0 then pos + 2
      else (let pos = skip_labels dns len pos in if pos < len then pos + 1 else pos))"

text \<open>The loop over the answers: the address of the first A record.\<close>

fun read_answers :: "(nat \<Rightarrow> u8) \<Rightarrow> nat \<Rightarrow> nat \<Rightarrow> nat \<Rightarrow> u8 list option" where
  "read_answers dns len 0 pos = None"
| "read_answers dns len (Suc a) pos =
     (if pos < len then
        (let pos = skip_name dns len pos in
         if pos + 10 > len then None
         else
           (let ty = get_be16 dns pos; rdlen = get_be16 dns (pos + 8); pos = pos + 10 in
            if ty = 0x0001 \<and> rdlen = 4 then Some [dns pos, dns (pos + 1), dns (pos + 2), dns (pos + 3)]
            else read_answers dns len a (pos + unat rdlen)))
      else None)"

text \<open>\<open>Some ip\<close> is the return of 0 with the address stored, \<open>None\<close> the return of -1.\<close>

definition e1000_dns_parse_reply :: "(nat \<Rightarrow> u8) \<Rightarrow> int \<Rightarrow> u8 list option" where
  "e1000_dns_parse_reply dns len =
     (if len < 12 then None
      else if dns 0 \<noteq> 0xAB \<or> dns 1 \<noteq> 0xCD then None
      else
        (let flags = get_be16 dns 2; qdcount = get_be16 dns 4; ancount = get_be16 dns 6 in
         if flags AND 0x8000 = 0 then None
         else if flags AND 0x000F \<noteq> 0 then None
         else read_answers dns (nat len) (unat ancount) (skip_questions dns (nat len) (unat qdcount) 12)))"

section \<open>TCP replies\<close>

record tcp_reply =
  tr_src_port :: u16
  tr_seq :: u32
  tr_ack :: u32
  tr_flags :: u16

definition e1000_tcp_parse_reply :: "(nat \<Rightarrow> u8) \<Rightarrow> int \<Rightarrow> tcp_reply option" where
  "e1000_tcp_parse_reply tcp len =
     (if len < 20 then None
      else Some \<lparr>tr_src_port = get_be16 tcp 0, tr_seq = get_be32 tcp 4, tr_ack = get_be32 tcp 8,
                 tr_flags = get_be16 tcp 12\<rparr>)"

section \<open>The checksum as a sum of 16-bit numbers\<close>

text \<open>The exact sum, without carries folded in.\<close>

fun exact_sum :: "u8 list \<Rightarrow> nat" where
  "exact_sum (a # b # p) = 256 * unat a + unat b + exact_sum p"
| "exact_sum [a] = 256 * unat a"
| "exact_sum [] = 0"

lemma byte_less: "unat (b :: u8) < 256"
  using unsigned_less [of b] by simp

lemma unat_byte [simp]: "unat (ucast (b :: u8) :: u32) = unat b"
proof -
  have "unat b < 2 ^ 32" using byte_less [of b] by simp
  then show ?thesis by (simp add: unsigned_ucast_eq take_bit_nat_eq_self)
qed

lemma unat_shift_byte: "unat (push_bit 8 (ucast (a :: u8)) :: u32) = 256 * unat a"
proof -
  have "(push_bit 8 (ucast a) :: u32) = ucast a * 256" by (simp add: push_bit_eq_mult)
  also have "unat \<dots> = unat a * 256" using byte_less [of a] by (subst unat_mult_small) simp_all
  finally show ?thesis by simp
qed

lemma unat_pair: "unat (push_bit 8 (ucast (a :: u8)) OR ucast (b :: u8) :: u32) = 256 * unat a + unat b"
proof -
  have "push_bit 8 (ucast a :: u32) + ucast b = push_bit 8 (ucast a) OR ucast b"
    by (rule disjunctive_add) (auto simp: bit_simps dest: bit_imp_le_length)
  then have "unat (push_bit 8 (ucast a) OR ucast b :: u32) = unat (push_bit 8 (ucast a) + ucast b :: u32)" by (simp only:)
  also have "\<dots> = 256 * unat a + unat b"
    using unat_shift_byte [of a] byte_less [of a] byte_less [of b] by (subst unat_plus_small) simp_all
  finally show ?thesis .
qed

lemma exact_sum_bound: "exact_sum p \<le> 65535 * ((length p + 1) div 2)"
proof (induction p rule: exact_sum.induct)
  case (1 a b p)
  then show ?case using byte_less [of a] byte_less [of b] by simp
next
  case (2 a)
  then show ?case using byte_less [of a] by simp
qed simp

lemma ip_sum_exact: "unat sm + exact_sum p < 2 ^ 32 \<Longrightarrow> unat (ip_sum p sm) = unat sm + exact_sum p"
proof (induction p sm rule: ip_sum.induct)
  case (1 a b p sm)
  then have "unat (sm + (push_bit 8 (ucast a) OR ucast b)) = unat sm + (256 * unat a + unat b)"
    by (subst unat_plus_small) (simp_all add: unat_pair)
  then show ?case using 1 by simp
next
  case (2 a sm)
  then show ?case by (simp add: unat_plus_small unat_shift_byte)
qed simp

lemma exact_sum_append: "even (length p) \<Longrightarrow> exact_sum (p @ q) = exact_sum p + exact_sum q"
  by (induction p rule: exact_sum.induct) simp_all

lemma exact_sum_be16 [simp]: "exact_sum (be16 v) = unat v"
proof -
  have "unat v < 65536" using unsigned_less [of v] by simp
  then have "unat v div 256 < 256" by linarith
  then have "unat (ucast (drop_bit 8 v) :: u8) = unat v div 256" "unat (ucast v :: u8) = unat v mod 256"
    by (simp_all add: unsigned_ucast_eq unat_high take_bit_eq_mod)
  then show ?thesis by (simp add: be16_def)
qed

text \<open>Folding gives the representative of the sum modulo 65535 in 1 to 65535, or 0 for 0.\<close>

definition ones_sum :: "nat \<Rightarrow> nat" where
  "ones_sum n = (if n = 0 then 0 else (n - 1) mod 65535 + 1)"

lemma fold_carry_eq: "unat (fold_carry s) = ones_sum (unat s)"
proof (induction s rule: fold_carry.induct)
  case (1 s)
  show ?case
  proof (cases "65536 \<le> unat s")
    case True
    then have d: "drop_bit 16 s \<noteq> 0" by (simp only: fold_div)
    let ?r = "unat s mod 65536" and ?q = "unat s div 65536"
    have s: "unat s = ?r + 65536 * ?q" by simp
    have q: "0 < ?q" using True by (simp add: div_greater_zero_iff)
    then have "unat s - 1 = (?r + ?q - 1) + 65535 * ?q" using s by linarith
    then have "(unat s - 1) mod 65535 = (?r + ?q - 1) mod 65535" by simp
    moreover have "unat s \<noteq> 0" "?r + ?q \<noteq> 0" using True q by linarith+
    ultimately have "ones_sum (unat s) = ones_sum (?r + ?q)" unfolding ones_sum_def by (simp only: if_False)
    then show ?thesis using 1 [OF d] fold_step [OF d] d by (subst fold_carry.simps) simp
  next
    case False
    then have d: "drop_bit 16 s = 0" using fold_div [of s] by simp
    have "ones_sum (unat s) = unat s"
    proof (cases "unat s = 0")
      case nz: False
      then have "(unat s - 1) mod 65535 + 1 = unat s" using False by (subst mod_less) linarith+
      then show ?thesis using nz by (simp only: ones_sum_def if_False)
    qed (simp add: ones_sum_def)
    then show ?thesis using d by (subst fold_carry.simps) simp
  qed
qed

lemma ones_sum_le: "ones_sum n \<le> 65535"
proof (cases "n = 0")
  case False
  then have "ones_sum n = (n - 1) mod 65535 + 1" by (simp add: ones_sum_def)
  moreover have "(n - 1) mod 65535 < 65535" by simp
  ultimately show ?thesis by linarith
qed (simp add: ones_sum_def)

lemma unat_not16: "unat (NOT (v :: u16)) = 65535 - unat v"
proof -
  have "NOT v = - 1 - v" unfolding not_eq_complement by simp
  moreover have "unat (- 1 :: u16) = 65535"
    by (simp only: unsigned_minus_1_eq_mask) (simp add: mask_eq_exp_minus_1)
  moreover have "unat (- 1 - v) = unat (- 1 :: u16) - unat v" by (rule unat_minus_le) (rule word_order.extremum)
  ultimately show ?thesis by (simp only:)
qed

lemma checksum_value:
  assumes "unat sm + exact_sum p < 2 ^ 32"
  shows "unat (NOT (ucast (fold_carry (ip_sum p sm))) :: u16) = 65535 - ones_sum (unat sm + exact_sum p)"
proof -
  have "unat (ucast (fold_carry (ip_sum p sm)) :: u16) = ones_sum (unat sm + exact_sum p)"
    using ones_sum_le [of "unat sm + exact_sum p"] ip_sum_exact [OF assms]
    by (simp add: unsigned_ucast_eq fold_carry_eq take_bit_nat_eq_self)
  then show ?thesis by (simp add: unat_not16)
qed

lemma ones_sum_close: "ones_sum (n + (65535 - ones_sum n)) = 65535"
proof (cases "n = 0")
  case False
  then have n: "n - 1 = 65535 * ((n - 1) div 65535) + (n - 1) mod 65535" by simp
  have lt: "(n - 1) mod 65535 < 65535" by simp
  have o: "ones_sum n = (n - 1) mod 65535 + 1" using False by (simp add: ones_sum_def)
  have "0 < n" using False by simp
  then have "n + (65535 - ones_sum n) = 65535 * ((n - 1) div 65535) + 65535"
    using n lt unfolding o by linarith
  then have "n + (65535 - ones_sum n) - 1 = 65534 + 65535 * ((n - 1) div 65535)" by simp
  then have "(n + (65535 - ones_sum n) - 1) mod 65535 = 65534" by simp
  then show ?thesis using False by (simp add: ones_sum_def)
qed (simp add: ones_sum_def)

text \<open>A checksum stored over the zeros it was computed with makes the whole check to zero.\<close>

lemma checksum_closes:
  assumes "even (length a)" and "unat sm + exact_sum (a @ [0, 0] @ b) + 65535 < 2 ^ 32"
  shows "NOT (ucast (fold_carry (ip_sum (a @ be16 (NOT (ucast (fold_carry (ip_sum (a @ [0, 0] @ b) sm)))) @ b) sm))) = (0 :: u16)"
proof -
  let ?n = "unat sm + exact_sum (a @ [0, 0] @ b)" and ?c = "NOT (ucast (fold_carry (ip_sum (a @ [0, 0] @ b) sm))) :: u16"
  have c: "unat ?c = 65535 - ones_sum ?n" using assms(2) by (intro checksum_value) simp
  have e: "even (length (be16 ?c))" by (simp add: be16_def)
  have "exact_sum (a @ be16 ?c @ b) = exact_sum (a @ [0, 0] @ b) + unat ?c"
    using exact_sum_append [OF assms(1)] exact_sum_append [OF e, of b] by simp
  then have s: "unat sm + exact_sum (a @ be16 ?c @ b) = ?n + (65535 - ones_sum ?n)" using c by simp
  then have "unat (NOT (ucast (fold_carry (ip_sum (a @ be16 ?c @ b) sm))) :: u16) = 65535 - ones_sum (?n + (65535 - ones_sum ?n))"
    using assms(2) checksum_value [of sm "a @ be16 ?c @ b"] by (simp only:)
  then show ?thesis by (simp add: ones_sum_close)
qed

section \<open>The reference checksum\<close>

text \<open>
  The checksum of RFC 1071: 16-bit one's complement addition, where a carry out of the top comes
  back in at the bottom, over the big-endian 16-bit units.
\<close>

definition oc_add :: "nat \<Rightarrow> nat \<Rightarrow> nat" where
  "oc_add x y = (if 65535 < x + y then x + y - 65535 else x + y)"

fun oc_sum :: "u8 list \<Rightarrow> nat" where
  "oc_sum (a # b # p) = oc_add (256 * unat a + unat b) (oc_sum p)"
| "oc_sum [a] = 256 * unat a"
| "oc_sum [] = 0"

lemma ones_sum_add: "x \<le> 65535 \<Longrightarrow> ones_sum (x + n) = oc_add x (ones_sum n)"
proof (cases "n = 0")
  case True
  assume "x \<le> 65535"
  then show ?thesis using True by (cases "x = 0") (auto simp: ones_sum_def oc_add_def)
next
  case False
  assume x: "x \<le> 65535"
  define r q where "r = (n - 1) mod 65535" and "q = (n - 1) div 65535"
  have r: "r < 65535" by (simp add: r_def)
  have n: "n - 1 = r + 65535 * q" by (simp add: r_def q_def)
  have o: "ones_sum n = r + 1" using False by (simp add: ones_sum_def r_def)
  have "x + n - 1 = (x + r) + 65535 * q" using n False by linarith
  then have "(x + n - 1) mod 65535 = (x + r) mod 65535" by (simp only: mod_mult_self2)
  moreover have "ones_sum (x + n) = (x + n - 1) mod 65535 + 1" using False by (simp add: ones_sum_def)
  ultimately have e: "ones_sum (x + n) = (x + r) mod 65535 + 1" by simp
  show ?thesis
  proof (cases "x + r < 65535")
    case True
    then show ?thesis using e o by (simp add: oc_add_def)
  next
    case ge: False
    then have "(x + r) mod 65535 = (x + r - 65535) mod 65535" by (simp add: le_mod_geq)
    also have "\<dots> = x + r - 65535" using x r ge by (intro mod_less) linarith
    finally have "ones_sum (x + n) = x + (r + 1) - 65535" using e ge by simp
    then show ?thesis using ge o by (simp add: oc_add_def)
  qed
qed

lemma oc_sum_exact: "oc_sum p = ones_sum (exact_sum p)"
proof (induction p rule: oc_sum.induct)
  case (1 a b p)
  have "256 * unat a + unat b \<le> 65535" using byte_less [of a] byte_less [of b] by simp
  then have "ones_sum (256 * unat a + unat b + exact_sum p) = oc_add (256 * unat a + unat b) (ones_sum (exact_sum p))"
    by (rule ones_sum_add)
  then show ?case by (simp only: oc_sum.simps exact_sum.simps 1)
next
  case (2 a)
  have "256 * unat a \<le> 65535" using byte_less [of a] by simp
  then show ?case using ones_sum_add [of "256 * unat a" 0] by (simp add: ones_sum_def oc_add_def)
qed (simp add: ones_sum_def)

lemma small_sum: "length p < 131000 \<Longrightarrow> exact_sum p + 65535 < 2 ^ 32"
proof -
  assume "length p < 131000"
  then have "(length p + 1) div 2 \<le> 65500" by simp
  then have "65535 * ((length p + 1) div 2) \<le> 65535 * 65500" by (rule mult_le_mono2)
  then show ?thesis using exact_sum_bound [of p] by simp
qed

lemma ip_checksum_value: "length p < 131000 \<Longrightarrow> unat (ip_checksum p) = 65535 - oc_sum p"
  using checksum_value [of 0 p] small_sum [of p] by (simp add: ip_checksum_def oc_sum_exact)

text \<open>Reading the units in the other byte order swaps the two bytes of the sum, as RFC 1071 promises.\<close>

definition swap16 :: "nat \<Rightarrow> nat" where
  "swap16 v = 256 * (v mod 256) + v div 256"

fun swapped_sum :: "u8 list \<Rightarrow> nat" where
  "swapped_sum (a # b # p) = unat a + 256 * unat b + swapped_sum p"
| "swapped_sum [a] = unat a"
| "swapped_sum [] = 0"

lemma unat_pair_swapped: "unat (ucast (a :: u8) OR push_bit 8 (ucast (b :: u8)) :: u32) = unat a + 256 * unat b"
  using unat_pair [of b a] by (simp add: or.commute)

lemma swapped_sum_bound: "swapped_sum p \<le> 65535 * ((length p + 1) div 2)"
proof (induction p rule: swapped_sum.induct)
  case (1 a b p)
  then show ?case using byte_less [of a] byte_less [of b] by simp
next
  case (2 a)
  then show ?case using byte_less [of a] by simp
qed simp

lemma icmp_sum_exact: "unat sm + swapped_sum p < 2 ^ 32 \<Longrightarrow> unat (icmp_sum p sm) = unat sm + swapped_sum p"
proof (induction p sm rule: icmp_sum.induct)
  case (1 a b p sm)
  then have "unat (sm + (ucast a OR push_bit 8 (ucast b))) = unat sm + (unat a + 256 * unat b)"
    by (subst unat_plus_small) (simp_all add: unat_pair_swapped)
  then show ?case using 1 by simp
next
  case (2 a sm)
  then show ?case by (simp add: unat_plus_small)
qed simp

text \<open>Since 65536 is 1 modulo 65535, the swapped sum is 256 times the sum.\<close>

lemma swapped_sum_times: "\<exists>k. 256 * exact_sum p = swapped_sum p + 65535 * k"
proof (induction p rule: swapped_sum.induct)
  case (1 a b p)
  then obtain k where "256 * exact_sum p = swapped_sum p + 65535 * k" by blast
  then have "256 * exact_sum (a # b # p) = swapped_sum (a # b # p) + 65535 * (k + unat a)" by simp
  then show ?case by blast
next
  case (2 a)
  have "256 * exact_sum [a] = swapped_sum [a] + 65535 * unat a" by simp
  then show ?case by blast
qed simp

lemma swapped_sum_zero: "swapped_sum p = 0 \<longleftrightarrow> exact_sum p = 0"
  by (induction p rule: swapped_sum.induct) auto

lemma ones_sum_cong:
  assumes "n + 65535 * j = m + 65535 * k" and "n = 0 \<longleftrightarrow> m = 0"
  shows "ones_sum n = ones_sum m"
proof (cases "n = 0")
  case False
  then have "(n - 1) + 65535 * j = (m - 1) + 65535 * k" using assms by linarith
  then have "(n - 1) mod 65535 = (m - 1) mod 65535" by (metis mod_mult_self2)
  then show ?thesis using False assms(2) by (simp add: ones_sum_def)
qed (use assms(2) in simp)

lemma ones_sum_rep: "\<exists>k. n = ones_sum n + 65535 * k"
proof (cases "n = 0")
  case False
  then have "n = ones_sum n + 65535 * ((n - 1) div 65535)"
    using mod_mult_div_eq [of "n - 1" 65535] by (simp add: ones_sum_def)
  then show ?thesis by blast
qed (simp add: ones_sum_def)

lemma ones_sum_small: "n \<le> 65535 \<Longrightarrow> ones_sum n = n"
  by (simp add: ones_sum_def)

lemma swap16_le: "v \<le> 65535 \<Longrightarrow> swap16 v \<le> 65535"
  unfolding swap16_def by linarith

lemma swap16_times: "256 * v = swap16 v + 65535 * (v div 256)"
  using mod_mult_div_eq [of v 256] unfolding swap16_def by linarith

lemma swap16_not: "v \<le> 65535 \<Longrightarrow> swap16 (65535 - v) = 65535 - swap16 v"
proof -
  assume v: "v \<le> 65535"
  define q r where "q = v div 256" and "r = v mod 256"
  have e: "v = 256 * q + r" "r < 256" by (simp_all add: q_def r_def)
  then have q: "q < 256" using v by linarith
  have "65535 - v = (255 - q) * 256 + (255 - r)" using e q by (simp add: diff_mult_distrib)
  moreover have "255 - r < 256" by simp
  ultimately have "(65535 - v) div 256 = 255 - q" "(65535 - v) mod 256 = 255 - r" by simp_all
  then show ?thesis using q e(2) by (simp add: swap16_def flip: q_def r_def)
qed

lemma ones_sum_swapped: "ones_sum (swapped_sum p) = swap16 (ones_sum (exact_sum p))"
proof -
  let ?e = "ones_sum (exact_sum p)"
  obtain i where i: "256 * exact_sum p = swapped_sum p + 65535 * i" using swapped_sum_times by blast
  obtain j where j: "exact_sum p = ?e + 65535 * j" using ones_sum_rep by blast
  have gen: "S + 65535 * a = w + 65535 * (d + 256 * b)"
    if "256 * E = S + 65535 * a" "E = e + 65535 * b" "256 * e = w + 65535 * d" for S a w d b E e :: nat
  proof -
    have "S + 65535 * a = 256 * (e + 65535 * b)" using that(1) unfolding that(2) by simp
    also have "\<dots> = 256 * e + 65535 * (256 * b)" by simp
    finally show ?thesis unfolding that(3) by simp
  qed
  have "swapped_sum p + 65535 * i = swap16 ?e + 65535 * (?e div 256 + 256 * j)"
    using gen [OF i j swap16_times] .
  moreover have "swapped_sum p = 0 \<longleftrightarrow> swap16 ?e = 0"
    unfolding swapped_sum_zero by (auto simp: ones_sum_def swap16_def)
  ultimately have "ones_sum (swapped_sum p) = ones_sum (swap16 ?e)" by (rule ones_sum_cong)
  then show ?thesis using ones_sum_small [OF swap16_le [OF ones_sum_le]] by simp
qed

lemma icmp_checksum_value:
  assumes "length p < 131000"
  shows "unat (icmp_checksum p) = swap16 (65535 - oc_sum p)"
proof -
  have "swapped_sum p \<le> 65535 * ((length p + 1) div 2)" by (rule swapped_sum_bound)
  also have "\<dots> \<le> 65535 * 65500" using assms by simp
  finally have s: "unat (icmp_sum p 0) = swapped_sum p" by (subst icmp_sum_exact) simp_all
  have "unat (ucast (fold_carry (icmp_sum p 0)) :: u16) = ones_sum (swapped_sum p)"
    using ones_sum_le [of "swapped_sum p"] s by (simp add: unsigned_ucast_eq fold_carry_eq take_bit_nat_eq_self)
  then show ?thesis
    by (simp add: icmp_checksum_def unat_not16 ones_sum_swapped oc_sum_exact swap16_not ones_sum_le)
qed

lemma half_words: "unat (drop_bit 16 v AND 0xFFFF :: u32) = unat v div 65536" "unat (v AND 0xFFFF) = unat v mod 65536"
proof -
  have m: "w AND 0xFFFF = take_bit 16 w" for w :: u32
    using take_bit_eq_mask [of 16 w] by (simp add: mask_eq_exp_minus_1)
  then show "unat (v AND 0xFFFF) = unat v mod 65536"
    by (simp only: unsigned_take_bit_eq) (simp add: take_bit_eq_mod)
  have "unat v < 4294967296" using unsigned_less [of v] by simp
  then have "unat v div 65536 < 65536" by linarith
  then show "unat (drop_bit 16 v AND 0xFFFF) = unat v div 65536"
    unfolding m by (simp only: unsigned_take_bit_eq) (simp add: take_bit_eq_mod unat_high)
qed

lemma be32_halves: "be32 v = be16 (ucast (drop_bit 16 v)) @ be16 (ucast v)"
proof -
  have "(ucast (drop_bit 8 (ucast (drop_bit 16 v) :: u16)) :: u8) = ucast (drop_bit 24 v)"
    "(ucast (ucast (drop_bit 16 v) :: u16) :: u8) = ucast (drop_bit 16 v)"
    "(ucast (drop_bit 8 (ucast v :: u16)) :: u8) = ucast (drop_bit 8 v)" "(ucast (ucast v :: u16) :: u8) = ucast v"
    by (rule bit_word_eqI; simp add: bit_simps add.commute)+
  then show ?thesis by (simp add: be32_def be16_def)
qed

lemma exact_sum_be32 [simp]: "exact_sum (be32 v) = unat v div 65536 + unat v mod 65536"
proof -
  have "unat v < 4294967296" using unsigned_less [of v] by simp
  then have "unat v div 65536 < 65536" by linarith
  then have "unat (ucast (drop_bit 16 v) :: u16) = unat v div 65536" "unat (ucast v :: u16) = unat v mod 65536"
    by (simp_all add: unsigned_ucast_eq unat_high take_bit_eq_mod)
  moreover have "even (length (be16 w))" for w by (simp add: be16_def)
  ultimately show ?thesis by (simp add: be32_halves exact_sum_append)
qed

lemma length_be [simp]: "length (be16 v) = 2" "length (be32 w) = 4"
  by (simp_all add: be16_def be32_def)

text \<open>The start value of \<open>tcp_checksum\<close>.\<close>

definition pseudo_sum :: "u32 \<Rightarrow> u32 \<Rightarrow> nat \<Rightarrow> u32" where
  "pseudo_sum src dst n = (drop_bit 16 src AND 0xFFFF) + (src AND 0xFFFF) + (drop_bit 16 dst AND 0xFFFF) +
     (dst AND 0xFFFF) + 0x0006 + ucast (of_nat n :: u16)"

definition pseudo_header :: "u32 \<Rightarrow> u32 \<Rightarrow> nat \<Rightarrow> u8 list" where
  "pseudo_header src dst n = be32 src @ be32 dst @ [0, 6] @ be16 (of_nat n)"

lemma unat_sum6:
  assumes "unat a < 65536" "unat b < 65536" "unat c < 65536" "unat d < 65536" "unat f < 65536"
  shows "unat (a + b + c + d + 0x0006 + f :: u32) = unat a + unat b + unat c + unat d + 6 + unat f"
  using assms by (simp add: unat_plus_small)

lemma unat_pseudo: "unat (pseudo_sum src dst n) = exact_sum (pseudo_header src dst n)"
proof -
  have n: "unat (of_nat n :: u16) < 65536" using unsigned_less [of "of_nat n :: u16"] by (rule order.strict_trans2) simp
  then have l: "unat (ucast (of_nat n :: u16) :: u32) = unat (of_nat n :: u16)" "unat (of_nat n :: u16) < 65536"
    by (simp_all only: unsigned_ucast_eq) (simp add: take_bit_nat_eq_self)
  have b: "unat v div 65536 < 65536 \<and> unat v mod 65536 < 65536" for v :: u32
  proof -
    have "unat v < 4294967296" using unsigned_less [of v] by simp
    then have "unat v div 65536 < 65536" by linarith
    then show ?thesis by simp
  qed
  have "exact_sum (pseudo_header src dst n) = unat src div 65536 + unat src mod 65536 + unat dst div 65536 + unat dst mod 65536 + 6 + unat (of_nat n :: u16)"
    unfolding pseudo_header_def by (simp add: exact_sum_append)
  moreover have "unat (pseudo_sum src dst n) = \<dots>"
    unfolding pseudo_sum_def using b [of src] b [of dst] l n
    by (subst unat_sum6) (simp_all add: half_words(2) unat_high)
  ultimately show ?thesis by simp
qed

lemma tcp_checksum_pseudo:
  assumes "length tcp < 65536"
  shows "tcp_checksum src dst tcp = ip_checksum (pseudo_header src dst (length tcp) @ tcp)"
proof (rule unat_eqI)
  let ?h = "pseudo_header src dst (length tcp)"
  have h: "length ?h = 12" "even (length ?h)" by (simp_all add: pseudo_header_def)
  have e: "exact_sum (?h @ tcp) = exact_sum ?h + exact_sum tcp" by (rule exact_sum_append [OF h(2)])
  have s: "exact_sum ?h + exact_sum tcp < 2 ^ 32" using small_sum [of "?h @ tcp"] e h(1) assms by simp
  have "tcp_checksum src dst tcp = NOT (ucast (fold_carry (ip_sum tcp (pseudo_sum src dst (length tcp)))))"
    by (simp add: tcp_checksum_def pseudo_sum_def Let_def)
  then have "unat (tcp_checksum src dst tcp) = 65535 - ones_sum (exact_sum ?h + exact_sum tcp)"
    using checksum_value [of "pseudo_sum src dst (length tcp)" tcp] s by (simp add: unat_pseudo)
  also have "\<dots> = unat (ip_checksum (?h @ tcp))"
    using ip_checksum_value [of "?h @ tcp"] h(1) assms by (simp add: oc_sum_exact e)
  finally show "unat (tcp_checksum src dst tcp) = unat (ip_checksum (?h @ tcp))" .
qed

section \<open>Names and replies\<close>

text \<open>The labels of a host name, and the wire format of a name.\<close>

definition label_ok :: "u8 list \<Rightarrow> bool" where
  "label_ok l \<longleftrightarrow> l \<noteq> [] \<and> length l \<le> 63 \<and> 46 \<notin> set l"

fun dotted :: "u8 list list \<Rightarrow> u8 list" where
  "dotted [] = []"
| "dotted [l] = l"
| "dotted (l # ls) = l @ [46] @ dotted ls"

definition wire_label :: "u8 list \<Rightarrow> u8 list" where
  "wire_label l = of_nat (length l) # l"

definition wire_name :: "u8 list list \<Rightarrow> u8 list" where
  "wire_name ls = concat (map wire_label ls) @ [0]"

lemma dns_encode_step:
  assumes "label_ok l" and "r = [] \<or> hd r = 46"
  shows "dns_encode_name room (l @ r) =
    (if room < length (wire_label l) then Dns_overrun
     else dns_prefix (wire_label l) (dns_encode_name (room - length (wire_label l)) (tl r)))"
proof -
  have l: "l \<noteq> []" "length l \<le> 63" "\<forall>x \<in> set l. x \<noteq> 46" using assms(1) by (auto simp: label_ok_def)
  have tw: "takeWhile (\<lambda>c. c \<noteq> 46) (l @ r) = l" "dropWhile (\<lambda>c. c \<noteq> 46) (l @ r) = r"
  proof -
    have "takeWhile (\<lambda>c. c \<noteq> 46) (l @ r) = l @ takeWhile (\<lambda>c. c \<noteq> 46) r" using l(3) by (intro takeWhile_append2) auto
    moreover have "dropWhile (\<lambda>c. c \<noteq> 46) (l @ r) = dropWhile (\<lambda>c. c \<noteq> 46) r" using l(3) by (intro dropWhile_append2) auto
    moreover have "takeWhile (\<lambda>c. c \<noteq> 46) r = [] \<and> dropWhile (\<lambda>c. c \<noteq> 46) r = r" using assms(2) by (cases r) auto
    ultimately show "takeWhile (\<lambda>c. c \<noteq> 46) (l @ r) = l" "dropWhile (\<lambda>c. c \<noteq> 46) (l @ r) = r" by simp_all
  qed
  have c: "(case r of [] \<Rightarrow> [] | c # s \<Rightarrow> s) = tl r" by (cases r) simp_all
  have "l @ r \<noteq> []" "\<not> length l > 63" using l by simp_all
  then show ?thesis
    by (subst dns_encode_name.simps, simp only: tw c Let_def if_False wire_label_def append_Cons append_Nil) simp
qed

lemma dns_encode_dotted:
  "\<forall>l \<in> set ls. label_ok l \<Longrightarrow>
   dns_encode_name room (dotted ls) = (if length (wire_name ls) \<le> room then Dns_bytes (wire_name ls) else Dns_overrun)"
proof (induction ls arbitrary: room rule: dotted.induct)
  case 1
  then show ?case by (simp add: dns_encode_name.simps wire_name_def)
next
  case (2 l)
  then show ?case using dns_encode_step [of l "[]"] by (simp add: dns_encode_name.simps [of _ "[]"] wire_name_def)
next
  case (3 l m ls)
  then show ?case using dns_encode_step [of l "[46] @ dotted (m # ls)"] by (auto simp: wire_name_def)
qed

text \<open>A received message: the bytes \<open>m\<close> stand at offset \<open>i\<close>.\<close>

definition at :: "(nat \<Rightarrow> u8) \<Rightarrow> nat \<Rightarrow> u8 list \<Rightarrow> bool" where
  "at dns i m \<longleftrightarrow> (\<forall>j < length m. dns (i + j) = m ! j)"

lemma at_Nil [simp]: "at dns i []"
  by (simp add: at_def)

lemma at_Cons [simp]: "at dns i (b # m) \<longleftrightarrow> dns i = b \<and> at dns (i + 1) m"
  by (auto simp: at_def nth_Cons split: nat.splits)

lemma at_append [simp]: "at dns i (a @ b) \<longleftrightarrow> at dns i a \<and> at dns (i + length a) b"
proof (induction a arbitrary: i)
  case (Cons x a)
  then show ?case by (simp add: add.assoc)
qed simp

lemma get_be16_at: "at dns i (be16 v) \<Longrightarrow> get_be16 dns i = v"
  unfolding be16_def at_Cons get_be16_def
  by (elim conjE, rule bit_word_eqI) (auto simp: bit_simps)

lemma get_be32_at:
  assumes "at dns i (be32 v)"
  shows "get_be32 dns i = v"
proof -
  have "dns i = ucast (drop_bit 24 v)" "dns (i + 1) = ucast (drop_bit 16 v)" "dns (i + 2) = ucast (drop_bit 8 v)" "dns (i + 3) = ucast v"
    using assms by (simp_all add: be32_def numeral_2_eq_2 numeral_3_eq_3)
  moreover have "(push_bit 24 (ucast (ucast (drop_bit 24 v) :: u8)) OR push_bit 16 (ucast (ucast (drop_bit 16 v) :: u8)) OR
      push_bit 8 (ucast (ucast (drop_bit 8 v) :: u8)) OR ucast (ucast v :: u8) :: u32) = v"
  proof (rule bit_word_eqI)
    fix n assume "n < LENGTH(32)"
    then consider "n < 8" | "8 \<le> n" "n < 16" | "16 \<le> n" "n < 24" | "24 \<le> n" "n < 32" by fastforce
    then show "bit (push_bit 24 (ucast (ucast (drop_bit 24 v) :: u8)) OR push_bit 16 (ucast (ucast (drop_bit 16 v) :: u8)) OR
      push_bit 8 (ucast (ucast (drop_bit 8 v) :: u8)) OR ucast (ucast v :: u8) :: u32) n \<longleftrightarrow> bit v n"
      by cases (auto simp: bit_simps)
  qed
  ultimately show ?thesis by (simp add: get_be32_def)
qed

lemma label_byte:
  assumes "label_ok l"
  shows "(of_nat (length l) :: u8) \<noteq> 0" "unat (of_nat (length l) :: u8) = length l" "(of_nat (length l) :: u8) AND 0xC0 \<noteq> 0xC0"
proof -
  have n: "0 < length l" "length l < 64" using assms by (auto simp: label_ok_def)
  then show u: "unat (of_nat (length l) :: u8) = length l" by (simp add: unat_of_nat take_bit_nat_eq_self)
  then show "(of_nat (length l) :: u8) \<noteq> 0" using n by (metis less_numeral_extra(3) unat_eq_0)
  show "(of_nat (length l) :: u8) AND 0xC0 \<noteq> 0xC0"
  proof
    assume "(of_nat (length l) :: u8) AND 0xC0 = 0xC0"
    then have "(0xC0 :: u8) \<le> of_nat (length l)" by (metis word_and_le2)
    then show False using u n(2) by (simp add: word_le_nat_alt)
  qed
qed

lemma skip_question_name:
  "\<forall>l \<in> set ls. label_ok l \<Longrightarrow> at dns pos (wire_name ls) \<Longrightarrow> pos + length (wire_name ls) \<le> len \<Longrightarrow>
     skip_question dns len pos + 1 = pos + length (wire_name ls) \<and> dns (skip_question dns len pos) = 0"
proof (induction ls arbitrary: pos)
  case Nil
  then show ?case by (simp add: wire_name_def skip_question.simps)
next
  case (Cons l ls)
  have l: "label_ok l" using Cons.prems(1) by simp
  note b = label_byte [OF l]
  have p: "at dns (pos + 1 + length l) (wire_name ls)" "dns pos = of_nat (length l)" "pos < len"
    using Cons.prems(2,3) by (simp_all add: wire_name_def wire_label_def)
  have "skip_question dns len pos = skip_question dns len (pos + 1 + length l)"
    using b p(2,3) by (subst skip_question.simps) simp
  moreover have lw: "length (wire_name (l # ls)) = 1 + length l + length (wire_name ls)" by (simp add: wire_name_def wire_label_def)
  have "skip_question dns len (pos + 1 + length l) + 1 = pos + 1 + length l + length (wire_name ls) \<and>
      dns (skip_question dns len (pos + 1 + length l)) = 0"
    using Cons.prems(1,3) lw by (intro Cons.IH p(1)) simp_all
  then show ?case unfolding calculation lw by (simp only: add.assoc)
qed

text \<open>A resource record whose name is a compression pointer, as servers send them.\<close>

record dns_rr =
  rr_type :: u16
  rr_class :: u16
  rr_ttl :: u32
  rr_data :: "u8 list"

definition wire_rr :: "dns_rr \<Rightarrow> u8 list" where
  "wire_rr r = [0xC0, 0x0C] @ be16 (rr_type r) @ be16 (rr_class r) @ be32 (rr_ttl r) @ be16 (of_nat (length (rr_data r))) @ rr_data r"

definition rr_ok :: "dns_rr \<Rightarrow> bool" where
  "rr_ok r \<longleftrightarrow> length (rr_data r) < 65536"

definition is_a :: "dns_rr \<Rightarrow> bool" where
  "is_a r \<longleftrightarrow> rr_type r = 1 \<and> length (rr_data r) = 4"

lemma read_answers_rr:
  assumes "at dns pos (wire_rr r)" and "pos + length (wire_rr r) \<le> len" and "rr_ok r"
  shows "read_answers dns len (Suc a) pos =
    (if is_a r then Some (rr_data r) else read_answers dns len a (pos + length (wire_rr r)))"
proof -
  have n: "unat (of_nat (length (rr_data r)) :: u16) = length (rr_data r)"
    using assms(3) by (simp add: rr_ok_def unat_of_nat take_bit_nat_eq_self)
  have len4: "(of_nat (length (rr_data r)) :: u16) = 4 \<longleftrightarrow> length (rr_data r) = 4"
  proof
    assume "(of_nat (length (rr_data r)) :: u16) = 4"
    then have "unat (of_nat (length (rr_data r)) :: u16) = unat (4 :: u16)" by (simp only:)
    then show "length (rr_data r) = 4" using n by simp
  qed simp
  have w: "dns pos = 0xC0" "get_be16 dns (pos + 2) = rr_type r" "get_be16 dns (pos + 10) = of_nat (length (rr_data r))"
    "at dns (pos + 12) (rr_data r)"
    using assms(1) by (simp_all add: wire_rr_def get_be16_at add.commute [of pos])
  have lw: "length (wire_rr r) = 12 + length (rr_data r)" by (simp add: wire_rr_def)
  have d: "[dns (pos + 12), dns (pos + 13), dns (pos + 14), dns (pos + 15)] = rr_data r" if l4: "length (rr_data r) = 4"
  proof -
    obtain x y z u where "rr_data r = [x, y, z, u]"
      using l4 by (auto simp: length_Suc_conv eval_nat_numeral)
    then show ?thesis using w(4) by (simp add: add.commute [of pos])
  qed
  show ?thesis
    using w assms(2) lw len4 n d by (simp add: Let_def is_a_def skip_name_def ac_simps)
qed

lemma read_answers_find:
  "at dns pos (concat (map wire_rr rs)) \<Longrightarrow> pos + length (concat (map wire_rr rs)) \<le> len \<Longrightarrow>
   \<forall>r \<in> set rs. rr_ok r \<Longrightarrow> length rs \<le> n \<Longrightarrow> find is_a rs = Some r \<Longrightarrow>
   read_answers dns len n pos = Some (rr_data r)"
proof (induction rs arbitrary: pos n)
  case (Cons q rs)
  obtain k where k: "n = Suc k" using Cons.prems(4) by (cases n) auto
  have "read_answers dns len n pos = (if is_a q then Some (rr_data q) else read_answers dns len k (pos + length (wire_rr q)))"
    unfolding k using Cons.prems by (intro read_answers_rr) simp_all
  then show ?case using Cons.IH [of "pos + length (wire_rr q)" k] Cons.prems k by (auto split: if_splits)
qed simp

section \<open>What the parser reads\<close>

lemma skip_question_cong: "(\<And>i. i < len \<Longrightarrow> dns i = dns' i) \<Longrightarrow> skip_question dns len pos = skip_question dns' len pos"
proof (induction dns len pos rule: skip_question.induct)
  case (1 dns len pos)
  then show ?case by (subst (1 2) skip_question.simps) auto
qed

lemma skip_labels_cong: "(\<And>i. i < len \<Longrightarrow> dns i = dns' i) \<Longrightarrow> skip_labels dns len pos = skip_labels dns' len pos"
proof (induction dns len pos rule: skip_labels.induct)
  case (1 dns len pos)
  then show ?case by (subst (1 2) skip_labels.simps) auto
qed

lemma skip_questions_cong:
  assumes "\<And>i. i < len \<Longrightarrow> dns i = dns' i"
  shows "skip_questions dns len q pos = skip_questions dns' len q pos"
proof (induction q arbitrary: pos)
  case (Suc q)
  have s: "skip_question dns len pos = skip_question dns' len pos" by (rule skip_question_cong) (rule assms)
  show ?case using Suc assms [of "skip_question dns' len pos"]
    by (cases "skip_question dns' len pos < len") (simp_all add: s Let_def)
qed simp

lemma read_answers_cong:
  assumes "\<And>i. i < len + 4 \<Longrightarrow> dns i = dns' i"
  shows "read_answers dns len a pos = read_answers dns' len a pos"
proof (induction a arbitrary: pos)
  case (Suc a)
  have l: "skip_labels dns len pos = skip_labels dns' len pos" by (rule skip_labels_cong) (simp add: assms)
  have g: "get_be16 dns i = get_be16 dns' i" if "i + 1 < len + 4" for i using that assms by (simp add: get_be16_def)
  show ?case
  proof (cases "pos < len")
    case True
    define p where "p = skip_name dns' len pos"
    have s: "skip_name dns len pos = p" using True assms [of pos] by (simp add: p_def skip_name_def l)
    have e: "get_be16 dns p = get_be16 dns' p" "get_be16 dns (p + 8) = get_be16 dns' (p + 8)"
        "dns (p + 10) = dns' (p + 10)" "dns (p + 11) = dns' (p + 11)" "dns (p + 12) = dns' (p + 12)" "dns (p + 13) = dns' (p + 13)"
      if "p + 10 \<le> len" using that by (auto intro!: g assms)
    show ?thesis using True e Suc
      by (cases "p + 10 \<le> len") (simp_all add: s p_def [symmetric] Let_def add.commute)
  qed simp
qed simp

lemma tcp_parse_segment:
  assumes "at tcp 0 (be16 sp @ be16 dp @ be32 sq @ be32 ack @ be16 fl)" and "20 \<le> len"
  shows "e1000_tcp_parse_reply tcp len = Some \<lparr>tr_src_port = sp, tr_seq = sq, tr_ack = ack, tr_flags = fl\<rparr>"
proof -
  have "at tcp 0 (be16 sp)" "at tcp 4 (be32 sq)" "at tcp 8 (be32 ack)" "at tcp 12 (be16 fl)" using assms(1) by (simp_all add: eval_nat_numeral)
  then show ?thesis using assms(2) by (simp add: e1000_tcp_parse_reply_def get_be16_at get_be32_at)
qed

section \<open>Properties\<close>

text \<open>C25. The checksum routines compute the Internet checksum: for every message up to 131000 bytes,
  of even or odd length, the loop of \<open>ip_checksum\<close> over 32-bit sums with deferred carries returns the
  complement of the 16-bit one's complement sum of RFC 1071; \<open>icmp_checksum\<close>, which reads the units in
  the byte order of the machine, returns the same number with its two bytes swapped, so that
  storing it in that order puts the same bytes on the wire; and the TCP routine returns the checksum of
  the pseudo header followed by the segment, for segments shorter than 65536 bytes.\<close>

theorem checksum_reference:
  assumes "length p < 131000" and "length tcp < 65536"
  shows "unat (ip_checksum p) = 65535 - oc_sum p \<and>
    unat (icmp_checksum p) = swap16 (65535 - oc_sum p) \<and>
    tcp_checksum src dst tcp = ip_checksum (pseudo_header src dst (length tcp) @ tcp)"
  using ip_checksum_value [OF assms(1)] icmp_checksum_value [OF assms(1)] tcp_checksum_pseudo [OF assms(2)] by simp

theorem checksum_reference_witness:
  "unat (ip_checksum [0x45, 0x00, 0xFF]) = 65535 - oc_sum [0x45, 0x00, 0xFF] \<and>
    unat (icmp_checksum [0x45, 0x00, 0xFF]) = swap16 (65535 - oc_sum [0x45, 0x00, 0xFF]) \<and>
    tcp_checksum 1 2 [7] = ip_checksum (pseudo_header 1 2 1 @ [7])"
  using checksum_reference [of "[0x45, 0x00, 0xFF]" "[7]" 1 2] by simp

text \<open>Every frame the driver builds passes the receiver's check: recomputing the checksum over the
  IP header, the ICMP message and the TCP segment with its pseudo header, each with the
  checksum in place, gives zero, whatever the addresses and ports.\<close>

theorem frames_verify:
  "ip_checksum (ip_header ip_total ident proto dst) = 0 \<and>
   (\<exists>icmp. ping_packet gw mac dst = eth_header gw mac 0x0800 @ ip_header 84 1 1 dst @ icmp \<and> length icmp = 64 \<and> ip_checksum icmp = 0) \<and>
   tcp_checksum 0x0A00020F dst (tcp_syn_segment dst port) = 0"
proof (intro conjI)
  have close: "ip_checksum (set_bytes (length a) (be16 (ip_checksum (a @ [0, 0] @ b))) (a @ [0, 0] @ b)) = 0"
    if "even (length a)" "length a + length b < 1000" for a b
    using checksum_closes [OF that(1), of 0 b] small_sum [of "a @ [0, 0] @ b"] that(2)
    by (simp add: set_bytes_def ip_checksum_def)
  show "ip_checksum (ip_header ip_total ident proto dst) = 0"
    using close [of "[0x45, 0x00] @ be16 ip_total @ be16 ident @ [0x00, 0x00, 64, proto]" "[10, 0, 2, 15] @ be32 dst"]
    by (simp add: ip_header_def Let_def)
  have "ip_checksum (set_bytes 2 (be16 (ip_checksum ([0x08, 0x00] @ [0, 0] @ [0x00, 0x01, 0x00, 0x01] @ map of_nat [42..<98])))
      ([0x08, 0x00] @ [0, 0] @ [0x00, 0x01, 0x00, 0x01] @ map of_nat [42..<98])) = 0"
    using close [of "[0x08, 0x00]" "[0x00, 0x01, 0x00, 0x01] @ map of_nat [42..<98]"]
    by (simp add: numeral_2_eq_2 del: upt_rec_numeral)
  then show "\<exists>icmp. ping_packet gw mac dst = eth_header gw mac 0x0800 @ ip_header 84 1 1 dst @ icmp \<and> length icmp = 64 \<and> ip_checksum icmp = 0"
    by (simp add: ping_packet_def Let_def set_bytes_def del: upt_rec_numeral)
  let ?a = "be16 40000 @ be16 port @ be32 0x12345678 @ [0, 0, 0, 0, 0x50, 0x02, 0x10, 0x00]" and ?b = "[0, 0] :: u8 list"
  have p: "unat (pseudo_sum 0x0A00020F dst 20) + exact_sum (?a @ [0, 0] @ ?b) + 65535 < 2 ^ 32"
    using small_sum [of "pseudo_header 0x0A00020F dst 20 @ ?a @ [0, 0] @ ?b"]
      exact_sum_append [of "pseudo_header 0x0A00020F dst 20" "?a @ [0, 0] @ ?b"]
    by (simp add: unat_pseudo pseudo_header_def)
  have "tcp_checksum 0x0A00020F dst (set_bytes (length ?a) (be16 (tcp_checksum 0x0A00020F dst (?a @ [0, 0] @ ?b))) (?a @ [0, 0] @ ?b)) = 0"
    using checksum_closes [OF _ p]
    by (simp add: set_bytes_def tcp_checksum_def pseudo_sum_def Let_def)
  then show "tcp_checksum 0x0A00020F dst (tcp_syn_segment dst port) = 0"
    by (simp add: tcp_syn_segment_def Let_def)
qed

text \<open>C24. Resolving a name: for a host name made of labels of 1 to 63 characters, the query encodes
  exactly those labels when the message fits the buffer of 256 bytes, and is written over the end of the
  buffer exactly when it does not; and any reply that repeats the question and carries resource records with
  compressed names is parsed to the address of the first A record, whatever records (aliases, other
  types) come before it and whatever follows the message in the buffer.\<close>

theorem dns_round_trip:
  assumes "\<forall>l \<in> set ls. label_ok l" and "\<forall>r \<in> set rs. rr_ok r" and "length rs < 65536"
    and "flags AND 0x8000 \<noteq> 0" and "flags AND 0x000F = 0"
    and "at dns 0 ([0xAB, 0xCD] @ be16 flags @ be16 1 @ be16 (of_nat (length rs)) @ be32 ns @ wire_name ls @ [0, 1, 0, 1] @
           concat (map wire_rr rs))"
    and "len = 12 + length (wire_name ls) + 4 + length (concat (map wire_rr rs))"
    and "find is_a rs = Some r"
  shows "dns_query_message (dotted ls) =
      (if 12 + length (wire_name ls) + 4 \<le> 256
       then Dns_bytes ([0xAB, 0xCD, 0x01, 0x00, 0x00, 0x01, 0, 0, 0, 0, 0, 0] @ wire_name ls @ [0, 1, 0, 1])
       else Dns_overrun) \<and>
    e1000_dns_parse_reply dns (int len) = Some (rr_data r)"
proof
  show "dns_query_message (dotted ls) =
      (if 12 + length (wire_name ls) + 4 \<le> 256
       then Dns_bytes ([0xAB, 0xCD, 0x01, 0x00, 0x00, 0x01, 0, 0, 0, 0, 0, 0] @ wire_name ls @ [0, 1, 0, 1])
       else Dns_overrun)"
    using dns_encode_dotted [OF assms(1)] by (simp add: dns_query_message_def DNS_BUF_def)
  let ?n = "length (wire_name ls)"
  have "at dns 2 (be16 flags)" "at dns 4 (be16 1)" "at dns 6 (be16 (of_nat (length rs)))"
    using assms(6) by (simp_all add: eval_nat_numeral)
  then have f: "get_be16 dns 2 = flags" "get_be16 dns 4 = 1" "get_be16 dns 6 = of_nat (length rs)" by (simp_all add: get_be16_at)
  have m: "dns 0 = 0xAB" "dns 1 = 0xCD" "at dns 12 (wire_name ls)" "at dns (12 + ?n + 4) (concat (map wire_rr rs))"
    using assms(6) by (simp_all add: add.commute)
  have s: "skip_question dns len 12 + 1 = 12 + ?n" "dns (skip_question dns len 12) = 0"
    using skip_question_name [OF assms(1) m(3), of len] assms(7) by auto
  have k: "skip_question dns len 12 = 11 + ?n" using s(1) by linarith
  then have "dns (11 + ?n) = 0" using s(2) by (simp only:)
  moreover have "11 + ?n < len" using assms(7) by simp
  ultimately have "skip_questions dns len 1 12 = 12 + ?n + 4" using k by simp
  moreover have "unat (of_nat (length rs) :: u16) = length rs" using assms(3) by (simp add: unat_of_nat take_bit_nat_eq_self)
  moreover have "read_answers dns len (length rs) (12 + ?n + 4) = Some (rr_data r)"
    using m(4) assms(2,7,8) by (intro read_answers_find) simp_all
  ultimately show "e1000_dns_parse_reply dns (int len) = Some (rr_data r)"
    using m(1,2) f assms(4,5) \<open>11 + ?n < len\<close>
    by (simp add: e1000_dns_parse_reply_def Let_def del: skip_questions.simps read_answers.simps)
qed

definition demo_rrs :: "dns_rr list" where
  "demo_rrs = [\<lparr>rr_type = 5, rr_class = 1, rr_ttl = 60, rr_data = [1, 97, 0]\<rparr>,
     \<lparr>rr_type = 1, rr_class = 1, rr_ttl = 60, rr_data = [93, 184, 216, 34]\<rparr>]"

definition demo_reply :: "u8 list" where
  "demo_reply = [0xAB, 0xCD] @ be16 0x8180 @ be16 1 @ be16 2 @ be32 0 @ wire_name [[97]] @ [0, 1, 0, 1] @ concat (map wire_rr demo_rrs)"

theorem dns_round_trip_witness:
  "dns_query_message [97] = Dns_bytes ([0xAB, 0xCD, 0x01, 0x00, 0x00, 0x01, 0, 0, 0, 0, 0, 0] @ [1, 97, 0] @ [0, 1, 0, 1]) \<and>
   e1000_dns_parse_reply (\<lambda>i. if i < 50 then demo_reply ! i else 7) 50 = Some [93, 184, 216, 34]"
proof -
  have l: "length demo_reply = 50" by (simp add: demo_reply_def wire_name_def wire_label_def demo_rrs_def wire_rr_def)
  then have a: "at (\<lambda>i. if i < 50 then demo_reply ! i else 7) 0 demo_reply" by (simp add: at_def)
  have n: "(50 :: nat) = 12 + length (wire_name [[97]]) + 4 + length (concat (map wire_rr demo_rrs))"
    by (simp add: wire_name_def wire_label_def demo_rrs_def wire_rr_def)
  have f: "find is_a demo_rrs = Some \<lparr>rr_type = 1, rr_class = 1, rr_ttl = 60, rr_data = [93, 184, 216, 34]\<rparr>"
    by (simp add: demo_rrs_def is_a_def)
  have o: "\<forall>r \<in> set demo_rrs. rr_ok r" "length demo_rrs = 2" by (simp_all add: demo_rrs_def rr_ok_def)
  define d :: "nat \<Rightarrow> u8" where "d = (\<lambda>i. if i < 50 then demo_reply ! i else 7)"
  have d: "at d 0 demo_reply" using a by (simp only: d_def)
  have m: "at d 0 ([0xAB, 0xCD] @ be16 0x8180 @ be16 1 @ be16 (of_nat (length demo_rrs)) @ be32 0 @ wire_name [[97]] @ [0, 1, 0, 1] @
      concat (map wire_rr demo_rrs))"
    using d by (simp only: demo_reply_def o(2) of_nat_numeral)
  have w: "wire_name [[97]] = [1, 97, 0]" by (simp add: wire_name_def wire_label_def)
  have "dns_query_message (dotted [[97]]) =
      (if 12 + length (wire_name [[97]]) + 4 \<le> 256
       then Dns_bytes ([0xAB, 0xCD, 0x01, 0x00, 0x00, 0x01, 0, 0, 0, 0, 0, 0] @ wire_name [[97]] @ [0, 1, 0, 1])
       else Dns_overrun) \<and>
      e1000_dns_parse_reply d (int 50) = Some [93, 184, 216, 34]"
    using dns_round_trip [OF _ o(1) _ _ _ m n f] o(2) by (simp add: label_ok_def)
  then show ?thesis by (simp add: w flip: d_def)
qed

text \<open>The reply parser terminates on every input and never looks further than four bytes behind the
  message: two memories that agree up to there give the same answer, whatever counts, lengths
  and compression bytes the message claims.\<close>

theorem dns_parse_bounds:
  assumes "\<And>i. i < nat len + 4 \<Longrightarrow> dns i = dns' i"
  shows "e1000_dns_parse_reply dns len = e1000_dns_parse_reply dns' len"
proof (cases "len < 12")
  case False
  then have "dns i = dns' i" if "i < 12" for i using that by (intro assms) simp
  moreover have "skip_questions dns (nat len) q 12 = skip_questions dns' (nat len) q 12" for q
    by (rule skip_questions_cong) (simp add: assms)
  moreover have "read_answers dns (nat len) a p = read_answers dns' (nat len) a p" for a p
    by (rule read_answers_cong) (rule assms)
  ultimately show ?thesis by (simp add: e1000_dns_parse_reply_def get_be16_def cong: if_cong)
qed (simp add: e1000_dns_parse_reply_def)

theorem dns_parse_bounds_witness:
  "e1000_dns_parse_reply (\<lambda>i. if i < 50 then demo_reply ! i else 7) 30 = e1000_dns_parse_reply (\<lambda>i. if i < 50 then demo_reply ! i else 9) 30"
  by (rule dns_parse_bounds) simp

text \<open>A message that ends right after the header of an A record.\<close>

definition cut_reply :: "u8 \<Rightarrow> nat \<Rightarrow> u8" where
  "cut_reply x i = (if i < 24 then ([0xAB, 0xCD] @ be16 0x8180 @ be16 0 @ be16 1 @ be32 0 @ [0xC0, 0x0C] @
     be16 1 @ be16 1 @ be32 60 @ be16 4) ! i else x)"

text \<open>C30. The parser does read behind the message: an A record whose four bytes of data are missing is
  accepted, and the address is whatever stands in the buffer after the message.\<close>

theorem dns_parse_overreads:
  "e1000_dns_parse_reply (cut_reply x) 24 = Some [x, x, x, x]"
proof -
  let ?m = "[0xAB, 0xCD] @ be16 0x8180 @ be16 0 @ be16 1 @ be32 0 @ [0xC0, 0x0C] @ be16 1 @ be16 1 @ be32 60 @ be16 4"
  have "at (cut_reply x) 0 ?m" by (simp add: at_def cut_reply_def)
  then have "cut_reply x 0 = 0xAB" "cut_reply x 1 = 0xCD" "cut_reply x 12 = 0xC0"
    and "at (cut_reply x) 2 (be16 0x8180)" "at (cut_reply x) 4 (be16 0)" "at (cut_reply x) 6 (be16 1)"
      "at (cut_reply x) 14 (be16 1)" "at (cut_reply x) 22 (be16 4)"
    by (simp_all add: eval_nat_numeral)
  then have "get_be16 (cut_reply x) 2 = 0x8180" "get_be16 (cut_reply x) 4 = 0" "get_be16 (cut_reply x) 6 = 1"
    "get_be16 (cut_reply x) 14 = 1" "get_be16 (cut_reply x) 22 = 4" "cut_reply x 0 = 0xAB" "cut_reply x 1 = 0xCD" "cut_reply x 12 = 0xC0"
    by (simp_all add: get_be16_at)
  moreover have "cut_reply x i = x" if "24 \<le> i" for i using that by (simp add: cut_reply_def)
  ultimately show ?thesis by (simp add: e1000_dns_parse_reply_def Let_def skip_name_def)
qed

end
