(* ===== verification/E1000.thy ===== *)
theory E1000
  imports Pmm Inet
begin

text \<open>
  The network card driver, \<open>kernel/drivers/e1000.c\<close>, and the ARP exchange of \<open>arp.c\<close>: the
  descriptor rings in memory, sending and receiving.  The registers of the card are the argument
  \<open>D\<close> of every function; since the card reads and writes memory by itself, a register access acts
  on the memory together with the state \<open>'v\<close> of the card.  The static variables of the driver are the
  record \<open>e1000\<close>.  Delay loops and serial output are left out.
\<close>

section \<open>Registers and state\<close>

definition E1000_CTRL :: u32 where "E1000_CTRL = 0x0000"
definition E1000_IMC :: u32 where "E1000_IMC = 0x00D8"
definition E1000_RCTL :: u32 where "E1000_RCTL = 0x0100"
definition E1000_TCTL :: u32 where "E1000_TCTL = 0x0400"
definition E1000_RDBAL :: u32 where "E1000_RDBAL = 0x2800"
definition E1000_RDBAH :: u32 where "E1000_RDBAH = 0x2804"
definition E1000_RDLEN :: u32 where "E1000_RDLEN = 0x2808"
definition E1000_RDH :: u32 where "E1000_RDH = 0x2810"
definition E1000_RDT :: u32 where "E1000_RDT = 0x2818"
definition E1000_TDBAL :: u32 where "E1000_TDBAL = 0x3800"
definition E1000_TDBAH :: u32 where "E1000_TDBAH = 0x3804"
definition E1000_TDLEN :: u32 where "E1000_TDLEN = 0x3808"
definition E1000_TDH :: u32 where "E1000_TDH = 0x3810"
definition E1000_TDT :: u32 where "E1000_TDT = 0x3818"
definition E1000_MTA :: u32 where "E1000_MTA = 0x5200"
definition E1000_RAL :: u32 where "E1000_RAL = 0x5400"
definition E1000_RAH :: u32 where "E1000_RAH = 0x5404"

definition NUM_RX_DESC :: nat where "NUM_RX_DESC = 16"
definition NUM_TX_DESC :: nat where "NUM_TX_DESC = 16"

record 'v nic_ops =
  e1000_read :: "u32 \<Rightarrow> mem \<times> 'v \<Rightarrow> u32 \<times> mem \<times> 'v"
  e1000_write :: "u32 \<Rightarrow> u32 \<Rightarrow> mem \<times> 'v \<Rightarrow> mem \<times> 'v"

record e1000 =
  gateway_mac :: "u8 list"
  nic_mac :: "u8 list"
  rx_desc_phys :: u64
  tx_desc_phys :: u64
  rx_buf_phys :: "u64 list"
  tx_buf_phys :: "u64 list"
  rx_cur :: nat
  tx_cur :: nat

type_synonym 'v nic_state = "e1000 \<times> mem \<times> 'v"

text \<open>Entry \<open>i\<close> of a ring of 16-byte descriptors, and the offsets of the fields in the packed structs.\<close>

definition desc :: "u64 \<Rightarrow> nat \<Rightarrow> u64" where
  "desc ring i = ring + of_nat (16 * i)"

definition LENGTH_AT :: u64 where "LENGTH_AT = 8"
definition CMD_AT :: u64 where "CMD_AT = 11"
definition STATUS_AT :: u64 where "STATUS_AT = 12"

section \<open>Operations\<close>

definition mac_of :: "u32 \<Rightarrow> u32 \<Rightarrow> u8 list" where
  "mac_of ral rah = [ucast (ral AND 0xFF), ucast (drop_bit 8 ral AND 0xFF), ucast (drop_bit 16 ral AND 0xFF),
     ucast (drop_bit 24 ral AND 0xFF), ucast (rah AND 0xFF), ucast (drop_bit 8 rah AND 0xFF)]"

definition e1000_get_mac :: "e1000 \<Rightarrow> u8 list" where
  "e1000_get_mac s = nic_mac s"

definition e1000_probe :: "'v nic_ops \<Rightarrow> 'v nic_state \<Rightarrow> 'v nic_state" where
  "e1000_probe D st =
     (case st of (s, c) \<Rightarrow>
        (let c = snd (e1000_read D 0x0008 c);
             (ral, c) = e1000_read D E1000_RAL c;
             (rah, c) = e1000_read D E1000_RAH c;
             s = s\<lparr>nic_mac := mac_of ral rah\<rparr>;
             c = snd (e1000_read D E1000_CTRL c)
         in (s, c)))"

text \<open>The array of buffers after the allocating loop, which stops at the first page that is missing.\<close>

definition store_bufs :: "u64 list \<Rightarrow> nat \<Rightarrow> u64 list \<Rightarrow> u64 list" where
  "store_bufs old n got = (if length got = n then got else got @ 0 # drop (length got + 1) old)"

text \<open>\<open>ring[i].addr = bufs[i]; ring[i].status = 0\<close> for every entry.\<close>

definition fill_ring :: "u64 \<Rightarrow> u64 list \<Rightarrow> mem \<Rightarrow> mem" where
  "fill_ring ring bufs m =
     fold (\<lambda>i m. wr_bytes (wr_bytes m (desc ring i) (le_bytes 8 (bufs ! i))) (desc ring i + STATUS_AT) [0]) [0..<length bufs] m"

definition write_regs :: "'v nic_ops \<Rightarrow> (u32 \<times> u32) list \<Rightarrow> mem \<times> 'v \<Rightarrow> mem \<times> 'v" where
  "write_regs D rvs c = fold (\<lambda>(r, v) c. e1000_write D r v c) rvs c"

definition setup_regs :: "'v nic_ops \<Rightarrow> e1000 \<Rightarrow> mem \<times> 'v \<Rightarrow> mem \<times> 'v" where
  "setup_regs D s c =
     (let c = write_regs D ([(E1000_IMC, 0xFFFFFFFF)] @ map (\<lambda>i. (E1000_MTA + of_nat (i * 4), 0)) [0..<128] @
            [(E1000_RDBAL, ucast (rx_desc_phys s AND 0xFFFFFFFF)), (E1000_RDBAH, ucast (drop_bit 32 (rx_desc_phys s))),
             (E1000_RDLEN, of_nat (NUM_RX_DESC * 16)), (E1000_RDH, 0), (E1000_RDT, of_nat (NUM_RX_DESC - 1)),
             (E1000_TDBAL, ucast (tx_desc_phys s AND 0xFFFFFFFF)), (E1000_TDBAH, ucast (drop_bit 32 (tx_desc_phys s))),
             (E1000_TDLEN, of_nat (NUM_TX_DESC * 16)), (E1000_TDH, 0), (E1000_TDT, 0)]) c;
          (ctrl, c) = e1000_read D E1000_CTRL c;
          c = e1000_write D E1000_CTRL (ctrl OR push_bit 6 1) c;
          (rah, c) = e1000_read D E1000_RAH c;
          c = e1000_write D E1000_RAH (rah OR push_bit 31 1) c;
          c = e1000_write D E1000_RCTL (push_bit 1 1 OR push_bit 3 1 OR push_bit 4 1 OR push_bit 15 1 OR push_bit 26 1) c;
          c = e1000_write D E1000_TCTL (push_bit 1 1 OR push_bit 3 1 OR push_bit 4 0x0F OR push_bit 12 0x40) c;
          c = snd (e1000_read D E1000_TCTL (snd (e1000_read D E1000_RCTL c)))
      in snd (e1000_read D E1000_TDBAL (snd (e1000_read D E1000_RDBAL c))))"

definition e1000_init :: "'v nic_ops \<Rightarrow> pmm \<Rightarrow> 'v nic_state \<Rightarrow> int \<times> pmm \<times> 'v nic_state" where
  "e1000_init D p st =
     (case st of (s, m, v) \<Rightarrow>
        (let (rxd, p) = pmm_alloc_page p; (txd, p) = pmm_alloc_page p;
             s = s\<lparr>rx_desc_phys := rxd, tx_desc_phys := txd\<rparr> in
         if rxd = 0 \<or> txd = 0 then (- 1, p, s, m, v)
         else
           (let (rxb, p) = alloc_pages pmm_alloc_page NUM_RX_DESC p;
                s = s\<lparr>rx_buf_phys := store_bufs (rx_buf_phys s) NUM_RX_DESC rxb\<rparr> in
            if length rxb < NUM_RX_DESC then (- 1, p, s, m, v)
            else
              (let (txb, p) = alloc_pages pmm_alloc_page NUM_TX_DESC p;
                   s = s\<lparr>tx_buf_phys := store_bufs (tx_buf_phys s) NUM_TX_DESC txb\<rparr> in
               if length txb < NUM_TX_DESC then (- 1, p, s, m, v)
               else
                 (let m = wr_bytes (wr_bytes m rxd (replicate 4096 0)) txd (replicate 4096 0);
                      m = fill_ring txd txb (fill_ring rxd rxb m);
                      (m, v) = setup_regs D s (m, v)
                  in (0, p, s\<lparr>rx_cur := 0, tx_cur := 0\<rparr>, m, v))))))"

definition e1000_send :: "'v nic_ops \<Rightarrow> u8 list \<Rightarrow> 'v nic_state \<Rightarrow> int \<times> 'v nic_state" where
  "e1000_send D data st =
     (if length data = 0 \<or> length data > 4096 then (- 1, st)
      else
        (case st of (s, m, v) \<Rightarrow>
           (let d = desc (tx_desc_phys s) (tx_cur s);
                buf = rd64 m d;
                m = wr_bytes m buf data;
                m = wr_bytes m (d + LENGTH_AT) (le_bytes 2 (of_nat (length data) :: u16));
                m = wr_bytes m (d + CMD_AT) [push_bit 0 1 OR push_bit 1 1 OR push_bit 3 1];
                m = wr_bytes m (d + STATUS_AT) [0];
                s = s\<lparr>tx_cur := (tx_cur s + 1) mod NUM_TX_DESC\<rparr>
            in (0, s, e1000_write D E1000_TDT (of_nat (tx_cur s)) (m, v)))))"

text \<open>The result, the bytes stored for the caller, and the state.\<close>

definition e1000_recv :: "'v nic_ops \<Rightarrow> int \<Rightarrow> 'v nic_state \<Rightarrow> int \<times> u8 list \<times> 'v nic_state" where
  "e1000_recv D mx st =
     (case st of (s, c) \<Rightarrow>
        (let (rdh, m, v) = e1000_read D E1000_RDH c in
         if rdh = of_nat (rx_cur s) then (- 1, [], s, m, v)
         else
           (let d = desc (rx_desc_phys s) (rx_cur s) in
            if m (d + STATUS_AT) AND 0x01 = 0 then (- 1, [], s, m, v)
            else
              (let n = int (unat (rd16 m (d + LENGTH_AT)));
                   n = (if n > mx then mx else n);
                   got = rd_bytes m (rd64 m d) (nat n);
                   m = wr_bytes m (d + STATUS_AT) [0];
                   c = e1000_write D E1000_RDT (of_nat (rx_cur s)) (m, v)
               in (n, got, s\<lparr>rx_cur := (rx_cur s + 1) mod NUM_RX_DESC\<rparr>, c)))))"

definition e1000_send_arp_request :: "'v nic_ops \<Rightarrow> 'v nic_state \<Rightarrow> 'v nic_state" where
  "e1000_send_arp_request D st = snd (e1000_send D (arp_packet (nic_mac (fst st)) 0x0A00020F 0x0A000202) st)"

definition e1000_ping :: "'v nic_ops \<Rightarrow> u32 \<Rightarrow> 'v nic_state \<Rightarrow> 'v nic_state" where
  "e1000_ping D dst st = snd (e1000_send D (ping_packet (gateway_mac (fst st)) (nic_mac (fst st)) dst) st)"

definition e1000_send_udp :: "'v nic_ops \<Rightarrow> u32 \<Rightarrow> u16 \<Rightarrow> u16 \<Rightarrow> u8 list \<Rightarrow> 'v nic_state \<Rightarrow> int \<times> 'v nic_state" where
  "e1000_send_udp D dst sp dp payload st =
     (case udp_packet (gateway_mac (fst st)) (nic_mac (fst st)) dst sp dp payload of
        None \<Rightarrow> (- 1, st)
      | Some pkt \<Rightarrow> e1000_send D pkt st)"

text \<open>\<open>None\<close>: the message does not fit its buffer, and the stack frame is overwritten.\<close>

definition e1000_dns_query :: "'v nic_ops \<Rightarrow> u8 list \<Rightarrow> 'v nic_state \<Rightarrow> 'v nic_state option" where
  "e1000_dns_query D hostname st =
     (case dns_query_message hostname of
        Dns_overrun \<Rightarrow> None
      | Dns_bad \<Rightarrow> Some st
      | Dns_bytes msg \<Rightarrow> Some (snd (e1000_send_udp D 0x0A000203 12345 53 msg st)))"

definition e1000_tcp_syn :: "'v nic_ops \<Rightarrow> u32 \<Rightarrow> u16 \<Rightarrow> 'v nic_state \<Rightarrow> 'v nic_state" where
  "e1000_tcp_syn D dst port st =
     snd (e1000_send D (tcp_syn_packet (gateway_mac (fst st)) (nic_mac (fst st)) dst port) st)"

section \<open>ARP\<close>

definition is_arp_reply :: "u32 \<Rightarrow> int \<Rightarrow> u8 list \<Rightarrow> bool" where
  "is_arp_reply target_ip n rbuf \<longleftrightarrow>
     \<not> n < 42 \<and> get_be16 (\<lambda>i. rbuf ! i) 12 = 0x0806 \<and> get_be16 (\<lambda>i. rbuf ! i) 20 = 0x0002 \<and>
     get_be32 (\<lambda>i. rbuf ! i) 28 = target_ip"

fun arp_poll :: "'v nic_ops \<Rightarrow> u32 \<Rightarrow> nat \<Rightarrow> 'v nic_state \<Rightarrow> u8 list option \<times> 'v nic_state" where
  "arp_poll D target_ip 0 st = (None, st)"
| "arp_poll D target_ip (Suc t) st =
     (case e1000_recv D 2048 st of
        (n, rbuf, st) \<Rightarrow>
          if is_arp_reply target_ip n rbuf then (Some (take 6 (drop 22 rbuf)), st)
          else arp_poll D target_ip t st)"

definition arp_request :: "'v nic_ops \<Rightarrow> u8 list \<Rightarrow> u32 \<Rightarrow> u32 \<Rightarrow> 'v nic_state \<Rightarrow> int \<times> u8 list \<times> 'v nic_state" where
  "arp_request D our_mac our_ip target_ip st =
     (case e1000_send D (arp_packet our_mac our_ip target_ip) st of
        (r, st) \<Rightarrow>
          if r < 0 then (- 1, [], st)
          else
            (case arp_poll D target_ip 1000000 st of
               (Some out_mac, st) \<Rightarrow> (0, out_mac, st)
             | (None, st) \<Rightarrow> (- 1, [], st)))"

definition arp_test :: "'v nic_ops \<Rightarrow> u8 list \<Rightarrow> 'v nic_state \<Rightarrow> 'v nic_state" where
  "arp_test D our_mac st = snd (snd (arp_request D our_mac 0x0A00020F 0x0A000202 st))"

section \<open>Memory in pages\<close>

lemma page_plus:
  assumes "page_aligned a" and "k \<le> 4095"
  shows "unat (a + of_nat k) = unat a + k" and "unat a + 4096 \<le> 2 ^ 64"
proof -
  have d: "4096 dvd unat a" "(4096 :: nat) dvd 2 ^ 64" using assms(1) by (simp_all add: page_aligned_def)
  show b: "unat a + 4096 \<le> 2 ^ 64" using dvd_less_step [OF d] by simp
  have "unat (of_nat k :: u64) = k" using assms(2) by (intro unat_of_nat_64) simp
  then show "unat (a + of_nat k) = unat a + k" using b assms(2) by (subst unat_plus_small) simp_all
qed

text \<open>A write inside one page is seen inside that page only.\<close>

lemma wr_page:
  assumes p: "page_aligned p" and q: "page_aligned q" and i: "i < 4096" and w: "k + length bs \<le> 4096"
  shows "wr_bytes m (q + of_nat k) bs (p + of_nat i) = (if p = q \<and> k \<le> i \<and> i < k + length bs then bs ! (i - k) else m (p + of_nat i))"
proof (cases "bs = []")
  case False
  then have k: "k < 4096" using w by (cases bs) simp_all
  have x: "unat (p + of_nat i) = unat p + i" and y: "unat (q + of_nat k) = unat q + k"
    using page_plus(1) [OF p, of i] page_plus(1) [OF q, of k] i k by simp_all
  have b: "unat p + 4096 \<le> 2 ^ 64" "unat q + 4096 \<le> 2 ^ 64" using page_plus(2) [OF p, of 0] page_plus(2) [OF q, of 0] by simp_all
  have d: "4096 dvd unat p" "4096 dvd unat q" using p q by (simp_all add: page_aligned_def)
  let ?e = "unat (p + of_nat i - (q + of_nat k))"
  have e: "?e = (if unat q + k \<le> unat p + i then unat p + i - (unat q + k) else unat p + i + 2 ^ 64 - (unat q + k))"
    unfolding unat_sub_if' x y by simp
  have "?e < length bs \<longleftrightarrow> p = q \<and> k \<le> i \<and> i < k + length bs"
  proof (cases "p = q")
    case True
    then show ?thesis using e i k w b by auto
  next
    case False
    then have "unat p \<noteq> unat q" by (auto intro: unat_eqI)
    then have "unat p + 4096 \<le> unat q \<or> unat q + 4096 \<le> unat p"
      using dvd_less_step [OF d] dvd_less_step [OF d(2,1)] by linarith
    then have "\<not> ?e < length bs" using e i k w b by auto
    then show ?thesis using False by simp
  qed
  moreover have "?e = i - k" if "p = q" "k \<le> i" using e that by simp
  moreover have "length bs < 2 ^ 64" using w by simp
  ultimately show ?thesis by (simp only: wr_bytes_apply) auto
qed auto

lemma rd_page:
  assumes "page_aligned p" and "page_aligned q" and "i + n \<le> 4096" and "k + length bs \<le> 4096"
    and "p \<noteq> q \<or> i + n \<le> k \<or> k + length bs \<le> i"
  shows "rd_bytes (wr_bytes m (q + of_nat k) bs) (p + of_nat i) n = rd_bytes m (p + of_nat i) n"
proof (rule nth_equalityI)
  fix j assume "j < length (rd_bytes (wr_bytes m (q + of_nat k) bs) (p + of_nat i) n)"
  then have j: "j < n" by simp
  have e: "p + of_nat i + of_nat j = p + of_nat (i + j)" by simp
  have "wr_bytes m (q + of_nat k) bs (p + of_nat (i + j)) = m (p + of_nat (i + j))"
    by (subst wr_page [OF assms(1,2) _ assms(4)]) (use assms(3,5) j in auto)
  then show "rd_bytes (wr_bytes m (q + of_nat k) bs) (p + of_nat i) n ! j = rd_bytes m (p + of_nat i) n ! j"
    using j by (simp only: nth_rd_bytes e)
qed simp

section \<open>The rings\<close>

text \<open>The pages the driver owns, and what its state means: every descriptor holds its buffer.\<close>

definition nic_pages :: "e1000 \<Rightarrow> u64 list" where
  "nic_pages s = rx_desc_phys s # tx_desc_phys s # rx_buf_phys s @ tx_buf_phys s"

definition ring_holds :: "mem \<Rightarrow> u64 \<Rightarrow> u64 list \<Rightarrow> bool" where
  "ring_holds m ring bufs \<longleftrightarrow> (\<forall>i < length bufs. rd64 m (desc ring i) = bufs ! i)"

definition nic_ok :: "e1000 \<Rightarrow> mem \<Rightarrow> bool" where
  "nic_ok s m \<longleftrightarrow> length (rx_buf_phys s) = NUM_RX_DESC \<and> length (tx_buf_phys s) = NUM_TX_DESC \<and>
     rx_cur s < NUM_RX_DESC \<and> tx_cur s < NUM_TX_DESC \<and> distinct (nic_pages s) \<and>
     (\<forall>p \<in> set (nic_pages s). page_aligned p \<and> p \<noteq> 0) \<and>
     ring_holds m (rx_desc_phys s) (rx_buf_phys s) \<and> ring_holds m (tx_desc_phys s) (tx_buf_phys s)"

lemma ring_wr:
  assumes h: "ring_holds m ring bufs" and al: "page_aligned ring" "page_aligned q" and n: "length bufs \<le> 256"
    and w: "k + length bs \<le> 4096"
    and o: "q \<noteq> ring \<or> (\<exists>j n. k = 16 * j + n \<and> 8 \<le> n \<and> n + length bs \<le> 16)"
  shows "ring_holds (wr_bytes m (q + of_nat k) bs) ring bufs"
  unfolding ring_holds_def
proof (intro allI impI)
  fix i assume i: "i < length bufs"
  have "ring \<noteq> q \<or> 16 * i + 8 \<le> k \<or> k + length bs \<le> 16 * i"
  proof (cases "q = ring")
    case True
    then obtain j off where j: "k = 16 * j + off" "8 \<le> off" "off + length bs \<le> 16" using o by auto
    have "i \<le> j \<or> j + 1 \<le> i" by linarith
    then show ?thesis using j by auto
  qed simp
  then have "rd_bytes (wr_bytes m (q + of_nat k) bs) (ring + of_nat (16 * i)) 8 = rd_bytes m (ring + of_nat (16 * i)) 8"
    using i n by (intro rd_page al w) auto
  then show "rd64 (wr_bytes m (q + of_nat k) bs) (desc ring i) = bufs ! i"
    using h i unfolding rd64_def desc_def ring_holds_def by simp
qed

lemma nic_page:
  assumes "nic_ok s m"
  shows "page_aligned (rx_desc_phys s)" "page_aligned (tx_desc_phys s)" "rx_desc_phys s \<noteq> tx_desc_phys s"
    and "i < 16 \<Longrightarrow> page_aligned (tx_buf_phys s ! i) \<and> tx_buf_phys s ! i \<noteq> rx_desc_phys s \<and> tx_buf_phys s ! i \<noteq> tx_desc_phys s"
    and "i < 16 \<Longrightarrow> page_aligned (rx_buf_phys s ! i) \<and> rx_buf_phys s ! i \<noteq> rx_desc_phys s \<and> rx_buf_phys s ! i \<noteq> tx_desc_phys s"
proof -
  have a: "\<forall>p \<in> set (nic_pages s). page_aligned p" "distinct (nic_pages s)" "length (rx_buf_phys s) = 16" "length (tx_buf_phys s) = 16"
    using assms by (auto simp: nic_ok_def NUM_RX_DESC_def NUM_TX_DESC_def)
  then show "page_aligned (rx_desc_phys s)" "page_aligned (tx_desc_phys s)" "rx_desc_phys s \<noteq> tx_desc_phys s"
    by (simp_all add: nic_pages_def)
  show "page_aligned (tx_buf_phys s ! i) \<and> tx_buf_phys s ! i \<noteq> rx_desc_phys s \<and> tx_buf_phys s ! i \<noteq> tx_desc_phys s" if "i < 16"
  proof -
    have "tx_buf_phys s ! i \<in> set (tx_buf_phys s)" using that a(4) by simp
    then show ?thesis using a(1,2) by (auto simp: nic_pages_def)
  qed
  show "page_aligned (rx_buf_phys s ! i) \<and> rx_buf_phys s ! i \<noteq> rx_desc_phys s \<and> rx_buf_phys s ! i \<noteq> tx_desc_phys s" if "i < 16"
  proof -
    have "rx_buf_phys s ! i \<in> set (rx_buf_phys s)" using that a(3) by simp
    then show ?thesis using a(1,2) by (auto simp: nic_pages_def)
  qed
qed

section \<open>Sending\<close>

text \<open>The memory the card finds when the doorbell rings.\<close>

definition sent :: "e1000 \<Rightarrow> mem \<Rightarrow> u8 list \<Rightarrow> mem \<Rightarrow> bool" where
  "sent s m data m' \<longleftrightarrow>
     (let d = desc (tx_desc_phys s) (tx_cur s); buf = tx_buf_phys s ! tx_cur s in
      rd64 m' d = buf \<and> rd_bytes m' buf (length data) = data \<and> rd16 m' (d + LENGTH_AT) = of_nat (length data) \<and>
      m' (d + CMD_AT) = 0x0B \<and> m' (d + STATUS_AT) = 0 \<and>
      (\<forall>p i. page_aligned p \<longrightarrow> i < 4096 \<longrightarrow> \<not> (p = buf \<and> i < length data) \<longrightarrow>
         \<not> (p = tx_desc_phys s \<and> 16 * tx_cur s + 8 \<le> i \<and> i < 16 * tx_cur s + 13) \<longrightarrow> m' (p + of_nat i) = m (p + of_nat i)))"

lemma send_memory:
  assumes ok: "nic_ok s m" and len: "0 < length data" "length data \<le> 4096"
  shows "\<exists>m'. e1000_send D data (s, m, v) = (0, s\<lparr>tx_cur := (tx_cur s + 1) mod 16\<rparr>,
      e1000_write D E1000_TDT (of_nat ((tx_cur s + 1) mod 16)) (m', v)) \<and> sent s m data m' \<and>
    nic_ok (s\<lparr>tx_cur := (tx_cur s + 1) mod 16\<rparr>) m'"
proof -
  let ?t = "tx_desc_phys s" and ?c = "tx_cur s" and ?r = "rx_desc_phys s"
  let ?buf = "tx_buf_phys s ! ?c"
  have c: "?c < 16" "length (tx_buf_phys s) = 16" using ok by (simp_all add: nic_ok_def NUM_TX_DESC_def)
  have h: "ring_holds m ?t (tx_buf_phys s)" "ring_holds m ?r (rx_buf_phys s)" "length (rx_buf_phys s) = 16"
    using ok by (simp_all add: nic_ok_def NUM_RX_DESC_def)
  note pg = nic_page(1,2,3) [OF ok] nic_page(4) [OF ok c(1)]
  have buf: "rd64 m (desc ?t ?c) = ?buf" using h(1) c by (simp add: ring_holds_def)
  let ?lb = "le_bytes 2 (of_nat (length data) :: u16)"
  define m1 where "m1 = wr_bytes m (?buf + of_nat 0) data"
  define m2 where "m2 = wr_bytes m1 (?t + of_nat (16 * ?c + 8)) ?lb"
  define m3 where "m3 = wr_bytes m2 (?t + of_nat (16 * ?c + 11)) [0x0B]"
  define m4 where "m4 = wr_bytes m3 (?t + of_nat (16 * ?c + 12)) [0]"
  have at: "desc ?t ?c + LENGTH_AT = ?t + of_nat (16 * ?c + 8)" "desc ?t ?c + CMD_AT = ?t + of_nat (16 * ?c + 11)"
    "desc ?t ?c + STATUS_AT = ?t + of_nat (16 * ?c + 12)"
    by (simp_all add: desc_def LENGTH_AT_def CMD_AT_def STATUS_AT_def add.assoc)
  have cmd: "(push_bit 0 1 OR push_bit 1 1 OR push_bit 3 1 :: u8) = 0x0B" by simp
  have b0: "?buf + of_nat 0 = ?buf" by simp
  have r: "e1000_send D data (s, m, v) = (0, s\<lparr>tx_cur := (?c + 1) mod 16\<rparr>, e1000_write D E1000_TDT (of_nat ((?c + 1) mod 16)) (m4, v))"
    using len unfolding e1000_send_def Let_def prod.case buf at cmd m4_def m3_def m2_def m1_def b0 by (simp add: NUM_TX_DESC_def)
  have l2: "length ?lb = 2" by simp
  have byte: "m4 (p + of_nat i) = (if p = ?t \<and> i = 16 * ?c + 12 then 0 else if p = ?t \<and> i = 16 * ?c + 11 then 0x0B
      else if p = ?t \<and> 16 * ?c + 8 \<le> i \<and> i < 16 * ?c + 10 then ?lb ! (i - (16 * ?c + 8))
      else if p = ?buf \<and> i < length data then data ! i else m (p + of_nat i))" if p: "page_aligned p" and i: "i < 4096" for p i
  proof -
    have bnd: "16 * ?c + 12 + length [0 :: u8] \<le> 4096" "16 * ?c + 11 + length [0x0B :: u8] \<le> 4096" "16 * ?c + 8 + length ?lb \<le> 4096"
      "0 + length data \<le> 4096" using c(1) len by simp_all
    show ?thesis
      unfolding m4_def wr_page [OF p pg(2) i bnd(1)] m3_def wr_page [OF p pg(2) i bnd(2)] m2_def wr_page [OF p pg(2) i bnd(3)]
        m1_def wr_page [OF p pg(4) [THEN conjunct1] i bnd(4)]
      by auto
  qed
  have rd: "rd_bytes m4 (?t + of_nat k) n = map (\<lambda>j. m4 (?t + of_nat (k + j))) [0..<n]" for k n
    by (simp add: rd_bytes_def add.assoc)
  have off: "\<exists>j n. 16 * ?c + x = 16 * j + n \<and> 8 \<le> n \<and> n + w \<le> 16" if "8 \<le> x" "x + w \<le> 16" for x w
    using that by blast
  have R1: "ring_holds m4 ?t (tx_buf_phys s)"
    unfolding m4_def m3_def m2_def
  proof (intro ring_wr pg disjI2 off)
    show "ring_holds m1 ?t (tx_buf_phys s)"
      unfolding m1_def by (intro ring_wr h(1) pg) (use c pg len in \<open>auto\<close>)
  qed (use c in \<open>auto\<close>)
  have R2: "ring_holds m4 ?r (rx_buf_phys s)"
    unfolding m4_def m3_def m2_def m1_def
    by (intro ring_wr h(2) pg) (use c h(3) pg len l2 in \<open>auto\<close>)
  have "rd16 m4 (?t + of_nat (16 * ?c + 8)) = of_nat (length data)"
  proof -
    have "rd_bytes m4 (?t + of_nat (16 * ?c + 8)) 2 = ?lb"
      using c(1) byte [OF pg(2)] by (intro nth_equalityI) (auto simp: rd less_2_cases_iff simp del: of_nat_add)
    then show ?thesis by (simp add: rd16_def le_word_bytes_all)
  qed
  moreover have "rd_bytes m4 ?buf (length data) = data"
  proof (rule nth_equalityI)
    fix i assume "i < length (rd_bytes m4 ?buf (length data))"
    then show "rd_bytes m4 ?buf (length data) ! i = data ! i" using byte [of ?buf i] pg len by simp
  qed simp
  moreover have "m4 (?t + of_nat (16 * ?c + 11)) = 0x0B" "m4 (?t + of_nat (16 * ?c + 12)) = 0"
    using c(1) byte [OF pg(2)] by (simp_all del: of_nat_add)
  moreover have "rd64 m4 (desc ?t ?c) = ?buf" using R1 c by (simp add: ring_holds_def)
  moreover have "m4 (p + of_nat i) = m (p + of_nat i)" if "page_aligned p" "i < 4096" "\<not> (p = ?buf \<and> i < length data)"
    "\<not> (p = ?t \<and> 16 * ?c + 8 \<le> i \<and> i < 16 * ?c + 13)" for p i
    using byte [OF that(1,2)] that(3,4) by auto
  ultimately have "sent s m data m4" unfolding sent_def Let_def at by blast
  moreover have "nic_ok (s\<lparr>tx_cur := (?c + 1) mod 16\<rparr>) m4" using ok R1 R2 by (simp add: nic_ok_def nic_pages_def NUM_TX_DESC_def)
  ultimately show ?thesis using r by blast
qed

section \<open>Setting the rings up\<close>

lemma ring_holds_cong:
  assumes "\<And>i. i < 4096 \<Longrightarrow> m' (ring + of_nat i) = m (ring + of_nat i)" and "length bufs \<le> 256"
  shows "ring_holds m' ring bufs = ring_holds m ring bufs"
proof -
  have "rd64 m' (desc ring i) = rd64 m (desc ring i)" if i: "i < length bufs" for i
  proof -
    have "rd_bytes m' (desc ring i) 8 = rd_bytes m (desc ring i) 8"
    proof (rule nth_equalityI)
      fix j assume "j < length (rd_bytes m' (desc ring i) 8)"
      then have j: "j < 8" by simp
      have "desc ring i + of_nat j = ring + of_nat (16 * i + j)" by (simp add: desc_def add.assoc)
      then show "rd_bytes m' (desc ring i) 8 ! j = rd_bytes m (desc ring i) 8 ! j"
        using assms(1) [of "16 * i + j"] assms(2) i j by (simp only: nth_rd_bytes)
    qed simp
    then show ?thesis by (simp add: rd64_def)
  qed
  then show ?thesis by (simp add: ring_holds_def)
qed

lemma fill_ring_snoc:
  "fill_ring ring (bufs @ [b]) m =
     (let i = length bufs; m = fill_ring ring bufs m in
      wr_bytes (wr_bytes m (ring + of_nat (16 * i)) (le_bytes 8 b)) (ring + of_nat (16 * i + 12)) [0])"
proof -
  have f: "fold (\<lambda>i m. wr_bytes (wr_bytes m (desc ring i) (le_bytes 8 ((bufs @ [b]) ! i))) (desc ring i + STATUS_AT) [0]) [0..<length bufs] m =
      fill_ring ring bufs m"
    unfolding fill_ring_def by (intro fold_cong) (auto simp: nth_append)
  have s: "desc ring i + STATUS_AT = ring + of_nat (16 * i + 12)" for i by (simp add: desc_def STATUS_AT_def add.assoc)
  show ?thesis
    unfolding fill_ring_def [of ring "bufs @ [b]"] length_append_singleton upt_Suc_append [OF le0] fold_append comp_apply f
    by (simp add: s [simplified] desc_def STATUS_AT_def Let_def add.assoc)
qed

lemma fill_ring_holds:
  assumes al: "page_aligned ring" and n: "length bufs \<le> 256"
  shows "ring_holds (fill_ring ring bufs m) ring bufs \<and>
    (\<forall>q i. page_aligned q \<longrightarrow> i < 4096 \<longrightarrow> q \<noteq> ring \<longrightarrow> fill_ring ring bufs m (q + of_nat i) = m (q + of_nat i))"
  using n
proof (induction bufs rule: rev_induct)
  case (snoc b bufs)
  let ?i = "length bufs" and ?m = "fill_ring ring bufs m"
  define m1 where "m1 = wr_bytes ?m (ring + of_nat (16 * ?i)) (le_bytes 8 b)"
  have m2: "fill_ring ring (bufs @ [b]) m = wr_bytes m1 (ring + of_nat (16 * ?i + 12)) [0]"
    by (simp only: fill_ring_snoc Let_def m1_def)
  have b: "16 * ?i + length (le_bytes 8 b) \<le> 4096" "16 * ?i + 12 + length [0 :: u8] \<le> 4096" using snoc.prems by simp_all
  have "ring_holds m1 ring (bufs @ [b])"
    unfolding ring_holds_def
  proof (intro allI impI)
    fix j assume j: "j < length (bufs @ [b])"
    show "rd64 m1 (desc ring j) = (bufs @ [b]) ! j"
    proof (cases "j = ?i")
      case True
      have "rd_bytes m1 (ring + of_nat (16 * ?i)) (length (le_bytes 8 b)) = le_bytes 8 b"
        unfolding m1_def by (rule rd_wr_bytes_same) simp
      then show ?thesis using True by (simp add: rd64_def desc_def le_word_bytes_all)
    next
      case False
      then have "rd_bytes m1 (ring + of_nat (16 * j)) 8 = rd_bytes ?m (ring + of_nat (16 * j)) 8"
        using j b unfolding m1_def by (intro rd_page al) auto
      then show ?thesis using snoc False j by (simp add: rd64_def desc_def ring_holds_def nth_append)
    qed
  qed
  then have "ring_holds (fill_ring ring (bufs @ [b]) m) ring (bufs @ [b])"
    unfolding m2 using snoc.prems b(2) by (intro ring_wr al disjI2 exI [of _ ?i] exI [of _ 12]) auto
  moreover have "fill_ring ring (bufs @ [b]) m (q + of_nat i) = m (q + of_nat i)" if "page_aligned q" "i < 4096" "q \<noteq> ring" for q i
    using that snoc unfolding m2 wr_page [OF that(1) al that(2) b(2)] m1_def wr_page [OF that(1) al that(2) b(1)] by simp
  ultimately show ?case by blast
qed (simp add: ring_holds_def fill_ring_def)

lemma free_left:
  assumes "pmm_inv st" and "pmm_alloc_page st = (a, st')"
  shows "pmm_inv st' \<and> (if pmm_free_pages st = 0 then a = 0 \<and> st' = st
    else a \<noteq> 0 \<and> a \<in> pmm_pages st - pmm_taken st \<and> pmm_taken st' = insert a (pmm_taken st) \<and> pmm_pages st' = pmm_pages st)"
proof (cases "a = 0")
  case True
  then have "st' = st \<and> pmm_pages st \<subseteq> pmm_taken st" using pa.alloc_full [OF assms(1)] assms(2) by simp
  moreover from this have "pmm_pages st - pmm_taken st = {}" by blast
  then have "unat (pmm_free_pages st) = 0" using card_free_pages [OF assms(1)] by (metis card.empty)
  then have "pmm_free_pages st = 0" by (simp add: unat_eq_0)
  ultimately show ?thesis using True assms(1) by simp
next
  case False
  note pg = pa.alloc_page [OF assms False]
  then have "card (pmm_pages st - pmm_taken st) \<noteq> 0" using pa.pages_finite by auto
  then have "pmm_free_pages st \<noteq> 0" using card_free_pages [OF assms(1)] by (metis unat_0)
  then show ?thesis using pg False by simp
qed

definition pmm_room :: "pmm \<Rightarrow> nat" where
  "pmm_room st = unat (pmm_free_pages st)"

lemma alloc_room:
  assumes "pmm_inv st" and "pmm_alloc_page st = (a, st')"
  shows "pmm_inv st' \<and> pmm_room st' = pmm_room st - 1 \<and> (a = 0 \<longleftrightarrow> pmm_room st = 0) \<and> (pmm_room st \<noteq> 0 \<longrightarrow>
    a \<in> pmm_pages st - pmm_taken st \<and> pmm_taken st' = insert a (pmm_taken st) \<and> pmm_pages st' = pmm_pages st)"
proof (cases "pmm_room st = 0")
  case True
  then show ?thesis using free_left [OF assms] assms(1) by (simp add: pmm_room_def unat_eq_0)
next
  case False
  then have f: "pmm_inv st'" "a \<noteq> 0" "a \<in> pmm_pages st - pmm_taken st" "pmm_taken st' = insert a (pmm_taken st)" "pmm_pages st' = pmm_pages st"
    using free_left [OF assms] by (auto simp: pmm_room_def)
  have "pmm_pages st' - pmm_taken st' = (pmm_pages st - pmm_taken st) - {a}" using f(4,5) by auto
  then have "pmm_room st' = pmm_room st - 1"
    unfolding pmm_room_def card_free_pages [OF assms(1), symmetric] card_free_pages [OF f(1), symmetric]
    using f(3) by (simp add: card_Diff_singleton)
  then show ?thesis using f False by simp
qed

lemma alloc_pages_room:
  assumes "pmm_inv st" and "alloc_pages pmm_alloc_page n st = (as, st')"
  shows "pmm_inv st' \<and> length as = min n (pmm_room st) \<and> pmm_room st' = pmm_room st - length as \<and> distinct as \<and> 0 \<notin> set as \<and>
    set as \<subseteq> pmm_pages st - pmm_taken st \<and> pmm_taken st' = pmm_taken st \<union> set as \<and> pmm_pages st' = pmm_pages st"
proof -
  have s: "distinct as" "0 \<notin> set as" "set as \<subseteq> pmm_pages st - pmm_taken st" "pmm_taken st' = pmm_taken st \<union> set as" "pmm_pages st' = pmm_pages st" "pmm_inv st'"
    using pa.alloc_pages_spec [OF assms] by auto
  have l: "length as = min n (pmm_room st)"
    using pa.alloc_pages_length [OF assms(1), of n] assms(2) card_free_pages [OF assms(1)] by (simp add: pmm_room_def)
  have "pmm_pages st' - pmm_taken st' = (pmm_pages st - pmm_taken st) - set as" using s(4,5) by auto
  then have "pmm_room st' = pmm_room st - length as"
    unfolding pmm_room_def card_free_pages [OF assms(1), symmetric] card_free_pages [OF s(6), symmetric]
    using s(1,3) by (simp add: card_Diff_subset distinct_card)
  then show ?thesis using s l by simp
qed

lemma init_rings:
  assumes al: "\<forall>p \<in> set (nic_pages s). page_aligned p \<and> p \<noteq> 0" and d: "distinct (nic_pages s)"
    and l: "length (rx_buf_phys s) = 16" "length (tx_buf_phys s) = 16"
    and m1: "m1 = fill_ring (tx_desc_phys s) (tx_buf_phys s) (fill_ring (rx_desc_phys s) (rx_buf_phys s)
      (wr_bytes (wr_bytes m (rx_desc_phys s) (replicate 4096 0)) (tx_desc_phys s) (replicate 4096 0)))"
  shows "nic_ok (s\<lparr>rx_cur := 0, tx_cur := 0\<rparr>) m1 \<and>
    (\<forall>p i. page_aligned p \<longrightarrow> i < 4096 \<longrightarrow> p \<noteq> rx_desc_phys s \<longrightarrow> p \<noteq> tx_desc_phys s \<longrightarrow> m1 (p + of_nat i) = m (p + of_nat i))"
proof -
  let ?r = "rx_desc_phys s" and ?t = "tx_desc_phys s"
  have a: "page_aligned ?r" "page_aligned ?t" "?r \<noteq> ?t" using al d by (simp_all add: nic_pages_def)
  define m0 where "m0 = wr_bytes (wr_bytes m (?r + of_nat 0) (replicate 4096 0)) (?t + of_nat 0) (replicate 4096 0)"
  define mr where "mr = fill_ring ?r (rx_buf_phys s) m0"
  have m1': "m1 = fill_ring ?t (tx_buf_phys s) mr" by (simp add: m1 mr_def m0_def)
  have hr: "ring_holds mr ?r (rx_buf_phys s)" and or: "\<And>q i. page_aligned q \<Longrightarrow> i < 4096 \<Longrightarrow> q \<noteq> ?r \<Longrightarrow> mr (q + of_nat i) = m0 (q + of_nat i)"
    using fill_ring_holds [OF a(1), of "rx_buf_phys s" m0] l unfolding mr_def by auto
  have ht: "ring_holds m1 ?t (tx_buf_phys s)" and ot: "\<And>q i. page_aligned q \<Longrightarrow> i < 4096 \<Longrightarrow> q \<noteq> ?t \<Longrightarrow> m1 (q + of_nat i) = mr (q + of_nat i)"
    using fill_ring_holds [OF a(2), of "tx_buf_phys s" mr] l unfolding m1' by auto
  have "ring_holds m1 ?r (rx_buf_phys s)" using ring_holds_cong [of m1 ?r mr "rx_buf_phys s"] ot [OF a(1) _ a(3)] l hr by simp
  then have "nic_ok (s\<lparr>rx_cur := 0, tx_cur := 0\<rparr>) m1"
    using ht al d l by (simp add: nic_ok_def nic_pages_def NUM_RX_DESC_def NUM_TX_DESC_def)
  moreover have "m1 (p + of_nat i) = m (p + of_nat i)" if p: "page_aligned p" "i < 4096" "p \<noteq> ?r" "p \<noteq> ?t" for p i
  proof -
    have b: "0 + length (replicate 4096 (0 :: u8)) \<le> 4096" by simp
    have "m0 (p + of_nat i) = m (p + of_nat i)"
      unfolding m0_def wr_page [OF p(1) a(2) p(2) b] wr_page [OF p(1) a(1) p(2) b] using p by simp
    then show ?thesis using ot [OF p(1,2,4)] or [OF p(1-3)] by simp
  qed
  ultimately show ?thesis by blast
qed

text \<open>
  \<open>e1000_init\<close> needs 34 pages and succeeds exactly when the allocator has them.  Then the two
  rings and the 32 buffers are distinct pages that were free, now in use; the rings in the memory
  the card is started with hold the buffers' addresses (\<open>nic_ok\<close>), no other page is written, and
  both ring positions are 0.  Otherwise it returns -1 without touching the memory or the card.
\<close>

theorem e1000_init_correct:
  assumes inv: "pmm_inv p" and run: "e1000_init D p (s, m, v) = (r, p', s', c')"
  shows "pmm_inv p' \<and>
    (if 34 \<le> pmm_room p then
       r = 0 \<and> rx_cur s' = 0 \<and> tx_cur s' = 0 \<and> set (nic_pages s') \<subseteq> pmm_pages p - pmm_taken p \<and>
       pmm_taken p' = pmm_taken p \<union> set (nic_pages s') \<and>
       (\<exists>m1. nic_ok s' m1 \<and> c' = setup_regs D s' (m1, v) \<and>
         (\<forall>q i. page_aligned q \<longrightarrow> i < 4096 \<longrightarrow> q \<noteq> rx_desc_phys s' \<longrightarrow> q \<noteq> tx_desc_phys s' \<longrightarrow> m1 (q + of_nat i) = m (q + of_nat i)))
     else r = - 1 \<and> c' = (m, v))"
proof -
  obtain rxd p1 where a1: "pmm_alloc_page p = (rxd, p1)" by fastforce
  obtain txd p2 where a2: "pmm_alloc_page p1 = (txd, p2)" by fastforce
  obtain rxb p3 where a3: "alloc_pages pmm_alloc_page 16 p2 = (rxb, p3)" by fastforce
  obtain txb p4 where a4: "alloc_pages pmm_alloc_page 16 p3 = (txb, p4)" by fastforce
  note r1 = alloc_room [OF inv a1]
  note r2 = alloc_room [OF r1 [THEN conjunct1] a2]
  note r3 = alloc_pages_room [OF r2 [THEN conjunct1] a3]
  note r4 = alloc_pages_room [OF r3 [THEN conjunct1] a4]
  let ?s = "s\<lparr>rx_desc_phys := rxd, tx_desc_phys := txd\<rparr>"
  have N: "NUM_RX_DESC = 16" "NUM_TX_DESC = 16" by (simp_all add: NUM_RX_DESC_def NUM_TX_DESC_def)
  have enough: "34 \<le> pmm_room p \<longleftrightarrow> \<not> (rxd = 0 \<or> txd = 0) \<and> \<not> length rxb < 16 \<and> \<not> length txb < 16"
    using r1 r2 r3 r4 by (auto simp: min_def split: if_splits)
  show ?thesis
  proof (cases "34 \<le> pmm_room p")
    case True
    let ?e = "s\<lparr>rx_desc_phys := rxd, tx_desc_phys := txd, rx_buf_phys := rxb, tx_buf_phys := txb\<rparr>"
    have len: "length rxb = 16" "length txb = 16" using True enough r3 r4 by auto
    have ne: "pmm_room p \<noteq> 0" "pmm_room p1 \<noteq> 0" using True r1 by auto
    have fresh: "distinct (nic_pages ?e)" "set (nic_pages ?e) \<subseteq> pmm_pages p - pmm_taken p" "pmm_taken p4 = pmm_taken p \<union> set (nic_pages ?e)"
      using r1 r2 r3 r4 ne by (auto simp: nic_pages_def)
    have al: "\<forall>q \<in> set (nic_pages ?e). page_aligned q \<and> q \<noteq> 0"
    proof
      fix q assume "q \<in> set (nic_pages ?e)"
      with fresh(2) have q: "q \<in> pmm_pages p - pmm_taken p" by blast
      have "0 \<notin> set (nic_pages ?e)" using r1 r2 r3 r4 ne by (simp add: nic_pages_def)
      then show "page_aligned q \<and> q \<noteq> 0" using q pa.pages_aligned [OF inv] \<open>q \<in> set (nic_pages ?e)\<close> by auto
    qed
    define m1 where "m1 = fill_ring txd txb (fill_ring rxd rxb (wr_bytes (wr_bytes m rxd (replicate 4096 0)) txd (replicate 4096 0)))"
    have ok: "nic_ok (?e\<lparr>rx_cur := 0, tx_cur := 0\<rparr>) m1 \<and> (\<forall>q i. page_aligned q \<longrightarrow> i < 4096 \<longrightarrow> q \<noteq> rxd \<longrightarrow> q \<noteq> txd \<longrightarrow>
        m1 (q + of_nat i) = m (q + of_nat i))"
      using init_rings [of ?e m1 m] al fresh(1) len by (simp add: m1_def)
    have regs: "setup_regs D ?e = setup_regs D (?e\<lparr>rx_cur := 0, tx_cur := 0\<rparr>)" by (simp add: setup_regs_def fun_eq_iff)
    have "(r, p', s', c') = (0, p4, ?e\<lparr>rx_cur := 0, tx_cur := 0\<rparr>, setup_regs D ?e (m1, v))"
      using run True enough a1 a2 a3 a4 len unfolding e1000_init_def m1_def
      by (simp add: N store_bufs_def Let_def split: prod.splits)
    then show ?thesis using True ok fresh r4 unfolding regs by (auto simp: nic_pages_def)
  next
    case False
    then have bad: "rxd = 0 \<or> txd = 0 \<or> length rxb < 16 \<or> length txb < 16" using enough by blast
    have pr: "pmm_inv p2" "pmm_inv p3" "pmm_inv p4" using r2 r3 r4 by blast+
    have "pmm_inv p' \<and> r = - 1 \<and> c' = (m, v)"
    proof (cases "rxd = 0 \<or> txd = 0")
      case True
      then show ?thesis using run pr(1) a1 a2 unfolding e1000_init_def by (simp add: Let_def)
    next
      case ok: False
      show ?thesis
      proof (cases "length rxb < 16")
        case True
        then show ?thesis using run ok pr(2) a1 a2 a3 unfolding e1000_init_def by (simp add: N Let_def)
      next
        case False
        then have "length txb < 16" using bad ok by blast
        then show ?thesis using run ok False pr(3) a1 a2 a3 a4 unfolding e1000_init_def by (simp add: N Let_def)
      qed
    qed
    then show ?thesis using False by simp
  qed
qed

section \<open>A card to run on\<close>

text \<open>Registers that hold what was written, and no traffic.\<close>

definition plain_card :: "(u32 \<Rightarrow> u32) nic_ops" where
  "plain_card = \<lparr>e1000_read = (\<lambda>r (m, v). (v r, m, v)), e1000_write = (\<lambda>r x (m, v). (m, v(r := x)))\<rparr>"

definition demo_nic :: e1000 where
  "demo_nic = \<lparr>gateway_mac = [0, 0, 0, 0, 0, 0], nic_mac = [0x52, 0x54, 0, 0x12, 0x34, 0x56], rx_desc_phys = 0x1000, tx_desc_phys = 0x2000,
     rx_buf_phys = map (\<lambda>i. of_nat (4096 * i)) [16..<32], tx_buf_phys = map (\<lambda>i. of_nat (4096 * i)) [32..<48],
     rx_cur = 0, tx_cur = 0\<rparr>"

definition demo_nic_mem :: mem where
  "demo_nic_mem = fill_ring 0x2000 (tx_buf_phys demo_nic) (fill_ring 0x1000 (rx_buf_phys demo_nic)
     (wr_bytes (wr_bytes (\<lambda>_. 0) 0x1000 (replicate 4096 0)) 0x2000 (replicate 4096 0)))"

lemma demo_nic_ok: "nic_ok demo_nic demo_nic_mem"
proof -
  have "\<forall>p \<in> set (nic_pages demo_nic). page_aligned p \<and> p \<noteq> 0"
    by (simp add: demo_nic_def nic_pages_def page_aligned_def upt_conv_Cons)
  moreover have "distinct (nic_pages demo_nic)" by (simp add: demo_nic_def nic_pages_def upt_conv_Cons)
  moreover have "length (rx_buf_phys demo_nic) = 16" "length (tx_buf_phys demo_nic) = 16" by (simp_all add: demo_nic_def)
  ultimately have "nic_ok (demo_nic\<lparr>rx_cur := 0, tx_cur := 0\<rparr>) demo_nic_mem"
    using init_rings [of demo_nic demo_nic_mem "\<lambda>_. 0"] by (simp add: demo_nic_mem_def) (simp add: demo_nic_def)
  moreover have "demo_nic\<lparr>rx_cur := 0, tx_cur := 0\<rparr> = demo_nic" by (simp add: demo_nic_def)
  ultimately show ?thesis by simp
qed

definition demo_pages :: pmm where
  "demo_pages = demo_pmm\<lparr>total_pages := 64\<rparr>"

lemma demo_pages_inv: "pmm_inv demo_pages \<and> pmm_room demo_pages = 63"
proof -
  have z: "bitmap_test (bitmap demo_pages) p \<longleftrightarrow> p = 0" if "p < 64" for p
  proof
    assume "bitmap_test (bitmap demo_pages) p"
    then have "drop_bit 3 p = 0" "unat p mod 8 = 0"
      using that by (auto simp: bitmap_test_bit demo_pages_def demo_pmm_def bit_1_iff word_less_nat_alt split: if_splits)
    moreover from this have "unat p div 8 = 0" using unat_drop_bit_eq [of 3 p] by (simp add: drop_bit_eq_div)
    ultimately have "unat p = 0" using div_mult_mod_eq [of "unat p" 8] by simp
    then show "p = 0" by (simp add: unat_eq_0)
  qed (simp add: bitmap_test_bit demo_pages_def demo_pmm_def)
  have "pmm_used demo_pages = {0}" using z by (auto simp: pmm_used_def) (simp_all add: demo_pages_def)
  then have "pmm_inv demo_pages"
    using z by (simp add: pmm_inv_def pmm_count_ok_def) (simp add: demo_pages_def demo_pmm_def)
  then show ?thesis by (simp add: pmm_room_def pmm_free_pages_def) (simp add: demo_pages_def demo_pmm_def)
qed

theorem e1000_init_correct_witness:
  "case e1000_init plain_card demo_pages (demo_nic, \<lambda>_. 0, \<lambda>_. 0) of (r, p, s, c) \<Rightarrow> r = 0 \<and> (\<exists>m. nic_ok s m)"
proof -
  obtain r p s c where run: "e1000_init plain_card demo_pages (demo_nic, \<lambda>_. 0, \<lambda>_. 0) = (r, p, s, c)" by (metis prod.collapse)
  then show ?thesis using e1000_init_correct [OF demo_pages_inv [THEN conjunct1] run] demo_pages_inv by auto
qed

text \<open>
  C23. \<open>e1000_send\<close> rejects an empty frame and one longer than a buffer.  On a driver whose rings are
  set up it copies the frame into the buffer of the current descriptor, stores its length and the
  end-of-packet command there and clears the status, changes nothing else in any page, moves on to
  the next of the 16 descriptors, keeps \<open>nic_ok\<close>, and only then rings the doorbell.
\<close>

theorem e1000_send_correct:
  assumes "nic_ok s m"
  shows "if length data = 0 \<or> 4096 < length data then e1000_send D data (s, m, v) = (- 1, s, m, v)
    else \<exists>m'. e1000_send D data (s, m, v) = (0, s\<lparr>tx_cur := (tx_cur s + 1) mod 16\<rparr>,
        e1000_write D E1000_TDT (of_nat ((tx_cur s + 1) mod 16)) (m', v)) \<and>
      sent s m data m' \<and> nic_ok (s\<lparr>tx_cur := (tx_cur s + 1) mod 16\<rparr>) m'"
proof (cases "length data = 0 \<or> 4096 < length data")
  case True
  then show ?thesis by (simp add: e1000_send_def)
next
  case False
  then show ?thesis using send_memory [OF assms, of data D v] by simp
qed

theorem e1000_send_correct_witness:
  "\<exists>m'. sent demo_nic demo_nic_mem [1, 2, 3] m' \<and>
    e1000_send plain_card [1, 2, 3] (demo_nic, demo_nic_mem, \<lambda>_. 0) = (0, demo_nic\<lparr>tx_cur := 1\<rparr>, m', (\<lambda>_. 0)(E1000_TDT := 1))"
  using e1000_send_correct [OF demo_nic_ok, of "[1, 2, 3]" plain_card "\<lambda>_. 0"]
  by (auto simp: plain_card_def) (auto simp: demo_nic_def)

section \<open>Receiving\<close>

text \<open>What the driver needs of the card: a register access never changes the buffer addresses in the rings.\<close>

definition card_ok :: "'v nic_ops \<Rightarrow> bool" where
  "card_ok D \<longleftrightarrow> (\<forall>s m v reg x. nic_ok s m \<longrightarrow>
     nic_ok s (fst (snd (e1000_read D reg (m, v)))) \<and> nic_ok s (fst (e1000_write D reg x (m, v))))"

lemma send_keeps:
  assumes "card_ok D" and "nic_ok s m" and "e1000_send D data (s, m, v) = (r, s', m', v')"
  shows "nic_ok s' m' \<and> r \<in> {0, - 1}"
proof (cases "length data = 0 \<or> length data > 4096")
  case True
  then show ?thesis using assms by (auto simp: e1000_send_def)
next
  case False
  then obtain m1 where "e1000_send D data (s, m, v) = (0, s\<lparr>tx_cur := (tx_cur s + 1) mod 16\<rparr>,
        e1000_write D E1000_TDT (of_nat ((tx_cur s + 1) mod 16)) (m1, v))" "nic_ok (s\<lparr>tx_cur := (tx_cur s + 1) mod 16\<rparr>) m1"
    using send_memory [OF assms(2), of data D v] by auto
  then show ?thesis using assms(1,3) unfolding card_ok_def by (metis fst_conv insertI1 prod.inject)
qed

lemma recv_memory:
  assumes ok: "nic_ok s m"
  defines "m' \<equiv> wr_bytes m (desc (rx_desc_phys s) (rx_cur s) + STATUS_AT) [0]"
  shows "rd64 m (desc (rx_desc_phys s) (rx_cur s)) = rx_buf_phys s ! rx_cur s"
    and "nic_ok (s\<lparr>rx_cur := (rx_cur s + 1) mod NUM_RX_DESC\<rparr>) m'"
    and "\<And>p i. page_aligned p \<Longrightarrow> i < 4096 \<Longrightarrow> m' (p + of_nat i) =
      (if p = rx_desc_phys s \<and> i = 16 * rx_cur s + 12 then 0 else m (p + of_nat i))"
proof -
  let ?r = "rx_desc_phys s" and ?t = "tx_desc_phys s" and ?c = "rx_cur s"
  have c: "?c < 16" "length (rx_buf_phys s) = 16" "length (tx_buf_phys s) = 16" and
    h: "ring_holds m ?t (tx_buf_phys s)" "ring_holds m ?r (rx_buf_phys s)"
    using ok by (simp_all add: nic_ok_def NUM_RX_DESC_def NUM_TX_DESC_def)
  note pg = nic_page(1,2,3) [OF ok]
  have at: "desc ?r ?c + STATUS_AT = ?r + of_nat (16 * ?c + 12)" by (simp add: desc_def STATUS_AT_def add.assoc)
  have b: "16 * ?c + 12 + length [0 :: u8] \<le> 4096" using c(1) by simp
  show "rd64 m (desc ?r ?c) = rx_buf_phys s ! ?c" using h(2) c by (simp add: ring_holds_def)
  show "m' (p + of_nat i) = (if p = ?r \<and> i = 16 * ?c + 12 then 0 else m (p + of_nat i))" if "page_aligned p" "i < 4096" for p i
    unfolding m'_def at wr_page [OF that(1) pg(1) that(2) b] by auto
  have "ring_holds m' ?r (rx_buf_phys s)"
    unfolding m'_def at using b c by (intro ring_wr h(2) pg disjI2 exI [of _ ?c] exI [of _ 12]) auto
  moreover have "ring_holds m' ?t (tx_buf_phys s)"
    unfolding m'_def at using b c pg by (intro ring_wr h(1) pg disjI1) auto
  ultimately show "nic_ok (s\<lparr>rx_cur := (?c + 1) mod NUM_RX_DESC\<rparr>) m'" using ok by (simp add: nic_ok_def nic_pages_def NUM_RX_DESC_def)
qed

text \<open>
  \<open>e1000_recv\<close> after the card has answered the read of its head register: with nothing received,
  or the current descriptor not done, it returns -1 and changes nothing.  Otherwise it returns the
  length the descriptor holds, cut to the caller's limit, and that many bytes of the descriptor's
  own buffer; it clears the one status byte and nothing else in any page, moves to the next of the
  16 descriptors, keeps \<open>nic_ok\<close>, and hands the slot back to the card.
\<close>

theorem e1000_recv_correct:
  assumes rd: "e1000_read D E1000_RDH (m0, v0) = (rdh, m, v)" and ok: "nic_ok s m"
  shows "let d = desc (rx_desc_phys s) (rx_cur s) in
    if rdh = of_nat (rx_cur s) \<or> m (d + STATUS_AT) AND 1 = 0 then e1000_recv D mx (s, m0, v0) = (- 1, [], s, m, v)
    else \<exists>m'. e1000_recv D mx (s, m0, v0) =
        (min mx (int (unat (rd16 m (d + LENGTH_AT)))),
         rd_bytes m (rx_buf_phys s ! rx_cur s) (nat (min mx (int (unat (rd16 m (d + LENGTH_AT)))))),
         s\<lparr>rx_cur := (rx_cur s + 1) mod 16\<rparr>, e1000_write D E1000_RDT (of_nat (rx_cur s)) (m', v)) \<and>
      nic_ok (s\<lparr>rx_cur := (rx_cur s + 1) mod 16\<rparr>) m' \<and>
      (\<forall>p i. page_aligned p \<longrightarrow> i < 4096 \<longrightarrow>
        m' (p + of_nat i) = (if p = rx_desc_phys s \<and> i = 16 * rx_cur s + 12 then 0 else m (p + of_nat i)))"
proof -
  have mn: "(if n > mx then mx else n) = min mx n" for n :: int by simp
  have N: "NUM_RX_DESC = 16" by (simp add: NUM_RX_DESC_def)
  show ?thesis
  proof (cases "rdh = of_nat (rx_cur s) \<or> m (desc (rx_desc_phys s) (rx_cur s) + STATUS_AT) AND 1 = 0")
    case True
    then show ?thesis by (auto simp: e1000_recv_def Let_def rd)
  next
    case False
    define m' where "m' = wr_bytes m (desc (rx_desc_phys s) (rx_cur s) + STATUS_AT) [0]"
    have "e1000_recv D mx (s, m0, v0) =
        (min mx (int (unat (rd16 m (desc (rx_desc_phys s) (rx_cur s) + LENGTH_AT)))),
         rd_bytes m (rx_buf_phys s ! rx_cur s) (nat (min mx (int (unat (rd16 m (desc (rx_desc_phys s) (rx_cur s) + LENGTH_AT)))))),
         s\<lparr>rx_cur := (rx_cur s + 1) mod 16\<rparr>, e1000_write D E1000_RDT (of_nat (rx_cur s)) (m', v))"
      using False unfolding e1000_recv_def Let_def prod.case rd mn recv_memory(1) [OF ok] N m'_def by auto
    moreover have "\<forall>p i. page_aligned p \<longrightarrow> i < 4096 \<longrightarrow>
        m' (p + of_nat i) = (if p = rx_desc_phys s \<and> i = 16 * rx_cur s + 12 then 0 else m (p + of_nat i))"
      using recv_memory(3) [OF ok] unfolding m'_def by blast
    ultimately show ?thesis
      using False recv_memory(2) [OF ok] unfolding Let_def N m'_def by (metis (no_types, lifting))
  qed
qed

theorem e1000_recv_correct_witness:
  "e1000_recv plain_card 2048 (demo_nic, demo_nic_mem, \<lambda>_. 0) = (- 1, [], demo_nic, demo_nic_mem, \<lambda>_. 0)"
proof -
  have rd: "e1000_read plain_card E1000_RDH (demo_nic_mem, \<lambda>_. 0) = (0, demo_nic_mem, \<lambda>_. 0)" by (simp add: plain_card_def)
  have "(0 :: u32) = of_nat (rx_cur demo_nic)" by (simp add: demo_nic_def)
  then show ?thesis using e1000_recv_correct [OF rd demo_nic_ok, of 2048] by (simp add: Let_def)
qed

lemma recv_keeps:
  assumes D: "card_ok D" and ok: "nic_ok s m0" and run: "e1000_recv D mx (s, m0, v0) = (n, got, s', m', v')"
  shows "nic_ok s' m' \<and> (n \<noteq> - 1 \<longrightarrow> n \<le> mx) \<and> (0 \<le> n \<longrightarrow> length got = nat n)"
proof -
  obtain rdh m v where rd: "e1000_read D E1000_RDH (m0, v0) = (rdh, m, v)" by (metis prod.collapse)
  have okm: "nic_ok s m" using D ok rd unfolding card_ok_def by (metis fst_conv snd_conv)
  note k = recv_memory(2) [OF okm]
  let ?d = "desc (rx_desc_phys s) (rx_cur s)"
  show ?thesis
  proof (cases "rdh = of_nat (rx_cur s) \<or> m (?d + STATUS_AT) AND 1 = 0")
    case True
    then have "e1000_recv D mx (s, m0, v0) = (- 1, [], s, m, v)" by (auto simp: e1000_recv_def Let_def rd)
    then show ?thesis using run okm by simp
  next
    case False
    define w where "w = wr_bytes m (?d + STATUS_AT) [0]"
    let ?s = "s\<lparr>rx_cur := (rx_cur s + 1) mod NUM_RX_DESC\<rparr>"
    have st: "(m', v') = e1000_write D E1000_RDT (of_nat (rx_cur s)) (w, v)" "s' = ?s" "n \<le> mx" "length got = nat n"
      using False run unfolding e1000_recv_def Let_def prod.case rd w_def by auto
    have "nic_ok ?s w" using k w_def by simp
    then show ?thesis using st D unfolding card_ok_def by (metis fst_conv)
  qed
qed

lemma poll_keeps:
  assumes D: "card_ok D" and "nic_ok s m" and "arp_poll D ip t (s, m, v) = (res, s', m', v')"
  shows "nic_ok s' m' \<and> (\<forall>mac. res = Some mac \<longrightarrow>
    (\<exists>frame. length frame \<le> 2048 \<and> is_arp_reply ip (int (length frame)) frame \<and> mac = take 6 (drop 22 frame)))"
  using assms(2,3)
proof (induction t arbitrary: s m v)
  case (Suc t)
  obtain n got s1 m1 v1 where r: "e1000_recv D 2048 (s, m, v) = (n, got, s1, m1, v1)" by (metis prod.collapse)
  note k = recv_keeps [OF D Suc.prems(1) r]
  show ?case
  proof (cases "is_arp_reply ip n got")
    case True
    then have "42 \<le> n" by (simp add: is_arp_reply_def)
    then have "length got = nat n" "n \<le> 2048" using k by auto
    then have "is_arp_reply ip (int (length got)) got" "length got \<le> 2048" using True \<open>42 \<le> n\<close> by auto
    moreover have "res = Some (take 6 (drop 22 got))" "s' = s1" "m' = m1" using True Suc.prems(2) r by auto
    ultimately show ?thesis using k by auto
  next
    case False
    then show ?thesis using Suc.IH [of s1 m1 v1] Suc.prems(2) k r by simp
  qed
qed simp

text \<open>
  \<open>arp_request\<close> on a driver whose rings are set up keeps them so, whatever frames come in and
  however often it polls.  It returns 0 only with the sender's hardware address of a received frame
  that really is an ARP reply (long enough, EtherType ARP, operation reply) from the asked address,
  and -1 otherwise, leaving the caller's buffer alone.
\<close>

theorem arp_request_correct:
  assumes D: "card_ok D" and ok: "nic_ok s m" and run: "arp_request D our_mac our_ip target (s, m, v) = (r, out_mac, s', m', v')"
  shows "nic_ok s' m' \<and>
    (r = 0 \<and> (\<exists>frame. length frame \<le> 2048 \<and> is_arp_reply target (int (length frame)) frame \<and> out_mac = take 6 (drop 22 frame)) \<or>
     r = - 1 \<and> out_mac = [])"
proof -
  obtain q s1 m1 v1 where snd: "e1000_send D (arp_packet our_mac our_ip target) (s, m, v) = (q, s1, m1, v1)" by (metis prod.collapse)
  note k = send_keeps [OF D ok snd]
  obtain res s2 m2 v2 where poll: "arp_poll D target 1000000 (s1, m1, v1) = (res, s2, m2, v2)" by (metis prod.collapse)
  note p = poll_keeps [OF D k [THEN conjunct1] poll]
  show ?thesis
  proof (cases "q < 0")
    case True
    then show ?thesis using run snd k by (simp add: arp_request_def)
  next
    case False
    then show ?thesis using run snd poll p by (cases res) (simp_all add: arp_request_def)
  qed
qed

theorem arp_request_correct_witness:
  "case arp_request plain_card (nic_mac demo_nic) 0x0A00020F 0x0A000202 (demo_nic, demo_nic_mem, \<lambda>_. 0) of
     (r, out_mac, s, m, v) \<Rightarrow> nic_ok s m \<and> (r = 0 \<or> r = - 1)"
proof -
  have D: "card_ok plain_card" by (simp add: card_ok_def plain_card_def)
  obtain r out_mac s m v where run:
    "arp_request plain_card (nic_mac demo_nic) 0x0A00020F 0x0A000202 (demo_nic, demo_nic_mem, \<lambda>_. 0) = (r, out_mac, s, m, v)"
    by (metis prod.collapse)
  show ?thesis using arp_request_correct [OF D demo_nic_ok run] unfolding run prod.case by blast
qed

end
