(* ===== verification/Framebuffer.thy ===== *)
theory Framebuffer
  imports Vmm "HOL-Library.Signed_Division"
begin

text \<open>
  The linear framebuffer, \<open>kernel/drivers/fb.c\<close>, and the mouse pointer drawn on it,
  \<open>fb_cursor.c\<close>.  The pixels live in the byte memory at the address of \<open>fb_info_t\<close>
  (record \<open>fb_info\<close>, declared with the virtual memory that skips the framebuffer when it
  clones).  Coordinates are C ints, kept as integers.  Every drawing routine is a list of
  clipped pixel stores, \<open>paint\<close>; the lemmas say which bytes it changes, and the invariant of
  the pointer says that hiding it restores the memory below byte for byte.
\<close>

section \<open>Pixels\<close>

definition channel :: "u8 \<Rightarrow> u8 \<Rightarrow> u8 \<Rightarrow> u32" where
  "channel v sz pos = push_bit (unat pos) (drop_bit (nat (8 - int (unat sz))) (ucast v))"

definition fb_rgb :: "fb_info \<Rightarrow> u8 \<Rightarrow> u8 \<Rightarrow> u8 \<Rightarrow> u32" where
  "fb_rgb fbi r g b = channel r (fb_r_size fbi) (fb_r_pos fbi) OR channel g (fb_g_size fbi) (fb_g_pos fbi) OR
     channel b (fb_b_size fbi) (fb_b_pos fbi)"

definition in_screen :: "fb_info \<Rightarrow> int \<Rightarrow> int \<Rightarrow> bool" where
  "in_screen fbi x y \<longleftrightarrow> \<not> (x < 0 \<or> y < 0 \<or> fb_width fbi \<le> of_int x \<or> fb_height fbi \<le> of_int y)"

definition pixel_addr :: "fb_info \<Rightarrow> int \<Rightarrow> int \<Rightarrow> u64" where
  "pixel_addr fbi x y = fb_addr fbi + of_int y * ucast (fb_pitch fbi) + of_int x * of_nat (unat (fb_bpp fbi) div 8)"

definition fb_putpixel :: "fb_info \<Rightarrow> int \<Rightarrow> int \<Rightarrow> u32 \<Rightarrow> mem \<Rightarrow> mem" where
  "fb_putpixel fbi x y color m = (if in_screen fbi x y then wr_bytes m (pixel_addr fbi x y) (le_bytes 4 color) else m)"

definition fb_fill_rect :: "fb_info \<Rightarrow> int \<Rightarrow> int \<Rightarrow> int \<Rightarrow> int \<Rightarrow> u32 \<Rightarrow> mem \<Rightarrow> mem" where
  "fb_fill_rect fbi x y w h color m =
     fold (\<lambda>j m. fold (\<lambda>i m. fb_putpixel fbi (x + int i) (y + int j) color m) [0..<nat w] m) [0..<nat h] m"

definition fb_clear :: "fb_info \<Rightarrow> u32 \<Rightarrow> mem \<Rightarrow> mem" where
  "fb_clear fbi color m = fb_fill_rect fbi 0 0 (sint (fb_width fbi)) (sint (fb_height fbi)) color m"

section \<open>Initialisation\<close>

text \<open>The framebuffer tag at \<open>p\<close>; the colour layout is stored only for direct colour.\<close>

definition fb_tag :: "mem \<Rightarrow> u64 \<Rightarrow> fb_info \<Rightarrow> fb_info" where
  "fb_tag m p fbi =
     (let fbi = fbi\<lparr>fb_addr := rd64 m (p + 8), fb_pitch := rd32 m (p + 16), fb_width := rd32 m (p + 20),
            fb_height := rd32 m (p + 24), fb_bpp := m (p + 28)\<rparr> in
      if m (p + 29) = 1 then
        fbi\<lparr>fb_r_pos := m (p + 32), fb_r_size := m (p + 33), fb_g_pos := m (p + 34), fb_g_size := m (p + 35),
          fb_b_pos := m (p + 36), fb_b_size := m (p + 37)\<rparr>
      else fbi)"

partial_function (option) fb_tags :: "mem \<Rightarrow> u64 \<Rightarrow> u64 \<Rightarrow> fb_info \<Rightarrow> fb_info option" where
  "fb_tags m p e fbi =
     (if p < e \<and> mb_type m p \<noteq> 0 then fb_tags m (mb_next m p) e (if mb_type m p = 8 then fb_tag m p fbi else fbi)
      else Some fbi)"

definition fb_pages :: "fb_info \<Rightarrow> u64 list" where
  "fb_pages fbi =
     (let fb_size = ucast (fb_pitch fbi) * ucast (fb_height fbi) in
      page_range (fb_addr fbi AND NOT 0xFFF) ((fb_addr fbi + fb_size + 0xFFF) AND NOT 0xFFF))"

definition fb_init :: "u32 \<Rightarrow> fb_info \<Rightarrow> vmm \<Rightarrow> (fb_info \<times> vmm) option" where
  "fb_init mb_info_phys fbi st =
     (let mb = ucast mb_info_phys in
      case fb_tags (vmem st) (mb + 8) (mb + ucast (rd32 (vmem st) mb)) fbi of
        None \<Rightarrow> None
      | Some fbi \<Rightarrow>
          if fb_addr fbi = 0 then Some (fbi, st)
          else Some (fbi, fold (\<lambda>va st. vmm_map va va VMM_WRITABLE st) (fb_pages fbi) st))"

section \<open>The pointer\<close>

definition CUR_W :: nat where "CUR_W = 12"
definition CUR_H :: nat where "CUR_H = 19"

definition cursor_bmp :: "nat list list" where
  "cursor_bmp =
    [[1,0,0,0,0,0,0,0,0,0,0,0],
     [1,1,0,0,0,0,0,0,0,0,0,0],
     [1,2,1,0,0,0,0,0,0,0,0,0],
     [1,2,2,1,0,0,0,0,0,0,0,0],
     [1,2,2,2,1,0,0,0,0,0,0,0],
     [1,2,2,2,2,1,0,0,0,0,0,0],
     [1,2,2,2,2,2,1,0,0,0,0,0],
     [1,2,2,2,2,2,2,1,0,0,0,0],
     [1,2,2,2,2,2,2,2,1,0,0,0],
     [1,2,2,2,2,2,2,2,2,1,0,0],
     [1,2,2,2,2,2,1,1,1,1,1,0],
     [1,2,2,2,1,2,2,1,0,0,0,0],
     [1,2,2,1,1,2,2,1,0,0,0,0],
     [1,2,1,0,1,2,2,1,0,0,0,0],
     [1,1,0,0,0,1,2,2,1,0,0,0],
     [1,0,0,0,0,1,2,2,1,0,0,0],
     [0,0,0,0,0,0,1,2,2,1,0,0],
     [0,0,0,0,0,0,1,2,2,1,0,0],
     [0,0,0,0,0,0,0,1,1,0,0,0]]"

record cursor =
  cur_x :: int
  cur_y :: int
  cur_visible :: bool
  cur_saved :: "u32 list list"

text \<open>The double loop \<open>for j < CUR_H, for i < CUR_W\<close>.\<close>

definition cur_loop :: "(nat \<Rightarrow> nat \<Rightarrow> mem \<Rightarrow> mem) \<Rightarrow> mem \<Rightarrow> mem" where
  "cur_loop f m = fold (\<lambda>j m. fold (\<lambda>i m. f j i m) [0..<CUR_W] m) [0..<CUR_H] m"

definition save_under :: "fb_info \<Rightarrow> cursor \<Rightarrow> mem \<Rightarrow> cursor" where
  "save_under fbi c m =
     c\<lparr>cur_saved := map (\<lambda>j. map (\<lambda>i.
         let x = cur_x c + int i; y = cur_y c + int j in
         if in_screen fbi x y then rd32 m (pixel_addr fbi x y) else 0) [0..<CUR_W]) [0..<CUR_H]\<rparr>"

definition restore_under :: "fb_info \<Rightarrow> cursor \<Rightarrow> mem \<Rightarrow> mem" where
  "restore_under fbi c m =
     cur_loop (\<lambda>j i m.
         let x = cur_x c + int i; y = cur_y c + int j in
         if in_screen fbi x y then wr_bytes m (pixel_addr fbi x y) (le_bytes 4 (cur_saved c ! j ! i)) else m) m"

definition draw_cursor :: "fb_info \<Rightarrow> cursor \<Rightarrow> mem \<Rightarrow> cursor \<times> mem" where
  "draw_cursor fbi c m =
     (c\<lparr>cur_visible := True\<rparr>,
      cur_loop (\<lambda>j i m.
         let x = cur_x c + int i; y = cur_y c + int j; v = cursor_bmp ! j ! i in
         if \<not> in_screen fbi x y then m
         else if v = 0 then m
         else fb_putpixel fbi x y (if v = 1 then fb_rgb fbi 0 0 0 else fb_rgb fbi 255 255 255) m) m)"

definition fb_cursor_init :: "fb_info \<Rightarrow> cursor \<Rightarrow> mem \<Rightarrow> cursor \<times> mem" where
  "fb_cursor_init fbi c m =
     (let c = c\<lparr>cur_x := sint (fb_width fbi) sdiv 2, cur_y := sint (fb_height fbi) sdiv 2\<rparr>
      in draw_cursor fbi (save_under fbi c m) m)"

definition fb_cursor_hide :: "fb_info \<Rightarrow> cursor \<Rightarrow> mem \<Rightarrow> cursor \<times> mem" where
  "fb_cursor_hide fbi c m =
     (if cur_visible c then (c\<lparr>cur_visible := False\<rparr>, restore_under fbi c m) else (c, m))"

definition fb_cursor_show :: "fb_info \<Rightarrow> cursor \<Rightarrow> mem \<Rightarrow> cursor \<times> mem" where
  "fb_cursor_show fbi c m = (if cur_visible c then (c, m) else draw_cursor fbi (save_under fbi c m) m)"

text \<open>The four clamps of \<open>fb_cursor_move\<close>, in their order.\<close>

definition clamp_pos :: "fb_info \<Rightarrow> cursor \<Rightarrow> cursor" where
  "clamp_pos fbi c =
     (let c = (if cur_x c < 0 then c\<lparr>cur_x := 0\<rparr> else c);
          c = (if cur_y c < 0 then c\<lparr>cur_y := 0\<rparr> else c);
          c = (if sint (fb_width fbi) - int CUR_W < cur_x c then c\<lparr>cur_x := sint (fb_width fbi) - int CUR_W\<rparr> else c)
      in if sint (fb_height fbi) - int CUR_H < cur_y c then c\<lparr>cur_y := sint (fb_height fbi) - int CUR_H\<rparr> else c)"

definition fb_cursor_move :: "fb_info \<Rightarrow> int \<Rightarrow> int \<Rightarrow> cursor \<Rightarrow> mem \<Rightarrow> cursor \<times> mem" where
  "fb_cursor_move fbi dx dy c m =
     (let (c, m) = (if cur_visible c then (c\<lparr>cur_visible := False\<rparr>, restore_under fbi c m) else (c, m));
          c = clamp_pos fbi (c\<lparr>cur_x := cur_x c + dx, cur_y := cur_y c + dy\<rparr>)
      in draw_cursor fbi (save_under fbi c m) m)"

definition fb_cursor_get_pos :: "cursor \<Rightarrow> int \<times> int" where
  "fb_cursor_get_pos c = (cur_x c, cur_y c)"

section \<open>Painting\<close>

text \<open>A drawing routine is a list of clipped pixel stores.\<close>

definition paint :: "fb_info \<Rightarrow> (int \<times> int \<times> u32) list \<Rightarrow> mem \<Rightarrow> mem" where
  "paint fbi ps m = fold (\<lambda>(x, y, c) m. fb_putpixel fbi x y c m) ps m"

lemma paint_simps [simp]:
  "paint fbi [] m = m"
  "paint fbi ((x, y, c) # ps) m = paint fbi ps (fb_putpixel fbi x y c m)"
  "paint fbi (ps @ qs) m = paint fbi qs (paint fbi ps m)"
  by (simp_all add: paint_def)

lemma fold_paint: "fold (\<lambda>x. paint fbi (f x)) xs m = paint fbi (concat (map f xs)) m"
  by (induction xs arbitrary: m) simp_all

lemma paint_map: "fold (\<lambda>x. fb_putpixel fbi (f x) (g x) (h x)) xs m = paint fbi (map (\<lambda>x. (f x, g x, h x)) xs) m"
  by (induction xs arbitrary: m) simp_all

lemma paint_filter:
  "fold (\<lambda>x m. if P x then fb_putpixel fbi (f x) (g x) (h x) m else m) xs m =
     paint fbi (map (\<lambda>x. (f x, g x, h x)) (filter P xs)) m"
  by (induction xs arbitrary: m) simp_all

text \<open>
  A mode the drawing code is written for: 32 bits per pixel, rows that hold the width, and a
  buffer that does not wrap around the address space.
\<close>

definition fb_ok :: "fb_info \<Rightarrow> bool" where
  "fb_ok fbi \<longleftrightarrow> fb_bpp fbi = 32 \<and> 4 * unat (fb_width fbi) \<le> unat (fb_pitch fbi) \<and>
     unat (fb_addr fbi) + unat (fb_pitch fbi) * unat (fb_height fbi) < 2 ^ 64 \<and>
     unat (fb_width fbi) < 2 ^ 31 \<and> unat (fb_height fbi) < 2 ^ 31"

definition small :: "int \<Rightarrow> bool" where
  "small x \<longleftrightarrow> - (2 ^ 31) \<le> x \<and> x < 2 ^ 31"

lemma unat_of_int_32: "0 \<le> x \<Longrightarrow> x < 2 ^ 31 \<Longrightarrow> unat (of_int x :: u32) = nat x"
  by (simp add: unat_eq_nat_uint uint_word_of_int_eq take_bit_int_eq_self)

text \<open>The pixels of the screen.\<close>

definition on_screen :: "fb_info \<Rightarrow> int \<Rightarrow> int \<Rightarrow> bool" where
  "on_screen fbi x y \<longleftrightarrow> 0 \<le> x \<and> 0 \<le> y \<and> nat x < unat (fb_width fbi) \<and> nat y < unat (fb_height fbi)"

lemma in_screen_iff:
  assumes "small x" "small y"
  shows "in_screen fbi x y = on_screen fbi x y"
proof -
  have "fb_width fbi \<le> of_int x \<longleftrightarrow> unat (fb_width fbi) \<le> nat x" if "0 \<le> x"
    using that assms(1) by (simp add: word_le_nat_alt unat_of_int_32 small_def)
  moreover have "fb_height fbi \<le> of_int y \<longleftrightarrow> unat (fb_height fbi) \<le> nat y" if "0 \<le> y"
    using that assms(2) by (simp add: word_le_nat_alt unat_of_int_32 small_def)
  ultimately show ?thesis unfolding in_screen_def on_screen_def by (meson linorder_not_le)
qed

text \<open>The place of a pixel in memory.\<close>

definition place :: "fb_info \<Rightarrow> int \<Rightarrow> int \<Rightarrow> nat" where
  "place fbi x y = unat (fb_addr fbi) + nat y * unat (fb_pitch fbi) + 4 * nat x"

lemma place_bound:
  assumes "fb_ok fbi" and "on_screen fbi x y"
  shows "place fbi x y + 4 \<le> unat (fb_addr fbi) + (nat y + 1) * unat (fb_pitch fbi)"
    and "(nat y + 1) * unat (fb_pitch fbi) \<le> unat (fb_pitch fbi) * unat (fb_height fbi)"
proof -
  have w: "4 * unat (fb_width fbi) \<le> unat (fb_pitch fbi)" "nat x < unat (fb_width fbi)" "nat y < unat (fb_height fbi)"
    using assms by (auto simp only: fb_ok_def on_screen_def)
  then have "4 * nat x + 4 \<le> unat (fb_pitch fbi)" by linarith
  then show "place fbi x y + 4 \<le> unat (fb_addr fbi) + (nat y + 1) * unat (fb_pitch fbi)" by (simp add: place_def algebra_simps)
  have "nat y + 1 \<le> unat (fb_height fbi)" using w(3) by linarith
  then have "(nat y + 1) * unat (fb_pitch fbi) \<le> unat (fb_height fbi) * unat (fb_pitch fbi)" by (rule mult_le_mono1)
  then show "(nat y + 1) * unat (fb_pitch fbi) \<le> unat (fb_pitch fbi) * unat (fb_height fbi)" by (simp add: mult.commute)
qed

lemma pixel_addr_place:
  assumes ok: "fb_ok fbi" and s: "on_screen fbi x y"
  shows "unat (pixel_addr fbi x y) = place fbi x y" and "place fbi x y + 4 < 2 ^ 64"
proof -
  note b = place_bound [OF assms]
  have "unat (fb_addr fbi) + unat (fb_pitch fbi) * unat (fb_height fbi) < 2 ^ 64" using ok by (simp only: fb_ok_def)
  then show lim: "place fbi x y + 4 < 2 ^ 64" using b by linarith
  have y: "(of_int y :: u64) = of_nat (nat y)" "(of_int x :: u64) = of_nat (nat x)" using s by (simp_all add: on_screen_def)
  have p: "(ucast (fb_pitch fbi) :: u64) = of_nat (unat (fb_pitch fbi))" "fb_addr fbi = of_nat (unat (fb_addr fbi))" by simp_all
  have four: "unat (fb_bpp fbi) div 8 = 4" using ok by (simp add: fb_ok_def)
  have "pixel_addr fbi x y = of_nat (place fbi x y)"
    unfolding pixel_addr_def four y place_def of_nat_add of_nat_mult p(1) by simp
  then show "unat (pixel_addr fbi x y) = place fbi x y" using lim by (simp add: unat_of_nat_64)
qed

text \<open>Distinct pixels lie apart.\<close>

lemma place_apart:
  assumes ok: "fb_ok fbi" and p: "on_screen fbi x y" and q: "on_screen fbi x' y'" and ne: "(x, y) \<noteq> (x', y')"
  shows "place fbi x y + 4 \<le> place fbi x' y' \<or> place fbi x' y' + 4 \<le> place fbi x y"
proof -
  let ?P = "unat (fb_pitch fbi)" and ?A = "unat (fb_addr fbi)"
  have low: "?A + nat v * ?P \<le> place fbi u v" for u v by (simp add: place_def)
  have row: "(a + 1) * ?P \<le> b * ?P" if "a < b" for a b using that by (intro mult_le_mono1) simp
  consider "nat y < nat y'" | "nat y' < nat y" | "nat y = nat y'" by linarith
  then show ?thesis
  proof cases
    case 1
    then show ?thesis using place_bound(1) [OF ok p] row [OF 1] low [of y' x'] by linarith
  next
    case 2
    then show ?thesis using place_bound(1) [OF ok q] row [OF 2] low [of y x] by linarith
  next
    case 3
    then have "nat x \<noteq> nat x'" using p q ne by (auto simp: on_screen_def)
    then show ?thesis using 3 by (simp add: place_def) linarith
  qed
qed

text \<open>The offset of a byte in a pixel, if it lies there.\<close>

definition in_pixel :: "fb_info \<Rightarrow> int \<Rightarrow> int \<Rightarrow> u64 \<Rightarrow> bool" where
  "in_pixel fbi x y a \<longleftrightarrow> on_screen fbi x y \<and> place fbi x y \<le> unat a \<and> unat a < place fbi x y + 4"

definition pixel_byte :: "fb_info \<Rightarrow> int \<Rightarrow> int \<Rightarrow> u32 \<Rightarrow> u64 \<Rightarrow> u8" where
  "pixel_byte fbi x y c a = le_bytes 4 c ! (unat a - place fbi x y)"

lemma in_pixel_unique:
  assumes "fb_ok fbi" and "in_pixel fbi x y a" and "in_pixel fbi x' y' a"
  shows "x = x'" and "y = y'"
  using place_apart [of fbi x y x' y'] assms by (auto simp: in_pixel_def)

lemma putpixel_apply:
  assumes ok: "fb_ok fbi" and s: "small x" "small y"
  shows "fb_putpixel fbi x y c m a = (if in_pixel fbi x y a then pixel_byte fbi x y c a else m a)"
proof (cases "on_screen fbi x y")
  case True
  note p = pixel_addr_place [OF ok True]
  have "unat (a - pixel_addr fbi x y) = (if place fbi x y \<le> unat a then unat a - place fbi x y else unat a + 2 ^ 64 - place fbi x y)"
    unfolding unat_sub_if' p(1) by simp
  then have e: "unat (a - pixel_addr fbi x y) < 4 \<longleftrightarrow> in_pixel fbi x y a"
    "in_pixel fbi x y a \<Longrightarrow> unat (a - pixel_addr fbi x y) = unat a - place fbi x y"
    using True p(2) by (auto simp: in_pixel_def)
  have "wr_bytes m (pixel_addr fbi x y) (le_bytes 4 c) a =
      (if unat (a - pixel_addr fbi x y) < 4 then le_bytes 4 c ! unat (a - pixel_addr fbi x y) else m a)"
    using wr_bytes_apply [of "le_bytes 4 c" m "pixel_addr fbi x y" a] by simp
  then show ?thesis using True e unfolding fb_putpixel_def in_screen_iff [OF s] pixel_byte_def by simp
qed (simp add: fb_putpixel_def in_screen_iff [OF s] in_pixel_def)

text \<open>
  What a list of pixel stores does to a byte: it takes the byte of the pixel it lies in, when that
  pixel is painted, and stays as it was otherwise.
\<close>

definition paint_ok :: "(int \<times> int \<times> u32) list \<Rightarrow> bool" where
  "paint_ok ps \<longleftrightarrow> (\<forall>x y c. (x, y, c) \<in> set ps \<longrightarrow> small x \<and> small y \<and> (\<forall>c'. (x, y, c') \<in> set ps \<longrightarrow> c' = c))"

lemma paint_ok_Cons: "paint_ok (p # ps) \<Longrightarrow> paint_ok ps"
  unfolding paint_ok_def by (meson list.set_intros(2))

lemma paint_ok_small: "paint_ok ((u, v, d) # ps) \<Longrightarrow> small u \<and> small v"
  unfolding paint_ok_def by (meson list.set_intros(1))

lemma paint_ok_unique: "paint_ok ps \<Longrightarrow> (x, y, c) \<in> set ps \<Longrightarrow> (x, y, c') \<in> set ps \<Longrightarrow> c' = c"
  unfolding paint_ok_def by blast

lemma paint_apply:
  assumes ok: "fb_ok fbi" and ps: "paint_ok ps"
  shows "(x, y, c) \<in> set ps \<Longrightarrow> in_pixel fbi x y a \<Longrightarrow> paint fbi ps m a = pixel_byte fbi x y c a"
    and "(\<And>x y c. (x, y, c) \<in> set ps \<Longrightarrow> \<not> in_pixel fbi x y a) \<Longrightarrow> paint fbi ps m a = m a"
proof -
  have "((x, y, c) \<in> set ps \<longrightarrow> in_pixel fbi x y a \<longrightarrow> paint fbi ps m a = pixel_byte fbi x y c a) \<and>
      ((\<forall>x y c. (x, y, c) \<in> set ps \<longrightarrow> \<not> in_pixel fbi x y a) \<longrightarrow> paint fbi ps m a = m a)"
    using ps
  proof (induction ps arbitrary: m)
    case (Cons p ps)
    obtain u v d where p: "p = (u, v, d)" by (cases p)
    have sm: "small u" "small v" using paint_ok_small Cons.prems unfolding p by blast+
    note IH = Cons.IH [OF paint_ok_Cons [OF Cons.prems], of "fb_putpixel fbi u v d m"]
    note put = putpixel_apply [OF ok sm, of d m a]
    have "paint fbi (p # ps) m a = pixel_byte fbi x y c a" if i: "(x, y, c) \<in> set (p # ps)" "in_pixel fbi x y a"
    proof (cases "\<exists>x' y' c'. (x', y', c') \<in> set ps \<and> in_pixel fbi x' y' a")
      case True
      then obtain x' y' c' where q: "(x', y', c') \<in> set ps" "in_pixel fbi x' y' a" by blast
      then have "x' = x" "y' = y" using in_pixel_unique [OF ok q(2) i(2)] by simp_all
      moreover from this have "c' = c"
        using paint_ok_unique [OF Cons.prems i(1)] q(1) by (meson list.set_intros(2))
      ultimately have "(x, y, c) \<in> set ps" using q(1) by simp
      then show ?thesis using IH i(2) by (simp add: p)
    next
      case False
      then have none: "\<forall>x y c. (x, y, c) \<in> set ps \<longrightarrow> \<not> in_pixel fbi x y a" by blast
      then have "(x, y, c) = (u, v, d)" using i by (auto simp: p)
      then show ?thesis using IH none put i(2) by (simp add: p)
    qed
    moreover have "paint fbi (p # ps) m a = m a" if "\<forall>x y c. (x, y, c) \<in> set (p # ps) \<longrightarrow> \<not> in_pixel fbi x y a"
      using that IH put by (simp add: p)
    ultimately show ?case by blast
  qed simp
  then show "(x, y, c) \<in> set ps \<Longrightarrow> in_pixel fbi x y a \<Longrightarrow> paint fbi ps m a = pixel_byte fbi x y c a"
    and "(\<And>x y c. (x, y, c) \<in> set ps \<Longrightarrow> \<not> in_pixel fbi x y a) \<Longrightarrow> paint fbi ps m a = m a"
    by blast+
qed

text \<open>The colour of a pixel.\<close>

definition pixel :: "fb_info \<Rightarrow> mem \<Rightarrow> int \<Rightarrow> int \<Rightarrow> u32" where
  "pixel fbi m x y = rd32 m (pixel_addr fbi x y)"

lemma pixel_addr_byte:
  assumes ok: "fb_ok fbi" and s: "on_screen fbi x y" and i: "i < 4"
  shows "unat (pixel_addr fbi x y + of_nat i) = place fbi x y + i" and "in_pixel fbi x y (pixel_addr fbi x y + of_nat i)"
proof -
  note p = pixel_addr_place [OF ok s]
  have "unat (of_nat i :: u64) = i" using i by (simp add: unat_of_nat_64)
  then show u: "unat (pixel_addr fbi x y + of_nat i) = place fbi x y + i"
    using p i by (subst unat_plus_small) simp_all
  show "in_pixel fbi x y (pixel_addr fbi x y + of_nat i)" unfolding in_pixel_def u using s i by simp
qed

lemma pixel_eqI:
  assumes ok: "fb_ok fbi" and s: "on_screen fbi x y" and b: "\<And>a. in_pixel fbi x y a \<Longrightarrow> m a = pixel_byte fbi x y c a"
  shows "pixel fbi m x y = c"
proof -
  have "rd_bytes m (pixel_addr fbi x y) 4 = le_bytes 4 c"
  proof (rule nth_equalityI)
    fix i assume "i < length (rd_bytes m (pixel_addr fbi x y) 4)"
    then have i: "i < 4" by simp
    show "rd_bytes m (pixel_addr fbi x y) 4 ! i = le_bytes 4 c ! i"
      using b [OF pixel_addr_byte(2) [OF ok s i]] i pixel_addr_byte(1) [OF ok s i] by (simp add: pixel_byte_def)
  qed simp
  then show ?thesis by (simp add: pixel_def rd32_def le_word_bytes_all)
qed

lemma pixel_cong:
  assumes ok: "fb_ok fbi" and s: "on_screen fbi x y" and b: "\<And>a. in_pixel fbi x y a \<Longrightarrow> m a = m' a"
  shows "pixel fbi m x y = pixel fbi m' x y"
proof -
  have "rd_bytes m (pixel_addr fbi x y) 4 = rd_bytes m' (pixel_addr fbi x y) 4"
    by (rule nth_equalityI) (simp_all add: b pixel_addr_byte(2) [OF ok s])
  then show ?thesis by (simp add: pixel_def rd32_def)
qed

text \<open>The bytes of a pixel are those of its colour.\<close>

lemma bit_le_word:
  "bit (le_word bs :: 'a::len word) n \<longleftrightarrow> n < LENGTH('a) \<and> n < 8 * length bs \<and> bit (bs ! (n div 8)) (n mod 8)"
proof (induction bs arbitrary: n)
  case (Cons b bs)
  show ?case
  proof (cases "n < 8")
    case True
    then show ?thesis by (auto simp: bit_simps)
  next
    case False
    then obtain k where k: "n = 8 + k" using le_iff_add [of 8 n] by auto
    then have "\<not> bit b n" using bit_imp_le_length [of b n] by auto
    moreover have "(8 + k) div 8 - Suc 0 = k div 8" by simp
    ultimately show ?thesis using Cons.IH [of k] by (auto simp: bit_simps k nth_Cons')
  qed
qed simp

lemma le_bytes_word: "length bs = n \<Longrightarrow> 8 * n \<le> LENGTH('a) \<Longrightarrow> le_bytes n (le_word bs :: 'a::len word) = bs"
  by (rule nth_equalityI) (auto simp: nth_le_bytes intro!: bit_word_eqI simp: bit_simps bit_le_word)

lemma pixel_byte_pixel:
  assumes ok: "fb_ok fbi" and a: "in_pixel fbi x y a"
  shows "pixel_byte fbi x y (pixel fbi m x y) a = m a"
proof -
  have s: "on_screen fbi x y" using a by (simp add: in_pixel_def)
  define i where "i = unat a - place fbi x y"
  have i: "i < 4" "unat a = place fbi x y + i" using a by (auto simp: in_pixel_def i_def)
  then have e: "pixel_addr fbi x y + of_nat i = a" using pixel_addr_byte(1) [OF ok s i(1)] by (intro unat_eqI) simp
  have "le_bytes 4 (pixel fbi m x y) = rd_bytes m (pixel_addr fbi x y) 4" by (simp add: pixel_def rd32_def le_bytes_word)
  then show ?thesis using i(1) e by (simp add: pixel_byte_def flip: i_def)
qed

section \<open>Rectangles\<close>

definition grid :: "nat \<Rightarrow> nat \<Rightarrow> (nat \<Rightarrow> nat \<Rightarrow> 'a) \<Rightarrow> 'a list" where
  "grid h w f = concat (map (\<lambda>j. map (\<lambda>i. f j i) [0..<w]) [0..<h])"

lemma set_grid: "set (grid h w f) = {f j i | j i. j < h \<and> i < w}"
  by (auto simp: grid_def) blast

lemma fold_grid: "fold (\<lambda>j m. fold (\<lambda>i m. g j i m) [0..<w] m) [0..<h] m = fold (\<lambda>(j, i) m. g j i m) (grid h w Pair) m"
proof -
  have "fold (\<lambda>j m. fold (\<lambda>i m. g j i m) [0..<w] m) xs m = fold (\<lambda>(j, i) m. g j i m) (concat (map (\<lambda>j. map (Pair j) [0..<w]) xs)) m" for xs
    by (induction xs arbitrary: m) (simp_all add: fold_map comp_def)
  then show ?thesis by (simp add: grid_def)
qed

definition cells :: "int \<Rightarrow> int \<Rightarrow> nat \<Rightarrow> nat \<Rightarrow> (nat \<Rightarrow> nat \<Rightarrow> bool) \<Rightarrow> (nat \<Rightarrow> nat \<Rightarrow> u32) \<Rightarrow> (int \<times> int \<times> u32) list" where
  "cells x y h w P c = map (\<lambda>(j, i). (x + int i, y + int j, c j i)) (filter (\<lambda>(j, i). P j i) (grid h w Pair))"

text \<open>A double loop that paints cell \<open>(i, j)\<close> at an offset, where its body chooses to.\<close>

lemma paint_grid:
  assumes "\<And>j i m. j < h \<Longrightarrow> i < w \<Longrightarrow> g j i m = (if P j i then fb_putpixel fbi (x + int i) (y + int j) (c j i) m else m)"
  shows "fold (\<lambda>j m. fold (\<lambda>i m. g j i m) [0..<w] m) [0..<h] m =
    paint fbi (cells x y h w P c) m"
proof -
  have "fold (\<lambda>(j, i) m. g j i m) xs m =
      paint fbi (map (\<lambda>(j, i). (x + int i, y + int j, c j i)) (filter (\<lambda>(j, i). P j i) xs)) m"
    if "set xs \<subseteq> {(j, i). j < h \<and> i < w}" for xs
    using that by (induction xs arbitrary: m) (auto simp: assms)
  then show ?thesis unfolding fold_grid cells_def by (auto simp: set_grid)
qed

lemma paint_grid_ok:
  assumes "small x" "small y" "x + int w \<le> 2 ^ 31" "y + int h \<le> 2 ^ 31"
  shows "paint_ok (cells x y h w P c)"
proof -
  have "small (x + int i)" if "i < w" for i using assms(1,3) that by (simp add: small_def)
  moreover have "small (y + int j)" if "j < h" for j using assms(2,4) that by (simp add: small_def)
  ultimately show ?thesis unfolding paint_ok_def by (auto simp: cells_def set_grid)
qed

text \<open>Pixels after painting a grid of cells.\<close>

lemma paint_grid_pixel:
  assumes ok: "fb_ok fbi" and b: "small x" "small y" "x + int w \<le> 2 ^ 31" "y + int h \<le> 2 ^ 31" and s: "on_screen fbi u v"
  shows "pixel fbi (paint fbi (cells x y h w P c) m) u v =
    (if x \<le> u \<and> u < x + int w \<and> y \<le> v \<and> v < y + int h \<and> P (nat (v - y)) (nat (u - x))
     then c (nat (v - y)) (nat (u - x)) else pixel fbi m u v)"
proof -
  let ?ps = "cells x y h w P c"
  have pok: "paint_ok ?ps" by (rule paint_grid_ok [OF b])
  have mem: "(u, v, d) \<in> set ?ps \<longleftrightarrow> x \<le> u \<and> u < x + int w \<and> y \<le> v \<and> v < y + int h \<and> P (nat (v - y)) (nat (u - x)) \<and>
      d = c (nat (v - y)) (nat (u - x))" (is "_ \<longleftrightarrow> ?R") for d
  proof
    assume "(u, v, d) \<in> set ?ps"
    then show ?R by (auto simp: cells_def set_grid)
  next
    assume r: ?R
    then have "nat (v - y) < h" "nat (u - x) < w" "u = x + int (nat (u - x))" "v = y + int (nat (v - y))" by auto
    then show "(u, v, d) \<in> set ?ps" using r by (force simp: cells_def set_grid)
  qed
  show ?thesis
  proof (cases "(u, v, c (nat (v - y)) (nat (u - x))) \<in> set ?ps")
    case True
    then have "pixel fbi (paint fbi ?ps m) u v = c (nat (v - y)) (nat (u - x))"
      by (intro pixel_eqI [OF ok s] paint_apply(1) [OF ok pok])
    then show ?thesis using True unfolding mem by simp
  next
    case False
    then have none: "(u, v, d) \<notin> set ?ps" for d unfolding mem by blast
    have "pixel fbi (paint fbi ?ps m) u v = pixel fbi m u v"
      by (intro pixel_cong [OF ok s] paint_apply(2) [OF ok pok]) (metis in_pixel_unique [OF ok] none)
    then show ?thesis using False unfolding mem by (simp only: simp_thms if_False)
  qed
qed

text \<open>Bytes outside the screen's pixels are never painted.\<close>

definition off_screen :: "fb_info \<Rightarrow> u64 \<Rightarrow> bool" where
  "off_screen fbi a \<longleftrightarrow> (\<forall>x y. \<not> in_pixel fbi x y a)"

lemma paint_off: "fb_ok fbi \<Longrightarrow> paint_ok ps \<Longrightarrow> off_screen fbi a \<Longrightarrow> paint fbi ps m a = m a"
  by (intro paint_apply(2)) (auto simp: off_screen_def)

text \<open>
  \<open>fb_fill_rect\<close> clips: on a 32-bit mode it gives every screen pixel inside the rectangle the
  colour and leaves every other pixel and every byte outside the visible pixels alone, wherever
  the rectangle lies, partly or wholly off the screen or empty.
\<close>

theorem fb_fill_rect_correct:
  assumes "fb_ok fbi" and "small x" "small y" "x + w \<le> 2 ^ 31" "y + h \<le> 2 ^ 31" "x \<le> 2 ^ 31 - 1" "y \<le> 2 ^ 31 - 1"
  shows "(\<forall>u v. on_screen fbi u v \<longrightarrow> pixel fbi (fb_fill_rect fbi x y w h color m) u v =
       (if x \<le> u \<and> u < x + w \<and> y \<le> v \<and> v < y + h then color else pixel fbi m u v)) \<and>
    (\<forall>a. off_screen fbi a \<longrightarrow> fb_fill_rect fbi x y w h color m a = m a)"
proof -
  let ?ps = "cells x y (nat h) (nat w) (\<lambda>j i. True) (\<lambda>j i. color)"
  have f: "fb_fill_rect fbi x y w h color m = paint fbi ?ps m"
    unfolding fb_fill_rect_def by (rule paint_grid) simp
  have b: "x + int (nat w) \<le> 2 ^ 31" "y + int (nat h) \<le> 2 ^ 31" using assms by simp_all
  have r: "u < x + int (nat w) \<longleftrightarrow> u < x + w" if "x \<le> u" for u x w :: int using that by auto
  have "pixel fbi (paint fbi ?ps m) u v = (if x \<le> u \<and> u < x + w \<and> y \<le> v \<and> v < y + h then color else pixel fbi m u v)"
    if "on_screen fbi u v" for u v
    unfolding paint_grid_pixel [OF assms(1-3) b that] using r [of x u w] r [of y v h] by auto
  moreover have "paint fbi ?ps m a = m a" if "off_screen fbi a" for a
    by (rule paint_off [OF assms(1) paint_grid_ok [OF assms(2,3) b] that])
  ultimately show ?thesis unfolding f by blast
qed

definition demo_fb :: fb_info where
  "demo_fb = \<lparr>fb_addr = 0xFD000000, fb_width = 640, fb_height = 480, fb_pitch = 2560, fb_bpp = 32,
     fb_r_pos = 16, fb_r_size = 8, fb_g_pos = 8, fb_g_size = 8, fb_b_pos = 0, fb_b_size = 8\<rparr>"

lemma demo_fb_ok: "fb_ok demo_fb"
  by (simp add: fb_ok_def demo_fb_def)

theorem fb_fill_rect_correct_witness:
  "pixel demo_fb (fb_fill_rect demo_fb (- 2) 5 4 3 7 (\<lambda>_. 0)) 1 6 = 7"
  using fb_fill_rect_correct [OF demo_fb_ok, of "- 2" 5 4 3 7 "\<lambda>_. 0"]
  by (simp add: small_def on_screen_def demo_fb_def)

section \<open>The pointer never damages the picture\<close>

definition bmp_color :: "fb_info \<Rightarrow> nat \<Rightarrow> nat \<Rightarrow> u32" where
  "bmp_color fbi j i = (if cursor_bmp ! j ! i = 1 then fb_rgb fbi 0 0 0 else fb_rgb fbi 255 255 255)"

abbreviation pointer_cells :: "fb_info \<Rightarrow> cursor \<Rightarrow> (int \<times> int \<times> u32) list" where
  "pointer_cells fbi c \<equiv> cells (cur_x c) (cur_y c) CUR_H CUR_W (\<lambda>j i. cursor_bmp ! j ! i \<noteq> 0) (bmp_color fbi)"

abbreviation saved_cells :: "cursor \<Rightarrow> (int \<times> int \<times> u32) list" where
  "saved_cells c \<equiv> cells (cur_x c) (cur_y c) CUR_H CUR_W (\<lambda>j i. True) (\<lambda>j i. cur_saved c ! j ! i)"

lemma draw_cursor_paint: "draw_cursor fbi c m = (c\<lparr>cur_visible := True\<rparr>, paint fbi (pointer_cells fbi c) m)"
  unfolding draw_cursor_def cur_loop_def
  by (subst paint_grid) (auto simp: Let_def fb_putpixel_def bmp_color_def)

lemma restore_under_paint: "restore_under fbi c m = paint fbi (saved_cells c) m"
  unfolding restore_under_def cur_loop_def
  by (subst paint_grid) (auto simp: Let_def fb_putpixel_def)

text \<open>The picture \<open>base\<close> with the pointer on it or not, and what the driver remembers of it.\<close>

definition cursor_inv :: "fb_info \<Rightarrow> mem \<Rightarrow> cursor \<Rightarrow> mem \<Rightarrow> bool" where
  "cursor_inv fbi base c m \<longleftrightarrow>
     (if cur_visible c then
        m = paint fbi (pointer_cells fbi c) base \<and>
        (\<forall>j < CUR_H. \<forall>i < CUR_W. on_screen fbi (cur_x c + int i) (cur_y c + int j) \<longrightarrow>
           cur_saved c ! j ! i = pixel fbi base (cur_x c + int i) (cur_y c + int j))
      else m = base)"

definition pos_ok :: "cursor \<Rightarrow> bool" where
  "pos_ok c \<longleftrightarrow> small (cur_x c) \<and> small (cur_y c) \<and> cur_x c + 12 \<le> 2 ^ 31 \<and> cur_y c + 19 \<le> 2 ^ 31"

lemma pointer_paint_ok:
  assumes "pos_ok c"
  shows "paint_ok (cells (cur_x c) (cur_y c) CUR_H CUR_W P f)"
  by (rule paint_grid_ok) (use assms in \<open>simp_all add: pos_ok_def CUR_H_def CUR_W_def\<close>)

lemma set_cells: "(u, v, d) \<in> set (cells x y h w P f) \<longleftrightarrow> (\<exists>j i. j < h \<and> i < w \<and> P j i \<and> u = x + int i \<and> v = y + int j \<and> d = f j i)"
  by (auto simp: cells_def set_grid)

lemma restore_paint:
  assumes ok: "fb_ok fbi" and pos: "pos_ok c"
    and sv: "\<And>j i. j < CUR_H \<Longrightarrow> i < CUR_W \<Longrightarrow> on_screen fbi (cur_x c + int i) (cur_y c + int j) \<Longrightarrow>
      cur_saved c ! j ! i = pixel fbi base (cur_x c + int i) (cur_y c + int j)"
  shows "restore_under fbi c (paint fbi (pointer_cells fbi c) base) = base"
proof
  fix a
  let ?m = "paint fbi (pointer_cells fbi c) base"
  show "restore_under fbi c ?m a = base a"
  proof (cases "\<exists>u v d. (u, v, d) \<in> set (saved_cells c) \<and> in_pixel fbi u v a")
    case True
    then obtain j i where ji: "j < CUR_H" "i < CUR_W" and a: "in_pixel fbi (cur_x c + int i) (cur_y c + int j) a"
      by (auto simp: set_cells)
    have "on_screen fbi (cur_x c + int i) (cur_y c + int j)" using a by (simp add: in_pixel_def)
    then have s: "cur_saved c ! j ! i = pixel fbi base (cur_x c + int i) (cur_y c + int j)" using ji by (intro sv)
    have "(cur_x c + int i, cur_y c + int j, cur_saved c ! j ! i) \<in> set (saved_cells c)" using ji unfolding set_cells by blast
    then show ?thesis
      unfolding restore_under_paint using paint_apply(1) [OF ok pointer_paint_ok [OF pos] _ a] pixel_byte_pixel [OF ok a] s by metis
  next
    case False
    then have "\<not> in_pixel fbi u v a" if "(u, v, d) \<in> set (pointer_cells fbi c)" for u v d
      using that unfolding set_cells by blast
    then have "?m a = base a" by (intro paint_apply(2) [OF ok pointer_paint_ok [OF pos]])
    moreover have "restore_under fbi c ?m a = ?m a"
      unfolding restore_under_paint using False by (intro paint_apply(2) [OF ok pointer_paint_ok [OF pos]]) blast
    ultimately show ?thesis by simp
  qed
qed

lemma hide_inv:
  assumes "fb_ok fbi" and "pos_ok c" and "cursor_inv fbi base c m"
  shows "fb_cursor_hide fbi c m = (c\<lparr>cur_visible := False\<rparr>, base)"
proof (cases "cur_visible c")
  case True
  then show ?thesis using assms restore_paint [OF assms(1,2)] by (simp add: fb_cursor_hide_def cursor_inv_def)
next
  case False
  then have "c\<lparr>cur_visible := False\<rparr> = c" by (cases c) simp
  then show ?thesis using assms False by (simp add: fb_cursor_hide_def cursor_inv_def)
qed

lemma save_under_simps [simp]:
  "cur_x (save_under fbi c m) = cur_x c" "cur_y (save_under fbi c m) = cur_y c" "cur_visible (save_under fbi c m) = cur_visible c"
  by (simp_all add: save_under_def)

lemma draw_inv:
  assumes "fb_ok fbi" and "pos_ok c" and draw: "draw_cursor fbi (save_under fbi c base) base = (c', m')"
  shows "cursor_inv fbi base c' m' \<and> cur_x c' = cur_x c \<and> cur_y c' = cur_y c \<and> cur_visible c'"
proof -
  have c': "c' = (save_under fbi c base)\<lparr>cur_visible := True\<rparr>" "m' = paint fbi (pointer_cells fbi c) base"
    using draw by (auto simp: draw_cursor_paint)
  have "in_screen fbi (cur_x c + int i) (cur_y c + int j) = on_screen fbi (cur_x c + int i) (cur_y c + int j)"
    if "j < CUR_H" "i < CUR_W" for j i
    by (rule in_screen_iff) (use assms(2) that in \<open>auto simp: pos_ok_def small_def CUR_H_def CUR_W_def\<close>)
  then show ?thesis by (simp add: c' cursor_inv_def save_under_def Let_def pixel_def)
qed

lemma clamp_pos_simps:
  "cur_x (clamp_pos fbi c) = min (max 0 (cur_x c)) (sint (fb_width fbi) - 12)"
  "cur_y (clamp_pos fbi c) = min (max 0 (cur_y c)) (sint (fb_height fbi) - 19)"
  "cur_visible (clamp_pos fbi c) = cur_visible c"
  by (simp_all add: clamp_pos_def Let_def CUR_W_def CUR_H_def min_def max_def)

lemma sint_of_nat_32: "n < 2 ^ 31 \<Longrightarrow> sint (of_nat n :: u32) = int n"
  by (simp add: signed_of_nat signed_take_bit_int_eq_self)

lemma sint_unat_32: "unat v < 2 ^ 31 \<Longrightarrow> sint (v :: u32) = int (unat v)"
  using sint_of_nat_32 [of "unat v"] by (simp only: of_nat_unat ucast_id)

lemma clamp_pos_ok:
  assumes "fb_ok fbi"
  shows "pos_ok (clamp_pos fbi c) \<and>
    (12 \<le> unat (fb_width fbi) \<longrightarrow> 19 \<le> unat (fb_height fbi) \<longrightarrow>
      0 \<le> cur_x (clamp_pos fbi c) \<and> cur_x (clamp_pos fbi c) + 12 \<le> int (unat (fb_width fbi)) \<and>
      0 \<le> cur_y (clamp_pos fbi c) \<and> cur_y (clamp_pos fbi c) + 19 \<le> int (unat (fb_height fbi)))"
proof -
  define nw nh where n: "nw = unat (fb_width fbi)" "nh = unat (fb_height fbi)"
  have lim: "nw < 2 ^ 31" "nh < 2 ^ 31" using assms by (simp_all only: fb_ok_def n)
  have s: "sint (fb_width fbi) = int nw" "sint (fb_height fbi) = int nh" using lim by (simp_all only: n sint_unat_32)
  show ?thesis unfolding pos_ok_def small_def clamp_pos_simps s n [symmetric] using lim by auto
qed

lemma show_inv:
  assumes ok: "fb_ok fbi" and pos: "pos_ok c" and inv: "cursor_inv fbi base c m" and run: "fb_cursor_show fbi c m = (c', m')"
  shows "cursor_inv fbi base c' m' \<and> pos_ok c' \<and> cur_visible c' \<and> cur_x c' = cur_x c \<and> cur_y c' = cur_y c"
proof (cases "cur_visible c")
  case True
  then show ?thesis using run inv pos by (simp add: fb_cursor_show_def)
next
  case False
  then have "m = base" using inv by (simp add: cursor_inv_def)
  then have d: "draw_cursor fbi (save_under fbi c base) base = (c', m')" using run False by (simp add: fb_cursor_show_def)
  show ?thesis using draw_inv [OF ok pos d] pos by (simp add: pos_ok_def)
qed

lemma move_inv:
  assumes ok: "fb_ok fbi" and pos: "pos_ok c" and inv: "cursor_inv fbi base c m" and run: "fb_cursor_move fbi dx dy c m = (c', m')"
  defines "k \<equiv> clamp_pos fbi (c\<lparr>cur_visible := False, cur_x := cur_x c + dx, cur_y := cur_y c + dy\<rparr>)"
  shows "cursor_inv fbi base c' m' \<and> pos_ok c' \<and> cur_visible c' \<and> cur_x c' = cur_x k \<and> cur_y c' = cur_y k"
proof -
  have "(if cur_visible c then (c\<lparr>cur_visible := False\<rparr>, restore_under fbi c m) else (c, m)) = (c\<lparr>cur_visible := False\<rparr>, base)"
    using hide_inv [OF ok pos inv] by (simp add: fb_cursor_hide_def)
  then have d: "draw_cursor fbi (save_under fbi k base) base = (c', m')" using run by (simp add: fb_cursor_move_def k_def Let_def)
  have "pos_ok k" using clamp_pos_ok [OF ok] by (simp add: k_def)
  then show ?thesis using draw_inv [OF ok _ d] by (simp add: pos_ok_def)
qed

datatype cursor_cmd = Show | Hide | Move int int

fun cursor_step :: "fb_info \<Rightarrow> cursor_cmd \<Rightarrow> cursor \<times> mem \<Rightarrow> cursor \<times> mem" where
  "cursor_step fbi Show (c, m) = fb_cursor_show fbi c m"
| "cursor_step fbi Hide (c, m) = fb_cursor_hide fbi c m"
| "cursor_step fbi (Move dx dy) (c, m) = fb_cursor_move fbi dx dy c m"

lemma cursor_step_inv:
  assumes "fb_ok fbi" and "pos_ok c" and "cursor_inv fbi base c m" and "cursor_step fbi cmd (c, m) = (c', m')"
  shows "cursor_inv fbi base c' m' \<and> pos_ok c'"
proof (cases cmd)
  case Show
  then show ?thesis using show_inv [OF assms(1-3)] assms(4) by simp
next
  case Hide
  then show ?thesis using hide_inv [OF assms(1-3)] assms(2,4) by (auto simp: cursor_inv_def pos_ok_def)
next
  case (Move dx dy)
  then show ?thesis using move_inv [OF assms(1-3)] assms(4) by simp
qed

lemma cursor_steps_inv:
  assumes "fb_ok fbi" and "pos_ok c" and "cursor_inv fbi base c m" and "fold (cursor_step fbi) cmds (c, m) = (c', m')"
  shows "cursor_inv fbi base c' m' \<and> pos_ok c'"
  using assms(2-4)
proof (induction cmds arbitrary: c m)
  case (Cons cmd cmds)
  obtain c1 m1 where s: "cursor_step fbi cmd (c, m) = (c1, m1)" by fastforce
  then show ?case using cursor_step_inv [OF assms(1) Cons.prems(1,2) s] Cons.IH [of c1 m1] Cons.prems(3) by simp
qed simp

text \<open>
  The pointer never damages the picture.  From a hidden pointer, after any sequence of showing,
  hiding and moving it (partly or wholly over the edge of the screen included), hiding it gives back the memory
  byte for byte; while it is visible the screen shows exactly its bitmap over the picture; and a
  move always leaves it wholly on a screen that is large enough.
\<close>

theorem cursor_keeps_picture:
  assumes ok: "fb_ok fbi" and pos: "pos_ok c" and hidden: "\<not> cur_visible c"
    and run: "fold (cursor_step fbi) cmds (c, m) = (c', m')"
  shows "snd (fb_cursor_hide fbi c' m') = m \<and>
    (\<forall>u v. on_screen fbi u v \<longrightarrow> pixel fbi m' u v =
      (if cur_visible c' \<and> cur_x c' \<le> u \<and> u < cur_x c' + 12 \<and> cur_y c' \<le> v \<and> v < cur_y c' + 19 \<and>
          cursor_bmp ! nat (v - cur_y c') ! nat (u - cur_x c') \<noteq> 0
       then bmp_color fbi (nat (v - cur_y c')) (nat (u - cur_x c')) else pixel fbi m u v)) \<and>
    (12 \<le> unat (fb_width fbi) \<longrightarrow> 19 \<le> unat (fb_height fbi) \<longrightarrow> cmds \<noteq> [] \<longrightarrow> (\<exists>dx dy. last cmds = Move dx dy) \<longrightarrow>
      0 \<le> cur_x c' \<and> cur_x c' + 12 \<le> int (unat (fb_width fbi)) \<and> 0 \<le> cur_y c' \<and> cur_y c' + 19 \<le> int (unat (fb_height fbi)))"
proof -
  have start: "cursor_inv fbi m c m" using hidden by (simp add: cursor_inv_def)
  note i = cursor_steps_inv [OF ok pos start run]
  have b: "small (cur_x c')" "small (cur_y c')" "cur_x c' + int CUR_W \<le> 2 ^ 31" "cur_y c' + int CUR_H \<le> 2 ^ 31"
    using i by (simp_all add: pos_ok_def CUR_W_def CUR_H_def)
  have WH: "int CUR_W = 12" "int CUR_H = 19" by (simp_all add: CUR_W_def CUR_H_def)
  have "pixel fbi m' u v =
      (if cur_visible c' \<and> cur_x c' \<le> u \<and> u < cur_x c' + 12 \<and> cur_y c' \<le> v \<and> v < cur_y c' + 19 \<and>
          cursor_bmp ! nat (v - cur_y c') ! nat (u - cur_x c') \<noteq> 0
       then bmp_color fbi (nat (v - cur_y c')) (nat (u - cur_x c')) else pixel fbi m u v)" if "on_screen fbi u v" for u v
  proof (cases "cur_visible c'")
    case True
    then have "m' = paint fbi (pointer_cells fbi c') m" using i by (simp add: cursor_inv_def)
    then show ?thesis using paint_grid_pixel [OF ok b that, of "\<lambda>j i. cursor_bmp ! j ! i \<noteq> 0" "bmp_color fbi" m] True unfolding WH by simp
  next
    case False
    then show ?thesis using i by (simp add: cursor_inv_def)
  qed
  moreover have "0 \<le> cur_x c' \<and> cur_x c' + 12 \<le> int (unat (fb_width fbi)) \<and> 0 \<le> cur_y c' \<and> cur_y c' + 19 \<le> int (unat (fb_height fbi))"
    if big: "12 \<le> unat (fb_width fbi)" "19 \<le> unat (fb_height fbi)" and ne: "cmds \<noteq> []" and mv: "last cmds = Move dx dy" for dx dy
  proof -
    obtain c1 m1 where s: "fold (cursor_step fbi) (butlast cmds) (c, m) = (c1, m1)" by fastforce
    have "fold (cursor_step fbi) (butlast cmds @ [last cmds]) (c, m) = (c', m')" using run ne by simp
    then have mvr: "fb_cursor_move fbi dx dy c1 m1 = (c', m')" by (simp add: s mv)
    show ?thesis
      using move_inv [OF ok _ _ mvr] cursor_steps_inv [OF ok pos start s] clamp_pos_ok [OF ok] big by (metis (no_types, lifting))
  qed
  ultimately show ?thesis using hide_inv [OF ok _ i [THEN conjunct1]] i by auto
qed

definition demo_cursor :: cursor where
  "demo_cursor = \<lparr>cur_x = 320, cur_y = 240, cur_visible = False, cur_saved = []\<rparr>"

theorem cursor_keeps_picture_witness:
  "snd (fb_cursor_hide demo_fb (fst (cursor_step demo_fb (Move 5000 (- 7)) (demo_cursor, \<lambda>_. 9)))
     (snd (cursor_step demo_fb (Move 5000 (- 7)) (demo_cursor, \<lambda>_. 9)))) = (\<lambda>_. 9)"
proof -
  obtain c' m' where run: "fold (cursor_step demo_fb) [Move 5000 (- 7)] (demo_cursor, \<lambda>_. 9) = (c', m')" by fastforce
  have "pos_ok demo_cursor" "\<not> cur_visible demo_cursor" by (simp_all add: pos_ok_def small_def demo_cursor_def)
  then show ?thesis using cursor_keeps_picture [OF demo_fb_ok _ _ run] run by simp
qed

end
