(* ===== verification/Font.thy ===== *)
theory Font
  imports Flyos_Prelude
begin

text \<open>
  The character set of \<open>kernel/drivers/font8x16.h\<close>: sixteen rows of eight dots for the printable ASCII
  characters, most significant bit leftmost.  The array has 256 entries, and the ones without an
  initialiser are empty.
\<close>

definition font_rows :: "(u8 \<times> u8 list) list" where
  "font_rows =
    [
     (0x20, [0, 0, 0, 0, 0, 0, 0, 0, 0, 0, 0, 0, 0, 0, 0, 0]),
     (0x21, [0, 0, 24, 24, 24, 24, 24, 24, 24, 0, 24, 24, 0, 0, 0, 0]),
     (0x22, [0, 102, 102, 102, 0, 0, 0, 0, 0, 0, 0, 0, 0, 0, 0, 0]),
     (0x23, [0, 0, 108, 108, 108, 254, 108, 108, 108, 254, 108, 108, 0, 0, 0, 0]),
     (0x24, [0, 0, 24, 62, 96, 60, 6, 124, 24, 0, 0, 0, 0, 0, 0, 0]),
     (0x25, [0, 0, 0, 0, 198, 204, 24, 48, 96, 198, 134, 0, 0, 0, 0, 0]),
     (0x26, [0, 0, 56, 108, 56, 56, 108, 214, 220, 118, 108, 0, 0, 0, 0, 0]),
     (0x27, [0, 24, 24, 48, 0, 0, 0, 0, 0, 0, 0, 0, 0, 0, 0, 0]),
     (0x28, [0, 12, 24, 48, 48, 48, 48, 48, 48, 48, 48, 24, 12, 0, 0, 0]),
     (0x29, [0, 48, 24, 12, 12, 12, 12, 12, 12, 12, 12, 24, 48, 0, 0, 0]),
     (0x2A, [0, 0, 0, 102, 60, 255, 60, 102, 0, 0, 0, 0, 0, 0, 0, 0]),
     (0x2B, [0, 0, 0, 24, 24, 126, 24, 24, 0, 0, 0, 0, 0, 0, 0, 0]),
     (0x2C, [0, 0, 0, 0, 0, 0, 0, 0, 0, 0, 24, 24, 48, 0, 0, 0]),
     (0x2D, [0, 0, 0, 0, 0, 0, 126, 0, 0, 0, 0, 0, 0, 0, 0, 0]),
     (0x2E, [0, 0, 0, 0, 0, 0, 0, 0, 0, 0, 24, 24, 0, 0, 0, 0]),
     (0x2F, [0, 0, 6, 12, 12, 24, 24, 48, 48, 96, 96, 192, 192, 0, 0, 0]),
     (0x30, [0, 0, 60, 102, 102, 102, 102, 102, 102, 102, 102, 60, 0, 0, 0, 0]),
     (0x31, [0, 0, 24, 56, 24, 24, 24, 24, 24, 24, 24, 126, 0, 0, 0, 0]),
     (0x32, [0, 0, 60, 102, 102, 6, 12, 24, 48, 96, 96, 126, 0, 0, 0, 0]),
     (0x33, [0, 0, 60, 102, 102, 6, 28, 6, 6, 102, 102, 60, 0, 0, 0, 0]),
     (0x34, [0, 0, 12, 28, 60, 108, 204, 254, 12, 12, 12, 12, 0, 0, 0, 0]),
     (0x35, [0, 0, 126, 96, 96, 96, 124, 6, 6, 102, 102, 60, 0, 0, 0, 0]),
     (0x36, [0, 0, 28, 48, 96, 96, 124, 102, 102, 102, 102, 60, 0, 0, 0, 0]),
     (0x37, [0, 0, 126, 6, 6, 12, 12, 24, 24, 48, 48, 48, 0, 0, 0, 0]),
     (0x38, [0, 0, 60, 102, 102, 102, 60, 102, 102, 102, 102, 60, 0, 0, 0, 0]),
     (0x39, [0, 0, 60, 102, 102, 102, 62, 6, 6, 6, 12, 56, 0, 0, 0, 0]),
     (0x3A, [0, 0, 0, 24, 24, 0, 0, 0, 24, 24, 0, 0, 0, 0, 0, 0]),
     (0x3B, [0, 0, 0, 24, 24, 0, 0, 0, 24, 24, 48, 0, 0, 0, 0, 0]),
     (0x3C, [0, 0, 6, 12, 24, 48, 96, 48, 24, 12, 6, 0, 0, 0, 0, 0]),
     (0x3D, [0, 0, 0, 0, 0, 126, 0, 126, 0, 0, 0, 0, 0, 0, 0, 0]),
     (0x3E, [0, 0, 96, 48, 24, 12, 6, 12, 24, 48, 96, 0, 0, 0, 0, 0]),
     (0x3F, [0, 0, 60, 102, 102, 6, 12, 24, 24, 0, 24, 24, 0, 0, 0, 0]),
     (0x40, [0, 0, 60, 102, 102, 110, 118, 118, 102, 102, 102, 60, 0, 0, 0, 0]),
     (0x41, [0, 0, 24, 60, 102, 102, 102, 126, 102, 102, 102, 102, 0, 0, 0, 0]),
     (0x42, [0, 0, 124, 102, 102, 102, 124, 102, 102, 102, 102, 124, 0, 0, 0, 0]),
     (0x43, [0, 0, 60, 102, 102, 96, 96, 96, 96, 102, 102, 60, 0, 0, 0, 0]),
     (0x44, [0, 0, 120, 108, 102, 102, 102, 102, 102, 102, 108, 120, 0, 0, 0, 0]),
     (0x45, [0, 0, 126, 96, 96, 96, 124, 96, 96, 96, 96, 126, 0, 0, 0, 0]),
     (0x46, [0, 0, 126, 96, 96, 96, 124, 96, 96, 96, 96, 96, 0, 0, 0, 0]),
     (0x47, [0, 0, 60, 102, 102, 96, 96, 110, 102, 102, 102, 60, 0, 0, 0, 0]),
     (0x48, [0, 0, 102, 102, 102, 102, 126, 102, 102, 102, 102, 102, 0, 0, 0, 0]),
     (0x49, [0, 0, 60, 24, 24, 24, 24, 24, 24, 24, 24, 60, 0, 0, 0, 0]),
     (0x4A, [0, 0, 30, 12, 12, 12, 12, 12, 12, 12, 204, 204, 120, 0, 0, 0]),
     (0x4B, [0, 0, 102, 102, 102, 108, 120, 120, 108, 102, 102, 102, 0, 0, 0, 0]),
     (0x4C, [0, 0, 96, 96, 96, 96, 96, 96, 96, 96, 96, 126, 0, 0, 0, 0]),
     (0x4D, [0, 0, 102, 102, 118, 126, 126, 110, 102, 102, 102, 102, 0, 0, 0, 0]),
     (0x4E, [0, 0, 102, 102, 102, 118, 126, 110, 102, 102, 102, 102, 0, 0, 0, 0]),
     (0x4F, [0, 0, 60, 102, 102, 102, 102, 102, 102, 102, 102, 60, 0, 0, 0, 0]),
     (0x50, [0, 0, 124, 102, 102, 102, 124, 96, 96, 96, 96, 96, 0, 0, 0, 0]),
     (0x51, [0, 0, 60, 102, 102, 102, 102, 102, 102, 102, 118, 60, 4, 0, 0, 0]),
     (0x52, [0, 0, 124, 102, 102, 102, 124, 108, 102, 102, 102, 102, 0, 0, 0, 0]),
     (0x53, [0, 0, 60, 102, 96, 96, 56, 12, 6, 102, 102, 60, 0, 0, 0, 0]),
     (0x54, [0, 0, 126, 24, 24, 24, 24, 24, 24, 24, 24, 24, 0, 0, 0, 0]),
     (0x55, [0, 0, 102, 102, 102, 102, 102, 102, 102, 102, 102, 60, 0, 0, 0, 0]),
     (0x56, [0, 0, 102, 102, 102, 102, 102, 102, 102, 102, 60, 24, 0, 0, 0, 0]),
     (0x57, [0, 0, 102, 102, 102, 102, 102, 110, 126, 126, 118, 102, 0, 0, 0, 0]),
     (0x58, [0, 0, 102, 102, 102, 60, 24, 60, 102, 102, 102, 102, 0, 0, 0, 0]),
     (0x59, [0, 0, 102, 102, 102, 102, 60, 24, 24, 24, 24, 24, 0, 0, 0, 0]),
     (0x5A, [0, 0, 126, 6, 6, 12, 24, 48, 96, 96, 96, 126, 0, 0, 0, 0]),
     (0x5B, [0, 0, 60, 48, 48, 48, 48, 48, 48, 48, 48, 60, 0, 0, 0, 0]),
     (0x5C, [0, 0, 192, 192, 96, 96, 48, 48, 24, 24, 12, 12, 0, 0, 0, 0]),
     (0x5D, [0, 0, 60, 12, 12, 12, 12, 12, 12, 12, 12, 60, 0, 0, 0, 0]),
     (0x5E, [0, 16, 56, 108, 198, 0, 0, 0, 0, 0, 0, 0, 0, 0, 0, 0]),
     (0x5F, [0, 0, 0, 0, 0, 0, 0, 0, 0, 0, 0, 0, 0, 0, 255, 0]),
     (0x60, [0, 48, 24, 12, 0, 0, 0, 0, 0, 0, 0, 0, 0, 0, 0, 0]),
     (0x61, [0, 0, 0, 0, 0, 60, 6, 62, 102, 102, 102, 62, 0, 0, 0, 0]),
     (0x62, [0, 0, 96, 96, 96, 124, 102, 102, 102, 102, 102, 124, 0, 0, 0, 0]),
     (0x63, [0, 0, 0, 0, 0, 60, 102, 96, 96, 96, 102, 60, 0, 0, 0, 0]),
     (0x64, [0, 0, 6, 6, 6, 62, 102, 102, 102, 102, 102, 62, 0, 0, 0, 0]),
     (0x65, [0, 0, 0, 0, 0, 60, 102, 102, 126, 96, 102, 60, 0, 0, 0, 0]),
     (0x66, [0, 0, 28, 48, 48, 48, 124, 48, 48, 48, 48, 48, 0, 0, 0, 0]),
     (0x67, [0, 0, 0, 0, 0, 62, 102, 102, 102, 102, 102, 62, 6, 6, 124, 0]),
     (0x68, [0, 0, 96, 96, 96, 124, 102, 102, 102, 102, 102, 102, 0, 0, 0, 0]),
     (0x69, [0, 0, 24, 24, 0, 56, 24, 24, 24, 24, 24, 60, 0, 0, 0, 0]),
     (0x6A, [0, 0, 12, 12, 0, 28, 12, 12, 12, 12, 12, 12, 204, 108, 56, 0]),
     (0x6B, [0, 0, 96, 96, 96, 102, 108, 120, 120, 108, 102, 102, 0, 0, 0, 0]),
     (0x6C, [0, 0, 56, 24, 24, 24, 24, 24, 24, 24, 24, 60, 0, 0, 0, 0]),
     (0x6D, [0, 0, 0, 0, 0, 124, 110, 110, 110, 102, 102, 102, 0, 0, 0, 0]),
     (0x6E, [0, 0, 0, 0, 0, 124, 102, 102, 102, 102, 102, 102, 0, 0, 0, 0]),
     (0x6F, [0, 0, 0, 0, 0, 60, 102, 102, 102, 102, 102, 60, 0, 0, 0, 0]),
     (0x70, [0, 0, 0, 0, 0, 124, 102, 102, 102, 102, 102, 124, 96, 96, 96, 0]),
     (0x71, [0, 0, 0, 0, 0, 62, 102, 102, 102, 102, 102, 62, 6, 6, 6, 0]),
     (0x72, [0, 0, 0, 0, 0, 108, 118, 102, 96, 96, 96, 96, 0, 0, 0, 0]),
     (0x73, [0, 0, 0, 0, 0, 60, 102, 96, 60, 6, 102, 60, 0, 0, 0, 0]),
     (0x74, [0, 0, 48, 48, 48, 124, 48, 48, 48, 48, 48, 28, 0, 0, 0, 0]),
     (0x75, [0, 0, 0, 0, 0, 102, 102, 102, 102, 102, 102, 62, 0, 0, 0, 0]),
     (0x76, [0, 0, 0, 0, 0, 102, 102, 102, 102, 102, 60, 24, 0, 0, 0, 0]),
     (0x77, [0, 0, 0, 0, 0, 102, 102, 102, 110, 110, 126, 108, 0, 0, 0, 0]),
     (0x78, [0, 0, 0, 0, 0, 102, 102, 60, 24, 60, 102, 102, 0, 0, 0, 0]),
     (0x79, [0, 0, 0, 0, 0, 102, 102, 102, 102, 102, 102, 62, 6, 6, 124, 0]),
     (0x7A, [0, 0, 0, 0, 0, 126, 6, 12, 24, 48, 96, 126, 0, 0, 0, 0]),
     (0x7B, [0, 0, 28, 48, 48, 48, 48, 96, 48, 48, 48, 48, 28, 0, 0, 0]),
     (0x7C, [0, 0, 24, 24, 24, 24, 24, 24, 24, 24, 24, 24, 0, 0, 0, 0]),
     (0x7D, [0, 0, 56, 12, 12, 12, 12, 6, 12, 12, 12, 12, 56, 0, 0, 0]),
     (0x7E, [0, 0, 118, 220, 0, 0, 0, 0, 0, 0, 0, 0, 0, 0, 0, 0])
    ]"

definition font8x16 :: "u8 \<Rightarrow> u8 list" where
  "font8x16 c = (case map_of font_rows c of Some rows \<Rightarrow> rows | None \<Rightarrow> replicate 16 0)"

end
