(* ===== verification/Fb_Term.thy ===== *)
theory Fb_Term
  imports Framebuffer Font
begin

text \<open>
  The text terminal on the framebuffer, \<open>kernel/drivers/fb_term.c\<close>: a buffer of characters, the
  region of the screen it is shown in, and the text cursor.  The static variables are the record
  \<open>fb_term\<close>; the buffer is a function of row and column, of which the array holds rows 0 to 63 and
  columns 0 to 159, and the invariant keeps every access inside.  Characters are bytes.  The
  theorem refines the terminal to a list of lines and says that the pixels show the text.
\<close>

section \<open>State\<close>

definition CHAR_W :: nat where "CHAR_W = 8"
definition CHAR_H :: nat where "CHAR_H = 16"
definition MAX_COLS :: int where "MAX_COLS = 160"
definition MAX_ROWS :: int where "MAX_ROWS = 64"

record fb_term =
  region_x :: int
  region_y :: int
  region_w :: int
  region_h :: int
  t_cols :: int
  t_rows :: int
  tcur_x :: int
  tcur_y :: int
  fg_color :: u32
  bg_color :: u32
  screen_buf :: "int \<Rightarrow> int \<Rightarrow> u8"

type_synonym display = "fb_term \<times> cursor \<times> mem"

section \<open>Drawing\<close>

definition dot :: "u8 \<Rightarrow> nat \<Rightarrow> u32 \<Rightarrow> u32 \<Rightarrow> u32" where
  "dot bits cc fg bg = (if bits AND drop_bit cc 0x80 \<noteq> 0 then fg else bg)"

definition draw_glyph :: "fb_info \<Rightarrow> u8 \<Rightarrow> int \<Rightarrow> int \<Rightarrow> u32 \<Rightarrow> u32 \<Rightarrow> mem \<Rightarrow> mem" where
  "draw_glyph fbi c px py fg bg m =
     fold (\<lambda>r m. fold (\<lambda>cc m. fb_putpixel fbi (px + int cc) (py + int r) (dot (font8x16 c ! r) cc fg bg) m) [0..<CHAR_W] m) [0..<CHAR_H] m"

definition draw_char_at :: "fb_info \<Rightarrow> u8 \<Rightarrow> int \<Rightarrow> int \<Rightarrow> fb_term \<Rightarrow> mem \<Rightarrow> mem" where
  "draw_char_at fbi c col row t m =
     draw_glyph fbi c (region_x t + col * int CHAR_W) (region_y t + row * int CHAR_H) (fg_color t) (bg_color t) m"

definition fb_term_redraw :: "fb_info \<Rightarrow> fb_term \<Rightarrow> mem \<Rightarrow> mem" where
  "fb_term_redraw fbi t m =
     fold (\<lambda>r m. fold (\<lambda>c m. draw_char_at fbi (screen_buf t (int r) (int c)) (int c) (int r) t m) [0..<nat (t_cols t)] m) [0..<nat (t_rows t)] m"

fun fb_term_draw_text_at :: "fb_info \<Rightarrow> int \<Rightarrow> int \<Rightarrow> u8 list \<Rightarrow> u32 \<Rightarrow> u32 \<Rightarrow> mem \<Rightarrow> mem" where
  "fb_term_draw_text_at fbi x y [] fg bg m = m"
| "fb_term_draw_text_at fbi x y (c # s) fg bg m =
     fb_term_draw_text_at fbi (x + int CHAR_W) y s fg bg (draw_glyph fbi c x y fg bg m)"

section \<open>The buffer\<close>

text \<open>The double loops over the buffer: filling \<open>rows\<close> by \<open>cols\<close> cells, and moving all lines up.\<close>

definition fill_buf :: "int \<Rightarrow> int \<Rightarrow> (int \<Rightarrow> int \<Rightarrow> u8) \<Rightarrow> int \<Rightarrow> int \<Rightarrow> u8" where
  "fill_buf rows cols buf = (\<lambda>r c. if 0 \<le> r \<and> r < rows \<and> 0 \<le> c \<and> c < cols then 32 else buf r c)"

definition scroll_buf :: "int \<Rightarrow> int \<Rightarrow> (int \<Rightarrow> int \<Rightarrow> u8) \<Rightarrow> int \<Rightarrow> int \<Rightarrow> u8" where
  "scroll_buf rows cols buf =
     (\<lambda>r c. if 0 \<le> c \<and> c < cols \<and> r = rows - 1 then 32
            else if 0 \<le> c \<and> c < cols \<and> 0 \<le> r \<and> r < rows - 1 then buf (r + 1) c
            else buf r c)"

definition set_cell :: "int \<Rightarrow> int \<Rightarrow> u8 \<Rightarrow> (int \<Rightarrow> int \<Rightarrow> u8) \<Rightarrow> int \<Rightarrow> int \<Rightarrow> u8" where
  "set_cell r c ch buf = buf(r := (buf r)(c := ch))"

section \<open>Operations\<close>

definition fb_term_set_region :: "int \<Rightarrow> int \<Rightarrow> int \<Rightarrow> int \<Rightarrow> fb_term \<Rightarrow> fb_term" where
  "fb_term_set_region x y w h t =
     (let t = t\<lparr>region_x := x, region_y := y, region_w := w, region_h := h\<rparr>;
          new_cols = w sdiv int CHAR_W;
          new_rows = h sdiv int CHAR_H;
          new_cols = (if new_cols > MAX_COLS then MAX_COLS else new_cols);
          new_rows = (if new_rows > MAX_ROWS then MAX_ROWS else new_rows) in
      if new_cols \<noteq> t_cols t \<or> new_rows \<noteq> t_rows t then
        t\<lparr>t_cols := new_cols, t_rows := new_rows, screen_buf := fill_buf new_rows new_cols (screen_buf t), tcur_x := 0, tcur_y := 0\<rparr>
      else t)"

definition fb_term_clear :: "fb_info \<Rightarrow> fb_term \<Rightarrow> mem \<Rightarrow> fb_term \<times> mem" where
  "fb_term_clear fbi t m =
     (t\<lparr>screen_buf := fill_buf (t_rows t) (t_cols t) (screen_buf t), tcur_x := 0, tcur_y := 0\<rparr>,
      fb_fill_rect fbi (region_x t) (region_y t) (region_w t) (region_h t) (bg_color t) m)"

definition fb_term_set_color :: "u32 \<Rightarrow> u32 \<Rightarrow> fb_term \<Rightarrow> fb_term" where
  "fb_term_set_color fg bg t = t\<lparr>fg_color := fg, bg_color := bg\<rparr>"

definition fb_term_init :: "fb_info \<Rightarrow> fb_term \<Rightarrow> fb_term" where
  "fb_term_init fbi t =
     (let screen_cols = sint (fb_width fbi div of_nat CHAR_W);
          screen_rows = sint (fb_height fbi div of_nat CHAR_H);
          screen_cols = (if screen_cols > MAX_COLS then MAX_COLS else screen_cols);
          screen_rows = (if screen_rows > MAX_ROWS then MAX_ROWS else screen_rows)
      in t\<lparr>fg_color := fb_rgb fbi 220 220 220, bg_color := fb_rgb fbi 10 10 40,
           region_x := 0, region_y := 0, region_w := sint (fb_width fbi), region_h := sint (fb_height fbi),
           t_cols := screen_cols, t_rows := screen_rows, screen_buf := fill_buf MAX_ROWS MAX_COLS (screen_buf t),
           tcur_x := 0, tcur_y := 0\<rparr>)"

text \<open>Storing and drawing one character, guarded by the bounds.\<close>

definition term_store :: "fb_info \<Rightarrow> u8 \<Rightarrow> fb_term \<Rightarrow> mem \<Rightarrow> fb_term \<times> mem" where
  "term_store fbi c t m =
     (if tcur_y t < t_rows t \<and> tcur_x t < t_cols t then
        (t\<lparr>screen_buf := set_cell (tcur_y t) (tcur_x t) c (screen_buf t)\<rparr>, draw_char_at fbi c (tcur_x t) (tcur_y t) t m)
      else (t, m))"

definition term_advance :: "fb_term \<Rightarrow> fb_term" where
  "term_advance t =
     (let t = t\<lparr>tcur_x := tcur_x t + 1\<rparr> in
      if tcur_x t \<ge> t_cols t then t\<lparr>tcur_x := 0, tcur_y := tcur_y t + 1\<rparr> else t)"

definition term_scroll :: "fb_info \<Rightarrow> fb_term \<Rightarrow> mem \<Rightarrow> fb_term \<times> mem" where
  "term_scroll fbi t m =
     (if tcur_y t \<ge> t_rows t then
        (let t = t\<lparr>screen_buf := scroll_buf (t_rows t) (t_cols t) (screen_buf t)\<rparr>;
             m = fb_term_redraw fbi t m
         in (t\<lparr>tcur_y := t_rows t - 1\<rparr>, m))
      else (t, m))"

text \<open>\<open>fb_term_putc\<close> for every character but the tab, which calls itself for the spaces.\<close>

definition term_put :: "fb_info \<Rightarrow> u8 \<Rightarrow> display \<Rightarrow> display" where
  "term_put fbi c d =
     (case d of (t, cu, m) \<Rightarrow>
        (let (cu, m) = fb_cursor_hide fbi cu m;
             (t, m) =
               (if c = 10 then term_scroll fbi (t\<lparr>tcur_x := 0, tcur_y := tcur_y t + 1\<rparr>) m
                else if c = 13 then term_scroll fbi (t\<lparr>tcur_x := 0\<rparr>) m
                else if c = 8 then
                  (if tcur_x t > 0 then term_store fbi 32 (t\<lparr>tcur_x := tcur_x t - 1\<rparr>) m else (t, m))
                else
                  (let (t, m) = term_store fbi c t m in term_scroll fbi (term_advance t) m))
         in (t, fb_cursor_show fbi cu m)))"

definition fb_term_putc :: "fb_info \<Rightarrow> u8 \<Rightarrow> display \<Rightarrow> display" where
  "fb_term_putc fbi c d =
     (if c = 9 then
        (case d of (t, cu, m) \<Rightarrow>
           (let (cu, m) = fb_cursor_hide fbi cu m;
                n = 4 - tcur_x t smod 4;
                (t, cu, m) = fold (\<lambda>_. term_put fbi 32) [0..<nat n] (t, cu, m)
            in (t, fb_cursor_show fbi cu m)))
      else term_put fbi c d)"

definition fb_term_write :: "fb_info \<Rightarrow> u8 list \<Rightarrow> display \<Rightarrow> display" where
  "fb_term_write fbi s d = fold (fb_term_putc fbi) s d"

section \<open>The text\<close>

definition text_of :: "nat \<Rightarrow> nat \<Rightarrow> (int \<Rightarrow> int \<Rightarrow> u8) \<Rightarrow> u8 list list" where
  "text_of rows cols buf = map (\<lambda>r. map (\<lambda>c. buf (int r) (int c)) [0..<cols]) [0..<rows]"

lemma text_of_simps [simp]:
  "length (text_of rows cols buf) = rows"
  "r < rows \<Longrightarrow> length (text_of rows cols buf ! r) = cols"
  "r < rows \<Longrightarrow> c < cols \<Longrightarrow> text_of rows cols buf ! r ! c = buf (int r) (int c)"
  by (simp_all add: text_of_def)

lemma text_eqI:
  assumes "length ls = rows" and "\<And>r. r < rows \<Longrightarrow> length (ls ! r) = cols"
    and "\<And>r c. r < rows \<Longrightarrow> c < cols \<Longrightarrow> ls ! r ! c = buf (int r) (int c)"
  shows "text_of rows cols buf = ls"
  by (rule nth_equalityI) (use assms in \<open>auto intro!: nth_equalityI\<close>)

lemma text_set_cell:
  assumes "y < rows"
  shows "text_of rows cols (set_cell (int y) (int x) ch buf) = (text_of rows cols buf)[y := (text_of rows cols buf ! y)[x := ch]]"
  by (rule text_eqI) (use assms in \<open>auto simp: nth_list_update set_cell_def\<close>)

lemma text_scroll_buf:
  assumes "0 < rows"
  shows "text_of rows cols (scroll_buf (int rows) (int cols) buf) = tl (text_of rows cols buf) @ [replicate cols 32]"
proof (rule text_eqI)
  fix r c assume r: "r < rows" "c < cols"
  show "(tl (text_of rows cols buf) @ [replicate cols 32]) ! r ! c = scroll_buf (int rows) (int cols) buf (int r) (int c)"
  proof (cases "r = rows - 1")
    case True
    then show ?thesis using r by (auto simp: nth_append nth_tl scroll_buf_def of_nat_diff)
  next
    case False
    then have "r < rows - 1" "int r < int rows - 1" using r by auto
    then show ?thesis using r by (simp add: nth_append nth_tl scroll_buf_def add.commute)
  qed
qed (use assms in \<open>auto simp: nth_append nth_tl\<close>)

text \<open>The terminal as a list of lines of width \<open>w\<close> with a cursor.\<close>

type_synonym text_state = "u8 list list \<times> nat \<times> nat"

definition text_wrap :: "nat \<Rightarrow> text_state \<Rightarrow> text_state" where
  "text_wrap w s = (case s of (ls, x, y) \<Rightarrow> if y < length ls then (ls, x, y) else (tl ls @ [replicate w 32], x, length ls - 1))"

definition text_put :: "nat \<Rightarrow> u8 \<Rightarrow> text_state \<Rightarrow> text_state" where
  "text_put w c s =
     (case s of (ls, x, y) \<Rightarrow>
        if c = 10 then text_wrap w (ls, 0, Suc y)
        else if c = 13 then (ls, 0, y)
        else if c = 8 then (if x = 0 then (ls, x, y) else (ls[y := (ls ! y)[x - 1 := 32]], x - 1, y))
        else
          (let ls = ls[y := (ls ! y)[x := c]] in
           if Suc x < w then (ls, Suc x, y) else text_wrap w (ls, 0, Suc y)))"

definition text_putc :: "nat \<Rightarrow> u8 \<Rightarrow> text_state \<Rightarrow> text_state" where
  "text_putc w c s = (if c = 9 then (text_put w 32 ^^ (4 - fst (snd s) mod 4)) s else text_put w c s)"

definition term_abs :: "fb_term \<Rightarrow> text_state" where
  "term_abs t = (text_of (nat (t_rows t)) (nat (t_cols t)) (screen_buf t), nat (tcur_x t), nat (tcur_y t))"

section \<open>The invariant\<close>

definition term_ok :: "fb_term \<Rightarrow> bool" where
  "term_ok t \<longleftrightarrow> 1 \<le> t_cols t \<and> t_cols t \<le> MAX_COLS \<and> 1 \<le> t_rows t \<and> t_rows t \<le> MAX_ROWS \<and>
     0 \<le> tcur_x t \<and> tcur_x t < t_cols t \<and> 0 \<le> tcur_y t \<and> tcur_y t < t_rows t \<and>
     small (region_x t) \<and> small (region_y t) \<and> region_x t + 8 * t_cols t \<le> 2 ^ 31 \<and> region_y t + 16 * t_rows t \<le> 2 ^ 31"

text \<open>The pixels of a cell show a character.\<close>

definition cell_shows :: "fb_info \<Rightarrow> fb_term \<Rightarrow> mem \<Rightarrow> int \<Rightarrow> int \<Rightarrow> u8 \<Rightarrow> bool" where
  "cell_shows fbi t m r c ch \<longleftrightarrow> (\<forall>j < 16. \<forall>i < 8.
     on_screen fbi (region_x t + 8 * c + int i) (region_y t + 16 * r + int j) \<longrightarrow>
     pixel fbi m (region_x t + 8 * c + int i) (region_y t + 16 * r + int j) = dot (font8x16 ch ! j) i (fg_color t) (bg_color t))"

definition term_shows :: "fb_info \<Rightarrow> fb_term \<Rightarrow> mem \<Rightarrow> bool" where
  "term_shows fbi t m \<longleftrightarrow> (\<forall>r c. 0 \<le> r \<longrightarrow> r < t_rows t \<longrightarrow> 0 \<le> c \<longrightarrow> c < t_cols t \<longrightarrow> cell_shows fbi t m r c (screen_buf t r c))"

definition display_inv :: "fb_info \<Rightarrow> display \<Rightarrow> bool" where
  "display_inv fbi d \<longleftrightarrow> (case d of (t, cu, m) \<Rightarrow>
     term_ok t \<and> pos_ok cu \<and> (\<exists>base. cursor_inv fbi base cu m \<and> term_shows fbi t base))"

section \<open>Drawing shows the text\<close>

lemma draw_glyph_paint:
  "draw_glyph fbi c px py fg bg m = paint fbi (cells px py CHAR_H CHAR_W (\<lambda>j i. True) (\<lambda>j i. dot (font8x16 c ! j) i fg bg)) m"
  unfolding draw_glyph_def by (rule paint_grid) simp

lemma draw_char_pixel:
  assumes ok: "fb_ok fbi" and t: "small (region_x t)" "small (region_y t)" "region_x t + 8 * t_cols t \<le> 2 ^ 31" "region_y t + 16 * t_rows t \<le> 2 ^ 31"
    and c: "0 \<le> col" "col < t_cols t" "0 \<le> row" "row < t_rows t" and s: "on_screen fbi u v"
  shows "pixel fbi (draw_char_at fbi ch col row t m) u v =
    (let px = region_x t + 8 * col; py = region_y t + 16 * row in
     if px \<le> u \<and> u < px + 8 \<and> py \<le> v \<and> v < py + 16
     then dot (font8x16 ch ! nat (v - py)) (nat (u - px)) (fg_color t) (bg_color t) else pixel fbi m u v)"
proof -
  have WH: "int CHAR_W = 8" "int CHAR_H = 16" by (simp_all add: CHAR_W_def CHAR_H_def)
  let ?x = "region_x t + col * 8" and ?y = "region_y t + row * 16"
  have b: "small ?x" "small ?y" "?x + int CHAR_W \<le> 2 ^ 31" "?y + int CHAR_H \<le> 2 ^ 31"
    using t c unfolding small_def WH by linarith+
  show ?thesis
    unfolding draw_char_at_def draw_glyph_paint WH paint_grid_pixel [OF ok b s] unfolding WH by (simp add: Let_def mult.commute)
qed

lemma draw_char_shows:
  assumes ok: "fb_ok fbi" and t: "small (region_x t)" "small (region_y t)" "region_x t + 8 * t_cols t \<le> 2 ^ 31" "region_y t + 16 * t_rows t \<le> 2 ^ 31"
    and c: "0 \<le> col" "col < t_cols t" "0 \<le> row" "row < t_rows t"
  shows "cell_shows fbi t (draw_char_at fbi ch col row t m) row col ch"
    and "(r', c') \<noteq> (row, col) \<Longrightarrow> cell_shows fbi t (draw_char_at fbi ch col row t m) r' c' ch' = cell_shows fbi t m r' c' ch'"
proof -
  show "cell_shows fbi t (draw_char_at fbi ch col row t m) row col ch"
    by (simp add: cell_shows_def draw_char_pixel [OF assms])
  have "pixel fbi (draw_char_at fbi ch col row t m) (region_x t + 8 * c' + int i) (region_y t + 16 * r' + int j) =
      pixel fbi m (region_x t + 8 * c' + int i) (region_y t + 16 * r' + int j)"
    if "(r', c') \<noteq> (row, col)" "i < 8" "j < 16" "on_screen fbi (region_x t + 8 * c' + int i) (region_y t + 16 * r' + int j)" for i j
  proof -
    have "\<not> (8 * col \<le> 8 * c' + int i \<and> 8 * c' + int i < 8 * col + 8 \<and> 16 * row \<le> 16 * r' + int j \<and> 16 * r' + int j < 16 * row + 16)"
    proof
      assume "8 * col \<le> 8 * c' + int i \<and> 8 * c' + int i < 8 * col + 8 \<and> 16 * row \<le> 16 * r' + int j \<and> 16 * r' + int j < 16 * row + 16"
      then have "col = c'" "row = r'" using that(2,3) by linarith+
      then show False using that(1) by simp
    qed
    then show ?thesis unfolding draw_char_pixel [OF assms that(4)] Let_def by (intro if_not_P) linarith
  qed
  then show "(r', c') \<noteq> (row, col) \<Longrightarrow> cell_shows fbi t (draw_char_at fbi ch col row t m) r' c' ch' = cell_shows fbi t m r' c' ch'"
    by (auto simp: cell_shows_def)
qed

lemma redraw_shows:
  assumes ok: "fb_ok fbi" and t: "small (region_x t)" "small (region_y t)" "region_x t + 8 * t_cols t \<le> 2 ^ 31" "region_y t + 16 * t_rows t \<le> 2 ^ 31"
  shows "term_shows fbi t (fb_term_redraw fbi t m)"
proof -
  let ?draw = "\<lambda>(r, c). draw_char_at fbi (screen_buf t (int r) (int c)) (int c) (int r) t"
  have run: "fb_term_redraw fbi t m = fold ?draw (grid (nat (t_rows t)) (nat (t_cols t)) Pair) m"
    unfolding fb_term_redraw_def fold_grid by simp
  have gen: "\<forall>(r, c) \<in> set xs. cell_shows fbi t (fold ?draw xs m) (int r) (int c) (screen_buf t (int r) (int c))"
    if "\<forall>(r, c) \<in> set xs. int r < t_rows t \<and> int c < t_cols t" for xs
    using that
  proof (induction xs rule: rev_induct)
    case (snoc p xs)
    obtain r c where p: "p = (r, c)" by (cases p)
    have b: "0 \<le> int c" "int c < t_cols t" "0 \<le> int r" "int r < t_rows t" using snoc.prems by (auto simp: p)
    have IH: "\<And>r' c'. (r', c') \<in> set xs \<Longrightarrow> cell_shows fbi t (fold ?draw xs m) (int r') (int c') (screen_buf t (int r') (int c'))"
      using snoc by auto
    have "cell_shows fbi t (?draw p (fold ?draw xs m)) (int r') (int c') (screen_buf t (int r') (int c'))" if "(r', c') \<in> set (xs @ [p])" for r' c'
    proof (cases "(r', c') = p")
      case True
      then show ?thesis using draw_char_shows(1) [OF ok t b] by (auto simp: p)
    next
      case False
      then have "(int r', int c') \<noteq> (int r, int c)" "(r', c') \<in> set xs" using that by (auto simp: p)
      then show ?thesis using draw_char_shows(2) [OF ok t b] IH by (auto simp: p)
    qed
    then show ?case by auto
  qed simp
  have all: "\<forall>(r, c) \<in> set (grid (nat (t_rows t)) (nat (t_cols t)) Pair).
      cell_shows fbi t (fb_term_redraw fbi t m) (int r) (int c) (screen_buf t (int r) (int c))"
    unfolding run by (rule gen) (auto simp: set_grid)
  show ?thesis
    unfolding term_shows_def
  proof (intro allI impI)
    fix r c assume r: "0 \<le> r" "r < t_rows t" "0 \<le> c" "c < t_cols t"
    then have "(nat r, nat c) \<in> set (grid (nat (t_rows t)) (nat (t_cols t)) Pair)" by (auto simp: set_grid)
    then show "cell_shows fbi t (fb_term_redraw fbi t m) r c (screen_buf t r c)" using all r by fastforce
  qed
qed

section \<open>The steps\<close>

definition layout_ok :: "fb_term \<Rightarrow> bool" where
  "layout_ok t \<longleftrightarrow> 1 \<le> t_cols t \<and> t_cols t \<le> MAX_COLS \<and> 1 \<le> t_rows t \<and> t_rows t \<le> MAX_ROWS \<and>
     small (region_x t) \<and> small (region_y t) \<and> region_x t + 8 * t_cols t \<le> 2 ^ 31 \<and> region_y t + 16 * t_rows t \<le> 2 ^ 31"

lemma term_ok_layout: "term_ok t \<longleftrightarrow> layout_ok t \<and> 0 \<le> tcur_x t \<and> tcur_x t < t_cols t \<and> 0 \<le> tcur_y t \<and> tcur_y t < t_rows t"
  by (auto simp: term_ok_def layout_ok_def)

definition layout :: "fb_term \<Rightarrow> int \<times> int \<times> int \<times> int \<times> int \<times> int \<times> u32 \<times> u32" where
  "layout t = (region_x t, region_y t, region_w t, region_h t, t_cols t, t_rows t, fg_color t, bg_color t)"

lemma layout_simps [simp]:
  "layout (t\<lparr>tcur_x := x\<rparr>) = layout t" "layout (t\<lparr>tcur_y := y\<rparr>) = layout t" "layout (t\<lparr>screen_buf := b\<rparr>) = layout t"
  "layout_ok (t\<lparr>tcur_x := x\<rparr>) = layout_ok t" "layout_ok (t\<lparr>tcur_y := y\<rparr>) = layout_ok t" "layout_ok (t\<lparr>screen_buf := b\<rparr>) = layout_ok t"
  "term_shows fbi (t\<lparr>tcur_x := x\<rparr>) m = term_shows fbi t m" "term_shows fbi (t\<lparr>tcur_y := y\<rparr>) m = term_shows fbi t m"
  "cell_shows fbi (t\<lparr>screen_buf := b\<rparr>) m r c ch = cell_shows fbi t m r c ch"
  by (simp_all add: layout_def layout_ok_def term_shows_def cell_shows_def)

lemma store_step:
  assumes ok: "fb_ok fbi" and t: "term_ok t" and sh: "term_shows fbi t m" and st: "term_store fbi c t m = (t', m')"
  shows "term_ok t' \<and> term_shows fbi t' m' \<and> layout t' = layout t \<and> tcur_x t' = tcur_x t \<and> tcur_y t' = tcur_y t \<and>
    text_of (nat (t_rows t)) (nat (t_cols t)) (screen_buf t') =
      (let ls = text_of (nat (t_rows t)) (nat (t_cols t)) (screen_buf t) in ls[nat (tcur_y t) := (ls ! nat (tcur_y t))[nat (tcur_x t) := c]])"
proof -
  have b: "0 \<le> tcur_x t" "tcur_x t < t_cols t" "0 \<le> tcur_y t" "tcur_y t < t_rows t"
    and l: "small (region_x t)" "small (region_y t)" "region_x t + 8 * t_cols t \<le> 2 ^ 31" "region_y t + 16 * t_rows t \<le> 2 ^ 31"
    using t by (simp_all add: term_ok_def)
  have eq: "t' = t\<lparr>screen_buf := set_cell (tcur_y t) (tcur_x t) c (screen_buf t)\<rparr>" "m' = draw_char_at fbi c (tcur_x t) (tcur_y t) t m"
    using st b by (auto simp: term_store_def)
  note d = draw_char_shows [OF ok l b]
  have "cell_shows fbi t m' r k (screen_buf t' r k)" if "0 \<le> r" "r < t_rows t" "0 \<le> k" "k < t_cols t" for r k
  proof (cases "(r, k) = (tcur_y t, tcur_x t)")
    case True
    then show ?thesis using d(1) by (simp add: eq set_cell_def)
  next
    case False
    then have "screen_buf t' r k = screen_buf t r k" by (auto simp: eq set_cell_def)
    then show ?thesis using d(2) [OF False] sh that by (simp add: eq term_shows_def)
  qed
  then have "term_shows fbi t' m'" by (simp add: term_shows_def eq(1))
  moreover have "text_of (nat (t_rows t)) (nat (t_cols t)) (screen_buf t') =
      (let ls = text_of (nat (t_rows t)) (nat (t_cols t)) (screen_buf t) in ls[nat (tcur_y t) := (ls ! nat (tcur_y t))[nat (tcur_x t) := c]])"
    using text_set_cell [of "nat (tcur_y t)" "nat (t_rows t)" "nat (t_cols t)" "nat (tcur_x t)" c "screen_buf t"] b
    by (simp add: eq Let_def)
  ultimately show ?thesis using t by (simp add: eq(1) term_ok_layout)
qed

lemma scroll_step:
  assumes ok: "fb_ok fbi" and l: "layout_ok t" and x: "0 \<le> tcur_x t" "tcur_x t < t_cols t" and y: "0 \<le> tcur_y t" "tcur_y t \<le> t_rows t"
    and sh: "term_shows fbi t m" and st: "term_scroll fbi t m = (t', m')"
  shows "term_ok t' \<and> term_shows fbi t' m' \<and> layout t' = layout t \<and> term_abs t' = text_wrap (nat (t_cols t)) (term_abs t)"
proof (cases "tcur_y t < t_rows t")
  case True
  then show ?thesis using st assms by (auto simp: term_scroll_def term_ok_layout term_abs_def text_wrap_def)
next
  case False
  let ?b = "scroll_buf (t_rows t) (t_cols t) (screen_buf t)"
  have eq: "t' = t\<lparr>screen_buf := ?b, tcur_y := t_rows t - 1\<rparr>" "m' = fb_term_redraw fbi (t\<lparr>screen_buf := ?b\<rparr>) m"
    using st False by (auto simp: term_scroll_def Let_def)
  have "term_shows fbi (t\<lparr>screen_buf := ?b\<rparr>) m'"
    unfolding eq by (rule redraw_shows [OF ok]) (use l in \<open>simp_all add: layout_ok_def\<close>)
  then have "term_shows fbi t' m'" by (simp add: eq(1))
  moreover have "term_ok t'" using l x by (simp add: eq(1) term_ok_layout layout_ok_def)
  moreover have "1 \<le> t_rows t" "1 \<le> t_cols t" using l by (simp_all add: layout_ok_def)
  then have "text_of (nat (t_rows t)) (nat (t_cols t)) ?b = tl (text_of (nat (t_rows t)) (nat (t_cols t)) (screen_buf t)) @ [replicate (nat (t_cols t)) 32]"
    using text_scroll_buf [of "nat (t_rows t)" "nat (t_cols t)" "screen_buf t"] by simp
  then have "term_abs t' = text_wrap (nat (t_cols t)) (term_abs t)"
    using False y by (simp add: eq(1) term_abs_def text_wrap_def nat_diff_distrib)
  ultimately show ?thesis by (simp add: eq(1))
qed

lemma layout_eqD: "layout t' = layout t \<Longrightarrow> t_cols t' = t_cols t \<and> t_rows t' = t_rows t"
  by (simp add: layout_def)

text \<open>The part of \<open>fb_term_putc\<close> between hiding and showing the pointer.\<close>

definition put_body :: "fb_info \<Rightarrow> u8 \<Rightarrow> fb_term \<Rightarrow> mem \<Rightarrow> fb_term \<times> mem" where
  "put_body fbi c t m =
     (if c = 10 then term_scroll fbi (t\<lparr>tcur_x := 0, tcur_y := tcur_y t + 1\<rparr>) m
      else if c = 13 then term_scroll fbi (t\<lparr>tcur_x := 0\<rparr>) m
      else if c = 8 then
        (if tcur_x t > 0 then term_store fbi 32 (t\<lparr>tcur_x := tcur_x t - 1\<rparr>) m else (t, m))
      else
        (let (t, m) = term_store fbi c t m in term_scroll fbi (term_advance t) m))"

lemma advance_step:
  assumes ok: "fb_ok fbi" and t: "term_ok t" and sh: "term_shows fbi t m" and st: "term_scroll fbi (term_advance t) m = (t', m')"
  shows "term_ok t' \<and> term_shows fbi t' m' \<and> layout t' = layout t \<and>
    term_abs t' = (case term_abs t of (ls, x, y) \<Rightarrow> if Suc x < nat (t_cols t) then (ls, Suc x, y) else text_wrap (nat (t_cols t)) (ls, 0, Suc y))"
proof -
  have l: "layout_ok t" and b: "0 \<le> tcur_x t" "tcur_x t < t_cols t" "0 \<le> tcur_y t" "tcur_y t < t_rows t" using t by (simp_all add: term_ok_layout)
  show ?thesis
  proof (cases "tcur_x t + 1 < t_cols t")
    case True
    then have a: "term_advance t = t\<lparr>tcur_x := tcur_x t + 1\<rparr>" by (simp add: term_advance_def)
    have "term_scroll fbi (term_advance t) m = (t\<lparr>tcur_x := tcur_x t + 1\<rparr>, m)" using b by (simp add: a term_scroll_def)
    then have "t' = t\<lparr>tcur_x := tcur_x t + 1\<rparr>" "m' = m" using st by auto
    then show ?thesis using True t sh b by (simp add: term_ok_layout term_abs_def Suc_nat_eq_nat_zadd1 add.commute)
  next
    case False
    then have a: "term_advance t = t\<lparr>tcur_x := 0, tcur_y := tcur_y t + 1\<rparr>" by (simp add: term_advance_def)
    have w: "\<not> Suc (nat (tcur_x t)) < nat (t_cols t)" using False b by linarith
    have "term_ok t' \<and> term_shows fbi t' m' \<and> layout t' = layout (term_advance t) \<and>
        term_abs t' = text_wrap (nat (t_cols (term_advance t))) (term_abs (term_advance t))"
      by (rule scroll_step [OF ok _ _ _ _ _ _ st]) (use l b sh in \<open>simp_all add: a layout_ok_def\<close>)
    then show ?thesis using w b by (simp add: a term_abs_def Suc_nat_eq_nat_zadd1 add.commute)
  qed
qed

lemma put_body_step:
  assumes ok: "fb_ok fbi" and t: "term_ok t" and sh: "term_shows fbi t m" and st: "put_body fbi c t m = (t', m')"
  shows "term_ok t' \<and> term_shows fbi t' m' \<and> layout t' = layout t \<and> term_abs t' = text_put (nat (t_cols t)) c (term_abs t)"
proof -
  have l: "layout_ok t" and b: "0 \<le> tcur_x t" "tcur_x t < t_cols t" "0 \<le> tcur_y t" "tcur_y t < t_rows t" using t by (simp_all add: term_ok_layout)
  have c1: "1 \<le> t_cols t" using l by (simp add: layout_ok_def)
  consider (nl) "c = 10" | (cr) "c = 13" | (bs) "c = 8" "0 < tcur_x t" | (start) "c = 8" "tcur_x t = 0" | (ch) "c \<noteq> 10" "c \<noteq> 13" "c \<noteq> 8"
    using b by fastforce
  then show ?thesis
  proof cases
    case nl
    let ?u = "t\<lparr>tcur_x := 0, tcur_y := tcur_y t + 1\<rparr>"
    have "term_scroll fbi ?u m = (t', m')" using st nl by (simp add: put_body_def)
    from scroll_step [OF ok _ _ _ _ _ _ this] have "term_ok t' \<and> term_shows fbi t' m' \<and> layout t' = layout ?u \<and>
        term_abs t' = text_wrap (nat (t_cols ?u)) (term_abs ?u)"
      using l b c1 sh by simp
    then show ?thesis using b by (simp add: nl term_abs_def text_put_def Suc_nat_eq_nat_zadd1 add.commute)
  next
    case cr
    then have "t' = t\<lparr>tcur_x := 0\<rparr>" "m' = m" using st b by (auto simp: put_body_def term_scroll_def)
    then show ?thesis using l b c1 sh cr by (simp add: term_ok_layout term_abs_def text_put_def)
  next
    case bs
    let ?u = "t\<lparr>tcur_x := tcur_x t - 1\<rparr>"
    have s: "term_store fbi 32 ?u m = (t', m')" using st bs by (simp add: put_body_def)
    have "term_ok ?u" using l b bs by (simp add: term_ok_layout)
    from store_step [OF ok this _ s] show ?thesis
      using sh bs b by (simp add: term_abs_def text_put_def Let_def nat_diff_distrib layout_def)
  next
    case start
    then show ?thesis using st t sh by (auto simp: put_body_def term_abs_def text_put_def)
  next
    case ch
    obtain t1 m1 where s: "term_store fbi c t m = (t1, m1)" by fastforce
    note k = store_step [OF ok t sh s]
    have "term_scroll fbi (term_advance t1) m1 = (t', m')" using st ch s by (simp add: put_body_def)
    from advance_step [OF ok _ _ this] k
    have "term_ok t' \<and> term_shows fbi t' m' \<and> layout t' = layout t \<and> term_abs t' = (case term_abs t1 of (ls, x, y) \<Rightarrow>
        if Suc x < nat (t_cols t1) then (ls, Suc x, y) else text_wrap (nat (t_cols t1)) (ls, 0, Suc y))" by simp
    then show ?thesis using k layout_eqD [of t1 t] ch by (simp add: term_abs_def text_put_def Let_def)
  qed
qed

lemma term_put_body:
  "term_put fbi c (t, cu, m) =
     (let (cu, m) = fb_cursor_hide fbi cu m; (t, m) = put_body fbi c t m in (t, fb_cursor_show fbi cu m))"
  by (simp add: term_put_def put_body_def)

lemma term_put_step:
  assumes ok: "fb_ok fbi" and inv: "display_inv fbi (t, cu, m)" and run: "term_put fbi c (t, cu, m) = (t', cu', m')"
  shows "display_inv fbi (t', cu', m') \<and> layout t' = layout t \<and> cur_visible cu' \<and> term_abs t' = text_put (nat (t_cols t)) c (term_abs t)"
proof -
  obtain base where t: "term_ok t" and pos: "pos_ok cu" and cu: "cursor_inv fbi base cu m" and sh: "term_shows fbi t base"
    using inv by (auto simp: display_inv_def)
  let ?cu = "cu\<lparr>cur_visible := False\<rparr>"
  obtain t1 m1 where b: "put_body fbi c t base = (t1, m1)" by fastforce
  have s: "fb_cursor_show fbi ?cu m1 = (cu', m')" and t': "t' = t1"
    using run unfolding term_put_body by (simp_all add: hide_inv [OF ok pos cu] b Let_def)
  have p: "pos_ok ?cu" "cursor_inv fbi m1 ?cu m1" using pos by (simp_all add: pos_ok_def cursor_inv_def)
  show ?thesis using put_body_step [OF ok t sh b] show_inv [OF ok p s] by (auto simp: display_inv_def t')
qed

lemma term_puts_step:
  assumes ok: "fb_ok fbi" and "display_inv fbi (t, cu, m)" and "fold (\<lambda>_. term_put fbi c) xs (t, cu, m) = (t', cu', m')"
  shows "display_inv fbi (t', cu', m') \<and> layout t' = layout t \<and> term_abs t' = (text_put (nat (t_cols t)) c ^^ length xs) (term_abs t)"
  using assms(2,3)
proof (induction xs arbitrary: t cu m)
  case (Cons x xs)
  obtain t1 cu1 m1 where s: "term_put fbi c (t, cu, m) = (t1, cu1, m1)" by (metis prod.collapse)
  note k = term_put_step [OF ok Cons.prems(1) s]
  have "display_inv fbi (t', cu', m') \<and> layout t' = layout t1 \<and> term_abs t' = (text_put (nat (t_cols t1)) c ^^ length xs) (term_abs t1)"
    using Cons.IH [of t1 cu1 m1] Cons.prems(2) s k by simp
  then show ?case using k layout_eqD [of t1 t] by (simp add: funpow_swap1)
qed simp

lemma display_hidden:
  assumes ok: "fb_ok fbi" and inv: "display_inv fbi (t, cu, m)" and h: "fb_cursor_hide fbi cu m = (cu1, m1)"
  shows "display_inv fbi (t, cu1, m1)"
proof -
  obtain base where b: "term_ok t" "pos_ok cu" "cursor_inv fbi base cu m" "term_shows fbi t base" using inv by (auto simp: display_inv_def)
  then have "cu1 = cu\<lparr>cur_visible := False\<rparr>" "m1 = base" using hide_inv [OF ok b(2,3)] h by auto
  then show ?thesis using b by (auto simp: display_inv_def pos_ok_def cursor_inv_def)
qed

lemma display_shown:
  assumes ok: "fb_ok fbi" and inv: "display_inv fbi (t, cu, m)" and h: "fb_cursor_show fbi cu m = (cu1, m1)"
  shows "display_inv fbi (t, cu1, m1)"
proof -
  obtain base where b: "term_ok t" "pos_ok cu" "cursor_inv fbi base cu m" "term_shows fbi t base" using inv by (auto simp: display_inv_def)
  then show ?thesis using show_inv [OF ok b(2,3) h] by (auto simp: display_inv_def)
qed

lemma smod_4: "0 \<le> x \<Longrightarrow> x smod 4 = x mod (4 :: int)"
  by (simp add: signed_modulo_int_def signed_divide_int_def minus_mult_div_eq_mod [symmetric] sgn_if)

lemma putc_step:
  assumes ok: "fb_ok fbi" and inv: "display_inv fbi (t, cu, m)" and run: "fb_term_putc fbi c (t, cu, m) = (t', cu', m')"
  shows "display_inv fbi (t', cu', m') \<and> layout t' = layout t \<and> term_abs t' = text_putc (nat (t_cols t)) c (term_abs t)"
proof (cases "c = 9")
  case True
  obtain cu1 m1 where h: "fb_cursor_hide fbi cu m = (cu1, m1)" by fastforce
  let ?n = "nat (4 - tcur_x t smod 4)"
  obtain t2 cu2 m2 where f: "fold (\<lambda>_. term_put fbi 32) [0..<?n] (t, cu1, m1) = (t2, cu2, m2)" by (metis prod.collapse)
  have r: "t' = t2" "fb_cursor_show fbi cu2 m2 = (cu', m')" using run True h f by (auto simp: fb_term_putc_def)
  note k = term_puts_step [OF ok display_hidden [OF ok inv h] f]
  have "0 \<le> tcur_x t" using inv by (auto simp: display_inv_def term_ok_def)
  then have "?n = 4 - nat (tcur_x t) mod 4" by (simp add: smod_4 nat_diff_distrib nat_mod_distrib)
  then have "term_abs t2 = text_putc (nat (t_cols t)) 9 (term_abs t)" using k by (simp add: text_putc_def term_abs_def)
  then show ?thesis using k display_shown [OF ok _ r(2), of t2] r(1) True by simp
next
  case False
  then show ?thesis using term_put_step [OF ok inv] run by (simp add: fb_term_putc_def text_putc_def)
qed

text \<open>
  C31. The framebuffer terminal is a text screen.  Whatever bytes are written, every access to the
  buffer stays inside, the text and the cursor change as the list of lines does (line feed,
  carriage return, backspace, tab stops every four columns, wrapping and scrolling), and afterwards, below the
  mouse pointer, every visible pixel of the region shows the glyphs of exactly that text.
\<close>

theorem fb_term_write_refines:
  assumes ok: "fb_ok fbi" and inv: "display_inv fbi (t, cu, m)" and run: "fb_term_write fbi s (t, cu, m) = (t', cu', m')"
  shows "display_inv fbi (t', cu', m') \<and> layout t' = layout t \<and> term_abs t' = fold (text_putc (nat (t_cols t))) s (term_abs t)"
  using inv run
proof (induction s arbitrary: t cu m)
  case (Cons c s)
  obtain t1 cu1 m1 where p: "fb_term_putc fbi c (t, cu, m) = (t1, cu1, m1)" by (metis prod.collapse)
  note k = putc_step [OF ok Cons.prems(1) p]
  have "display_inv fbi (t', cu', m') \<and> layout t' = layout t1 \<and> term_abs t' = fold (text_putc (nat (t_cols t1))) s (term_abs t1)"
    using Cons.IH [of t1 cu1 m1] Cons.prems(2) p k by (simp add: fb_term_write_def)
  then show ?case using k layout_eqD [of t1 t] by simp
qed (simp add: fb_term_write_def)

lemma cleared_shows:
  assumes "fb_ok fbi" and "layout_ok t"
  shows "term_shows fbi t (fb_term_redraw fbi t m)"
  by (rule redraw_shows [OF assms(1)]) (use assms(2) in \<open>simp_all add: layout_ok_def\<close>)

definition demo_term :: fb_term where
  "demo_term = fb_term_init demo_fb \<lparr>region_x = 0, region_y = 0, region_w = 0, region_h = 0, t_cols = 0, t_rows = 0,
     tcur_x = 0, tcur_y = 0, fg_color = 0, bg_color = 0, screen_buf = (\<lambda>_ _. 0)\<rparr>"

lemma demo_display: "display_inv demo_fb (demo_term, demo_cursor, fb_term_redraw demo_fb demo_term (\<lambda>_. 0))"
proof -
  have "sint (640 div 8 :: u32) = 80" "sint (480 div 8 :: u32) = 60" "sint (480 div 16 :: u32) = 30" by simp_all
  then have l: "t_cols demo_term = 80" "t_rows demo_term = 30" "region_x demo_term = 0" "region_y demo_term = 0" "tcur_x demo_term = 0" "tcur_y demo_term = 0"
    by (simp_all add: demo_term_def fb_term_init_def demo_fb_def CHAR_W_def CHAR_H_def MAX_COLS_def MAX_ROWS_def Let_def)
  then have "term_ok demo_term" by (simp add: term_ok_def small_def MAX_COLS_def MAX_ROWS_def)
  moreover have "pos_ok demo_cursor" "\<not> cur_visible demo_cursor" by (simp_all add: pos_ok_def small_def demo_cursor_def)
  ultimately show ?thesis
    using cleared_shows [OF demo_fb_ok, of demo_term "\<lambda>_. 0"] by (auto simp: display_inv_def cursor_inv_def term_ok_layout)
qed

theorem fb_term_write_refines_witness:
  "case fb_term_write demo_fb [72, 105, 10] (demo_term, demo_cursor, fb_term_redraw demo_fb demo_term (\<lambda>_. 0)) of
     (t, cu, m) \<Rightarrow> display_inv demo_fb (t, cu, m) \<and> term_abs t = fold (text_putc (nat (t_cols demo_term))) [72, 105, 10] (term_abs demo_term)"
proof -
  obtain t cu m where run: "fb_term_write demo_fb [72, 105, 10] (demo_term, demo_cursor, fb_term_redraw demo_fb demo_term (\<lambda>_. 0)) = (t, cu, m)"
    by (metis prod.collapse)
  show ?thesis using fb_term_write_refines [OF demo_fb_ok demo_display run] unfolding run by simp
qed

end
