(* ===== verification/Printf.thy ===== *)
theory Printf
  imports Ata Keyboard
begin

text \<open>
  Formatted output: the serial port, \<open>kernel/drivers/serial.c\<close>, and the \<open>printf\<close> of the user
  library, \<open>user/lib/stdio.c\<close>, which repeats the same code over system calls.  A format is the
  list of its bytes without the NUL; the variable arguments are a list of values.  The kernel's
  functions are modelled by the bytes they send, the user's by the \<open>sys_write\<close> calls they make.
  \<open>None\<close> is undefined behaviour of the C code: a digit buffer of 32 bytes that overflows, a width
  that overflows an \<open>int\<close>, a missing argument, and the loop that steps over the NUL of a format
  whose last directive is incomplete.
\<close>

abbreviation ch :: "char \<Rightarrow> u8" where
  "ch c \<equiv> of_char c"

section \<open>Numbers\<close>

definition hex_digits :: "u8 list" where
  "hex_digits = ascii ''0123456789abcdef''"

text \<open>The digits, least significant first.  The base is 10 or 16; the loop needs it to be at least 2.\<close>

function uint_digits :: "u64 \<Rightarrow> u64 \<Rightarrow> u8 list" where
  "uint_digits base v = (if v = 0 \<or> base < 2 then [] else hex_digits ! unat (v mod base) # uint_digits base (v div base))"
  by auto
termination
proof (relation "measure (\<lambda>(base, v). unat v)")
  fix base v :: u64
  assume "\<not> (v = 0 \<or> base < 2)"
  then have "0 < unat v" "2 \<le> unat base" by (auto simp: word_less_nat_alt unat_gt_0)
  then show "((base, v div base), (base, v)) \<in> measure (\<lambda>(base, v). unat v)" by (simp add: unat_div)
qed simp

declare uint_digits.simps [simp del]

definition print_uint :: "u64 \<Rightarrow> u64 \<Rightarrow> int \<Rightarrow> u8 \<Rightarrow> u8 list option" where
  "print_uint v base width pad =
     (let ds = (if v = 0 then [ch CHR ''0''] else uint_digits base v);
          buf = ds @ replicate (nat width - length ds) pad in
      if length buf \<le> 32 then Some (rev buf) else None)"

definition print_int :: "u64 \<Rightarrow> int \<Rightarrow> u8 \<Rightarrow> u8 list option" where
  "print_int v width pad =
     (if v <s 0 then map_option (\<lambda>s. ch CHR ''-'' # s) (print_uint (- v) 10 (if width > 0 then width - 1 else 0) pad)
      else print_uint v 10 width pad)"

section \<open>Directives\<close>

datatype arg = A_int u64 | A_str "u8 list option"

definition is_digit :: "u8 \<Rightarrow> bool" where
  "is_digit c \<longleftrightarrow> ch CHR ''0'' \<le> c \<and> c \<le> ch CHR ''9''"

fun scan_width :: "int \<Rightarrow> u8 list \<Rightarrow> (int \<times> u8 list) option" where
  "scan_width n [] = Some (n, [])"
| "scan_width n (c # s) =
     (if is_digit c then
        (let n = n * 10 + int (unat (c - ch CHR ''0'')) in if n < 2 ^ 31 then scan_width n s else None)
      else Some (n, c # s))"

text \<open>What stands between the percent sign and the conversion: padding, width, length.\<close>

definition scan_spec :: "u8 list \<Rightarrow> (u8 \<times> int \<times> bool \<times> u8 list) option" where
  "scan_spec s =
     (let (pad, s) = (case s of c # s' \<Rightarrow> if c = ch CHR ''0'' then (ch CHR ''0'', s') else (ch CHR '' '', s) | [] \<Rightarrow> (ch CHR '' '', s)) in
      case scan_width 0 s of
        None \<Rightarrow> None
      | Some (width, s) \<Rightarrow>
          (case s of
             c # s' \<Rightarrow>
               if c = ch CHR ''l'' then
                 Some (pad, width, True, case s' of d # s'' \<Rightarrow> if d = ch CHR ''l'' then s'' else s' | [] \<Rightarrow> s')
               else Some (pad, width, False, s)
           | [] \<Rightarrow> Some (pad, width, False, s)))"

definition signed_arg :: "bool \<Rightarrow> u64 \<Rightarrow> u64" where
  "signed_arg is_long v = (if is_long then v else scast (ucast v :: u32))"

definition unsigned_arg :: "bool \<Rightarrow> u64 \<Rightarrow> u64" where
  "unsigned_arg is_long v = (if is_long then v else ucast (ucast v :: u32))"

definition convert :: "u8 \<Rightarrow> u8 \<Rightarrow> int \<Rightarrow> bool \<Rightarrow> arg list \<Rightarrow> (u8 list \<times> arg list) option" where
  "convert f pad width is_long args =
     (if f = ch CHR ''c'' then (case args of A_int v # as \<Rightarrow> Some ([ucast v], as) | _ \<Rightarrow> None)
      else if f = ch CHR ''s'' then
        (case args of A_str s # as \<Rightarrow> Some (case s of None \<Rightarrow> ascii ''(null)'' | Some s \<Rightarrow> s, as) | _ \<Rightarrow> None)
      else if f = ch CHR ''d'' \<or> f = ch CHR ''i'' then
        (case args of A_int v # as \<Rightarrow> map_option (\<lambda>s. (s, as)) (print_int (signed_arg is_long v) width pad) | _ \<Rightarrow> None)
      else if f = ch CHR ''u'' then
        (case args of A_int v # as \<Rightarrow> map_option (\<lambda>s. (s, as)) (print_uint (unsigned_arg is_long v) 10 width pad) | _ \<Rightarrow> None)
      else if f = ch CHR ''x'' then
        (case args of A_int v # as \<Rightarrow> map_option (\<lambda>s. (s, as)) (print_uint (unsigned_arg is_long v) 16 width pad) | _ \<Rightarrow> None)
      else if f = ch CHR ''p'' then
        (case args of A_int v # as \<Rightarrow> map_option (\<lambda>s. (ascii ''0x'' @ s, as)) (print_uint v 16 16 (ch CHR ''0'')) | _ \<Rightarrow> None)
      else if f = ch CHR ''%'' then Some ([ch CHR ''%''], args)
      else Some ([ch CHR ''%'', f], args))"

lemma scan_width_length: "scan_width n s = Some (w, s') \<Longrightarrow> length s' \<le> length s"
  by (induction s arbitrary: n) (auto simp: Let_def le_Suc_eq split: if_splits)

lemma scan_spec_length: "scan_spec s = Some (pad, width, is_long, s') \<Longrightarrow> length s' \<le> length s"
  by (auto simp: scan_spec_def Let_def split: list.splits if_splits option.splits prod.splits dest!: scan_width_length)

function serial_vprintf :: "u8 list \<Rightarrow> arg list \<Rightarrow> u8 list option" where
  "serial_vprintf [] args = Some []"
| "serial_vprintf (c # s) args =
     (if c \<noteq> ch CHR ''%'' then map_option ((#) c) (serial_vprintf s args)
      else
        (case scan_spec s of
           None \<Rightarrow> None
         | Some (pad, width, is_long, rest) \<Rightarrow>
             (case rest of
                [] \<Rightarrow> None
              | f # s' \<Rightarrow>
                  (case convert f pad width is_long args of
                     None \<Rightarrow> None
                   | Some (s, args') \<Rightarrow> map_option ((@) s) (serial_vprintf s' args')))))"
  by pat_completeness auto
termination
  by (relation "measure (\<lambda>(s, _). length s)") (auto dest!: scan_spec_length)

section \<open>The serial port\<close>

definition serial_init :: "'v ports \<Rightarrow> 'v \<Rightarrow> 'v" where
  "serial_init P v =
     fold (\<lambda>(p, b). p_outb P p b)
       [(0x3F8 + 1, 0x00), (0x3F8 + 3, 0x80), (0x3F8 + 0, 0x03), (0x3F8 + 1, 0x00), (0x3F8 + 3, 0x03), (0x3F8 + 2, 0xC7), (0x3F8 + 4, 0x0B)] v"

partial_function (option) serial_ready :: "'v ports \<Rightarrow> 'v \<Rightarrow> 'v option" where
  "serial_ready P v = (case p_inb P (0x3F8 + 5) v of (s, v) \<Rightarrow> if s AND 0x20 = 0 then serial_ready P v else Some v)"

definition serial_putc :: "'v ports \<Rightarrow> u8 \<Rightarrow> 'v \<Rightarrow> 'v option" where
  "serial_putc P c v = map_option (p_outb P 0x3F8 c) (serial_ready P v)"

fun serial_write :: "'v ports \<Rightarrow> u8 list \<Rightarrow> 'v \<Rightarrow> 'v option" where
  "serial_write P [] v = Some v"
| "serial_write P (c # s) v = (case serial_putc P c v of None \<Rightarrow> None | Some v \<Rightarrow> serial_write P s v)"

definition serial_hex_text :: "u64 \<Rightarrow> u8 list" where
  "serial_hex_text x =
     ascii ''0x'' @ map (\<lambda>i. ascii ''0123456789ABCDEF'' ! unat (drop_bit i x AND 0xF)) (rev (map (\<lambda>k. 4 * k) [0..<16]))"

definition serial_hex :: "'v ports \<Rightarrow> u64 \<Rightarrow> 'v \<Rightarrow> 'v option" where
  "serial_hex P x v = serial_write P (serial_hex_text x) v"

definition serial_puts_dec :: "'v ports \<Rightarrow> u64 \<Rightarrow> 'v \<Rightarrow> 'v option" where
  "serial_puts_dec P x v = serial_write P (if x = 0 then [ch CHR ''0''] else rev (uint_digits 10 x)) v"

definition serial_printf :: "'v ports \<Rightarrow> u8 list \<Rightarrow> arg list \<Rightarrow> 'v \<Rightarrow> 'v option" where
  "serial_printf P fmt args v =
     (case serial_vprintf fmt args of None \<Rightarrow> None | Some s \<Rightarrow> serial_write P s v)"

section \<open>Numbers read back\<close>

definition digit_value :: "u8 \<Rightarrow> nat" where
  "digit_value c = (if is_digit c then unat c - 48 else unat c - 87)"

definition read_number :: "nat \<Rightarrow> u8 list \<Rightarrow> nat" where
  "read_number base s = foldl (\<lambda>n c. n * base + digit_value c) 0 s"

lemma hex_digit_value: "d < 16 \<Longrightarrow> digit_value (hex_digits ! d) = d \<and> (hex_digits ! d = ch CHR ''0'' \<longleftrightarrow> d = 0)"
proof -
  have "\<forall>d \<in> set [0..<16]. digit_value (hex_digits ! d) = d \<and> (hex_digits ! d = ch CHR ''0'' \<longleftrightarrow> d = 0)" by code_simp
  then show "d < 16 \<Longrightarrow> ?thesis" by simp
qed

lemma uint_digits_value:
  assumes "2 \<le> unat base" "unat base \<le> 16"
  shows "read_number (unat base) (rev (uint_digits base v)) = unat v \<and>
    (v \<noteq> 0 \<longrightarrow> uint_digits base v \<noteq> [] \<and> last (uint_digits base v) \<noteq> ch CHR ''0'')"
proof (induction "unat v" arbitrary: v rule: less_induct)
  case less
  show ?case
  proof (cases "v = 0")
    case True
    then show ?thesis by (simp add: uint_digits.simps [of base 0] read_number_def)
  next
    case False
    let ?d = "unat (v mod base)" and ?q = "v div base"
    have b: "\<not> base < 2" "0 < unat v" using assms False by (simp_all add: word_less_nat_alt unat_gt_0)
    have "?d < unat base" using assms(1) by (simp add: unat_mod)
    then have d: "?d < 16" using assms(2) by linarith
    have u: "uint_digits base v = hex_digits ! ?d # uint_digits base ?q" using False b by (simp add: uint_digits.simps [of base v])
    have q: "unat ?q = unat v div unat base" by (simp add: unat_div)
    then have "unat ?q < unat v" using assms b by simp
    note IH = less.hyps [OF this]
    have "read_number (unat base) (rev (uint_digits base v)) = unat ?q * unat base + ?d"
      using IH hex_digit_value [OF d] by (simp add: u read_number_def)
    also have "\<dots> = unat v" using div_mult_mod_eq [of "unat v" "unat base"] by (simp add: q unat_mod)
    finally have "read_number (unat base) (rev (uint_digits base v)) = unat v" .
    moreover have "last (uint_digits base v) \<noteq> ch CHR ''0''"
    proof (cases "?q = 0")
      case True
      then have "uint_digits base ?q = []" by (simp add: uint_digits.simps [of base 0])
      moreover have "unat v < unat base" using True q assms by (metis b(1) div_eq_0_iff not_less unat_0 word_gt_0 zero_neq_numeral unat_eq_0 le_zero_eq)
      then have "?d \<noteq> 0" using \<open>v \<noteq> 0\<close> by (simp add: unat_mod)
      ultimately show ?thesis using hex_digit_value [OF d] by (simp add: u)
    next
      case False
      then show ?thesis using IH by (simp add: u)
    qed
    ultimately show ?thesis by (simp add: u)
  qed
qed

lemma uint_digits_length:
  assumes "10 \<le> unat base" and "unat v < 10 ^ k"
  shows "length (uint_digits base v) \<le> k"
  using assms(2)
proof (induction k arbitrary: v)
  case 0
  then show ?case by (simp add: uint_digits.simps [of base 0])
next
  case (Suc k)
  have "unat (v div base) \<le> unat v div 10" unfolding unat_div by (rule div_le_mono2) (use assms in auto)
  then have "unat (v div base) < 10 ^ k" using Suc.prems by (simp add: less_mult_imp_div_less)
  then show ?case using Suc.IH [of "v div base"] by (subst uint_digits.simps) simp
qed

text \<open>
  C34. Numbers are printed so that they can be read back: for base 10 or 16 and a width up to the 32 bytes of
  the buffer, \<open>print_uint\<close> returns as many padding characters as are missing, followed by the
  digits of the value, without a leading zero unless the value is 0; beyond 32 it overflows its
  buffer, whatever the value.
\<close>

theorem print_uint_correct:
  assumes "base = 10 \<or> base = 16"
  shows "(width \<le> 32 \<longrightarrow> (\<exists>ds. print_uint v base width pad = Some (replicate (nat width - length ds) pad @ ds) \<and>
       read_number (unat base) ds = unat v \<and> ds \<noteq> [] \<and> length ds \<le> 20 \<and> (v \<noteq> 0 \<longrightarrow> hd ds \<noteq> ch CHR ''0''))) \<and>
    (32 < width \<longrightarrow> print_uint v base width pad = None)"
proof -
  define ds where "ds = (if v = 0 then [ch CHR ''0''] else uint_digits base v)"
  have b: "2 \<le> unat base" "unat base \<le> 16" "10 \<le> unat base" using assms by auto
  have "unat v < 10 ^ 20" by (rule order_less_trans [OF unat_lt_64]) simp
  from uint_digits_length [OF b(3) this] have l: "length ds \<le> 20" by (simp add: ds_def)
  have p: "print_uint v base width pad =
      (if length ds + (nat width - length ds) \<le> 32 then Some (replicate (nat width - length ds) pad @ rev ds) else None)"
    by (simp add: print_uint_def ds_def Let_def)
  have "read_number (unat base) (rev ds) = unat v \<and> ds \<noteq> [] \<and> (v \<noteq> 0 \<longrightarrow> last ds \<noteq> ch CHR ''0'')"
    using uint_digits_value [OF b(1,2), of v] by (simp add: ds_def read_number_def digit_value_def is_digit_def)
  then have "read_number (unat base) (rev ds) = unat v" "rev ds \<noteq> []" "length (rev ds) \<le> 20" "v \<noteq> 0 \<longrightarrow> hd (rev ds) \<noteq> ch CHR ''0''"
    using l by (simp_all add: hd_rev)
  moreover have "print_uint v base width pad = Some (replicate (nat width - length (rev ds)) pad @ rev ds)" if "width \<le> 32"
    using that l unfolding p by simp
  moreover have "print_uint v base width pad = None" if "32 < width" using that l unfolding p by simp
  ultimately show ?thesis by blast
qed

theorem print_uint_correct_witness:
  "\<exists>ds. print_uint 42 10 5 (ch CHR '' '') = Some (replicate (5 - length ds) (ch CHR '' '') @ ds) \<and> read_number 10 ds = 42"
  using print_uint_correct [of 10 5 42 "ch CHR '' ''"] by auto

text \<open>A negative number padded with blanks gets its sign in front of the padding.\<close>

lemma print_int_sign: "print_int (- 7) 4 (ch CHR '' '') = Some (ascii ''-  7'')"
  by code_simp

end
