(* ===== verification/User_Lib.thy ===== *)
theory User_Lib
  imports Printf Fb_Term
begin

text \<open>
  The C library of the user programs, \<open>user/lib\<close>: the string and memory functions of \<open>string.c\<close> on
  byte memory, the bump allocator of \<open>stdlib.c\<close>, and the console functions of \<open>stdio.c\<close>.  A
  console function is modelled by the system calls it makes, in order; loops that need not end are
  partial functions.
\<close>

section \<open>Strings and memory\<close>

partial_function (option) strlen_from :: "mem \<Rightarrow> u64 \<Rightarrow> u64 \<Rightarrow> u64 option" where
  "strlen_from m s n = (if m (s + n) \<noteq> 0 then strlen_from m s (n + 1) else Some n)"

definition strlen :: "mem \<Rightarrow> u64 \<Rightarrow> u64 option" where
  "strlen m s = strlen_from m s 0"

partial_function (option) strcmp :: "mem \<Rightarrow> u64 \<Rightarrow> u64 \<Rightarrow> int option" where
  "strcmp m a b = (if m a \<noteq> 0 \<and> m a = m b then strcmp m (a + 1) (b + 1) else Some (int (unat (m a)) - int (unat (m b))))"

fun strncmp_loop :: "mem \<Rightarrow> u64 \<Rightarrow> u64 \<Rightarrow> nat \<Rightarrow> int" where
  "strncmp_loop m a b 0 = 0"
| "strncmp_loop m a b (Suc k) =
     (if m a \<noteq> m b then int (unat (m a)) - int (unat (m b))
      else if m a = 0 then 0
      else strncmp_loop m (a + 1) (b + 1) k)"

definition strncmp :: "mem \<Rightarrow> u64 \<Rightarrow> u64 \<Rightarrow> u64 \<Rightarrow> int" where
  "strncmp m a b n = strncmp_loop m a b (unat n)"

partial_function (option) strcpy :: "u64 \<Rightarrow> u64 \<Rightarrow> mem \<Rightarrow> mem option" where
  "strcpy d s m = (let c = m s; m = m(d := c) in if c \<noteq> 0 then strcpy (d + 1) (s + 1) m else Some m)"

text \<open>The first loop of \<open>strncpy\<close> gives the number of bytes copied; the second fills with zeros.\<close>

fun strncpy_copy :: "u64 \<Rightarrow> u64 \<Rightarrow> nat \<Rightarrow> mem \<Rightarrow> nat \<times> mem" where
  "strncpy_copy d s 0 m = (0, m)"
| "strncpy_copy d s (Suc k) m =
     (if m s = 0 then (Suc k, m) else strncpy_copy (d + 1) (s + 1) k (m(d := m s)))"

definition memset :: "u64 \<Rightarrow> int \<Rightarrow> u64 \<Rightarrow> mem \<Rightarrow> mem" where
  "memset dst c n m = fold (\<lambda>i m. m(dst + of_nat i := of_int c)) [0..<unat n] m"

definition strncpy :: "u64 \<Rightarrow> u64 \<Rightarrow> u64 \<Rightarrow> mem \<Rightarrow> mem" where
  "strncpy dst src n m =
     (case strncpy_copy dst src (unat n) m of
        (left, m) \<Rightarrow> fold (\<lambda>i m. m(dst + of_nat i := 0)) [unat n - left..<unat n] m)"

text \<open>\<open>d[i] = s[i]\<close>.\<close>

definition copy_at :: "u64 \<Rightarrow> u64 \<Rightarrow> nat \<Rightarrow> mem \<Rightarrow> mem" where
  "copy_at dst src i m = m(dst + of_nat i := m (src + of_nat i))"

definition memcpy :: "u64 \<Rightarrow> u64 \<Rightarrow> u64 \<Rightarrow> mem \<Rightarrow> mem" where
  "memcpy dst src n m = fold (copy_at dst src) [0..<unat n] m"

definition memmove :: "u64 \<Rightarrow> u64 \<Rightarrow> u64 \<Rightarrow> mem \<Rightarrow> mem" where
  "memmove dst src n m =
     (if dst < src then fold (copy_at dst src) [0..<unat n] m
      else if src < dst then fold (copy_at dst src) (rev [0..<unat n]) m
      else m)"

fun memcmp_loop :: "mem \<Rightarrow> u64 \<Rightarrow> u64 \<Rightarrow> nat \<Rightarrow> int" where
  "memcmp_loop m a b 0 = 0"
| "memcmp_loop m a b (Suc k) =
     (if m a \<noteq> m b then int (unat (m a)) - int (unat (m b)) else memcmp_loop m (a + 1) (b + 1) k)"

definition memcmp :: "mem \<Rightarrow> u64 \<Rightarrow> u64 \<Rightarrow> u64 \<Rightarrow> int" where
  "memcmp m a b n = memcmp_loop m a b (unat n)"

section \<open>The allocator\<close>

definition USER_HEAP_SIZE :: u64 where "USER_HEAP_SIZE = 64 * 1024"

text \<open>The offset in the array \<open>heap\<close>, or \<open>None\<close> for the null pointer, and the new \<open>heap_top\<close>.\<close>

definition malloc :: "u64 \<Rightarrow> u64 \<Rightarrow> u64 option \<times> u64" where
  "malloc n heap_top =
     (let n = (n + 15) AND NOT 15 in
      if heap_top + n > USER_HEAP_SIZE then (None, heap_top) else (Some heap_top, heap_top + n))"

section \<open>Console output\<close>

datatype call = Sys_write "u8 list" | Sys_sem_wait int | Sys_sem_post int

definition raw_putchar :: "u8 \<Rightarrow> call list" where
  "raw_putchar c = [Sys_write [c]]"

definition raw_puts :: "u8 list \<Rightarrow> call list" where
  "raw_puts s = [Sys_write s]"

definition putchar :: "u8 \<Rightarrow> call list" where
  "putchar c = Sys_sem_wait 0 # raw_putchar c @ [Sys_sem_post 0]"

definition puts :: "u8 list \<Rightarrow> call list" where
  "puts s = Sys_sem_wait 0 # raw_puts s @ [Sys_sem_post 0]"

definition u_print_uint :: "u64 \<Rightarrow> u64 \<Rightarrow> int \<Rightarrow> u8 \<Rightarrow> call list option" where
  "u_print_uint v base width pad =
     (let ds = (if v = 0 then [ch CHR ''0''] else uint_digits base v);
          buf = ds @ replicate (nat width - length ds) pad in
      if length buf \<le> 32 then Some (concat (map raw_putchar (rev buf))) else None)"

definition u_print_int :: "u64 \<Rightarrow> int \<Rightarrow> u8 \<Rightarrow> call list option" where
  "u_print_int v width pad =
     (if v <s 0 then map_option (\<lambda>s. raw_putchar (ch CHR ''-'') @ s) (u_print_uint (- v) 10 (if width > 0 then width - 1 else 0) pad)
      else u_print_uint v 10 width pad)"

definition u_convert :: "u8 \<Rightarrow> u8 \<Rightarrow> int \<Rightarrow> bool \<Rightarrow> arg list \<Rightarrow> (call list \<times> arg list) option" where
  "u_convert f pad width is_long args =
     (if f = ch CHR ''c'' then (case args of A_int v # as \<Rightarrow> Some (raw_putchar (ucast v), as) | _ \<Rightarrow> None)
      else if f = ch CHR ''s'' then
        (case args of A_str s # as \<Rightarrow> Some (raw_puts (case s of None \<Rightarrow> ascii ''(null)'' | Some s \<Rightarrow> s), as) | _ \<Rightarrow> None)
      else if f = ch CHR ''d'' \<or> f = ch CHR ''i'' then
        (case args of A_int v # as \<Rightarrow> map_option (\<lambda>s. (s, as)) (u_print_int (signed_arg is_long v) width pad) | _ \<Rightarrow> None)
      else if f = ch CHR ''u'' then
        (case args of A_int v # as \<Rightarrow> map_option (\<lambda>s. (s, as)) (u_print_uint (unsigned_arg is_long v) 10 width pad) | _ \<Rightarrow> None)
      else if f = ch CHR ''x'' then
        (case args of A_int v # as \<Rightarrow> map_option (\<lambda>s. (s, as)) (u_print_uint (unsigned_arg is_long v) 16 width pad) | _ \<Rightarrow> None)
      else if f = ch CHR ''p'' then
        (case args of A_int v # as \<Rightarrow> map_option (\<lambda>s. (raw_puts (ascii ''0x'') @ s, as)) (u_print_uint v 16 16 (ch CHR ''0'')) | _ \<Rightarrow> None)
      else if f = ch CHR ''%'' then Some (raw_putchar (ch CHR ''%''), args)
      else Some (raw_putchar (ch CHR ''%'') @ raw_putchar f, args))"

function printf :: "u8 list \<Rightarrow> arg list \<Rightarrow> call list option" where
  "printf [] args = Some []"
| "printf (c # s) args =
     (if c \<noteq> ch CHR ''%'' then map_option ((@) (raw_putchar c)) (printf s args)
      else
        (case scan_spec s of
           None \<Rightarrow> None
         | Some (pad, width, is_long, rest) \<Rightarrow>
             (case rest of
                [] \<Rightarrow> None
              | f # s' \<Rightarrow>
                  (case u_convert f pad width is_long args of
                     None \<Rightarrow> None
                   | Some (calls, args') \<Rightarrow> map_option ((@) calls) (printf s' args')))))"
  by pat_completeness auto
termination
  by (relation "measure (\<lambda>(s, _). length s)") (auto dest!: scan_spec_length)

section \<open>Console input\<close>

text \<open>
  \<open>readline\<close> on the bytes that \<open>sys_read\<close> delivers one by one: the line, the calls made and the
  input left; \<open>None\<close> while it still waits for input.  \<open>buf\<close> is the line so far.
\<close>

fun readline_loop :: "int \<Rightarrow> u8 list \<Rightarrow> u8 list \<Rightarrow> (u8 list \<times> call list \<times> u8 list) option" where
  "readline_loop mx buf [] = None"
| "readline_loop mx buf (c # input) =
     (if c = 13 \<or> c = 10 then Some (buf, putchar 10, input)
      else if c = 8 \<or> c = 127 then
        (if length buf > 0 then
           map_option (\<lambda>(l, cs, r). (l, putchar 8 @ putchar 32 @ putchar 8 @ cs, r)) (readline_loop mx (butlast buf) input)
         else readline_loop mx buf input)
      else if c < 32 \<or> c > 126 then readline_loop mx buf input
      else if int (length buf) \<ge> mx - 1 then readline_loop mx buf input
      else map_option (\<lambda>(l, cs, r). (l, putchar c @ cs, r)) (readline_loop mx (buf @ [c]) input))"

definition readline :: "int \<Rightarrow> u8 list \<Rightarrow> (u8 list \<times> call list \<times> u8 list) option" where
  "readline mx input = readline_loop mx [] input"

section \<open>Moving memory\<close>

lemma unat_off:
  fixes dst :: u64
  assumes "unat dst + n \<le> 2 ^ 64" and "i < n"
  shows "unat (dst + of_nat i) = unat dst + i"
proof -
  have i: "i < 2 ^ 64" using assms by linarith
  then have u: "unat (of_nat i :: u64) = i" by (simp add: unat_of_nat_64)
  then show "unat (dst + of_nat i) = unat dst + i" using assms by (subst unat_plus_small) simp_all
qed

lemma at_off:
  fixes a dst :: u64
  assumes "k < 2 ^ 64"
  shows "a = dst + of_nat k \<longleftrightarrow> unat (a - dst) = k"
proof
  assume "unat (a - dst) = k"
  then have "a - dst = of_nat k" by (metis of_nat_unat ucast_id)
  then show "a = dst + of_nat k" by (metis add.commute diff_add_cancel)
qed (use assms in \<open>simp add: unat_of_nat_64\<close>)

lemma copy_at_apply: "copy_at dst src i m b = (if b = dst + of_nat i then m (src + of_nat i) else m b)"
  by (simp add: copy_at_def)

text \<open>Copying upwards is right when no byte is read after it was overwritten.\<close>

lemma copy_up:
  assumes n: "n < 2 ^ 64" and far: "\<And>k. k < n \<Longrightarrow> \<not> unat (src + of_nat k - dst) < k" and k: "k \<le> n"
  shows "fold (copy_at dst src) [0..<k] m a = (if unat (a - dst) < k then m (src + (a - dst)) else m a)"
  using k
proof (induction k arbitrary: a)
  case (Suc k)
  then have kn: "k < n" "k < 2 ^ 64" using n by linarith+
  show ?case using Suc kn far [OF kn(1)] at_off [OF kn(2), of a dst] by (auto simp: less_Suc_eq copy_at_def)
qed simp

lemma copy_down:
  assumes n: "n < 2 ^ 64" and far: "\<And>j. j < n \<Longrightarrow> \<not> (Suc j \<le> unat (src + of_nat j - dst) \<and> unat (src + of_nat j - dst) < n)" and k: "k \<le> n"
  shows "fold (copy_at dst src) (rev [n - k..<n]) m a =
    (if n - k \<le> unat (a - dst) \<and> unat (a - dst) < n then m (src + (a - dst)) else m a)"
  using k
proof (induction k arbitrary: a)
  case (Suc k)
  define j where "j = n - Suc k"
  have j: "n - k = Suc j" "j < n" "j < 2 ^ 64" using Suc.prems n by (simp_all add: j_def Suc_diff_Suc)
  have "rev [j..<n] = rev [Suc j..<n] @ [j]" using j(2) by (simp add: upt_conv_Cons)
  then have step: "fold (copy_at dst src) (rev [j..<n]) m a = copy_at dst src j (fold (copy_at dst src) (rev [Suc j..<n]) m) a" by simp
  have IH: "fold (copy_at dst src) (rev [Suc j..<n]) m b =
      (if Suc j \<le> unat (b - dst) \<and> unat (b - dst) < n then m (src + (b - dst)) else m b)" for b
    using Suc.IH [of b] Suc.prems by (simp add: j(1))
  define F where "F = fold (copy_at dst src) (rev [Suc j..<n]) m"
  have "fold (copy_at dst src) (rev [j..<n]) m a = (if a = dst + of_nat j then F (src + of_nat j) else F a)"
    using step unfolding F_def [symmetric] by (rule trans) (rule copy_at_apply)
  then show ?case
    unfolding j_def [symmetric] using IH [folded F_def] far [OF j(2)] at_off [OF j(3), of a dst] j(2)
    by (auto simp: Suc_le_eq le_less)
qed auto

text \<open>
  \<open>memmove\<close> is right however its areas overlap: for areas that do not wrap around the address
  space the destination afterwards holds the bytes the source held before, and nothing else has changed.
  \<open>memcpy\<close> is, when the destination does not start inside the source.
\<close>

theorem memmove_correct:
  assumes d: "unat dst + unat n \<le> 2 ^ 64" and s: "unat src + unat n \<le> 2 ^ 64"
  shows "memmove dst src n m = wr_bytes m dst (rd_bytes m src (unat n)) \<and>
    (\<not> (src < dst \<and> unat dst < unat src + unat n) \<longrightarrow> memcpy dst src n m = wr_bytes m dst (rd_bytes m src (unat n)))"
proof -
  define k where "k = unat n"
  have n: "k < 2 ^ 64" using unat_lt_64 [of n] by (simp add: k_def)
  have dk: "unat dst + k \<le> 2 ^ 64" and sk: "unat src + k \<le> 2 ^ 64" using d s by (simp_all add: k_def)
  let ?r = "wr_bytes m dst (rd_bytes m src k)"
  have "length (rd_bytes m src k) < 2 ^ 64" using n by simp
  then have w: "?r a = (if unat (a - dst) < k then m (src + (a - dst)) else m a)" for a
    by (simp add: wr_bytes_apply)
  have diff: "unat (src + of_nat j - dst) = (if unat dst \<le> unat src + j then unat src + j - unat dst else unat src + j + 2 ^ 64 - unat dst)"
    if "j < k" for j
    unfolding unat_sub_if' unat_off [OF sk that] by simp
  have up: "fold (copy_at dst src) [0..<k] m = ?r" if "dst < src \<or> unat src + k \<le> unat dst"
  proof
    fix a
    have far: "\<not> unat (src + of_nat j - dst) < j" if "j < k" for j
      using \<open>dst < src \<or> _\<close> diff [OF that] that dk unfolding word_less_nat_alt by (auto split: if_splits)
    show "fold (copy_at dst src) [0..<k] m a = ?r a" unfolding w by (rule copy_up [OF n _ order_refl]) (rule far)
  qed
  have down: "fold (copy_at dst src) (rev [0..<k]) m = ?r" if "src < dst"
  proof
    fix a
    have far: "\<not> (Suc j \<le> unat (src + of_nat j - dst) \<and> unat (src + of_nat j - dst) < k)" if "j < k" for j
      using \<open>src < dst\<close> diff [OF that] that dk unfolding word_less_nat_alt by (auto split: if_splits)
    have "fold (copy_at dst src) (rev [k - k..<k]) m a = (if k - k \<le> unat (a - dst) \<and> unat (a - dst) < k then m (src + (a - dst)) else m a)"
      by (rule copy_down [OF n _ order_refl]) (rule far)
    then show "fold (copy_at dst src) (rev [0..<k]) m a = ?r a" using w by simp
  qed
  have same: "?r = m" if "dst = src" using that w by (intro ext) simp
  have idle: "fold (copy_at src src) xs m = m" for xs by (induction xs) (simp_all add: copy_at_def)
  have "memmove dst src n m = ?r"
  proof (cases dst src rule: linorder_cases)
    case less then show ?thesis using up by (simp add: memmove_def flip: k_def)
  next
    case equal then show ?thesis using same by (auto simp: memmove_def)
  next
    case greater then show ?thesis using down by (auto simp: memmove_def simp flip: k_def)
  qed
  moreover have "memcpy dst src n m = ?r" if "\<not> (src < dst \<and> unat dst < unat src + k)"
  proof (cases "dst = src")
    case True
    then show ?thesis using same idle by (simp add: memcpy_def)
  next
    case False
    then have "dst < src \<or> unat src + k \<le> unat dst" using that by auto
    then show ?thesis using up by (simp add: memcpy_def flip: k_def)
  qed
  ultimately show ?thesis unfolding k_def by blast
qed

theorem memmove_correct_witness:
  "memmove 0x1002 0x1000 8 (\<lambda>a. ucast a) 0x1009 = 7"
  using memmove_correct [of "0x1002" 8 "0x1000" "\<lambda>a. ucast a"] by (simp add: wr_bytes_apply)

section \<open>Comparing strings\<close>

text \<open>A NUL-terminated string in memory.\<close>

fun cstr :: "mem \<Rightarrow> u64 \<Rightarrow> u8 list \<Rightarrow> bool" where
  "cstr m a [] \<longleftrightarrow> m a = 0"
| "cstr m a (c # s) \<longleftrightarrow> m a = c \<and> c \<noteq> 0 \<and> cstr m (a + 1) s"

text \<open>The order of strings by their first different byte.\<close>

fun before :: "u8 list \<Rightarrow> u8 list \<Rightarrow> bool" where
  "before _ [] \<longleftrightarrow> False"
| "before [] (d # t) \<longleftrightarrow> True"
| "before (c # s) (d # t) \<longleftrightarrow> c < d \<or> c = d \<and> before s t"

lemma byte_diff: "int (unat (a :: u8)) - int (unat b) = 0 \<longleftrightarrow> a = b" "int (unat a) - int (unat b) < 0 \<longleftrightarrow> a < b"
proof -
  show "int (unat a) - int (unat b) = 0 \<longleftrightarrow> a = b" by (metis eq_iff_diff_eq_0 of_nat_eq_iff word_unat_eq_iff)
  show "int (unat a) - int (unat b) < 0 \<longleftrightarrow> a < b" unfolding word_less_nat_alt by linarith
qed

lemma strlen_from: "cstr m (s + n) t \<Longrightarrow> strlen_from m s n = Some (n + of_nat (length t))"
proof (induction t arbitrary: n)
  case Nil
  then show ?case by (subst strlen_from.simps) simp
next
  case (Cons c t)
  then have "m (s + n) \<noteq> 0" "cstr m (s + (n + 1)) t" by (auto simp: add.assoc)
  then show ?case using Cons.IH [of "n + 1"] by (subst strlen_from.simps) (simp add: add.assoc)
qed

lemma strcmp_differ:
  assumes "\<not> (m a \<noteq> 0 \<and> m a = m b)"
  shows "\<exists>r. strcmp m a b = Some r \<and> (r = 0 \<longleftrightarrow> m a = m b) \<and> (r < 0 \<longleftrightarrow> m a < m b)"
  using assms byte_diff by (subst strcmp.simps) (simp only: if_False option.inject ex_simps simp_thms)

lemma strcmp_sign:
  "cstr m a s \<Longrightarrow> cstr m b t \<Longrightarrow> \<exists>r. strcmp m a b = Some r \<and> (r = 0 \<longleftrightarrow> s = t) \<and> (r < 0 \<longleftrightarrow> before s t)"
proof (induction s t arbitrary: a b rule: before.induct)
  case (1 s)
  show ?case
  proof (cases s)
    case Nil
    then show ?thesis using 1 strcmp_differ [of m a b] by simp
  next
    case (Cons c s')
    then have "m a \<noteq> m b" "\<not> m a < m b" using 1 by auto
    then show ?thesis using Cons strcmp_differ [of m a b] by simp
  qed
next
  case (2 d t)
  then have "m a < m b" "m a \<noteq> m b" by (auto simp: word_neq_0_conv)
  then show ?case using strcmp_differ [of m a b] 2 by auto
next
  case (3 c s d t)
  show ?case
  proof (cases "c = d")
    case True
    then have "strcmp m a b = strcmp m (a + 1) (b + 1)" using 3(2,3) by (subst strcmp.simps) simp
    then show ?thesis using 3 True by auto
  next
    case False
    then show ?thesis using 3(2,3) strcmp_differ [of m a b] by auto
  qed
qed

lemma strncmp_prefix:
  "cstr m a s \<Longrightarrow> cstr m b t \<Longrightarrow> strncmp_loop m a b k = 0 \<longleftrightarrow> take k s = take k t"
proof (induction k arbitrary: a b s t)
  case (Suc k)
  then show ?case using byte_diff(1) [of "m a" "m b"] by (cases s; cases t) auto
qed simp

text \<open>
  The string functions see the strings: on NUL-terminated strings \<open>strlen\<close> returns the length,
  \<open>strcmp\<close> returns, with the sign of its result giving equality and the order of the first
  different byte (bytes compared as unsigned), and \<open>strncmp\<close> is 0 exactly when the first \<open>n\<close> bytes agree.
\<close>

theorem strings_correct:
  assumes "cstr m a s" and "cstr m b t"
  shows "strlen m a = Some (of_nat (length s)) \<and>
    (\<exists>r. strcmp m a b = Some r \<and> (r = 0 \<longleftrightarrow> s = t) \<and> (r < 0 \<longleftrightarrow> before s t)) \<and>
    (strncmp m a b n = 0 \<longleftrightarrow> take (unat n) s = take (unat n) t)"
  using strlen_from [of m a 0 s] strcmp_sign [OF assms] strncmp_prefix [OF assms] assms(1) by (simp add: strlen_def strncmp_def)

theorem strings_correct_witness:
  "strcmp (\<lambda>x. if x = 1 then 108 else if x = 2 then 115 else if x = 5 then 108 else 0) 1 5 \<noteq> Some 0"
  using strings_correct [of "\<lambda>x. if x = 1 then 108 else if x = 2 then 115 else if x = 5 then 108 else 0" 1 "[108, 115]" 5 "[108]"] by auto

section \<open>The bump allocator\<close>

lemma round16:
  fixes n :: u64
  assumes "unat n \<le> 2 ^ 64 - 16"
  shows "unat ((n + 15) AND NOT 15) = (unat n + 15) div 16 * 16"
proof -
  have "unat (n + 15) = unat n + 15" using assms by (subst unat_plus_small) simp_all
  then show ?thesis using unat_and_not_mask [of "n + 15" 4] by (simp add: mask_eq_exp_minus_1)
qed

text \<open>
  \<open>malloc\<close> hands out disjoint aligned pieces of its 64 KB: for a request of at most
  2^63 bytes on a state whose top is inside and aligned, a pointer is the old top, a multiple of 16, the requested
  bytes end at or below the new top, which is inside and aligned, and null is returned exactly when
  the rounded size does not fit, leaving the state.  The bound is needed: a request of 2^64 - 16 bytes wraps
  around, is served, and moves the top back by 16 into memory handed out before.
\<close>

theorem malloc_correct:
  assumes tp: "unat ht \<le> 65536" "16 dvd unat ht" and n: "unat n \<le> 2 ^ 63"
  shows "(case malloc n ht of
      (None, ht') \<Rightarrow> ht' = ht \<and> 65536 < unat ht + (unat n + 15) div 16 * 16
    | (Some p, ht') \<Rightarrow> p = ht \<and> unat p + unat n \<le> unat ht' \<and> unat ht' \<le> 65536 \<and> 16 dvd unat ht') \<and>
    (16 \<le> unat ht \<longrightarrow> malloc (2 ^ 64 - 16) ht = (Some ht, ht - 16))"
proof -
  define k where "k = (unat n + 15) div 16 * 16"
  have k: "unat ((n + 15) AND NOT 15) = k" "unat n \<le> k" "16 dvd k" "k \<le> 2 ^ 63 + 15"
    using round16 [of n] n by (simp_all add: k_def)
  have s: "unat (ht + ((n + 15) AND NOT 15)) = unat ht + k" using k tp(1) by (subst unat_plus_small) simp_all
  have g: "ht + ((n + 15) AND NOT 15) > USER_HEAP_SIZE \<longleftrightarrow> 65536 < unat ht + k"
    unfolding word_less_nat_alt s by (simp add: USER_HEAP_SIZE_def)
  have "unat (ht - 16) = unat ht - 16" if "16 \<le> unat ht" using that by (simp add: unat_sub word_le_nat_alt)
  then have "\<not> ht - 16 > USER_HEAP_SIZE" if "16 \<le> unat ht"
    using that tp by (simp add: word_less_nat_alt USER_HEAP_SIZE_def)
  then have w: "malloc (2 ^ 64 - 16) ht = (Some ht, ht - 16)" if "16 \<le> unat ht"
  proof -
    have "((2 ^ 64 - 16 + 15 :: u64) AND NOT 15) = - 16" by simp
    then show ?thesis using \<open>16 \<le> unat ht \<Longrightarrow> \<not> ht - 16 > USER_HEAP_SIZE\<close> [OF that] unfolding malloc_def Let_def by (simp only: add_uminus_conv_diff if_False)
  qed
  show ?thesis
  proof (cases "65536 < unat ht + k")
    case True
    then show ?thesis using g w by (simp add: malloc_def Let_def k_def)
  next
    case False
    then have "unat ht + unat n \<le> unat (ht + ((n + 15) AND NOT 15))" "16 dvd unat (ht + ((n + 15) AND NOT 15))"
      "unat (ht + ((n + 15) AND NOT 15)) \<le> 65536" using s k tp by simp_all
    then show ?thesis using False g w by (simp add: malloc_def Let_def)
  qed
qed

theorem malloc_correct_witness:
  "malloc 128 16 = (Some 16, 144) \<and> malloc (2 ^ 64 - 16) 16 = (Some 16, 0)"
  using malloc_correct [of 16 128] by (simp add: malloc_def USER_HEAP_SIZE_def)

section \<open>The two printf agree\<close>

definition sent_bytes :: "call list \<Rightarrow> u8 list" where
  "sent_bytes cs = concat (map (\<lambda>c. case c of Sys_write s \<Rightarrow> s | _ \<Rightarrow> []) cs)"

lemma written_simps [simp]:
  "sent_bytes [] = []" "sent_bytes (xs @ ys) = sent_bytes xs @ sent_bytes ys"
  "sent_bytes (Sys_write s # cs) = s @ sent_bytes cs" "sent_bytes (Sys_sem_wait i # cs) = sent_bytes cs" "sent_bytes (Sys_sem_post i # cs) = sent_bytes cs"
  by (simp_all add: sent_bytes_def)

lemma written_chars [simp]: "sent_bytes (concat (map raw_putchar s)) = s"
  by (induction s) (simp_all add: raw_putchar_def)

lemma written_raw [simp]: "sent_bytes (raw_putchar c) = [c]" "sent_bytes (raw_puts s) = s"
  "sent_bytes (putchar c) = [c]" "sent_bytes (puts s) = s"
  by (simp_all add: raw_putchar_def raw_puts_def sent_bytes_def comp_def putchar_def puts_def)

lemma u_print_uint: "map_option sent_bytes (u_print_uint v base width pad) = print_uint v base width pad"
  unfolding u_print_uint_def print_uint_def Let_def by (auto simp only: written_chars option.map split: if_split)

lemma u_print_int: "map_option sent_bytes (u_print_int v width pad) = print_int v width pad"
  by (simp add: u_print_int_def print_int_def u_print_uint [symmetric] option.map_comp comp_def)

lemma map_pair_written: "map_option (\<lambda>(cs, a). (sent_bytes cs, a)) (map_option (\<lambda>s. (g s, as)) x) =
    map_option (\<lambda>s. (sent_bytes (g s), as)) x"
  by (simp add: option.map_comp comp_def)

lemma u_convert: "map_option (\<lambda>(cs, a). (sent_bytes cs, a)) (u_convert f pad width is_long args) = convert f pad width is_long args"
proof -
  let ?W = "map_option (\<lambda>(cs, a :: arg list). (sent_bytes cs, a))"
  have i: "map_option (\<lambda>s. (sent_bytes s, as)) (u_print_int v w p) = map_option (\<lambda>s. (s, as)) (print_int v w p)" for v w p and as :: "arg list"
    by (simp add: option.map_comp comp_def flip: u_print_int)
  have u: "map_option (\<lambda>s. (sent_bytes s, as)) (u_print_uint v b w p) = map_option (\<lambda>s. (s, as)) (print_uint v b w p)"
    "map_option (\<lambda>s. (x @ sent_bytes s, as)) (u_print_uint v b w p) = map_option (\<lambda>s. (x @ s, as)) (print_uint v b w p)" for v b w p x and as :: "arg list"
    by (simp_all add: option.map_comp comp_def flip: u_print_uint)
  note rules = u_convert_def convert_def if_distrib [of ?W] map_pair_written i u written_simps written_raw option.map prod.case list.case arg.case append.simps
  show ?thesis
  proof (cases args)
    case Nil
    then show ?thesis by (simp only: rules)
  next
    case (Cons a as)
    then show ?thesis by (cases a) (simp_all only: rules)
  qed
qed

text \<open>
  C35. The kernel's and the user library's \<open>printf\<close> agree: for every format and every argument list
  the user's one is defined exactly when the kernel's is, and the bytes of its system calls, put
  together, are the bytes the kernel's sends to the serial port.
\<close>

theorem printf_agrees: "map_option sent_bytes (printf fmt args) = serial_vprintf fmt args"
proof (induction fmt args rule: serial_vprintf.induct)
  case (2 c s args)
  show ?case
  proof (cases "c = ch CHR ''%''")
    case False
    then show ?thesis using 2(1) by (simp add: option.map_comp comp_def flip: 2(1))
  next
    case True
    show ?thesis
    proof (cases "scan_spec s")
      case None
      then show ?thesis using True by simp
    next
      case (Some sp)
      obtain pad width is_long rest where sp: "sp = (pad, width, is_long, rest)" by (cases sp)
      show ?thesis
      proof (cases rest)
        case Nil
        then show ?thesis using True Some sp by simp
      next
        case (Cons f s')
        note cv = u_convert [of f pad width is_long args]
        show ?thesis
        proof (cases "u_convert f pad width is_long args")
          case None
          then show ?thesis using True Some sp Cons cv by simp
        next
          case u: (Some p)
          obtain cs as where p: "p = (cs, as)" by (cases p)
          have k: "convert f pad width is_long args = Some (sent_bytes cs, as)" using cv u p by simp
          have IH: "map_option sent_bytes (printf s' as) = serial_vprintf s' as"
            using 2(2) [of sp pad "(width, is_long, rest)" width "(is_long, rest)" is_long rest f s' "(sent_bytes cs, as)" "sent_bytes cs" as] True Some sp Cons k by simp
          show ?thesis using True Some sp Cons u p k by (simp add: option.map_comp comp_def flip: IH)
        qed
      qed
    qed
  qed
qed simp

section \<open>Reading a line\<close>

definition printable :: "u8 \<Rightarrow> bool" where
  "printable c \<longleftrightarrow> 32 \<le> c \<and> c \<le> 126"

text \<open>Line editing: a backspace or delete takes the last character back, a printable one is added while there is room.\<close>

definition edit :: "int \<Rightarrow> u8 \<Rightarrow> u8 list \<Rightarrow> u8 list" where
  "edit mx c buf =
     (if c = 8 \<or> c = 127 then butlast buf
      else if printable c \<and> int (length buf) < mx - 1 then buf @ [c] else buf)"

definition edited_ok :: "int \<Rightarrow> u8 list \<Rightarrow> bool" where
  "edited_ok mx buf \<longleftrightarrow> length buf \<le> nat (mx - 1) \<and> list_all printable buf"

lemma edit_ok: "edited_ok mx buf \<Longrightarrow> edited_ok mx (edit mx c buf)"
  by (auto simp: edited_ok_def edit_def list_all_iff dest: in_set_butlastD)

lemma edit_idle: "\<not> (c = 8 \<or> c = 127) \<Longrightarrow> c < 32 \<or> 126 < c \<or> mx - 1 \<le> int (length buf) \<Longrightarrow> edit mx c buf = buf"
  by (auto simp: edit_def printable_def not_less)

text \<open>The text on row \<open>y\<close>: what stood left of column \<open>x\<close>, the line, and blanks.\<close>

definition show_line :: "nat \<Rightarrow> u8 list \<Rightarrow> nat \<Rightarrow> u8 list \<Rightarrow> u8 list" where
  "show_line w row x buf = take x row @ buf @ replicate (w - x - length buf) 32"

lemma show_line_length: "x + length buf \<le> w \<Longrightarrow> length row = w \<Longrightarrow> length (show_line w row x buf) = w"
  by (simp add: show_line_def)

lemma show_line_type:
  assumes "x + length buf < w" and "length row = w"
  shows "(show_line w row x buf)[x + length buf := c] = show_line w row x (buf @ [c])"
proof -
  have "w - x - length buf = Suc (w - x - length (buf @ [c]))" using assms by simp
  then have "replicate (w - x - length buf) (32 :: u8) = 32 # replicate (w - x - length (buf @ [c])) 32" by (simp only: replicate_Suc)
  then show ?thesis using assms by (simp add: show_line_def list_update_append)
qed

lemma show_line_erase:
  assumes "x + length buf \<le> w" and "length row = w" and "buf \<noteq> []"
  shows "(show_line w row x buf)[x + length buf - 1 := 32] = show_line w row x (butlast buf)"
proof -
  obtain b c where b: "buf = b @ [c]" using assms(3) by (cases buf rule: rev_cases) auto
  have "w - x - length b = Suc (w - x - length buf)" using assms b by simp
  then have "replicate (w - x - length b) (32 :: u8) = 32 # replicate (w - x - length buf) 32" by (simp only: replicate_Suc)
  then show ?thesis using assms by (simp add: show_line_def list_update_append b)
qed

lemma text_type:
  assumes "printable c" and "Suc x < w"
  shows "text_putc w c (ls, x, y) = (ls[y := (ls ! y)[x := c]], Suc x, y)"
proof -
  have "c \<noteq> 9 \<and> c \<noteq> 10 \<and> c \<noteq> 13 \<and> c \<noteq> 8" using assms(1) by (auto simp: printable_def)
  then show ?thesis using assms(2) by (simp add: text_putc_def text_put_def Let_def)
qed

lemma text_rub:
  assumes "y < length ls" and "0 < x" and "x < w"
  shows "fold (text_putc w) [8, 32, 8] (ls, x, y) = (ls[y := (ls ! y)[x - 1 := 32]], x - 1, y)"
  using assms by (simp add: text_putc_def text_put_def Let_def)

lemma readline_steps:
  assumes "edited_ok mx buf" and "list_all (\<lambda>c. c \<noteq> 10 \<and> c \<noteq> 13) keys" and "nl = 10 \<or> nl = 13"
  shows "\<exists>cs. readline_loop mx buf (keys @ nl # rest) = Some (fold (edit mx) keys buf, cs, rest) \<and>
    (\<forall>w ls x y row. y < length ls \<longrightarrow> length row = w \<longrightarrow> int x + mx \<le> int w \<longrightarrow> x < w \<longrightarrow> ls ! y = show_line w row x buf \<longrightarrow>
      fold (text_putc w) (sent_bytes cs) (ls, x + length buf, y) = text_wrap w (ls[y := show_line w row x (fold (edit mx) keys buf)], 0, Suc y))"
  using assms(1,2)
proof (induction keys arbitrary: buf)
  case Nil
  have "readline_loop mx buf ([] @ nl # rest) = Some (fold (edit mx) [] buf, putchar 10, rest)" using assms(3) by auto
  moreover have "fold (text_putc w) (sent_bytes (putchar 10)) (ls, x + length buf, y) = text_wrap w (ls[y := show_line w row x (fold (edit mx) [] buf)], 0, Suc y)"
    if "ls ! y = show_line w row x buf" for w ls x y row
    using list_update_id [of ls y] that by (simp add: text_putc_def text_put_def)
  ultimately show ?case by blast
next
  case (Cons c keys)
  have c: "c \<noteq> 10" "c \<noteq> 13" "list_all (\<lambda>c. c \<noteq> 10 \<and> c \<noteq> 13) keys" using Cons.prems by simp_all
  obtain cs where IH: "readline_loop mx (edit mx c buf) (keys @ nl # rest) = Some (fold (edit mx) (c # keys) buf, cs, rest)"
    and sc: "\<And>w ls x y row. y < length ls \<Longrightarrow> length row = w \<Longrightarrow> int x + mx \<le> int w \<Longrightarrow> x < w \<Longrightarrow> ls ! y = show_line w row x (edit mx c buf) \<Longrightarrow>
      fold (text_putc w) (sent_bytes cs) (ls, x + length (edit mx c buf), y) = text_wrap w (ls[y := show_line w row x (fold (edit mx) (c # keys) buf)], 0, Suc y)"
    using Cons.IH [OF edit_ok [OF Cons.prems(1), of c] c(3)] by auto
  let ?line = "fold (edit mx) (c # keys) buf"
  have room: "length buf \<le> nat (mx - 1)" using Cons.prems(1) by (simp add: edited_ok_def)
  consider (rub) "c = 8 \<or> c = 127" "buf \<noteq> []" | (none) "c = 8 \<or> c = 127" "buf = []"
    | (type) "c \<noteq> 8" "c \<noteq> 127" "printable c" "int (length buf) < mx - 1"
    | (skip) "c \<noteq> 8" "c \<noteq> 127" "c < 32 \<or> 126 < c \<or> mx - 1 \<le> int (length buf)"
    by (auto simp: printable_def not_less) (metis linorder_not_less)+
  then show ?case
  proof cases
    case rub
    let ?cs = "putchar 8 @ putchar 32 @ putchar 8 @ cs"
    have e: "edit mx c buf = butlast buf" using rub by (auto simp: edit_def)
    have "readline_loop mx buf ((c # keys) @ nl # rest) = Some (?line, ?cs, rest)" using rub c IH e by simp
    moreover have "fold (text_putc w) (sent_bytes ?cs) (ls, x + length buf, y) = text_wrap w (ls[y := show_line w row x ?line], 0, Suc y)"
      if a: "y < length ls" "length row = w" "int x + mx \<le> int w" "x < w" "ls ! y = show_line w row x buf" for w ls x y row
    proof -
      have xb: "x + length buf < w" using a room rub(2) by (cases buf) auto
      have l: "0 < x + length buf" "x + length buf - 1 = x + length (butlast buf)" using rub(2) by (cases buf; simp)+
      have "fold (text_putc w) (sent_bytes ?cs) (ls, x + length buf, y) =
          fold (text_putc w) (sent_bytes cs) (fold (text_putc w) [8, 32, 8] (ls, x + length buf, y))" by simp
      also have "fold (text_putc w) [8, 32, 8] (ls, x + length buf, y) = (ls[y := show_line w row x (butlast buf)], x + length (butlast buf), y)"
        unfolding text_rub [OF a(1) l(1) xb] a(5) using show_line_erase [of x buf w row] xb a rub l by simp
      finally show ?thesis using sc [of y "ls[y := show_line w row x (butlast buf)]" row w x] a e by simp
    qed
    ultimately show ?thesis by blast
  next
    case none
    have e: "edit mx c buf = buf" using none by (auto simp: edit_def)
    have "readline_loop mx buf ((c # keys) @ nl # rest) = Some (?line, cs, rest)" using none c IH e by simp
    then show ?thesis using sc e by (intro exI [of _ cs]) simp
  next
    case type
    let ?cs = "putchar c @ cs"
    have e: "edit mx c buf = buf @ [c]" using type by (simp add: edit_def)
    have "readline_loop mx buf ((c # keys) @ nl # rest) = Some (?line, ?cs, rest)"
    proof -
      have "\<not> (c < 32 \<or> c > 126)" using type(3) by (auto simp: printable_def not_less)
      then show ?thesis using type c IH e by simp
    qed
    moreover have "fold (text_putc w) (sent_bytes ?cs) (ls, x + length buf, y) = text_wrap w (ls[y := show_line w row x ?line], 0, Suc y)"
      if a: "y < length ls" "length row = w" "int x + mx \<le> int w" "x < w" "ls ! y = show_line w row x buf" for w ls x y row
    proof -
      have xb: "Suc (x + length buf) < w" using a type by linarith
      have "fold (text_putc w) (sent_bytes ?cs) (ls, x + length buf, y) =
          fold (text_putc w) (sent_bytes cs) (text_putc w c (ls, x + length buf, y))" by simp
      also have "text_putc w c (ls, x + length buf, y) = (ls[y := show_line w row x (buf @ [c])], x + length (buf @ [c]), y)"
        unfolding text_type [OF type(3) xb] a(5) using show_line_type [of x buf w row c] xb a by simp
      finally show ?thesis using sc [of y "ls[y := show_line w row x (buf @ [c])]" row w x] a e by simp
    qed
    ultimately show ?thesis by blast
  next
    case skip
    have e: "edit mx c buf = buf" using edit_idle [of c mx buf] skip by blast
    have "readline_loop mx buf ((c # keys) @ nl # rest) = Some (?line, cs, rest)" using skip c IH e by auto
    then show ?thesis using sc e by (intro exI [of _ cs]) simp
  qed
qed

text \<open>
  C36. \<open>readline\<close> returns as soon as a line end arrives, and what it returns is what stands on the
  screen: the keys edited by backspace and delete, cut to the buffer less its NUL, printable only.
  Its echo, written to a terminal whose row is blank from the cursor on and wide enough, leaves
  exactly the returned line there and the cursor at the start of the next row; input behind the line end is untouched.
\<close>

theorem readline_correct:
  assumes "list_all (\<lambda>c. c \<noteq> 10 \<and> c \<noteq> 13) keys" and "nl = 10 \<or> nl = 13"
  shows "\<exists>calls. readline mx (keys @ nl # rest) = Some (fold (edit mx) keys [], calls, rest) \<and> edited_ok mx (fold (edit mx) keys []) \<and>
    (\<forall>w ls x y row. y < length ls \<longrightarrow> length row = w \<longrightarrow> int x + mx \<le> int w \<longrightarrow> x < w \<longrightarrow> ls ! y = show_line w row x [] \<longrightarrow>
      fold (text_putc w) (sent_bytes calls) (ls, x, y) = text_wrap w (ls[y := show_line w row x (fold (edit mx) keys [])], 0, Suc y))"
proof -
  have ok: "edited_ok mx []" by (simp add: edited_ok_def)
  have "edited_ok mx (fold (edit mx) keys [])" using ok edit_ok by (rule fold_invariant [where Q = "\<lambda>_. True", rotated 1]) simp_all
  then show ?thesis using readline_steps [OF ok assms, of rest] by (auto simp: readline_def)
qed

theorem readline_correct_witness:
  "\<exists>calls. readline 128 [108, 120, 8, 115, 10, 33] = Some ([108, 115], calls, [33])"
  using readline_correct [of "[108, 120, 8, 115]" 10 128 "[33]"] by (auto simp: edit_def printable_def)

end
