(* ===== verification/Gui.thy ===== *)
theory Gui
  imports Fb_Term
begin

text \<open>
  Windows and the desktop: \<open>kernel/gui/window.c\<close>, \<open>gui.c\<close>, \<open>term_window.c\<close>, and the two
  windows \<open>kernel/main.c\<close> creates.  Windows are addressed by pointers into the store \<open>wins\<close>; the
  array \<open>windows[0..window_count)\<close> is a list, bottom window first.  The callbacks of a window are
  the functions the kernel installs there, one constructor each.  The pointer position and the
  buttons come from the mouse; a window's drawing goes to the framebuffer of \<open>Framebuffer\<close>.
\<close>

section \<open>Windows\<close>

definition WIN_TITLE_H :: int where "WIN_TITLE_H = 24"
definition WIN_BORDER :: int where "WIN_BORDER = 2"
definition WIN_CLOSE_SIZE :: int where "WIN_CLOSE_SIZE = 14"

lemmas win_sizes = WIN_TITLE_H_def WIN_BORDER_def WIN_CLOSE_SIZE_def

datatype draw_hook = No_draw | Term_on_draw | Demo_draw
datatype click_hook = No_click | Demo_click
datatype close_hook = No_close | Demo_close
datatype move_hook = No_move | Term_on_move

record window =
  win_x :: int
  win_y :: int
  win_w :: int
  win_h :: int
  win_title :: "u8 list"
  win_bg_color :: u32
  win_title_bg :: u32
  win_title_fg :: u32
  win_border_color :: u32
  win_visible :: bool
  win_focused :: bool
  on_draw :: draw_hook
  on_click :: click_hook
  on_close :: close_hook
  on_move :: move_hook

definition window_init :: "fb_info \<Rightarrow> int \<Rightarrow> int \<Rightarrow> int \<Rightarrow> int \<Rightarrow> u8 list \<Rightarrow> window" where
  "window_init fbi x y w h title =
     \<lparr>win_x = x, win_y = y, win_w = w, win_h = h, win_title = title,
      win_bg_color = fb_rgb fbi 40 40 50, win_title_bg = fb_rgb fbi 70 100 200, win_title_fg = fb_rgb fbi 255 255 255,
      win_border_color = fb_rgb fbi 20 20 30, win_visible = True, win_focused = False,
      on_draw = No_draw, on_click = No_click, on_close = No_close, on_move = No_move\<rparr>"

definition window_set_colors :: "u32 \<Rightarrow> u32 \<Rightarrow> u32 \<Rightarrow> window \<Rightarrow> window" where
  "window_set_colors bg tbg tfg win = win\<lparr>win_bg_color := bg, win_title_bg := tbg, win_title_fg := tfg\<rparr>"

definition close_btn_rect :: "window \<Rightarrow> int \<times> int" where
  "close_btn_rect win =
     (win_x win + win_w win - WIN_BORDER - WIN_CLOSE_SIZE - 4, win_y win + WIN_BORDER + (WIN_TITLE_H - WIN_CLOSE_SIZE) sdiv 2)"

definition window_close_hit :: "window \<Rightarrow> int \<Rightarrow> int \<Rightarrow> bool" where
  "window_close_hit win px py \<longleftrightarrow> on_close win \<noteq> No_close \<and>
     (case close_btn_rect win of (bleft, btop) \<Rightarrow> px \<ge> bleft \<and> px < bleft + WIN_CLOSE_SIZE \<and> py \<ge> btop \<and> py < btop + WIN_CLOSE_SIZE)"

definition window_hit :: "window \<Rightarrow> int \<Rightarrow> int \<Rightarrow> bool" where
  "window_hit win px py \<longleftrightarrow> px \<ge> win_x win \<and> px < win_x win + win_w win \<and> py \<ge> win_y win \<and> py < win_y win + win_h win"

definition draw_close_button :: "fb_info \<Rightarrow> window \<Rightarrow> mem \<Rightarrow> mem" where
  "draw_close_button fbi win m =
     (if on_close win = No_close then m
      else
        (case close_btn_rect win of (bleft, btop) \<Rightarrow>
           (let m = fb_fill_rect fbi bleft btop WIN_CLOSE_SIZE WIN_CLOSE_SIZE (fb_rgb fbi 200 60 60) m;
                white = fb_rgb fbi 255 255 255
            in fold (\<lambda>i m. fb_putpixel fbi (bleft + WIN_CLOSE_SIZE - 1 - i) (btop + i) white (fb_putpixel fbi (bleft + i) (btop + i) white m))
                 [2..WIN_CLOSE_SIZE - 3] m)))"

section \<open>The windows of the kernel\<close>

definition BTN_X_OFF :: int where "BTN_X_OFF = 30"
definition BTN_Y_OFF :: int where "BTN_Y_OFF = 40"
definition BTN_W :: int where "BTN_W = 180"
definition BTN_H :: int where "BTN_H = 48"

definition button_hit :: "window \<Rightarrow> int \<Rightarrow> int \<Rightarrow> bool" where
  "button_hit w mx my \<longleftrightarrow>
     (let bleft = win_x w + BTN_X_OFF; btop = win_y w + WIN_TITLE_H + WIN_BORDER + BTN_Y_OFF
      in mx \<ge> bleft \<and> mx < bleft + BTN_W \<and> my \<ge> btop \<and> my < btop + BTN_H)"

text \<open>The digits of a positive counter, least significant first, before they are swapped around.\<close>

fun count_digits :: "nat \<Rightarrow> u8 list" where
  "count_digits n = (if n = 0 then [] else of_nat (48 + n mod 10) # count_digits (n div 10))"

declare count_digits.simps [simp del]

definition count_text :: "int \<Rightarrow> u8 list" where
  "count_text n = (if n = 0 then [48] else rev (count_digits (nat n)))"

definition bytes :: "string \<Rightarrow> u8 list" where
  "bytes s = map of_char s"

definition demo_draw :: "fb_info \<Rightarrow> int \<Rightarrow> window \<Rightarrow> mem \<Rightarrow> mem" where
  "demo_draw fbi counter w m =
     (let bleft = win_x w + BTN_X_OFF; btop = win_y w + WIN_TITLE_H + WIN_BORDER + BTN_Y_OFF;
          m = fb_fill_rect fbi bleft btop BTN_W BTN_H (fb_rgb fbi 50 160 80) m;
          m = fb_term_draw_text_at fbi (bleft + 20) (btop + 16) (bytes ''Click me!'') (fb_rgb fbi 255 255 255) (fb_rgb fbi 50 160 80) m;
          tx = win_x w + BTN_X_OFF; ty = btop + BTN_H + 40;
          m = fb_term_draw_text_at fbi tx ty (bytes ''Count:'') (fb_rgb fbi 200 200 200) (win_bg_color w) m
      in fb_term_draw_text_at fbi (tx + 8 * 6) ty (count_text counter) (fb_rgb fbi 255 220 60) (win_bg_color w) m)"

definition term_update_region :: "window \<Rightarrow> fb_term \<Rightarrow> fb_term" where
  "term_update_region win t =
     fb_term_set_region (win_x win + WIN_BORDER) (win_y win + WIN_BORDER + WIN_TITLE_H) (win_w win - 2 * WIN_BORDER)
       (win_h win - 2 * WIN_BORDER - WIN_TITLE_H) t"

definition term_window_create :: "fb_info \<Rightarrow> int \<Rightarrow> int \<Rightarrow> int \<Rightarrow> int \<Rightarrow> u8 list \<Rightarrow> fb_term \<Rightarrow> window \<times> fb_term" where
  "term_window_create fbi x y w h title t =
     (let win = window_init fbi x y w h title;
          win = window_set_colors (fb_rgb fbi 10 10 40) (fb_rgb fbi 70 100 200) (fb_rgb fbi 255 255 255) win;
          win = win\<lparr>on_draw := Term_on_draw, on_move := Term_on_move\<rparr>
      in (win, term_update_region win t))"

definition dim_color :: "u32 \<Rightarrow> u32" where
  "dim_color c = drop_bit 1 c AND 0x7F7F7F7F"

definition window_draw :: "fb_info \<Rightarrow> int \<Rightarrow> fb_term \<Rightarrow> window \<Rightarrow> mem \<Rightarrow> mem" where
  "window_draw fbi counter t win m =
     (if \<not> win_visible win then m
      else
        (let m = fb_fill_rect fbi (win_x win) (win_y win) (win_w win) (win_h win) (win_border_color win) m;
             title_bg = (if win_focused win then win_title_bg win else dim_color (win_title_bg win));
             m = fb_fill_rect fbi (win_x win + WIN_BORDER) (win_y win + WIN_BORDER) (win_w win - 2 * WIN_BORDER) WIN_TITLE_H title_bg m;
             m = fb_term_draw_text_at fbi (win_x win + 8) (win_y win + 4) (win_title win) (win_title_fg win) title_bg m;
             m = draw_close_button fbi win m;
             cy = win_y win + WIN_BORDER + WIN_TITLE_H;
             h = win_h win - 2 * WIN_BORDER - WIN_TITLE_H;
             m = fb_fill_rect fbi (win_x win + WIN_BORDER) cy (win_w win - 2 * WIN_BORDER) h (win_bg_color win) m
         in case on_draw win of No_draw \<Rightarrow> m | Term_on_draw \<Rightarrow> fb_term_redraw fbi t m | Demo_draw \<Rightarrow> demo_draw fbi counter win m))"

section \<open>The desktop\<close>

definition MAX_WINDOWS :: nat where "MAX_WINDOWS = 8"

record gui =
  wins :: "u64 \<Rightarrow> window"
  windows :: "u64 list"
  last_buttons :: u8
  focus :: u64
  drag_win :: u64
  drag_off_x :: int
  drag_off_y :: int
  counter_value :: int

type_synonym desktop = "gui \<times> display"

definition upd_win :: "u64 \<Rightarrow> (window \<Rightarrow> window) \<Rightarrow> gui \<Rightarrow> gui" where
  "upd_win w f g = g\<lparr>wins := (wins g)(w := f (wins g w))\<rparr>"

definition gui_init :: "gui \<Rightarrow> gui" where
  "gui_init g = g\<lparr>windows := [], last_buttons := 0, focus := 0, drag_win := 0\<rparr>"

definition gui_add_window :: "u64 \<Rightarrow> gui \<Rightarrow> gui" where
  "gui_add_window win g = (if length (windows g) \<ge> MAX_WINDOWS then g else g\<lparr>windows := windows g @ [win]\<rparr>)"

text \<open>Closing the gap at index \<open>i\<close>: the elements behind it move down by one.\<close>

definition close_gap :: "nat \<Rightarrow> 'a list \<Rightarrow> 'a list" where
  "close_gap i xs = take i xs @ drop (Suc i) xs"

fun find_index :: "u64 \<Rightarrow> u64 list \<Rightarrow> nat option" where
  "find_index w [] = None"
| "find_index w (x # xs) = (if x = w then Some 0 else map_option Suc (find_index w xs))"

definition gui_remove_window :: "u64 \<Rightarrow> gui \<Rightarrow> gui" where
  "gui_remove_window win g =
     (case find_index win (windows g) of
        None \<Rightarrow> g
      | Some i \<Rightarrow>
          (let g = g\<lparr>windows := close_gap i (windows g)\<rparr>;
               g = (if focus g = win then
                      (let g = g\<lparr>focus := (if windows g \<noteq> [] then last (windows g) else 0)\<rparr>
                       in if focus g \<noteq> 0 then upd_win (focus g) (\<lambda>w. w\<lparr>win_focused := True\<rparr>) g else g)
                    else g)
           in if drag_win g = win then g\<lparr>drag_win := 0\<rparr> else g))"

definition bring_to_front :: "u64 \<Rightarrow> gui \<Rightarrow> gui" where
  "bring_to_front win g =
     (if windows g = [] then g
      else if win = last (windows g) then g
      else
        (case find_index win (windows g) of
           None \<Rightarrow> g
         | Some i \<Rightarrow> g\<lparr>windows := close_gap i (windows g) @ [win]\<rparr>))"

definition redraw_step :: "fb_info \<Rightarrow> fb_term \<Rightarrow> u64 \<Rightarrow> gui \<times> mem \<Rightarrow> gui \<times> mem" where
  "redraw_step fbi t w s =
     (case s of (g, m) \<Rightarrow>
        (if win_visible (wins g w) then
           (let g = upd_win w (\<lambda>win. win\<lparr>win_focused := (w = focus g)\<rparr>) g
            in (g, window_draw fbi (counter_value g) t (wins g w) m))
         else (g, m)))"

definition gui_redraw :: "fb_info \<Rightarrow> desktop \<Rightarrow> desktop" where
  "gui_redraw fbi s =
     (case s of (g, t, cu, m) \<Rightarrow>
        (let (cu, m) = fb_cursor_hide fbi cu m;
             m = fb_clear fbi (fb_rgb fbi 20 20 40) m;
             (g, m) = fold (redraw_step fbi t) (windows g) (g, m)
         in (g, t, fb_cursor_show fbi cu m)))"

text \<open>The loop from the top window down.\<close>

definition gui_top_window_at :: "int \<Rightarrow> int \<Rightarrow> gui \<Rightarrow> u64" where
  "gui_top_window_at x y g =
     (case find (\<lambda>w. win_visible (wins g w) \<and> window_hit (wins g w) x y) (rev (windows g)) of None \<Rightarrow> 0 | Some w \<Rightarrow> w)"

definition in_title_bar :: "window \<Rightarrow> int \<Rightarrow> int \<Rightarrow> bool" where
  "in_title_bar w x y \<longleftrightarrow> x \<ge> win_x w \<and> x < win_x w + win_w w \<and> y \<ge> win_y w \<and> y < win_y w + WIN_BORDER + WIN_TITLE_H"

definition run_click :: "u64 \<Rightarrow> int \<Rightarrow> int \<Rightarrow> gui \<Rightarrow> gui" where
  "run_click w mx my g =
     (case on_click (wins g w) of
        No_click \<Rightarrow> g
      | Demo_click \<Rightarrow> if button_hit (wins g w) mx my then g\<lparr>counter_value := counter_value g + 1\<rparr> else g)"

definition run_move :: "u64 \<Rightarrow> gui \<Rightarrow> fb_term \<Rightarrow> fb_term" where
  "run_move w g t = (case on_move (wins g w) of No_move \<Rightarrow> t | Term_on_move \<Rightarrow> term_update_region (wins g w) t)"

text \<open>The branch for a fresh press of the left button that is not on a close button.\<close>

definition press_window :: "u64 \<Rightarrow> int \<Rightarrow> int \<Rightarrow> gui \<Rightarrow> gui" where
  "press_window w mx my g =
     (let g = bring_to_front w g;
          g = (if focus g \<noteq> 0 then upd_win (focus g) (\<lambda>x. x\<lparr>win_focused := False\<rparr>) g else g);
          g = upd_win w (\<lambda>x. x\<lparr>win_focused := True\<rparr>) (g\<lparr>focus := w\<rparr>);
          g = (if in_title_bar (wins g w) mx my then
                 g\<lparr>drag_win := w, drag_off_x := mx - win_x (wins g w), drag_off_y := my - win_y (wins g w)\<rparr>
               else g)
      in run_click w mx my g)"

definition gui_on_mouse :: "fb_info \<Rightarrow> u8 \<Rightarrow> desktop \<Rightarrow> desktop" where
  "gui_on_mouse fbi b s =
     (case s of (g, t, cu, m) \<Rightarrow>
        (let (mx, my) = fb_cursor_get_pos cu;
             left_now = (b AND 0x01 \<noteq> 0);
             left_prev = (last_buttons g AND 0x01 \<noteq> 0) in
         if left_now \<and> \<not> left_prev then
           (let w = gui_top_window_at mx my g in
            if w \<noteq> 0 then
              (if window_close_hit (wins g w) mx my then
                 (case gui_redraw fbi (gui_remove_window w g, t, cu, m) of (g, d) \<Rightarrow> (g\<lparr>last_buttons := b\<rparr>, d))
               else
                 (case gui_redraw fbi (press_window w mx my g, t, cu, m) of (g, d) \<Rightarrow> (g\<lparr>last_buttons := b\<rparr>, d)))
            else (g\<lparr>last_buttons := b\<rparr>, t, cu, m))
         else if \<not> left_now \<and> left_prev then (g\<lparr>drag_win := 0, last_buttons := b\<rparr>, t, cu, m)
         else if left_now \<and> drag_win g \<noteq> 0 then
           (let nx = mx - drag_off_x g; ny = my - drag_off_y g; w = drag_win g in
            if nx \<noteq> win_x (wins g w) \<or> ny \<noteq> win_y (wins g w) then
              (let g = upd_win w (\<lambda>x. x\<lparr>win_x := nx, win_y := ny\<rparr>) g;
                   t = run_move w g t
               in case gui_redraw fbi (g, t, cu, m) of (g, d) \<Rightarrow> (g\<lparr>last_buttons := b\<rparr>, d))
            else (g\<lparr>last_buttons := b\<rparr>, t, cu, m))
         else (g\<lparr>last_buttons := b\<rparr>, t, cu, m)))"

section \<open>Lists of windows\<close>

lemma find_index_None: "find_index w xs = None \<longleftrightarrow> w \<notin> set xs"
  by (induction xs) auto

lemma close_gap_remove1: "find_index w xs = Some i \<Longrightarrow> close_gap i xs = remove1 w xs"
proof (induction xs arbitrary: i)
  case (Cons x xs)
  then show ?case by (auto simp: close_gap_def split: if_splits)
qed simp

lemma gui_remove_windows: "windows (gui_remove_window w g) = remove1 w (windows g)"
proof (cases "find_index w (windows g)")
  case None
  then have "w \<notin> set (windows g)" by (simp add: find_index_None)
  then show ?thesis using None by (simp add: gui_remove_window_def remove1_idem)
next
  case (Some i)
  then show ?thesis using close_gap_remove1 [OF Some] by (simp add: gui_remove_window_def Let_def upd_win_def)
qed

lemma bring_to_front_windows:
  assumes "w \<in> set (windows g)" and "distinct (windows g)"
  shows "bring_to_front w g = g\<lparr>windows := remove1 w (windows g) @ [w]\<rparr>"
proof (cases "w = last (windows g)")
  case True
  have ne: "windows g \<noteq> []" using assms(1) by auto
  then have "windows g = butlast (windows g) @ [w]" using True by simp
  moreover from this have "w \<notin> set (butlast (windows g))" using assms(2) by (metis distinct_append disjoint_insert(1) list.simps(15) inf.commute)
  ultimately have "remove1 w (windows g) @ [w] = windows g" by (metis append_Nil2 remove1.simps(2) remove1_append)
  then show ?thesis using True ne by (simp add: bring_to_front_def)
next
  case False
  obtain i where i: "find_index w (windows g) = Some i" using assms(1) find_index_None [of w "windows g"] by (cases "find_index w (windows g)") auto
  have "windows g \<noteq> []" using assms(1) by auto
  then show ?thesis using False i close_gap_remove1 [OF i] by (simp add: bring_to_front_def)
qed

section \<open>The invariant\<close>

definition gui_inv :: "gui \<Rightarrow> bool" where
  "gui_inv g \<longleftrightarrow> distinct (windows g) \<and> 0 \<notin> set (windows g) \<and> length (windows g) \<le> MAX_WINDOWS \<and>
     (focus g = 0 \<or> focus g \<in> set (windows g)) \<and> (drag_win g = 0 \<or> drag_win g \<in> set (windows g))"

text \<open>Everything of a window but the flag of the focus.\<close>

definition same_windows :: "gui \<Rightarrow> gui \<Rightarrow> bool" where
  "same_windows g g' \<longleftrightarrow> (\<forall>w. (wins g' w)\<lparr>win_focused := False\<rparr> = (wins g w)\<lparr>win_focused := False\<rparr>)"

lemma same_windows_refl [simp]: "same_windows g g"
  by (simp add: same_windows_def)

lemma same_windows_trans: "same_windows g g' \<Longrightarrow> same_windows g' g'' \<Longrightarrow> same_windows g g''"
  by (simp add: same_windows_def)

lemma same_windows_focus: "same_windows g (upd_win w (\<lambda>x. x\<lparr>win_focused := b\<rparr>) g)"
  by (simp add: same_windows_def upd_win_def)

lemma same_windows_upd [simp]: "wins g' = wins g \<Longrightarrow> same_windows g g'"
  by (simp add: same_windows_def)

lemma same_windowsD:
  assumes "same_windows g g'"
  shows "win_x (wins g' w) = win_x (wins g w)" "win_y (wins g' w) = win_y (wins g w)" "win_w (wins g' w) = win_w (wins g w)"
    "win_h (wins g' w) = win_h (wins g w)" "win_visible (wins g' w) = win_visible (wins g w)" "on_click (wins g' w) = on_click (wins g w)"
proof -
  have "(wins g' w)\<lparr>win_focused := False\<rparr> = (wins g w)\<lparr>win_focused := False\<rparr>" using assms by (simp add: same_windows_def)
  then show "win_x (wins g' w) = win_x (wins g w)" "win_y (wins g' w) = win_y (wins g w)" "win_w (wins g' w) = win_w (wins g w)"
    "win_h (wins g' w) = win_h (wins g w)" "win_visible (wins g' w) = win_visible (wins g w)" "on_click (wins g' w) = on_click (wins g w)"
    by (cases "wins g' w"; cases "wins g w"; simp)+
qed

text \<open>The rest of the desktop state.\<close>

definition desk :: "gui \<Rightarrow> u64 list \<times> u64 \<times> u64 \<times> int \<times> int \<times> int" where
  "desk g = (windows g, focus g, drag_win g, drag_off_x g, drag_off_y g, counter_value g)"

lemma redraw_fold:
  assumes "fold (redraw_step fbi t) ws (g, m) = (g', m')"
  shows "desk g' = desk g \<and> last_buttons g' = last_buttons g \<and> same_windows g g' \<and>
    (\<forall>w. win_focused (wins g' w) = (if w \<in> set ws \<and> win_visible (wins g w) then w = focus g else win_focused (wins g w)))"
  using assms
proof (induction ws arbitrary: g m)
  case (Cons w ws)
  obtain g1 m1 where s: "redraw_step fbi t w (g, m) = (g1, m1)" by fastforce
  have k: "desk g1 = desk g" "last_buttons g1 = last_buttons g" "same_windows g g1"
    "\<And>x. win_focused (wins g1 x) = (if x = w \<and> win_visible (wins g w) then x = focus g else win_focused (wins g x))"
    using s by (auto simp: redraw_step_def desk_def upd_win_def same_windows_def Let_def split: if_splits)
  have f: "focus g1 = focus g" using k(1) by (simp add: desk_def)
  have IH: "desk g' = desk g1 \<and> last_buttons g' = last_buttons g1 \<and> same_windows g1 g' \<and>
      (\<forall>x. win_focused (wins g' x) = (if x \<in> set ws \<and> win_visible (wins g1 x) then x = focus g1 else win_focused (wins g1 x)))"
    using Cons.IH [of g1 m1] Cons.prems s by simp
  then show ?case using k same_windowsD(5) [OF k(3)] f same_windows_trans [OF k(3)] by auto
qed simp

lemma redraw_spec:
  assumes "gui_redraw fbi (g, t, cu, m) = (g', d')"
  shows "desk g' = desk g \<and> last_buttons g' = last_buttons g \<and> same_windows g g' \<and> fst d' = t \<and>
    (\<forall>w. win_focused (wins g' w) = (if w \<in> set (windows g) \<and> win_visible (wins g w) then w = focus g else win_focused (wins g w)))"
proof -
  obtain cu1 m1 where h: "fb_cursor_hide fbi cu m = (cu1, m1)" by fastforce
  obtain g2 m2 where f: "fold (redraw_step fbi t) (windows g) (g, fb_clear fbi (fb_rgb fbi 20 20 40) m1) = (g2, m2)" by fastforce
  have "g' = g2" "fst d' = t" using assms h f by (auto simp: gui_redraw_def)
  then show ?thesis using redraw_fold [OF f] by simp
qed

lemma top_window:
  assumes "0 \<notin> set (windows g)"
  shows "if \<exists>w \<in> set (windows g). win_visible (wins g w) \<and> window_hit (wins g w) x y
    then gui_top_window_at x y g = last (filter (\<lambda>w. win_visible (wins g w) \<and> window_hit (wins g w) x y) (windows g)) \<and>
      gui_top_window_at x y g \<in> set (windows g) \<and> gui_top_window_at x y g \<noteq> 0
    else gui_top_window_at x y g = 0"
proof -
  let ?P = "\<lambda>w. win_visible (wins g w) \<and> window_hit (wins g w) x y"
  have "find ?P (rev xs) = (if filter ?P xs = [] then None else Some (last (filter ?P xs)))" for xs
    by (induction xs rule: rev_induct) auto
  then have t: "gui_top_window_at x y g = (if filter ?P (windows g) = [] then 0 else last (filter ?P (windows g)))"
    by (simp add: gui_top_window_at_def)
  show ?thesis
  proof (cases "\<exists>w \<in> set (windows g). ?P w")
    case True
    then have ne: "filter ?P (windows g) \<noteq> []" unfolding filter_empty_conv by blast
    then have "last (filter ?P (windows g)) \<in> set (filter ?P (windows g))" by (rule last_in_set)
    then have i: "last (filter ?P (windows g)) \<in> set (windows g)" by (rule subsetD [OF filter_is_subset])
    then have "last (filter ?P (windows g)) \<noteq> 0" using assms by metis
    then show ?thesis unfolding if_P [OF True] t if_not_P [OF ne] using i by blast
  next
    case False
    then have "filter ?P (windows g) = []" unfolding filter_empty_conv by blast
    then show ?thesis unfolding if_not_P [OF False] t by (rule if_P)
  qed
qed

lemma press_spec:
  assumes inv: "gui_inv g" and w: "w \<in> set (windows g)"
  shows "gui_inv (press_window w mx my g) \<and> same_windows g (press_window w mx my g) \<and>
    windows (press_window w mx my g) = remove1 w (windows g) @ [w] \<and> focus (press_window w mx my g) = w \<and>
    last_buttons (press_window w mx my g) = last_buttons g \<and>
    (if in_title_bar (wins g w) mx my then drag_win (press_window w mx my g) = w \<and>
       drag_off_x (press_window w mx my g) = mx - win_x (wins g w) \<and> drag_off_y (press_window w mx my g) = my - win_y (wins g w)
     else drag_win (press_window w mx my g) = drag_win g)"
proof -
  define g1 where "g1 = g\<lparr>windows := remove1 w (windows g) @ [w]\<rparr>"
  have g1: "bring_to_front w g = g1" using bring_to_front_windows [OF w] inv by (simp add: gui_inv_def g1_def)
  define g2 where "g2 = (if focus g1 \<noteq> 0 then upd_win (focus g1) (\<lambda>x. x\<lparr>win_focused := False\<rparr>) g1 else g1)"
  define g3 where "g3 = upd_win w (\<lambda>x. x\<lparr>win_focused := True\<rparr>) (g2\<lparr>focus := w\<rparr>)"
  have s1: "same_windows g g1" by (simp add: g1_def)
  have s2: "same_windows g1 g2" by (simp add: g2_def same_windows_focus)
  have s3: "same_windows g2 g3" by (simp add: g3_def same_windows_def upd_win_def)
  have s: "same_windows g g3" using s1 s2 s3 same_windows_trans by blast
  have f3: "windows g3 = remove1 w (windows g) @ [w]" "focus g3 = w" "drag_win g3 = drag_win g" "last_buttons g3 = last_buttons g"
    by (simp_all add: g3_def g2_def g1_def upd_win_def)
  have t: "in_title_bar (wins g3 w) mx my = in_title_bar (wins g w) mx my" using same_windowsD [OF s, of w] by (simp add: in_title_bar_def)
  define g4 where "g4 = (if in_title_bar (wins g3 w) mx my then
      g3\<lparr>drag_win := w, drag_off_x := mx - win_x (wins g3 w), drag_off_y := my - win_y (wins g3 w)\<rparr> else g3)"
  have p: "press_window w mx my g = run_click w mx my g4"
    by (simp add: press_window_def g1 Let_def g4_def g3_def g2_def)
  have "wins (run_click w mx my g4) = wins g4 \<and> windows (run_click w mx my g4) = windows g4 \<and> focus (run_click w mx my g4) = focus g4 \<and>
      drag_win (run_click w mx my g4) = drag_win g4 \<and> drag_off_x (run_click w mx my g4) = drag_off_x g4 \<and>
      drag_off_y (run_click w mx my g4) = drag_off_y g4 \<and> last_buttons (run_click w mx my g4) = last_buttons g4"
    by (simp add: run_click_def split: click_hook.split)
  moreover have "wins g4 = wins g3 \<and> windows g4 = windows g3 \<and> focus g4 = focus g3 \<and> last_buttons g4 = last_buttons g3 \<and>
      (if in_title_bar (wins g w) mx my then drag_win g4 = w \<and> drag_off_x g4 = mx - win_x (wins g w) \<and> drag_off_y g4 = my - win_y (wins g w)
       else drag_win g4 = drag_win g3)"
    using same_windowsD(1,2) [OF s, of w] by (simp add: g4_def t)
  moreover have "same_windows g (run_click w mx my g4)" using s calculation by (simp add: same_windows_def)
  moreover have "gui_inv (run_click w mx my g4)"
  proof -
    have "Suc (length (remove1 w (windows g))) = length (windows g)" using w length_pos_if_in_set [OF w] by (simp add: length_remove1)
    then show ?thesis using inv w f3 calculation by (auto simp: gui_inv_def set_remove1_eq split: if_splits)
  qed
  ultimately show ?thesis unfolding p using f3 by (simp split: if_splits)
qed

lemma remove_spec:
  assumes inv: "gui_inv g" and w: "w \<in> set (windows g)"
  shows "gui_inv (gui_remove_window w g) \<and> same_windows g (gui_remove_window w g) \<and>
    windows (gui_remove_window w g) = remove1 w (windows g)"
proof -
  obtain i where i: "find_index w (windows g) = Some i" using w find_index_None [of w "windows g"] by (cases "find_index w (windows g)") auto
  define g1 where "g1 = g\<lparr>windows := remove1 w (windows g)\<rparr>"
  define g2 where "g2 = (if focus g1 = w then
      (let g = g1\<lparr>focus := (if windows g1 \<noteq> [] then last (windows g1) else 0)\<rparr>
       in if focus g \<noteq> 0 then upd_win (focus g) (\<lambda>w. w\<lparr>win_focused := True\<rparr>) g else g) else g1)"
  have r: "gui_remove_window w g = (if drag_win g2 = w then g2\<lparr>drag_win := 0\<rparr> else g2)"
    by (simp add: gui_remove_window_def i close_gap_remove1 [OF i] Let_def g2_def g1_def)
  have k: "windows g2 = remove1 w (windows g)" "same_windows g g2" "drag_win g2 = drag_win g"
    "focus g2 = 0 \<or> focus g2 \<in> set (remove1 w (windows g))"
  proof -
    have "remove1 w (windows g) \<noteq> [] \<Longrightarrow> last (remove1 w (windows g)) \<in> set (remove1 w (windows g))" by (rule last_in_set)
    moreover have "set (remove1 w (windows g)) = set (windows g) - {w}" using inv by (simp add: gui_inv_def set_remove1_eq)
    ultimately show "windows g2 = remove1 w (windows g)" "same_windows g g2" "drag_win g2 = drag_win g"
      "focus g2 = 0 \<or> focus g2 \<in> set (remove1 w (windows g))"
      using inv by (auto simp: g2_def g1_def upd_win_def same_windows_def Let_def gui_inv_def)
  qed
  show ?thesis
    unfolding r using k inv by (auto simp: gui_inv_def length_remove1 same_windows_def set_remove1_eq split: if_splits)
qed

section \<open>The mouse on the desktop\<close>

lemma redraw_desk:
  assumes "gui_redraw fbi (g, t, cu, m) = (g', d')"
  shows "windows g' = windows g \<and> focus g' = focus g \<and> drag_win g' = drag_win g \<and> drag_off_x g' = drag_off_x g \<and>
    drag_off_y g' = drag_off_y g \<and> same_windows g g' \<and> (gui_inv g \<longrightarrow> gui_inv g')"
  using redraw_spec [OF assms] by (simp add: desk_def gui_inv_def)

lemma last_buttons_simps [simp]:
  "gui_inv (g\<lparr>last_buttons := b\<rparr>) = gui_inv g" "same_windows g' (g\<lparr>last_buttons := b\<rparr>) = same_windows g' g"
  by (simp_all add: gui_inv_def same_windows_def)

lemma mouse_press:
  assumes inv: "gui_inv g" and b: "b AND 1 \<noteq> 0" "last_buttons g AND 1 = 0"
    and w: "gui_top_window_at (cur_x cu) (cur_y cu) g = w" "w \<noteq> 0" "\<not> window_close_hit (wins g w) (cur_x cu) (cur_y cu)"
    and run: "gui_on_mouse fbi b (g, t, cu, m) = (g', d')"
  shows "gui_inv g' \<and> same_windows g g' \<and> windows g' = remove1 w (windows g) @ [w] \<and> focus g' = w \<and> last_buttons g' = b \<and>
    (\<forall>x \<in> set (windows g'). win_visible (wins g' x) \<longrightarrow> win_focused (wins g' x) = (x = w)) \<and>
    (if in_title_bar (wins g w) (cur_x cu) (cur_y cu)
     then drag_win g' = w \<and> drag_off_x g' = cur_x cu - win_x (wins g w) \<and> drag_off_y g' = cur_y cu - win_y (wins g w)
     else drag_win g' = drag_win g)"
proof -
  have ws: "w \<in> set (windows g)" using top_window [of g "cur_x cu" "cur_y cu"] inv w by (auto simp: gui_inv_def split: if_splits)
  define p where "p = press_window w (cur_x cu) (cur_y cu) g"
  obtain g2 d2 where r: "gui_redraw fbi (p, t, cu, m) = (g2, d2)" by (metis prod.collapse)
  have g': "g' = g2\<lparr>last_buttons := b\<rparr>" using run b w r by (simp add: gui_on_mouse_def fb_cursor_get_pos_def p_def Let_def)
  note k = redraw_desk [OF r] press_spec [OF inv ws, of "cur_x cu" "cur_y cu", folded p_def]
  have f: "\<forall>x \<in> set (windows p). win_visible (wins p x) \<longrightarrow> win_focused (wins g2 x) = (x = focus p)"
    using redraw_spec [OF r] by simp
  have s: "same_windows g g2" using k same_windows_trans by blast
  have v: "win_visible (wins g2 x) = win_visible (wins p x)" for x using redraw_spec [OF r] same_windowsD(5) by blast
  show ?thesis using k f s v unfolding g' by (simp split: if_splits)
qed

lemma mouse_drag:
  assumes inv: "gui_inv g" and b: "b AND 1 \<noteq> 0" "last_buttons g AND 1 \<noteq> 0" and w: "drag_win g = w" "w \<noteq> 0"
    and run: "gui_on_mouse fbi b (g, t, cu, m) = (g', d')"
  shows "gui_inv g' \<and> windows g' = windows g \<and> focus g' = focus g \<and> drag_win g' = w \<and> drag_off_x g' = drag_off_x g \<and>
    drag_off_y g' = drag_off_y g \<and> last_buttons g' = b \<and>
    win_x (wins g' w) = cur_x cu - drag_off_x g \<and> win_y (wins g' w) = cur_y cu - drag_off_y g \<and>
    win_w (wins g' w) = win_w (wins g w) \<and> win_h (wins g' w) = win_h (wins g w) \<and>
    (\<forall>x. x \<noteq> w \<longrightarrow> (wins g' x)\<lparr>win_focused := False\<rparr> = (wins g x)\<lparr>win_focused := False\<rparr>)"
proof -
  let ?nx = "cur_x cu - drag_off_x g" and ?ny = "cur_y cu - drag_off_y g"
  show ?thesis
  proof (cases "?nx \<noteq> win_x (wins g w) \<or> ?ny \<noteq> win_y (wins g w)")
    case True
    define g1 where "g1 = upd_win w (\<lambda>x. x\<lparr>win_x := ?nx, win_y := ?ny\<rparr>) g"
    obtain g2 d2 where r: "gui_redraw fbi (g1, run_move w g1 t, cu, m) = (g2, d2)" by (metis prod.collapse)
    have g': "g' = g2\<lparr>last_buttons := b\<rparr>"
      using run b w r True by (simp add: gui_on_mouse_def fb_cursor_get_pos_def g1_def Let_def)
    note k = redraw_desk [OF r]
    have s: "same_windows g1 g2" using k by blast
    have "gui_inv g1" using inv by (simp add: gui_inv_def g1_def upd_win_def)
    then show ?thesis using k w same_windowsD(1-4) [OF s, of w] s unfolding g'
      by (simp add: g1_def upd_win_def same_windows_def)
  next
    case False
    then have "g' = g\<lparr>last_buttons := b\<rparr>" using run b w by (auto simp: gui_on_mouse_def fb_cursor_get_pos_def Let_def)
    then show ?thesis using False w inv by simp
  qed
qed

text \<open>A desktop of two windows on the same spot; window 2 is in front.\<close>

definition demo_desk :: gui where
  "demo_desk = \<lparr>wins = (\<lambda>_. (window_init demo_fb 10 10 100 80 (bytes ''Demo''))\<lparr>on_close := Demo_close\<rparr>), windows = [1, 2],
     last_buttons = 0, focus = 1, drag_win = 0, drag_off_x = 0, drag_off_y = 0, counter_value = 0\<rparr>"

lemma demo_desk_facts:
  "gui_inv demo_desk" "last_buttons demo_desk = 0" "gui_top_window_at 20 15 demo_desk = 2"
  "gui_top_window_at 92 20 demo_desk = 2" "\<not> window_close_hit (wins demo_desk 2) 20 15" "window_close_hit (wins demo_desk 2) 92 20"
  "in_title_bar (wins demo_desk 2) 20 15" "win_x (wins demo_desk 2) = 10" "win_y (wins demo_desk 2) = 10" "windows demo_desk = [1, 2]"
  by (simp_all add: gui_inv_def demo_desk_def MAX_WINDOWS_def gui_top_window_at_def window_init_def window_hit_def window_close_hit_def
      close_btn_rect_def win_sizes in_title_bar_def signed_divide_int_def)

lemma demo_overlap: "filter (\<lambda>x. win_visible (wins demo_desk x) \<and> window_hit (wins demo_desk x) 20 15) (windows demo_desk) = [1, 2]"
  by (simp add: demo_desk_def window_init_def window_hit_def)

definition demo_point :: "int \<Rightarrow> int \<Rightarrow> cursor" where
  "demo_point x y = demo_cursor\<lparr>cur_x := x, cur_y := y\<rparr>"

lemma demo_point_at [simp]: "cur_x (demo_point x y) = x" "cur_y (demo_point x y) = y"
  by (simp_all add: demo_point_def)

text \<open>
  C32. Clicking and dragging.  In a desktop with its invariant, a fresh press of the left button on a window
  (the topmost visible one under the pointer) but not on its close button brings exactly that window
  to the front and gives it the focus; every other window keeps its place, the order of the others
  and all shapes are kept, and exactly the focused one is drawn as such.  When the press was on the title bar and the
  pointer then moves with the button held, the window follows it: it is moved by exactly the
  distance the pointer went, no other window moves, and the invariant holds.
\<close>

theorem gui_drag_follows:
  assumes inv: "gui_inv g" and b: "b AND 1 \<noteq> 0" "last_buttons g AND 1 = 0" "b' AND 1 \<noteq> 0"
    and w: "gui_top_window_at (cur_x cu) (cur_y cu) g = w" "w \<noteq> 0" "\<not> window_close_hit (wins g w) (cur_x cu) (cur_y cu)"
    and press: "gui_on_mouse fbi b (g, t, cu, m) = (g1, d1)" and move: "gui_on_mouse fbi b' (g1, t2, cu2, m2) = (g2, d2)"
  shows "w = last (filter (\<lambda>x. win_visible (wins g x) \<and> window_hit (wins g x) (cur_x cu) (cur_y cu)) (windows g)) \<and>
    gui_inv g1 \<and> same_windows g g1 \<and> windows g1 = remove1 w (windows g) @ [w] \<and> focus g1 = w \<and>
    (\<forall>x \<in> set (windows g1). win_visible (wins g1 x) \<longrightarrow> win_focused (wins g1 x) = (x = w)) \<and>
    (in_title_bar (wins g w) (cur_x cu) (cur_y cu) \<longrightarrow>
      gui_inv g2 \<and> windows g2 = windows g1 \<and> focus g2 = w \<and>
      win_x (wins g2 w) = win_x (wins g w) + (cur_x cu2 - cur_x cu) \<and> win_y (wins g2 w) = win_y (wins g w) + (cur_y cu2 - cur_y cu) \<and>
      (\<forall>x. x \<noteq> w \<longrightarrow> (wins g2 x)\<lparr>win_focused := False\<rparr> = (wins g x)\<lparr>win_focused := False\<rparr>))"
proof -
  note p = mouse_press [OF inv b(1,2) w press]
  have top: "w = last (filter (\<lambda>x. win_visible (wins g x) \<and> window_hit (wins g x) (cur_x cu) (cur_y cu)) (windows g))"
    using top_window [of g "cur_x cu" "cur_y cu"] inv w by (auto simp: gui_inv_def split: if_splits)
  have "gui_inv g2 \<and> windows g2 = windows g1 \<and> focus g2 = w \<and>
      win_x (wins g2 w) = win_x (wins g w) + (cur_x cu2 - cur_x cu) \<and> win_y (wins g2 w) = win_y (wins g w) + (cur_y cu2 - cur_y cu) \<and>
      (\<forall>x. x \<noteq> w \<longrightarrow> (wins g2 x)\<lparr>win_focused := False\<rparr> = (wins g x)\<lparr>win_focused := False\<rparr>)"
    if ti: "in_title_bar (wins g w) (cur_x cu) (cur_y cu)"
  proof -
    have d: "drag_win g1 = w" "drag_off_x g1 = cur_x cu - win_x (wins g w)" "drag_off_y g1 = cur_y cu - win_y (wins g w)"
      "last_buttons g1 AND 1 \<noteq> 0" "gui_inv g1" using p ti b(1) by simp_all
    show ?thesis using mouse_drag [OF d(5) b(3) d(4,1) w(2) move] d p by (simp add: same_windows_def)
  qed
  then show ?thesis using p top by blast
qed

theorem gui_drag_follows_witness:
  "\<exists>g1 d1 g2 d2. gui_on_mouse demo_fb 1 (demo_desk, demo_term, demo_point 20 15, \<lambda>_. 9) = (g1, d1) \<and>
     gui_on_mouse demo_fb 1 (g1, demo_term, demo_point 27 11, \<lambda>_. 9) = (g2, d2) \<and>
     windows g1 = [1, 2] \<and> focus g1 = 2 \<and> win_x (wins g2 2) = 17 \<and> win_y (wins g2 2) = 6"
proof -
  obtain g1 d1 where p: "gui_on_mouse demo_fb 1 (demo_desk, demo_term, demo_point 20 15, \<lambda>_. 9) = (g1, d1)" by (metis prod.collapse)
  obtain g2 d2 where q: "gui_on_mouse demo_fb 1 (g1, demo_term, demo_point 27 11, \<lambda>_. 9) = (g2, d2)" by (metis prod.collapse)
  have "windows g1 = [1, 2] \<and> focus g1 = 2 \<and> win_x (wins g2 2) = 17 \<and> win_y (wins g2 2) = 6"
    using gui_drag_follows [OF demo_desk_facts(1) _ _ _ _ _ _ p q, of 2] by (simp add: demo_desk_facts)
  then show ?thesis using p q by blast
qed

text \<open>
  C33. Closing and releasing.  A fresh press on the close button of the topmost window removes exactly that window;
  releasing the button ends any drag; and whatever the mouse does, no window is listed twice or null,
  at most 8 are listed, and focus and drag always refer to listed windows.
\<close>

theorem gui_mouse_inv:
  assumes inv: "gui_inv g" and run: "gui_on_mouse fbi b (g, t, cu, m) = (g', d')"
  shows "gui_inv g' \<and> last_buttons g' = b \<and>
    (b AND 1 \<noteq> 0 \<longrightarrow> last_buttons g AND 1 = 0 \<longrightarrow> (let w = gui_top_window_at (cur_x cu) (cur_y cu) g in
       (w = 0 \<longrightarrow> g' = g\<lparr>last_buttons := b\<rparr>) \<and>
       (w \<noteq> 0 \<longrightarrow> window_close_hit (wins g w) (cur_x cu) (cur_y cu) \<longrightarrow> windows g' = remove1 w (windows g) \<and> same_windows g g'))) \<and>
    (b AND 1 = 0 \<longrightarrow> last_buttons g AND 1 \<noteq> 0 \<longrightarrow> drag_win g' = 0 \<and> same_windows g g' \<and> windows g' = windows g)"
proof -
  define w where "w = gui_top_window_at (cur_x cu) (cur_y cu) g"
  consider (press) "b AND 1 \<noteq> 0" "last_buttons g AND 1 = 0" | (release) "b AND 1 = 0" "last_buttons g AND 1 \<noteq> 0"
    | (drag) "b AND 1 \<noteq> 0" "last_buttons g AND 1 \<noteq> 0" "drag_win g \<noteq> 0"
    | (idle) "b AND 1 \<noteq> 0" "last_buttons g AND 1 \<noteq> 0" "drag_win g = 0" | (up) "b AND 1 = 0" "last_buttons g AND 1 = 0" by blast
  then show ?thesis
  proof cases
    case press
    consider (none) "w = 0" | (close) "w \<noteq> 0" "window_close_hit (wins g w) (cur_x cu) (cur_y cu)"
      | (win) "w \<noteq> 0" "\<not> window_close_hit (wins g w) (cur_x cu) (cur_y cu)" by blast
    then show ?thesis
    proof cases
      case none
      then have "g' = g\<lparr>last_buttons := b\<rparr>" using run press by (simp add: gui_on_mouse_def fb_cursor_get_pos_def Let_def w_def)
      then show ?thesis using none press inv by (simp add: Let_def w_def)
    next
      case close
      have ws: "w \<in> set (windows g)" using top_window [of g "cur_x cu" "cur_y cu"] inv close by (auto simp: gui_inv_def w_def split: if_splits)
      obtain g2 d2 where r: "gui_redraw fbi (gui_remove_window w g, t, cu, m) = (g2, d2)" by (metis prod.collapse)
      have g': "g' = g2\<lparr>last_buttons := b\<rparr>"
        using run press close r by (simp add: gui_on_mouse_def fb_cursor_get_pos_def Let_def flip: w_def)
      note k = remove_spec [OF inv ws] redraw_desk [OF r]
      then have "same_windows g g2" using same_windows_trans by blast
      then show ?thesis using k press close unfolding g' by (simp add: Let_def flip: w_def)
    next
      case win
      then show ?thesis using mouse_press [OF inv press w_def [symmetric] win run] press by (simp add: Let_def flip: w_def)
    qed
  next
    case release
    then have "g' = g\<lparr>drag_win := 0, last_buttons := b\<rparr>" using run by (simp add: gui_on_mouse_def fb_cursor_get_pos_def Let_def)
    then show ?thesis using release inv by (simp add: gui_inv_def)
  next
    case drag
    then show ?thesis using mouse_drag [OF inv drag(1,2) refl drag(3) run] by simp
  next
    case idle
    then have "g' = g\<lparr>last_buttons := b\<rparr>" using run by (simp add: gui_on_mouse_def fb_cursor_get_pos_def Let_def)
    then show ?thesis using idle inv by simp
  next
    case up
    then have "g' = g\<lparr>last_buttons := b\<rparr>" using run by (simp add: gui_on_mouse_def fb_cursor_get_pos_def Let_def)
    then show ?thesis using up inv by simp
  qed
qed

theorem gui_mouse_inv_witness:
  "windows (fst (gui_on_mouse demo_fb 1 (demo_desk, demo_term, demo_point 92 20, \<lambda>_. 9))) = [1]"
proof -
  obtain g' d' where p: "gui_on_mouse demo_fb 1 (demo_desk, demo_term, demo_point 92 20, \<lambda>_. 9) = (g', d')" by (metis prod.collapse)
  show ?thesis using gui_mouse_inv [OF demo_desk_facts(1) p] p by (simp add: demo_desk_facts Let_def)
qed

end
