(* ===== verification/Cpu.thy ===== *)
theory Cpu
  imports Printf
begin

text \<open>
  The tables the processor works from: segment descriptors and the task state segment,
  \<open>kernel/arch/gdt.c\<close>, interrupt gates and the report of an exception, \<open>idt.c\<close>, the dispatch of
  hardware interrupts, \<open>irq.c\<close>, the interrupt controller and the timer, \<open>pic.c\<close> and \<open>pit.c\<close>, and the
  registers of the \<open>syscall\<close> instruction set up by \<open>syscall_init\<close>.  Addresses the linker chooses (the
  tables themselves and the entry points written in assembly) are arguments.  How the processor
  reads a descriptor is the second half, after the manual of the architecture.
\<close>

section \<open>Segment descriptors\<close>

definition GDT_ENTRIES :: nat where "GDT_ENTRIES = 7"

definition SEL_KCODE :: u16 where "SEL_KCODE = 0x08"
definition SEL_KDATA :: u16 where "SEL_KDATA = 0x10"
definition SEL_UDATA :: u16 where "SEL_UDATA = 0x18"
definition SEL_UCODE :: u16 where "SEL_UCODE = 0x20"
definition SEL_TSS :: u16 where "SEL_TSS = 0x28"

lemmas selectors = SEL_KCODE_def SEL_KDATA_def SEL_UDATA_def SEL_UCODE_def SEL_TSS_def

record gdt_entry =
  limit_low :: u16
  base_low :: u16
  base_mid :: u8
  access :: u8
  gflags :: u8
  base_high :: u8

record tss_entry =
  tss_reserved0 :: u32
  rsp0 :: u64
  rsp1 :: u64
  rsp2 :: u64
  tss_reserved1 :: u64
  ist_stacks :: "u64 list"
  tss_reserved2 :: u64
  tss_reserved3 :: u16
  iomap_base :: u16

text \<open>\<open>sizeof (struct tss_entry)\<close>, and the packed limit and base that \<open>lgdt\<close> and \<open>lidt\<close> read.\<close>

definition TSS_SIZE :: u32 where "TSS_SIZE = 104"

record table_ptr =
  tp_limit :: u16
  tp_base :: u64

record gdt_state =
  gdt :: "gdt_entry list"
  gdtp :: table_ptr
  tss :: tss_entry

definition set_gate :: "nat \<Rightarrow> u32 \<Rightarrow> u32 \<Rightarrow> u8 \<Rightarrow> u8 \<Rightarrow> gdt_entry list \<Rightarrow> gdt_entry list" where
  "set_gate i base limit acc fl g =
     g[i := \<lparr>limit_low = ucast (limit AND 0xFFFF), base_low = ucast (base AND 0xFFFF), base_mid = ucast (drop_bit 16 base AND 0xFF),
             access = acc, gflags = ucast (drop_bit 16 limit AND 0x0F) OR (fl AND 0xF0), base_high = ucast (drop_bit 24 base AND 0xFF)\<rparr>]"

text \<open>The store of a whole quadword over a descriptor.\<close>

definition entry_of_quad :: "u64 \<Rightarrow> gdt_entry" where
  "entry_of_quad q =
     \<lparr>limit_low = ucast q, base_low = ucast (drop_bit 16 q), base_mid = ucast (drop_bit 32 q), access = ucast (drop_bit 40 q),
      gflags = ucast (drop_bit 48 q), base_high = ucast (drop_bit 56 q)\<rparr>"

definition zero_tss :: tss_entry where
  "zero_tss = \<lparr>tss_reserved0 = 0, rsp0 = 0, rsp1 = 0, rsp2 = 0, tss_reserved1 = 0, ist_stacks = replicate 7 0, tss_reserved2 = 0,
     tss_reserved3 = 0, iomap_base = 0\<rparr>"

definition gdt_init :: "u64 \<Rightarrow> u64 \<Rightarrow> gdt_state \<Rightarrow> gdt_state" where
  "gdt_init gdt_addr tss_base s =
     (let g = gdt s;
          g = set_gate 0 0 0 0x00 0x00 g;
          g = set_gate 1 0 0xFFFFF 0x9A 0xA0 g;
          g = set_gate 2 0 0xFFFFF 0x92 0xC0 g;
          g = set_gate 3 0 0xFFFFF 0xF2 0xC0 g;
          g = set_gate 4 0 0xFFFFF 0xFA 0xA0 g;
          tss_limit = TSS_SIZE - 1;
          g = g[5 := \<lparr>limit_low = ucast (tss_limit AND 0xFFFF), base_low = ucast (tss_base AND 0xFFFF),
                      base_mid = ucast (drop_bit 16 tss_base AND 0xFF), access = 0x89, gflags = ucast (drop_bit 16 tss_limit AND 0x0F),
                      base_high = ucast (drop_bit 24 tss_base AND 0xFF)\<rparr>];
          g = g[6 := entry_of_quad (drop_bit 32 tss_base AND 0xFFFFFFFF)]
      in \<lparr>gdt = g, gdtp = \<lparr>tp_limit = of_nat (8 * GDT_ENTRIES) - 1, tp_base = gdt_addr\<rparr>, tss = zero_tss\<lparr>iomap_base := ucast TSS_SIZE\<rparr>\<rparr>)"

definition tss_set_rsp0 :: "u64 \<Rightarrow> gdt_state \<Rightarrow> gdt_state" where
  "tss_set_rsp0 v s = s\<lparr>tss := (tss s)\<lparr>rsp0 := v\<rparr>\<rparr>"

section \<open>Interrupt gates\<close>

record idt_entry =
  offset_low :: u16
  selector :: u16
  ist :: u8
  type_attr :: u8
  offset_mid :: u16
  offset_high :: u32
  izero :: u32

definition zero_gate :: idt_entry where
  "zero_gate = \<lparr>offset_low = 0, selector = 0, ist = 0, type_attr = 0, offset_mid = 0, offset_high = 0, izero = 0\<rparr>"

definition idt_set_gate :: "nat \<Rightarrow> u64 \<Rightarrow> idt_entry list \<Rightarrow> idt_entry list" where
  "idt_set_gate n handler t =
     t[n := \<lparr>offset_low = ucast (handler AND 0xFFFF), selector = 0x08, ist = 0, type_attr = 0x8E,
             offset_mid = ucast (drop_bit 16 handler AND 0xFFFF), offset_high = ucast (drop_bit 32 handler AND 0xFFFFFFFF), izero = 0\<rparr>]"

definition idt_init :: "u64 \<Rightarrow> u64 list \<Rightarrow> u64 list \<Rightarrow> idt_entry list \<times> table_ptr" where
  "idt_init idt_addr isr_table irq_table =
     (let t = replicate 256 zero_gate;
          t = fold (\<lambda>i. idt_set_gate i (isr_table ! i)) [0..<32] t;
          t = fold (\<lambda>i. idt_set_gate (32 + i) (irq_table ! i)) [0..<16] t
      in (t, \<lparr>tp_limit = of_nat (16 * 256) - 1, tp_base = idt_addr\<rparr>))"

record regs =
  int_no :: u64
  err_code :: u64
  r_rip :: u64

section \<open>The report of an exception\<close>

definition newline :: "u8 list" where "newline = [10]"

definition exception_names :: "u8 list list" where
  "exception_names = map ascii
     [''DE Divide Error'', ''DB Debug'', ''NMI'', ''BP Breakpoint'', ''OF Overflow'', ''BR Bound Range'', ''UD Invalid Opcode'', ''NM Device N/A'',
      ''DF Double Fault'', ''CSO Coprocessor'', ''TS Invalid TSS'', ''NP Segment'', ''SS Stack Fault'', ''GP General Protection'', ''PF Page Fault'', ''RES'',
      ''MF x87 FP'', ''AC Alignment'', ''MC Machine Check'', ''XM SIMD FP'', ''VE Virtualization'', ''CP Control Protection'', ''RES'', ''RES'',
      ''RES'', ''RES'', ''RES'', ''RES'', ''HV Hypervisor'', ''VC VMM Comm'', ''SX Security'', ''RES'']"

definition decimal :: "u64 \<Rightarrow> u8 list" where
  "decimal v = (if v = 0 then [ch CHR ''0''] else rev (uint_digits 10 v))"

text \<open>What the page fault handler sends to the serial port before it halts; \<open>cr2\<close> is the faulting address.\<close>

definition page_fault_text :: "u64 \<Rightarrow> regs \<Rightarrow> u8 list" where
  "page_fault_text cr2 r =
     newline @ ascii ''*** PAGE FAULT ***'' @ newline @
     ascii ''virt     = '' @ serial_hex_text cr2 @ newline @
     ascii ''err_code = '' @ serial_hex_text (err_code r) @ newline @
     ascii ''  P     = '' @ decimal (if err_code r AND 1 \<noteq> 0 then 1 else 0) @ ascii '' (0=not-present, 1=protection)'' @ newline @
     ascii ''  W/R   = '' @ decimal (if err_code r AND 2 \<noteq> 0 then 1 else 0) @ ascii '' (0=read, 1=write)'' @ newline @
     ascii ''  U/S   = '' @ decimal (if err_code r AND 4 \<noteq> 0 then 1 else 0) @ ascii '' (0=kernel, 1=user)'' @ newline @
     ascii ''rip      = '' @ serial_hex_text (r_rip r) @ newline"

text \<open>Both handlers end in a loop around \<open>hlt\<close>: the result is what was sent until then.\<close>

definition exception_text :: "u64 \<Rightarrow> regs \<Rightarrow> u8 list" where
  "exception_text cr2 r =
     (if int_no r = 14 then page_fault_text cr2 r
      else
        newline @ ascii ''*** EXCEPTION ***'' @ newline @
        (if int_no r < 32 then exception_names ! unat (int_no r) @ newline else []) @
        ascii ''int_no   = '' @ serial_hex_text (int_no r) @ newline @
        ascii ''err_code = '' @ serial_hex_text (err_code r) @ newline @
        ascii ''rip      = '' @ serial_hex_text (r_rip r) @ newline)"

definition exception_handler :: "'v ports \<Rightarrow> u64 \<Rightarrow> regs \<Rightarrow> 'v \<Rightarrow> 'v option" where
  "exception_handler P cr2 r v = serial_write P (exception_text cr2 r) v"

section \<open>Interrupt controller and timer\<close>

definition PIC1_CMD :: u16 where "PIC1_CMD = 0x20"
definition PIC1_DATA :: u16 where "PIC1_DATA = 0x21"
definition PIC2_CMD :: u16 where "PIC2_CMD = 0xA0"
definition PIC2_DATA :: u16 where "PIC2_DATA = 0xA1"

lemmas pic_ports = PIC1_CMD_def PIC1_DATA_def PIC2_CMD_def PIC2_DATA_def

definition pic_io_wait :: "'v ports \<Rightarrow> 'v \<Rightarrow> 'v" where
  "pic_io_wait P = p_outb P 0x80 0"

definition pic_init :: "'v ports \<Rightarrow> 'v \<Rightarrow> 'v" where
  "pic_init P v =
     (let v = fold (\<lambda>(port, b) v. pic_io_wait P (p_outb P port b v))
                [(PIC1_CMD, 0x11), (PIC2_CMD, 0x11), (PIC1_DATA, 0x20), (PIC2_DATA, 0x28),
                 (PIC1_DATA, 0x04), (PIC2_DATA, 0x02), (PIC1_DATA, 0x01), (PIC2_DATA, 0x01)] v
      in p_outb P PIC2_DATA 0xFF (p_outb P PIC1_DATA 0xFF v))"

definition pic_send_eoi :: "'v ports \<Rightarrow> nat \<Rightarrow> 'v \<Rightarrow> 'v" where
  "pic_send_eoi P irq v = p_outb P PIC1_CMD 0x20 (if irq \<ge> 8 then p_outb P PIC2_CMD 0x20 v else v)"

definition pic_set_mask :: "'v ports \<Rightarrow> nat \<Rightarrow> 'v \<Rightarrow> 'v" where
  "pic_set_mask P irq v =
     (let port = (if irq < 8 then PIC1_DATA else PIC2_DATA);
          irq = (if irq \<ge> 8 then irq - 8 else irq)
      in case p_inb P port v of (m, v) \<Rightarrow> p_outb P port (m OR push_bit irq 1) v)"

definition pic_clear_mask :: "'v ports \<Rightarrow> nat \<Rightarrow> 'v \<Rightarrow> 'v" where
  "pic_clear_mask P irq v =
     (let port = (if irq < 8 then PIC1_DATA else PIC2_DATA);
          irq = (if irq \<ge> 8 then irq - 8 else irq)
      in case p_inb P port v of (m, v) \<Rightarrow> p_outb P port (m AND NOT (push_bit irq 1)) v)"

definition PIT_CH0 :: u16 where "PIT_CH0 = 0x40"
definition PIT_CMD :: u16 where "PIT_CMD = 0x43"
definition PIT_FREQ :: u32 where "PIT_FREQ = 1193182"

text \<open>The division by a frequency of 0 traps.\<close>

definition pit_divisor :: "u32 \<Rightarrow> u32 option" where
  "pit_divisor frequency =
     (if frequency = 0 then None
      else
        (let divisor = PIT_FREQ div frequency;
             divisor = (if divisor = 0 then 1 else divisor);
             divisor = (if divisor > 0xFFFF then 0xFFFF else divisor)
         in Some divisor))"

definition pit_init :: "'v ports \<Rightarrow> u32 \<Rightarrow> 'v \<Rightarrow> 'v option" where
  "pit_init P frequency v =
     (case pit_divisor frequency of
        None \<Rightarrow> None
      | Some d \<Rightarrow> Some (p_outb P PIT_CH0 (ucast (drop_bit 8 d AND 0xFF)) (p_outb P PIT_CH0 (ucast (d AND 0xFF)) (p_outb P PIT_CMD 0x36 v))))"

section \<open>Hardware interrupts\<close>

text \<open>The table of handlers; a handler changes the state \<open>'s\<close> of the kernel and of the devices.\<close>

type_synonym 's irq_table = "(regs \<Rightarrow> 's \<Rightarrow> 's) option list"

definition irq_init :: "'s irq_table" where
  "irq_init = replicate 16 None"

definition irq_register :: "int \<Rightarrow> (regs \<Rightarrow> 's \<Rightarrow> 's) \<Rightarrow> 's irq_table \<Rightarrow> 's irq_table" where
  "irq_register irq h hs = (if irq \<ge> 0 \<and> irq < 16 then hs[nat irq := Some h] else hs)"

definition irq_handler :: "'s ports \<Rightarrow> 's irq_table \<Rightarrow> regs \<Rightarrow> 's \<Rightarrow> 's" where
  "irq_handler P hs r s =
     (let irq = c_int (int_no r - 32) in
      if irq < 0 \<or> irq \<ge> 16 then s
      else
        (let s = pic_send_eoi P (nat irq) s in
         case hs ! nat irq of None \<Rightarrow> s | Some h \<Rightarrow> h r s))"

section \<open>The registers of system calls\<close>

definition MSR_EFER :: u32 where "MSR_EFER = 0xC0000080"
definition MSR_STAR :: u32 where "MSR_STAR = 0xC0000081"
definition MSR_LSTAR :: u32 where "MSR_LSTAR = 0xC0000082"
definition MSR_FMASK :: u32 where "MSR_FMASK = 0xC0000084"

lemmas msr_numbers = MSR_EFER_def MSR_STAR_def MSR_LSTAR_def MSR_FMASK_def

type_synonym msrs = "u32 \<Rightarrow> u64"

text \<open>The registers travel as two halves.\<close>

definition wrmsr :: "u32 \<Rightarrow> u64 \<Rightarrow> msrs \<Rightarrow> msrs" where
  "wrmsr msr v m = (let lo = (ucast v :: u32); hi = (ucast (drop_bit 32 v) :: u32) in m(msr := push_bit 32 (ucast hi) OR ucast lo))"

definition rdmsr :: "u32 \<Rightarrow> msrs \<Rightarrow> u64" where
  "rdmsr msr m = (let lo = (ucast (m msr) :: u32); hi = (ucast (drop_bit 32 (m msr)) :: u32) in push_bit 32 (ucast hi) OR ucast lo)"

definition syscall_init :: "u64 \<Rightarrow> msrs \<Rightarrow> msrs" where
  "syscall_init entry m =
     (let m = wrmsr MSR_EFER (rdmsr MSR_EFER m OR 1) m;
          star = push_bit 32 0x08 OR push_bit 48 0x10;
          m = wrmsr MSR_STAR star m;
          m = wrmsr MSR_LSTAR entry m
      in wrmsr MSR_FMASK (0x200 OR 0x400 OR 0x800 OR 0x40000) m)"

section \<open>How the processor reads the tables\<close>

definition seg_base :: "gdt_entry \<Rightarrow> u32" where
  "seg_base e = ucast (base_low e) OR push_bit 16 (ucast (base_mid e)) OR push_bit 24 (ucast (base_high e))"

definition seg_limit :: "gdt_entry \<Rightarrow> u32" where
  "seg_limit e = ucast (limit_low e) OR push_bit 16 (ucast (gflags e AND 0x0F))"

text \<open>The limit counts pages (bit 7 of the flags), a code segment is 64-bit (bit 5).\<close>

datatype segment = Absent | Code nat bool bool | Data nat bool | Task_state | Unknown_segment

definition segment_of :: "gdt_entry \<Rightarrow> segment" where
  "segment_of e =
     (let dpl = unat (drop_bit 5 (access e) AND 3); pages = bit (gflags e) 7 in
      if \<not> bit (access e) 7 then Absent
      else if bit (access e) 4 then (if bit (access e) 3 then Code dpl (bit (gflags e) 5) pages else Data dpl pages)
      else if access e AND 0x0F = 9 then Task_state
      else Unknown_segment)"

definition segment_at :: "gdt_entry list \<Rightarrow> u16 \<Rightarrow> segment" where
  "segment_at g sel = segment_of (g ! unat (drop_bit 3 sel))"

text \<open>The descriptor of a task state segment is two entries wide.\<close>

definition quad_of_entry :: "gdt_entry \<Rightarrow> u64" where
  "quad_of_entry e =
     ucast (limit_low e) OR push_bit 16 (ucast (base_low e)) OR push_bit 32 (ucast (base_mid e)) OR push_bit 40 (ucast (access e)) OR
     push_bit 48 (ucast (gflags e)) OR push_bit 56 (ucast (base_high e))"

definition tss_base_at :: "gdt_entry list \<Rightarrow> u16 \<Rightarrow> u64" where
  "tss_base_at g sel =
     (let i = unat (drop_bit 3 sel) in ucast (seg_base (g ! i)) OR push_bit 32 (quad_of_entry (g ! Suc i)))"

definition gate_offset :: "idt_entry \<Rightarrow> u64" where
  "gate_offset e = ucast (offset_low e) OR push_bit 16 (ucast (offset_mid e)) OR push_bit 32 (ucast (offset_high e))"

text \<open>A present interrupt gate of privilege 0 on the current stack.\<close>

definition interrupt_gate :: "idt_entry \<Rightarrow> bool" where
  "interrupt_gate e \<longleftrightarrow> bit (type_attr e) 7 \<and> drop_bit 5 (type_attr e) AND 3 = 0 \<and> type_attr e AND 0x1F = 14 \<and> ist e AND 7 = 0"

text \<open>Joining a word from pieces of itself.\<close>

lemma join_bits:
  "(ucast (ucast (q :: u64) :: u16) :: u64) = take_bit 16 q" "(ucast (ucast (q :: u64) :: u8) :: u64) = take_bit 8 q"
  "(ucast (ucast (q :: u64) :: u32) :: u64) = take_bit 32 q"
  by (simp_all add: unsigned_ucast_eq)

lemma piece_join: "take_bit n (q :: 'a::len word) OR push_bit n (take_bit k (drop_bit n q)) = take_bit (n + k) q"
  by (rule bit_word_eqI) (auto simp: bit_simps)

lemma piece_join_or: "take_bit n (q :: 'a::len word) OR (push_bit n (take_bit k (drop_bit n q)) OR w) = take_bit (n + k) q OR w"
  by (simp add: piece_join flip: or.assoc)

lemma entry_quad: "quad_of_entry (entry_of_quad q) = q"
proof -
  have "quad_of_entry (entry_of_quad q) = take_bit 64 q"
    using piece_join_or [of 16 q 16] piece_join_or [of 32 q 8] piece_join_or [of 40 q 8] piece_join_or [of 48 q 8] piece_join [of 56 q 8]
    by (simp only: quad_of_entry_def entry_of_quad_def gdt_entry.simps join_bits) simp
  then show ?thesis by (simp add: take_bit_word_eq_self)
qed

lemma masks: "(0xFFFF :: u64) = mask 16" "(0xFFFFFFFF :: u64) = mask 32" "(0xFFFF :: u32) = mask 16" "(0xFF :: u32) = mask 8"
  "(0x0F :: u32) = mask 4" "(0xFFFFF :: u32) = mask 20" "(0xFF :: u64) = mask 8"
  by (simp_all add: mask_eq_exp_minus_1)

lemma gate_offset_set: "n < length t \<Longrightarrow> gate_offset (idt_set_gate n h t ! n) = h"
proof -
  assume n: "n < length t"
  have "gate_offset (idt_set_gate n h t ! n) = take_bit 64 h"
    using n piece_join_or [of 16 h 16] piece_join [of 32 h 32]
    by (simp add: gate_offset_def idt_set_gate_def masks join_bits flip: take_bit_eq_mask)
  then show ?thesis by (simp add: take_bit_word_eq_self)
qed

lemma nibble_u8: "(ucast (take_bit 4 (w :: u32)) :: u8) AND 15 = ucast (take_bit 4 w)"
proof -
  have "(15 :: u8) = mask 4" by (simp add: mask_eq_exp_minus_1)
  then have "x AND 15 = take_bit 4 x" for x :: u8 by (simp only: take_bit_eq_mask)
  then show ?thesis by (simp add: unsigned_take_bit_eq)
qed

lemma nibble_high: "(ucast (take_bit 4 (w :: u32)) :: u8) AND 0xF0 = 0"
proof -
  have "x AND 0xF0 = push_bit 4 (drop_bit 4 x)" for x :: u8
  proof -
    have m: "(0xF0 :: u8) = push_bit 4 (mask 4)" by (simp add: mask_eq_exp_minus_1 push_bit_eq_mult)
    show ?thesis unfolding m by (rule bit_word_eqI) (auto simp: bit_simps)
  qed
  then show ?thesis by (simp add: unsigned_take_bit_eq drop_bit_take_bit)
qed

lemma set_gate_reads:
  assumes "i < length g"
  shows "seg_base (set_gate i b l a f g ! i) = b \<and> seg_limit (set_gate i b l a f g ! i) = l AND 0xFFFFF \<and>
    access (set_gate i b l a f g ! i) = a \<and> gflags (set_gate i b l a f g ! i) AND 0xF0 = f AND 0xF0"
proof -
  have "seg_base (set_gate i b l a f g ! i) = take_bit 32 b"
    using assms piece_join_or [of 16 b 8] piece_join [of 24 b 8]
    by (simp add: seg_base_def set_gate_def masks unsigned_ucast_eq flip: take_bit_eq_mask)
  moreover have "seg_limit (set_gate i b l a f g ! i) = take_bit 20 l"
  proof -
    have "gflags (set_gate i b l a f g ! i) AND 0x0F = ucast (take_bit 4 (drop_bit 16 l))"
      using assms by (simp add: set_gate_def masks bit.conj_disj_distrib2 and.assoc nibble_u8 flip: take_bit_eq_mask)
    then show ?thesis using assms piece_join [of 16 l 4]
      by (simp add: seg_limit_def set_gate_def masks unsigned_ucast_eq flip: take_bit_eq_mask)
  qed
  moreover have "gflags (set_gate i b l a f g ! i) AND 0xF0 = f AND 0xF0"
    using assms by (simp add: set_gate_def masks bit.conj_disj_distrib2 and.assoc nibble_high flip: take_bit_eq_mask)
  moreover have "l AND 0xFFFFF = take_bit 20 l" by (simp only: masks take_bit_eq_mask)
  ultimately show ?thesis using assms by (simp add: take_bit_word_eq_self set_gate_def)
qed


section \<open>The tables the kernel builds\<close>

lemma gdt_init_list:
  assumes "length (gdt s) = GDT_ENTRIES"
  shows "gdt (gdt_init ga tb s) =
    [set_gate 0 0 0 0x00 0x00 [gdt s ! 0] ! 0, set_gate 0 0 0xFFFFF 0x9A 0xA0 [gdt s ! 1] ! 0, set_gate 0 0 0xFFFFF 0x92 0xC0 [gdt s ! 2] ! 0,
     set_gate 0 0 0xFFFFF 0xF2 0xC0 [gdt s ! 3] ! 0, set_gate 0 0 0xFFFFF 0xFA 0xA0 [gdt s ! 4] ! 0,
     \<lparr>limit_low = 103, base_low = ucast tb, base_mid = ucast (drop_bit 16 tb), access = 0x89, gflags = 0, base_high = ucast (drop_bit 24 tb)\<rparr>,
     entry_of_quad (drop_bit 32 tb)]"
proof -
  have "(ucast (tb AND 0xFFFF) :: u16) = ucast tb" "(ucast (drop_bit k tb AND 0xFF) :: u8) = ucast (drop_bit k tb)" for k
    by (rule bit_word_eqI, auto simp: masks bit_simps)+
  moreover have "drop_bit 32 tb AND 0xFFFFFFFF = drop_bit 32 tb"
    by (rule bit_word_eqI) (auto simp: masks bit_simps dest: bit_imp_le_length)
  moreover obtain a b c d e f h where "gdt s = [a, b, c, d, e, f, h]"
    using assms by (auto simp: GDT_ENTRIES_def length_Suc_conv eval_nat_numeral)
  ultimately show ?thesis by (simp add: gdt_init_def set_gate_def Let_def TSS_SIZE_def)
qed

lemma idt_entries:
  assumes "length t = 256" and "b + k \<le> 256"
  shows "length (fold (\<lambda>i. idt_set_gate (b + i) (f i)) [0..<k] t) = 256 \<and> (\<forall>n < 256.
    fold (\<lambda>i. idt_set_gate (b + i) (f i)) [0..<k] t ! n = (if b \<le> n \<and> n < b + k then idt_set_gate n (f (n - b)) t ! n else t ! n))"
  using assms by (induction k) (auto simp: idt_set_gate_def nth_list_update)

lemma idt_init_nth:
  assumes "idt_init ia isr_table irq_table = (t, ip)" and "n < 256"
  shows "t ! n = (if n < 32 then idt_set_gate n (isr_table ! n) (replicate 256 zero_gate) ! n
    else if n < 48 then idt_set_gate n (irq_table ! (n - 32)) (replicate 256 zero_gate) ! n else zero_gate)"
proof -
  define t1 where "t1 = fold (\<lambda>i. idt_set_gate i (isr_table ! i)) [0..<32] (replicate 256 zero_gate)"
  have 1: "length t1 = 256" "t1 ! n = (if n < 32 then idt_set_gate n (isr_table ! n) (replicate 256 zero_gate) ! n else zero_gate)"
    using idt_entries [of "replicate 256 zero_gate" 0 32 "\<lambda>i. isr_table ! i"] assms(2) by (auto simp: t1_def)
  have "t = fold (\<lambda>i. idt_set_gate (32 + i) (irq_table ! i)) [0..<16] t1" using assms(1) by (simp add: idt_init_def Let_def t1_def)
  then show ?thesis
    using 1 assms(2) idt_entries [OF 1(1), of 32 16 "\<lambda>i. irq_table ! i"] by (simp add: idt_set_gate_def)
qed

lemma idt_init_shape: "idt_init ia isr_table irq_table = (t, ip) \<Longrightarrow> length t = 256 \<and> unat (tp_limit ip) + 1 = 16 * length t"
  using idt_entries [of "replicate 256 zero_gate" 0 32 "\<lambda>i. isr_table ! i"]
    idt_entries [of "fold (\<lambda>i. idt_set_gate i (isr_table ! i)) [0..<32] (replicate 256 zero_gate)" 32 16 "\<lambda>i. irq_table ! i"]
  by (auto simp: idt_init_def Let_def)

lemma zero_gate_absent: "\<not> bit (type_attr zero_gate) 7"
  by (simp add: zero_gate_def)

lemma set_gate_present:
  assumes "n < length t"
  shows "bit (type_attr (idt_set_gate n h t ! n)) 7 \<and> interrupt_gate (idt_set_gate n h t ! n) \<and> selector (idt_set_gate n h t ! n) = SEL_KCODE"
  using assms by (simp add: idt_set_gate_def interrupt_gate_def SEL_KCODE_def)

lemma wrmsr_apply: "wrmsr r v m = m(r := v)"
proof -
  have "push_bit 32 (ucast (ucast (drop_bit 32 v) :: u32)) OR ucast (ucast v :: u32) = (v :: u64)"
    by (rule bit_word_eqI) (auto simp: bit_simps dest: bit_imp_le_length)
  then show ?thesis by (simp add: wrmsr_def Let_def)
qed

lemma rdmsr_apply: "rdmsr r m = m r"
proof -
  have "push_bit 32 (ucast (ucast (drop_bit 32 v) :: u32)) OR ucast (ucast v :: u32) = (v :: u64)" for v
    by (rule bit_word_eqI) (auto simp: bit_simps dest: bit_imp_le_length)
  then show ?thesis by (simp add: rdmsr_def Let_def)
qed

lemma tss_base_joins: "tss_base_at [a, b, c, d, e, \<lparr>limit_low = l, base_low = ucast tb, base_mid = ucast (drop_bit 16 tb), access = x, gflags = y,
    base_high = ucast (drop_bit 24 tb)\<rparr>, entry_of_quad (drop_bit 32 tb)] SEL_TSS = tb"
proof -
  have "ucast (ucast (ucast tb :: u16) OR push_bit 16 (ucast (ucast (drop_bit 16 tb) :: u8)) OR push_bit 24 (ucast (ucast (drop_bit 24 tb) :: u8)) :: u32) OR
      push_bit 32 (drop_bit 32 tb) = tb"
  proof (rule bit_word_eqI)
    fix n :: nat
    assume "n < LENGTH(64)"
    then show "bit (ucast (ucast (ucast tb :: u16) OR push_bit 16 (ucast (ucast (drop_bit 16 tb) :: u8)) OR
        push_bit 24 (ucast (ucast (drop_bit 24 tb) :: u8)) :: u32) OR push_bit 32 (drop_bit 32 tb)) n = bit tb n"
      by (cases "n < 24"; cases "n < 32") (auto simp: bit_simps)
  qed
  then show ?thesis by (simp add: tss_base_at_def seg_base_def SEL_TSS_def entry_quad)
qed

text \<open>
  C37. The tables of the processor are well typed.  After \<open>gdt_init\<close>, \<open>idt_init\<close> and \<open>syscall_init\<close> every
  selector of \<open>gdt.h\<close> names a segment of its kind: kernel code and data of privilege 0, user code and
  data of privilege 3, flat with a limit of 2^20 pages, code 64-bit; the task state selector names a
  task state segment whose base and limit are those of the structure \<open>tss\<close>.  The selectors that
  \<open>syscall\<close> and \<open>sysret\<close> compute from the register STAR are exactly these four, the entry point is in
  LSTAR, and interrupts are masked on entry.  Vectors 0 to 31 lead to the exception entries and 32 to
  47 to the interrupt entries through present interrupt gates into the kernel code segment; no other
  gate is present.
\<close>

theorem cpu_tables_typed:
  assumes len: "length (gdt s) = GDT_ENTRIES"
    and g: "gdt_init ga tb s = s'" and i: "idt_init ia isr_table irq_table = (t, ip)" and m: "syscall_init entry m = m'"
  shows "segment_at (gdt s') 0 = Absent \<and> segment_at (gdt s') SEL_KCODE = Code 0 True True \<and> segment_at (gdt s') SEL_KDATA = Data 0 True \<and>
      segment_at (gdt s') SEL_UDATA = Data 3 True \<and> segment_at (gdt s') SEL_UCODE = Code 3 True True \<and>
      (\<forall>n \<in> {1..4}. seg_base (gdt s' ! n) = 0 \<and> seg_limit (gdt s' ! n) = 0xFFFFF) \<and>
      segment_at (gdt s') SEL_TSS = Task_state \<and> tss_base_at (gdt s') SEL_TSS = tb \<and> seg_limit (gdt s' ! 5) = 103 \<and>
      unat (tp_limit (gdtp s')) + 1 = 8 * length (gdt s') \<and>
    ucast (drop_bit 32 (m' MSR_STAR)) = SEL_KCODE \<and> ucast (drop_bit 32 (m' MSR_STAR)) + 8 = SEL_KDATA \<and>
      ucast (drop_bit 48 (m' MSR_STAR)) + 16 = SEL_UCODE \<and> ucast (drop_bit 48 (m' MSR_STAR)) + 8 = SEL_UDATA \<and>
      m' MSR_LSTAR = entry \<and> bit (m' MSR_FMASK) 9 \<and> m' MSR_EFER = m MSR_EFER OR 1 \<and>
    length t = 256 \<and> unat (tp_limit ip) + 1 = 16 * length t \<and>
      (\<forall>n < 256. bit (type_attr (t ! n)) 7 \<longleftrightarrow> n < 48) \<and>
      (\<forall>n < 48. interrupt_gate (t ! n) \<and> selector (t ! n) = SEL_KCODE \<and>
         gate_offset (t ! n) = (if n < 32 then isr_table ! n else irq_table ! (n - 32)))"
proof -
  note G = gdt_init_list [OF len, of ga tb, unfolded g]
  have star: "m' MSR_STAR = push_bit 32 0x08 OR push_bit 48 0x10" "m' MSR_LSTAR = entry" "bit (m' MSR_FMASK) 9" "m' MSR_EFER = m MSR_EFER OR 1"
    by (simp_all add: m [symmetric] syscall_init_def Let_def wrmsr_apply rdmsr_apply msr_numbers)
  have reads: "seg_base (set_gate 0 0 0xFFFFF a f [x] ! 0) = 0 \<and> seg_limit (set_gate 0 0 0xFFFFF a f [x] ! 0) = 0xFFFFF" for a f x
    using set_gate_reads [of 0 "[x]" 0 "0xFFFFF" a f] by simp
  have "\<forall>n \<in> {1..4}. seg_base (gdt s' ! n) = 0 \<and> seg_limit (gdt s' ! n) = 0xFFFFF"
  proof
    fix n :: nat
    assume "n \<in> {1..4}"
    then consider "n = 1" | "n = 2" | "n = 3" | "n = 4" by fastforce
    then show "seg_base (gdt s' ! n) = 0 \<and> seg_limit (gdt s' ! n) = 0xFFFFF" by cases (simp_all add: G reads)
  qed
  moreover have "segment_at (gdt s') 0 = Absent" "segment_at (gdt s') SEL_KCODE = Code 0 True True" "segment_at (gdt s') SEL_KDATA = Data 0 True"
      "segment_at (gdt s') SEL_UDATA = Data 3 True" "segment_at (gdt s') SEL_UCODE = Code 3 True True" "segment_at (gdt s') SEL_TSS = Task_state"
    by (simp_all add: G segment_at_def segment_of_def set_gate_def selectors Let_def)
  moreover have "tss_base_at (gdt s') SEL_TSS = tb" unfolding G by (rule tss_base_joins)
  moreover have "seg_limit (gdt s' ! 5) = 103" "unat (tp_limit (gdtp s')) + 1 = 8 * length (gdt s')"
    by (simp_all add: G seg_limit_def) (simp add: g [symmetric] gdt_init_def GDT_ENTRIES_def Let_def)
  moreover have "ucast (drop_bit 32 (m' MSR_STAR)) = SEL_KCODE" "ucast (drop_bit 32 (m' MSR_STAR)) + 8 = SEL_KDATA"
      "ucast (drop_bit 48 (m' MSR_STAR)) + 16 = SEL_UCODE" "ucast (drop_bit 48 (m' MSR_STAR)) + 8 = SEL_UDATA"
    by (simp_all add: star selectors)
  moreover have "\<forall>n < 256. bit (type_attr (t ! n)) 7 \<longleftrightarrow> n < 48"
    using idt_init_nth [OF i] set_gate_present [of _ "replicate 256 zero_gate"] zero_gate_absent by (simp split: if_splits)
  moreover have "\<forall>n < 48. interrupt_gate (t ! n) \<and> selector (t ! n) = SEL_KCODE \<and>
         gate_offset (t ! n) = (if n < 32 then isr_table ! n else irq_table ! (n - 32))"
    using idt_init_nth [OF i] set_gate_present [of _ "replicate 256 zero_gate"] gate_offset_set [of _ "replicate 256 zero_gate"] by simp
  ultimately show ?thesis using star idt_init_shape [OF i] by blast
qed


text \<open>The interrupt entries written in assembly, at distinct addresses of the kernel.\<close>

definition demo_gdt :: gdt_state where
  "demo_gdt = \<lparr>gdt = replicate 7 (entry_of_quad 0), gdtp = \<lparr>tp_limit = 0, tp_base = 0\<rparr>, tss = zero_tss\<rparr>"

theorem cpu_tables_typed_witness:
  "tss_base_at (gdt (gdt_init 0x201000 0xFFFF80000020A040 demo_gdt)) SEL_TSS = 0xFFFF80000020A040 \<and>
   gate_offset (fst (idt_init 0x202000 (map (\<lambda>i. 0x100000 + of_nat i * 9) [0..<32]) (map (\<lambda>i. 0x101000 + of_nat i * 10) [0..<16])) ! 33) = 0x10100A"
proof -
  obtain t ip where i: "idt_init 0x202000 (map (\<lambda>i. 0x100000 + of_nat i * 9) [0..<32]) (map (\<lambda>i. 0x101000 + of_nat i * 10) [0..<16]) = (t, ip)"
    by fastforce
  have "length (gdt demo_gdt) = GDT_ENTRIES" by (simp add: demo_gdt_def GDT_ENTRIES_def)
  note k = cpu_tables_typed [OF this refl i refl, of "0x201000" "0xFFFF80000020A040"]
  have "gate_offset (t ! 33) = 0x10100A" using k [THEN conjunct2] by simp
  then show ?thesis using k i by simp
qed

section \<open>Interrupts, masks and the timer\<close>

text \<open>Vector 32 + k is acknowledged at the controllers it came through, and runs exactly handler k.\<close>

lemma irq_handler_runs:
  assumes "k < 16" and "int_no r = 32 + of_nat k" and "length hs = 16"
  shows "irq_handler P hs r s =
    (let s = pic_send_eoi P k s in if hs ! k = None then s else the (hs ! k) r s)"
proof -
  have "c_int (int_no r - 32) = int k" using assms by (simp add: c_int_of_nat)
  then show ?thesis using assms by (auto simp: irq_handler_def Let_def split: option.splits)
qed

lemma irq_register_get:
  assumes "length hs = 16" and "0 \<le> irq" and "irq < 16" and "k < 16"
  shows "irq_register irq h hs ! k = (if k = nat irq then Some h else hs ! k)"
  using assms by (simp add: irq_register_def)

lemma irq_table_empty: "k < 16 \<Longrightarrow> irq_init ! k = None"
  by (simp add: irq_init_def)

text \<open>Masking and unmasking change the bit of their line and no other.\<close>

lemma pic_clear_mask_bits:
  assumes "irq < 16" and "p_inb P (if irq < 8 then PIC1_DATA else PIC2_DATA) v = (m, v')"
  shows "\<exists>m'. pic_clear_mask P irq v = p_outb P (if irq < 8 then PIC1_DATA else PIC2_DATA) m' v' \<and>
      (\<forall>i < 8. bit m' i \<longleftrightarrow> bit m i \<and> i \<noteq> irq mod 8)"
proof -
  have k: "irq mod 8 = (if irq \<ge> 8 then irq - 8 else irq)" using assms(1) by (simp add: mod_if)
  show ?thesis using assms k unfolding pic_clear_mask_def Let_def
    by (intro exI [of _ "m AND NOT (push_bit (irq mod 8) 1)"]) (auto simp: bit_simps)
qed

lemma pic_set_mask_bits:
  assumes "irq < 16" and "p_inb P (if irq < 8 then PIC1_DATA else PIC2_DATA) v = (m, v')"
  shows "\<exists>m'. pic_set_mask P irq v = p_outb P (if irq < 8 then PIC1_DATA else PIC2_DATA) m' v' \<and>
      (\<forall>i < 8. bit m' i \<longleftrightarrow> bit m i \<or> i = irq mod 8)"
proof -
  have k: "irq mod 8 = (if irq \<ge> 8 then irq - 8 else irq)" using assms(1) by (simp add: mod_if)
  show ?thesis using assms k unfolding pic_set_mask_def Let_def
    by (intro exI [of _ "m OR push_bit (irq mod 8) 1"]) (auto simp: bit_simps)
qed

text \<open>The divisor fits the 16 bits of the counter, and is exact for the frequencies in between.\<close>

lemma pit_divisor_bounds:
  assumes "pit_divisor f = Some d"
  shows "1 \<le> unat d \<and> unat d \<le> 65535 \<and> (18 < unat f \<and> unat f \<le> 1193182 \<longrightarrow> unat d = 1193182 div unat f)"
proof -
  define q where "q = 1193182 div unat f"
  have q: "unat (PIT_FREQ div f) = q" by (simp add: PIT_FREQ_def unat_div q_def)
  have d: "unat d = (if q = 0 then 1 else if q > 65535 then 65535 else q)"
    using assms q by (auto simp: pit_divisor_def Let_def word_less_nat_alt Suc_le_eq split: if_splits intro: word_ne_0_pos)
  have "0 < q \<and> q \<le> 65535" if "18 < unat f" "unat f \<le> 1193182"
  proof -
    have "1193182 div unat f \<le> 1193182 div 19" using that by (intro div_le_mono2) auto
    then show ?thesis using that by (simp add: q_def div_greater_zero_iff)
  qed
  then show ?thesis using d by (auto simp: q_def)
qed

lemma pit_100_hz: "pit_divisor 100 = Some 11931"
  by (simp add: pit_divisor_def PIT_FREQ_def)

end
