(* ===== verification/Panic.thy ===== *)
theory Panic
  imports Printf
begin

text \<open>
  The kernel's last words, \<open>kernel/lib/panic.c\<close>: the message, the registers and a walk along the
  saved frame pointers.  The text is what goes to the serial port before the processor halts;
  \<open>None\<close> is a message whose format is not well formed (see \<open>Printf\<close>).
\<close>

section \<open>The stack trace\<close>

definition FRAME_LOW :: u64 where "FRAME_LOW = 0x100000"
definition FRAME_HIGH :: u64 where "FRAME_HIGH = 0x1000000000"

text \<open>The return address and the frame pointer of each line; the counter of the loop runs down.\<close>

fun stack_frames :: "mem \<Rightarrow> nat \<Rightarrow> u64 \<Rightarrow> (u64 \<times> u64) list" where
  "stack_frames m 0 rbp = []"
| "stack_frames m (Suc n) rbp =
     (if rbp = 0 then []
      else if rbp < FRAME_LOW \<or> rbp > FRAME_HIGH then []
      else
        (let next_rbp = rd64 m rbp; ret_addr = rd64 m (rbp + 8) in
         if ret_addr = 0 then []
         else (ret_addr, rbp) # (if next_rbp \<le> rbp then [] else stack_frames m n next_rbp)))"

definition frame_line :: "nat \<Rightarrow> u64 \<times> u64 \<Rightarrow> u8 list option" where
  "frame_line depth f =
     (case f of (ret_addr, rbp) \<Rightarrow>
        serial_vprintf (ascii ''  #%02d  rip=0x%lx  rbp=0x%lx'' @ [10]) [A_int (of_nat (depth + 1)), A_int ret_addr, A_int rbp])"

fun frame_lines :: "nat \<Rightarrow> (u64 \<times> u64) list \<Rightarrow> u8 list option" where
  "frame_lines depth [] = Some []"
| "frame_lines depth (f # fs) =
     (case frame_line depth f of None \<Rightarrow> None | Some s \<Rightarrow> map_option ((@) s) (frame_lines (Suc depth) fs))"

definition dump_stack :: "mem \<Rightarrow> u64 \<Rightarrow> u64 \<Rightarrow> u8 list option" where
  "dump_stack m rbp rip =
     (case serial_vprintf (ascii ''  #00  rip=0x%lx'' @ [10]) [A_int rip] of
        None \<Rightarrow> None
      | Some s \<Rightarrow> map_option (\<lambda>t. ascii ''Stack trace:'' @ [10] @ s @ t) (frame_lines 0 (stack_frames m 24 rbp)))"

definition panic :: "mem \<Rightarrow> u64 \<Rightarrow> u64 \<Rightarrow> u8 list \<Rightarrow> arg list \<Rightarrow> u8 list option" where
  "panic m rbp rip fmt args =
     (case serial_vprintf fmt args of
        None \<Rightarrow> None
      | Some msg \<Rightarrow>
          (case serial_vprintf (ascii ''RBP = 0x%lx   RIP = 0x%lx'' @ [10]) [A_int rbp, A_int rip] of
             None \<Rightarrow> None
           | Some r \<Rightarrow>
               map_option (\<lambda>d. [10] @ ascii ''================== KERNEL PANIC =================='' @ [10] @ msg @ [10] @ r @ d @
                   ascii ''=================================================='' @ [10] @ ascii ''System halted.'' @ [10])
                 (dump_stack m rbp rip)))"

definition panic_assert_fail :: "mem \<Rightarrow> u64 \<Rightarrow> u64 \<Rightarrow> u8 list \<Rightarrow> u8 list \<Rightarrow> int \<Rightarrow> u8 list option" where
  "panic_assert_fail m rbp rip expr fname line =
     panic m rbp rip (ascii ''ASSERT FAILED: %s'' @ [10] @ ascii ''  at %s:%d'') [A_str (Some expr), A_str (Some fname), A_int (of_int line)]"

section \<open>Numbers in a format\<close>

lemma print_uint_some: "base = 10 \<or> base = 16 \<Longrightarrow> width \<le> 32 \<Longrightarrow> \<exists>s. print_uint v base width pad = Some s"
proof -
  assume b: "base = 10 \<or> base = 16" and w: "width \<le> 32"
  have "length (uint_digits base v) \<le> 20"
    using b by (intro uint_digits_length order_less_trans [OF unat_lt_64]) auto
  moreover have "nat width \<le> 32" using w by simp
  ultimately show ?thesis by (simp add: print_uint_def Let_def) linarith
qed

lemma print_int_some: "width \<le> 32 \<Longrightarrow> \<exists>s. print_int v width pad = Some s"
  using print_uint_some [of 10] by (fastforce simp: print_int_def)

lemma frame_line_some: "\<exists>s. frame_line depth f = Some s"
proof (cases f)
  case (Pair a b)
  obtain s1 s2 s3 where "print_int (scast (ucast (of_nat (Suc depth) :: u64) :: u32)) 2 48 = Some s1" "print_uint a 16 0 32 = Some s2"
    "print_uint b 16 0 32 = Some s3"
    using print_int_some [of 2] print_uint_some [of 16 0] by force
  then show ?thesis
    by (simp add: Pair frame_line_def ascii_def scan_spec_def convert_def is_digit_def signed_arg_def unsigned_arg_def Let_def)
qed


lemma frame_lines_some: "\<exists>s. frame_lines depth fs = Some s"
proof (induction fs arbitrary: depth)
  case (Cons f fs)
  then show ?case using frame_line_some [of depth f] by (metis frame_lines.simps(2) option.map(2) option.simps(5))
qed simp

section \<open>The trace is bounded\<close>

lemma stack_frames_spec:
  "length (stack_frames m n rbp) \<le> n \<and>
   (\<forall>(r, b) \<in> set (stack_frames m n rbp). r \<noteq> 0 \<and> r = rd64 m (b + 8) \<and> FRAME_LOW \<le> b \<and> b \<le> FRAME_HIGH \<and> rbp \<le> b) \<and>
   sorted_wrt (<) (map snd (stack_frames m n rbp))"
proof (induction n arbitrary: rbp)
  case (Suc n)
  define x where "x = rd64 m rbp"
  show ?case
  proof (cases "rbp = 0 \<or> rbp < FRAME_LOW \<or> rbp > FRAME_HIGH \<or> rd64 m (rbp + 8) = 0")
    case True
    then show ?thesis by (auto simp: Let_def)
  next
    case False
    show ?thesis
    proof (cases "x \<le> rbp")
      case True
      then show ?thesis using False by (auto simp: Let_def x_def)
    next
      case F2: False
      then have "rbp < b" if "(r, b) \<in> set (stack_frames m n x)" for r b
        using Suc.IH [of x] that by fastforce
      then show ?thesis using F2 False Suc.IH [of x] by (fastforce simp: Let_def simp flip: x_def)
    qed
  qed
qed simp

text \<open>
  The stack trace of a panic always ends: at most 24 frames are printed, each read from a frame pointer between
  1 MB and 64 GB, and the frame pointers strictly increase, so that no loop in the saved frames is followed twice.  A panic with a well
  formed message reports it, whatever the stack holds.
\<close>

theorem panic_reports:
  assumes "serial_vprintf fmt args = Some msg"
  shows "length (stack_frames m 24 rbp) \<le> 24 \<and> sorted_wrt (<) (map snd (stack_frames m 24 rbp)) \<and>
    (\<forall>(r, b) \<in> set (stack_frames m 24 rbp). r \<noteq> 0 \<and> r = rd64 m (b + 8) \<and> FRAME_LOW \<le> b \<and> b \<le> FRAME_HIGH) \<and>
    (\<exists>pre post. panic m rbp rip fmt args = Some (pre @ msg @ post))"
proof -
  obtain s where "print_uint rip 16 0 32 = Some s" using print_uint_some [of 16 0] by force
  moreover obtain t where "print_uint rbp 16 0 32 = Some t" using print_uint_some [of 16 0] by force
  moreover obtain u where "frame_lines 0 (stack_frames m 24 rbp) = Some u" using frame_lines_some by blast
  ultimately obtain d r where "dump_stack m rbp rip = Some d"
    "serial_vprintf (ascii ''RBP = 0x%lx   RIP = 0x%lx'' @ [10]) [A_int rbp, A_int rip] = Some r"
    by (simp add: dump_stack_def ascii_def scan_spec_def convert_def is_digit_def unsigned_arg_def Let_def)
  then have "panic m rbp rip fmt args = Some (([10] @ ascii ''================== KERNEL PANIC =================='' @ [10]) @ msg @
      ([10] @ r @ d @ ascii ''=================================================='' @ [10] @ ascii ''System halted.'' @ [10]))"
    using assms by (simp add: panic_def)
  then have "\<exists>pre post. panic m rbp rip fmt args = Some (pre @ msg @ post)" by blast
  then show ?thesis using stack_frames_spec [of m 24 rbp] by fastforce
qed

theorem panic_reports_witness: "\<exists>pre post. panic (\<lambda>_. 1) 0x200000 0x100010 (ascii ''stop'') [] = Some (pre @ ascii ''stop'' @ post)"
proof -
  have "serial_vprintf (ascii ''stop'') [] = Some (ascii ''stop'')" by code_simp
  from panic_reports [OF this] show ?thesis by blast
qed

end
