(* ===== verification/Vga.thy ===== *)
theory Vga
  imports Printf
begin

text \<open>
  The text screen of the graphics card, \<open>kernel/drivers/vga.c\<close>.  The buffer at 0xB8000 is a map from
  indices to 16-bit cells; indices outside the 80 x 25 cells are the memory around it.
\<close>

definition VGA_WIDTH :: int where "VGA_WIDTH = 80"
definition VGA_HEIGHT :: int where "VGA_HEIGHT = 25"
definition VGA_COLOR :: u16 where "VGA_COLOR = 0x0F"

lemmas vga_sizes = VGA_WIDTH_def VGA_HEIGHT_def

record vga =
  vga_buffer :: "int \<Rightarrow> u16"
  vga_row :: int
  vga_col :: int

definition vga_entry :: "u8 \<Rightarrow> u16" where
  "vga_entry c = ucast c OR push_bit 8 VGA_COLOR"

definition vga_putentry :: "int \<Rightarrow> int \<Rightarrow> u8 \<Rightarrow> vga \<Rightarrow> vga" where
  "vga_putentry row col c v = v\<lparr>vga_buffer := (vga_buffer v)(row * VGA_WIDTH + col := vga_entry c)\<rparr>"

definition vga_clear :: "vga \<Rightarrow> vga" where
  "vga_clear v = v\<lparr>vga_buffer := fold (\<lambda>i b. b(i := vga_entry (ch CHR '' ''))) [0..VGA_WIDTH * VGA_HEIGHT - 1] (vga_buffer v),
     vga_row := 0, vga_col := 0\<rparr>"

text \<open>The two loops behind the last row.\<close>

definition vga_scroll :: "vga \<Rightarrow> vga" where
  "vga_scroll v =
     (if vga_row v \<ge> VGA_HEIGHT then
        (let b = fold (\<lambda>i b. b(i := b (i + VGA_WIDTH))) [0..(VGA_HEIGHT - 1) * VGA_WIDTH - 1] (vga_buffer v);
             b = fold (\<lambda>i b. b(i := vga_entry (ch CHR '' ''))) [(VGA_HEIGHT - 1) * VGA_WIDTH..VGA_HEIGHT * VGA_WIDTH - 1] b
         in v\<lparr>vga_buffer := b, vga_row := VGA_HEIGHT - 1\<rparr>)
      else v)"

definition vga_putc :: "u8 \<Rightarrow> vga \<Rightarrow> vga" where
  "vga_putc c v =
     (if c = 10 then vga_scroll (v\<lparr>vga_col := 0, vga_row := vga_row v + 1\<rparr>)
      else if c = 13 then vga_scroll (v\<lparr>vga_col := 0\<rparr>)
      else if c = 8 then
        (let v = (if vga_col v > 0 then v\<lparr>vga_col := vga_col v - 1\<rparr>
                  else if vga_row v > 0 then v\<lparr>vga_row := vga_row v - 1, vga_col := VGA_WIDTH - 1\<rparr>
                  else v)
         in vga_putentry (vga_row v) (vga_col v) (ch CHR '' '') v)
      else
        (let v = vga_putentry (vga_row v) (vga_col v) c v;
             v = v\<lparr>vga_col := vga_col v + 1\<rparr>;
             v = (if vga_col v \<ge> VGA_WIDTH then v\<lparr>vga_col := 0, vga_row := vga_row v + 1\<rparr> else v)
         in vga_scroll v))"

definition vga_write :: "u8 list \<Rightarrow> vga \<Rightarrow> vga" where
  "vga_write s v = fold vga_putc s v"

definition vga_get_cell :: "int \<Rightarrow> int \<Rightarrow> vga \<Rightarrow> u16" where
  "vga_get_cell row col v = vga_buffer v (row * VGA_WIDTH + col)"

definition vga_set_cell :: "int \<Rightarrow> int \<Rightarrow> u16 \<Rightarrow> vga \<Rightarrow> vga" where
  "vga_set_cell row col x v = v\<lparr>vga_buffer := (vga_buffer v)(row * VGA_WIDTH + col := x)\<rparr>"

lemma vga_width_pos: "0 < VGA_WIDTH"
  by (simp add: VGA_WIDTH_def)

lemma cell_index:
  assumes "0 \<le> k" "k < VGA_WIDTH" "0 \<le> c" "c < VGA_WIDTH"
  shows "r * VGA_WIDTH + k = q * VGA_WIDTH + c \<longleftrightarrow> r = q \<and> k = c"
proof
  assume e: "r * VGA_WIDTH + k = q * VGA_WIDTH + c"
  have "(r * VGA_WIDTH + k) div VGA_WIDTH = r" "(q * VGA_WIDTH + c) div VGA_WIDTH = q"
    using assms by (simp_all add: div_mult_self3 VGA_WIDTH_def)
  then show "r = q \<and> k = c" using e by simp
qed simp

section \<open>The loops over the buffer\<close>

lemma fill_cells: "fold (\<lambda>i b. b(i := x)) [l..h] b = (\<lambda>i. if l \<le> i \<and> i \<le> h then x else b i)"
proof (induction "nat (h - l + 1)" arbitrary: l b)
  case 0
  then show ?case by (auto simp: fun_eq_iff)
next
  case (Suc n)
  then have "l \<le> h" "n = nat (h - (l + 1) + 1)" by simp_all
  then show ?case using Suc.hyps(1) [of "l + 1" "b(l := x)"] by (auto simp: upto_rec1)
qed

lemma move_cells:
  assumes "0 < w"
  shows "fold (\<lambda>i b. b(i := b (i + w))) [l..h] b = (\<lambda>i. if l \<le> i \<and> i \<le> h then b (i + w) else b i)"
proof (induction "nat (h - l + 1)" arbitrary: l b)
  case 0
  then show ?case by (auto simp: fun_eq_iff)
next
  case (Suc n)
  then have "l \<le> h" "n = nat (h - (l + 1) + 1)" by simp_all
  then show ?case using assms Suc.hyps(1) [of "l + 1" "b(l := b (l + w))"] by (auto simp: upto_rec1)
qed

section \<open>The text on the screen\<close>

definition vga_inv :: "vga \<Rightarrow> bool" where
  "vga_inv v \<longleftrightarrow> 0 \<le> vga_row v \<and> vga_row v < VGA_HEIGHT \<and> 0 \<le> vga_col v \<and> vga_col v < VGA_WIDTH"

definition outside :: "int \<Rightarrow> bool" where
  "outside i \<longleftrightarrow> i < 0 \<or> VGA_WIDTH * VGA_HEIGHT \<le> i"

lemma vga_scroll_spec:
  "vga_scroll v = (if vga_row v \<ge> VGA_HEIGHT
     then v\<lparr>vga_row := VGA_HEIGHT - 1, vga_buffer := (\<lambda>i. if 0 \<le> i \<and> i < 1920 then vga_buffer v (i + 80)
                                             else if 1920 \<le> i \<and> i < 2000 then vga_entry (ch CHR '' '') else vga_buffer v i)\<rparr>
     else v)"
  unfolding vga_scroll_def fill_cells move_cells [OF vga_width_pos] Let_def by (auto simp: vga_sizes fun_eq_iff)

lemma vga_putc_inv:
  assumes "vga_inv v"
  shows "vga_inv (vga_putc c v) \<and> (\<forall>i. outside i \<longrightarrow> vga_buffer (vga_putc c v) i = vga_buffer v i)"
proof -
  consider (nl) "c = 10" | (cr) "c = 13" | (bs) "c = 8" | (ch) "c \<noteq> 10" "c \<noteq> 13" "c \<noteq> 8" by blast
  then show ?thesis
    using assms by cases (auto simp: vga_putc_def vga_inv_def vga_scroll_spec vga_putentry_def outside_def vga_sizes Let_def)
qed

text \<open>
  Whatever is written to the text screen, the position stays on it and no memory around the buffer
  changes; a line of ordinary characters that fits behind the position appears there, each in white on
  black, and no other cell changes until the line is full.
\<close>

lemma vga_write_bounded:
  assumes "vga_inv v"
  shows "vga_inv (vga_write s v) \<and> (\<forall>i. outside i \<longrightarrow> vga_buffer (vga_write s v) i = vga_buffer v i) \<and>
    (set s \<inter> {8, 10, 13} = {} \<longrightarrow> vga_col v + int (length s) < VGA_WIDTH \<longrightarrow>
       vga_row (vga_write s v) = vga_row v \<and> vga_col (vga_write s v) = vga_col v + int (length s) \<and>
       (\<forall>r c. 0 \<le> c \<longrightarrow> c < VGA_WIDTH \<longrightarrow> vga_get_cell r c (vga_write s v) =
          (if r = vga_row v \<and> vga_col v \<le> c \<and> c < vga_col v + int (length s) then vga_entry (s ! nat (c - vga_col v))
           else vga_get_cell r c v)))"
proof (induction s rule: rev_induct)
  case Nil
  then show ?case using assms by (auto simp: vga_write_def)
next
  case (snoc c s)
  have w: "vga_write (s @ [c]) v = vga_putc c (vga_write s v)" by (simp add: vga_write_def)
  have i: "vga_inv (vga_write s v)" using snoc by blast
  have "vga_inv (vga_write (s @ [c]) v) \<and> (\<forall>i. outside i \<longrightarrow> vga_buffer (vga_write (s @ [c]) v) i = vga_buffer v i)"
    using vga_putc_inv [OF i, of c] snoc unfolding w by simp
  moreover have "vga_row (vga_write (s @ [c]) v) = vga_row v \<and> vga_col (vga_write (s @ [c]) v) = vga_col v + int (length (s @ [c])) \<and>
       (\<forall>r k. 0 \<le> k \<longrightarrow> k < VGA_WIDTH \<longrightarrow> vga_get_cell r k (vga_write (s @ [c]) v) =
          (if r = vga_row v \<and> vga_col v \<le> k \<and> k < vga_col v + int (length (s @ [c])) then vga_entry ((s @ [c]) ! nat (k - vga_col v))
           else vga_get_cell r k v))"
    if p: "set (s @ [c]) \<inter> {8, 10, 13} = {}" "vga_col v + int (length (s @ [c])) < VGA_WIDTH"
  proof -
    define u where "u = vga_write s v"
    have u: "vga_row u = vga_row v" "vga_col u = vga_col v + int (length s)"
        "\<And>r k. 0 \<le> k \<Longrightarrow> k < VGA_WIDTH \<Longrightarrow> vga_get_cell r k u =
          (if r = vga_row v \<and> vga_col v \<le> k \<and> k < vga_col v + int (length s) then vga_entry (s ! nat (k - vga_col v)) else vga_get_cell r k v)"
      using snoc p unfolding u_def by auto
    have "\<not> vga_row u \<ge> VGA_HEIGHT" using i by (simp add: vga_inv_def u_def)
    then have s: "vga_putc c u = (vga_putentry (vga_row u) (vga_col u) c u)\<lparr>vga_col := vga_col u + 1\<rparr>"
      using p u by (simp add: vga_putc_def vga_putentry_def vga_scroll_def Let_def)
    have g: "vga_get_cell r k (vga_putc c u) = (if r = vga_row u \<and> k = vga_col u then vga_entry c else vga_get_cell r k u)"
      if "0 \<le> k" "k < VGA_WIDTH" for r k
    proof -
      have "0 \<le> vga_col u" "vga_col u < VGA_WIDTH" using i by (simp_all add: vga_inv_def u_def)
      then have "r * VGA_WIDTH + k = vga_row u * VGA_WIDTH + vga_col u \<longleftrightarrow> r = vga_row u \<and> k = vga_col u"
        using that by (intro cell_index)
      then show ?thesis by (simp add: s vga_get_cell_def vga_putentry_def)
    qed
    have "vga_row (vga_putc c u) = vga_row v" "vga_col (vga_putc c u) = vga_col v + int (length (s @ [c]))"
      using u(1,2) by (simp_all add: s vga_putentry_def)
    moreover have "vga_get_cell r k (vga_putc c u) =
        (if r = vga_row v \<and> vga_col v \<le> k \<and> k < vga_col v + int (length (s @ [c])) then vga_entry ((s @ [c]) ! nat (k - vga_col v))
         else vga_get_cell r k v)" if k: "0 \<le> k" "k < VGA_WIDTH" for r k
    proof (cases "k = vga_col v + int (length s)")
      case True
      then show ?thesis using g [OF k, of r] u(1,2) u(3) [OF k, of r] by simp
    next
      case False
      then have "vga_col v \<le> k \<and> k < vga_col v + int (length (s @ [c])) \<longleftrightarrow> vga_col v \<le> k \<and> k < vga_col v + int (length s)" by auto
      moreover have "(s @ [c]) ! nat (k - vga_col v) = s ! nat (k - vga_col v)" if "vga_col v \<le> k \<and> k < vga_col v + int (length s)"
        using that by (simp add: nth_append nat_less_iff)
      ultimately show ?thesis using g [OF k, of r] u(1,2) u(3) [OF k, of r] False by simp
    qed
    ultimately show ?thesis unfolding w u_def [symmetric] by blast
  qed
  ultimately show ?case by blast
qed

end
