(* ===== verification/Pci.thy ===== *)
theory Pci
  imports Flyos_Prelude
begin

text \<open>
  The PCI bus, \<open>kernel/drivers/pci.c\<close>: configuration space through the two 32-bit ports, the
  enumeration at boot and the search for a device.  The hardware behind the ports is the argument
  \<open>P\<close>; a machine whose configuration space is \<open>cfg\<close> answers as \<open>pci_space\<close> says.  The array
  \<open>devices[0..device_count)\<close> is a list.
\<close>

section \<open>Configuration space\<close>

definition PCI_CONFIG_ADDR :: u16 where "PCI_CONFIG_ADDR = 0xCF8"
definition PCI_CONFIG_DATA :: u16 where "PCI_CONFIG_DATA = 0xCFC"
definition MAX_PCI_DEVICES :: nat where "MAX_PCI_DEVICES = 64"

record 'v long_ports =
  p_inl :: "u16 \<Rightarrow> 'v \<Rightarrow> u32 \<times> 'v"
  p_outl :: "u16 \<Rightarrow> u32 \<Rightarrow> 'v \<Rightarrow> 'v"

record pci_device =
  pci_bus :: u8
  pci_slot :: u8
  pci_func :: u8
  vendor_id :: u16
  device_id :: u16
  class_code :: u8
  pci_subclass :: u8
  prog_if :: u8
  header_type :: u8
  irq_line :: u8
  bar :: "u32 list"

definition pci_addr :: "u8 \<Rightarrow> u8 \<Rightarrow> u8 \<Rightarrow> u8 \<Rightarrow> u32" where
  "pci_addr bus slot func offset =
     push_bit 31 1 OR push_bit 16 (ucast bus) OR push_bit 11 (ucast slot) OR push_bit 8 (ucast func) OR ucast (offset AND 0xFC)"

definition pci_read32 :: "'v long_ports \<Rightarrow> u8 \<Rightarrow> u8 \<Rightarrow> u8 \<Rightarrow> u8 \<Rightarrow> 'v \<Rightarrow> u32 \<times> 'v" where
  "pci_read32 P bus slot func offset v = p_inl P PCI_CONFIG_DATA (p_outl P PCI_CONFIG_ADDR (pci_addr bus slot func offset) v)"

definition pci_write32 :: "'v long_ports \<Rightarrow> u8 \<Rightarrow> u8 \<Rightarrow> u8 \<Rightarrow> u8 \<Rightarrow> u32 \<Rightarrow> 'v \<Rightarrow> 'v" where
  "pci_write32 P bus slot func offset x v = p_outl P PCI_CONFIG_DATA x (p_outl P PCI_CONFIG_ADDR (pci_addr bus slot func offset) v)"

definition pci_read16 :: "'v long_ports \<Rightarrow> u8 \<Rightarrow> u8 \<Rightarrow> u8 \<Rightarrow> u8 \<Rightarrow> 'v \<Rightarrow> u16 \<times> 'v" where
  "pci_read16 P bus slot func offset v =
     (case pci_read32 P bus slot func (offset AND 0xFC) v of (x, v) \<Rightarrow> (ucast (drop_bit (unat (offset AND 2) * 8) x AND 0xFFFF), v))"

definition pci_read8 :: "'v long_ports \<Rightarrow> u8 \<Rightarrow> u8 \<Rightarrow> u8 \<Rightarrow> u8 \<Rightarrow> 'v \<Rightarrow> u8 \<times> 'v" where
  "pci_read8 P bus slot func offset v =
     (case pci_read32 P bus slot func (offset AND 0xFC) v of (x, v) \<Rightarrow> (ucast (drop_bit (unat (offset AND 3) * 8) x AND 0xFF), v))"

section \<open>Enumeration\<close>

fun read_bars :: "'v long_ports \<Rightarrow> u8 \<Rightarrow> u8 \<Rightarrow> u8 \<Rightarrow> nat list \<Rightarrow> 'v \<Rightarrow> u32 list \<times> 'v" where
  "read_bars P bus slot func [] v = ([], v)"
| "read_bars P bus slot func (i # ks) v =
     (case pci_read32 P bus slot func (of_nat (0x10 + i * 4)) v of
        (x, v) \<Rightarrow> (case read_bars P bus slot func ks v of (xs, v) \<Rightarrow> (x # xs, v)))"

definition probe :: "'v long_ports \<Rightarrow> u8 \<Rightarrow> u8 \<Rightarrow> u8 \<Rightarrow> pci_device list \<times> 'v \<Rightarrow> pci_device list \<times> 'v" where
  "probe P bus slot func s =
     (case s of (devices, v) \<Rightarrow>
        (if length devices \<ge> MAX_PCI_DEVICES then (devices, v)
         else
           (case pci_read32 P bus slot func 0x00 v of (pid, v) \<Rightarrow>
              (let vendor = (ucast (pid AND 0xFFFF) :: u16) in
               if vendor = 0xFFFF then (devices, v)
               else
                 (let (classreg, v) = pci_read32 P bus slot func 0x08 v;
                      (hdr, v) = pci_read32 P bus slot func 0x0C v;
                      (irq, v) = pci_read32 P bus slot func 0x3C v;
                      (bars, v) = read_bars P bus slot func [0..<6] v
                  in (devices @
                      [\<lparr>pci_bus = bus, pci_slot = slot, pci_func = func, vendor_id = vendor, device_id = ucast (drop_bit 16 pid AND 0xFFFF),
                        class_code = ucast (drop_bit 24 classreg AND 0xFF), pci_subclass = ucast (drop_bit 16 classreg AND 0xFF),
                        prog_if = ucast (drop_bit 8 classreg AND 0xFF), header_type = ucast (drop_bit 16 hdr AND 0xFF),
                        irq_line = ucast (irq AND 0xFF), bar = bars\<rparr>], v))))))"

definition scan_func :: "'v long_ports \<Rightarrow> u8 \<Rightarrow> u8 \<Rightarrow> nat \<Rightarrow> pci_device list \<times> 'v \<Rightarrow> pci_device list \<times> 'v" where
  "scan_func P bus slot func s =
     (case s of (devices, v) \<Rightarrow>
        (case pci_read32 P bus slot (of_nat func) 0x00 v of
           (id2, v) \<Rightarrow> if id2 AND 0xFFFF = 0xFFFF then (devices, v) else probe P bus slot (of_nat func) (devices, v)))"

definition scan_slot :: "'v long_ports \<Rightarrow> u8 \<Rightarrow> nat \<Rightarrow> pci_device list \<times> 'v \<Rightarrow> pci_device list \<times> 'v" where
  "scan_slot P bus slot s =
     (case s of (devices, v) \<Rightarrow>
        (case pci_read32 P bus (of_nat slot) 0 0x00 v of
           (pid, v) \<Rightarrow>
             if pid AND 0xFFFF = 0xFFFF then (devices, v)
             else
               (case probe P bus (of_nat slot) 0 (devices, v) of (devices, v) \<Rightarrow>
                  (case pci_read32 P bus (of_nat slot) 0 0x0C v of (hdr, v) \<Rightarrow>
                     (let htype = (ucast (drop_bit 16 hdr AND 0xFF) :: u8) in
                      if htype AND 0x80 \<noteq> 0 then fold (scan_func P bus (of_nat slot)) [1..<8] (devices, v) else (devices, v))))))"

definition scan_bus :: "'v long_ports \<Rightarrow> nat \<Rightarrow> pci_device list \<times> 'v \<Rightarrow> pci_device list \<times> 'v" where
  "scan_bus P bus s = fold (scan_slot P (of_nat bus)) [0..<32] s"

definition pci_init :: "'v long_ports \<Rightarrow> 'v \<Rightarrow> pci_device list \<times> 'v" where
  "pci_init P v = fold (scan_bus P) [0..<256] ([], v)"

definition pci_find :: "u16 \<Rightarrow> u16 \<Rightarrow> pci_device list \<Rightarrow> pci_device option" where
  "pci_find vendor device devices = find (\<lambda>d. vendor_id d = vendor \<and> device_id d = device) devices"

section \<open>A machine with a configuration space\<close>

definition pci_space :: "'v long_ports \<Rightarrow> (u32 \<Rightarrow> u32) \<Rightarrow> bool" where
  "pci_space P cfg \<longleftrightarrow> (\<forall>a v. fst (p_inl P PCI_CONFIG_DATA (p_outl P PCI_CONFIG_ADDR a v)) = cfg a)"

definition cfg_at :: "(u32 \<Rightarrow> u32) \<Rightarrow> u8 \<Rightarrow> u8 \<Rightarrow> u8 \<Rightarrow> u8 \<Rightarrow> u32" where
  "cfg_at cfg bus slot func offset = cfg (pci_addr bus slot func offset)"

definition present :: "(u32 \<Rightarrow> u32) \<Rightarrow> u8 \<Rightarrow> u8 \<Rightarrow> u8 \<Rightarrow> bool" where
  "present cfg bus slot func \<longleftrightarrow> (ucast (cfg_at cfg bus slot func 0) :: u16) \<noteq> 0xFFFF"

definition multi_function :: "(u32 \<Rightarrow> u32) \<Rightarrow> u8 \<Rightarrow> u8 \<Rightarrow> bool" where
  "multi_function cfg bus slot \<longleftrightarrow> bit (cfg_at cfg bus slot 0 0x0C) 23"

text \<open>The functions of a slot that exist, in the order of their numbers, and of all slots.\<close>

definition slot_functions :: "(u32 \<Rightarrow> u32) \<Rightarrow> u8 \<Rightarrow> nat \<Rightarrow> (u8 \<times> u8 \<times> u8) list" where
  "slot_functions cfg bus slot =
     (if present cfg bus (of_nat slot) 0 then
        map (\<lambda>f. (bus, of_nat slot, of_nat f))
          (filter (\<lambda>f. f = 0 \<or> multi_function cfg bus (of_nat slot) \<and> present cfg bus (of_nat slot) (of_nat f)) [0..<8])
      else [])"

definition pci_functions :: "(u32 \<Rightarrow> u32) \<Rightarrow> (u8 \<times> u8 \<times> u8) list" where
  "pci_functions cfg = concat (map (\<lambda>bus. concat (map (slot_functions cfg (of_nat bus)) [0..<32])) [0..<256])"

definition device_at :: "(u32 \<Rightarrow> u32) \<Rightarrow> u8 \<times> u8 \<times> u8 \<Rightarrow> pci_device" where
  "device_at cfg bsf =
     (case bsf of (bus, slot, func) \<Rightarrow>
        \<lparr>pci_bus = bus, pci_slot = slot, pci_func = func, vendor_id = ucast (cfg_at cfg bus slot func 0),
         device_id = ucast (drop_bit 16 (cfg_at cfg bus slot func 0)), class_code = ucast (drop_bit 24 (cfg_at cfg bus slot func 8)),
         pci_subclass = ucast (drop_bit 16 (cfg_at cfg bus slot func 8)), prog_if = ucast (drop_bit 8 (cfg_at cfg bus slot func 8)),
         header_type = ucast (drop_bit 16 (cfg_at cfg bus slot func 0x0C)), irq_line = ucast (cfg_at cfg bus slot func 0x3C),
         bar = map (\<lambda>i. cfg_at cfg bus slot func (of_nat (0x10 + i * 4))) [0..<6]\<rparr>)"

section \<open>The enumeration finds them\<close>

lemma low_pieces: "(ucast (x AND 0xFFFF :: u32) :: u16) = ucast x" "(ucast (x AND 0xFF :: u32) :: u8) = ucast x"
proof -
  have m: "(0xFFFF :: u32) = mask 16" "(0xFF :: u32) = mask 8" by (simp_all add: mask_eq_exp_minus_1)
  show "(ucast (x AND 0xFFFF :: u32) :: u16) = ucast x" "(ucast (x AND 0xFF :: u32) :: u8) = ucast x"
    unfolding m by (rule bit_word_eqI, auto simp: bit_simps)+
qed

lemma absent_test: "x AND 0xFFFF = 0xFFFF \<longleftrightarrow> (ucast (x :: u32) :: u16) = 0xFFFF"
proof
  assume "x AND 0xFFFF = 0xFFFF"
  then have "(ucast (x AND 0xFFFF) :: u16) = ucast (0xFFFF :: u32)" by simp
  then show "(ucast x :: u16) = 0xFFFF" by (simp add: low_pieces)
next
  assume a: "(ucast x :: u16) = 0xFFFF"
  have m: "(0xFFFF :: u32) = mask 16" by (simp add: mask_eq_exp_minus_1)
  have "(ucast (ucast x :: u16) :: u32) = take_bit 16 x" by (simp add: unsigned_ucast_eq)
  then have "take_bit 16 x = 0xFFFF" using a by simp
  then show "x AND 0xFFFF = 0xFFFF" by (simp only: take_bit_eq_mask m [symmetric])
qed

lemma pci_read32_cfg: "pci_space P cfg \<Longrightarrow> fst (pci_read32 P bus slot func offset v) = cfg_at cfg bus slot func offset"
  by (simp add: pci_space_def pci_read32_def cfg_at_def)

lemma read_bars_cfg:
  "pci_space P cfg \<Longrightarrow> fst (read_bars P bus slot func ks v) = map (\<lambda>i. cfg_at cfg bus slot func (of_nat (0x10 + i * 4))) ks"
proof (induction ks arbitrary: v)
  case (Cons i ks)
  then show ?case
    using pci_read32_cfg [OF Cons.prems, of bus slot func "of_nat (0x10 + i * 4)" v] by (simp add: case_prod_beta)
qed simp


text \<open>A step that appends to a list cut at \<open>MAX_PCI_DEVICES\<close>.\<close>

definition appends :: "(pci_device list \<times> 'v \<Rightarrow> pci_device list \<times> 'v) \<Rightarrow> pci_device list \<Rightarrow> bool" where
  "appends f g \<longleftrightarrow> (\<forall>xs v. fst (f (take MAX_PCI_DEVICES xs, v)) = take MAX_PCI_DEVICES (xs @ g))"

lemma appends_none: "(\<And>s. fst (f s) = fst s) \<Longrightarrow> appends f []"
  by (simp add: appends_def)

lemma appends_comp: "appends f g \<Longrightarrow> appends f' g' \<Longrightarrow> appends (\<lambda>s. f' (f s)) (g @ g')"
  unfolding appends_def by (metis append.assoc prod.collapse)

lemma appends_fold:
  assumes "\<And>x. x \<in> set l \<Longrightarrow> appends (f x) (g x)"
  shows "appends (fold f l) (concat (map g l))"
  using assms
proof (induction l)
  case (Cons x l)
  then show ?case using appends_comp [of "f x" "g x" "fold f l"] by (simp add: comp_def)
qed (simp add: appends_def)

lemma probe_appends:
  assumes "pci_space P cfg"
  shows "appends (probe P bus slot func) (if present cfg bus slot func then [device_at cfg (bus, slot, func)] else [])"
proof -
  have "fst (probe P bus slot func (ds, v)) =
      (if length ds \<ge> MAX_PCI_DEVICES then ds else ds @ (if present cfg bus slot func then [device_at cfg (bus, slot, func)] else []))" for ds v
    using pci_read32_cfg [OF assms] read_bars_cfg [OF assms]
    by (auto simp: probe_def Let_def case_prod_beta present_def device_at_def low_pieces)
  then show ?thesis by (auto simp: appends_def)
qed

lemma scan_func_appends:
  assumes "pci_space P cfg"
  shows "appends (scan_func P bus slot func) (if present cfg bus slot (of_nat func) then [device_at cfg (bus, slot, of_nat func)] else [])"
  using probe_appends [OF assms, of bus slot "of_nat func"] pci_read32_cfg [OF assms]
  by (simp add: appends_def scan_func_def case_prod_beta absent_test present_def)

lemma header_bit: "(ucast (drop_bit 16 x AND 0xFF :: u32) :: u8) AND 0x80 \<noteq> 0 \<longleftrightarrow> bit x 23"
proof -
  have m: "(0x80 :: u8) = push_bit 7 1" by (simp add: push_bit_eq_mult)
  show ?thesis unfolding m bit_iff_and_push_bit_not_eq_0 [symmetric] by (simp add: low_pieces bit_simps)
qed

lemma scan_slot_appends:
  assumes "pci_space P cfg"
  shows "appends (scan_slot P bus slot) (map (device_at cfg) (slot_functions cfg bus slot))"
proof -
  define rest where "rest = (if multi_function cfg bus (of_nat slot) then filter (\<lambda>f. present cfg bus (of_nat slot) (of_nat f)) [1..<8] else [])"
  have upt: "[0..<8] = 0 # [1..<8]" by (simp add: upt_rec)
  have fs: "slot_functions cfg bus slot =
      (if present cfg bus (of_nat slot) 0 then map (\<lambda>f. (bus, of_nat slot, of_nat f)) (0 # rest) else [])"
  proof -
    have "filter (\<lambda>f. f = 0 \<or> multi_function cfg bus (of_nat slot) \<and> present cfg bus (of_nat slot) (of_nat f)) [1..<8] = rest"
      unfolding rest_def by (auto intro!: filter_cong)
    then show ?thesis unfolding slot_functions_def upt by simp
  qed
  have "appends (fold (scan_func P bus (of_nat slot)) [1..<8])
      (concat (map (\<lambda>f. if present cfg bus (of_nat slot) (of_nat f) then [device_at cfg (bus, of_nat slot, of_nat f)] else []) [1..<8]))"
    by (intro appends_fold scan_func_appends [OF assms])
  moreover have "concat (map (\<lambda>f. if present cfg bus (of_nat slot) (of_nat f) then [device_at cfg (bus, of_nat slot, of_nat f)] else []) l) =
      map (\<lambda>f. device_at cfg (bus, of_nat slot, of_nat f)) (filter (\<lambda>f. present cfg bus (of_nat slot) (of_nat f)) l)" for l
    by (induction l) auto
  ultimately have r: "appends (\<lambda>s. if multi_function cfg bus (of_nat slot) then fold (scan_func P bus (of_nat slot)) [1..<8] s else s)
      (map (\<lambda>f. device_at cfg (bus, of_nat slot, of_nat f)) rest)"
    by (simp add: rest_def appends_def)
  note p = probe_appends [OF assms, of bus "of_nat slot" 0]
  show ?thesis
  proof (cases "present cfg bus (of_nat slot) 0")
    case True
    have "fst (scan_slot P bus slot (take MAX_PCI_DEVICES xs, v)) =
        take MAX_PCI_DEVICES ((xs @ [device_at cfg (bus, of_nat slot, 0)]) @ map (\<lambda>f. device_at cfg (bus, of_nat slot, of_nat f)) rest)" for xs v
    proof -
      define v1 where "v1 = snd (pci_read32 P bus (of_nat slot) 0 0 v)"
      define s1 where "s1 = probe P bus (of_nat slot) 0 (take MAX_PCI_DEVICES xs, v1)"
      define v2 where "v2 = snd (pci_read32 P bus (of_nat slot) 0 0x0C (snd s1))"
      have s1: "fst s1 = take MAX_PCI_DEVICES (xs @ [device_at cfg (bus, of_nat slot, 0)])" using p True by (simp add: s1_def appends_def del: take_append)
      have "scan_slot P bus slot (take MAX_PCI_DEVICES xs, v) =
          (if multi_function cfg bus (of_nat slot) then fold (scan_func P bus (of_nat slot)) [1..<8] (fst s1, v2) else (fst s1, v2))"
        using pci_read32_cfg [OF assms] True
        by (simp add: scan_slot_def case_prod_beta Let_def absent_test header_bit multi_function_def present_def v1_def s1_def v2_def)
      then show ?thesis using r unfolding appends_def s1 by presburger
    qed
    then show ?thesis using True by (simp add: appends_def fs comp_def)
  next
    case False
    then show ?thesis using pci_read32_cfg [OF assms] by (simp add: appends_def fs scan_slot_def case_prod_beta absent_test present_def)
  qed
qed

text \<open>The fields of an address do not overlap: each reads back.\<close>

lemma bits_below: "unat (w :: u8) < 2 ^ k \<Longrightarrow> bit w n \<Longrightarrow> n < k"
proof -
  assume "unat w < 2 ^ k" "bit w n"
  then have "take_bit k w = w" by (intro unat_eqI) (simp add: unsigned_take_bit_eq take_bit_nat_eq_self)
  then show "n < k" using \<open>bit w n\<close> by (metis bit_take_bit_iff)
qed

lemma aligned_offset: "(offset :: u8) AND 3 = 0 \<Longrightarrow> offset AND 0xFC = offset"
proof -
  have m: "(0xFC :: u8) = NOT (mask 2)" "(3 :: u8) = mask 2" by (simp_all add: mask_eq_exp_minus_1)
  assume "offset AND 3 = 0"
  then have "take_bit 2 offset = 0" by (simp only: m take_bit_eq_mask)
  then have "\<not> bit offset n" if "n < 2" for n using that by (metis bit_0_eq bit_take_bit_iff bot_apply bot_bool_def)
  then show ?thesis unfolding m by (intro bit_word_eqI) (auto simp: bit_simps)
qed

lemma pci_addr_fields:
  assumes "slot < 32" and "func < 8" and "offset AND 3 = 0"
  shows "ucast (drop_bit 16 (pci_addr bus slot func offset)) = bus \<and> ucast (drop_bit 11 (pci_addr bus slot func offset)) AND 31 = slot \<and>
    ucast (drop_bit 8 (pci_addr bus slot func offset)) AND 7 = func \<and> ucast (pci_addr bus slot func offset) = offset \<and>
    bit (pci_addr bus slot func offset) 31"
proof -
  have s: "n < 5" if "bit slot n" for n using bits_below [of slot 5 n] assms(1) that by (simp add: word_less_nat_alt)
  have f: "n < 3" if "bit func n" for n using bits_below [of func 3 n] assms(2) that by (simp add: word_less_nat_alt)
  have b: "n < 8" if "bit w n" for n and w :: u8 using bit_imp_le_length [OF that] by simp
  have m: "(31 :: u8) = mask 5" "(7 :: u8) = mask 3" by (simp_all add: mask_eq_exp_minus_1)
  define top_bit :: u32 where "top_bit = push_bit 31 1"
  have t: "bit top_bit n \<longleftrightarrow> n = 31" for n unfolding top_bit_def bit_push_bit_iff bit_1_iff by auto
  show ?thesis
    unfolding m pci_addr_def aligned_offset [OF assms(3)] top_bit_def [symmetric]
    by (intro conjI bit_word_eqI) (auto simp: bit_simps t dest: s f b)
qed

text \<open>
  C38. On a machine with a configuration space, \<open>pci_init\<close> lists exactly the functions that exist: function 0
  of every slot that answers, and the others where function 0 says there are several; in the order
  of bus, slot and function, with the fields of their configuration headers, and only the first 64.
  \<open>pci_find\<close> then returns the first of them with the given vendor and device, and nothing exactly when
  none of them has both.
\<close>

theorem pci_enumerates:
  assumes cfg: "pci_space P cfg" and run: "pci_init P v = (devices, v')"
  shows "devices = map (device_at cfg) (take MAX_PCI_DEVICES (pci_functions cfg)) \<and>
    (pci_find vendor device devices = None \<longleftrightarrow> (\<forall>d \<in> set devices. \<not> (vendor_id d = vendor \<and> device_id d = device))) \<and>
    (\<forall>d. pci_find vendor device devices = Some d \<longrightarrow> (\<exists>pre post. devices = pre @ d # post \<and> vendor_id d = vendor \<and> device_id d = device \<and>
       (\<forall>e \<in> set pre. \<not> (vendor_id e = vendor \<and> device_id e = device))))"
proof -
  have "appends (scan_bus P bus) (concat (map (\<lambda>slot. map (device_at cfg) (slot_functions cfg (of_nat bus) slot)) [0..<32]))" for bus
    unfolding scan_bus_def by (intro appends_fold scan_slot_appends [OF cfg])
  then have "appends (fold (scan_bus P) [0..<256])
      (concat (map (\<lambda>bus. concat (map (\<lambda>slot. map (device_at cfg) (slot_functions cfg (of_nat bus) slot)) [0..<32])) [0..<256]))"
    by (intro appends_fold)
  then have "fst (pci_init P v) = take MAX_PCI_DEVICES (map (device_at cfg) (pci_functions cfg))"
    unfolding appends_def pci_init_def pci_functions_def map_concat map_map comp_def by (metis append_Nil take_Nil)
  then have "devices = map (device_at cfg) (take MAX_PCI_DEVICES (pci_functions cfg))" using run by (simp add: take_map)
  moreover have "\<exists>pre post. devices = pre @ d # post \<and> vendor_id d = vendor \<and> device_id d = device \<and>
       (\<forall>e \<in> set pre. \<not> (vendor_id e = vendor \<and> device_id e = device))" if "pci_find vendor device devices = Some d" for d
  proof -
    have "find (\<lambda>d. vendor_id d = vendor \<and> device_id d = device) devices = Some d" using that by (simp add: pci_find_def)
    from this [unfolded find_Some_iff] obtain i where i: "i < length devices" "(vendor_id (devices ! i) = vendor \<and> device_id (devices ! i) = device) \<and> d = devices ! i \<and>
      (\<forall>j<i. \<not> (vendor_id (devices ! j) = vendor \<and> device_id (devices ! j) = device))"
      by blast
    have "\<forall>e \<in> set (take i devices). \<not> (vendor_id e = vendor \<and> device_id e = device)"
      using i by (auto simp: in_set_conv_nth)
    then show ?thesis using i id_take_nth_drop [OF i(1)] by blast
  qed
  ultimately show ?thesis by (auto simp: pci_find_def find_None_iff)
qed

text \<open>A machine whose only device is a network card in slot 3 of bus 0.\<close>

definition demo_cfg :: "u32 \<Rightarrow> u32" where
  "demo_cfg a = (if a = pci_addr 0 3 0 0 then 0x100E8086 else if a = pci_addr 0 3 0 0x10 then 0xFEBC0000
     else if drop_bit 8 a = drop_bit 8 (pci_addr 0 3 0 0) then 0 else 0xFFFFFFFF)"

definition demo_bus :: "u32 long_ports" where
  "demo_bus = \<lparr>p_inl = (\<lambda>p a. (demo_cfg a, a)), p_outl = (\<lambda>p x a. if p = PCI_CONFIG_ADDR then x else a)\<rparr>"

theorem pci_enumerates_witness:
  "\<exists>devices v'. pci_init demo_bus 0 = (devices, v') \<and> devices = map (device_at demo_cfg) (take MAX_PCI_DEVICES (pci_functions demo_cfg))"
proof -
  have "pci_space demo_bus demo_cfg" by (simp add: pci_space_def demo_bus_def)
  then show ?thesis using pci_enumerates [of demo_bus demo_cfg 0] by (metis prod.collapse)
qed

end
