(* ===== verification/Mouse.thy ===== *)
theory Mouse
  imports Cpu Framebuffer
begin

text \<open>
  The PS/2 mouse, \<open>kernel/drivers/mouse.c\<close>: its set-up, and the interrupt handler that collects the
  three bytes of a packet, remembers the buttons and moves the pointer on the screen.  The ports are
  the argument \<open>P\<close>; \<open>ps2_feeds\<close> says that they deliver the bytes of a mouse.
\<close>

section \<open>Driver\<close>

definition PS2_DATA :: u16 where "PS2_DATA = 0x60"
definition PS2_STATUS :: u16 where "PS2_STATUS = 0x64"
definition PS2_CMD :: u16 where "PS2_CMD = 0x64"

lemmas ps2_ports = PS2_DATA_def PS2_STATUS_def PS2_CMD_def

record mouse =
  mouse_cycle :: nat
  mouse_byte :: "u8 list"
  buttons :: u8

definition mouse_buttons :: "mouse \<Rightarrow> u8" where
  "mouse_buttons ms = buttons ms"

fun poll_write :: "'v ports \<Rightarrow> nat \<Rightarrow> 'v \<Rightarrow> 'v" where
  "poll_write P 0 v = v"
| "poll_write P (Suc timeout) v = (case p_inb P PS2_STATUS v of (s, v) \<Rightarrow> if s AND 0x02 = 0 then v else poll_write P timeout v)"

definition mouse_wait_write :: "'v ports \<Rightarrow> 'v \<Rightarrow> 'v" where
  "mouse_wait_write P v = poll_write P 100000 v"

fun poll_read :: "'v ports \<Rightarrow> nat \<Rightarrow> 'v \<Rightarrow> 'v" where
  "poll_read P 0 v = v"
| "poll_read P (Suc timeout) v = (case p_inb P PS2_STATUS v of (s, v) \<Rightarrow> if s AND 0x01 \<noteq> 0 then v else poll_read P timeout v)"

definition mouse_wait_read :: "'v ports \<Rightarrow> 'v \<Rightarrow> 'v" where
  "mouse_wait_read P v = poll_read P 100000 v"

definition mouse_write :: "'v ports \<Rightarrow> u8 \<Rightarrow> 'v \<Rightarrow> 'v" where
  "mouse_write P data v =
     (let v = mouse_wait_write P v;
          v = p_outb P PS2_CMD 0xD4 v;
          v = mouse_wait_write P v
      in p_outb P PS2_DATA data v)"

definition mouse_read :: "'v ports \<Rightarrow> 'v \<Rightarrow> u8 \<times> 'v" where
  "mouse_read P v = p_inb P PS2_DATA (mouse_wait_read P v)"

text \<open>\<open>r\<close> is the interrupt frame, which the handler does not look at.\<close>

definition mouse_handler :: "'v ports \<Rightarrow> fb_info \<Rightarrow> regs \<Rightarrow> mouse \<times> 'v \<times> cursor \<times> mem \<Rightarrow> mouse \<times> 'v \<times> cursor \<times> mem" where
  "mouse_handler P fbi r s =
     (case s of (ms, v, cu, m) \<Rightarrow>
        (let (st, v) = p_inb P PS2_STATUS v in
         if st AND 0x20 = 0 then (ms, v, cu, m)
         else
           (let (data, v) = p_inb P PS2_DATA v in
            if mouse_cycle ms = 0 then
              (if data AND 0x08 = 0 then (ms, v, cu, m)
               else (ms\<lparr>mouse_byte := (mouse_byte ms)[0 := data], mouse_cycle := 1\<rparr>, v, cu, m))
            else if mouse_cycle ms = 1 then (ms\<lparr>mouse_byte := (mouse_byte ms)[1 := data], mouse_cycle := 2\<rparr>, v, cu, m)
            else if mouse_cycle ms = 2 then
              (let ms = ms\<lparr>mouse_byte := (mouse_byte ms)[2 := data], mouse_cycle := 0\<rparr>;
                   ms = ms\<lparr>buttons := mouse_byte ms ! 0 AND 0x07\<rparr>;
                   dx = sint (mouse_byte ms ! 1);
                   dy = sint (mouse_byte ms ! 2);
                   (cu, m) = fb_cursor_move fbi (dx sdiv 2) (- dy sdiv 2) cu m
               in (ms, v, cu, m))
            else (ms, v, cu, m))))"

definition mouse_init :: "'v ports \<Rightarrow> (regs \<Rightarrow> 's \<Rightarrow> 's) \<Rightarrow> 's irq_table \<times> 'v \<Rightarrow> 's irq_table \<times> 'v" where
  "mouse_init P handler s =
     (case s of (hs, v) \<Rightarrow>
        (let v = mouse_wait_write P v;
             v = p_outb P PS2_CMD 0xA8 v;
             v = mouse_wait_write P v;
             v = p_outb P PS2_CMD 0x20 v;
             v = mouse_wait_read P v;
             (status, v) = p_inb P PS2_DATA v;
             status = status OR 0x02;
             status = status AND NOT 0x20;
             v = mouse_wait_write P v;
             v = p_outb P PS2_CMD 0x60 v;
             v = mouse_wait_write P v;
             v = p_outb P PS2_DATA status v;
             v = mouse_write P 0xF6 v;
             (ack1, v) = mouse_read P v;
             v = mouse_write P 0xF4 v;
             (ack2, v) = mouse_read P v;
             hs = irq_register 12 handler hs;
             v = pic_clear_mask P 2 v;
             v = pic_clear_mask P 12 v
         in (hs, v)))"

section \<open>A mouse behind the ports\<close>

text \<open>\<open>pend v\<close> are the bytes of the mouse that have not been read yet.\<close>

definition ps2_feeds :: "'v ports \<Rightarrow> ('v \<Rightarrow> u8 list) \<Rightarrow> bool" where
  "ps2_feeds P pend \<longleftrightarrow>
     (\<forall>v d ds. pend v = d # ds \<longrightarrow>
        fst (p_inb P PS2_STATUS v) AND 0x20 \<noteq> 0 \<and> pend (snd (p_inb P PS2_STATUS v)) = d # ds \<and>
        fst (p_inb P PS2_DATA v) = d \<and> pend (snd (p_inb P PS2_DATA v)) = ds)"

text \<open>What a packet means: the buttons and the motion, of which the driver takes half.\<close>

datatype packet = Packet u8 u8 u8

fun packet_bytes :: "packet \<Rightarrow> u8 list" where
  "packet_bytes (Packet a b c) = [a, b, c]"

fun packet_ok :: "packet \<Rightarrow> bool" where
  "packet_ok (Packet a b c) \<longleftrightarrow> a AND 0x08 \<noteq> 0"

fun packet_buttons :: "packet \<Rightarrow> u8" where
  "packet_buttons (Packet a b c) = a AND 0x07"

fun packet_move :: "packet \<Rightarrow> int \<times> int" where
  "packet_move (Packet a b c) = (sint b sdiv 2, - sint c sdiv 2)"

definition move_by :: "fb_info \<Rightarrow> packet \<Rightarrow> cursor \<times> mem \<Rightarrow> cursor \<times> mem" where
  "move_by fbi p s = (case (s, packet_move p) of ((cu, m), dx, dy) \<Rightarrow> fb_cursor_move fbi dx dy cu m)"

lemma handler_reads:
  assumes "ps2_feeds P pend" and "pend v = d # ds"
  obtains v' where "pend v' = ds" and "mouse_handler P fbi r (ms, v, cu, m) =
    (if mouse_cycle ms = 0 then
       (if d AND 0x08 = 0 then (ms, v', cu, m) else (ms\<lparr>mouse_byte := (mouse_byte ms)[0 := d], mouse_cycle := 1\<rparr>, v', cu, m))
     else if mouse_cycle ms = 1 then (ms\<lparr>mouse_byte := (mouse_byte ms)[1 := d], mouse_cycle := 2\<rparr>, v', cu, m)
     else if mouse_cycle ms = 2 then
       (case fb_cursor_move fbi (sint ((mouse_byte ms)[2 := d] ! 1) sdiv 2) (- sint ((mouse_byte ms)[2 := d] ! 2) sdiv 2) cu m of
          (cu, m) \<Rightarrow> (ms\<lparr>mouse_byte := (mouse_byte ms)[2 := d], mouse_cycle := 0, buttons := (mouse_byte ms)[2 := d] ! 0 AND 0x07\<rparr>, v', cu, m))
     else (ms, v', cu, m))"
proof -
  define v1 where "v1 = snd (p_inb P PS2_STATUS v)"
  define v2 where "v2 = snd (p_inb P PS2_DATA v1)"
  have 1: "fst (p_inb P PS2_STATUS v) AND 0x20 \<noteq> 0" "pend v1 = d # ds" using assms unfolding ps2_feeds_def v1_def by blast+
  then have 2: "fst (p_inb P PS2_DATA v1) = d" "pend v2 = ds" using assms unfolding ps2_feeds_def v2_def by blast+
  show thesis
    by (rule that [OF 2(2)]) (use 1(1) 2(1) in \<open>simp add: mouse_handler_def case_prod_beta Let_def v1_def [symmetric] v2_def [symmetric]\<close>)
qed

text \<open>One packet, byte by byte.\<close>

definition mouse_irqs :: "nat \<Rightarrow> 'v ports \<Rightarrow> fb_info \<Rightarrow> regs \<Rightarrow> mouse \<times> 'v \<times> cursor \<times> mem \<Rightarrow> mouse \<times> 'v \<times> cursor \<times> mem" where
  "mouse_irqs n P fbi r = mouse_handler P fbi r ^^ n"

definition mouse_ready :: "mouse \<Rightarrow> bool" where
  "mouse_ready ms \<longleftrightarrow> mouse_cycle ms = 0 \<and> length (mouse_byte ms) = 3"

lemma packet_irqs:
  assumes feeds: "ps2_feeds P pend" and pend: "pend v = packet_bytes p @ ds" and ready: "mouse_ready ms" and ok: "packet_ok p"
  obtains ms' v' cu' m' where "mouse_irqs 3 P fbi r (ms, v, cu, m) = (ms', v', cu', m')" and "mouse_ready ms'" and "pend v' = ds"
    and "buttons ms' = packet_buttons p" and "(cu', m') = move_by fbi p (cu, m)"
proof -
  obtain a b c where p: "p = Packet a b c" by (cases p)
  obtain x y z where bs: "mouse_byte ms = [x, y, z]" using ready by (auto simp: mouse_ready_def length_Suc_conv eval_nat_numeral)
  define ms1 where "ms1 = ms\<lparr>mouse_byte := [a, y, z], mouse_cycle := 1\<rparr>"
  define ms2 where "ms2 = ms\<lparr>mouse_byte := [a, b, z], mouse_cycle := 2\<rparr>"
  obtain v1 where 1: "pend v1 = b # c # ds" "mouse_handler P fbi r (ms, v, cu, m) = (ms1, v1, cu, m)"
    using handler_reads [OF feeds, of v a "b # c # ds" fbi r ms cu m] pend ready ok by (auto simp: p bs mouse_ready_def ms1_def)
  obtain v2 where 2: "pend v2 = c # ds" "mouse_handler P fbi r (ms1, v1, cu, m) = (ms2, v2, cu, m)"
    using handler_reads [OF feeds 1(1), of fbi r ms1 cu m] by (auto simp: ms1_def ms2_def)
  obtain cu' m' where mv: "move_by fbi p (cu, m) = (cu', m')" by fastforce
  obtain v3 where 3: "pend v3 = ds" "mouse_handler P fbi r (ms2, v2, cu, m) = (ms\<lparr>mouse_byte := [a, b, c], mouse_cycle := 0, buttons := a AND 7\<rparr>, v3, cu', m')"
    using handler_reads [OF feeds 2(1), of fbi r ms2 cu m] mv by (auto simp: ms2_def p move_by_def)
  have "mouse_irqs 3 P fbi r (ms, v, cu, m) = (ms\<lparr>mouse_byte := [a, b, c], mouse_cycle := 0, buttons := a AND 7\<rparr>, v3, cu', m')"
    using 1(2) 2(2) 3(2) by (simp add: mouse_irqs_def eval_nat_numeral)
  then show thesis using that 3(1) mv by (simp add: p mouse_ready_def)
qed

text \<open>
  The mouse driver decodes the stream of packets.  Between packets, bytes whose bit 3 is clear are skipped, one
  interrupt each; then each packet takes three interrupts, after which the buttons are those of the
  packet and the pointer has moved by half its motion, with the vertical direction turned around.  A run
  of packets does this for each in order, and no byte is lost or read twice.
\<close>

theorem mouse_decodes:
  assumes feeds: "ps2_feeds P pend" and pend: "pend v = skip @ concat (map packet_bytes ps) @ rest"
    and noise: "\<forall>d \<in> set skip. d AND 0x08 = 0" and ok: "\<forall>p \<in> set ps. packet_ok p" and ready: "mouse_ready ms"
  shows "\<exists>ms' v' cu' m'. mouse_irqs (length skip + 3 * length ps) P fbi r (ms, v, cu, m) = (ms', v', cu', m') \<and> mouse_ready ms' \<and>
    pend v' = rest \<and> mouse_buttons ms' = (if ps = [] then mouse_buttons ms else packet_buttons (last ps)) \<and>
    (cu', m') = fold (move_by fbi) ps (cu, m)"
  using pend noise ok ready
proof (induction skip arbitrary: v)
  case Nil
  then show ?case
  proof (induction ps arbitrary: ms v cu m)
    case Nil
    then show ?case by (simp add: mouse_irqs_def)
  next
    case (Cons p ps)
    have pd: "pend v = packet_bytes p @ (concat (map packet_bytes ps) @ rest)" using Cons.prems by simp
    obtain ms1 v1 cu1 m1 where 1: "mouse_irqs 3 P fbi r (ms, v, cu, m) = (ms1, v1, cu1, m1)" "mouse_ready ms1"
        "pend v1 = concat (map packet_bytes ps) @ rest" "buttons ms1 = packet_buttons p" "(cu1, m1) = move_by fbi p (cu, m)"
      using packet_irqs [OF feeds pd, of ms fbi r cu m] Cons.prems by (metis list.set_intros(1))
    obtain ms' v' cu' m' where 2: "mouse_irqs (3 * length ps) P fbi r (ms1, v1, cu1, m1) = (ms', v', cu', m')" "mouse_ready ms'" "pend v' = rest"
        "mouse_buttons ms' = (if ps = [] then mouse_buttons ms1 else packet_buttons (last ps))" "(cu', m') = fold (move_by fbi) ps (cu1, m1)"
      using Cons.IH [of v1 ms1 cu1 m1] 1 Cons.prems by auto
    have "mouse_irqs (length [] + 3 * length (p # ps)) P fbi r (ms, v, cu, m) = (ms', v', cu', m')"
    proof -
      have n: "length [] + 3 * length (p # ps) = 3 * length ps + 3" by simp
      show ?thesis using 1(1) 2(1) unfolding mouse_irqs_def n funpow_add comp_apply by simp
    qed
    moreover have "mouse_buttons ms' = (if p # ps = [] then mouse_buttons ms else packet_buttons (last (p # ps)))"
      using 1(4) 2(4) by (simp add: mouse_buttons_def)
    moreover have "(cu', m') = fold (move_by fbi) (p # ps) (cu, m)" using 1(5) 2(5) by simp
    ultimately show ?case using 2(2,3) by blast
  qed
next
  case (Cons d skip)
  obtain v1 where 1: "pend v1 = skip @ concat (map packet_bytes ps) @ rest" "mouse_handler P fbi r (ms, v, cu, m) = (ms, v1, cu, m)"
    using handler_reads [OF feeds, of v d "skip @ concat (map packet_bytes ps) @ rest" fbi r ms cu m] Cons.prems by (auto simp: mouse_ready_def)
  have "mouse_irqs (length (d # skip) + 3 * length ps) P fbi r (ms, v, cu, m) = mouse_irqs (length skip + 3 * length ps) P fbi r (ms, v1, cu, m)"
    using 1(2) by (simp add: mouse_irqs_def funpow_swap1)
  then show ?case using Cons.IH [OF 1(1)] Cons.prems by simp
qed

text \<open>Ports with a queue of bytes behind them.\<close>

definition demo_ps2 :: "u8 list ports" where
  "demo_ps2 = \<lparr>p_inb = (\<lambda>p q. if p = PS2_STATUS then (0x20, q) else (hd q, tl q)), p_outb = (\<lambda>p b q. q),
     p_inw = (\<lambda>p q. (0, q)), p_outw = (\<lambda>p b q. q)\<rparr>"

theorem mouse_decodes_witness:
  "\<exists>ms' v' cu' m'. mouse_irqs 4 demo_ps2 demo_fb \<lparr>int_no = 44, err_code = 0, r_rip = 0\<rparr>
      (\<lparr>mouse_cycle = 0, mouse_byte = [0, 0, 0], buttons = 0\<rparr>, [0x41, 0x09, 10, 0xFC, 0x08], demo_cursor, \<lambda>_. 9) = (ms', v', cu', m') \<and>
    v' = [0x08] \<and> mouse_buttons ms' = 1 \<and> (cu', m') = fb_cursor_move demo_fb 5 2 demo_cursor (\<lambda>_. 9)"
proof -
  have f: "ps2_feeds demo_ps2 (\<lambda>q. q)" by (simp add: ps2_feeds_def demo_ps2_def ps2_ports)
  have move: "packet_move (Packet 9 10 0xFC) = (5, 2)" by code_simp
  let ?ms = "\<lparr>mouse_cycle = 0, mouse_byte = [0, 0, 0], buttons = 0\<rparr>" and ?r = "\<lparr>int_no = 44, err_code = 0, r_rip = 0\<rparr>"
  have "\<exists>ms' v' cu' m'. mouse_irqs (length [0x41 :: u8] + 3 * length [Packet 0x09 10 0xFC]) demo_ps2 demo_fb ?r
      (?ms, [0x41, 0x09, 10, 0xFC, 0x08], demo_cursor, \<lambda>_. 9) = (ms', v', cu', m') \<and> mouse_ready ms' \<and> v' = [0x08] \<and>
      mouse_buttons ms' = (if [Packet 0x09 10 0xFC] = [] then mouse_buttons ?ms else packet_buttons (last [Packet 0x09 10 0xFC])) \<and>
      (cu', m') = fold (move_by demo_fb) [Packet 0x09 10 0xFC] (demo_cursor, \<lambda>_. 9)"
    by (rule mouse_decodes [OF f]) (simp_all add: mouse_ready_def)
  then obtain ms' v' cu' m' where k: "mouse_irqs 4 demo_ps2 demo_fb ?r (?ms, [0x41, 0x09, 10, 0xFC, 0x08], demo_cursor, \<lambda>_. 9) = (ms', v', cu', m')"
      "v' = [0x08]" "mouse_buttons ms' = 1" "(cu', m') = move_by demo_fb (Packet 0x09 10 0xFC) (demo_cursor, \<lambda>_. 9)" by fastforce
  have "(cu', m') = fb_cursor_move demo_fb 5 2 demo_cursor (\<lambda>_. 9)" using k(4) move by (simp add: move_by_def del: packet_move.simps)
  then show ?thesis using k by blast
qed

end
