(* ===== verification/Vmm_Frame.thy ===== *)
theory Vmm_Frame
  imports Vmm
begin

text \<open>
  What mapping a page leaves alone.  A page that is neither a page table nor a free frame keeps its
  bytes, and only free frames become tables: so memory in use stays in use, with its contents,
  while the tables grow around it.  Programs are loaded on top of these facts.
\<close>

section \<open>Pages\<close>

definition in_page :: "u64 \<Rightarrow> u64 \<Rightarrow> bool" where
  "in_page p a \<longleftrightarrow> unat (a - p) < 4096"

lemma other_page:
  assumes "page_aligned p" and "page_aligned t" and "p \<noteq> t" and "in_page p a"
  shows "4096 \<le> unat (a - t)"
  using page_offset_out [OF assms(2,1,3), of "unat (a - p)"] assms(4) by (simp add: in_page_def)

lemma in_page_unique: "page_aligned p \<Longrightarrow> page_aligned t \<Longrightarrow> in_page p a \<Longrightarrow> in_page t a \<Longrightarrow> p = t"
  using other_page [of p t a] by (fastforce simp: in_page_def)

lemma pt_set_other:
  assumes "page_aligned p" and "page_aligned t" and "p \<noteq> t" and "in_page p a" and "i < 512"
  shows "pt_set t i e m a = m a"
proof -
  have "\<not> unat (a - (t + 8 * i)) < 8"
  proof
    assume x: "unat (a - (t + 8 * i)) < 8"
    have i: "unat (8 * i) = 8 * unat i" "unat i < 512" using assms(5) by (simp_all add: word_less_nat_alt unat_mult_small)
    have "unat (8 * i + (a - (t + 8 * i))) = unat (8 * i) + unat (a - (t + 8 * i))" using x i by (intro unat_plus_small) simp
    moreover have "8 * i + (a - (t + 8 * i)) = a - t" by simp
    ultimately show False using other_page [OF assms(1-4)] x i by simp
  qed
  then show ?thesis unfolding pt_set_def wr64_def by (simp add: wr_bytes_apply)
qed

lemma zero_page_other: "page_aligned p \<Longrightarrow> page_aligned t \<Longrightarrow> p \<noteq> t \<Longrightarrow> in_page p a \<Longrightarrow> zero_page t m a = m a"
  using other_page [of p t a] by (simp add: zero_page_apply)

lemma fold_pt_set_other:
  assumes "page_aligned p" and "page_aligned t" and "p \<noteq> t" and "in_page p a" and "\<forall>i \<in> set ks. i < 512"
  shows "fold (\<lambda>k. pt_set t k (f k)) ks m a = m a"
  using assms(5)
proof (induction ks arbitrary: m)
  case (Cons i ks)
  then show ?case using pt_set_other [OF assms(1-4), of i] by simp
qed simp

section \<open>Tables and what surrounds them\<close>

definition tables :: "vmm \<Rightarrow> u64 set" where
  "tables st = {t. \<exists>v n. n \<le> 3 \<and> tab (vmem st) (vmm_current_pml4 st) v n = Some t}"

definition vfree :: "vmm \<Rightarrow> u64 set" where
  "vfree st = free_frames (frames st)"

definition map_keeps :: "vmm \<Rightarrow> vmm \<Rightarrow> bool" where
  "map_keeps st st' \<longleftrightarrow> cr3 st' = cr3 st \<and> vfree st' \<subseteq> vfree st \<and> tables st' \<subseteq> tables st \<union> vfree st \<and>
     (\<forall>p a. page_aligned p \<and> p \<notin> tables st \<and> p \<notin> vfree st \<and> in_page p a \<longrightarrow> vmem st' a = vmem st a)"

lemma map_keeps_refl [simp]: "map_keeps st st"
  by (auto simp: map_keeps_def)

lemma map_keeps_trans: "map_keeps st st1 \<Longrightarrow> map_keeps st1 st2 \<Longrightarrow> map_keeps st st2"
proof -
  assume a: "map_keeps st st1" and b: "map_keeps st1 st2"
  have "vmem st2 x = vmem st x" if p: "page_aligned p" "p \<notin> tables st" "p \<notin> vfree st" "in_page p x" for p x
  proof -
    have "p \<notin> tables st1" "p \<notin> vfree st1" using a p(2,3) by (auto simp: map_keeps_def)
    then have "vmem st2 x = vmem st1 x" using b p(1,4) by (auto simp: map_keeps_def)
    also have "\<dots> = vmem st x" using a p by (auto simp: map_keeps_def)
    finally show ?thesis .
  qed
  moreover have "cr3 st2 = cr3 st" "vfree st2 \<subseteq> vfree st" "tables st2 \<subseteq> tables st \<union> vfree st" using a b by (auto simp: map_keeps_def)
  ultimately show ?thesis unfolding map_keeps_def by blast
qed

lemma keepsD:
  assumes "map_keeps st st'" and "page_aligned p" and "p \<notin> tables st" and "p \<notin> vfree st"
  shows "p \<notin> tables st'" and "p \<notin> vfree st'" and "in_page p a \<Longrightarrow> vmem st' a = vmem st a"
  using assms unfolding map_keeps_def by blast+

lemma vmm_wf_tables: "vmm_wf st \<Longrightarrow> tables st \<inter> vfree st = {}"
  by (auto simp: vmm_wf_def tables_def vfree_def)

lemma tables_aligned: "t \<in> tables st \<Longrightarrow> page_aligned t"
  using tab_aligned [of "vmm_current_pml4 st"] by (auto simp: tables_def vmm_current_pml4_def)

lemma keeps_tabs:
  assumes "cr3 st' = cr3 st" and "\<And>w k. k \<le> 3 \<Longrightarrow> tab (vmem st') (vmm_current_pml4 st) w k = tab (vmem st) (vmm_current_pml4 st) w k"
  shows "tables st' = tables st"
proof -
  have r: "vmm_current_pml4 st' = vmm_current_pml4 st" using assms(1) by (simp add: vmm_current_pml4_def)
  show ?thesis unfolding tables_def r using assms(2) by (metis (no_types, lifting))
qed

text \<open>A store into a table that changes no walk.\<close>

lemma keeps_store:
  assumes t: "t \<in> tables st" and i: "i < 512" and st': "vmem st' = pt_set t i e (vmem st)" "cr3 st' = cr3 st" "frames st' = frames st"
    and tabs: "\<And>w k. k \<le> 3 \<Longrightarrow> tab (vmem st') (vmm_current_pml4 st) w k = tab (vmem st) (vmm_current_pml4 st) w k"
  shows "map_keeps st st'"
proof -
  have "vmem st' a = vmem st a" if "page_aligned p" "p \<notin> tables st" "in_page p a" for p a
    using pt_set_other [OF that(1) tables_aligned [OF t] _ that(3) i] t that(2) unfolding st'(1) by blast
  then show ?thesis using keeps_tabs [OF st'(2) tabs] st'(2,3) by (auto simp: map_keeps_def vfree_def)
qed

text \<open>A new table in a fresh frame.\<close>

lemma keeps_fresh:
  assumes wf: "vmm_wf st" and t: "tab (vmem st) (vmm_current_pml4 st) v n = Some t" and n: "n < 3"
    and al: "pmm_alloc_page (frames st) = (np, fr')" and np: "np \<noteq> 0"
    and old: "next_of n (pt_get (vmem st) t (lvl_idx n v)) = None"
    and st': "frames st' = fr'" "vmem st' = pt_set t (lvl_idx n v) (np OR VMM_PRESENT OR VMM_WRITABLE OR VMM_USER) m1" "cr3 st' = cr3 st"
    and m1: "\<And>p a. page_aligned p \<Longrightarrow> p \<noteq> np \<Longrightarrow> in_page p a \<Longrightarrow> m1 a = vmem st a"
    and g1: "\<And>t' j. page_aligned t' \<Longrightarrow> t' \<noteq> np \<Longrightarrow> j < 512 \<Longrightarrow> pt_get m1 t' j = pt_get (vmem st) t' j"
    and z: "\<And>i. n < 2 \<Longrightarrow> i < 512 \<Longrightarrow> pt_get m1 np i = 0"
  shows "map_keeps st st'"
proof -
  let ?r = "vmm_current_pml4 st" and ?m = "vmem st" and ?e = "np OR VMM_PRESENT OR VMM_WRITABLE OR VMM_USER"
  have inv: "pmm_inv (frames st)" and pwf: "pt_wf ?m ?r"
    and used: "\<And>w k s. k \<le> 3 \<Longrightarrow> tab ?m ?r w k = Some s \<Longrightarrow> s \<notin> free_frames (frames st)"
    using wf by (auto simp: vmm_wf_def)
  note fr = alloc_frame [OF inv al np]
  have r: "page_aligned ?r" by (simp add: vmm_current_pml4_def)
  have ta: "page_aligned t" by (rule tab_aligned [OF r t])
  have new: "\<And>w k. k \<le> 3 \<Longrightarrow> tab ?m ?r w k \<noteq> Some np" using used fr(3) by blast
  then have tnp: "t \<noteq> np" using t n by (metis less_imp_le)
  have sto: "stored ?m (vmem st') ?r t (lvl_idx n v) ?e"
    unfolding st'(2) using new g1 by (intro stored_set [OF r ta, where np = np]) auto
  have nx: "next_of n ?e = Some np" using frame_entry [OF fr(1,2)] by (simp add: next_of_def present_bit huge_bit)
  have z': "pt_get (vmem st') np i = 0" if "n < 2" "i < 512" for i
    using pt_get_set [OF ta fr(1) _ that(2)] z [OF that] tnp unfolding st'(2) by simp
  have "tables st' \<subseteq> insert np (tables st)"
  proof
    fix s
    assume "s \<in> tables st'"
    then obtain w k where "k \<le> 3" "tab (vmem st') ?r w k = Some s" using st'(3) by (auto simp: tables_def vmm_current_pml4_def)
    then have "tab ?m ?r w k = Some s \<or> s = np"
      using tab_fresh [OF pwf n t sto nx old z' \<open>k \<le> 3\<close>, of w] by (auto simp del: tab.simps same_path_simps split: if_splits)
    then show "s \<in> insert np (tables st)" using \<open>k \<le> 3\<close> by (auto simp: tables_def)
  qed
  moreover have "vmem st' a = ?m a" if "page_aligned p" "p \<notin> tables st" "p \<notin> vfree st" "in_page p a" for p a
  proof -
    have "t \<in> tables st" using t n by (auto simp: tables_def intro!: exI [of _ v] exI [of _ n])
    then have "p \<noteq> t" "p \<noteq> np" using that(2,3) fr(3) by (auto simp: vfree_def)
    then show ?thesis
      using pt_set_other [OF that(1) ta _ that(4), of "lvl_idx n v"] m1 [OF that(1) _ that(4)] unfolding st'(2) by simp
  qed
  ultimately show ?thesis using fr(3,4) st'(1,3) by (auto simp: map_keeps_def vfree_def)
qed

lemma next_table_keeps:
  assumes wf: "vmm_wf st" and t: "tab (vmem st) (vmm_current_pml4 st) v n = Some t" and n: "n < 3"
    and nh: "n = 2 \<Longrightarrow> \<not> bit (pt_get (vmem st) t (lvl_idx n v)) 7"
    and call: "next_table t (lvl_idx n v) st = (p, st')"
  shows "map_keeps st st'"
proof -
  have ta: "page_aligned t" using tab_aligned [OF _ t] by (simp add: vmm_current_pml4_def)
  have tt: "t \<in> tables st" using t n by (auto simp: tables_def intro!: exI [of _ v] exI [of _ n])
  show ?thesis
  proof (cases "bit (pt_get (vmem st) t (lvl_idx n v)) 0")
    case True
    note pr = next_table_present [OF wf t n nh True call]
    have st': "st' = st\<lparr>vmem := pt_set t (lvl_idx n v) (pt_get (vmem st) t (lvl_idx n v) OR VMM_USER) (vmem st)\<rparr>"
      using call True by (auto simp: next_table_def Let_def present_bit)
    show ?thesis by (rule keeps_store [OF tt, of "lvl_idx n v"]) (use pr st' in auto)
  next
    case False
    obtain np fr' where al: "pmm_alloc_page (frames st) = (np, fr')" by fastforce
    show ?thesis
    proof (cases "np = 0")
      case True
      have "pmm_inv (frames st)" using wf by (simp add: vmm_wf_def)
      from alloc_none [OF this] have "st' = st" using al True call False by (auto simp: next_table_def present_bit)
      then show ?thesis by simp
    next
      case np: False
      have inv: "pmm_inv (frames st)" using wf by (simp add: vmm_wf_def)
      note fr = alloc_frame [OF inv al np]
      have st': "st' = st\<lparr>frames := fr', vmem := pt_set t (lvl_idx n v) (np OR VMM_PRESENT OR VMM_WRITABLE OR VMM_USER) (zero_page np (vmem st))\<rparr>"
        using call False al np by (auto simp: next_table_def Let_def present_bit)
      show ?thesis
        by (rule keeps_fresh [OF wf t n al np, of st' "zero_page np (vmem st)"])
          (use False st' zero_page_other [OF _ fr(1)] pt_get_zero [OF fr(1)] fr(1) in \<open>auto simp: next_of_def\<close>)
    qed
  qed
qed

lemma split_huge_keeps:
  assumes wf: "vmm_wf st" and t: "tab (vmem st) (vmm_current_pml4 st) v 2 = Some pd"
    and call: "split_huge_pd pd (pd_idx v) st = (ok, st')"
  shows "map_keeps st st'"
proof (cases "bit (pt_get (vmem st) pd (pd_idx v)) 7")
  case False
  then show ?thesis using call by (auto simp: split_huge_pd_def huge_bit)
next
  case True
  let ?e = "pt_get (vmem st) pd (pd_idx v)"
  obtain np fr' where al: "pmm_alloc_page (frames st) = (np, fr')" by fastforce
  have inv: "pmm_inv (frames st)" using wf by (simp add: vmm_wf_def)
  show ?thesis
  proof (cases "np = 0")
    case n0: True
    with alloc_none [OF inv] al have "fr' = frames st" by auto
    then show ?thesis using n0 True al call by (auto simp: split_huge_pd_def huge_bit)
  next
    case np: False
    note fr = alloc_frame [OF inv al np]
    let ?m1 = "fold (\<lambda>k. pt_set np k (split_entry ?e k)) slots (zero_page np (vmem st))"
    have st': "st' = st\<lparr>frames := fr', vmem := pt_set pd (lvl_idx 2 v) (np OR VMM_PRESENT OR VMM_WRITABLE OR VMM_USER) ?m1, tlb := Flush_all # tlb st\<rparr>"
      using call True al np by (auto simp: split_huge_pd_def huge_bit flush_tlb_all_def split_entry_def Let_def)
    have g: "pt_get ?m1 s j = pt_get (vmem st) s j" if "page_aligned s" "s \<noteq> np" "j < 512" for s j
      using fill_table [OF fr(1) that(1,3)] pt_get_zero [OF fr(1) that(1,3)] that(2) by simp
    have b: "?m1 a = vmem st a" if "page_aligned p" "p \<noteq> np" "in_page p a" for p a
      using fold_pt_set_other [OF that(1) fr(1) that(2,3)] zero_page_other [OF that(1) fr(1) that(2,3)] by (simp add: set_slots)
    show ?thesis
      by (rule keeps_fresh [OF wf t _ al np, of st' ?m1]) (use True st' g b in \<open>auto simp: next_of_def\<close>)
  qed
qed

lemma leaf_keeps:
  assumes wf: "vmm_wf st" and t: "tab (vmem st) (vmm_current_pml4 st) v 3 = Some pt"
    and st': "vmem st' = pt_set pt (pt_idx v) e (vmem st)" "frames st' = frames st" "cr3 st' = cr3 st"
  shows "map_keeps st st'"
proof -
  let ?r = "vmm_current_pml4 st"
  have pwf: "pt_wf (vmem st) ?r" using wf by (simp add: vmm_wf_def)
  have r: "page_aligned ?r" by (simp add: vmm_current_pml4_def)
  have sto: "stored (vmem st) (vmem st') ?r pt (lvl_idx 3 v) e"
    unfolding st'(1) lvl_idx_simps by (rule stored_plain [OF r tab_aligned [OF r t]]) simp
  have tabs: "tab (vmem st') ?r w k = tab (vmem st) ?r w k" if "k \<le> 3" for w k
    using that by (intro tab_unchanged [OF pwf _ t sto]) auto
  have "pt \<in> tables st" using t unfolding tables_def by (intro CollectI exI [of _ v] exI [of _ "3 :: nat"]) simp
  then show ?thesis by (rule keeps_store [OF _ _ st'(1,3,2)]) (auto intro: tabs)
qed

lemma vmm_map_keeps:
  assumes wf: "vmm_wf st"
  shows "map_keeps st (vmm_map virt phys flags st)"
proof -
  let ?r = "vmm_current_pml4 st" and ?st' = "vmm_map virt phys flags st"
  have two: "Suc (Suc 0) = 2" "Suc 2 = 3" by simp_all
  obtain pdpt st1 where c1: "next_table ?r (lvl_idx 0 virt) st = (pdpt, st1)" by fastforce
  have n1: "next_table (cr3 st AND ADDR_MASK) (pml4_idx virt) st = (pdpt, st1)" using c1 by (simp add: vmm_current_pml4_def)
  have t0: "tab (vmem st) ?r virt 0 = Some ?r" by simp
  note s1 = next_table_ok [OF wf t0 _ _ c1] and k1 = next_table_keeps [OF wf t0 _ _ c1]
  show ?thesis
  proof (cases "pdpt = 0")
    case True
    then have "?st' = st1" using n1 by (simp add: vmm_map_def)
    then show ?thesis using k1 by simp
  next
    case p1: False
    obtain pd st2 where c2: "next_table pdpt (lvl_idx 1 virt) st1 = (pd, st2)" by fastforce
    have n2: "next_table pdpt (pdpt_idx virt) st1 = (pd, st2)" using c2 by simp
    have t1: "tab (vmem st1) (vmm_current_pml4 st1) virt 1 = Some pdpt" using s1(2,5) p1 by (simp del: tab.simps)
    have wf1: "vmm_wf st1" using s1(1) by simp
    note s2 = next_table_ok [OF wf1 t1 _ _ c2]
    have k2: "map_keeps st st2" using map_keeps_trans [OF k1 next_table_keeps [OF wf1 t1 _ _ c2]] by simp
    show ?thesis
    proof (cases "pd = 0")
      case True
      then have "?st' = st2" using n1 n2 p1 by (simp add: vmm_map_def)
      then show ?thesis using k2 by simp
    next
      case p2: False
      obtain ok st3 where c3: "split_huge_pd pd (pd_idx virt) st2 = (ok, st3)" by fastforce
      have t2: "tab (vmem st2) (vmm_current_pml4 st2) virt 2 = Some pd" using s2(2,5) p2 by (simp add: numeral_2_eq_2 del: tab.simps)
      have wf2: "vmm_wf st2" using s2(1) by simp
      note s3 = split_huge_ok [OF wf2 t2 c3]
      have k3: "map_keeps st st3" using map_keeps_trans [OF k2 split_huge_keeps [OF wf2 t2 c3]] .
      show ?thesis
      proof (cases ok)
        case False
        then have "?st' = st3" using n1 n2 c3 p1 p2 by (simp add: vmm_map_def)
        then show ?thesis using k3 by simp
      next
        case True
        obtain pt st4 where c4: "next_table pd (lvl_idx 2 virt) st3 = (pt, st4)" by fastforce
        have n4: "next_table pd (pd_idx virt) st3 = (pt, st4)" using c4 by simp
        have t3: "tab (vmem st3) (vmm_current_pml4 st3) virt 2 = Some pd" and nh: "\<not> bit (pt_get (vmem st3) pd (pd_idx virt)) 7"
          using s3(2,5) True by auto
        note s4 = next_table_ok [OF s3(1) t3 _ _ c4]
        have k4: "map_keeps st st4" using map_keeps_trans [OF k3 next_table_keeps [OF s3(1) t3 _ _ c4]] nh by simp
        let ?e = "(phys AND NOT 0xFFF) OR (flags AND 0xFFF) OR VMM_PRESENT"
        have st': "?st' = (if pt = 0 then st4 else invlpg virt (st4\<lparr>vmem := pt_set pt (pt_idx virt) ?e (vmem st4)\<rparr>))"
          using n1 n2 c3 n4 p1 p2 True nh by (simp add: vmm_map_def huge_bit)
        show ?thesis
        proof (cases "pt = 0")
          case z: True
          then show ?thesis using st' k4 by simp
        next
          case p4: False
          have t4: "tab (vmem st4) (vmm_current_pml4 st4) virt 3 = Some pt" using s4(2,5) p4 nh by (simp del: tab.simps add: two)
          have fields: "vmem ?st' = pt_set pt (pt_idx virt) ?e (vmem st4)" "frames ?st' = frames st4" "cr3 ?st' = cr3 st4"
            using st' p4 by (simp_all add: invlpg_def)
          have wf4: "vmm_wf st4" using s4(1) nh by simp
          show ?thesis using map_keeps_trans [OF k4 leaf_keeps [OF wf4 t4 fields]] .
        qed
      qed
    qed
  qed
qed

section \<open>Stores outside the tables\<close>

text \<open>A store into a page that is no table changes no walk and keeps the state well formed.\<close>

lemma store_outside:
  assumes wf: "vmm_wf st" and p: "page_aligned p" "p \<notin> tables st" and st': "cr3 st' = cr3 st" "frames st' = frames st"
    and m: "\<And>a. \<not> in_page p a \<Longrightarrow> vmem st' a = vmem st a"
  shows "vmm_wf st'" and "tables st' = tables st" and "vmm_get_phys w st' = vmm_get_phys w st"
proof -
  let ?r = "vmm_current_pml4 st"
  have r: "page_aligned ?r" by (simp add: vmm_current_pml4_def)
  have root: "vmm_current_pml4 st' = ?r" using st'(1) by (simp add: vmm_current_pml4_def)
  have get: "pt_get (vmem st') t i = pt_get (vmem st) t i" if "t \<in> tables st" "i < 512" for t i
  proof -
    have t: "page_aligned t" "t \<noteq> p" using that tables_aligned p(2) by blast+
    have "vmem st' (t + 8 * i + of_nat j) = vmem st (t + 8 * i + of_nat j)" if j: "j < 8" for j
    proof (rule m)
      have o: "8 * unat i + j < 4096" using j \<open>i < 512\<close> by (simp add: word_less_nat_alt)
      have e: "t + 8 * i + of_nat j = t + of_nat (8 * unat i + j)" by simp
      show "\<not> in_page p (t + 8 * i + of_nat j)" unfolding e in_page_def not_less by (rule page_offset_out [OF p(1) t o])
    qed
    then have "map (\<lambda>j. vmem st' (t + 8 * i + of_nat j)) [0..<8] = map (\<lambda>j. vmem st (t + 8 * i + of_nat j)) [0..<8]"
      by (intro map_cong) auto
    then show ?thesis unfolding pt_get_def rd64_def rd_bytes_def by (rule arg_cong)
  qed
  have tabs: "tab (vmem st') ?r w k = tab (vmem st) ?r w k" if "k \<le> 3" for w k
    using that
  proof (induction k)
    case (Suc k)
    then have IH: "tab (vmem st') ?r w k = tab (vmem st) ?r w k" by simp
    show ?case
    proof (cases "tab (vmem st) ?r w k")
      case (Some t)
      then have "t \<in> tables st" using Suc.prems by (auto simp: tables_def intro!: exI [of _ w] exI [of _ k])
      then show ?thesis using IH Some get [of t "lvl_idx k w"] by simp
    qed (use IH in simp)
  qed simp
  have tin: "t \<in> tables st" if "tab (vmem st) ?r w k = Some t" "k \<le> 3" for t w k using that by (auto simp: tables_def)
  have pwf: "pt_wf (vmem st) ?r" using wf by (simp add: vmm_wf_def)
  have "pt_wf (vmem st') ?r"
    using pwf get tin by (intro pt_wf_same [OF pwf tabs]) (auto simp: pt_wf_def)
  then show "vmm_wf st'" using wf tabs root st'(2) by (auto simp: vmm_wf_def)
  show "tables st' = tables st" by (rule keeps_tabs [OF st'(1) tabs])
  have "walk_from (vmem st') ?r w = walk_from (vmem st) ?r w"
    by (rule walk_cong) (use tabs get tin in auto)
  then show "vmm_get_phys w st' = vmm_get_phys w st" by (simp add: vmm_get_phys_def st'(1) vmm_current_pml4_def)
qed

end
