(* ===== verification/Elf.thy ===== *)
theory Elf
  imports Vmm_Frame
begin

text \<open>
  Loading user programs, \<open>kernel/mm/user.c\<close>.  The image of the program lies in the identity mapped memory
  of the kernel; what the loader stores at a virtual address goes through the current page
  tables to the physical memory.  The header structures are read field by field at their packed
  offsets.  A store to an address that is not mapped would end in the page fault handler, which does not
  return; \<open>ustore\<close> is the case that the address is mapped.
\<close>

section \<open>Headers\<close>

definition e_ident :: "mem \<Rightarrow> u64 \<Rightarrow> nat \<Rightarrow> u8" where "e_ident m elf i = m (elf + of_nat i)"
definition e_entry :: "mem \<Rightarrow> u64 \<Rightarrow> u64" where "e_entry m elf = rd64 m (elf + 24)"
definition e_phoff :: "mem \<Rightarrow> u64 \<Rightarrow> u64" where "e_phoff m elf = rd64 m (elf + 32)"
definition e_phentsize :: "mem \<Rightarrow> u64 \<Rightarrow> u16" where "e_phentsize m elf = rd16 m (elf + 54)"
definition e_phnum :: "mem \<Rightarrow> u64 \<Rightarrow> u16" where "e_phnum m elf = rd16 m (elf + 56)"

definition p_type :: "mem \<Rightarrow> u64 \<Rightarrow> u32" where "p_type m ph = rd32 m ph"
definition p_offset :: "mem \<Rightarrow> u64 \<Rightarrow> u64" where "p_offset m ph = rd64 m (ph + 8)"
definition p_vaddr :: "mem \<Rightarrow> u64 \<Rightarrow> u64" where "p_vaddr m ph = rd64 m (ph + 16)"
definition p_filesz :: "mem \<Rightarrow> u64 \<Rightarrow> u64" where "p_filesz m ph = rd64 m (ph + 32)"
definition p_memsz :: "mem \<Rightarrow> u64 \<Rightarrow> u64" where "p_memsz m ph = rd64 m (ph + 40)"

definition PT_LOAD :: u32 where "PT_LOAD = 1"

section \<open>Operations\<close>

definition ustore :: "u64 \<Rightarrow> u8 \<Rightarrow> vmm \<Rightarrow> vmm" where
  "ustore va b st = st\<lparr>vmem := (vmem st)(vmm_get_phys va st := b)\<rparr>"

definition uload :: "u64 \<Rightarrow> vmm \<Rightarrow> u8" where
  "uload va st = vmem st (vmm_get_phys va st)"

definition zero_phys :: "u64 \<Rightarrow> vmm \<Rightarrow> vmm" where
  "zero_phys phys st = st\<lparr>vmem := fold (\<lambda>i m. m(phys + of_nat i := 0)) [0..<4096] (vmem st)\<rparr>"

text \<open>One page of a segment; \<open>False\<close> leaves the function.\<close>

definition load_page :: "u64 \<Rightarrow> vmm \<Rightarrow> bool \<times> vmm" where
  "load_page va st =
     (let (phys, fr) = pmm_alloc_page (frames st);
          st = st\<lparr>frames := fr\<rparr> in
      if phys = 0 then (False, st)
      else (True, vmm_map va phys (VMM_WRITABLE OR VMM_USER) (zero_phys phys st)))"

definition load_segment :: "u64 \<Rightarrow> u64 \<Rightarrow> vmm \<Rightarrow> bool \<times> vmm" where
  "load_segment elf ph st =
     (if p_type (vmem st) ph \<noteq> PT_LOAD then (True, st)
      else
        (let first = p_vaddr (vmem st) ph AND NOT 0xFFF;
             last_page = (p_vaddr (vmem st) ph + p_memsz (vmem st) ph + 0xFFF) AND NOT 0xFFF;
             (ok, st) = for_ok load_page (page_range first last_page) st in
         if \<not> ok then (False, st)
         else
           (let dst = p_vaddr (vmem st) ph;
                src = elf + p_offset (vmem st) ph
            in (True, fold (\<lambda>k st. ustore (dst + of_nat k) (vmem st (src + of_nat k)) st) [0..<unat (p_filesz (vmem st) ph)] st))))"

definition user_load_elf :: "u64 \<Rightarrow> vmm \<Rightarrow> u64 \<times> vmm" where
  "user_load_elf elf st =
     (if e_ident (vmem st) elf 0 \<noteq> 0x7F \<or> e_ident (vmem st) elf 1 \<noteq> 0x45 \<or> e_ident (vmem st) elf 2 \<noteq> 0x4C \<or> e_ident (vmem st) elf 3 \<noteq> 0x46
      then (0, st)
      else
        (case for_ok (\<lambda>i st. load_segment elf (elf + e_phoff (vmem st) elf + of_nat i * ucast (e_phentsize (vmem st) elf)) st)
               [0..<unat (e_phnum (vmem st) elf)] st of
           (ok, st) \<Rightarrow> if ok then (e_entry (vmem st) elf, st) else (0, st)))"

definition stack_page :: "u64 \<Rightarrow> vmm \<Rightarrow> vmm" where
  "stack_page va st =
     (let (phys, fr) = pmm_alloc_page (frames st)
      in vmm_map va phys (VMM_WRITABLE OR VMM_USER) (zero_phys phys (st\<lparr>frames := fr\<rparr>)))"

definition user_setup_stack_at :: "u64 \<Rightarrow> u64 \<Rightarrow> vmm \<Rightarrow> vmm" where
  "user_setup_stack_at base stack_size st = fold stack_page (page_range base (base + stack_size)) st"

definition USER_STACK_BASE :: u64 where "USER_STACK_BASE = 0x70000000"
definition USER_STACK_SIZE :: u64 where "USER_STACK_SIZE = 0x4000"
definition CHILD_CODE_BASE :: u64 where "CHILD_CODE_BASE = 0x800000"
definition CHILD_STACK_BASE :: u64 where "CHILD_STACK_BASE = 0x7F000000"
definition CHILD_STACK_SIZE :: u64 where "CHILD_STACK_SIZE = 0x4000"

definition user_setup_stack :: "vmm \<Rightarrow> vmm" where
  "user_setup_stack st = user_setup_stack_at USER_STACK_BASE USER_STACK_SIZE st"

definition user_fork_space :: "fb_info \<Rightarrow> u64 \<Rightarrow> vmm \<Rightarrow> u64 \<times> vmm" where
  "user_fork_space fbi parent st = vmm_clone_pml4_deep fbi parent st"

section \<open>Addresses and pages of user space\<close>

definition low :: "u64 \<Rightarrow> bool" where
  "low w \<longleftrightarrow> unat w < 2 ^ 48"

lemma same_page_low:
  assumes "low v" and "low w"
  shows "same_page v w \<longleftrightarrow> unat v div 4096 = unat w div 4096"
proof -
  have u: "unat (take_bit 36 (drop_bit 12 x)) = unat x div 4096" if "low x" for x :: u64
  proof -
    have "unat (drop_bit 12 x) = unat x div 4096" by (simp add: drop_bit_eq_div unat_div)
    moreover have "unat x div 4096 < 2 ^ 36" using that by (simp add: low_def)
    ultimately show ?thesis by (simp add: unsigned_take_bit_eq take_bit_nat_eq_self)
  qed
  show ?thesis unfolding same_page_def using u [OF assms(1)] u [OF assms(2)] by (metis unat_eqI)
qed

lemma offset_bits: "unat (w AND 0xFFF) = unat (w :: u64) mod 4096"
proof -
  have m: "(0xFFF :: u64) = mask 12" by (simp add: mask_eq_exp_minus_1)
  have "w AND 0xFFF = take_bit 12 w" unfolding m take_bit_eq_mask ..
  then show ?thesis by (simp add: unsigned_take_bit_eq take_bit_eq_mod unat_mod)
qed

lemma in_page_offset: "in_page p (p + (w AND 0xFFF))"
  by (simp add: in_page_def offset_bits)

lemma aligned_and: "page_aligned p \<Longrightarrow> unat p < 4503599627370496 \<Longrightarrow> p AND ADDR_MASK = p"
proof -
  assume a: "page_aligned p" "unat p < 4503599627370496"
  show ?thesis
  proof (rule bit_word_eqI)
    fix n :: nat
    show "bit (p AND ADDR_MASK) n = bit p n"
      unfolding addr_bit using aligned_low_bits [OF a(1), of n] small_high_bits [OF a(2), of n] not_less by metis
  qed
qed

section \<open>One page\<close>

lemma zero_phys_page: "vmem (zero_phys p st) = zero_page p (vmem st)"
proof -
  have "fold (\<lambda>i m. m(p + of_nat i := 0)) [0..<n] m a = (if unat (a - p) < n then 0 else m a)" if "n \<le> 4096" for n and m :: mem and a
    using that
  proof (induction n)
    case (Suc n)
    have "a = p + of_nat n \<longleftrightarrow> unat (a - p) = n"
    proof
      assume "a = p + of_nat n"
      then show "unat (a - p) = n" using Suc.prems by (simp add: unat_of_nat_64)
    next
      assume "unat (a - p) = n"
      then have "of_nat n = a - p" using word_of_nat_eq_iff by (metis unat_eqI unat_of_nat_64 unat_lt_64)
      then show "a = p + of_nat n" by simp
    qed
    then show ?case using Suc by (auto simp: less_Suc_eq)
  qed simp
  from this [of 4096] show ?thesis by (simp add: fun_eq_iff zero_phys_def zero_page_apply del: upt_Suc)
qed

lemma zero_phys_simps [simp]: "frames (zero_phys p st) = frames st" "cr3 (zero_phys p st) = cr3 st"
  by (simp_all add: zero_phys_def)

lemma load_page_ok:
  assumes wf: "vmm_wf st" and room: "4 \<le> card (vfree st)" and run: "load_page va st = (ok, st')"
  obtains phys where "ok" and "vmm_wf st'" and "map_keeps st st'" and "card (vfree st) \<le> 4 + card (vfree st')"
    and "phys \<in> vfree st" and "page_aligned phys" and "phys \<notin> tables st'" and "phys \<notin> vfree st'"
    and "\<And>a. in_page phys a \<Longrightarrow> vmem st' a = 0"
    and "\<And>w. vmm_get_phys w st' = (if same_page va w then phys + (w AND 0xFFF) else vmm_get_phys w st)"
proof -
  obtain phys fr where al: "pmm_alloc_page (frames st) = (phys, fr)" by fastforce
  have inv: "pmm_inv (frames st)" using wf by (simp add: vmm_wf_def)
  have np: "phys \<noteq> 0"
  proof
    assume "phys = 0"
    then have "free_frames (frames st) = {}" using alloc_none [OF inv] al by blast
    then show False using room by (simp add: vfree_def)
  qed
  note f = alloc_frame [OF inv al np]
  define st1 where "st1 = st\<lparr>frames := fr\<rparr>"
  define st2 where "st2 = zero_phys phys st1"
  have t1: "tables st1 = tables st" by (simp add: tables_def st1_def vmm_current_pml4_def)
  have wf1: "vmm_wf st1" using wf f(4,5) by (auto simp: vmm_wf_def st1_def vmm_current_pml4_def)
  have nt: "phys \<notin> tables st" using vmm_wf_tables [OF wf] f(3) by (auto simp: vfree_def)
  have m2: "vmem st2 a = (if in_page phys a then 0 else vmem st a)" for a
    by (simp add: st2_def st1_def zero_phys_page zero_page_apply in_page_def)
  note s2 = store_outside [OF wf1 f(1), of st2, unfolded t1]
  have wf2: "vmm_wf st2" and t2: "tables st2 = tables st" and g2: "vmm_get_phys w st2 = vmm_get_phys w st" for w
    using s2 nt m2 by (simp_all add: st2_def st1_def vmm_get_phys_def)
  have free2: "vfree st2 = vfree st - {phys}" using f(4) by (simp add: vfree_def st2_def st1_def)
  have "vmem st2 a = vmem st a" if "page_aligned p" "p \<notin> vfree st" "in_page p a" for p a
    using in_page_unique [OF that(1) f(1) that(3)] that(2) f(3) m2 by (auto simp: vfree_def)
  then have k2: "map_keeps st st2" using free2 t2 by (auto simp: map_keeps_def st2_def st1_def)
  define st3 where "st3 = vmm_map va phys (VMM_WRITABLE OR VMM_USER) st2"
  have st': "ok" "st' = st3" using run al np by (simp_all add: load_page_def Let_def st1_def st2_def st3_def)
  have card: "card (vfree st) = Suc (card (vfree st2))" using alloc_frame_card [OF inv al np] by (simp add: vfree_def st2_def st1_def)
  then have "\<not> card (free_frames (frames st2)) < 3" using room by (simp add: vfree_def)
  note m = vmm_map_ok [OF wf2 st3_def]
  have wf3: "vmm_wf st3" and c3: "card (vfree st2) \<le> 3 + card (vfree st3)" and
    g3: "vmm_get_phys w st3 = (if same_page va w then (phys AND ADDR_MASK) + (w AND 0xFFF) else vmm_get_phys w st2)" for w
    using m \<open>\<not> card (free_frames (frames st2)) < 3\<close> by (auto simp: vfree_def)
  have k3: "map_keeps st2 st3" unfolding st3_def by (rule vmm_map_keeps [OF wf2])
  note p3 = keepsD [OF k3 f(1)]
  show thesis
  proof (rule that [of phys])
    show "vmem st' a = 0" if "in_page phys a" for a using p3(3) [of a] nt free2 m2 that by (simp add: st'(2) t2)
    show "vmm_get_phys w st' = (if same_page va w then phys + (w AND 0xFFF) else vmm_get_phys w st)" for w
      using g3 g2 aligned_and [OF f(1,2)] by (simp add: st'(2))
  qed (use st' wf3 map_keeps_trans [OF k2 k3] card c3 f(1,3) p3 nt free2 t2 in \<open>auto simp: vfree_def\<close>)
qed

section \<open>All pages of a segment\<close>

text \<open>\<open>F\<close> is the frame behind each page; the frames were free, are zeroed and are in nobody else's way.\<close>

definition pages_loaded :: "u64 list \<Rightarrow> (u64 \<Rightarrow> u64) \<Rightarrow> vmm \<Rightarrow> vmm \<Rightarrow> bool" where
  "pages_loaded vas F st st' \<longleftrightarrow> vmm_wf st' \<and> map_keeps st st' \<and> inj_on F (set vas) \<and>
     (\<forall>va \<in> set vas. F va \<in> vfree st \<and> page_aligned (F va) \<and> F va \<notin> tables st' \<and> F va \<notin> vfree st' \<and>
        (\<forall>a. in_page (F va) a \<longrightarrow> vmem st' a = 0) \<and> (\<forall>w. same_page va w \<longrightarrow> vmm_get_phys w st' = F va + (w AND 0xFFF))) \<and>
     (\<forall>w. (\<forall>va \<in> set vas. \<not> same_page va w) \<longrightarrow> vmm_get_phys w st' = vmm_get_phys w st)"

lemma load_pages_ok:
  assumes "vmm_wf st" and "4 * length vas \<le> card (vfree st)" and "distinct vas"
    and "\<forall>a \<in> set vas. \<forall>b \<in> set vas. same_page a b \<longrightarrow> a = b" and "for_ok load_page vas st = (ok, st')"
  shows "ok \<and> card (vfree st) \<le> 4 * length vas + card (vfree st') \<and> (\<exists>F. pages_loaded vas F st st')"
  using assms
proof (induction vas arbitrary: st)
  case Nil
  then show ?case by (auto simp: pages_loaded_def)
next
  case (Cons va vas)
  obtain ok1 st1 where l: "load_page va st = (ok1, st1)" by fastforce
  have "4 \<le> card (vfree st)" using Cons.prems(2) by simp
  from load_page_ok [OF Cons.prems(1) this l] obtain phys where 1: "ok1" "vmm_wf st1" "map_keeps st st1"
    "card (vfree st) \<le> 4 + card (vfree st1)" "phys \<in> vfree st" "page_aligned phys" "phys \<notin> tables st1" "phys \<notin> vfree st1"
    "\<And>a. in_page phys a \<Longrightarrow> vmem st1 a = 0"
    "\<And>w. vmm_get_phys w st1 = (if same_page va w then phys + (w AND 0xFFF) else vmm_get_phys w st)" by blast
  have r: "for_ok load_page vas st1 = (ok, st')" using Cons.prems(5) l 1(1) by simp
  have "ok \<and> card (vfree st1) \<le> 4 * length vas + card (vfree st') \<and> (\<exists>F. pages_loaded vas F st1 st')"
    using Cons.prems 1(2,4) by (intro Cons.IH r) auto
  then obtain F where 2: "ok" "card (vfree st1) \<le> 4 * length vas + card (vfree st')" "pages_loaded vas F st1 st'" by blast
  have nsp: "\<not> same_page b va" "b \<noteq> va" if "b \<in> set vas" for b using Cons.prems(3,4) that by auto
  have sym: "same_page a b \<longleftrightarrow> same_page b a" "same_page a b \<Longrightarrow> same_page b c \<Longrightarrow> same_page a c" for a b c by (auto simp: same_page_def)
  have free1: "vfree st1 \<subseteq> vfree st" using 1(3) by (simp add: map_keeps_def)
  note k' = keepsD [of st1 st' phys]
  have kst: "map_keeps st1 st'" using 2(3) by (simp add: pages_loaded_def)
  have "pages_loaded (va # vas) (F(va := phys)) st st'"
    unfolding pages_loaded_def
  proof (intro conjI ballI allI impI)
    show "vmm_wf st'" using 2(3) by (simp add: pages_loaded_def)
    show "map_keeps st st'" using map_keeps_trans [OF 1(3) kst] .
    have "phys \<notin> F ` set vas" using 2(3) 1(8) by (auto simp: pages_loaded_def)
    then show "inj_on (F(va := phys)) (set (va # vas))"
      using 2(3) nsp(2) by (auto simp: pages_loaded_def inj_on_def)
  next
    fix w
    assume n: "\<forall>v \<in> set (va # vas). \<not> same_page v w"
    then show "vmm_get_phys w st' = vmm_get_phys w st" using 2(3) 1(10) by (simp add: pages_loaded_def)
  next
    fix v
    assume v: "v \<in> set (va # vas)"
    show "(F(va := phys)) v \<in> vfree st" using v 2(3) 1(5) free1 by (auto simp: pages_loaded_def)
    show "page_aligned ((F(va := phys)) v)" "(F(va := phys)) v \<notin> tables st'" "(F(va := phys)) v \<notin> vfree st'"
      using v 2(3) k'(1,2) [OF kst 1(6-8)] 1(6) by (auto simp: pages_loaded_def)
    show "vmem st' a = 0" if "in_page ((F(va := phys)) v) a" for a
      using v 2(3) k'(3) [OF kst 1(6-8), of a] 1(9) [of a] that by (auto simp: pages_loaded_def split: if_splits)
    show "vmm_get_phys w st' = (F(va := phys)) v + (w AND 0xFFF)" if "same_page v w" for w
    proof (cases "v = va")
      case True
      have "\<forall>b \<in> set vas. \<not> same_page b w" using that True nsp(1) sym by blast
      then have "vmm_get_phys w st' = vmm_get_phys w st1" using 2(3) by (simp add: pages_loaded_def)
      then show ?thesis using 1(10) that True by simp
    next
      case False
      then show ?thesis using v 2(3) that by (simp add: pages_loaded_def)
    qed
  qed
  then show ?case using 2 1(4) by auto
qed

section \<open>The bytes of a segment\<close>

lemma copy_loop:
  fixes dst src :: u64
  defines "copy \<equiv> \<lambda>n st. fold (\<lambda>k st. ustore (dst + of_nat k) (vmem st (src + of_nat k)) st) [0..<n] st"
  assumes wf: "vmm_wf st" and ph: "\<And>k. k < n \<Longrightarrow> ph k = vmm_get_phys (dst + of_nat k) st"
    and out: "\<And>k. k < n \<Longrightarrow> \<exists>p. page_aligned p \<and> p \<notin> tables st \<and> in_page p (ph k)"
    and inj: "inj_on ph {..<n}" and src: "\<And>k j. k < n \<Longrightarrow> j < n \<Longrightarrow> src + of_nat k \<noteq> ph j"
  shows "vmm_wf (copy n st) \<and> cr3 (copy n st) = cr3 st \<and> frames (copy n st) = frames st \<and> tables (copy n st) = tables st \<and>
    (\<forall>w. vmm_get_phys w (copy n st) = vmm_get_phys w st) \<and>
    (\<forall>a. (\<forall>k<n. a \<noteq> ph k) \<longrightarrow> vmem (copy n st) a = vmem st a) \<and>
    (\<forall>k<n. vmem (copy n st) (ph k) = vmem st (src + of_nat k))"
  using ph out inj src
proof (induction n)
  case 0
  then show ?case using wf by (simp add: copy_def)
next
  case (Suc n)
  define u where "u = copy n st"
  have IH: "vmm_wf u" "cr3 u = cr3 st" "frames u = frames st" "tables u = tables st" "\<And>w. vmm_get_phys w u = vmm_get_phys w st"
    "\<And>a. (\<forall>k<n. a \<noteq> ph k) \<Longrightarrow> vmem u a = vmem st a" "\<And>k. k < n \<Longrightarrow> vmem u (ph k) = vmem st (src + of_nat k)"
    using Suc.IH Suc.prems by (simp_all add: u_def inj_on_def)
  define b where "b = vmem u (src + of_nat n)"
  have b: "b = vmem st (src + of_nat n)" unfolding b_def using Suc.prems(4) by (intro IH(6)) auto
  have s: "copy (Suc n) st = u\<lparr>vmem := (vmem u)(ph n := b)\<rparr>"
    using Suc.prems(1) [of n] IH(5) by (simp add: copy_def u_def b_def ustore_def)
  obtain p where p: "page_aligned p" "p \<notin> tables u" "in_page p (ph n)" using Suc.prems(2) [of n] IH(4) by auto
  have nm: "vmem (copy (Suc n) st) a = vmem u a" if "\<not> in_page p a" for a using that p(3) by (auto simp: s)
  have cf: "cr3 (copy (Suc n) st) = cr3 u" "frames (copy (Suc n) st) = frames u" by (simp_all add: s)
  note so = store_outside [OF IH(1) p(1,2) cf nm]
  have o: "vmm_wf (copy (Suc n) st)" "tables (copy (Suc n) st) = tables u" "vmm_get_phys w (copy (Suc n) st) = vmm_get_phys w u" for w
    by (rule so, assumption)+
  have ne: "ph k \<noteq> ph n" if "k < n" for k using Suc.prems(3) that by (auto simp: inj_on_def)
  have "vmem (copy (Suc n) st) a = vmem st a" if "\<forall>k<Suc n. a \<noteq> ph k" for a
    using that IH(6) [of a] by (simp add: s less_Suc_eq)
  moreover have "vmem (copy (Suc n) st) (ph k) = vmem st (src + of_nat k)" if "k < Suc n" for k
    using that IH(7) [of k] ne [of k] b by (auto simp: s less_Suc_eq)
  ultimately show ?case using o IH(1-5) cf by simp
qed

definition seg_pages :: "u64 \<Rightarrow> u64 \<Rightarrow> u64 list" where
  "seg_pages v ms = page_range (v AND NOT 0xFFF) ((v + ms + 0xFFF) AND NOT 0xFFF)"

definition seg_fits :: "u64 \<Rightarrow> u64 \<Rightarrow> bool" where
  "seg_fits v ms \<longleftrightarrow> unat v + unat ms + 4095 < 2 ^ 48"

lemma distinct_page_range: "distinct (page_range s e)"
proof -
  have "inj_on (\<lambda>k. s + of_nat k * PAGE_SIZE) {0..<(unat e - unat s) div 4096}"
  proof (rule inj_onI)
    fix j k
    assume a: "j \<in> {0..<(unat e - unat s) div 4096}" "k \<in> {0..<(unat e - unat s) div 4096}" "s + of_nat j * PAGE_SIZE = s + of_nat k * PAGE_SIZE"
    have b: "4096 * x < 18446744073709551616" if "x < (unat e - unat s) div 4096" for x using that unat_lt_64 [of e] by linarith
    have "unat (of_nat x * PAGE_SIZE :: u64) = x * 4096" if "x < (unat e - unat s) div 4096" for x
    proof -
      have "of_nat x * PAGE_SIZE = (of_nat (x * 4096) :: u64)" by (simp add: PAGE_SIZE_def)
      then show ?thesis using b [OF that] by (simp only: unat_of_nat_64)
    qed
    then have "j * 4096 = k * 4096" using a by (metis add_left_cancel atLeastLessThan_iff)
    then show "j = k" by simp
  qed
  then show ?thesis by (simp add: page_range_def distinct_map)
qed

lemma seg_pages_facts:
  assumes "seg_fits v ms"
  shows "distinct (seg_pages v ms)" and "\<forall>a \<in> set (seg_pages v ms). page_aligned a \<and> low a"
    and "\<forall>a \<in> set (seg_pages v ms). \<forall>b \<in> set (seg_pages v ms). same_page a b \<longrightarrow> a = b"
    and "k < unat ms \<Longrightarrow> unat (v + of_nat k) = unat v + k \<and> low (v + of_nat k) \<and> (\<exists>va \<in> set (seg_pages v ms). same_page va (v + of_nat k))"
proof -
  have b: "unat v + unat ms + 4095 < 281474976710656" using assms by (simp add: seg_fits_def)
  have s: "v AND NOT 0xFFF = align_down v" by (simp add: align_down_def PAGE_SIZE_def)
  have e: "(v + ms + 0xFFF) AND NOT 0xFFF = align_up (v + ms)" by (simp add: align_up_def PAGE_SIZE_def algebra_simps)
  have vm: "unat (v + ms) = unat v + unat ms" using b by (simp add: unat_plus_small)
  have u: "unat (align_up (v + ms)) = (unat v + unat ms + 4095) div 4096 * 4096" using b by (simp add: unat_align_up vm)
  have set: "set (seg_pages v ms) = {a. page_aligned a \<and> align_down v \<le> a \<and> a < align_up (v + ms)}"
    unfolding seg_pages_def s e by (rule set_page_range) simp_all
  show "distinct (seg_pages v ms)" unfolding seg_pages_def by (rule distinct_page_range)
  show al: "\<forall>a \<in> set (seg_pages v ms). page_aligned a \<and> low a"
  proof
    fix a
    assume "a \<in> set (seg_pages v ms)"
    then have "page_aligned a" "unat a < (unat v + unat ms + 4095) div 4096 * 4096" using set u by (auto simp: word_less_nat_alt)
    then show "page_aligned a \<and> low a" using b by (simp add: low_def)
  qed
  show "\<forall>a \<in> set (seg_pages v ms). \<forall>b \<in> set (seg_pages v ms). same_page a b \<longrightarrow> a = b"
  proof (intro ballI impI)
    fix a b
    assume a: "a \<in> set (seg_pages v ms)" "b \<in> set (seg_pages v ms)" "same_page a b"
    have "unat a div 4096 = unat b div 4096" "4096 dvd unat a" "4096 dvd unat b" using a al same_page_low by (auto simp: page_aligned_def)
    then show "a = b" by (intro unat_eqI) (metis dvd_div_mult_self)
  qed
  show "unat (v + of_nat k) = unat v + k \<and> low (v + of_nat k) \<and> (\<exists>va \<in> set (seg_pages v ms). same_page va (v + of_nat k))" if k: "k < unat ms"
  proof -
    have kk: "unat (of_nat k :: u64) = k" using k unat_lt_64 [of ms] by (intro unat_of_nat_64) linarith
    have w: "unat (v + of_nat k) = unat v + k" using k b kk by (simp add: unat_plus_small)
    then have lw: "low (v + of_nat k)" using k b by (simp add: low_def)
    let ?va = "align_down (v + of_nat k)"
    have uva: "unat ?va = (unat v + k) div 4096 * 4096" by (simp add: unat_align_down w)
    have "unat v div 4096 * 4096 \<le> (unat v + k) div 4096 * 4096" by (intro mult_le_mono1 div_le_mono) simp
    moreover have "(unat v + k) div 4096 * 4096 < (unat v + unat ms + 4095) div 4096 * 4096"
    proof -
      have "Suc ((unat v + k) div 4096) = (unat v + k + 4096) div 4096" by simp
      also have "\<dots> \<le> (unat v + unat ms + 4095) div 4096" using k by (intro div_le_mono) simp
      finally show ?thesis by simp
    qed
    ultimately have "?va \<in> set (seg_pages v ms)"
      unfolding set by (simp add: word_le_nat_alt word_less_nat_alt unat_align_down u uva [unfolded unat_align_down] w)
    moreover have "same_page ?va (v + of_nat k)"
    proof -
      have "low ?va" using lw uva w by (simp add: low_def)
      then show ?thesis using lw uva w by (simp add: same_page_low)
    qed
    ultimately show ?thesis using w lw by blast
  qed
qed

section \<open>One segment\<close>

text \<open>Memory in use: neither part of a page table nor free.\<close>

definition protected :: "vmm \<Rightarrow> u64 \<Rightarrow> bool" where
  "protected st a \<longleftrightarrow> (\<exists>p. page_aligned p \<and> p \<notin> tables st \<and> p \<notin> vfree st \<and> in_page p a)"

lemma protected_keeps: "map_keeps st st' \<Longrightarrow> protected st a \<Longrightarrow> protected st' a \<and> vmem st' a = vmem st a"
  unfolding protected_def using keepsD by metis

lemma rd_bytes_cong: "(\<And>j. j < n \<Longrightarrow> m' (a + of_nat j) = m (a + of_nat j)) \<Longrightarrow> rd_bytes m' a n = rd_bytes m a n"
  by (simp add: rd_bytes_def)

lemma field_cong:
  assumes "\<And>j. j < n \<Longrightarrow> m' (a + of_nat j) = m (a + of_nat j)" and "k + w \<le> n"
  shows "rd_bytes m' (a + of_nat k) w = rd_bytes m (a + of_nat k) w"
proof (rule rd_bytes_cong)
  fix j
  assume "j < w"
  have e: "a + of_nat k + of_nat j = a + of_nat (k + j)" by simp
  show "m' (a + of_nat k + of_nat j) = m (a + of_nat k + of_nat j)" unfolding e by (rule assms(1)) (use \<open>j < w\<close> assms(2) in simp)
qed

lemma header_cong:
  assumes h: "\<And>j. j < 56 \<Longrightarrow> m' (ph + of_nat j) = m (ph + of_nat j)"
  shows "p_type m' ph = p_type m ph" "p_offset m' ph = p_offset m ph" "p_vaddr m' ph = p_vaddr m ph"
    "p_filesz m' ph = p_filesz m ph" "p_memsz m' ph = p_memsz m ph"
proof -
  note f = field_cong [of 56 m' ph m, OF h]
  show "p_type m' ph = p_type m ph" "p_offset m' ph = p_offset m ph" "p_vaddr m' ph = p_vaddr m ph"
    "p_filesz m' ph = p_filesz m ph" "p_memsz m' ph = p_memsz m ph"
    using f [of 0 4] f [of 8 8] f [of 16 8] f [of 32 8] f [of 40 8]
    by (simp_all add: p_type_def p_offset_def p_vaddr_def p_filesz_def p_memsz_def rd32_def rd64_def)
qed

text \<open>What a loaded segment looks like to the program: its bytes and zeros behind them, in memory of its own.\<close>

definition seg_loaded :: "mem \<Rightarrow> u64 \<Rightarrow> u64 \<Rightarrow> vmm \<Rightarrow> bool" where
  "seg_loaded m elf ph st \<longleftrightarrow>
     (\<forall>k < unat (p_memsz m ph). protected st (vmm_get_phys (p_vaddr m ph + of_nat k) st) \<and>
        uload (p_vaddr m ph + of_nat k) st = (if k < unat (p_filesz m ph) then m (elf + p_offset m ph + of_nat k) else 0))"

definition seg_ok :: "vmm \<Rightarrow> u64 \<Rightarrow> u64 \<Rightarrow> bool" where
  "seg_ok st elf ph \<longleftrightarrow> (\<forall>j < 56. protected st (ph + of_nat j)) \<and>
     (p_type (vmem st) ph = PT_LOAD \<longrightarrow>
        seg_fits (p_vaddr (vmem st) ph) (p_memsz (vmem st) ph) \<and> p_filesz (vmem st) ph \<le> p_memsz (vmem st) ph \<and>
        (\<forall>k < unat (p_filesz (vmem st) ph). protected st (elf + p_offset (vmem st) ph + of_nat k)))"

definition ph_pages :: "mem \<Rightarrow> u64 \<Rightarrow> u64 list" where
  "ph_pages m ph = (if p_type m ph = PT_LOAD then seg_pages (p_vaddr m ph) (p_memsz m ph) else [])"

lemma phys_inj:
  assumes pl: "pages_loaded vas F st st1" and "va \<in> set vas" "vb \<in> set vas" "same_page va x" "same_page vb y" "low x" "low y"
    and eq: "vmm_get_phys x st1 = vmm_get_phys y st1"
  shows "x = y"
proof -
  have g: "vmm_get_phys x st1 = F va + (x AND 0xFFF)" "vmm_get_phys y st1 = F vb + (y AND 0xFFF)" "page_aligned (F va)" "page_aligned (F vb)"
    using pl assms(2-5) by (auto simp: pages_loaded_def)
  have "in_page (F va) (F va + (x AND 0xFFF))" "in_page (F vb) (F va + (x AND 0xFFF))"
    using in_page_offset [of "F va" x] in_page_offset [of "F vb" y] g(1,2) eq by simp_all
  then have f: "F va = F vb" using in_page_unique g(3,4) by blast
  then have "va = vb" using pl assms(2,3) by (auto simp: pages_loaded_def inj_on_def)
  then have "same_page x y" using assms(4,5) by (simp add: same_page_def)
  then have "unat x div 4096 = unat y div 4096" using same_page_low assms(6,7) by blast
  moreover have "unat x mod 4096 = unat y mod 4096"
  proof -
    have "x AND 0xFFF = y AND 0xFFF" using eq g(1,2) f by simp
    then show ?thesis using offset_bits by metis
  qed
  ultimately show ?thesis by (intro unat_eqI) (metis div_mult_mod_eq)
qed

text \<open>The frame behind byte \<open>k\<close> of a segment.\<close>

lemma segment_frame:
  assumes fit: "seg_fits v ms" and pl: "pages_loaded (seg_pages v ms) F st st1" and k: "k < unat ms"
  obtains va where "va \<in> set (seg_pages v ms)" and "in_page (F va) (vmm_get_phys (v + of_nat k) st1)" and "page_aligned (F va)"
    and "F va \<notin> tables st1" and "F va \<notin> vfree st1" and "F va \<in> vfree st" and "vmem st1 (vmm_get_phys (v + of_nat k) st1) = 0"
proof -
  obtain va where va: "va \<in> set (seg_pages v ms)" "same_page va (v + of_nat k)" using seg_pages_facts(4) [OF fit k] by blast
  have g: "vmm_get_phys (v + of_nat k) st1 = F va + ((v + of_nat k) AND 0xFFF)" using pl va by (simp add: pages_loaded_def)
  show thesis
  proof (rule that [OF va(1)])
    show i: "in_page (F va) (vmm_get_phys (v + of_nat k) st1)" unfolding g by (rule in_page_offset)
    show "vmem st1 (vmm_get_phys (v + of_nat k) st1) = 0" using pl va(1) i by (simp add: pages_loaded_def)
  qed (use pl va(1) in \<open>simp_all add: pages_loaded_def\<close>)
qed

lemma segment_inj:
  assumes fit: "seg_fits v ms" and pl: "pages_loaded (seg_pages v ms) F st st1" and jk: "j < unat ms" "k < unat ms"
    and eq: "vmm_get_phys (v + of_nat j) st1 = vmm_get_phys (v + of_nat k) st1"
  shows "j = k"
proof -
  have sj: "unat (v + of_nat j) = unat v + j" "low (v + of_nat j)" "\<exists>va \<in> set (seg_pages v ms). same_page va (v + of_nat j)"
    using seg_pages_facts(4) [OF fit jk(1)] by blast+
  have sk: "unat (v + of_nat k) = unat v + k" "low (v + of_nat k)" "\<exists>va \<in> set (seg_pages v ms). same_page va (v + of_nat k)"
    using seg_pages_facts(4) [OF fit jk(2)] by blast+
  obtain va where va: "va \<in> set (seg_pages v ms)" "same_page va (v + of_nat j)" using sj(3) ..
  obtain vb where vb: "vb \<in> set (seg_pages v ms)" "same_page vb (v + of_nat k)" using sk(3) ..
  have "v + of_nat j = v + of_nat k" by (rule phys_inj [OF pl va(1) vb(1) va(2) vb(2) sj(2) sk(2) eq])
  then have "unat v + j = unat v + k" unfolding sj(1) [symmetric] sk(1) [symmetric] by (rule arg_cong)
  then show ?thesis by simp
qed

lemma protected_outside:
  assumes fit: "seg_fits v ms" and pl: "pages_loaded (seg_pages v ms) F st st1" and k: "k < unat ms"
    and a: "page_aligned p" "p \<notin> vfree st" "in_page p a"
  shows "a \<noteq> vmm_get_phys (v + of_nat k) st1"
proof
  assume e: "a = vmm_get_phys (v + of_nat k) st1"
  from segment_frame [OF fit pl k] obtain va where va: "in_page (F va) (vmm_get_phys (v + of_nat k) st1)" "page_aligned (F va)" "F va \<in> vfree st" .
  have "p = F va" by (rule in_page_unique [OF a(1) va(2) a(3)]) (use e va(1) in simp)
  then show False using a(2) va(3) by simp
qed

lemma segment_copied:
  fixes v fs src :: u64
  defines "cp \<equiv> \<lambda>st. fold (\<lambda>k st. ustore (v + of_nat k) (vmem st (src + of_nat k)) st) [0..<unat fs] st"
  assumes fit: "seg_fits v ms" and le: "unat fs \<le> unat ms" and srcs: "\<And>k. k < unat fs \<Longrightarrow> protected st (src + of_nat k)"
    and pl: "pages_loaded (seg_pages v ms) F st st1"
  shows "vmm_wf (cp st1)" and "map_keeps st (cp st1)" and "vfree (cp st1) = vfree st1" and "vmm_get_phys w (cp st1) = vmm_get_phys w st1"
    and "k < unat ms \<Longrightarrow> protected (cp st1) (vmm_get_phys (v + of_nat k) (cp st1))"
    and "k < unat ms \<Longrightarrow> uload (v + of_nat k) (cp st1) = (if k < unat fs then vmem st (src + of_nat k) else 0)"
proof -
  define phy where "phy k = vmm_get_phys (v + of_nat k) st1" for k
  have wf1: "vmm_wf st1" and k1: "map_keeps st st1" using pl by (simp_all add: pages_loaded_def)
  note own = segment_frame [OF fit pl, folded phy_def] and inj = segment_inj [OF fit pl, folded phy_def]
    and out = protected_outside [OF fit pl, folded phy_def]
  have "vmm_wf (cp st1) \<and> cr3 (cp st1) = cr3 st1 \<and> frames (cp st1) = frames st1 \<and> tables (cp st1) = tables st1 \<and>
      (\<forall>w. vmm_get_phys w (cp st1) = vmm_get_phys w st1) \<and> (\<forall>a. (\<forall>k<unat fs. a \<noteq> phy k) \<longrightarrow> vmem (cp st1) a = vmem st1 a) \<and>
      (\<forall>k<unat fs. vmem (cp st1) (phy k) = vmem st1 (src + of_nat k))"
    unfolding cp_def
  proof (rule copy_loop [OF wf1])
    show "phy k = vmm_get_phys (v + of_nat k) st1" if "k < unat fs" for k by (simp add: phy_def)
    show "\<exists>p. page_aligned p \<and> p \<notin> tables st1 \<and> in_page p (phy k)" if "k < unat fs" for k
    proof -
      have "k < unat ms" using that le by simp
      from own [OF this] show ?thesis by blast
    qed
    show "inj_on phy {..<unat fs}" by (rule inj_onI) (use inj le in auto)
    show "src + of_nat k \<noteq> phy j" if kj: "k < unat fs" "j < unat fs" for k j
    proof -
      obtain p where p: "page_aligned p" "p \<notin> vfree st" "in_page p (src + of_nat k)" using srcs [OF kj(1)] by (auto simp: protected_def)
      show ?thesis by (rule out [OF _ p]) (use kj(2) le in simp)
    qed
  qed
  then have c: "vmm_wf (cp st1)" "cr3 (cp st1) = cr3 st1" "frames (cp st1) = frames st1" "tables (cp st1) = tables st1"
      "\<And>w. vmm_get_phys w (cp st1) = vmm_get_phys w st1" "\<And>a. (\<forall>k<unat fs. a \<noteq> phy k) \<Longrightarrow> vmem (cp st1) a = vmem st1 a"
      "\<And>k. k < unat fs \<Longrightarrow> vmem (cp st1) (phy k) = vmem st1 (src + of_nat k)" by blast+
  show "vmm_wf (cp st1)" "vmm_get_phys w (cp st1) = vmm_get_phys w st1" by (fact c)+
  show fr: "vfree (cp st1) = vfree st1" using c(3) by (simp add: vfree_def)
  have "vmem (cp st1) a = vmem st a" if p: "page_aligned p" "p \<notin> tables st" "p \<notin> vfree st" "in_page p a" for p a
  proof -
    have "\<forall>k<unat fs. a \<noteq> phy k" using out [OF _ p(1,3,4)] le by auto
    then show ?thesis using c(6) [of a] keepsD(3) [OF k1 p(1-3,4)] by simp
  qed
  then show "map_keeps st (cp st1)" using k1 c(2,4) fr unfolding map_keeps_def by simp blast
  assume k: "k < unat ms"
  from own [OF k] obtain va where va: "in_page (F va) (phy k)" "page_aligned (F va)" "F va \<notin> tables st1" "F va \<notin> vfree st1" "vmem st1 (phy k) = 0" .
  show "protected (cp st1) (vmm_get_phys (v + of_nat k) (cp st1))" unfolding protected_def c(5) c(4) fr phy_def [symmetric] using va by blast
  have ul: "uload (v + of_nat k) (cp st1) = vmem (cp st1) (phy k)" unfolding uload_def c(5) phy_def ..
  show "uload (v + of_nat k) (cp st1) = (if k < unat fs then vmem st (src + of_nat k) else 0)"
  proof (cases "k < unat fs")
    case True
    then show ?thesis using ul c(7) protected_keeps [OF k1 srcs [OF True]] by simp
  next
    case False
    have "phy k \<noteq> phy j" if "j < unat fs" for j using inj [OF k, of j] that le False by auto
    then show ?thesis using ul c(6) va(5) False by simp
  qed
qed

lemma load_segment_ok:
  assumes wf: "vmm_wf st" and ok: "seg_ok st elf ph" and room: "4 * length (ph_pages (vmem st) ph) \<le> card (vfree st)"
    and run: "load_segment elf ph st = (b, st')"
  shows "b" and "vmm_wf st'" and "map_keeps st st'" and "card (vfree st) \<le> 4 * length (ph_pages (vmem st) ph) + card (vfree st')"
    and "\<forall>va \<in> set (ph_pages (vmem st) ph). \<not> same_page va w \<Longrightarrow> vmm_get_phys w st' = vmm_get_phys w st"
    and "p_type (vmem st) ph = PT_LOAD \<Longrightarrow> seg_loaded (vmem st) elf ph st'"
proof -
  have "b \<and> vmm_wf st' \<and> map_keeps st st' \<and> card (vfree st) \<le> 4 * length (ph_pages (vmem st) ph) + card (vfree st') \<and>
    (\<forall>w. (\<forall>va \<in> set (ph_pages (vmem st) ph). \<not> same_page va w) \<longrightarrow> vmm_get_phys w st' = vmm_get_phys w st) \<and>
    (p_type (vmem st) ph = PT_LOAD \<longrightarrow> seg_loaded (vmem st) elf ph st')"
  proof (cases "p_type (vmem st) ph = PT_LOAD")
    case False
    then show ?thesis using run wf by (simp add: load_segment_def ph_pages_def)
  next
    case True
    define v where "v = p_vaddr (vmem st) ph"
    define ms where "ms = p_memsz (vmem st) ph"
    define fs where "fs = p_filesz (vmem st) ph"
    define src where "src = elf + p_offset (vmem st) ph"
    have o: "seg_fits v ms" "unat fs \<le> unat ms" "\<And>k. k < unat fs \<Longrightarrow> protected st (src + of_nat k)" "\<And>j. j < 56 \<Longrightarrow> protected st (ph + of_nat j)"
      using ok True by (simp_all add: seg_ok_def v_def ms_def fs_def src_def word_le_nat_alt)
    note sp = seg_pages_facts [OF o(1)]
    have vas: "ph_pages (vmem st) ph = seg_pages v ms" using True by (simp add: ph_pages_def v_def ms_def)
    obtain b1 st1 where l: "for_ok load_page (seg_pages v ms) st = (b1, st1)" by fastforce
    have "b1 \<and> card (vfree st) \<le> 4 * length (seg_pages v ms) + card (vfree st1) \<and> (\<exists>F. pages_loaded (seg_pages v ms) F st st1)"
      using room unfolding vas by (intro load_pages_ok [OF wf _ sp(1,3) l])
    then obtain F where 1: "b1" "card (vfree st) \<le> 4 * length (seg_pages v ms) + card (vfree st1)" "pages_loaded (seg_pages v ms) F st st1" by blast
    have k1: "map_keeps st st1" using 1(3) by (simp add: pages_loaded_def)
    have hd: "vmem st1 (ph + of_nat j) = vmem st (ph + of_nat j)" if "j < 56" for j using protected_keeps [OF k1 o(4) [OF that]] by simp
    note hc = header_cong [of "vmem st1" ph "vmem st", OF hd]
    define copied where "copied = fold (\<lambda>k st. ustore (v + of_nat k) (vmem st (src + of_nat k)) st) [0..<unat fs] st1"
    have st': "b" "st' = copied"
      using run True l 1(1) hc by (simp_all add: load_segment_def Let_def copied_def v_def src_def fs_def seg_pages_def ms_def)
    note c = segment_copied [OF o(1-3) 1(3), folded copied_def]
    have c': "vmm_wf copied" "map_keeps st copied" "vfree copied = vfree st1" using c(1-3) by simp_all
    have "seg_loaded (vmem st) elf ph copied"
      unfolding seg_loaded_def v_def [symmetric] ms_def [symmetric] fs_def [symmetric] src_def [symmetric] using c(5,6) by blast
    moreover have "\<forall>w. (\<forall>va \<in> set (seg_pages v ms). \<not> same_page va w) \<longrightarrow> vmm_get_phys w copied = vmm_get_phys w st"
      using 1(3) c(4) by (simp add: pages_loaded_def)
    ultimately show ?thesis using st' c' 1(2) unfolding vas by simp
  qed
  then show "b" "vmm_wf st'" "map_keeps st st'" "card (vfree st) \<le> 4 * length (ph_pages (vmem st) ph) + card (vfree st')"
    "\<forall>va \<in> set (ph_pages (vmem st) ph). \<not> same_page va w \<Longrightarrow> vmm_get_phys w st' = vmm_get_phys w st"
    "p_type (vmem st) ph = PT_LOAD \<Longrightarrow> seg_loaded (vmem st) elf ph st'" by blast+
qed

lemma seg_ok_keeps:
  assumes k: "map_keeps st st1" and ok: "seg_ok st elf ph"
  shows "p_type (vmem st1) ph = p_type (vmem st) ph" and "p_vaddr (vmem st1) ph = p_vaddr (vmem st) ph"
    and "p_memsz (vmem st1) ph = p_memsz (vmem st) ph" and "p_filesz (vmem st1) ph = p_filesz (vmem st) ph"
    and "p_offset (vmem st1) ph = p_offset (vmem st) ph" and "seg_ok st1 elf ph" and "ph_pages (vmem st1) ph = ph_pages (vmem st) ph"
proof -
  have h: "vmem st1 (ph + of_nat j) = vmem st (ph + of_nat j)" if "j < 56" for j using protected_keeps [OF k] ok that by (simp add: seg_ok_def)
  show c: "p_type (vmem st1) ph = p_type (vmem st) ph" "p_vaddr (vmem st1) ph = p_vaddr (vmem st) ph"
    "p_memsz (vmem st1) ph = p_memsz (vmem st) ph" "p_filesz (vmem st1) ph = p_filesz (vmem st) ph"
    "p_offset (vmem st1) ph = p_offset (vmem st) ph" by (rule header_cong, erule h)+
  show "seg_ok st1 elf ph" using ok protected_keeps [OF k] unfolding seg_ok_def c by blast
  show "ph_pages (vmem st1) ph = ph_pages (vmem st) ph" by (simp add: ph_pages_def c)
qed

lemma seg_loaded_earlier:
  assumes k: "map_keeps st st1" and ok: "seg_ok st elf ph" and t: "p_type (vmem st) ph = PT_LOAD" and l: "seg_loaded (vmem st1) elf ph st'"
  shows "seg_loaded (vmem st) elf ph st'"
proof -
  note c = seg_ok_keeps [OF k ok]
  have "vmem st1 (elf + p_offset (vmem st) ph + of_nat j) = vmem st (elf + p_offset (vmem st) ph + of_nat j)" if "j < unat (p_filesz (vmem st) ph)" for j
    using protected_keeps [OF k] ok t that by (simp add: seg_ok_def)
  then show ?thesis using l unfolding seg_loaded_def c(1-5) by (metis (no_types, lifting))
qed

text \<open>Pages of two segments, disjoint.\<close>

definition apart :: "mem \<Rightarrow> u64 \<Rightarrow> u64 \<Rightarrow> bool" where
  "apart m p q \<longleftrightarrow> (\<forall>a \<in> set (ph_pages m p). \<forall>b \<in> set (ph_pages m q). \<not> same_page a b)"

text \<open>A loaded segment stays loaded while other pages are mapped.\<close>

lemma seg_loaded_later:
  assumes k: "map_keeps st1 st'" and l: "seg_loaded m elf ph st1" and t: "p_type m ph = PT_LOAD" and fit: "seg_fits (p_vaddr m ph) (p_memsz m ph)"
    and g: "\<And>va w. va \<in> set (ph_pages m ph) \<Longrightarrow> same_page va w \<Longrightarrow> vmm_get_phys w st' = vmm_get_phys w st1"
  shows "seg_loaded m elf ph st'"
  unfolding seg_loaded_def
proof (intro allI impI)
  fix i
  assume i: "i < unat (p_memsz m ph)"
  let ?w = "p_vaddr m ph + of_nat i"
  have "\<exists>va \<in> set (seg_pages (p_vaddr m ph) (p_memsz m ph)). same_page va ?w" using seg_pages_facts(4) [OF fit i] by blast
  then have e: "vmm_get_phys ?w st' = vmm_get_phys ?w st1" using g t by (auto simp: ph_pages_def)
  have "protected st1 (vmm_get_phys ?w st1)" and u: "uload ?w st1 = (if i < unat (p_filesz m ph) then m (elf + p_offset m ph + of_nat i) else 0)"
    using l i by (auto simp: seg_loaded_def)
  then have "protected st' (vmm_get_phys ?w st') \<and> vmem st' (vmm_get_phys ?w st') = vmem st1 (vmm_get_phys ?w st1)"
    using protected_keeps [OF k] e by simp
  then show "protected st' (vmm_get_phys ?w st') \<and> uload ?w st' = (if i < unat (p_filesz m ph) then m (elf + p_offset m ph + of_nat i) else 0)"
    using u by (simp add: uload_def)
qed

section \<open>The whole program\<close>

definition ph_at :: "mem \<Rightarrow> u64 \<Rightarrow> nat \<Rightarrow> u64" where
  "ph_at m elf i = elf + e_phoff m elf + of_nat i * ucast (e_phentsize m elf)"

definition hdr_ok :: "vmm \<Rightarrow> u64 \<Rightarrow> bool" where
  "hdr_ok st elf \<longleftrightarrow> (\<forall>j < 64. protected st (elf + of_nat j))"

lemma elf_keeps:
  assumes k: "map_keeps st st1" and h: "hdr_ok st elf"
  shows "e_entry (vmem st1) elf = e_entry (vmem st) elf" and "ph_at (vmem st1) elf = ph_at (vmem st) elf" and "hdr_ok st1 elf"
proof -
  have b: "vmem st1 (elf + of_nat j) = vmem st (elf + of_nat j)" if "j < 64" for j using protected_keeps [OF k] h that by (simp add: hdr_ok_def)
  note f = field_cong [of 64 "vmem st1" elf "vmem st", OF b]
  show "e_entry (vmem st1) elf = e_entry (vmem st) elf" using f [of 24 8] by (simp add: e_entry_def rd64_def)
  have "e_phoff (vmem st1) elf = e_phoff (vmem st) elf" "e_phentsize (vmem st1) elf = e_phentsize (vmem st) elf"
    using f [of 32 8] f [of 54 2] by (simp_all add: e_phoff_def e_phentsize_def rd64_def rd16_def)
  then show "ph_at (vmem st1) elf = ph_at (vmem st) elf" by (simp add: ph_at_def fun_eq_iff)
  show "hdr_ok st1 elf" using h protected_keeps [OF k] by (simp add: hdr_ok_def)
qed

definition segs_ok :: "vmm \<Rightarrow> u64 \<Rightarrow> nat list \<Rightarrow> bool" where
  "segs_ok st elf is \<longleftrightarrow> (\<forall>i \<in> set is. seg_ok st elf (ph_at (vmem st) elf i)) \<and>
     sorted_wrt (\<lambda>i j. apart (vmem st) (ph_at (vmem st) elf i) (ph_at (vmem st) elf j)) is \<and>
     4 * (\<Sum>i\<leftarrow>is. length (ph_pages (vmem st) (ph_at (vmem st) elf i))) \<le> card (vfree st)"

lemma segments_ok:
  assumes "vmm_wf st" and "hdr_ok st elf" and "segs_ok st elf is"
    and "for_ok (\<lambda>i st. load_segment elf (ph_at (vmem st) elf i) st) is st = (b, st')"
  shows "b \<and> vmm_wf st' \<and> map_keeps st st' \<and>
    card (vfree st) \<le> 4 * (\<Sum>i\<leftarrow>is. length (ph_pages (vmem st) (ph_at (vmem st) elf i))) + card (vfree st') \<and>
    (\<forall>w. (\<forall>i \<in> set is. \<forall>va \<in> set (ph_pages (vmem st) (ph_at (vmem st) elf i)). \<not> same_page va w) \<longrightarrow> vmm_get_phys w st' = vmm_get_phys w st) \<and>
    (\<forall>i \<in> set is. p_type (vmem st) (ph_at (vmem st) elf i) = PT_LOAD \<longrightarrow> seg_loaded (vmem st) elf (ph_at (vmem st) elf i) st')"
  using assms
proof (induction "is" arbitrary: st)
  case Nil
  then show ?case by simp
next
  case (Cons i js)
  let ?ph = "ph_at (vmem st) elf"
  let ?pp = "\<lambda>j. ph_pages (vmem st) (?ph j)"
  obtain b1 st1 where l: "load_segment elf (?ph i) st = (b1, st1)" by fastforce
  have ok: "seg_ok st elf (?ph i)" and oks: "\<And>j. j \<in> set js \<Longrightarrow> seg_ok st elf (?ph j)"
    and room: "4 * (length (?pp i) + (\<Sum>j\<leftarrow>js. length (?pp j))) \<le> card (vfree st)"
    and ap: "\<And>j. j \<in> set js \<Longrightarrow> apart (vmem st) (?ph i) (?ph j)"
    and srt: "sorted_wrt (\<lambda>i j. apart (vmem st) (?ph i) (?ph j)) js"
    using Cons.prems(3) by (simp_all add: segs_ok_def)
  have r4: "4 * length (?pp i) \<le> card (vfree st)" using room by simp
  note s = load_segment_ok [OF Cons.prems(1) ok r4 l]
  note h = elf_keeps [OF s(3) Cons.prems(2)]
  have pp: "ph_pages (vmem st1) (?ph j) = ?pp j" if "j \<in> set js" for j using seg_ok_keeps(7) [OF s(3) oks [OF that]] .
  have run: "for_ok (\<lambda>i st. load_segment elf (ph_at (vmem st) elf i) st) js st1 = (b, st')" using Cons.prems(4) l s(1) by simp
  have "segs_ok st1 elf js"
    unfolding segs_ok_def h(2)
  proof (intro conjI ballI)
    show "seg_ok st1 elf (?ph j)" if "j \<in> set js" for j using seg_ok_keeps(6) [OF s(3) oks [OF that]] .
    show "sorted_wrt (\<lambda>i j. apart (vmem st1) (?ph i) (?ph j)) js" using srt by (rule sorted_wrt_mono_rel [rotated]) (simp add: apart_def pp)
    have "(\<Sum>j\<leftarrow>js. length (ph_pages (vmem st1) (?ph j))) = (\<Sum>j\<leftarrow>js. length (?pp j))" by (rule arg_cong [of _ _ sum_list]) (simp add: pp)
    then show "4 * (\<Sum>j\<leftarrow>js. length (ph_pages (vmem st1) (?ph j))) \<le> card (vfree st1)" using room s(4) by simp
  qed
  note IH = Cons.IH [OF s(2) h(3) this run, unfolded h(2)]
  have "(\<Sum>j\<leftarrow>js. length (ph_pages (vmem st1) (?ph j))) = (\<Sum>j\<leftarrow>js. length (?pp j))" by (rule arg_cong [of _ _ sum_list]) (simp add: pp)
  then have cd: "card (vfree st) \<le> 4 * (\<Sum>j\<leftarrow>i # js. length (?pp j)) + card (vfree st')" using IH s(4) by simp
  have o: "vmm_get_phys w st' = vmm_get_phys w st1" if "\<forall>j \<in> set js. \<forall>va \<in> set (?pp j). \<not> same_page va w" for w using IH that pp by simp
  have "seg_loaded (vmem st) elf (?ph j) st'" if j: "j \<in> set (i # js)" "p_type (vmem st) (?ph j) = PT_LOAD" for j
  proof (cases "j \<in> set js")
    case True
    note c = seg_ok_keeps [OF s(3) oks [OF True]]
    have "seg_loaded (vmem st1) elf (?ph j) st'" using IH True j(2) c(1) by simp
    then show ?thesis by (rule seg_loaded_earlier [OF s(3) oks [OF True] j(2)])
  next
    case False
    then have ji: "j = i" using j(1) by simp
    have k: "map_keeps st1 st'" using IH by blast
    show ?thesis unfolding ji
    proof (rule seg_loaded_later [OF k])
      show "seg_loaded (vmem st) elf (?ph i) st1" using s(6) j(2) ji by simp
      show "p_type (vmem st) (?ph i) = PT_LOAD" using j(2) ji by simp
      then show "seg_fits (p_vaddr (vmem st) (?ph i)) (p_memsz (vmem st) (?ph i))" using ok by (simp add: seg_ok_def)
      fix va w
      assume v: "va \<in> set (?pp i)" "same_page va w"
      have "\<not> same_page vb w" if "j \<in> set js" "vb \<in> set (?pp j)" for j vb
        using ap [OF that(1)] v that(2) unfolding apart_def same_page_def by metis
      then show "vmm_get_phys w st' = vmm_get_phys w st1" by (intro o) blast
    qed
  qed
  moreover have "vmm_get_phys w st' = vmm_get_phys w st" if "\<forall>j \<in> set (i # js). \<forall>va \<in> set (?pp j). \<not> same_page va w" for w
    using o [of w] s(5) [of w] that by simp
  moreover have "b" "vmm_wf st'" "map_keeps st st'" using IH map_keeps_trans [OF s(3)] by blast+
  ultimately show ?case using cd by blast
qed

definition elf_magic :: "mem \<Rightarrow> u64 \<Rightarrow> bool" where
  "elf_magic m elf \<longleftrightarrow> m elf = 0x7F \<and> m (elf + 1) = 0x45 \<and> m (elf + 2) = 0x4C \<and> m (elf + 3) = 0x46"

lemma user_load_elf_ok:
  assumes "vmm_wf st" and "hdr_ok st elf" and "segs_ok st elf [0..<unat (e_phnum (vmem st) elf)]"
    and "elf_magic (vmem st) elf" and "user_load_elf elf st = (entry, st')"
  shows "entry = e_entry (vmem st) elf" and "vmm_wf st'" and "map_keeps st st'"
    and "card (vfree st) \<le> 4 * (\<Sum>i\<leftarrow>[0..<unat (e_phnum (vmem st) elf)]. length (ph_pages (vmem st) (ph_at (vmem st) elf i))) + card (vfree st')"
    and "i < unat (e_phnum (vmem st) elf) \<Longrightarrow> p_type (vmem st) (ph_at (vmem st) elf i) = PT_LOAD \<Longrightarrow> seg_loaded (vmem st) elf (ph_at (vmem st) elf i) st'"
    and "(\<And>i va. i < unat (e_phnum (vmem st) elf) \<Longrightarrow> va \<in> set (ph_pages (vmem st) (ph_at (vmem st) elf i)) \<Longrightarrow> \<not> same_page va w) \<Longrightarrow>
      vmm_get_phys w st' = vmm_get_phys w st"
proof -
  let ?is = "[0..<unat (e_phnum (vmem st) elf)]"
  obtain b s where l: "for_ok (\<lambda>i st. load_segment elf (ph_at (vmem st) elf i) st) ?is st = (b, s)" by fastforce
  note o = segments_ok [OF assms(1-3) l]
  have e: "e_entry (vmem s) elf = e_entry (vmem st) elf" by (rule elf_keeps(1) [OF _ assms(2)]) (use o in blast)
  have m: "\<not> (e_ident (vmem st) elf 0 \<noteq> 0x7F \<or> e_ident (vmem st) elf 1 \<noteq> 0x45 \<or>
      e_ident (vmem st) elf 2 \<noteq> 0x4C \<or> e_ident (vmem st) elf 3 \<noteq> 0x46)"
    using assms(4) by (auto simp: elf_magic_def e_ident_def)
  have r: "entry = e_entry (vmem st) elf" "st' = s"
    using assms(5) l o m e by (simp_all add: user_load_elf_def ph_at_def)
  show "entry = e_entry (vmem st) elf" by (fact r)
  show "vmm_wf st'" "map_keeps st st'"
    "card (vfree st) \<le> 4 * (\<Sum>i\<leftarrow>?is. length (ph_pages (vmem st) (ph_at (vmem st) elf i))) + card (vfree st')"
    "i < unat (e_phnum (vmem st) elf) \<Longrightarrow> p_type (vmem st) (ph_at (vmem st) elf i) = PT_LOAD \<Longrightarrow> seg_loaded (vmem st) elf (ph_at (vmem st) elf i) st'"
    "(\<And>i va. i < unat (e_phnum (vmem st) elf) \<Longrightarrow> va \<in> set (ph_pages (vmem st) (ph_at (vmem st) elf i)) \<Longrightarrow> \<not> same_page va w) \<Longrightarrow>
      vmm_get_phys w st' = vmm_get_phys w st"
    using o unfolding r(2) by (simp_all add: atLeast_upt)
qed

text \<open>\<open>user_load_elf\<close> rejects an image without the ELF magic and changes nothing.  With the magic, headers and
  contents in memory in use, segments in the low half of the address space that share no page and
  enough free frames, it returns the entry point; every byte of every \<open>PT_LOAD\<close> segment then reads through the
  page tables as the image has it, the bytes behind \<open>p_filesz\<close> as zero; translations of all other pages and
  memory in use are as before, and the page tables stay a tree.\<close>

theorem user_load_elf_correct:
  assumes "vmm_wf st" and "hdr_ok st elf" and "segs_ok st elf [0..<unat (e_phnum (vmem st) elf)]"
    and "user_load_elf elf st = (entry, st')"
  shows "if elf_magic (vmem st) elf
    then entry = e_entry (vmem st) elf \<and> vmm_wf st' \<and> map_keeps st st' \<and>
      (\<forall>i < unat (e_phnum (vmem st) elf). p_type (vmem st) (ph_at (vmem st) elf i) = PT_LOAD \<longrightarrow>
         seg_loaded (vmem st) elf (ph_at (vmem st) elf i) st') \<and>
      (\<forall>w. (\<forall>i < unat (e_phnum (vmem st) elf). \<forall>va \<in> set (ph_pages (vmem st) (ph_at (vmem st) elf i)). \<not> same_page va w) \<longrightarrow>
         vmm_get_phys w st' = vmm_get_phys w st)
    else entry = 0 \<and> st' = st"
proof (cases "elf_magic (vmem st) elf")
  case True
  note o = user_load_elf_ok [OF assms(1-3) True assms(4)]
  show ?thesis using True o(1-3,5,6) by auto
next
  case False
  then show ?thesis using assms(4) by (auto simp: user_load_elf_def elf_magic_def e_ident_def)
qed

section \<open>The stack\<close>

lemma stack_pages_ok:
  assumes "vmm_wf st" and "4 * length vas \<le> card (vfree st)" and "distinct vas"
    and "\<forall>a \<in> set vas. \<forall>b \<in> set vas. same_page a b \<longrightarrow> a = b"
  shows "\<exists>F. pages_loaded vas F st (fold stack_page vas st)" and "card (vfree st) \<le> 4 * length vas + card (vfree (fold stack_page vas st))"
proof -
  have e: "for_ok load_page vas st = (True, fold stack_page vas st)" using assms(1,2)
  proof (induction vas arbitrary: st)
    case (Cons va vas)
    obtain b st1 where l: "load_page va st = (b, st1)" by fastforce
    have "4 \<le> card (vfree st)" using Cons.prems(2) by simp
    from load_page_ok [OF Cons.prems(1) this l] have 1: "b" "vmm_wf st1" "card (vfree st) \<le> 4 + card (vfree st1)" by blast+
    have "stack_page va st = st1" using l 1(1) by (auto simp: load_page_def stack_page_def Let_def split: prod.splits if_splits)
    moreover have "4 * length vas \<le> card (vfree st1)" using Cons.prems(2) 1(3) by simp
    ultimately show ?case using Cons.IH [OF 1(2)] l 1(1) by simp
  qed simp
  show "\<exists>F. pages_loaded vas F st (fold stack_page vas st)" and "card (vfree st) \<le> 4 * length vas + card (vfree (fold stack_page vas st))"
    using load_pages_ok [OF assms e] by blast+
qed

text \<open>A program and a stack that shares no page with it: the segments read as the image has them and the stack is zero.\<close>

definition program_ready :: "mem \<Rightarrow> u64 \<Rightarrow> u64 \<Rightarrow> u64 \<Rightarrow> vmm \<Rightarrow> bool" where
  "program_ready m elf base sz st \<longleftrightarrow>
     (\<forall>i < unat (e_phnum m elf). p_type m (ph_at m elf i) = PT_LOAD \<longrightarrow> seg_loaded m elf (ph_at m elf i) st) \<and>
     (\<forall>j < unat sz. protected st (vmm_get_phys (base + of_nat j) st) \<and> uload (base + of_nat j) st = 0)"

definition program_fits :: "mem \<Rightarrow> u64 \<Rightarrow> u64 \<Rightarrow> u64 \<Rightarrow> nat \<Rightarrow> vmm \<Rightarrow> bool" where
  "program_fits m elf base sz spare st \<longleftrightarrow> vmm_wf st \<and> m = vmem st \<and> hdr_ok st elf \<and> elf_magic m elf \<and>
     segs_ok st elf [0..<unat (e_phnum m elf)] \<and>
     4 * (\<Sum>i\<leftarrow>[0..<unat (e_phnum m elf)]. length (ph_pages m (ph_at m elf i))) + (4 * length (seg_pages base sz) + spare) \<le> card (vfree st) \<and>
     (\<forall>i < unat (e_phnum m elf). \<forall>a \<in> set (ph_pages m (ph_at m elf i)). \<forall>b \<in> set (seg_pages base sz). \<not> same_page a b)"

lemma load_with_stack:
  assumes ok: "program_fits m elf base sz spare st" and fit: "seg_fits base sz" and pg: "page_range base (base + sz) = seg_pages base sz"
    and l: "user_load_elf elf st = (entry, v1)"
  shows "entry = e_entry m elf" and "vmm_wf (user_setup_stack_at base sz v1)" and "program_ready m elf base sz (user_setup_stack_at base sz v1)"
    and "spare \<le> card (vfree (user_setup_stack_at base sz v1))"
proof -
  let ?vas = "seg_pages base sz" and ?n = "unat (e_phnum m elf)" and ?v2 = "user_setup_stack_at base sz v1"
  have a: "vmm_wf st" "hdr_ok st elf" "segs_ok st elf [0..<?n]" "elf_magic m elf" and m: "m = vmem st"
    and c: "4 * (\<Sum>i\<leftarrow>[0..<?n]. length (ph_pages m (ph_at m elf i))) + (4 * length ?vas + spare) \<le> card (vfree st)"
    and ap: "\<forall>i < ?n. \<forall>a \<in> set (ph_pages m (ph_at m elf i)). \<forall>b \<in> set ?vas. \<not> same_page a b"
    using ok unfolding program_fits_def by blast+
  note o = user_load_elf_ok [OF a(1,2) a(3) [unfolded m] a(4) [unfolded m] l, folded m]
  note sp = seg_pages_facts [OF fit]
  have v2: "?v2 = fold stack_page ?vas v1" by (simp add: user_setup_stack_at_def pg)
  have c1: "4 * length ?vas \<le> card (vfree v1)" using o(4) c by linarith
  note st = stack_pages_ok [OF o(2) c1 sp(1,3)]
  obtain F where F: "pages_loaded ?vas F v1 ?v2" using st(1) unfolding v2 by blast
  have kp: "map_keeps v1 ?v2" using F by (simp add: pages_loaded_def)
  have segs: "seg_loaded m elf (ph_at m elf i) ?v2" if i: "i < ?n" "p_type m (ph_at m elf i) = PT_LOAD" for i
  proof (rule seg_loaded_later [OF kp o(5) [OF i] i(2)])
    show "seg_fits (p_vaddr m (ph_at m elf i)) (p_memsz m (ph_at m elf i))"
      using a(3) i unfolding segs_ok_def seg_ok_def m by simp
    fix va w
    assume v: "va \<in> set (ph_pages m (ph_at m elf i))" "same_page va w"
    have "\<forall>b \<in> set ?vas. \<not> same_page b w" using ap i(1) v unfolding same_page_def by metis
    then show "vmm_get_phys w ?v2 = vmm_get_phys w v1" using F by (simp add: pages_loaded_def)
  qed
  have stack: "protected ?v2 (vmm_get_phys (base + of_nat j) ?v2) \<and> uload (base + of_nat j) ?v2 = 0" if j: "j < unat sz" for j
  proof -
    from segment_frame [OF fit F j] obtain va where
      "in_page (F va) (vmm_get_phys (base + of_nat j) ?v2)" "page_aligned (F va)" "F va \<notin> tables ?v2" "F va \<notin> vfree ?v2"
      "vmem ?v2 (vmm_get_phys (base + of_nat j) ?v2) = 0" by metis
    then show ?thesis unfolding protected_def uload_def by blast
  qed
  show "entry = e_entry m elf" by (rule o(1))
  show "vmm_wf ?v2" using F by (simp add: pages_loaded_def)
  show "program_ready m elf base sz ?v2" using segs stack by (simp add: program_ready_def)
  show "spare \<le> card (vfree ?v2)" using st(2) o(4) c unfolding v2 by linarith
qed

text \<open>The same bytes through a shallow clone of the page table.\<close>

lemma fold_copy_other:
  assumes "page_aligned p" and "page_aligned t" and "p \<noteq> t" and "in_page p a" and "\<forall>i \<in> set ks. i < 512"
  shows "fold (\<lambda>i m. pt_set t i (f m i) m) ks m a = m a"
  using assms(5)
proof (induction ks arbitrary: m)
  case (Cons i ks)
  then show ?case using pt_set_other [OF assms(1-4), of i] by simp
qed simp

lemma clone_reads:
  assumes wf: "vmm_wf st" and call: "vmm_clone_pml4 st = (new, st')" and new: "new \<noteq> 0" and pr: "protected st (vmm_get_phys w st)"
  shows "uload w (st'\<lparr>cr3 := new\<rparr>) = uload w st"
proof -
  let ?r = "vmm_current_pml4 st"
  obtain fr' where al: "pmm_alloc_page (frames st) = (new, fr')"
    and st': "st' = st\<lparr>frames := fr', vmem := fold (\<lambda>i m. pt_set new i (pt_get m ?r i) m) slots (vmem st)\<rparr>"
    using call new by (auto simp: vmm_clone_pml4_def Let_def vmm_current_pml4_def split: prod.splits if_splits)
  have "pmm_inv (frames st)" using wf by (simp add: vmm_wf_def)
  note fr = alloc_frame [OF this al new]
  have walk: "walk_from (vmem st') new w = vmm_get_phys w st" using clone_ok [OF wf call new, of w] by blast
  have "new AND ADDR_MASK = new" using aligned_and [OF fr(1,2)] .
  then have g: "vmm_get_phys w (st'\<lparr>cr3 := new\<rparr>) = vmm_get_phys w st" using walk by (simp add: vmm_get_phys_def)
  obtain p where p: "page_aligned p" "p \<notin> vfree st" "in_page p (vmm_get_phys w st)" using pr by (auto simp: protected_def)
  then have "p \<noteq> new" using fr(3) by (auto simp: vfree_def)
  then have "vmem st' (vmm_get_phys w st) = vmem st (vmm_get_phys w st)"
    using fold_copy_other [OF p(1) fr(1) _ p(3), of slots "\<lambda>m i. pt_get m ?r i"] by (simp add: st' set_slots)
  then show ?thesis using g by (simp add: uload_def)
qed

lemma clone_free: "vmm_wf st \<Longrightarrow> 0 < card (vfree st) \<Longrightarrow> fst (vmm_clone_pml4 st) \<noteq> 0"
proof -
  assume wf: "vmm_wf st" and c: "0 < card (vfree st)"
  have "pmm_inv (frames st)" using wf by (simp add: vmm_wf_def)
  note none = alloc_none(2) [OF this]
  have "vfree st \<noteq> {}" using c by auto
  then show ?thesis using none by (auto simp: vmm_clone_pml4_def Let_def vfree_def split: prod.splits if_splits)
qed

text \<open>A program of one segment with four bytes of contents at \<open>0x400000\<close>, sixteen in memory.\<close>

definition demo_image :: "u8 list" where
  "demo_image = [0x7F, 0x45, 0x4C, 0x46] @ replicate 20 0 @ le_bytes 8 (0x400000 :: u64) @ le_bytes 8 (64 :: u64) @ replicate 14 0 @ [56, 0, 1, 0] @ replicate 6 0 @
     [1, 0, 0, 0, 0, 0, 0, 0] @ le_bytes 8 (120 :: u64) @ le_bytes 8 (0x400000 :: u64) @ replicate 8 0 @ le_bytes 8 (4 :: u64) @ le_bytes 8 (16 :: u64) @ replicate 8 0 @ [11, 22, 33, 44]"

definition demo_frames :: pmm where
  "demo_frames = \<lparr>bitmap = (\<lambda>_. 0)(0 := 1), total_pages = 32, used_pages = 1, search_hint = 1\<rparr>"

definition demo_blank :: vmm where
  "demo_blank = demo_vmm\<lparr>frames := demo_frames\<rparr>"

definition demo_elf :: vmm where
  "demo_elf = demo_blank\<lparr>vmem := \<lambda>a. if unat (a - 0x200000) < length demo_image then demo_image ! unat (a - 0x200000) else 0\<rparr>"

lemma demo_frames_bit: "bitmap_test (bitmap demo_frames) p \<longleftrightarrow> p = 0"
proof
  assume "bitmap_test (bitmap demo_frames) p"
  then have b: "bit (((\<lambda>_. 0)(0 := 1 :: u8)) (drop_bit 3 p)) (unat p mod 8)" by (simp add: bitmap_test_bit demo_frames_def)
  have "drop_bit 3 p = drop_bit 3 (0 :: u64) \<and> unat p mod 8 = unat (0 :: u64) mod 8"
    using b by (cases "drop_bit 3 p = 0") (simp_all add: bit_1_iff)
  then show "p = 0" unfolding page_split .
qed (simp add: bitmap_test_bit demo_frames_def)

lemma demo_frames_used: "pmm_used demo_frames = {0}"
proof -
  have "total_pages demo_frames = 32" by (simp add: demo_frames_def)
  then show ?thesis by (auto simp: pmm_used_def demo_frames_bit)
qed

lemma demo_frames_inv: "pmm_inv demo_frames"
proof -
  have "bitmap_test (bitmap demo_frames) 0" using demo_frames_used by (auto simp: pmm_used_def)
  then show ?thesis using demo_frames_used by (simp add: pmm_inv_def pmm_count_ok_def) (simp add: demo_frames_def)
qed

lemma demo_frames_free: "card (free_frames demo_frames) = 31"
  using card_free_pages [OF demo_frames_inv] by (simp add: free_frames_def pmm_free_pages_def demo_frames_def)

lemma demo_frames_low: "a \<in> free_frames demo_frames \<Longrightarrow> unat a < 131072"
proof -
  assume "a \<in> free_frames demo_frames"
  then obtain p :: u64 where p: "p < 32" "a = p * 4096"
    by (auto simp: free_frames_def pmm_pages_def page_addr_def PAGE_SIZE_def demo_frames_def)
  then have "unat (p * 4096) = unat p * 4096" by (simp add: word_less_nat_alt unat_mult_small)
  then show ?thesis using p by (simp add: word_less_nat_alt)
qed

lemma demo_blank_wf: "vmm_wf demo_blank" and demo_blank_tables: "tables demo_blank = {0x100000}"
proof -
  have r: "vmm_current_pml4 demo_blank = 0x100000" by (simp add: vmm_current_pml4_def demo_blank_def demo_vmm_def ADDR_MASK_def)
  have "0x100000 \<notin> free_frames demo_frames" using demo_frames_low [of "0x100000"] by auto
  then show "vmm_wf demo_blank"
    unfolding vmm_wf_def pt_wf_def r using demo_frames_inv
    by (simp add: demo_blank_def demo_vmm_def demo_tab_Some demo_tab page_aligned_def del: tab.simps(2))
  show "tables demo_blank = {0x100000}" unfolding tables_def r by (auto simp: demo_blank_def demo_vmm_def demo_tab_Some simp del: tab.simps(2))
qed

lemma demo_image_length: "length demo_image = 124"
  by (simp add: demo_image_def)

lemma demo_elf_facts: "vmm_wf demo_elf" "tables demo_elf = {0x100000}" "vfree demo_elf = free_frames demo_frames"
  "k < 124 \<Longrightarrow> vmem demo_elf (0x200000 + of_nat k) = demo_image ! k" "k < 4096 \<Longrightarrow> protected demo_elf (0x200000 + of_nat k)"
proof -
  have al: "page_aligned 0x200000" by (simp add: page_aligned_def)
  have o: "vmem demo_elf a = vmem demo_blank a" if "\<not> in_page 0x200000 a" for a
    using that by (simp add: demo_elf_def demo_blank_def demo_vmm_def in_page_def demo_image_length)
  have nt: "0x200000 \<notin> tables demo_blank" by (simp add: demo_blank_tables)
  have cf: "cr3 demo_elf = cr3 demo_blank" "frames demo_elf = frames demo_blank" by (simp_all add: demo_elf_def)
  note s = store_outside [OF demo_blank_wf al nt cf o]
  show "vmm_wf demo_elf" by (rule s, assumption)
  show t: "tables demo_elf = {0x100000}" unfolding demo_blank_tables [symmetric] by (rule s, assumption)
  show f: "vfree demo_elf = free_frames demo_frames" by (simp add: vfree_def cf demo_blank_def)
  show "vmem demo_elf (0x200000 + of_nat k) = demo_image ! k" if "k < 124"
    using that by (simp add: demo_elf_def demo_image_length unat_of_nat_64)
  show "protected demo_elf (0x200000 + of_nat k)" if "k < 4096"
    unfolding protected_def t f using that demo_frames_low [of "0x200000"] al
    by (intro exI [of _ "0x200000"]) (auto simp: in_page_def unat_of_nat_64)
qed

lemma demo_elf_bytes: "k + n \<le> 124 \<Longrightarrow> rd_bytes (vmem demo_elf) (0x200000 + of_nat k) n = take n (drop k demo_image)"
proof -
  assume kn: "k + n \<le> 124"
  have "vmem demo_elf (0x200000 + of_nat k + of_nat i) = demo_image ! (k + i)" if "i < n" for i
    using demo_elf_facts(4) [of "k + i"] that kn by (simp add: add.assoc)
  then show ?thesis using kn by (intro nth_equalityI) (simp_all add: rd_bytes_def demo_image_length)
qed

lemma demo_elf_fields: "elf_magic (vmem demo_elf) 0x200000" "e_entry (vmem demo_elf) 0x200000 = 0x400000" "e_phoff (vmem demo_elf) 0x200000 = 64"
  "e_phentsize (vmem demo_elf) 0x200000 = 56" "e_phnum (vmem demo_elf) 0x200000 = 1"
  "p_type (vmem demo_elf) 0x200040 = PT_LOAD" "p_offset (vmem demo_elf) 0x200040 = 120" "p_vaddr (vmem demo_elf) 0x200040 = 0x400000"
  "p_filesz (vmem demo_elf) 0x200040 = 4" "p_memsz (vmem demo_elf) 0x200040 = 16"
proof -
  note b = demo_elf_facts(4) demo_elf_bytes
  show "elf_magic (vmem demo_elf) 0x200000" using b(1) [of 0] b(1) [of 1] b(1) [of 2] b(1) [of 3] by (simp add: elf_magic_def demo_image_def)
  show "e_entry (vmem demo_elf) 0x200000 = 0x400000" using b(2) [of 24 8] by (simp add: e_entry_def rd64_def demo_image_def le_word_bytes_all)
  show "e_phoff (vmem demo_elf) 0x200000 = 64" using b(2) [of 32 8] by (simp add: e_phoff_def rd64_def demo_image_def le_word_bytes_all)
  show "e_phentsize (vmem demo_elf) 0x200000 = 56" using b(2) [of 54 2] by (simp add: e_phentsize_def rd16_def demo_image_def)
  show "e_phnum (vmem demo_elf) 0x200000 = 1" using b(2) [of 56 2] by (simp add: e_phnum_def rd16_def demo_image_def)
  show "p_type (vmem demo_elf) 0x200040 = PT_LOAD" using b(2) [of 64 4] by (simp add: p_type_def rd32_def demo_image_def PT_LOAD_def)
  show "p_offset (vmem demo_elf) 0x200040 = 120" using b(2) [of 72 8] by (simp add: p_offset_def rd64_def demo_image_def le_word_bytes_all)
  show "p_vaddr (vmem demo_elf) 0x200040 = 0x400000" using b(2) [of 80 8] by (simp add: p_vaddr_def rd64_def demo_image_def le_word_bytes_all)
  show "p_filesz (vmem demo_elf) 0x200040 = 4" using b(2) [of 96 8] by (simp add: p_filesz_def rd64_def demo_image_def le_word_bytes_all)
  show "p_memsz (vmem demo_elf) 0x200040 = 16" using b(2) [of 104 8] by (simp add: p_memsz_def rd64_def demo_image_def le_word_bytes_all)
qed

lemma demo_elf_ok: "hdr_ok demo_elf 0x200000" "ph_at (vmem demo_elf) 0x200000 0 = 0x200040"
  "length (ph_pages (vmem demo_elf) 0x200040) = 1" "segs_ok demo_elf 0x200000 [0..<1]" "ph_pages (vmem demo_elf) 0x200040 = [0x400000]"
proof -
  note f = demo_elf_fields and d = demo_elf_facts
  show ph: "ph_at (vmem demo_elf) 0x200000 0 = 0x200040" by (simp add: ph_at_def f)
  show "hdr_ok demo_elf 0x200000" using d(5) by (simp add: hdr_ok_def)
  have pr: "protected demo_elf (0x200040 + of_nat j)" if "j < 56" for j using d(5) [of "64 + j"] that by (simp add: add.assoc [symmetric])
  have pd: "protected demo_elf (0x200078 + of_nat j)" if "j < 4" for j using d(5) [of "120 + j"] that by (simp add: add.assoc [symmetric])
  show pg: "length (ph_pages (vmem demo_elf) 0x200040) = 1" "ph_pages (vmem demo_elf) 0x200040 = [0x400000]"
    by (simp_all add: ph_pages_def f seg_pages_def page_range_def PAGE_SIZE_def)
  have s: "seg_ok demo_elf 0x200000 0x200040" using pr pd by (simp add: seg_ok_def f seg_fits_def)
  show "segs_ok demo_elf 0x200000 [0..<1]" using s pg by (simp add: segs_ok_def ph d(3) demo_frames_free)
qed

theorem user_load_elf_correct_witness:
  "fst (user_load_elf 0x200000 demo_elf) = 0x400000 \<and> uload 0x400001 (snd (user_load_elf 0x200000 demo_elf)) = 22 \<and>
   uload 0x400005 (snd (user_load_elf 0x200000 demo_elf)) = 0"
proof -
  obtain entry st' where l: "user_load_elf 0x200000 demo_elf = (entry, st')" by fastforce
  note f = demo_elf_fields and d = demo_elf_facts
  have n: "unat (e_phnum (vmem demo_elf) 0x200000) = 1" by (simp add: f)
  note t = user_load_elf_correct [OF d(1) demo_elf_ok(1) _ l, unfolded n, OF demo_elf_ok(4)]
  have e: "entry = 0x400000" and sl: "seg_loaded (vmem demo_elf) 0x200000 0x200040 st'" using t f demo_elf_ok(2) by simp_all
  have "uload 0x400001 st' = vmem demo_elf 0x200079" "uload 0x400005 st' = 0"
    using sl [unfolded seg_loaded_def f, rule_format, of 1] sl [unfolded seg_loaded_def f, rule_format, of 5] by simp_all
  moreover have "vmem demo_elf 0x200079 = 22" using d(4) [of 121] by (simp add: demo_image_def nth_append)
  ultimately show ?thesis using l e by simp
qed

end
