(* ===== verification/Syscall.thy ===== *)
theory Syscall
  imports Task Sem Keyboard Fat16 File_Table Persist Fb_Term Elf
begin

text \<open>
  The system calls, \<open>kernel/arch/syscall.c\<close> with \<open>fs/apps.c\<close>, \<open>kernel_spawn_child\<close> of \<open>main.c\<close> and the return path of
  \<open>syscall_entry.S\<close>.  The record \<open>kernel\<close> puts the states of the components together: there is one kernel heap,
  that of the scheduler, which the file operations borrow (\<open>files_of\<close>, \<open>put_files\<close>), and one physical memory, that of
  the virtual memory manager, which holds the user buffers (through the current page tables) and the
  pixels of the screen.  Debug output of the kernel is not modelled; \<open>k_serial\<close> is what \<open>SYS_WRITE\<close> sends to
  the serial port.
\<close>

section \<open>State\<close>

text \<open>What the code takes from outside the C files: the screen, the disk, assembly labels and the program images the linker adds.\<close>

record 'd platform =
  pl_fbi :: fb_info
  pl_disk :: "'d disk_ops"
  fork_child_entry :: u64
  child_task_entry :: u64
  elf_images :: "u64 list"

record 'd kernel =
  k_sched :: sched
  k_files :: files
  k_sems :: "ksem list"
  k_kbd :: kbd
  k_term :: fb_term
  k_cursor :: cursor
  k_fat :: fat16
  k_disk :: 'd
  k_serial :: "u8 list"
  spawn_used :: bool
  user_return_rip :: u64
  user_return_rsp :: u64

text \<open>How a call ends.  \<open>Waits buf n want k\<close>: \<open>SYS_READ\<close> of \<open>want\<close> bytes halts until an interrupt, with \<open>n\<close> of them still
  to be stored from \<open>buf\<close> on.
  \<open>Exits\<close>: the caller is dead and another task runs; \<open>Halts\<close>: the machine stands still.  A call after which another task is
  current returns its value to its caller when that task runs again.\<close>

datatype 'd outcome =
  Returns u64 "'d kernel" | Waits u64 nat u64 "'d kernel" | Exits "'d kernel" | Halts "'d kernel"

definition files_of :: "'d kernel \<Rightarrow> files" where
  "files_of k = (k_files k)\<lparr>fl_fs := (fl_fs (k_files k))\<lparr>r_heap := s_heap (k_sched k)\<rparr>\<rparr>"

definition put_files :: "files \<Rightarrow> 'd kernel \<Rightarrow> 'd kernel" where
  "put_files f k = k\<lparr>k_files := f, k_sched := (k_sched k)\<lparr>s_heap := r_heap (fl_fs f)\<rparr>\<rparr>"

definition fs_of :: "'d kernel \<Rightarrow> ramfs" where
  "fs_of k = fl_fs (files_of k)"

definition put_fs :: "ramfs \<Rightarrow> 'd kernel \<Rightarrow> 'd kernel" where
  "put_fs fs k = put_files ((k_files k)\<lparr>fl_fs := fs\<rparr>) k"

definition put_sched :: "sched \<Rightarrow> 'd kernel \<Rightarrow> 'd kernel" where
  "put_sched s k = k\<lparr>k_sched := s\<rparr>"

definition put_vmm :: "vmm \<Rightarrow> 'd kernel \<Rightarrow> 'd kernel" where
  "put_vmm v k = k\<lparr>k_sched := (k_sched k)\<lparr>s_vmm := v\<rparr>\<rparr>"

definition vmm_of :: "'d kernel \<Rightarrow> vmm" where
  "vmm_of k = s_vmm (k_sched k)"

definition upd_current :: "(task \<Rightarrow> task) \<Rightarrow> 'd kernel \<Rightarrow> 'd kernel" where
  "upd_current f k = put_sched (upd_task (current (k_sched k)) f (k_sched k)) k"

definition cur_task :: "'d kernel \<Rightarrow> task" where
  "cur_task k = tcb (k_sched k) (current (k_sched k))"

section \<open>User memory\<close>

definition ubytes :: "u64 \<Rightarrow> nat \<Rightarrow> 'd kernel \<Rightarrow> u8 list" where
  "ubytes a n k = map (\<lambda>i. uload (a + of_nat i) (vmm_of k)) [0..<n]"

partial_function (option) ustr_from :: "vmm \<Rightarrow> u64 \<Rightarrow> u8 list option" where
  "ustr_from v a = (if uload a v = 0 then Some [] else do { s \<leftarrow> ustr_from v (a + 1); Some (uload a v # s) })"

definition ustr :: "u64 \<Rightarrow> 'd kernel \<Rightarrow> u8 list option" where
  "ustr a k = ustr_from (vmm_of k) a"

fun ustores :: "u64 \<Rightarrow> u8 list \<Rightarrow> vmm \<Rightarrow> vmm" where
  "ustores a [] v = v"
| "ustores a (b # bs) v = ustores (a + 1) bs (ustore a b v)"

definition uput :: "u64 \<Rightarrow> u8 list \<Rightarrow> 'd kernel \<Rightarrow> 'd kernel" where
  "uput a bs k = put_vmm (ustores a bs (vmm_of k)) k"

text \<open>\<open>(int)a\<close> of a register and \<open>(uint64_t)(int64_t)r\<close> of a result.\<close>

definition arg_int :: "u64 \<Rightarrow> int" where
  "arg_int a = sint (ucast a :: u32)"

definition ret_int :: "int \<Rightarrow> u64" where
  "ret_int r = word_of_int r"

section \<open>Call numbers\<close>

definition SYS_WRITE :: u64 where "SYS_WRITE = 1"
definition SYS_EXIT :: u64 where "SYS_EXIT = 2"
definition SYS_READ :: u64 where "SYS_READ = 3"
definition SYS_OPEN :: u64 where "SYS_OPEN = 4"
definition SYS_CLOSE :: u64 where "SYS_CLOSE = 5"
definition SYS_FREAD :: u64 where "SYS_FREAD = 6"
definition SYS_FWRITE :: u64 where "SYS_FWRITE = 7"
definition SYS_LS :: u64 where "SYS_LS = 8"
definition SYS_UNLINK :: u64 where "SYS_UNLINK = 9"
definition SYS_SYNC :: u64 where "SYS_SYNC = 10"
definition SYS_SLEEP :: u64 where "SYS_SLEEP = 11"
definition SYS_MKDIR :: u64 where "SYS_MKDIR = 12"
definition SYS_CHDIR :: u64 where "SYS_CHDIR = 13"
definition SYS_GETCWD :: u64 where "SYS_GETCWD = 14"
definition SYS_OPENDIR :: u64 where "SYS_OPENDIR = 15"
definition SYS_READDIR :: u64 where "SYS_READDIR = 16"
definition SYS_SPAWN :: u64 where "SYS_SPAWN = 17"
definition SYS_SEM_WAIT :: u64 where "SYS_SEM_WAIT = 18"
definition SYS_SEM_POST :: u64 where "SYS_SEM_POST = 19"
definition SYS_EXEC :: u64 where "SYS_EXEC = 20"
definition SYS_FORK :: u64 where "SYS_FORK = 21"
definition SYS_FAT_LS :: u64 where "SYS_FAT_LS = 22"
definition SYS_FAT_READ :: u64 where "SYS_FAT_READ = 23"
definition SYS_FAT_WRITE :: u64 where "SYS_FAT_WRITE = 24"
definition SYS_FAT_DELETE :: u64 where "SYS_FAT_DELETE = 25"
definition SYS_SET_FG :: u64 where "SYS_SET_FG = 26"
definition SYS_WAIT :: u64 where "SYS_WAIT = 27"
definition SYS_SYSINFO :: u64 where "SYS_SYSINFO = 28"
definition SYS_PS :: u64 where "SYS_PS = 29"
definition SYS_KILL :: u64 where "SYS_KILL = 30"
definition SYS_REDIR :: u64 where "SYS_REDIR = 31"

lemmas sys_numbers = SYS_WRITE_def SYS_EXIT_def SYS_READ_def SYS_OPEN_def SYS_CLOSE_def SYS_FREAD_def SYS_FWRITE_def SYS_LS_def
  SYS_UNLINK_def SYS_SYNC_def SYS_SLEEP_def SYS_MKDIR_def SYS_CHDIR_def SYS_GETCWD_def SYS_OPENDIR_def SYS_READDIR_def
  SYS_SPAWN_def SYS_SEM_WAIT_def SYS_SEM_POST_def SYS_EXEC_def SYS_FORK_def SYS_FAT_LS_def SYS_FAT_READ_def SYS_FAT_WRITE_def
  SYS_FAT_DELETE_def SYS_SET_FG_def SYS_WAIT_def SYS_SYSINFO_def SYS_PS_def SYS_KILL_def SYS_REDIR_def

section \<open>Console\<close>

text \<open>\<open>serial_putc(buf[i]); fb_term_putc(buf[i]);\<close>\<close>

definition console_putc :: "'d platform \<Rightarrow> u8 \<Rightarrow> 'd kernel \<Rightarrow> 'd kernel" where
  "console_putc P c k =
     (case fb_term_putc (pl_fbi P) c (k_term k, k_cursor k, vmem (vmm_of k)) of
        (t, cu, m) \<Rightarrow> put_vmm ((vmm_of k)\<lparr>vmem := m\<rparr>) (k\<lparr>k_serial := k_serial k @ [c], k_term := t, k_cursor := cu\<rparr>))"

text \<open>The loop reads each character when its turn comes.\<close>

fun console_write :: "'d platform \<Rightarrow> u64 \<Rightarrow> nat \<Rightarrow> 'd kernel \<Rightarrow> 'd kernel" where
  "console_write P buf 0 k = k"
| "console_write P buf (Suc n) k = console_write P (buf + 1) n (console_putc P (uload buf (vmm_of k)) k)"

definition do_write :: "'d platform \<Rightarrow> u64 \<Rightarrow> u64 \<Rightarrow> 'd kernel \<Rightarrow> 'd outcome option" where
  "do_write P buf n k =
     (if current (k_sched k) \<noteq> 0 \<and> t_stdout_node (cur_task k) \<noteq> 0 then do {
        (r, fs) \<leftarrow> ramfs_write (t_stdout_node (cur_task k)) (ubytes buf (unat n) k) (t_stdout_pos (cur_task k)) (fs_of k);
        Some (Returns n (upd_current (\<lambda>t. t\<lparr>t_stdout_pos := t_stdout_pos t + n\<rparr>) (put_fs fs k)))
      }
      else Some (Returns n (console_write P buf (unat n) k)))"

text \<open>The keyboard loop of \<open>SYS_READ\<close>; run again after an interrupt it goes on where it was.\<close>

fun read_keys :: "u64 \<Rightarrow> nat \<Rightarrow> u64 \<Rightarrow> 'd kernel \<Rightarrow> 'd outcome" where
  "read_keys buf 0 want k = Returns want k"
| "read_keys buf (Suc n) want k =
     (case keyboard_getchar_nonblock (k_kbd k) of
        (c, kb) \<Rightarrow>
          if c < 0 then Waits buf (Suc n) want (k\<lparr>k_kbd := kb\<rparr>)
          else read_keys (buf + 1) n want (uput buf [word_of_int c] (k\<lparr>k_kbd := kb\<rparr>)))"

definition do_read :: "u64 \<Rightarrow> u64 \<Rightarrow> 'd kernel \<Rightarrow> 'd outcome option" where
  "do_read buf n k =
     (if current (k_sched k) \<noteq> 0 \<and> t_stdin_node (cur_task k) \<noteq> 0 then
        (case ramfs_read (t_stdin_node (cur_task k)) n (t_stdin_pos (cur_task k)) (fs_of k) of
           (r, bs) \<Rightarrow>
             let k = uput buf bs k;
                 k = (if 0 < r then upd_current (\<lambda>t. t\<lparr>t_stdin_pos := t_stdin_pos t + word_of_int r\<rparr>) k else k)
             in Some (Returns (if 0 < r then word_of_int r else 0) k))
      else if foreground (k_sched k) \<noteq> 0 \<and> current (k_sched k) \<noteq> foreground (k_sched k) then
        map_option (\<lambda>s. Returns 0 (put_sched s k)) (task_sleep 50 (k_sched k))
      else Some (read_keys buf (unat n) n k))"

section \<open>Leaving\<close>

partial_function (option) drain_keys :: "kbd \<Rightarrow> kbd option" where
  "drain_keys kb = (case keyboard_getchar_nonblock kb of (c, kb) \<Rightarrow> if 0 \<le> c then drain_keys kb else Some kb)"

definition do_sync :: "'d platform \<Rightarrow> 'd kernel \<Rightarrow> (int \<times> 'd kernel) option" where
  "do_sync P k = do {
     (r, fs, d) \<leftarrow> persist_save (pl_disk P) (fs_of k) (k_disk k);
     Some (r, (put_fs fs k)\<lparr>k_disk := d\<rparr>)
   }"

definition do_exit :: "'d platform \<Rightarrow> 'd kernel \<Rightarrow> 'd outcome option" where
  "do_exit P k = do {
     let me = current (k_sched k);
     let s = k_sched k;
     let s = (if me \<noteq> 0 \<and> t_parent (tcb s me) \<noteq> 0 then task_set_foreground (t_parent (tcb s me)) s else s);
     s \<leftarrow> task_signal_child_exit (task_child_dec s);
     kb \<leftarrow> drain_keys (k_kbd k);
     (r, k) \<leftarrow> do_sync P (put_sched s k\<lparr>k_kbd := kb\<rparr>);
     if me \<noteq> 0 \<and> t_id (cur_task k) = 1 then Some (Halts k)
     else do {
       let k = (if me \<noteq> 0 then upd_current (\<lambda>t. t\<lparr>t_state := TASK_DEAD\<rparr>) k else k);
       s \<leftarrow> schedule (k_sched k);
       Some (if current s = me then Halts (put_sched s k) else Exits (put_sched s k))
     }
   }"

section \<open>Files and directories\<close>

definition do_open :: "u64 \<Rightarrow> 'd kernel \<Rightarrow> 'd outcome option" where
  "do_open name k = do {
     s \<leftarrow> ustr name k;
     (r, f) \<leftarrow> file_open s (files_of k);
     Some (Returns (ret_int r) (put_files f k))
   }"

definition do_close :: "u64 \<Rightarrow> 'd kernel \<Rightarrow> 'd outcome option" where
  "do_close fd k = (case file_close (arg_int fd) (files_of k) of (r, f) \<Rightarrow> Some (Returns (ret_int r) (put_files f k)))"

definition do_fread :: "u64 \<Rightarrow> u64 \<Rightarrow> u64 \<Rightarrow> 'd kernel \<Rightarrow> 'd outcome option" where
  "do_fread fd buf n k =
     (case file_read (arg_int fd) n (files_of k) of (r, bs, f) \<Rightarrow> Some (Returns (ret_int r) (uput buf bs (put_files f k))))"

definition do_fwrite :: "u64 \<Rightarrow> u64 \<Rightarrow> u64 \<Rightarrow> 'd kernel \<Rightarrow> 'd outcome option" where
  "do_fwrite fd buf n k = do {
     (r, f) \<leftarrow> file_write (arg_int fd) (ubytes buf (unat n) k) (files_of k);
     Some (Returns (ret_int r) (put_files f k))
   }"

definition do_unlink :: "u64 \<Rightarrow> 'd kernel \<Rightarrow> 'd outcome option" where
  "do_unlink name k = do {
     s \<leftarrow> ustr name k;
     n \<leftarrow> ramfs_lookup s (fs_of k);
     if n = 0 then Some (Returns (ret_int (- 1)) k)
     else do {
       (r, fs) \<leftarrow> ramfs_unlink_node n (fs_of k);
       Some (Returns (ret_int r) (put_fs fs k))
     }
   }"

partial_function (option) ls_loop :: "(u64 \<Rightarrow> rnode) \<Rightarrow> u64 \<Rightarrow> u64 \<Rightarrow> u8 list \<Rightarrow> u8 list option" where
  "ls_loop R mx c out =
     (if c = 0 then Some out
      else
        (let nm = n_name (R c);
             extra = (if n_type (R c) = NODE_DIR then 1 else 0) in
         if mx < of_nat (length out) + of_nat (length nm) + extra + 1 then Some out
         else ls_loop R mx (n_next (R c)) (out @ nm @ (if n_type (R c) = NODE_DIR then [47] else []) @ [10])))"

definition do_ls :: "u64 \<Rightarrow> u64 \<Rightarrow> 'd kernel \<Rightarrow> 'd outcome option" where
  "do_ls buf mx k = do {
     out \<leftarrow> ls_loop (rnodes (fs_of k)) mx (n_children (rnodes (fs_of k) (r_cwd (fs_of k)))) [];
     Some (Returns (of_nat (length out)) (uput buf out k))
   }"

definition do_mkdir :: "u64 \<Rightarrow> 'd kernel \<Rightarrow> 'd outcome option" where
  "do_mkdir p k = do {
     name \<leftarrow> ustr p k;
     let last_slash = slash_loop name 0 (- 1);
     let fs = fs_of k;
     let plen = (if 127 < last_slash then 127 else last_slash);
     parent \<leftarrow> (if 0 \<le> last_slash then (if plen = 0 then Some (r_root fs) else ramfs_lookup (take (nat plen) name) fs)
               else Some (r_cwd fs));
     let base = (if 0 \<le> last_slash then drop (nat last_slash + 1) name else name);
     if parent = 0 \<or> n_type (rnodes fs parent) \<noteq> NODE_DIR then Some (Returns (ret_int (- 1)) k)
     else do {
       (n, fs) \<leftarrow> ramfs_mkdir parent base fs;
       Some (Returns (if n \<noteq> 0 then 0 else ret_int (- 1)) (put_fs fs k))
     }
   }"

definition do_chdir :: "u64 \<Rightarrow> 'd kernel \<Rightarrow> 'd outcome option" where
  "do_chdir p k = do {
     s \<leftarrow> ustr p k;
     n \<leftarrow> ramfs_lookup s (fs_of k);
     Some (if n = 0 \<or> n_type (rnodes (fs_of k) n) \<noteq> NODE_DIR then Returns (ret_int (- 1)) k
           else Returns 0 (put_fs (ramfs_set_cwd n (fs_of k)) k))
   }"

definition do_getcwd :: "u64 \<Rightarrow> u64 \<Rightarrow> 'd kernel \<Rightarrow> 'd outcome option" where
  "do_getcwd buf mx k = do {
     s \<leftarrow> ramfs_get_path (fs_of k) (r_cwd (fs_of k)) (nat (arg_int mx));
     Some (Returns 0 (uput buf (s @ [0]) k))
   }"

definition do_opendir :: "u64 \<Rightarrow> 'd kernel \<Rightarrow> 'd outcome option" where
  "do_opendir p k = do {
     s \<leftarrow> ustr p k;
     (r, f) \<leftarrow> dir_open s (files_of k);
     Some (Returns (ret_int r) (put_files f k))
   }"

definition do_readdir :: "u64 \<Rightarrow> u64 \<Rightarrow> u64 \<Rightarrow> 'd kernel \<Rightarrow> 'd outcome option" where
  "do_readdir fd name mx k = do {
     (r, ent, f) \<leftarrow> dir_read (arg_int fd) (nat (arg_int mx)) (files_of k);
     let k = put_files f k;
     Some (Returns (ret_int r) (case ent of None \<Rightarrow> k | Some (s, ty) \<Rightarrow> uput name (s @ [0]) k))
   }"

definition do_redir :: "u64 \<Rightarrow> u64 \<Rightarrow> 'd kernel \<Rightarrow> 'd outcome option" where
  "do_redir which name k =
     (if current (k_sched k) = 0 then Some (Returns (- 1) k)
      else do {
        s \<leftarrow> ustr name k;
        (n, f) \<leftarrow> file_open_node s (files_of k);
        let k = put_files f k;
        if n = 0 then Some (Returns (- 1) k)
        else if arg_int which = 0 then Some (Returns 0 (upd_current (\<lambda>t. t\<lparr>t_stdin_node := n, t_stdin_pos := 0\<rparr>) k))
        else Some (Returns 0 (upd_current (\<lambda>t. t\<lparr>t_stdout_node := n, t_stdout_pos := 0\<rparr>)
               (put_fs (upd_node n (\<lambda>d. d\<lparr>n_size := 0\<rparr>) (fs_of k)) k)))
      })"

section \<open>FAT16\<close>

definition put_heap :: "kheap \<Rightarrow> 'd kernel \<Rightarrow> 'd kernel" where
  "put_heap h k = k\<lparr>k_sched := (k_sched k)\<lparr>s_heap := h\<rparr>\<rparr>"

definition do_fat_ls :: "'d platform \<Rightarrow> u64 \<Rightarrow> u64 \<Rightarrow> 'd kernel \<Rightarrow> 'd outcome option" where
  "do_fat_ls P buf mx k = do {
     (r, out, h, d) \<leftarrow> fat16_list_root (pl_disk P) (k_fat k) (arg_int mx) (s_heap (k_sched k), k_disk k);
     Some (Returns (ret_int r) (uput buf out (put_heap h k\<lparr>k_disk := d\<rparr>)))
   }"

definition do_fat_read :: "'d platform \<Rightarrow> u64 \<Rightarrow> u64 \<Rightarrow> u64 \<Rightarrow> 'd kernel \<Rightarrow> 'd outcome option" where
  "do_fat_read P name buf mx k = do {
     s \<leftarrow> ustr name k;
     (r, out, h, d) \<leftarrow> fat16_read_file (pl_disk P) (k_fat k) s (arg_int mx) (s_heap (k_sched k), k_disk k);
     Some (Returns (ret_int r) (uput buf out (put_heap h k\<lparr>k_disk := d\<rparr>)))
   }"

definition do_fat_write :: "'d platform \<Rightarrow> u64 \<Rightarrow> u64 \<Rightarrow> u64 \<Rightarrow> 'd kernel \<Rightarrow> 'd outcome option" where
  "do_fat_write P name data n k = do {
     s \<leftarrow> ustr name k;
     (r, d) \<leftarrow> fat16_write_file (pl_disk P) (k_fat k) s (ubytes data (nat (arg_int n)) k) (arg_int n) (k_disk k);
     Some (Returns (ret_int r) (k\<lparr>k_disk := d\<rparr>))
   }"

definition do_fat_delete :: "'d platform \<Rightarrow> u64 \<Rightarrow> 'd kernel \<Rightarrow> 'd outcome option" where
  "do_fat_delete P name k = do {
     s \<leftarrow> ustr name k;
     (r, d) \<leftarrow> fat16_delete_file (pl_disk P) (k_fat k) s (k_disk k);
     Some (Returns (ret_int r) (k\<lparr>k_disk := d\<rparr>))
   }"

section \<open>Programs and tasks\<close>

definition app_table :: "'d platform \<Rightarrow> (u8 list \<times> u64) list" where
  "app_table P = zip (map ascii [''shell'', ''hello'', ''calc'', ''game'', ''sysinfo'']) (elf_images P)"

fun app_str_eq :: "u8 list \<Rightarrow> u8 list \<Rightarrow> bool" where
  "app_str_eq [] b \<longleftrightarrow> c_hd b = 0"
| "app_str_eq (c # a) b \<longleftrightarrow> (if c \<noteq> 0 \<and> c = c_hd b then app_str_eq a (tl b) else c = c_hd b)"

definition apps_find :: "'d platform \<Rightarrow> u8 list \<Rightarrow> u64 option" where
  "apps_find P name = map_option snd (find (\<lambda>(n, img). app_str_eq n name) (app_table P))"

definition do_exec :: "'d platform \<Rightarrow> u64 \<Rightarrow> 'd kernel \<Rightarrow> 'd outcome option" where
  "do_exec P name k = do {
     s \<leftarrow> (if name \<noteq> 0 then ustr name k else Some (ascii ''hello''));
     (case apps_find P s of
        None \<Rightarrow> Some (Returns (- 1) k)
      | Some elf \<Rightarrow>
          (case user_load_elf elf (vmm_of k) of
             (entry, v) \<Rightarrow>
               if entry = 0 then Some (Returns (- 1) (put_vmm v k))
               else Some (Returns 0 ((put_vmm (user_setup_stack_at CHILD_STACK_BASE CHILD_STACK_SIZE v) k)
                      \<lparr>user_return_rip := entry, user_return_rsp := CHILD_STACK_BASE + CHILD_STACK_SIZE\<rparr>))))
   }"

definition kernel_spawn_child :: "'d platform \<Rightarrow> 'd kernel \<Rightarrow> (int \<times> 'd kernel) option" where
  "kernel_spawn_child P k =
     (if spawn_used k then Some (- 1, k)
      else
        (let k = k\<lparr>spawn_used := True\<rparr> in
         case user_load_elf (elf_images P ! 1) (vmm_of k) of
           (entry, v) \<Rightarrow>
             if entry = 0 then Some (- 1, put_vmm v k)
             else do {
               let k = put_vmm (user_setup_stack_at CHILD_STACK_BASE CHILD_STACK_SIZE v) k;
               (t, s) \<leftarrow> task_create ''child'' (child_task_entry P) (k_sched k);
               Some (sint (t_id (tcb s t)), put_sched s k)
             }))"

definition do_fork :: "'d platform \<Rightarrow> 'd kernel \<Rightarrow> 'd outcome option" where
  "do_fork P k = do {
     (r, s) \<leftarrow> task_fork (pl_fbi P) (fork_child_entry P) (k_sched k);
     Some (Returns (ret_int r) (put_sched s k))
   }"

definition do_sem_wait :: "u64 \<Rightarrow> 'd kernel \<Rightarrow> 'd outcome option" where
  "do_sem_wait sid k = do {
     (ss, s) \<leftarrow> sem_wait (arg_int sid) (k_sems k, k_sched k);
     Some (Returns 0 (put_sched s k\<lparr>k_sems := ss\<rparr>))
   }"

definition do_sem_post :: "u64 \<Rightarrow> 'd kernel \<Rightarrow> 'd outcome option" where
  "do_sem_post sid k =
     (case sem_post (arg_int sid) (k_sems k, k_sched k) of (ss, s) \<Rightarrow> Some (Returns 0 (put_sched s k\<lparr>k_sems := ss\<rparr>)))"

definition do_sysinfo :: "u64 \<Rightarrow> 'd kernel \<Rightarrow> 'd outcome option" where
  "do_sysinfo out k =
     (let w = (\<lambda>i (v :: u64). uput (out + 8 * i) (le_bytes 8 v));
          k = w 0 (pmm_total_pages (frames (vmm_of k))) k;
          k = w 1 (pmm_used_pages (frames (vmm_of k))) k;
          k = w 2 1 k;
          k = w 3 (ret_int (child_alive (k_sched k))) k
      in Some (Returns 0 k))"

definition do_ps :: "u64 \<Rightarrow> u64 \<Rightarrow> 'd kernel \<Rightarrow> 'd outcome option" where
  "do_ps buf mx k = do {
     s \<leftarrow> task_list_info (arg_int mx) (k_sched k);
     Some (Returns (ret_int (int (length s))) (uput buf (ascii s) k))
   }"

definition do_kill :: "u64 \<Rightarrow> 'd kernel \<Rightarrow> 'd outcome option" where
  "do_kill i k = do {
     (r, s) \<leftarrow> task_kill_by_id (arg_int i) (k_sched k);
     Some (Returns (ret_int r) (put_sched s k))
   }"

section \<open>The dispatcher\<close>

definition syscall_dispatch :: "'d platform \<Rightarrow> u64 \<Rightarrow> u64 \<Rightarrow> u64 \<Rightarrow> u64 \<Rightarrow> 'd kernel \<Rightarrow> 'd outcome option" where
  "syscall_dispatch P nr a1 a2 a3 k =
     (if nr = SYS_WRITE then do_write P a2 a3 k
      else if nr = SYS_READ then do_read a2 a3 k
      else if nr = SYS_EXIT then do_exit P k
      else if nr = SYS_OPEN then do_open a1 k
      else if nr = SYS_CLOSE then do_close a1 k
      else if nr = SYS_FREAD then do_fread a1 a2 a3 k
      else if nr = SYS_FWRITE then do_fwrite a1 a2 a3 k
      else if nr = SYS_UNLINK then do_unlink a1 k
      else if nr = SYS_LS then do_ls a1 a2 k
      else if nr = SYS_SYNC then map_option (\<lambda>(r, k). Returns (ret_int r) k) (do_sync P k)
      else if nr = SYS_SLEEP then map_option (\<lambda>s. Returns 0 (put_sched s k)) (task_sleep a1 (k_sched k))
      else if nr = SYS_MKDIR then do_mkdir a1 k
      else if nr = SYS_CHDIR then do_chdir a1 k
      else if nr = SYS_GETCWD then do_getcwd a1 a2 k
      else if nr = SYS_OPENDIR then do_opendir a1 k
      else if nr = SYS_READDIR then do_readdir a1 a2 a3 k
      else if nr = SYS_SPAWN then map_option (\<lambda>(r, k). Returns (ret_int r) k) (kernel_spawn_child P k)
      else if nr = SYS_SEM_WAIT then do_sem_wait a1 k
      else if nr = SYS_SEM_POST then do_sem_post a1 k
      else if nr = SYS_FORK then do_fork P k
      else if nr = SYS_EXEC then do_exec P a1 k
      else if nr = SYS_FAT_LS then do_fat_ls P a1 a2 k
      else if nr = SYS_FAT_READ then do_fat_read P a1 a2 a3 k
      else if nr = SYS_FAT_WRITE then do_fat_write P a1 a2 a3 k
      else if nr = SYS_FAT_DELETE then do_fat_delete P a1 k
      else if nr = SYS_SET_FG then Some (Returns 0 (put_sched (task_set_foreground (current (k_sched k)) (k_sched k)) k))
      else if nr = SYS_WAIT then map_option (\<lambda>s. Returns 0 (put_sched s k)) (task_wait_child (k_sched k))
      else if nr = SYS_SYSINFO then do_sysinfo a1 k
      else if nr = SYS_PS then do_ps a1 a2 k
      else if nr = SYS_KILL then do_kill a1 k
      else if nr = SYS_REDIR then do_redir a1 a2 k
      else Some (Returns (- 1) k))"

text \<open>The return path of \<open>syscall_entry.S\<close>: the user instruction and stack pointers the call goes back to, \<open>rcx\<close> being
  the saved return address.\<close>

definition syscall_return :: "u64 \<Rightarrow> 'd kernel \<Rightarrow> u64 \<times> u64 \<times> 'd kernel" where
  "syscall_return rcx k =
     (let rip = (if user_return_rip k \<noteq> 0 then user_return_rip k else rcx);
          k = k\<lparr>user_return_rip := 0\<rparr>;
          k = (if user_return_rsp k \<noteq> 0
               then put_sched ((k_sched k)\<lparr>saved_user_rsp := user_return_rsp k\<rparr>) (k\<lparr>user_return_rsp := 0\<rparr>) else k)
      in (rip, saved_user_rsp (k_sched k), k))"

section \<open>The machine between interrupts\<close>

lemma kernel_simps [simp]:
  "s_vmm (k_sched (put_vmm v k)) = v" "vmm_of (put_vmm v k) = v" "vmm_of (k\<lparr>k_kbd := kb\<rparr>) = vmm_of k"
  "k_kbd (put_vmm v k) = k_kbd k" "k_kbd (uput a bs k) = k_kbd k" "put_vmm (vmm_of k) k = k" "put_vmm v (put_vmm w k) = put_vmm v k"
  "(put_vmm v k)\<lparr>k_kbd := kb\<rparr> = put_vmm v (k\<lparr>k_kbd := kb\<rparr>)" "uput a bs (k\<lparr>k_kbd := kb\<rparr>) = (uput a bs k)\<lparr>k_kbd := kb\<rparr>"
  "(k :: 'd kernel)\<lparr>k_kbd := k_kbd k\<rparr> = k"
  by (simp_all add: put_vmm_def vmm_of_def uput_def)

lemma uput_Nil [simp]: "uput a [] k = k"
  by (simp add: uput_def)

lemma ustores_append: "ustores a (xs @ ys) v = ustores (a + of_nat (length xs)) ys (ustores a xs v)"
  by (induction xs arbitrary: a v) (simp_all add: algebra_simps)

lemma uput_append: "uput a (xs @ ys) k = uput (a + of_nat (length xs)) ys (uput a xs k)"
  by (simp add: uput_def ustores_append)

lemma uput_Cons: "uput a (x # xs) k = uput (a + 1) xs (uput a [x] k)"
  using uput_append [of a "[x]" xs k] by simp

text \<open>A keyboard interrupt, and what it does to a call: a waiting \<open>SYS_READ\<close> goes on with its loop.\<close>

definition key_irq :: "u8 \<times> u8 \<Rightarrow> 'd kernel \<Rightarrow> 'd kernel" where
  "key_irq e k = k\<lparr>k_kbd := keyboard_handler (fst e) (snd e) (k_kbd k)\<rparr>"

primrec resume :: "u8 \<times> u8 \<Rightarrow> 'd outcome \<Rightarrow> 'd outcome" where
  "resume e (Returns v k) = Returns v (key_irq e k)"
| "resume e (Waits buf n want k) = read_keys buf n want (key_irq e k)"
| "resume e (Exits k) = Exits (key_irq e k)"
| "resume e (Halts k) = Halts (key_irq e k)"

text \<open>The characters a sequence of keyboard interrupts stands for.\<close>

fun key_stream :: "kbd \<Rightarrow> (u8 \<times> u8) list \<Rightarrow> u8 list" where
  "key_stream kb [] = []"
| "key_stream kb (e # es) =
     (if makes_char (fst e) (snd e) then [typed (shift_pressed kb) (snd e)] else []) @
     key_stream (keyboard_handler (fst e) (snd e) kb) es"

lemma handler_shift: "shift_pressed a = shift_pressed b \<Longrightarrow> shift_pressed (keyboard_handler s c a) = shift_pressed (keyboard_handler s c b)"
  by (simp add: keyboard_handler_def kbd_push_def Let_def)

lemma key_stream_shift: "shift_pressed a = shift_pressed b \<Longrightarrow> key_stream a es = key_stream b es"
proof (induction es arbitrary: a b)
  case (Cons e es)
  show ?case using Cons.IH [OF handler_shift [OF Cons.prems, of "fst e" "snd e"]] Cons.prems by simp
qed simp

lemma getchar_shift: "keyboard_getchar_nonblock kb = (c, kb') \<Longrightarrow> shift_pressed kb' = shift_pressed kb"
  by (auto simp: keyboard_getchar_nonblock_def split: if_splits)

lemma key_irq_inv:
  assumes "kbd_inv kb q" and "length q + length (key_stream kb (e # es)) \<le> 255"
  shows "kbd_inv (keyboard_handler (fst e) (snd e) kb)
      (q @ (if makes_char (fst e) (snd e) then [typed (shift_pressed kb) (snd e)] else []))"
  using handler_inv [OF assms(1), of "fst e" "snd e"] assms(2) by (simp split: if_splits)

definition keys_read :: "u64 \<Rightarrow> nat \<Rightarrow> u64 \<Rightarrow> u8 list \<Rightarrow> 'd kernel \<Rightarrow> 'd outcome \<Rightarrow> bool" where
  "keys_read buf n want q k out \<longleftrightarrow>
     (\<exists>kb. kbd_inv kb (drop n q) \<and>
        out = (if n \<le> length q then Returns want ((uput buf (take n q) k)\<lparr>k_kbd := kb\<rparr>)
               else Waits (buf + of_nat (length q)) (n - length q) want ((uput buf q k)\<lparr>k_kbd := kb\<rparr>)))"

lemma read_keys_spec:
  assumes "kbd_inv (k_kbd k) q"
  shows "\<exists>kb. shift_pressed kb = shift_pressed (k_kbd k) \<and> kbd_inv kb (drop n q) \<and>
    read_keys buf n want k = (if n \<le> length q then Returns want ((uput buf (take n q) k)\<lparr>k_kbd := kb\<rparr>)
       else Waits (buf + of_nat (length q)) (n - length q) want ((uput buf q k)\<lparr>k_kbd := kb\<rparr>))"
  using assms
proof (induction n arbitrary: buf q k)
  case 0
  then show ?case by (intro exI [of _ "k_kbd k"]) simp
next
  case (Suc n)
  obtain c kb where g: "keyboard_getchar_nonblock (k_kbd k) = (c, kb)" by fastforce
  have f: "c = (case q of [] \<Rightarrow> - 1 | c # _ \<Rightarrow> int (unat c))" "kbd_inv kb (tl q)"
    using keyboard_getchar_correct [OF Suc.prems] unfolding g fst_conv snd_conv by blast+
  have s: "shift_pressed kb = shift_pressed (k_kbd k)" by (rule getchar_shift [OF g])
  show ?case
  proof (cases q)
    case Nil
    have "read_keys buf (Suc n) want k = Waits buf (Suc n) want (k\<lparr>k_kbd := kb\<rparr>)" using g f(1) Nil by simp
    then show ?thesis using f(2) s Nil by (intro exI [of _ kb]) simp
  next
    case (Cons x r)
    define k1 where "k1 = (uput buf [x] k)\<lparr>k_kbd := kb\<rparr>"
    have step: "read_keys buf (Suc n) want k = read_keys (buf + 1) n want k1"
      using g f(1) Cons by (simp add: k1_def)
    have "kbd_inv (k_kbd k1) r" using f(2) Cons by (simp add: k1_def)
    from Suc.IH [OF this, of "buf + 1"] obtain kb' where 1: "shift_pressed kb' = shift_pressed (k_kbd k1)" "kbd_inv kb' (drop n r)"
      "read_keys (buf + 1) n want k1 = (if n \<le> length r then Returns want ((uput (buf + 1) (take n r) k1)\<lparr>k_kbd := kb'\<rparr>)
         else Waits (buf + 1 + of_nat (length r)) (n - length r) want ((uput (buf + 1) r k1)\<lparr>k_kbd := kb'\<rparr>))" by blast
    have u: "(uput (buf + 1) bs k1)\<lparr>k_kbd := kb'\<rparr> = (uput buf (x # bs) k)\<lparr>k_kbd := kb'\<rparr>" for bs
      unfolding k1_def uput_Cons [of buf x bs] by simp
    have "shift_pressed kb' = shift_pressed (k_kbd k)" using 1(1) s by (simp add: k1_def)
    then show ?thesis using 1(2,3) Cons unfolding step u by (intro exI [of _ kb']) (simp add: add.assoc)
  qed
qed

lemma returned_stream:
  assumes "kbd_inv (k_kbd k) q" and "length q + length (key_stream (k_kbd k) es) \<le> 255"
  shows "\<exists>kb. fold resume es (Returns v k) = Returns v (k\<lparr>k_kbd := kb\<rparr>) \<and> kbd_inv kb (q @ key_stream (k_kbd k) es)"
  using assms
proof (induction es arbitrary: q k)
  case Nil
  then show ?case by (intro exI [of _ "k_kbd k"]) simp
next
  case (Cons e es)
  let ?k = "key_irq e k" and ?new = "if makes_char (fst e) (snd e) then [typed (shift_pressed (k_kbd k)) (snd e)] else []"
  have b: "k_kbd ?k = keyboard_handler (fst e) (snd e) (k_kbd k)" by (simp add: key_irq_def)
  have "length (q @ ?new) + length (key_stream (k_kbd ?k) es) \<le> 255" using Cons.prems(2) by (simp add: b)
  from Cons.IH [OF _ this] key_irq_inv [OF Cons.prems] obtain kb where
    "fold resume es (Returns v ?k) = Returns v (?k\<lparr>k_kbd := kb\<rparr>)" "kbd_inv kb ((q @ ?new) @ key_stream (k_kbd ?k) es)" by (auto simp: b)
  then show ?case by (intro exI [of _ kb]) (simp add: b key_irq_def)
qed

lemma read_stream:
  assumes "kbd_inv (k_kbd k) q" and "length q + length (key_stream (k_kbd k) es) \<le> n + 255"
  shows "keys_read buf n want (q @ key_stream (k_kbd k) es) k (fold resume es (read_keys buf n want k))"
  using assms
proof (induction es arbitrary: buf n q k)
  case Nil
  then show ?case using read_keys_spec [OF Nil.prems(1), of n buf want] by (auto simp: keys_read_def)
next
  case (Cons e es)
  let ?new = "if makes_char (fst e) (snd e) then [typed (shift_pressed (k_kbd k)) (snd e)] else []"
  have st: "key_stream (k_kbd k) (e # es) = ?new @ key_stream (keyboard_handler (fst e) (snd e) (k_kbd k)) es" by simp
  from read_keys_spec [OF Cons.prems(1), of n buf want] obtain kb where kb: "shift_pressed kb = shift_pressed (k_kbd k)" "kbd_inv kb (drop n q)"
    "read_keys buf n want k = (if n \<le> length q then Returns want ((uput buf (take n q) k)\<lparr>k_kbd := kb\<rparr>)
       else Waits (buf + of_nat (length q)) (n - length q) want ((uput buf q k)\<lparr>k_kbd := kb\<rparr>))" by blast
  have ks: "key_stream kb (e # es) = key_stream (k_kbd k) (e # es)" by (rule key_stream_shift [OF kb(1)])
  show ?case
  proof (cases "n \<le> length q")
    case True
    let ?k1 = "(uput buf (take n q) k)\<lparr>k_kbd := kb\<rparr>"
    have "length (drop n q) + length (key_stream (k_kbd ?k1) (e # es)) \<le> 255" using Cons.prems(2) True unfolding ks [symmetric] by simp
    from returned_stream [OF _ this, of want] kb(2) obtain kb' where
      "fold resume (e # es) (Returns want ?k1) = Returns want (?k1\<lparr>k_kbd := kb'\<rparr>)" "kbd_inv kb' (drop n q @ key_stream kb (e # es))" by auto
    then show ?thesis using kb(3) True unfolding keys_read_def ks by (intro exI [of _ kb']) simp
  next
    case False
    let ?k1 = "(uput buf q k)\<lparr>k_kbd := kb\<rparr>" and ?b = "buf + of_nat (length q)" and ?n = "n - length q"
    have i: "kbd_inv kb []" using kb(2) False by simp
    have l: "length ([] :: u8 list) + length ?new \<le> 255" by simp
    have b: "k_kbd (key_irq e ?k1) = keyboard_handler (fst e) (snd e) kb" by (simp add: key_irq_def)
    have "kbd_inv (k_kbd (key_irq e ?k1)) ?new" using handler_inv [OF i, of "fst e" "snd e"] unfolding b kb(1) by (simp split: if_splits)
    moreover have s: "key_stream (k_kbd (key_irq e ?k1)) es = key_stream (keyboard_handler (fst e) (snd e) (k_kbd k)) es"
      unfolding b by (rule key_stream_shift [OF handler_shift [OF kb(1)]])
    moreover have "length ?new + length (key_stream (keyboard_handler (fst e) (snd e) (k_kbd k)) es) \<le> ?n + 255"
      using Cons.prems(2) False unfolding st by simp
    ultimately have "keys_read ?b ?n want (?new @ key_stream (k_kbd (key_irq e ?k1)) es) (key_irq e ?k1) (fold resume es (read_keys ?b ?n want (key_irq e ?k1)))"
      by (intro Cons.IH) simp_all
    then have IH: "keys_read ?b ?n want (key_stream (k_kbd k) (e # es)) (key_irq e ?k1) (fold resume es (read_keys ?b ?n want (key_irq e ?k1)))"
      unfolding st s .
    have f: "fold resume (e # es) (read_keys buf n want k) = fold resume es (read_keys ?b ?n want (key_irq e ?k1))" using kb(3) False by simp
    have u: "(uput ?b bs (key_irq e ?k1))\<lparr>k_kbd := kb'\<rparr> = (uput buf (q @ bs) k)\<lparr>k_kbd := kb'\<rparr>" for bs kb'
      by (simp add: key_irq_def uput_append)
    define s' where "s' = key_stream (k_kbd k) (e # es)"
    have "?n \<le> length s' \<longleftrightarrow> n \<le> length (q @ s')" "take n (q @ s') = q @ take ?n s'" "drop n (q @ s') = drop ?n s'" using False by auto
    then show ?thesis using IH unfolding f keys_read_def s'_def [symmetric] u by (auto simp: add.assoc)
  qed
qed

section \<open>Keyboard input\<close>

text \<open>C15. \<open>SYS_READ\<close> of a task in the foreground without a redirected input delivers what is typed.  Let \<open>q\<close> be the
  characters waiting in the ring and \<open>all\<close> these followed by the characters of any sequence of keyboard interrupts:
  when \<open>all\<close> has at least \<open>n\<close> characters, the call has returned \<open>n\<close> with the first \<open>n\<close> stored at \<open>buf\<close>, and the rest waits in the
  ring for the next call; otherwise it still waits, with all of them stored and the ring empty.  No character is lost
  or repeated as long as no more than 255 arrive beyond those asked for.\<close>

theorem console_read_correct:
  assumes "t_stdin_node (cur_task k) = 0" and "foreground (k_sched k) = 0 \<or> foreground (k_sched k) = current (k_sched k)"
    and "kbd_inv (k_kbd k) q" and "all = q @ key_stream (k_kbd k) es" and "length all \<le> unat n + 255"
  shows "\<exists>out kb. syscall_dispatch P SYS_READ fd buf n k = Some out \<and> kbd_inv kb (drop (unat n) all) \<and>
    fold resume es out =
      (if unat n \<le> length all then Returns n ((uput buf (take (unat n) all) k)\<lparr>k_kbd := kb\<rparr>)
       else Waits (buf + of_nat (length all)) (unat n - length all) n ((uput buf all k)\<lparr>k_kbd := kb\<rparr>))"
proof -
  have "syscall_dispatch P SYS_READ fd buf n k = Some (read_keys buf (unat n) n k)"
    using assms(1,2) by (auto simp: syscall_dispatch_def do_read_def sys_numbers)
  moreover have "keys_read buf (unat n) n all k (fold resume es (read_keys buf (unat n) n k))"
    using read_stream [OF assms(3), of es "unat n" buf n] assms(4,5) by simp
  ultimately show ?thesis unfolding keys_read_def by blast
qed

definition demo_kernel :: "'d \<Rightarrow> 'd kernel" where
  "demo_kernel d = \<lparr>k_sched = demo_sched\<lparr>child_exit_wq := demo_wq, s_heap := r_heap demo_fs\<rparr>, k_files = demo_files, k_sems = demo_sems,
     k_kbd = demo_kbd, k_term = \<lparr>region_x = 0, region_y = 0, region_w = 0, region_h = 0, t_cols = 1, t_rows = 1, tcur_x = 0, tcur_y = 0,
       fg_color = 0, bg_color = 0, screen_buf = (\<lambda>_ _. 0)\<rparr>,
     k_cursor = \<lparr>cur_x = 0, cur_y = 0, cur_visible = False, cur_saved = []\<rparr>,
     k_fat = \<lparr>part_lba = 0, bytes_per_sector = 512, sectors_per_cluster = 1, reserved_sectors = 1, num_fats = 2, root_entries = 16,
       fat_size = 1, fat_start_lba = 1, root_start_lba = 3, data_start_lba = 4\<rparr>,
     k_disk = d, k_serial = [], spawn_used = False, user_return_rip = 0, user_return_rsp = 0\<rparr>"

definition demo_platform :: "drive platform" where
  "demo_platform = \<lparr>pl_fbi = \<lparr>fb_addr = 0, fb_width = 0, fb_height = 0, fb_pitch = 0, fb_bpp = 32, fb_r_pos = 16, fb_r_size = 8,
       fb_g_pos = 8, fb_g_size = 8, fb_b_pos = 0, fb_b_size = 8\<rparr>,
     pl_disk = ata_ops drive_ports demo_ata, fork_child_entry = 0x9000, child_task_entry = 0xA000, elf_images = [0x300000, 0x200000]\<rparr>"

theorem console_read_correct_witness:
  "\<exists>out k'. syscall_dispatch demo_platform SYS_READ 0 0x400000 3 (demo_kernel demo_drive) = Some out \<and> (\<exists>k''. out = Waits 0x400002 1 3 k'') \<and>
     fold resume [(0x1C, 0x1E)] out = Returns 3 k'"
proof -
  let ?k = "demo_kernel demo_drive" and ?es = "[(0x1C, 0x1E)] :: (u8 \<times> u8) list"
  have k: "t_stdin_node (cur_task ?k) = 0" "foreground (k_sched ?k) = 0" "k_kbd ?k = demo_kbd"
    by (simp_all add: demo_kernel_def cur_task_def demo_sched_def demo_task_def)
  have inv: "kbd_inv (k_kbd ?k) [104, 105]" using demo_kbd_inv k(3) by simp
  have "makes_char 0x1C 0x1E" by (simp add: makes_char_def keymap_def ascii_def of_char_def)
  then have l: "length ([104, 105] @ key_stream (k_kbd ?k) ?es) = 3" by simp
  have n: "unat (3 :: u64) = 3" by simp
  obtain out where o: "syscall_dispatch demo_platform SYS_READ 0 0x400000 3 ?k = Some out" "\<exists>k'. fold resume ?es out = Returns 3 k'"
    using console_read_correct [OF k(1) disjI1 [OF k(2)] inv refl, of ?es 3 demo_platform 0 "0x400000"] unfolding l n by auto
  obtain out2 where "syscall_dispatch demo_platform SYS_READ 0 0x400000 3 ?k = Some out2" "\<exists>k''. out2 = Waits 0x400002 1 3 k''"
    using console_read_correct [OF k(1) disjI1 [OF k(2)] inv refl, of "[]" 3 demo_platform 0 "0x400000"] unfolding n by auto
  then show ?thesis using o by auto
qed

section \<open>Leaving a program\<close>

lemma wake_one_keeps: "wait_queue_wake_one wq st = (wq', st') \<Longrightarrow>
    s_heap st' = s_heap st \<and> foreground st' = foreground st \<and> child_exit_wq st' = child_exit_wq st \<and>
    (\<forall>y. t_id (tcb st' y) = t_id (tcb st y) \<and> t_parent (tcb st' y) = t_parent (tcb st y))"
  by (auto simp: wait_queue_wake_one_def Let_def upd_task_def split: if_splits)

lemma wake_all_keeps: "wait_queue_wake_all wq st = Some r \<Longrightarrow>
    s_heap (snd r) = s_heap st \<and> foreground (snd r) = foreground st \<and>
    (\<forall>y. t_id (tcb (snd r) y) = t_id (tcb st y) \<and> t_parent (tcb (snd r) y) = t_parent (tcb st y))"
proof (erule wait_queue_wake_all.raw_induct [rotated])
  fix f :: "wait_queue \<Rightarrow> sched \<Rightarrow> (wait_queue \<times> sched) option" and wq st r
  assume 1: "\<And>wq st r. f wq st = Some r \<Longrightarrow> s_heap (snd r) = s_heap st \<and> foreground (snd r) = foreground st \<and>
      (\<forall>y. t_id (tcb (snd r) y) = t_id (tcb st y) \<and> t_parent (tcb (snd r) y) = t_parent (tcb st y))"
    "(if wq_head wq = 0 then Some (wq, st) else case wait_queue_wake_one wq st of (wq', st') \<Rightarrow> f wq' st') = Some r"
  show "s_heap (snd r) = s_heap st \<and> foreground (snd r) = foreground st \<and>
      (\<forall>y. t_id (tcb (snd r) y) = t_id (tcb st y) \<and> t_parent (tcb (snd r) y) = t_parent (tcb st y))"
  proof -
  obtain wq1 st1 where w: "wait_queue_wake_one wq st = (wq1, st1)" by fastforce
  show ?thesis
  proof (cases "wq_head wq = 0")
    case True
    then show ?thesis using 1(2) by auto
  next
    case False
    then have "f wq1 st1 = Some r" using 1(2) w by simp
    then show ?thesis using 1(1) wake_one_keeps [OF w] by simp
  qed
  qed
qed

lemma drain_keys_all: "kbd_inv kb q \<Longrightarrow> \<exists>kb'. drain_keys kb = Some kb' \<and> kbd_inv kb' []"
proof (induction q arbitrary: kb)
  case Nil
  obtain c kb' where g: "keyboard_getchar_nonblock kb = (c, kb')" by fastforce
  have "c = - 1" "kbd_inv kb' []" using keyboard_getchar_correct [OF Nil] unfolding g by simp_all
  then have "drain_keys kb = Some kb'" using g by (subst drain_keys.simps) simp
  then show ?case using \<open>kbd_inv kb' []\<close> by blast
next
  case (Cons x q)
  obtain c kb' where g: "keyboard_getchar_nonblock kb = (c, kb')" by fastforce
  have "c = int (unat x)" "kbd_inv kb' q" using keyboard_getchar_correct [OF Cons.prems] unfolding g fst_conv snd_conv by simp_all
  then have "drain_keys kb = drain_keys kb'" using g by (subst drain_keys.simps) simp
  then show ?case using Cons.IH [OF \<open>kbd_inv kb' q\<close>] by simp
qed

lemma put_simps [simp]:
  "k_sched (put_sched s k) = s" "fs_of (put_fs fs k) = fs" "k_kbd (put_fs fs k) = k_kbd k" "k_kbd (put_sched s k) = k_kbd k"
  "k_disk (put_sched s k) = k_disk k" "k_disk (put_fs fs k) = k_disk k"
  "tcb (k_sched (put_fs fs k)) = tcb (k_sched k)" "current (k_sched (put_fs fs k)) = current (k_sched k)"
  "foreground (k_sched (put_fs fs k)) = foreground (k_sched k)" "child_exit_wq (k_sched (put_fs fs k)) = child_exit_wq (k_sched k)"
  "fs_of (k\<lparr>k_kbd := kb\<rparr>) = fs_of k" "fs_of (k\<lparr>k_disk := d\<rparr>) = fs_of k" "k_disk (k\<lparr>k_kbd := kb\<rparr>) = k_disk k"
  by (simp_all add: put_sched_def put_fs_def put_files_def fs_of_def files_of_def)

lemma fs_of_sched: "s_heap s = s_heap (k_sched k) \<Longrightarrow> fs_of (put_sched s k) = fs_of k"
  by (simp add: fs_of_def files_of_def put_sched_def)

text \<open>C14. The end of a program that is not the shell, whose parent or siblings wait for it: the call never returns; the keyboard ring
  is emptied, the file system is saved to the disk, the program is dead, every task that waited for a child is ready or
  already running, the foreground goes to the parent, and another task runs.\<close>

theorem exit_correct:
  assumes "ring (k_sched k) xs" and "wq_rep (child_exit_wq (k_sched k), k_sched k) q" and "q \<noteq> []" and "set q \<subseteq> set xs"
    and "\<forall>y \<in> set q. t_state (tcb (k_sched k) y) = TASK_BLOCKED" and "t_id (cur_task k) \<noteq> 1" and "kbd_inv (k_kbd k) typed_ahead"
    and "persist_save (pl_disk P) (fs_of k) (k_disk k) = Some (r, fs', d')"
  shows "\<exists>k'. syscall_dispatch P SYS_EXIT code a2 a3 k = Some (Exits k') \<and>
    t_state (tcb (k_sched k') (current (k_sched k))) = TASK_DEAD \<and> current (k_sched k') \<in> set xs \<and>
    (\<forall>y \<in> set q. t_state (tcb (k_sched k') y) \<in> {TASK_READY, TASK_RUNNING}) \<and>
    foreground (k_sched k') = (if t_parent (cur_task k) \<noteq> 0 then t_parent (cur_task k) else foreground (k_sched k)) \<and>
    kbd_inv (k_kbd k') [] \<and> fs_of k' = fs' \<and> k_disk k' = d'"
proof -
  let ?s = "k_sched k"
  let ?me = "current ?s"
  have me: "?me \<noteq> 0" "?me \<notin> set xs" using assms(1) by (auto simp: ring_def)
  define s1 where "s1 = task_child_dec (if t_parent (tcb ?s ?me) \<noteq> 0 then task_set_foreground (t_parent (tcb ?s ?me)) ?s else ?s)"
  have s1: "tcb s1 = tcb ?s" "current s1 = ?me" "s_heap s1 = s_heap ?s" "child_exit_wq s1 = child_exit_wq ?s"
    "foreground s1 = (if t_parent (cur_task k) \<noteq> 0 then t_parent (cur_task k) else foreground ?s)"
    by (simp_all add: s1_def task_child_dec_def task_set_foreground_def cur_task_def)
  have "wq_rep (child_exit_wq s1, s1) q" using assms(2) by (simp add: s1 wq_rep_def)
  from wake_all_ok [OF this] obtain wq' s2 where w: "wait_queue_wake_all (child_exit_wq s1) s1 = Some (wq', s2)" "wq_rep (wq', s2) []"
    "\<forall>y. t_state (tcb s2 y) = (if y \<in> set q \<and> t_state (tcb s1 y) = TASK_BLOCKED then TASK_READY else t_state (tcb s1 y))"
    "\<forall>y. t_next (tcb s2 y) = t_next (tcb s1 y)" "current s2 = current s1" by blast
  have kp: "s_heap s2 = s_heap s1" "foreground s2 = foreground s1" "t_id (tcb s2 ?me) = t_id (tcb s1 ?me)"
    using wake_all_keeps [OF w(1)] by simp_all
  define s3 where "s3 = s2\<lparr>child_exit_wq := wq'\<rparr>"
  have sig: "task_signal_child_exit s1 = Some s3" by (simp add: task_signal_child_exit_def w(1) s3_def)
  obtain kb where kb: "drain_keys (k_kbd k) = Some kb" "kbd_inv kb []" using drain_keys_all [OF assms(7)] by blast
  define k1 where "k1 = (put_sched s3 k)\<lparr>k_kbd := kb\<rparr>"
  have "fs_of k1 = fs_of k" unfolding k1_def using kp(1) s1(3) by (simp add: fs_of_sched s3_def)
  then have sync: "do_sync P k1 = Some (r, (put_fs fs' k1)\<lparr>k_disk := d'\<rparr>)" using assms(8) by (simp add: do_sync_def k1_def)
  define k2 where "k2 = (put_fs fs' k1)\<lparr>k_disk := d'\<rparr>"
  define k3 where "k3 = upd_current (\<lambda>t. t\<lparr>t_state := TASK_DEAD\<rparr>) k2"
  have k2: "tcb (k_sched k2) = tcb s2" "current (k_sched k2) = ?me" "k_kbd k2 = kb" "k_disk k2 = d'" "fs_of k2 = fs'"
    "foreground (k_sched k2) = foreground s2"
    by (simp_all add: k2_def k1_def s3_def w(5) s1(2))
  have k3: "tcb (k_sched k3) = (tcb s2)(?me := (tcb s2 ?me)\<lparr>t_state := TASK_DEAD\<rparr>)" "current (k_sched k3) = ?me" "k_kbd k3 = kb"
    "k_disk k3 = d'" "fs_of k3 = fs'" "foreground (k_sched k3) = foreground s2"
    by (simp_all add: k3_def upd_current_def upd_task_def k2 fs_of_sched)
  have nid: "t_id (cur_task k2) \<noteq> 1" using assms(6) kp(3) by (simp add: cur_task_def k2 s1(1))
  have "path (tcb (k_sched k3)) ?me xs ?me = path (tcb ?s) ?me xs ?me"
    by (intro path_cong) (simp_all add: k3 w(4) s1(1))
  then have ring3: "ring (k_sched k3) xs" using assms(1) by (simp add: ring_def k3(2))
  have rdy: "ready (k_sched k3) y" if "y \<in> set q" for y
    using that assms(4,5) me(2) w(3) by (auto simp: ready_def k3(1) s1(1))
  show ?thesis
    using ring3
  proof (cases rule: schedule_cases)
    case idle
    then show ?thesis using rdy assms(3,4) by (auto simp: find_None_iff neq_Nil_conv)
  next
    case (run pre x post)
    let ?k' = "put_sched (switch_to x (k_sched k3)) k3"
    have x: "x \<noteq> current (k_sched k3)" "x \<in> set xs" using run(1) me(2) by (auto simp: k3(2))
    note sw = switch_to_other [OF x(1) refl]
    have ne: "x \<noteq> ?me" using x(1) by (simp add: k3(2))
    have run_it: "syscall_dispatch P SYS_EXIT code a2 a3 k = Some (Exits ?k')"
      using me(1) sig kb(1) sync nid run(4) sw(1) ne
      by (simp add: syscall_dispatch_def sys_numbers do_exit_def s1_def [symmetric] k1_def [symmetric] k2_def [symmetric] k3_def [symmetric] k2(2))
    have st: "t_state (tcb (switch_to x (k_sched k3)) y) \<in> {TASK_READY, TASK_RUNNING}" if "y \<in> set q" for y
    proof -
      have "y \<noteq> current (k_sched k3)" using that assms(4) me(2) by (auto simp: k3(2))
      then show ?thesis using sw(2,4) rdy [OF that] by (cases "y = x") (simp_all add: ready_def)
    qed
    have dead: "t_state (tcb (switch_to x (k_sched k3)) ?me) = TASK_DEAD" using sw(3) by (simp add: k3(1,2))
    have fg: "foreground (switch_to x (k_sched k3)) = foreground (k_sched k3)" using x(1) by (simp add: switch_defs demote_def load_kernel_stack_def load_cr3_def)
    show ?thesis
      using run_it st dead fg sw(1,10) x(2) kp(2) s1(5) kb(2) by (intro exI [of _ ?k']) (simp add: k3 fs_of_sched)
  qed
qed

lemma demo_kernel_fs: "fs_of (demo_kernel d) = demo_fs"
  by (simp add: fs_of_def files_of_def demo_kernel_def demo_files_table)

theorem exit_correct_witness:
  "\<exists>k'. syscall_dispatch demo_platform SYS_EXIT 0 0 0 (demo_kernel demo_drive) = Some (Exits k') \<and> t_state (tcb (k_sched k') 16) = TASK_DEAD \<and>
    t_state (tcb (k_sched k') 32) \<in> {TASK_READY, TASK_RUNNING} \<and> kbd_inv (k_kbd k') []"
proof -
  let ?k = "demo_kernel demo_drive"
  obtain t where t: "dir_at demo_fs (r_root demo_fs) [t]" "erase t = File [97] [1, 2, 3]" using demo_fs_dir by blast
  have r: "room (r_heap demo_fs) (alloc_cost (of_nat BLOB_MAX))"
    by (rule room_mono [OF demo_fs_room]) (simp add: blob_cost)
  have l: "blob_len (map erase [t]) + 2 \<le> BLOB_MAX" by (simp add: t(2) blob_len_def BLOB_MAX_def PERSIST_MAX_SECTORS_def)
  have dk: "disk (ata_ops drive_ports demo_ata) dr_sectors drive_ok (2 ^ 28)" by (rule ata_disk) (simp add: demo_ata_def)
  have cap: "33792 \<le> (2 :: nat) ^ 28" by simp
  obtain fs' d' where s: "persist_save (ata_ops drive_ports demo_ata) demo_fs demo_drive = Some (0, fs', d')"
    using disk.persist_save_ok [OF dk demo_drive_ok cap t(1) l r] by blast
  have ring: "ring (k_sched ?k) [32, 48]" using demo_ring by (simp add: demo_kernel_def ring_def)
  have q: "wq_rep (child_exit_wq (k_sched ?k), k_sched ?k) [32]" using demo_wq_rep by (simp add: demo_kernel_def wq_rep_def)
  have bl: "\<forall>y \<in> set [32]. t_state (tcb (k_sched ?k) y) = TASK_BLOCKED" by (simp add: demo_kernel_def demo_sched_def)
  have nid: "t_id (cur_task ?k) \<noteq> 1" by (simp add: demo_kernel_def cur_task_def demo_sched_def demo_task_def)
  have kb: "kbd_inv (k_kbd ?k) [104, 105]" using demo_kbd_inv by (simp add: demo_kernel_def)
  have sv: "persist_save (pl_disk demo_platform) (fs_of ?k) (k_disk ?k) = Some (0, fs', d')" using s unfolding demo_kernel_fs by (simp add: demo_kernel_def demo_platform_def)
  have c: "current (k_sched ?k) = 16" by (simp add: demo_kernel_def demo_sched_def)
  show ?thesis using exit_correct [OF ring q _ _ bl nid kb sv, of 0 0 0] c by auto
qed

section \<open>Running a program\<close>

lemma child_stack_pages: "page_range CHILD_STACK_BASE (CHILD_STACK_BASE + CHILD_STACK_SIZE) = seg_pages CHILD_STACK_BASE CHILD_STACK_SIZE"
  "seg_fits CHILD_STACK_BASE CHILD_STACK_SIZE" "length (seg_pages CHILD_STACK_BASE CHILD_STACK_SIZE) = 4"
  by (simp_all add: seg_pages_def seg_fits_def CHILD_STACK_BASE_def CHILD_STACK_SIZE_def page_range_def)

definition name_arg :: "u64 \<Rightarrow> 'd kernel \<Rightarrow> u8 list \<Rightarrow> bool" where
  "name_arg a k s \<longleftrightarrow> (if a = 0 then s = ascii ''hello'' else ustr a k = Some s)"

text \<open>C13. \<open>SYS_EXEC\<close> of a program in the table: when the image is well formed, its segments and the stack share no page and
  enough frames are free, the call returns on a path on which the program counter is the entry point of the image and the stack
  pointer the top of the stack; all segments read as the image has them and the four pages of the stack
  are zero, each byte in memory of its own.\<close>

theorem exec_correct:
  assumes "name_arg a1 k s" and "apps_find P s = Some elf"
    and "program_fits m elf CHILD_STACK_BASE CHILD_STACK_SIZE 0 (vmm_of k)" and "e_entry m elf \<noteq> 0"
  shows "\<exists>k'. syscall_dispatch P SYS_EXEC a1 a2 a3 k = Some (Returns 0 k') \<and>
    (case syscall_return rcx k' of (rip, rsp, k'') \<Rightarrow>
       rip = e_entry m elf \<and> rsp = CHILD_STACK_BASE + CHILD_STACK_SIZE \<and> vmm_wf (vmm_of k'') \<and>
       user_return_rip k'' = 0 \<and> user_return_rsp k'' = 0 \<and> program_ready m elf CHILD_STACK_BASE CHILD_STACK_SIZE (vmm_of k''))"
proof -
  obtain entry v1 where l: "user_load_elf elf (vmm_of k) = (entry, v1)" by fastforce
  define v2 where "v2 = user_setup_stack_at CHILD_STACK_BASE CHILD_STACK_SIZE v1"
  note o = load_with_stack [OF assms(3) child_stack_pages(2,1) l, folded v2_def]
  let ?k' = "(put_vmm v2 k)\<lparr>user_return_rip := entry, user_return_rsp := CHILD_STACK_BASE + CHILD_STACK_SIZE\<rparr>"
  have nz: "entry \<noteq> 0" "CHILD_STACK_BASE + CHILD_STACK_SIZE \<noteq> 0" using o(1) assms(4) by (simp_all add: CHILD_STACK_BASE_def CHILD_STACK_SIZE_def)
  have d: "syscall_dispatch P SYS_EXEC a1 a2 a3 k = do_exec P a1 k" by (simp add: syscall_dispatch_def sys_numbers)
  have "do_exec P a1 k = Some (Returns 0 ?k')"
    using assms(1,2) l nz(1) by (cases "a1 = 0") (simp_all add: do_exec_def name_arg_def v2_def)
  moreover have "syscall_return rcx ?k' = (entry, CHILD_STACK_BASE + CHILD_STACK_SIZE,
      put_sched ((k_sched (put_vmm v2 k))\<lparr>saved_user_rsp := CHILD_STACK_BASE + CHILD_STACK_SIZE\<rparr>)
        ((put_vmm v2 k)\<lparr>user_return_rip := 0, user_return_rsp := 0\<rparr>))"
    using nz by (simp add: syscall_return_def put_vmm_def put_sched_def)
  moreover have "vmm_of (put_sched ((k_sched (put_vmm v2 k))\<lparr>saved_user_rsp := CHILD_STACK_BASE + CHILD_STACK_SIZE\<rparr>)
        ((put_vmm v2 k)\<lparr>user_return_rip := 0, user_return_rsp := 0\<rparr>)) = v2"
    by (simp add: vmm_of_def put_sched_def put_vmm_def)
  ultimately show ?thesis using d o(1-3) by (intro exI [of _ ?k']) (simp add: put_sched_def)
qed

text \<open>The demonstration image fits below either stack.\<close>

lemma demo_program_fits:
  assumes "seg_pages base sz = [b0, b1, b2, b3]" and "\<forall>b \<in> {b0, b1, b2, b3}. \<not> same_page 0x400000 b" and "spare \<le> 11"
  shows "program_fits (vmem demo_elf) 0x200000 base sz spare demo_elf"
proof -
  let ?m = "vmem demo_elf"
  note f = demo_elf_fields
  have n: "unat (e_phnum ?m 0x200000) = 1" by (simp add: f)
  have "4 * (\<Sum>i\<leftarrow>[0..<unat (e_phnum ?m 0x200000)]. length (ph_pages ?m (ph_at ?m 0x200000 i))) + (4 * length (seg_pages base sz) + spare) \<le> card (vfree demo_elf)"
    unfolding n assms(1) using assms(3) by (simp add: demo_elf_ok demo_elf_facts(3) demo_frames_free)
  moreover have "\<forall>i < unat (e_phnum ?m 0x200000). \<forall>a \<in> set (ph_pages ?m (ph_at ?m 0x200000 i)). \<forall>b \<in> set (seg_pages base sz). \<not> same_page a b"
    unfolding n assms(1) using assms(2) by (simp add: demo_elf_ok)
  moreover have "segs_ok demo_elf 0x200000 [0..<unat (e_phnum ?m 0x200000)]" unfolding n by (rule demo_elf_ok)
  ultimately show ?thesis unfolding program_fits_def using demo_elf_facts(1) demo_elf_ok(1) f(1) by blast
qed

theorem exec_correct_witness:
  "\<exists>k'. syscall_dispatch demo_platform SYS_EXEC 0 0 0 ((demo_kernel demo_drive)\<lparr>k_sched := demo_sched\<lparr>s_vmm := demo_elf\<rparr>\<rparr>) = Some (Returns 0 k') \<and>
    fst (syscall_return 0x1234 k') = 0x400000 \<and> uload 0x7F003FFF (vmm_of (snd (snd (syscall_return 0x1234 k')))) = 0"
proof -
  let ?k = "(demo_kernel demo_drive)\<lparr>k_sched := demo_sched\<lparr>s_vmm := demo_elf\<rparr>\<rparr>" and ?m = "vmem demo_elf"
  have a: "name_arg 0 ?k (ascii ''hello'')" by (simp add: name_arg_def)
  have app: "apps_find demo_platform (ascii ''hello'') = Some 0x200000" by (simp add: demo_platform_def apps_find_def app_table_def ascii_def c_hd_def)
  have pages: "seg_pages CHILD_STACK_BASE CHILD_STACK_SIZE = [0x7F000000, 0x7F001000, 0x7F002000, 0x7F003000]"
    by (simp add: seg_pages_def page_range_def CHILD_STACK_BASE_def CHILD_STACK_SIZE_def PAGE_SIZE_def upt_rec)
  have fits: "program_fits ?m 0x200000 CHILD_STACK_BASE CHILD_STACK_SIZE 0 (vmm_of ?k)"
    using demo_program_fits [OF pages, of 0] by (simp add: vmm_of_def same_page_low low_def)
  have en: "e_entry ?m 0x200000 = 0x400000" by (rule demo_elf_fields)
  obtain k' where k': "syscall_dispatch demo_platform SYS_EXEC 0 0 0 ?k = Some (Returns 0 k')"
    and c: "case syscall_return 0x1234 k' of (rip, rsp, k'') \<Rightarrow> rip = e_entry ?m 0x200000 \<and> rsp = CHILD_STACK_BASE + CHILD_STACK_SIZE \<and>
       vmm_wf (vmm_of k'') \<and> user_return_rip k'' = 0 \<and> user_return_rsp k'' = 0 \<and> program_ready ?m 0x200000 CHILD_STACK_BASE CHILD_STACK_SIZE (vmm_of k'')"
    using exec_correct [OF a app fits, of 0 0 "0x1234"] en by auto
  obtain rip rsp k'' where s: "syscall_return 0x1234 k' = (rip, rsp, k'')" by (metis prod.collapse)
  have "rip = 0x400000" using c en unfolding s by simp
  moreover have "\<forall>j < unat CHILD_STACK_SIZE. uload (CHILD_STACK_BASE + of_nat j) (vmm_of k'') = 0" using c unfolding s program_ready_def by simp
  from this [rule_format, of "0x3FFF"] have "uload 0x7F003FFF (vmm_of k'') = 0" by (simp add: CHILD_STACK_SIZE_def CHILD_STACK_BASE_def)
  ultimately show ?thesis using k' s by (intro exI [of _ k']) simp
qed

section \<open>Redirected streams\<close>

text \<open>C16. A program whose standard output is a file, and one whose standard input is that file.  \<open>SYS_WRITE\<close> claims to have
  written everything and moves the position on in any case.  The file then has the bytes at the old position,
  unless its buffer has to grow and the heap has no block for it: exactly then the file system is unchanged, of which
  the program learns nothing.  A program that reads the file afterwards gets its bytes from its own position on, as
  many as it asks for, and 0 at the end, and changes nothing but its position.\<close>

theorem redirected_streams:
  assumes "current (k_sched k) \<noteq> 0" and "t_stdout_node (cur_task k) = f"
    and "dir_at (fs_of k) d (pre @ RFile f nm p c bs # post)" and "length bs < 2 ^ 31"
    and "unat (t_stdout_pos (cur_task k)) + unat n < 2 ^ 31"
  shows "\<exists>k' bs'. syscall_dispatch P SYS_WRITE fd buf n k = Some (Returns n k') \<and>
      t_stdout_pos (cur_task k') = t_stdout_pos (cur_task k) + n \<and>
      (if no_room_to_grow f (t_stdout_pos (cur_task k) + n) (fs_of k) then fs_of k' = fs_of k \<and> bs' = bs
       else written bs (unat (t_stdout_pos (cur_task k))) (ubytes buf (unat n) k) bs') \<and>
      (\<exists>p' c'. dir_at (fs_of k') d (pre @ RFile f nm p' c' bs' # post)) \<and>
      (\<forall>r buf2 m. current (k_sched r) \<noteq> 0 \<and> t_stdin_node (cur_task r) = f \<and> fs_of r = fs_of k' \<longrightarrow>
         (let got = take (unat m) (drop (unat (t_stdin_pos (cur_task r))) bs') in
          \<exists>r'. syscall_dispatch P SYS_READ fd buf2 m r = Some (Returns (of_nat (length got)) r') \<and> vmm_of r' = ustores buf2 got (vmm_of r) \<and>
            fs_of r' = fs_of r \<and> t_stdin_pos (cur_task r') = t_stdin_pos (cur_task r) + of_nat (length got)))"
proof -
  let ?pos = "t_stdout_pos (cur_task k)" and ?src = "ubytes buf (unat n) k"
  have fa: "file_at (fs_of k) f p c bs" by (rule dir_file_at [OF assms(3)])
  have f0: "f \<noteq> 0" using fa by (simp add: file_at_def)
  have ls: "length ?src = unat n" by (simp add: ubytes_def)
  obtain r fs' where w: "ramfs_write f ?src ?pos (fs_of k) = Some (r, fs')"
    "r = - 1 \<and> fs' = fs_of k \<or> r = c_int (of_nat (length ?src)) \<and> write_done (fs_of k) f p bs (unat ?pos) ?src fs'"
    using ramfs_write_spec [OF fa, of ?pos ?src] assms(5) ls by auto
  define k' where "k' = upd_current (\<lambda>t. t\<lparr>t_stdout_pos := t_stdout_pos t + n\<rparr>) (put_fs fs' k)"
  have d: "syscall_dispatch P SYS_WRITE fd buf n k = Some (Returns n k')"
    using assms(1,2) f0 w(1) by (simp add: syscall_dispatch_def sys_numbers do_write_def k'_def)
  have k': "fs_of k' = fs'" "t_stdout_pos (cur_task k') = ?pos + n"
    by (simp_all add: k'_def upd_current_def fs_of_sched upd_task_def cur_task_def)
  have ln: "length ?src < 2 ^ 31" using assms(5) ls by simp
  have full: "r = - 1 \<longleftrightarrow> no_room_to_grow f (?pos + n) (fs_of k)" using ramfs_write_refusal [OF fa ln w(1)] ls by simp
  obtain bs' p' c' where b: "if no_room_to_grow f (?pos + n) (fs_of k) then fs' = fs_of k \<and> bs' = bs else written bs (unat ?pos) ?src bs'"
    "dir_at fs' d (pre @ RFile f nm p' c' bs' # post)"
  proof (cases "r = - 1")
    case True
    moreover have "c_int (of_nat (length ?src)) \<noteq> - 1" using ln by (simp only: c_int_of_nat)
    ultimately have "fs' = fs_of k" using w(2) by auto
    then show ?thesis using that [of bs p c] assms(3) full True by simp
  next
    case False
    then have "write_done (fs_of k) f p bs (unat ?pos) ?src fs'" using w(2) by blast
    then obtain p' c' bs' where "written bs (unat ?pos) ?src bs'" "dir_at fs' d (pre @ RFile f nm p' c' bs' # post)"
      using dir_write [OF assms(3)] by blast
    then show ?thesis using that full False by metis
  qed
  have lb: "length bs' < 2 ^ 31" using b(1) assms(4,5) ls by (auto simp: written_def split: if_splits)
  have rd: "\<exists>r'. syscall_dispatch P SYS_READ fd buf2 m r = Some (Returns (of_nat (length got)) r') \<and> vmm_of r' = ustores buf2 got (vmm_of r) \<and>
            fs_of r' = fs_of r \<and> t_stdin_pos (cur_task r') = t_stdin_pos (cur_task r) + of_nat (length got)"
    if r: "current (k_sched r) \<noteq> 0" "t_stdin_node (cur_task r) = f" "fs_of r = fs'" and g: "got = take (unat m) (drop (unat (t_stdin_pos (cur_task r))) bs')"
    for r :: "'a kernel" and buf2 m got
  proof -
    have lg: "length got < 2 ^ 31" using lb g by simp
    have ci: "c_int (of_nat (length got)) = int (length got)" using lg by (intro c_int_of_nat) simp
    have rr: "ramfs_read f m (t_stdin_pos (cur_task r)) (fs_of r) = (int (length got), got)"
      using ramfs_read_spec [OF dir_file_at [OF b(2)], of m "t_stdin_pos (cur_task r)"] ci r(3) g by (simp add: Let_def)
    let ?r1 = "uput buf2 got r"
    let ?r' = "if 0 < length got then upd_current (\<lambda>t. t\<lparr>t_stdin_pos := t_stdin_pos t + of_nat (length got)\<rparr>) ?r1 else ?r1"
    have u0: "vmm_of ?r1 = ustores buf2 got (vmm_of r)" by (simp add: uput_def)
    have u: "fs_of ?r1 = fs_of r" "cur_task ?r1 = cur_task r" "current (k_sched ?r1) = current (k_sched r)"
      by (simp_all add: uput_def put_vmm_def fs_of_def files_of_def cur_task_def)
    have "syscall_dispatch P SYS_READ fd buf2 m r = Some (Returns (of_nat (length got)) ?r')"
      using r(1,2) f0 rr by (simp add: syscall_dispatch_def sys_numbers do_read_def Let_def)
    moreover have "vmm_of ?r' = ustores buf2 got (vmm_of r)" "fs_of ?r' = fs_of r"
      "t_stdin_pos (cur_task ?r') = t_stdin_pos (cur_task r) + of_nat (length got)"
      using u u0 by (simp_all add: upd_current_def vmm_of_def fs_of_sched upd_task_def cur_task_def)
    ultimately show ?thesis by blast
  qed
  have e: "\<exists>p' c'. dir_at (fs_of k') d (pre @ RFile f nm p' c' bs' # post)" using b(2) k'(1) by blast
  have w: "if no_room_to_grow f (?pos + n) (fs_of k) then fs_of k' = fs_of k \<and> bs' = bs else written bs (unat ?pos) ?src bs'"
    using b(1) k'(1) by simp
  have r2: "\<forall>r buf2 m. current (k_sched r) \<noteq> 0 \<and> t_stdin_node (cur_task r) = f \<and> fs_of r = fs_of k' \<longrightarrow>
         (let got = take (unat m) (drop (unat (t_stdin_pos (cur_task r))) bs') in
          \<exists>r'. syscall_dispatch P SYS_READ fd buf2 m r = Some (Returns (of_nat (length got)) r') \<and> vmm_of r' = ustores buf2 got (vmm_of r) \<and>
            fs_of r' = fs_of r \<and> t_stdin_pos (cur_task r') = t_stdin_pos (cur_task r) + of_nat (length got))"
    unfolding Let_def by (intro allI impI rd [OF _ _ _ refl]) (simp_all add: k'(1))
  show ?thesis by (intro exI [of _ k'] exI [of _ bs'] conjI d k'(2) w e r2)
qed

theorem redirected_streams_witness:
  "\<exists>k k' f p c. syscall_dispatch demo_platform SYS_WRITE 1 0x400000 2 k = Some (Returns 2 k') \<and> fs_of k = demo_fs \<and>
    t_stdout_pos (cur_task k') = 2 \<and> dir_at (fs_of k) (r_root demo_fs) [RFile f [97] p c [1, 2, 3]] \<and>
    (\<exists>p' c'. dir_at (fs_of k') (r_root demo_fs) [RFile f [97] p' c' [0, 0, 3]])"
proof -
  obtain t where t: "dir_at demo_fs (r_root demo_fs) [t]" "erase t = File [97] [1, 2, 3]" using demo_fs_dir by blast
  then obtain f p c where e: "t = RFile f [97] p c [1, 2, 3]" by (cases t) auto
  define k :: "drive kernel" where "k = upd_current (\<lambda>t. t\<lparr>t_stdout_node := f, t_stdout_pos := 0\<rparr>) (demo_kernel demo_drive)"
  have k: "current (k_sched k) \<noteq> 0" "t_stdout_node (cur_task k) = f" "t_stdout_pos (cur_task k) = 0" "fs_of k = demo_fs"
    using demo_kernel_fs by (simp_all add: k_def upd_current_def upd_task_def cur_task_def fs_of_sched) (simp add: demo_kernel_def demo_sched_def)
  have da: "dir_at (fs_of k) (r_root demo_fs) ([] @ RFile f [97] p c [1, 2, 3] # [])" using t(1) e k(4) by simp
  have l: "length [1, 2, 3 :: u8] < 2 ^ 31" "unat (t_stdout_pos (cur_task k)) + unat (2 :: u64) < 2 ^ 31" using k(3) by simp_all
  have fa: "file_at (fs_of k) f p c [1, 2, 3]" by (rule dir_file_at [OF da])
  then have "3 \<le> unat c" by (simp add: file_at_def)
  then have "(0 :: u64) + 2 \<le> c" by (simp add: word_le_nat_alt)
  then have nr: "\<not> no_room_to_grow f (0 + 2) (fs_of k)" by (rule fits_no_refusal [OF fa])
  have n: "unat (2 :: u64) = Suc (Suc 0)" by simp
  have u: "ubytes 0x400000 (unat (2 :: u64)) k = [0, 0]"
    unfolding n by (simp add: ubytes_def uload_def vmm_of_def k_def upd_current_def upd_task_def demo_kernel_def demo_sched_def demo_vmm_def)
  from redirected_streams [OF k(1,2) da l, of demo_platform 1 "0x400000"] obtain k' bs' p' c' where
    w: "syscall_dispatch demo_platform SYS_WRITE 1 0x400000 2 k = Some (Returns 2 k')" "t_stdout_pos (cur_task k') = 2"
    "written [1, 2, 3] 0 [0, 0] bs'" "dir_at (fs_of k') (r_root demo_fs) ([] @ RFile f [97] p' c' bs' # [])"
    using nr unfolding k(3) u by auto
  have "bs' = [0, 0, 3]"
  proof (rule nth_equalityI)
    show "length bs' = length [0, 0, 3 :: u8]" using w(3) by (simp add: written_def)
    show "bs' ! i = [0, 0, 3] ! i" if "i < length bs'" for i
      using w(3) that by (auto simp: written_def less_Suc_eq numeral_3_eq_3 numeral_2_eq_2)
  qed
  then have j: "\<exists>p' c'. dir_at (fs_of k') (r_root demo_fs) [RFile f [97] p' c' [0, 0, 3]]" using w(4) by auto
  have i: "dir_at (fs_of k) (r_root demo_fs) [RFile f [97] p c [1, 2, 3]]" using da by simp
  show ?thesis by (intro exI [of _ k] exI [of _ k'] exI [of _ f] exI [of _ p] exI [of _ c] conjI w(1,2) k(4) i j)
qed

text \<open>A number that is no system call: -1, and nothing changes.\<close>

theorem unknown_call: "31 < nr \<or> nr = 0 \<Longrightarrow> syscall_dispatch P nr a1 a2 a3 k = Some (Returns (- 1) k)"
  by (auto simp: syscall_dispatch_def sys_numbers)

theorem unknown_call_witness: "syscall_dispatch demo_platform 32 0 0 0 (demo_kernel demo_drive) = Some (Returns (- 1) (demo_kernel demo_drive))"
  by (rule unknown_call) simp

end
