(* ===== verification/User_Calls.thy ===== *)
theory User_Calls
  imports Syscall User_Lib
begin

text \<open>
  The system calls as the user programs see them, \<open>user/lib/syscall.h\<close>, \<open>user/lib/syscall.c\<close> and the file functions of
  \<open>user/lib/stdio.c\<close>.  A \<open>trap\<close> is the effect of the \<open>syscall\<close> instruction with the number in \<open>rax\<close> and the
  arguments in \<open>rdi\<close>, \<open>rsi\<close>, \<open>rdx\<close>: the value left in \<open>rax\<close> and the new state, or \<open>None\<close> when the instruction does not
  come back.  The record \<open>os\<close> has the same calls with strings and buffers passed as byte lists, which is how the
  programs are modelled; \<open>kernel_os\<close> is that interface implemented by the kernel, and the wrappers are shown to reach
  exactly its operations.
\<close>

section \<open>Numbers and wrappers\<close>

definition U_SYS_WRITE :: u64 where "U_SYS_WRITE = 1"
definition U_SYS_EXIT :: u64 where "U_SYS_EXIT = 2"
definition U_SYS_READ :: u64 where "U_SYS_READ = 3"
definition U_SYS_OPEN :: u64 where "U_SYS_OPEN = 4"
definition U_SYS_CLOSE :: u64 where "U_SYS_CLOSE = 5"
definition U_SYS_FREAD :: u64 where "U_SYS_FREAD = 6"
definition U_SYS_FWRITE :: u64 where "U_SYS_FWRITE = 7"
definition U_SYS_LS :: u64 where "U_SYS_LS = 8"
definition U_SYS_UNLINK :: u64 where "U_SYS_UNLINK = 9"
definition U_SYS_SYNC :: u64 where "U_SYS_SYNC = 10"
definition U_SYS_SLEEP :: u64 where "U_SYS_SLEEP = 11"
definition U_SYS_MKDIR :: u64 where "U_SYS_MKDIR = 12"
definition U_SYS_CHDIR :: u64 where "U_SYS_CHDIR = 13"
definition U_SYS_GETCWD :: u64 where "U_SYS_GETCWD = 14"
definition U_SYS_OPENDIR :: u64 where "U_SYS_OPENDIR = 15"
definition U_SYS_READDIR :: u64 where "U_SYS_READDIR = 16"
definition U_SYS_SPAWN :: u64 where "U_SYS_SPAWN = 17"
definition U_SYS_SEM_WAIT :: u64 where "U_SYS_SEM_WAIT = 18"
definition U_SYS_SEM_POST :: u64 where "U_SYS_SEM_POST = 19"
definition U_SYS_EXEC :: u64 where "U_SYS_EXEC = 20"
definition U_SYS_FORK :: u64 where "U_SYS_FORK = 21"
definition U_SYS_FAT_LS :: u64 where "U_SYS_FAT_LS = 22"
definition U_SYS_FAT_READ :: u64 where "U_SYS_FAT_READ = 23"
definition U_SYS_FAT_WRITE :: u64 where "U_SYS_FAT_WRITE = 24"
definition U_SYS_FAT_DELETE :: u64 where "U_SYS_FAT_DELETE = 25"
definition U_SYS_SET_FG :: u64 where "U_SYS_SET_FG = 26"
definition U_SYS_WAIT :: u64 where "U_SYS_WAIT = 27"
definition U_SYS_SYSINFO :: u64 where "U_SYS_SYSINFO = 28"
definition U_SYS_PS :: u64 where "U_SYS_PS = 29"
definition U_SYS_KILL :: u64 where "U_SYS_KILL = 30"
definition U_SYS_REDIR :: u64 where "U_SYS_REDIR = 31"

lemmas u_numbers = U_SYS_WRITE_def U_SYS_EXIT_def U_SYS_READ_def U_SYS_OPEN_def U_SYS_CLOSE_def U_SYS_FREAD_def U_SYS_FWRITE_def
  U_SYS_LS_def U_SYS_UNLINK_def U_SYS_SYNC_def U_SYS_SLEEP_def U_SYS_MKDIR_def U_SYS_CHDIR_def U_SYS_GETCWD_def U_SYS_OPENDIR_def
  U_SYS_READDIR_def U_SYS_SPAWN_def U_SYS_SEM_WAIT_def U_SYS_SEM_POST_def U_SYS_EXEC_def U_SYS_FORK_def U_SYS_FAT_LS_def
  U_SYS_FAT_READ_def U_SYS_FAT_WRITE_def U_SYS_FAT_DELETE_def U_SYS_SET_FG_def U_SYS_WAIT_def U_SYS_SYSINFO_def U_SYS_PS_def
  U_SYS_KILL_def U_SYS_REDIR_def

type_synonym 's trap = "u64 \<Rightarrow> u64 \<Rightarrow> u64 \<Rightarrow> u64 \<Rightarrow> 's \<Rightarrow> (u64 \<times> 's) option"

definition syscall3 :: "'s trap \<Rightarrow> 's trap" where
  "syscall3 T n a1 a2 a3 = T n a1 a2 a3"

definition sys_write :: "'s trap \<Rightarrow> int \<Rightarrow> u64 \<Rightarrow> u64 \<Rightarrow> 's \<Rightarrow> (u64 \<times> 's) option" where
  "sys_write T fd buf n = syscall3 T U_SYS_WRITE (word_of_int fd) buf n"

definition sys_read :: "'s trap \<Rightarrow> int \<Rightarrow> u64 \<Rightarrow> u64 \<Rightarrow> 's \<Rightarrow> (u64 \<times> 's) option" where
  "sys_read T fd buf n = syscall3 T U_SYS_READ (word_of_int fd) buf n"

definition sys_open :: "'s trap \<Rightarrow> u64 \<Rightarrow> 's \<Rightarrow> (u64 \<times> 's) option" where
  "sys_open T name = syscall3 T U_SYS_OPEN name 0 0"

definition sys_close :: "'s trap \<Rightarrow> int \<Rightarrow> 's \<Rightarrow> (u64 \<times> 's) option" where
  "sys_close T fd = syscall3 T U_SYS_CLOSE (word_of_int fd) 0 0"

definition sys_fread :: "'s trap \<Rightarrow> int \<Rightarrow> u64 \<Rightarrow> u64 \<Rightarrow> 's \<Rightarrow> (u64 \<times> 's) option" where
  "sys_fread T fd buf n = syscall3 T U_SYS_FREAD (word_of_int fd) buf n"

definition sys_fwrite :: "'s trap \<Rightarrow> int \<Rightarrow> u64 \<Rightarrow> u64 \<Rightarrow> 's \<Rightarrow> (u64 \<times> 's) option" where
  "sys_fwrite T fd buf n = syscall3 T U_SYS_FWRITE (word_of_int fd) buf n"

definition sys_ls :: "'s trap \<Rightarrow> u64 \<Rightarrow> u64 \<Rightarrow> 's \<Rightarrow> (u64 \<times> 's) option" where
  "sys_ls T buf mx = syscall3 T U_SYS_LS buf mx 0"

definition sys_unlink :: "'s trap \<Rightarrow> u64 \<Rightarrow> 's \<Rightarrow> (u64 \<times> 's) option" where
  "sys_unlink T name = syscall3 T U_SYS_UNLINK name 0 0"

definition sys_sync :: "'s trap \<Rightarrow> 's \<Rightarrow> (u64 \<times> 's) option" where
  "sys_sync T = syscall3 T U_SYS_SYNC 0 0 0"

definition sys_sleep :: "'s trap \<Rightarrow> u64 \<Rightarrow> 's \<Rightarrow> (u64 \<times> 's) option" where
  "sys_sleep T ms = syscall3 T U_SYS_SLEEP ms 0 0"

definition sys_mkdir :: "'s trap \<Rightarrow> u64 \<Rightarrow> 's \<Rightarrow> (u64 \<times> 's) option" where
  "sys_mkdir T p = syscall3 T U_SYS_MKDIR p 0 0"

definition sys_chdir :: "'s trap \<Rightarrow> u64 \<Rightarrow> 's \<Rightarrow> (u64 \<times> 's) option" where
  "sys_chdir T p = syscall3 T U_SYS_CHDIR p 0 0"

definition sys_getcwd :: "'s trap \<Rightarrow> u64 \<Rightarrow> u64 \<Rightarrow> 's \<Rightarrow> (u64 \<times> 's) option" where
  "sys_getcwd T buf mx = syscall3 T U_SYS_GETCWD buf mx 0"

definition sys_opendir :: "'s trap \<Rightarrow> u64 \<Rightarrow> 's \<Rightarrow> (u64 \<times> 's) option" where
  "sys_opendir T p = syscall3 T U_SYS_OPENDIR p 0 0"

definition sys_readdir :: "'s trap \<Rightarrow> int \<Rightarrow> u64 \<Rightarrow> u64 \<Rightarrow> 's \<Rightarrow> (u64 \<times> 's) option" where
  "sys_readdir T fd name mx = syscall3 T U_SYS_READDIR (word_of_int fd) name mx"

definition sys_spawn :: "'s trap \<Rightarrow> 's \<Rightarrow> (u64 \<times> 's) option" where
  "sys_spawn T = syscall3 T U_SYS_SPAWN 0 0 0"

definition sys_sem_wait :: "'s trap \<Rightarrow> int \<Rightarrow> 's \<Rightarrow> (u64 \<times> 's) option" where
  "sys_sem_wait T i = syscall3 T U_SYS_SEM_WAIT (word_of_int i) 0 0"

definition sys_sem_post :: "'s trap \<Rightarrow> int \<Rightarrow> 's \<Rightarrow> (u64 \<times> 's) option" where
  "sys_sem_post T i = syscall3 T U_SYS_SEM_POST (word_of_int i) 0 0"

definition sys_exec :: "'s trap \<Rightarrow> u64 \<Rightarrow> 's \<Rightarrow> (u64 \<times> 's) option" where
  "sys_exec T name = syscall3 T U_SYS_EXEC name 0 0"

definition sys_fat_ls :: "'s trap \<Rightarrow> u64 \<Rightarrow> u64 \<Rightarrow> 's \<Rightarrow> (u64 \<times> 's) option" where
  "sys_fat_ls T buf mx = syscall3 T U_SYS_FAT_LS buf mx 0"

definition sys_fat_read :: "'s trap \<Rightarrow> u64 \<Rightarrow> u64 \<Rightarrow> u64 \<Rightarrow> 's \<Rightarrow> (u64 \<times> 's) option" where
  "sys_fat_read T name buf mx = syscall3 T U_SYS_FAT_READ name buf mx"

definition sys_fat_write :: "'s trap \<Rightarrow> u64 \<Rightarrow> u64 \<Rightarrow> u64 \<Rightarrow> 's \<Rightarrow> (u64 \<times> 's) option" where
  "sys_fat_write T name data n = syscall3 T U_SYS_FAT_WRITE name data n"

definition sys_fat_delete :: "'s trap \<Rightarrow> u64 \<Rightarrow> 's \<Rightarrow> (u64 \<times> 's) option" where
  "sys_fat_delete T name = syscall3 T U_SYS_FAT_DELETE name 0 0"

definition sys_set_fg :: "'s trap \<Rightarrow> 's \<Rightarrow> (u64 \<times> 's) option" where
  "sys_set_fg T = syscall3 T U_SYS_SET_FG 0 0 0"

definition sys_wait :: "'s trap \<Rightarrow> 's \<Rightarrow> (u64 \<times> 's) option" where
  "sys_wait T = syscall3 T U_SYS_WAIT 0 0 0"

definition sys_sysinfo :: "'s trap \<Rightarrow> u64 \<Rightarrow> 's \<Rightarrow> (u64 \<times> 's) option" where
  "sys_sysinfo T buf = syscall3 T U_SYS_SYSINFO buf 0 0"

definition sys_ps :: "'s trap \<Rightarrow> u64 \<Rightarrow> u64 \<Rightarrow> 's \<Rightarrow> (u64 \<times> 's) option" where
  "sys_ps T buf mx = syscall3 T U_SYS_PS buf mx 0"

definition sys_kill :: "'s trap \<Rightarrow> u64 \<Rightarrow> 's \<Rightarrow> (u64 \<times> 's) option" where
  "sys_kill T pid = syscall3 T U_SYS_KILL pid 0 0"

definition sys_redir :: "'s trap \<Rightarrow> u64 \<Rightarrow> u64 \<Rightarrow> 's \<Rightarrow> (u64 \<times> 's) option" where
  "sys_redir T which name = syscall3 T U_SYS_REDIR which name 0"

text \<open>\<open>sys_exit\<close> loops behind the call.\<close>

definition sys_exit :: "'s trap \<Rightarrow> int \<Rightarrow> 's \<Rightarrow> (u64 \<times> 's) option" where
  "sys_exit T code s = (case syscall3 T U_SYS_EXIT (word_of_int code) 0 0 s of _ \<Rightarrow> None)"

text \<open>\<open>sys_fork\<close> leaves the argument registers as they are.\<close>

definition sys_fork :: "'s trap \<Rightarrow> u64 \<Rightarrow> u64 \<Rightarrow> u64 \<Rightarrow> 's \<Rightarrow> (u64 \<times> 's) option" where
  "sys_fork T rdi rsi rdx = T U_SYS_FORK rdi rsi rdx"

section \<open>The interface of the programs\<close>

record 's os =
  u_write :: "u8 list \<Rightarrow> 's \<Rightarrow> (u64 \<times> 's) option"
  u_read :: "nat \<Rightarrow> 's \<Rightarrow> (u64 \<times> u8 list \<times> 's) option"
  u_open :: "u8 list \<Rightarrow> 's \<Rightarrow> (u64 \<times> 's) option"
  u_close :: "int \<Rightarrow> 's \<Rightarrow> (u64 \<times> 's) option"
  u_fread :: "int \<Rightarrow> nat \<Rightarrow> 's \<Rightarrow> (u64 \<times> u8 list \<times> 's) option"
  u_fwrite :: "int \<Rightarrow> u8 list \<Rightarrow> 's \<Rightarrow> (u64 \<times> 's) option"
  u_ls :: "nat \<Rightarrow> 's \<Rightarrow> (u64 \<times> u8 list \<times> 's) option"
  u_unlink :: "u8 list \<Rightarrow> 's \<Rightarrow> (u64 \<times> 's) option"
  u_sync :: "'s \<Rightarrow> (u64 \<times> 's) option"
  u_sleep :: "u64 \<Rightarrow> 's \<Rightarrow> (u64 \<times> 's) option"
  u_mkdir :: "u8 list \<Rightarrow> 's \<Rightarrow> (u64 \<times> 's) option"
  u_chdir :: "u8 list \<Rightarrow> 's \<Rightarrow> (u64 \<times> 's) option"
  u_getcwd :: "nat \<Rightarrow> 's \<Rightarrow> (u64 \<times> u8 list \<times> 's) option"
  u_opendir :: "u8 list \<Rightarrow> 's \<Rightarrow> (u64 \<times> 's) option"
  u_readdir :: "int \<Rightarrow> nat \<Rightarrow> 's \<Rightarrow> (u64 \<times> u8 list \<times> 's) option"
  u_spawn :: "'s \<Rightarrow> (u64 \<times> 's) option"
  u_sem_wait :: "int \<Rightarrow> 's \<Rightarrow> (u64 \<times> 's) option"
  u_sem_post :: "int \<Rightarrow> 's \<Rightarrow> (u64 \<times> 's) option"
  u_exec :: "u8 list \<Rightarrow> 's \<Rightarrow> (u64 \<times> 's) option"
  u_fork :: "'s \<Rightarrow> (u64 \<times> 's) option"
  u_fat_ls :: "nat \<Rightarrow> 's \<Rightarrow> (u64 \<times> u8 list \<times> 's) option"
  u_fat_read :: "u8 list \<Rightarrow> nat \<Rightarrow> 's \<Rightarrow> (u64 \<times> u8 list \<times> 's) option"
  u_fat_write :: "u8 list \<Rightarrow> u8 list \<Rightarrow> 's \<Rightarrow> (u64 \<times> 's) option"
  u_fat_delete :: "u8 list \<Rightarrow> 's \<Rightarrow> (u64 \<times> 's) option"
  u_set_fg :: "'s \<Rightarrow> (u64 \<times> 's) option"
  u_wait :: "'s \<Rightarrow> (u64 \<times> 's) option"
  u_sysinfo :: "'s \<Rightarrow> (u64 \<times> u64 list \<times> 's) option"
  u_ps :: "nat \<Rightarrow> 's \<Rightarrow> (u64 \<times> u8 list \<times> 's) option"
  u_kill :: "int \<Rightarrow> 's \<Rightarrow> (u64 \<times> 's) option"
  u_redir :: "int \<Rightarrow> u8 list \<Rightarrow> 's \<Rightarrow> (u64 \<times> 's) option"
  u_junk :: "'s \<Rightarrow> u8"

text \<open>The result of an \<open>int\<close> function, and of a \<open>long\<close> one.\<close>

definition as_int :: "(u64 \<times> 's) option \<Rightarrow> (int \<times> 's) option" where
  "as_int r = map_option (\<lambda>(v, s). (sint (ucast v :: u32), s)) r"

definition as_long :: "(u64 \<times> 's) option \<Rightarrow> (int \<times> 's) option" where
  "as_long r = map_option (\<lambda>(v, s). (sint v, s)) r"

definition fs_open :: "'s os \<Rightarrow> u8 list \<Rightarrow> 's \<Rightarrow> (int \<times> 's) option" where
  "fs_open S name s = as_int (u_open S name s)"

definition fs_close :: "'s os \<Rightarrow> int \<Rightarrow> 's \<Rightarrow> (int \<times> 's) option" where
  "fs_close S fd s = as_int (u_close S fd s)"

definition fs_read :: "'s os \<Rightarrow> int \<Rightarrow> nat \<Rightarrow> 's \<Rightarrow> (int \<times> u8 list \<times> 's) option" where
  "fs_read S fd n s = as_long (u_fread S fd n s)"

definition fs_write :: "'s os \<Rightarrow> int \<Rightarrow> u8 list \<Rightarrow> 's \<Rightarrow> (int \<times> 's) option" where
  "fs_write S fd bs s = as_long (u_fwrite S fd bs s)"

definition fs_ls :: "'s os \<Rightarrow> nat \<Rightarrow> 's \<Rightarrow> (int \<times> u8 list \<times> 's) option" where
  "fs_ls S mx s = as_long (u_ls S mx s)"

definition fs_unlink :: "'s os \<Rightarrow> u8 list \<Rightarrow> 's \<Rightarrow> (int \<times> 's) option" where
  "fs_unlink S name s = as_int (u_unlink S name s)"

definition fs_sync :: "'s os \<Rightarrow> 's \<Rightarrow> (int \<times> 's) option" where
  "fs_sync S s = as_int (u_sync S s)"

definition fs_mkdir :: "'s os \<Rightarrow> u8 list \<Rightarrow> 's \<Rightarrow> (int \<times> 's) option" where
  "fs_mkdir S p s = as_int (u_mkdir S p s)"

definition fs_chdir :: "'s os \<Rightarrow> u8 list \<Rightarrow> 's \<Rightarrow> (int \<times> 's) option" where
  "fs_chdir S p s = as_int (u_chdir S p s)"

definition fs_getcwd :: "'s os \<Rightarrow> nat \<Rightarrow> 's \<Rightarrow> (int \<times> u8 list \<times> 's) option" where
  "fs_getcwd S mx s = as_int (u_getcwd S mx s)"

text \<open>The loop of \<open>fs_ls_path\<close>: \<open>out\<close> is the buffer so far; the name delivered ends in NUL, an unwritten one is what the
  variable held before.\<close>

partial_function (option) ls_path_loop :: "'s os \<Rightarrow> int \<Rightarrow> nat \<Rightarrow> u8 list \<Rightarrow> u8 list \<Rightarrow> 's \<Rightarrow> (u8 list \<times> 's) option" where
  "ls_path_loop S fd mx name out s = do {
     (r, bs, s) \<leftarrow> u_readdir S fd 64 s;
     if sint r \<le> 0 then Some (out, s)
     else do {
       let name = (if bs = [] then name else takeWhile (\<lambda>c. c \<noteq> 0) bs);
       if mx < length out + length name + 1 then Some (out, s)
       else ls_path_loop S fd mx name (out @ name @ [10]) s
     }
   }"

definition fs_ls_path :: "'s os \<Rightarrow> u8 list \<Rightarrow> nat \<Rightarrow> 's \<Rightarrow> (int \<times> u8 list \<times> 's) option" where
  "fs_ls_path S p mx s = do {
     (fd, s) \<leftarrow> as_int (u_opendir S p s);
     if fd < 0 then Some (- 1, [], s)
     else do {
       (out, s) \<leftarrow> ls_path_loop S fd mx [] [] s;
       (_, s) \<leftarrow> u_close S fd s;
       Some (int (length out), out, s)
     }
   }"

definition lock_stdout :: "'s os \<Rightarrow> 's \<Rightarrow> (u64 \<times> 's) option" where
  "lock_stdout S s = u_sem_wait S 0 s"

definition unlock_stdout :: "'s os \<Rightarrow> 's \<Rightarrow> (u64 \<times> 's) option" where
  "unlock_stdout S s = u_sem_post S 0 s"

definition fs_fat_ls :: "'s os \<Rightarrow> nat \<Rightarrow> 's \<Rightarrow> (int \<times> u8 list \<times> 's) option" where
  "fs_fat_ls S mx s = as_long (u_fat_ls S mx s)"

definition fs_fat_read :: "'s os \<Rightarrow> u8 list \<Rightarrow> nat \<Rightarrow> 's \<Rightarrow> (int \<times> u8 list \<times> 's) option" where
  "fs_fat_read S name mx s = as_long (u_fat_read S name mx s)"

definition fs_fat_write :: "'s os \<Rightarrow> u8 list \<Rightarrow> u8 list \<Rightarrow> 's \<Rightarrow> (int \<times> 's) option" where
  "fs_fat_write S name bs s = as_long (u_fat_write S name bs s)"

definition fs_fat_delete :: "'s os \<Rightarrow> u8 list \<Rightarrow> 's \<Rightarrow> (int \<times> 's) option" where
  "fs_fat_delete S name s = as_long (u_fat_delete S name s)"

section \<open>The kernel behind the interface\<close>

definition kernel_trap :: "'d platform \<Rightarrow> 'd kernel trap" where
  "kernel_trap P nr a1 a2 a3 k = (case syscall_dispatch P nr a1 a2 a3 k of Some (Returns v k') \<Rightarrow> Some (v, k') | _ \<Rightarrow> None)"

definition v_write :: "'d platform \<Rightarrow> u8 list \<Rightarrow> 'd kernel \<Rightarrow> (u64 \<times> 'd kernel) option" where
  "v_write P bs k =
     (let n = of_nat (length bs) in
      if current (k_sched k) \<noteq> 0 \<and> t_stdout_node (cur_task k) \<noteq> 0 then do {
        (r, fs) \<leftarrow> ramfs_write (t_stdout_node (cur_task k)) bs (t_stdout_pos (cur_task k)) (fs_of k);
        Some (n, upd_current (\<lambda>t. t\<lparr>t_stdout_pos := t_stdout_pos t + n\<rparr>) (put_fs fs k))
      }
      else Some (n, fold (console_putc P) bs k))"

fun pull_keys :: "nat \<Rightarrow> 'd kernel \<Rightarrow> (u8 list \<times> 'd kernel) option" where
  "pull_keys 0 k = Some ([], k)"
| "pull_keys (Suc n) k =
     (case keyboard_getchar_nonblock (k_kbd k) of
        (c, kb) \<Rightarrow> if c < 0 then None else map_option (\<lambda>(bs, k). (word_of_int c # bs, k)) (pull_keys n (k\<lparr>k_kbd := kb\<rparr>)))"

definition v_read :: "nat \<Rightarrow> 'd kernel \<Rightarrow> (u64 \<times> u8 list \<times> 'd kernel) option" where
  "v_read n k =
     (if current (k_sched k) \<noteq> 0 \<and> t_stdin_node (cur_task k) \<noteq> 0 then
        (case ramfs_read (t_stdin_node (cur_task k)) (of_nat n) (t_stdin_pos (cur_task k)) (fs_of k) of
           (r, bs) \<Rightarrow> Some (if 0 < r then word_of_int r else 0, bs,
              if 0 < r then upd_current (\<lambda>t. t\<lparr>t_stdin_pos := t_stdin_pos t + word_of_int r\<rparr>) k else k))
      else if foreground (k_sched k) \<noteq> 0 \<and> current (k_sched k) \<noteq> foreground (k_sched k) then
        map_option (\<lambda>s. (0, [], put_sched s k)) (task_sleep 50 (k_sched k))
      else map_option (\<lambda>(bs, k). (of_nat n, bs, k)) (pull_keys n k))"

definition with_files :: "(int \<times> files) option \<Rightarrow> 'd kernel \<Rightarrow> (u64 \<times> 'd kernel) option" where
  "with_files r k = map_option (\<lambda>(v, f). (ret_int v, put_files f k)) r"

definition with_sched :: "sched option \<Rightarrow> 'd kernel \<Rightarrow> (u64 \<times> 'd kernel) option" where
  "with_sched r k = map_option (\<lambda>s. (0, put_sched s k)) r"

definition v_fread :: "int \<Rightarrow> nat \<Rightarrow> 'd kernel \<Rightarrow> (u64 \<times> u8 list \<times> 'd kernel) option" where
  "v_fread fd n k = (case file_read fd (of_nat n) (files_of k) of (r, bs, f) \<Rightarrow> Some (ret_int r, bs, put_files f k))"

definition v_ls :: "nat \<Rightarrow> 'd kernel \<Rightarrow> (u64 \<times> u8 list \<times> 'd kernel) option" where
  "v_ls mx k = map_option (\<lambda>out. (of_nat (length out), out, k))
     (ls_loop (rnodes (fs_of k)) (of_nat mx) (n_children (rnodes (fs_of k) (r_cwd (fs_of k)))) [])"

definition v_unlink :: "u8 list \<Rightarrow> 'd kernel \<Rightarrow> (u64 \<times> 'd kernel) option" where
  "v_unlink s k = do {
     n \<leftarrow> ramfs_lookup s (fs_of k);
     if n = 0 then Some (ret_int (- 1), k)
     else map_option (\<lambda>(r, fs). (ret_int r, put_fs fs k)) (ramfs_unlink_node n (fs_of k))
   }"

definition v_mkdir :: "u8 list \<Rightarrow> 'd kernel \<Rightarrow> (u64 \<times> 'd kernel) option" where
  "v_mkdir name k = do {
     let last_slash = slash_loop name 0 (- 1);
     let plen = (if 127 < last_slash then 127 else last_slash);
     parent \<leftarrow> (if 0 \<le> last_slash then (if plen = 0 then Some (r_root (fs_of k)) else ramfs_lookup (take (nat plen) name) (fs_of k))
               else Some (r_cwd (fs_of k)));
     if parent = 0 \<or> n_type (rnodes (fs_of k) parent) \<noteq> NODE_DIR then Some (ret_int (- 1), k)
     else do {
       (n, fs) \<leftarrow> ramfs_mkdir parent (if 0 \<le> last_slash then drop (nat last_slash + 1) name else name) (fs_of k);
       Some (if n \<noteq> 0 then 0 else ret_int (- 1), put_fs fs k)
     }
   }"

definition v_chdir :: "u8 list \<Rightarrow> 'd kernel \<Rightarrow> (u64 \<times> 'd kernel) option" where
  "v_chdir s k = do {
     n \<leftarrow> ramfs_lookup s (fs_of k);
     Some (if n = 0 \<or> n_type (rnodes (fs_of k) n) \<noteq> NODE_DIR then (ret_int (- 1), k)
           else (0, put_fs (ramfs_set_cwd n (fs_of k)) k))
   }"

definition v_readdir :: "int \<Rightarrow> nat \<Rightarrow> 'd kernel \<Rightarrow> (u64 \<times> u8 list \<times> 'd kernel) option" where
  "v_readdir fd mx k = do {
     (r, ent, f) \<leftarrow> dir_read fd mx (files_of k);
     Some (ret_int r, (case ent of None \<Rightarrow> [] | Some (s, ty) \<Rightarrow> s @ [0]), put_files f k)
   }"

definition v_fat :: "(int \<times> u8 list \<times> kheap \<times> 'd) option \<Rightarrow> 'd kernel \<Rightarrow> (u64 \<times> u8 list \<times> 'd kernel) option" where
  "v_fat r k = map_option (\<lambda>(v, out, h, d). (ret_int v, out, put_heap h k\<lparr>k_disk := d\<rparr>)) r"

definition v_redir :: "int \<Rightarrow> u8 list \<Rightarrow> 'd kernel \<Rightarrow> (u64 \<times> 'd kernel) option" where
  "v_redir which name k =
     (if current (k_sched k) = 0 then Some (- 1, k)
      else do {
        (n, f) \<leftarrow> file_open_node name (files_of k);
        let k = put_files f k;
        if n = 0 then Some (- 1, k)
        else if which = 0 then Some (0, upd_current (\<lambda>t. t\<lparr>t_stdin_node := n, t_stdin_pos := 0\<rparr>) k)
        else Some (0, upd_current (\<lambda>t. t\<lparr>t_stdout_node := n, t_stdout_pos := 0\<rparr>)
               (put_fs (upd_node n (\<lambda>d. d\<lparr>n_size := 0\<rparr>) (fs_of k)) k))
      })"

definition v_exec :: "'d platform \<Rightarrow> u8 list \<Rightarrow> 'd kernel \<Rightarrow> (u64 \<times> 'd kernel) option" where
  "v_exec P s k =
     (case apps_find P s of
        None \<Rightarrow> Some (- 1, k)
      | Some elf \<Rightarrow>
          (case user_load_elf elf (vmm_of k) of
             (entry, v) \<Rightarrow>
               if entry = 0 then Some (- 1, put_vmm v k)
               else Some (0, (put_vmm (user_setup_stack_at CHILD_STACK_BASE CHILD_STACK_SIZE v) k)
                      \<lparr>user_return_rip := entry, user_return_rsp := CHILD_STACK_BASE + CHILD_STACK_SIZE\<rparr>)))"

definition kernel_os :: "'d platform \<Rightarrow> 'd kernel os" where
  "kernel_os P = \<lparr>
     u_write = v_write P, u_read = v_read,
     u_open = (\<lambda>s k. with_files (file_open s (files_of k)) k),
     u_close = (\<lambda>fd k. with_files (Some (file_close fd (files_of k))) k),
     u_fread = v_fread,
     u_fwrite = (\<lambda>fd bs k. with_files (file_write fd bs (files_of k)) k),
     u_ls = v_ls, u_unlink = v_unlink,
     u_sync = (\<lambda>k. map_option (\<lambda>(r, k). (ret_int r, k)) (do_sync P k)),
     u_sleep = (\<lambda>ms k. with_sched (task_sleep ms (k_sched k)) k),
     u_mkdir = v_mkdir, u_chdir = v_chdir,
     u_getcwd = (\<lambda>mx k. map_option (\<lambda>s. (0, s @ [0], k)) (ramfs_get_path (fs_of k) (r_cwd (fs_of k)) mx)),
     u_opendir = (\<lambda>s k. with_files (dir_open s (files_of k)) k),
     u_readdir = v_readdir,
     u_spawn = (\<lambda>k. map_option (\<lambda>(r, k). (ret_int r, k)) (kernel_spawn_child P k)),
     u_sem_wait = (\<lambda>i k. map_option (\<lambda>(ss, s). (0, put_sched s k\<lparr>k_sems := ss\<rparr>)) (sem_wait i (k_sems k, k_sched k))),
     u_sem_post = (\<lambda>i k. (case sem_post i (k_sems k, k_sched k) of (ss, s) \<Rightarrow> Some (0, put_sched s k\<lparr>k_sems := ss\<rparr>))),
     u_exec = v_exec P,
     u_fork = (\<lambda>k. map_option (\<lambda>(r, s). (ret_int r, put_sched s k)) (task_fork (pl_fbi P) (fork_child_entry P) (k_sched k))),
     u_fat_ls = (\<lambda>mx k. v_fat (fat16_list_root (pl_disk P) (k_fat k) (int mx) (s_heap (k_sched k), k_disk k)) k),
     u_fat_read = (\<lambda>s mx k. v_fat (fat16_read_file (pl_disk P) (k_fat k) s (int mx) (s_heap (k_sched k), k_disk k)) k),
     u_fat_write = (\<lambda>s bs k. map_option (\<lambda>(r, d). (ret_int r, k\<lparr>k_disk := d\<rparr>))
        (fat16_write_file (pl_disk P) (k_fat k) s bs (int (length bs)) (k_disk k))),
     u_fat_delete = (\<lambda>s k. map_option (\<lambda>(r, d). (ret_int r, k\<lparr>k_disk := d\<rparr>)) (fat16_delete_file (pl_disk P) (k_fat k) s (k_disk k))),
     u_set_fg = (\<lambda>k. Some (0, put_sched (task_set_foreground (current (k_sched k)) (k_sched k)) k)),
     u_wait = (\<lambda>k. with_sched (task_wait_child (k_sched k)) k),
     u_sysinfo = (\<lambda>k. Some (0, [pmm_total_pages (frames (vmm_of k)), pmm_used_pages (frames (vmm_of k)), 1, ret_int (child_alive (k_sched k))], k)),
     u_ps = (\<lambda>mx k. map_option (\<lambda>s. (ret_int (int (length s)), ascii s, k)) (task_list_info (int mx) (k_sched k))),
     u_kill = (\<lambda>i k. map_option (\<lambda>(r, s). (ret_int r, put_sched s k)) (task_kill_by_id i (k_sched k))),
     u_redir = v_redir,
     u_junk = (\<lambda>_. 0)\<rparr>"

section \<open>The wrappers reach the kernel\<close>

definition deliver :: "u64 \<Rightarrow> (u64 \<times> u8 list \<times> 'd kernel) option \<Rightarrow> (u64 \<times> 'd kernel) option" where
  "deliver p r = map_option (\<lambda>(v, bs, k). (v, uput p bs k)) r"

lemma arg_int_of_int: "- (2 ^ 31) \<le> i \<Longrightarrow> i < 2 ^ 31 \<Longrightarrow> arg_int (word_of_int i) = i"
proof -
  assume i: "- (2 ^ 31) \<le> i" "i < 2 ^ 31"
  have "ucast (word_of_int i :: u64) = (word_of_int i :: u32)" by (rule bit_word_eqI) (auto simp: bit_simps)
  then show ?thesis using i by (simp add: arg_int_def signed_of_int signed_take_bit_int_eq_self)
qed

lemma arg_int_of_nat: "n < 2 ^ 31 \<Longrightarrow> arg_int (of_nat n) = int n"
  using arg_int_of_int [of "int n"] by simp

text \<open>The trap of a call that returns, and of one that first looks something up.\<close>

definition returned :: "'d outcome option \<Rightarrow> (u64 \<times> 'd kernel) option" where
  "returned r = (case r of Some (Returns v k) \<Rightarrow> Some (v, k) | _ \<Rightarrow> None)"

lemma returned_simps [simp]:
  "returned (Some (Returns v k)) = Some (v, k)" "returned None = None"
  "returned (Option.bind x f) = Option.bind x (\<lambda>y. returned (f y))"
  "returned (map_option g x) = Option.bind x (\<lambda>y. returned (Some (g y)))"
  by (cases x; simp add: returned_def)+

lemma returned_case_prod [simp]: "returned (case z of (a, b) \<Rightarrow> f a b) = (case z of (a, b) \<Rightarrow> returned (f a b))"
  by (cases z) simp

lemma returned_if [simp]: "returned (if b then x else y) = (if b then returned x else returned y)"
  by simp

lemma map_option_bind_Some: "map_option f x = Option.bind x (\<lambda>y. Some (f y))"
  by (cases x) simp_all

lemma kernel_trap_returned: "kernel_trap P nr a1 a2 a3 k = returned (syscall_dispatch P nr a1 a2 a3 k)"
  by (simp add: kernel_trap_def returned_def)

lemma upd_current_uput: "upd_current f (uput a bs k) = uput a bs (upd_current f k)"
  by (simp add: upd_current_def uput_def put_vmm_def put_sched_def vmm_of_def upd_task_def)

lemma pull_uput: "pull_keys n (uput a bs k) = map_option (\<lambda>(q, k). (q, uput a bs k)) (pull_keys n k)"
proof (induction n arbitrary: k)
  case (Suc n)
  obtain c kb where g: "keyboard_getchar_nonblock (k_kbd k) = (c, kb)" by fastforce
  have u: "(uput a bs k)\<lparr>k_kbd := kb\<rparr> = uput a bs (k\<lparr>k_kbd := kb\<rparr>)" by simp
  show ?case
  proof (cases "pull_keys n (k\<lparr>k_kbd := kb\<rparr>)")
    case None
    then show ?thesis using g Suc.IH [of "k\<lparr>k_kbd := kb\<rparr>"] unfolding pull_keys.simps kernel_simps(5) u by simp
  next
    case (Some r)
    then show ?thesis using g Suc.IH [of "k\<lparr>k_kbd := kb\<rparr>"] unfolding pull_keys.simps kernel_simps(5) u by (simp add: case_prod_beta)
  qed
qed simp

lemma read_keys_pull: "returned (Some (read_keys buf n want k)) = map_option (\<lambda>(q, k). (want, uput buf q k)) (pull_keys n k)"
proof (induction n arbitrary: buf k)
  case (Suc n)
  obtain c kb where g: "keyboard_getchar_nonblock (k_kbd k) = (c, kb)" by fastforce
  show ?case
  proof (cases "c < 0")
    case True
    then show ?thesis using g by (simp add: returned_def)
  next
    case False
    let ?b = "word_of_int c :: u8" and ?k1 = "k\<lparr>k_kbd := kb\<rparr>"
    have "returned (Some (read_keys buf (Suc n) want k)) = returned (Some (read_keys (buf + 1) n want (uput buf [?b] ?k1)))"
      using g False by simp
    also have "\<dots> = map_option (\<lambda>(q, k). (want, uput (buf + 1) q k)) (pull_keys n (uput buf [?b] ?k1))" by (rule Suc.IH)
    also have "\<dots> = map_option (\<lambda>(q, k). (want, uput (buf + 1) q (uput buf [?b] k))) (pull_keys n ?k1)"
      unfolding pull_uput by (cases "pull_keys n ?k1") auto
    also have "\<dots> = map_option (\<lambda>(q, k). (want, uput buf q k)) (pull_keys (Suc n) k)"
      using g False by (cases "pull_keys n ?k1") (auto simp: uput_Cons [of buf ?b, symmetric])
    finally show ?thesis .
  qed
qed simp

lemmas trap_defs = kernel_trap_returned syscall3_def syscall_dispatch_def u_numbers sys_numbers

lemma entry_deliver: "(case e of None \<Rightarrow> k | Some x \<Rightarrow> (case x of (s, ty) \<Rightarrow> uput b (s @ [0]) k)) =
    uput b (case e of None \<Rightarrow> [] | Some x \<Rightarrow> (case x of (s, ty) \<Rightarrow> s @ [0])) k"
  by (simp split: option.split)

lemmas via_defs = kernel_os_def with_files_def with_sched_def deliver_def map_option_bind_Some

lemma calls_with_names:
  assumes "ustr p k = Some s"
  shows "sys_open (kernel_trap P) p k = u_open (kernel_os P) s k"
    and "sys_unlink (kernel_trap P) p k = u_unlink (kernel_os P) s k"
    and "sys_mkdir (kernel_trap P) p k = u_mkdir (kernel_os P) s k"
    and "sys_chdir (kernel_trap P) p k = u_chdir (kernel_os P) s k"
    and "sys_opendir (kernel_trap P) p k = u_opendir (kernel_os P) s k"
    and "p \<noteq> 0 \<Longrightarrow> sys_exec (kernel_trap P) p k = u_exec (kernel_os P) s k"
    and "n < 2 ^ 31 \<Longrightarrow> sys_fat_read (kernel_trap P) p buf (of_nat n) k = deliver buf (u_fat_read (kernel_os P) s n k)"
    and "n < 2 ^ 31 \<Longrightarrow> sys_fat_write (kernel_trap P) p buf (of_nat n) k = u_fat_write (kernel_os P) s (ubytes buf n k) k"
    and "sys_fat_delete (kernel_trap P) p k = u_fat_delete (kernel_os P) s k"
    and "- (2 ^ 31) \<le> fd \<Longrightarrow> fd < 2 ^ 31 \<Longrightarrow> sys_redir (kernel_trap P) (word_of_int fd) p k = u_redir (kernel_os P) fd s k"
proof -
  show "sys_open (kernel_trap P) p k = u_open (kernel_os P) s k"
    by (simp add: sys_open_def trap_defs do_open_def assms via_defs case_prod_beta case_prod_beta')
  show "sys_unlink (kernel_trap P) p k = u_unlink (kernel_os P) s k"
    by (simp add: sys_unlink_def trap_defs do_unlink_def v_unlink_def assms via_defs case_prod_beta case_prod_beta' cong: if_cong)
  show "sys_mkdir (kernel_trap P) p k = u_mkdir (kernel_os P) s k"
    by (simp add: sys_mkdir_def trap_defs do_mkdir_def v_mkdir_def assms via_defs case_prod_beta case_prod_beta' Let_def cong: if_cong)
  show "sys_chdir (kernel_trap P) p k = u_chdir (kernel_os P) s k"
    by (simp add: sys_chdir_def trap_defs do_chdir_def v_chdir_def assms via_defs if_distrib [of Some] if_distrib [of returned] cong: if_cong)
  show "sys_opendir (kernel_trap P) p k = u_opendir (kernel_os P) s k"
    by (simp add: sys_opendir_def trap_defs do_opendir_def assms via_defs case_prod_beta case_prod_beta')
  show "sys_exec (kernel_trap P) p k = u_exec (kernel_os P) s k" if "p \<noteq> 0"
    using that by (simp add: sys_exec_def trap_defs do_exec_def v_exec_def assms via_defs case_prod_beta case_prod_beta' split: option.split)
  show "sys_fat_read (kernel_trap P) p buf (of_nat n) k = deliver buf (u_fat_read (kernel_os P) s n k)" if "n < 2 ^ 31"
    by (simp add: sys_fat_read_def trap_defs do_fat_read_def v_fat_def assms via_defs case_prod_beta case_prod_beta' arg_int_of_nat [OF that])
  show "sys_fat_write (kernel_trap P) p buf (of_nat n) k = u_fat_write (kernel_os P) s (ubytes buf n k) k" if "n < 2 ^ 31"
    by (simp add: sys_fat_write_def trap_defs do_fat_write_def assms via_defs case_prod_beta case_prod_beta' arg_int_of_nat [OF that] ubytes_def)
  show "sys_fat_delete (kernel_trap P) p k = u_fat_delete (kernel_os P) s k"
    by (simp add: sys_fat_delete_def trap_defs do_fat_delete_def assms via_defs case_prod_beta case_prod_beta')
  show "sys_redir (kernel_trap P) (word_of_int fd) p k = u_redir (kernel_os P) fd s k" if "- (2 ^ 31) \<le> fd" "fd < 2 ^ 31"
    by (simp add: sys_redir_def trap_defs do_redir_def v_redir_def assms via_defs case_prod_beta case_prod_beta' arg_int_of_int [OF that] Let_def cong: if_cong)
qed

lemma calls_with_files:
  assumes "- (2 ^ 31) \<le> fd" and "fd < 2 ^ 31" and "n < 2 ^ 31"
  shows "sys_close (kernel_trap P) fd k = u_close (kernel_os P) fd k"
    and "sys_fread (kernel_trap P) fd buf (of_nat n) k = deliver buf (u_fread (kernel_os P) fd n k)"
    and "sys_fwrite (kernel_trap P) fd buf (of_nat n) k = u_fwrite (kernel_os P) fd (ubytes buf n k) k"
    and "sys_readdir (kernel_trap P) fd buf (of_nat n) k = deliver buf (u_readdir (kernel_os P) fd n k)"
    and "sys_ls (kernel_trap P) buf (of_nat n) k = deliver buf (u_ls (kernel_os P) n k)"
    and "sys_getcwd (kernel_trap P) buf (of_nat n) k = deliver buf (u_getcwd (kernel_os P) n k)"
    and "sys_fat_ls (kernel_trap P) buf (of_nat n) k = deliver buf (u_fat_ls (kernel_os P) n k)"
    and "sys_ps (kernel_trap P) buf (of_nat n) k = deliver buf (u_ps (kernel_os P) n k)"
    and "sys_sem_wait (kernel_trap P) fd k = u_sem_wait (kernel_os P) fd k"
    and "sys_sem_post (kernel_trap P) fd k = u_sem_post (kernel_os P) fd k"
    and "sys_kill (kernel_trap P) (word_of_int fd) k = u_kill (kernel_os P) fd k"
    and "sys_read (kernel_trap P) fd buf (of_nat n) k = deliver buf (u_read (kernel_os P) n k)"
proof -
  note fd = arg_int_of_int [OF assms(1,2)] and nn = arg_int_of_nat [OF assms(3)]
  have u: "unat (of_nat n :: u64) = n" using assms(3) by (intro unat_of_nat_64) simp
  show "sys_close (kernel_trap P) fd k = u_close (kernel_os P) fd k"
    by (simp add: sys_close_def trap_defs do_close_def fd via_defs case_prod_beta case_prod_beta')
  show "sys_fread (kernel_trap P) fd buf (of_nat n) k = deliver buf (u_fread (kernel_os P) fd n k)"
    by (simp add: sys_fread_def trap_defs do_fread_def v_fread_def fd via_defs case_prod_beta case_prod_beta')
  show "sys_fwrite (kernel_trap P) fd buf (of_nat n) k = u_fwrite (kernel_os P) fd (ubytes buf n k) k"
    by (simp add: sys_fwrite_def trap_defs do_fwrite_def fd u via_defs case_prod_beta case_prod_beta')
  show "sys_readdir (kernel_trap P) fd buf (of_nat n) k = deliver buf (u_readdir (kernel_os P) fd n k)"
    by (simp add: sys_readdir_def trap_defs do_readdir_def v_readdir_def fd nn via_defs case_prod_beta case_prod_beta' Let_def entry_deliver)
  show "sys_ls (kernel_trap P) buf (of_nat n) k = deliver buf (u_ls (kernel_os P) n k)"
    by (simp add: sys_ls_def trap_defs do_ls_def v_ls_def via_defs)
  show "sys_getcwd (kernel_trap P) buf (of_nat n) k = deliver buf (u_getcwd (kernel_os P) n k)"
    by (simp add: sys_getcwd_def trap_defs do_getcwd_def nn via_defs)
  show "sys_fat_ls (kernel_trap P) buf (of_nat n) k = deliver buf (u_fat_ls (kernel_os P) n k)"
    by (simp add: sys_fat_ls_def trap_defs do_fat_ls_def v_fat_def nn via_defs case_prod_beta case_prod_beta')
  show "sys_ps (kernel_trap P) buf (of_nat n) k = deliver buf (u_ps (kernel_os P) n k)"
    by (simp add: sys_ps_def trap_defs do_ps_def nn via_defs)
  show "sys_sem_wait (kernel_trap P) fd k = u_sem_wait (kernel_os P) fd k"
    by (simp add: sys_sem_wait_def trap_defs do_sem_wait_def fd via_defs case_prod_beta case_prod_beta')
  show "sys_sem_post (kernel_trap P) fd k = u_sem_post (kernel_os P) fd k"
    by (simp add: sys_sem_post_def trap_defs do_sem_post_def fd via_defs case_prod_beta case_prod_beta')
  show "sys_kill (kernel_trap P) (word_of_int fd) k = u_kill (kernel_os P) fd k"
    by (simp add: sys_kill_def trap_defs do_kill_def fd via_defs case_prod_beta case_prod_beta')
  show "sys_read (kernel_trap P) fd buf (of_nat n) k = deliver buf (u_read (kernel_os P) n k)"
  proof -
    have d: "sys_read (kernel_trap P) fd buf (of_nat n) k = returned (do_read buf (of_nat n) k)" by (simp add: sys_read_def trap_defs)
    have v: "u_read (kernel_os P) n k = v_read n k" by (simp add: kernel_os_def)
    consider (1) "current (k_sched k) \<noteq> 0 \<and> t_stdin_node (cur_task k) \<noteq> 0"
      | (2) "\<not> (current (k_sched k) \<noteq> 0 \<and> t_stdin_node (cur_task k) \<noteq> 0)" "foreground (k_sched k) \<noteq> 0 \<and> current (k_sched k) \<noteq> foreground (k_sched k)"
      | (3) "\<not> (current (k_sched k) \<noteq> 0 \<and> t_stdin_node (cur_task k) \<noteq> 0)" "\<not> (foreground (k_sched k) \<noteq> 0 \<and> current (k_sched k) \<noteq> foreground (k_sched k))"
      by blast
    then show ?thesis
    proof cases
      case 1
      then show ?thesis unfolding d v do_read_def v_read_def deliver_def by (simp add: case_prod_beta case_prod_beta' Let_def upd_current_uput)
    next
      case 2
      show ?thesis unfolding d v do_read_def v_read_def deliver_def if_not_P [OF 2(1)] if_P [OF 2(2)]
        by (cases "task_sleep 50 (k_sched k)") simp_all
    next
      case 3
      have "do_read buf (of_nat n) k = Some (read_keys buf n (of_nat n) k)"
        unfolding do_read_def if_not_P [OF 3(1)] if_not_P [OF 3(2)] u ..
      moreover have "v_read n k = map_option (\<lambda>(bs, k). (of_nat n, bs, k)) (pull_keys n k)" 
        unfolding v_read_def if_not_P [OF 3(1)] if_not_P [OF 3(2)] ..
      ultimately show ?thesis unfolding d v deliver_def by (simp add: read_keys_pull option.map_comp comp_def case_prod_beta case_prod_beta')
    qed
  qed
qed

lemma calls_without:
  "sys_sync (kernel_trap P) k = u_sync (kernel_os P) k"
  "sys_sleep (kernel_trap P) ms k = u_sleep (kernel_os P) ms k"
  "sys_spawn (kernel_trap P) k = u_spawn (kernel_os P) k"
  "sys_fork (kernel_trap P) rdi rsi rdx k = u_fork (kernel_os P) k"
  "sys_set_fg (kernel_trap P) k = u_set_fg (kernel_os P) k"
  "sys_wait (kernel_trap P) k = u_wait (kernel_os P) k"
  "sys_exit (kernel_trap P) code k = None"
  by (simp_all add: sys_sync_def sys_sleep_def sys_spawn_def sys_fork_def sys_set_fg_def sys_wait_def sys_exit_def trap_defs
      do_fork_def via_defs case_prod_beta case_prod_beta' split: option.split)

text \<open>
  Console output reads each byte of the buffer when its turn comes, after the earlier ones have been drawn.  The
  buffer is spared when drawing its bytes never changes one of them, as the frame buffer is no user memory.
\<close>

definition redirected :: "'d kernel \<Rightarrow> bool" where
  "redirected k \<longleftrightarrow> current (k_sched k) \<noteq> 0 \<and> t_stdout_node (cur_task k) \<noteq> 0"

definition console_spares :: "'d platform \<Rightarrow> u64 \<Rightarrow> nat \<Rightarrow> 'd kernel \<Rightarrow> bool" where
  "console_spares P buf n k \<longleftrightarrow>
     (\<forall>i < n. uload (buf + of_nat i) (vmm_of (fold (console_putc P) (take i (ubytes buf n k)) k)) = uload (buf + of_nat i) (vmm_of k))"

lemma console_write_fold:
  assumes "length bs = n"
    and "\<forall>i < n. uload (buf + of_nat i) (vmm_of (fold (console_putc P) (take i bs) k)) = bs ! i"
  shows "console_write P buf n k = fold (console_putc P) bs k"
  using assms
proof (induction n arbitrary: buf bs k)
  case (Suc n)
  then obtain b cs where bs: "bs = b # cs" "length cs = n" by (cases bs) auto
  have b: "uload buf (vmm_of k) = b" using Suc.prems(2) [rule_format, of 0] bs by simp
  have "uload (buf + 1 + of_nat i) (vmm_of (fold (console_putc P) (take i cs) (console_putc P b k))) = cs ! i" if "i < n" for i
    using Suc.prems(2) [rule_format, of "Suc i"] that bs by (simp add: algebra_simps)
  then show ?case using Suc.IH [OF bs(2), of "buf + 1" "console_putc P b k"] b bs(1) by simp
qed simp

lemma calls_of_output:
  assumes "n < 2 ^ 31"
  shows "sys_write (kernel_trap P) fd buf (of_nat n) k =
      (if redirected k then u_write (kernel_os P) (ubytes buf n k) k else Some (of_nat n, console_write P buf n k))"
    and "console_spares P buf n k \<Longrightarrow> sys_write (kernel_trap P) fd buf (of_nat n) k = u_write (kernel_os P) (ubytes buf n k) k"
proof -
  have u: "unat (of_nat n :: u64) = n" using assms by (intro unat_of_nat_64) simp
  have l: "length (ubytes buf n k) = n" by (simp add: ubytes_def)
  show w: "sys_write (kernel_trap P) fd buf (of_nat n) k =
      (if redirected k then u_write (kernel_os P) (ubytes buf n k) k else Some (of_nat n, console_write P buf n k))"
    using u l by (simp add: sys_write_def redirected_def trap_defs do_write_def v_write_def via_defs case_prod_beta case_prod_beta' Let_def)
  show "sys_write (kernel_trap P) fd buf (of_nat n) k = u_write (kernel_os P) (ubytes buf n k) k" if c: "console_spares P buf n k"
  proof (cases "redirected k")
    case True
    then show ?thesis using w by simp
  next
    case False
    have "ubytes buf n k ! i = uload (buf + of_nat i) (vmm_of k)" if "i < n" for i using that by (simp add: ubytes_def)
    then have "console_write P buf n k = fold (console_putc P) (ubytes buf n k) k"
      using c by (intro console_write_fold [OF l]) (simp add: console_spares_def)
    moreover have "u_write (kernel_os P) (ubytes buf n k) k = Some (of_nat n, fold (console_putc P) (ubytes buf n k) k)"
      using False l by (auto simp: kernel_os_def v_write_def redirected_def Let_def)
    ultimately show ?thesis using w False by simp
  qed
qed

text \<open>The numbers that \<open>SYS_SYSINFO\<close> stores, one after the other.\<close>

lemma ustores_frames: "frames (ustores a bs v) = frames v"
  by (induction bs arbitrary: a v) (simp_all add: ustore_def)

lemma uput_frames: "frames (vmm_of (uput a bs k)) = frames (vmm_of k)" "child_alive (k_sched (uput a bs k)) = child_alive (k_sched k)"
  by (simp_all add: uput_def put_vmm_def vmm_of_def ustores_frames)

lemma call_sysinfo:
  "sys_sysinfo (kernel_trap P) buf k =
     map_option (\<lambda>(r, ws, k). (r, uput buf (concat (map (le_bytes 8) ws)) k)) (u_sysinfo (kernel_os P) k)"
proof -
  have c: "24 + buf = buf + 24" "16 + buf = buf + 16" by simp_all
  show ?thesis by (simp add: sys_sysinfo_def trap_defs do_sysinfo_def via_defs Let_def uput_frames uput_append c)
qed

text \<open>C17. Every wrapper of the user library reaches the operation of the kernel it is named after: with its string argument
  readable at \<open>p\<close>, an \<open>int\<close> argument \<open>fd\<close> and a buffer of \<open>n\<close> bytes, the trap has the result and the effect of the operation
  on the string, the number and the bytes of the buffer, and what the operation delivers is stored at the
  buffer.  \<open>sys_write\<close> is the operation on the bytes of the buffer when the output is redirected or drawing spares the
  buffer, and the kernel's loop over the buffer in any other case; \<open>sys_exit\<close> never returns.\<close>

theorem wrappers_correct:
  assumes "ustr p k = Some s" and "p \<noteq> 0" and "- (2 ^ 31) \<le> fd" and "fd < 2 ^ 31" and "n < 2 ^ 31"
  shows "sys_open (kernel_trap P) p k = u_open (kernel_os P) s k \<and>
    sys_unlink (kernel_trap P) p k = u_unlink (kernel_os P) s k \<and>
    sys_mkdir (kernel_trap P) p k = u_mkdir (kernel_os P) s k \<and>
    sys_chdir (kernel_trap P) p k = u_chdir (kernel_os P) s k \<and>
    sys_opendir (kernel_trap P) p k = u_opendir (kernel_os P) s k \<and>
    sys_exec (kernel_trap P) p k = u_exec (kernel_os P) s k \<and>
    sys_fat_read (kernel_trap P) p buf (of_nat n) k = deliver buf (u_fat_read (kernel_os P) s n k) \<and>
    sys_fat_write (kernel_trap P) p buf (of_nat n) k = u_fat_write (kernel_os P) s (ubytes buf n k) k \<and>
    sys_fat_delete (kernel_trap P) p k = u_fat_delete (kernel_os P) s k \<and>
    sys_redir (kernel_trap P) (word_of_int fd) p k = u_redir (kernel_os P) fd s k \<and>
    sys_close (kernel_trap P) fd k = u_close (kernel_os P) fd k \<and>
    sys_fread (kernel_trap P) fd buf (of_nat n) k = deliver buf (u_fread (kernel_os P) fd n k) \<and>
    sys_fwrite (kernel_trap P) fd buf (of_nat n) k = u_fwrite (kernel_os P) fd (ubytes buf n k) k \<and>
    sys_readdir (kernel_trap P) fd buf (of_nat n) k = deliver buf (u_readdir (kernel_os P) fd n k) \<and>
    sys_ls (kernel_trap P) buf (of_nat n) k = deliver buf (u_ls (kernel_os P) n k) \<and>
    sys_getcwd (kernel_trap P) buf (of_nat n) k = deliver buf (u_getcwd (kernel_os P) n k) \<and>
    sys_fat_ls (kernel_trap P) buf (of_nat n) k = deliver buf (u_fat_ls (kernel_os P) n k) \<and>
    sys_ps (kernel_trap P) buf (of_nat n) k = deliver buf (u_ps (kernel_os P) n k) \<and>
    sys_sem_wait (kernel_trap P) fd k = u_sem_wait (kernel_os P) fd k \<and>
    sys_sem_post (kernel_trap P) fd k = u_sem_post (kernel_os P) fd k \<and>
    sys_kill (kernel_trap P) (word_of_int fd) k = u_kill (kernel_os P) fd k \<and>
    sys_read (kernel_trap P) fd buf (of_nat n) k = deliver buf (u_read (kernel_os P) n k) \<and>
    sys_sync (kernel_trap P) k = u_sync (kernel_os P) k \<and> sys_sleep (kernel_trap P) ms k = u_sleep (kernel_os P) ms k \<and>
    sys_spawn (kernel_trap P) k = u_spawn (kernel_os P) k \<and> sys_fork (kernel_trap P) rdi rsi rdx k = u_fork (kernel_os P) k \<and>
    sys_set_fg (kernel_trap P) k = u_set_fg (kernel_os P) k \<and> sys_wait (kernel_trap P) k = u_wait (kernel_os P) k \<and>
    sys_exit (kernel_trap P) code k = None \<and>
    sys_write (kernel_trap P) fd buf (of_nat n) k =
      (if redirected k \<or> console_spares P buf n k then u_write (kernel_os P) (ubytes buf n k) k
       else Some (of_nat n, console_write P buf n k)) \<and>
    sys_sysinfo (kernel_trap P) buf k =
      map_option (\<lambda>(r, ws, k). (r, uput buf (concat (map (le_bytes 8) ws)) k)) (u_sysinfo (kernel_os P) k)"
  using calls_of_output [OF assms(5), where P = P and fd = fd and buf = buf and k = k] call_sysinfo [of P buf k]
  by (intro conjI calls_with_names(1-5,9) [OF assms(1)] calls_with_names(6) [OF assms(1,2)] calls_with_names(7,8) [OF assms(1,5)]
      calls_with_names(10) [OF assms(1,3,4)] calls_with_files(1-12) [OF assms(3-5)] calls_without) auto

lemma demo_zero: "uload a (vmm_of (demo_kernel d)) = 0"
  by (simp add: uload_def vmm_of_def demo_kernel_def demo_sched_def demo_vmm_def)

lemma demo_ustr: "ustr a (demo_kernel d) = Some []"
  unfolding ustr_def by (subst ustr_from.simps) (simp add: demo_zero)

definition demo_redirected :: "drive kernel" where
  "demo_redirected = upd_current (\<lambda>t. t\<lparr>t_stdout_node := 8\<rparr>) (demo_kernel demo_drive)"

lemma demo_redirected_ustr: "ustr a demo_redirected = Some []"
  unfolding ustr_def
  by (subst ustr_from.simps) (simp add: uload_def vmm_of_def demo_redirected_def upd_current_def upd_task_def demo_kernel_def demo_sched_def demo_vmm_def)

theorem wrappers_correct_witness:
  "sys_open (kernel_trap demo_platform) 0x400000 (demo_kernel demo_drive) = u_open (kernel_os demo_platform) [] (demo_kernel demo_drive) \<and>
   sys_fread (kernel_trap demo_platform) 3 0x400000 5 (demo_kernel demo_drive) =
     deliver 0x400000 (u_fread (kernel_os demo_platform) 3 5 (demo_kernel demo_drive)) \<and>
   sys_sysinfo (kernel_trap demo_platform) 0x400000 (demo_kernel demo_drive) =
     map_option (\<lambda>(r, ws, k). (r, uput 0x400000 (concat (map (le_bytes 8) ws)) k)) (u_sysinfo (kernel_os demo_platform) (demo_kernel demo_drive)) \<and>
   sys_write (kernel_trap demo_platform) 1 0x400000 5 demo_redirected = u_write (kernel_os demo_platform) (ubytes 0x400000 5 demo_redirected) demo_redirected"
proof -
  have n: "(of_nat 5 :: u64) = 5" by simp
  have r: "(0x400000 :: u64) \<noteq> 0" "- (2 ^ 31) \<le> (3 :: int)" "(3 :: int) < 2 ^ 31" "- (2 ^ 31) \<le> (1 :: int)" "(1 :: int) < 2 ^ 31" "(5 :: nat) < 2 ^ 31"
    by simp_all
  have d: "redirected demo_redirected"
    by (simp add: redirected_def demo_redirected_def upd_current_def upd_task_def put_sched_def cur_task_def demo_kernel_def demo_sched_def)
  show ?thesis
    using wrappers_correct [OF demo_ustr r(1,2,3,6), where P = demo_platform and buf = "0x400000"]
      wrappers_correct [OF demo_redirected_ustr r(1,4,5,6), where P = demo_platform and buf = "0x400000"] d
    unfolding n by simp
qed

end
