(* ===== verification/Shell.thy ===== *)
theory Shell
  imports User_Calls
begin

text \<open>
  The shell, \<open>user/init.c\<close>, over the system call interface \<open>os\<close>.  A command is a function on the state of the system: its
  result is the new state and, when the process has ended meanwhile, how (\<open>stop\<close>); \<open>None\<close> when it does not return.
  After \<open>sys_fork\<close> the model follows one of the two processes, the one whose result the call returned.
  An argument vector is the list of its \<open>argc\<close> strings, which contain no NUL.
\<close>

section \<open>Processes\<close>

datatype stop = Exited int | Replaced

type_synonym 's prog = "'s \<Rightarrow> ('s \<times> stop option) option"

definition skip :: "'s prog" where
  "skip s = Some (s, None)"

definition ends :: "stop \<Rightarrow> 's prog" where
  "ends e s = Some (s, Some e)"

definition seq :: "'s prog \<Rightarrow> 's prog \<Rightarrow> 's prog" where
  "seq p q s = do { (s, e) \<leftarrow> p s; (case e of None \<Rightarrow> q s | Some e \<Rightarrow> Some (s, Some e)) }"

text \<open>A call whose result is not used.\<close>

definition perform :: "('s \<Rightarrow> ('r \<times> 's) option) \<Rightarrow> 's prog" where
  "perform f s = map_option (\<lambda>(_, s). (s, None)) (f s)"

section \<open>Console\<close>

primrec do_call :: "'s os \<Rightarrow> call \<Rightarrow> 's \<Rightarrow> 's option" where
  "do_call S (Sys_write bs) s = map_option snd (u_write S bs s)"
| "do_call S (Sys_sem_wait i) s = map_option snd (u_sem_wait S i s)"
| "do_call S (Sys_sem_post i) s = map_option snd (u_sem_post S i s)"

fun calls :: "'s os \<Rightarrow> call list \<Rightarrow> 's \<Rightarrow> 's option" where
  "calls S [] s = Some s"
| "calls S (c # cs) s = do { s \<leftarrow> do_call S c s; calls S cs s }"

definition say :: "'s os \<Rightarrow> call list \<Rightarrow> 's prog" where
  "say S cs s = map_option (\<lambda>s. (s, None)) (calls S cs s)"

definition sayf :: "'s os \<Rightarrow> u8 list \<Rightarrow> arg list \<Rightarrow> 's prog" where
  "sayf S fmt args s = do { cs \<leftarrow> printf fmt args; say S cs s }"

definition ln :: "string \<Rightarrow> u8 list" where
  "ln t = ascii t @ [10]"

text \<open>\<open>for (i = 0; i < n; i++) putchar(buf[i]);\<close>\<close>

definition put_all :: "int \<Rightarrow> u8 list \<Rightarrow> call list" where
  "put_all n bs = concat (map putchar (take (nat n) bs))"

text \<open>\<open>getchar\<close> does not look at the result of \<open>sys_read\<close>: when nothing is stored, the character is the indeterminate value
  of the variable.\<close>

definition getchar :: "'s os \<Rightarrow> 's \<Rightarrow> (u8 \<times> 's) option" where
  "getchar S s = do { (_, bs, s) \<leftarrow> u_read S 1 s; Some (case bs of [] \<Rightarrow> u_junk S s | c # _ \<Rightarrow> c, s) }"

partial_function (option) os_readline :: "'s os \<Rightarrow> int \<Rightarrow> u8 list \<Rightarrow> 's \<Rightarrow> (u8 list \<times> 's) option" where
  "os_readline S mx buf s = do {
     (c, s) \<leftarrow> getchar S s;
     if c = 13 \<or> c = 10 then do { s \<leftarrow> calls S (putchar 10) s; Some (buf, s) }
     else if c = 8 \<or> c = 127 then
       (if length buf > 0 then do { s \<leftarrow> calls S (putchar 8 @ putchar 32 @ putchar 8) s; os_readline S mx (butlast buf) s }
        else os_readline S mx buf s)
     else if c < 32 \<or> c > 126 then os_readline S mx buf s
     else if int (length buf) \<ge> mx - 1 then os_readline S mx buf s
     else do { s \<leftarrow> calls S (putchar c) s; os_readline S mx (buf @ [c]) s }
   }"

section \<open>Commands\<close>

definition cmd_echo :: "'s os \<Rightarrow> u8 list list \<Rightarrow> 's prog" where
  "cmd_echo S argv = say S (concat (map (\<lambda>i. (if 1 < i then putchar 32 else []) @ puts (argv ! i)) [1..<length argv]) @ putchar 10)"

definition help_lines :: "u8 list list" where
  "help_lines = map ln
    [''built-in commands:'',
     ''  echo [args...]      print args'',
     ''  help                show this'',
     ''  printf              demo printf'',
     ''  ls [path]           list files'',
     ''  mkdir <dir>         create directory'',
     ''  cd <dir>            change directory'',
     ''  pwd                 print working directory'',
     ''  cat <file>          print file contents'',
     ''  write <file> <txt>  write text to file'',
     ''  rm <file>           remove file'',
     ''  sync                write fs to disk'',
     ''  sleep <ms>          sleep milliseconds'',
     ''  fork                fork this process'',
     ''  fatls               list FAT16 root'',
     ''  fatcat <file>       print FAT16 file'',
     ''  fatwrite <f> <txt>  write FAT16 file'',
     ''  fatrm <file>        delete FAT16 file'',
     ''  edit <file>         text editor'',
     ''  ps                  list tasks'',
     ''  kill <pid>          kill a task'',
     ''  run <app>           run app (shell, hello, calc, game, sysinfo)'',
     ''  spawn               spawn a child process'',
     ''  <cmd> > <file>      redirect stdout'',
     ''  <cmd> < <file>      redirect stdin'',
     ''  <a> | <b>           pipe'',
     ''  exit                quit shell'']"

definition cmd_help :: "'s os \<Rightarrow> 's prog" where
  "cmd_help S = say S (concat (map puts help_lines))"

definition cmd_printf_demo :: "'s os \<Rightarrow> 's prog" where
  "cmd_printf_demo S =
     seq (sayf S (ln ''int:  %d'') [A_int (- 12345)])
    (seq (sayf S (ln ''hex:  %x'') [A_int 0xDEADBEEF])
    (seq (sayf S (ln ''long: %lu'') [A_int 0x1234567890ABCDEF])
    (seq (sayf S (ln ''str:  %s'') [A_str (Some (ascii ''hello world''))])
         (sayf S (ln ''mix:  %s=%d (0x%x)'') [A_str (Some (ascii ''answer'')), A_int 42, A_int 42]))))"

text \<open>What a listing call delivered, or a text when there is nothing.\<close>

definition show_or :: "'s os \<Rightarrow> string \<Rightarrow> int \<Rightarrow> u8 list \<Rightarrow> 's prog" where
  "show_or S t n bs = (if n \<le> 0 then say S (puts (ln t)) else say S (put_all n bs))"

definition cmd_ls :: "'s os \<Rightarrow> u8 list list \<Rightarrow> 's prog" where
  "cmd_ls S argv s = do {
     (n, bs, s) \<leftarrow> (if 2 \<le> length argv then fs_ls_path S (argv ! 1) 2048 s else fs_ls S 2048 s);
     show_or S ''(empty)'' n bs s
   }"

text \<open>A command that prints one of two messages about its argument.\<close>

definition report :: "'s os \<Rightarrow> bool \<Rightarrow> u8 list \<Rightarrow> u8 list \<Rightarrow> u8 list \<Rightarrow> 's prog" where
  "report S ok good bad name = sayf S (if ok then good else bad) [A_str (Some name)]"

definition cmd_mkdir :: "'s os \<Rightarrow> u8 list \<Rightarrow> 's prog" where
  "cmd_mkdir S name s = do {
     (r, s) \<leftarrow> fs_mkdir S name s;
     report S (r = 0) (ln ''created %s'') (ln ''mkdir: %s failed'') name s
   }"

definition cmd_cd :: "'s os \<Rightarrow> u8 list \<Rightarrow> 's prog" where
  "cmd_cd S name s = do {
     (r, s) \<leftarrow> fs_chdir S name s;
     if r = 0 then skip s else sayf S (ln ''cd: %s: no such directory'') [A_str (Some name)] s
   }"

definition cmd_pwd :: "'s os \<Rightarrow> 's prog" where
  "cmd_pwd S s = do {
     (_, bs, s) \<leftarrow> fs_getcwd S 256 s;
     say S (puts (takeWhile (\<lambda>c. c \<noteq> 0) bs) @ putchar 10) s
   }"

partial_function (option) cmd_cat_stdin :: "'s os \<Rightarrow> 's \<Rightarrow> ('s \<times> stop option) option" where
  "cmd_cat_stdin S s = do {
     (n, bs, s) \<leftarrow> u_read S 256 s;
     if sint n \<le> 0 then Some (s, None)
     else do { s \<leftarrow> calls S (put_all (sint n) bs) s; cmd_cat_stdin S s }
   }"

partial_function (option) cat_loop :: "'s os \<Rightarrow> int \<Rightarrow> 's \<Rightarrow> 's option" where
  "cat_loop S fd s = do {
     (n, bs, s) \<leftarrow> fs_read S fd 256 s;
     if n \<le> 0 then Some s
     else do { s \<leftarrow> calls S (put_all n bs) s; cat_loop S fd s }
   }"

definition cmd_cat :: "'s os \<Rightarrow> u8 list \<Rightarrow> 's prog" where
  "cmd_cat S name s = do {
     (fd, s) \<leftarrow> fs_open S name s;
     if fd < 0 then sayf S (ln ''cat: cannot open %s'') [A_str (Some name)] s
     else do {
       s \<leftarrow> cat_loop S fd s;
       perform (fs_close S fd) s
     }
   }"

primrec write_args :: "'s os \<Rightarrow> int \<Rightarrow> u8 list list \<Rightarrow> nat \<Rightarrow> 's \<Rightarrow> 's option" where
  "write_args S fd [] i s = Some s"
| "write_args S fd (a # as) i s = do {
     s \<leftarrow> (if 2 < i then map_option snd (fs_write S fd [32] s) else Some s);
     (_, s) \<leftarrow> fs_write S fd a s;
     write_args S fd as (Suc i) s
   }"

definition cmd_write :: "'s os \<Rightarrow> u8 list list \<Rightarrow> 's prog" where
  "cmd_write S argv s =
     (if length argv < 3 then say S (puts (ln ''usage: write <file> <text...>'')) s
      else do {
        (fd, s) \<leftarrow> fs_open S (argv ! 1) s;
        if fd < 0 then sayf S (ln ''write: cannot open %s'') [A_str (Some (argv ! 1))] s
        else do {
          s \<leftarrow> write_args S fd (drop 2 argv) 2 s;
          (_, s) \<leftarrow> fs_write S fd [10] s;
          (_, s) \<leftarrow> fs_close S fd s;
          sayf S (ln ''written to %s'') [A_str (Some (argv ! 1))] s
        }
      })"

definition cmd_rm :: "'s os \<Rightarrow> u8 list \<Rightarrow> 's prog" where
  "cmd_rm S name s = do {
     (r, s) \<leftarrow> fs_unlink S name s;
     report S (r = 0) (ln ''removed %s'') (ln ''rm: %s not found'') name s
   }"

definition cmd_sync :: "'s os \<Rightarrow> 's prog" where
  "cmd_sync S s = do {
     (r, s) \<leftarrow> fs_sync S s;
     say S (puts (if r = 0 then ln ''filesystem synced to disk'' else ln ''sync failed'')) s
   }"

text \<open>Signed overflow of the sum wraps.\<close>

fun atoi_loop :: "u32 \<Rightarrow> u8 list \<Rightarrow> u32" where
  "atoi_loop n [] = n"
| "atoi_loop n (c # s) = (if 48 \<le> c \<and> c \<le> 57 then atoi_loop (n * 10 + (ucast c - 48)) s else n)"

definition atoi :: "u8 list \<Rightarrow> int" where
  "atoi s = sint (atoi_loop 0 s)"

definition cmd_sleep :: "'s os \<Rightarrow> u8 list list \<Rightarrow> 's prog" where
  "cmd_sleep S argv =
     (if length argv < 2 then say S (puts (ln ''usage: sleep <ms>''))
      else
        (let ms = atoi (argv ! 1) in
         seq (sayf S (ln ''sleeping %d ms...'') [A_int (word_of_int ms)])
        (seq (perform (u_sleep S (word_of_int ms)))
             (sayf S (ln ''awake!'') []))))"

definition cmd_fatls :: "'s os \<Rightarrow> 's prog" where
  "cmd_fatls S s = do { (n, bs, s) \<leftarrow> fs_fat_ls S 2048 s; show_or S ''(empty)'' n bs s }"

definition cmd_fatcat :: "'s os \<Rightarrow> u8 list \<Rightarrow> 's prog" where
  "cmd_fatcat S name s = do {
     (n, bs, s) \<leftarrow> fs_fat_read S name 512 s;
     if n < 0 then sayf S (ln ''fatcat: %s not found'') [A_str (Some name)] s
     else say S (put_all n bs @ putchar 10) s
   }"

text \<open>The text that \<open>cmd_fatwrite\<close> puts together in its buffer.\<close>

definition fat_text :: "u8 list list \<Rightarrow> u8 list" where
  "fat_text as = fold (\<lambda>(i, a) buf.
     (let buf = (if 2 < i \<and> length buf < 511 then buf @ [32] else buf)
      in buf @ take (510 - length buf) a)) (zip [2..<2 + length as] as) [] @ [10]"

definition cmd_fatwrite :: "'s os \<Rightarrow> u8 list list \<Rightarrow> 's prog" where
  "cmd_fatwrite S argv s =
     (if length argv < 3 then say S (puts (ln ''usage: fatwrite <file> <text...>'')) s
      else do {
        (r, s) \<leftarrow> fs_fat_write S (argv ! 1) (fat_text (drop 2 argv)) s;
        report S (r = 0) (ln ''written to %s'') (ln ''fatwrite: %s failed'') (argv ! 1) s
      })"

definition cmd_fatrm :: "'s os \<Rightarrow> u8 list \<Rightarrow> 's prog" where
  "cmd_fatrm S name s = do {
     (r, s) \<leftarrow> fs_fat_delete S name s;
     report S (r = 0) (ln ''removed %s'') (ln ''fatrm: %s not found'') name s
   }"

text \<open>The editor: the directory of the file, its old text, the loop over new lines, and the save.\<close>

definition edit_parent :: "'s os \<Rightarrow> u8 list \<Rightarrow> 's \<Rightarrow> 's option" where
  "edit_parent S name s =
     (let last_slash = slash_loop name 0 (- 1) in
      if 0 < last_slash
      then map_option snd (fs_mkdir S (take (nat (if 127 < last_slash then 127 else last_slash)) name) s)
      else Some s)"

definition edit_old :: "'s os \<Rightarrow> u8 list \<Rightarrow> 's \<Rightarrow> (u8 list \<times> 's) option" where
  "edit_old S name s = do {
     (fd, s) \<leftarrow> fs_open S name s;
     if fd \<ge> 0 then do {
       (n, bs, s) \<leftarrow> fs_read S fd 1023 s;
       (_, s) \<leftarrow> fs_close S fd s;
       Some (take (nat n) bs, s)
     }
     else Some ([], s)
   }"

definition edit_show :: "u8 list \<Rightarrow> call list" where
  "edit_show old =
     puts (10 # ln ''=== flyos editor ==='') @
     (if 0 < length old
      then puts (ln ''current content:'') @ puts (takeWhile (\<lambda>c. c \<noteq> 0) old) @ (if last old \<noteq> 10 then putchar 10 else [])
      else puts (ln ''(new file)'')) @
     puts (10 # ln ''enter new content, blank line to finish:'' @ [10])"

definition add_line :: "u8 list \<Rightarrow> u8 list \<Rightarrow> u8 list" where
  "add_line buf line =
     (let buf = buf @ take (2047 - length buf) line
      in if length buf < 2047 then buf @ [10] else buf)"

partial_function (option) edit_lines :: "'s os \<Rightarrow> u8 list \<Rightarrow> 's \<Rightarrow> (u8 list \<times> 's) option" where
  "edit_lines S buf s = do {
     s \<leftarrow> calls S (puts (ascii ''> '')) s;
     (line, s) \<leftarrow> os_readline S 128 [] s;
     if line = [] then Some (buf, s) else edit_lines S (add_line buf line) s
   }"

definition edit_save :: "'s os \<Rightarrow> u8 list \<Rightarrow> u8 list \<Rightarrow> 's prog" where
  "edit_save S name buf s =
     (if buf = [] then say S (puts (ln ''(no changes, keeping original)'')) s
      else do {
        (_, s) \<leftarrow> fs_unlink S name s;
        (fd, s) \<leftarrow> fs_open S name s;
        if fd < 0 then say S (puts (ln ''edit: write failed'')) s
        else do {
          (_, s) \<leftarrow> fs_write S fd buf s;
          (_, s) \<leftarrow> fs_close S fd s;
          (_, s) \<leftarrow> fs_sync S s;
          sayf S (10 # ln ''saved %d bytes to %s'') [A_int (of_nat (length buf)), A_str (Some name)] s
        }
      })"

definition cmd_edit :: "'s os \<Rightarrow> u8 list list \<Rightarrow> 's prog" where
  "cmd_edit S argv s =
     (if length argv < 2 then say S (puts (ln ''usage: edit <file>'')) s
      else do {
        s \<leftarrow> edit_parent S (argv ! 1) s;
        (old, s) \<leftarrow> edit_old S (argv ! 1) s;
        s \<leftarrow> calls S (edit_show old) s;
        (buf, s) \<leftarrow> edit_lines S [] s;
        edit_save S (argv ! 1) buf s
      })"

definition cmd_ps :: "'s os \<Rightarrow> 's prog" where
  "cmd_ps S s = do { (n, bs, s) \<leftarrow> u_ps S 1024 s; show_or S ''(no tasks)'' (sint n) bs s }"

definition cmd_kill :: "'s os \<Rightarrow> u8 list list \<Rightarrow> 's prog" where
  "cmd_kill S argv s =
     (if length argv < 2 then say S (puts (ln ''usage: kill <pid>'')) s
      else do {
        let pid = sint (atoi_loop 0 (argv ! 1));
        (r, s) \<leftarrow> u_kill S pid s;
        sayf S (if r = 0 then ln ''killed pid %d'' else ln ''kill: pid %d not found'') [A_int (word_of_int pid)] s
      })"

text \<open>\<open>sys_exec\<close> does not come back when it succeeds.\<close>

definition cmd_run :: "'s os \<Rightarrow> u8 list list \<Rightarrow> 's prog" where
  "cmd_run S argv s =
     (if length argv < 2 then say S (puts (ln ''usage: run <app>'')) s
      else do {
        (pid, s) \<leftarrow> u_fork S s;
        if pid = 0 then do {
          (_, s) \<leftarrow> u_set_fg S s;
          (r, s) \<leftarrow> u_exec S (argv ! 1) s;
          if r = 0 then ends Replaced s
          else seq (sayf S (ln ''run: %s failed'') [A_str (Some (argv ! 1))]) (ends (Exited 1)) s
        }
        else if 0 <s pid then
          seq (sayf S (ln ''started %s as pid %ld (shell suspended)'') [A_str (Some (argv ! 1)), A_int pid])
         (seq (perform (u_wait S))
              (sayf S (10 # ln ''[child exited, back to shell]'' @ [10]) [])) s
        else say S (puts (ln ''fork failed'')) s
      })"

section \<open>Dispatch\<close>

definition tokenize_step :: "u8 list \<Rightarrow> u8 list" where
  "tokenize_step p = dropWhile (\<lambda>c. c = 32) p"

primrec tokenize :: "nat \<Rightarrow> u8 list \<Rightarrow> u8 list list" where
  "tokenize 0 p = []"
| "tokenize (Suc n) p =
     (let p = tokenize_step p in
      if p = [] then []
      else takeWhile (\<lambda>c. c \<noteq> 32) p # tokenize n (tl (dropWhile (\<lambda>c. c \<noteq> 32) p)))"

definition need_arg :: "'s os \<Rightarrow> u8 list list \<Rightarrow> string \<Rightarrow> (u8 list \<Rightarrow> 's prog) \<Rightarrow> 's prog" where
  "need_arg S argv usage f = (if length argv < 2 then say S (puts (ln usage)) else f (argv ! 1))"

definition dispatch :: "'s os \<Rightarrow> u8 list list \<Rightarrow> 's prog" where
  "dispatch S argv =
     (if argv = [] then skip
      else
        (let c = argv ! 0 in
         if c = ascii ''echo'' then cmd_echo S argv
         else if c = ascii ''help'' then cmd_help S
         else if c = ascii ''printf'' then cmd_printf_demo S
         else if c = ascii ''ls'' then cmd_ls S argv
         else if c = ascii ''mkdir'' then need_arg S argv ''usage: mkdir <dir>'' (cmd_mkdir S)
         else if c = ascii ''cd'' then need_arg S argv ''usage: cd <dir>'' (cmd_cd S)
         else if c = ascii ''pwd'' then cmd_pwd S
         else if c = ascii ''cat'' then (if 2 \<le> length argv then cmd_cat S (argv ! 1) else cmd_cat_stdin S)
         else if c = ascii ''write'' then cmd_write S argv
         else if c = ascii ''rm'' then need_arg S argv ''usage: rm <file>'' (cmd_rm S)
         else if c = ascii ''sync'' then cmd_sync S
         else if c = ascii ''sleep'' then cmd_sleep S argv
         else if c = ascii ''fatls'' then cmd_fatls S
         else if c = ascii ''fatcat'' then need_arg S argv ''usage: fatcat <file>'' (cmd_fatcat S)
         else if c = ascii ''fatwrite'' then cmd_fatwrite S argv
         else if c = ascii ''fatrm'' then need_arg S argv ''usage: fatrm <file>'' (cmd_fatrm S)
         else if c = ascii ''edit'' then cmd_edit S argv
         else if c = ascii ''ps'' then cmd_ps S
         else if c = ascii ''kill'' then cmd_kill S argv
         else if c = ascii ''run'' then cmd_run S argv
         else if c = ascii ''spawn'' then
           (\<lambda>s. do { (r, s) \<leftarrow> u_spawn S s; say S (puts (if r = 0 then ln ''spawned child'' else ln ''spawn failed'')) s })
         else if c = ascii ''exit'' then ends (Exited 0)
         else sayf S (ln ''unknown command: %s'') [A_str (Some c)]))"

definition cmd_redirect :: "'s os \<Rightarrow> u8 list list \<Rightarrow> u8 list \<Rightarrow> int \<Rightarrow> 's prog" where
  "cmd_redirect S argv file which s = do {
     (pid, s) \<leftarrow> u_fork S s;
     if pid = 0 then do {
       (_, s) \<leftarrow> u_set_fg S s;
       (_, s) \<leftarrow> u_redir S which file s;
       seq (dispatch S argv) (ends (Exited 0)) s
     }
     else if 0 <s pid then perform (u_wait S) s
     else skip s
   }"

definition cmd_pipe :: "'s os \<Rightarrow> u8 list list \<Rightarrow> nat \<Rightarrow> 's prog" where
  "cmd_pipe S argv pipe_idx =
     (let left = take 15 (take pipe_idx argv);
          right = take 15 (drop (pipe_idx + 1) argv);
          tmp = ascii ''/tmp/_pipe'' in
      seq (cmd_redirect S left tmp 1)
     (seq (cmd_redirect S right tmp 0)
          (perform (fs_unlink S tmp))))"

text \<open>The first redirection with a file behind it, and the first pipe.\<close>

definition find_redir :: "u8 list list \<Rightarrow> nat option" where
  "find_redir argv = find (\<lambda>i. (argv ! i = ascii ''>'' \<or> argv ! i = ascii ''<'') \<and> i + 1 < length argv) [1..<length argv]"

definition find_pipe :: "u8 list list \<Rightarrow> nat option" where
  "find_pipe argv = find (\<lambda>i. argv ! i = ascii ''|'') [1..<length argv]"

definition shell_line :: "'s os \<Rightarrow> u8 list \<Rightarrow> 's prog" where
  "shell_line S line =
     (let argv = tokenize 16 line in
      if argv = [] then skip
      else
        (case find_redir argv of
           Some i \<Rightarrow> cmd_redirect S (take i argv) (argv ! (i + 1)) (if argv ! i = ascii ''>'' then 1 else 0)
         | None \<Rightarrow>
             (case find_pipe argv of
                Some i \<Rightarrow> cmd_pipe S argv i
              | None \<Rightarrow> dispatch S argv)))"

partial_function (option) shell_loop :: "'s os \<Rightarrow> 's \<Rightarrow> ('s \<times> stop) option" where
  "shell_loop S s = do {
     s \<leftarrow> calls S (puts (ascii ''flyos> '')) s;
     (line, s) \<leftarrow> os_readline S 128 [] s;
     (s, e) \<leftarrow> shell_line S line s;
     (case e of None \<Rightarrow> shell_loop S s | Some e \<Rightarrow> Some (s, e))
   }"

definition shell_start :: "'s os \<Rightarrow> 's \<Rightarrow> ('s \<times> stop) option" where
  "shell_start S s = do {
     s \<leftarrow> calls S (puts (ln ''flyos shell v0.8'') @ puts (ln ''type 'help' for commands'' @ [10])) s;
     (_, s) \<leftarrow> fs_mkdir S (ascii ''/tmp'') s;
     shell_loop S s
   }"

section \<open>Words\<close>

text \<open>The reference for \<open>tokenize\<close>: the non-empty fields between blanks.\<close>

fun fields :: "u8 list \<Rightarrow> u8 list list" where
  "fields [] = [[]]"
| "fields (c # s) = (if c = 32 then [] # fields s else (c # hd (fields s)) # tl (fields s))"

definition blank_words :: "u8 list \<Rightarrow> u8 list list" where
  "blank_words s = filter (\<lambda>w. w \<noteq> []) (fields s)"

lemma fields_ne [simp]: "fields s \<noteq> []"
  by (cases s) simp_all

lemma fields_word: "fields s = (if dropWhile (\<lambda>c. c \<noteq> 32) s = [] then [takeWhile (\<lambda>c. c \<noteq> 32) s]
    else takeWhile (\<lambda>c. c \<noteq> 32) s # fields (tl (dropWhile (\<lambda>c. c \<noteq> 32) s)))"
proof (induction s)
  case (Cons c s)
  show ?case
  proof (cases "c = 32")
    case False
    define t where "t = takeWhile (\<lambda>c. c \<noteq> 32) s"
    define d where "d = dropWhile (\<lambda>c. c \<noteq> 32) s"
    have e: "takeWhile (\<lambda>c. c \<noteq> 32) (c # s) = c # t" "dropWhile (\<lambda>c. c \<noteq> 32) (c # s) = d" using False by (simp_all add: t_def d_def)
    have "fields s = (if d = [] then [t] else t # fields (tl d))" using Cons.IH unfolding t_def d_def .
    then show ?thesis unfolding e using False by (simp split: if_splits)
  qed simp
qed simp

lemma blank_words_skip: "blank_words (tokenize_step s) = blank_words s"
proof (induction s)
  case (Cons c s)
  show ?case
  proof (cases "c = 32")
    case True
    then have "blank_words (c # s) = blank_words s" "tokenize_step (c # s) = tokenize_step s"
      by (simp_all add: blank_words_def tokenize_step_def)
    then show ?thesis using Cons.IH by simp
  qed (simp add: tokenize_step_def)
qed (simp add: tokenize_step_def)

lemma blank_words_first:
  assumes "s \<noteq> []" and "hd s \<noteq> 32"
  shows "blank_words s = takeWhile (\<lambda>c. c \<noteq> 32) s # blank_words (tl (dropWhile (\<lambda>c. c \<noteq> 32) s))"
proof -
  have ne: "takeWhile (\<lambda>c. c \<noteq> 32) s \<noteq> []" using assms by (cases s) simp_all
  show ?thesis
  proof (cases "dropWhile (\<lambda>c. c \<noteq> 32) s = []")
    case True
    then have "fields s = [takeWhile (\<lambda>c. c \<noteq> 32) s]" using fields_word [of s] by argo
    then show ?thesis using ne by (simp add: blank_words_def True del: dropWhile_eq_Nil_conv)
  next
    case False
    then have "fields s = takeWhile (\<lambda>c. c \<noteq> 32) s # fields (tl (dropWhile (\<lambda>c. c \<noteq> 32) s))" using fields_word [of s] by argo
    then show ?thesis using ne by (simp add: blank_words_def)
  qed
qed

text \<open>C39. \<open>tokenize\<close> splits a line into its words: exactly the first \<open>max\<close> non-empty pieces between blanks, in order.\<close>

theorem tokenize_correct: "tokenize n line = take n (blank_words line)"
proof (induction n arbitrary: line)
  case (Suc n)
  define p where "p = tokenize_step line"
  have w: "blank_words line = blank_words p" unfolding p_def by (rule blank_words_skip [symmetric])
  show ?case
  proof (cases "p = []")
    case True
    then show ?thesis using w by (simp add: p_def [symmetric] blank_words_def)
  next
    case False
    then have "hd p \<noteq> 32" unfolding p_def tokenize_step_def by (rule hd_dropWhile)
    then show ?thesis using False unfolding w blank_words_first [OF False \<open>hd p \<noteq> 32\<close>] by (simp add: p_def [symmetric] Suc.IH)
  qed
qed simp

section \<open>A console\<close>

text \<open>What the programs rely on when they talk to the user: output appears in order, the lock is free when nobody holds it, and a read
  of one byte takes the next character typed.  \<open>ok b\<close> describes the states in which this holds, \<open>b\<close> whether the program
  holds the lock; \<open>inp\<close> is what is typed but not read, \<open>out\<close> what is printed, \<open>same\<close> everything a console call leaves alone.\<close>

locale console =
  fixes S :: "'s os" and ok :: "bool \<Rightarrow> 's \<Rightarrow> bool" and inp :: "'s \<Rightarrow> u8 list" and out :: "'s \<Rightarrow> u8 list" and same :: "'s \<Rightarrow> 'r"
  assumes wr: "ok b s \<Longrightarrow> \<exists>s'. do_call S (Sys_write bs) s = Some s' \<and> ok b s' \<and> inp s' = inp s \<and> out s' = out s @ bs \<and> same s' = same s"
    and lock: "ok False s \<Longrightarrow> \<exists>s'. do_call S (Sys_sem_wait 0) s = Some s' \<and> ok True s' \<and> inp s' = inp s \<and> out s' = out s \<and> same s' = same s"
    and unlock: "ok True s \<Longrightarrow> \<exists>s'. do_call S (Sys_sem_post 0) s = Some s' \<and> ok False s' \<and> inp s' = inp s \<and> out s' = out s \<and> same s' = same s"
    and rd: "ok False s \<Longrightarrow> inp s = c # cs \<Longrightarrow>
      \<exists>s'. u_read S 1 s = Some (1, [c], s') \<and> ok False s' \<and> inp s' = cs \<and> out s' = out s \<and> same s' = same s"

text \<open>The lock across a sequence of calls; \<open>None\<close> when it is used wrongly.\<close>

fun lock_run :: "bool \<Rightarrow> call list \<Rightarrow> bool option" where
  "lock_run b [] = Some b"
| "lock_run b (Sys_write bs # cs) = lock_run b cs"
| "lock_run b (Sys_sem_wait i # cs) = (if i = 0 \<and> \<not> b then lock_run True cs else None)"
| "lock_run b (Sys_sem_post i # cs) = (if i = 0 \<and> b then lock_run False cs else None)"

lemma lock_run_append: "lock_run b (xs @ ys) = Option.bind (lock_run b xs) (\<lambda>b. lock_run b ys)"
  by (induction b xs rule: lock_run.induct) auto

lemma lock_run_simps [simp]:
  "lock_run b (raw_putchar c) = Some b" "lock_run b (raw_puts t) = Some b" "lock_run False (putchar c) = Some False"
  "lock_run False (puts t) = Some False"
  by (simp_all add: raw_putchar_def raw_puts_def putchar_def puts_def)

lemma lock_run_concat: "(\<And>x. x \<in> set xs \<Longrightarrow> lock_run False (f x) = Some False) \<Longrightarrow> lock_run False (concat (map f xs)) = Some False"
  by (induction xs) (simp_all add: lock_run_append)

lemma written_put [simp]: "sent_bytes (putchar c) = [c]" "sent_bytes (puts t) = t"
  by (simp_all add: putchar_def puts_def)

lemma written_concat: "sent_bytes (concat (map f xs)) = concat (map (\<lambda>x. sent_bytes (f x)) xs)"
  by (induction xs) simp_all

definition raw :: "call list \<Rightarrow> bool" where
  "raw cs \<longleftrightarrow> (\<forall>c \<in> set cs. \<exists>bs. c = Sys_write bs)"

lemma raw_simps [simp]: "raw []" "raw (raw_putchar c)" "raw (raw_puts t)" "raw (xs @ ys) \<longleftrightarrow> raw xs \<and> raw ys"
  by (auto simp: raw_def raw_putchar_def raw_puts_def)

lemma raw_lock: "raw cs \<Longrightarrow> lock_run b cs = Some b"
proof (induction cs)
  case (Cons c cs)
  then show ?case by (cases c) (auto simp: raw_def)
qed simp

lemma raw_concat: "raw (concat (map raw_putchar cs))"
  by (induction cs) simp_all

lemma raw_pad: "raw (concat (replicate n (raw_putchar c)))"
  by (induction n) simp_all

lemma raw_print_uint: "u_print_uint v base width pad = Some cs \<Longrightarrow> raw cs"
  by (auto simp: u_print_uint_def Let_def raw_concat raw_pad split: if_splits)

lemma raw_print_int: "u_print_int v width pad = Some cs \<Longrightarrow> raw cs"
  using raw_print_uint by (auto simp: u_print_int_def split: if_splits)

lemma raw_convert: "u_convert f pad width is_long args = Some (cs, as) \<Longrightarrow> raw cs"
  using raw_print_uint raw_print_int by (auto simp: u_convert_def split: if_splits list.splits arg.splits)

lemma raw_printf: "printf fmt args = Some cs \<Longrightarrow> raw cs"
proof (induction fmt args arbitrary: cs rule: printf.induct)
  case (2 c s args)
  show ?case
  proof (cases "c \<noteq> ch CHR ''%''")
    case True
    then show ?thesis using 2 by auto
  next
    case False
    then show ?thesis using 2(2) "2.prems" raw_convert
      by (auto split: option.splits list.splits prod.splits simp del: scan_spec_def)
  qed
qed simp

context console
begin

lemma calls_run: "lock_run b cs = Some b' \<Longrightarrow> ok b s \<Longrightarrow>
    \<exists>s'. calls S cs s = Some s' \<and> ok b' s' \<and> inp s' = inp s \<and> out s' = out s @ sent_bytes cs \<and> same s' = same s"
proof (induction b cs arbitrary: s rule: lock_run.induct)
  case (2 b bs cs)
  obtain s1 where "do_call S (Sys_write bs) s = Some s1" "ok b s1" "inp s1 = inp s" "out s1 = out s @ bs" "same s1 = same s"
    using wr [OF "2.prems"(2)] by blast
  then show ?case using "2.IH" [of s1] "2.prems"(1) by auto
next
  case (3 b i cs)
  then obtain s1 where "do_call S (Sys_sem_wait i) s = Some s1" "ok True s1" "inp s1 = inp s" "out s1 = out s" "same s1 = same s" "i = 0" "\<not> b"
    using lock [of s] by (auto split: if_splits)
  then show ?case using "3.IH" [of s1] "3.prems"(1) by auto
next
  case (4 b i cs)
  then obtain s1 where "do_call S (Sys_sem_post i) s = Some s1" "ok False s1" "inp s1 = inp s" "out s1 = out s" "same s1 = same s" "i = 0" "b"
    using unlock [of s] by (auto split: if_splits)
  then show ?case using "4.IH" [of s1] "4.prems"(1) by auto
qed simp

text \<open>The line editor over any such console is the one of the user library.\<close>

lemma readline_run: "readline_loop mx buf (inp s) = Some (line, cs, left) \<Longrightarrow> ok False s \<Longrightarrow>
    \<exists>s'. os_readline S mx buf s = Some (line, s') \<and> ok False s' \<and> inp s' = left \<and> out s' = out s @ sent_bytes cs \<and> same s' = same s"
proof (induction "inp s" arbitrary: buf s line cs rule: list.induct)
  case Nil
  then show ?case by simp
next
  case (Cons c input)
  obtain s1 where r: "u_read S 1 s = Some (1, [c], s1)" "ok False s1" "inp s1 = input" "out s1 = out s" "same s1 = same s"
    using rd [OF Cons.prems(2)] Cons.hyps(2) by metis
  have g: "getchar S s = Some (c, s1)" using r(1) by (simp add: getchar_def)
  note IH = Cons.hyps(1) [OF r(3) [symmetric]]
  note rl = Cons.prems(1) [folded Cons.hyps(2)]
  have go: ?case if "readline_loop mx buf' input = Some (line, cs', left)" "calls S cs1 s1 = Some s2" "ok False s2" "inp s2 = inp s1"
    "out s2 = out s1 @ sent_bytes cs1" "same s2 = same s1" "sent_bytes cs = sent_bytes cs1 @ sent_bytes cs'" "os_readline S mx buf s = os_readline S mx buf' s2"
    for buf' cs' cs1 s2
  proof -
    have i: "input = inp s2" using that(4) r(3) by simp
    have "readline_loop mx buf' (inp s2) = Some (line, cs', left)" using that(1) i by simp
    from Cons.hyps(1) [OF i this that(3)] show ?thesis using that(5-8) r(4,5) by auto
  qed
  consider (enter) "c = 13 \<or> c = 10" | (rub) "\<not> (c = 13 \<or> c = 10)" "c = 8 \<or> c = 127" "length buf > 0" |
    (type) "\<not> (c = 13 \<or> c = 10)" "\<not> (c = 8 \<or> c = 127)" "\<not> (c < 32 \<or> c > 126)" "\<not> int (length buf) \<ge> mx - 1" |
    (drop) "\<not> (c = 13 \<or> c = 10)" "(c = 8 \<or> c = 127) \<and> \<not> length buf > 0 \<or> \<not> (c = 8 \<or> c = 127) \<and> ((c < 32 \<or> c > 126) \<or> int (length buf) \<ge> mx - 1)"
    by blast
  then show ?case
  proof cases
    case enter
    then have e: "buf = line" "putchar 10 = cs" "input = left" using rl by simp_all
    obtain s2 where "calls S (putchar 10) s1 = Some s2" "ok False s2" "inp s2 = inp s1" "out s2 = out s1 @ sent_bytes (putchar 10)" "same s2 = same s1"
      using calls_run [OF lock_run_simps(3) r(2)] by blast
    then show ?thesis using enter g e r(3-5) by (subst os_readline.simps) auto
  next
    case rub
    let ?cs1 = "putchar 8 @ putchar 32 @ putchar 8"
    obtain cs' where c': "readline_loop mx (butlast buf) input = Some (line, cs', left)" "cs = ?cs1 @ cs'" using rl rub by auto
    have "lock_run False ?cs1 = Some False" by (simp add: lock_run_append)
    from calls_run [OF this r(2)] obtain s2 where s2: "calls S ?cs1 s1 = Some s2" "ok False s2" "inp s2 = inp s1" "out s2 = out s1 @ sent_bytes ?cs1" "same s2 = same s1" by blast
    have "os_readline S mx buf s = os_readline S mx (butlast buf) s2" using rub g s2(1) by (subst os_readline.simps) simp
    with c' s2 show ?thesis by (intro go [of "butlast buf" cs' ?cs1 s2]) simp_all
  next
    case type
    obtain cs' where c': "readline_loop mx (buf @ [c]) input = Some (line, cs', left)" "cs = putchar c @ cs'" using rl type by auto
    from calls_run [OF lock_run_simps(3) r(2)] obtain s2 where s2: "calls S (putchar c) s1 = Some s2" "ok False s2" "inp s2 = inp s1"
      "out s2 = out s1 @ sent_bytes (putchar c)" "same s2 = same s1" by blast
    have "os_readline S mx buf s = os_readline S mx (buf @ [c]) s2" using type g s2(1) by (subst os_readline.simps) simp
    with c' s2 show ?thesis by (intro go [of "buf @ [c]" cs' "putchar c" s2]) simp_all
  next
    case drop
    have c': "readline_loop mx buf input = Some (line, cs, left)" using rl drop by (auto split: if_splits)
    have "os_readline S mx buf s = os_readline S mx buf s1" using drop g by (subst os_readline.simps) auto
    with c' r(2) show ?thesis by (intro go [of buf cs "[]" s1]) simp_all
  qed
qed

end

section \<open>The kernel as a console\<close>

text \<open>The states of the kernel in which a program in the foreground, without redirections, has the console to itself:
  the keyboard ring is well formed, and semaphore 0, the lock of the output, is held exactly by the program.\<close>

definition kbd_queue :: "kbd \<Rightarrow> u8 list" where
  "kbd_queue kb = map (\<lambda>i. kbd_buf kb ! ((kbd_tail kb + i) mod 256)) [0..<(kbd_head kb + 256 - kbd_tail kb) mod 256]"

definition console_ok :: "bool \<Rightarrow> 'd kernel \<Rightarrow> bool" where
  "console_ok b k \<longleftrightarrow> current (k_sched k) \<noteq> 0 \<and> t_stdin_node (cur_task k) = 0 \<and> t_stdout_node (cur_task k) = 0 \<and>
     (foreground (k_sched k) = 0 \<or> foreground (k_sched k) = current (k_sched k)) \<and>
     kbd_inv (k_kbd k) (kbd_queue (k_kbd k)) \<and> k_sems k \<noteq> [] \<and> sm_used (k_sems k ! 0) \<and> sm_count (k_sems k ! 0) = (if b then 0 else 1)"

definition typed_keys :: "'d kernel \<Rightarrow> u8 list" where
  "typed_keys k = kbd_queue (k_kbd k)"

lemma kbd_queue_rep:
  assumes "kbd_rep kb q"
  shows "kbd_queue kb = q"
proof -
  have r: "kbd_head kb = (kbd_tail kb + length q) mod 256" "kbd_tail kb < 256" "length q < 256"
    "\<forall>i<length q. kbd_buf kb ! ((kbd_tail kb + i) mod 256) = q ! i" using assms by (auto simp: kbd_rep_def)
  have "(kbd_head kb + 256 - kbd_tail kb) mod 256 = length q"
  proof (cases "kbd_tail kb + length q < 256")
    case True
    then show ?thesis using r(1,3) by simp
  next
    case False
    then have "kbd_head kb = kbd_tail kb + length q - 256" using r(1-3) by (simp add: mod_if)
    then show ?thesis using r(2,3) False by simp
  qed
  then show ?thesis using r(4) by (intro nth_equalityI) (simp_all add: kbd_queue_def)
qed

lemma kbd_inv_queue: "kbd_inv kb q \<Longrightarrow> kbd_queue kb = q \<and> kbd_inv kb (kbd_queue kb)"
proof -
  assume inv: "kbd_inv kb q"
  then have "kbd_queue kb = q" using kbd_queue_rep by (auto simp: kbd_inv_def)
  then show ?thesis using inv by simp
qed

text \<open>Printing changes the serial line, the screen and the memory the pixels lie in.\<close>

definition printed :: "u8 list \<Rightarrow> 'd kernel \<Rightarrow> 'd kernel \<Rightarrow> bool" where
  "printed bs k k' \<longleftrightarrow> k_serial k' = k_serial k @ bs \<and> (\<exists>v. k_sched k' = (k_sched k)\<lparr>s_vmm := v\<rparr>) \<and> k_files k' = k_files k \<and>
     k_kbd k' = k_kbd k \<and> k_sems k' = k_sems k \<and> k_disk k' = k_disk k \<and> k_fat k' = k_fat k"

lemma printed_putc: "printed [c] k (console_putc P c k)"
  by (auto simp: printed_def console_putc_def put_vmm_def split: prod.split)

lemma printed_trans: "printed xs k k1 \<Longrightarrow> printed ys k1 k2 \<Longrightarrow> printed (xs @ ys) k k2"
  by (auto simp: printed_def)

lemma printed_fold: "printed bs k (fold (console_putc P) bs k)"
proof (induction bs arbitrary: k)
  case Nil
  have "k_sched k = (k_sched k)\<lparr>s_vmm := s_vmm (k_sched k)\<rparr>" by simp
  then show ?case unfolding printed_def by (metis append_Nil2 fold_simps(1))
next
  case (Cons c bs)
  show ?case using printed_trans [OF printed_putc Cons.IH, of c k P] by simp
qed

lemma printed_views:
  assumes "printed bs k k'"
  shows "files_of k' = files_of k" and "cur_task k' = cur_task k" and "current (k_sched k') = current (k_sched k)"
    and "foreground (k_sched k') = foreground (k_sched k)" and "k_serial k' = k_serial k @ bs" and "k_kbd k' = k_kbd k" and "k_sems k' = k_sems k"
  using assms by (auto simp: printed_def files_of_def cur_task_def)

text \<open>Files and disk, which console output leaves alone.\<close>

definition files_view :: "'d kernel \<Rightarrow> files \<times> 'd" where
  "files_view k = (files_of k, k_disk k)"

interpretation kernel_console: console "kernel_os P" console_ok typed_keys k_serial files_view for P :: "'d platform"
proof
  fix b and k :: "'d kernel" and bs
  assume ok: "console_ok b k"
  let ?k' = "fold (console_putc P) bs k"
  have p: "printed bs k ?k'" by (rule printed_fold)
  have "do_call (kernel_os P) (Sys_write bs) k = Some ?k'" using ok by (simp add: kernel_os_def v_write_def console_ok_def Let_def)
  moreover have "console_ok b ?k'" "typed_keys ?k' = typed_keys k" using ok printed_views [OF p] by (simp_all add: console_ok_def typed_keys_def)
  moreover have "files_view ?k' = files_view k" using p printed_views(1) [OF p] by (simp add: files_view_def printed_def)
  ultimately show "\<exists>s'. do_call (kernel_os P) (Sys_write bs) k = Some s' \<and> console_ok b s' \<and> typed_keys s' = typed_keys k \<and>
      k_serial s' = k_serial k @ bs \<and> files_view s' = files_view k" using printed_views(5) [OF p] by blast
next
  fix k :: "'d kernel"
  assume ok: "console_ok False k"
  let ?k' = "(put_sched (k_sched k) k)\<lparr>k_sems := (k_sems k)[0 := (k_sems k ! 0)\<lparr>sm_count := 0\<rparr>]\<rparr>"
  have "do_call (kernel_os P) (Sys_sem_wait 0) k = Some ?k'"
    using ok by (simp add: kernel_os_def sem_wait_def SEM_MAX_def console_ok_def Let_def)
  moreover have "console_ok True ?k'" using ok by (simp add: console_ok_def put_sched_def cur_task_def)
  ultimately show "\<exists>s'. do_call (kernel_os P) (Sys_sem_wait 0) k = Some s' \<and> console_ok True s' \<and> typed_keys s' = typed_keys k \<and>
      k_serial s' = k_serial k \<and> files_view s' = files_view k"
    by (auto simp: put_sched_def typed_keys_def files_view_def files_of_def)
next
  fix k :: "'d kernel"
  assume ok: "console_ok True k"
  let ?k' = "(put_sched (k_sched k) k)\<lparr>k_sems := (k_sems k)[0 := (k_sems k ! 0)\<lparr>sm_count := 1\<rparr>]\<rparr>"
  have "do_call (kernel_os P) (Sys_sem_post 0) k = Some ?k'"
    using ok by (simp add: kernel_os_def sem_post_def SEM_MAX_def console_ok_def Let_def)
  moreover have "console_ok False ?k'" using ok by (simp add: console_ok_def put_sched_def cur_task_def)
  ultimately show "\<exists>s'. do_call (kernel_os P) (Sys_sem_post 0) k = Some s' \<and> console_ok False s' \<and> typed_keys s' = typed_keys k \<and>
      k_serial s' = k_serial k \<and> files_view s' = files_view k"
    by (auto simp: put_sched_def typed_keys_def files_view_def files_of_def)
next
  fix k :: "'d kernel" and c cs
  assume ok: "console_ok False k" and ty: "typed_keys k = c # cs"
  have inv: "kbd_inv (k_kbd k) (c # cs)" using ok ty by (simp add: console_ok_def typed_keys_def)
  obtain r kb where g: "keyboard_getchar_nonblock (k_kbd k) = (r, kb)" by fastforce
  have f: "r = int (unat c)" "kbd_inv kb cs" using keyboard_getchar_correct [OF inv] unfolding g by simp_all
  have pk: "pull_keys 1 k = Some ([c], k\<lparr>k_kbd := kb\<rparr>)" using g f(1) by simp
  have "u_read (kernel_os P) 1 k = Some (1, [c], k\<lparr>k_kbd := kb\<rparr>)"
    using ok pk by (auto simp: kernel_os_def v_read_def console_ok_def)
  moreover have "console_ok False (k\<lparr>k_kbd := kb\<rparr>)" "typed_keys (k\<lparr>k_kbd := kb\<rparr>) = cs"
    using ok kbd_inv_queue [OF f(2)] f(2) by (auto simp: console_ok_def typed_keys_def cur_task_def)
  ultimately show "\<exists>s'. u_read (kernel_os P) 1 k = Some (1, [c], s') \<and> console_ok False s' \<and> typed_keys s' = cs \<and>
      k_serial s' = k_serial k \<and> files_view s' = files_view k"
    by (auto simp: files_view_def files_of_def)
qed


section \<open>Printing a file\<close>

text \<open>A console with files.  \<open>left v fd bs\<close>: in the view \<open>v\<close>, \<open>bs\<close> is what descriptor \<open>fd\<close> has still to deliver;
  \<open>names v p bs\<close>: the path \<open>p\<close> names a file with contents \<open>bs\<close> that can be opened; \<open>tree v\<close>: the file system.\<close>

locale file_console = console S ok inp out same
  for S :: "'s os" and ok :: "bool \<Rightarrow> 's \<Rightarrow> bool" and inp :: "'s \<Rightarrow> u8 list" and out :: "'s \<Rightarrow> u8 list" and same :: "'s \<Rightarrow> 'r" +
  fixes left :: "'r \<Rightarrow> int \<Rightarrow> u8 list \<Rightarrow> bool" and names :: "'r \<Rightarrow> u8 list \<Rightarrow> u8 list \<Rightarrow> bool" and tree :: "'r \<Rightarrow> 't"
  assumes fopen: "ok False s \<Longrightarrow> names (same s) p bs \<Longrightarrow>
      \<exists>fd s'. fs_open S p s = Some (fd, s') \<and> 0 \<le> fd \<and> left (same s') fd bs \<and> ok False s' \<and> inp s' = inp s \<and> out s' = out s \<and> tree (same s') = tree (same s)"
    and fread: "ok False s \<Longrightarrow> left (same s) fd bs \<Longrightarrow> n < 2 ^ 31 \<Longrightarrow>
      \<exists>s'. fs_read S fd n s = Some (int (length (take n bs)), take n bs, s') \<and> left (same s') fd (drop n bs) \<and>
        ok False s' \<and> inp s' = inp s \<and> out s' = out s \<and> tree (same s') = tree (same s)"
    and fclose: "ok False s \<Longrightarrow> left (same s) fd bs \<Longrightarrow>
      \<exists>s'. fs_close S fd s = Some (0, s') \<and> ok False s' \<and> inp s' = inp s \<and> out s' = out s \<and> tree (same s') = tree (same s)"

lemma put_all_lock: "lock_run False (put_all n bs) = Some False"
  unfolding put_all_def by (rule lock_run_concat) simp

lemma put_all_sent: "int (length bs) = n \<Longrightarrow> sent_bytes (put_all n bs) = bs"
  by (auto simp: put_all_def written_concat)

context file_console
begin

lemma cat_prints: "ok False s \<Longrightarrow> left (same s) fd bs \<Longrightarrow>
    \<exists>s'. cat_loop S fd s = Some s' \<and> left (same s') fd [] \<and> ok False s' \<and> inp s' = inp s \<and> out s' = out s @ bs \<and> tree (same s') = tree (same s)"
proof (induction bs arbitrary: s rule: length_induct)
  case (1 bs)
  obtain s1 where r: "fs_read S fd 256 s = Some (int (length (take 256 bs)), take 256 bs, s1)" "left (same s1) fd (drop 256 bs)"
    "ok False s1" "inp s1 = inp s" "out s1 = out s" "tree (same s1) = tree (same s)"
    using fread [OF "1.prems", of 256] by auto
  show ?case
  proof (cases "bs = []")
    case True
    then have "cat_loop S fd s = Some s1" using r(1) by (subst cat_loop.simps) simp
    then show ?thesis using r True by auto
  next
    case False
    obtain s2 where c: "calls S (put_all (int (length (take 256 bs))) (take 256 bs)) s1 = Some s2" "ok False s2" "inp s2 = inp s1"
      "out s2 = out s1 @ take 256 bs" "same s2 = same s1"
      using calls_run [OF put_all_lock r(3)] put_all_sent [OF refl] by metis
    have "\<not> int (length (take 256 bs)) \<le> 0" using False by (auto simp: min_def)
    then have e: "cat_loop S fd s = cat_loop S fd s2" using r(1) c(1) by (subst cat_loop.simps) (simp del: length_take)
    have "length (drop 256 bs) < length bs" using False by simp
    then obtain s3 where "cat_loop S fd s2 = Some s3" "left (same s3) fd []" "ok False s3" "inp s3 = inp s2"
      "out s3 = out s2 @ drop 256 bs" "tree (same s3) = tree (same s2)"
      using "1.IH" c(2,5) r(2) by metis
    then show ?thesis using e c r(4-6) by (intro exI [of _ s3]) simp
  qed
qed

lemma cat_file:
  assumes "ok False s" and "names (same s) p bs"
  shows "\<exists>s'. cmd_cat S p s = Some (s', None) \<and> ok False s' \<and> inp s' = inp s \<and> out s' = out s @ bs \<and> tree (same s') = tree (same s)"
proof -
  obtain fd s1 where o: "fs_open S p s = Some (fd, s1)" "0 \<le> fd" "left (same s1) fd bs" "ok False s1" "inp s1 = inp s" "out s1 = out s"
    "tree (same s1) = tree (same s)" using fopen [OF assms] by blast
  obtain s2 where l: "cat_loop S fd s1 = Some s2" "left (same s2) fd []" "ok False s2" "inp s2 = inp s1" "out s2 = out s1 @ bs"
    "tree (same s2) = tree (same s1)" using cat_prints [OF o(4,3)] by blast
  obtain s3 where c: "fs_close S fd s2 = Some (0, s3)" "ok False s3" "inp s3 = inp s2" "out s3 = out s2" "tree (same s3) = tree (same s2)"
    using fclose [OF l(3,2)] by blast
  have "cmd_cat S p s = Some (s3, None)" using o(1,2) l(1) c(1) by (simp add: cmd_cat_def perform_def)
  then show ?thesis using c o l by simp
qed

end


text \<open>The kernel as such a console.  A path names a file when it leads to it and a descriptor is free.\<close>

definition kernel_left :: "files \<times> 'd \<Rightarrow> int \<Rightarrow> u8 list \<Rightarrow> bool" where
  "kernel_left v fd bs \<longleftrightarrow> (\<exists>f pos p c all. opened (fst v) fd f pos False \<and> file_at (fl_fs (fst v)) f p c all \<and>
     length all < 2 ^ 31 \<and> pos \<le> length all \<and> bs = drop pos all)"

definition kernel_names :: "files \<times> 'd \<Rightarrow> u8 list \<Rightarrow> u8 list \<Rightarrow> bool" where
  "kernel_names v pn bs \<longleftrightarrow> (\<exists>ns d ts nm f p c. pn = 47 # path_of (ns @ [nm]) \<and> reached (fl_fs (fst v)) ns d \<and>
     dir_at (fl_fs (fst v)) d ts \<and> (\<forall>m \<in> set (ns @ [nm]). plain m) \<and> find (\<lambda>t. rname t = nm) ts = Some (RFile f nm p c bs) \<and>
     length bs < 2 ^ 31 \<and> length (fd_table (fst v)) = MAX_FD \<and> (\<exists>i. 3 \<le> i \<and> i < MAX_FD \<and> \<not> f_used (fd_table (fst v) ! i)))"

definition kernel_tree :: "files \<times> 'd \<Rightarrow> ramfs \<times> 'd" where
  "kernel_tree v = (fl_fs (fst v), snd v)"

lemma files_of_put [simp]: "files_of (put_files f k) = f"
  by (simp add: files_of_def put_files_def)

lemma put_files_same [simp]:
  "console_ok b (put_files f k) \<longleftrightarrow> console_ok b k" "typed_keys (put_files f k) = typed_keys k" "k_serial (put_files f k) = k_serial k"
  "k_disk (put_files f k) = k_disk k"
  by (simp_all add: console_ok_def put_files_def typed_keys_def cur_task_def)

lemma open_named:
  assumes "kernel_names (files_view k) pn bs"
  shows "\<exists>fd f. file_open pn (files_of k) = Some (fd, f) \<and> 3 \<le> fd \<and> fd < int MAX_FD \<and> fl_fs f = fl_fs (files_of k) \<and> kernel_left (f, k_disk k) fd bs"
proof -
  let ?st = "files_of k"
  obtain ns d ts nm f p c where pn: "pn = 47 # path_of (ns @ [nm])" and r: "reached (fl_fs ?st) ns d" "dir_at (fl_fs ?st) d ts"
    "\<forall>m \<in> set (ns @ [nm]). plain m" "find (\<lambda>t. rname t = nm) ts = Some (RFile f nm p c bs)" "length bs < 2 ^ 31"
    "length (fd_table ?st) = MAX_FD" and free: "\<exists>i. 3 \<le> i \<and> i < MAX_FD \<and> \<not> f_used (fd_table ?st ! i)"
    using assms unfolding kernel_names_def files_view_def fst_conv by blast
  obtain pre post where sp: "ts = pre @ RFile f nm p c bs # post"
    using r(4) by (metis find_Some_iff nth_mem split_list)
  have fa: "file_at (fl_fs ?st) f p c bs" using r(2) unfolding sp by (rule dir_file_at)
  obtain fd st' where g: "take_fd f False ?st = (fd, st')" "fl_fs st' = fl_fs ?st" "gets_fd ?st f False fd st'"
    using take_fd_gets [OF r(6), of f False] by blast
  have l: "ramfs_lookup pn (fl_fs ?st) = Some f" using lookup_in_dir [OF r(1,3,2)] r(4) pn by simp
  have "f \<noteq> 0" "n_type (rnodes (fl_fs ?st) f) = NODE_FILE" using fa by (simp_all add: file_at_def)
  then have op: "file_open pn ?st = Some (fd, st')" using l g(1) by (simp add: file_open_def)
  have o: "opened st' fd f 0 False" using g(3) free by (auto simp: gets_fd_def split: if_splits)
  then have "kernel_left (st', k_disk k) fd bs" using fa r(5) g(2) o unfolding kernel_left_def
    by (intro exI [of _ f] exI [of _ 0] exI [of _ p] exI [of _ c] exI [of _ bs]) simp
  then show ?thesis using op g(2) o by (auto simp: opened_def)
qed


lemma as_long_ret: "\<bar>r\<bar> < 2 ^ 31 \<Longrightarrow> as_long (Some (ret_int r, x)) = Some (r, x)"
  by (simp add: as_long_def ret_int_def signed_of_int signed_take_bit_int_eq_self)

lemma as_int_ret: "\<bar>r\<bar> < 2 ^ 31 \<Longrightarrow> as_int (Some (ret_int r, x)) = Some (r, x)"
proof -
  assume r: "\<bar>r\<bar> < 2 ^ 31"
  have "ucast (word_of_int r :: u64) = (word_of_int r :: u32)" by (rule bit_word_eqI) (auto simp: bit_simps)
  then show ?thesis using r by (simp add: as_int_def ret_int_def signed_of_int signed_take_bit_int_eq_self)
qed

lemma read_left:
  assumes "kernel_left (files_of k, e) fd bs" and "n < 2 ^ 31"
  shows "\<exists>f. file_read fd (of_nat n) (files_of k) = (int (length (take n bs)), take n bs, f) \<and> kernel_left (f, e) fd (drop n bs) \<and>
    fl_fs f = fl_fs (files_of k) \<and> length bs < 2 ^ 31"
proof -
  obtain f pos p c all where o: "opened (files_of k) fd f pos False" and fa: "file_at (fl_fs (files_of k)) f p c all"
    and l: "length all < 2 ^ 31" "pos \<le> length all" and bs: "bs = drop pos all"
    using assms(1) by (auto simp: kernel_left_def)
  have un: "unat (of_nat n :: u64) = n" using assms(2) by (intro unat_of_nat_64) simp
  obtain st' where r: "file_read fd (of_nat n) (files_of k) = (int (length (take n bs)), take n bs, st')"
    "opened st' fd f (pos + length (take n bs)) False" "fl_fs st' = fl_fs (files_of k)"
    using file_read_step [OF o fa l, of "of_nat n"] un bs by auto
  have "drop n bs = drop (pos + length (take n bs)) all" using bs l(2) by (auto simp: min_def add.commute)
  then have "kernel_left (st', e) fd (drop n bs)"
    unfolding kernel_left_def using r(2,3) fa l bs by (intro exI conjI) (auto simp: min_def)
  then show ?thesis using r(1,3) l(1) bs by auto
qed

interpretation kernel_files: file_console "kernel_os P" console_ok typed_keys k_serial files_view kernel_left kernel_names kernel_tree
  for P :: "'d platform"
proof
  fix k :: "'d kernel" and pn bs
  assume ok: "console_ok False k" and nm: "kernel_names (files_view k) pn bs"
  obtain fd f where f: "file_open pn (files_of k) = Some (fd, f)" "3 \<le> fd" "fd < int MAX_FD" "fl_fs f = fl_fs (files_of k)"
    "kernel_left (f, k_disk k) fd bs" using open_named [OF nm] by blast
  have "fs_open (kernel_os P) pn k = Some (fd, put_files f k)"
    using f(1-3) as_int_ret [of fd] by (simp add: fs_open_def kernel_os_def with_files_def MAX_FD_def)
  then show "\<exists>fd s'. fs_open (kernel_os P) pn k = Some (fd, s') \<and> 0 \<le> fd \<and> kernel_left (files_view s') fd bs \<and> console_ok False s' \<and>
      typed_keys s' = typed_keys k \<and> k_serial s' = k_serial k \<and> kernel_tree (files_view s') = kernel_tree (files_view k)"
    using f ok by (intro exI [of _ fd] exI [of _ "put_files f k"]) (simp add: files_view_def kernel_tree_def)
next
  fix k :: "'d kernel" and fd bs and n :: nat
  assume ok: "console_ok False k" and l: "kernel_left (files_view k) fd bs" and n: "n < 2 ^ 31"
  obtain f where f: "file_read fd (of_nat n) (files_of k) = (int (length (take n bs)), take n bs, f)" "kernel_left (f, k_disk k) fd (drop n bs)"
    "fl_fs f = fl_fs (files_of k)" "length bs < 2 ^ 31" using read_left [OF l [unfolded files_view_def] n] by blast
  have "fs_read (kernel_os P) fd n k = Some (int (length (take n bs)), take n bs, put_files f k)"
    using f(1) as_long_ret [of "int (length (take n bs))" "(take n bs, put_files f k)"] f(4) by (simp add: fs_read_def kernel_os_def v_fread_def)
  then show "\<exists>s'. fs_read (kernel_os P) fd n k = Some (int (length (take n bs)), take n bs, s') \<and> kernel_left (files_view s') fd (drop n bs) \<and>
      console_ok False s' \<and> typed_keys s' = typed_keys k \<and> k_serial s' = k_serial k \<and> kernel_tree (files_view s') = kernel_tree (files_view k)"
    using f ok by (intro exI [of _ "put_files f k"]) (simp add: files_view_def kernel_tree_def)
next
  fix k :: "'d kernel" and fd bs
  assume ok: "console_ok False k" and l: "kernel_left (files_view k) fd bs"
  obtain f pos where "opened (files_of k) fd f pos False" using l by (auto simp: kernel_left_def files_view_def)
  then have "\<not> bad_fd fd (files_of k)" by (rule opened_good)
  then have "fs_close (kernel_os P) fd k = Some (0, put_files (snd (file_close fd (files_of k))) k)"
    using as_int_ret [of 0] by (simp add: fs_close_def kernel_os_def with_files_def file_close_def)
  then show "\<exists>s'. fs_close (kernel_os P) fd k = Some (0, s') \<and> console_ok False s' \<and> typed_keys s' = typed_keys k \<and>
      k_serial s' = k_serial k \<and> kernel_tree (files_view s') = kernel_tree (files_view k)"
    using ok by (simp add: files_view_def kernel_tree_def file_close_def)
qed


section \<open>A command from the keyboard to the screen\<close>

lemma type_line: "list_all printable keys \<Longrightarrow> int (length buf + length keys) < mx \<Longrightarrow>
    \<exists>cs. readline_loop mx buf (keys @ 13 # rest) = Some (buf @ keys, cs, rest) \<and> sent_bytes cs = keys @ [10]"
proof (induction keys arbitrary: buf)
  case (Cons c keys)
  obtain cs where IH: "readline_loop mx (buf @ [c]) (keys @ 13 # rest) = Some ((buf @ [c]) @ keys, cs, rest)" "sent_bytes cs = keys @ [10]"
    using Cons.IH [of "buf @ [c]"] Cons.prems by auto
  have "c \<noteq> 13 \<and> c \<noteq> 10 \<and> c \<noteq> 8 \<and> c \<noteq> 127 \<and> \<not> (c < 32 \<or> c > 126)" using Cons.prems(1) by (auto simp: printable_def not_less)
  then have "readline_loop mx buf ((c # keys) @ 13 # rest) = Some (buf @ c # keys, putchar c @ cs, rest)" using IH(1) Cons.prems(2) by simp
  then show ?case using IH(2) by (intro exI [of _ "putchar c @ cs"]) simp
qed simp

lemma cat_words:
  assumes "hd p = 47" and "p \<noteq> []" and "32 \<notin> set p"
  shows "tokenize 16 (ascii ''cat '' @ p) = [ascii ''cat'', p]"
proof -
  obtain q where p: "p = 47 # q" using assms(1,2) by (cases p) auto
  have w: "takeWhile (\<lambda>c. c \<noteq> 32) p = p" "dropWhile (\<lambda>c. c \<noteq> 32) p = []" using assms(3) by (auto simp: takeWhile_eq_all_conv)
  have d: "dropWhile (\<lambda>c. c = 32) p = p" by (simp add: p)
  have n: "16 = Suc (Suc (Suc 13))" by simp
  show ?thesis unfolding n tokenize.simps tokenize_step_def by (simp add: ascii_def Let_def w d assms(2) tokenize_step_def)
qed

lemma cat_line:
  assumes "hd p = 47" and "p \<noteq> []" and "32 \<notin> set p"
  shows "shell_line S (ascii ''cat '' @ p) = cmd_cat S p"
proof -
  have "find_redir [ascii ''cat'', p] = None" by (simp add: find_redir_def upt_rec)
  moreover have "find_pipe [ascii ''cat'', p] = None" using assms(1) by (auto simp: find_pipe_def upt_rec ascii_def)
  moreover have "dispatch S [ascii ''cat'', p] = cmd_cat S p" by (simp add: dispatch_def Let_def ascii_def)
  ultimately show ?thesis by (simp add: shell_line_def cat_words [OF assms])
qed

text \<open>
  C11. The keyboard, the shell, the file system and the console together: when \<open>cat\<close>, a blank, an absolute path and the enter key have been
  typed, \<open>readline\<close> returns that line with an echo, and the shell prints exactly the bytes of the file the path names and comes back;
  the keys typed behind the line stay in the queue, and neither a file nor the disk changes.
\<close>

theorem shell_cat:
  assumes "console_ok False k" and "typed_keys k = ascii ''cat '' @ p @ 13 # rest" and "\<forall>c \<in> set p. 32 < c \<and> c \<le> 126"
    and "length p < 124" and "kernel_names (files_view k) p bs"
  shows "\<exists>k1 k2. os_readline (kernel_os P) 128 [] k = Some (ascii ''cat '' @ p, k1) \<and>
    shell_line (kernel_os P) (ascii ''cat '' @ p) k1 = Some (k2, None) \<and>
    k_serial k2 = k_serial k @ (ascii ''cat '' @ p @ [10]) @ bs \<and> typed_keys k2 = rest \<and> console_ok False k2 \<and>
    fs_of k2 = fs_of k \<and> k_disk k2 = k_disk k"
proof -
  have p: "hd p = 47" "p \<noteq> []" "32 \<notin> set p" using assms(3,5) by (auto simp: kernel_names_def)
  have pr: "list_all printable (ascii ''cat '' @ p)" using assms(3) by (auto simp: list_all_iff printable_def ascii_def)
  have ln: "length (ascii ''cat '') = 5 - 1" by (simp add: ascii_def)
  obtain cs where r: "readline_loop 128 [] (typed_keys k) = Some (ascii ''cat '' @ p, cs, rest)" "sent_bytes cs = ascii ''cat '' @ p @ [10]"
    using type_line [OF pr, of "[]" 128 rest] assms(2,4) ln by auto
  obtain k1 where k1: "os_readline (kernel_os P) 128 [] k = Some (ascii ''cat '' @ p, k1)" "console_ok False k1" "typed_keys k1 = rest"
    "k_serial k1 = k_serial k @ sent_bytes cs" "files_view k1 = files_view k"
    using kernel_console.readline_run [OF r(1) assms(1)] by blast
  obtain k2 where k2: "cmd_cat (kernel_os P) p k1 = Some (k2, None)" "console_ok False k2" "typed_keys k2 = typed_keys k1"
    "k_serial k2 = k_serial k1 @ bs" "kernel_tree (files_view k2) = kernel_tree (files_view k1)"
    using kernel_files.cat_file [OF k1(2), of p bs] assms(5) k1(5) by auto
  have "fs_of k2 = fs_of k \<and> k_disk k2 = k_disk k" using k2(5) k1(5) by (simp add: kernel_tree_def files_view_def fs_of_def)
  then show ?thesis using k1 k2 r(2) by (intro exI [of _ k1] exI [of _ k2]) (simp add: cat_line [OF p])
qed

text \<open>The demonstration kernel with \<open>cat /a\<close> typed.\<close>

definition shell_demo :: "drive kernel" where
  "shell_demo = (demo_kernel demo_drive)\<lparr>k_kbd := \<lparr>shift_pressed = False, kbd_buf = [99, 97, 116, 32, 47, 97, 13] @ replicate 249 0, kbd_head = 7, kbd_tail = 0\<rparr>,
     k_sems := [\<lparr>sm_count = 1, sm_used = True, sm_wq = wait_queue_init\<rparr>]\<rparr>"

theorem shell_cat_witness:
  "\<exists>k1 k2. os_readline (kernel_os demo_platform) 128 [] shell_demo = Some (ascii ''cat /a'', k1) \<and>
    shell_line (kernel_os demo_platform) (ascii ''cat /a'') k1 = Some (k2, None) \<and>
    k_serial k2 = k_serial shell_demo @ ascii ''cat /a'' @ [10, 1, 2, 3]"
proof -
  let ?k = shell_demo
  have v: "files_of ?k = demo_files" by (simp add: shell_demo_def files_of_def demo_kernel_def demo_files_table)
  obtain t where t: "dir_at demo_fs (r_root demo_fs) [t]" "erase t = File [97] [1, 2, 3]" using demo_fs_dir by blast
  then obtain f p c where e: "t = RFile f [97] p c [1, 2, 3]" by (cases t) auto
  have "reached demo_fs [] (r_root demo_fs)" using reached.root [of demo_fs] t(1) by (simp add: dir_at_def)
  moreover have "\<exists>i. 3 \<le> i \<and> i < MAX_FD \<and> \<not> f_used (fd_table demo_files ! i)"
    by (intro exI [of _ 3]) (simp add: demo_files_def file_init_def no_file_def MAX_FD_def)
  ultimately have nm: "kernel_names (files_view ?k) [47, 97] [1, 2, 3]" unfolding kernel_names_def files_view_def v fst_conv
    using t(1) e by (intro exI [of _ "[]"] exI [of _ "r_root demo_fs"] exI [of _ "[t]"] exI [of _ "[97]"] exI [of _ f] exI [of _ p] exI [of _ c])
      (simp add: demo_files_table plain_def name_ok_def)
  have q: "kbd_queue (k_kbd ?k) = [99, 97, 116, 32, 47, 97, 13]" by (simp add: kbd_queue_def shell_demo_def upt_rec)
  have ok: "console_ok False ?k" unfolding console_ok_def q
    by (simp add: shell_demo_def demo_kernel_def cur_task_def demo_sched_def demo_task_def kbd_inv_def kbd_rep_def All_less_Suc is_key_def)
  show ?thesis using shell_cat [OF ok, of "[47, 97]" "[]" "[1, 2, 3]" demo_platform] q nm by (auto simp: typed_keys_def ascii_def)
qed

end
