(* ===== verification/Programs.thy ===== *)
theory Programs
  imports Shell "HOL-Library.Signed_Division"
begin

text \<open>
  The other user programs over the same interface: the calculator \<open>user/calc.c\<close>, the guessing game \<open>user/game.c\<close>,
  \<open>user/hello.c\<close> and \<open>user/sysinfo.c\<close>.  The main theorem is about the calculator on the kernel: what it answers to
  an expression that is typed.
\<close>

section \<open>The calculator\<close>

text \<open>\<open>atoi_\<close> with a sign; \<open>None\<close> when \<open>ok\<close> is cleared.  Arithmetic wraps.\<close>

definition calc_atoi :: "u8 list \<Rightarrow> u32 option" where
  "calc_atoi s =
     (let neg = (s \<noteq> [] \<and> hd s = 45);
          s = (if neg then tl s else s) in
      if s = [] \<or> hd s < 48 \<or> 57 < hd s then None
      else Some (if neg then - atoi_loop 0 s else atoi_loop 0 s))"

text \<open>The first operand, the operator, and the rest of the line as the second operand.\<close>

definition calc_split :: "u8 list \<Rightarrow> (u8 list \<times> u8 \<times> u8 list) option" where
  "calc_split line =
     (let p = tokenize_step line;
          a = takeWhile (\<lambda>c. c \<noteq> 32) p;
          p = tokenize_step (tl (dropWhile (\<lambda>c. c \<noteq> 32) p)) in
      (case p of [] \<Rightarrow> None | oper # p \<Rightarrow> Some (a, oper, tokenize_step p)))"

text \<open>What a line is answered with.  Division of the least number by -1 traps.\<close>

datatype calc_result = Says string | Answer u32 u8 u32 u32 | Traps

definition calc_apply :: "u32 \<Rightarrow> u8 \<Rightarrow> u32 \<Rightarrow> calc_result" where
  "calc_apply a oper b =
     (if oper = ch CHR ''+'' then Answer a oper b (a + b)
      else if oper = ch CHR ''-'' then Answer a oper b (a - b)
      else if oper = ch CHR ''*'' then Answer a oper b (a * b)
      else if oper = ch CHR ''/'' then
        (if b = 0 then Says ''divide by zero''
         else if sint a = - (2 ^ 31) \<and> sint b = - 1 then Traps
         else Answer a oper b (word_of_int (sint a sdiv sint b)))
      else Says ''unknown op'')"

definition calc_eval :: "u8 list \<Rightarrow> calc_result" where
  "calc_eval line =
     (case calc_split line of
        None \<Rightarrow> Says ''syntax error''
      | Some (a_str, oper, b_str) \<Rightarrow>
          (case (calc_atoi a_str, calc_atoi b_str) of
             (Some a, Some b) \<Rightarrow> calc_apply a oper b
           | _ \<Rightarrow> Says ''invalid number''))"

definition calc_line :: "'s os \<Rightarrow> u8 list \<Rightarrow> 's prog" where
  "calc_line S line s =
     (case calc_eval line of
        Says t \<Rightarrow> say S (puts (ln t)) s
      | Answer a oper b r \<Rightarrow> sayf S (ln ''%d %c %d = %d'') [A_int (ucast a), A_int (ucast oper), A_int (ucast b), A_int (ucast r)] s
      | Traps \<Rightarrow> None)"

definition calc_turn :: "'s os \<Rightarrow> 's prog" where
  "calc_turn S s = do {
     s \<leftarrow> calls S (puts (ascii ''> '')) s;
     (line, s) \<leftarrow> os_readline S 64 [] s;
     if line = [] then skip s
     else if line = [113] then do {
       (r, s) \<leftarrow> u_exec S (ascii ''shell'') s;
       if r = 0 then ends Replaced s else seq (say S (puts (ln ''bye''))) (ends (Exited 0)) s
     }
     else calc_line S line s
   }"

partial_function (option) calc_loop :: "'s os \<Rightarrow> 's \<Rightarrow> ('s \<times> stop) option" where
  "calc_loop S s = do {
     (s, e) \<leftarrow> calc_turn S s;
     (case e of None \<Rightarrow> calc_loop S s | Some e \<Rightarrow> Some (s, e))
   }"

definition calc_start :: "'s os \<Rightarrow> 's \<Rightarrow> ('s \<times> stop) option" where
  "calc_start S s = do {
     s \<leftarrow> calls S (puts (ln ''=== flyos calc ==='') @ puts (ln ''enter: <num> <op> <num>'') @ puts (ln ''ops: + - * /      exit: q'' @ [10])) s;
     calc_loop S s
   }"

section \<open>The guessing game\<close>

definition rng :: "u32 \<Rightarrow> u32 \<times> u32" where
  "rng seed = (let seed = seed * 1103515245 + 12345 in (seed, drop_bit 16 seed AND 0x7FFF))"

definition game_secret :: "u32 \<Rightarrow> int" where
  "game_secret seed = int (unat (snd (rng seed) mod 100)) + 1"

partial_function (option) game_loop :: "'s os \<Rightarrow> int \<Rightarrow> u32 \<Rightarrow> 's \<Rightarrow> 's option" where
  "game_loop S secret tries s = do {
     s \<leftarrow> calls S (puts (ascii ''your guess: '')) s;
     (line, s) \<leftarrow> os_readline S 16 [] s;
     if line = [] then game_loop S secret tries s
     else if hd line = 113 then Some s
     else if atoi line < 1 \<or> 100 < atoi line then do { s \<leftarrow> calls S (puts (ln ''1-100 please'')) s; game_loop S secret tries s }
     else if atoi line < secret then do { s \<leftarrow> calls S (puts (ln ''too low, go higher!'')) s; game_loop S secret (tries + 1) s }
     else if atoi line > secret then do { s \<leftarrow> calls S (puts (ln ''too high, go lower!'')) s; game_loop S secret (tries + 1) s }
     else map_option fst (sayf S (ln ''correct! %d tries'') [A_int (ucast (tries + 1))] s)
   }"

definition game_start :: "'s os \<Rightarrow> 's \<Rightarrow> ('s \<times> stop) option" where
  "game_start S s = do {
     s \<leftarrow> calls S (puts (ln ''=== guess the number ==='') @ puts (ln ''I'm thinking of a number 1-100'' @ [10])) s;
     s \<leftarrow> game_loop S (game_secret 12345) 0 s;
     s \<leftarrow> calls S (puts (ln ''bye'')) s;
     Some (s, Exited 0)
   }"

section \<open>Hello and the system information\<close>

primrec hello_loop :: "'s os \<Rightarrow> nat \<Rightarrow> nat \<Rightarrow> 's \<Rightarrow> 's option" where
  "hello_loop S i 0 s = Some s"
| "hello_loop S i (Suc n) s = do {
     (_, s) \<leftarrow> lock_stdout S s;
     (s, _) \<leftarrow> sayf S (ln ''[child] hello, i=%d'') [A_int (of_nat i)] s;
     (_, s) \<leftarrow> unlock_stdout S s;
     (_, s) \<leftarrow> u_sleep S 300 s;
     hello_loop S (Suc i) n s
   }"

definition hello_start :: "'s os \<Rightarrow> 's \<Rightarrow> ('s \<times> stop) option" where
  "hello_start S s = do {
     s \<leftarrow> hello_loop S 0 20 s;
     s \<leftarrow> calls S (puts (ln ''[child] done'')) s;
     Some (s, Exited 0)
   }"

definition sysinfo_start :: "'s os \<Rightarrow> 's \<Rightarrow> ('s \<times> stop) option" where
  "sysinfo_start S s = do {
     s \<leftarrow> calls S (puts (ln ''=== system info ==='' @ [10])) s;
     (_, info, s) \<leftarrow> u_sysinfo S s;
     let total = info ! 0;
     let used = info ! 1;
     let free = total - used;
     (s, _) \<leftarrow> sayf S (ln ''total memory: %lu pages (%lu MB)'') [A_int total, A_int (total * 4 div 1024)] s;
     (s, _) \<leftarrow> sayf S (ln ''used memory:  %lu pages (%lu KB)'') [A_int used, A_int (used * 4)] s;
     (s, _) \<leftarrow> sayf S (ln ''free memory:  %lu pages'') [A_int free] s;
     (s, _) \<leftarrow> sayf S (ln ''children:     %lu'') [A_int (info ! 3)] s;
     (s, _) \<leftarrow> sayf S [10] [] s;
     s \<leftarrow> calls S (puts (ln ''press enter to exit'')) s;
     (_, s) \<leftarrow> os_readline S 16 [] s;
     Some (s, Exited 0)
   }"

text \<open>The seed is fixed, so the number to guess is the same in every game.\<close>

lemma game_secret_fixed: "game_secret 12345 = 69"
  by (simp add: game_secret_def rng_def Let_def)


section \<open>Decimal numbers\<close>

definition digs :: "nat \<Rightarrow> u8 list" where
  "digs m = (if m = 0 then [48] else rev (uint_digits 10 (of_nat m)))"

definition dec :: "int \<Rightarrow> u8 list" where
  "dec n = (if n < 0 then 45 # digs (nat (- n)) else digs (nat n))"

definition numeral_chars :: "u8 list \<Rightarrow> bool" where
  "numeral_chars s \<longleftrightarrow> s \<noteq> [] \<and> (\<forall>c \<in> set s. 48 \<le> c \<and> c \<le> 57)"

lemma ten_digits: "c \<in> set (uint_digits 10 v) \<Longrightarrow> 48 \<le> c \<and> c \<le> 57"
proof (induction "10 :: u64" v rule: uint_digits.induct)
  case (1 v)
  have "\<forall>d \<in> set [0..<10]. 48 \<le> hex_digits ! d \<and> hex_digits ! d \<le> 57" by code_simp
  moreover have "unat (v mod 10) < 10" by (simp add: unat_mod)
  ultimately have d: "48 \<le> hex_digits ! unat (v mod 10) \<and> hex_digits ! unat (v mod 10) \<le> 57" by simp
  show ?case using 1 d by (subst (asm) (2) uint_digits.simps) (auto split: if_splits)
qed

lemma digs_spec:
  assumes "m < 2 ^ 63"
  shows "numeral_chars (digs m)" and "read_number 10 (digs m) = m" and "length (digs m) \<le> 19"
proof -
  have u: "unat (of_nat m :: u64) = m" using assms by (intro unat_of_nat_64) simp
  have z: "(of_nat m :: u64) = 0 \<longleftrightarrow> m = 0" using u by auto
  have v: "read_number 10 (rev (uint_digits 10 (of_nat m))) = m \<and> (m \<noteq> 0 \<longrightarrow> uint_digits 10 (of_nat m) \<noteq> [])"
    using uint_digits_value [of 10 "of_nat m"] u z by simp
  show "read_number 10 (digs m) = m" using v by (simp add: digs_def read_number_def digit_value_def is_digit_def)
  show "numeral_chars (digs m)" using v ten_digits by (auto simp: digs_def numeral_chars_def)
  have "m < 10 ^ 19" using assms by simp
  then show "length (digs m) \<le> 19" using uint_digits_length [of 10 "of_nat m" 19] u by (simp add: digs_def)
qed

lemma atoi_loop_reads: "\<forall>c \<in> set s. 48 \<le> c \<and> c \<le> 57 \<Longrightarrow> atoi_loop (of_nat k) s = of_nat (foldl (\<lambda>n c. n * 10 + digit_value c) k s)"
proof (induction s arbitrary: k)
  case (Cons c s)
  have c: "48 \<le> c" "c \<le> 57" using Cons.prems by auto
  have "ucast c - 48 = (of_nat (digit_value c) :: u32)"
    using c by (simp add: digit_value_def is_digit_def word_le_nat_alt of_nat_diff)
  then have "of_nat k * 10 + (ucast c - 48) = (of_nat (k * 10 + digit_value c) :: u32)" by simp
  then have "atoi_loop (of_nat k) (c # s) = atoi_loop (of_nat (k * 10 + digit_value c)) s" using c by (simp only: atoi_loop.simps) simp
  then show ?case using Cons.IH [of "k * 10 + digit_value c"] Cons.prems by simp
qed simp

lemma atoi_digs: "m < 2 ^ 63 \<Longrightarrow> atoi_loop 0 (digs m) = of_nat m"
  using atoi_loop_reads [of "digs m" 0] digs_spec [of m] by (simp add: numeral_chars_def read_number_def)

lemma digs_hd: "m < 2 ^ 63 \<Longrightarrow> digs m \<noteq> [] \<and> 48 \<le> hd (digs m) \<and> hd (digs m) \<le> 57"
  using digs_spec(1) [of m] by (simp add: numeral_chars_def)

lemma calc_atoi_dec:
  assumes "\<bar>n\<bar> \<le> 2 ^ 31"
  shows "calc_atoi (dec n) = Some (word_of_int n)"
proof (cases "n < 0")
  case True
  then have m: "nat (- n) < 2 ^ 63" using assms by simp
  have "- of_nat (nat (- n)) = (word_of_int n :: u32)" using True by (simp add: of_nat_nat)
  then show ?thesis using True digs_hd [OF m] atoi_digs [OF m] by (simp add: calc_atoi_def dec_def Let_def not_less)
next
  case False
  then have m: "nat n < 2 ^ 63" using assms by simp
  then have "hd (digs (nat n)) \<noteq> 45" using digs_hd [OF m] by auto
  then show ?thesis using False digs_hd [OF m] atoi_digs [OF m] by (auto simp: calc_atoi_def dec_def Let_def not_less)
qed

lemma dec_chars:
  assumes "\<bar>n\<bar> \<le> 2 ^ 31"
  shows "dec n \<noteq> []" and "\<forall>c \<in> set (dec n). 32 < c \<and> c \<le> 126" and "length (dec n) \<le> 20" and "dec n ! 0 \<noteq> 113"
proof -
  have m: "nat \<bar>n\<bar> < 2 ^ 63" using assms by simp
  have e: "dec n = (if n < 0 then [45] else []) @ digs (nat \<bar>n\<bar>)" by (simp add: dec_def)
  have g: "\<forall>c \<in> set (digs (nat \<bar>n\<bar>)). 32 < c \<and> c \<le> 126 \<and> c \<noteq> 113" using digs_spec(1) [OF m]
    by (auto simp: numeral_chars_def word_le_nat_alt word_less_nat_alt)
  then show c: "\<forall>c \<in> set (dec n). 32 < c \<and> c \<le> 126" by (auto simp: e)
  show ne: "dec n \<noteq> []" using digs_hd [OF m] by (simp add: e)
  show "length (dec n) \<le> 20" using digs_spec(3) [OF m] unfolding e by (cases "n < 0") simp_all
  have "\<forall>c \<in> set (dec n). c \<noteq> 113" using g by (auto simp: e)
  then show "dec n ! 0 \<noteq> 113" using ne by auto
qed

lemma print_dec:
  assumes "\<bar>n\<bar> \<le> 2 ^ 31"
  shows "print_int (word_of_int n) 0 pad = Some (dec n)"
proof -
  have s: "sint (word_of_int n :: u64) = n" using assms by (simp add: signed_of_int signed_take_bit_int_eq_self)
  have neg: "word_of_int n <s (0 :: u64) \<longleftrightarrow> n < 0" by (simp add: word_sless_alt s)
  have p: "print_uint (of_nat m) 10 0 pad = Some (digs m)" if "m < 2 ^ 63" for m
  proof -
    have "unat (of_nat m :: u64) = m" using that by (intro unat_of_nat_64) simp
    then have "(of_nat m :: u64) = 0 \<longleftrightarrow> m = 0" by auto
    then show ?thesis using digs_spec(3) [OF that] by (simp add: print_uint_def digs_def Let_def split: if_splits)
  qed
  show ?thesis
  proof (cases "n < 0")
    case True
    then have "- word_of_int n = (of_nat (nat (- n)) :: u64)" "nat (- n) < 2 ^ 63" using assms by (simp_all add: of_nat_nat)
    then show ?thesis using True neg p [of "nat (- n)"] unfolding print_int_def dec_def by (simp only: if_True option.map) simp
  next
    case False
    then have "word_of_int n = (of_nat (nat n) :: u64)" "nat n < 2 ^ 63" using assms by (simp_all add: of_nat_nat)
    then show ?thesis using False neg p [of "nat n"] unfolding print_int_def dec_def by (simp only: if_False)
  qed
qed


section \<open>What the calculator answers\<close>

text \<open>The reference: the text printed for an expression over the integers.\<close>

definition oper_value :: "u8 \<Rightarrow> int \<Rightarrow> int \<Rightarrow> int" where
  "oper_value oper a b =
     (if oper = ch CHR ''+'' then a + b else if oper = ch CHR ''-'' then a - b else if oper = ch CHR ''*'' then a * b else a sdiv b)"

definition typed :: "int \<Rightarrow> u8 \<Rightarrow> int \<Rightarrow> u8 list" where
  "typed a oper b = dec a @ 32 # oper # 32 # dec b"

lemma split_typed:
  assumes "\<bar>a\<bar> \<le> 2 ^ 31" and "\<bar>b\<bar> \<le> 2 ^ 31" and "oper \<noteq> 32"
  shows "calc_split (typed a oper b) = Some (dec a, oper, dec b)"
proof -
  note a = dec_chars [OF assms(1)] and b = dec_chars [OF assms(2)]
  obtain c s where ca: "dec a = c # s" using a(1) by (cases "dec a") auto
  obtain d r where db: "dec b = d # r" using b(1) by (cases "dec b") auto
  have na: "\<forall>x \<in> set (dec a). x \<noteq> 32" using a(2) by auto
  have nd: "d \<noteq> 32" using b(2) db by auto
  have t1: "tokenize_step (typed a oper b) = typed a oper b" using na ca by (simp add: tokenize_step_def typed_def)
  have t2: "takeWhile (\<lambda>c. c \<noteq> 32) (typed a oper b) = dec a" "dropWhile (\<lambda>c. c \<noteq> 32) (typed a oper b) = 32 # oper # 32 # dec b"
    using na unfolding typed_def by (simp_all add: takeWhile_append2 dropWhile_append2)
  show ?thesis unfolding calc_split_def Let_def t1 t2 using assms(3) nd db by (simp add: tokenize_step_def)
qed

lemma sint_u32: "sint (word_of_int n :: u32) = wrap32 n"
  by (simp add: wrap32_def signed_of_int)

lemma calc_apply_value:
  assumes "- (2 ^ 31) \<le> a" "a < 2 ^ 31" "- (2 ^ 31) \<le> b" "b < 2 ^ 31" and "oper \<in> set (ascii ''+-*/'')"
    and "oper = ch CHR ''/'' \<longrightarrow> b \<noteq> 0 \<and> (a, b) \<noteq> (- (2 ^ 31), - 1)"
  shows "calc_apply (word_of_int a) oper (word_of_int b) =
    Answer (word_of_int a) oper (word_of_int b) (word_of_int (wrap32 (oper_value oper a b)))"
proof -
  have w: "wrap32 a = a" "wrap32 b = b" using assms(1-4) by (simp_all add: wrap32_def signed_take_bit_int_eq_self)
  have k: "word_of_int (wrap32 n) = (word_of_int n :: u32)" for n
    by (rule bit_word_eqI) (simp add: wrap32_def bit_simps min_absorb2)
  have z: "(word_of_int b :: u32) = 0 \<longleftrightarrow> b = 0" using w(2) sint_u32 [of b] by (metis of_int_0 signed_0)
  show ?thesis using assms(5,6) z by (auto simp: calc_apply_def oper_value_def k sint_u32 w ascii_def)
qed

lemma scast_of_int: "sint (w :: u32) = n \<Longrightarrow> scast w = (word_of_int n :: u64)"
  by (simp add: scast_eq)

lemma printf_d: "printf (37 # 100 # s) (A_int v # as) =
    do { x \<leftarrow> u_print_int (signed_arg False v) 0 32; map_option ((@) x) (printf s as) }"
  by (cases "u_print_int (signed_arg False v) 0 32") (simp_all add: scan_spec_def is_digit_def u_convert_def)

lemma printf_c: "printf (37 # 99 # s) (A_int v # as) = map_option ((@) (raw_putchar (ucast v))) (printf s as)"
  by (simp add: scan_spec_def is_digit_def u_convert_def)

lemma printf_plain: "c \<noteq> 37 \<Longrightarrow> printf (c # s) as = map_option ((@) (raw_putchar c)) (printf s as)"
  by simp

lemma answer_format: "printf (ln ''%d %c %d = %d'') [A_int a, A_int c, A_int b, A_int r] =
    do { x \<leftarrow> u_print_int (signed_arg False a) 0 32; y \<leftarrow> u_print_int (signed_arg False b) 0 32; z \<leftarrow> u_print_int (signed_arg False r) 0 32;
      Some (x @ raw_putchar 32 @ raw_putchar (ucast c) @ raw_putchar 32 @ y @ raw_putchar 32 @ raw_putchar 61 @ raw_putchar 32 @ z @ raw_putchar 10) }"
proof -
  have f: "ln ''%d %c %d = %d'' = [37, 100, 32, 37, 99, 32, 37, 100, 32, 61, 32, 37, 100, 10]" by (simp add: ln_def ascii_def)
  show ?thesis unfolding f
    by (cases "u_print_int (signed_arg False a) 0 32"; cases "u_print_int (signed_arg False b) 0 32"; cases "u_print_int (signed_arg False r) 0 32")
      (simp_all add: printf_d printf_c printf_plain del: printf.simps(2))
qed

lemma printf_answer:
  assumes "\<bar>a\<bar> \<le> 2 ^ 31" "\<bar>b\<bar> \<le> 2 ^ 31" "\<bar>r\<bar> \<le> 2 ^ 31"
    and "sint (word_of_int a :: u32) = a" "sint (word_of_int b :: u32) = b" "sint (word_of_int r :: u32) = r"
  shows "\<exists>cs. printf (ln ''%d %c %d = %d'')
      [A_int (ucast (word_of_int a :: u32)), A_int (ucast oper), A_int (ucast (word_of_int b :: u32)), A_int (ucast (word_of_int r :: u32))] = Some cs \<and>
    sent_bytes cs = dec a @ [32, oper, 32] @ dec b @ [32, 61, 32] @ dec r @ [10]"
proof -
  have i: "\<exists>cs. u_print_int (signed_arg False (ucast (word_of_int n :: u32))) 0 32 = Some cs \<and> sent_bytes cs = dec n"
    if "\<bar>n\<bar> \<le> 2 ^ 31" "sint (word_of_int n :: u32) = n" for n
  proof -
    have "ucast (ucast (word_of_int n :: u32) :: u64) = (word_of_int n :: u32)" by (rule bit_word_eqI) (auto simp: bit_simps)
    then have "signed_arg False (ucast (word_of_int n :: u32)) = (word_of_int n :: u64)"
      using that(2) by (simp add: signed_arg_def scast_of_int)
    then show ?thesis using print_dec [OF that(1), of 32] u_print_int [of "word_of_int n" 0 32] by auto
  qed
  obtain x y z where "u_print_int (signed_arg False (ucast (word_of_int a :: u32))) 0 32 = Some x" "sent_bytes x = dec a"
    "u_print_int (signed_arg False (ucast (word_of_int b :: u32))) 0 32 = Some y" "sent_bytes y = dec b"
    "u_print_int (signed_arg False (ucast (word_of_int r :: u32))) 0 32 = Some z" "sent_bytes z = dec r"
    using i [OF assms(1,4)] i [OF assms(2,5)] i [OF assms(3,6)] by blast
  moreover have "ucast (ucast oper :: u64) = oper" by (rule bit_word_eqI) (auto simp: bit_simps)
  ultimately show ?thesis unfolding answer_format by simp
qed


context console
begin

lemma calc_turn_run:
  assumes "ok False s" and "inp s = line @ 13 # rest" and "list_all printable line" and "length line < 64" and "line \<noteq> []" and "line \<noteq> [113]"
    and "calc_eval line = Answer a oper b r"
    and "printf (ln ''%d %c %d = %d'') [A_int (ucast a), A_int (ucast oper), A_int (ucast b), A_int (ucast r)] = Some cs"
  shows "\<exists>s'. calc_turn S s = Some (s', None) \<and> ok False s' \<and> inp s' = rest \<and>
    out s' = out s @ ascii ''> '' @ line @ [10] @ sent_bytes cs \<and> same s' = same s"
proof -
  obtain s1 where s1: "calls S (puts (ascii ''> '')) s = Some s1" "ok False s1" "inp s1 = inp s" "out s1 = out s @ ascii ''> ''" "same s1 = same s"
    using calls_run [OF lock_run_simps(4) assms(1)] by auto
  obtain echo where e: "readline_loop 64 [] (inp s1) = Some (line, echo, rest)" "sent_bytes echo = line @ [10]"
    using type_line [OF assms(3), of "[]" 64 rest] assms(2,4) s1(3) by auto
  obtain s2 where s2: "os_readline S 64 [] s1 = Some (line, s2)" "ok False s2" "inp s2 = rest" "out s2 = out s1 @ sent_bytes echo" "same s2 = same s1"
    using readline_run [OF e(1) s1(2)] by blast
  obtain s3 where s3: "calls S cs s2 = Some s3" "ok False s3" "inp s3 = inp s2" "out s3 = out s2 @ sent_bytes cs" "same s3 = same s2"
    using calls_run [OF raw_lock [OF raw_printf [OF assms(8)]] s2(2)] by blast
  have "calc_turn S s = Some (s3, None)"
    using s1(1) s2(1) s3(1) assms(5-8) by (simp add: calc_turn_def calc_line_def sayf_def say_def)
  then show ?thesis using s1 s2 s3 e(2) by (intro exI [of _ s3]) simp
qed

end

text \<open>
  C18. The calculator on the kernel: when two 32-bit numbers with an operator between them have been typed, one turn of its loop echoes the
  line and prints it again with the result, computed over the integers and wrapped to 32 bits, division rounding towards zero; it
  changes no file.  A division by zero and the one quotient that does not fit are left out: the first is answered by a message, the second traps.
\<close>

theorem calc_answers:
  assumes "console_ok False k" and "typed_keys k = typed a oper b @ 13 # rest"
    and "- (2 ^ 31) \<le> a" "a < 2 ^ 31" "- (2 ^ 31) \<le> b" "b < 2 ^ 31" and "oper \<in> set (ascii ''+-*/'')"
    and "oper = ch CHR ''/'' \<longrightarrow> b \<noteq> 0 \<and> (a, b) \<noteq> (- (2 ^ 31), - 1)"
  shows "\<exists>k'. calc_turn (kernel_os P) k = Some (k', None) \<and> console_ok False k' \<and> typed_keys k' = rest \<and>
    k_serial k' = k_serial k @ ascii ''> '' @ typed a oper b @ [10] @ typed a oper b @ ascii '' = '' @ dec (wrap32 (oper_value oper a b)) @ [10] \<and>
    fs_of k' = fs_of k \<and> k_disk k' = k_disk k"
proof -
  have ab: "\<bar>a\<bar> \<le> 2 ^ 31" "\<bar>b\<bar> \<le> 2 ^ 31" using assms(3-6) by simp_all
  define r where "r = wrap32 (oper_value oper a b)"
  have w: "wrap32 a = a" "wrap32 b = b" "wrap32 r = r" using assms(3-6) by (simp_all add: wrap32_def signed_take_bit_int_eq_self r_def)
  have r: "\<bar>r\<bar> \<le> 2 ^ 31" unfolding r_def wrap32_def
    using signed_take_bit_int_greater_eq_minus_exp [of 31 "oper_value oper a b"] signed_take_bit_int_less_exp [of 31 "oper_value oper a b"] by simp
  have op: "oper \<noteq> 32" "printable oper" using assms(7) by (auto simp: ascii_def printable_def)
  note a = dec_chars [OF ab(1)] and b = dec_chars [OF ab(2)]
  have pr: "list_all printable (typed a oper b)" using a(2) b(2) op(2) by (auto simp: typed_def list_all_iff printable_def)
  have ne: "typed a oper b \<noteq> []" "typed a oper b \<noteq> [113]" "length (typed a oper b) < 64" using a b by (auto simp: typed_def)
  have ev: "calc_eval (typed a oper b) = Answer (word_of_int a) oper (word_of_int b) (word_of_int r)"
    using split_typed [OF ab op(1)] calc_atoi_dec [OF ab(1)] calc_atoi_dec [OF ab(2)] calc_apply_value [OF assms(3-8)]
    by (simp add: calc_eval_def r_def)
  obtain cs where cs: "printf (ln ''%d %c %d = %d'')
      [A_int (ucast (word_of_int a :: u32)), A_int (ucast oper), A_int (ucast (word_of_int b :: u32)), A_int (ucast (word_of_int r :: u32))] = Some cs"
    "sent_bytes cs = dec a @ [32, oper, 32] @ dec b @ [32, 61, 32] @ dec r @ [10]"
    using printf_answer [OF ab r, of oper] w by (auto simp: sint_u32)
  obtain k' where "calc_turn (kernel_os P) k = Some (k', None)" "console_ok False k'" "typed_keys k' = rest"
    "k_serial k' = k_serial k @ ascii ''> '' @ typed a oper b @ [10] @ sent_bytes cs" "files_view k' = files_view k"
    using kernel_console.calc_turn_run [OF assms(1,2) pr ne(3,1,2) ev cs(1)] by blast
  then show ?thesis using cs(2) by (intro exI [of _ k']) (simp add: files_view_def fs_of_def r_def typed_def ascii_def)
qed

theorem calc_answers_witness:
  "\<exists>k k'. typed_keys k = [55, 32, 47, 32, 45, 50, 13] \<and> calc_turn (kernel_os demo_platform) k = Some (k', None) \<and>
    k_serial k' = k_serial k @ ascii ''> 7 / -2'' @ [10] @ ascii ''7 / -2 = -3'' @ [10]"
proof -
  define k where "k = shell_demo\<lparr>k_kbd := \<lparr>shift_pressed = False, kbd_buf = [55, 32, 47, 32, 45, 50, 13] @ replicate 249 0, kbd_head = 7, kbd_tail = 0\<rparr>\<rparr>"
  have q: "kbd_queue (k_kbd k) = [55, 32, 47, 32, 45, 50, 13]" by (simp add: kbd_queue_def k_def upt_rec)
  have ok: "console_ok False k" unfolding console_ok_def q
    by (simp add: k_def shell_demo_def demo_kernel_def cur_task_def demo_sched_def demo_task_def kbd_inv_def kbd_rep_def All_less_Suc is_key_def)
  have d: "dec 7 = [55]" "dec (- 2) = [45, 50]" "dec (- 3) = [45, 51]" "wrap32 (- 3) = - 3" "(7 :: int) sdiv - 2 = - 3"
    by (simp_all add: dec_def digs_def uint_digits.simps hex_digits_def ascii_def wrap32_def signed_divide_int_def)
  have "typed_keys k = typed 7 47 (- 2) @ 13 # []" using q by (simp add: typed_keys_def typed_def d)
  from calc_answers [OF ok this, of demo_platform] obtain k' where "calc_turn (kernel_os demo_platform) k = Some (k', None)"
    "k_serial k' = k_serial k @ ascii ''> '' @ typed 7 47 (- 2) @ [10] @ typed 7 47 (- 2) @ ascii '' = '' @ dec (wrap32 (oper_value 47 7 (- 2))) @ [10]"
    by (auto simp: ascii_def)
  then show ?thesis using q by (intro exI [of _ k] exI [of _ k']) (simp add: typed_keys_def typed_def d oper_value_def ascii_def)
qed

end
