(* ===== verification/Boot.thy ===== *)
theory Boot
  imports Shell Gui E1000 Pci Cpu
begin

text \<open>
  What \<open>kmain\<close> in \<open>kernel/main.c\<close> puts together: the timer interrupt, the network card with its self test, the
  desktop, and the first user task.  Serial output is not modelled, but the test's messages are its result and are
  the values of \<open>net_event\<close>, one per message.  Delay loops are left out.
\<close>

section \<open>The timer\<close>

text \<open>The mouse buttons are the current ones of the mouse driver; desktop and scheduler share the physical memory.\<close>

definition timer_handler :: "fb_info \<Rightarrow> u8 \<Rightarrow> gui \<times> 'd kernel \<Rightarrow> (gui \<times> 'd kernel) option" where
  "timer_handler fbi b gk =
     (case gk of (g, k) \<Rightarrow>
        (case gui_on_mouse fbi b (g, k_term k, k_cursor k, vmem (vmm_of k)) of
           (g, t, cu, m) \<Rightarrow>
             (let k = (put_vmm ((vmm_of k)\<lparr>vmem := m\<rparr>) k)\<lparr>k_term := t, k_cursor := cu\<rparr> in
              map_option (\<lambda>s. (g, put_sched s k)) (scheduler_tick (k_sched k)))))"

section \<open>The kernel heap in virtual memory\<close>

text \<open>The loop of \<open>heap_init\<close> from page \<open>i\<close> on, \<open>n\<close> pages to go; it stops when a frame is missing.\<close>

fun map_heap :: "nat \<Rightarrow> nat \<Rightarrow> vmm \<Rightarrow> vmm" where
  "map_heap i 0 v = v"
| "map_heap i (Suc n) v =
     (case pmm_alloc_page (frames v) of
        (phys, fr) \<Rightarrow>
          if phys = 0 then v\<lparr>frames := fr\<rparr>
          else map_heap (Suc i) n (vmm_map (HEAP_START + of_nat i * PAGE_SIZE) phys VMM_WRITABLE (v\<lparr>frames := fr\<rparr>)))"

definition HEAP_PAGES :: nat where "HEAP_PAGES = 512"

definition heap_init :: "vmm \<Rightarrow> kheap \<Rightarrow> vmm \<times> kheap" where
  "heap_init v h = (map_heap 0 HEAP_PAGES v, heap_setup h)"

text \<open>The controller's output buffer is read until it is empty.\<close>

partial_function (option) keyboard_drain :: "'v ports \<Rightarrow> 'v \<Rightarrow> 'v option" where
  "keyboard_drain P v =
     (case p_inb P 0x64 v of (s, v) \<Rightarrow> if s AND 0x01 = 0 then Some v else keyboard_drain P (snd (p_inb P 0x60 v)))"

definition keyboard_init :: "(regs \<Rightarrow> 'v \<Rightarrow> 'v) \<Rightarrow> 'v ports \<Rightarrow> 'v irq_table \<times> 'v \<Rightarrow> ('v irq_table \<times> 'v) option" where
  "keyboard_init handler P s =
     (case s of (t, v) \<Rightarrow> map_option (\<lambda>v. (irq_register 1 handler t, v)) (keyboard_drain P v))"

section \<open>The network\<close>

datatype net_event =
    Arp_mac "u8 list" | Arp_no_reply | Icmp_reply int | Dns_reply int | Dns_address "u8 list" | Dns_parse_failed
  | Tcp_target u32 | Tcp_packet int | Tcp_fields tcp_reply | Syn_ack_received | Rst_received | Tcp_done

text \<open>A loop of \<open>tries\<close> receptions that ends with the first packet accepted.\<close>

fun net_poll :: "'v nic_ops \<Rightarrow> (int \<Rightarrow> u8 list \<Rightarrow> bool) \<Rightarrow> nat \<Rightarrow> 'v nic_state \<Rightarrow> (int \<times> u8 list) option \<times> 'v nic_state" where
  "net_poll D accept 0 st = (None, st)"
| "net_poll D accept (Suc t) st =
     (case e1000_recv D 2048 st of
        (n, pkt, st) \<Rightarrow> if accept n pkt then (Some (n, pkt), st) else net_poll D accept t st)"

definition arp_accept :: "int \<Rightarrow> u8 list \<Rightarrow> bool" where
  "arp_accept n pkt \<longleftrightarrow> n \<ge> 42 \<and> pkt ! 12 = 0x08 \<and> pkt ! 13 = 0x06 \<and> pkt ! 20 = 0x00 \<and> pkt ! 21 = 0x02"

definition icmp_accept :: "int \<Rightarrow> u8 list \<Rightarrow> bool" where
  "icmp_accept n pkt \<longleftrightarrow> n \<ge> 42 \<and> pkt ! 12 = 0x08 \<and> pkt ! 13 = 0x00 \<and> pkt ! 23 = 0x01 \<and> pkt ! 34 = 0x00"

definition dns_accept :: "int \<Rightarrow> u8 list \<Rightarrow> bool" where
  "dns_accept n pkt \<longleftrightarrow> \<not> n < 42 \<and> pkt ! 12 = 0x08 \<and> pkt ! 13 = 0x00 \<and> pkt ! 23 = 0x11 \<and>
     pkt ! 34 = 0x00 \<and> pkt ! 35 = 0x35 \<and> pkt ! 36 = 0x30 \<and> pkt ! 37 = 0x39"

definition tcp_accept :: "int \<Rightarrow> u8 list \<Rightarrow> bool" where
  "tcp_accept n pkt \<longleftrightarrow> n \<ge> 54 \<and> pkt ! 12 = 0x08 \<and> pkt ! 13 = 0x00 \<and> pkt ! 23 = 0x06"

text \<open>The packet buffer on the stack: the bytes received, and behind them what was there before, \<open>junk\<close>.\<close>

definition pkt_buf :: "(nat \<Rightarrow> u8) \<Rightarrow> u8 list \<Rightarrow> nat \<Rightarrow> u8" where
  "pkt_buf junk pkt i = (if i < length pkt then pkt ! i else junk i)"

definition dns_verdict :: "(nat \<Rightarrow> u8) \<Rightarrow> int \<Rightarrow> u8 list \<Rightarrow> u32 \<times> net_event list" where
  "dns_verdict junk n pkt =
     (case e1000_dns_parse_reply (\<lambda>i. pkt_buf junk pkt (42 + i)) (n - 42) of
        Some ip \<Rightarrow> (get_be32 (\<lambda>i. ip ! i) 0, [Dns_reply n, Dns_address ip])
      | None \<Rightarrow> (0, [Dns_reply n, Dns_parse_failed]))"

definition tcp_verdict :: "u16 \<Rightarrow> net_event list" where
  "tcp_verdict flags =
     (if flags AND 0x0012 \<noteq> 0 then [Syn_ack_received] else if flags AND 0x0004 \<noteq> 0 then [Rst_received] else [])"

definition tcp_events :: "(nat \<Rightarrow> u8) \<Rightarrow> int \<Rightarrow> u8 list \<Rightarrow> net_event list" where
  "tcp_events junk n pkt = Tcp_packet n #
     (case e1000_tcp_parse_reply (\<lambda>i. pkt_buf junk pkt (34 + i)) (n - 34) of
        None \<Rightarrow> [] | Some r \<Rightarrow> Tcp_fields r # tcp_verdict (tr_flags r))"

text \<open>The one name \<open>net_test\<close> asks for fits the buffer of the query.\<close>

lemma net_query_fits: "e1000_dns_query D (ascii ''example.com'') st \<noteq> None"
proof -
  have "ascii ''example.com'' = dotted [ascii ''example'', ascii ''com'']" by (simp add: ascii_def)
  then have "dns_query_message (ascii ''example.com'') \<noteq> Dns_overrun"
    using dns_encode_dotted [of "[ascii ''example'', ascii ''com'']" "DNS_BUF - 12"]
    by (simp add: dns_query_message_def DNS_BUF_def wire_name_def wire_label_def label_ok_def ascii_def)
  then show ?thesis by (cases "dns_query_message (ascii ''example.com'')") (simp_all add: e1000_dns_query_def del: not_None_eq)
qed

definition net_test :: "'v nic_ops \<Rightarrow> (nat \<Rightarrow> u8) \<Rightarrow> 'v nic_state \<Rightarrow> net_event list \<times> 'v nic_state" where
  "net_test D junk st =
     (case net_poll D arp_accept 30 (e1000_send_arp_request D st) of
        (None, st) \<Rightarrow> ([Arp_no_reply], st)
      | (Some (_, pkt), s, c) \<Rightarrow>
          (let mac = take 6 (drop 6 pkt);
               (icmp, st) = net_poll D icmp_accept 30 (e1000_ping D 0x0A000202 (s\<lparr>gateway_mac := mac\<rparr>, c));
               (dns, st) = net_poll D dns_accept 30 (the (e1000_dns_query D (ascii ''example.com'') st));
               (dns_result, dns_log) = (case dns of None \<Rightarrow> (0, []) | Some (n, pkt) \<Rightarrow> dns_verdict junk n pkt);
               tcp_dst = (if dns_result \<noteq> 0 then dns_result else 0x0A000202);
               (tcp, st) = net_poll D tcp_accept 30 (e1000_tcp_syn D tcp_dst 80 st)
           in (Arp_mac mac # (case icmp of None \<Rightarrow> [] | Some (n, _) \<Rightarrow> [Icmp_reply n]) @ dns_log @
                 [Tcp_target tcp_dst] @ (case tcp of None \<Rightarrow> [] | Some (n, pkt) \<Rightarrow> tcp_events junk n pkt) @ [Tcp_done], st)))"

definition MMIO_VIRT :: u64 where "MMIO_VIRT = 0xFFFFA00000000000"

definition map_mmio :: "u64 \<Rightarrow> vmm \<Rightarrow> vmm" where
  "map_mmio mmio_phys v =
     fold (\<lambda>off v. vmm_map (MMIO_VIRT + off) (mmio_phys + off) VMM_WRITABLE v) (page_range 0 (128 * 1024)) v"

definition kmain_net :: "'v nic_ops \<Rightarrow> (nat \<Rightarrow> u8) \<Rightarrow> pci_device list \<Rightarrow> vmm \<Rightarrow> e1000 \<Rightarrow> 'v \<Rightarrow> net_event list \<times> vmm \<times> e1000 \<times> 'v" where
  "kmain_net D junk devices v s c =
     (case pci_find 0x8086 0x100E devices of
        None \<Rightarrow> ([], v, s, c)
      | Some nic \<Rightarrow>
          (let v = map_mmio (ucast (bar nic ! 0) AND NOT 0xF) v;
               (s, m, c) = e1000_probe D (s, vmem v, c);
               (r, fr, s, m, c) = e1000_init D (frames v) (s, m, c);
               (log, s, m, c) = (if r = 0 then net_test D junk (s, m, c) else ([], s, m, c))
           in (log, v\<lparr>frames := fr, vmem := m\<rparr>, s, c)))"

section \<open>The desktop\<close>

text \<open>\<open>tw\<close> and \<open>dw\<close> are the addresses of the static windows \<open>term_win\<close> and \<open>demo_win\<close>.\<close>

definition demo_window :: "fb_info \<Rightarrow> window" where
  "demo_window fbi =
     (window_set_colors (fb_rgb fbi 40 40 55) (fb_rgb fbi 70 100 200) (fb_rgb fbi 255 255 255)
        (window_init fbi 800 100 420 300 (bytes ''Counter Demo'')))
     \<lparr>on_draw := Demo_draw, on_click := Demo_click, on_close := Demo_close\<rparr>"

definition kmain_desktop :: "fb_info \<Rightarrow> u64 \<Rightarrow> u64 \<Rightarrow> desktop \<Rightarrow> desktop" where
  "kmain_desktop fbi tw dw s =
     (case s of (g, t, cu, m) \<Rightarrow>
        (let g = gui_init g;
             (win, t) = term_window_create fbi 50 50 700 500 (bytes ''Terminal'') t;
             g = gui_add_window tw (upd_win tw (\<lambda>_. win) g);
             (t, cu, m) = fb_term_write fbi (ln ''flyos terminal ready'' @ [10]) (fb_term_write fbi (ln ''Hello x86_64 OS!'') (t, cu, m));
             g = gui_add_window dw (upd_win dw (\<lambda>_. demo_window fbi) g);
             g = upd_win tw (\<lambda>w. w\<lparr>win_focused := True\<rparr>) g
         in gui_redraw fbi (g, t, cu, m)))"

section \<open>The first user task\<close>

text \<open>What a task that starts in the kernel hands to \<open>user_enter\<close>: the program counter and the stack pointer of ring 3.\<close>

definition user_task_entry :: "u64 \<Rightarrow> u64 \<times> u64" where
  "user_task_entry user_entry_addr = (user_entry_addr, USER_STACK_BASE + USER_STACK_SIZE)"

definition child_task_enters :: "u64 \<times> u64" where
  "child_task_enters = (CHILD_CODE_BASE, CHILD_STACK_BASE + CHILD_STACK_SIZE)"

text \<open>From the load of the shell to the start of the scheduler; \<open>enter\<close> is the address of \<open>user_task_entry\<close>.  The result is
  \<open>user_entry_addr\<close>, 0 when the load has failed and the machine halts, and the state.\<close>

definition kmain_user :: "'d platform \<Rightarrow> u64 \<Rightarrow> 'd kernel \<Rightarrow> (u64 \<times> 'd kernel) option" where
  "kmain_user P enter k =
     (case user_load_elf (elf_images P ! 0) (vmm_of k) of
        (user_entry_addr, v) \<Rightarrow>
          if user_entry_addr = 0 then Some (0, put_vmm v k)
          else
            (case vmm_clone_pml4 (user_setup_stack v) of
               (user_pml4, v) \<Rightarrow> do {
                 s \<leftarrow> task_init ((k_sched k)\<lparr>s_vmm := v\<rparr>);
                 let ss = sem_init 0 1 (sem_init_all (k_sems k));
                 (t, s) \<leftarrow> task_create ''user'' enter s;
                 let s = task_set_foreground t s;
                 let s = upd_task t (\<lambda>b. b\<lparr>t_pml4_phys := user_pml4\<rparr>) s;
                 Some (user_entry_addr, (put_sched s k)\<lparr>k_sems := ss\<rparr>)
               }))"


section \<open>Starting the first task\<close>

lemma sizes_nz: "TASK_SIZE \<noteq> 0" "TASK_STACK_SIZE \<noteq> 0"
  by (simp_all add: TASK_SIZE_def TASK_STACK_SIZE_def)

lemma task_init_room:
  assumes "heap_ok (s_heap st)" and "room (s_heap st) (alloc_cost TASK_SIZE + N)"
  shows "\<exists>st'. task_init st = Some st' \<and> tasks_live st' [] \<and> room (s_heap st') N \<and> s_vmm st' = s_vmm st"
proof -
  obtain st' where i: "task_init st = Some st'" "current st' \<noteq> 0 \<longrightarrow> tasks_live st' []" using task_init_live [OF assms(1)] by blast
  obtain p h where k: "kmalloc TASK_SIZE (s_heap st) = Some (p, h)" using kmalloc_ex [OF assms(1)] by blast
  have r: "p \<noteq> 0 \<and> room h N" using kmalloc_room [OF assms(2) sizes_nz(1) k] .
  have "current st' = p" "s_heap st' = h" "s_vmm st' = s_vmm st" using i(1) k by (auto simp: task_init_def upd_task_def)
  then show ?thesis using i r by auto
qed

lemma task_create_room:
  assumes "tasks_live st []" and "room (s_heap st) (alloc_cost TASK_SIZE + N)"
  shows "\<exists>t st'. task_create name entry st = Some (t, st') \<and> t \<noteq> 0 \<and> tasks_live st' [t] \<and> t_state (tcb st' t) = TASK_READY \<and>
    restore_context (hmem (s_heap st')) (t_rsp (tcb st' t)) = [0, 0, 0, 0, 0, 0, 0x202, entry] \<and> s_vmm st' = s_vmm st"
proof -
  have ok: "heap_ok (s_heap st)" using assms(1) by (simp add: tasks_live_def)
  obtain t h where k: "kmalloc TASK_SIZE (s_heap st) = Some (t, h)" using kmalloc_ex [OF ok] by blast
  have "t \<noteq> 0" using kmalloc_room [OF assms(2) sizes_nz(1) k] by blast
  moreover obtain t' st' where c: "task_create name entry st = Some (t', st')"
    "t' \<noteq> 0 \<longrightarrow> tasks_live st' [t'] \<and> t_state (tcb st' t') = TASK_READY \<and> t_id (tcb st' t') = next_id st \<and>
      restore_context (hmem (s_heap st')) (t_rsp (tcb st' t')) = [0, 0, 0, 0, 0, 0, 0x202, entry]"
    using task_create_correct [OF assms(1), of name entry] by blast
  moreover have "t' = t" using c(1) k by (auto simp: task_create_def Let_def split: prod.splits option.splits elim!: bind_eq_Some_conv [THEN iffD1, elim_format])
  moreover have "s_vmm st' = s_vmm st" using c(1)
    by (auto simp: task_create_def Let_def link_task_def upd_task_def split: prod.splits option.splits elim!: bind_eq_Some_conv [THEN iffD1, elim_format])
  ultimately show ?thesis by blast
qed

lemma user_stack_pages: "page_range USER_STACK_BASE (USER_STACK_BASE + USER_STACK_SIZE) = seg_pages USER_STACK_BASE USER_STACK_SIZE"
  "seg_fits USER_STACK_BASE USER_STACK_SIZE"
  by (simp_all add: seg_pages_def seg_fits_def USER_STACK_BASE_def USER_STACK_SIZE_def page_range_def)

text \<open>The first \<open>schedule\<close> with the new task alone in the ring.\<close>

lemma first_switch:
  assumes ring: "ring st [t]" and r: "t_state (tcb st t) = TASK_READY"
  shows "schedule st = Some (switch_to t st)" and "t \<noteq> current st"
    and "s_vmm (switch_to t st) = (if t_pml4_phys (tcb st t) \<noteq> 0 then (s_vmm st)\<lparr>cr3 := t_pml4_phys (tcb st t)\<rparr> else s_vmm st)"
proof -
  show ne: "t \<noteq> current st" using ring by (auto simp: ring_def)
  from ring show "schedule st = Some (switch_to t st)"
  proof (cases rule: schedule_cases)
    case idle
    then show ?thesis using r by (simp add: ready_def)
  next
    case (run pre x post)
    then show ?thesis by (cases pre) auto
  qed
  show "s_vmm (switch_to t st) = (if t_pml4_phys (tcb st t) \<noteq> 0 then (s_vmm st)\<lparr>cr3 := t_pml4_phys (tcb st t)\<rparr> else s_vmm st)"
    using ne by (simp add: switch_defs load_cr3_def load_kernel_stack_def)
qed

text \<open>What is read in the address space of the clone.\<close>

definition program_visible :: "mem \<Rightarrow> u64 \<Rightarrow> u64 \<Rightarrow> u64 \<Rightarrow> vmm \<Rightarrow> bool" where
  "program_visible m elf base sz st \<longleftrightarrow>
     (\<forall>i < unat (e_phnum m elf). \<forall>j < unat (p_memsz m (ph_at m elf i)). p_type m (ph_at m elf i) = PT_LOAD \<longrightarrow>
        uload (p_vaddr m (ph_at m elf i) + of_nat j) st =
          (if j < unat (p_filesz m (ph_at m elf i)) then m (elf + p_offset m (ph_at m elf i) + of_nat j) else 0)) \<and>
     (\<forall>j < unat sz. uload (base + of_nat j) st = 0)"

lemma clone_visible:
  assumes "vmm_wf st" and "vmm_clone_pml4 st = (new, st')" and "new \<noteq> 0" and "program_ready m elf base sz st"
  shows "program_visible m elf base sz (st'\<lparr>cr3 := new\<rparr>)"
  using assms(4) clone_reads [OF assms(1-3)] unfolding program_visible_def program_ready_def seg_loaded_def by simp

text \<open>
  C12. The end of the boot sequence: with a well-formed image of the shell, enough free frames, and room on the heap for two control
  blocks, the ring holds the boot task and the user task, which is the foreground, and the lock of the console is free.  The
  first \<open>schedule\<close> switches to the user task: with zeroed registers and interrupts on it runs its entry function, which enters
  ring 3 at the entry point of the image with the top of the user stack, and in the page table it switches to every byte of
  the segments reads as the image has it and the stack is zero.
\<close>

theorem kmain_user_correct:
  assumes "heap_ok (s_heap (k_sched k))" and "room (s_heap (k_sched k)) (alloc_cost TASK_SIZE + (alloc_cost TASK_SIZE + N))"
    and "program_fits m (elf_images P ! 0) USER_STACK_BASE USER_STACK_SIZE 1 (vmm_of k)" and "e_entry m (elf_images P ! 0) \<noteq> 0"
    and "k_sems k \<noteq> []"
  shows "\<exists>k' t s'. kmain_user P enter k = Some (e_entry m (elf_images P ! 0), k') \<and> ring (k_sched k') [t] \<and> foreground (k_sched k') = t \<and>
    sm_used (k_sems k' ! 0) \<and> sm_count (k_sems k' ! 0) = 1 \<and>
    schedule (k_sched k') = Some s' \<and> current s' = t \<and> t_state (tcb s' t) = TASK_RUNNING \<and>
    restore_context (hmem (s_heap s')) (cpu_rsp s') = [0, 0, 0, 0, 0, 0, 0x202, enter] \<and>
    program_visible m (elf_images P ! 0) USER_STACK_BASE USER_STACK_SIZE (s_vmm s')"
proof -
  let ?elf = "elf_images P ! 0"
  obtain entry v1 where l: "user_load_elf ?elf (vmm_of k) = (entry, v1)" by fastforce
  note o = load_with_stack [OF assms(3) user_stack_pages(2,1) l, folded user_setup_stack_def]
  obtain pml4 v' where cl: "vmm_clone_pml4 (user_setup_stack v1) = (pml4, v')" by fastforce
  have nz: "pml4 \<noteq> 0" using clone_free [OF o(2)] o(4) cl by simp
  note vis = clone_visible [OF o(2) cl nz o(3)]
  let ?s0 = "(k_sched k)\<lparr>s_vmm := v'\<rparr>"
  obtain s1 where i: "task_init ?s0 = Some s1" "tasks_live s1 []" "room (s_heap s1) (alloc_cost TASK_SIZE + N)" "s_vmm s1 = v'"
    using task_init_room [of ?s0 "alloc_cost TASK_SIZE + N"] assms(1,2) by auto
  obtain t s2 where c: "task_create ''user'' enter s1 = Some (t, s2)" "t \<noteq> 0" "tasks_live s2 [t]" "t_state (tcb s2 t) = TASK_READY"
    "restore_context (hmem (s_heap s2)) (t_rsp (tcb s2 t)) = [0, 0, 0, 0, 0, 0, 0x202, enter]" "s_vmm s2 = s_vmm s1"
    using task_create_room [OF i(2,3)] by blast
  define s3 where "s3 = upd_task t (\<lambda>b. b\<lparr>t_pml4_phys := pml4\<rparr>) (task_set_foreground t s2)"
  have s3: "current s3 = current s2" "s_heap s3 = s_heap s2" "foreground s3 = t" "t_next (tcb s3 y) = t_next (tcb s2 y)"
    "t_state (tcb s3 t) = TASK_READY" "t_pml4_phys (tcb s3 t) = pml4" "t_rsp (tcb s3 t) = t_rsp (tcb s2 t)" "s_vmm s3 = v'" for y
    using c(4,6) i(4) by (simp_all add: s3_def task_set_foreground_def upd_task_def)
  have ring: "ring s3 [t]" using c(3) s3 by (simp add: tasks_live_def ring_def)
  note fs = first_switch [OF ring s3(5)] and sw = switch_to_other [OF first_switch(2) [OF ring s3(5)] refl]
  let ?k = "(put_sched s3 k)\<lparr>k_sems := sem_init 0 1 (sem_init_all (k_sems k))\<rparr>"
  have "kmain_user P enter k = Some (e_entry m ?elf, ?k)"
    using assms(4) l o(1) cl i(1) c(1) by (simp add: kmain_user_def s3_def Let_def)
  moreover have "k_sems ?k ! 0 = \<lparr>sm_count = 1, sm_used = True, sm_wq = wait_queue_init\<rparr>"
    using assms(5) by (cases "k_sems k") (simp_all add: sem_init_def sem_init_all_def SEM_MAX_def)
  moreover have "program_visible m ?elf USER_STACK_BASE USER_STACK_SIZE (s_vmm (switch_to t s3))" using vis fs(3) s3 nz by simp
  ultimately show ?thesis using ring s3 fs(1) sw c(5)
    by (intro exI [of _ ?k] exI [of _ t] exI [of _ "switch_to t s3"]) (simp add: put_sched_def)
qed

theorem kmain_user_correct_witness:
  "\<exists>k k' t s'. kmain_user (demo_platform\<lparr>elf_images := [0x200000]\<rparr>) 0xB000 k = Some (0x400000, k') \<and> schedule (k_sched k') = Some s' \<and> current s' = t \<and>
    uload 0x400003 (s_vmm s') = 44 \<and> uload 0x70003FFF (s_vmm s') = 0"
proof -
  define k where "k = (demo_kernel demo_drive)\<lparr>k_sched := demo_sched\<lparr>s_vmm := demo_elf\<rparr>\<rparr>"
  let ?P = "demo_platform\<lparr>elf_images := [0x200000]\<rparr>" and ?m = "vmem demo_elf"
  note f = demo_elf_fields
  have pages: "seg_pages USER_STACK_BASE USER_STACK_SIZE = [0x70000000, 0x70001000, 0x70002000, 0x70003000]"
    by (simp add: seg_pages_def page_range_def USER_STACK_BASE_def USER_STACK_SIZE_def PAGE_SIZE_def upt_rec)
  have fits: "program_fits ?m (elf_images ?P ! 0) USER_STACK_BASE USER_STACK_SIZE 1 (vmm_of k)"
    using demo_program_fits [OF pages, of 1] by (simp add: k_def vmm_of_def same_page_low low_def)
  have h: "s_heap (k_sched k) = demo_heap" by (simp add: k_def demo_sched_def)
  have room: "room (s_heap (k_sched k)) (alloc_cost TASK_SIZE + (alloc_cost TASK_SIZE + 0))"
    unfolding h by (rule room_mono [OF demo_room]) (simp add: alloc_cost_def TASK_SIZE_def heap_need_def ALIGN16_def HEADER_SIZE_def)
  have ok: "heap_ok (s_heap (k_sched k))" unfolding h by (rule demo_heap_ok)
  have en: "e_entry ?m (elf_images ?P ! 0) \<noteq> 0" by (simp add: f)
  have sems: "k_sems k \<noteq> []" by (simp add: k_def demo_kernel_def demo_sems_def)
  obtain k' t s' where r: "kmain_user ?P 0xB000 k = Some (e_entry ?m (elf_images ?P ! 0), k')" "schedule (k_sched k') = Some s'" "current s' = t"
    and vis: "program_visible ?m (elf_images ?P ! 0) USER_STACK_BASE USER_STACK_SIZE (s_vmm s')"
    using kmain_user_correct [OF ok room fits en sems, of "0xB000"] by blast
  have e: "elf_images ?P ! 0 = 0x200000" by simp
  note v = vis [unfolded program_visible_def e]
  have "uload 0x400003 (s_vmm s') = ?m (0x200000 + of_nat 123)"
    using v [THEN conjunct1, rule_format, of 0 3] by (simp add: f demo_elf_ok)
  also have "\<dots> = demo_image ! 123" by (rule demo_elf_facts(4)) simp
  also have "\<dots> = 44" by code_simp
  finally have a: "uload 0x400003 (s_vmm s') = 44" .
  have b: "uload 0x70003FFF (s_vmm s') = 0"
    using v [THEN conjunct2, rule_format, of "0x3FFF"] by (simp add: USER_STACK_SIZE_def USER_STACK_BASE_def)
  show ?thesis using r a b f(2) by (intro exI [of _ k] exI [of _ k'] exI [of _ t] exI [of _ s']) simp
qed

section \<open>The desktop after booting\<close>

text \<open>The desktop starts with the terminal below the counter window, no focus and no drag; the mark of the focus that
  \<open>kmain\<close> sets on the terminal is gone, since drawing sets it from the focus of the desktop.\<close>

theorem kmain_desktop_correct:
  assumes "tw \<noteq> 0" and "dw \<noteq> 0" and "tw \<noteq> dw" and "kmain_desktop fbi tw dw (g, t, cu, m) = (g', d)"
  shows "gui_inv g' \<and> windows g' = [tw, dw] \<and> focus g' = 0 \<and> \<not> win_focused (wins g' tw) \<and> \<not> win_focused (wins g' dw) \<and>
    on_draw (wins g' tw) = Term_on_draw \<and> on_click (wins g' dw) = Demo_click"
proof -
  obtain win t1 where tc: "term_window_create fbi 50 50 700 500 (bytes ''Terminal'') t = (win, t1)" by fastforce
  obtain t2 cu2 m2 where wr: "fb_term_write fbi (ln ''flyos terminal ready'' @ [10]) (fb_term_write fbi (ln ''Hello x86_64 OS!'') (t1, cu, m)) = (t2, cu2, m2)"
    by (metis prod_cases3)
  define g0 where "g0 = upd_win tw (\<lambda>w. w\<lparr>win_focused := True\<rparr>)
    (gui_add_window dw (upd_win dw (\<lambda>_. demo_window fbi) (gui_add_window tw (upd_win tw (\<lambda>_. win) (gui_init g)))))"
  have r: "gui_redraw fbi (g0, t2, cu2, m2) = (g', d)" using assms(4) by (simp add: kmain_desktop_def Let_def tc wr g0_def)
  have win: "on_draw win = Term_on_draw" "win_visible win" using tc
    by (auto simp: term_window_create_def Let_def window_init_def window_set_colors_def)
  have w: "windows g0 = [tw, dw]" "focus g0 = 0" "drag_win g0 = 0" "on_draw (wins g0 tw) = Term_on_draw" "on_click (wins g0 dw) = Demo_click"
    "win_visible (wins g0 tw)" "win_visible (wins g0 dw)"
    using assms(3) win by (simp_all add: g0_def gui_init_def gui_add_window_def upd_win_def MAX_WINDOWS_def demo_window_def window_init_def window_set_colors_def)
  have inv: "gui_inv g0" using assms(1-3) w by (simp add: gui_inv_def MAX_WINDOWS_def)
  note rd = redraw_desk [OF r] and rs = redraw_spec [OF r]
  have "(wins g' tw)\<lparr>win_focused := False\<rparr> = (wins g0 tw)\<lparr>win_focused := False\<rparr>" using rd by (simp add: same_windows_def)
  then have "on_draw (wins g' tw) = on_draw (wins g0 tw)" by (cases "wins g' tw"; cases "wins g0 tw") simp
  then show ?thesis using rd rs w inv same_windowsD(6) [of g0 g' dw] assms(1,2) by simp
qed

theorem kmain_desktop_correct_witness:
  "windows (fst (kmain_desktop demo_fb 16 32 (demo_desk, demo_term, demo_cursor, \<lambda>_. 0))) = [16, 32] \<and>
   \<not> win_focused (wins (fst (kmain_desktop demo_fb 16 32 (demo_desk, demo_term, demo_cursor, \<lambda>_. 0))) 16)"
proof -
  obtain g' d where k: "kmain_desktop demo_fb 16 32 (demo_desk, demo_term, demo_cursor, \<lambda>_. 0) = (g', d)" by (metis prod.exhaust)
  show ?thesis using kmain_desktop_correct [OF _ _ _ k] unfolding k by simp
qed

section \<open>The verdict on a TCP reply\<close>

text \<open>C40. The answer of a closed port, RST and ACK, is reported as a SYN-ACK: the test of the two flags asks for either of them.\<close>

theorem tcp_reset_misread:
  assumes "length pkt = 54" and "get_be16 (\<lambda>i. pkt ! i) 46 = 0x5014"
  shows "\<exists>r. tcp_events junk 54 pkt = [Tcp_packet 54, Tcp_fields r, Syn_ack_received] \<and> tr_flags r AND 0x0012 \<noteq> 0x0012 \<and> tr_flags r AND 0x0004 \<noteq> 0"
proof -
  define r where "r = the (e1000_tcp_parse_reply (\<lambda>i. pkt_buf junk pkt (34 + i)) 20)"
  have p: "e1000_tcp_parse_reply (\<lambda>i. pkt_buf junk pkt (34 + i)) 20 = Some r" by (simp add: r_def e1000_tcp_parse_reply_def)
  have "tr_flags r = get_be16 (\<lambda>i. pkt_buf junk pkt (34 + i)) 12" by (simp add: r_def e1000_tcp_parse_reply_def)
  also have "\<dots> = get_be16 (\<lambda>i. pkt ! i) 46" using assms(1) by (simp add: get_be16_def pkt_buf_def)
  finally have f: "tr_flags r = 0x5014" using assms(2) by simp
  show ?thesis using p f by (intro exI [of _ r]) (simp add: tcp_events_def tcp_verdict_def)
qed

theorem tcp_reset_misread_witness:
  "\<exists>r. tcp_events (\<lambda>_. 0) 54 (replicate 46 0 @ [0x50, 0x14] @ replicate 6 0) = [Tcp_packet 54, Tcp_fields r, Syn_ack_received] \<and> tr_flags r AND 0x0004 \<noteq> 0"
  using tcp_reset_misread [of "replicate 46 0 @ [0x50, 0x14] @ replicate 6 0" "\<lambda>_. 0"] by (auto simp: get_be16_def nth_append)

end
