(* ===== verification/Spec2Isabelle.thy ===== *)
theory Spec2Isabelle
  imports Pmm Kheap Vmm Task Task_Life Sem Keyboard Ata Fat16 Ramfs_Ops File_Table Persist Inet E1000 Framebuffer Font Fb_Term Printf User_Lib Gui Cpu Panic Vga Pci Mouse Elf Syscall User_Calls Shell Programs Boot
begin

text \<open>
  A verification development for flyos, a small x86-64 operating system in C: the kernel under \<open>src/kernel\<close> and the
  user programs under \<open>src/user\<close>.  The definitions follow the C functions, with their names; the theorems state what
  the functions do on every branch, the invariants they keep, and what the parts do together.

  \<^bold>\<open>The program.\<close>  \<open>kmain\<close> sets up memory, devices and the desktop, loads the shell and starts the scheduler.  Physical pages come from
  a bitmap (\<open>mm/pmm.c\<close>), page tables are built from them (\<open>mm/vmm.c\<close>), and the kernel heap (\<open>mm/heap.c\<close>) serves the scheduler,
  the file system and the drivers.  Tasks stand in a ring (\<open>task/task.c\<close>), wait in queues and on semaphores (\<open>task/sem.c\<close>).  Files are
  nodes on the heap (\<open>fs/ramfs.c\<close>) reached through descriptors (\<open>fs/file.c\<close>), and saved to disk as one blob (\<open>fs/persist.c\<close>).  The
  keyboard and the timer work by interrupts; programs reach the kernel by the \<open>syscall\<close> instruction (\<open>arch/syscall.c\<close>).

  \<^bold>\<open>Common conventions.\<close>  C integers are machine words of their width, so that arithmetic wraps as in the code; \<open>int\<close> variables
  are integers, with the wrap-around written out (\<open>wrap32\<close>) where the code can overflow them: the counts of the semaphores and the calculator.  Memory is a map from 64-bit addresses to bytes.  Static variables and structs are records, passed and returned
  explicitly; structs reached by pointers are stores indexed by address.  \<open>None\<close> as the value of a function is a run that
  does not return (or undefined behaviour where the theory says so); failures the code reports are values.  A loop that may
  not end is a \<open>partial_function\<close>, and theorems about it say that it returns; other loops have termination proofs.  The hardware is a
  parameter with state \<open>'v\<close>: port operations, card registers, disk operations.

  \<^bold>\<open>Memory.\<close>
  \<^item> \<open>Flyos_Prelude\<close>: words, bytes, page arithmetic, and the collections of simplification rules.
  \<^item> \<open>Pmm\<close> (\<open>mm/pmm.c\<close>): the bitmap invariant, what initialisation from the multiboot map leaves free, and allocation through the interface
    \<open>page_allocator\<close>.
  \<^item> \<open>Kheap\<close>, \<open>Heap_Room\<close> (\<open>mm/heap.c\<close>): the block list as a partition of the heap; \<open>kmalloc\<close> and \<open>kfree\<close> against the interface
    \<open>allocator\<close>; budgets within which allocation cannot fail (\<open>roomy_allocator\<close>).  Headers are kept apart from the bytes of the blocks.
  \<^item> \<open>Vmm\<close>, \<open>Vmm_Frame\<close> (\<open>mm/vmm.c\<close>): page tables in byte memory; mapping, unmapping, splitting of large pages, the two clones; which memory a
    mapping leaves alone.
  \<^item> \<open>Elf\<close> (\<open>mm/user.c\<close>): the program loader and the user stack.

  \<^bold>\<open>Tasks.\<close>
  \<^item> \<open>Task\<close>, \<open>Task_Life\<close> (\<open>task/task.c\<close>): the ring, round-robin scheduling and its fairness, context switches, wait queues, creation, fork, sleep, kill,
    listing.  \<open>task_switch\<close>, which is assembly, is modelled by its effect on the stack pointers and by the frame it restores.
  \<^item> \<open>Sem\<close> (\<open>task/sem.c\<close>): counters and queues of the semaphores.  \<open>Fifo_Spec\<close> is the contract that the wait queues and the keyboard's ring share.

  \<^bold>\<open>Files and disks.\<close>
  \<^item> \<open>Ramfs\<close>, \<open>Ramfs_Tree\<close>, \<open>Ramfs_Blob\<close>, \<open>Ramfs_Ops\<close> (\<open>fs/ramfs.c\<close>): the linked nodes represent a tree of directories and files; creation, removal, reading and writing,
    paths, and the blob with its round trip.
  \<^item> \<open>File_Table\<close> (\<open>fs/file.c\<close>): descriptors as streams over the tree.  \<open>Persist\<close> (\<open>fs/persist.c\<close>): saving and loading over the interface \<open>disk\<close> of \<open>Block_Disk\<close>.
  \<^item> \<open>Ata\<close> (\<open>drivers/ata.c\<close>): the driver, which provides \<open>disk\<close> on a model of a drive that follows the PIO protocol: it is busy for a number of polls after
    commands and blocks and ignores the driver meanwhile, asks for each block, refuses ranges behind its end, and has a write cache that FLUSH moves
    to the medium.  \<open>drive_ok\<close> bounds its delays by the driver's limit of a million polls, and the caching of the last block by the four status reads before
    FLUSH; \<open>ata_flush_lost\<close> shows what happens on a slower drive.
    \<open>Fat16\<close> (\<open>fs/fat16.c\<close>): the driver of the FAT16 volume.

  \<^bold>\<open>Devices.\<close>  \<open>Cpu\<close> (\<open>arch/gdt.c\<close>, \<open>idt.c\<close>, \<open>irq.c\<close>, \<open>pic.c\<close>, \<open>pit.c\<close>, the registers set by \<open>syscall_init\<close>), \<open>Keyboard\<close>, \<open>Mouse\<close>, \<open>Pci\<close>, \<open>Vga\<close>, \<open>Inet\<close> and \<open>E1000\<close>
  (\<open>e1000.c\<close>, \<open>arp.c\<close>: packets and checksums, the rings of the card; a DNS query that does not fit its buffer of 256 bytes has the outcome \<open>Dns_overrun\<close>), \<open>Framebuffer\<close>, \<open>Font\<close>, \<open>Fb_Term\<close> (the screen, the pointer and the terminal, which refines a
  screen of characters), \<open>Gui\<close> (windows, focus and dragging), \<open>Printf\<close> (serial port and number output), \<open>Panic\<close>.

  \<^bold>\<open>The whole system.\<close>
  \<^item> \<open>Syscall\<close> (\<open>arch/syscall.c\<close>, \<open>fs/apps.c\<close>): the record \<open>kernel\<close> composes the states, with one heap and one physical memory, and \<open>syscall_dispatch\<close>
    is the dispatch over all calls; a call returns, waits for keys, ends its caller, or halts.
  \<^item> \<open>User_Lib\<close>, \<open>User_Calls\<close> (\<open>user/lib\<close>): the C library and the call wrappers.  The record \<open>os\<close> is the interface of the programs; \<open>kernel_os\<close> is the
    kernel behind it, and the wrappers are shown to reach exactly its operations.
  \<^item> \<open>Shell\<close> (\<open>user/init.c\<close>) and \<open>Programs\<close> (\<open>calc.c\<close>, \<open>game.c\<close>, \<open>hello.c\<close>, \<open>sysinfo.c\<close>): the programs over \<open>os\<close>.  What they need of the system is stated
    in the interfaces \<open>console\<close> and \<open>file_console\<close>, which the kernel provides while the program is alone with the console.
  \<^item> \<open>Boot\<close> (\<open>main.c\<close>): the timer interrupt, the network test, the desktop and the start of the first task.

  \<^bold>\<open>Bounds and fuel.\<close>  Recursions with a counter have the bound of the C loop: 30 tries of the network test, 32 pages of registers, 512 pages of heap, 16 words of a
  line, at most 24 frames of a stack walk.  Walks of page tables have at most four levels.  The interfaces of the disk assume sector numbers below \<open>2 ^ 28\<close>, and
  files are below \<open>2 ^ 31\<close> bytes where an \<open>int\<close> holds a length.

  \<^bold>\<open>Not modelled.\<close>  Debug output on the serial port, except what a user program or a panic sends there; delay loops; the assembly files beyond their effect on the
  state (entry and exit of system calls, \<open>task_switch\<close>, loading of tables); the linker script, the boot loader header and the build files.  Interrupts occur between
  operations, or while a system call waits for a key; preemption inside the kernel is not modelled.  \<open>kmain\<close> is modelled by its parts, not as one sequence.  After
  a fork a program's model follows one of the two processes.  There are no theorems about \<open>Fat16\<close> beyond termination and executability of its definitions.
\<close>

end
